(* ===== verification/Prelude.thy ===== *)
theory Prelude
  imports Main "HOL-Library.Multiset"
begin

text \<open>
  Shared vocabulary of the development: the outcomes of Rust code that can fail
  (\<open>fault\<close>, \<open>res\<close>), machine-word bounds, powers of two as
  \<^verbatim>\<open>usize::next_power_of_two\<close> computes them, and the generic facts on lists,
  filters and bit masks that the components share.
\<close>

named_theorems res_simps "evaluation of computations that may fault"
named_theorems list_facts "generic facts on lists updated by index"

unbundle bit_operations_syntax

section \<open>Faults and results\<close>

text \<open>
  \<open>IndexOutOfBounds\<close> is the panic of a slice index, \<open>UninitRead\<close> stands for the undefined
  behaviour of \<^verbatim>\<open>MaybeUninit::assume_init_read/_drop\<close> on a slot that holds no value,
  \<open>ArithOverflow\<close> for an arithmetic operation of the source whose result leaves the type
  (a panic with overflow checks, a silent wrap-around without), \<open>ExplicitPanic\<close> for a
  \<^verbatim>\<open>panic!\<close>, \<^verbatim>\<open>assert!\<close> or \<^verbatim>\<open>unwrap\<close> of the source, and \<open>Unreachable\<close>
  for \<^verbatim>\<open>unreachable!\<close> and \<^verbatim>\<open>unreachable_unchecked\<close>.
\<close>

datatype fault = IndexOutOfBounds | UninitRead | ArithOverflow | ExplicitPanic | Unreachable

type_synonym 'a res = "fault + 'a"

definition bind_res :: "'a res \<Rightarrow> ('a \<Rightarrow> 'b res) \<Rightarrow> 'b res" where
  "bind_res r f = (case r of Inl e \<Rightarrow> Inl e | Inr x \<Rightarrow> f x)"

lemma bind_res_simps [simp, res_simps]:
  "bind_res (Inr x) f = f x"
  "bind_res (Inl e) f = Inl e"
  by (simp_all add: bind_res_def)

lemma bind_res_Inr_iff:
  "bind_res r f = Inr y \<longleftrightarrow> (\<exists>x. r = Inr x \<and> f x = Inr y)"
  by (cases r) auto

lemma bind_res_cong [fundef_cong]:
  "r = r' \<Longrightarrow> (\<And>x. r' = Inr x \<Longrightarrow> f x = f' x) \<Longrightarrow> bind_res r f = bind_res r' f'"
  by (cases r') auto

text \<open>A slice read \<^verbatim>\<open>xs[i]\<close>, which panics out of range.\<close>

definition index_res :: "'a list \<Rightarrow> nat \<Rightarrow> 'a res" where
  "index_res xs i = (if i < length xs then Inr (xs ! i) else Inl IndexOutOfBounds)"

lemma index_res_in [simp, res_simps]: "i < length xs \<Longrightarrow> index_res xs i = Inr (xs ! i)"
  by (simp add: index_res_def)

lemma index_res_Inr_iff: "index_res xs i = Inr x \<longleftrightarrow> i < length xs \<and> xs ! i = x"
  by (auto simp: index_res_def)

section \<open>Machine words as bounded naturals\<close>

text \<open>
  Counters whose wrap-around is part of the code's design (the scheduler's packed word, the
  sleep mask) are words. Sequence numbers and sizes are naturals below \<open>u64_mod\<close>, with every
  operation that could leave the range written as a wrap or as a fault.
\<close>

definition u64_mod :: nat where
  "u64_mod = 2 ^ 64"

definition wrapping_add_u64 :: "nat \<Rightarrow> nat \<Rightarrow> nat" where
  "wrapping_add_u64 a b = (a + b) mod u64_mod"

definition wrapping_sub_u64 :: "nat \<Rightarrow> nat \<Rightarrow> nat" where
  "wrapping_sub_u64 a b = (a + (u64_mod - b mod u64_mod)) mod u64_mod"

definition add_u64 :: "nat \<Rightarrow> nat \<Rightarrow> nat res" where
  "add_u64 a b = (if a + b < u64_mod then Inr (a + b) else Inl ArithOverflow)"

definition sub_u64 :: "nat \<Rightarrow> nat \<Rightarrow> nat res" where
  "sub_u64 a b = (if b \<le> a then Inr (a - b) else Inl ArithOverflow)"

definition mul_u64 :: "nat \<Rightarrow> nat \<Rightarrow> nat res" where
  "mul_u64 a b = (if a * b < u64_mod then Inr (a * b) else Inl ArithOverflow)"

definition saturating_add_u64 :: "nat \<Rightarrow> nat \<Rightarrow> nat" where
  "saturating_add_u64 a b = min (a + b) (u64_mod - 1)"

definition saturating_mul_u64 :: "nat \<Rightarrow> nat \<Rightarrow> nat" where
  "saturating_mul_u64 a b = min (a * b) (u64_mod - 1)"

lemma u64_mod_pos [simp]: "0 < u64_mod" "u64_mod \<noteq> 0"
  by (simp_all add: u64_mod_def)

lemma wrapping_add_small [simp]: "a + b < u64_mod \<Longrightarrow> wrapping_add_u64 a b = a + b"
  by (simp add: wrapping_add_u64_def)

lemma wrapping_sub_small [simp]:
  assumes "b \<le> a" and "a < u64_mod"
  shows "wrapping_sub_u64 a b = a - b"
proof -
  from assms have "a + (u64_mod - b mod u64_mod) = (a - b) + u64_mod" by simp
  then have "wrapping_sub_u64 a b = ((a - b) + u64_mod) mod u64_mod"
    by (simp only: wrapping_sub_u64_def)
  also have "\<dots> = (a - b) mod u64_mod" by (rule mod_add_self2)
  finally show ?thesis using assms by simp
qed

lemma add_u64_Inr_iff: "add_u64 a b = Inr c \<longleftrightarrow> a + b < u64_mod \<and> c = a + b"
  by (auto simp: add_u64_def)

lemma sub_u64_Inr_iff: "sub_u64 a b = Inr c \<longleftrightarrow> b \<le> a \<and> c = a - b"
  by (auto simp: sub_u64_def)

lemma add_u64_in [simp, res_simps]: "a + b < u64_mod \<Longrightarrow> add_u64 a b = Inr (a + b)"
  by (simp add: add_u64_def)

lemma mul_u64_in [simp, res_simps]: "a * b < u64_mod \<Longrightarrow> mul_u64 a b = Inr (a * b)"
  by (simp add: mul_u64_def)

lemma sub_u64_in [simp, res_simps]: "b \<le> a \<Longrightarrow> sub_u64 a b = Inr (a - b)"
  by (simp add: sub_u64_def)

section \<open>Unsigned decimal parsing\<close>

text \<open>
  \<^verbatim>\<open>str::parse\<close> for an unsigned type of \<open>w\<close> bits: an optional plus sign and at least one
  decimal digit, nothing else, and a value that fits; everything else is an error.
\<close>

definition digit_value :: "char \<Rightarrow> nat option" where
  "digit_value c = (let n = of_char c in if 48 \<le> n \<and> n \<le> 57 then Some (n - 48) else None)"

fun parse_digits :: "nat \<Rightarrow> string \<Rightarrow> nat option" where
  "parse_digits acc [] = Some acc"
| "parse_digits acc (c # cs) =
     (case digit_value c of None \<Rightarrow> None | Some d \<Rightarrow> parse_digits (10 * acc + d) cs)"

definition parse_uint :: "nat \<Rightarrow> string \<Rightarrow> nat option" where
  "parse_uint w s =
     (let ds = (case s of c # cs \<Rightarrow> if c = CHR ''+'' then cs else s | [] \<Rightarrow> [])
      in if ds = [] then None
         else (case parse_digits 0 ds of None \<Rightarrow> None | Some n \<Rightarrow> if n < 2 ^ w then Some n else None))"

lemma parse_uint_lt: "parse_uint w s = Some n \<Longrightarrow> n < 2 ^ w"
  by (auto simp: parse_uint_def Let_def split: if_splits option.splits list.splits)

section \<open>Powers of two\<close>

text \<open>\<^verbatim>\<open>usize::next_power_of_two\<close>: the least power of two that is at least \<open>n\<close>.\<close>

fun next_power_of_two :: "nat \<Rightarrow> nat" where
  "next_power_of_two n = (if n \<le> 1 then 1 else 2 * next_power_of_two ((n + 1) div 2))"

declare next_power_of_two.simps [simp del]

definition npot_res :: "nat \<Rightarrow> nat res" where
  "npot_res n = (let p = next_power_of_two n in if p < u64_mod then Inr p else Inl ArithOverflow)"

definition is_pow2 :: "nat \<Rightarrow> bool" where
  "is_pow2 c \<longleftrightarrow> (\<exists>k. c = 2 ^ k)"

lemma is_pow2_pos: "is_pow2 c \<Longrightarrow> 0 < c"
  by (auto simp: is_pow2_def)

lemma is_pow2_double [intro]: "is_pow2 c \<Longrightarrow> is_pow2 (2 * c)"
  unfolding is_pow2_def by (metis power_Suc)

lemma is_pow2_one [simp]: "is_pow2 1" "is_pow2 (Suc 0)"
  unfolding is_pow2_def by (rule exI [of _ 0], simp)+

lemma next_power_of_two_pow2: "is_pow2 (next_power_of_two n)"
proof (induction n rule: next_power_of_two.induct)
  case (1 n)
  then show ?case
    by (auto simp: next_power_of_two.simps [of n])
qed

lemma next_power_of_two_ge: "n \<le> next_power_of_two n"
proof (induction n rule: next_power_of_two.induct)
  case (1 n)
  show ?case
  proof (cases "n \<le> 1")
    case False
    with 1 have "(n + 1) div 2 \<le> next_power_of_two ((n + 1) div 2)" by simp
    then have "n \<le> 2 * next_power_of_two ((n + 1) div 2)" by linarith
    with False show ?thesis by (simp add: next_power_of_two.simps [of n])
  qed (simp add: next_power_of_two.simps [of n])
qed

lemma next_power_of_two_least: "n \<le> 2 ^ k \<Longrightarrow> next_power_of_two n \<le> 2 ^ k"
proof (induction n arbitrary: k rule: next_power_of_two.induct)
  case (1 n)
  show ?case
  proof (cases "n \<le> 1")
    case False
    with "1.prems" obtain j where k: "k = Suc j" by (cases k) auto
    with "1.prems" have "(n + 1) div 2 \<le> 2 ^ j" by simp
    with "1.IH" False have "next_power_of_two ((n + 1) div 2) \<le> 2 ^ j" by simp
    with False k show ?thesis by (simp add: next_power_of_two.simps [of n])
  qed (simp add: next_power_of_two.simps [of n])
qed

lemma pow2_dvd: "is_pow2 c \<Longrightarrow> is_pow2 d \<Longrightarrow> c \<le> d \<Longrightarrow> c dvd d"
  by (auto simp: is_pow2_def le_imp_power_dvd)

lemma pow2_double_le:
  assumes "is_pow2 c" and "is_pow2 d" and "c < d"
  shows "2 * c \<le> d"
proof -
  from assms obtain k l where "c = 2 ^ k" "d = 2 ^ l" by (auto simp: is_pow2_def)
  with \<open>c < d\<close> have "k < l" by simp
  then have "(2::nat) ^ Suc k \<le> 2 ^ l" by (intro power_increasing) auto
  with \<open>c = 2 ^ k\<close> \<open>d = 2 ^ l\<close> show ?thesis by simp
qed

text \<open>Masking with \<open>c - 1\<close> for a power of two \<open>c\<close> is the remainder modulo \<open>c\<close>.\<close>

lemma and_pow2_mask:
  assumes "is_pow2 c"
  shows "(n::nat) AND (c - 1) = n mod c"
proof -
  from assms obtain k where "c = 2 ^ k" by (auto simp: is_pow2_def)
  then have "n AND (c - 1) = take_bit k n"
    by (simp only: take_bit_eq_mask mask_eq_exp_minus_1)
  with \<open>c = 2 ^ k\<close> show ?thesis by (simp add: take_bit_eq_mod)
qed

section \<open>Lists updated by index\<close>

lemma filter_update_length [list_facts]:
  assumes "i < length xs"
  shows "length (filter P (xs[i := y])) + (if P (xs ! i) then 1 else 0)
       = length (filter P xs) + (if P y then 1 else 0)"
  using assms
proof (induction xs arbitrary: i)
  case (Cons x xs)
  then show ?case by (cases i) auto
qed simp

lemma filter_pos_if_nth: "i < length xs \<Longrightarrow> P (xs ! i) \<Longrightarrow> 0 < length (filter P xs)"
  by (auto simp: filter_empty_conv)

lemma filter_length_0_nth: "length (filter P xs) = 0 \<Longrightarrow> i < length xs \<Longrightarrow> \<not> P (xs ! i)"
  by (auto simp: filter_empty_conv)

section \<open>Vectors\<close>

text \<open>
  A \<^verbatim>\<open>Vec\<close> with its capacity, which the fence compares and the slot buffers keep. The growth policy of the
  standard library is unspecified: \<open>grow cap needed\<close> is a parameter.
\<close>

record 'a vec =
  v_items :: "'a list"
  v_cap :: nat

definition vec_new :: "'a vec" where
  "vec_new = \<lparr>v_items = [], v_cap = 0\<rparr>"

definition vec_with_capacity :: "nat \<Rightarrow> 'a vec" where
  "vec_with_capacity c = \<lparr>v_items = [], v_cap = c\<rparr>"

definition vec_extend :: "(nat \<Rightarrow> nat \<Rightarrow> nat) \<Rightarrow> 'a vec \<Rightarrow> 'a list \<Rightarrow> 'a vec" where
  "vec_extend grow v xs =
     (let n = length (v_items v) + length xs in
      \<lparr>v_items = v_items v @ xs, v_cap = if n \<le> v_cap v then v_cap v else grow (v_cap v) n\<rparr>)"

definition vec_push :: "(nat \<Rightarrow> nat \<Rightarrow> nat) \<Rightarrow> 'a vec \<Rightarrow> 'a \<Rightarrow> 'a vec" where
  "vec_push grow v x = vec_extend grow v [x]"

lemma vec_items [simp]:
  "v_items (vec_push grow v x) = v_items v @ [x]"
  "v_items (vec_extend grow v xs) = v_items v @ xs"
  "v_items vec_new = []" "v_items (vec_with_capacity c) = []"
  by (simp_all add: vec_push_def vec_extend_def vec_new_def vec_with_capacity_def Let_def)

end
