(* ===== verification/Channel.thy ===== *)
theory Channel
  imports Prelude
begin

text \<open>
  The hand-off layer of \<^verbatim>\<open>crates/youpipe/src/handoff/channel.rs\<close>: the \<open>RecvItem\<close> and
  \<open>SendItem\<close> traits as records of operations, the batch staging and sending of the
  \<open>SendItem\<close> default methods, the claim primitive of the receive loops, and the channel
  endpoints themselves as one endpoint observes them.

  The other side of a channel runs concurrently. An endpoint's state therefore carries the
  schedule of what the environment will do between its own operations; statements quantify
  over all schedules. The ring and the waker protocol of the vendored \<^verbatim>\<open>crossfire\<close> crate
  are represented by the contract the wrappers document: first-in first-out delivery, and
  \<open>Closed\<close> only once the senders are gone and the ring is drained.
\<close>

section \<open>Errors and traits\<close>

datatype channel_error = ChanClosed

datatype 'a try_send_error = SendFull 'a | SendClosed 'a

datatype try_recv_error = RecvEmpty | RecvClosed

text \<open>
  The vendored crate's own error types and their one-for-one mapping.
\<close>

datatype 'a crossfire_try_send_error = CfFull 'a | CfSendDisconnected 'a

datatype crossfire_try_recv_error = CfEmpty | CfRecvDisconnected

fun map_send_err :: "'a crossfire_try_send_error \<Rightarrow> 'a try_send_error" where
  "map_send_err (CfFull v) = SendFull v"
| "map_send_err (CfSendDisconnected v) = SendClosed v"

fun map_recv_err :: "crossfire_try_recv_error \<Rightarrow> try_recv_error" where
  "map_recv_err CfEmpty = RecvEmpty"
| "map_recv_err CfRecvDisconnected = RecvClosed"

text \<open>
  A trait object is its dictionary. Receivers and senders are used through a shared
  reference, but their operations change the channel: each returns the next state.
\<close>

record ('r, 'a) recv_ops =
  op_recv :: "'r \<Rightarrow> (channel_error + 'a) \<times> 'r"
  op_try_recv :: "'r \<Rightarrow> (try_recv_error + 'a) \<times> 'r"
  op_try_recv_batch :: "'r \<Rightarrow> nat \<Rightarrow> 'a list \<times> 'r"
  op_is_disconnected :: "'r \<Rightarrow> bool \<times> 'r"

record ('s, 'a) send_ops =
  op_send :: "'s \<Rightarrow> 'a \<Rightarrow> (channel_error + unit) \<times> 's"
  op_try_send :: "'s \<Rightarrow> 'a \<Rightarrow> ('a try_send_error + unit) \<times> 's"
  op_try_send_batch :: "'s \<Rightarrow> 'a option list \<Rightarrow> (nat \<times> 'a option list \<times> 's) res"

section \<open>Batch sends\<close>

text \<open>
  \<open>stage_batch\<close> moves a batch into the staging scratch; a staged slot is \<open>None\<close> once its item
  is moved out. The default \<open>try_send_batch\<close> walks the slots with \<open>try_send\<close>.
\<close>

definition stage_batch :: "'a list \<Rightarrow> 'a list \<times> 'a option list" where
  "stage_batch batch = ([], map Some batch)"

function try_send_batch_default ::
    "('s \<Rightarrow> 'a \<Rightarrow> ('a try_send_error + unit) \<times> 's) \<Rightarrow> 's \<Rightarrow> 'a option list \<Rightarrow> nat \<Rightarrow>
     (nat \<times> 'a option list \<times> 's) res" where
  "try_send_batch_default try_send s vals n =
     (if n < length vals then
        (case vals ! n of
           None \<Rightarrow> Inl UninitRead
         | Some item \<Rightarrow>
             (case try_send s item of
                (Inr _, s') \<Rightarrow> try_send_batch_default try_send s' (vals[n := None]) (n + 1)
              | (Inl (SendFull it), s') \<Rightarrow> Inr (n, vals[n := Some it], s')
              | (Inl (SendClosed it), s') \<Rightarrow> Inr (n, vals[n := Some it], s')))
      else Inr (n, vals, s))"
  by pat_completeness auto
termination
  by (relation "measure (\<lambda>(t, s, vals, n). length vals - n)") auto

declare try_send_batch_default.simps [simp del]

text \<open>
  \<open>send_batch\<close>: one batch claim for the free prefix, then one blocking send per item. When a
  send reports the channel closed, the rest of the staged slots is dropped in place:
  \<open>drop_slots\<close> faults on a slot that was already moved out.
\<close>

fun drop_slots :: "'a option list \<Rightarrow> unit res" where
  "drop_slots [] = Inr ()"
| "drop_slots (None # ss) = Inl UninitRead"
| "drop_slots (Some _ # ss) = drop_slots ss"

function send_rest :: "('s, 'a) send_ops \<Rightarrow> 's \<Rightarrow> 'a option list \<Rightarrow> nat \<Rightarrow> (bool \<times> 's) res" where
  "send_rest S s staged j =
     (if j < length staged then
        (case staged ! j of
           None \<Rightarrow> Inl UninitRead
         | Some item \<Rightarrow>
             (case op_send S s item of
                (Inr _, s') \<Rightarrow> send_rest S s' (staged[j := None]) (j + 1)
              | (Inl ChanClosed, s') \<Rightarrow>
                  bind_res (drop_slots (drop (j + 1) staged)) (\<lambda>_. Inr (False, s'))))
      else Inr (True, s))"
  by pat_completeness auto
termination
  by (relation "measure (\<lambda>(S, s, staged, j). length staged - j)") auto

declare send_rest.simps [simp del]

definition send_batch :: "('s, 'a) send_ops \<Rightarrow> 's \<Rightarrow> 'a list \<Rightarrow> (bool \<times> 'a list \<times> 's) res" where
  "send_batch S s batch =
     (if batch = [] then Inr (True, [], s)
      else let (batch', staged) = stage_batch batch in
        bind_res (op_try_send_batch S s staged) (\<lambda>(sent, staged', s').
        bind_res (send_rest S s' staged' sent) (\<lambda>(ok, s'').
        Inr (ok, batch', s''))))"

section \<open>Claims\<close>

text \<open>\<open>claim_poll\<close>: the claimed items are the new contents of the scratch vector.\<close>

datatype claim = Ready nat | ClaimEmpty | ClaimClosed

definition claim_one :: "('r, 'a) recv_ops \<Rightarrow> 'r \<Rightarrow> claim \<times> 'a list \<times> 'r" where
  "claim_one R r =
     (case op_try_recv R r of
        (Inr item, r') \<Rightarrow> (Ready 1, [item], r')
      | (Inl RecvEmpty, r') \<Rightarrow> (ClaimEmpty, [], r')
      | (Inl RecvClosed, r') \<Rightarrow> (ClaimClosed, [], r'))"

definition claim_poll :: "('r, 'a) recv_ops \<Rightarrow> 'r \<Rightarrow> nat \<Rightarrow> nat \<Rightarrow> claim \<times> 'a list \<times> 'r" where
  "claim_poll R r spare batch_cap =
     (if batch_cap > 0 then
        (case op_try_recv_batch R r spare of (xs, r1) \<Rightarrow>
           if length xs > 0 then (Ready (length xs), xs, r1)
           else (case op_is_disconnected R r1 of (gone, r2) \<Rightarrow>
             if \<not> gone then (ClaimEmpty, [], r2) else claim_one R r2))
      else claim_one R r)"

section \<open>Endpoints\<close>

text \<open>
  The receiving endpoint: \<open>ch_ready\<close> is the ring as this consumer sees it, \<open>ch_future\<close> what
  the senders will still do. Before each of the consumer's operations the environment runs up
  to the next \<open>Lull\<close>; when the schedule is exhausted the last sender is gone. Items another
  consumer of the same ring takes are not part of this consumer's schedule, and a claim that
  loses a race against it is a \<open>Lull\<close>.
\<close>

datatype 'a arrival = Arrive 'a | Lull

record 'a chan =
  ch_ready :: "'a list"
  ch_future :: "'a arrival list"

fun run_senders :: "'a arrival list \<Rightarrow> 'a list \<times> 'a arrival list" where
  "run_senders [] = ([], [])"
| "run_senders (Lull # f) = ([], f)"
| "run_senders (Arrive x # f) = (case run_senders f of (xs, f') \<Rightarrow> (x # xs, f'))"

definition chan_tick :: "'a chan \<Rightarrow> 'a chan" where
  "chan_tick c = (case run_senders (ch_future c) of (xs, f) \<Rightarrow>
     c\<lparr>ch_ready := ch_ready c @ xs, ch_future := f\<rparr>)"

fun await_item :: "'a arrival list \<Rightarrow> ('a \<times> 'a arrival list) option" where
  "await_item [] = None"
| "await_item (Lull # f) = await_item f"
| "await_item (Arrive x # f) = Some (x, f)"

definition chan_recv :: "'a chan \<Rightarrow> (channel_error + 'a) \<times> 'a chan" where
  "chan_recv c =
     (case ch_ready c of
        x # q \<Rightarrow> (Inr x, c\<lparr>ch_ready := q\<rparr>)
      | [] \<Rightarrow> (case await_item (ch_future c) of
                None \<Rightarrow> (Inl ChanClosed, c\<lparr>ch_future := []\<rparr>)
              | Some (x, f) \<Rightarrow> (Inr x, c\<lparr>ch_future := f\<rparr>)))"

definition chan_cf_try_recv :: "'a chan \<Rightarrow> (crossfire_try_recv_error + 'a) \<times> 'a chan" where
  "chan_cf_try_recv c =
     (let c' = chan_tick c in
      case ch_ready c' of
        x # q \<Rightarrow> (Inr x, c'\<lparr>ch_ready := q\<rparr>)
      | [] \<Rightarrow> (Inl (if ch_future c' = [] then CfRecvDisconnected else CfEmpty), c'))"

definition chan_try_recv :: "'a chan \<Rightarrow> (try_recv_error + 'a) \<times> 'a chan" where
  "chan_try_recv c =
     (case chan_cf_try_recv c of
        (Inr x, c') \<Rightarrow> (Inr x, c')
      | (Inl e, c') \<Rightarrow> (Inl (map_recv_err e), c'))"

definition chan_try_recv_batch :: "'a chan \<Rightarrow> nat \<Rightarrow> 'a list \<times> 'a chan" where
  "chan_try_recv_batch c n =
     (let c' = chan_tick c in (take n (ch_ready c'), c'\<lparr>ch_ready := drop n (ch_ready c')\<rparr>))"

definition chan_is_disconnected :: "'a chan \<Rightarrow> bool \<times> 'a chan" where
  "chan_is_disconnected c = (let c' = chan_tick c in (ch_future c' = [], c'))"

definition chan_recv_ops :: "('a chan, 'a) recv_ops" where
  "chan_recv_ops = \<lparr>op_recv = chan_recv, op_try_recv = chan_try_recv,
     op_try_recv_batch = chan_try_recv_batch, op_is_disconnected = chan_is_disconnected\<rparr>"

text \<open>
  The sending endpoint: \<open>tx_sent\<close> are the items delivered so far, \<open>tx_accepts\<close> how many more
  the receivers take before the last of them goes away (\<open>None\<close>: they stay), \<open>tx_room\<close> the free
  slots the ring shows at this endpoint's successive non-blocking operations (when the list is
  exhausted the ring is always free).
\<close>

record 'a chan_tx =
  tx_sent :: "'a list"
  tx_accepts :: "nat option"
  tx_room :: "nat list"

definition tx_gone :: "'a chan_tx \<Rightarrow> bool" where
  "tx_gone t \<longleftrightarrow> tx_accepts t = Some 0"

definition tx_deliver :: "'a chan_tx \<Rightarrow> 'a list \<Rightarrow> 'a chan_tx" where
  "tx_deliver t xs = t\<lparr>tx_sent := tx_sent t @ xs,
     tx_accepts := map_option (\<lambda>n. n - length xs) (tx_accepts t)\<rparr>"

definition chan_send :: "'a chan_tx \<Rightarrow> 'a \<Rightarrow> (channel_error + unit) \<times> 'a chan_tx" where
  "chan_send t x = (if tx_gone t then (Inl ChanClosed, t) else (Inr (), tx_deliver t [x]))"

definition chan_cf_try_send ::
    "'a chan_tx \<Rightarrow> 'a \<Rightarrow> ('a crossfire_try_send_error + unit) \<times> 'a chan_tx" where
  "chan_cf_try_send t x =
     (if tx_gone t then (Inl (CfSendDisconnected x), t)
      else case tx_room t of
        [] \<Rightarrow> (Inr (), tx_deliver t [x])
      | room # rooms \<Rightarrow>
          if room = 0 then (Inl (CfFull x), t\<lparr>tx_room := rooms\<rparr>)
          else (Inr (), (tx_deliver t [x])\<lparr>tx_room := rooms\<rparr>))"

definition chan_try_send :: "'a chan_tx \<Rightarrow> 'a \<Rightarrow> ('a try_send_error + unit) \<times> 'a chan_tx" where
  "chan_try_send t x =
     (case chan_cf_try_send t x of
        (Inr _, t') \<Rightarrow> (Inr (), t')
      | (Inl e, t') \<Rightarrow> (Inl (map_send_err e), t'))"

text \<open>
  The native batch send moves out the longest prefix that fits; every slot must hold an item.
\<close>

fun read_slots :: "'a option list \<Rightarrow> 'a list res" where
  "read_slots [] = Inr []"
| "read_slots (None # ss) = Inl UninitRead"
| "read_slots (Some x # ss) = bind_res (read_slots ss) (\<lambda>xs. Inr (x # xs))"

definition chan_try_send_batch ::
    "'a chan_tx \<Rightarrow> 'a option list \<Rightarrow> (nat \<times> 'a option list \<times> 'a chan_tx) res" where
  "chan_try_send_batch t vals =
     bind_res (read_slots vals) (\<lambda>xs.
     let room = (case tx_room t of [] \<Rightarrow> length xs | r # _ \<Rightarrow> min r (length xs));
         n = (case tx_accepts t of None \<Rightarrow> room | Some a \<Rightarrow> min a room)
     in Inr (n, replicate n None @ drop n vals, (tx_deliver t (take n xs))\<lparr>tx_room := tl (tx_room t)\<rparr>))"

definition chan_send_ops :: "('a chan_tx, 'a) send_ops" where
  "chan_send_ops = \<lparr>op_send = chan_send, op_try_send = chan_try_send,
     op_try_send_batch = chan_try_send_batch\<rparr>"

section \<open>The receiver contract\<close>

text \<open>
  What the receive loops rely on. \<open>remaining\<close> is every item the receiver will still deliver.
\<close>

locale receiver =
  fixes R :: "('r, 'a) recv_ops" and remaining :: "'r \<Rightarrow> 'a list"
  assumes recv_ok: "op_recv R r = (Inr x, r') \<Longrightarrow> remaining r = x # remaining r'"
    and recv_closed: "op_recv R r = (Inl e, r') \<Longrightarrow> remaining r = [] \<and> remaining r' = []"
    and try_ok: "op_try_recv R r = (Inr x, r') \<Longrightarrow> remaining r = x # remaining r'"
    and try_empty: "op_try_recv R r = (Inl RecvEmpty, r') \<Longrightarrow> remaining r' = remaining r"
    and try_closed: "op_try_recv R r = (Inl RecvClosed, r') \<Longrightarrow> remaining r = [] \<and> remaining r' = []"
    and batch: "op_try_recv_batch R r n = (xs, r') \<Longrightarrow> remaining r = xs @ remaining r'"
    and disconnected: "op_is_disconnected R r = (d, r') \<Longrightarrow> remaining r' = remaining r"
begin

text \<open>A claim takes a prefix of what remains, non-empty exactly when it reports \<open>Ready\<close>.\<close>

definition claim_ok :: "claim \<Rightarrow> 'a list \<Rightarrow> 'r \<Rightarrow> 'r \<Rightarrow> bool" where
  "claim_ok c xs r r' \<longleftrightarrow> remaining r = xs @ remaining r' \<and>
     (case c of Ready n \<Rightarrow> n = length xs \<and> n > 0 | ClaimEmpty \<Rightarrow> xs = []
      | ClaimClosed \<Rightarrow> xs = [] \<and> remaining r = [])"

lemma claim_one_ok: "claim_one R r = (c, xs, r') \<Longrightarrow> claim_ok c xs r r'"
  by (auto simp: claim_one_def claim_ok_def dest: try_ok try_empty try_closed
      split: prod.splits sum.splits try_recv_error.splits)

lemma claim_poll_ok:
  assumes "claim_poll R r spare cap = (c, xs, r')"
  shows "claim_ok c xs r r'"
proof (cases "cap > 0")
  case False
  with assms show ?thesis by (intro claim_one_ok) (simp add: claim_poll_def)
next
  case True
  obtain ys r1 where b: "op_try_recv_batch R r spare = (ys, r1)" by fastforce
  obtain d r2 where d: "op_is_disconnected R r1 = (d, r2)" by fastforce
  have rem: "remaining r = ys @ remaining r1" "remaining r2 = remaining r1"
    using batch [OF b] disconnected [OF d] by simp_all
  show ?thesis
  proof (cases "ys = [] \<and> d")
    case False
    with True assms b d rem show ?thesis
      by (auto simp: claim_poll_def claim_ok_def split: if_splits)
  next
    case both: True
    with True assms b d have "claim_one R r2 = (c, xs, r')" by (simp add: claim_poll_def)
    from claim_one_ok [OF this] show ?thesis using rem both
      by (auto simp: claim_ok_def split: claim.splits)
  qed
qed

end

section \<open>The sender contract\<close>

locale sender =
  fixes S :: "('s, 'a) send_ops" and delivered :: "'s \<Rightarrow> 'a list" and gone :: "'s \<Rightarrow> bool"
  assumes send_ok: "op_send S s x = (Inr (), s') \<Longrightarrow> delivered s' = delivered s @ [x]"
    and send_closed: "op_send S s x = (Inl e, s') \<Longrightarrow> delivered s' = delivered s \<and> gone s'"
    and send_batch_ok: "\<exists>n s'. op_try_send_batch S s (map Some xs)
        = Inr (n, replicate n None @ map Some (drop n xs), s') \<and> n \<le> length xs \<and>
          delivered s' = delivered s @ take n xs"
begin

lemma drop_slots_some: "drop_slots (map Some xs) = Inr ()"
  by (induction xs) auto

lemma send_rest_spec:
  assumes "j \<le> length xs"
  shows "\<exists>k s'. send_rest S s (replicate j None @ map Some (drop j xs)) j = Inr (k = length xs, s') \<and>
      j \<le> k \<and> k \<le> length xs \<and> delivered s' = delivered s @ take (k - j) (drop j xs) \<and>
      (k = length xs \<or> gone s')"
  using assms
proof (induction "length xs - j" arbitrary: j s)
  case 0
  then show ?case by (auto simp: send_rest.simps [of S s])
next
  case (Suc d)
  let ?st = "replicate j None @ map Some (drop j xs)"
  have lt: "j < length xs" using Suc.hyps by simp
  have nth: "?st ! j = Some (xs ! j)" "j < length ?st" using lt by (simp_all add: nth_append)
  have split: "drop j xs = xs ! j # drop (Suc j) xs" using lt by (simp add: Cons_nth_drop_Suc)
  have upd: "?st[j := None] = replicate (Suc j) None @ map Some (drop (Suc j) xs)"
    by (simp add: split list_update_append replicate_app_Cons_same)
  show ?case
  proof (cases "op_send S s (xs ! j)")
    case (Pair res s1)
    show ?thesis
    proof (cases res)
      case (Inl e)
      then have "send_rest S s ?st j = Inr (False, s1)"
        using Pair nth split by (cases e) (simp add: send_rest.simps [of S s] drop_slots_some)
      moreover have "delivered s1 = delivered s" "gone s1"
        using send_closed [of s "xs ! j" e s1] Pair Inl by simp_all
      ultimately show ?thesis using lt by (intro exI [of _ j] exI [of _ s1]) simp
    next
      case (Inr u)
      then have step: "send_rest S s ?st j
          = send_rest S s1 (replicate (Suc j) None @ map Some (drop (Suc j) xs)) (Suc j)"
        using Pair nth upd by (simp add: send_rest.simps [of S s])
      have del: "delivered s1 = delivered s @ [xs ! j]"
        using send_ok [of s "xs ! j" s1] Pair Inr by simp
      have "d = length xs - Suc j" "Suc j \<le> length xs" using Suc.hyps(2) lt by simp_all
      from Suc.hyps(1) [OF this, of s1] obtain k s' where
        k: "send_rest S s1 (replicate (Suc j) None @ map Some (drop (Suc j) xs)) (Suc j)
            = Inr (k = length xs, s')" "Suc j \<le> k" "k \<le> length xs"
          "delivered s' = delivered s1 @ take (k - Suc j) (drop (Suc j) xs)"
          "k = length xs \<or> gone s'" by blast
      have "take (k - j) (drop j xs) = xs ! j # take (k - Suc j) (drop (Suc j) xs)"
        using split k(2) by (simp add: take_Cons')
      with k step del show ?thesis by (intro exI [of _ k] exI [of _ s']) simp
    qed
  qed
qed

text \<open>
  A batch send never touches a moved-out slot, drains the batch, and delivers a prefix of it
  in order: all of it exactly when it reports success.
\<close>

lemma send_batch_spec:
  "\<exists>k s'. send_batch S s xs = Inr (k = length xs, [], s') \<and> k \<le> length xs \<and>
     delivered s' = delivered s @ take k xs \<and> (k = length xs \<or> gone s')"
proof (cases "xs = []")
  case True
  then show ?thesis by (simp add: send_batch_def)
next
  case False
  from send_batch_ok [of s xs] obtain n s1 where
    n: "op_try_send_batch S s (map Some xs) = Inr (n, replicate n None @ map Some (drop n xs), s1)"
      "n \<le> length xs" "delivered s1 = delivered s @ take n xs" by blast
  from send_rest_spec [OF n(2), of s1] obtain k s' where
    k: "send_rest S s1 (replicate n None @ map Some (drop n xs)) n = Inr (k = length xs, s')"
      "n \<le> k" "k \<le> length xs" "delivered s' = delivered s1 @ take (k - n) (drop n xs)"
      "k = length xs \<or> gone s'" by blast
  have "take k xs = take n xs @ take (k - n) (drop n xs)"
    using k(2) by (metis le_add_diff_inverse take_add)
  with False n k show ?thesis
    by (intro exI [of _ k] exI [of _ s']) (simp add: send_batch_def stage_batch_def)
qed

end

section \<open>The endpoints satisfy the contracts\<close>

fun arrivals :: "'a arrival list \<Rightarrow> 'a list" where
  "arrivals [] = []"
| "arrivals (Lull # f) = arrivals f"
| "arrivals (Arrive x # f) = x # arrivals f"

definition chan_remaining :: "'a chan \<Rightarrow> 'a list" where
  "chan_remaining c = ch_ready c @ arrivals (ch_future c)"

lemma run_senders_arrivals: "run_senders f = (xs, f') \<Longrightarrow> arrivals f = xs @ arrivals f'"
  by (induction f arbitrary: xs f' rule: run_senders.induct) (auto split: prod.splits)

lemma await_item_arrivals:
  "await_item f = None \<Longrightarrow> arrivals f = []"
  "await_item f = Some (x, f') \<Longrightarrow> arrivals f = x # arrivals f'"
  by (induction f rule: await_item.induct) auto

lemma chan_tick_remaining: "chan_remaining (chan_tick c) = chan_remaining c"
  by (auto simp: chan_tick_def chan_remaining_def dest: run_senders_arrivals split: prod.splits)

lemma chan_try_recv_cases:
  "chan_try_recv c = (Inr x, c') \<Longrightarrow> chan_remaining (chan_tick c) = x # chan_remaining c'"
  "chan_try_recv c = (Inl RecvEmpty, c') \<Longrightarrow> c' = chan_tick c"
  "chan_try_recv c = (Inl RecvClosed, c') \<Longrightarrow> c' = chan_tick c \<and> chan_remaining c' = []"
  by (auto simp: chan_try_recv_def chan_cf_try_recv_def Let_def chan_remaining_def
      split: list.splits if_splits)

interpretation chan: receiver chan_recv_ops chan_remaining
proof (unfold_locales, goal_cases)
  case (1 c x c')
  then show ?case
    by (auto simp: chan_recv_ops_def chan_recv_def chan_remaining_def await_item_arrivals
        split: list.splits option.splits)
next
  case (2 c e c')
  then show ?case
    by (auto simp: chan_recv_ops_def chan_recv_def chan_remaining_def await_item_arrivals
        split: list.splits option.splits)
next
  case (3 c x c')
  then have "chan_try_recv c = (Inr x, c')" by (simp add: chan_recv_ops_def)
  from chan_try_recv_cases(1) [OF this] show ?case by (simp add: chan_tick_remaining)
next
  case (4 c c')
  then have "chan_try_recv c = (Inl RecvEmpty, c')" by (simp add: chan_recv_ops_def)
  from chan_try_recv_cases(2) [OF this] show ?case by (simp add: chan_tick_remaining)
next
  case (5 c c')
  then have "chan_try_recv c = (Inl RecvClosed, c')" by (simp add: chan_recv_ops_def)
  from chan_try_recv_cases(3) [OF this] show ?case using chan_tick_remaining [of c] by auto
next
  case (6 c n xs c')
  then have c': "c' = (chan_tick c)\<lparr>ch_ready := drop n (ch_ready (chan_tick c))\<rparr>"
    and xs: "xs = take n (ch_ready (chan_tick c))"
    by (auto simp: chan_recv_ops_def chan_try_recv_batch_def Let_def)
  have "chan_remaining (chan_tick c) = xs @ chan_remaining c'"
    by (simp add: c' xs chan_remaining_def)
  then show ?case by (simp add: chan_tick_remaining)
next
  case (7 c d c')
  then show ?case
    by (auto simp: chan_recv_ops_def chan_is_disconnected_def Let_def chan_tick_remaining)
qed

lemma read_slots_some: "read_slots (map Some xs) = Inr xs"
  by (induction xs) auto

lemma tx_deliver_sent [simp]: "tx_sent (tx_deliver t xs) = tx_sent t @ xs"
  by (simp add: tx_deliver_def)

interpretation chan_tx: sender chan_send_ops tx_sent tx_gone
proof (unfold_locales, goal_cases)
  case (1 t x t')
  then show ?case by (auto simp: chan_send_ops_def chan_send_def split: if_splits)
next
  case (2 t x e t')
  then show ?case by (auto simp: chan_send_ops_def chan_send_def split: if_splits)
next
  case (3 t xs)
  let ?room = "case tx_room t of [] \<Rightarrow> length xs | r # _ \<Rightarrow> min r (length xs)"
  let ?n = "case tx_accepts t of None \<Rightarrow> ?room | Some a \<Rightarrow> min a ?room"
  have "?n \<le> length xs" by (auto split: option.splits list.splits)
  then show ?case
    by (intro exI [of _ ?n] exI [of _ "(tx_deliver t (take ?n xs))\<lparr>tx_room := tl (tx_room t)\<rparr>"])
       (simp add: chan_send_ops_def chan_try_send_batch_def read_slots_some Let_def drop_map)
qed

text \<open>
  The default batch send, built from single sends, meets the batch law of the contract.
\<close>

lemma try_send_batch_default_spec:
  assumes ok: "\<And>s x s'. try_send s x = (Inr (), s') \<Longrightarrow> del s' = del s @ [x]"
    and err: "\<And>s x e s'. try_send s x = (Inl e, s') \<Longrightarrow>
      del s' = del s \<and> (e = SendFull x \<or> e = SendClosed x)"
    and "j \<le> length xs"
  shows "\<exists>n s'. try_send_batch_default try_send s (replicate j None @ map Some (drop j xs)) j
      = Inr (n, replicate n None @ map Some (drop n xs), s') \<and> j \<le> n \<and> n \<le> length xs \<and>
        del s' = del s @ take (n - j) (drop j xs)"
  using assms(3)
proof (induction "length xs - j" arbitrary: j s)
  case 0
  then show ?case by (auto simp: try_send_batch_default.simps [of try_send s])
next
  case (Suc d)
  let ?st = "replicate j None @ map Some (drop j xs)"
  have lt: "j < length xs" using Suc.hyps by simp
  have nth: "?st ! j = Some (xs ! j)" "j < length ?st" using lt by (simp_all add: nth_append)
  have split: "drop j xs = xs ! j # drop (Suc j) xs" using lt by (simp add: Cons_nth_drop_Suc)
  have upd: "?st[j := y] = replicate j None @ y # map Some (drop (Suc j) xs)" for y
    by (simp add: split list_update_append)
  show ?case
  proof (cases "try_send s (xs ! j)")
    case (Pair res s1)
    show ?thesis
    proof (cases res)
      case (Inl e)
      note err [of s "xs ! j" e s1]
      with Pair Inl have "del s1 = del s" "e = SendFull (xs ! j) \<or> e = SendClosed (xs ! j)" by simp_all
      then show ?thesis using Pair Inl nth upd lt split
        by (intro exI [of _ j] exI [of _ s1]) (auto simp: try_send_batch_default.simps [of try_send s])
    next
      case (Inr u)
      have shift: "replicate j None @ None # map Some (drop (Suc j) xs)
          = replicate (Suc j) None @ map Some (drop (Suc j) xs)"
        by (simp add: replicate_append_same [symmetric])
      have step: "try_send_batch_default try_send s ?st j
          = try_send_batch_default try_send s1 (replicate (Suc j) None @ map Some (drop (Suc j) xs)) (Suc j)"
        using Pair Inr nth upd [of None] shift by (simp add: try_send_batch_default.simps [of try_send s])
      have del: "del s1 = del s @ [xs ! j]" using ok [of s "xs ! j" s1] Pair Inr by simp
      have "d = length xs - Suc j" "Suc j \<le> length xs" using Suc.hyps(2) lt by simp_all
      from Suc.hyps(1) [OF this, of s1] obtain n s' where
        n: "try_send_batch_default try_send s1 (replicate (Suc j) None @ map Some (drop (Suc j) xs)) (Suc j)
            = Inr (n, replicate n None @ map Some (drop n xs), s')" "Suc j \<le> n" "n \<le> length xs"
          "del s' = del s1 @ take (n - Suc j) (drop (Suc j) xs)" by blast
      have "take (n - j) (drop j xs) = xs ! j # take (n - Suc j) (drop (Suc j) xs)"
        using split n(2) by (simp add: take_Cons')
      with n step del show ?thesis by (intro exI [of _ n] exI [of _ s']) simp
    qed
  qed
qed

end
