(* ===== verification/Cancel.thy ===== *)
theory Cancel
  imports Prelude
begin

text \<open>
  Cooperative cancellation, \<^verbatim>\<open>crates/youpipe/src/sync/cancel.rs\<close>. A token is a shared
  \<^verbatim>\<open>Arc<AtomicBool>\<close>: the flags live in a store indexed by address, a token is an address,
  and cloning a token copies the address. \<open>RunOutcome\<close> classifies a finished run by one read
  of the token.
\<close>

section \<open>Tokens\<close>

record cancel_store =
  flag_of :: "nat \<Rightarrow> bool option"
  next_flag :: nat

datatype cancellation_token = CancellationToken nat

definition token_new :: "cancel_store \<Rightarrow> cancellation_token \<times> cancel_store" where
  "token_new h = (CancellationToken (next_flag h),
     h\<lparr>flag_of := (flag_of h)(next_flag h \<mapsto> False), next_flag := Suc (next_flag h)\<rparr>)"

definition token_clone :: "cancellation_token \<Rightarrow> cancellation_token" where
  "token_clone t = (case t of CancellationToken a \<Rightarrow> CancellationToken a)"

definition token_cancel :: "cancel_store \<Rightarrow> cancellation_token \<Rightarrow> cancel_store" where
  "token_cancel h t = (case t of CancellationToken a \<Rightarrow> h\<lparr>flag_of := (flag_of h)(a \<mapsto> True)\<rparr>)"

definition token_is_cancelled :: "cancel_store \<Rightarrow> cancellation_token \<Rightarrow> bool" where
  "token_is_cancelled h t = (case t of CancellationToken a \<Rightarrow> flag_of h a = Some True)"

text \<open>\<^verbatim>\<open>cancel.is_some_and(CancellationToken::is_cancelled)\<close>, the form every caller uses.\<close>

definition cancel_active :: "cancel_store \<Rightarrow> cancellation_token option \<Rightarrow> bool" where
  "cancel_active h c = (case c of None \<Rightarrow> False | Some t \<Rightarrow> token_is_cancelled h t)"

section \<open>Run outcomes\<close>

datatype 'o run_outcome = Completed 'o | Cancelled (partial: 'o) (emitted: nat)

definition outcome_is_cancelled :: "'o run_outcome \<Rightarrow> bool" where
  "outcome_is_cancelled r = (case r of Cancelled _ _ \<Rightarrow> True | Completed _ \<Rightarrow> False)"

definition outcome_into_inner :: "'o run_outcome \<Rightarrow> 'o" where
  "outcome_into_inner r = (case r of Completed out \<Rightarrow> out | Cancelled out _ \<Rightarrow> out)"

definition classify :: "cancel_store \<Rightarrow> 'o \<Rightarrow> nat \<Rightarrow> cancellation_token option \<Rightarrow> 'o run_outcome" where
  "classify h out n cancel =
     (if cancel_active h cancel then Cancelled out n else Completed out)"

section \<open>Behaviour\<close>

text \<open>
  Every allocated flag lies below \<open>next_flag\<close>, so a new token is distinct from all others.
\<close>

definition store_wf :: "cancel_store \<Rightarrow> bool" where
  "store_wf h \<longleftrightarrow> (\<forall>a. flag_of h a \<noteq> None \<longrightarrow> a < next_flag h)"

definition token_live :: "cancel_store \<Rightarrow> cancellation_token \<Rightarrow> bool" where
  "token_live h t = (case t of CancellationToken a \<Rightarrow> flag_of h a \<noteq> None)"

datatype token_op = OpNew | OpClone cancellation_token | OpCancel cancellation_token

fun run_token_op :: "cancel_store \<Rightarrow> token_op \<Rightarrow> cancel_store" where
  "run_token_op h OpNew = snd (token_new h)"
| "run_token_op h (OpClone t) = h"
| "run_token_op h (OpCancel t) = token_cancel h (token_clone t)"

lemma run_token_op_wf:
  "store_wf h \<Longrightarrow> (\<And>t. op = OpCancel t \<Longrightarrow> token_live h t) \<Longrightarrow> store_wf (run_token_op h op)"
  by (cases op)
     (auto simp: store_wf_def token_new_def token_cancel_def token_clone_def token_live_def
        less_Suc_eq split: cancellation_token.splits)

lemma run_token_op_live:
  "token_live h t \<Longrightarrow> token_live (run_token_op h op) t"
  by (cases op)
     (auto simp: token_live_def token_new_def token_cancel_def token_clone_def
        split: cancellation_token.splits)

lemma run_token_op_cancelled:
  assumes "store_wf h" "token_live h t"
  shows "token_is_cancelled (run_token_op h op) t \<longleftrightarrow> token_is_cancelled h t \<or> op = OpCancel t"
  using assms
  by (cases op; cases t)
     (auto simp: token_is_cancelled_def token_new_def token_cancel_def token_clone_def store_wf_def
        token_live_def split: cancellation_token.splits)

fun ops_live :: "cancel_store \<Rightarrow> token_op list \<Rightarrow> bool" where
  "ops_live h [] = True"
| "ops_live h (op # ops) =
     ((case op of OpCancel t \<Rightarrow> token_live h t | OpClone t \<Rightarrow> token_live h t | OpNew \<Rightarrow> True) \<and>
      ops_live (run_token_op h op) ops)"

lemma fold_token_ops:
  assumes "store_wf h" "token_live h t" "ops_live h ops"
  shows "token_is_cancelled (foldl run_token_op h ops) t \<longleftrightarrow>
     token_is_cancelled h t \<or> OpCancel t \<in> set ops"
  using assms
proof (induction ops arbitrary: h)
  case (Cons op ops)
  have "store_wf (run_token_op h op)" using Cons.prems by (intro run_token_op_wf) auto
  with Cons show ?case by (auto simp: run_token_op_live run_token_op_cancelled)
qed simp

text \<open>
  A token is cancelled exactly when one of its clones was: after any sequence of creations,
  clones and cancellations, \<open>is_cancelled\<close> on a token, read through any clone, is true if and only
  if the token was cancelled before or a \<open>cancel\<close> on one of its clones is in the sequence;
  cancelling an unrelated token has no effect, and a cancelled token stays cancelled.
\<close>

theorem cancellation_visible_exactly:
  assumes "store_wf h" and "token_live h t" and "ops_live h ops"
  shows "token_is_cancelled (foldl run_token_op h ops) (token_clone t) \<longleftrightarrow>
     token_is_cancelled h t \<or> OpCancel t \<in> set ops"
  using fold_token_ops [OF assms] by (cases t) (simp add: token_clone_def)

theorem cancellation_visible_exactly_witness:
  "\<exists>h t u. store_wf h \<and> token_live h t \<and> token_live h u \<and>
     token_is_cancelled (foldl run_token_op h [OpClone t, OpCancel t]) (token_clone t) \<and>
     \<not> token_is_cancelled (foldl run_token_op h [OpNew, OpCancel t]) (token_clone u)"
proof -
  let ?h = "\<lparr>flag_of = [0 \<mapsto> False, 1 \<mapsto> False], next_flag = 2\<rparr>"
  let ?t = "CancellationToken 0" and ?u = "CancellationToken 1"
  have h: "store_wf ?h" "token_live ?h ?t" "token_live ?h ?u"
    by (auto simp: store_wf_def token_live_def split: if_splits)
  have "ops_live ?h [OpClone ?t, OpCancel ?t]" "ops_live ?h [OpNew, OpCancel ?t]"
    by (simp_all add: token_live_def token_new_def)
  from cancellation_visible_exactly [OF h(1,2) this(1)] cancellation_visible_exactly [OF h(1,3) this(2)] h
  show ?thesis
    by (intro exI [of _ ?h] exI [of _ ?t] exI [of _ ?u]) (simp add: token_is_cancelled_def)
qed

text \<open>
  \<open>classify\<close> loses nothing: the outcome carries the terminal's output whether or not the run
  was cancelled, reports cancellation exactly when the token it read was cancelled, and a
  cancelled outcome carries the number of emitted items.
\<close>

theorem classify_faithful:
  "outcome_into_inner (classify h out n cancel) = out \<and>
   (outcome_is_cancelled (classify h out n cancel) \<longleftrightarrow> cancel_active h cancel) \<and>
   (classify h out n cancel = Completed out \<or> classify h out n cancel = Cancelled out n)"
  by (simp add: classify_def outcome_into_inner_def outcome_is_cancelled_def)

end
