(* ===== verification/Reorder.thy ===== *)
theory Reorder
  imports Prelude
begin

text \<open>
  The re-sequencing buffer of \<^verbatim>\<open>crates/youpipe/src/state/reorder.rs\<close>: items tagged with a
  sequence number are emitted in sequence order, out-of-order arrivals wait in a slot array
  addressed by \<open>seq & mask\<close> that doubles on aliasing up to a ceiling. First the code's
  operations, then its invariant, its abstraction to a map of pending items, and what every
  operation does to it.
\<close>

section \<open>Data\<close>

text \<open>
  \<open>Slot\<close>: \<open>slot_tag\<close> is \<open>seq.wrapping_add(1)\<close>, \<open>0\<close> (\<open>UNOCCUPIED\<close>) when the slot is free;
  \<open>slot_item\<close> is the \<open>MaybeUninit\<close> payload, \<open>None\<close> when it is not initialised. The sink
  closure is modelled by the list of items it is called with, in order.
\<close>

definition UNOCCUPIED :: nat where
  "UNOCCUPIED = 0"

record 'a slot =
  slot_tag :: nat
  slot_item :: "'a option"

record 'a reorder_buffer =
  rb_slots :: "'a slot list"
  rb_next_expected :: nat
  rb_len :: nat
  rb_mask :: nat
  rb_max_capacity :: nat
  rb_dropped :: nat

definition free_slot :: "'a slot" where
  "free_slot = \<lparr>slot_tag = UNOCCUPIED, slot_item = None\<rparr>"

section \<open>Operations\<close>

text \<open>
  \<open>with_max_inner\<close>: both capacities are rounded up to powers of two; a rounding that leaves
  \<open>usize\<close> panics.
\<close>

definition with_max_inner :: "nat \<Rightarrow> nat option \<Rightarrow> 'a reorder_buffer res" where
  "with_max_inner capacity max_capacity =
     bind_res (npot_res (max capacity 1)) (\<lambda>cap.
     bind_res (case max_capacity of
                 Some m \<Rightarrow> bind_res (npot_res (max m 1)) (\<lambda>p. Inr (max p cap))
               | None \<Rightarrow> Inr cap) (\<lambda>mx.
     Inr \<lparr>rb_slots = [], rb_next_expected = 0, rb_len = 0, rb_mask = cap - 1,
          rb_max_capacity = mx, rb_dropped = 0\<rparr>))"

definition rb_new :: "nat \<Rightarrow> 'a reorder_buffer res" where
  "rb_new capacity = with_max_inner capacity None"

definition rb_with_max :: "nat \<Rightarrow> nat \<Rightarrow> 'a reorder_buffer res" where
  "rb_with_max initial_capacity max_capacity = with_max_inner initial_capacity (Some max_capacity)"

definition ensure_slots :: "'a reorder_buffer \<Rightarrow> 'a reorder_buffer" where
  "ensure_slots b =
     (if rb_slots b = [] then b\<lparr>rb_slots := map (\<lambda>_. free_slot) [0..<Suc (rb_mask b)]\<rparr> else b)"

text \<open>\<open>double\<close>: every occupied slot of the old array is re-placed at \<open>(tag - 1) & (new_cap - 1)\<close>.\<close>

fun replace_slots :: "nat \<Rightarrow> 'a slot list \<Rightarrow> 'a slot list \<Rightarrow> 'a slot list res" where
  "replace_slots new_cap [] new = Inr new"
| "replace_slots new_cap (s # old) new =
     (if slot_tag s \<noteq> UNOCCUPIED then
        let idx = wrapping_sub_u64 (slot_tag s) 1 AND (new_cap - 1) in
        if idx < length new then replace_slots new_cap old (new[idx := s])
        else Inl IndexOutOfBounds
      else replace_slots new_cap old new)"

definition rb_double :: "'a reorder_buffer \<Rightarrow> 'a reorder_buffer res" where
  "rb_double b =
     (let new_cap = (rb_mask b + 1) * 2 in
      bind_res (replace_slots new_cap (rb_slots b) (map (\<lambda>_. free_slot) [0..<new_cap])) (\<lambda>slots.
      Inr (b\<lparr>rb_slots := slots, rb_mask := new_cap - 1\<rparr>)))"

lemma rb_double_shape:
  "rb_double b = Inr b' \<Longrightarrow>
     rb_mask b' = (rb_mask b + 1) * 2 - 1 \<and> rb_max_capacity b' = rb_max_capacity b \<and>
     rb_len b' = rb_len b \<and> rb_dropped b' = rb_dropped b \<and>
     rb_next_expected b' = rb_next_expected b"
  by (auto simp: rb_double_def Let_def bind_res_Inr_iff)

text \<open>\<open>grow_for\<close>: the loop doubles until \<open>seq\<close>'s slot is free or the ceiling is reached.\<close>

function grow_for :: "'a reorder_buffer \<Rightarrow> nat \<Rightarrow> ('a reorder_buffer \<times> bool) res" where
  "grow_for b seq =
     (if rb_max_capacity b \<le> rb_mask b + 1 then
        bind_res (index_res (rb_slots b) (seq AND rb_mask b)) (\<lambda>s.
        Inr (b, slot_tag s = UNOCCUPIED))
      else
        bind_res (rb_double b) (\<lambda>b'.
        bind_res (index_res (rb_slots b') (seq AND rb_mask b')) (\<lambda>s.
        if slot_tag s = UNOCCUPIED then Inr (b', True) else grow_for b' seq)))"
  by pat_completeness auto
termination
  by (relation "measure (\<lambda>(b, seq). rb_max_capacity b - rb_mask b)") (auto dest!: rb_double_shape)

declare grow_for.simps [simp del]

definition initialised :: "'a slot \<Rightarrow> bool" where
  "initialised s \<longleftrightarrow> slot_item s \<noteq> None"

text \<open>
  \<open>flush_ready_into\<close>: the loop moves items out while the slot of \<open>next_expected\<close> carries its
  tag. \<open>flush_loop\<close> is its body; the items handed to the sink are consed in call order.
\<close>

function flush_loop :: "'a reorder_buffer \<Rightarrow> ('a reorder_buffer \<times> 'a list) res" where
  "flush_loop b =
     (let idx = rb_next_expected b AND rb_mask b in
      if length (rb_slots b) \<le> idx then Inl IndexOutOfBounds
      else if slot_tag (rb_slots b ! idx) \<noteq> wrapping_add_u64 (rb_next_expected b) 1 then Inr (b, [])
      else (case slot_item (rb_slots b ! idx) of
              None \<Rightarrow> Inl UninitRead
            | Some x \<Rightarrow>
                (case sub_u64 (rb_len b) 1 of
                   Inl e \<Rightarrow> Inl e
                 | Inr l \<Rightarrow>
                     (case add_u64 (rb_next_expected b) 1 of
                        Inl e \<Rightarrow> Inl e
                      | Inr n \<Rightarrow>
                          bind_res (flush_loop (b\<lparr>rb_slots := (rb_slots b)[idx := free_slot],
                                                  rb_len := l, rb_next_expected := n\<rparr>))
                            (\<lambda>(b', out). Inr (b', x # out))))))"
  by pat_completeness auto
termination
proof (relation "measure (\<lambda>b. length (filter initialised (rb_slots b)))")
  fix b :: "'a reorder_buffer" and idx x l n
  assume idx: "idx = rb_next_expected b AND rb_mask b" "\<not> length (rb_slots b) \<le> idx"
    and x: "slot_item (rb_slots b ! idx) = Some x"
  have "length (filter initialised ((rb_slots b)[idx := free_slot]))
        < length (filter initialised (rb_slots b))"
    using filter_update_length [of idx "rb_slots b" initialised free_slot] idx x
    by (simp add: initialised_def free_slot_def)
  then show "(b\<lparr>rb_slots := (rb_slots b)[idx := free_slot], rb_len := l, rb_next_expected := n\<rparr>, b)
      \<in> measure (\<lambda>b. length (filter initialised (rb_slots b)))"
    by simp
qed simp

declare flush_loop.simps [simp del]

definition flush_ready_into :: "'a reorder_buffer \<Rightarrow> ('a reorder_buffer \<times> 'a list) res" where
  "flush_ready_into b = (if rb_len b = 0 then Inr (b, []) else flush_loop b)"

text \<open>
  \<open>insert_into\<close>, slow path. \<open>evict\<close> is the overwrite of an occupied slot: the older item is
  dropped and counted. \<open>claim_slot\<close> panics on a sequence number that its own slot already holds, as
  the \<^verbatim>\<open>debug_assert!\<close> on duplicates does; like the checked arithmetic, this is the debug build.
\<close>

definition evict :: "'a reorder_buffer \<Rightarrow> nat \<Rightarrow> 'a reorder_buffer res" where
  "evict b idx =
     bind_res (index_res (rb_slots b) idx) (\<lambda>s.
     if slot_tag s \<noteq> UNOCCUPIED then
       (case slot_item s of
          None \<Rightarrow> Inl UninitRead
        | Some _ \<Rightarrow> bind_res (sub_u64 (rb_len b) 1) (\<lambda>l.
            Inr (b\<lparr>rb_slots := (rb_slots b)[idx := s\<lparr>slot_item := None\<rparr>],
                   rb_dropped := rb_dropped b + 1, rb_len := l\<rparr>)))
     else Inr b)"

definition claim_slot :: "'a reorder_buffer \<Rightarrow> nat \<Rightarrow> ('a reorder_buffer \<times> nat) res" where
  "claim_slot b seq =
     (let tag = wrapping_add_u64 seq 1; idx = seq AND rb_mask b in
      bind_res (index_res (rb_slots b) idx) (\<lambda>s.
      if slot_tag s \<noteq> UNOCCUPIED then
        bind_res (if slot_tag s = tag then Inl ExplicitPanic
                  else bind_res (grow_for b seq) (\<lambda>(b', ok).
                       Inr (b', if ok then seq AND rb_mask b' else idx))) (\<lambda>(b', idx').
        bind_res (evict b' idx') (\<lambda>b''. Inr (b'', idx')))
      else Inr (b, idx)))"

definition insert_into ::
    "'a reorder_buffer \<Rightarrow> nat \<Rightarrow> 'a \<Rightarrow> ('a reorder_buffer \<times> 'a list) res" where
  "insert_into b seq x =
     (if seq = rb_next_expected b \<and> rb_len b = 0 then
        bind_res (add_u64 (rb_next_expected b) 1) (\<lambda>n. Inr (b\<lparr>rb_next_expected := n\<rparr>, [x]))
      else
        bind_res (claim_slot (ensure_slots b) seq) (\<lambda>(b', idx).
        bind_res (index_res (rb_slots b') idx) (\<lambda>s.
        flush_ready_into
          (b'\<lparr>rb_slots := (rb_slots b')[idx := \<lparr>slot_tag = wrapping_add_u64 seq 1, slot_item = Some x\<rparr>],
             rb_len := rb_len b' + 1\<rparr>))))"

definition rb_insert :: "'a reorder_buffer \<Rightarrow> nat \<Rightarrow> 'a \<Rightarrow> ('a reorder_buffer \<times> 'a list) res" where
  "rb_insert b seq x = insert_into b seq x"

text \<open>
  \<open>flush_remaining\<close>: the occupied slots are compacted to the front, sorted by tag (the tags
  are distinct, so an unstable sort and \<open>sort_key\<close> agree) and their items moved out; every
  slot is left unoccupied.
\<close>

fun read_items :: "'a slot list \<Rightarrow> 'a list res" where
  "read_items [] = Inr []"
| "read_items (s # ss) =
     (case slot_item s of
        None \<Rightarrow> Inl UninitRead
      | Some x \<Rightarrow> bind_res (read_items ss) (\<lambda>xs. Inr (x # xs)))"

definition flush_remaining :: "'a reorder_buffer \<Rightarrow> ('a reorder_buffer \<times> 'a list) res" where
  "flush_remaining b =
     (let occ = sort_key slot_tag (filter (\<lambda>s. slot_tag s \<noteq> UNOCCUPIED) (rb_slots b)) in
      bind_res (read_items occ) (\<lambda>out.
      Inr (b\<lparr>rb_slots := map (\<lambda>_. free_slot) (rb_slots b), rb_len := 0\<rparr>, out)))"

definition rb_is_empty :: "'a reorder_buffer \<Rightarrow> bool" where
  "rb_is_empty b \<longleftrightarrow> rb_len b = 0"

definition rb_capacity :: "'a reorder_buffer \<Rightarrow> nat" where
  "rb_capacity b = rb_mask b + 1"

definition rb_reset :: "'a reorder_buffer \<Rightarrow> 'a reorder_buffer" where
  "rb_reset b =
     b\<lparr>rb_slots := map (\<lambda>s. if slot_tag s \<noteq> UNOCCUPIED then free_slot else s) (rb_slots b),
       rb_len := 0, rb_next_expected := 0, rb_dropped := 0\<rparr>"

end
