(* ===== verification/Reorder_Inv.thy ===== *)
theory Reorder_Inv
  imports Reorder
begin

text \<open>
  Invariants of the reorder buffer. \<open>rb_shape\<close> is what every operation keeps on every input:
  sizes, the agreement of tags with initialised payloads, and the occupancy count.
  \<open>rb_placed\<close> says that each item sits in the slot its sequence number maps to.
  \<open>rb_pending\<close> is the abstraction: the map of buffered items.
\<close>

section \<open>Invariants and abstraction\<close>

definition occupied :: "'a slot \<Rightarrow> bool" where
  "occupied s \<longleftrightarrow> slot_tag s \<noteq> UNOCCUPIED"

definition slot_ok :: "'a slot \<Rightarrow> bool" where
  "slot_ok s \<longleftrightarrow> (slot_item s = None \<longleftrightarrow> \<not> occupied s) \<and> slot_tag s + 1 < u64_mod"

definition slot_count :: "'a slot list \<Rightarrow> nat" where
  "slot_count ss = length (filter occupied ss)"

definition rb_shape :: "'a reorder_buffer \<Rightarrow> bool" where
  "rb_shape b \<longleftrightarrow>
     is_pow2 (rb_mask b + 1) \<and> is_pow2 (rb_max_capacity b) \<and>
     rb_mask b + 1 \<le> rb_max_capacity b \<and> rb_max_capacity b < u64_mod \<and>
     (rb_slots b = [] \<or> length (rb_slots b) = rb_mask b + 1) \<and>
     rb_len b = slot_count (rb_slots b) \<and>
     rb_next_expected b + 1 < u64_mod \<and>
     (\<forall>s\<in>set (rb_slots b). slot_ok s)"

definition rb_placed :: "'a reorder_buffer \<Rightarrow> bool" where
  "rb_placed b \<longleftrightarrow>
     (\<forall>i<length (rb_slots b). occupied (rb_slots b ! i) \<longrightarrow>
        (slot_tag (rb_slots b ! i) - 1) mod (rb_mask b + 1) = i)"

definition rb_wf :: "'a reorder_buffer \<Rightarrow> bool" where
  "rb_wf b \<longleftrightarrow> rb_shape b \<and> (rb_mask b + 1 < rb_max_capacity b \<longrightarrow> rb_placed b)"

definition rb_pending :: "'a reorder_buffer \<Rightarrow> nat \<Rightarrow> 'a option" where
  "rb_pending b q =
     (if rb_slots b = [] then None
      else let s = rb_slots b ! (q mod (rb_mask b + 1)) in
           if slot_tag s = q + 1 then slot_item s else None)"

lemma occupied_free [simp]: "\<not> occupied free_slot" "slot_ok free_slot"
    "slot_tag free_slot = UNOCCUPIED" "slot_item free_slot = None"
  by (simp_all add: occupied_def free_slot_def slot_ok_def UNOCCUPIED_def u64_mod_def)

lemma slot_ok_occupied: "slot_ok s \<Longrightarrow> occupied s \<Longrightarrow> \<exists>x. slot_item s = Some x"
  by (auto simp: slot_ok_def)

lemma occupied_tag_pos: "occupied s \<longleftrightarrow> 0 < slot_tag s"
  by (simp add: occupied_def UNOCCUPIED_def)

lemma slot_count_free [simp]: "slot_count (map (\<lambda>_. free_slot) xs) = 0"
  by (simp add: slot_count_def)

lemma nth_free: "j < n \<Longrightarrow> map (\<lambda>_. free_slot) [0..<n] ! j = free_slot"
  by simp

lemma length_free: "length (map (\<lambda>_. free_slot) [0..<n]) = n"
  by simp

lemma slot_count_update:
  "i < length ss \<Longrightarrow> slot_count (ss[i := s]) + (if occupied (ss ! i) then 1 else 0)
     = slot_count ss + (if occupied s then 1 else 0)"
  unfolding slot_count_def by (rule filter_update_length)

lemma slot_count_pos: "i < length ss \<Longrightarrow> occupied (ss ! i) \<Longrightarrow> 0 < slot_count ss"
  unfolding slot_count_def by (rule filter_pos_if_nth)

lemma mask_index: "rb_shape b \<Longrightarrow> q AND rb_mask b = q mod (rb_mask b + 1)"
  using and_pow2_mask [of "rb_mask b + 1" q] by (simp add: rb_shape_def)

lemma index_less: "q mod (rb_mask b + 1) < rb_mask b + 1"
  by simp

section \<open>Construction, materialising, reset\<close>

lemma npot_res_Inr: "npot_res n = Inr p \<Longrightarrow> is_pow2 p \<and> p < u64_mod \<and> n \<le> p"
  by (auto simp: npot_res_def Let_def next_power_of_two_pow2 next_power_of_two_ge split: if_splits)

lemma is_pow2_max: "is_pow2 p \<Longrightarrow> is_pow2 q \<Longrightarrow> is_pow2 (max p q)"
  by (simp add: max_def)

lemma with_max_inner_shape:
  assumes "with_max_inner c m = Inr b"
  obtains cap mx where "is_pow2 cap" "is_pow2 mx" "cap \<le> mx" "mx < u64_mod" "c \<le> cap"
    "\<And>k. m = Some k \<Longrightarrow> k \<le> mx"
    "b = \<lparr>rb_slots = [], rb_next_expected = 0, rb_len = 0, rb_mask = cap - 1,
          rb_max_capacity = mx, rb_dropped = 0\<rparr>"
proof -
  from assms obtain cap where cap: "npot_res (max c 1) = Inr cap"
    by (auto simp: with_max_inner_def bind_res_Inr_iff)
  note c = npot_res_Inr [OF cap]
  show thesis
  proof (cases m)
    case None
    with assms cap have "b = \<lparr>rb_slots = [], rb_next_expected = 0, rb_len = 0,
        rb_mask = cap - 1, rb_max_capacity = cap, rb_dropped = 0\<rparr>"
      by (simp add: with_max_inner_def)
    with None c show thesis by (intro that [of cap cap]) auto
  next
    case (Some k)
    with assms cap obtain p where p: "npot_res (max k 1) = Inr p"
      by (auto simp: with_max_inner_def bind_res_Inr_iff)
    from Some assms cap p have "b = \<lparr>rb_slots = [], rb_next_expected = 0, rb_len = 0,
        rb_mask = cap - 1, rb_max_capacity = max p cap, rb_dropped = 0\<rparr>"
      by (simp add: with_max_inner_def)
    with Some c npot_res_Inr [OF p] show thesis
      by (intro that [of cap "max p cap"]) (auto simp: is_pow2_max)
  qed
qed

lemma with_max_inner_ok:
  assumes "with_max_inner c m = Inr b"
  shows "rb_wf b \<and> rb_placed b \<and> rb_pending b = Map.empty"
proof -
  from assms obtain cap mx where *: "is_pow2 cap" "is_pow2 mx" "cap \<le> mx" "mx < u64_mod"
    "b = \<lparr>rb_slots = [], rb_next_expected = 0, rb_len = 0, rb_mask = cap - 1,
          rb_max_capacity = mx, rb_dropped = 0\<rparr>"
    by (rule with_max_inner_shape) blast
  from * is_pow2_pos [of cap] have "rb_shape b"
    by (simp add: rb_shape_def slot_count_def)
  moreover from * have "rb_placed b" "rb_pending b = Map.empty"
    by (simp_all add: rb_placed_def rb_pending_def fun_eq_iff)
  ultimately show ?thesis by (simp add: rb_wf_def)
qed

lemma ensure_slots_ok:
  assumes "rb_wf b"
  shows "rb_wf (ensure_slots b)" "length (rb_slots (ensure_slots b)) = rb_mask b + 1"
    "rb_pending (ensure_slots b) = rb_pending b" "rb_placed (ensure_slots b) = rb_placed b"
    "rb_mask (ensure_slots b) = rb_mask b" "rb_len (ensure_slots b) = rb_len b"
    "rb_max_capacity (ensure_slots b) = rb_max_capacity b"
    "rb_next_expected (ensure_slots b) = rb_next_expected b"
    "rb_dropped (ensure_slots b) = rb_dropped b"
proof -
  have len: "length (map (\<lambda>_. free_slot) [0..<Suc n]) = Suc n" for n by simp
  have nth: "i < Suc n \<Longrightarrow> map (\<lambda>_. free_slot) [0..<Suc n] ! i = free_slot" for i n
    by (simp del: upt_Suc)
  have cnt: "slot_count (map (\<lambda>_. free_slot) [0..<Suc n]) = 0" for n
    by (rule slot_count_free)
  have all: "\<forall>s\<in>set (map (\<lambda>_. free_slot) [0..<Suc n]). slot_ok s" for n
    by (auto simp del: upt_Suc)
  note facts = ensure_slots_def rb_wf_def rb_shape_def rb_placed_def
  show "rb_wf (ensure_slots b)"
    using assms cnt [of "rb_mask b"] all [of "rb_mask b"]
    by (auto simp: facts nth slot_count_def simp del: upt_Suc)
  show "length (rb_slots (ensure_slots b)) = rb_mask b + 1"
    using assms by (auto simp: facts)
  show "rb_pending (ensure_slots b) = rb_pending b"
    by (auto simp: ensure_slots_def rb_pending_def nth fun_eq_iff UNOCCUPIED_def simp del: upt_Suc)
  show "rb_placed (ensure_slots b) = rb_placed b"
    by (auto simp: ensure_slots_def rb_placed_def nth simp del: upt_Suc)
qed (simp_all add: ensure_slots_def)

lemma rb_reset_ok:
  assumes "rb_shape b"
  shows "rb_wf (rb_reset b) \<and> rb_placed (rb_reset b) \<and> rb_pending (rb_reset b) = Map.empty"
proof -
  let ?ss = "map (\<lambda>s. if slot_tag s \<noteq> UNOCCUPIED then free_slot else s) (rb_slots b)"
  have free: "s \<in> set ?ss \<Longrightarrow> \<not> occupied s \<and> slot_tag s = 0" for s
    by (auto simp: occupied_def UNOCCUPIED_def free_slot_def split: if_splits)
  then have nth: "i < length ?ss \<Longrightarrow> \<not> occupied (?ss ! i) \<and> slot_tag (?ss ! i) = 0" for i
    using nth_mem by blast
  have cnt: "slot_count ?ss = 0"
    using free by (simp add: slot_count_def filter_empty_conv)
  have "rb_shape (rb_reset b)"
    using assms cnt by (auto simp: rb_shape_def rb_reset_def u64_mod_def)
  moreover have "rb_placed (rb_reset b)"
    using nth by (auto simp: rb_placed_def rb_reset_def)
  moreover have "rb_pending (rb_reset b) q = None" for q
    using nth [of "q mod (rb_mask b + 1)"] assms
    by (auto simp: rb_pending_def rb_reset_def rb_shape_def Let_def simp del: nth_map)
  ultimately show ?thesis by (auto simp: rb_wf_def)
qed

section \<open>Doubling\<close>

text \<open>The slot an item belongs to, for a given capacity.\<close>

definition home :: "nat \<Rightarrow> 'a slot \<Rightarrow> nat" where
  "home c s = (slot_tag s - 1) mod c"

lemma replace_slots_ok:
  assumes "is_pow2 nc" and "length new = nc"
    and "\<forall>s\<in>set old. slot_ok s"
    and "distinct (map (home nc) (filter occupied old))"
    and "\<forall>s\<in>set (filter occupied old). \<not> occupied (new ! home nc s)"
  shows "\<exists>res. replace_slots nc old new = Inr res \<and> length res = nc \<and>
      (\<forall>j<nc. res ! j = new ! j \<and> j \<notin> home nc ` set (filter occupied old) \<or>
              (\<exists>s\<in>set (filter occupied old). home nc s = j \<and> res ! j = s)) \<and>
      slot_count res = slot_count new + slot_count old"
  using assms
proof (induction old arbitrary: new)
  case Nil
  then show ?case by (simp add: slot_count_def)
next
  case (Cons s old)
  show ?case
  proof (cases "occupied s")
    case False
    with Cons show ?thesis by (simp add: occupied_def slot_count_def)
  next
    case True
    let ?h = "home nc s"
    have nc: "0 < nc" using Cons.prems(1) by (rule is_pow2_pos)
    then have h: "?h < length new" using Cons.prems(2) by (simp add: home_def)
    have "slot_tag s < u64_mod" "1 \<le> slot_tag s"
      using Cons.prems(3) True by (auto simp: slot_ok_def occupied_tag_pos)
    then have idx: "wrapping_sub_u64 (slot_tag s) 1 AND (nc - Suc 0) = ?h"
      using and_pow2_mask [OF Cons.prems(1)] by (simp add: home_def)
    have tag: "slot_tag s \<noteq> UNOCCUPIED" using True by (simp add: occupied_def)
    have apart: "home nc s' \<noteq> ?h" if "s' \<in> set (filter occupied old)" for s'
      using Cons.prems(4) True that by (auto simp: rev_image_eqI)
    have "\<exists>res. replace_slots nc old (new[?h := s]) = Inr res \<and> length res = nc \<and>
      (\<forall>j<nc. res ! j = new[?h := s] ! j \<and> j \<notin> home nc ` set (filter occupied old) \<or>
              (\<exists>s\<in>set (filter occupied old). home nc s = j \<and> res ! j = s)) \<and>
      slot_count res = slot_count (new[?h := s]) + slot_count old"
    proof (rule Cons.IH)
      show "\<forall>s'\<in>set (filter occupied old). \<not> occupied (new[?h := s] ! home nc s')"
        using Cons.prems(5) True apart by (metis filter.simps(2) list.set_intros(2) nth_list_update_neq)
    qed (use Cons.prems True in \<open>auto simp: occupied_def\<close>)
    then obtain res where res: "replace_slots nc old (new[?h := s]) = Inr res" "length res = nc"
      "\<forall>j<nc. res ! j = new[?h := s] ! j \<and> j \<notin> home nc ` set (filter occupied old) \<or>
              (\<exists>s\<in>set (filter occupied old). home nc s = j \<and> res ! j = s)"
      "slot_count res = slot_count (new[?h := s]) + slot_count old" by blast
    have "slot_count (new[?h := s]) = slot_count new + 1"
      using slot_count_update [OF h, of s] Cons.prems(5) True by simp
    with res have "slot_count res = slot_count new + slot_count (s # old)"
      using True by (simp add: slot_count_def)
    moreover have "replace_slots nc (s # old) new = Inr res"
      using tag idx h res(1) by (simp add: Let_def)
    moreover have "res ! j = new ! j \<and> j \<notin> home nc ` set (filter occupied (s # old)) \<or>
              (\<exists>s'\<in>set (filter occupied (s # old)). home nc s' = j \<and> res ! j = s')"
      if "j < nc" for j
      using res(3) that True h by (cases "j = ?h") auto
    ultimately show ?thesis using res(2) by blast
  qed
qed

lemma distinct_home:
  assumes "\<forall>i<length ss. occupied (ss ! i) \<longrightarrow> home c (ss ! i) = i" and "c dvd d"
  shows "distinct (map (home d) (filter occupied ss))"
proof -
  have "map (home c) (filter occupied ss) = filter (\<lambda>i. occupied (ss ! i)) [0..<length ss]"
    using assms(1)
  proof (induction ss rule: rev_induct)
    case (snoc s ss)
    have "\<forall>i<length ss. occupied (ss ! i) \<longrightarrow> home c (ss ! i) = i"
      using snoc.prems by (auto simp: nth_append dest: spec less_SucI)
    with snoc have "map (home c) (filter occupied ss)
        = filter (\<lambda>i. occupied (ss ! i)) [0..<length ss]" by simp
    moreover have "filter (\<lambda>i. occupied ((ss @ [s]) ! i)) [0..<length ss]
        = filter (\<lambda>i. occupied (ss ! i)) [0..<length ss]"
      by (rule filter_cong) (auto simp: nth_append)
    moreover have "occupied s \<Longrightarrow> home c s = length ss"
      using snoc.prems by (auto dest: spec [of _ "length ss"])
    ultimately show ?case by simp
  qed simp
  then have "distinct (map (home c) (filter occupied ss))" by simp
  moreover have "home c s = home d s mod c" for s :: "'a slot"
    using assms(2) by (simp add: home_def mod_mod_cancel)
  ultimately show ?thesis
    by (auto simp: distinct_map inj_on_def)
qed

lemma rb_double_ok:
  assumes wf: "rb_shape b" "rb_placed b" and ne: "rb_slots b \<noteq> []"
    and room: "rb_mask b + 1 < rb_max_capacity b"
  shows "\<exists>b'. rb_double b = Inr b' \<and> rb_shape b' \<and> rb_placed b' \<and> rb_slots b' \<noteq> [] \<and>
      rb_pending b' = rb_pending b"
proof -
  let ?c = "rb_mask b + 1" and ?ss = "rb_slots b"
  let ?d = "?c * 2" and ?new = "map (\<lambda>_. free_slot) [0..<(rb_mask b + 1) * 2] :: 'a slot list"
  have c: "is_pow2 ?c" "is_pow2 (rb_max_capacity b)" using wf by (simp_all add: rb_shape_def)
  then have d: "is_pow2 ?d" by (metis is_pow2_double mult.commute)
  have le: "?d \<le> rb_max_capacity b" using pow2_double_le [OF c room] by simp
  have len: "length ?ss = ?c" using wf ne by (auto simp: rb_shape_def)
  have ok: "\<forall>s\<in>set ?ss. slot_ok s" using wf by (simp add: rb_shape_def)
  have homes: "\<forall>i<length ?ss. occupied (?ss ! i) \<longrightarrow> home ?c (?ss ! i) = i"
    using wf(2) by (simp add: rb_placed_def home_def)
  have dist: "distinct (map (home ?d) (filter occupied ?ss))"
    by (rule distinct_home [OF homes], rule dvd_triv_left)
  have free: "j < ?d \<Longrightarrow> ?new ! j = free_slot" for j by (rule nth_free)
  have newlen: "length ?new = ?d" by (rule length_free)
  have "\<exists>res. replace_slots ?d ?ss ?new = Inr res \<and> length res = ?d \<and>
      (\<forall>j<?d. res ! j = ?new ! j \<and> j \<notin> home ?d ` set (filter occupied ?ss) \<or>
              (\<exists>s\<in>set (filter occupied ?ss). home ?d s = j \<and> res ! j = s)) \<and>
      slot_count res = slot_count ?new + slot_count ?ss"
  proof (rule replace_slots_ok [OF d newlen ok dist], rule ballI)
    fix s assume "s \<in> set (filter occupied ?ss)"
    have "home ?d s < ?d" by (simp add: home_def)
    from free [OF this] show "\<not> occupied (?new ! home ?d s)" by (simp only: occupied_free) simp
  qed
  then obtain res where res: "replace_slots ?d ?ss ?new = Inr res" "length res = ?d"
    "\<And>j. j < ?d \<Longrightarrow> res ! j = free_slot \<and> j \<notin> home ?d ` set (filter occupied ?ss) \<or>
              (\<exists>s\<in>set (filter occupied ?ss). home ?d s = j \<and> res ! j = s)"
    "slot_count res = slot_count ?ss"
    using free slot_count_free [of "[0..<?d]"] by (metis add_0)
  let ?b = "b\<lparr>rb_slots := res, rb_mask := ?d - 1\<rparr>"
  have dbl: "rb_double b = Inr ?b" using res(1) by (simp add: rb_double_def Let_def)
  have res_in: "s \<in> set res \<Longrightarrow> s = free_slot \<or> s \<in> set ?ss" for s
    using res(2,3) by (auto simp: in_set_conv_nth)
  have shape: "rb_shape ?b"
  proof -
    have "\<forall>s\<in>set res. slot_ok s" using res_in ok occupied_free(2) by metis
    then show ?thesis using wf(1) d le res(2,4) by (simp add: rb_shape_def)
  qed
  have placed: "rb_placed ?b"
    unfolding rb_placed_def
  proof (intro allI impI)
    fix i assume "i < length (rb_slots ?b)" and occ: "occupied (rb_slots ?b ! i)"
    then have "i < ?d" using res(2) by simp
    from res(3) [OF this] occ
    show "(slot_tag (rb_slots ?b ! i) - 1) mod (rb_mask ?b + 1) = i"
      by (auto simp: home_def)
  qed
  have "rb_pending ?b q = rb_pending b q" for q
  proof -
    have mem: "slot_tag s = q + 1 \<Longrightarrow> s \<in> set ?ss \<Longrightarrow> ?ss ! (q mod ?c) = s" for s
    proof -
      assume tag: "slot_tag s = q + 1" and "s \<in> set ?ss"
      then obtain i where i: "i < length ?ss" "?ss ! i = s" by (auto simp: in_set_conv_nth)
      with tag homes have "home ?c s = i" by (auto simp: occupied_tag_pos)
      with tag i show "?ss ! (q mod ?c) = s" by (simp add: home_def)
    qed
    have q: "q mod ?d < ?d" "q mod ?c < length ?ss" using len by simp_all
    show ?thesis
    proof (cases "slot_tag (?ss ! (q mod ?c)) = q + 1")
      case True
      let ?s = "?ss ! (q mod ?c)"
      have "?s \<in> set (filter occupied ?ss)" "home ?d ?s = q mod ?d"
        using True q by (auto simp: occupied_tag_pos home_def)
      then have "q mod ?d \<in> home ?d ` set (filter occupied ?ss)" by (metis imageI)
      then have "res ! (q mod ?d) \<in> set ?ss" "home ?d (res ! (q mod ?d)) = q mod ?d"
        "occupied (res ! (q mod ?d))"
        using res(3) [OF q(1)] by auto
      then have "res ! (q mod ?d) = ?s"
        using dist \<open>?s \<in> set (filter occupied ?ss)\<close> \<open>home ?d ?s = q mod ?d\<close>
        by (auto simp: distinct_map inj_on_def)
      with True ne res(2) show ?thesis by (auto simp: rb_pending_def)
    next
      case False
      have "slot_tag (res ! (q mod ?d)) \<noteq> q + 1"
        using res(3) [OF q(1)] False mem by (auto simp: UNOCCUPIED_def)
      with False ne res(2) show ?thesis by (auto simp: rb_pending_def)
    qed
  qed
  then have "rb_pending ?b = rb_pending b" by (rule ext)
  with dbl shape placed res(2) show ?thesis by auto
qed

end
