(* ===== verification/Reorder_Ops.thy ===== *)
theory Reorder_Ops
  imports Reorder_Inv
begin

text \<open>
  What growth, the flush loop and insertion do to a well-formed buffer: they never fault, keep
  \<open>rb_wf\<close>, account for every item, and act on \<open>rb_pending\<close> as a resequencer does.
\<close>

section \<open>Growth\<close>

definition same_counts :: "'a reorder_buffer \<Rightarrow> 'a reorder_buffer \<Rightarrow> bool" where
  "same_counts b b' \<longleftrightarrow>
     rb_len b' = rb_len b \<and> rb_dropped b' = rb_dropped b \<and>
     rb_next_expected b' = rb_next_expected b \<and> rb_max_capacity b' = rb_max_capacity b"

lemma same_counts_trans: "same_counts a b \<Longrightarrow> same_counts b c \<Longrightarrow> same_counts a c"
  by (simp add: same_counts_def)

lemma shape_index: "rb_shape b \<Longrightarrow> rb_slots b \<noteq> [] \<Longrightarrow> q mod (rb_mask b + 1) < length (rb_slots b)"
  by (simp add: rb_shape_def)

lemma index_res_shape:
  "rb_shape b \<Longrightarrow> rb_slots b \<noteq> [] \<Longrightarrow>
     index_res (rb_slots b) (q AND rb_mask b) = Inr (rb_slots b ! (q mod (rb_mask b + 1)))"
  by (metis mask_index index_res_in shape_index)

lemma grow_for_ok:
  assumes "rb_wf b" and "rb_slots b \<noteq> []"
  shows "\<exists>b' ok. grow_for b seq = Inr (b', ok) \<and> rb_wf b' \<and> rb_slots b' \<noteq> [] \<and>
      rb_pending b' = rb_pending b \<and> (rb_placed b \<longrightarrow> rb_placed b') \<and> same_counts b b' \<and>
      rb_mask b \<le> rb_mask b' \<and> (rb_placed b \<or> b' = b) \<and>
      (ok \<longleftrightarrow> \<not> occupied (rb_slots b' ! (seq mod (rb_mask b' + 1)))) \<and>
      (\<not> ok \<longrightarrow> rb_mask b' + 1 = rb_max_capacity b')"
  using assms
proof (induction b seq rule: grow_for.induct)
  case (1 b seq)
  have shape: "rb_shape b" using "1.prems" by (simp add: rb_wf_def)
  show ?case
  proof (cases "rb_max_capacity b \<le> rb_mask b + 1")
    case True
    then have "grow_for b seq
        = Inr (b, \<not> occupied (rb_slots b ! (seq mod (rb_mask b + 1))))"
      using index_res_shape [OF shape "1.prems"(2), of seq]
      by (simp add: grow_for.simps [of b seq] occupied_def)
    moreover have "rb_mask b + 1 = rb_max_capacity b" using True shape by (simp add: rb_shape_def)
    ultimately show ?thesis using "1.prems" by (auto simp: same_counts_def)
  next
    case False
    then have "rb_placed b" using "1.prems" by (simp add: rb_wf_def)
    from rb_double_ok [OF shape this "1.prems"(2)] False obtain b' where
      dbl: "rb_double b = Inr b'" and b': "rb_shape b'" "rb_placed b'" "rb_slots b' \<noteq> []"
        "rb_pending b' = rb_pending b" by auto
    have wf': "rb_wf b'" using b' by (simp add: rb_wf_def)
    have cnt: "same_counts b b'" "rb_mask b \<le> rb_mask b'"
      using rb_double_shape [OF dbl] by (simp_all add: same_counts_def)
    let ?s = "rb_slots b' ! (seq mod (rb_mask b' + 1))"
    have idx: "index_res (rb_slots b') (seq AND rb_mask b') = Inr ?s"
      by (rule index_res_shape [OF b'(1,3)])
    show ?thesis
    proof (cases "slot_tag ?s = UNOCCUPIED")
      case True
      with False dbl idx have "grow_for b seq = Inr (b', True)"
        by (simp add: grow_for.simps [of b seq])
      with wf' b' cnt True \<open>rb_placed b\<close> show ?thesis by (simp add: occupied_def)
    next
      case occ: False
      with False dbl idx have eq: "grow_for b seq = grow_for b' seq"
        by (simp add: grow_for.simps [of b seq])
      from "1.IH" [OF False dbl idx occ wf' b'(3)] show ?thesis
        unfolding eq using b' cnt \<open>rb_placed b\<close> by (fastforce simp: same_counts_def)
    qed
  qed
qed

section \<open>The flush loop\<close>

text \<open>
  \<open>run_from m n n'\<close>: the longest contiguous run of \<open>m\<close> from \<open>n\<close> ends before \<open>n'\<close>.
  \<open>without_run\<close> removes it, \<open>run_items\<close> lists its items.
\<close>

definition run_from :: "(nat \<Rightarrow> 'a option) \<Rightarrow> nat \<Rightarrow> nat \<Rightarrow> bool" where
  "run_from m n n' \<longleftrightarrow> n \<le> n' \<and> (\<forall>q. n \<le> q \<and> q < n' \<longrightarrow> m q \<noteq> None) \<and> m n' = None"

definition run_items :: "(nat \<Rightarrow> 'a option) \<Rightarrow> nat \<Rightarrow> nat \<Rightarrow> 'a list" where
  "run_items m n n' = map (\<lambda>q. the (m q)) [n..<n']"

definition without_run :: "(nat \<Rightarrow> 'a option) \<Rightarrow> nat \<Rightarrow> nat \<Rightarrow> (nat \<Rightarrow> 'a option)" where
  "without_run m n n' = (\<lambda>q. if n \<le> q \<and> q < n' then None else m q)"

lemma run_from_unique: "run_from m n a \<Longrightarrow> run_from m n b \<Longrightarrow> a = b"
  unfolding run_from_def by (metis linorder_neqE_nat)

lemma run_items_Cons:
  assumes "m n = Some x" and "n < n'" and "\<And>q. n < q \<Longrightarrow> m' q = m q"
  shows "run_items m n n' = x # run_items m' (Suc n) n'"
  using assms by (simp add: run_items_def upt_rec [of n])

definition flush_step :: "'a reorder_buffer \<Rightarrow> 'a reorder_buffer" where
  "flush_step b = b\<lparr>rb_slots := (rb_slots b)[rb_next_expected b mod (rb_mask b + 1) := free_slot],
     rb_len := rb_len b - 1, rb_next_expected := Suc (rb_next_expected b)\<rparr>"

lemma flush_step_ok:
  assumes shape: "rb_shape b" and ne: "rb_slots b \<noteq> []"
    and pend: "rb_pending b (rb_next_expected b) = Some x"
  shows "rb_shape (flush_step b)" "rb_slots (flush_step b) \<noteq> []" "0 < rb_len b"
    "rb_pending (flush_step b) = (rb_pending b)(rb_next_expected b := None)"
    "rb_placed b \<Longrightarrow> rb_placed (flush_step b)"
proof -
  let ?n = "rb_next_expected b" and ?c = "rb_mask b + 1" and ?ss = "rb_slots b"
  let ?i = "?n mod ?c"
  have i: "?i < length ?ss" by (rule shape_index [OF shape ne])
  have tag: "slot_tag (?ss ! ?i) = ?n + 1" using pend ne
    by (auto simp: rb_pending_def Let_def split: if_splits)
  then have occ: "occupied (?ss ! ?i)" by (simp add: occupied_tag_pos)
  have cnt: "slot_count (?ss[?i := free_slot]) = slot_count ?ss - 1"
    using slot_count_update [OF i, of free_slot] occ by simp
  show "0 < rb_len b" using slot_count_pos [OF i occ] shape by (simp add: rb_shape_def)
  have "slot_ok (?ss ! ?i)" using shape i by (simp add: rb_shape_def)
  then have next_ok: "Suc ?n + 1 < u64_mod" using tag by (simp add: slot_ok_def)
  have all: "\<forall>s\<in>set (?ss[?i := free_slot]). slot_ok s"
    using shape set_update_subset_insert [of ?ss ?i free_slot] by (auto simp: rb_shape_def)
  show "rb_shape (flush_step b)"
    using shape cnt next_ok all by (simp add: rb_shape_def flush_step_def)
  show "rb_slots (flush_step b) \<noteq> []" using ne by (simp add: flush_step_def)
  show "rb_pending (flush_step b) = (rb_pending b)(?n := None)"
  proof
    fix q
    show "rb_pending (flush_step b) q = ((rb_pending b)(?n := None)) q"
    proof (cases "q mod ?c = ?i")
      case True
      with i ne tag show ?thesis
        by (auto simp: rb_pending_def flush_step_def Let_def UNOCCUPIED_def)
    next
      case False
      with ne show ?thesis by (auto simp: rb_pending_def flush_step_def Let_def)
    qed
  qed
  show "rb_placed (flush_step b)" if "rb_placed b"
    unfolding rb_placed_def
  proof (intro allI impI)
    fix j assume "j < length (rb_slots (flush_step b))" "occupied (rb_slots (flush_step b) ! j)"
    then have "j < length ?ss" "j \<noteq> ?i" "occupied (?ss ! j)"
      using i by (auto simp: flush_step_def nth_list_update split: if_splits)
    with that show "(slot_tag (rb_slots (flush_step b) ! j) - 1) mod (rb_mask (flush_step b) + 1) = j"
      by (simp add: rb_placed_def flush_step_def)
  qed
qed

lemma flush_loop_unfold:
  assumes shape: "rb_shape b" and ne: "rb_slots b \<noteq> []"
  shows "flush_loop b =
     (case rb_pending b (rb_next_expected b) of
        None \<Rightarrow> Inr (b, [])
      | Some x \<Rightarrow> bind_res (flush_loop (flush_step b)) (\<lambda>(b', out). Inr (b', x # out)))"
proof -
  let ?n = "rb_next_expected b" and ?c = "rb_mask b + 1" and ?ss = "rb_slots b"
  have i: "?n mod ?c < length ?ss" by (rule shape_index [OF shape ne])
  have m: "?n AND rb_mask b = ?n mod ?c" by (rule mask_index [OF shape])
  have n: "?n + 1 < u64_mod" using shape by (simp add: rb_shape_def)
  have ok: "slot_ok (?ss ! (?n mod ?c))" using shape i by (simp add: rb_shape_def)
  show ?thesis
  proof (cases "rb_pending b ?n")
    case None
    then have "slot_tag (?ss ! (?n mod ?c)) \<noteq> wrapping_add_u64 ?n 1"
      using n ok ne by (auto simp: rb_pending_def slot_ok_def occupied_tag_pos split: if_splits)
    with i m None show ?thesis by (simp add: flush_loop.simps [of b] Let_def)
  next
    case (Some x)
    then have "slot_tag (?ss ! (?n mod ?c)) = wrapping_add_u64 ?n 1"
      "slot_item (?ss ! (?n mod ?c)) = Some x"
      using n ne by (auto simp: rb_pending_def Let_def split: if_splits)
    moreover have "sub_u64 (rb_len b) 1 = Inr (rb_len b - 1)"
      using flush_step_ok(3) [OF shape ne Some] by simp
    moreover have "add_u64 ?n 1 = Inr (Suc ?n)" using n by simp
    ultimately show ?thesis using i m Some
      by (simp add: flush_loop.simps [of b] Let_def flush_step_def)
  qed
qed

lemma flush_loop_ok:
  assumes "rb_shape b" and "rb_slots b \<noteq> []"
  shows "\<exists>b' out. flush_loop b = Inr (b', out) \<and> rb_shape b' \<and> (rb_placed b \<longrightarrow> rb_placed b') \<and>
      rb_mask b' = rb_mask b \<and> rb_max_capacity b' = rb_max_capacity b \<and>
      rb_dropped b' = rb_dropped b \<and> rb_len b' + length out = rb_len b \<and>
      run_from (rb_pending b) (rb_next_expected b) (rb_next_expected b') \<and>
      out = run_items (rb_pending b) (rb_next_expected b) (rb_next_expected b') \<and>
      rb_pending b' = without_run (rb_pending b) (rb_next_expected b) (rb_next_expected b')"
  using assms
proof (induction "rb_len b" arbitrary: b rule: less_induct)
  case less
  let ?n = "rb_next_expected b"
  show ?case
  proof (cases "rb_pending b ?n")
    case None
    with flush_loop_unfold [OF less.prems] less.prems show ?thesis
      by (auto simp: run_from_def run_items_def without_run_def fun_eq_iff)
  next
    case (Some x)
    note st = flush_step_ok [OF less.prems Some]
    have "rb_len (flush_step b) < rb_len b" using st(3) by (simp add: flush_step_def)
    from less.hyps [OF this st(1,2)] obtain b' out where
      fl: "flush_loop (flush_step b) = Inr (b', out)" and
      b': "rb_shape b'" "rb_placed (flush_step b) \<longrightarrow> rb_placed b'"
        "rb_mask b' = rb_mask b" "rb_max_capacity b' = rb_max_capacity b"
        "rb_dropped b' = rb_dropped b" "rb_len b' + length out = rb_len b - 1" and
      run: "run_from (rb_pending (flush_step b)) (Suc ?n) (rb_next_expected b')"
        "out = run_items (rb_pending (flush_step b)) (Suc ?n) (rb_next_expected b')"
        "rb_pending b' = without_run (rb_pending (flush_step b)) (Suc ?n) (rb_next_expected b')"
      by (auto simp: flush_step_def)
    have le: "Suc ?n \<le> rb_next_expected b'" using run(1) by (simp add: run_from_def)
    have "flush_loop b = Inr (b', x # out)"
      using flush_loop_unfold [OF less.prems] Some fl by simp
    moreover have "x # out = run_items (rb_pending b) ?n (rb_next_expected b')"
      unfolding run(2) by (rule run_items_Cons [symmetric]) (use Some le st(4) in auto)
    moreover have "run_from (rb_pending b) ?n (rb_next_expected b')"
      using run(1) Some st(4) le by (auto simp: run_from_def le_Suc_eq Suc_le_eq split: if_splits)
        (metis Suc_leI le_neq_implies_less option.discI)
    moreover have "rb_pending b' = without_run (rb_pending b) ?n (rb_next_expected b')"
      unfolding run(3) st(4) using le by (auto simp: without_run_def fun_eq_iff)
    moreover have "rb_len b' + length (x # out) = rb_len b" using b'(6) st(3) by simp
    ultimately show ?thesis using b' st(5) by blast
  qed
qed

section \<open>Insertion\<close>

text \<open>
  The slow path of \<open>insert_into\<close> ends in one write: \<open>written b idx seq x\<close> is the buffer after
  it, with the overwritten item (if any) counted as dropped.
\<close>

definition written :: "'a reorder_buffer \<Rightarrow> nat \<Rightarrow> nat \<Rightarrow> 'a \<Rightarrow> 'a reorder_buffer" where
  "written b idx seq x =
     b\<lparr>rb_slots := (rb_slots b)[idx := \<lparr>slot_tag = seq + 1, slot_item = Some x\<rparr>],
       rb_len := (if occupied (rb_slots b ! idx) then rb_len b else rb_len b + 1),
       rb_dropped := (if occupied (rb_slots b ! idx) then rb_dropped b + 1 else rb_dropped b)\<rparr>"

definition no_alias :: "'a reorder_buffer \<Rightarrow> nat \<Rightarrow> bool" where
  "no_alias b seq \<longleftrightarrow>
     (\<forall>q x. rb_pending b q = Some x \<longrightarrow> q mod rb_max_capacity b \<noteq> seq mod rb_max_capacity b)"

lemma evict_free: "idx < length (rb_slots b) \<Longrightarrow> \<not> occupied (rb_slots b ! idx) \<Longrightarrow> evict b idx = Inr b"
  by (simp add: evict_def occupied_def)

lemma evict_occupied:
  assumes shape: "rb_shape b" and idx: "idx < length (rb_slots b)" "occupied (rb_slots b ! idx)"
  shows "evict b idx =
    Inr (b\<lparr>rb_slots := (rb_slots b)[idx := (rb_slots b ! idx)\<lparr>slot_item := None\<rparr>],
           rb_dropped := rb_dropped b + 1, rb_len := rb_len b - 1\<rparr>)" and "0 < rb_len b"
proof -
  show len: "0 < rb_len b" using slot_count_pos [OF idx] shape by (simp add: rb_shape_def)
  have "slot_ok (rb_slots b ! idx)" using shape idx by (simp add: rb_shape_def)
  then obtain x where "slot_item (rb_slots b ! idx) = Some x" using idx(2) slot_ok_occupied by blast
  with idx len show "evict b idx =
    Inr (b\<lparr>rb_slots := (rb_slots b)[idx := (rb_slots b ! idx)\<lparr>slot_item := None\<rparr>],
           rb_dropped := rb_dropped b + 1, rb_len := rb_len b - 1\<rparr>)"
    by (simp add: evict_def occupied_def)
qed

lemma placed_pending:
  assumes "rb_shape b" "rb_placed b" "i < length (rb_slots b)" "occupied (rb_slots b ! i)"
  shows "\<exists>x. rb_pending b (slot_tag (rb_slots b ! i) - 1) = Some x"
    "(slot_tag (rb_slots b ! i) - 1) mod (rb_mask b + 1) = i"
proof -
  show h: "(slot_tag (rb_slots b ! i) - 1) mod (rb_mask b + 1) = i"
    using assms by (simp add: rb_placed_def)
  have "slot_ok (rb_slots b ! i)" using assms by (simp add: rb_shape_def)
  with assms h show "\<exists>x. rb_pending b (slot_tag (rb_slots b ! i) - 1) = Some x"
    by (auto simp: rb_pending_def occupied_tag_pos slot_ok_def)
qed

lemma claim_slot_ok:
  assumes wf: "rb_wf b" and ne: "rb_slots b \<noteq> []" and seq: "seq + 2 < u64_mod" and fresh: "rb_pending b seq = None"
  shows "\<exists>b1 idx. claim_slot b seq = bind_res (evict b1 idx) (\<lambda>b2. Inr (b2, idx)) \<and>
      rb_wf b1 \<and> idx < length (rb_slots b1) \<and>
      rb_pending b1 = rb_pending b \<and> same_counts b b1 \<and> (rb_placed b \<longrightarrow> rb_placed b1) \<and>
      (rb_placed b \<or> b1 = b) \<and>
      (idx = seq mod (rb_mask b1 + 1) \<or> rb_mask b1 + 1 = rb_max_capacity b1) \<and>
      (rb_placed b \<and> no_alias b seq \<longrightarrow>
         idx = seq mod (rb_mask b1 + 1) \<and> \<not> occupied (rb_slots b1 ! idx))"
proof -
  let ?i = "seq mod (rb_mask b + 1)" and ?s = "rb_slots b ! (seq mod (rb_mask b + 1))"
  have shape: "rb_shape b" using wf by (simp add: rb_wf_def)
  have i: "?i < length (rb_slots b)" by (rule shape_index [OF shape ne])
  note idx = index_res_shape [OF shape ne, of seq] mask_index [OF shape, of seq]
  have tag: "wrapping_add_u64 seq 1 = seq + 1" using seq by simp
  have "\<not> (occupied ?s \<and> slot_tag ?s = seq + 1)"
    using fresh ne shape i by (auto simp: rb_pending_def rb_shape_def slot_ok_def Let_def)
  then consider (free) "\<not> occupied ?s" | (clash) "occupied ?s" "slot_tag ?s \<noteq> seq + 1" by blast
  then show ?thesis
  proof cases
    case free
    then have "claim_slot b seq = bind_res (evict b ?i) (\<lambda>b2. Inr (b2, ?i))"
      using idx i tag by (simp add: claim_slot_def Let_def occupied_def evict_def)
    with free wf i show ?thesis by (intro exI [of _ b] exI [of _ ?i]) (simp add: same_counts_def)
  next
    case clash
    from grow_for_ok [OF wf ne, of seq] obtain b1 ok where g: "grow_for b seq = Inr (b1, ok)"
      and b1: "rb_wf b1" "rb_slots b1 \<noteq> []" "rb_pending b1 = rb_pending b"
        "rb_placed b \<longrightarrow> rb_placed b1" "same_counts b b1" "rb_mask b \<le> rb_mask b1"
        "ok \<longleftrightarrow> \<not> occupied (rb_slots b1 ! (seq mod (rb_mask b1 + 1)))"
        "\<not> ok \<longrightarrow> rb_mask b1 + 1 = rb_max_capacity b1" "rb_placed b \<or> b1 = b" by blast
    have shape1: "rb_shape b1" using b1(1) by (simp add: rb_wf_def)
    let ?j = "if ok then seq mod (rb_mask b1 + 1) else ?i"
    have "claim_slot b seq = bind_res (evict b1 ?j) (\<lambda>b2. Inr (b2, ?j))"
      using idx i tag clash g mask_index [OF shape1, of seq]
      by (simp add: claim_slot_def Let_def occupied_def)
    moreover have "?i < rb_mask b1 + 1"
      using b1(6) by (meson add_mono_thms_linordered_semiring(3) index_less less_le_trans)
    then have "?j < length (rb_slots b1)"
      using shape1 b1(2) by (auto simp: rb_shape_def)
    moreover have "ok" if pl: "rb_placed b" and na: "no_alias b seq"
    proof (rule ccontr)
      assume no: "\<not> ok"
      let ?k = "seq mod (rb_mask b1 + 1)"
      have "occupied (rb_slots b1 ! ?k)" using no b1(7) by simp
      from placed_pending [OF shape1 _ shape_index [OF shape1 b1(2)] this] pl b1(4)
      obtain y where y: "rb_pending b1 (slot_tag (rb_slots b1 ! ?k) - 1) = Some y"
        and k: "(slot_tag (rb_slots b1 ! ?k) - 1) mod (rb_mask b1 + 1) = ?k" by auto
      have "rb_mask b1 + 1 = rb_max_capacity b" using no b1(5,8) by (simp add: same_counts_def)
      with y k na b1(3) show False by (auto simp: no_alias_def)
    qed
    ultimately show ?thesis using b1 by (intro exI [of _ b1] exI [of _ ?j]) auto
  qed
qed

lemma insert_claimed:
  assumes cl: "claim_slot (ensure_slots b) seq = bind_res (evict b1 idx) (\<lambda>b2. Inr (b2, idx))"
    and wf: "rb_wf b1" and idx: "idx < length (rb_slots b1)" and seq: "seq + 2 < u64_mod"
    and slow: "\<not> (seq = rb_next_expected b \<and> rb_len b = 0)"
  shows "insert_into b seq x = flush_ready_into (written b1 idx seq x)"
proof -
  have tag: "wrapping_add_u64 seq 1 = seq + 1" using seq by simp
  have shape1: "rb_shape b1" using wf by (simp add: rb_wf_def)
  show ?thesis
  proof (cases "occupied (rb_slots b1 ! idx)")
    case True
    note ev = evict_occupied [OF shape1 idx True]
    let ?b2 = "b1\<lparr>rb_slots := (rb_slots b1)[idx := (rb_slots b1 ! idx)\<lparr>slot_item := None\<rparr>],
      rb_dropped := rb_dropped b1 + 1, rb_len := rb_len b1 - 1\<rparr>"
    have "?b2\<lparr>rb_slots := (rb_slots ?b2)[idx := \<lparr>slot_tag = seq + 1, slot_item = Some x\<rparr>],
        rb_len := rb_len ?b2 + 1\<rparr> = written b1 idx seq x"
      using ev(2) True by (cases b1) (simp add: written_def)
    with slow cl ev idx tag show ?thesis by (auto simp: insert_into_def)
  next
    case False
    show ?thesis using slow cl evict_free [OF idx False] idx tag False
      by (auto simp: insert_into_def written_def)
  qed
qed

lemma insert_slow:
  assumes wf: "rb_wf b" and seq: "seq + 2 < u64_mod" and fresh: "rb_pending b seq = None"
    and slow: "\<not> (seq = rb_next_expected b \<and> rb_len b = 0)"
  shows "\<exists>b1 idx. insert_into b seq x = flush_ready_into (written b1 idx seq x) \<and>
      rb_wf b1 \<and> idx < length (rb_slots b1) \<and>
      rb_pending b1 = rb_pending b \<and> same_counts b b1 \<and> (rb_placed b \<longrightarrow> rb_placed b1) \<and>
      (rb_placed b \<or> b1 = ensure_slots b) \<and>
      (idx = seq mod (rb_mask b1 + 1) \<or> rb_mask b1 + 1 = rb_max_capacity b1) \<and>
      (rb_placed b \<and> no_alias b seq \<longrightarrow>
         idx = seq mod (rb_mask b1 + 1) \<and> \<not> occupied (rb_slots b1 ! idx))"
proof -
  note es = ensure_slots_ok [OF wf]
  have ne: "rb_slots (ensure_slots b) \<noteq> []" using es(2) by auto
  have na: "no_alias (ensure_slots b) seq = no_alias b seq" using es by (simp add: no_alias_def)
  have "rb_pending (ensure_slots b) seq = None" using fresh es(3) by simp
  from claim_slot_ok [OF es(1) ne seq this] obtain b1 idx where
    cl: "claim_slot (ensure_slots b) seq = bind_res (evict b1 idx) (\<lambda>b2. Inr (b2, idx))" and
    b1: "rb_wf b1" "idx < length (rb_slots b1)" "rb_pending b1 = rb_pending b" "same_counts b b1"
      "rb_placed b \<longrightarrow> rb_placed b1" "rb_placed b \<or> b1 = ensure_slots b"
      "idx = seq mod (rb_mask b1 + 1) \<or> rb_mask b1 + 1 = rb_max_capacity b1"
      "rb_placed b \<and> no_alias b seq \<longrightarrow>
         idx = seq mod (rb_mask b1 + 1) \<and> \<not> occupied (rb_slots b1 ! idx)"
    unfolding es(3,4) na same_counts_def es by blast
  have "insert_into b seq x = flush_ready_into (written b1 idx seq x)" by (rule insert_claimed [OF cl b1(1, 2) seq slow])
  with b1 show ?thesis by blast
qed

text \<open>A sequence number the buffer already holds trips the duplicate check.\<close>

lemma insert_duplicate:
  assumes wf: "rb_wf b" and dup: "rb_pending b seq \<noteq> None"
  shows "insert_into b seq x = Inl ExplicitPanic"
proof -
  have shape: "rb_shape b" using wf by (simp add: rb_wf_def)
  let ?s = "rb_slots b ! (seq mod (rb_mask b + 1))"
  have ne: "rb_slots b \<noteq> []" and tag: "slot_tag ?s = seq + 1"
    using dup by (auto simp: rb_pending_def Let_def split: if_splits)
  have i: "seq mod (rb_mask b + 1) < length (rb_slots b)" by (rule shape_index [OF shape ne])
  have occ: "occupied ?s" using tag by (simp add: occupied_tag_pos)
  have "slot_ok ?s" using shape i by (simp add: rb_shape_def)
  then have "wrapping_add_u64 seq 1 = seq + 1" using tag by (simp add: slot_ok_def)
  then have "claim_slot b seq = Inl ExplicitPanic"
    using occ tag index_res_shape [OF shape ne, of seq] by (simp add: claim_slot_def Let_def occupied_def)
  moreover have "ensure_slots b = b" using ne by (simp add: ensure_slots_def)
  moreover have "0 < rb_len b" using slot_count_pos [OF i occ] shape by (simp add: rb_shape_def)
  ultimately show ?thesis by (simp add: insert_into_def)
qed

lemma written_ok:
  assumes wf: "rb_wf b" and idx: "idx < length (rb_slots b)" and seq: "seq + 2 < u64_mod"
    and at: "idx = seq mod (rb_mask b + 1) \<or> rb_mask b + 1 = rb_max_capacity b"
  shows "rb_wf (written b idx seq x)" "0 < rb_len (written b idx seq x)"
    "rb_len (written b idx seq x) + rb_dropped (written b idx seq x) = rb_len b + rb_dropped b + 1"
    "rb_slots (written b idx seq x) \<noteq> []"
proof -
  let ?new = "\<lparr>slot_tag = seq + 1, slot_item = Some x\<rparr>"
  have shape: "rb_shape b" using wf by (simp add: rb_wf_def)
  have new: "occupied ?new" "slot_ok ?new" using seq by (simp_all add: occupied_tag_pos slot_ok_def)
  have all: "\<forall>s\<in>set ((rb_slots b)[idx := ?new]). slot_ok s"
    using shape new set_update_subset_insert [of "rb_slots b" idx ?new] by (auto simp: rb_shape_def)
  have cnt: "rb_len (written b idx seq x) = slot_count ((rb_slots b)[idx := ?new])"
    using slot_count_update [OF idx, of ?new] new shape
    by (auto simp: written_def rb_shape_def split: if_splits)
  have shape': "rb_shape (written b idx seq x)"
    using shape cnt all by (simp add: rb_shape_def written_def)
  moreover have "rb_placed (written b idx seq x)" if "rb_mask b + 1 < rb_max_capacity b"
    using that wf at idx by (auto simp: rb_wf_def rb_placed_def written_def nth_list_update)
  ultimately show "rb_wf (written b idx seq x)" by (simp add: rb_wf_def written_def)
  show "0 < rb_len (written b idx seq x)"
    unfolding cnt by (rule slot_count_pos [of idx]) (use idx new in simp_all)
qed (use idx in \<open>auto simp: written_def\<close>)

lemma written_placed:
  assumes "rb_shape b" "rb_placed b" "idx < length (rb_slots b)" "idx = seq mod (rb_mask b + 1)"
    "\<not> occupied (rb_slots b ! idx)"
  shows "rb_placed (written b idx seq x)" "rb_pending (written b idx seq x) = (rb_pending b)(seq \<mapsto> x)"
    "rb_dropped (written b idx seq x) = rb_dropped b"
proof -
  show "rb_placed (written b idx seq x)"
    using assms by (auto simp: rb_placed_def written_def nth_list_update)
  have "rb_pending (written b idx seq x) q = ((rb_pending b)(seq \<mapsto> x)) q" for q
  proof (cases "q mod (rb_mask b + 1) = idx")
    case True
    with assms show ?thesis
      by (auto simp: rb_pending_def written_def Let_def occupied_tag_pos)
  next
    case False
    with assms show ?thesis by (auto simp: rb_pending_def written_def Let_def)
  qed
  then show "rb_pending (written b idx seq x) = (rb_pending b)(seq \<mapsto> x)" by (rule ext)
qed (use assms in \<open>simp add: written_def\<close>)

end
