(* ===== verification/Reorder_Entries.thy ===== *)
theory Reorder_Entries
  imports Reorder_Ops
begin

text \<open>
  The buffered items as a multiset of pairs of sequence number and item, whether or not each sits in
  the slot its number maps to: what growth, a write and the flush loop do to it.
\<close>

definition slot_entry :: "'a slot \<Rightarrow> nat \<times> 'a" where
  "slot_entry s = (slot_tag s - 1, the (slot_item s))"

definition slots_entries :: "'a slot list \<Rightarrow> (nat \<times> 'a) multiset" where
  "slots_entries ss = image_mset slot_entry (mset (filter occupied ss))"

definition rb_entries :: "'a reorder_buffer \<Rightarrow> (nat \<times> 'a) multiset" where
  "rb_entries b = slots_entries (rb_slots b)"

definition entry_at :: "'a slot \<Rightarrow> (nat \<times> 'a) multiset" where
  "entry_at s = (if occupied s then {#slot_entry s#} else {#})"

lemma slots_entries_append [simp]:
  "slots_entries [] = {#}" "slots_entries (s # ss) = entry_at s + slots_entries ss"
  "slots_entries (ss @ ts) = slots_entries ss + slots_entries ts"
  by (simp_all add: slots_entries_def entry_at_def)

lemma slots_entries_update:
  assumes "i < length ss"
  shows "slots_entries (ss[i := v]) + entry_at (ss ! i) = slots_entries ss + entry_at v"
proof -
  have "slots_entries ss = slots_entries (take i ss) + entry_at (ss ! i) + slots_entries (drop (Suc i) ss)"
    using assms by (subst id_take_nth_drop [OF assms]) simp
  moreover have "slots_entries (ss[i := v]) = slots_entries (take i ss) + entry_at v + slots_entries (drop (Suc i) ss)"
    using assms by (simp add: upd_conv_take_nth_drop)
  ultimately show ?thesis by simp
qed

lemma rb_entries_size: "rb_shape b \<Longrightarrow> size (rb_entries b) = rb_len b"
  by (simp add: rb_entries_def slots_entries_def rb_shape_def slot_count_def flip: mset_filter)

lemma rb_entries_counts: "rb_entries (b\<lparr>rb_next_expected := n\<rparr>) = rb_entries b"
  by (simp add: rb_entries_def)

lemma slots_entries_free [simp]: "slots_entries (map (\<lambda>_. free_slot) xs) = {#}"
  by (induction xs) (simp_all add: entry_at_def)

lemma rb_entries_ensure [simp]: "rb_entries (ensure_slots b) = rb_entries b"
  by (simp add: rb_entries_def ensure_slots_def del: upt_Suc)

section \<open>Placed buffers\<close>

lemma tags_pending:
  assumes "rb_shape b" "rb_placed b"
  shows "(\<lambda>s. slot_tag s - 1) ` set (filter occupied (rb_slots b)) = dom (rb_pending b)"
    and "\<And>s. s \<in> set (filter occupied (rb_slots b)) \<Longrightarrow> slot_item s = rb_pending b (slot_tag s - 1)"
proof -
  have key: "slot_item s = rb_pending b (slot_tag s - 1) \<and> slot_item s \<noteq> None"
    if "s \<in> set (filter occupied (rb_slots b))" for s
  proof -
    from that obtain i where i: "i < length (rb_slots b)" "rb_slots b ! i = s" "occupied s"
      by (auto simp: in_set_conv_nth)
    with assms have "(slot_tag s - 1) mod (rb_mask b + 1) = i" "slot_ok s"
      by (auto simp: rb_placed_def rb_shape_def)
    with i show ?thesis by (auto simp: rb_pending_def occupied_tag_pos slot_ok_def)
  qed
  then show "\<And>s. s \<in> set (filter occupied (rb_slots b)) \<Longrightarrow> slot_item s = rb_pending b (slot_tag s - 1)"
    by blast
  have "q \<in> (\<lambda>s. slot_tag s - 1) ` set (filter occupied (rb_slots b))" if "rb_pending b q = Some x" for q x
  proof -
    let ?s = "rb_slots b ! (q mod (rb_mask b + 1))"
    have ne: "rb_slots b \<noteq> []" and tag: "slot_tag ?s = q + 1"
      using that by (auto simp: rb_pending_def Let_def split: if_splits)
    have "?s \<in> set (filter occupied (rb_slots b))"
      using shape_index [OF assms(1) ne, of q] tag by (simp add: occupied_tag_pos)
    then show ?thesis using tag by (intro image_eqI [of q _ ?s]) simp_all
  qed
  then have "dom (rb_pending b) \<subseteq> (\<lambda>s. slot_tag s - 1) ` set (filter occupied (rb_slots b))"
    by (meson domD subsetI)
  moreover have "(\<lambda>s. slot_tag s - 1) ` set (filter occupied (rb_slots b)) \<subseteq> dom (rb_pending b)"
    using key by (metis (no_types, lifting) domIff image_subsetI)
  ultimately show "(\<lambda>s. slot_tag s - 1) ` set (filter occupied (rb_slots b)) = dom (rb_pending b)"
    by (rule equalityI [rotated])
qed

lemma sorted_tags:
  assumes "rb_shape b" "rb_placed b"
  shows "map (\<lambda>s. slot_tag s - 1) (sort_key slot_tag (filter occupied (rb_slots b)))
       = sorted_list_of_set (dom (rb_pending b))"
proof (rule sorted_distinct_set_unique)
  let ?occ = "filter occupied (rb_slots b)"
  have "sorted (map slot_tag (sort_key slot_tag ?occ))" by simp
  then show "sorted (map (\<lambda>s. slot_tag s - 1) (sort_key slot_tag ?occ))"
    by (auto simp: sorted_map intro: sorted_wrt_mono_rel [rotated])
  have homes: "\<forall>i<length (rb_slots b). occupied (rb_slots b ! i) \<longrightarrow> home (rb_mask b + 1) (rb_slots b ! i) = i"
    using assms(2) by (simp add: rb_placed_def home_def)
  have "distinct (map (home (rb_mask b + 1)) ?occ)" by (rule distinct_home [OF homes dvd_refl])
  then have "distinct ?occ" "inj_on (\<lambda>s. slot_tag s - 1) (set ?occ)"
    by (auto simp: distinct_map home_def inj_on_def)
  then show "distinct (map (\<lambda>s. slot_tag s - 1) (sort_key slot_tag ?occ))"
    by (simp add: distinct_map)
  have fin: "finite (dom (rb_pending b))" using tags_pending(1) [OF assms] by (metis List.finite_set finite_imageI)
  show "set (map (\<lambda>s. slot_tag s - 1) (sort_key slot_tag ?occ)) = set (sorted_list_of_set (dom (rb_pending b)))"
    using tags_pending(1) [OF assms] fin by simp
qed simp_all

text \<open>When every item sits in its own slot, the entries are the graph of the pending map.\<close>

lemma entries_placed:
  assumes "rb_shape b" "rb_placed b"
  shows "rb_entries b = mset (map (\<lambda>q. (q, the (rb_pending b q))) (sorted_list_of_set (dom (rb_pending b))))"
proof -
  let ?occ = "sort_key slot_tag (filter occupied (rb_slots b))"
  have "map slot_entry ?occ = map (\<lambda>q. (q, the (rb_pending b q))) (map (\<lambda>s. slot_tag s - 1) ?occ)"
    using tags_pending(2) [OF assms] by (simp add: slot_entry_def)
  also have "\<dots> = map (\<lambda>q. (q, the (rb_pending b q))) (sorted_list_of_set (dom (rb_pending b)))"
    by (simp only: sorted_tags [OF assms])
  finally have "mset (map slot_entry ?occ) = mset (map (\<lambda>q. (q, the (rb_pending b q))) (sorted_list_of_set (dom (rb_pending b))))"
    by (rule arg_cong)
  then show ?thesis by (simp add: rb_entries_def slots_entries_def mset_map del: mset_filter)
qed

lemma entries_same:
  assumes "rb_wf b" "rb_placed b" "rb_wf b'" "rb_placed b'" "rb_pending b' = rb_pending b"
  shows "rb_entries b' = rb_entries b"
  using assms by (simp add: entries_placed rb_wf_def)

section \<open>A write and the flush\<close>

lemma written_entries:
  assumes "idx < length (rb_slots b)"
  shows "rb_entries (written b idx seq x) + entry_at (rb_slots b ! idx) = rb_entries b + {#(seq, x)#}"
  using slots_entries_update [OF assms, of "\<lparr>slot_tag = seq + 1, slot_item = Some x\<rparr>"]
  by (simp add: rb_entries_def written_def entry_at_def slot_entry_def occupied_tag_pos)

lemma written_dropped: "rb_dropped (written b idx seq x) = rb_dropped b + size (entry_at (rb_slots b ! idx))"
  by (simp add: written_def entry_at_def)

lemma written_pending:
  assumes "rb_pending (written b idx seq x) q \<noteq> None" "idx < length (rb_slots b)"
  shows "q = seq \<or> rb_pending b q \<noteq> None"
  using assms by (cases "q mod (rb_mask b + 1) = idx") (auto simp: rb_pending_def written_def Let_def split: if_splits)

lemma written_stored:
  assumes "idx < length (rb_slots b)"
  shows "(seq, x) \<in># rb_entries (written b idx seq x)"
proof -
  let ?n = "\<lparr>slot_tag = seq + 1, slot_item = Some x\<rparr>"
  have "?n \<in> set ((rb_slots b)[idx := ?n])" using assms by (rule set_update_memI)
  then show ?thesis
    by (auto simp: rb_entries_def written_def slots_entries_def slot_entry_def occupied_tag_pos intro!: image_eqI [of _ _ ?n])
qed

lemma written_stale_pending:
  assumes "idx < length (rb_slots b)" "seq mod (rb_mask b + 1) \<noteq> idx"
  shows "rb_pending (written b idx seq x) k = (if k mod (rb_mask b + 1) = idx then None else rb_pending b k)"
  using assms by (auto simp: rb_pending_def written_def Let_def)

lemma flush_step_entries:
  assumes "rb_shape b" "rb_slots b \<noteq> []" "rb_pending b (rb_next_expected b) = Some x"
  shows "rb_entries b = {#(rb_next_expected b, x)#} + rb_entries (flush_step b)"
proof -
  let ?i = "rb_next_expected b mod (rb_mask b + 1)"
  have tag: "slot_tag (rb_slots b ! ?i) = rb_next_expected b + 1" "slot_item (rb_slots b ! ?i) = Some x"
    using assms(2, 3) by (auto simp: rb_pending_def Let_def split: if_splits)
  then have "entry_at (rb_slots b ! ?i) = {#(rb_next_expected b, x)#}"
    by (simp add: entry_at_def slot_entry_def occupied_tag_pos)
  with slots_entries_update [OF shape_index [OF assms(1, 2)], of "rb_next_expected b" free_slot] show ?thesis
    by (simp add: rb_entries_def flush_step_def entry_at_def [of free_slot])
qed

lemma flush_loop_entries:
  assumes "rb_shape b" "rb_slots b \<noteq> []" "flush_loop b = Inr (b', out)"
  shows "rb_entries b = mset (zip [rb_next_expected b..<rb_next_expected b'] out) + rb_entries b' \<and>
    rb_next_expected b' = rb_next_expected b + length out"
  using assms
proof (induction "rb_len b" arbitrary: b out rule: less_induct)
  case less
  let ?n = "rb_next_expected b"
  show ?case
  proof (cases "rb_pending b ?n")
    case None
    with flush_loop_unfold [OF less.prems(1, 2)] less.prems(3) show ?thesis by simp
  next
    case (Some x)
    note st = flush_step_ok [OF less.prems(1, 2) Some]
    from flush_loop_unfold [OF less.prems(1, 2)] less.prems(3) Some obtain rest where
      fl: "flush_loop (flush_step b) = Inr (b', rest)" and out: "out = x # rest"
      by (cases "flush_loop (flush_step b)") auto
    have "rb_len (flush_step b) < rb_len b" using st(3) by (simp add: flush_step_def)
    from less.hyps [OF this st(1, 2) fl]
    have ih: "rb_entries (flush_step b) = mset (zip [Suc ?n..<rb_next_expected b'] rest) + rb_entries b'"
      "rb_next_expected b' = Suc ?n + length rest" by (simp_all add: flush_step_def)
    have "[?n..<rb_next_expected b'] = ?n # [Suc ?n..<rb_next_expected b']" using ih(2) by (simp add: upt_rec)
    with ih flush_step_entries [OF less.prems(1, 2) Some] out show ?thesis by simp
  qed
qed

end
