(* ===== verification/Reorder_Props.thy ===== *)
theory Reorder_Props
  imports Reorder_Entries
begin

text \<open>
  The reorder buffer's contract. \<open>insert_total\<close> is what one insertion of a number the buffer does not
  hold does to any well-formed buffer; \<open>resequencer\<close> is the interface the ordered collectors rely on,
  interpreted here by \<open>insert_into\<close>; the properties at the end state what the code guarantees.
\<close>

section \<open>Insertion into a well-formed buffer\<close>

lemma len0_no_slot:
  assumes "rb_shape b" "rb_len b = 0" "i < length (rb_slots b)"
  shows "\<not> occupied (rb_slots b ! i)"
proof -
  have "length (filter occupied (rb_slots b)) = 0"
    using assms by (simp add: rb_shape_def slot_count_def)
  then show ?thesis using assms(3) by (rule filter_length_0_nth)
qed

lemma len0_pending: "rb_shape b \<Longrightarrow> rb_len b = 0 \<Longrightarrow> rb_pending b = Map.empty"
  using len0_no_slot [of b "q mod (rb_mask b + 1)" for q] shape_index
  by (fastforce simp: rb_pending_def Let_def occupied_tag_pos fun_eq_iff)

lemma insert_total:
  assumes wf: "rb_wf b" and seq: "seq + 2 < u64_mod" and fresh: "rb_pending b seq = None"
  shows "\<exists>b' out lost. insert_into b seq x = Inr (b', out) \<and> rb_wf b' \<and>
      rb_next_expected b' = rb_next_expected b + length out \<and> rb_dropped b' = rb_dropped b + size lost \<and>
      rb_entries b + {#(seq, x)#} =
        mset (zip [rb_next_expected b..<rb_next_expected b'] out) + rb_entries b' + lost \<and>
      (\<forall>q. rb_pending b' q \<noteq> None \<longrightarrow> q = seq \<or> rb_pending b q \<noteq> None)"
proof (cases "seq = rb_next_expected b \<and> rb_len b = 0")
  case True
  let ?b = "b\<lparr>rb_next_expected := rb_next_expected b + 1\<rparr>"
  have "insert_into b seq x = Inr (?b, [x])" using seq True by (simp add: insert_into_def)
  moreover have "rb_wf ?b" using wf seq True by (simp add: rb_wf_def rb_shape_def rb_placed_def)
  moreover have "rb_pending ?b = rb_pending b" by (simp add: rb_pending_def fun_eq_iff Let_def)
  ultimately show ?thesis using True
    by (intro exI [of _ ?b] exI [of _ "[x]"] exI [of _ "{#}"]) (simp add: rb_entries_counts)
next
  case False
  from insert_slow [OF wf seq fresh this] obtain b1 idx where
    ins: "insert_into b seq x = flush_ready_into (written b1 idx seq x)" and
    b1: "rb_wf b1" "idx < length (rb_slots b1)" "same_counts b b1" "rb_pending b1 = rb_pending b"
      "rb_placed b \<longrightarrow> rb_placed b1" "rb_placed b \<or> b1 = ensure_slots b"
      "idx = seq mod (rb_mask b1 + 1) \<or> rb_mask b1 + 1 = rb_max_capacity b1" by blast
  have ent: "rb_entries b1 = rb_entries b"
    using b1(6) entries_same [OF wf _ b1(1)] b1(4, 5) by auto
  let ?w = "written b1 idx seq x"
  note w = written_ok [OF b1(1,2) seq b1(7), of x]
  have shape: "rb_shape ?w" using w(1) by (simp add: rb_wf_def)
  from flush_loop_ok [OF shape w(4)] obtain b' out where
    fl: "flush_loop ?w = Inr (b', out)" and
    b': "rb_shape b'" "rb_placed ?w \<longrightarrow> rb_placed b'" "rb_mask b' = rb_mask b1"
      "rb_max_capacity b' = rb_max_capacity b1" "rb_dropped b' = rb_dropped ?w"
      "rb_pending b' = without_run (rb_pending ?w) (rb_next_expected b1) (rb_next_expected b')"
    by (auto simp: written_def)
  note fe = flush_loop_entries [OF shape w(4) fl]
  have same: "rb_next_expected ?w = rb_next_expected b" "rb_dropped b1 = rb_dropped b"
    using b1(3) by (simp_all add: written_def same_counts_def)
  have "insert_into b seq x = Inr (b', out)" using ins fl w(2) by (simp add: flush_ready_into_def)
  moreover have "rb_wf b'" using b'(1-4) w(1) by (auto simp: rb_wf_def written_def)
  moreover have "rb_dropped b' = rb_dropped b + size (entry_at (rb_slots b1 ! idx))"
    using b'(5) same by (simp add: written_dropped)
  moreover have "rb_entries b + {#(seq, x)#} =
      mset (zip [rb_next_expected b..<rb_next_expected b'] out) + rb_entries b' + entry_at (rb_slots b1 ! idx)"
    using written_entries [OF b1(2), of seq x] ent fe same by simp
  moreover have "q = seq \<or> rb_pending b q \<noteq> None" if "rb_pending b' q \<noteq> None" for q
  proof -
    have "rb_pending ?w q \<noteq> None" using that b'(6) by (auto simp: without_run_def split: if_splits)
    from written_pending [OF this b1(2)] b1(4) show ?thesis by simp
  qed
  ultimately show ?thesis using fe same
    by (intro exI [of _ b'] exI [of _ out] exI [of _ "entry_at (rb_slots b1 ! idx)"]) simp
qed

section \<open>The resequencer interface\<close>

text \<open>
  \<open>feed_all ins\<close> inserts a list of tagged items one after the other and concatenates what
  reaches the sink: the ordered collectors' use of the buffer.
\<close>

fun feed_all :: "('b \<Rightarrow> nat \<Rightarrow> 'a \<Rightarrow> ('b \<times> 'a list) res) \<Rightarrow> 'b \<Rightarrow> (nat \<times> 'a) list \<Rightarrow>
    ('b \<times> 'a list) res" where
  "feed_all ins b [] = Inr (b, [])"
| "feed_all ins b ((seq, x) # xs) =
     bind_res (ins b seq x) (\<lambda>(b', out).
     bind_res (feed_all ins b' xs) (\<lambda>(b'', out'). Inr (b'', out @ out')))"

locale resequencer =
  fixes ins :: "'b \<Rightarrow> nat \<Rightarrow> 'a \<Rightarrow> ('b \<times> 'a list) res"
    and inv :: "'b \<Rightarrow> bool"
    and pend :: "'b \<Rightarrow> nat \<Rightarrow> 'a option"
    and nxt :: "'b \<Rightarrow> nat"
    and bound :: nat
  assumes pend_inv: "inv b \<Longrightarrow> pend b q \<noteq> None \<Longrightarrow> nxt b < q"
    and ins_spec: "inv b \<Longrightarrow> seq < bound \<Longrightarrow> nxt b \<le> seq \<Longrightarrow> pend b seq = None \<Longrightarrow>
      \<exists>b' out. ins b seq x = Inr (b', out) \<and> inv b' \<and>
        run_from ((pend b)(seq \<mapsto> x)) (nxt b) (nxt b') \<and>
        out = run_items ((pend b)(seq \<mapsto> x)) (nxt b) (nxt b') \<and>
        pend b' = without_run ((pend b)(seq \<mapsto> x)) (nxt b) (nxt b')"
begin

definition whole :: "'b \<Rightarrow> (nat \<times> 'a) list \<Rightarrow> nat \<Rightarrow> 'a option" where
  "whole b xs = pend b ++ map_of xs"

lemma feed_spec:
  assumes "inv b" and "distinct (map fst xs)"
    and "\<And>q. q \<in> fst ` set xs \<Longrightarrow> nxt b \<le> q \<and> q < bound \<and> pend b q = None"
  shows "\<exists>b' out. feed_all ins b xs = Inr (b', out) \<and> inv b' \<and>
      run_from (whole b xs) (nxt b) (nxt b') \<and>
      out = run_items (whole b xs) (nxt b) (nxt b') \<and>
      pend b' = without_run (whole b xs) (nxt b) (nxt b')"
  using assms
proof (induction xs arbitrary: b)
  case Nil
  have "pend b (nxt b) = None" using pend_inv [OF Nil.prems(1)] by blast
  with Nil show ?case
    by (auto simp: whole_def run_from_def run_items_def without_run_def fun_eq_iff)
next
  case (Cons sx xs)
  obtain seq x where sx: "sx = (seq, x)" by (cases sx)
  let ?m = "(pend b)(seq \<mapsto> x)"
  from ins_spec [OF Cons.prems(1), of seq x] Cons.prems(3) [of seq] sx obtain b1 out1 where
    i: "ins b seq x = Inr (b1, out1)" "inv b1" "run_from ?m (nxt b) (nxt b1)"
      "out1 = run_items ?m (nxt b) (nxt b1)" "pend b1 = without_run ?m (nxt b) (nxt b1)"
    by auto
  have fresh: "nxt b1 \<le> q \<and> q < bound \<and> pend b1 q = None" if "q \<in> fst ` set xs" for q
  proof -
    have q: "q \<noteq> seq" "nxt b \<le> q" "q < bound" "pend b q = None"
      using that Cons.prems(2,3) sx by auto
    then have "?m q = None" by simp
    with i(3) q(2) have "nxt b1 \<le> q" by (meson leI run_from_def)
    with q i(5) show ?thesis by (simp add: without_run_def)
  qed
  from Cons.IH [OF i(2) _ fresh] Cons.prems(2) sx obtain b2 out2 where
    f: "feed_all ins b1 xs = Inr (b2, out2)" "inv b2" "run_from (whole b1 xs) (nxt b1) (nxt b2)"
      "out2 = run_items (whole b1 xs) (nxt b1) (nxt b2)"
      "pend b2 = without_run (whole b1 xs) (nxt b1) (nxt b2)" by auto
  have le: "nxt b \<le> nxt b1" "nxt b1 \<le> nxt b2" using i(3) f(3) by (simp_all add: run_from_def)
  have seq_xs: "map_of xs seq = None" using Cons.prems(2) sx by (auto simp: map_of_eq_None_iff)
  have lo: "whole b (sx # xs) q = ?m q" if "q < nxt b1" for q
    using that fresh sx seq_xs by (force simp: whole_def map_add_def split: option.splits dest: map_of_SomeD)
  have hi: "whole b (sx # xs) q = whole b1 xs q" if "nxt b1 \<le> q" for q
    using that sx seq_xs i(5) by (auto simp: whole_def map_add_def without_run_def split: option.splits)
  have "run_items (whole b (sx # xs)) (nxt b) (nxt b2) = out1 @ out2"
  proof -
    have "[nxt b..<nxt b2] = [nxt b..<nxt b1] @ [nxt b1..<nxt b2]"
      using le upt_add_eq_append [of "nxt b" "nxt b1" "nxt b2 - nxt b1"] by simp
    then show ?thesis using lo hi by (simp add: run_items_def i(4) f(4))
  qed
  moreover have "run_from (whole b (sx # xs)) (nxt b) (nxt b2)"
    unfolding run_from_def
  proof (intro conjI allI impI)
    show "nxt b \<le> nxt b2" using le by simp
    show "whole b (sx # xs) (nxt b2) = None" using f(3) hi le by (simp add: run_from_def)
    fix q assume "nxt b \<le> q \<and> q < nxt b2"
    then show "whole b (sx # xs) q \<noteq> None"
      using lo [of q] hi [of q] i(3) f(3) by (cases "q < nxt b1") (auto simp: run_from_def)
  qed
  moreover have "pend b2 = without_run (whole b (sx # xs)) (nxt b) (nxt b2)"
  proof
    fix q
    have below: "whole b1 xs q = None" if "q < nxt b1" "\<not> (nxt b \<le> q \<and> q < nxt b1) \<or> True"
    proof -
      have "pend b1 q = None" using pend_inv [OF i(2), of q] that by force
      moreover have "map_of xs q = None" using fresh that by (force simp: map_of_eq_None_iff)
      ultimately show ?thesis by (simp add: whole_def map_add_def)
    qed
    have old: "?m q = None" if "q < nxt b"
      using that pend_inv [OF Cons.prems(1), of q] Cons.prems(3) [of seq] sx by force
    show "pend b2 q = without_run (whole b (sx # xs)) (nxt b) (nxt b2) q"
      using f(5) le lo [of q] hi [of q] below old by (cases "q < nxt b1") (auto simp: without_run_def)
  qed
  ultimately show ?case using i(1) f(1,2) sx by auto
qed

text \<open>Feeding exactly the sequence numbers \<open>0, \<dots>, n - 1\<close>, in any order, yields the items in order.\<close>

lemma feed_permutation:
  assumes "inv b" "nxt b = 0" "pend b = Map.empty"
    and "distinct (map fst xs)" "fst ` set xs = {0..<n}" "n \<le> bound"
  shows "\<exists>b'. feed_all ins b xs = Inr (b', map (\<lambda>q. the (map_of xs q)) [0..<n]) \<and> inv b' \<and>
      nxt b' = n \<and> pend b' = Map.empty"
proof -
  from feed_spec [OF assms(1,4)] assms(2,3,5,6) obtain b' out where
    f: "feed_all ins b xs = Inr (b', out)" "inv b'" "run_from (whole b xs) 0 (nxt b')"
      "out = run_items (whole b xs) 0 (nxt b')" "pend b' = without_run (whole b xs) 0 (nxt b')"
    by auto
  have w: "whole b xs = map_of xs" using assms(3) by (simp add: whole_def)
  have dom: "map_of xs q = None \<longleftrightarrow> n \<le> q" for q
    using assms(5) by (auto simp: map_of_eq_None_iff)
  then have n: "run_from (whole b xs) 0 n" unfolding w run_from_def by auto
  have "nxt b' = n" using f(3) n by (rule run_from_unique)
  moreover have "pend b' = Map.empty"
    using f(5) dom \<open>nxt b' = n\<close> by (auto simp: w without_run_def fun_eq_iff)
  ultimately show ?thesis using f w by (simp add: run_items_def)
qed

end

section \<open>The buffer implements the interface\<close>

definition rb_ready :: "nat \<Rightarrow> 'a reorder_buffer \<Rightarrow> bool" where
  "rb_ready n b \<longleftrightarrow>
     rb_wf b \<and> rb_placed b \<and> n \<le> rb_max_capacity b \<and> n + 2 \<le> u64_mod \<and>
     (\<forall>q. rb_pending b q \<noteq> None \<longrightarrow> rb_next_expected b < q \<and> q < n)"

lemma insert_into_spec:
  assumes ready: "rb_ready n b" and seq: "seq < n" "rb_next_expected b \<le> seq"
    and fresh: "rb_pending b seq = None"
  shows "\<exists>b' out. insert_into b seq x = Inr (b', out) \<and> rb_ready n b' \<and>
      run_from ((rb_pending b)(seq \<mapsto> x)) (rb_next_expected b) (rb_next_expected b') \<and>
      out = run_items ((rb_pending b)(seq \<mapsto> x)) (rb_next_expected b) (rb_next_expected b') \<and>
      rb_pending b' = without_run ((rb_pending b)(seq \<mapsto> x)) (rb_next_expected b) (rb_next_expected b') \<and>
      rb_dropped b' = rb_dropped b \<and> rb_max_capacity b' = rb_max_capacity b"
proof -
  have wf: "rb_wf b" "rb_placed b" "rb_shape b" using ready by (simp_all add: rb_ready_def rb_wf_def)
  have big: "seq + 2 < u64_mod" using ready seq by (simp add: rb_ready_def)
  show ?thesis
  proof (cases "seq = rb_next_expected b \<and> rb_len b = 0")
    case True
    let ?b = "b\<lparr>rb_next_expected := rb_next_expected b + 1\<rparr>"
    have ins: "insert_into b seq x = Inr (?b, [x])" using True big by (simp add: insert_into_def)
    have empty: "rb_pending b = Map.empty" using True wf(3) len0_pending by blast
    have pend: "rb_pending ?b = rb_pending b" by (simp add: rb_pending_def fun_eq_iff Let_def)
    have wf': "rb_wf ?b" "rb_placed ?b"
      using wf True big by (simp_all add: rb_wf_def rb_shape_def rb_placed_def)
    have "rb_ready n ?b"
      unfolding rb_ready_def pend using wf' empty ready by (simp add: rb_ready_def)
    then show ?thesis using ins empty pend True
      by (auto simp: run_from_def run_items_def without_run_def fun_eq_iff)
  next
    case False
    have "no_alias b seq"
    proof -
      have "q mod rb_max_capacity b \<noteq> seq mod rb_max_capacity b" if "rb_pending b q = Some y" for q y
      proof -
        have "q < n" "q \<noteq> seq" using that ready fresh by (auto simp: rb_ready_def)
        then show ?thesis using seq ready by (simp add: rb_ready_def)
      qed
      then show ?thesis by (simp add: no_alias_def)
    qed
    with insert_slow [OF wf(1) big fresh False] wf(2) obtain b1 idx where
      ins: "insert_into b seq x = flush_ready_into (written b1 idx seq x)" and
      b1: "rb_wf b1" "idx < length (rb_slots b1)" "rb_pending b1 = rb_pending b" "same_counts b b1"
        "rb_placed b1" "idx = seq mod (rb_mask b1 + 1)" "\<not> occupied (rb_slots b1 ! idx)" by blast
    note w = written_ok [OF b1(1,2) big disjI1 [OF b1(6)], of x]
    have shape1: "rb_shape b1" using b1(1) by (simp add: rb_wf_def)
    note wp = written_placed [OF shape1 b1(5,2,6,7), of x]
    have shape: "rb_shape (written b1 idx seq x)" using w(1) by (simp add: rb_wf_def)
    from flush_loop_ok [OF shape w(4)] wp(1,2) b1(3) obtain b' out where
      fl: "flush_loop (written b1 idx seq x) = Inr (b', out)" and
      b': "rb_shape b'" "rb_placed b'" "rb_max_capacity b' = rb_max_capacity b1"
        "rb_dropped b' = rb_dropped b1"
        "run_from ((rb_pending b)(seq \<mapsto> x)) (rb_next_expected b1) (rb_next_expected b')"
        "out = run_items ((rb_pending b)(seq \<mapsto> x)) (rb_next_expected b1) (rb_next_expected b')"
        "rb_pending b' = without_run ((rb_pending b)(seq \<mapsto> x)) (rb_next_expected b1) (rb_next_expected b')"
      using wp(3) by (auto simp: written_def)
    have same: "rb_next_expected b1 = rb_next_expected b" "rb_max_capacity b1 = rb_max_capacity b"
      "rb_dropped b1 = rb_dropped b" using b1(4) by (simp_all add: same_counts_def)
    have "rb_next_expected b' < q \<and> q < n" if "rb_pending b' q \<noteq> None" for q
    proof -
      have mq: "((rb_pending b)(seq \<mapsto> x)) q \<noteq> None"
        "\<not> (rb_next_expected b \<le> q \<and> q < rb_next_expected b')"
        using that b'(7) same by (auto simp: without_run_def split: if_splits)
      have "rb_next_expected b \<le> q \<and> q < n"
        using mq(1) ready seq by (auto simp: rb_ready_def split: if_splits dest: less_imp_le)
      moreover have "q \<noteq> rb_next_expected b'" using mq(1) b'(5) same by (auto simp: run_from_def)
      ultimately show ?thesis using mq(2) by auto
    qed
    then have "rb_ready n b'"
      using b'(1-3) ready same by (simp add: rb_ready_def rb_wf_def)
    moreover have "insert_into b seq x = Inr (b', out)"
      using ins fl w(2) by (simp add: flush_ready_into_def)
    ultimately show ?thesis using b' same by auto
  qed
qed

interpretation rb: resequencer insert_into "rb_ready n" rb_pending rb_next_expected n for n
proof (unfold_locales, goal_cases)
  case (1 b q)
  then show ?case by (simp add: rb_ready_def)
next
  case (2 b seq x)
  from insert_into_spec [OF this, of x] show ?case by (elim exE conjE) (intro exI conjI)
qed

lemma feed_all_dropped:
  assumes "rb_ready n b" and "distinct (map fst xs)"
    and "\<And>q. q \<in> fst ` set xs \<Longrightarrow> rb_next_expected b \<le> q \<and> q < n \<and> rb_pending b q = None"
    and "feed_all insert_into b xs = Inr (b', out)"
  shows "rb_dropped b' = rb_dropped b \<and> rb_ready n b'"
  using assms
proof (induction xs arbitrary: b out)
  case (Cons sx xs)
  obtain seq x where sx: "sx = (seq, x)" by (cases sx)
  from insert_into_spec [OF Cons.prems(1), of seq x] Cons.prems(3) [of seq] sx obtain b1 out1 where
    i: "insert_into b seq x = Inr (b1, out1)" "rb_ready n b1"
      "run_from ((rb_pending b)(seq \<mapsto> x)) (rb_next_expected b) (rb_next_expected b1)"
      "rb_pending b1 = without_run ((rb_pending b)(seq \<mapsto> x)) (rb_next_expected b) (rb_next_expected b1)"
      "rb_dropped b1 = rb_dropped b" by auto
  from Cons.prems(4) sx i(1) obtain out2 where
    f: "feed_all insert_into b1 xs = Inr (b', out2)" by (auto simp: bind_res_Inr_iff)
  have "rb_next_expected b1 \<le> q \<and> q < n \<and> rb_pending b1 q = None" if "q \<in> fst ` set xs" for q
  proof -
    have q: "q \<noteq> seq" "rb_next_expected b \<le> q" "q < n" "rb_pending b q = None"
      using that Cons.prems(2,3) sx by auto
    then have "rb_next_expected b1 \<le> q" using i(3) by (metis fun_upd_other leI run_from_def)
    with q i(4) show ?thesis by (simp add: without_run_def)
  qed
  from Cons.IH [OF i(2) _ this f] Cons.prems(2) i(5) show ?case by simp
qed simp

section \<open>Draining what is left\<close>

lemma read_items_ok:
  "\<forall>s\<in>set ss. slot_item s \<noteq> None \<Longrightarrow> read_items ss = Inr (map (\<lambda>s. the (slot_item s)) ss)"
  by (induction ss) auto

lemma flush_remaining_ok:
  assumes "rb_shape b"
  shows "\<exists>b' out. flush_remaining b = Inr (b', out) \<and> rb_wf b' \<and> rb_placed b' \<and>
     length out = rb_len b \<and> rb_len b' = 0 \<and> rb_dropped b' = rb_dropped b \<and>
     rb_next_expected b' = rb_next_expected b \<and>
     out = map (\<lambda>s. the (slot_item s)) (sort_key slot_tag (filter occupied (rb_slots b)))"
proof -
  let ?occ = "sort_key slot_tag (filter occupied (rb_slots b))"
  have eq: "filter (\<lambda>s. slot_tag s \<noteq> UNOCCUPIED) (rb_slots b) = filter occupied (rb_slots b)"
    by (rule filter_cong) (simp_all add: occupied_def)
  have "\<forall>s\<in>set ?occ. slot_item s \<noteq> None"
    using assms by (auto simp: rb_shape_def slot_ok_def)
  then have rd: "read_items ?occ = Inr (map (\<lambda>s. the (slot_item s)) ?occ)" by (rule read_items_ok)
  let ?b = "b\<lparr>rb_slots := map (\<lambda>_. free_slot) (rb_slots b), rb_len := 0\<rparr>"
  have fl: "flush_remaining b = Inr (?b, map (\<lambda>s. the (slot_item s)) ?occ)"
    using rd by (simp add: flush_remaining_def eq)
  have "rb_shape ?b" using assms by (auto simp: rb_shape_def)
  moreover have "rb_placed ?b" by (simp add: rb_placed_def)
  ultimately show ?thesis using fl assms by (simp add: rb_wf_def rb_shape_def slot_count_def)
qed

lemma pending_empty_len0:
  assumes "rb_shape b" "rb_placed b" "rb_pending b = Map.empty"
  shows "rb_len b = 0"
proof -
  have "set (filter occupied (rb_slots b)) = {}" using tags_pending(1) [OF assms(1,2)] assms(3) by simp
  then have "filter occupied (rb_slots b) = []" by simp
  with assms(1) show ?thesis by (simp add: rb_shape_def slot_count_def)
qed

definition feedable :: "'a reorder_buffer \<Rightarrow> nat multiset \<Rightarrow> bool" where
  "feedable b A \<longleftrightarrow> rb_wf b \<and> (\<forall>q \<in># A. count A q = 1 \<and> q + 2 < u64_mod \<and> rb_pending b q = None)"

text \<open>A buffer that can take a set of sequence numbers takes one of them and can take the rest.\<close>

lemma insert_feedable:
  assumes "feedable b (add_mset seq A)"
  shows "\<exists>b' out lost. insert_into b seq x = Inr (b', out) \<and> feedable b' A \<and>
      rb_next_expected b' = rb_next_expected b + length out \<and> rb_dropped b' = rb_dropped b + size lost \<and>
      rb_entries b + {#(seq, x)#} =
        mset (zip [rb_next_expected b..<rb_next_expected b'] out) + rb_entries b' + lost"
proof -
  have h: "rb_wf b" "seq + 2 < u64_mod" "rb_pending b seq = None" "count (add_mset seq A) seq = 1"
    using assms by (auto simp: feedable_def)
  from insert_total [OF h(1-3), of x] obtain b' out lost where
    i: "insert_into b seq x = Inr (b', out)" "rb_wf b'"
      "rb_next_expected b' = rb_next_expected b + length out" "rb_dropped b' = rb_dropped b + size lost"
      "rb_entries b + {#(seq, x)#} =
        mset (zip [rb_next_expected b..<rb_next_expected b'] out) + rb_entries b' + lost"
      "\<forall>q. rb_pending b' q \<noteq> None \<longrightarrow> q = seq \<or> rb_pending b q \<noteq> None" by blast
  have "count A q = 1 \<and> q + 2 < u64_mod \<and> rb_pending b' q = None" if "q \<in># A" for q
  proof -
    have "seq \<notin># A" using h(4) by (simp add: not_in_iff)
    with that have "q \<noteq> seq" by blast
    moreover have "count (add_mset seq A) q = 1 \<and> q + 2 < u64_mod \<and> rb_pending b q = None"
      using assms that by (auto simp: feedable_def)
    ultimately show ?thesis using i(6) by auto
  qed
  with i(2) have "feedable b' A" by (simp add: feedable_def)
  with i(1, 3-5) show ?thesis by blast
qed

lemma feedableI:
  assumes "rb_wf b" "distinct (map fst xs)" "\<And>q. q \<in> fst ` set xs \<Longrightarrow> q + 2 < u64_mod \<and> rb_pending b q = None"
  shows "feedable b (mset (map fst xs))"
  using assms by (auto simp: feedable_def distinct_count_atmost_1)

lemma feed_accounts:
  assumes "feedable b (mset (map fst xs))"
  shows "\<exists>b' out lost. feed_all insert_into b xs = Inr (b', out) \<and> rb_wf b' \<and>
      rb_next_expected b' = rb_next_expected b + length out \<and> rb_dropped b' = rb_dropped b + size lost \<and>
      rb_entries b + mset xs =
        mset (zip [rb_next_expected b..<rb_next_expected b'] out) + rb_entries b' + lost"
  using assms
proof (induction xs arbitrary: b)
  case Nil
  then show ?case by (intro exI [of _ b] exI [of _ "[]"] exI [of _ "{#}"]) (simp add: feedable_def)
next
  case (Cons sx xs)
  obtain seq x where sx: "sx = (seq, x)" by (cases sx)
  have "feedable b (add_mset seq (mset (map fst xs)))" using Cons.prems sx by simp
  from insert_feedable [OF this, of x] obtain b1 out1 lost1 where
    i: "insert_into b seq x = Inr (b1, out1)" "feedable b1 (mset (map fst xs))"
      "rb_next_expected b1 = rb_next_expected b + length out1" "rb_dropped b1 = rb_dropped b + size lost1"
      "rb_entries b + {#(seq, x)#} =
        mset (zip [rb_next_expected b..<rb_next_expected b1] out1) + rb_entries b1 + lost1" by blast
  from Cons.IH [OF i(2)] obtain b2 out2 lost2 where
    f: "feed_all insert_into b1 xs = Inr (b2, out2)" "rb_wf b2"
      "rb_next_expected b2 = rb_next_expected b1 + length out2" "rb_dropped b2 = rb_dropped b1 + size lost2"
      "rb_entries b1 + mset xs =
        mset (zip [rb_next_expected b1..<rb_next_expected b2] out2) + rb_entries b2 + lost2" by blast
  have zip: "zip [rb_next_expected b..<rb_next_expected b2] (out1 @ out2) =
      zip [rb_next_expected b..<rb_next_expected b1] out1 @ zip [rb_next_expected b1..<rb_next_expected b2] out2"
  proof -
    have "[rb_next_expected b..<rb_next_expected b2] = [rb_next_expected b..<rb_next_expected b1] @ [rb_next_expected b1..<rb_next_expected b2]"
      unfolding f(3) by (rule upt_add_eq_append) (simp add: i(3))
    then show ?thesis by (simp add: zip_append i(3))
  qed
  have "rb_entries b + mset (sx # xs) =
      mset (zip [rb_next_expected b..<rb_next_expected b2] (out1 @ out2)) + rb_entries b2 + (lost1 + lost2)"
  proof -
    let ?z = "mset (zip [rb_next_expected b..<rb_next_expected b1] out1)"
    let ?y = "mset (zip [rb_next_expected b1..<rb_next_expected b2] out2)"
    have "rb_entries b + mset (sx # xs) = ?z + (rb_entries b1 + mset xs) + lost1"
      using i(5) by (simp add: sx)
    also have "\<dots> = (?z + ?y) + rb_entries b2 + (lost1 + lost2)" unfolding f(5) by (simp add: ac_simps)
    finally show ?thesis unfolding zip by simp
  qed
  moreover have "feed_all insert_into b (sx # xs) = Inr (b2, out1 @ out2)" using i(1) f(1) sx by simp
  ultimately show ?case using i(3, 4) f(2-4)
    by (intro exI [of _ b2] exI [of _ "out1 @ out2"] exI [of _ "lost1 + lost2"]) simp
qed

lemma flush_remaining_sorted_aux:
  assumes "rb_wf b" and "rb_placed b"
  shows "\<exists>b'. flush_remaining b
      = Inr (b', map (\<lambda>q. the (rb_pending b q)) (sorted_list_of_set (dom (rb_pending b)))) \<and>
      rb_pending b' = Map.empty \<and> rb_is_empty b' \<and> rb_dropped b' = rb_dropped b \<and>
      rb_next_expected b' = rb_next_expected b"
proof -
  have shape: "rb_shape b" using assms by (simp add: rb_wf_def)
  let ?occ = "sort_key slot_tag (filter occupied (rb_slots b))"
  from flush_remaining_ok [OF shape] obtain b' where
    b': "flush_remaining b = Inr (b', map (\<lambda>s. the (slot_item s)) ?occ)" "rb_wf b'" "rb_len b' = 0"
      "rb_dropped b' = rb_dropped b" "rb_next_expected b' = rb_next_expected b" by blast
  have "map (\<lambda>s. the (slot_item s)) ?occ
      = map (\<lambda>q. the (rb_pending b q)) (map (\<lambda>s. slot_tag s - 1) ?occ)"
    using tags_pending(2) [OF shape assms(2)] by simp
  also have "\<dots> = map (\<lambda>q. the (rb_pending b q)) (sorted_list_of_set (dom (rb_pending b)))"
    by (simp only: sorted_tags [OF shape assms(2)])
  finally have "map (\<lambda>s. the (slot_item s)) ?occ
      = map (\<lambda>q. the (rb_pending b q)) (sorted_list_of_set (dom (rb_pending b)))" .
  moreover have "rb_pending b' = Map.empty" using b'(2,3) len0_pending by (auto simp: rb_wf_def)
  ultimately show ?thesis using b' by (simp add: rb_is_empty_def)
qed

section \<open>Growth that does not help\<close>

text \<open>A number congruent modulo the ceiling occupies the slot at every capacity.\<close>

lemma alias_occupied:
  assumes "rb_wf b" "rb_placed b" "rb_pending b q = Some y" "q mod rb_max_capacity b = seq mod rb_max_capacity b"
  shows "rb_slots b \<noteq> []" "slot_tag (rb_slots b ! (seq mod (rb_mask b + 1))) = q + 1"
    "occupied (rb_slots b ! (seq mod (rb_mask b + 1)))"
proof -
  have shape: "rb_shape b" using assms(1) by (simp add: rb_wf_def)
  then have "rb_mask b + 1 dvd rb_max_capacity b" by (intro pow2_dvd) (simp_all add: rb_shape_def)
  then have "q mod (rb_mask b + 1) = seq mod (rb_mask b + 1)" using assms(4) by (metis mod_mod_cancel)
  with assms(3) show "rb_slots b \<noteq> []" and tag: "slot_tag (rb_slots b ! (seq mod (rb_mask b + 1))) = q + 1"
    by (auto simp: rb_pending_def Let_def split: if_splits)
  from tag show "occupied (rb_slots b ! (seq mod (rb_mask b + 1)))" by (simp add: occupied_tag_pos)
qed

lemma claim_stale:
  assumes wf: "rb_wf b" and pl: "rb_placed b" and q: "rb_pending b q = Some y" "q \<noteq> seq"
    and same: "q mod rb_max_capacity b = seq mod rb_max_capacity b" and seq: "seq + 2 < u64_mod"
  shows "\<exists>b1. claim_slot b seq = bind_res (evict b1 (seq mod rb_capacity b)) (\<lambda>b2. Inr (b2, seq mod rb_capacity b)) \<and>
     rb_wf b1 \<and> seq mod rb_capacity b < length (rb_slots b1) \<and> rb_pending b1 = rb_pending b \<and>
     same_counts b b1 \<and> rb_mask b1 + 1 = rb_max_capacity b"
proof -
  let ?i = "seq mod (rb_mask b + 1)"
  have shape: "rb_shape b" using wf by (simp add: rb_wf_def)
  note occ = alias_occupied [OF wf pl q(1) same]
  from grow_for_ok [OF wf occ(1), of seq] pl obtain b1 ok where g: "grow_for b seq = Inr (b1, ok)"
    and b1: "rb_wf b1" "rb_slots b1 \<noteq> []" "rb_pending b1 = rb_pending b" "rb_placed b1" "same_counts b b1"
      "rb_mask b \<le> rb_mask b1" "ok \<longleftrightarrow> \<not> occupied (rb_slots b1 ! (seq mod (rb_mask b1 + 1)))"
      "\<not> ok \<longrightarrow> rb_mask b1 + 1 = rb_max_capacity b1" by blast
  have max: "rb_max_capacity b1 = rb_max_capacity b" using b1(5) by (simp add: same_counts_def)
  then have no: "\<not> ok" using alias_occupied(3) [OF b1(1, 4)] b1(3, 7) q(1) same by metis
  have "claim_slot b seq = bind_res (evict b1 ?i) (\<lambda>b2. Inr (b2, ?i))"
    using index_res_shape [OF shape occ(1), of seq] mask_index [OF shape, of seq] occ(2, 3) q(2) seq g no
    by (simp add: claim_slot_def Let_def occupied_def)
  moreover have "?i < rb_mask b1 + 1" using index_less [of seq b] b1(6) by linarith
  then have "?i < length (rb_slots b1)" using b1(1, 2) by (auto simp: rb_wf_def rb_shape_def)
  ultimately show ?thesis using b1 no max by (intro exI [of _ b1]) (simp add: rb_capacity_def)
qed

section \<open>Properties\<close>

text \<open>
  C1. Lossless re-sequencing. A buffer built by \<open>with_max\<close> with a ceiling of at least \<open>n\<close> slots that
  receives each of the sequence numbers \<open>0, \<dots>, n - 1\<close> exactly once, in any order, hands the sink
  the items in sequence order, drops none and ends empty at position \<open>n\<close>.
\<close>

theorem reorder_lossless:
  assumes "rb_with_max initial ceiling = Inr b" and "n \<le> ceiling" and "n + 2 \<le> u64_mod"
    and "distinct (map fst xs)" and "fst ` set xs = {0..<n}"
  shows "\<exists>b'. feed_all insert_into b xs = Inr (b', map (\<lambda>q. the (map_of xs q)) [0..<n]) \<and>
      rb_dropped b' = 0 \<and> rb_is_empty b' \<and> rb_next_expected b' = n"
proof -
  from assms(1) obtain mx where mx: "rb_max_capacity b = mx" "ceiling \<le> mx" "rb_next_expected b = 0"
    "rb_dropped b = 0"
    unfolding rb_with_max_def by (rule with_max_inner_shape) auto
  from assms(1) have wf: "rb_wf b" "rb_placed b" "rb_pending b = Map.empty"
    unfolding rb_with_max_def by (simp_all add: with_max_inner_ok)
  then have ready: "rb_ready n b" using mx assms(2,3) by (simp add: rb_ready_def)
  from rb.feed_permutation [OF ready mx(3) wf(3) assms(4,5) order_refl] obtain b' where
    b': "feed_all insert_into b xs = Inr (b', map (\<lambda>q. the (map_of xs q)) [0..<n])" "rb_ready n b'"
      "rb_next_expected b' = n" "rb_pending b' = Map.empty" by blast
  have fresh: "q \<in> fst ` set xs \<Longrightarrow> rb_next_expected b \<le> q \<and> q < n \<and> rb_pending b q = None" for q
    using assms(5) mx(3) wf(3) by auto
  have "rb_dropped b' = 0" using feed_all_dropped [OF ready assms(4) fresh b'(1)] mx(4) by simp
  moreover have "rb_len b' = 0"
    using b'(2,4) by (intro pending_empty_len0) (simp_all add: rb_ready_def rb_wf_def)
  ultimately show ?thesis using b' by (simp add: rb_is_empty_def)
qed

theorem reorder_lossless_witness:
  "\<exists>b b'. rb_with_max 1 4 = Inr b \<and>
     feed_all insert_into b [(2, 30), (0, 10), (3, 40), (1, 20 :: nat)] = Inr (b', [10, 20, 30, 40]) \<and>
     rb_dropped b' = 0 \<and> rb_next_expected b' = 4"
proof -
  obtain b :: "nat reorder_buffer" where b: "rb_with_max 1 4 = Inr b"
    by (auto simp: rb_with_max_def with_max_inner_def npot_res_def next_power_of_two.simps u64_mod_def)
  have [simp]: "[0..<4] = [0, 1, 2, 3 :: nat]" by (simp add: upt_rec)
  let ?xs = "[(2, 30), (0, 10), (3, 40), (1, 20)] :: (nat \<times> nat) list"
  have "fst ` set ?xs = {0..<4}" by auto
  from reorder_lossless [OF b _ _ _ this] have "\<exists>b'. feed_all insert_into b ?xs
      = Inr (b', [10, 20, 30, 40]) \<and> rb_dropped b' = 0 \<and> rb_is_empty b' \<and> rb_next_expected b' = 4"
    by (simp add: u64_mod_def del: feed_all.simps)
  with b show ?thesis by blast
qed



text \<open>
  C3. One insertion refines the abstract resequencer: on a buffer whose live sequence numbers
  all lie below the ceiling, inserting a fresh number adds it to the pending map, emits exactly
  the longest run that is now contiguous from \<open>next_expected\<close>, removes that run, and drops
  nothing, whichever of the fast path, the slot write and the growth path the code takes.
\<close>

theorem reorder_insert_refines:
  assumes "rb_ready n b" and "seq < n" and "rb_next_expected b \<le> seq" and "rb_pending b seq = None"
  shows "\<exists>b' out. rb_insert b seq x = Inr (b', out) \<and> rb_ready n b' \<and>
      run_from ((rb_pending b)(seq \<mapsto> x)) (rb_next_expected b) (rb_next_expected b') \<and>
      out = run_items ((rb_pending b)(seq \<mapsto> x)) (rb_next_expected b) (rb_next_expected b') \<and>
      rb_pending b' = without_run ((rb_pending b)(seq \<mapsto> x)) (rb_next_expected b) (rb_next_expected b') \<and>
      rb_dropped b' = rb_dropped b"
proof -
  from insert_into_spec [OF assms, of x] obtain b' out where
    i: "insert_into b seq x = Inr (b', out)" and rest: "rb_ready n b'"
      "run_from ((rb_pending b)(seq \<mapsto> x)) (rb_next_expected b) (rb_next_expected b')"
      "out = run_items ((rb_pending b)(seq \<mapsto> x)) (rb_next_expected b) (rb_next_expected b')"
      "rb_pending b' = without_run ((rb_pending b)(seq \<mapsto> x)) (rb_next_expected b) (rb_next_expected b')"
      "rb_dropped b' = rb_dropped b" by (elim exE conjE)
  from i have "rb_insert b seq x = Inr (b', out)" by (simp add: rb_insert_def)
  with rest show ?thesis by blast
qed

theorem reorder_insert_refines_witness:
  "\<exists>b b' out. rb_with_max 1 8 = Inr b \<and> rb_insert b 5 (7 :: nat) = Inr (b', out) \<and> out = [] \<and>
     rb_pending b' = [5 \<mapsto> 7]"
proof -
  obtain b :: "nat reorder_buffer" where b: "rb_with_max 1 8 = Inr b" "rb_next_expected b = 0"
    "rb_max_capacity b = 8"
    by (auto simp: rb_with_max_def with_max_inner_def npot_res_def next_power_of_two.simps u64_mod_def)
  have p: "rb_wf b" "rb_placed b" "rb_pending b = Map.empty"
    using with_max_inner_ok [of 1 "Some 8" b] b(1) by (simp_all add: rb_with_max_def)
  then have "rb_ready 8 b" using b by (simp add: rb_ready_def u64_mod_def)
  from reorder_insert_refines [OF this, of 5 "7 :: nat"] b p obtain b' out where
    i: "rb_insert b 5 7 = Inr (b', out)" "run_from [5 \<mapsto> 7 :: nat] 0 (rb_next_expected b')"
      "out = run_items [5 \<mapsto> 7 :: nat] 0 (rb_next_expected b')"
      "rb_pending b' = without_run [5 \<mapsto> 7] 0 (rb_next_expected b')" by auto
  have "rb_next_expected b' = 0"
    by (rule run_from_unique [OF i(2)]) (simp add: run_from_def)
  with i b show ?thesis by (auto simp: run_items_def without_run_def fun_eq_iff)
qed

text \<open>
  \<open>flush_remaining\<close> empties the buffer and returns every pending item once, sorted by
  sequence number, without touching \<open>next_expected\<close> or the drop count.
\<close>

theorem reorder_flush_remaining_sorted:
  assumes "rb_wf b" and "rb_placed b"
  shows "\<exists>b'. flush_remaining b
      = Inr (b', map (\<lambda>q. the (rb_pending b q)) (sorted_list_of_set (dom (rb_pending b)))) \<and>
      rb_pending b' = Map.empty \<and> rb_is_empty b' \<and> rb_dropped b' = rb_dropped b \<and>
      rb_next_expected b' = rb_next_expected b"
  by (rule flush_remaining_sorted_aux [OF assms])

theorem reorder_flush_remaining_sorted_witness:
  "\<exists>b b'. rb_new 4 = Inr b \<and>
     flush_remaining (b :: nat reorder_buffer) = Inr (b', []) \<and> rb_is_empty b'"
proof -
  obtain b :: "nat reorder_buffer" where b: "rb_new 4 = Inr b"
    by (auto simp: rb_new_def with_max_inner_def npot_res_def next_power_of_two.simps u64_mod_def)
  have "rb_wf b" "rb_placed b" "rb_pending b = Map.empty"
    using with_max_inner_ok [of 4 None b] b by (simp_all add: rb_new_def)
  with reorder_flush_remaining_sorted [of b] b show ?thesis by auto
qed

text \<open>
  C4. Growth is invisible: whenever \<open>grow_for\<close> runs, it returns, keeps every pending item
  retrievable under its sequence number, changes neither the occupancy count nor the position,
  and reports success exactly when the slot of \<open>seq\<close> is now free; it gives up only at the ceiling.
\<close>

theorem reorder_growth_transparent:
  assumes "rb_wf b" and "rb_slots b \<noteq> []"
  shows "\<exists>b' ok. grow_for b seq = Inr (b', ok) \<and> rb_wf b' \<and> rb_pending b' = rb_pending b \<and>
      rb_len b' = rb_len b \<and> rb_next_expected b' = rb_next_expected b \<and>
      (ok \<longleftrightarrow> \<not> occupied (rb_slots b' ! (seq mod rb_capacity b'))) \<and>
      (ok \<or> rb_capacity b' = rb_max_capacity b)"
  using grow_for_ok [OF assms, of seq] by (auto simp: same_counts_def rb_capacity_def)

theorem reorder_growth_transparent_witness:
  "\<exists>b b' ok. rb_wf (b :: nat reorder_buffer) \<and> grow_for b 5 = Inr (b', ok) \<and>
     rb_pending b' = rb_pending b"
proof -
  obtain b0 :: "nat reorder_buffer" where "rb_with_max 1 4 = Inr b0"
    by (auto simp: rb_with_max_def with_max_inner_def npot_res_def next_power_of_two.simps u64_mod_def)
  then have "rb_wf b0" using with_max_inner_ok [of 1 "Some 4" b0] by (simp add: rb_with_max_def)
  note e = ensure_slots_ok [OF this]
  have "rb_slots (ensure_slots b0) \<noteq> []" using e(2) by auto
  from reorder_growth_transparent [OF e(1) this, of 5] e(1) show ?thesis by blast
qed

text \<open>
  C5. A limit of the growth path. Let a buffer below its ceiling, in which each item sits in its own
  slot and the next expected one is missing, hold a number \<open>q\<close> that agrees with \<open>seq\<close> modulo the ceiling, and
  let the slot of \<open>seq\<close> at the present capacity differ from its slot at the ceiling. Inserting \<open>seq\<close>
  then grows the array up to the ceiling without freeing the slot, and \<open>insert_into\<close> keeps the index
  it computed before the growth: the new item is stored in a slot that is not its own, where it cannot
  be found under its number, while the older item, which the ceiling policy was to replace, stays.
\<close>

theorem reorder_stale_index_after_growth:
  assumes "rb_wf b" and "rb_placed b" and "rb_pending b (rb_next_expected b) = None"
    and "rb_pending b q = Some y" and "q \<noteq> seq" and "q mod rb_max_capacity b = seq mod rb_max_capacity b"
    and "seq mod rb_capacity b \<noteq> seq mod rb_max_capacity b" and "seq + 2 < u64_mod"
  shows "\<exists>b'. insert_into b seq x = Inr (b', []) \<and> rb_capacity b' = rb_max_capacity b \<and>
     slot_tag (rb_slots b' ! (seq mod rb_capacity b)) = seq + 1 \<and> (seq, x) \<in># rb_entries b' \<and>
     rb_pending b' seq = None \<and> rb_pending b' q = Some y"
proof -
  note occ = alias_occupied [OF assms(1, 2, 4, 6)]
  have e: "ensure_slots b = b" using occ(1) by (simp add: ensure_slots_def)
  have fresh: "rb_pending b seq = None" using occ(2) assms(5) by (simp add: rb_pending_def Let_def)
  have shape: "rb_shape b" using assms(1) by (simp add: rb_wf_def)
  have len: "rb_len b \<noteq> 0" using len0_pending [OF shape] assms(4) by force
  from claim_stale [OF assms(1, 2, 4-6, 8)] obtain b1 where
    c: "claim_slot b seq = bind_res (evict b1 (seq mod rb_capacity b)) (\<lambda>b2. Inr (b2, seq mod rb_capacity b))"
    and b1: "rb_wf b1" "seq mod rb_capacity b < length (rb_slots b1)" "rb_pending b1 = rb_pending b"
      "same_counts b b1" "rb_mask b1 + 1 = rb_max_capacity b" by blast
  let ?i = "seq mod rb_capacity b"
  let ?w = "written b1 ?i seq x"
  have same: "rb_max_capacity b1 = rb_max_capacity b" "rb_next_expected b1 = rb_next_expected b"
    using b1(4) by (simp_all add: same_counts_def)
  note w = written_ok [OF b1(1, 2) assms(8) disjI2, of x]
  have ok: "rb_wf ?w" "0 < rb_len ?w" "rb_slots ?w \<noteq> []" using w b1(5) same by simp_all
  have pend: "rb_pending ?w k = (if k mod rb_max_capacity b = ?i then None else rb_pending b k)" for k
    using written_stale_pending [OF b1(2), of seq x k] b1(3, 5) assms(7) by simp
  have "rb_pending ?w (rb_next_expected ?w) = None" using pend assms(3) same by (simp add: written_def)
  with flush_loop_unfold [of ?w] ok have "flush_ready_into ?w = Inr (?w, [])"
    by (simp add: flush_ready_into_def rb_wf_def)
  moreover have "insert_into b seq x = flush_ready_into ?w"
    by (rule insert_claimed [OF _ b1(1, 2) assms(8)]) (use e c len in simp_all)
  moreover have "slot_tag (rb_slots ?w ! ?i) = seq + 1" using b1(2) by (simp add: written_def)
  moreover have "(seq, x) \<in># rb_entries ?w" by (rule written_stored [OF b1(2)])
  moreover have "rb_pending ?w seq = None" "rb_pending ?w q = Some y"
    using pend [of seq] pend [of q] fresh assms(4, 6, 7) by simp_all
  moreover have "rb_capacity ?w = rb_max_capacity b" using b1(5) by (simp add: rb_capacity_def written_def)
  ultimately show ?thesis by auto
qed

theorem reorder_stale_index_after_growth_witness:
  "\<exists>b b1 b2. rb_with_max 1 4 = Inr b \<and> insert_into b 1 10 = Inr (b1, []) \<and>
     insert_into b1 5 (50 :: nat) = Inr (b2, []) \<and> rb_pending b2 5 = None \<and> rb_pending b2 1 = Some 10 \<and>
     (5, 50) \<in># rb_entries b2"
proof -
  let ?b = "\<lparr>rb_slots = [], rb_next_expected = 0, rb_len = 0, rb_mask = 0, rb_max_capacity = 4,
    rb_dropped = 0\<rparr> :: nat reorder_buffer"
  let ?b1 = "?b\<lparr>rb_slots := [\<lparr>slot_tag = 2, slot_item = Some 10\<rparr>], rb_len := 1\<rparr>"
  have new: "rb_with_max 1 4 = Inr ?b"
    by (simp add: rb_with_max_def with_max_inner_def npot_res_def next_power_of_two.simps u64_mod_def)
  have one: "insert_into ?b 1 10 = Inr (?b1, [])"
    by (simp add: insert_into_def claim_slot_def ensure_slots_def flush_ready_into_def flush_loop.simps
        free_slot_def UNOCCUPIED_def u64_mod_def Let_def)
  have "is_pow2 4" unfolding is_pow2_def by (rule exI [of _ 2]) simp
  then have wf: "rb_wf ?b1" "rb_placed ?b1"
    by (simp_all add: rb_wf_def rb_shape_def rb_placed_def slot_count_def slot_ok_def occupied_def UNOCCUPIED_def u64_mod_def)
  have "\<exists>b'. insert_into ?b1 5 50 = Inr (b', []) \<and> rb_capacity b' = rb_max_capacity ?b1 \<and>
     slot_tag (rb_slots b' ! (5 mod rb_capacity ?b1)) = 5 + 1 \<and> (5, 50) \<in># rb_entries b' \<and>
     rb_pending b' 5 = None \<and> rb_pending b' 1 = Some 10"
    by (rule reorder_stale_index_after_growth [OF wf])
       (simp_all add: rb_pending_def rb_capacity_def u64_mod_def)
  with new one show ?thesis by blast
qed

end
