(* ===== verification/Drains.thy ===== *)
theory Drains
  imports Channel Cancel Reorder_Props
begin

text \<open>
  The terminal drains of \<^verbatim>\<open>crates/youpipe/src/state/stream.rs\<close>: the burst-drain loop that
  every terminal shares (the \<open>drain_loop\<close> macro), its unordered and ordered instances, the
  sizing of the reorder window and the post-drain accounting check. The loops run as long as
  the channel delivers, so they are partial functions; that they return is proved.
\<close>

section \<open>Window sizing and accounting\<close>

record ordered_window =
  win_initial :: nat
  win_max :: nat

definition window_auto :: "nat \<Rightarrow> nat \<Rightarrow> ordered_window" where
  "window_auto n in_flight =
     (let mx = next_power_of_two (max n 1) in
      \<lparr>win_initial = min mx (max (2 ^ 10) in_flight), win_max = mx\<rparr>)"

definition window_fixed :: "nat \<Rightarrow> nat \<Rightarrow> ordered_window" where
  "window_fixed n window =
     (let mx = next_power_of_two (min window (next_power_of_two (max n 1))) in
      \<lparr>win_initial = mx, win_max = mx\<rparr>)"

definition window_open :: "nat \<Rightarrow> ordered_window" where
  "window_open expected =
     \<lparr>win_initial = min (2 ^ 20) (max (2 ^ 10) (next_power_of_two (max expected 1))), win_max = 2 ^ 63\<rparr>"

datatype ordered_accounting = Validate "cancellation_token option" | Skip

text \<open>
  \<open>verify_ordered_accounting\<close>: both checks are \<^verbatim>\<open>debug_assert!\<close>s, active when \<open>dbg\<close> is.
\<close>

definition verify_ordered_accounting ::
    "bool \<Rightarrow> cancel_store \<Rightarrow> 'a reorder_buffer \<Rightarrow> nat \<Rightarrow> nat \<Rightarrow> cancellation_token option \<Rightarrow> unit res" where
  "verify_ordered_accounting dbg h b n expected_items cancel =
     (let dropped = rb_dropped b in
      if dbg \<and> \<not> n + dropped \<le> expected_items then Inl ExplicitPanic
      else if dbg \<and> \<not> (cancel_active h cancel \<or> n + dropped = expected_items) then Inl ExplicitPanic
      else Inr ())"

section \<open>The drain loop\<close>

text \<open>
  A burst: what was taken from the channel went through \<open>ins\<close>, which returns the items that
  reached the sink; the flag tells whether the channel reported \<open>Closed\<close>.
\<close>

type_synonym ('r, 'b, 'a) burst = "('r \<times> 'b \<times> 'a list \<times> bool) res"

type_synonym ('b, 'a) inserter_fun = "'b \<Rightarrow> nat \<Rightarrow> 'a \<Rightarrow> ('b \<times> 'a list) res"

definition after_items :: "'a list \<Rightarrow> ('r, 'b, 'a) burst \<Rightarrow> ('r, 'b, 'a) burst" where
  "after_items out t = bind_res t (\<lambda>(r, b, out', closed). Inr (r, b, out @ out', closed))"

partial_function (option) item_burst ::
    "('r, nat \<times> 'a) recv_ops \<Rightarrow> ('b, 'a) inserter_fun \<Rightarrow> 'r \<Rightarrow> 'b \<Rightarrow> ('r, 'b, 'a) burst option" where
  "item_burst R ins r b =
     (case op_try_recv R r of (res, r') \<Rightarrow>
      (case res of
         Inr sx \<Rightarrow>
           (case ins b (fst sx) (snd sx) of
              Inl e \<Rightarrow> Some (Inl e)
            | Inr p \<Rightarrow> Option.bind (item_burst R ins r' (fst p)) (\<lambda>t. Some (after_items (snd p) t)))
       | Inl e \<Rightarrow> Some (Inr (r', b, [], e = RecvClosed))))"

partial_function (option) batch_burst ::
    "('r, nat \<times> 'a) recv_ops \<Rightarrow> ('b, 'a) inserter_fun \<Rightarrow> nat \<Rightarrow> 'r \<Rightarrow> 'b \<Rightarrow> ('r, 'b, 'a) burst option" where
  "batch_burst R ins batch_cap r b =
     (case op_try_recv_batch R r batch_cap of (xs, r') \<Rightarrow>
      (if xs = [] then Some (Inr (r', b, [], False))
       else (case feed_all ins b xs of
               Inl e \<Rightarrow> Some (Inl e)
             | Inr p \<Rightarrow> Option.bind (batch_burst R ins batch_cap r' (fst p))
                          (\<lambda>t. Some (after_items (snd p) t)))))"

text \<open>
  Between two bursts: on the batch path a disconnected channel is probed with \<open>try_recv\<close>
  before the blocking anchor.
\<close>

definition await_next ::
    "('r, 'a) recv_ops \<Rightarrow> nat \<Rightarrow> 'r \<Rightarrow> (channel_error + 'a) \<times> 'r" where
  "await_next R batch_cap r =
     (if batch_cap > 0 then
        (case op_is_disconnected R r of (gone, r1) \<Rightarrow>
           if gone then
             (case op_try_recv R r1 of
                (Inr x, r2) \<Rightarrow> (Inr x, r2)
              | (Inl RecvEmpty, r2) \<Rightarrow> op_recv R r2
              | (Inl RecvClosed, r2) \<Rightarrow> (Inl ChanClosed, r2))
           else op_recv R r1)
      else op_recv R r)"

definition after_loop :: "'a list \<Rightarrow> ('r \<times> 'b \<times> 'a list) res \<Rightarrow> ('r \<times> 'b \<times> 'a list) res" where
  "after_loop out t = bind_res t (\<lambda>(r, b, out'). Inr (r, b, out @ out'))"

partial_function (option) drain_loop ::
    "('r, nat \<times> 'a) recv_ops \<Rightarrow> ('b, 'a) inserter_fun \<Rightarrow> nat \<Rightarrow> 'r \<Rightarrow> 'b \<Rightarrow>
     ('r \<times> 'b \<times> 'a list) res option" where
  "drain_loop R ins batch_cap r b =
     Option.bind (if batch_cap > 0 then batch_burst R ins batch_cap r b else item_burst R ins r b) (\<lambda>t.
     case t of
       Inl e \<Rightarrow> Some (Inl e)
     | Inr (r1, b1, out1, closed) \<Rightarrow>
         if closed then Some (Inr (r1, b1, out1))
         else (case await_next R batch_cap r1 of (res, r2) \<Rightarrow>
           (case res of
              Inl e \<Rightarrow> Some (Inr (r2, b1, out1))
            | Inr sx \<Rightarrow>
                (case ins b1 (fst sx) (snd sx) of
                   Inl e \<Rightarrow> Some (Inl e)
                 | Inr p \<Rightarrow> Option.bind (drain_loop R ins batch_cap r2 (fst p))
                              (\<lambda>t. Some (after_loop (out1 @ snd p) t))))))"

text \<open>The unordered sink takes each item as it arrives.\<close>

definition sink_unordered :: "(unit, 'a) inserter_fun" where
  "sink_unordered u seq item = Inr (u, [item])"

definition drain_unordered_with ::
    "('r, nat \<times> 'a) recv_ops \<Rightarrow> nat \<Rightarrow> 'r \<Rightarrow> ('r \<times> 'a list) res option" where
  "drain_unordered_with R batch_cap r =
     Option.bind (drain_loop R sink_unordered batch_cap r ())
       (\<lambda>t. Some (bind_res t (\<lambda>(r', _, out). Inr (r', out))))"

text \<open>The \<open>eof\<close> block of the ordered drains: flush, count, validate.\<close>

definition ordered_eof ::
    "bool \<Rightarrow> cancel_store \<Rightarrow> nat \<Rightarrow> ordered_accounting \<Rightarrow> 'r \<times> 'a reorder_buffer \<times> 'a list \<Rightarrow>
     ('r \<times> 'a list) res" where
  "ordered_eof dbg h expected_items accounting s =
     (case s of (r, b, out) \<Rightarrow>
      bind_res (flush_remaining b) (\<lambda>(b', rest).
      bind_res (case accounting of
                  Validate cancel \<Rightarrow>
                    verify_ordered_accounting dbg h b' (length (out @ rest)) expected_items cancel
                | Skip \<Rightarrow> Inr ()) (\<lambda>_.
      Inr (r, out @ rest))))"

definition drain_ordered_with ::
    "bool \<Rightarrow> cancel_store \<Rightarrow> ('r, nat \<times> 'a) recv_ops \<Rightarrow> nat \<Rightarrow> ordered_window \<Rightarrow> ordered_accounting \<Rightarrow>
     nat \<Rightarrow> 'r \<Rightarrow> ('r \<times> 'a list) res option" where
  "drain_ordered_with dbg h R expected_items window accounting batch_cap r =
     (case rb_with_max (win_initial window) (win_max window) of
        Inl e \<Rightarrow> Some (Inl e)
      | Inr b \<Rightarrow> Option.bind (drain_loop R insert_into batch_cap r b)
                  (\<lambda>t. Some (bind_res t (ordered_eof dbg h expected_items accounting))))"

text \<open>
  The async twins come from the same macro without the batch arm; awaiting the anchor is the
  blocking receive.
\<close>

definition drain_unordered_async ::
    "('r, nat \<times> 'a) recv_ops \<Rightarrow> 'r \<Rightarrow> ('r \<times> 'a list) res option" where
  "drain_unordered_async R r = drain_unordered_with R 0 r"

definition drain_ordered_async ::
    "bool \<Rightarrow> cancel_store \<Rightarrow> ('r, nat \<times> 'a) recv_ops \<Rightarrow> nat \<Rightarrow> ordered_window \<Rightarrow> ordered_accounting \<Rightarrow>
     'r \<Rightarrow> ('r \<times> 'a list) res option" where
  "drain_ordered_async dbg h R expected_items window accounting r =
     drain_ordered_with dbg h R expected_items window accounting 0 r"

text \<open>\<open>cap\<close> stands for \<^verbatim>\<open>handoff::batch_recv_cap()\<close>, a process-wide constant.\<close>

definition run_ordered_collect ::
    "bool \<Rightarrow> cancel_store \<Rightarrow> ('r, nat \<times> 'a) recv_ops \<Rightarrow> nat \<Rightarrow> 'r \<Rightarrow> nat \<Rightarrow> ('r \<times> 'a list) res option" where
  "run_ordered_collect dbg h R cap r expected_items =
     drain_ordered_with dbg h R expected_items (window_open expected_items) Skip cap r"

section \<open>What the loop does\<close>

text \<open>
  An insertion function that does not fault as long as the sequence numbers that are still to come
  are ones the sink can take: \<open>I b A\<close> says that \<open>b\<close> can take the numbers \<open>A\<close>, in any order.
\<close>

locale inserter =
  fixes ins :: "('b, 'a) inserter_fun" and I :: "'b \<Rightarrow> nat multiset \<Rightarrow> bool"
  assumes ins_total: "I b (add_mset seq A) \<Longrightarrow> \<exists>b' out. ins b seq x = Inr (b', out) \<and> I b' A"
begin

lemma feed_total:
  assumes "I b (mset (map fst xs) + A)"
  shows "\<exists>b' out. feed_all ins b xs = Inr (b', out) \<and> I b' A"
  using assms
proof (induction xs arbitrary: b)
  case (Cons sx xs)
  obtain seq x where sx: "sx = (seq, x)" by (cases sx)
  from ins_total [of b seq "mset (map fst xs) + A" x] Cons.prems sx obtain b1 out1 where
    "ins b seq x = Inr (b1, out1)" "I b1 (mset (map fst xs) + A)" by auto
  moreover from Cons.IH [OF this(2)] obtain b2 out2 where
    "feed_all ins b1 xs = Inr (b2, out2)" "I b2 A" by auto
  ultimately show ?case by (simp add: sx)
qed simp

end

lemma feed_all_append:
  "feed_all ins b (xs @ ys) = bind_res (feed_all ins b xs) (\<lambda>(b', out).
     bind_res (feed_all ins b' ys) (\<lambda>(b'', out'). Inr (b'', out @ out')))"
proof (induction xs arbitrary: b)
  case Nil
  show ?case by (cases "feed_all ins b ys") auto
next
  case (Cons sx xs)
  obtain seq x where sx: "sx = (seq, x)" by (cases sx)
  show ?case
  proof (cases "ins b seq x")
    case (Inr p)
    obtain b1 out1 where p: "p = (b1, out1)" by (cases p)
    show ?thesis
      by (cases "feed_all ins b1 xs") (auto simp: sx Inr p Cons.IH bind_res_def split: sum.splits)
  qed (simp add: sx)
qed

locale drain = receiver R remaining + inserter ins I
  for R :: "('r, nat \<times> 'a) recv_ops" and remaining and ins :: "('b, 'a) inserter_fun" and I
begin

lemma item_burst_spec:
  assumes "I b (mset (map fst (remaining r)) + A)"
  shows "\<exists>ys r' b' out closed. item_burst R ins r b = Some (Inr (r', b', out, closed)) \<and>
     remaining r = ys @ remaining r' \<and> feed_all ins b ys = Inr (b', out) \<and>
     I b' (mset (map fst (remaining r')) + A) \<and> (closed \<longrightarrow> remaining r' = [])"
  using assms
proof (induction "length (remaining r)" arbitrary: r b rule: less_induct)
  case less
  obtain res r1 where t: "op_try_recv R r = (res, r1)" by fastforce
  show ?case
  proof (cases res)
    case (Inl e)
    then have "item_burst R ins r b = Some (Inr (r1, b, [], e = RecvClosed))"
      using t by (simp add: item_burst.simps)
    moreover have "remaining r1 = remaining r" "e = RecvClosed \<longrightarrow> remaining r1 = []"
      using t Inl try_empty [of r r1] try_closed [of r r1] by (cases e; simp)+
    ultimately show ?thesis using less.prems by (intro exI [of _ "[]"]) simp
  next
    case (Inr sx)
    obtain seq x where sx: "sx = (seq, x)" by (cases sx)
    have rem: "remaining r = (seq, x) # remaining r1" using t Inr sx by (simp add: try_ok)
    from ins_total [of b seq "mset (map fst (remaining r1)) + A" x] less.prems rem obtain b1 out1 where
      i: "ins b seq x = Inr (b1, out1)" "I b1 (mset (map fst (remaining r1)) + A)" by auto
    from less.hyps [OF _ i(2)] rem obtain ys r' b' out closed where
      h: "item_burst R ins r1 b1 = Some (Inr (r', b', out, closed))" "remaining r1 = ys @ remaining r'"
        "feed_all ins b1 ys = Inr (b', out)" "I b' (mset (map fst (remaining r')) + A)"
        "closed \<longrightarrow> remaining r' = []" by auto
    have "item_burst R ins r b = Some (Inr (r', b', out1 @ out, closed))"
      using t Inr sx i h by (subst item_burst.simps) (simp add: after_items_def)
    with h i rem show ?thesis by (intro exI [of _ "(seq, x) # ys"]) simp
  qed
qed

lemma batch_burst_spec:
  assumes "I b (mset (map fst (remaining r)) + A)"
  shows "\<exists>ys r' b' out closed. batch_burst R ins cap r b = Some (Inr (r', b', out, closed)) \<and>
     remaining r = ys @ remaining r' \<and> feed_all ins b ys = Inr (b', out) \<and>
     I b' (mset (map fst (remaining r')) + A) \<and> (closed \<longrightarrow> remaining r' = [])"
  using assms
proof (induction "length (remaining r)" arbitrary: r b rule: less_induct)
  case less
  obtain xs r1 where t: "op_try_recv_batch R r cap = (xs, r1)" by fastforce
  have rem: "remaining r = xs @ remaining r1" using batch [OF t] .
  show ?case
  proof (cases "xs = []")
    case True
    then have "batch_burst R ins cap r b = Some (Inr (r1, b, [], False))"
      using t by (simp add: batch_burst.simps)
    with rem True less.prems show ?thesis by (intro exI [of _ "[]"]) auto
  next
    case False
    have "I b (mset (map fst xs) + (mset (map fst (remaining r1)) + A))"
      using less.prems rem by (simp add: ac_simps)
    from feed_total [OF this] obtain b1 out1 where
      i: "feed_all ins b xs = Inr (b1, out1)" "I b1 (mset (map fst (remaining r1)) + A)" by blast
    have "length (remaining r1) < length (remaining r)" using rem False by simp
    from less.hyps [OF this i(2)] obtain ys r' b' out closed where
      h: "batch_burst R ins cap r1 b1 = Some (Inr (r', b', out, closed))" "remaining r1 = ys @ remaining r'"
        "feed_all ins b1 ys = Inr (b', out)" "I b' (mset (map fst (remaining r')) + A)"
        "closed \<longrightarrow> remaining r' = []" by blast
    have "batch_burst R ins cap r b = Some (Inr (r', b', out1 @ out, closed))"
      using t False i h by (subst batch_burst.simps) (simp add: after_items_def)
    moreover have "feed_all ins b (xs @ ys) = Inr (b', out1 @ out)"
      using i h by (simp add: feed_all_append)
    ultimately show ?thesis using h rem by (intro exI [of _ "xs @ ys"]) simp
  qed
qed

lemma await_next_ok: "await_next R cap r = (Inr x, r') \<Longrightarrow> remaining r = x # remaining r'"
  and await_next_closed: "await_next R cap r = (Inl e, r') \<Longrightarrow> remaining r = [] \<and> remaining r' = []"
proof -
  obtain d r1 where d: "op_is_disconnected R r = (d, r1)" by fastforce
  obtain t r2 where t: "op_try_recv R r1 = (t, r2)" by fastforce
  note rem = disconnected [OF d]
  show "remaining r = x # remaining r'" if "await_next R cap r = (Inr x, r')"
    using that d t rem recv_ok [of r x r'] recv_ok [of r1 x r'] recv_ok [of r2 x r'] try_ok [of r1 x r2]
      try_empty [of r1 r2]
    by (auto simp: await_next_def split: if_splits sum.splits try_recv_error.splits)
  show "remaining r = [] \<and> remaining r' = []" if "await_next R cap r = (Inl e, r')"
    using that d t rem recv_closed [of r e r'] recv_closed [of r1 e r'] recv_closed [of r2 e r']
      try_closed [of r1 r2] try_empty [of r1 r2]
    by (auto simp: await_next_def split: if_splits sum.splits try_recv_error.splits)
qed

text \<open>
  The loop returns, and what it has done is to feed every item the channel still had to
  deliver, in order.
\<close>

lemma drain_loop_spec:
  assumes "I b (mset (map fst (remaining r)))"
  shows "\<exists>r' b' out. drain_loop R ins cap r b = Some (Inr (r', b', out)) \<and>
     feed_all ins b (remaining r) = Inr (b', out) \<and> remaining r' = []"
  using assms
proof (induction "length (remaining r)" arbitrary: r b rule: less_induct)
  case less
  then have I: "I b (mset (map fst (remaining r)) + {#})" by simp
  have "\<exists>ys r1 b1 out1 closed. (if cap > 0 then batch_burst R ins cap r b else item_burst R ins r b)
      = Some (Inr (r1, b1, out1, closed)) \<and>
     remaining r = ys @ remaining r1 \<and> feed_all ins b ys = Inr (b1, out1) \<and>
     I b1 (mset (map fst (remaining r1)) + {#}) \<and> (closed \<longrightarrow> remaining r1 = [])"
    using item_burst_spec [OF I] batch_burst_spec [OF I, of cap] by (cases "cap > 0") simp_all
  then obtain ys r1 b1 out1 closed where
    h: "(if cap > 0 then batch_burst R ins cap r b else item_burst R ins r b)
      = Some (Inr (r1, b1, out1, closed))" "remaining r = ys @ remaining r1"
     "feed_all ins b ys = Inr (b1, out1)" "I b1 (mset (map fst (remaining r1)))" "closed \<longrightarrow> remaining r1 = []"
    unfolding add_0_right by blast
  obtain res r2 where a: "await_next R cap r1 = (res, r2)" by fastforce
  show ?case
  proof (cases "closed \<or> (\<exists>e. res = Inl e)")
    case True
    then have "\<exists>r'. drain_loop R ins cap r b = Some (Inr (r', b1, out1)) \<and> remaining r' = [] \<and> remaining r1 = []"
      using h(1,5) a await_next_closed [of cap r1 _ r2] by (subst drain_loop.simps) auto
    with h show ?thesis by auto
  next
    case False
    then obtain seq x where res: "res = Inr (seq, x)" "\<not> closed" by (cases res) auto
    have rem: "remaining r1 = (seq, x) # remaining r2" using a res await_next_ok by blast
    from ins_total [of b1 seq "mset (map fst (remaining r2))" x] h(4) rem obtain b2 out2 where
      i: "ins b1 seq x = Inr (b2, out2)" "I b2 (mset (map fst (remaining r2)))" by auto
    have "length (remaining r2) < length (remaining r)" using h(2) rem by simp
    from less.hyps [OF this i(2)] obtain r' b' out where
      l: "drain_loop R ins cap r2 b2 = Some (Inr (r', b', out))" "feed_all ins b2 (remaining r2) = Inr (b', out)"
        "remaining r' = []" by blast
    have "drain_loop R ins cap r b = Some (Inr (r', b', out1 @ out2 @ out))"
      using h(1) a res i l(1) by (subst drain_loop.simps) (simp add: after_loop_def)
    moreover have "feed_all ins b (remaining r) = Inr (b', out1 @ out2 @ out)"
      using h(2,3) rem i l(2) by (simp add: feed_all_append)
    ultimately show ?thesis using l by blast
  qed
qed

end

end
