(* ===== verification/Drain_Props.thy ===== *)
theory Drain_Props
  imports Drains
begin

text \<open>
  The drains on the channel endpoints and the reorder buffer: both instances of the drain
  loop, and the end-to-end properties of the ordered terminal.
\<close>

section \<open>Instances\<close>

interpretation unordered: drain chan_recv_ops chan_remaining sink_unordered "\<lambda>_ _. True"
  by unfold_locales (simp add: sink_unordered_def)

interpretation ordered: drain chan_recv_ops chan_remaining insert_into feedable
proof (unfold_locales, goal_cases)
  case (1 b seq A x)
  from insert_feedable [OF this, of x] show ?case by blast
qed

lemma feed_unordered: "feed_all sink_unordered u xs = Inr (u, map snd xs)"
  by (induction xs) (auto simp: sink_unordered_def)

section \<open>Window sizing\<close>

lemma next_power_of_two_id:
  assumes "is_pow2 c"
  shows "next_power_of_two c = c"
proof -
  from assms obtain k where "c = 2 ^ k" by (auto simp: is_pow2_def)
  with next_power_of_two_least [of c k] next_power_of_two_ge [of c] show ?thesis by simp
qed

lemma next_power_of_two_le_pow2: "is_pow2 p \<Longrightarrow> n \<le> p \<Longrightarrow> next_power_of_two n \<le> p"
  by (auto simp: is_pow2_def next_power_of_two_least)

lemma pow2_63: "is_pow2 (2 ^ 63)" "(2 :: nat) ^ 63 < u64_mod"
  unfolding is_pow2_def by (rule exI [of _ 63], rule refl) (simp add: u64_mod_def)

lemma npot_res_below: "n \<le> 2 ^ 63 \<Longrightarrow> npot_res n = Inr (next_power_of_two n)"
  using next_power_of_two_le_pow2 [OF pow2_63(1), of n] pow2_63(2) by (simp add: npot_res_def)

lemma rb_with_max_below:
  assumes "i \<le> 2 ^ 63" "m \<le> 2 ^ 63"
  shows "\<exists>b. rb_with_max i m = Inr b"
  using assms by (simp add: rb_with_max_def with_max_inner_def npot_res_below)

lemma window_auto_shape:
  assumes "n \<le> 2 ^ 63"
  shows "n \<le> win_max (window_auto n f)" "win_max (window_auto n f) \<le> 2 ^ 63"
    "win_initial (window_auto n f) \<le> 2 ^ 63"
proof -
  have "next_power_of_two (max n 1) \<le> 2 ^ 63"
    using assms by (intro next_power_of_two_le_pow2 pow2_63) simp
  moreover have "max n 1 \<le> next_power_of_two (max n 1)" by (rule next_power_of_two_ge)
  ultimately show "n \<le> win_max (window_auto n f)" "win_max (window_auto n f) \<le> 2 ^ 63"
    "win_initial (window_auto n f) \<le> 2 ^ 63"
    by (auto simp: window_auto_def Let_def)
qed

section \<open>Feed, then flush\<close>

lemma map_of_sorted_list:
  assumes "distinct (map fst xs)"
  shows "map (\<lambda>q. the (map_of xs q)) (sorted_list_of_set (fst ` set xs)) = map snd (sort_key fst xs)"
proof -
  have "sorted_list_of_set (fst ` set xs) = map fst (sort_key fst xs)"
  proof (rule sorted_distinct_set_unique)
    have "mset (map fst (sort_key fst xs)) = mset (map fst xs)" by (simp add: mset_map)
    then show "distinct (map fst (sort_key fst xs))" using assms mset_eq_imp_distinct_iff by blast
  qed simp_all
  then have "map (\<lambda>q. the (map_of xs q)) (sorted_list_of_set (fst ` set xs))
      = map (\<lambda>p. the (map_of xs (fst p))) (sort_key fst xs)" by simp
  also have "\<dots> = map snd (sort_key fst xs)" using assms by (intro map_cong) auto
  finally show ?thesis .
qed

lemma sorted_list_split:
  assumes "finite A" "{q \<in> A. q < m} = {0..<m}"
  shows "sorted_list_of_set A = [0..<m] @ sorted_list_of_set {q \<in> A. m \<le> q}"
proof (rule sorted_distinct_set_unique)
  show "sorted ([0..<m] @ sorted_list_of_set {q \<in> A. m \<le> q})"
    using assms(1) by (auto simp: sorted_append)
  have "A = {q \<in> A. q < m} \<union> {q \<in> A. m \<le> q}" by auto
  then have "A = {0..<m} \<union> {q \<in> A. m \<le> q}" by (simp only: assms(2))
  then show "set (sorted_list_of_set A) = set ([0..<m] @ sorted_list_of_set {q \<in> A. m \<le> q})"
    using assms(1) by simp
  show "distinct ([0..<m] @ sorted_list_of_set {q \<in> A. m \<le> q})" using assms(1) by auto
qed simp_all

text \<open>
  Whatever subset of the sequence numbers below the ceiling arrives, in whatever order, the
  items handed to the sink during the run followed by the final flush are exactly the received
  items in sequence order, and nothing is dropped.
\<close>

lemma feed_flush_sorted:
  assumes new: "rb_with_max i m = Inr b" and n: "n \<le> m" "n + 2 \<le> u64_mod"
    and xs: "distinct (map fst xs)" "fst ` set xs \<subseteq> {0..<n}"
  shows "\<exists>b' out b'' rest. feed_all insert_into b xs = Inr (b', out) \<and>
     flush_remaining b' = Inr (b'', rest) \<and> out @ rest = map snd (sort_key fst xs) \<and> rb_dropped b'' = 0"
proof -
  from new obtain mx where mx: "rb_max_capacity b = mx" "m \<le> mx" "rb_next_expected b = 0" "rb_dropped b = 0"
    unfolding rb_with_max_def by (rule with_max_inner_shape) auto
  from new have wf: "rb_wf b" "rb_placed b" "rb_pending b = Map.empty"
    unfolding rb_with_max_def by (simp_all add: with_max_inner_ok)
  then have ready: "rb_ready n b" using mx n by (simp add: rb_ready_def)
  have fresh: "rb_next_expected b \<le> q \<and> q < n \<and> rb_pending b q = None" if "q \<in> fst ` set xs" for q
    using that xs(2) mx(3) wf(3) by auto
  from rb.feed_spec [OF ready xs(1) fresh] mx(3) wf(3) obtain b' out where
    f: "feed_all insert_into b xs = Inr (b', out)" "rb_ready n b'"
      "run_from (map_of xs) 0 (rb_next_expected b')" "out = run_items (map_of xs) 0 (rb_next_expected b')"
      "rb_pending b' = without_run (map_of xs) 0 (rb_next_expected b')"
    by (auto simp: rb.whole_def)
  have "rb_wf b'" "rb_placed b'" using f(2) by (simp_all add: rb_ready_def)
  from flush_remaining_sorted_aux [OF this] obtain b'' where
    g: "flush_remaining b' = Inr (b'', map (\<lambda>q. the (rb_pending b' q)) (sorted_list_of_set (dom (rb_pending b'))))"
      "rb_dropped b'' = rb_dropped b'" by blast
  let ?m = "rb_next_expected b'"
  have d: "fst ` set xs = dom (map_of xs)" by (rule dom_map_of_conv_image_fst [symmetric])
  have dm: "dom (rb_pending b') = {q \<in> fst ` set xs. ?m \<le> q}"
    unfolding d f(5) by (auto simp: without_run_def split: if_splits)
  have "{q \<in> fst ` set xs. q < ?m} = {0..<?m}"
    unfolding d using f(3) by (force simp: run_from_def)
  note split = sorted_list_split [OF _ this]
  have "out @ map (\<lambda>q. the (rb_pending b' q)) (sorted_list_of_set (dom (rb_pending b')))
      = map (\<lambda>q. the (map_of xs q)) (sorted_list_of_set (fst ` set xs))"
    using split dm by (simp add: f(4,5) run_items_def without_run_def)
  with map_of_sorted_list [OF xs(1)] have "out @ map (\<lambda>q. the (rb_pending b' q))
      (sorted_list_of_set (dom (rb_pending b'))) = map snd (sort_key fst xs)" by simp
  moreover have "rb_dropped b' = 0" using feed_all_dropped [OF ready xs(1) fresh f(1)] mx(4) by simp
  ultimately show ?thesis using f(1) g by fastforce
qed

text \<open>The final flush hands over the buffered entries in sequence order.\<close>

lemma flush_remaining_entries:
  assumes "rb_shape b"
  shows "\<exists>b' rest. flush_remaining b = Inr (b', map snd rest) \<and> mset rest = rb_entries b \<and>
     sorted (map fst rest) \<and> rb_dropped b' = rb_dropped b"
proof -
  let ?occ = "sort_key slot_tag (filter occupied (rb_slots b))"
  from flush_remaining_ok [OF assms] obtain b' where
    f: "flush_remaining b = Inr (b', map (\<lambda>s. the (slot_item s)) ?occ)" "rb_dropped b' = rb_dropped b" by blast
  have "map (\<lambda>s. the (slot_item s)) ?occ = map snd (map slot_entry ?occ)" by (simp add: slot_entry_def)
  moreover have "mset (map slot_entry ?occ) = rb_entries b"
    by (simp add: rb_entries_def slots_entries_def mset_map del: mset_filter)
  moreover have "sorted (map slot_tag ?occ)" by simp
  then have "sorted (map fst (map slot_entry ?occ))"
    by (auto simp: slot_entry_def comp_def sorted_map intro: sorted_wrt_mono_rel [rotated])
  ultimately show ?thesis using f by (intro exI [of _ b'] exI [of _ "map slot_entry ?occ"]) simp
qed

lemma kept_sorted:
  assumes "mset xs = mset (zip [0..<length out] out @ rest) + lost" "distinct (map fst xs)" "sorted (map fst rest)"
  shows "sorted (map fst (zip [0..<length out] out @ rest))"
proof -
  let ?z = "zip [0..<length out] out"
  have "mset (map fst xs) = mset (map fst ?z @ map fst rest) + image_mset fst lost"
    using arg_cong [OF assms(1), of "image_mset fst"] by (simp add: mset_map del: map_fst_zip)
  moreover obtain ls where "mset ls = image_mset fst lost" using ex_mset by blast
  ultimately have "mset (map fst xs) = mset ((map fst ?z @ map fst rest) @ ls)" by simp
  then have "distinct ((map fst ?z @ map fst rest) @ ls)" using assms(2) mset_eq_imp_distinct_iff by metis
  then have "distinct (map fst ?z @ map fst rest)" by (simp only: distinct_append)
  moreover have fst: "map fst ?z = [0..<length out]" by simp
  ultimately have "length out \<le> q" if "q \<in> set (map fst rest)" for q
    using that by (metis atLeastLessThan_iff disjoint_iff distinct_append le0 not_le set_upt)
  then show ?thesis using assms(3) unfolding map_append fst by (fastforce simp: sorted_append)
qed

section \<open>Properties\<close>

definition accounting_holds ::
    "bool \<Rightarrow> cancel_store \<Rightarrow> ordered_accounting \<Rightarrow> nat \<Rightarrow> nat \<Rightarrow> bool" where
  "accounting_holds dbg h accounting expected got =
     (case accounting of
        Skip \<Rightarrow> True
      | Validate cancel \<Rightarrow> \<not> dbg \<or> (got \<le> expected \<and> (cancel_active h cancel \<or> got = expected)))"

lemma ordered_eof_result:
  assumes "flush_remaining b = Inr (b', rest)"
  shows "ordered_eof dbg h expected acc (r, b, out) =
     (if accounting_holds dbg h acc expected (length out + length rest + rb_dropped b')
      then Inr (r, out @ rest) else Inl ExplicitPanic)"
  using assms
  by (auto simp: ordered_eof_def accounting_holds_def verify_ordered_accounting_def Let_def
      split: ordered_accounting.splits)

text \<open>
  C6. The ordered terminal delivers in input order. For every schedule of the senders, every
  batch cap and every in-flight estimate, an ordered drain with the automatic window whose
  arriving sequence numbers are distinct and below \<open>n\<close> returns, and its sink has received
  exactly the items that arrived, sorted by sequence number: the complete output of a complete
  run and the ordered remainder of a cancelled one. Its accounting check fires in debug builds
  exactly when the run was not cancelled and items are missing.
\<close>

theorem ordered_drain_sorted:
  assumes "n \<le> 2 ^ 63" and "distinct (map fst (chan_remaining c))"
    and "fst ` set (chan_remaining c) \<subseteq> {0..<n}"
  shows "\<exists>c'. drain_ordered_with dbg h chan_recv_ops n (window_auto n in_flight) acc cap c =
     Some (if accounting_holds dbg h acc n (length (chan_remaining c))
           then Inr (c', map snd (sort_key fst (chan_remaining c))) else Inl ExplicitPanic)"
proof -
  note w = window_auto_shape [OF assms(1), of in_flight]
  from rb_with_max_below [OF w(3,2)] obtain b :: "'a reorder_buffer" where
    b: "rb_with_max (win_initial (window_auto n in_flight)) (win_max (window_auto n in_flight)) = Inr b" by blast
  have n2: "n + 2 \<le> u64_mod" using assms(1) by (simp add: u64_mod_def)
  from feed_flush_sorted [OF b w(1) n2 assms(2,3)] obtain b' out b'' rest where
    f: "feed_all insert_into b (chan_remaining c) = Inr (b', out)" "flush_remaining b' = Inr (b'', rest)"
      "out @ rest = map snd (sort_key fst (chan_remaining c))" "rb_dropped b'' = 0" by blast
  have wf: "rb_wf b" "rb_pending b = Map.empty" using b with_max_inner_ok by (auto simp: rb_with_max_def)
  have "feedable b (mset (map fst (chan_remaining c)))"
    by (rule feedableI [OF wf(1) assms(2)]) (use assms(3) n2 wf(2) in fastforce)
  from ordered.drain_loop_spec [OF this, of cap] f(1) obtain c' where
    l: "drain_loop chan_recv_ops insert_into cap c b = Some (Inr (c', b', out))" by auto
  have "length out + length rest = length (chan_remaining c)"
    using arg_cong [OF f(3), of length] by simp
  with b l f ordered_eof_result [OF f(2), of dbg h n acc c' out] show ?thesis
    by (intro exI [of _ c']) (simp add: drain_ordered_with_def)
qed

theorem ordered_drain_sorted_witness:
  "\<exists>c'. drain_ordered_with True \<lparr>flag_of = Map.empty, next_flag = 0\<rparr> chan_recv_ops 3 (window_auto 3 5)
      (Validate None) 64
      \<lparr>ch_ready = [(2, ''c'')], ch_future = [Lull, Arrive (0, ''a''), Lull, Arrive (1, ''b'')]\<rparr>
    = Some (Inr (c', [''a'', ''b'', ''c'']))"
proof -
  let ?c = "\<lparr>ch_ready = [(2, ''c'')], ch_future = [Lull, Arrive (0, ''a''), Lull, Arrive (1 :: nat, ''b'')]\<rparr> :: (nat \<times> string) chan"
  have r: "chan_remaining ?c = [(2, ''c''), (0, ''a''), (1, ''b'')]" by (simp add: chan_remaining_def)
  have "distinct (map fst (chan_remaining ?c))" "fst ` set (chan_remaining ?c) \<subseteq> {0..<3}"
    unfolding r by auto
  from ordered_drain_sorted [of 3, OF _ this, of True "\<lparr>flag_of = Map.empty, next_flag = 0\<rparr>" 5 "Validate None" 64]
  show ?thesis unfolding r by (simp add: accounting_holds_def)
qed

text \<open>
  The unordered terminal delivers everything: for every schedule and every batch cap the
  drain returns, and the sink has received every item in arrival order, none lost and none
  duplicated.
\<close>

theorem unordered_drain_complete:
  "\<exists>c'. drain_unordered_with chan_recv_ops cap c = Some (Inr (c', map snd (chan_remaining c))) \<and>
     chan_remaining c' = []"
proof -
  from unordered.drain_loop_spec [OF TrueI, of cap c "()"] show ?thesis
    by (auto simp: drain_unordered_with_def feed_unordered)
qed

text \<open>
  C7. No window loses count of an item. With any window the buffer can be built with (a pinned
  one smaller than the reordering included), an ordered drain of a complete run whose sequence
  numbers are distinct and leave room below \<open>2 ^ 64\<close> returns without tripping a check, in debug builds
  too. Its sink has received, in sequence order, exactly the items that arrived except as many as the
  buffer counted as dropped.
\<close>

theorem ordered_drain_accounts:
  assumes "win_initial w \<le> 2 ^ 63" and "win_max w \<le> 2 ^ 63" and "distinct (map fst (chan_remaining c))"
    and "\<And>s. s \<in> fst ` set (chan_remaining c) \<Longrightarrow> s + 2 < u64_mod"
  shows "\<exists>c' kept lost b b' fed.
     drain_ordered_with dbg h chan_recv_ops (length (chan_remaining c)) w acc cap c = Some (Inr (c', map snd kept)) \<and>
     sorted (map fst kept) \<and> mset (chan_remaining c) = mset kept + lost \<and>
     rb_with_max (win_initial w) (win_max w) = Inr b \<and>
     feed_all insert_into b (chan_remaining c) = Inr (b', fed) \<and> rb_dropped b' = size lost"
proof -
  from rb_with_max_below [OF assms(1,2)] obtain b :: "'a reorder_buffer" where
    b: "rb_with_max (win_initial w) (win_max w) = Inr b" by blast
  have wf: "rb_wf b" "rb_pending b = Map.empty" "rb_next_expected b = 0" "rb_dropped b = 0" "rb_slots b = []"
    using b with_max_inner_ok [of "win_initial w" "Some (win_max w)" b]
    by (auto simp: rb_with_max_def elim: with_max_inner_shape)
  have feed: "feedable b (mset (map fst (chan_remaining c)))"
    by (rule feedableI [OF wf(1) assms(3)]) (use assms(4) wf(2) in simp)
  from feed_accounts [OF feed] wf(3-5) obtain b' out lost where
    f: "feed_all insert_into b (chan_remaining c) = Inr (b', out)" "rb_wf b'" "rb_next_expected b' = length out"
      "rb_dropped b' = size lost"
      "mset (chan_remaining c) = mset (zip [0..<length out] out) + rb_entries b' + lost"
    by (auto simp: rb_entries_def)
  from f(2) flush_remaining_entries [of b'] obtain b'' rest where
    g: "flush_remaining b' = Inr (b'', map snd rest)" "mset rest = rb_entries b'" "sorted (map fst rest)"
      "rb_dropped b'' = rb_dropped b'" by (auto simp: rb_wf_def)
  let ?kept = "zip [0..<length out] out @ rest"
  have eq: "mset (chan_remaining c) = mset ?kept + lost" using f(5) g(2) by simp
  from ordered.drain_loop_spec [OF feed, of cap] f(1) obtain c' where
    l: "drain_loop chan_recv_ops insert_into cap c b = Some (Inr (c', b', out))" by auto
  have "length out + length (map snd rest) + rb_dropped b'' = length (chan_remaining c)"
    using arg_cong [OF eq, of size] f(4) g(4) by simp
  then have "accounting_holds dbg h acc (length (chan_remaining c)) (length out + length (map snd rest) + rb_dropped b'')"
    by (simp add: accounting_holds_def split: ordered_accounting.splits)
  then have "drain_ordered_with dbg h chan_recv_ops (length (chan_remaining c)) w acc cap c
      = Some (Inr (c', map snd ?kept))"
    using b l ordered_eof_result [OF g(1), of dbg h "length (chan_remaining c)" acc c' out]
    by (simp add: drain_ordered_with_def)
  moreover have "sorted (map fst ?kept)" by (rule kept_sorted [OF eq assms(3) g(3)])
  ultimately show ?thesis using eq b f(1, 4) by blast
qed

theorem ordered_drain_accounts_witness:
  "\<exists>c' kept lost. drain_ordered_with True \<lparr>flag_of = Map.empty, next_flag = 0\<rparr> chan_recv_ops 3
      (window_fixed 3 1) (Validate None) 0
      \<lparr>ch_ready = [(2, 7), (1, 8), (0, 9 :: nat)], ch_future = []\<rparr> = Some (Inr (c', map snd kept)) \<and>
     sorted (map fst kept) \<and> {#(2 :: nat, 7), (1, 8), (0, 9)#} = mset kept + lost"
proof -
  let ?c = "\<lparr>ch_ready = [(2, 7), (1, 8), (0, 9)], ch_future = []\<rparr> :: (nat \<times> nat) chan"
  have r: "chan_remaining ?c = [(2, 7), (1, 8), (0, 9)]" by (simp add: chan_remaining_def)
  have "win_initial (window_fixed 3 1) \<le> 2 ^ 63" "win_max (window_fixed 3 1) \<le> 2 ^ 63"
    by (simp_all add: window_fixed_def next_power_of_two.simps Let_def)
  moreover have "distinct (map fst (chan_remaining ?c))" unfolding r by simp
  moreover have "s + 2 < u64_mod" if "s \<in> fst ` set (chan_remaining ?c)" for s
    using that unfolding r by (auto simp: u64_mod_def)
  ultimately have "\<exists>c' kept lost b b' fed.
     drain_ordered_with True \<lparr>flag_of = Map.empty, next_flag = 0\<rparr> chan_recv_ops
        (length (chan_remaining ?c)) (window_fixed 3 1) (Validate None) 0 ?c = Some (Inr (c', map snd kept)) \<and>
     sorted (map fst kept) \<and> mset (chan_remaining ?c) = mset kept + lost \<and>
     rb_with_max (win_initial (window_fixed 3 1)) (win_max (window_fixed 3 1)) = Inr b \<and>
     feed_all insert_into b (chan_remaining ?c) = Inr (b', fed) \<and> rb_dropped b' = size lost"
    by (rule ordered_drain_accounts)
  then obtain c' kept lost where "drain_ordered_with True \<lparr>flag_of = Map.empty, next_flag = 0\<rparr> chan_recv_ops
        (length (chan_remaining ?c)) (window_fixed 3 1) (Validate None) 0 ?c = Some (Inr (c', map snd kept))"
     "sorted (map fst kept)" "mset (chan_remaining ?c) = mset kept + lost" by blast
  moreover have "length (chan_remaining ?c) = 3" "mset (chan_remaining ?c) = {#(2, 7), (1, 8), (0, 9)#}"
    unfolding r by simp_all
  ultimately show ?thesis by (intro exI [of _ c'] exI [of _ kept] exI [of _ lost]) simp
qed

end
