(* ===== verification/Sharded.thy ===== *)
theory Sharded
  imports Drain_Props
begin

text \<open>
  The sharded terminal channel of \<^verbatim>\<open>crates/youpipe/src/handoff/sharded.rs\<close> and the sharded
  drains of \<^verbatim>\<open>state/stream.rs\<close>: one ring per worker, a rotating burst pass over all open
  shards, a blocking anchor on one of them, and end-of-stream once every shard has closed.
\<close>

section \<open>Data and construction\<close>

definition MIN_SHARD_BUFFER :: nat where
  "MIN_SHARD_BUFFER = 4"

record 'r shard_set =
  ss_rxs :: "'r list"
  ss_closed :: "bool list"
  ss_cursor :: nat
  ss_open :: nat

text \<open>
  \<open>mk\<close> stands for \<^verbatim>\<open>mpsc_channel\<close> (or its async twin): it makes the endpoints of one ring of
  the given capacity, for the shard with the given index.
\<close>

definition sharded_mpsc_channel ::
    "(nat \<Rightarrow> nat \<Rightarrow> 's \<times> 'r) \<Rightarrow> nat \<Rightarrow> nat \<Rightarrow> ('s list \<times> 'r shard_set) res" where
  "sharded_mpsc_channel mk shards total_capacity =
     (if \<not> shards > 0 then Inl ExplicitPanic
      else let per = max (total_capacity div shards) MIN_SHARD_BUFFER;
               ends = map (\<lambda>i. mk i per) [0..<shards]
           in Inr (map fst ends,
                \<lparr>ss_rxs = map snd ends, ss_closed = replicate shards False, ss_cursor = 0,
                 ss_open = shards\<rparr>))"

section \<open>The burst pass\<close>

text \<open>
  One shard's inner loop of \<open>drain_pass_batched\<close>. The claim (batch first; on a zero claim the
  disconnect probe; \<open>try_recv\<close> when the senders are gone or batching is off) is the same
  decision as \<open>claim_poll\<close> with the scratch capacity as both cap and spare room.
\<close>

partial_function (option) shard_burst ::
    "('r, nat \<times> 'a) recv_ops \<Rightarrow> ('b, 'a) inserter_fun \<Rightarrow> nat \<Rightarrow> 'r \<Rightarrow> 'b \<Rightarrow> ('r, 'b, 'a) burst option" where
  "shard_burst R ins cap r b =
     (case claim_poll R r cap cap of (c, xs, r') \<Rightarrow>
      (case c of
         Ready n \<Rightarrow>
           (case feed_all ins b xs of
              Inl e \<Rightarrow> Some (Inl e)
            | Inr p \<Rightarrow> Option.bind (shard_burst R ins cap r' (fst p)) (\<lambda>t. Some (after_items (snd p) t)))
       | ClaimEmpty \<Rightarrow> Some (Inr (r', b, [], False))
       | ClaimClosed \<Rightarrow> Some (Inr (r', b, [], True))))"

text \<open>
  The pass itself, over the shard offsets \<open>ks\<close> still to visit; \<open>burst\<close> is \<open>item_burst\<close> for
  \<open>drain_pass\<close> and \<open>shard_burst\<close> for \<open>drain_pass_batched\<close>.
\<close>

definition mark_shard :: "'r shard_set \<Rightarrow> nat \<Rightarrow> 'r \<Rightarrow> bool \<Rightarrow> 'r shard_set res" where
  "mark_shard ss i r closed =
     (if closed then
        bind_res (sub_u64 (ss_open ss) 1) (\<lambda>o'.
        Inr (ss\<lparr>ss_rxs := (ss_rxs ss)[i := r], ss_closed := (ss_closed ss)[i := True], ss_open := o'\<rparr>))
      else Inr (ss\<lparr>ss_rxs := (ss_rxs ss)[i := r]\<rparr>))"

fun pass_shards ::
    "('r \<Rightarrow> 'b \<Rightarrow> ('r, 'b, 'a) burst option) \<Rightarrow> nat list \<Rightarrow> 'r shard_set \<Rightarrow> 'b \<Rightarrow>
     ('r shard_set \<times> 'b \<times> 'a list) res option" where
  "pass_shards burst [] ss b = Some (Inr (ss, b, []))"
| "pass_shards burst (k # ks) ss b =
     (let i = (ss_cursor ss + k) mod length (ss_rxs ss) in
      case index_res (ss_closed ss) i of
        Inl e \<Rightarrow> Some (Inl e)
      | Inr True \<Rightarrow> pass_shards burst ks ss b
      | Inr False \<Rightarrow>
          (case index_res (ss_rxs ss) i of
             Inl e \<Rightarrow> Some (Inl e)
           | Inr r \<Rightarrow>
               Option.bind (burst r b) (\<lambda>t.
               case bind_res t (\<lambda>(r', b', out, closed).
                      bind_res (mark_shard ss i r' closed) (\<lambda>ss'. Inr (ss', b', out))) of
                 Inl e \<Rightarrow> Some (Inl e)
               | Inr (ss', b', out) \<Rightarrow>
                   Option.bind (pass_shards burst ks ss' b') (\<lambda>t'. Some (after_loop out t')))))"

definition drain_pass_with ::
    "('r \<Rightarrow> 'b \<Rightarrow> ('r, 'b, 'a) burst option) \<Rightarrow> 'r shard_set \<Rightarrow> 'b \<Rightarrow>
     ('r shard_set \<times> 'b \<times> 'a list \<times> bool) res option" where
  "drain_pass_with burst ss b =
     (let n = length (ss_rxs ss) in
      Option.bind (pass_shards burst [0..<n] ss b) (\<lambda>t.
      Some (bind_res t (\<lambda>(ss', b', out).
        if n = 0 then Inl ArithOverflow
        else let ss'' = ss'\<lparr>ss_cursor := (ss_cursor ss' + 1) mod n\<rparr> in
          Inr (ss'', b', out, ss_open ss'' > 0)))))"

definition drain_pass ::
    "('r, nat \<times> 'a) recv_ops \<Rightarrow> ('b, 'a) inserter_fun \<Rightarrow> 'r shard_set \<Rightarrow> 'b \<Rightarrow>
     ('r shard_set \<times> 'b \<times> 'a list \<times> bool) res option" where
  "drain_pass R ins = drain_pass_with (item_burst R ins)"

definition drain_pass_batched ::
    "('r, nat \<times> 'a) recv_ops \<Rightarrow> ('b, 'a) inserter_fun \<Rightarrow> nat \<Rightarrow> 'r shard_set \<Rightarrow> 'b \<Rightarrow>
     ('r shard_set \<times> 'b \<times> 'a list \<times> bool) res option" where
  "drain_pass_batched R ins cap = drain_pass_with (shard_burst R ins cap)"

section \<open>The anchor\<close>

fun anchor_shards ::
    "('r, 'a) recv_ops \<Rightarrow> nat list \<Rightarrow> 'r shard_set \<Rightarrow> ((channel_error + 'a) \<times> 'r shard_set) res" where
  "anchor_shards R [] ss = Inr (Inl ChanClosed, ss)"
| "anchor_shards R (k # ks) ss =
     (let n = length (ss_rxs ss); i = (ss_cursor ss + k) mod n in
      bind_res (index_res (ss_closed ss) i) (\<lambda>closed.
      if closed then anchor_shards R ks ss
      else bind_res (index_res (ss_rxs ss) i) (\<lambda>r.
        case op_recv R r of
          (Inr item, r') \<Rightarrow>
            Inr (Inr item, ss\<lparr>ss_rxs := (ss_rxs ss)[i := r'], ss_cursor := (i + 1) mod n\<rparr>)
        | (Inl ChanClosed, r') \<Rightarrow> bind_res (mark_shard ss i r' True) (anchor_shards R ks))))"

definition recv_anchor ::
    "('r, 'a) recv_ops \<Rightarrow> 'r shard_set \<Rightarrow> ((channel_error + 'a) \<times> 'r shard_set) res" where
  "recv_anchor R ss = anchor_shards R [0..<length (ss_rxs ss)] ss"

section \<open>The sharded drains\<close>

partial_function (option) sharded_loop ::
    "('r shard_set \<Rightarrow> 'b \<Rightarrow> ('r shard_set \<times> 'b \<times> 'a list \<times> bool) res option) \<Rightarrow>
     ('r, nat \<times> 'a) recv_ops \<Rightarrow> ('b, 'a) inserter_fun \<Rightarrow> 'r shard_set \<Rightarrow> 'b \<Rightarrow>
     ('r shard_set \<times> 'b \<times> 'a list) res option" where
  "sharded_loop pass R ins ss b =
     Option.bind (pass ss b) (\<lambda>t.
     case t of
       Inl e \<Rightarrow> Some (Inl e)
     | Inr (ss1, b1, out1, open1) \<Rightarrow>
         if \<not> open1 then Some (Inr (ss1, b1, out1))
         else (case recv_anchor R ss1 of
                 Inl e \<Rightarrow> Some (Inl e)
               | Inr (res, ss2) \<Rightarrow>
                   (case res of
                      Inl e \<Rightarrow> Some (Inr (ss2, b1, out1))
                    | Inr sx \<Rightarrow>
                        (case ins b1 (fst sx) (snd sx) of
                           Inl e \<Rightarrow> Some (Inl e)
                         | Inr p \<Rightarrow> Option.bind (sharded_loop pass R ins ss2 (fst p))
                                      (\<lambda>t. Some (after_loop (out1 @ snd p) t))))))"

definition drain_unordered_sharded ::
    "('r, nat \<times> 'a) recv_ops \<Rightarrow> nat \<Rightarrow> 'r shard_set \<Rightarrow> ('r shard_set \<times> 'a list) res option" where
  "drain_unordered_sharded R cap ss =
     Option.bind (sharded_loop (drain_pass_batched R sink_unordered cap) R sink_unordered ss ())
       (\<lambda>t. Some (bind_res t (\<lambda>(ss', _, out). Inr (ss', out))))"

definition drain_ordered_sharded ::
    "bool \<Rightarrow> cancel_store \<Rightarrow> ('r, nat \<times> 'a) recv_ops \<Rightarrow> nat \<Rightarrow> ordered_window \<Rightarrow> ordered_accounting \<Rightarrow>
     nat \<Rightarrow> 'r shard_set \<Rightarrow> ('r shard_set \<times> 'a list) res option" where
  "drain_ordered_sharded dbg h R expected_items window accounting cap ss =
     (case rb_with_max (win_initial window) (win_max window) of
        Inl e \<Rightarrow> Some (Inl e)
      | Inr b \<Rightarrow>
          Option.bind (sharded_loop (drain_pass_batched R insert_into cap) R insert_into ss b)
            (\<lambda>t. Some (bind_res t (ordered_eof dbg h expected_items accounting))))"

text \<open>The async flavours: the pass is the per-item one, the anchor awaits.\<close>

definition drain_unordered_async_sharded ::
    "('r, nat \<times> 'a) recv_ops \<Rightarrow> 'r shard_set \<Rightarrow> ('r shard_set \<times> 'a list) res option" where
  "drain_unordered_async_sharded R ss =
     Option.bind (sharded_loop (drain_pass R sink_unordered) R sink_unordered ss ())
       (\<lambda>t. Some (bind_res t (\<lambda>(ss', _, out). Inr (ss', out))))"

definition drain_ordered_async_sharded ::
    "bool \<Rightarrow> cancel_store \<Rightarrow> ('r, nat \<times> 'a) recv_ops \<Rightarrow> nat \<Rightarrow> ordered_window \<Rightarrow> ordered_accounting \<Rightarrow>
     'r shard_set \<Rightarrow> ('r shard_set \<times> 'a list) res option" where
  "drain_ordered_async_sharded dbg h R expected_items window accounting ss =
     (case rb_with_max (win_initial window) (win_max window) of
        Inl e \<Rightarrow> Some (Inl e)
      | Inr b \<Rightarrow>
          Option.bind (sharded_loop (drain_pass R insert_into) R insert_into ss b)
            (\<lambda>t. Some (bind_res t (ordered_eof dbg h expected_items accounting))))"

section \<open>Invariant\<close>

definition ss_wf :: "'r shard_set \<Rightarrow> bool" where
  "ss_wf ss \<longleftrightarrow> 0 < length (ss_rxs ss) \<and> length (ss_closed ss) = length (ss_rxs ss) \<and>
     ss_open ss = length (filter Not (ss_closed ss)) \<and> ss_cursor ss < length (ss_rxs ss)"

definition shards_remaining :: "('r \<Rightarrow> 'x list) \<Rightarrow> 'r shard_set \<Rightarrow> 'x multiset" where
  "shards_remaining remaining ss = sum_list (map (\<lambda>r. mset (remaining r)) (ss_rxs ss))"

text \<open>A shard marked closed has nothing left to deliver.\<close>

definition closed_drained :: "('r \<Rightarrow> 'x list) \<Rightarrow> 'r shard_set \<Rightarrow> bool" where
  "closed_drained remaining ss \<longleftrightarrow>
     (\<forall>i < length (ss_rxs ss). ss_closed ss ! i \<longrightarrow> remaining (ss_rxs ss ! i) = [])"

lemma sum_list_update_mset:
  fixes f :: "'r \<Rightarrow> 'x multiset"
  assumes "i < length rs" "f (rs ! i) = m + f r"
  shows "sum_list (map f rs) = m + sum_list (map f (rs[i := r]))"
  using assms
proof (induction rs arbitrary: i)
  case (Cons a rs)
  show ?case
  proof (cases i)
    case (Suc j)
    with Cons.IH [of j] Cons.prems show ?thesis by simp
  qed (use Cons.prems in simp)
qed simp

lemma mark_shard_ok:
  assumes "ss_wf ss" "closed_drained remaining ss" "i < length (ss_rxs ss)" "\<not> ss_closed ss ! i"
    and "remaining (ss_rxs ss ! i) = ys @ remaining r" "closed \<longrightarrow> remaining r = []"
  shows "\<exists>ss'. mark_shard ss i r closed = Inr ss' \<and> ss_wf ss' \<and> closed_drained remaining ss' \<and>
     length (ss_rxs ss') = length (ss_rxs ss) \<and> ss_cursor ss' = ss_cursor ss \<and>
     ss_rxs ss' = (ss_rxs ss)[i := r] \<and>
     (\<forall>j. ss_closed ss ! j \<longrightarrow> ss_closed ss' ! j) \<and> (closed \<longrightarrow> ss_closed ss' ! i) \<and>
     shards_remaining remaining ss = mset ys + shards_remaining remaining ss'"
proof -
  have len: "i < length (ss_closed ss)" using assms(1,3) by (simp add: ss_wf_def)
  have cnt: "length (filter Not ((ss_closed ss)[i := True])) + 1 = length (filter Not (ss_closed ss))"
    using filter_update_length [OF len, of Not True] assms(4) by simp
  have rem: "shards_remaining remaining ss = mset ys + sum_list (map (\<lambda>r. mset (remaining r)) ((ss_rxs ss)[i := r]))"
    unfolding shards_remaining_def using assms(3,5) by (intro sum_list_update_mset) simp_all
  show ?thesis
  proof (cases closed)
    case True
    have "mark_shard ss i r closed = Inr (ss\<lparr>ss_rxs := (ss_rxs ss)[i := r],
        ss_closed := (ss_closed ss)[i := True], ss_open := ss_open ss - 1\<rparr>)"
      using True assms(1) cnt by (simp add: mark_shard_def ss_wf_def)
    moreover have "closed_drained remaining (ss\<lparr>ss_rxs := (ss_rxs ss)[i := r],
        ss_closed := (ss_closed ss)[i := True], ss_open := ss_open ss - 1\<rparr>)"
      using assms(1,2,3,6) True len
      by (auto simp: closed_drained_def ss_wf_def nth_list_update split: if_splits)
    ultimately show ?thesis using assms(1) cnt rem len
      by (auto simp: ss_wf_def shards_remaining_def nth_list_update)
  next
    case False
    then have "mark_shard ss i r closed = Inr (ss\<lparr>ss_rxs := (ss_rxs ss)[i := r]\<rparr>)"
      by (simp add: mark_shard_def)
    moreover have "closed_drained remaining (ss\<lparr>ss_rxs := (ss_rxs ss)[i := r]\<rparr>)"
      using assms(2,3,4) by (auto simp: closed_drained_def nth_list_update split: if_splits)
    ultimately show ?thesis using assms(1) rem False by (auto simp: ss_wf_def shards_remaining_def)
  qed
qed

lemma all_closed_drained:
  assumes "closed_drained remaining ss" "\<And>i. i < length (ss_rxs ss) \<Longrightarrow> ss_closed ss ! i"
  shows "shards_remaining remaining ss = {#}"
proof -
  have "\<forall>r \<in> set (ss_rxs ss). remaining r = []"
    using assms by (auto simp: closed_drained_def in_set_conv_nth)
  then have "map (\<lambda>r. mset (remaining r)) (ss_rxs ss) = map (\<lambda>_. {#}) (ss_rxs ss)" by simp
  then show ?thesis unfolding shards_remaining_def by (simp only: sum_list_0)
qed

lemma open_zero_drained:
  assumes "ss_wf ss" "closed_drained remaining ss" "ss_open ss = 0"
  shows "shards_remaining remaining ss = {#}"
proof (rule all_closed_drained [OF assms(2)])
  fix i assume "i < length (ss_rxs ss)"
  moreover have "filter Not (ss_closed ss) = []" using assms by (simp add: ss_wf_def)
  ultimately show "ss_closed ss ! i" using assms(1) by (auto simp: ss_wf_def filter_empty_conv)
qed

text \<open>The offsets \<open>0, \<dots>, n - 1\<close> from any cursor visit every shard.\<close>

lemma offsets_cover:
  assumes "j < n"
  shows "\<exists>k < n. (c + k) mod n = (j :: nat)"
proof -
  have "0 < n" using assms by simp
  let ?k = "(j + (n - c mod n)) mod n"
  have "(c + ?k) mod n = (c mod n + (j + (n - c mod n))) mod n" by (simp add: mod_simps)
  also have "c mod n + (j + (n - c mod n)) = j + n"
    using mod_less_divisor [OF \<open>0 < n\<close>, of c] by linarith
  finally show ?thesis using assms by (intro exI [of _ ?k]) simp
qed

section \<open>What the passes and the loop do\<close>

context drain
begin

definition burst_ok :: "('r \<Rightarrow> 'b \<Rightarrow> ('r, 'b, 'a) burst option) \<Rightarrow> bool" where
  "burst_ok burst \<longleftrightarrow> (\<forall>r b A. I b (mset (map fst (remaining r)) + A) \<longrightarrow>
     (\<exists>ys r' b' out closed. burst r b = Some (Inr (r', b', out, closed)) \<and>
        remaining r = ys @ remaining r' \<and> feed_all ins b ys = Inr (b', out) \<and>
        I b' (mset (map fst (remaining r')) + A) \<and> (closed \<longrightarrow> remaining r' = [])))"

lemma item_burst_ok: "burst_ok (item_burst R ins)"
  unfolding burst_ok_def using item_burst_spec by blast

lemma shard_burst_spec:
  assumes "I b (mset (map fst (remaining r)) + A)"
  shows "\<exists>ys r' b' out closed. shard_burst R ins cap r b = Some (Inr (r', b', out, closed)) \<and>
     remaining r = ys @ remaining r' \<and> feed_all ins b ys = Inr (b', out) \<and>
     I b' (mset (map fst (remaining r')) + A) \<and> (closed \<longrightarrow> remaining r' = [])"
  using assms
proof (induction "length (remaining r)" arbitrary: r b rule: less_induct)
  case less
  obtain c xs r1 where t: "claim_poll R r cap cap = (c, xs, r1)" by (cases "claim_poll R r cap cap")
  note ok = claim_poll_ok [OF t, unfolded claim_ok_def]
  show ?case
  proof (cases c)
    case (Ready n)
    with ok have rem: "remaining r = xs @ remaining r1" "xs \<noteq> []" by auto
    have "I b (mset (map fst xs) + (mset (map fst (remaining r1)) + A))"
      using less.prems rem by (simp add: ac_simps)
    from feed_total [OF this] obtain b1 out1 where
      i: "feed_all ins b xs = Inr (b1, out1)" "I b1 (mset (map fst (remaining r1)) + A)" by blast
    have "length (remaining r1) < length (remaining r)" using rem by simp
    from less.hyps [OF this i(2)] obtain ys r' b' out closed where
      h: "shard_burst R ins cap r1 b1 = Some (Inr (r', b', out, closed))" "remaining r1 = ys @ remaining r'"
        "feed_all ins b1 ys = Inr (b', out)" "I b' (mset (map fst (remaining r')) + A)"
        "closed \<longrightarrow> remaining r' = []" by blast
    have "shard_burst R ins cap r b = Some (Inr (r', b', out1 @ out, closed))"
      using t Ready i h by (subst shard_burst.simps) (simp add: after_items_def)
    moreover have "feed_all ins b (xs @ ys) = Inr (b', out1 @ out)"
      using i h by (simp add: feed_all_append)
    ultimately show ?thesis using h rem by (intro exI [of _ "xs @ ys"]) simp
  next
    case ClaimEmpty
    with t have "shard_burst R ins cap r b = Some (Inr (r1, b, [], False))"
      by (subst shard_burst.simps) simp
    with ok ClaimEmpty less.prems show ?thesis
      by (intro exI [of _ "[]"] exI [of _ r1] exI [of _ b] exI [of _ False]) simp
  next
    case ClaimClosed
    with t have "shard_burst R ins cap r b = Some (Inr (r1, b, [], True))"
      by (subst shard_burst.simps) simp
    with ok ClaimClosed less.prems show ?thesis
      by (intro exI [of _ "[]"] exI [of _ r1] exI [of _ b] exI [of _ True]) auto
  qed
qed

lemma shard_burst_ok: "burst_ok (shard_burst R ins cap)"
  unfolding burst_ok_def using shard_burst_spec by blast

definition ss_ok :: "'r shard_set \<Rightarrow> bool" where
  "ss_ok ss \<longleftrightarrow> ss_wf ss \<and> closed_drained remaining ss"

text \<open>The numbers all shards still have to deliver.\<close>

definition ss_seqs :: "'r shard_set \<Rightarrow> nat multiset" where
  "ss_seqs ss = image_mset fst (shards_remaining remaining ss)"

lemma ss_seqs_shard:
  assumes "i < length (ss_rxs ss)"
  shows "\<exists>A. ss_seqs ss = mset (map fst (remaining (ss_rxs ss ! i))) + A"
proof -
  let ?S = "\<lambda>rs. sum_list (map (\<lambda>r. mset (remaining r)) rs)"
  define B where "B = ?S (take i (ss_rxs ss)) + ?S (drop (Suc i) (ss_rxs ss))"
  have "?S (take i (ss_rxs ss) @ ss_rxs ss ! i # drop (Suc i) (ss_rxs ss)) = mset (remaining (ss_rxs ss ! i)) + B"
    by (simp add: B_def)
  then have "shards_remaining remaining ss = mset (remaining (ss_rxs ss ! i)) + B"
    unfolding shards_remaining_def by (simp only: id_take_nth_drop [OF assms, symmetric])
  then have "ss_seqs ss = mset (map fst (remaining (ss_rxs ss ! i))) + image_mset fst B"
    by (simp add: ss_seqs_def mset_map)
  then show ?thesis ..
qed

lemma pass_shards_spec:
  assumes "burst_ok burst" "ss_ok ss" "I b (ss_seqs ss)"
  shows "\<exists>ys ss' b' out. pass_shards burst ks ss b = Some (Inr (ss', b', out)) \<and> ss_ok ss' \<and>
     length (ss_rxs ss') = length (ss_rxs ss) \<and> feed_all ins b ys = Inr (b', out) \<and> I b' (ss_seqs ss') \<and>
     shards_remaining remaining ss = mset ys + shards_remaining remaining ss'"
  using assms(2,3)
proof (induction ks arbitrary: ss b)
  case Nil
  then show ?case by (intro exI [of _ "[]"]) simp
next
  case (Cons k ks)
  let ?i = "(ss_cursor ss + k) mod length (ss_rxs ss)"
  have i: "?i < length (ss_rxs ss)" "?i < length (ss_closed ss)"
    using Cons.prems by (simp_all add: ss_ok_def ss_wf_def)
  show ?case
  proof (cases "ss_closed ss ! ?i")
    case True
    with i Cons.IH [OF Cons.prems] show ?thesis by (simp add: Let_def)
  next
    case False
    from ss_seqs_shard [OF i(1)] obtain A where A: "ss_seqs ss = mset (map fst (remaining (ss_rxs ss ! ?i))) + A" ..
    from assms(1) Cons.prems(2) [unfolded A] obtain ys r' b' out closed where
      h: "burst (ss_rxs ss ! ?i) b = Some (Inr (r', b', out, closed))"
        "remaining (ss_rxs ss ! ?i) = ys @ remaining r'" "feed_all ins b ys = Inr (b', out)"
        "I b' (mset (map fst (remaining r')) + A)"
        "closed \<longrightarrow> remaining r' = []" unfolding burst_ok_def by blast
    from mark_shard_ok [OF _ _ i(1) False h(2,5)] Cons.prems(1) obtain ss1 where
      m: "mark_shard ss ?i r' closed = Inr ss1" "ss_wf ss1" "closed_drained remaining ss1"
        "length (ss_rxs ss1) = length (ss_rxs ss)"
        "shards_remaining remaining ss = mset ys + shards_remaining remaining ss1"
      unfolding ss_ok_def by blast
    then have "ss_ok ss1" using Cons.prems(1) by (simp add: ss_ok_def)
    have "mset (map fst ys) + ss_seqs ss1 = mset (map fst ys) + (mset (map fst (remaining r')) + A)"
      using A h(2) m(5) by (simp add: ss_seqs_def mset_map)
    then have "I b' (ss_seqs ss1)" using h(4) by simp
    from Cons.IH [OF \<open>ss_ok ss1\<close> this] obtain zs ss' b'' out' where
      r: "pass_shards burst ks ss1 b' = Some (Inr (ss', b'', out'))" "ss_ok ss'"
        "length (ss_rxs ss') = length (ss_rxs ss1)" "feed_all ins b' zs = Inr (b'', out')" "I b'' (ss_seqs ss')"
        "shards_remaining remaining ss1 = mset zs + shards_remaining remaining ss'" by blast
    have "pass_shards burst (k # ks) ss b = Some (Inr (ss', b'', out @ out'))"
      using i False h(1) m(1) r(1) by (simp add: Let_def after_loop_def)
    moreover have "feed_all ins b (ys @ zs) = Inr (b'', out @ out')"
      using h(3) r(4) by (simp add: feed_all_append)
    ultimately show ?thesis using r m by (intro exI [of _ "ys @ zs"]) simp
  qed
qed

lemma drain_pass_with_spec:
  assumes "burst_ok burst" "ss_ok ss" "I b (ss_seqs ss)"
  shows "\<exists>ys ss' b' out. drain_pass_with burst ss b = Some (Inr (ss', b', out, ss_open ss' > 0)) \<and>
     ss_ok ss' \<and> feed_all ins b ys = Inr (b', out) \<and> I b' (ss_seqs ss') \<and>
     shards_remaining remaining ss = mset ys + shards_remaining remaining ss'"
proof -
  let ?n = "length (ss_rxs ss)"
  from pass_shards_spec [OF assms] obtain ys ss1 b' out where
    p: "pass_shards burst [0..<?n] ss b = Some (Inr (ss1, b', out))" "ss_ok ss1"
      "length (ss_rxs ss1) = ?n" "feed_all ins b ys = Inr (b', out)" "I b' (ss_seqs ss1)"
      "shards_remaining remaining ss = mset ys + shards_remaining remaining ss1" by blast
  let ?s = "ss1\<lparr>ss_cursor := (ss_cursor ss1 + 1) mod ?n\<rparr>"
  have n: "?n > 0" using assms(2) by (simp add: ss_ok_def ss_wf_def)
  have "drain_pass_with burst ss b = Some (Inr (?s, b', out, ss_open ?s > 0))"
    using p(1) n by (simp add: drain_pass_with_def Let_def)
  moreover have "ss_ok ?s" "shards_remaining remaining ?s = shards_remaining remaining ss1"
    using p(2,3) n by (auto simp: ss_ok_def ss_wf_def closed_drained_def shards_remaining_def)
  ultimately show ?thesis using p by (intro exI [of _ ys] exI [of _ ?s]) (simp add: ss_seqs_def)
qed

lemma anchor_shards_spec:
  assumes "ss_ok ss"
  shows "\<exists>res ss'. anchor_shards R ks ss = Inr (res, ss') \<and> ss_ok ss' \<and>
     (case res of
        Inr x \<Rightarrow> shards_remaining remaining ss = {#x#} + shards_remaining remaining ss'
      | Inl _ \<Rightarrow> shards_remaining remaining ss' = shards_remaining remaining ss \<and>
          length (ss_rxs ss') = length (ss_rxs ss) \<and>
          (\<forall>j. ss_closed ss ! j \<longrightarrow> ss_closed ss' ! j) \<and>
          (\<forall>k \<in> set ks. ss_closed ss' ! ((ss_cursor ss + k) mod length (ss_rxs ss))))"
  using assms
proof (induction ks arbitrary: ss)
  case (Cons k ks)
  let ?n = "length (ss_rxs ss)"
  let ?i = "(ss_cursor ss + k) mod ?n"
  have i: "?i < ?n" "?i < length (ss_closed ss)" using Cons.prems by (simp_all add: ss_ok_def ss_wf_def)
  show ?case
  proof (cases "ss_closed ss ! ?i")
    case True
    have "anchor_shards R (k # ks) ss = anchor_shards R ks ss" using True i by (simp add: Let_def)
    moreover from Cons.IH [OF Cons.prems] obtain res ss' where
      "anchor_shards R ks ss = Inr (res, ss')" "ss_ok ss'"
      "case res of
        Inr x \<Rightarrow> shards_remaining remaining ss = {#x#} + shards_remaining remaining ss'
      | Inl _ \<Rightarrow> shards_remaining remaining ss' = shards_remaining remaining ss \<and>
          length (ss_rxs ss') = ?n \<and> (\<forall>j. ss_closed ss ! j \<longrightarrow> ss_closed ss' ! j) \<and>
          (\<forall>k \<in> set ks. ss_closed ss' ! ((ss_cursor ss + k) mod ?n))" by blast
    ultimately show ?thesis using True by (cases res) (auto simp del: anchor_shards.simps)
  next
    case False
    obtain res r' where t: "op_recv R (ss_rxs ss ! ?i) = (res, r')" by fastforce
    show ?thesis
    proof (cases res)
      case (Inr x)
      let ?s = "ss\<lparr>ss_rxs := (ss_rxs ss)[?i := r'], ss_cursor := (?i + 1) mod ?n\<rparr>"
      have rem: "remaining (ss_rxs ss ! ?i) = [x] @ remaining r'" using t Inr by (simp add: recv_ok)
      have eq: "shards_remaining remaining ss = mset [x] + shards_remaining remaining ?s"
        using sum_list_update_mset [OF i(1), of "\<lambda>r. mset (remaining r)" "mset [x]" r'] rem
        by (simp add: shards_remaining_def)
      have "ss_wf ?s" using Cons.prems i(1) by (simp add: ss_ok_def ss_wf_def)
      moreover have "closed_drained remaining ?s"
        using Cons.prems False i(1) by (auto simp: ss_ok_def closed_drained_def nth_list_update split: if_splits)
      ultimately have "ss_ok ?s" using Cons.prems eq by (simp add: ss_ok_def)
      moreover have "anchor_shards R (k # ks) ss = Inr (Inr x, ?s)"
        using t Inr i False by (simp add: Let_def)
      ultimately show ?thesis using eq by (intro exI [of _ "Inr x"] exI [of _ ?s]) simp
    next
      case (Inl e)
      have rem: "remaining (ss_rxs ss ! ?i) = [] @ remaining r'" "True \<longrightarrow> remaining r' = []"
        using recv_closed [of "ss_rxs ss ! ?i" e r'] t Inl by simp_all
      from mark_shard_ok [OF _ _ i(1) False rem] Cons.prems obtain ss1 where
        m: "mark_shard ss ?i r' True = Inr ss1" "ss_wf ss1" "closed_drained remaining ss1"
          "length (ss_rxs ss1) = ?n" "ss_cursor ss1 = ss_cursor ss"
          "\<forall>j. ss_closed ss ! j \<longrightarrow> ss_closed ss1 ! j" "ss_closed ss1 ! ?i"
          "shards_remaining remaining ss = mset [] + shards_remaining remaining ss1"
        unfolding ss_ok_def by blast
      then have ok: "ss_ok ss1" using Cons.prems by (simp add: ss_ok_def)
      have eq: "anchor_shards R (k # ks) ss = anchor_shards R ks ss1"
        using t Inl i False m(1) by (cases e) (simp add: Let_def)
      from Cons.IH [OF ok] m(4,5) obtain res2 ss' where
        "anchor_shards R ks ss1 = Inr (res2, ss')" "ss_ok ss'"
        "case res2 of
          Inr x \<Rightarrow> shards_remaining remaining ss1 = {#x#} + shards_remaining remaining ss'
        | Inl _ \<Rightarrow> shards_remaining remaining ss' = shards_remaining remaining ss1 \<and>
            length (ss_rxs ss') = ?n \<and> (\<forall>j. ss_closed ss1 ! j \<longrightarrow> ss_closed ss' ! j) \<and>
            (\<forall>k \<in> set ks. ss_closed ss' ! ((ss_cursor ss + k) mod ?n))" unfolding m(4,5) by blast
      with eq m(6-8) show ?thesis by (cases res2) (auto simp del: anchor_shards.simps)
    qed
  qed
qed (auto intro!: exI [of _ "Inl ChanClosed"])

lemma recv_anchor_spec:
  assumes "ss_ok ss"
  shows "\<exists>res ss'. recv_anchor R ss = Inr (res, ss') \<and> ss_ok ss' \<and>
     (case res of
        Inr x \<Rightarrow> shards_remaining remaining ss = {#x#} + shards_remaining remaining ss'
      | Inl _ \<Rightarrow> shards_remaining remaining ss = {#} \<and> shards_remaining remaining ss' = {#})"
proof -
  let ?n = "length (ss_rxs ss)"
  from anchor_shards_spec [OF assms, of "[0..<?n]"] obtain res ss' where
    a: "recv_anchor R ss = Inr (res, ss')" "ss_ok ss'" and
    c: "case res of
        Inr x \<Rightarrow> shards_remaining remaining ss = {#x#} + shards_remaining remaining ss'
      | Inl _ \<Rightarrow> shards_remaining remaining ss' = shards_remaining remaining ss \<and>
          length (ss_rxs ss') = ?n \<and> (\<forall>j. ss_closed ss ! j \<longrightarrow> ss_closed ss' ! j) \<and>
          (\<forall>k \<in> set [0..<?n]. ss_closed ss' ! ((ss_cursor ss + k) mod ?n))"
    unfolding recv_anchor_def by blast
  show ?thesis
  proof (cases res)
    case (Inl e)
    have "ss_closed ss' ! j" if "j < length (ss_rxs ss')" for j
      using that c Inl offsets_cover [of j ?n "ss_cursor ss"] by auto
    with a(2) have "shards_remaining remaining ss' = {#}"
      by (intro all_closed_drained) (simp_all add: ss_ok_def)
    with a c Inl show ?thesis by auto
  qed (use a c in auto)
qed

text \<open>
  The sharded loop returns after feeding every item of every shard exactly once, in some
  interleaving, and leaves all shards drained.
\<close>

lemma sharded_loop_spec:
  assumes "burst_ok burst" "ss_ok ss" "I b (ss_seqs ss)"
  shows "\<exists>ys ss' b' out. sharded_loop (drain_pass_with burst) R ins ss b = Some (Inr (ss', b', out)) \<and>
     mset ys = shards_remaining remaining ss \<and> feed_all ins b ys = Inr (b', out) \<and>
     shards_remaining remaining ss' = {#}"
  using assms(2,3)
proof (induction "size (shards_remaining remaining ss)" arbitrary: ss b rule: less_induct)
  case less
  from drain_pass_with_spec [OF assms(1) less.prems] obtain ys ss1 b1 out1 where
    p: "drain_pass_with burst ss b = Some (Inr (ss1, b1, out1, ss_open ss1 > 0))" "ss_ok ss1"
      "feed_all ins b ys = Inr (b1, out1)" "I b1 (ss_seqs ss1)"
      "shards_remaining remaining ss = mset ys + shards_remaining remaining ss1" by blast
  from recv_anchor_spec [OF p(2)] obtain res ss2 where
    a: "recv_anchor R ss1 = Inr (res, ss2)" "ss_ok ss2"
      "case res of
        Inr x \<Rightarrow> shards_remaining remaining ss1 = {#x#} + shards_remaining remaining ss2
      | Inl _ \<Rightarrow> shards_remaining remaining ss1 = {#} \<and> shards_remaining remaining ss2 = {#}" by blast
  show ?case
  proof (cases "ss_open ss1 = 0 \<or> (\<exists>e. res = Inl e)")
    case True
    have "shards_remaining remaining ss1 = {#}"
      using True a(3) open_zero_drained [of ss1 remaining] p(2) by (auto simp: ss_ok_def)
    moreover have "\<exists>ss'. sharded_loop (drain_pass_with burst) R ins ss b = Some (Inr (ss', b1, out1)) \<and>
        shards_remaining remaining ss' = {#}"
      using True calculation p(1) a by (subst sharded_loop.simps) auto
    ultimately show ?thesis using p by auto
  next
    case False
    then obtain seq x where res: "res = Inr (seq, x)" by (cases res) auto
    have rem: "shards_remaining remaining ss1 = {#(seq, x)#} + shards_remaining remaining ss2"
      using a(3) res by simp
    then have "ss_seqs ss1 = add_mset seq (ss_seqs ss2)" by (simp add: ss_seqs_def)
    from ins_total [OF p(4) [unfolded this], of x] obtain b2 out2 where
      i: "ins b1 seq x = Inr (b2, out2)" "I b2 (ss_seqs ss2)" by blast
    have "size (shards_remaining remaining ss2) < size (shards_remaining remaining ss)"
      using rem p(5) by simp
    from less.hyps [OF this a(2) i(2)] obtain zs ss' b' out where
      l: "sharded_loop (drain_pass_with burst) R ins ss2 b2 = Some (Inr (ss', b', out))"
        "mset zs = shards_remaining remaining ss2" "feed_all ins b2 zs = Inr (b', out)"
        "shards_remaining remaining ss' = {#}" by blast
    have "sharded_loop (drain_pass_with burst) R ins ss b = Some (Inr (ss', b', out1 @ out2 @ out))"
      using False p(1) a(1) res i l(1) by (subst sharded_loop.simps) (simp add: after_loop_def)
    moreover have "feed_all ins b (ys @ (seq, x) # zs) = Inr (b', out1 @ out2 @ out)"
      using p(3) i l(3) by (simp add: feed_all_append)
    moreover have "mset (ys @ (seq, x) # zs) = shards_remaining remaining ss"
      using p(5) rem l(2) by simp
    ultimately show ?thesis using l(4) by blast
  qed
qed

end

end
