(* ===== verification/Sharded_Props.thy ===== *)
theory Sharded_Props
  imports Sharded
begin

text \<open>
  Properties of the sharded terminal over the channel endpoints: construction, and the
  ordered and unordered drains in both flavours.
\<close>

section \<open>Auxiliary facts\<close>

lemma shards_remaining_concat:
  "shards_remaining remaining ss = mset (concat (map remaining (ss_rxs ss)))"
proof -
  have "sum_list (map (\<lambda>r. mset (remaining r)) rs) = mset (concat (map remaining rs))" for rs
    by (induction rs) auto
  then show ?thesis by (simp add: shards_remaining_def)
qed

lemma sort_key_permutation:
  assumes "mset ys = mset xs" "distinct (map fst xs)"
  shows "sort_key fst ys = sort_key (fst :: 'k :: linorder \<times> 'v \<Rightarrow> 'k) xs"
proof (rule sort_key_inj_key_eq)
  show "mset ys = mset (sort_key fst xs)" using assms(1) by simp
  have "set ys = set xs" using assms(1) by (rule mset_eq_setD)
  then show "inj_on fst (set ys)" using assms(2) by (simp add: distinct_map)
qed simp

text \<open>The items all shards together will still deliver.\<close>

definition ss_items :: "(nat \<times> 'a) chan shard_set \<Rightarrow> (nat \<times> 'a) list" where
  "ss_items ss = concat (map chan_remaining (ss_rxs ss))"

lemma ordered_sharded_result:
  assumes "ordered.burst_ok burst" and "ss_wf ss" and "closed_drained chan_remaining ss" and "n \<le> 2 ^ 63"
    and "distinct (map fst (ss_items ss))" and "fst ` set (ss_items ss) \<subseteq> {0..<n}"
    and b: "rb_with_max (win_initial (window_auto n f)) (win_max (window_auto n f)) = Inr b"
  shows "\<exists>ss'. Option.bind (sharded_loop (drain_pass_with burst) chan_recv_ops insert_into ss b)
       (\<lambda>t. Some (bind_res t (ordered_eof dbg h n acc))) =
     Some (if accounting_holds dbg h acc n (length (ss_items ss))
           then Inr (ss', map snd (sort_key fst (ss_items ss))) else Inl ExplicitPanic)"
proof -
  note w = window_auto_shape [OF assms(4), of f]
  have n2: "n + 2 \<le> u64_mod" using assms(4) by (simp add: u64_mod_def)
  have wf: "rb_wf b" "rb_pending b = Map.empty" using b with_max_inner_ok by (auto simp: rb_with_max_def)
  have rem: "shards_remaining chan_remaining ss = mset (ss_items ss)"
    by (simp add: shards_remaining_concat ss_items_def)
  have "feedable b (mset (map fst (ss_items ss)))"
    by (rule feedableI [OF wf(1) assms(5)]) (use assms(6) n2 wf(2) in fastforce)
  then have I: "feedable b (ordered.ss_seqs ss)" by (simp add: ordered.ss_seqs_def rem mset_map)
  have "ordered.ss_ok ss" unfolding ordered.ss_ok_def using assms(2,3) by blast
  from ordered.sharded_loop_spec [OF assms(1) this I] obtain ys ss' b' out where
    l: "sharded_loop (drain_pass_with burst) chan_recv_ops insert_into ss b = Some (Inr (ss', b', out))"
      "mset ys = mset (ss_items ss)" "feed_all insert_into b ys = Inr (b', out)"
    unfolding rem by blast
  have set: "set ys = set (ss_items ss)" "length ys = length (ss_items ss)"
    using l(2) by (auto dest: mset_eq_setD mset_eq_length)
  have "mset (map fst ys) = mset (map fst (ss_items ss))" using l(2) by (simp add: mset_map)
  then have "distinct (map fst ys)" using assms(5) mset_eq_imp_distinct_iff by blast
  from feed_flush_sorted [OF b w(1) n2 this] assms(6) set(1) l(3) obtain b'' rest where
    g: "flush_remaining b' = Inr (b'', rest)" "out @ rest = map snd (sort_key fst ys)" "rb_dropped b'' = 0"
    by auto
  have len: "length out + length rest = length (ss_items ss)"
    using arg_cong [OF g(2), of length] set(2) by simp
  have "map snd (sort_key fst ys) = map snd (sort_key fst (ss_items ss))"
    using sort_key_permutation [OF l(2) assms(5)] by simp
  with g l(1) len ordered_eof_result [OF g(1), of dbg h n acc ss' out] show ?thesis
    by (intro exI [of _ ss']) simp
qed

lemma unordered_sharded_result:
  assumes "unordered.burst_ok burst" and "ss_wf ss" and "closed_drained chan_remaining ss"
  shows "\<exists>ss' out. Option.bind (sharded_loop (drain_pass_with burst) chan_recv_ops sink_unordered ss ())
       (\<lambda>t. Some (bind_res t (\<lambda>(ss', _, out). Inr (ss', out)))) = Some (Inr (ss', out)) \<and>
     mset out = mset (map snd (ss_items ss))"
proof -
  have "unordered.ss_ok ss" using assms by (simp add: unordered.ss_ok_def)
  from unordered.sharded_loop_spec [OF assms(1) this TrueI, of "()"] obtain ys ss' out where
    l: "sharded_loop (drain_pass_with burst) chan_recv_ops sink_unordered ss () = Some (Inr (ss', (), out))"
      "mset ys = shards_remaining chan_remaining ss" "feed_all sink_unordered () ys = Inr ((), out)"
    by auto
  have "mset (map snd ys) = mset (map snd (ss_items ss))"
    using l(2) by (simp add: shards_remaining_concat ss_items_def mset_map)
  moreover have "out = map snd ys" using l(3) by (simp add: feed_unordered)
  ultimately show ?thesis using l(1) by (intro exI [of _ ss'] exI [of _ out]) simp
qed

section \<open>Properties\<close>

text \<open>
  C8. Sharding is transparent to the ordered contract. For every split of the items over the
  shards, every schedule of every shard's sender, every cursor and every set of shards that
  already closed, the ordered sharded drain (sync and async) returns and its sink has received
  the items of all shards in sequence order; in particular no shard's items are lost when other
  shards close early.
\<close>

theorem sharded_ordered_drain_sorted:
  assumes "ss_wf ss" and "closed_drained chan_remaining ss" and "n \<le> 2 ^ 63"
    and "distinct (map fst (ss_items ss))" and "fst ` set (ss_items ss) \<subseteq> {0..<n}"
  shows "(\<exists>ss'. drain_ordered_sharded dbg h chan_recv_ops n (window_auto n f) acc cap ss =
       Some (if accounting_holds dbg h acc n (length (ss_items ss))
             then Inr (ss', map snd (sort_key fst (ss_items ss))) else Inl ExplicitPanic)) \<and>
     (\<exists>ss'. drain_ordered_async_sharded dbg h chan_recv_ops n (window_auto n f) acc ss =
       Some (if accounting_holds dbg h acc n (length (ss_items ss))
             then Inr (ss', map snd (sort_key fst (ss_items ss))) else Inl ExplicitPanic))"
proof -
  note w = window_auto_shape [OF assms(3), of f]
  from rb_with_max_below [OF w(3,2)] obtain b :: "'a reorder_buffer" where
    b: "rb_with_max (win_initial (window_auto n f)) (win_max (window_auto n f)) = Inr b" by blast
  note res = ordered_sharded_result [OF _ assms b, of _ dbg h acc]
  from res [OF ordered.shard_burst_ok, of cap] res [OF ordered.item_burst_ok] b show ?thesis
    by (simp add: drain_ordered_sharded_def drain_ordered_async_sharded_def drain_pass_batched_def
        drain_pass_def)
qed

theorem sharded_ordered_drain_sorted_witness:
  "\<exists>ss'. drain_ordered_sharded True \<lparr>flag_of = Map.empty, next_flag = 0\<rparr> chan_recv_ops 3 (window_auto 3 0)
      (Validate None) 64
      \<lparr>ss_rxs = [\<lparr>ch_ready = [(2, ''c'')], ch_future = [Lull, Arrive (0, ''a'')]\<rparr>,
                \<lparr>ch_ready = [], ch_future = [Lull, Lull, Arrive (1, ''b'')]\<rparr>],
       ss_closed = [False, False], ss_cursor = 1, ss_open = 2\<rparr>
    = Some (Inr (ss', [''a'', ''b'', ''c'']))"
proof -
  let ?ss = "\<lparr>ss_rxs = [\<lparr>ch_ready = [(2, ''c'')], ch_future = [Lull, Arrive (0, ''a'')]\<rparr>,
                \<lparr>ch_ready = [], ch_future = [Lull, Lull, Arrive (1, ''b'')]\<rparr>],
       ss_closed = [False, False], ss_cursor = 1, ss_open = 2\<rparr> :: (nat \<times> string) chan shard_set"
  have r: "ss_items ?ss = [(2, ''c''), (0, ''a''), (1, ''b'')]"
    by (simp add: ss_items_def chan_remaining_def)
  have "ss_wf ?ss" "closed_drained chan_remaining ?ss"
    by (auto simp: ss_wf_def closed_drained_def less_Suc_eq)
  moreover have "distinct (map fst (ss_items ?ss))" "fst ` set (ss_items ?ss) \<subseteq> {0..<3}"
    unfolding r by auto
  ultimately have "\<exists>ss'. drain_ordered_sharded True \<lparr>flag_of = Map.empty, next_flag = 0\<rparr> chan_recv_ops 3
      (window_auto 3 0) (Validate None) 64 ?ss =
    Some (if accounting_holds True \<lparr>flag_of = Map.empty, next_flag = 0\<rparr> (Validate None) 3 (length (ss_items ?ss))
          then Inr (ss', map snd (sort_key fst (ss_items ?ss))) else Inl ExplicitPanic)"
    by (intro sharded_ordered_drain_sorted [THEN conjunct1]) simp_all
  then show ?thesis unfolding r by (simp add: accounting_holds_def)
qed

text \<open>
  The unordered sharded drains (sync and async) return with every item of every shard
  delivered exactly once.
\<close>

theorem sharded_unordered_drain_complete:
  assumes "ss_wf ss" and "closed_drained chan_remaining ss"
  shows "(\<exists>ss' out. drain_unordered_sharded chan_recv_ops cap ss = Some (Inr (ss', out)) \<and>
       mset out = mset (map snd (ss_items ss))) \<and>
     (\<exists>ss' out. drain_unordered_async_sharded chan_recv_ops ss = Some (Inr (ss', out)) \<and>
       mset out = mset (map snd (ss_items ss)))"
  using unordered_sharded_result [OF unordered.shard_burst_ok assms, of cap]
    unordered_sharded_result [OF unordered.item_burst_ok assms]
  by (simp add: drain_unordered_sharded_def drain_unordered_async_sharded_def drain_pass_batched_def
      drain_pass_def)

theorem sharded_unordered_drain_complete_witness:
  "\<exists>ss' out. drain_unordered_sharded chan_recv_ops 0
      \<lparr>ss_rxs = [\<lparr>ch_ready = [(0, 5)], ch_future = [Lull, Arrive (1, 6 :: nat)]\<rparr>],
       ss_closed = [False], ss_cursor = 0, ss_open = 1\<rparr> = Some (Inr (ss', out)) \<and> mset out = {#5, 6#}"
proof -
  let ?ss = "\<lparr>ss_rxs = [\<lparr>ch_ready = [(0, 5)], ch_future = [Lull, Arrive (1, 6)]\<rparr>],
       ss_closed = [False], ss_cursor = 0, ss_open = 1\<rparr> :: (nat \<times> nat) chan shard_set"
  have "ss_wf ?ss" "closed_drained chan_remaining ?ss" by (auto simp: ss_wf_def closed_drained_def)
  from sharded_unordered_drain_complete [OF this, of 0] show ?thesis
    by (simp add: ss_items_def chan_remaining_def)
qed

text \<open>
  Construction: a sharded channel panics exactly for zero shards; otherwise every shard gets
  at least \<open>MIN_SHARD_BUFFER\<close> slots, the shards together do not exceed the requested budget unless
  that floor forces it, and the receiver starts well-formed with every shard open.
\<close>

theorem sharded_channel_construction:
  "(sharded_mpsc_channel mk shards budget = Inl ExplicitPanic \<longleftrightarrow> shards = 0) \<and>
   (0 < shards \<longrightarrow> (\<exists>per ss.
      sharded_mpsc_channel mk shards budget = Inr (map (\<lambda>i. fst (mk i per)) [0..<shards], ss) \<and>
      ss_rxs ss = map (\<lambda>i. snd (mk i per)) [0..<shards] \<and>
      MIN_SHARD_BUFFER \<le> per \<and> (per * shards \<le> budget \<or> per = MIN_SHARD_BUFFER) \<and>
      ss_wf ss \<and> ss_open ss = shards \<and> closed_drained remaining ss))"
proof -
  have "shards * (budget div shards) \<le> budget" by simp
  then have "max (budget div shards) 4 * shards \<le> budget \<or> max (budget div shards) 4 = 4"
    by (auto simp: max_def mult.commute)
  then show ?thesis
    by (auto simp: sharded_mpsc_channel_def Let_def ss_wf_def closed_drained_def MIN_SHARD_BUFFER_def)
qed

theorem sharded_channel_construction_witness:
  "\<exists>ss per. sharded_mpsc_channel (\<lambda>i per. (i, per)) 2 33 = Inr ([0, 1], ss) \<and>
     MIN_SHARD_BUFFER \<le> per \<and> ss_rxs ss = [per, per] \<and> ss_wf ss \<and> ss_open ss = 2"
proof -
  have [simp]: "[0..<2] = [0, 1 :: nat]" by (simp add: upt_rec)
  from sharded_channel_construction [of "\<lambda>i per. (i, per)" 2 33 "\<lambda>_. [] :: nat list"]
  show ?thesis by auto
qed

end
