(* ===== verification/Stage_Loops.thy ===== *)
theory Stage_Loops
  imports Channel Cancel
begin

text \<open>
  The worker loops of the streaming engine, \<^verbatim>\<open>crates/youpipe/src/builder/typed/stream.rs\<close>: the
  adaptive pre-anchor spin, the claim of one run of items, the loops that apply a stage or an
  expansion to each claimed item and send the results on, and the feeder that tags the input.

  A cancellation token is observed at fixed points of the loops. Since a token never becomes
  un-cancelled, what a loop sees is a countdown: \<open>Some n\<close> means that the next \<open>n\<close> checks read
  false and all later ones true, \<open>None\<close> that the token never fires. Clock readings and the
  duration of a park are arguments.
\<close>

section \<open>Observing cancellation\<close>

type_synonym fuse = "nat option"

definition check_cancel :: "fuse \<Rightarrow> bool \<times> fuse" where
  "check_cancel f = (case f of None \<Rightarrow> (False, None) | Some 0 \<Rightarrow> (True, Some 0) | Some (Suc n) \<Rightarrow> (False, Some n))"

lemma check_cancel_simps [simp]:
  "check_cancel None = (False, None)"
  "check_cancel (Some 0) = (True, Some 0)"
  "check_cancel (Some (Suc n)) = (False, Some n)"
  by (simp_all add: check_cancel_def)

section \<open>Adaptive spin\<close>

definition SPIN_ROUNDS_PER_US :: nat where
  "SPIN_ROUNDS_PER_US = 64"

definition MAX_POLL_PAUSES :: nat where
  "MAX_POLL_PAUSES = 64"

record anchor_spin =
  budget_us :: nat
  max_us :: nat

definition u32_max :: nat where
  "u32_max = 2 ^ 32 - 1"

definition saturating_mul_u32 :: "nat \<Rightarrow> nat \<Rightarrow> nat" where
  "saturating_mul_u32 a b = min (a * b) u32_max"

definition spin_new :: "nat \<Rightarrow> anchor_spin" where
  "spin_new mx = \<lparr>budget_us = 0, max_us = mx\<rparr>"

definition spin_initial :: "nat \<Rightarrow> nat" where
  "spin_initial mx = max (mx div 16) 1"

text \<open>
  \<open>spin_claim\<close>: \<open>elapsed polls\<close> tells whether the wall-clock window is over at that poll; the
  poll count bounds the loop when the clock does not advance. The pauses only pass time.
\<close>

function spin_polls ::
    "('r, 'a) recv_ops \<Rightarrow> (nat \<Rightarrow> bool) \<Rightarrow> nat \<Rightarrow> nat \<Rightarrow> nat \<Rightarrow> nat \<Rightarrow> nat \<Rightarrow> 'r \<Rightarrow> claim \<times> 'a list \<times> 'r" where
  "spin_polls R elapsed max_polls spare batch_cap pauses polls r =
     (case claim_poll R r spare batch_cap of
        (Ready n, xs, r') \<Rightarrow> (Ready n, xs, r')
      | (ClaimClosed, xs, r') \<Rightarrow> (ClaimClosed, xs, r')
      | (ClaimEmpty, xs, r') \<Rightarrow>
          if polls \<ge> max_polls \<or> (polls AND 7 = 7 \<and> elapsed polls) then (ClaimEmpty, xs, r')
          else spin_polls R elapsed max_polls spare batch_cap
                 (min (saturating_mul_u32 pauses 2) MAX_POLL_PAUSES) (polls + 1) r')"
  by pat_completeness auto
termination
  by (relation "measure (\<lambda>(R, e, m, sp, bc, pa, p, r). m - p)") auto

declare spin_polls.simps [simp del]

definition spin_claim ::
    "('r, 'a) recv_ops \<Rightarrow> (nat \<Rightarrow> bool) \<Rightarrow> anchor_spin \<Rightarrow> 'r \<Rightarrow> nat \<Rightarrow> nat \<Rightarrow> claim \<times> 'a list \<times> 'r" where
  "spin_claim R elapsed spin r spare batch_cap =
     (if budget_us spin = 0 then (ClaimEmpty, [], r)
      else spin_polls R elapsed (budget_us spin * SPIN_ROUNDS_PER_US) spare batch_cap 1 0 r)"

definition note_park :: "anchor_spin \<Rightarrow> nat \<Rightarrow> anchor_spin" where
  "note_park spin parked =
     (if parked \<le> max_us spin * 4
      then spin\<lparr>budget_us := min (max (saturating_mul_u32 (budget_us spin) 2) (spin_initial (max_us spin))) (max_us spin)\<rparr>
      else spin\<lparr>budget_us := budget_us spin div 4\<rparr>)"

text \<open>\<open>anchor_claim\<close>: the number of claimed items, the scratch that holds them, the spin state.\<close>

definition anchor_claim ::
    "('r, 'a) recv_ops \<Rightarrow> (nat \<Rightarrow> bool) \<Rightarrow> nat \<Rightarrow> anchor_spin \<Rightarrow> 'r \<Rightarrow> nat \<Rightarrow> nat \<Rightarrow>
     nat \<times> 'a list \<times> anchor_spin \<times> 'r" where
  "anchor_claim R elapsed parked spin r spare batch_cap =
     (case claim_poll R r spare batch_cap of
        (Ready n, xs, r1) \<Rightarrow> (n, xs, spin, r1)
      | (ClaimClosed, xs, r1) \<Rightarrow> (0, xs, spin, r1)
      | (ClaimEmpty, xs, r1) \<Rightarrow>
          (case spin_claim R elapsed spin r1 spare batch_cap of
             (Ready n, ys, r2) \<Rightarrow> (n, ys, spin, r2)
           | (ClaimClosed, ys, r2) \<Rightarrow> (0, ys, spin, r2)
           | (ClaimEmpty, ys, r2) \<Rightarrow>
               (case op_recv R r2 of
                  (Inr item, r3) \<Rightarrow> (1, [item], if max_us spin > 0 then note_park spin parked else spin, r3)
                | (Inl e, r3) \<Rightarrow> (0, [], spin, r3))))"

section \<open>The worker loop\<close>

text \<open>
  The shape the stage workers and the fence forwarder share: claim a run of items, process
  it, stop when the channel is closed (\<open>True\<close>) or when processing says so (\<open>False\<close>). \<open>env k\<close>
  is the clock behaviour and the park duration of the \<open>k\<close>-th anchor.
\<close>

partial_function (option) worker_loop ::
    "('r, 'i) recv_ops \<Rightarrow> (fuse \<Rightarrow> 's \<Rightarrow> 'i list \<Rightarrow> (bool \<times> fuse \<times> 's) res) \<Rightarrow>
     (nat \<Rightarrow> (nat \<Rightarrow> bool) \<times> nat) \<Rightarrow> nat \<Rightarrow> nat \<Rightarrow> anchor_spin \<Rightarrow> fuse \<Rightarrow> 'r \<Rightarrow> 's \<Rightarrow>
     (bool \<times> fuse \<times> 'r \<times> 's) res option" where
  "worker_loop R process env claim_cap k spin f r s =
     (case anchor_claim R (fst (env k)) (snd (env k)) spin r (max claim_cap 1) claim_cap of
        (claimed, xs, spin', r') \<Rightarrow>
          if claimed = 0 then Some (Inr (True, f, r', s))
          else (case process f s xs of
                  Inl e \<Rightarrow> Some (Inl e)
                | Inr (go, f', s') \<Rightarrow>
                    if go then worker_loop R process env claim_cap (k + 1) spin' f' r' s'
                    else Some (Inr (False, f', r', s'))))"

text \<open>The per-worker share of the batch cap.\<close>

definition claim_share :: "nat \<Rightarrow> nat \<Rightarrow> nat" where
  "claim_share batch_cap n_txs =
     (let workers = max n_txs 1 in if batch_cap = 0 then 0 else max (batch_cap div workers) 1)"

section \<open>Stage workers\<close>

text \<open>Batched arm: map until cancelled, deliver what was mapped, then stop if cancelled.\<close>

fun map_claimed :: "('i \<Rightarrow> 'o) \<Rightarrow> fuse \<Rightarrow> (nat \<times> 'i) list \<Rightarrow> (nat \<times> 'o) list \<times> bool \<times> fuse" where
  "map_claimed stage f [] = ([], False, f)"
| "map_claimed stage f ((seq, item) # xs) =
     (case check_cancel f of (cancelled, f') \<Rightarrow>
        if cancelled then ([], True, f')
        else (case map_claimed stage f' xs of (ys, c, f'') \<Rightarrow> ((seq, stage item) # ys, c, f'')))"

definition stage_batched ::
    "('s, nat \<times> 'o) send_ops \<Rightarrow> ('i \<Rightarrow> 'o) \<Rightarrow> fuse \<Rightarrow> 's \<Rightarrow> (nat \<times> 'i) list \<Rightarrow> (bool \<times> fuse \<times> 's) res" where
  "stage_batched S stage f s xs =
     (case map_claimed stage f xs of (mapped, cancelled, f') \<Rightarrow>
        bind_res (send_batch S s mapped) (\<lambda>(ok, _, s'). Inr (ok \<and> \<not> cancelled, f', s')))"

text \<open>Per-item arm.\<close>

fun stage_each ::
    "('s, nat \<times> 'o) send_ops \<Rightarrow> ('i \<Rightarrow> 'o) \<Rightarrow> fuse \<Rightarrow> 's \<Rightarrow> (nat \<times> 'i) list \<Rightarrow> (bool \<times> fuse \<times> 's) res" where
  "stage_each S stage f s [] = Inr (True, f, s)"
| "stage_each S stage f s ((seq, item) # xs) =
     (case check_cancel f of (cancelled, f') \<Rightarrow>
        if cancelled then Inr (False, f', s)
        else (case op_send S s (seq, stage item) of
                (Inr _, s') \<Rightarrow> stage_each S stage f' s' xs
              | (Inl _, s') \<Rightarrow> Inr (False, f', s')))"

definition stage_worker ::
    "('r, nat \<times> 'i) recv_ops \<Rightarrow> ('s, nat \<times> 'o) send_ops \<Rightarrow> ('i \<Rightarrow> 'o) \<Rightarrow> bool \<Rightarrow>
     (nat \<Rightarrow> (nat \<Rightarrow> bool) \<times> nat) \<Rightarrow> nat \<Rightarrow> nat \<Rightarrow> fuse \<Rightarrow> 'r \<Rightarrow> 's \<Rightarrow>
     (bool \<times> fuse \<times> 'r \<times> 's) res option" where
  "stage_worker R S stage tx_batch env claim_cap max_spin f r s =
     worker_loop R (if tx_batch then stage_batched S stage else stage_each S stage) env claim_cap 0
       (spin_new max_spin) f r s"

section \<open>Expand workers\<close>

text \<open>
  Batched arm: outputs are staged and flushed whenever \<open>flush_cap\<close> of them have accumulated.
\<close>

fun expand_claimed ::
    "('s, nat \<times> 'o) send_ops \<Rightarrow> ('i \<Rightarrow> 'o list) \<Rightarrow> nat \<Rightarrow> fuse \<Rightarrow> 's \<Rightarrow> (nat \<times> 'o) list \<Rightarrow> (nat \<times> 'i) list \<Rightarrow>
     (bool \<times> bool \<times> (nat \<times> 'o) list \<times> fuse \<times> 's) res" where
  "expand_claimed S expand flush_cap f s mapped [] = Inr (True, False, mapped, f, s)"
| "expand_claimed S expand flush_cap f s mapped ((seq, item) # xs) =
     (case check_cancel f of (cancelled, f') \<Rightarrow>
        if cancelled then Inr (True, True, mapped, f', s)
        else let mapped' = mapped @ map (Pair seq) (expand item) in
          if length mapped' \<ge> flush_cap then
            bind_res (send_batch S s mapped') (\<lambda>(ok, mapped'', s').
            if ok then expand_claimed S expand flush_cap f' s' mapped'' xs
            else Inr (False, False, mapped'', f', s'))
          else expand_claimed S expand flush_cap f' s mapped' xs)"

definition expand_batched ::
    "('s, nat \<times> 'o) send_ops \<Rightarrow> ('i \<Rightarrow> 'o list) \<Rightarrow> nat \<Rightarrow> fuse \<Rightarrow> 's \<Rightarrow> (nat \<times> 'i) list \<Rightarrow> (bool \<times> fuse \<times> 's) res" where
  "expand_batched S expand flush_cap f s xs =
     bind_res (expand_claimed S expand flush_cap f s [] xs) (\<lambda>(open', cancelled, mapped, f', s').
     if \<not> open' then Inr (False, f', s')
     else bind_res (send_batch S s' mapped) (\<lambda>(ok, _, s''). Inr (ok \<and> \<not> cancelled, f', s'')))"

fun send_group :: "('s, nat \<times> 'o) send_ops \<Rightarrow> 's \<Rightarrow> nat \<Rightarrow> 'o list \<Rightarrow> bool \<times> 's" where
  "send_group S s seq [] = (True, s)"
| "send_group S s seq (n # ns) =
     (case op_send S s (seq, n) of
        (Inr _, s') \<Rightarrow> send_group S s' seq ns
      | (Inl _, s') \<Rightarrow> (False, s'))"

fun expand_each ::
    "('s, nat \<times> 'o) send_ops \<Rightarrow> ('i \<Rightarrow> 'o list) \<Rightarrow> fuse \<Rightarrow> 's \<Rightarrow> (nat \<times> 'i) list \<Rightarrow> (bool \<times> fuse \<times> 's) res" where
  "expand_each S expand f s [] = Inr (True, f, s)"
| "expand_each S expand f s ((seq, item) # xs) =
     (case check_cancel f of (cancelled, f') \<Rightarrow>
        if cancelled then Inr (False, f', s)
        else (case send_group S s seq (expand item) of (open', s') \<Rightarrow>
          if open' then expand_each S expand f' s' xs else Inr (False, f', s')))"

definition expand_worker ::
    "('r, nat \<times> 'i) recv_ops \<Rightarrow> ('s, nat \<times> 'o) send_ops \<Rightarrow> ('i \<Rightarrow> 'o list) \<Rightarrow> bool \<Rightarrow> nat \<Rightarrow>
     (nat \<Rightarrow> (nat \<Rightarrow> bool) \<times> nat) \<Rightarrow> nat \<Rightarrow> nat \<Rightarrow> fuse \<Rightarrow> 'r \<Rightarrow> 's \<Rightarrow>
     (bool \<times> fuse \<times> 'r \<times> 's) res option" where
  "expand_worker R S expand tx_batch batch_cap env claim_cap max_spin f r s =
     worker_loop R
       (if tx_batch then expand_batched S expand (max (max batch_cap claim_cap) 1) else expand_each S expand)
       env claim_cap 0 (spin_new max_spin) f r s"

section \<open>The feeder\<close>

text \<open>
  \<open>push_items\<close> with batching: stage up to \<open>cap\<close> tagged items, checking the token before each;
  send the free prefix at once; then one blocking send per item, checking the token before each.
  An abort drops the staged slots that were not sent.
\<close>

fun stage_input :: "nat \<Rightarrow> fuse \<Rightarrow> 'x list \<Rightarrow> 'x option list \<Rightarrow> bool \<times> 'x option list \<times> 'x list \<times> fuse" where
  "stage_input cap f [] staged = (False, staged, [], f)"
| "stage_input cap f (x # xs) staged =
     (case check_cancel f of (cancelled, f') \<Rightarrow>
        if cancelled then (True, staged, x # xs, f')
        else let staged' = staged @ [Some x] in
          if length staged' = cap then (False, staged', xs, f')
          else stage_input cap f' xs staged')"

lemma stage_input_rest:
  "stage_input cap f xs staged = (c, staged', rest, f') \<Longrightarrow> length rest \<le> length xs \<and>
     (\<not> c \<longrightarrow> xs \<noteq> [] \<longrightarrow> length rest < length xs)"
  by (induction xs arbitrary: f staged)
     (force simp: Let_def split: prod.splits if_splits)+

function push_rest ::
    "('s, 'x) send_ops \<Rightarrow> fuse \<Rightarrow> 's \<Rightarrow> 'x option list \<Rightarrow> nat \<Rightarrow> (bool \<times> fuse \<times> 's) res" where
  "push_rest S f s staged i =
     (if i < length staged then
        (case check_cancel f of (cancelled, f') \<Rightarrow>
           if cancelled then bind_res (drop_slots (drop i staged)) (\<lambda>_. Inr (False, f', s))
           else (case staged ! i of
                   None \<Rightarrow> Inl UninitRead
                 | Some x \<Rightarrow>
                     (case op_send S s x of
                        (Inr _, s') \<Rightarrow> push_rest S f' s' (staged[i := None]) (i + 1)
                      | (Inl _, s') \<Rightarrow>
                          bind_res (drop_slots (drop (i + 1) staged)) (\<lambda>_. Inr (False, f', s')))))
      else Inr (True, f, s))"
  by pat_completeness auto
termination
  by (relation "measure (\<lambda>(S, f, s, staged, i). length staged - i)") auto

declare push_rest.simps [simp del]

function push_batches ::
    "('s, 'x) send_ops \<Rightarrow> nat \<Rightarrow> fuse \<Rightarrow> 's \<Rightarrow> 'x list \<Rightarrow> (fuse \<times> 's) res" where
  "push_batches S cap f s xs =
     (case stage_input cap f xs [] of (cancelled, staged, rest, f1) \<Rightarrow>
        if cancelled then bind_res (drop_slots staged) (\<lambda>_. Inr (f1, s))
        else if staged = [] \<or> xs = [] then Inr (f1, s)
        else bind_res (op_try_send_batch S s staged) (\<lambda>(sent, staged', s1).
          bind_res (push_rest S f1 s1 staged' sent) (\<lambda>(go, f2, s2).
          if go then push_batches S cap f2 s2 rest else Inr (f2, s2))))"
  by pat_completeness auto
termination
  by (relation "measure (\<lambda>(S, cap, f, s, xs). length xs)") (auto dest: stage_input_rest [OF sym])

declare push_batches.simps [simp del]

fun push_each :: "('s, 'x) send_ops \<Rightarrow> fuse \<Rightarrow> 's \<Rightarrow> 'x list \<Rightarrow> fuse \<times> 's" where
  "push_each S f s [] = (f, s)"
| "push_each S f s (x # xs) =
     (case check_cancel f of (cancelled, f') \<Rightarrow>
        if cancelled then (f', s)
        else (case op_send S s x of
                (Inr _, s') \<Rightarrow> push_each S f' s' xs
              | (Inl _, s') \<Rightarrow> (f', s')))"

definition push_items ::
    "('s, nat \<times> 'i) send_ops \<Rightarrow> nat \<Rightarrow> fuse \<Rightarrow> 's \<Rightarrow> 'i list \<Rightarrow> (fuse \<times> 's) res" where
  "push_items S cap f s items =
     (if cap = 0 then Inr (push_each S f s (enumerate 0 items))
      else push_batches S cap f s (enumerate 0 items))"

end
