(* ===== verification/Stage_Props.thy ===== *)
theory Stage_Props
  imports Stage_Loops
begin

text \<open>
  What the worker loops do: every loop delivers, in order, the results of exactly the items it
  claimed before it saw the cancellation, whatever the claim sizes, the spinning, the schedule
  of the other side and the batching of the sends.
\<close>

section \<open>Claims\<close>

context receiver
begin

lemma spin_polls_ok:
  "spin_polls R el mp sp cap pa p r = (c, xs, r') \<Longrightarrow> claim_ok c xs r r'"
proof (induction "mp - p" arbitrary: p pa r)
  case 0
  obtain c1 ys r1 where q: "claim_poll R r sp cap = (c1, ys, r1)" by (cases "claim_poll R r sp cap")
  from claim_poll_ok [OF q] 0 q show ?case
    by (auto simp: spin_polls.simps [of R el mp sp cap pa p r] split: claim.splits)
next
  case (Suc d)
  obtain c1 ys r1 where q: "claim_poll R r sp cap = (c1, ys, r1)" by (cases "claim_poll R r sp cap")
  note ok = claim_poll_ok [OF q]
  show ?case
  proof (cases "c1 = ClaimEmpty \<and> \<not> (p AND 7 = 7 \<and> el p)")
    case False
    with Suc q ok show ?thesis
      by (auto simp: spin_polls.simps [of R el mp sp cap pa p r] split: claim.splits if_splits)
  next
    case True
    have "\<not> mp \<le> p" "d = mp - (p + 1)" using Suc.hyps(2) by simp_all
    with Suc.prems q True have "spin_polls R el mp sp cap (min (saturating_mul_u32 pa 2) MAX_POLL_PAUSES)
        (p + 1) r1 = (c, xs, r')" by (auto simp: spin_polls.simps [of R el mp sp cap pa p r])
    from Suc.hyps(1) [OF \<open>d = mp - (p + 1)\<close> this] have "claim_ok c xs r1 r'" .
    moreover have "remaining r1 = remaining r" using ok True by (simp add: claim_ok_def)
    ultimately show ?thesis by (simp add: claim_ok_def split: claim.splits)
  qed
qed

lemma spin_claim_ok:
  "spin_claim R el spin r sp cap = (c, xs, r') \<Longrightarrow> claim_ok c xs r r'"
  by (auto simp: spin_claim_def claim_ok_def split: if_splits dest!: spin_polls_ok)

text \<open>The anchor claims a prefix; it claims nothing only when nothing is left.\<close>

lemma anchor_claim_ok:
  assumes "anchor_claim R el pk spin r sp cap = (n, xs, spin', r')"
  shows "remaining r = xs @ remaining r' \<and> n = length xs \<and> (n = 0 \<longrightarrow> remaining r = [])"
proof -
  obtain c1 ys r1 where q: "claim_poll R r sp cap = (c1, ys, r1)" by (cases "claim_poll R r sp cap")
  obtain c2 zs r2 where q2: "spin_claim R el spin r1 sp cap = (c2, zs, r2)"
    by (cases "spin_claim R el spin r1 sp cap")
  obtain res r3 where q3: "op_recv R r2 = (res, r3)" by fastforce
  note ok = claim_poll_ok [OF q] spin_claim_ok [OF q2]
  show ?thesis
    using assms q q2 q3 ok recv_ok [of r2 _ r3] recv_closed [of r2 _ r3]
    by (cases c1; cases c2; cases res) (auto simp: anchor_claim_def claim_ok_def)
qed

text \<open>
  Invariants of a worker loop: \<open>Q\<close> relates the items consumed so far to the state while the
  loop goes on, \<open>E\<close> when processing stopped it.
\<close>

lemma worker_loop_inv:
  assumes step: "\<And>items f s xs. Q items f s \<Longrightarrow> xs \<noteq> [] \<Longrightarrow>
      \<exists>go f' s'. process f s xs = Inr (go, f', s') \<and> (if go then Q (items @ xs) f' s' else E (items @ xs) f' s')"
    and "Q items f s"
  shows "\<exists>eof f' r' s' zs. worker_loop R process env cap k spin f r s = Some (Inr (eof, f', r', s')) \<and>
      remaining r = zs @ remaining r' \<and> (eof \<longrightarrow> remaining r' = []) \<and>
      (if eof then Q (items @ zs) f' s' else E (items @ zs) f' s')"
  using assms(2)
proof (induction "length (remaining r)" arbitrary: r items f s k spin rule: less_induct)
  case less
  obtain n xs spin' r1 where
    a: "anchor_claim R (fst (env k)) (snd (env k)) spin r (max cap 1) cap = (n, xs, spin', r1)"
    by (metis prod_cases4)
  note ok = anchor_claim_ok [OF a]
  show ?case
  proof (cases "n = 0")
    case True
    then have "worker_loop R process env cap k spin f r s = Some (Inr (True, f, r1, s))"
      using a by (subst worker_loop.simps) simp
    with ok True less.prems show ?thesis
      by (intro exI [of _ True] exI [of _ f] exI [of _ r1] exI [of _ s] exI [of _ "[]"]) auto
  next
    case False
    then have xs: "xs \<noteq> []" using ok by auto
    from step [OF less.prems this] obtain go f' s' where
      p: "process f s xs = Inr (go, f', s')" "if go then Q (items @ xs) f' s' else E (items @ xs) f' s'" by blast
    have unf: "worker_loop R process env cap k spin f r s =
        (if go then worker_loop R process env cap (k + 1) spin' f' r1 s' else Some (Inr (False, f', r1, s')))"
      using a False p(1) by (subst worker_loop.simps) simp
    show ?thesis
    proof (cases go)
      case False
      with unf p ok show ?thesis
        by (intro exI [of _ False] exI [of _ f'] exI [of _ r1] exI [of _ s'] exI [of _ xs]) simp
    next
      case True
      have "length (remaining r1) < length (remaining r)" "Q (items @ xs) f' s'" using ok xs True p(2) by auto
      from less.hyps [OF this, of "k + 1" spin'] obtain eof f2 r2 s2 zs where
        h: "worker_loop R process env cap (k + 1) spin' f' r1 s' = Some (Inr (eof, f2, r2, s2))"
          "remaining r1 = zs @ remaining r2" "eof \<longrightarrow> remaining r2 = []"
          "if eof then Q ((items @ xs) @ zs) f2 s2 else E ((items @ xs) @ zs) f2 s2" by blast
      with unf True ok show ?thesis
        by (intro exI [of _ eof] exI [of _ f2] exI [of _ r2] exI [of _ s2] exI [of _ "xs @ zs"])
           (auto split: if_splits)
    qed
  qed
qed

end

section \<open>The items before the cancellation\<close>

text \<open>The items whose check precedes the cancellation, and the fuse after \<open>n\<close> checks.\<close>

definition upto_cancel :: "fuse \<Rightarrow> 'x list \<Rightarrow> 'x list" where
  "upto_cancel f xs = (case f of None \<Rightarrow> xs | Some m \<Rightarrow> take m xs)"

definition burn :: "fuse \<Rightarrow> nat \<Rightarrow> fuse" where
  "burn f n = map_option (\<lambda>m. m - n) f"

lemma upto_cancel_simps [simp]:
  "upto_cancel None xs = xs" "upto_cancel f [] = []" "upto_cancel (Some 0) xs = []" "upto_cancel (Some (Suc m)) (x # xs) = x # upto_cancel (Some m) xs"
  by (simp_all add: upto_cancel_def split: option.splits)

lemma burn_simps [simp]: "burn None n = None" "burn f 0 = f" "burn (Some (Suc m)) (Suc n) = burn (Some m) n"
  by (simp_all add: burn_def option.map_ident)

lemma burn_add [simp]: "burn (burn f a) b = burn f (a + b)"
  by (cases f) (simp_all add: burn_def)

lemma upto_cancel_append: "upto_cancel f (xs @ ys) = upto_cancel f xs @ upto_cancel (burn f (length xs)) ys"
  by (cases f) (simp_all add: upto_cancel_def burn_def)

text \<open>The cancellation is seen while these items are processed.\<close>

definition cancel_hit :: "fuse \<Rightarrow> 'x list \<Rightarrow> bool" where
  "cancel_hit f xs = (case f of None \<Rightarrow> False | Some m \<Rightarrow> m < length xs)"

lemma cancel_hit_simps [simp]:
  "\<not> cancel_hit None xs" "\<not> cancel_hit f []" "cancel_hit (Some 0) (x # xs)"
  "cancel_hit (Some (Suc m)) (x # xs) \<longleftrightarrow> cancel_hit (Some m) xs"
  by (auto simp: cancel_hit_def split: option.splits)

lemma not_hit_upto: "\<not> cancel_hit f xs \<Longrightarrow> upto_cancel f xs = xs"
  by (auto simp: cancel_hit_def upto_cancel_def split: option.splits)

lemma hit_append: "cancel_hit f (xs @ ys) \<longleftrightarrow> cancel_hit f xs \<or> cancel_hit (burn f (length xs)) ys"
  by (auto simp: cancel_hit_def burn_def split: option.splits)

lemma hit_upto: "cancel_hit f xs \<Longrightarrow> upto_cancel f (xs @ ys) = upto_cancel f xs"
  by (auto simp: cancel_hit_def upto_cancel_def split: option.splits)

lemma check_cancel_cases:
  obtains (fired) "f = Some 0" "check_cancel f = (True, f)"
  | (quiet) "check_cancel f = (False, burn f 1)"
    "upto_cancel f (x # xs) = x # upto_cancel (burn f 1) xs"
    "cancel_hit f (x # xs) \<longleftrightarrow> cancel_hit (burn f 1) xs"
proof (cases f)
  case (Some m)
  then show thesis using fired quiet
    by (cases m) (auto simp: burn_def cancel_hit_def upto_cancel_def)
qed (use quiet in simp)

section \<open>Stage and expand workers\<close>

locale stage_io = receiver R remaining + sender S delivered gone
  for R :: "('r, nat \<times> 'i) recv_ops" and remaining
    and S :: "('s, nat \<times> 'o) send_ops" and delivered and gone
begin

text \<open>
  What processing one claimed run must do, for the outputs \<open>g\<close> of an item: either everything
  is delivered and no cancellation was seen, or a prefix of the outputs of the uncancelled
  items is delivered, all of them unless the receivers are gone.
\<close>

definition proc_post ::
    "(nat \<times> 'i \<Rightarrow> (nat \<times> 'o) list) \<Rightarrow> fuse \<Rightarrow> 's \<Rightarrow> (nat \<times> 'i) list \<Rightarrow> bool \<times> fuse \<times> 's \<Rightarrow> bool" where
  "proc_post g f s xs res \<longleftrightarrow> (case res of (go, f', s') \<Rightarrow>
     \<exists>k. let outs = concat (map g (upto_cancel f xs)) in
       k \<le> length outs \<and> delivered s' = delivered s @ take k outs \<and> (k = length outs \<or> gone s') \<and>
       (go \<longrightarrow> k = length outs \<and> \<not> cancel_hit f xs \<and> f' = burn f (length xs)) \<and>
       (\<not> go \<longrightarrow> gone s' \<or> cancel_hit f xs))"

definition proc_ok ::
    "(nat \<times> 'i \<Rightarrow> (nat \<times> 'o) list) \<Rightarrow> (fuse \<Rightarrow> 's \<Rightarrow> (nat \<times> 'i) list \<Rightarrow> (bool \<times> fuse \<times> 's) res) \<Rightarrow> bool" where
  "proc_ok g process \<longleftrightarrow> (\<forall>f s xs. \<exists>res. process f s xs = Inr res \<and> proc_post g f s xs res)"

text \<open>
  The loops' contract: the delivered items are the outputs of the items before the
  cancellation, all of them unless the receivers are gone.
\<close>

definition emitted_ok ::
    "(nat \<times> 'i \<Rightarrow> (nat \<times> 'o) list) \<Rightarrow> fuse \<Rightarrow> 's \<Rightarrow> (nat \<times> 'i) list \<Rightarrow> 's \<Rightarrow> bool" where
  "emitted_ok g f s items s' \<longleftrightarrow> (\<exists>k. let outs = concat (map g (upto_cancel f items)) in
     k \<le> length outs \<and> delivered s' = delivered s @ take k outs \<and> (k = length outs \<or> gone s'))"

lemma emitted_ok_stop:
  assumes "emitted_ok g f s xs s'" "gone s' \<or> cancel_hit f xs"
  shows "emitted_ok g f s (xs @ ys) s'"
proof -
  let ?a = "concat (map g (upto_cancel f xs))"
  from assms(1) obtain k where k: "k \<le> length ?a" "delivered s' = delivered s @ take k ?a" "k = length ?a \<or> gone s'"
    by (auto simp: emitted_ok_def Let_def)
  show ?thesis
  proof (cases "cancel_hit f xs")
    case True
    with assms(1) show ?thesis by (simp add: emitted_ok_def hit_upto)
  next
    case False
    with assms(2) k show ?thesis unfolding emitted_ok_def Let_def
      by (intro exI [of _ k]) (simp add: upto_cancel_append)
  qed
qed

lemma emitted_ok_trans:
  assumes "upto_cancel f items = items" "delivered s1 = delivered s @ concat (map g items)"
    and "emitted_ok g (burn f (length items)) s1 xs s'"
  shows "emitted_ok g f s (items @ xs) s'"
proof -
  let ?a = "concat (map g items)" and ?b = "concat (map g (upto_cancel (burn f (length items)) xs))"
  from assms(3) obtain k where k: "k \<le> length ?b" "delivered s' = delivered s1 @ take k ?b" "k = length ?b \<or> gone s'"
    by (auto simp: emitted_ok_def Let_def)
  with assms(1,2) show ?thesis unfolding emitted_ok_def Let_def
    by (intro exI [of _ "length ?a + k"]) (auto simp: upto_cancel_append)
qed

lemma worker_loop_emits:
  assumes "proc_ok g process"
  shows "\<exists>eof f' r' s'. worker_loop R process env cap k spin f r s = Some (Inr (eof, f', r', s')) \<and>
     emitted_ok g f s (remaining r) s' \<and> (eof \<longrightarrow> remaining r' = [])"
proof -
  let ?Q = "\<lambda>items f' s'. \<not> cancel_hit f items \<and> f' = burn f (length items) \<and>
    delivered s' = delivered s @ concat (map g items)"
  let ?E = "\<lambda>items f' s'. emitted_ok g f s items s' \<and> (gone s' \<or> cancel_hit f items)"
  have step: "\<exists>go f2 s2. process f1 s1 xs = Inr (go, f2, s2) \<and> (if go then ?Q (items @ xs) f2 s2 else ?E (items @ xs) f2 s2)"
    if q: "?Q items f1 s1" and "xs \<noteq> []" for items f1 s1 xs
  proof -
    from assms obtain go f2 s2 where p: "process f1 s1 xs = Inr (go, f2, s2)" "proc_post g f1 s1 xs (go, f2, s2)"
      unfolding proc_ok_def by (metis prod_cases3)
    have em: "emitted_ok g f1 s1 xs s2" using p(2) by (auto simp: proc_post_def emitted_ok_def Let_def)
    have up: "upto_cancel f items = items" using q by (simp add: not_hit_upto)
    have "if go then ?Q (items @ xs) f2 s2 else ?E (items @ xs) f2 s2"
    proof (cases go)
      case True
      with p(2) q show ?thesis by (auto simp: proc_post_def Let_def hit_append not_hit_upto)
    next
      case False
      with p(2) q em emitted_ok_trans [OF up, of s1 s g xs s2] show ?thesis
        by (auto simp: proc_post_def Let_def hit_append)
    qed
    with p(1) show ?thesis by blast
  qed
  have "?Q [] f s" by simp
  from worker_loop_inv [where Q = ?Q and E = ?E and process = process and env = env and cap = cap and k = k and spin = spin and r = r, OF step this]
  obtain eof f' r' s' zs where
    w: "worker_loop R process env cap k spin f r s = Some (Inr (eof, f', r', s'))"
      "remaining r = zs @ remaining r'" "eof \<longrightarrow> remaining r' = []"
      "if eof then ?Q ([] @ zs) f' s' else ?E ([] @ zs) f' s'" by blast
  have "emitted_ok g f s (remaining r) s'"
  proof (cases eof)
    case True
    with w show ?thesis by (auto simp: emitted_ok_def Let_def not_hit_upto)
  qed (use w emitted_ok_stop in auto)
  with w show ?thesis by blast
qed

text \<open>The batched arms send what they mapped with one batch send.\<close>

lemma send_mapped_post:
  assumes "outs = concat (map g (upto_cancel f xs))" "f' = burn f (length xs)"
  shows "\<exists>ok rest s'. send_batch S s outs = Inr (ok, rest, s') \<and>
    proc_post g f s xs (ok \<and> \<not> cancel_hit f xs, f', s')"
proof -
  from send_batch_spec [of s outs] obtain k s' where
    k: "send_batch S s outs = Inr (k = length outs, [], s')" "k \<le> length outs"
      "delivered s' = delivered s @ take k outs" "k = length outs \<or> gone s'" by blast
  then have "proc_post g f s xs (k = length outs \<and> \<not> cancel_hit f xs, f', s')"
    using assms by (auto simp: proc_post_def Let_def)
  with k show ?thesis by blast
qed

abbreviation stage_out :: "('i \<Rightarrow> 'o) \<Rightarrow> nat \<times> 'i \<Rightarrow> (nat \<times> 'o) list" where
  "stage_out stage \<equiv> \<lambda>qx. [(fst qx, stage (snd qx))]"

lemma map_claimed_spec:
  "map_claimed stage f xs
     = (concat (map (stage_out stage) (upto_cancel f xs)), cancel_hit f xs, burn f (length xs))"
proof (induction xs arbitrary: f)
  case (Cons qx xs)
  obtain q x where qx: "qx = (q, x)" by (cases qx)
  show ?case
  proof (cases rule: check_cancel_cases [of f _ qx xs])
    case fired
    then show ?thesis by (simp add: qx burn_def)
  next
    case quiet
    with Cons.IH [of "burn f 1"] show ?thesis by (simp add: qx)
  qed
qed simp

lemma stage_batched_ok: "proc_ok (stage_out stage) (stage_batched S stage)"
  unfolding proc_ok_def
proof (intro allI)
  fix f s and xs :: "(nat \<times> 'i) list"
  from send_mapped_post [where g = "stage_out stage" and f = f and xs = xs and s = s, OF refl refl] obtain ok rest s' where
    "send_batch S s (concat (map (stage_out stage) (upto_cancel f xs))) = Inr (ok, rest, s')"
    "proc_post (stage_out stage) f s xs (ok \<and> \<not> cancel_hit f xs, burn f (length xs), s')" by blast
  then show "\<exists>res. stage_batched S stage f s xs = Inr res \<and> proc_post (stage_out stage) f s xs res"
    by (simp add: stage_batched_def map_claimed_spec)
qed

text \<open>A quiet check, one item's outputs delivered, then the rest of the run.\<close>

lemma proc_post_Cons:
  assumes "upto_cancel f (x # xs) = x # upto_cancel (burn f 1) xs"
    and "cancel_hit f (x # xs) \<longleftrightarrow> cancel_hit (burn f 1) xs"
    and "delivered s1 = delivered s @ g x" and "proc_post g (burn f 1) s1 xs res"
  shows "proc_post g f s (x # xs) res"
proof -
  obtain go f' s' where res: "res = (go, f', s')" by (cases res)
  let ?b = "concat (map g (upto_cancel (burn f 1) xs))"
  from assms(4) res obtain k where
    k: "k \<le> length ?b" "delivered s' = delivered s1 @ take k ?b" "k = length ?b \<or> gone s'"
      "go \<longrightarrow> k = length ?b \<and> \<not> cancel_hit (burn f 1) xs \<and> f' = burn (burn f 1) (length xs)"
      "\<not> go \<longrightarrow> gone s' \<or> cancel_hit (burn f 1) xs"
    by (auto simp: proc_post_def Let_def)
  then show ?thesis using assms(1-3) res unfolding proc_post_def Let_def
    by (simp del: length_concat) (intro exI [of _ "length (g x) + k"], auto)
qed

lemma proc_post_stop:
  assumes "\<not> cancel_hit f (x # xs) \<longrightarrow> gone s'" "delivered s' = delivered s @ take k (g x)" "gone s'"
    "upto_cancel f (x # xs) = x # ys"
  shows "proc_post g f s (x # xs) (False, f', s')"
  using assms unfolding proc_post_def Let_def
  by (auto intro!: exI [of _ "min k (length (g x))"] simp: min_def)

lemma proc_post_fired: "f = Some 0 \<Longrightarrow> proc_post g f s (x # xs) (False, f', s)"
  by (simp add: proc_post_def)

lemma stage_each_post: "\<exists>res. stage_each S stage f s xs = Inr res \<and> proc_post (stage_out stage) f s xs res"
proof (induction xs arbitrary: f s)
  case Nil
  then show ?case by (simp add: proc_post_def)
next
  case (Cons qx xs)
  obtain q x where qx: "qx = (q, x)" by (cases qx)
  show ?case
  proof (cases rule: check_cancel_cases [of f _ qx xs])
    case fired
    then show ?thesis using proc_post_fired [of f "stage_out stage" s "(q, x)" xs f] by (simp add: qx)
  next
    case quiet
    obtain res s1 where o: "op_send S s (q, stage x) = (res, s1)" by fastforce
    show ?thesis
    proof (cases res)
      case (Inl e)
      with o have "delivered s1 = delivered s" "gone s1" using send_closed by blast+
      with Inl o quiet proc_post_stop [of f "(q, x)" xs s1 s 0 "stage_out stage" _ "burn f 1"]
      show ?thesis by (simp add: qx)
    next
      case (Inr u)
      with o have "delivered s1 = delivered s @ stage_out stage (q, x)" using send_ok by fastforce
      moreover from Cons.IH [of "burn f 1" s1] obtain res where
        "stage_each S stage (burn f 1) s1 xs = Inr res" "proc_post (stage_out stage) (burn f 1) s1 xs res" by blast
      ultimately show ?thesis
        using Inr o quiet proc_post_Cons [of f "(q, x)" xs s1 s "stage_out stage" res] by (simp add: qx)
    qed
  qed
qed

lemma stage_each_ok: "proc_ok (stage_out stage) (stage_each S stage)"
  unfolding proc_ok_def using stage_each_post by blast

subsection \<open>Expansion\<close>

abbreviation expand_out :: "('i \<Rightarrow> 'o list) \<Rightarrow> nat \<times> 'i \<Rightarrow> (nat \<times> 'o) list" where
  "expand_out expand \<equiv> \<lambda>qx. map (Pair (fst qx)) (expand (snd qx))"

lemma send_group_spec:
  "\<exists>ok k s'. send_group S s q ns = (ok, s') \<and> k \<le> length ns \<and>
     delivered s' = delivered s @ take k (map (Pair q) ns) \<and> (if ok then k = length ns else gone s')"
proof (induction ns arbitrary: s)
  case (Cons n ns)
  obtain res s1 where o: "op_send S s (q, n) = (res, s1)" by fastforce
  show ?case
  proof (cases res)
    case (Inl e)
    with o send_closed [of s "(q, n)" e s1] show ?thesis
      by (intro exI [of _ False] exI [of _ 0] exI [of _ s1]) simp
  next
    case (Inr u)
    with o send_ok [of s "(q, n)" s1] have d: "delivered s1 = delivered s @ [(q, n)]" by simp
    from Cons.IH [of s1] obtain ok k s' where
      "send_group S s1 q ns = (ok, s')" "k \<le> length ns"
      "delivered s' = delivered s1 @ take k (map (Pair q) ns)" "if ok then k = length ns else gone s'" by blast
    with o Inr d show ?thesis
      by (intro exI [of _ ok] exI [of _ "Suc k"] exI [of _ s']) simp
  qed
qed auto

lemma expand_each_post:
  "\<exists>res. expand_each S expand f s xs = Inr res \<and> proc_post (expand_out expand) f s xs res"
proof (induction xs arbitrary: f s)
  case Nil
  then show ?case by (simp add: proc_post_def)
next
  case (Cons qx xs)
  obtain q x where qx: "qx = (q, x)" by (cases qx)
  show ?case
  proof (cases rule: check_cancel_cases [of f _ qx xs])
    case fired
    then show ?thesis using proc_post_fired [of f "expand_out expand" s "(q, x)" xs f] by (simp add: qx)
  next
    case quiet
    from send_group_spec [of s q "expand x"] obtain ok k s1 where
      g: "send_group S s q (expand x) = (ok, s1)" "k \<le> length (expand x)"
        "delivered s1 = delivered s @ take k (expand_out expand (q, x))"
        "if ok then k = length (expand x) else gone s1" by auto
    show ?thesis
    proof (cases ok)
      case False
      with g quiet proc_post_stop [of f "(q, x)" xs s1 s k "expand_out expand" _ "burn f 1"]
      show ?thesis by (simp add: qx)
    next
      case True
      with g have "delivered s1 = delivered s @ expand_out expand (q, x)" by simp
      moreover from Cons.IH [of "burn f 1" s1] obtain res where
        "expand_each S expand (burn f 1) s1 xs = Inr res" "proc_post (expand_out expand) (burn f 1) s1 xs res" by blast
      ultimately show ?thesis
        using True g(1) quiet proc_post_Cons [of f "(q, x)" xs s1 s "expand_out expand" res] by (simp add: qx)
    qed
  qed
qed

lemma expand_each_ok: "proc_ok (expand_out expand) (expand_each S expand)"
  unfolding proc_ok_def using expand_each_post by blast

definition expand_post ::
    "('i \<Rightarrow> 'o list) \<Rightarrow> fuse \<Rightarrow> 's \<Rightarrow> (nat \<times> 'o) list \<Rightarrow> (nat \<times> 'i) list \<Rightarrow>
     bool \<times> bool \<times> (nat \<times> 'o) list \<times> fuse \<times> 's \<Rightarrow> bool" where
  "expand_post expand f s mapped xs res \<longleftrightarrow> (case res of (op, c, mapped', f', s') \<Rightarrow>
     let outs = mapped @ concat (map (expand_out expand) (upto_cancel f xs)) in
     \<exists>k \<le> length outs. delivered s' = delivered s @ take k outs \<and> (\<not> op \<longrightarrow> gone s') \<and>
       (op \<longrightarrow> mapped' = drop k outs \<and> c = cancel_hit f xs \<and> f' = burn f (length xs)))"

lemma expand_claimed_spec:
  "\<exists>res. expand_claimed S expand cap f s mapped xs = Inr res \<and> expand_post expand f s mapped xs res"
proof (induction xs arbitrary: f s mapped)
  case Nil
  show ?case by (auto simp: expand_post_def Let_def intro!: exI [of _ 0])
next
  case (Cons qx xs)
  obtain q x where qx: "qx = (q, x)" by (cases qx)
  show ?case
  proof (cases rule: check_cancel_cases [of f _ qx xs])
    case fired
    then show ?thesis by (auto simp: qx burn_def expand_post_def Let_def intro!: exI [of _ 0])
  next
    case quiet
    let ?m = "mapped @ expand_out expand (q, x)"
    have outs: "mapped @ concat (map (expand_out expand) (upto_cancel f (qx # xs)))
        = ?m @ concat (map (expand_out expand) (upto_cancel (burn f 1) xs))" using quiet qx by simp
    show ?thesis
    proof (cases "length ?m \<ge> cap")
      case False
      then have "expand_claimed S expand cap f s mapped (qx # xs)
          = expand_claimed S expand cap (burn f 1) s ?m xs" using quiet by (simp add: qx)
      with Cons.IH [of "burn f 1" s ?m] quiet outs show ?thesis by (simp add: expand_post_def)
    next
      case True
      from send_batch_spec [of s ?m] obtain k s1 where
        k: "send_batch S s ?m = Inr (k = length ?m, [], s1)" "k \<le> length ?m"
          "delivered s1 = delivered s @ take k ?m" "k = length ?m \<or> gone s1" by blast
      show ?thesis
      proof (cases "k = length ?m")
        case False
        have eq: "expand_claimed S expand cap f s mapped (qx # xs) = Inr (False, False, [], burn f 1, s1)"
          using quiet True k(1) False by (simp add: qx)
        have "gone s1" "take k ?m = take k (?m @ concat (map (expand_out expand) (upto_cancel (burn f 1) xs)))"
          using k(2,4) False by simp_all
        with eq outs k(2,3) show ?thesis unfolding expand_post_def Let_def outs
          by (intro exI [of _ "(False, False, [], burn f 1, s1)"]) (auto intro!: exI [of _ k])
      next
        case all: True
        have eq: "expand_claimed S expand cap f s mapped (qx # xs)
            = expand_claimed S expand cap (burn f 1) s1 [] xs" using quiet True k(1) all by (simp add: qx)
        from Cons.IH [of "burn f 1" s1 "[]"] obtain op c mapped' f' s' where
          h: "expand_claimed S expand cap (burn f 1) s1 [] xs = Inr (op, c, mapped', f', s')"
            "expand_post expand (burn f 1) s1 [] xs (op, c, mapped', f', s')" by (metis prod_cases5)
        let ?o = "concat (map (expand_out expand) (upto_cancel (burn f 1) xs))"
        from h(2) obtain j where j: "j \<le> length ?o" "delivered s' = delivered s1 @ take j ?o" "\<not> op \<longrightarrow> gone s'"
          "op \<longrightarrow> mapped' = drop j ?o \<and> c = cancel_hit (burn f 1) xs \<and> f' = burn (burn f 1) (length xs)"
          by (auto simp: expand_post_def Let_def)
        then have "expand_post expand f s mapped (qx # xs) (op, c, mapped', f', s')"
          using k(3) all quiet(3) unfolding expand_post_def Let_def outs
          by (auto intro!: exI [of _ "length ?m + j"])
        with h(1) eq show ?thesis by auto
      qed
    qed
  qed
qed

lemma expand_batched_ok: "proc_ok (expand_out expand) (expand_batched S expand cap)"
  unfolding proc_ok_def
proof (intro allI)
  fix f s and xs :: "(nat \<times> 'i) list"
  let ?o = "concat (map (expand_out expand) (upto_cancel f xs))"
  from expand_claimed_spec [of expand cap f s "[]" xs] obtain op c mapped f' s1 where
    h: "expand_claimed S expand cap f s [] xs = Inr (op, c, mapped, f', s1)"
      "expand_post expand f s [] xs (op, c, mapped, f', s1)" by (metis prod_cases5)
  then obtain i where i: "i \<le> length ?o" "delivered s1 = delivered s @ take i ?o" "\<not> op \<longrightarrow> gone s1"
      "op \<longrightarrow> mapped = drop i ?o \<and> c = cancel_hit f xs \<and> f' = burn f (length xs)"
    by (auto simp: expand_post_def Let_def)
  show "\<exists>res. expand_batched S expand cap f s xs = Inr res \<and> proc_post (expand_out expand) f s xs res"
  proof (cases op)
    case False
    then have "expand_batched S expand cap f s xs = Inr (False, f', s1)"
      using h(1) by (simp add: expand_batched_def)
    moreover have "proc_post (expand_out expand) f s xs (False, f', s1)"
      using i False by (auto simp: proc_post_def Let_def)
    ultimately show ?thesis by blast
  next
    case True
    from send_batch_spec [of s1 mapped] obtain k s2 where
      k: "send_batch S s1 mapped = Inr (k = length mapped, [], s2)" "k \<le> length mapped"
        "delivered s2 = delivered s1 @ take k mapped" "k = length mapped \<or> gone s2" by blast
    have "delivered s2 = delivered s @ take (i + k) ?o" "i + k \<le> length ?o" "i + k = length ?o \<longleftrightarrow> k = length mapped"
      using i k True by (auto simp: take_add)
    then have "proc_post (expand_out expand) f s xs (k = length mapped \<and> \<not> c, f', s2)"
      using i True k(4) unfolding proc_post_def Let_def by (auto intro!: exI [of _ "i + k"])
    moreover have "expand_batched S expand cap f s xs = Inr (k = length mapped \<and> \<not> c, f', s2)"
      using h(1) True k(1) by (simp add: expand_batched_def)
    ultimately show ?thesis by blast
  qed
qed

end

end
