(* ===== verification/Stage_Claims.thy ===== *)
theory Stage_Claims
  imports Stage_Props
begin

text \<open>
  The feeder's contract, and the properties of the stage workers and the feeder on the
  channel endpoints.
\<close>

section \<open>The feeder\<close>

lemma stage_input_spec:
  assumes "stage_input cap f xs staged = (c, staged', rest, f')"
  shows "\<exists>ys. xs = ys @ rest \<and> staged' = staged @ map Some ys \<and> (f = None \<longrightarrow> \<not> c \<and> f' = None) \<and>
     (\<not> c \<longrightarrow> xs \<noteq> [] \<longrightarrow> ys \<noteq> [])"
  using assms
proof (induction xs arbitrary: f staged)
  case (Cons x xs)
  show ?case
  proof (cases rule: check_cancel_cases [of f _ x xs])
    case fired
    with Cons.prems show ?thesis by auto
  next
    case quiet
    show ?thesis
    proof (cases "length (staged @ [Some x]) = cap")
      case True
      with Cons.prems quiet show ?thesis by (intro exI [of _ "[x]"]) (auto simp: burn_def)
    next
      case False
      with Cons.prems quiet have "stage_input cap (burn f 1) xs (staged @ [Some x]) = (c, staged', rest, f')"
        by simp
      from Cons.IH [OF this] show ?thesis by (force simp: burn_def)
    qed
  qed
qed simp

context sender
begin

lemma push_rest_spec:
  assumes "i \<le> length xs"
  shows "\<exists>go k f' s'. push_rest S f s (replicate i None @ map Some (drop i xs)) i = Inr (go, f', s') \<and>
      i \<le> k \<and> k \<le> length xs \<and> delivered s' = delivered s @ take (k - i) (drop i xs) \<and>
      (go \<longrightarrow> k = length xs) \<and> (f = None \<longrightarrow> f' = None \<and> (go \<or> gone s'))"
  using assms
proof (induction "length xs - i" arbitrary: i f s)
  case 0
  then show ?case by (auto simp: push_rest.simps [of S f s])
next
  case (Suc d)
  let ?st = "replicate i None @ map Some (drop i xs)"
  have lt: "i < length xs" using Suc.hyps by simp
  have nth: "?st ! i = Some (xs ! i)" "i < length ?st" using lt by (simp_all add: nth_append)
  have split: "drop i xs = xs ! i # drop (Suc i) xs" using lt by (simp add: Cons_nth_drop_Suc)
  have upd: "?st[i := None] = replicate (Suc i) None @ map Some (drop (Suc i) xs)"
    by (simp add: split list_update_append replicate_app_Cons_same)
  show ?case
  proof (cases rule: check_cancel_cases [of f _ "xs ! i" "[]"])
    case fired
    have "push_rest S f s ?st i = Inr (False, f, s)"
      using nth(2) fired(2) by (subst push_rest.simps) (simp add: drop_slots_some)
    with fired lt show ?thesis by (intro exI [of _ False] exI [of _ i] exI [of _ f] exI [of _ s]) simp
  next
    case quiet
    obtain res s1 where o: "op_send S s (xs ! i) = (res, s1)" by fastforce
    show ?thesis
    proof (cases res)
      case (Inl e)
      then have "push_rest S f s ?st i = Inr (False, burn f 1, s1)"
        using o nth split quiet by (simp add: push_rest.simps [of S f s] drop_slots_some)
      moreover have "delivered s1 = delivered s" "gone s1" using send_closed [of s "xs ! i" e s1] o Inl by simp_all
      ultimately show ?thesis using lt
        by (intro exI [of _ False] exI [of _ i] exI [of _ "burn f 1"] exI [of _ s1]) (simp add: burn_def)
    next
      case (Inr u)
      have step: "push_rest S f s ?st i
          = push_rest S (burn f 1) s1 (replicate (Suc i) None @ map Some (drop (Suc i) xs)) (Suc i)"
        using Inr o nth upd quiet by (simp add: push_rest.simps [of S f s])
      have del: "delivered s1 = delivered s @ [xs ! i]" using send_ok [of s "xs ! i" s1] o Inr by simp
      have "d = length xs - Suc i" "Suc i \<le> length xs" using Suc.hyps(2) lt by simp_all
      from Suc.hyps(1) [OF this, of "burn f 1" s1] obtain go k f' s' where
        k: "push_rest S (burn f 1) s1 (replicate (Suc i) None @ map Some (drop (Suc i) xs)) (Suc i) = Inr (go, f', s')"
          "Suc i \<le> k" "k \<le> length xs" "delivered s' = delivered s1 @ take (k - Suc i) (drop (Suc i) xs)"
          "go \<longrightarrow> k = length xs" "burn f 1 = None \<longrightarrow> f' = None \<and> (go \<or> gone s')"
        by (elim exE conjE) (rule that)
      have "take (k - i) (drop i xs) = xs ! i # take (k - Suc i) (drop (Suc i) xs)"
        using split k(2) by (simp add: take_Cons')
      with k step del show ?thesis
        by (intro exI [of _ go] exI [of _ k] exI [of _ f'] exI [of _ s']) (simp add: burn_def)
    qed
  qed
qed

definition pushed :: "fuse \<Rightarrow> 's \<Rightarrow> 'a list \<Rightarrow> 's \<Rightarrow> bool" where
  "pushed f s xs s' \<longleftrightarrow> (\<exists>k \<le> length xs. delivered s' = delivered s @ take k xs \<and>
     (f = None \<longrightarrow> k = length xs \<or> gone s'))"

lemma push_batches_spec: "\<exists>f' s'. push_batches S cap f s xs = Inr (f', s') \<and> pushed f s xs s'"
proof (induction "length xs" arbitrary: f s xs rule: less_induct)
  case less
  obtain c staged rest f1 where i: "stage_input cap f xs [] = (c, staged, rest, f1)"
    by (metis prod_cases4)
  from stage_input_spec [OF i] obtain ys where
    ys: "xs = ys @ rest" "staged = map Some ys" "f = None \<longrightarrow> \<not> c \<and> f1 = None" "\<not> c \<longrightarrow> xs \<noteq> [] \<longrightarrow> ys \<noteq> []"
    by auto
  show ?case
  proof (cases "c \<or> xs = []")
    case True
    then have "push_batches S cap f s xs = Inr (f1, s)"
      using i ys(2) by (subst push_batches.simps) (auto simp: drop_slots_some)
    with True ys(3) show ?thesis by (auto simp: pushed_def intro!: exI [of _ 0])
  next
    case False
    then have ne: "ys \<noteq> []" using ys(4) by simp
    from send_batch_ok [of s ys] obtain n s1 where
      n: "op_try_send_batch S s (map Some ys) = Inr (n, replicate n None @ map Some (drop n ys), s1)"
        "n \<le> length ys" "delivered s1 = delivered s @ take n ys" by blast
    from push_rest_spec [OF n(2), of f1 s1] obtain go k f2 s2 where
      k: "push_rest S f1 s1 (replicate n None @ map Some (drop n ys)) n = Inr (go, f2, s2)"
        "n \<le> k" "k \<le> length ys" "delivered s2 = delivered s1 @ take (k - n) (drop n ys)"
        "go \<longrightarrow> k = length ys" "f1 = None \<longrightarrow> f2 = None \<and> (go \<or> gone s2)" by blast
    have del: "delivered s2 = delivered s @ take k ys"
      using k(2,4) n(3) by (metis append.assoc le_add_diff_inverse take_add)
    have unf: "push_batches S cap f s xs = (if go then push_batches S cap f2 s2 rest else Inr (f2, s2))"
      using i False ne ys(2) n(1) k(1) by (simp add: push_batches.simps [of S cap f s xs])
    show ?thesis
    proof (cases go)
      case False
      with unf del k ys(1,3) show ?thesis unfolding pushed_def
        by (intro exI [of _ f2] exI [of _ s2]) (auto intro!: exI [of _ k])
    next
      case True
      have "length rest < length xs" using ys(1) ne by simp
      from less [OF this, of f2 s2] obtain f' s' j where
        j: "push_batches S cap f2 s2 rest = Inr (f', s')" "j \<le> length rest" "delivered s' = delivered s2 @ take j rest"
          "f2 = None \<longrightarrow> j = length rest \<or> gone s'" unfolding pushed_def by blast
      with unf True del k(5,6) ys(1,3) show ?thesis unfolding pushed_def
        by (intro exI [of _ f'] exI [of _ s']) (auto intro!: exI [of _ "length ys + j"])
    qed
  qed
qed

lemma push_each_spec: "push_each S f s xs = (f', s') \<Longrightarrow> pushed f s xs s'"
proof (induction xs arbitrary: f s)
  case (Cons x xs)
  show ?case
  proof (cases rule: check_cancel_cases [of f _ x xs])
    case fired
    with Cons.prems show ?thesis by (auto simp: pushed_def)
  next
    case quiet
    obtain res s1 where o: "op_send S s x = (res, s1)" by fastforce
    show ?thesis
    proof (cases res)
      case (Inl e)
      with o quiet(1) Cons.prems have "s' = s1" by simp
      with o Inl send_closed [of s x e s1] show ?thesis unfolding pushed_def by (intro exI [of _ 0]) simp
    next
      case (Inr u)
      with o quiet(1) Cons.prems have "push_each S (burn f 1) s1 xs = (f', s')" by simp
      from Cons.IH [OF this] obtain k where
        "k \<le> length xs" "delivered s' = delivered s1 @ take k xs" "burn f 1 = None \<longrightarrow> k = length xs \<or> gone s'"
        unfolding pushed_def by (elim exE conjE) (rule that)
      moreover have "delivered s1 = delivered s @ [x]" using o Inr send_ok [of s x s1] by simp
      ultimately show ?thesis unfolding pushed_def by (intro exI [of _ "Suc k"]) (auto simp: burn_def)
    qed
  qed
qed (simp add: pushed_def)

end

section \<open>Instances\<close>

interpretation stage_chan: stage_io chan_recv_ops chan_remaining chan_send_ops tx_sent tx_gone
  by unfold_locales

section \<open>Properties\<close>

text \<open>
  C9. A stage worker is a map. For every schedule of the upstream senders, every claim cap, every
  spin budget and clock, and with the sends batched or not, the worker loop returns and what it
  delivered is the stage function applied, in order and under the same sequence numbers, to
  exactly the items it claimed before it saw the cancellation; a shorter prefix is delivered only
  when the downstream receivers are gone. The two send modes deliver the same items.
\<close>

theorem stage_worker_maps:
  "\<exists>eof f' c' t' k. stage_worker chan_recv_ops chan_send_ops stage tx_batch env claim_cap max_spin f c t
       = Some (Inr (eof, f', c', t')) \<and>
     tx_sent t' = tx_sent t @ take k (map (\<lambda>(q, x). (q, stage x)) (upto_cancel f (chan_remaining c))) \<and>
     (k = length (upto_cancel f (chan_remaining c)) \<or> tx_gone t') \<and>
     (eof \<longrightarrow> chan_remaining c' = [])"
proof -
  let ?p = "if tx_batch then stage_batched chan_send_ops stage else stage_each chan_send_ops stage"
  let ?g = "\<lambda>qx. [(fst qx, stage (snd qx))]"
  have "stage_chan.proc_ok ?g ?p" 
    using stage_chan.stage_batched_ok [of stage] stage_chan.stage_each_ok [of stage] by (cases tx_batch) simp_all
  from stage_chan.worker_loop_emits [OF this, of env claim_cap 0 "spin_new max_spin" f c t]
  obtain eof f' c' t' k where
    w: "stage_worker chan_recv_ops chan_send_ops stage tx_batch env claim_cap max_spin f c t
         = Some (Inr (eof, f', c', t'))" "eof \<longrightarrow> chan_remaining c' = []"
       "tx_sent t' = tx_sent t @ take k (concat (map ?g (upto_cancel f (chan_remaining c))))"
       "k = length (concat (map ?g (upto_cancel f (chan_remaining c)))) \<or> tx_gone t'"
    unfolding stage_chan.emitted_ok_def Let_def by (elim exE conjE) (rule that, simp add: stage_worker_def, assumption+)
  have g: "concat (map ?g xs) = map (\<lambda>(q, x). (q, stage x)) xs" for xs by (induction xs) auto
  from w show ?thesis unfolding g by auto
qed

theorem stage_worker_maps_witness:
  "\<exists>eof f' c' t' k. stage_worker chan_recv_ops chan_send_ops Suc True (\<lambda>_. (\<lambda>_. True, 0)) 4 0 (Some 2)
       \<lparr>ch_ready = [(0, 10), (1, 20)], ch_future = [Lull, Arrive (2, 30)]\<rparr>
       \<lparr>tx_sent = [], tx_accepts = None, tx_room = []\<rparr> = Some (Inr (eof, f', c', t')) \<and>
     tx_sent t' = take k [(0, 11), (1, 21)] \<and> (k = 2 \<or> tx_gone t')"
proof -
  have r: "upto_cancel (Some 2) (chan_remaining \<lparr>ch_ready = [(0, 10), (1, 20)], ch_future = [Lull, Arrive (2, 30)]\<rparr>)
      = [(0 :: nat, 10 :: nat), (1, 20)]" by (simp add: chan_remaining_def upto_cancel_def)
  from stage_worker_maps [of Suc True "\<lambda>_. (\<lambda>_. True, 0)" 4 0 "Some 2"
    "\<lparr>ch_ready = [(0, 10), (1, 20)], ch_future = [Lull, Arrive (2, 30)]\<rparr>"
    "\<lparr>tx_sent = [], tx_accepts = None, tx_room = []\<rparr>", unfolded r]
  obtain eof f' c' t' k where "stage_worker chan_recv_ops chan_send_ops Suc True (\<lambda>_. (\<lambda>_. True, 0)) 4 0 (Some 2)
       \<lparr>ch_ready = [(0, 10), (1, 20)], ch_future = [Lull, Arrive (2, 30)]\<rparr>
       \<lparr>tx_sent = [], tx_accepts = None, tx_room = []\<rparr> = Some (Inr (eof, f', c', t'))"
     "tx_sent t' = take k [(0, 11), (1, 21)]" "k = 2 \<or> tx_gone t'"
    by (elim exE conjE) (rule that, assumption, simp_all add: numeral_2_eq_2)
  then show ?thesis by blast
qed

text \<open>
  An expand worker is a flat map: the same, with every item replaced by its expansion, each
  output carrying its parent's sequence number; neither the flush threshold of the staging
  buffer nor empty expansions lose, duplicate or reorder an output.
\<close>

theorem expand_worker_flat_maps:
  "\<exists>eof f' c' t' k. expand_worker chan_recv_ops chan_send_ops expand tx_batch batch_cap env claim_cap max_spin f c t
       = Some (Inr (eof, f', c', t')) \<and>
     tx_sent t' = tx_sent t @
       take k (concat (map (\<lambda>(q, x). map (Pair q) (expand x)) (upto_cancel f (chan_remaining c)))) \<and>
     (k = length (concat (map (\<lambda>(q, x). map (Pair q) (expand x)) (upto_cancel f (chan_remaining c)))) \<or> tx_gone t') \<and>
     (eof \<longrightarrow> chan_remaining c' = [])"
proof -
  let ?p = "if tx_batch then expand_batched chan_send_ops expand (max (max batch_cap claim_cap) 1)
    else expand_each chan_send_ops expand"
  let ?g = "\<lambda>qx. map (Pair (fst qx)) (expand (snd qx))"
  have "stage_chan.proc_ok ?g ?p" 
    using stage_chan.expand_batched_ok [of expand] stage_chan.expand_each_ok [of expand] by (cases tx_batch) simp_all
  from stage_chan.worker_loop_emits [OF this, of env claim_cap 0 "spin_new max_spin" f c t]
  obtain eof f' c' t' k where
    w: "expand_worker chan_recv_ops chan_send_ops expand tx_batch batch_cap env claim_cap max_spin f c t
         = Some (Inr (eof, f', c', t'))" "eof \<longrightarrow> chan_remaining c' = []"
       "tx_sent t' = tx_sent t @ take k (concat (map ?g (upto_cancel f (chan_remaining c))))"
       "k = length (concat (map ?g (upto_cancel f (chan_remaining c)))) \<or> tx_gone t'"
    unfolding stage_chan.emitted_ok_def Let_def by (elim exE conjE) (rule that, simp add: expand_worker_def, assumption+)
  have g: "?g = (\<lambda>(q, x). map (Pair q) (expand x))" by auto
  from w show ?thesis unfolding g by (intro exI conjI)
qed

theorem expand_worker_flat_maps_witness:
  "\<exists>eof f' c' t' k. expand_worker chan_recv_ops chan_send_ops (\<lambda>n. replicate n (7 :: nat)) False 4 (\<lambda>_. (\<lambda>_. True, 0)) 4 0 None
       \<lparr>ch_ready = [(0, 2), (1, 0)], ch_future = [Lull, Arrive (2, 1)]\<rparr>
       \<lparr>tx_sent = [], tx_accepts = None, tx_room = []\<rparr> = Some (Inr (eof, f', c', t')) \<and>
     tx_sent t' = take k [(0, 7), (0, 7), (2, 7)] \<and> (k = 3 \<or> tx_gone t')"
proof -
  have r: "concat (map (\<lambda>(q, x). map (Pair q) (replicate x 7)) (upto_cancel None (chan_remaining
      \<lparr>ch_ready = [(0, 2), (1, 0)], ch_future = [Lull, Arrive (2, 1)]\<rparr>)))
      = [(0 :: nat, 7), (0, 7), (2, 7)]" by (simp add: chan_remaining_def numeral_2_eq_2)
  from expand_worker_flat_maps [of "\<lambda>n. replicate n (7 :: nat)" False 4 "\<lambda>_. (\<lambda>_. True, 0)" 4 0 None
    "\<lparr>ch_ready = [(0, 2), (1, 0)], ch_future = [Lull, Arrive (2, 1)]\<rparr>"
    "\<lparr>tx_sent = [], tx_accepts = None, tx_room = []\<rparr>", unfolded r]
  obtain eof f' c' t' k where "expand_worker chan_recv_ops chan_send_ops (\<lambda>n. replicate n (7 :: nat)) False 4
       (\<lambda>_. (\<lambda>_. True, 0)) 4 0 None \<lparr>ch_ready = [(0, 2), (1, 0)], ch_future = [Lull, Arrive (2, 1)]\<rparr>
       \<lparr>tx_sent = [], tx_accepts = None, tx_room = []\<rparr> = Some (Inr (eof, f', c', t'))"
     "tx_sent t' = take k [(0, 7), (0, 7), (2, 7)]" "k = 3 \<or> tx_gone t'" by (elim exE conjE) (rule that, assumption, simp_all add: numeral_3_eq_3)
  then show ?thesis by blast
qed

text \<open>
  C10. The feeder tags the input. With batching on or off, \<open>push_items\<close> returns without touching a
  moved-out or uninitialised staging slot, and what it delivered is a prefix of the input, each
  item tagged with its position; without cancellation the prefix is the whole input unless the
  receivers are gone.
\<close>

theorem feeder_tags_prefix:
  "\<exists>f' t' k. push_items chan_send_ops cap f t items = Inr (f', t') \<and> k \<le> length items \<and>
     tx_sent t' = tx_sent t @ take k (enumerate 0 items) \<and>
     (f = None \<longrightarrow> k = length items \<or> tx_gone t')"
proof (cases "cap = 0")
  case True
  obtain f' t' where p: "push_each chan_send_ops f t (enumerate 0 items) = (f', t')" by fastforce
  from chan_tx.push_each_spec [OF p] True p show ?thesis
    by (auto simp: push_items_def chan_tx.pushed_def)
next
  case False
  from chan_tx.push_batches_spec [of cap f t "enumerate 0 items"] False show ?thesis
    by (auto simp: push_items_def chan_tx.pushed_def)
qed

theorem feeder_tags_prefix_witness:
  "\<exists>f' t' k. push_items chan_send_ops 2 None \<lparr>tx_sent = [], tx_accepts = Some 2, tx_room = [1]\<rparr> [7, 8, 9 :: nat]
      = Inr (f', t') \<and> k \<le> 3 \<and> tx_sent t' = take k [(0, 7), (1, 8), (2, 9)]"
proof -
  have e: "enumerate 0 [7, 8, 9 :: nat] = [(0, 7), (1, 8), (2, 9)]" by (simp add: numeral_2_eq_2)
  have l: "length [7, 8, 9 :: nat] = 3" by simp
  from feeder_tags_prefix [of 2 None "\<lparr>tx_sent = [], tx_accepts = Some 2, tx_room = [1]\<rparr>" "[7, 8, 9 :: nat]"]
  obtain f' t' k where "push_items chan_send_ops 2 None \<lparr>tx_sent = [], tx_accepts = Some 2, tx_room = [1]\<rparr>
      [7, 8, 9 :: nat] = Inr (f', t')" "k \<le> 3" "tx_sent t' = [] @ take k [(0, 7), (1, 8), (2, 9)]"
    unfolding e l by auto
  then show ?thesis by (intro exI [of _ f'] exI [of _ t'] exI [of _ k]) simp
qed

text \<open>
  A batch send is all or a prefix: \<open>send_batch\<close> drains the batch, never reads a staged slot
  twice, delivers a prefix of the batch in order, and reports success exactly when the prefix is
  the whole batch; on failure the receivers are gone.
\<close>

theorem send_batch_prefix:
  "\<exists>k t'. send_batch chan_send_ops t batch = Inr (k = length batch, [], t') \<and> k \<le> length batch \<and>
     tx_sent t' = tx_sent t @ take k batch \<and> (k = length batch \<or> tx_gone t')"
  by (rule chan_tx.send_batch_spec)

text \<open>
  The spin budget stays within the knob: whatever the parks, the budget never exceeds the
  configured window, so the pre-anchor spin polls at most \<open>max_us * SPIN_ROUNDS_PER_US\<close> times; with
  the knob at zero it never spins.
\<close>

theorem spin_budget_bounded:
  assumes "budget_us spin \<le> max_us spin"
  shows "budget_us (note_park spin parked) \<le> max_us spin \<and> max_us (note_park spin parked) = max_us spin \<and>
     (max_us spin = 0 \<longrightarrow> spin_claim R elapsed spin r spare cap = (ClaimEmpty, [], r))"
  using assms by (auto simp: note_park_def spin_claim_def)

theorem spin_budget_bounded_witness:
  "budget_us (note_park \<lparr>budget_us = 3, max_us = 10\<rparr> 12) \<le> 10 \<and>
   budget_us (note_park \<lparr>budget_us = 3, max_us = 10\<rparr> 12) = 6"
  using spin_budget_bounded [of "\<lparr>budget_us = 3, max_us = 10\<rparr>" 12]
  by (simp add: note_park_def saturating_mul_u32_def u32_max_def spin_initial_def)

end
