(* ===== verification/Fence.thy ===== *)
theory Fence
  imports Stage_Claims
begin

text \<open>
  The fence between two streaming stages: the chunking accumulator of
  \<^verbatim>\<open>crates/youpipe/src/state/fence.rs\<close> and the forwarder of
  \<^verbatim>\<open>builder/typed/stream.rs\<close> that drains a channel through it.
\<close>

section \<open>The accumulator\<close>

text \<open>The payload of \<open>Chunked\<close> is a \<^verbatim>\<open>NonZeroUsize\<close>.\<close>

datatype fence_mode = Barrier | Chunked nat

definition chunk_size :: "fence_mode \<Rightarrow> nat option" where
  "chunk_size m = (case m of Barrier \<Rightarrow> None | Chunked k \<Rightarrow> Some k)"

record 'a fence_barrier =
  fb_chunk_size :: "nat option"
  fb_buffer :: "'a vec"
  fb_spare :: "'a vec option"

definition fence_new :: "fence_mode \<Rightarrow> 'a fence_barrier" where
  "fence_new m = \<lparr>fb_chunk_size = chunk_size m, fb_buffer = vec_new, fb_spare = None\<rparr>"

definition fence_with_capacity :: "fence_mode \<Rightarrow> nat \<Rightarrow> 'a fence_barrier" where
  "fence_with_capacity m c =
     \<lparr>fb_chunk_size = chunk_size m, fb_buffer = vec_with_capacity c, fb_spare = None\<rparr>"

definition should_flush :: "'a fence_barrier \<Rightarrow> bool" where
  "should_flush b = (case fb_chunk_size b of Some cs \<Rightarrow> length (v_items (fb_buffer b)) \<ge> cs | None \<Rightarrow> False)"

definition fence_push ::
    "(nat \<Rightarrow> nat \<Rightarrow> nat) \<Rightarrow> 'a fence_barrier \<Rightarrow> 'a \<Rightarrow> 'a vec option \<times> 'a fence_barrier" where
  "fence_push grow b item =
     (let b1 = b\<lparr>fb_buffer := vec_push grow (fb_buffer b) item\<rparr> in
      if should_flush b1 then
        (case fb_spare b1 of
           Some spare \<Rightarrow> (Some (fb_buffer b1), b1\<lparr>fb_buffer := spare, fb_spare := None\<rparr>)
         | None \<Rightarrow> (Some (fb_buffer b1), b1\<lparr>fb_buffer := vec_new, fb_spare := None\<rparr>))
      else (None, b1))"

definition fence_reuse ::
    "(nat \<Rightarrow> nat \<Rightarrow> nat) \<Rightarrow> 'a fence_barrier \<Rightarrow> 'a vec \<Rightarrow> 'a fence_barrier" where
  "fence_reuse grow b batch =
     (let b1 = (if v_items batch \<noteq> [] then b\<lparr>fb_buffer := vec_extend grow (fb_buffer b) (v_items batch)\<rparr> else b);
          batch1 = batch\<lparr>v_items := []\<rparr>
      in if (case fb_spare b1 of None \<Rightarrow> True | Some s \<Rightarrow> v_cap s < v_cap batch1)
         then b1\<lparr>fb_spare := Some batch1\<rparr> else b1)"

definition fence_flush :: "'a fence_barrier \<Rightarrow> 'a vec option \<times> 'a fence_barrier" where
  "fence_flush b =
     (if v_items (fb_buffer b) = [] then (None, b)
      else (Some (fb_buffer b), b\<lparr>fb_buffer := vec_new\<rparr>))"

section \<open>The forwarder\<close>

text \<open>
  \<open>fence_batch_send\<close> drains the batch in place: one blocking send per item, or one batch send.
\<close>

fun send_items :: "('s, 'x) send_ops \<Rightarrow> 's \<Rightarrow> 'x list \<Rightarrow> bool \<times> 's" where
  "send_items S s [] = (True, s)"
| "send_items S s (x # xs) =
     (case op_send S s x of
        (Inr _, s') \<Rightarrow> send_items S s' xs
      | (Inl _, s') \<Rightarrow> (False, s'))"

definition fence_batch_send ::
    "('s, 'x) send_ops \<Rightarrow> bool \<Rightarrow> 's \<Rightarrow> 'x vec \<Rightarrow> (bool \<times> 'x vec \<times> 's) res" where
  "fence_batch_send S batched s batch =
     (if \<not> batched then
        (case send_items S s (v_items batch) of (ok, s') \<Rightarrow> Inr (ok, batch\<lparr>v_items := []\<rparr>, s'))
      else bind_res (send_batch S s (v_items batch)) (\<lambda>(ok, rest, s').
        Inr (ok, batch\<lparr>v_items := rest\<rparr>, s')))"

definition fence_fwd ::
    "('s, 'x) send_ops \<Rightarrow> (nat \<Rightarrow> nat \<Rightarrow> nat) \<Rightarrow> bool \<Rightarrow> 'x fence_barrier \<times> 's \<Rightarrow> 'x \<Rightarrow>
     (bool \<times> 'x fence_barrier \<times> 's) res" where
  "fence_fwd S grow batched bs item =
     (case bs of (b, s) \<Rightarrow>
      (case fence_push grow b item of
         (Some batch, b1) \<Rightarrow>
           bind_res (fence_batch_send S batched s batch) (\<lambda>(ok, batch', s').
           if \<not> ok then Inr (False, b1, s') else Inr (True, fence_reuse grow b1 batch', s'))
       | (None, b1) \<Rightarrow> Inr (True, b1, s)))"

fun fence_process ::
    "('s, 'x) send_ops \<Rightarrow> (nat \<Rightarrow> nat \<Rightarrow> nat) \<Rightarrow> bool \<Rightarrow> fuse \<Rightarrow> 'x fence_barrier \<times> 's \<Rightarrow> 'x list \<Rightarrow>
     (bool \<times> fuse \<times> 'x fence_barrier \<times> 's) res" where
  "fence_process S grow batched f bs [] = Inr (True, f, bs)"
| "fence_process S grow batched f bs (item # items) =
     (case check_cancel f of (cancelled, f') \<Rightarrow>
        if cancelled then Inr (False, f', bs)
        else bind_res (fence_fwd S grow batched bs item) (\<lambda>(ok, bs').
          if \<not> ok then Inr (False, f', bs') else fence_process S grow batched f' bs' items))"

definition forward_fenced ::
    "('r, 'x) recv_ops \<Rightarrow> ('s, 'x) send_ops \<Rightarrow> (nat \<Rightarrow> nat \<Rightarrow> nat) \<Rightarrow> bool \<Rightarrow>
     (nat \<Rightarrow> (nat \<Rightarrow> bool) \<times> nat) \<Rightarrow> nat \<Rightarrow> nat \<Rightarrow> fence_mode \<Rightarrow> nat \<Rightarrow> fuse \<Rightarrow> 'r \<Rightarrow> 's \<Rightarrow>
     (fuse \<times> 'r \<times> 's) res option" where
  "forward_fenced R S grow batched env batch_cap max_spin mode expected f r s =
     (let fence = (case mode of Barrier \<Rightarrow> fence_with_capacity mode expected | Chunked _ \<Rightarrow> fence_new mode) in
      Option.bind (worker_loop R (fence_process S grow batched) env batch_cap 0 (spin_new max_spin) f r (fence, s))
        (\<lambda>t. Some (bind_res t (\<lambda>(eof, f', r', b, s').
          if \<not> eof then Inr (f', r', s')
          else (case fence_flush b of
                  (Some rest, _) \<Rightarrow> bind_res (fence_batch_send S batched s' rest) (\<lambda>(_, _, s''). Inr (f', r', s''))
                | (None, _) \<Rightarrow> Inr (f', r', s'))))))"

text \<open>\<open>fence_hold\<close>: what a forwarder can hold, for the run's in-flight estimate.\<close>

definition fence_hold :: "nat \<Rightarrow> fence_mode \<Rightarrow> nat \<Rightarrow> nat" where
  "fence_hold batch_recv_cap mode n =
     (let scratch = max batch_recv_cap 1 in
      case chunk_size mode of Some k \<Rightarrow> scratch + k | None \<Rightarrow> scratch + n)"

section \<open>Invariant\<close>

text \<open>
  The spare is always empty; with a chunk size, fewer than that many items are pending.
\<close>

definition fence_wf :: "'a fence_barrier \<Rightarrow> bool" where
  "fence_wf b \<longleftrightarrow> (\<forall>v. fb_spare b = Some v \<longrightarrow> v_items v = []) \<and>
     (\<forall>k. fb_chunk_size b = Some k \<longrightarrow> length (v_items (fb_buffer b)) < k)"

abbreviation fence_items :: "'a fence_barrier \<Rightarrow> 'a list" where
  "fence_items b \<equiv> v_items (fb_buffer b)"

lemma fence_new_wf:
  "(\<And>k. m = Chunked k \<Longrightarrow> 0 < k) \<Longrightarrow> fence_wf (fence_new m) \<and> fence_items (fence_new m) = []"
  "(\<And>k. m = Chunked k \<Longrightarrow> 0 < k) \<Longrightarrow> fence_wf (fence_with_capacity m c) \<and> fence_items (fence_with_capacity m c) = []"
  by (auto simp: fence_wf_def fence_new_def fence_with_capacity_def chunk_size_def split: fence_mode.splits)

lemma fence_push_cases:
  assumes "fence_wf b" "fence_push grow b x = (res, b')"
  shows "fence_wf b' \<and> fb_chunk_size b' = fb_chunk_size b \<and>
    (case res of
       None \<Rightarrow> fence_items b' = fence_items b @ [x]
     | Some v \<Rightarrow> v_items v = fence_items b @ [x] \<and> fence_items b' = [] \<and>
         fb_chunk_size b = Some (length (v_items v)))"
  using assms
  by (auto simp: fence_push_def should_flush_def fence_wf_def Let_def split: option.splits if_splits)

lemma fence_reuse_drained:
  assumes "fence_wf b" "v_items v = []"
  shows "fence_wf (fence_reuse grow b v) \<and> fence_items (fence_reuse grow b v) = fence_items b \<and>
    fb_chunk_size (fence_reuse grow b v) = fb_chunk_size b"
  using assms by (auto simp: fence_reuse_def fence_wf_def Let_def split: option.splits)

lemma quiet_no_hit: "check_cancel f = (False, f') \<Longrightarrow> \<not> cancel_hit f [x]"
  by (auto simp: check_cancel_def cancel_hit_def split: option.splits nat.splits)

section \<open>What the forwarder does\<close>

locale fence_io = receiver R remaining + sender S delivered gone
  for R :: "('r, 'x) recv_ops" and remaining and S :: "('s, 'x) send_ops" and delivered and gone
begin

lemma send_items_spec:
  "\<exists>ok k s'. send_items S s xs = (ok, s') \<and> k \<le> length xs \<and> delivered s' = delivered s @ take k xs \<and>
     (if ok then k = length xs else gone s')"
proof (induction xs arbitrary: s)
  case (Cons x xs)
  obtain res s1 where o: "op_send S s x = (res, s1)" by fastforce
  show ?case
  proof (cases res)
    case (Inl e)
    with o send_closed [of s x e s1] show ?thesis
      by (intro exI [of _ False] exI [of _ 0] exI [of _ s1]) simp
  next
    case (Inr u)
    with o send_ok [of s x s1] have d: "delivered s1 = delivered s @ [x]" by simp
    from Cons.IH [of s1] obtain ok k s' where
      "send_items S s1 xs = (ok, s')" "k \<le> length xs" "delivered s' = delivered s1 @ take k xs"
      "if ok then k = length xs else gone s'" by blast
    with o Inr d show ?thesis by (intro exI [of _ ok] exI [of _ "Suc k"] exI [of _ s']) simp
  qed
qed auto

lemma fence_batch_send_spec:
  "\<exists>ok k v' s'. fence_batch_send S batched s v = Inr (ok, v', s') \<and> v_items v' = [] \<and>
     k \<le> length (v_items v) \<and> delivered s' = delivered s @ take k (v_items v) \<and>
     (if ok then k = length (v_items v) else gone s')"
proof (cases batched)
  case False
  from send_items_spec [of s "v_items v"] obtain ok k s' where
    "send_items S s (v_items v) = (ok, s')" "k \<le> length (v_items v)"
    "delivered s' = delivered s @ take k (v_items v)" "if ok then k = length (v_items v) else gone s'" by blast
  with False show ?thesis
    by (intro exI [of _ ok] exI [of _ k] exI [of _ "v\<lparr>v_items := []\<rparr>"] exI [of _ s'])
       (simp add: fence_batch_send_def)
next
  case True
  from send_batch_spec [of s "v_items v"] obtain k s' where
    "send_batch S s (v_items v) = Inr (k = length (v_items v), [], s')" "k \<le> length (v_items v)"
    "delivered s' = delivered s @ take k (v_items v)" "k = length (v_items v) \<or> gone s'" by blast
  with True show ?thesis
    by (intro exI [of _ "k = length (v_items v)"] exI [of _ k] exI [of _ "v\<lparr>v_items := []\<rparr>"] exI [of _ s'])
       (auto simp: fence_batch_send_def)
qed

text \<open>
  One forwarded item: either delivered and pending items together grow by it, or the receivers
  are gone and a prefix was delivered. With \<open>Barrier\<close> nothing is delivered.
\<close>

lemma fence_fwd_spec:
  assumes "fence_wf b" "ys = fence_items b @ [x]"
  shows "\<exists>ok b' s' j. fence_fwd S grow batched (b, s) x = Inr (ok, b', s') \<and> j \<le> length ys \<and>
    delivered s' = delivered s @ take j ys \<and> (fb_chunk_size b = None \<longrightarrow> j = 0) \<and>
    (if ok then fence_wf b' \<and> fb_chunk_size b' = fb_chunk_size b \<and> fence_items b' = drop j ys else gone s')"
proof -
  obtain res b1 where p: "fence_push grow b x = (res, b1)" by fastforce
  note c = fence_push_cases [OF assms(1) p]
  show ?thesis
  proof (cases res)
    case None
    with p c assms(2) show ?thesis
      by (intro exI [of _ True] exI [of _ b1] exI [of _ s] exI [of _ 0]) (simp add: fence_fwd_def)
  next
    case (Some v)
    from fence_batch_send_spec [of batched s v] obtain ok k v' s' where
      k: "fence_batch_send S batched s v = Inr (ok, v', s')" "v_items v' = []" "k \<le> length (v_items v)"
        "delivered s' = delivered s @ take k (v_items v)" "if ok then k = length (v_items v) else gone s'" by blast
    have v: "v_items v = ys" "fb_chunk_size b \<noteq> None" using c Some assms(2) by simp_all
    show ?thesis
    proof (cases ok)
      case True
      with fence_reuse_drained [of b1 v' grow] k p c Some v show ?thesis
        by (intro exI [of _ True] exI [of _ "fence_reuse grow b1 v'"] exI [of _ s'] exI [of _ k])
           (simp add: fence_fwd_def)
    next
      case False
      with k p Some v show ?thesis
        by (intro exI [of _ False] exI [of _ b1] exI [of _ s'] exI [of _ k]) (auto simp: fence_fwd_def)
    qed
  qed
qed

text \<open>The invariant of the forwarder's loop and what holds when it stops early.\<close>

definition fwd_inv :: "fuse \<Rightarrow> nat option \<Rightarrow> 's \<Rightarrow> 'x list \<Rightarrow> fuse \<Rightarrow> 'x fence_barrier \<times> 's \<Rightarrow> bool" where
  "fwd_inv f cs s0 items f' bs \<longleftrightarrow> (case bs of (b, s) \<Rightarrow>
     fence_wf b \<and> fb_chunk_size b = cs \<and> \<not> cancel_hit f items \<and> f' = burn f (length items) \<and>
     (\<exists>k \<le> length items. delivered s = delivered s0 @ take k items \<and> fence_items b = drop k items \<and>
        (cs = None \<longrightarrow> k = 0)))"

definition fwd_stop :: "fuse \<Rightarrow> nat option \<Rightarrow> 's \<Rightarrow> 'x list \<Rightarrow> fuse \<Rightarrow> 'x fence_barrier \<times> 's \<Rightarrow> bool" where
  "fwd_stop f cs s0 items f' bs \<longleftrightarrow> (\<exists>k \<le> length (upto_cancel f items).
     delivered (snd bs) = delivered s0 @ take k (upto_cancel f items) \<and>
     (gone (snd bs) \<or> cancel_hit f items) \<and> (cs = None \<longrightarrow> k = 0))"

lemma fwd_stop_extend:
  assumes "fwd_stop f cs s0 items f' bs"
  shows "fwd_stop f cs s0 (items @ xs) f' bs"
proof (cases "cancel_hit f items")
  case True
  with assms show ?thesis by (simp add: fwd_stop_def hit_upto hit_append)
next
  case False
  with assms obtain k where "k \<le> length (upto_cancel f items)"
    "delivered (snd bs) = delivered s0 @ take k (upto_cancel f items)" "gone (snd bs)" "cs = None \<longrightarrow> k = 0"
    by (auto simp: fwd_stop_def)
  then show ?thesis unfolding fwd_stop_def by (intro exI [of _ k]) (simp add: upto_cancel_append)
qed

lemma fwd_inv_step:
  assumes "fwd_inv f cs s0 items f1 bs"
  shows "\<exists>go f' bs'. fence_process S grow batched f1 bs xs = Inr (go, f', bs') \<and>
     (if go then fwd_inv f cs s0 (items @ xs) f' bs' else fwd_stop f cs s0 (items @ xs) f' bs')"
  using assms
proof (induction xs arbitrary: items f1 bs)
  case (Cons x xs)
  obtain b s where bs: "bs = (b, s)" by (cases bs)
  from Cons.prems bs obtain k where
    inv: "fence_wf b" "fb_chunk_size b = cs" "\<not> cancel_hit f items" "f1 = burn f (length items)"
      "k \<le> length items" "delivered s = delivered s0 @ take k items" "fence_items b = drop k items"
      "cs = None \<longrightarrow> k = 0" by (auto simp: fwd_inv_def)
  note up = not_hit_upto [OF inv(3)]
  show ?case
  proof (cases rule: check_cancel_cases [of f1 _ x xs])
    case fired
    have "cancel_hit f (items @ x # xs)" "upto_cancel f (items @ x # xs) = items"
      using fired inv(4) up by (simp_all add: hit_append upto_cancel_append)
    with inv(5,6,8) have "fwd_stop f cs s0 (items @ x # xs) f1 (b, s)"
      unfolding fwd_stop_def by (intro exI [of _ k]) simp
    with bs fired(2) show ?thesis by auto
  next
    case quiet
    have "\<not> cancel_hit f1 [x]" using quiet(1) by (rule quiet_no_hit)
    then have up': "\<not> cancel_hit f (items @ [x])" using inv(3,4) by (simp add: hit_append)
    from fence_fwd_spec [where x = x and grow = grow and batched = batched and s = s, OF inv(1) refl] obtain ok b' s' j where
      w: "fence_fwd S grow batched (b, s) x = Inr (ok, b', s')" "j \<le> length (fence_items b @ [x])"
        "delivered s' = delivered s @ take j (fence_items b @ [x])" "fb_chunk_size b = None \<longrightarrow> j = 0"
        "if ok then fence_wf b' \<and> fb_chunk_size b' = fb_chunk_size b \<and>
           fence_items b' = drop j (fence_items b @ [x]) else gone s'" by (elim exE conjE) (rule that)
    have ys: "drop k (items @ [x]) = fence_items b @ [x]" using inv(5,7) by simp
    have "take (k + j) (items @ [x]) = take k items @ take j (fence_items b @ [x])"
      using inv(5) by (simp only: take_add ys) simp
    then have kj: "delivered s' = delivered s0 @ take (k + j) (items @ [x])" "k + j \<le> length (items @ [x])"
      "cs = None \<longrightarrow> k + j = 0"
      using w(2,3,4) inv(2,5,6,7,8) by (simp_all only: append.assoc) simp_all
    show ?thesis
    proof (cases ok)
      case False
      with w(5) kj have "fwd_stop f cs s0 (items @ [x]) (burn f1 1) (b', s')"
        unfolding fwd_stop_def not_hit_upto [OF up'] by (intro exI [of _ "k + j"]) simp
      then have "fwd_stop f cs s0 ((items @ [x]) @ xs) (burn f1 1) (b', s')" by (rule fwd_stop_extend)
      with False w(1) quiet(1) bs show ?thesis by auto
    next
      case True
      have "fence_items b' = drop (k + j) (items @ [x])"
        using w(5) True ys by (simp only: if_True drop_drop [symmetric] add.commute [of k])
      with True w(5) kj up' inv(2,4) have "fwd_inv f cs s0 (items @ [x]) (burn f1 1) (b', s')"
        unfolding fwd_inv_def by (auto intro!: exI [of _ "k + j"])
      note ih = Cons.IH [OF this]
      have "fence_process S grow batched f1 bs (x # xs) = fence_process S grow batched (burn f1 1) (b', s') xs"
        using True w(1) quiet(1) bs by simp
      with ih show ?thesis by (simp only: append.assoc append_Cons append_Nil)
    qed
  qed
qed (use assms in auto)

lemma forward_fenced_spec:
  assumes "\<And>k. mode = Chunked k \<Longrightarrow> 0 < k"
  shows "\<exists>f' r' s' k. forward_fenced R S grow batched env cap max_spin mode expected f r s = Some (Inr (f', r', s')) \<and>
     k \<le> length (upto_cancel f (remaining r)) \<and>
     delivered s' = delivered s @ take k (upto_cancel f (remaining r)) \<and>
     (\<not> cancel_hit f (remaining r) \<longrightarrow> k = length (remaining r) \<or> gone s') \<and>
     (mode = Barrier \<and> cancel_hit f (remaining r) \<longrightarrow> k = 0)"
proof -
  let ?b = "case mode of Barrier \<Rightarrow> fence_with_capacity mode expected | Chunked _ \<Rightarrow> fence_new mode"
  let ?cs = "chunk_size mode"
  have b: "fence_wf ?b" "fence_items ?b = []" "fb_chunk_size ?b = ?cs"
    using assms by (auto simp: fence_wf_def fence_with_capacity_def fence_new_def chunk_size_def split: fence_mode.splits)
  then have "fwd_inv f ?cs s [] f (?b, s)" by (simp add: fwd_inv_def)
  from worker_loop_inv [where Q = "fwd_inv f ?cs s" and E = "fwd_stop f ?cs s"
      and process = "fence_process S grow batched" and env = env and cap = cap
      and k = 0 and spin = "spin_new max_spin" and r = r, OF fwd_inv_step this]
  obtain eof f' r' bs zs where
    w: "worker_loop R (fence_process S grow batched) env cap 0 (spin_new max_spin) f r (?b, s)
        = Some (Inr (eof, f', r', bs))" "remaining r = zs @ remaining r'" "eof \<longrightarrow> remaining r' = []"
      "if eof then fwd_inv f ?cs s ([] @ zs) f' bs else fwd_stop f ?cs s ([] @ zs) f' bs" by blast
  obtain b1 s1 where bs: "bs = (b1, s1)" by (cases bs)
  show ?thesis
  proof (cases eof)
    case False
    then have "fwd_stop f ?cs s (remaining r) f' bs" using w(2,4) fwd_stop_extend by simp
    then obtain k where k: "k \<le> length (upto_cancel f (remaining r))"
      "delivered s1 = delivered s @ take k (upto_cancel f (remaining r))"
      "gone s1 \<or> cancel_hit f (remaining r)" "?cs = None \<longrightarrow> k = 0" by (auto simp: fwd_stop_def bs)
    moreover have "forward_fenced R S grow batched env cap max_spin mode expected f r s = Some (Inr (f', r', s1))"
      using w(1) False bs by (simp add: forward_fenced_def)
    ultimately show ?thesis
      by (intro exI [of _ f'] exI [of _ r'] exI [of _ s1] exI [of _ k]) (auto simp: chunk_size_def)
  next
    case True
    then have zs: "zs = remaining r" using w(2,3) by simp
    from w(4) True bs obtain k where
      k: "\<not> cancel_hit f zs" "k \<le> length zs" "delivered s1 = delivered s @ take k zs" "fence_items b1 = drop k zs"
      by (auto simp: fwd_inv_def)
    note up = not_hit_upto [OF k(1)]
    show ?thesis
    proof (cases "drop k zs = []")
      case True
      then have "forward_fenced R S grow batched env cap max_spin mode expected f r s = Some (Inr (f', r', s1))"
        using w(1) \<open>eof\<close> bs k(4) by (simp add: forward_fenced_def fence_flush_def)
      with True k up zs show ?thesis
        by (intro exI [of _ f'] exI [of _ r'] exI [of _ s1] exI [of _ "length zs"]) simp
    next
      case False
      from fence_batch_send_spec [of batched s1 "fb_buffer b1"] obtain ok j v' s2 where
        j: "fence_batch_send S batched s1 (fb_buffer b1) = Inr (ok, v', s2)" "j \<le> length (drop k zs)"
          "delivered s2 = delivered s1 @ take j (drop k zs)" "if ok then j = length (drop k zs) else gone s2"
        unfolding k(4) by blast
      have "forward_fenced R S grow batched env cap max_spin mode expected f r s = Some (Inr (f', r', s2))"
        using w(1) \<open>eof\<close> bs k(4) False j(1) by (simp add: forward_fenced_def fence_flush_def)
      moreover have "delivered s2 = delivered s @ take (k + j) zs" using j(3) k(3) by (simp add: take_add)
      moreover have "k + j = length zs \<or> gone s2" "k + j \<le> length zs" using j(2,4) k(2) by (auto split: if_splits)
      ultimately show ?thesis using k(1) up zs
        by (intro exI [of _ f'] exI [of _ r'] exI [of _ s2] exI [of _ "k + j"]) simp
    qed
  qed
qed

end

interpretation fence_chan: fence_io chan_recv_ops chan_remaining chan_send_ops tx_sent tx_gone
  by unfold_locales

section \<open>Properties\<close>

text \<open>
  C11. The fence neither loses, duplicates nor reorders. For every mode with a non-zero chunk,
  every schedule of the upstream stage, every batch cap and spin, and with the released chunks
  sent item by item or as a batch, the forwarder returns, having delivered a prefix of what it
  received, in order; without cancellation the prefix is everything unless the receivers are
  gone; a cancelled hard barrier delivers nothing.
\<close>

theorem fence_forwards_in_order:
  assumes "\<And>k. mode = Chunked k \<Longrightarrow> 0 < k"
  shows "\<exists>f' c' t' k. forward_fenced chan_recv_ops chan_send_ops grow batched env cap max_spin mode expected f c t
       = Some (Inr (f', c', t')) \<and>
     k \<le> length (upto_cancel f (chan_remaining c)) \<and>
     tx_sent t' = tx_sent t @ take k (upto_cancel f (chan_remaining c)) \<and>
     (\<not> cancel_hit f (chan_remaining c) \<longrightarrow> k = length (chan_remaining c) \<or> tx_gone t') \<and>
     (mode = Barrier \<and> cancel_hit f (chan_remaining c) \<longrightarrow> k = 0)"
  by (rule fence_chan.forward_fenced_spec [OF assms])

theorem fence_forwards_in_order_witness:
  "\<exists>f' c' t' k. forward_fenced chan_recv_ops chan_send_ops (\<lambda>c n. n) True (\<lambda>_. (\<lambda>_. True, 0)) 4 0 (Chunked 2) 9 None
       \<lparr>ch_ready = [1, 2], ch_future = [Lull, Arrive 3]\<rparr> \<lparr>tx_sent = [], tx_accepts = None, tx_room = []\<rparr>
       = Some (Inr (f', c', t')) \<and> (tx_sent t' = [1, 2, 3 :: nat] \<or> tx_gone t')"
proof -
  let ?c = "\<lparr>ch_ready = [1, 2], ch_future = [Lull, Arrive 3]\<rparr> :: nat chan"
  have "\<exists>f' c' t' k. forward_fenced chan_recv_ops chan_send_ops (\<lambda>c n. n) True (\<lambda>_. (\<lambda>_. True, 0)) 4 0 (Chunked 2) 9
       None ?c \<lparr>tx_sent = [], tx_accepts = None, tx_room = []\<rparr> = Some (Inr (f', c', t')) \<and>
     k \<le> length (upto_cancel None (chan_remaining ?c)) \<and>
     tx_sent t' = tx_sent \<lparr>tx_sent = [], tx_accepts = None, tx_room = []\<rparr> @ take k (upto_cancel None (chan_remaining ?c)) \<and>
     (\<not> cancel_hit None (chan_remaining ?c) \<longrightarrow> k = length (chan_remaining ?c) \<or> tx_gone t') \<and>
     (Chunked 2 = Barrier \<and> cancel_hit None (chan_remaining ?c) \<longrightarrow> k = 0)"
    by (rule fence_forwards_in_order) simp
  moreover have "chan_remaining ?c = [1, 2, 3]" by (simp add: chan_remaining_def)
  ultimately show ?thesis by (auto simp: numeral_3_eq_3)
qed

text \<open>
  Feeding a list through the accumulator, with every released batch drained and handed back.
\<close>

fun fence_feed ::
    "(nat \<Rightarrow> nat \<Rightarrow> nat) \<Rightarrow> 'a fence_barrier \<Rightarrow> 'a list \<Rightarrow> 'a list list \<times> 'a fence_barrier" where
  "fence_feed grow b [] = ([], b)"
| "fence_feed grow b (x # xs) =
     (case fence_push grow b x of
        (None, b1) \<Rightarrow> fence_feed grow b1 xs
      | (Some v, b1) \<Rightarrow>
          (case fence_feed grow (fence_reuse grow b1 (v\<lparr>v_items := []\<rparr>)) xs of
             (batches, b2) \<Rightarrow> (v_items v # batches, b2)))"

lemma fence_feed_spec:
  assumes "fence_wf b"
  shows "case fence_feed grow b xs of (batches, b') \<Rightarrow>
     concat batches @ fence_items b' = fence_items b @ xs \<and> fence_wf b' \<and> fb_chunk_size b' = fb_chunk_size b \<and>
     (\<forall>v \<in> set batches. fb_chunk_size b = Some (length v))"
  using assms
proof (induction xs arbitrary: b)
  case (Cons x xs)
  obtain res b1 where p: "fence_push grow b x = (res, b1)" by fastforce
  note c = fence_push_cases [OF Cons.prems p]
  show ?case
  proof (cases res)
    case None
    with p c Cons.IH [of b1] show ?thesis by (auto split: prod.splits)
  next
    case (Some v)
    let ?b2 = "fence_reuse grow b1 (v\<lparr>v_items := []\<rparr>)"
    have d: "fence_wf ?b2 \<and> fence_items ?b2 = fence_items b1 \<and> fb_chunk_size ?b2 = fb_chunk_size b1"
      using c by (intro fence_reuse_drained) simp_all
    with p c Some Cons.IH [of ?b2] show ?thesis by (auto split: prod.splits)
  qed
qed simp

text \<open>
  Chunking is exact. With \<open>Chunked k\<close>, \<open>0 < k\<close>, and released batches handed back drained, every
  released batch has exactly \<open>k\<close> items, \<open>length xs div k\<close> batches are released, and they together
  with the pending remainder are the input in order; with \<open>Barrier\<close> no push releases anything and
  \<open>flush\<close> returns the whole input at once.
\<close>

theorem fence_chunks_exact:
  assumes "0 < k"
  shows "(case fence_feed grow (fence_new (Chunked k)) xs of (batches, b) \<Rightarrow>
       concat batches @ fence_items b = xs \<and> (\<forall>v \<in> set batches. length v = k) \<and>
       length batches = length xs div k \<and> length (fence_items b) = length xs mod k) \<and>
     (case fence_feed grow (fence_with_capacity Barrier c) xs of (batches, b) \<Rightarrow>
       batches = [] \<and> fence_items b = xs \<and>
       (xs \<noteq> [] \<longrightarrow> (\<exists>v. fst (fence_flush b) = Some v \<and> v_items v = xs)))"
proof (intro conjI)
  obtain bt b where f: "fence_feed grow (fence_new (Chunked k) :: 'a fence_barrier) xs = (bt, b)" by fastforce
  have "fence_wf (fence_new (Chunked k) :: 'a fence_barrier)" using assms by (intro fence_new_wf [THEN conjunct1]) simp
  from fence_feed_spec [where grow = grow and xs = xs, OF this] f have
    s: "concat bt @ fence_items b = xs" "fence_wf b" "fb_chunk_size b = Some k" "\<forall>v \<in> set bt. length v = k"
    by (auto simp: fence_new_def chunk_size_def)
  have "length (concat bt) = length bt * k" using s(4) by (induction bt) auto
  then have "length xs = length bt * k + length (fence_items b)" using s(1) by (metis length_append)
  moreover have "length (fence_items b) < k" using s(2,3) by (simp add: fence_wf_def)
  ultimately show "case fence_feed grow (fence_new (Chunked k)) xs of (batches, b) \<Rightarrow>
       concat batches @ fence_items b = xs \<and> (\<forall>v \<in> set batches. length v = k) \<and>
       length batches = length xs div k \<and> length (fence_items b) = length xs mod k"
    using f s(1,4) assms by auto
next
  obtain bt b where f: "fence_feed grow (fence_with_capacity Barrier c :: 'a fence_barrier) xs = (bt, b)" by fastforce
  have "fence_wf (fence_with_capacity Barrier c :: 'a fence_barrier)" by (intro fence_new_wf [THEN conjunct1]) simp
  from fence_feed_spec [where grow = grow and xs = xs, OF this] f have
    "concat bt @ fence_items b = xs" "\<forall>v \<in> set bt. False"
    by (auto simp: fence_with_capacity_def chunk_size_def)
  then have "bt = []" "fence_items b = xs" by (cases bt; auto)+
  with f show "case fence_feed grow (fence_with_capacity Barrier c) xs of (batches, b) \<Rightarrow>
       batches = [] \<and> fence_items b = xs \<and>
       (xs \<noteq> [] \<longrightarrow> (\<exists>v. fst (fence_flush b) = Some v \<and> v_items v = xs))"
    by (simp add: fence_flush_def)
qed

theorem fence_chunks_exact_witness:
  "fst (fence_feed (\<lambda>c n. n) (fence_new (Chunked 2)) [1, 2, 3, 4, 5 :: nat]) = [[1, 2], [3, 4]] \<and>
   length (fst (fence_feed (\<lambda>c n. n) (fence_new (Chunked 2)) [1, 2, 3, 4, 5 :: nat])) = 5 div 2"
  using fence_chunks_exact [where k = 2 and grow = "\<lambda>c n. n" and xs = "[1, 2, 3, 4, 5 :: nat]" and c = 0]
  by (simp add: fence_new_def chunk_size_def fence_push_def vec_push_def vec_extend_def vec_new_def
      should_flush_def fence_reuse_def)

text \<open>
  Handing back a batch that was not drained loses nothing: \<open>reuse\<close> appends its items to the
  pending ones, the recycled buffer is empty, and the next \<open>flush\<close> returns all of them.
\<close>

theorem fence_reuse_lossless:
  assumes "fence_wf b" and "fence_items b @ v_items v \<noteq> []"
  shows "(\<exists>out. fst (fence_flush (fence_reuse grow b v)) = Some out \<and> v_items out = fence_items b @ v_items v) \<and>
     (\<forall>s. fb_spare (fence_reuse grow b v) = Some s \<longrightarrow> v_items s = [])"
  using assms by (auto simp: fence_reuse_def fence_flush_def fence_wf_def Let_def split: option.splits)

theorem fence_reuse_lossless_witness:
  "\<exists>out. fst (fence_flush (fence_reuse (\<lambda>c n. n) (fence_new (Chunked 3)) \<lparr>v_items = [7, 8 :: nat], v_cap = 4\<rparr>)) = Some out \<and>
     v_items out = [7, 8]"
  using fence_reuse_lossless [of "fence_new (Chunked 3)" "\<lparr>v_items = [7, 8 :: nat], v_cap = 4\<rparr>" "\<lambda>c n. n"]
  by (simp add: fence_wf_def fence_new_def chunk_size_def vec_new_def)

end
