(* ===== verification/Sleep_Mask.thy ===== *)
theory Sleep_Mask
  imports Prelude "HOL-Library.Word"
begin

text \<open>
  The bitmask of parked workers, \<^verbatim>\<open>crates/youpipe/src/pool/sleep_mask.rs\<close>, on 64-bit words,
  and the scan that wakes workers through it. The state the scan's callback changes (the
  mask itself included) is threaded through; every word is loaded from the current state.
\<close>

section \<open>Layout\<close>

definition THREADS_BITS :: nat where
  "THREADS_BITS = 9"

definition THREADS_MAX :: nat where
  "THREADS_MAX = 2 ^ THREADS_BITS - 1"

definition BITS_PER_WORD :: nat where
  "BITS_PER_WORD = 64"

definition div_ceil :: "nat \<Rightarrow> nat \<Rightarrow> nat" where
  "div_ceil a b = (a + b - 1) div b"

definition MASK_WORDS :: nat where
  "MASK_WORDS = div_ceil THREADS_MAX BITS_PER_WORD"

record sleep_mask =
  sm_words :: "64 word list"
  sm_n_words :: nat

definition split_index :: "nat \<Rightarrow> nat \<times> 64 word" where
  "split_index i = (i div BITS_PER_WORD, push_bit (i mod BITS_PER_WORD) 1)"

definition mask_new :: "nat \<Rightarrow> sleep_mask" where
  "mask_new n_threads = \<lparr>sm_words = replicate MASK_WORDS 0, sm_n_words = div_ceil n_threads BITS_PER_WORD\<rparr>"

definition mask_set :: "sleep_mask \<Rightarrow> nat \<Rightarrow> sleep_mask res" where
  "mask_set m i =
     (case split_index i of (w, b) \<Rightarrow>
      bind_res (index_res (sm_words m) w) (\<lambda>old. Inr (m\<lparr>sm_words := (sm_words m)[w := old OR b]\<rparr>)))"

definition mask_clear :: "sleep_mask \<Rightarrow> nat \<Rightarrow> sleep_mask res" where
  "mask_clear m i =
     (case split_index i of (w, b) \<Rightarrow>
      bind_res (index_res (sm_words m) w) (\<lambda>old. Inr (m\<lparr>sm_words := (sm_words m)[w := old AND NOT b]\<rparr>)))"

section \<open>The scan\<close>

definition set_bits :: "64 word \<Rightarrow> nat list" where
  "set_bits b = filter (bit b) [0..<64]"

definition trailing_zeros :: "64 word \<Rightarrow> nat" where
  "trailing_zeros b = (case set_bits b of [] \<Rightarrow> 64 | k # _ \<Rightarrow> k)"

lemma bit_word_lt: "bit (b :: 64 word) k \<Longrightarrow> k < 64"
  by (drule bit_imp_le_length) simp

lemma set_bits_empty: "set_bits b = [] \<longleftrightarrow> b = 0"
proof
  assume "set_bits b = []"
  then have "\<not> bit b k" for k using bit_word_lt [of b k] by (auto simp: set_bits_def filter_empty_conv)
  then show "b = 0" by (simp add: bit_eq_iff)
qed (simp add: set_bits_def)

lemma set_bits_clear:
  assumes "set_bits b = k # ks"
  shows "set_bits (b AND NOT (push_bit k 1)) = ks"
proof -
  have d: "distinct (k # ks)" using assms by (metis distinct_filter distinct_upt set_bits_def)
  have "set_bits (b AND NOT (push_bit k 1)) = filter (\<lambda>j. j \<noteq> k) (set_bits b)"
    unfolding set_bits_def filter_filter
    by (rule filter_cong) (auto simp: bit_and_iff bit_not_iff bit_exp_iff)
  also have "\<dots> = ks" using d assms by (auto intro: filter_True)
  finally show ?thesis .
qed

datatype 's scan_result = ScanReached nat 's | ScanRestart nat 's | ScanDone nat 's

function scan_word ::
    "('s \<Rightarrow> nat \<Rightarrow> bool \<times> 's) \<Rightarrow> nat \<Rightarrow> nat \<Rightarrow> 64 word \<Rightarrow> nat \<Rightarrow> 's \<Rightarrow> 's scan_result" where
  "scan_word wake target w bits woken s =
     (if bits = 0 then ScanDone woken s
      else let bit_pos = trailing_zeros bits;
               bits' = bits AND NOT (push_bit bit_pos 1)
           in case wake s (w * BITS_PER_WORD + bit_pos) of
                (True, s') \<Rightarrow>
                  if woken + 1 \<ge> target then ScanReached (woken + 1) s'
                  else scan_word wake target w bits' (woken + 1) s'
              | (False, s') \<Rightarrow> ScanRestart woken s')"
  by pat_completeness auto
termination
proof (relation "measure (\<lambda>(wake, target, w, bits, woken, s). length (set_bits bits))", simp, goal_cases)
  case (1 wake target w bits woken s x xa)
  from 1 obtain k ks where "set_bits bits = k # ks" using set_bits_empty by (cases "set_bits bits") auto
  with 1 show ?case by (simp add: trailing_zeros_def set_bits_clear [simplified])
qed

declare scan_word.simps [simp del]

fun scan_words ::
    "('s \<Rightarrow> nat \<Rightarrow> bool \<times> 's) \<Rightarrow> ('s \<Rightarrow> 64 word list) \<Rightarrow> nat \<Rightarrow> nat list \<Rightarrow> nat \<Rightarrow> 's \<Rightarrow> 's scan_result" where
  "scan_words wake words target [] woken s = ScanDone woken s"
| "scan_words wake words target (w # ws) woken s =
     (case scan_word wake target w (words s ! w) woken s of
        ScanDone woken' s' \<Rightarrow> scan_words wake words target ws woken' s'
      | r \<Rightarrow> r)"

text \<open>
  \<open>take n_words\<close> of the fixed array bounds the words that are read. \<open>wake_scan\<close> restarts from the
  first word whenever the callback reports a stale bit, so it is a partial function.
\<close>

partial_function (option) wake_scan_loop ::
    "('s \<Rightarrow> nat \<Rightarrow> bool \<times> 's) \<Rightarrow> ('s \<Rightarrow> 64 word list) \<Rightarrow> nat \<Rightarrow> nat \<Rightarrow> nat \<Rightarrow> 's \<Rightarrow> (nat \<times> 's) option" where
  "wake_scan_loop wake words n_words target woken s =
     (if woken < target then
        (case scan_words wake words target [0..<min n_words (length (words s))] woken s of
           ScanReached woken' s' \<Rightarrow> Some (woken', s')
         | ScanDone woken' s' \<Rightarrow> Some (woken', s')
         | ScanRestart woken' s' \<Rightarrow> wake_scan_loop wake words n_words target woken' s')
      else Some (woken, s))"

definition wake_scan ::
    "('s \<Rightarrow> nat \<Rightarrow> bool \<times> 's) \<Rightarrow> ('s \<Rightarrow> 64 word list) \<Rightarrow> nat \<Rightarrow> nat \<Rightarrow> 's \<Rightarrow> (nat \<times> 's) option" where
  "wake_scan wake words n_words target s =
     (if target = 0 then Some (0, s) else wake_scan_loop wake words n_words target 0 s)"

section \<open>The mask as a set of workers\<close>

definition mask_wf :: "sleep_mask \<Rightarrow> bool" where
  "mask_wf m \<longleftrightarrow> length (sm_words m) = MASK_WORDS"

definition mask_member :: "sleep_mask \<Rightarrow> nat \<Rightarrow> bool" where
  "mask_member m i \<longleftrightarrow> bit (sm_words m ! (i div 64)) (i mod 64)"

lemma MASK_WORDS_8: "MASK_WORDS = 8"
  by (simp add: MASK_WORDS_def div_ceil_def THREADS_MAX_def THREADS_BITS_def BITS_PER_WORD_def)

lemma mask_word_index: "mask_wf m \<Longrightarrow> i \<le> THREADS_MAX \<Longrightarrow> i div 64 < length (sm_words m)"
  by (simp add: mask_wf_def MASK_WORDS_8 THREADS_MAX_def THREADS_BITS_def)

lemma index_split_eq: "(i :: nat) div 64 = j div 64 \<Longrightarrow> i mod 64 = j mod 64 \<Longrightarrow> i = j"
  by (metis div_mult_mod_eq)

lemma mask_set_ok:
  assumes "mask_wf m" "i \<le> THREADS_MAX"
  shows "\<exists>m'. mask_set m i = Inr m' \<and> mask_wf m' \<and> sm_n_words m' = sm_n_words m \<and>
    (\<forall>j. mask_member m' j \<longleftrightarrow> j = i \<or> mask_member m j)"
proof -
  let ?m = "m\<lparr>sm_words := (sm_words m)[i div 64 := sm_words m ! (i div 64) OR push_bit (i mod 64) 1]\<rparr>"
  note idx = mask_word_index [OF assms]
  have "mask_set m i = Inr ?m" using idx by (simp add: mask_set_def split_index_def BITS_PER_WORD_def)
  moreover have "mask_member ?m j \<longleftrightarrow> j = i \<or> mask_member m j" for j
    using idx index_split_eq [of j i]
    by (auto simp: mask_member_def nth_list_update bit_or_iff bit_exp_iff)
  ultimately show ?thesis using assms(1) by (intro exI [of _ ?m]) (simp add: mask_wf_def)
qed

lemma mask_clear_ok:
  assumes "mask_wf m" "i \<le> THREADS_MAX"
  shows "\<exists>m'. mask_clear m i = Inr m' \<and> mask_wf m' \<and> sm_n_words m' = sm_n_words m \<and>
    (\<forall>j. mask_member m' j \<longleftrightarrow> j \<noteq> i \<and> mask_member m j)"
proof -
  let ?m = "m\<lparr>sm_words := (sm_words m)[i div 64 := sm_words m ! (i div 64) AND NOT (push_bit (i mod 64) 1)]\<rparr>"
  note idx = mask_word_index [OF assms]
  have "mask_clear m i = Inr ?m" using idx by (simp add: mask_clear_def split_index_def BITS_PER_WORD_def)
  moreover have "mask_member ?m j \<longleftrightarrow> j \<noteq> i \<and> mask_member m j" for j
    using idx index_split_eq [of j i]
    by (auto simp: mask_member_def nth_list_update bit_and_iff bit_not_iff bit_exp_iff)
  ultimately show ?thesis using assms(1) by (intro exI [of _ ?m]) (simp add: mask_wf_def)
qed

text \<open>
  One bit per worker. For every worker index up to \<open>THREADS_MAX\<close>, \<open>set\<close> and \<open>clear\<close> stay within the
  mask's eight words and change the membership of that worker only: after any of them, worker
  \<open>j\<close> is a member exactly when it was before and is not the cleared one, or is the one just set.
\<close>

theorem mask_bits_independent:
  assumes "mask_wf m" and "i \<le> THREADS_MAX"
  shows "(\<exists>m'. mask_set m i = Inr m' \<and> mask_wf m' \<and> (\<forall>j. mask_member m' j \<longleftrightarrow> j = i \<or> mask_member m j)) \<and>
     (\<exists>m'. mask_clear m i = Inr m' \<and> mask_wf m' \<and> (\<forall>j. mask_member m' j \<longleftrightarrow> j \<noteq> i \<and> mask_member m j))"
  using mask_set_ok [OF assms] mask_clear_ok [OF assms] by blast

theorem mask_bits_independent_witness:
  "\<exists>m'. mask_set (mask_new 128) 64 = Inr m' \<and> mask_member m' 64 \<and> \<not> mask_member m' 0"
proof -
  have wf: "mask_wf (mask_new 128)" "\<And>j. j < 512 \<Longrightarrow> \<not> mask_member (mask_new 128) j"
    by (simp_all add: mask_wf_def mask_new_def mask_member_def MASK_WORDS_8 less_mult_imp_div_less)
  have "64 \<le> THREADS_MAX" by (simp add: THREADS_MAX_def THREADS_BITS_def)
  from mask_bits_independent [OF wf(1) this] wf(2) [of 0] show ?thesis by auto
qed

end
