(* ===== verification/Sleep.thy ===== *)
theory Sleep
  imports Sleep_Mask
begin

text \<open>
  Sleep and wake governance of the worker pool, \<^verbatim>\<open>crates/youpipe/src/pool/sleep.rs\<close>: three
  counters packed into one 64-bit word, the idle back-off of a worker, and the operations that
  park and wake workers. Every atomic operation is a function on the word; the interleavings of
  several threads are in the theory of the machine.
\<close>

section \<open>Packed counters\<close>

definition SLEEPING_SHIFT :: nat where
  "SLEEPING_SHIFT = 0"

definition INACTIVE_SHIFT :: nat where
  "INACTIVE_SHIFT = THREADS_BITS"

definition JEC_SHIFT :: nat where
  "JEC_SHIFT = 2 * THREADS_BITS"

definition ONE_SLEEPING :: "64 word" where
  "ONE_SLEEPING = 1"

definition ONE_INACTIVE :: "64 word" where
  "ONE_INACTIVE = push_bit INACTIVE_SHIFT 1"

definition ONE_JEC :: "64 word" where
  "ONE_JEC = push_bit JEC_SHIFT 1"

definition select_thread :: "64 word \<Rightarrow> nat \<Rightarrow> 64 word" where
  "select_thread w shift = drop_bit shift w AND of_nat THREADS_MAX"

definition select_jec :: "64 word \<Rightarrow> 64 word" where
  "select_jec w = drop_bit JEC_SHIFT w"

definition jobs_counter :: "64 word \<Rightarrow> 64 word" where
  "jobs_counter c = select_jec c"

definition inactive_threads :: "64 word \<Rightarrow> 64 word" where
  "inactive_threads c = select_thread c INACTIVE_SHIFT"

definition sleeping_threads :: "64 word \<Rightarrow> 64 word" where
  "sleeping_threads c = select_thread c SLEEPING_SHIFT"

text \<open>The subtraction wraps in release builds; the \<^verbatim>\<open>debug_assert!\<close> guards it in debug ones.\<close>

definition awake_but_idle_threads :: "64 word \<Rightarrow> 64 word" where
  "awake_but_idle_threads c = inactive_threads c - sleeping_threads c"

definition JEC_DUMMY :: "64 word" where
  "JEC_DUMMY = NOT 0"

definition jec_is_sleepy :: "64 word \<Rightarrow> bool" where
  "jec_is_sleepy j \<longleftrightarrow> j AND 1 = 0"

definition jec_is_active :: "64 word \<Rightarrow> bool" where
  "jec_is_active j \<longleftrightarrow> \<not> jec_is_sleepy j"

definition counters_new :: "64 word" where
  "counters_new = 0"

definition add_inactive_thread :: "64 word \<Rightarrow> 64 word" where
  "add_inactive_thread c = c + ONE_INACTIVE"

text \<open>
  \<open>increment_jobs_event_counter_if\<close>: the compare-and-swap loop retries until the word did not
  change between its load and its exchange, so its effect is this function at one instant. It
  returns the counters after the increment.
\<close>

definition increment_jobs_event_counter_if :: "(64 word \<Rightarrow> bool) \<Rightarrow> 64 word \<Rightarrow> 64 word" where
  "increment_jobs_event_counter_if when c = (if when (jobs_counter c) then c + ONE_JEC else c)"

definition sub_inactive_thread :: "64 word \<Rightarrow> nat \<times> 64 word" where
  "sub_inactive_thread c = (min (unat (sleeping_threads c)) 2, c - ONE_INACTIVE)"

definition sub_sleeping_thread :: "64 word \<Rightarrow> 64 word" where
  "sub_sleeping_thread c = c - ONE_SLEEPING"

text \<open>\<open>try_add_sleeping_thread\<close> succeeds when the word still equals the one loaded before.\<close>

definition try_add_sleeping_thread :: "64 word \<Rightarrow> 64 word \<Rightarrow> bool \<times> 64 word" where
  "try_add_sleeping_thread old c = (if c = old then (True, old + ONE_SLEEPING) else (False, c))"

section \<open>Idle state\<close>

text \<open>Round counts are \<^verbatim>\<open>u32\<close>; release builds wrap.\<close>

definition u32_add :: "nat \<Rightarrow> nat \<Rightarrow> nat" where
  "u32_add a b = (a + b) mod 2 ^ 32"

definition ROUNDS_SPIN :: nat where
  "ROUNDS_SPIN = 32"

definition ROUNDS_YIELD :: nat where
  "ROUNDS_YIELD = 32"

record idle_tuning =
  tn_spin :: nat
  tn_yield_rounds :: nat

definition sleepy_round :: "idle_tuning \<Rightarrow> nat" where
  "sleepy_round t = u32_add (tn_spin t) (tn_yield_rounds t)"

definition parse_rounds :: "string option \<Rightarrow> nat \<Rightarrow> nat" where
  "parse_rounds raw dflt = (case Option.bind raw (parse_uint 32) of None \<Rightarrow> dflt | Some n \<Rightarrow> n)"

text \<open>\<open>IdleTuning::from_env\<close>, on the values of the two environment variables.\<close>

definition idle_tuning_from_env ::
    "string option \<Rightarrow> string option \<Rightarrow> idle_tuning" where
  "idle_tuning_from_env spin yields =
     \<lparr>tn_spin = parse_rounds spin ROUNDS_SPIN, tn_yield_rounds = parse_rounds yields ROUNDS_YIELD\<rparr>"

record idle_state =
  id_worker :: nat
  id_rounds :: nat
  id_tuning :: idle_tuning
  id_jobs_counter :: "64 word"

definition start_looking :: "idle_tuning \<Rightarrow> 64 word \<Rightarrow> nat \<Rightarrow> idle_state \<times> 64 word" where
  "start_looking tuning c worker_index =
     (\<lparr>id_worker = worker_index, id_rounds = 0, id_tuning = tuning, id_jobs_counter = JEC_DUMMY\<rparr>,
      add_inactive_thread c)"

definition wake_fully :: "idle_state \<Rightarrow> idle_state" where
  "wake_fully d = d\<lparr>id_rounds := 0, id_jobs_counter := JEC_DUMMY\<rparr>"

definition wake_partly :: "idle_state \<Rightarrow> idle_state" where
  "wake_partly d = d\<lparr>id_rounds := sleepy_round (id_tuning d), id_jobs_counter := JEC_DUMMY\<rparr>"

definition announce_sleepy :: "64 word \<Rightarrow> 64 word \<times> 64 word" where
  "announce_sleepy c = (let c' = increment_jobs_event_counter_if jec_is_active c in (jobs_counter c', c'))"

text \<open>
  One call of \<open>no_work_found\<close>: spin, yield, announce, or go to sleep.
\<close>

datatype idle_action = IdleAgain idle_state "64 word" | GoToSleep idle_state

definition no_work_found :: "64 word \<Rightarrow> idle_state \<Rightarrow> idle_action" where
  "no_work_found c d =
     (let sleepy = sleepy_round (id_tuning d) in
      if id_rounds d < tn_spin (id_tuning d) then IdleAgain (d\<lparr>id_rounds := u32_add (id_rounds d) 1\<rparr>) c
      else if id_rounds d < sleepy then IdleAgain (d\<lparr>id_rounds := u32_add (id_rounds d) 1\<rparr>) c
      else if id_rounds d = sleepy then
        (case announce_sleepy c of (j, c') \<Rightarrow>
           IdleAgain (d\<lparr>id_jobs_counter := j, id_rounds := u32_add (id_rounds d) 1\<rparr>) c')
      else GoToSleep d)"

section \<open>Posting and waking\<close>

text \<open>\<open>ps_notified\<close> logs the workers whose condition variable was notified, in order.\<close>

record pool_sleep =
  ps_blocked :: "bool list"
  ps_counters :: "64 word"
  ps_mask :: sleep_mask
  ps_notified :: "nat list"

definition sleep_new :: "nat \<Rightarrow> pool_sleep res" where
  "sleep_new n_threads =
     (if n_threads \<le> THREADS_MAX
      then Inr \<lparr>ps_blocked = replicate n_threads False, ps_counters = counters_new, ps_mask = mask_new n_threads,
                ps_notified = []\<rparr>
      else Inl ExplicitPanic)"

text \<open>\<open>new_jobs\<close> up to the call of \<open>wake_any_threads\<close>: the counters it leaves and how many to wake.\<close>

definition new_jobs :: "nat \<Rightarrow> bool \<Rightarrow> 64 word \<Rightarrow> nat \<times> 64 word" where
  "new_jobs num_jobs queue_was_empty c =
     (let c' = increment_jobs_event_counter_if jec_is_sleepy c;
          num_awake_but_idle = unat (awake_but_idle_threads c');
          num_sleepers = unat (sleeping_threads c')
      in (if num_sleepers = 0 then 0
          else if \<not> queue_was_empty then min num_jobs num_sleepers
          else if num_awake_but_idle < num_jobs then min (num_jobs - num_awake_but_idle) num_sleepers
          else 0, c'))"

definition wake_specific_thread :: "pool_sleep \<Rightarrow> nat \<Rightarrow> (bool \<times> pool_sleep) res" where
  "wake_specific_thread p i =
     bind_res (index_res (ps_blocked p) i) (\<lambda>blocked.
     if blocked then
       bind_res (mask_clear (ps_mask p) i) (\<lambda>m.
       Inr (True, p\<lparr>ps_blocked := (ps_blocked p)[i := False], ps_mask := m,
                    ps_counters := sub_sleeping_thread (ps_counters p),
                    ps_notified := ps_notified p @ [i]\<rparr>))
     else Inr (False, p))"

text \<open>The callback the scan uses: a fault leaves the state as it is and counts as a stale bit.\<close>

definition wake_callback :: "pool_sleep \<Rightarrow> nat \<Rightarrow> bool \<times> pool_sleep" where
  "wake_callback p i = (case wake_specific_thread p i of Inr r \<Rightarrow> r | Inl _ \<Rightarrow> (False, p))"

definition wake_any_threads :: "pool_sleep \<Rightarrow> nat \<Rightarrow> (nat \<times> pool_sleep) option" where
  "wake_any_threads p num_to_wake =
     wake_scan wake_callback (\<lambda>p. sm_words (ps_mask p)) (sm_n_words (ps_mask p)) num_to_wake p"

definition work_found :: "pool_sleep \<Rightarrow> (nat \<times> pool_sleep) option" where
  "work_found p = (case sub_inactive_thread (ps_counters p) of (n, c) \<Rightarrow> wake_any_threads (p\<lparr>ps_counters := c\<rparr>) n)"

section \<open>The packed word\<close>

text \<open>
  The word holding \<open>s\<close> sleeping and \<open>i\<close> inactive threads and the event counter \<open>j\<close>.
\<close>

definition pack :: "nat \<Rightarrow> nat \<Rightarrow> nat \<Rightarrow> 64 word" where
  "pack s i j = word_of_nat (s + i * 2 ^ 9 + j * 2 ^ 18)"

lemma unat_pack:
  assumes "s < 2 ^ 9" "i < 2 ^ 9" "j < 2 ^ 46"
  shows "unat (pack s i j) = s + i * 2 ^ 9 + j * 2 ^ 18"
proof -
  have "Suc j * 2 ^ 18 \<le> 2 ^ 46 * 2 ^ 18" using assms(3) by (intro mult_right_mono) auto
  then have j18: "j * 2 ^ 18 + 2 ^ 18 \<le> 2 ^ 64" by simp
  have "Suc i * 2 ^ 9 \<le> 2 ^ 9 * 2 ^ 9" using assms(2) by (intro mult_right_mono) auto
  then have i9: "i * 2 ^ 9 + 2 ^ 9 \<le> 2 ^ 18" by simp
  have len64: "LENGTH(64) = 64" by simp
  from j18 i9 assms(1) have "s + i * 2 ^ 9 + j * 2 ^ 18 < 2 ^ 64" by linarith
  then show ?thesis
    using unat_of_nat [where 'a = 64, of "s + i * 2 ^ 9 + j * 2 ^ 18"] len64
    by (simp only: pack_def mod_less)
qed

lemma unat_select_thread: "unat (select_thread w k) = (unat w div 2 ^ k) mod 2 ^ 9"
proof -
  have m: "(of_nat THREADS_MAX :: 64 word) = mask 9"
    by (simp add: THREADS_MAX_def THREADS_BITS_def mask_eq_exp_minus_1)
  have "unat (select_thread w k) = take_bit 9 (drop_bit k (unat w))"
    unfolding select_thread_def m take_bit_eq_mask [symmetric]
    by (simp only: unsigned_take_bit_eq unat_drop_bit_eq)
  then show ?thesis by (simp only: take_bit_eq_mod drop_bit_eq_div)
qed

lemma unat_select_jec: "unat (select_jec w) = unat w div 2 ^ 18"
proof -
  have "unat (select_jec w) = drop_bit 18 (unat w)"
    by (simp only: select_jec_def JEC_SHIFT_def THREADS_BITS_def unat_drop_bit_eq) simp
  then show ?thesis by (simp only: drop_bit_eq_div)
qed

lemma fields_arith:
  fixes s i j :: nat
  assumes "s < 2 ^ 9" "i < 2 ^ 9"
  shows "(s + i * 2 ^ 9 + j * 2 ^ 18) mod 2 ^ 9 = s"
    "(s + i * 2 ^ 9 + j * 2 ^ 18) div 2 ^ 9 = i + j * 2 ^ 9" "(s + i * 2 ^ 9 + j * 2 ^ 18) div 2 ^ 18 = j"
proof -
  have e: "s + i * 2 ^ 9 + j * 2 ^ 18 = s + (i + j * 2 ^ 9) * 2 ^ 9" by simp
  show "(s + i * 2 ^ 9 + j * 2 ^ 18) mod 2 ^ 9 = s"
    using assms(1) by (simp only: e mod_mult_self1 mod_less)
  show d: "(s + i * 2 ^ 9 + j * 2 ^ 18) div 2 ^ 9 = i + j * 2 ^ 9"
    using assms(1) by (simp only: e) simp
  have "(s + i * 2 ^ 9 + j * 2 ^ 18) div (2 ^ 9 * 2 ^ 9) = (i + j * 2 ^ 9) div 2 ^ 9"
    by (simp only: div_mult2_eq d)
  then show "(s + i * 2 ^ 9 + j * 2 ^ 18) div 2 ^ 18 = j" using assms(2) by simp
qed

lemma pack_fields:
  assumes "s < 2 ^ 9" "i < 2 ^ 9" "j < 2 ^ 46"
  shows "unat (sleeping_threads (pack s i j)) = s" "unat (inactive_threads (pack s i j)) = i"
    "unat (jobs_counter (pack s i j)) = j"
proof -
  note u = unat_pack [OF assms] and f = fields_arith [OF assms(1, 2), of j]
  show "unat (sleeping_threads (pack s i j)) = s"
    by (simp only: sleeping_threads_def unat_select_thread SLEEPING_SHIFT_def u power_0 div_by_1 f)
  have "(i + j * 2 ^ 9) mod 2 ^ 9 = i" using assms(2) by (simp only: mod_mult_self1 mod_less)
  then show "unat (inactive_threads (pack s i j)) = i"
    by (simp only: inactive_threads_def unat_select_thread INACTIVE_SHIFT_def THREADS_BITS_def u f)
  show "unat (jobs_counter (pack s i j)) = j"
    by (simp only: jobs_counter_def unat_select_jec u f)
qed

lemma pack_ops:
  "add_inactive_thread (pack s i j) = pack s (Suc i) j"
  "pack s i j + ONE_JEC = pack s i (Suc j)"
  "pack s i j + ONE_SLEEPING = pack (Suc s) i j"
  "sub_sleeping_thread (pack (Suc s) i j) = pack s i j"
  "pack s (Suc i) j - ONE_INACTIVE = pack s i j"
  by (simp_all add: add_inactive_thread_def pack_def ONE_INACTIVE_def ONE_JEC_def ONE_SLEEPING_def
      sub_sleeping_thread_def INACTIVE_SHIFT_def JEC_SHIFT_def THREADS_BITS_def algebra_simps)

lemma pack_jec_wrap: "pack s i (2 ^ 46) = pack s i 0"
proof -
  have "(2 ^ 46 * 2 ^ 18 :: nat) = 2 ^ 64" by simp
  then have "s + i * 2 ^ 9 + 2 ^ 46 * 2 ^ 18 = (s + i * 2 ^ 9) + 2 ^ 64" by simp
  moreover have "(word_of_nat (2 ^ 64) :: 64 word) = 0" by simp
  ultimately show ?thesis by (simp add: pack_def)
qed

lemma jec_sleepy_parity:
  assumes "s < 2 ^ 9" "i < 2 ^ 9" "j < 2 ^ 46"
  shows "jec_is_sleepy (jobs_counter (pack s i j)) \<longleftrightarrow> even j"
proof -
  have "jec_is_sleepy w \<longleftrightarrow> even (unat w)" for w :: "64 word"
  proof -
    have "unat (w AND 1) = unat w mod 2" by (simp only: and_one_eq unat_mod_distrib) simp
    moreover have "w AND 1 = 0 \<longleftrightarrow> unat (w AND 1) = 0" by (simp only: unsigned_eq_0_iff)
    ultimately show ?thesis by (simp only: jec_is_sleepy_def even_iff_mod_2_eq_zero)
  qed
  with pack_fields(3) [OF assms] show ?thesis by simp
qed

text \<open>The event counter after one conditional increment; it wraps after \<open>2 ^ 46\<close> events.\<close>

definition bump :: "bool \<Rightarrow> nat \<Rightarrow> nat" where
  "bump b j = (if b then (j + 1) mod 2 ^ 46 else j)"

lemma bump_lt [simp]: "j < 2 ^ 46 \<Longrightarrow> bump b j < 2 ^ 46"
  by (simp add: bump_def)

lemma pack_bump:
  assumes "s < 2 ^ 9" "i < 2 ^ 9" "j < 2 ^ 46"
  shows "increment_jobs_event_counter_if jec_is_sleepy (pack s i j) = pack s i (bump (even j) j)"
    and "increment_jobs_event_counter_if jec_is_active (pack s i j) = pack s i (bump (odd j) j)"
proof -
  have inc: "pack s i j + ONE_JEC = pack s i ((j + 1) mod 2 ^ 46)"
  proof (cases "j + 1 = 2 ^ 46")
    case True
    then have "pack s i (Suc j) = pack s i 0" using pack_jec_wrap [of s i] by simp
    with True show ?thesis by (simp add: pack_ops(2))
  next
    case False
    with assms(3) have "(j + 1) mod 2 ^ 46 = j + 1" by simp
    then show ?thesis by (simp add: pack_ops(2))
  qed
  show "increment_jobs_event_counter_if jec_is_sleepy (pack s i j) = pack s i (bump (even j) j)"
    "increment_jobs_event_counter_if jec_is_active (pack s i j) = pack s i (bump (odd j) j)"
    by (simp_all add: increment_jobs_event_counter_if_def bump_def jec_is_active_def
        jec_sleepy_parity [OF assms] inc)
qed

end
