(* ===== verification/Latch.thy ===== *)
theory Latch
  imports Prelude
begin

text \<open>
  The four-state core latch of \<^verbatim>\<open>crates/youpipe/src/pool/latch.rs\<close>: the flag a worker sleeps on.
  The owner moves it towards \<open>SLEEPING\<close> and back, a setter swaps in \<open>SET\<close>; every operation is one
  atomic read-modify-write, so it is a function from the old state to its result and the new state.
\<close>

datatype latch_state = UNSET | SLEEPY | SLEEPING | SET

definition core_latch_new :: latch_state where
  "core_latch_new = UNSET"

definition compare_exchange :: "latch_state \<Rightarrow> latch_state \<Rightarrow> latch_state \<Rightarrow> bool \<times> latch_state" where
  "compare_exchange old new l = (if l = old then (True, new) else (False, l))"

definition get_sleepy :: "latch_state \<Rightarrow> bool \<times> latch_state" where
  "get_sleepy l = compare_exchange UNSET SLEEPY l"

definition fall_asleep :: "latch_state \<Rightarrow> bool \<times> latch_state" where
  "fall_asleep l = compare_exchange SLEEPY SLEEPING l"

definition core_probe :: "latch_state \<Rightarrow> bool" where
  "core_probe l \<longleftrightarrow> l = SET"

text \<open>
  \<open>wake_up\<close> probes and then exchanges. A set that falls between the two makes the exchange fail and
  leaves \<open>SET\<close>, as a set before the probe does, so the two reads act as one.
\<close>

definition wake_up :: "latch_state \<Rightarrow> latch_state" where
  "wake_up l = (if core_probe l then l else snd (compare_exchange SLEEPING UNSET l))"

definition core_set :: "latch_state \<Rightarrow> bool \<times> latch_state" where
  "core_set l = (l = SLEEPING, SET)"

lemmas latch_defs = compare_exchange_def get_sleepy_def fall_asleep_def core_probe_def wake_up_def core_set_def

lemma latch_simps [simp]:
  "get_sleepy l = (True, l') \<longleftrightarrow> l = UNSET \<and> l' = SLEEPY"
  "get_sleepy l = (False, l') \<longleftrightarrow> l \<noteq> UNSET \<and> l' = l"
  "fall_asleep l = (True, l') \<longleftrightarrow> l = SLEEPY \<and> l' = SLEEPING"
  "fall_asleep l = (False, l') \<longleftrightarrow> l \<noteq> SLEEPY \<and> l' = l"
  "core_set l = (b, l') \<longleftrightarrow> (b \<longleftrightarrow> l = SLEEPING) \<and> l' = SET"
  "wake_up SET = SET" "wake_up SLEEPING = UNSET" "wake_up SLEEPY = SLEEPY" "wake_up UNSET = UNSET"
  by (auto simp: latch_defs)

end
