(* ===== verification/Sleep_Machine.thy ===== *)
theory Sleep_Machine
  imports Sleep Latch
begin

text \<open>
  The sleep protocol of the pool as a machine of interleaved steps: workers that look for work and
  park, posters that push jobs and wake workers, setters of latches. Each step is one atomic
  operation of the source (\<^verbatim>\<open>pool/sleep.rs\<close>, the pushes of \<^verbatim>\<open>pool/registry.rs\<close>), interleaved
  sequentially consistently, as the \<^verbatim>\<open>SeqCst\<close> accesses of the source are; the mutex of a worker is
  held by whoever stands between its lock and its release. A condition variable has a wait set, of
  which only its own worker can be a member: a wait enters it and releases the mutex in one step, a
  \<^verbatim>\<open>notify_one\<close> or a spurious wake-up leaves it, and the wait returns only with the mutex taken again.
\<close>

section \<open>States\<close>

text \<open>
  Where a worker stands. From \<open>HoldLock\<close> to \<open>ParkReady\<close>, and in \<open>Woken\<close>, it holds its own mutex;
  in \<open>Parked\<close> it is inside \<^verbatim>\<open>condvar.wait\<close>, without the mutex: in the wait set as long as \<open>m_waiting\<close>
  holds, and after that about to take the mutex and to test \<^verbatim>\<open>is_blocked\<close> again.
\<close>

datatype wpc =
    Active
  | Looking idle_state
  | Found idle_state
  | GotSleepy idle_state
  | HoldLock idle_state
  | Asleep idle_state
  | BitSet idle_state
  | Loaded idle_state "64 word"
  | Stale idle_state
  | StaleClear idle_state
  | Committed idle_state
  | Abort idle_state
  | AbortSub idle_state
  | ParkReady idle_state
  | Parked idle_state
  | Woken idle_state

text \<open>
  A thread that posts or wakes. The scan carries how many workers are still to be woken, the word
  it is at and the bits of that word it has not tried; a wake without a scan comes from a latch.
  \<open>WClear\<close> and \<open>WSub\<close> hold the mutex of the worker; in \<open>WNotify\<close> it is released and the worker is
  still to be notified.
\<close>

type_synonym scan_pos = "(nat \<times> nat \<times> 64 word) option"

datatype task =
    TIdle
  | Pushing bool nat bool
  | Scan nat nat
  | Bits nat nat "64 word"
  | WLock scan_pos nat
  | WClear scan_pos nat
  | WSub scan_pos nat
  | WNotify scan_pos nat

record machine =
  m_pc :: "nat \<Rightarrow> wpc"
  m_blocked :: "nat \<Rightarrow> bool"
  m_waiting :: "nat \<Rightarrow> bool"
  m_latch :: "nat \<Rightarrow> latch_state"
  m_counters :: "64 word"
  m_mask :: sleep_mask
  m_queue :: nat
  m_task :: "nat \<Rightarrow> task"

definition machine_init :: "nat \<Rightarrow> machine" where
  "machine_init N =
     \<lparr>m_pc = (\<lambda>_. Active), m_blocked = (\<lambda>_. False), m_waiting = (\<lambda>_. False), m_latch = (\<lambda>_. core_latch_new),
      m_counters = counters_new, m_mask = mask_new N, m_queue = 0, m_task = (\<lambda>_. TIdle)\<rparr>"

fun holds_lock :: "wpc \<Rightarrow> bool" where
  "holds_lock Active = False"
| "holds_lock (Looking _) = False"
| "holds_lock (Found _) = False"
| "holds_lock (GotSleepy _) = False"
| "holds_lock (Parked _) = False"
| "holds_lock _ = True"

fun wakes :: "task \<Rightarrow> nat \<Rightarrow> bool" where
  "wakes (WClear _ j) i \<longleftrightarrow> j = i"
| "wakes (WSub _ j) i \<longleftrightarrow> j = i"
| "wakes _ i \<longleftrightarrow> False"

fun clears :: "task \<Rightarrow> nat \<Rightarrow> bool" where
  "clears (WClear _ j) i \<longleftrightarrow> j = i"
| "clears _ i \<longleftrightarrow> False"

definition lock_free :: "machine \<Rightarrow> nat \<Rightarrow> bool" where
  "lock_free s i \<longleftrightarrow> \<not> holds_lock (m_pc s i) \<and> (\<forall>a. \<not> wakes (m_task s a) i)"

text \<open>What a waker does after one \<open>wake_specific_thread\<close>: on with its scan, or nothing more.\<close>

fun after_wake :: "scan_pos \<Rightarrow> bool \<Rightarrow> task" where
  "after_wake None _ = TIdle"
| "after_wake (Some (k, w, bits)) True = (if k \<le> 1 then TIdle else Bits (k - 1) w bits)"
| "after_wake (Some (k, w, bits)) False = Scan k 0"

definition start_scan :: "nat \<Rightarrow> task" where
  "start_scan k = (if k = 0 then TIdle else Scan k 0)"

definition set_pc :: "nat \<Rightarrow> wpc \<Rightarrow> machine \<Rightarrow> machine" where
  "set_pc i p s = s\<lparr>m_pc := (m_pc s)(i := p)\<rparr>"

definition set_task :: "nat \<Rightarrow> task \<Rightarrow> machine \<Rightarrow> machine" where
  "set_task a t s = s\<lparr>m_task := (m_task s)(a := t)\<rparr>"

definition set_waiting :: "nat \<Rightarrow> bool \<Rightarrow> machine \<Rightarrow> machine" where
  "set_waiting i b s = s\<lparr>m_waiting := (m_waiting s)(i := b)\<rparr>"

definition set_latch :: "nat \<Rightarrow> latch_state \<Rightarrow> machine \<Rightarrow> machine" where
  "set_latch i l s = s\<lparr>m_latch := (m_latch s)(i := l)\<rparr>"

section \<open>Steps\<close>

text \<open>Worker steps: \<open>start_looking\<close>, \<open>no_work_found\<close>, \<open>sleep\<close> and \<open>work_found\<close>, in the order of the code.\<close>

inductive worker_step :: "nat \<Rightarrow> machine \<Rightarrow> machine \<Rightarrow> bool" for i where
  new_latch: "m_pc s i = Active \<Longrightarrow> worker_step i s (set_latch i core_latch_new s)"
| pop_active: "m_pc s i = Active \<Longrightarrow> 0 < m_queue s \<Longrightarrow> worker_step i s (s\<lparr>m_queue := m_queue s - 1\<rparr>)"
| start: "m_pc s i = Active \<Longrightarrow> start_looking tuning (m_counters s) i = (d, c) \<Longrightarrow>
    worker_step i s (set_pc i (Looking d) (s\<lparr>m_counters := c\<rparr>))"
| pop_injected: "m_pc s i = Looking d \<Longrightarrow> 0 < m_queue s \<Longrightarrow>
    worker_step i s (set_pc i (Found d) (s\<lparr>m_queue := m_queue s - 1\<rparr>))"
| found_other: "m_pc s i = Looking d \<Longrightarrow> worker_step i s (set_pc i (Found d) s)"
| work_found: "m_pc s i = Found d \<Longrightarrow> m_task s a = TIdle \<Longrightarrow> sub_inactive_thread (m_counters s) = (k, c) \<Longrightarrow>
    worker_step i s (set_pc i Active (set_task a (start_scan k) (s\<lparr>m_counters := c\<rparr>)))"
| idle_again: "m_pc s i = Looking d \<Longrightarrow> no_work_found (m_counters s) d = IdleAgain d' c \<Longrightarrow>
    worker_step i s (set_pc i (Looking d') (s\<lparr>m_counters := c\<rparr>))"
| sleep_begin: "m_pc s i = Looking d \<Longrightarrow> no_work_found (m_counters s) d = GoToSleep d' \<Longrightarrow>
    get_sleepy (m_latch s i) = (True, l) \<Longrightarrow> worker_step i s (set_pc i (GotSleepy d') (set_latch i l s))"
| sleep_set: "m_pc s i = Looking d \<Longrightarrow> no_work_found (m_counters s) d = GoToSleep d' \<Longrightarrow>
    get_sleepy (m_latch s i) = (False, l) \<Longrightarrow> worker_step i s (set_pc i (Looking d') (set_latch i l s))"
| take_lock: "m_pc s i = GotSleepy d \<Longrightarrow> lock_free s i \<Longrightarrow> worker_step i s (set_pc i (HoldLock d) s)"
| fall: "m_pc s i = HoldLock d \<Longrightarrow> fall_asleep (m_latch s i) = (True, l) \<Longrightarrow>
    worker_step i s (set_pc i (Asleep d) (set_latch i l s))"
| fall_set: "m_pc s i = HoldLock d \<Longrightarrow> fall_asleep (m_latch s i) = (False, l) \<Longrightarrow>
    worker_step i s (set_pc i (Looking (wake_fully d)) (set_latch i l s))"
| publish: "m_pc s i = Asleep d \<Longrightarrow> mask_set (m_mask s) i = Inr m \<Longrightarrow>
    worker_step i s (set_pc i (BitSet d) (s\<lparr>m_mask := m\<rparr>))"
| load_same: "m_pc s i = BitSet d \<Longrightarrow> jobs_counter (m_counters s) = id_jobs_counter d \<Longrightarrow>
    worker_step i s (set_pc i (Loaded d (m_counters s)) s)"
| load_changed: "m_pc s i = BitSet d \<Longrightarrow> jobs_counter (m_counters s) \<noteq> id_jobs_counter d \<Longrightarrow>
    worker_step i s (set_pc i (Stale d) s)"
| stale_clear: "m_pc s i = Stale d \<Longrightarrow> mask_clear (m_mask s) i = Inr m \<Longrightarrow>
    worker_step i s (set_pc i (StaleClear d) (s\<lparr>m_mask := m\<rparr>))"
| stale_return: "m_pc s i = StaleClear d \<Longrightarrow>
    worker_step i s (set_pc i (Looking (wake_partly d)) (set_latch i (wake_up (m_latch s i)) s))"
| commit: "m_pc s i = Loaded d old \<Longrightarrow> try_add_sleeping_thread old (m_counters s) = (ok, c) \<Longrightarrow>
    worker_step i s (set_pc i (if ok then Committed d else BitSet d) (s\<lparr>m_counters := c\<rparr>))"
| check_injected: "m_pc s i = Committed d \<Longrightarrow>
    worker_step i s (set_pc i (if 0 < m_queue s then Abort d else ParkReady d) s)"
| abort_sub: "m_pc s i = Abort d \<Longrightarrow>
    worker_step i s (set_pc i (AbortSub d) (s\<lparr>m_counters := sub_sleeping_thread (m_counters s)\<rparr>))"
| abort_clear: "m_pc s i = AbortSub d \<Longrightarrow> mask_clear (m_mask s) i = Inr m \<Longrightarrow>
    worker_step i s (set_pc i (Woken d) (s\<lparr>m_mask := m\<rparr>))"
| park: "m_pc s i = ParkReady d \<Longrightarrow>
    worker_step i s (set_pc i (Parked d) (set_waiting i True (s\<lparr>m_blocked := (m_blocked s)(i := True)\<rparr>)))"
| spurious: "m_pc s i = Parked d \<Longrightarrow> m_waiting s i \<Longrightarrow> worker_step i s (set_waiting i False s)"
| wait_again: "m_pc s i = Parked d \<Longrightarrow> \<not> m_waiting s i \<Longrightarrow> lock_free s i \<Longrightarrow> m_blocked s i \<Longrightarrow>
    worker_step i s (set_waiting i True s)"
| unpark: "m_pc s i = Parked d \<Longrightarrow> \<not> m_waiting s i \<Longrightarrow> lock_free s i \<Longrightarrow> \<not> m_blocked s i \<Longrightarrow>
    worker_step i s (set_pc i (Woken d) s)"
| sleep_return: "m_pc s i = Woken d \<Longrightarrow>
    worker_step i s (set_pc i (Looking (wake_fully d)) (set_latch i (wake_up (m_latch s i)) s))"

text \<open>
  Steps of posters, wakers and setters: \<open>inject\<close> and \<open>inject_batch\<close> read whether the queue is
  empty, push, and then run \<open>new_jobs\<close>; a push to a worker's own deque does the same without the
  injector. \<open>wake_specific_thread\<close> takes the worker's mutex, clears the flag, the bit and the count, drops
  the mutex and then calls \<^verbatim>\<open>notify_one\<close>, which takes the worker out of the wait set if it is there.
  \<open>set\<close> of worker \<open>i\<close>'s latch wakes it if it was asleep.
\<close>

inductive task_step :: "nat \<Rightarrow> nat \<Rightarrow> machine \<Rightarrow> machine \<Rightarrow> bool" for N a where
  begin_inject: "m_task s a = TIdle \<Longrightarrow> task_step N a s (set_task a (Pushing True 0 (m_queue s = 0)) s)"
| begin_internal: "m_task s a = TIdle \<Longrightarrow> task_step N a s (set_task a (Pushing False 0 b) s)"
| push_injected: "m_task s a = Pushing True n b \<Longrightarrow>
    task_step N a s (set_task a (Pushing True (Suc n) b) (s\<lparr>m_queue := m_queue s + 1\<rparr>))"
| push_internal: "m_task s a = Pushing False n b \<Longrightarrow> task_step N a s (set_task a (Pushing False (Suc n) b) s)"
| post: "m_task s a = Pushing injected n b \<Longrightarrow> 0 < n \<Longrightarrow> new_jobs n b (m_counters s) = (k, c) \<Longrightarrow>
    task_step N a s (set_task a (start_scan k) (s\<lparr>m_counters := c\<rparr>))"
| post_nothing: "m_task s a = Pushing injected 0 b \<Longrightarrow> task_step N a s (set_task a TIdle s)"
| scan_word: "m_task s a = Scan k w \<Longrightarrow> w < sm_n_words (m_mask s) \<Longrightarrow>
    task_step N a s (set_task a (Bits k w (sm_words (m_mask s) ! w)) s)"
| scan_end: "m_task s a = Scan k w \<Longrightarrow> \<not> w < sm_n_words (m_mask s) \<Longrightarrow> task_step N a s (set_task a TIdle s)"
| next_word: "m_task s a = Bits k w 0 \<Longrightarrow> task_step N a s (set_task a (Scan k (Suc w)) s)"
| next_bit: "m_task s a = Bits k w bits \<Longrightarrow> bits \<noteq> 0 \<Longrightarrow> p = trailing_zeros bits \<Longrightarrow>
    task_step N a s (set_task a (WLock (Some (k, w, bits AND NOT (push_bit p 1))) (w * BITS_PER_WORD + p)) s)"
| wake_blocked: "m_task s a = WLock ctx i \<Longrightarrow> lock_free s i \<Longrightarrow> m_blocked s i \<Longrightarrow>
    task_step N a s (set_task a (WClear ctx i) (s\<lparr>m_blocked := (m_blocked s)(i := False)\<rparr>))"
| wake_missed: "m_task s a = WLock ctx i \<Longrightarrow> lock_free s i \<Longrightarrow> \<not> m_blocked s i \<Longrightarrow>
    task_step N a s (set_task a (after_wake ctx False) s)"
| wake_clear: "m_task s a = WClear ctx i \<Longrightarrow> mask_clear (m_mask s) i = Inr m \<Longrightarrow>
    task_step N a s (set_task a (WSub ctx i) (s\<lparr>m_mask := m\<rparr>))"
| wake_sub: "m_task s a = WSub ctx i \<Longrightarrow>
    task_step N a s (set_task a (WNotify ctx i) (s\<lparr>m_counters := sub_sleeping_thread (m_counters s)\<rparr>))"
| notify: "m_task s a = WNotify ctx i \<Longrightarrow>
    task_step N a s (set_task a (after_wake ctx True) (set_waiting i False s))"
| latch_set: "m_task s a = TIdle \<Longrightarrow> i < N \<Longrightarrow> core_set (m_latch s i) = (was_sleeping, l) \<Longrightarrow>
    task_step N a s (set_task a (if was_sleeping then WLock None i else TIdle) (set_latch i l s))"

inductive reach :: "nat \<Rightarrow> machine \<Rightarrow> bool" for N where
  init: "reach N (machine_init N)"
| worker: "reach N s \<Longrightarrow> i < N \<Longrightarrow> worker_step i s s' \<Longrightarrow> reach N s'"
| task: "reach N s \<Longrightarrow> task_step N a s s' \<Longrightarrow> reach N s'"

lemmas set_defs = set_pc_def set_task_def set_latch_def set_waiting_def

end
