(* ===== verification/Sleep_Inv.thy ===== *)
theory Sleep_Inv
  imports Sleep_Machine
begin

text \<open>
  Invariants of the sleep protocol: which worker stands where, what its latch can hold, whom the
  sleeping mask and the packed counters count, and that posted work and set latches always have a
  waker on its way.
\<close>

section \<open>Control invariant\<close>

fun latch_ok :: "wpc \<Rightarrow> latch_state \<Rightarrow> bool" where
  "latch_ok Active l \<longleftrightarrow> l \<in> {UNSET, SET}"
| "latch_ok (Looking _) l \<longleftrightarrow> l \<in> {UNSET, SET}"
| "latch_ok (Found _) l \<longleftrightarrow> l \<in> {UNSET, SET}"
| "latch_ok (GotSleepy _) l \<longleftrightarrow> l \<in> {SLEEPY, SET}"
| "latch_ok (HoldLock _) l \<longleftrightarrow> l \<in> {SLEEPY, SET}"
| "latch_ok _ l \<longleftrightarrow> l \<in> {SLEEPING, SET}"

fun is_parked :: "wpc \<Rightarrow> bool" where
  "is_parked (Parked _) = True"
| "is_parked _ = False"

definition worker_ctl :: "machine \<Rightarrow> nat \<Rightarrow> bool" where
  "worker_ctl s i \<longleftrightarrow>
     latch_ok (m_pc s i) (m_latch s i) \<and> (m_blocked s i \<longrightarrow> is_parked (m_pc s i)) \<and>
     (\<forall>a. wakes (m_task s a) i \<longrightarrow> is_parked (m_pc s i) \<and> \<not> m_blocked s i)"

definition ctl_inv :: "machine \<Rightarrow> bool" where
  "ctl_inv s \<longleftrightarrow> (\<forall>i. worker_ctl s i) \<and>
     (\<forall>a b i. wakes (m_task s a) i \<longrightarrow> wakes (m_task s b) i \<longrightarrow> a = b)"

lemma after_wake_simps [simp]:
  "\<not> wakes (after_wake ctx b) i" "\<not> clears (after_wake ctx b) i"
  by (cases "(ctx, b)" rule: after_wake.cases; simp)+

lemma start_scan_simps [simp]: "\<not> wakes (start_scan k) i" "\<not> clears (start_scan k) i"
  by (simp_all add: start_scan_def)

lemma clears_wakes: "clears t i \<Longrightarrow> wakes t i"
  by (cases t) auto

lemma is_parked_cases: "is_parked p \<Longrightarrow> (\<And>d. p = Parked d \<Longrightarrow> P) \<Longrightarrow> P"
  by (cases p) auto

lemma ctl_at: "ctl_inv s \<Longrightarrow> worker_ctl s i"
  by (simp add: ctl_inv_def)

text \<open>A step of worker \<open>i\<close> keeps the invariant if it keeps it at \<open>i\<close> and starts no waker's critical section.\<close>

lemma ctl_worker_local:
  assumes "ctl_inv s" "worker_ctl s' i"
    and "\<And>j. j \<noteq> i \<Longrightarrow> m_pc s' j = m_pc s j \<and> m_latch s' j = m_latch s j \<and> m_blocked s' j = m_blocked s j"
    and w: "\<And>a j. wakes (m_task s' a) j \<Longrightarrow> wakes (m_task s a) j"
  shows "ctl_inv s'"
proof -
  have "worker_ctl s' j" for j
  proof (cases "j = i")
    case False
    with assms(3) [OF False] ctl_at [OF assms(1), of j] show ?thesis by (auto simp: worker_ctl_def dest: w)
  qed (use assms(2) in simp)
  with assms(1) show ?thesis unfolding ctl_inv_def by (blast dest: w)
qed

lemma ctl_worker:
  assumes step: "worker_step i s s'" and inv: "ctl_inv s"
  shows "ctl_inv s'"
proof (rule ctl_worker_local [OF inv, where i = i])
  show "m_pc s' j = m_pc s j \<and> m_latch s' j = m_latch s j \<and> m_blocked s' j = m_blocked s j" if "j \<noteq> i" for j
    using step that by cases (simp_all add: set_defs)
  show "wakes (m_task s a) j" if "wakes (m_task s' a) j" for a j
    using step that by cases (simp_all add: set_defs split: if_splits)
  show "worker_ctl s' i"
    using step ctl_at [OF inv, of i]
    by cases (auto simp: worker_ctl_def set_defs core_latch_new_def lock_free_def split: if_splits)
qed

lemma ctl_task:
  assumes step: "task_step N a s s'" and inv: "ctl_inv s"
  shows "ctl_inv s'"
proof -
  have "worker_ctl s' j" for j
    using step ctl_at [OF inv, of j]
  proof cases
    case (wake_blocked ctx i)
    with ctl_at [OF inv, of i] ctl_at [OF inv, of j] show ?thesis
      by (auto simp: worker_ctl_def set_defs lock_free_def)
  next
    case (latch_set i b l)
    with ctl_at [OF inv, of j] show ?thesis
      by (cases "m_pc s j") (auto simp: worker_ctl_def set_defs)
  next
    case (wake_clear ctx i m)
    then have "wakes (m_task s a) i" by simp
    with ctl_at [OF inv, of i] have "is_parked (m_pc s i) \<and> \<not> m_blocked s i"
      unfolding worker_ctl_def by blast
    with wake_clear ctl_at [OF inv, of j] show ?thesis by (auto simp: worker_ctl_def set_defs)
  qed (auto simp: worker_ctl_def set_defs)
  moreover have "c = d" if "wakes (m_task s' c) i" "wakes (m_task s' d) i" for c d i
    using step that inv
    by cases (auto simp: set_defs ctl_inv_def lock_free_def split: if_splits)
  ultimately show ?thesis by (simp add: ctl_inv_def)
qed

lemma ctl_reach: "reach N s \<Longrightarrow> ctl_inv s"
proof (induction rule: reach.induct)
  case init
  then show ?case by (simp add: ctl_inv_def worker_ctl_def machine_init_def core_latch_new_def)
qed (auto intro: ctl_worker ctl_task)

section \<open>Who is counted\<close>

fun counted :: "wpc \<Rightarrow> bool" where
  "counted (Committed _) = True"
| "counted (Abort _) = True"
| "counted (ParkReady _) = True"
| "counted _ = False"

fun published :: "wpc \<Rightarrow> bool" where
  "published (BitSet _) = True"
| "published (Loaded _ _) = True"
| "published (Stale _) = True"
| "published (Committed _) = True"
| "published (Abort _) = True"
| "published (AbortSub _) = True"
| "published (ParkReady _) = True"
| "published _ = False"

definition sleeping_set :: "nat \<Rightarrow> machine \<Rightarrow> nat set" where
  "sleeping_set N s = {i. i < N \<and> (counted (m_pc s i) \<or> m_blocked s i \<or> (\<exists>a. wakes (m_task s a) i))}"

definition inactive_set :: "nat \<Rightarrow> machine \<Rightarrow> nat set" where
  "inactive_set N s = {i. i < N \<and> m_pc s i \<noteq> Active}"

definition bit_set :: "nat \<Rightarrow> machine \<Rightarrow> nat set" where
  "bit_set N s = {i. i < N \<and> (published (m_pc s i) \<or> m_blocked s i \<or> (\<exists>a. clears (m_task s a) i))}"

definition counters_are :: "64 word \<Rightarrow> nat set \<Rightarrow> nat set \<Rightarrow> bool" where
  "counters_are c S I \<longleftrightarrow> (\<exists>j < 2 ^ 46. c = pack (card S) (card I) j)"

definition mask_is :: "nat \<Rightarrow> sleep_mask \<Rightarrow> nat set \<Rightarrow> bool" where
  "mask_is N m S \<longleftrightarrow> mask_wf m \<and> sm_n_words m = div_ceil N BITS_PER_WORD \<and>
     (\<forall>j < 512. mask_member m j \<longleftrightarrow> j \<in> S)"

text \<open>Replacing one element of a set defined by a predicate.\<close>

lemma sets_finite [simp]: "finite (sleeping_set N s)" "finite (inactive_set N s)"
  by (simp_all add: sleeping_set_def inactive_set_def)

lemma sleeping_sub_inactive:
  assumes "ctl_inv s"
  shows "sleeping_set N s \<subseteq> inactive_set N s"
proof
  fix i assume "i \<in> sleeping_set N s"
  with ctl_at [OF assms, of i] show "i \<in> inactive_set N s"
    by (cases "m_pc s i") (auto simp: sleeping_set_def inactive_set_def worker_ctl_def)
qed

lemma inactive_lt: "card (inactive_set N s) \<le> N"
  by (rule order_trans [OF card_mono [of "{..<N}"]]) (auto simp: inactive_set_def)

lemma counts_le:
  assumes "ctl_inv s"
  shows "card (sleeping_set N s) \<le> card (inactive_set N s)" "card (inactive_set N s) \<le> N"
  using card_mono [OF sets_finite(2) sleeping_sub_inactive [OF assms]] inactive_lt by auto

lemma counters_add_inactive:
  "counters_are c S I \<Longrightarrow> finite I \<Longrightarrow> i \<notin> I \<Longrightarrow> counters_are (add_inactive_thread c) S (insert i I)"
  by (auto simp: counters_are_def pack_ops)

lemma counters_sub_inactive:
  assumes "counters_are c S I" "finite I" "i \<in> I"
  shows "counters_are (snd (sub_inactive_thread c)) S (I - {i})"
proof -
  define n where "n = card (I - {i})"
  have "card I = Suc n" unfolding n_def by (rule card.remove [OF assms(2, 3)])
  with assms(1) show ?thesis
    unfolding counters_are_def n_def [symmetric] by (auto simp: sub_inactive_thread_def pack_ops)
qed

lemma counters_sub_sleeping:
  assumes "counters_are c S I" "finite S" "i \<in> S"
  shows "counters_are (sub_sleeping_thread c) (S - {i}) I"
proof -
  define n where "n = card (S - {i})"
  have "card S = Suc n" unfolding n_def by (rule card.remove [OF assms(2, 3)])
  with assms(1) show ?thesis unfolding counters_are_def n_def [symmetric] by (auto simp: pack_ops)
qed

lemma counters_add_sleeping:
  "counters_are c S I \<Longrightarrow> finite S \<Longrightarrow> i \<notin> S \<Longrightarrow> counters_are (c + ONE_SLEEPING) (insert i S) I"
  by (auto simp: counters_are_def pack_ops)

lemma counters_bump:
  assumes "counters_are c S I" "card S < 2 ^ 9" "card I < 2 ^ 9"
  shows "counters_are (increment_jobs_event_counter_if jec_is_sleepy c) S I"
    "counters_are (increment_jobs_event_counter_if jec_is_active c) S I"
proof -
  from assms(1) obtain j where j: "j < 2 ^ 46" "c = pack (card S) (card I) j" by (auto simp: counters_are_def)
  show "counters_are (increment_jobs_event_counter_if jec_is_sleepy c) S I"
    "counters_are (increment_jobs_event_counter_if jec_is_active c) S I"
    unfolding counters_are_def j(2) pack_bump [OF assms(2, 3) j(1)]
    using bump_lt [OF j(1)] by blast+
qed

lemma no_work_found_counters:
  assumes "counters_are c S I" "card S < 2 ^ 9" "card I < 2 ^ 9" "no_work_found c d = IdleAgain d' c'"
  shows "counters_are c' S I"
  using assms(4) counters_bump [OF assms(1-3)] assms(1)
  by (auto simp: no_work_found_def announce_sleepy_def Let_def split: if_splits)

lemma mask_is_set:
  assumes "mask_is N m S" "i < 512" "mask_set m i = Inr m'"
  shows "mask_is N m' (insert i S)"
proof -
  from assms(1) have "mask_wf m" by (simp add: mask_is_def)
  moreover have "i \<le> THREADS_MAX" using assms(2) by (simp add: THREADS_MAX_def THREADS_BITS_def)
  ultimately show ?thesis using mask_set_ok [of m i] assms by (auto simp: mask_is_def)
qed

lemma mask_is_clear:
  assumes "mask_is N m S" "i < 512" "mask_clear m i = Inr m'"
  shows "mask_is N m' (S - {i})"
proof -
  from assms(1) have "mask_wf m" by (simp add: mask_is_def)
  moreover have "i \<le> THREADS_MAX" using assms(2) by (simp add: THREADS_MAX_def THREADS_BITS_def)
  ultimately show ?thesis using mask_clear_ok [of m i] assms by (auto simp: mask_is_def)
qed

section \<open>The sets under a step\<close>

lemma set_upd_in: "(\<And>j. j \<noteq> i \<Longrightarrow> (j \<in> A) = (j \<in> B)) \<Longrightarrow> i \<in> A \<Longrightarrow> A = insert i B"
  by (metis insertE insertI1 insertI2 subsetI subset_antisym)

lemma set_upd_out: "(\<And>j. j \<noteq> i \<Longrightarrow> (j \<in> A) = (j \<in> B)) \<Longrightarrow> i \<notin> A \<Longrightarrow> A = B - {i}"
  by (rule set_eqI) (metis Diff_iff singletonD singletonI)

lemma set_upd_same: "(\<And>j. j \<noteq> i \<Longrightarrow> (j \<in> A) = (j \<in> B)) \<Longrightarrow> (i \<in> A) = (i \<in> B) \<Longrightarrow> A = B"
  by (rule set_eqI) metis

lemmas member_defs = sleeping_set_def inactive_set_def bit_set_def mem_Collect_eq

text \<open>
  A worker step leaves the other workers and all wakers' sections alone, so the membership of the
  others stays as it was.
\<close>

lemma worker_step_frame:
  assumes "worker_step i s s'"
  shows "j \<noteq> i \<Longrightarrow> (j \<in> sleeping_set N s') = (j \<in> sleeping_set N s)"
    "j \<noteq> i \<Longrightarrow> (j \<in> inactive_set N s') = (j \<in> inactive_set N s)"
    "j \<noteq> i \<Longrightarrow> (j \<in> bit_set N s') = (j \<in> bit_set N s)"
    "(\<exists>a. wakes (m_task s' a) j) = (\<exists>a. wakes (m_task s a) j)"
    "(\<exists>a. clears (m_task s' a) j) = (\<exists>a. clears (m_task s a) j)"
proof -
  have same: "m_pc s' j = m_pc s j" "m_blocked s' j = m_blocked s j" if "j \<noteq> i" for j
    using assms that by (cases; simp add: set_defs)+
  show w: "(\<exists>a. wakes (m_task s' a) j) = (\<exists>a. wakes (m_task s a) j)" for j
    using assms by cases (auto simp: set_defs, (metis wakes.simps)+)
  show c: "(\<exists>a. clears (m_task s' a) j) = (\<exists>a. clears (m_task s a) j)" for j
    using assms by cases (auto simp: set_defs, (metis clears.simps)+)
  show "j \<noteq> i \<Longrightarrow> (j \<in> sleeping_set N s') = (j \<in> sleeping_set N s)"
    "j \<noteq> i \<Longrightarrow> (j \<in> inactive_set N s') = (j \<in> inactive_set N s)"
    "j \<noteq> i \<Longrightarrow> (j \<in> bit_set N s') = (j \<in> bit_set N s)"
    by (simp_all add: member_defs same w c)
qed

lemma member_at:
  assumes "ctl_inv s" "i < N"
  shows "\<not> is_parked (m_pc s i) \<Longrightarrow> (i \<in> sleeping_set N s) = counted (m_pc s i)"
    "\<not> is_parked (m_pc s i) \<Longrightarrow> (i \<in> bit_set N s) = published (m_pc s i)"
    "(i \<in> inactive_set N s) = (m_pc s i \<noteq> Active)"
    "m_blocked s i \<Longrightarrow> i \<in> sleeping_set N s \<and> i \<in> bit_set N s"
    "is_parked (m_pc s i) \<Longrightarrow> \<not> m_blocked s i \<Longrightarrow> lock_free s i \<Longrightarrow> i \<notin> sleeping_set N s \<and> i \<notin> bit_set N s"
  using ctl_at [OF assms(1), of i] assms(2) clears_wakes
  by (auto simp: member_defs worker_ctl_def lock_free_def elim!: is_parked_cases)

definition tally :: "nat \<Rightarrow> machine \<Rightarrow> bool" where
  "tally N s \<longleftrightarrow> counters_are (m_counters s) (sleeping_set N s) (inactive_set N s)"

lemma tally_worker:
  assumes step: "worker_step i s s'" and i: "i < N" and N: "N \<le> THREADS_MAX" and inv: "ctl_inv s"
    and tally: "tally N s"
  shows "tally N s'"
proof -
  note inv' = ctl_worker [OF step inv]
  note fr = worker_step_frame(1-3) [OF step, where N = N]
  note m = member_at(1-3) [OF inv i] and m' = member_at(1-3) [OF inv' i]
  have small: "card (sleeping_set N s) < 2 ^ 9" "card (inactive_set N s) < 2 ^ 9"
    using counts_le [OF inv, of N] N by (auto simp: THREADS_MAX_def THREADS_BITS_def)
  note T = tally [unfolded tally_def]
  note S = set_upd_in [where i = i, OF fr(1)] set_upd_out [where i = i, OF fr(1)] set_upd_same [where i = i, OF fr(1)]
  note I = set_upd_in [where i = i, OF fr(2)] set_upd_out [where i = i, OF fr(2)] set_upd_same [where i = i, OF fr(2)]
  have same: "tally N s'" if "counters_are (m_counters s') (sleeping_set N s) (inactive_set N s)"
    "(i \<in> sleeping_set N s') = (i \<in> sleeping_set N s)" "(i \<in> inactive_set N s') = (i \<in> inactive_set N s)"
    using that(1) S(3) [OF _ that(2)] I(3) [OF _ that(3)] by (simp add: tally_def)
  show ?thesis using step
  proof cases
    case (start tuning d c)
    then have p: "m_pc s' i = Looking d" "m_counters s' = add_inactive_thread (m_counters s)"
      by (simp_all add: set_defs start_looking_def)
    have "sleeping_set N s' = sleeping_set N s" by (rule S(3)) (simp_all add: m m' p start(2))
    moreover have "inactive_set N s' = insert i (inactive_set N s)" by (rule I(1)) (simp_all add: m' p)
    moreover have "i \<notin> inactive_set N s" by (simp add: m start(2))
    ultimately show ?thesis using counters_add_inactive [OF T] by (simp add: tally_def p)
  next
    case (work_found d a k c)
    then have p: "m_pc s' i = Active" "m_counters s' = snd (sub_inactive_thread (m_counters s))"
      by (simp_all add: set_defs)
    have "sleeping_set N s' = sleeping_set N s" by (rule S(3)) (simp_all add: m m' p work_found(2))
    moreover have "inactive_set N s' = inactive_set N s - {i}" by (rule I(2)) (simp_all add: m' p)
    moreover have "i \<in> inactive_set N s" by (simp add: m work_found(2))
    ultimately show ?thesis using counters_sub_inactive [OF T] by (simp add: tally_def p)
  next
    case (idle_again d d' c)
    then have p: "m_pc s' i = Looking d'" "m_counters s' = c" by (simp_all add: set_defs)
    show ?thesis
      by (rule same) (simp_all add: m m' p idle_again(2) no_work_found_counters [OF T small idle_again(3)])
  next
    case (commit d old ok c)
    then have p: "m_pc s' i = (if ok then Committed d else BitSet d)" "m_counters s' = c" by (simp_all add: set_defs)
    show ?thesis
    proof (cases ok)
      case True
      with commit(3) have c: "c = m_counters s + ONE_SLEEPING"
        by (auto simp: try_add_sleeping_thread_def split: if_splits)
      have "sleeping_set N s' = insert i (sleeping_set N s)" by (rule S(1)) (simp_all add: m' p True)
      moreover have "inactive_set N s' = inactive_set N s" by (rule I(3)) (simp_all add: m m' p commit(2))
      moreover have "i \<notin> sleeping_set N s" by (simp add: m commit(2))
      ultimately show ?thesis using counters_add_sleeping [OF T] by (simp add: tally_def p c)
    next
      case False
      with commit(3) have "c = m_counters s" by (auto simp: try_add_sleeping_thread_def split: if_splits)
      then show ?thesis by (intro same) (simp_all add: m m' p commit(2) False T)
    qed
  next
    case (abort_sub d)
    then have p: "m_pc s' i = AbortSub d" "m_counters s' = sub_sleeping_thread (m_counters s)"
      by (simp_all add: set_defs)
    have "sleeping_set N s' = sleeping_set N s - {i}" by (rule S(2)) (simp_all add: m' p)
    moreover have "inactive_set N s' = inactive_set N s" by (rule I(3)) (simp_all add: m m' p abort_sub(2))
    moreover have "i \<in> sleeping_set N s" by (simp add: m abort_sub(2))
    ultimately show ?thesis using counters_sub_sleeping [OF T] by (simp add: tally_def p)
  next
    case (park d)
    then have p: "m_pc s' i = Parked d" "m_counters s' = m_counters s" "m_blocked s' i" by (simp_all add: set_defs)
    show ?thesis by (rule same) (use member_at(4) [OF inv' i p(3)] in \<open>simp_all add: m m' p park(2) T\<close>)
  next
    case (unpark d)
    then have p: "m_pc s' i = Woken d" "m_counters s' = m_counters s" by (simp_all add: set_defs)
    show ?thesis by (rule same) (use member_at(5) [OF inv i] unpark(2-) in \<open>simp_all add: m(3) m' p T\<close>)
  next
    case (spurious d)
    then show ?thesis by (intro same) (simp_all add: member_defs set_defs T [unfolded member_defs])
  next
    case (wait_again d)
    then show ?thesis by (intro same) (simp_all add: member_defs set_defs T [unfolded member_defs])
  next
    case (check_injected d)
    then have p: "m_pc s' i = Abort d \<or> m_pc s' i = ParkReady d" "m_counters s' = m_counters s"
      by (simp_all add: set_defs)
    show ?thesis by (rule same) (use p(1) check_injected(2) in \<open>auto simp: m m' p(2) T\<close>)
  qed (rule same; use m m' T in \<open>simp add: set_defs\<close>)+
qed

end
