(* ===== verification/Sleep_Safe.thy ===== *)
theory Sleep_Safe
  imports Sleep_Inv
begin

text \<open>
  Further invariants of the sleep protocol, on the steps of posters and wakers: the packed counters,
  the sleeping mask and the indices a scan can produce, for every reachable state.
\<close>

section \<open>Indices in range\<close>

definition bits_ok :: "nat \<Rightarrow> nat \<Rightarrow> 64 word \<Rightarrow> bool" where
  "bits_ok N w bits \<longleftrightarrow> (\<forall>b. bit bits b \<longrightarrow> w * 64 + b < N)"

fun pos_ok :: "nat \<Rightarrow> scan_pos \<Rightarrow> bool" where
  "pos_ok N None \<longleftrightarrow> True"
| "pos_ok N (Some (k, w, bits)) \<longleftrightarrow> 0 < k \<and> bits_ok N w bits"

fun task_ok :: "nat \<Rightarrow> task \<Rightarrow> bool" where
  "task_ok N (Scan k w) \<longleftrightarrow> 0 < k"
| "task_ok N (Bits k w bits) \<longleftrightarrow> 0 < k \<and> bits_ok N w bits"
| "task_ok N (WLock ctx i) \<longleftrightarrow> i < N \<and> pos_ok N ctx"
| "task_ok N (WClear ctx i) \<longleftrightarrow> i < N \<and> pos_ok N ctx"
| "task_ok N (WSub ctx i) \<longleftrightarrow> i < N \<and> pos_ok N ctx"
| "task_ok N (WNotify ctx i) \<longleftrightarrow> i < N \<and> pos_ok N ctx"
| "task_ok N _ \<longleftrightarrow> True"

definition range_inv :: "nat \<Rightarrow> machine \<Rightarrow> bool" where
  "range_inv N s \<longleftrightarrow> (\<forall>i. N \<le> i \<longrightarrow> m_pc s i = Active) \<and> (\<forall>a. task_ok N (m_task s a))"

definition mask_inv :: "nat \<Rightarrow> machine \<Rightarrow> bool" where
  "mask_inv N s \<longleftrightarrow> mask_is N (m_mask s) (bit_set N s)"

lemma trailing_zeros_bit:
  assumes "bits \<noteq> 0"
  shows "bit bits (trailing_zeros bits)"
proof -
  from assms obtain k ks where k: "set_bits bits = k # ks" using set_bits_empty by (cases "set_bits bits") auto
  then have "bit bits k" unfolding set_bits_def by (auto dest!: filter_eq_ConsD)
  with k show ?thesis by (simp add: trailing_zeros_def)
qed

lemma bits_ok_clear: "bits_ok N w bits \<Longrightarrow> bits_ok N w (bits AND NOT m)"
  by (simp add: bits_ok_def bit_and_iff)

lemma task_ok_after: "pos_ok N ctx \<Longrightarrow> task_ok N (after_wake ctx b)"
  by (cases "(ctx, b)" rule: after_wake.cases) auto

lemma start_scan_ok [simp]: "task_ok N (start_scan k)"
  by (simp add: start_scan_def)

lemma mask_word_bits:
  assumes "mask_is N m S" "S \<subseteq> {..<N}" "N \<le> THREADS_MAX" "w < sm_n_words m"
  shows "bits_ok N w (sm_words m ! w)"
  unfolding bits_ok_def
proof (intro allI impI)
  fix b assume b: "bit (sm_words m ! w) b"
  have b64: "b < 64" by (rule bit_word_lt [OF b])
  have "w < 8" using assms(1, 3, 4)
    by (simp add: mask_is_def div_ceil_def BITS_PER_WORD_def THREADS_MAX_def THREADS_BITS_def)
  with b64 have "w * 64 + b < 512" by simp
  moreover have "mask_member m (w * 64 + b)" using b b64 by (simp add: mask_member_def)
  ultimately have "w * 64 + b \<in> S" using assms(1) by (simp add: mask_is_def)
  with assms(2) show "w * 64 + b < N" by auto
qed

lemma bit_set_sub: "bit_set N s \<subseteq> {..<N}"
  by (auto simp: bit_set_def)

lemma range_task:
  assumes step: "task_step N a s s'" and "range_inv N s" and "mask_inv N s" and "N \<le> THREADS_MAX"
  shows "range_inv N s'"
proof -
  have ok: "task_ok N (m_task s a)" using assms(2) by (simp add: range_inv_def)
  have "task_ok N (m_task s' a)" using step
  proof cases
    case (scan_word k w)
    with ok mask_word_bits [OF assms(3) [unfolded mask_inv_def] bit_set_sub assms(4)]
    show ?thesis by (simp add: set_defs)
  next
    case (next_bit k w bits p)
    with ok trailing_zeros_bit [of bits] show ?thesis
      by (simp add: set_defs bits_ok_clear BITS_PER_WORD_def) (simp add: bits_ok_def)
  qed (use ok in \<open>auto simp: set_defs task_ok_after\<close>)
  moreover have "m_pc s' = m_pc s" "\<And>b. b \<noteq> a \<Longrightarrow> m_task s' b = m_task s b"
    using step by (cases; simp add: set_defs)+
  ultimately show ?thesis using assms(2) unfolding range_inv_def by metis
qed

lemma range_worker:
  assumes step: "worker_step i s s'" and "i < N" and "range_inv N s"
  shows "range_inv N s'"
  using step assms(2, 3) by cases (auto simp: range_inv_def set_defs)

section \<open>Counters and mask under a waker's step\<close>

lemma waker_at:
  assumes "ctl_inv s" "range_inv N s" "wakes (m_task s a) i"
  shows "i < N" "is_parked (m_pc s i)" "\<not> m_blocked s i" "\<And>b. b \<noteq> a \<Longrightarrow> \<not> wakes (m_task s b) i"
proof -
  show p: "is_parked (m_pc s i)" "\<not> m_blocked s i"
    using ctl_at [OF assms(1), of i] assms(3) unfolding worker_ctl_def by blast+
  show "i < N" using p(1) assms(2) by (cases "i < N") (auto simp: range_inv_def)
  show "\<And>b. b \<noteq> a \<Longrightarrow> \<not> wakes (m_task s b) i" using assms(1, 3) unfolding ctl_inv_def by blast
qed

text \<open>A task that is inside no critical section before or after its step changes no set.\<close>

lemma sets_same_task:
  assumes "m_pc s' = m_pc s" "m_blocked s' = m_blocked s" "\<And>b. b \<noteq> a \<Longrightarrow> m_task s' b = m_task s b"
  shows "(\<And>i. wakes (m_task s' a) i = wakes (m_task s a) i) \<Longrightarrow> sleeping_set N s' = sleeping_set N s"
    "inactive_set N s' = inactive_set N s"
    "(\<And>i. clears (m_task s' a) i = clears (m_task s a) i) \<Longrightarrow> bit_set N s' = bit_set N s"
proof -
  have w: "(\<exists>b. P (m_task s' b)) = (\<exists>b. P (m_task s b))" if "P (m_task s' a) = P (m_task s a)" for P
    using that assms(3) by metis
  show "(\<And>i. wakes (m_task s' a) i = wakes (m_task s a) i) \<Longrightarrow> sleeping_set N s' = sleeping_set N s"
    using w [of "\<lambda>t. wakes t _"] by (simp add: sleeping_set_def assms)
  show "(\<And>i. clears (m_task s' a) i = clears (m_task s a) i) \<Longrightarrow> bit_set N s' = bit_set N s"
    using w [of "\<lambda>t. clears t _"] by (simp add: bit_set_def assms)
qed (simp add: inactive_set_def assms)

lemma task_step_frame:
  assumes "task_step N a s s'"
  shows "m_pc s' = m_pc s" "\<And>b. b \<noteq> a \<Longrightarrow> m_task s' b = m_task s b"
  using assms by (cases; simp add: set_defs)+

lemma tally_task:
  assumes step: "task_step N a s s'" and inv: "ctl_inv s" and rng: "range_inv N s" and N: "N \<le> THREADS_MAX"
    and tally: "tally N s"
  shows "tally N s'"
proof -
  note fr = task_step_frame [OF step]
  note T = tally [unfolded tally_def]
  have small: "card (sleeping_set N s) < 2 ^ 9" "card (inactive_set N s) < 2 ^ 9"
    using counts_le [OF inv, of N] N by (auto simp: THREADS_MAX_def THREADS_BITS_def)
  have same: "tally N s'" if "counters_are (m_counters s') (sleeping_set N s) (inactive_set N s)"
    "m_blocked s' = m_blocked s" "\<And>i. wakes (m_task s' a) i = wakes (m_task s a) i"
    using that(1) sets_same_task(1, 2) [OF fr(1) that(2) fr(2), where N = N] that(3) by (simp add: tally_def)
  show ?thesis using step
  proof cases
    case (post injected n b k c)
    then have "counters_are c (sleeping_set N s) (inactive_set N s)"
      using counters_bump(1) [OF T small] by (auto simp: new_jobs_def Let_def)
    with post show ?thesis by (intro same) (simp_all add: set_defs)
  next
    case (wake_blocked ctx i)
    then have "m_counters s' = m_counters s" "inactive_set N s' = inactive_set N s"
      by (simp_all add: set_defs inactive_set_def)
    moreover have "sleeping_set N s' = sleeping_set N s"
    proof (rule set_upd_same [where i = i])
      show "(i \<in> sleeping_set N s') = (i \<in> sleeping_set N s)"
        using wake_blocked by (auto simp: sleeping_set_def set_defs)
      show "(j \<in> sleeping_set N s') = (j \<in> sleeping_set N s)" if "j \<noteq> i" for j
        using wake_blocked that by (simp add: sleeping_set_def set_defs) (metis wakes.simps(7))
    qed
    ultimately show ?thesis using T by (simp add: tally_def)
  next
    case (wake_sub ctx i)
    then have "wakes (m_task s a) i" by simp
    note wk = waker_at [OF inv rng this]
    have "m_counters s' = sub_sleeping_thread (m_counters s)" "inactive_set N s' = inactive_set N s"
      using wake_sub by (simp_all add: set_defs inactive_set_def)
    moreover have "i \<in> sleeping_set N s" using wk(1) \<open>wakes (m_task s a) i\<close> by (auto simp: sleeping_set_def)
    moreover have "sleeping_set N s' = sleeping_set N s - {i}"
    proof (rule set_upd_out)
      show "i \<notin> sleeping_set N s'"
        using wake_sub wk(2-) by (auto simp: sleeping_set_def set_defs elim!: is_parked_cases)
      show "(j \<in> sleeping_set N s') = (j \<in> sleeping_set N s)" if "j \<noteq> i" for j
        using wake_sub that by (simp add: sleeping_set_def set_defs) (metis wakes.simps(2) wakes.simps(8))
    qed
    ultimately show ?thesis using counters_sub_sleeping [OF T] by (simp add: tally_def)
  qed (rule same; use T in \<open>simp add: set_defs\<close>)+
qed

lemma lt_512: "i < N \<Longrightarrow> N \<le> THREADS_MAX \<Longrightarrow> i < 512"
  by (simp add: THREADS_MAX_def THREADS_BITS_def)

lemma mask_task:
  assumes step: "task_step N a s s'" and inv: "ctl_inv s" and rng: "range_inv N s" and N: "N \<le> THREADS_MAX"
    and mask: "mask_inv N s"
  shows "mask_inv N s'"
proof -
  note fr = task_step_frame [OF step]
  note M = mask [unfolded mask_inv_def]
  have same: "mask_inv N s'" if "m_mask s' = m_mask s"
    "m_blocked s' = m_blocked s" "\<And>i. clears (m_task s' a) i = clears (m_task s a) i"
    using M that(1) sets_same_task(3) [OF fr(1) that(2) fr(2), where N = N] that(3) by (simp add: mask_inv_def)
  show ?thesis using step
  proof cases
    case (wake_blocked ctx i)
    have "bit_set N s' = bit_set N s"
    proof (rule set_upd_same [where i = i])
      show "(i \<in> bit_set N s') = (i \<in> bit_set N s)" using wake_blocked by (auto simp: bit_set_def set_defs)
      show "(j \<in> bit_set N s') = (j \<in> bit_set N s)" if "j \<noteq> i" for j
        using wake_blocked that by (simp add: bit_set_def set_defs) (metis clears.simps(6))
    qed
    with wake_blocked M show ?thesis by (simp add: mask_inv_def set_defs)
  next
    case (wake_clear ctx i m)
    then have "wakes (m_task s a) i" by simp
    note wk = waker_at [OF inv rng this]
    have "bit_set N s' = bit_set N s - {i}"
    proof (rule set_upd_out)
      show "i \<notin> bit_set N s'"
        using wake_clear wk(2-) clears_wakes by (auto simp: bit_set_def set_defs elim!: is_parked_cases)
      show "(j \<in> bit_set N s') = (j \<in> bit_set N s)" if "j \<noteq> i" for j
        using wake_clear that by (simp add: bit_set_def set_defs) (metis clears.simps(1) clears.simps(7))
    qed
    with mask_is_clear [OF M lt_512 [OF wk(1) N] wake_clear(3)] wake_clear(1) show ?thesis
      by (simp add: mask_inv_def set_defs)
  qed (rule same; simp add: set_defs)+
qed

lemma mask_worker:
  assumes step: "worker_step i s s'" and i: "i < N" and N: "N \<le> THREADS_MAX" and inv: "ctl_inv s"
    and mask: "mask_inv N s"
  shows "mask_inv N s'"
proof -
  note inv' = ctl_worker [OF step inv]
  note m = member_at(2) [OF inv i] and m' = member_at(2) [OF inv' i]
  note fr = worker_step_frame(3) [OF step, where N = N]
  note M = mask [unfolded mask_inv_def]
  have same: "mask_inv N s'" if "m_mask s' = m_mask s" "(i \<in> bit_set N s') = (i \<in> bit_set N s)"
    using M that(1) set_upd_same [where i = i, OF fr that(2)] by (simp add: mask_inv_def)
  have clr: "mask_inv N s'" if "mask_clear (m_mask s) i = Inr (m_mask s')" "i \<notin> bit_set N s'"
    using mask_is_clear [OF M lt_512 [OF i N] that(1)] set_upd_out [where i = i, OF fr that(2)]
    by (simp add: mask_inv_def)
  show ?thesis using step
  proof cases
    case (publish d m)
    then have p: "m_pc s' i = BitSet d" "m_mask s' = m" by (simp_all add: set_defs)
    then have "bit_set N s' = insert i (bit_set N s)" by (intro set_upd_in [where i = i, OF fr]) (simp_all add: m')
    with mask_is_set [OF M lt_512 [OF i N] publish(3)] p show ?thesis by (simp add: mask_inv_def)
  next
    case (stale_clear d m)
    then have p: "m_pc s' i = StaleClear d" "m_mask s' = m" by (simp_all add: set_defs)
    with stale_clear(3) show ?thesis by (intro clr) (simp_all add: m')
  next
    case (abort_clear d m)
    then have p: "m_pc s' i = Woken d" "m_mask s' = m" by (simp_all add: set_defs)
    with abort_clear(3) show ?thesis by (intro clr) (simp_all add: m')
  next
    case (park d)
    then have p: "m_pc s' i = Parked d" "m_mask s' = m_mask s" "m_blocked s' i" by (simp_all add: set_defs)
    show ?thesis by (rule same) (use member_at(4) [OF inv' i p(3)] in \<open>simp_all add: m p park(2)\<close>)
  next
    case (unpark d)
    then have p: "m_pc s' i = Woken d" "m_mask s' = m_mask s" by (simp_all add: set_defs)
    show ?thesis by (rule same) (use member_at(5) [OF inv i] unpark(2-) in \<open>simp_all add: m' p\<close>)
  next
    case (spurious d)
    then show ?thesis by (intro same) (simp_all add: bit_set_def set_defs)
  next
    case (wait_again d)
    then show ?thesis by (intro same) (simp_all add: bit_set_def set_defs)
  next
    case (check_injected d)
    then have p: "m_pc s' i = Abort d \<or> m_pc s' i = ParkReady d" "m_mask s' = m_mask s"
      by (simp_all add: set_defs)
    show ?thesis by (rule same) (use p(1) check_injected(2) in \<open>auto simp: m m' p(2)\<close>)
  next
    case (commit d old ok c)
    then have p: "m_pc s' i = Committed d \<or> m_pc s' i = BitSet d" "m_mask s' = m_mask s"
      by (simp_all add: set_defs)
    show ?thesis by (rule same) (use p(1) commit(2) in \<open>auto simp: m m' p(2)\<close>)
  qed (rule same; use m m' in \<open>simp add: set_defs\<close>)+
qed

section \<open>All of them, in every reachable state\<close>

definition pool_inv :: "nat \<Rightarrow> machine \<Rightarrow> bool" where
  "pool_inv N s \<longleftrightarrow> ctl_inv s \<and> range_inv N s \<and> tally N s \<and> mask_inv N s"

lemma pool_inv_init: "pool_inv N (machine_init N)"
proof -
  have z: "mask_member (mask_new N) j = False" if "j < 512" for j
    using that by (simp add: mask_member_def mask_new_def MASK_WORDS_8 less_mult_imp_div_less)
  have "sleeping_set N (machine_init N) = {}" "inactive_set N (machine_init N) = {}" "bit_set N (machine_init N) = {}"
    by (simp_all add: member_defs machine_init_def)
  moreover have "counters_new = pack 0 0 0" by (simp add: counters_new_def pack_def)
  then have "\<exists>j<2 ^ 46. counters_new = pack 0 0 j" by (metis zero_less_numeral zero_less_power)
  moreover have "m_counters (machine_init N) = counters_new" "m_mask (machine_init N) = mask_new N"
    by (simp_all add: machine_init_def)
  ultimately have "tally N (machine_init N)" "mask_inv N (machine_init N)"
    by (simp_all add: tally_def counters_are_def mask_inv_def mask_is_def z)
       (simp add: mask_wf_def mask_new_def)
  moreover have "range_inv N (machine_init N)" by (simp add: range_inv_def machine_init_def)
  ultimately show ?thesis using ctl_reach [OF reach.init] by (simp add: pool_inv_def)
qed

lemma pool_inv_reach:
  assumes "reach N s" "N \<le> THREADS_MAX"
  shows "pool_inv N s"
  using assms
proof (induction rule: reach.induct)
  case init
  show ?case by (rule pool_inv_init)
next
  case (worker s i s')
  then show ?case unfolding pool_inv_def
    using ctl_worker range_worker tally_worker mask_worker by blast
next
  case (task s a s')
  then show ?case unfolding pool_inv_def
    using ctl_task range_task tally_task mask_task by blast
qed

end
