(* ===== verification/Sleep_Wake.thy ===== *)
theory Sleep_Wake
  imports Sleep_Safe
begin

text \<open>
  Why no wake-up is lost: the invariants that relate posted jobs and set latches to the wakers that
  are still on their way, and the record each sleepy worker keeps of the event counter.
\<close>

section \<open>Posted jobs\<close>

text \<open>A worker that will not look at the injector again before it is woken.\<close>

fun down :: "wpc \<Rightarrow> bool \<Rightarrow> bool" where
  "down (ParkReady _) b = True"
| "down (Parked _) b = b"
| "down _ b = False"

text \<open>A thread that is bound to wake a worker, provided all of them are down.\<close>

fun covers :: "nat \<Rightarrow> task \<Rightarrow> bool" where
  "covers N (Pushing True n _) \<longleftrightarrow> 0 < n"
| "covers N (Scan _ w) \<longleftrightarrow> w * 64 < N"
| "covers N (Bits _ w bits) \<longleftrightarrow> bits \<noteq> 0 \<or> Suc w * 64 < N"
| "covers N (WLock _ _) \<longleftrightarrow> True"
| "covers N _ \<longleftrightarrow> False"

definition all_down :: "nat \<Rightarrow> machine \<Rightarrow> bool" where
  "all_down N s \<longleftrightarrow> (\<forall>i < N. down (m_pc s i) (m_blocked s i))"

definition queue_inv :: "nat \<Rightarrow> machine \<Rightarrow> bool" where
  "queue_inv N s \<longleftrightarrow> (0 < m_queue s \<longrightarrow> all_down N s \<longrightarrow> (\<exists>a. covers N (m_task s a)))"

lemma queue_worker:
  assumes step: "worker_step i s s'" and "i < N" and "queue_inv N s"
  shows "queue_inv N s'"
proof (cases "down (m_pc s' i) (m_blocked s' i) \<and> 0 < m_queue s'")
  case True
  from step True
  have at: "m_queue s' = m_queue s" "m_task s' = m_task s" "down (m_pc s i) (m_blocked s i)"
    by (cases, auto simp: set_defs split: if_splits)+
  have "m_pc s' j = m_pc s j \<and> m_blocked s' j = m_blocked s j" if "j \<noteq> i" for j
    using step that by cases (simp_all add: set_defs)
  with at(3) have "down (m_pc s' j) (m_blocked s' j) \<Longrightarrow> down (m_pc s j) (m_blocked s j)" for j by (cases "j = i") simp_all
  with assms(3) at(1, 2) show ?thesis by (simp add: queue_inv_def all_down_def)
next
  case False
  with assms(2) show ?thesis unfolding queue_inv_def all_down_def by blast
qed

lemma down_counted: "ctl_inv s \<Longrightarrow> all_down N s \<Longrightarrow> sleeping_set N s = {..<N} \<and> inactive_set N s = {..<N}"
proof -
  assume a: "ctl_inv s" "all_down N s"
  have "{..<N} \<subseteq> sleeping_set N s"
  proof
    fix i assume "i \<in> {..<N}"
    with a(2) have "i < N" "down (m_pc s i) (m_blocked s i)" by (auto simp: all_down_def)
    then show "i \<in> sleeping_set N s" by (cases "m_pc s i") (auto simp: sleeping_set_def)
  qed
  moreover have "sleeping_set N s \<subseteq> inactive_set N s" by (rule sleeping_sub_inactive [OF a(1)])
  moreover have "inactive_set N s \<subseteq> {..<N}" by (auto simp: inactive_set_def)
  ultimately show ?thesis by blast
qed

lemma down_published:
  assumes "all_down N s" "i < N"
  shows "i \<in> bit_set N s"
proof -
  from assms have "down (m_pc s i) (m_blocked s i)" by (simp add: all_down_def)
  then show ?thesis using assms(2) by (cases "m_pc s i") (auto simp: bit_set_def)
qed

lemma counters_read:
  assumes "counters_are c S I" "card S \<le> card I" "card I \<le> THREADS_MAX"
  shows "unat (sleeping_threads c) = card S" "unat (inactive_threads c) = card I"
    "unat (awake_but_idle_threads c) = card I - card S"
proof -
  from assms(1) obtain j where j: "j < 2 ^ 46" "c = pack (card S) (card I) j" by (auto simp: counters_are_def)
  have b: "card S < 2 ^ 9" "card I < 2 ^ 9" using assms(2, 3) by (auto simp: THREADS_MAX_def THREADS_BITS_def)
  show f: "unat (sleeping_threads c) = card S" "unat (inactive_threads c) = card I"
    using pack_fields [OF b j(1)] j(2) by auto
  have "sleeping_threads c \<le> inactive_threads c" using f assms(2) by (simp add: word_le_nat_alt)
  then show "unat (awake_but_idle_threads c) = card I - card S"
    by (simp add: awake_but_idle_threads_def unat_sub f)
qed

lemma new_jobs_wakes:
  assumes "counters_are c S I" "card S = card I" "0 < card I" "card I \<le> THREADS_MAX" "0 < n"
  shows "0 < fst (new_jobs n b c)"
proof -
  have "card S < 2 ^ 9" "card I < 2 ^ 9" using assms(2, 4) by (auto simp: THREADS_MAX_def THREADS_BITS_def)
  note c' = counters_bump(1) [OF assms(1) this]
  from counters_read [OF c'] assms show ?thesis by (simp add: new_jobs_def Let_def)
qed

lemma scan_in_words: "w * 64 < N \<longleftrightarrow> w < div_ceil N BITS_PER_WORD"
  by (auto simp: div_ceil_def BITS_PER_WORD_def)

lemma word_not_empty:
  assumes "mask_is N m (bit_set N s)" "all_down N s" "w * 64 < N" "N \<le> THREADS_MAX"
  shows "sm_words m ! w \<noteq> 0"
proof -
  have "w * 64 \<in> bit_set N s" by (rule down_published [OF assms(2, 3)])
  moreover have "w * 64 < 512" by (rule lt_512 [OF assms(3, 4)])
  ultimately have "mask_member m (w * 64)" using assms(1) by (simp add: mask_is_def)
  then show ?thesis by (auto simp: mask_member_def)
qed

lemma queue_task:
  assumes step: "task_step N a s s'" and pool: "pool_inv N s" and N: "N \<le> THREADS_MAX" "0 < N"
    and q: "queue_inv N s"
  shows "queue_inv N s'"
  unfolding queue_inv_def
proof (intro impI)
  assume q': "0 < m_queue s'" and d': "all_down N s'"
  note fr = task_step_frame [OF step]
  note P = pool [unfolded pool_inv_def mask_inv_def tally_def]
  have "m_blocked s' i \<Longrightarrow> m_blocked s i" for i using step by cases (simp_all add: set_defs split: if_splits)
  with d' fr(1) have d: "all_down N s" unfolding all_down_def by (metis down.simps(2) wpc.exhaust down.simps)
  show "\<exists>b. covers N (m_task s' b)"
  proof (cases "0 < m_queue s")
    case True
    with q d obtain b where b: "covers N (m_task s b)" by (auto simp: queue_inv_def)
    show ?thesis
    proof (cases "b = a")
      case False
      with b fr(2) show ?thesis by metis
    next
      case True
      note cov = b [unfolded True]
      have "covers N (m_task s' a)" using step
      proof cases
        case (post injected n b k c)
        have "0 < fst (new_jobs n b (m_counters s))"
          by (rule new_jobs_wakes [where S = "sleeping_set N s" and I = "inactive_set N s"])
             (use P down_counted [of s N] d N post(3) in auto)
        with post N(2) show ?thesis by (simp add: set_defs start_scan_def)
      next
        case (post_nothing injected b)
        with cov show ?thesis by (cases injected) auto
      next
        case (scan_word k w)
        with cov have "w * 64 < N" by simp
        with word_not_empty [of N "m_mask s" s w] P d N scan_word show ?thesis by (simp add: set_defs)
      next
        case (scan_end k w)
        with cov P scan_in_words [of w N] show ?thesis by (simp add: mask_is_def)
      next
        case (wake_blocked ctx i)
        with P have "i < N" by (metis range_inv_def task_ok.simps(3))
        with d' have "down (m_pc s' i) (m_blocked s' i)" by (simp add: all_down_def)
        with wake_blocked show ?thesis by (cases "m_pc s i") (auto simp: set_defs lock_free_def)
      next
        case (wake_missed ctx i)
        with P have "i < N" by (metis range_inv_def task_ok.simps(3))
        with d have "down (m_pc s i) (m_blocked s i)" by (simp add: all_down_def)
        with wake_missed show ?thesis by (cases "m_pc s i") (auto simp: lock_free_def)
      qed (use cov in \<open>auto simp: set_defs\<close>)
      then show ?thesis by blast
    qed
  next
    case False
    from step False q' have "covers N (m_task s' a)" by cases (simp_all add: set_defs)
    then show ?thesis by blast
  qed
qed

lemma queue_reach:
  assumes "reach N s" "N \<le> THREADS_MAX" "0 < N"
  shows "queue_inv N s"
  using assms
proof (induction rule: reach.induct)
  case init
  then show ?case by (simp add: queue_inv_def machine_init_def)
next
  case (worker s i s')
  then show ?case using queue_worker by blast
next
  case (task s a s')
  then show ?case using queue_task pool_inv_reach by blast
qed

section \<open>Set latches\<close>

text \<open>From \<open>fall_asleep\<close> until it is woken, a worker whose latch is set has a notifier on its way.\<close>

fun deep :: "wpc \<Rightarrow> bool \<Rightarrow> bool" where
  "deep Active b = False"
| "deep (Looking _) b = False"
| "deep (Found _) b = False"
| "deep (GotSleepy _) b = False"
| "deep (HoldLock _) b = False"
| "deep (StaleClear _) b = False"
| "deep (Woken _) b = False"
| "deep (Parked _) b = b"
| "deep _ b = True"

definition latch_inv :: "nat \<Rightarrow> machine \<Rightarrow> bool" where
  "latch_inv N s \<longleftrightarrow>
     (\<forall>i < N. deep (m_pc s i) (m_blocked s i) \<longrightarrow> m_latch s i = SET \<longrightarrow> (\<exists>a. m_task s a = WLock None i))"

lemma latch_worker:
  assumes step: "worker_step i s s'" and "latch_inv N s" and "ctl_inv s"
  shows "latch_inv N s'"
  unfolding latch_inv_def
proof (intro allI impI)
  fix j assume j: "j < N" "deep (m_pc s' j) (m_blocked s' j)" "m_latch s' j = SET"
  have "m_task s' a = WLock None j" if "m_task s a = WLock None j" for a
    using step that by cases (auto simp: set_defs)
  then have keep: "\<exists>a. m_task s' a = WLock None j" if "\<exists>a. m_task s a = WLock None j" using that by blast
  have "deep (m_pc s j) (m_blocked s j) \<and> m_latch s j = SET"
  proof (cases "j = i")
    case True
    with step j ctl_at [OF assms(3), of i] show ?thesis
      by cases (auto simp: set_defs worker_ctl_def core_latch_new_def split: if_splits)
  next
    case False
    with step j show ?thesis by cases (simp_all add: set_defs)
  qed
  with assms(2) j(1) keep show "\<exists>a. m_task s' a = WLock None j" by (auto simp: latch_inv_def)
qed

lemma latch_task:
  assumes step: "task_step N a s s'" and "latch_inv N s" and "ctl_inv s"
  shows "latch_inv N s'"
  unfolding latch_inv_def
proof (intro allI impI)
  fix j assume j: "j < N" "deep (m_pc s' j) (m_blocked s' j)" "m_latch s' j = SET"
  note fr = task_step_frame [OF step]
  have b: "m_blocked s' j \<Longrightarrow> m_blocked s j" using step by cases (simp_all add: set_defs split: if_splits)
  have deep: "deep (m_pc s j) (m_blocked s j)" using j(2) fr(1) b by (cases "m_pc s j") auto
  show "\<exists>a. m_task s' a = WLock None j"
  proof (cases "m_latch s j = SET")
    case True
    with assms(2) j(1) deep obtain c where c: "m_task s c = WLock None j" by (auto simp: latch_inv_def)
    show ?thesis
    proof (cases "c = a")
      case False
      with c fr(2) show ?thesis by metis
    next
      case True
      from step have False
        by cases (use c True deep j(2) fr(1) in \<open>auto simp: set_defs lock_free_def elim!: deep.elims\<close>)
      then show ?thesis ..
    qed
  next
    case False
    with deep ctl_at [OF assms(3), of j] have "m_latch s j = SLEEPING"
      by (cases "m_pc s j") (auto simp: worker_ctl_def)
    with step j(3) have "m_task s' a = WLock None j"
      by cases (auto simp: set_defs split: if_splits)
    then show ?thesis by blast
  qed
qed

lemma latch_reach: "reach N s \<Longrightarrow> latch_inv N s"
proof (induction rule: reach.induct)
  case init
  then show ?case by (simp add: latch_inv_def machine_init_def)
next
  case (worker s i s')
  then show ?case using latch_worker ctl_reach by blast
next
  case (task s a s')
  then show ?case using latch_task ctl_reach by blast
qed

section \<open>Notifications\<close>

text \<open>A thread that has dropped the mutex of a worker and is still to notify it.\<close>

fun notifies :: "task \<Rightarrow> nat \<Rightarrow> bool" where
  "notifies (WNotify _ j) i \<longleftrightarrow> j = i"
| "notifies _ i \<longleftrightarrow> False"

lemma notifies_simps [simp]: "\<not> notifies (after_wake ctx b) i" "\<not> notifies (start_scan k) i"
  by (cases "(ctx, b)" rule: after_wake.cases; simp) (simp add: start_scan_def)

lemma notifiesE: "notifies t i \<Longrightarrow> (\<And>ctx. t = WNotify ctx i \<Longrightarrow> P) \<Longrightarrow> P"
  by (cases t) auto

text \<open>
  A member of a wait set is in its wait loop, and it is still blocked unless a thread that has
  unblocked it is on its way to its \<^verbatim>\<open>notify_one\<close>.
\<close>

definition signalled :: "machine \<Rightarrow> nat \<Rightarrow> bool" where
  "signalled s i \<longleftrightarrow> (\<exists>a. wakes (m_task s a) i \<or> notifies (m_task s a) i)"

definition wait_inv :: "machine \<Rightarrow> bool" where
  "wait_inv s \<longleftrightarrow> (\<forall>i. m_waiting s i \<longrightarrow> is_parked (m_pc s i) \<and> (m_blocked s i \<or> signalled s i))"

lemma wait_worker:
  assumes step: "worker_step i s s'" and "wait_inv s"
  shows "wait_inv s'"
  unfolding wait_inv_def
proof (intro allI impI)
  fix j assume j: "m_waiting s' j"
  have "signalled s' j" if "signalled s j"
  proof -
    from that obtain a where a: "wakes (m_task s a) j \<or> notifies (m_task s a) j" by (auto simp: signalled_def)
    have "m_task s' a = m_task s a" using step a by cases (auto simp: set_defs)
    with a show ?thesis unfolding signalled_def by metis
  qed
  then have old: "m_waiting s j \<Longrightarrow> is_parked (m_pc s j) \<and> (m_blocked s j \<or> signalled s' j)"
    using assms(2) by (auto simp: wait_inv_def)
  show "is_parked (m_pc s' j) \<and> (m_blocked s' j \<or> signalled s' j)"
    using step j old by cases (auto simp: set_defs split: if_splits)
qed

lemma wait_task:
  assumes step: "task_step N a s s'" and "wait_inv s"
  shows "wait_inv s'"
  unfolding wait_inv_def
proof (intro allI impI)
  fix j assume j: "m_waiting s' j"
  note fr = task_step_frame [OF step]
  have w: "m_waiting s j" using step j by cases (auto simp: set_defs split: if_splits)
  have "m_blocked s' j \<or> signalled s' j"
  proof (cases "m_blocked s j")
    case True
    with step have "m_blocked s' j \<or> wakes (m_task s' a) j" by cases (auto simp: set_defs)
    then show ?thesis by (auto simp: signalled_def)
  next
    case False
    with assms(2) w obtain b where b: "wakes (m_task s b) j \<or> notifies (m_task s b) j"
      by (auto simp: wait_inv_def signalled_def)
    have "wakes (m_task s' b) j \<or> notifies (m_task s' b) j"
    proof (cases "b = a")
      case True
      with step b j show ?thesis by cases (auto simp: set_defs)
    qed (use b fr(2) in simp)
    then show ?thesis by (auto simp: signalled_def)
  qed
  with assms(2) w fr(1) show "is_parked (m_pc s' j) \<and> (m_blocked s' j \<or> signalled s' j)" by (simp add: wait_inv_def)
qed

lemma wait_reach: "reach N s \<Longrightarrow> wait_inv s"
proof (induction rule: reach.induct)
  case init
  then show ?case by (simp add: wait_inv_def machine_init_def)
qed (auto intro: wait_worker wait_task)

end
