(* ===== verification/Sleep_Claims.thy ===== *)
theory Sleep_Claims
  imports Sleep_Wake
begin

text \<open>
  What the sleep protocol guarantees in every reachable state: exact counters, no lost wake-up for
  posted jobs and for set latches, and that a post sends every sleepy worker back to look again.
\<close>

section \<open>The recorded event counter\<close>

fun idle_of :: "wpc \<Rightarrow> idle_state option" where
  "idle_of Active = None"
| "idle_of (Looking d) = Some d"
| "idle_of (Found d) = Some d"
| "idle_of (GotSleepy d) = Some d"
| "idle_of (HoldLock d) = Some d"
| "idle_of (Asleep d) = Some d"
| "idle_of (BitSet d) = Some d"
| "idle_of (Loaded d _) = Some d"
| "idle_of (Stale d) = Some d"
| "idle_of (StaleClear d) = Some d"
| "idle_of (Committed d) = Some d"
| "idle_of (Abort d) = Some d"
| "idle_of (AbortSub d) = Some d"
| "idle_of (ParkReady d) = Some d"
| "idle_of (Parked d) = Some d"
| "idle_of (Woken d) = Some d"

fun loaded_of :: "wpc \<Rightarrow> (idle_state \<times> 64 word) option" where
  "loaded_of (Loaded d c) = Some (d, c)"
| "loaded_of _ = None"

definition record_ok :: "wpc \<Rightarrow> bool" where
  "record_ok p \<longleftrightarrow>
     (\<forall>d. idle_of p = Some d \<longrightarrow> id_jobs_counter d = JEC_DUMMY \<or> jec_is_sleepy (id_jobs_counter d)) \<and>
     (\<forall>d c. loaded_of p = Some (d, c) \<longrightarrow> jobs_counter c = id_jobs_counter d)"

lemma announce_is_sleepy:
  assumes "counters_are c S I" "card S < 2 ^ 9" "card I < 2 ^ 9"
  shows "jec_is_sleepy (jobs_counter (increment_jobs_event_counter_if jec_is_active c))"
    "\<not> jec_is_sleepy (jobs_counter (increment_jobs_event_counter_if jec_is_sleepy c))"
proof -
  from assms(1) obtain j where j: "j < 2 ^ 46" "c = pack (card S) (card I) j" by (auto simp: counters_are_def)
  have e: "even ((j + 1) mod 2 ^ 46) \<longleftrightarrow> odd j" by (simp add: dvd_mod_iff)
  have "even (bump (odd j) j)" "odd (bump (even j) j)" using e by (auto simp: bump_def)
  then show "jec_is_sleepy (jobs_counter (increment_jobs_event_counter_if jec_is_active c))"
    "\<not> jec_is_sleepy (jobs_counter (increment_jobs_event_counter_if jec_is_sleepy c))"
    using pack_bump [OF assms(2, 3) j(1)] jec_sleepy_parity [OF assms(2, 3) bump_lt [OF j(1)]]
    by (simp_all add: j(2))
qed

lemma dummy_not_counter:
  assumes "counters_are c S I" "card S < 2 ^ 9" "card I < 2 ^ 9"
  shows "jobs_counter c \<noteq> JEC_DUMMY"
proof -
  from assms(1) obtain j where j: "j < 2 ^ 46" "c = pack (card S) (card I) j" by (auto simp: counters_are_def)
  have "unat (jobs_counter c) < 2 ^ 46" using pack_fields(3) [OF assms(2, 3) j(1)] j by simp
  moreover have "unat JEC_DUMMY = 2 ^ 64 - 1"
    by (simp add: JEC_DUMMY_def unsigned_minus_1_eq_mask mask_eq_exp_minus_1)
  ultimately show ?thesis by auto
qed

lemma wake_records [simp]: "id_jobs_counter (wake_fully d) = JEC_DUMMY" "id_jobs_counter (wake_partly d) = JEC_DUMMY"
  by (simp_all add: wake_fully_def wake_partly_def)

lemma no_work_found_record:
  assumes "no_work_found c d = IdleAgain d' c'" "record_ok (Looking d)"
    and "jec_is_sleepy (jobs_counter (increment_jobs_event_counter_if jec_is_active c))"
  shows "record_ok (Looking d')"
  using assms by (auto simp: no_work_found_def announce_sleepy_def record_ok_def Let_def split: if_splits)

lemma no_work_found_sleep: "no_work_found c d = GoToSleep d' \<Longrightarrow> d' = d"
  by (auto simp: no_work_found_def announce_sleepy_def Let_def split: if_splits)

lemma pool_small:
  assumes "pool_inv N s" "N \<le> THREADS_MAX"
  shows "counters_are (m_counters s) (sleeping_set N s) (inactive_set N s)"
    "card (sleeping_set N s) < 2 ^ 9" "card (inactive_set N s) < 2 ^ 9"
  using assms counts_le [of s N] by (auto simp: pool_inv_def tally_def THREADS_MAX_def THREADS_BITS_def)

lemma record_worker:
  assumes step: "worker_step i s s'" and "pool_inv N s" and "N \<le> THREADS_MAX" and r: "\<And>j. record_ok (m_pc s j)"
  shows "record_ok (m_pc s' j)"
  using step
proof cases
  case (idle_again d d' c)
  have "record_ok (Looking d)" using r [of i] idle_again(2) by simp
  from no_work_found_record [OF idle_again(3) this announce_is_sleepy(1) [OF pool_small [OF assms(2, 3)]]]
  show ?thesis using idle_again(1) r by (simp add: set_defs)
next
  case (sleep_begin d d' l)
  then show ?thesis using r [of i] r [of j] no_work_found_sleep [OF sleep_begin(3)]
    by (simp add: set_defs record_ok_def)
next
  case (sleep_set d d' l)
  then show ?thesis using r [of i] r [of j] no_work_found_sleep [OF sleep_set(3)]
    by (simp add: set_defs record_ok_def)
qed (use r [of i] r [of j] in \<open>auto simp: set_defs record_ok_def start_looking_def\<close>)

lemma record_reach:
  assumes "reach N s" "N \<le> THREADS_MAX"
  shows "record_ok (m_pc s j)"
  using assms
proof (induction arbitrary: j rule: reach.induct)
  case init
  then show ?case by (simp add: record_ok_def machine_init_def)
next
  case (worker s i s')
  then show ?case using record_worker [OF worker(3) pool_inv_reach [OF worker(1)]] by blast
next
  case (task s a s')
  then show ?case using task_step_frame(1) by metis
qed

section \<open>A waker on its own\<close>

text \<open>
  Runs of one poster or waker that finishes what it has begun: a thread with nothing to do takes no
  step, so the run starts no new post. \<open>frees\<close>: it brings the pool to a state where some worker has
  left the wait set, finds its mutex free and its flag clear.
\<close>

definition busy_step :: "nat \<Rightarrow> nat \<Rightarrow> machine \<Rightarrow> machine \<Rightarrow> bool" where
  "busy_step N a s s' \<longleftrightarrow> m_task s a \<noteq> TIdle \<and> task_step N a s s'"

definition all_blocked :: "nat \<Rightarrow> machine \<Rightarrow> bool" where
  "all_blocked N s \<longleftrightarrow> (\<forall>i < N. m_blocked s i)"

definition ready :: "machine \<Rightarrow> nat \<Rightarrow> bool" where
  "ready s i \<longleftrightarrow> is_parked (m_pc s i) \<and> \<not> m_blocked s i \<and> \<not> m_waiting s i \<and> lock_free s i"

definition frees :: "nat \<Rightarrow> nat \<Rightarrow> machine \<Rightarrow> bool" where
  "frees N a s \<longleftrightarrow> (\<exists>s' i. (busy_step N a)\<^sup>*\<^sup>* s s' \<and> i < N \<and> ready s' i)"

lemma frees_step:
  assumes "task_step N a s s'" "frees N a s'" "m_task s a \<noteq> TIdle"
  shows "frees N a s"
proof -
  have "busy_step N a s s'" using assms by (simp add: busy_step_def)
  with assms(2) show ?thesis unfolding frees_def by (meson converse_rtranclp_into_rtranclp)
qed

lemma frees_notify:
  assumes "m_task s a = WNotify ctx i" "i < N" "is_parked (m_pc s i)" "\<not> m_blocked s i" "lock_free s i"
  shows "frees N a s"
proof (rule frees_step [OF task_step.notify [OF assms(1)]])
  have "ready (set_task a (after_wake ctx True) (set_waiting i False s)) i"
    using assms by (simp add: ready_def set_defs lock_free_def)
  with assms(2) show "frees N a (set_task a (after_wake ctx True) (set_waiting i False s))"
    unfolding frees_def by blast
qed (simp add: assms(1))

lemma frees_sub:
  assumes "ctl_inv s" "range_inv N s" "m_task s a = WSub ctx i"
  shows "frees N a s"
proof (rule frees_step [OF task_step.wake_sub [OF assms(3)]])
  have "wakes (m_task s a) i" using assms(3) by simp
  note w = waker_at [OF assms(1, 2) this]
  show "frees N a (set_task a (WNotify ctx i) (s\<lparr>m_counters := sub_sleeping_thread (m_counters s)\<rparr>))"
    by (rule frees_notify [where i = i and ctx = ctx])
       (use w in \<open>auto simp: set_defs lock_free_def elim!: is_parked_cases\<close>)
qed (simp add: assms(3))

lemma frees_clear:
  assumes "reach N s" "N \<le> THREADS_MAX" "m_task s a = WClear ctx i"
  shows "frees N a s"
proof -
  note p = pool_inv_reach [OF assms(1, 2), unfolded pool_inv_def]
  have "wakes (m_task s a) i" using assms(3) by simp
  then have "i < N" using waker_at(1) p by blast
  moreover have "mask_wf (m_mask s)" using p by (simp add: mask_inv_def mask_is_def)
  ultimately obtain m where m: "mask_clear (m_mask s) i = Inr m" using mask_clear_ok [of "m_mask s" i] assms(2) by auto
  note st = task_step.wake_clear [OF assms(3) m, of N]
  note p' = pool_inv_reach [OF reach.task [OF assms(1) st] assms(2), unfolded pool_inv_def]
  show ?thesis
    by (rule frees_step [OF st frees_sub [where ctx = ctx and i = i]]) (use p' assms(3) in \<open>simp_all add: set_defs\<close>)
qed

lemma frees_wakes:
  assumes "reach N s" "N \<le> THREADS_MAX" "wakes (m_task s a) i"
  shows "frees N a s"
proof (cases "m_task s a")
  case (WClear ctx j)
  with assms(1, 2) show ?thesis by (rule frees_clear)
next
  case (WSub ctx j)
  with pool_inv_reach [OF assms(1, 2), unfolded pool_inv_def] show ?thesis by (intro frees_sub) auto
qed (use assms(3) in auto)

text \<open>A worker in its wait loop that somebody has unblocked: it is free to go, or its notifier is on its way.\<close>

lemma unblocked_freed:
  assumes "reach N s" "N \<le> THREADS_MAX" "i < N" "is_parked (m_pc s i)" "\<not> m_blocked s i"
  shows "\<exists>a. frees N a s"
proof (cases "\<exists>a. wakes (m_task s a) i")
  case True
  with frees_wakes [OF assms(1, 2)] show ?thesis by blast
next
  case False
  with assms(4) have l: "lock_free s i" by (auto simp: lock_free_def elim!: is_parked_cases)
  show ?thesis
  proof (cases "m_waiting s i")
    case True
    with wait_reach [OF assms(1)] assms(5) False obtain a where "notifies (m_task s a) i"
      by (auto simp: wait_inv_def signalled_def)
    then obtain ctx where "m_task s a = WNotify ctx i" by (rule notifiesE)
    from frees_notify [OF this assms(3-5) l] show ?thesis by blast
  next
    case False
    with l assms(4, 5) have "ready s i" by (simp add: ready_def)
    with assms(3) show ?thesis unfolding frees_def by blast
  qed
qed

lemma all_blocked_down: "ctl_inv s \<Longrightarrow> all_blocked N s \<Longrightarrow> all_down N s"
proof -
  assume a: "ctl_inv s" "all_blocked N s"
  have "down (m_pc s i) (m_blocked s i)" if "i < N" for i
    using ctl_at [OF a(1), of i] a(2) that by (auto simp: all_blocked_def worker_ctl_def elim!: is_parked_cases)
  then show ?thesis by (simp add: all_down_def)
qed

definition solo :: "nat \<Rightarrow> machine \<Rightarrow> bool" where
  "solo N s \<longleftrightarrow> reach N s \<and> N \<le> THREADS_MAX \<and> 0 < N \<and> all_blocked N s"

lemma soloD:
  assumes "solo N s"
  shows "pool_inv N s" "ctl_inv s" "range_inv N s" "all_down N s" "N \<le> THREADS_MAX" "0 < N"
  using assms pool_inv_reach [of N s] all_blocked_down [of s N] by (auto simp: pool_inv_def solo_def)

lemma frees_lock:
  assumes "solo N s" "m_task s a = WLock ctx i"
  shows "frees N a s"
proof -
  note so = soloD [OF assms(1)]
  have i: "i < N" using so(3) assms(2) by (metis range_inv_def task_ok.simps(3))
  with assms(1) have b: "m_blocked s i" by (simp add: solo_def all_blocked_def)
  have "lock_free s i" using b ctl_at [OF so(2), of i]
    by (auto simp: lock_free_def worker_ctl_def elim!: is_parked_cases)
  note st = task_step.wake_blocked [OF assms(2) this b, of N]
  have "reach N s" using assms(1) by (simp add: solo_def)
  show ?thesis
    by (rule frees_step [OF st frees_clear [OF reach.task [OF \<open>reach N s\<close> st] so(5)]])
       (simp_all add: set_defs assms(2))
qed

lemma solo_next:
  assumes "solo N s" "task_step N a s s'" "m_blocked s' = m_blocked s"
  shows "solo N s'"
  using assms reach.task [OF _ assms(2)] by (simp add: solo_def all_blocked_def)

lemma frees_bits:
  assumes "solo N s" "m_task s a = Bits k w bits" "bits \<noteq> 0"
  shows "frees N a s"
proof -
  note st = task_step.next_bit [OF assms(2, 3) refl, of N]
  have "solo N (set_task a (WLock (Some (k, w, bits AND NOT (push_bit (trailing_zeros bits) 1)))
      (w * BITS_PER_WORD + trailing_zeros bits)) s)"
    by (rule solo_next [OF assms(1) st]) (simp add: set_defs)
  then show ?thesis by (rule frees_step [OF st frees_lock]) (simp_all add: set_defs assms(2))
qed

lemma frees_scan:
  assumes "solo N s" "m_task s a = Scan k w" "w * 64 < N"
  shows "frees N a s"
proof -
  note so = soloD [OF assms(1)]
  have m: "mask_is N (m_mask s) (bit_set N s)" using so(1) by (simp add: pool_inv_def mask_inv_def)
  then have "w < sm_n_words (m_mask s)" using assms(3) scan_in_words [of w N] by (simp add: mask_is_def)
  note st = task_step.scan_word [OF assms(2) this, of N]
  have "solo N (set_task a (Bits k w (sm_words (m_mask s) ! w)) s)"
    by (rule solo_next [OF assms(1) st]) (simp add: set_defs)
  then show ?thesis
    by (rule frees_step [OF st frees_bits])
       (use word_not_empty [OF m so(4) assms(3) so(5)] assms(2) in \<open>simp_all add: set_defs\<close>)
qed

lemma frees_covers:
  assumes "solo N s" "covers N (m_task s a)"
  shows "frees N a s"
proof (cases "m_task s a")
  case (Pushing injected n b)
  note so = soloD [OF assms(1)]
  from assms(2) Pushing have n: "0 < n" by (cases injected) auto
  obtain k c where kc: "new_jobs n b (m_counters s) = (k, c)" by (cases "new_jobs n b (m_counters s)")
  have "0 < fst (new_jobs n b (m_counters s))"
    by (rule new_jobs_wakes [OF pool_small(1) [OF so(1, 5)]]) (use down_counted [OF so(2, 4)] so n in auto)
  with kc have k: "0 < k" by simp
  note st = task_step.post [OF Pushing n kc, of N]
  have "solo N (set_task a (start_scan k) (s\<lparr>m_counters := c\<rparr>))"
    by (rule solo_next [OF assms(1) st]) (simp add: set_defs)
  then show ?thesis
    by (rule frees_step [OF st frees_scan [where w = 0]]) (use k so Pushing in \<open>simp_all add: set_defs start_scan_def\<close>)
next
  case (Scan k w)
  with assms show ?thesis by (intro frees_scan) auto
next
  case (Bits k w bits)
  show ?thesis
  proof (cases "bits = 0")
    case False
    with Bits assms(1) show ?thesis by (intro frees_bits)
  next
    case True
    with Bits have b: "m_task s a = Bits k w 0" by simp
    note st = task_step.next_word [OF b, of N]
    have "solo N (set_task a (Scan k (Suc w)) s)" by (rule solo_next [OF assms(1) st]) (simp add: set_defs)
    then show ?thesis
      by (rule frees_step [OF st frees_scan [where k = k and w = "Suc w"]]) (use assms(2) b in \<open>simp_all add: set_defs\<close>)
  qed
next
  case (WLock ctx i)
  with assms(1) show ?thesis by (intro frees_lock)
qed (use assms(2) in auto)

section \<open>A run into the park\<close>

text \<open>One worker with the spin and yield rounds set to zero, from its start to its park.\<close>

definition run_at :: "wpc \<Rightarrow> latch_state \<Rightarrow> 64 word \<Rightarrow> sleep_mask \<Rightarrow> machine \<Rightarrow> bool" where
  "run_at p l c k s \<longleftrightarrow> reach 1 s \<and> m_pc s 0 = p \<and> m_latch s 0 = l \<and> m_counters s = c \<and> m_mask s = k \<and>
     m_queue s = 0 \<and> (\<forall>a. m_task s a = TIdle)"

lemma run_step:
  assumes "run_at p l c k s" "worker_step 0 s s'" "run_at p l c k s \<Longrightarrow> m_pc s' 0 = p'"
    "run_at p l c k s \<Longrightarrow> m_latch s' 0 = l' \<and> m_counters s' = c' \<and> m_mask s' = k' \<and> m_queue s' = m_queue s \<and> m_task s' = m_task s"
  shows "run_at p' l' c' k' s'"
  using assms reach.worker [of 1 s 0 s'] by (simp add: run_at_def)

lemma run_begin: "run_at Active UNSET 0 (mask_new 1) (machine_init 1)"
proof -
  have "reach 1 (machine_init 1)" by (rule reach.init)
  then show ?thesis unfolding run_at_def
    by (rule conjI) (simp add: machine_init_def core_latch_new_def counters_new_def)
qed

lemma parked_reachable:
  "\<exists>s d. reach 1 s \<and> m_pc s 0 = Parked d \<and> m_blocked s 0 \<and> m_queue s = 0 \<and> m_latch s 0 = SLEEPING \<and>
     (\<forall>a. m_task s a = TIdle) \<and> m_waiting s 0"
proof -
  let ?t = "\<lparr>tn_spin = 0, tn_yield_rounds = 0\<rparr>"
  let ?d = "\<lparr>id_worker = 0, id_rounds = 0, id_tuning = ?t, id_jobs_counter = JEC_DUMMY\<rparr>"
  let ?e = "?d\<lparr>id_jobs_counter := 0, id_rounds := 1\<rparr>"
  obtain m where m: "mask_set (mask_new 1) 0 = Inr m" using mask_set_ok [of "mask_new 1" 0]
    by (auto simp: mask_wf_def mask_new_def)
  have jc: "jobs_counter 512 = 0" "increment_jobs_event_counter_if jec_is_active 512 = 512"
    by (simp_all add: jobs_counter_def select_jec_def JEC_SHIFT_def THREADS_BITS_def
        increment_jobs_event_counter_if_def jec_is_active_def jec_is_sleepy_def)
  have nw: "no_work_found 512 ?d = IdleAgain ?e 512" "no_work_found 512 ?e = GoToSleep ?e"
    by (simp_all add: no_work_found_def sleepy_round_def announce_sleepy_def u32_add_def jc)
  obtain s1 where r1: "run_at (Looking ?d) UNSET 512 (mask_new 1) s1"
    by (rule that, rule run_step [OF run_begin worker_step.start [where tuning = ?t and d = ?d and c = 512]])
       (use run_begin in \<open>auto simp: run_at_def set_defs start_looking_def add_inactive_thread_def
          ONE_INACTIVE_def INACTIVE_SHIFT_def THREADS_BITS_def\<close>)
  obtain s2 where r2: "run_at (Looking ?e) UNSET 512 (mask_new 1) s2"
    by (rule that, rule run_step [OF r1 worker_step.idle_again [where d = ?d and d' = ?e and c = 512]])
       (use r1 nw(1) in \<open>auto simp: run_at_def set_defs\<close>)
  obtain s3 where r3: "run_at (GotSleepy ?e) SLEEPY 512 (mask_new 1) s3"
    by (rule that, rule run_step [OF r2 worker_step.sleep_begin [where d = ?e and d' = ?e and l = SLEEPY]])
       (use r2 nw(2) in \<open>auto simp: run_at_def set_defs\<close>)
  obtain s4 where r4: "run_at (HoldLock ?e) SLEEPY 512 (mask_new 1) s4"
    by (rule that, rule run_step [OF r3 worker_step.take_lock [where d = ?e]])
       (use r3 in \<open>auto simp: run_at_def set_defs lock_free_def\<close>)
  obtain s5 where r5: "run_at (Asleep ?e) SLEEPING 512 (mask_new 1) s5"
    by (rule that, rule run_step [OF r4 worker_step.fall [where d = ?e and l = SLEEPING]])
       (use r4 in \<open>auto simp: run_at_def set_defs\<close>)
  obtain s6 where r6: "run_at (BitSet ?e) SLEEPING 512 m s6"
    by (rule that, rule run_step [OF r5 worker_step.publish [where d = ?e and m = m]])
       (use r5 m in \<open>auto simp: run_at_def set_defs\<close>)
  obtain s7 where r7: "run_at (Loaded ?e 512) SLEEPING 512 m s7"
    by (rule that, rule run_step [OF r6 worker_step.load_same [where d = ?e]])
       (use r6 jc in \<open>auto simp: run_at_def set_defs\<close>)
  obtain s8 where r8: "run_at (Committed ?e) SLEEPING 513 m s8"
    by (rule that, rule run_step [OF r7 worker_step.commit [where d = ?e and old = 512 and ok = True and c = 513]])
       (use r7 in \<open>auto simp: run_at_def set_defs try_add_sleeping_thread_def ONE_SLEEPING_def\<close>)
  obtain s9 where r9: "run_at (ParkReady ?e) SLEEPING 513 m s9"
    by (rule that, rule run_step [OF r8 worker_step.check_injected [where d = ?e]])
       (use r8 in \<open>auto simp: run_at_def set_defs\<close>)
  have p9: "m_pc s9 0 = ParkReady ?e" using r9 by (simp add: run_at_def)
  define s where "s = set_pc 0 (Parked ?e) (set_waiting 0 True (s9\<lparr>m_blocked := (m_blocked s9)(0 := True)\<rparr>))"
  have "run_at (Parked ?e) SLEEPING 513 m s" unfolding s_def
    by (rule run_step [OF r9 worker_step.park [OF p9]]) (auto simp: run_at_def set_defs)
  moreover have "m_blocked s 0" "m_waiting s 0" by (simp_all add: s_def set_defs)
  ultimately show ?thesis unfolding run_at_def by blast
qed

section \<open>Properties\<close>

text \<open>
  C14. Exact counters. In every reachable state of a pool of at most \<open>THREADS_MAX\<close> workers, the three
  fields packed into one word do not interfere: the sleeping field is the number of workers that
  committed to sleep and were not yet taken off by a waker, the inactive field the number of workers
  in their idle loop, sleeping never exceeds inactive, and so the subtraction of
  \<open>awake_but_idle_threads\<close> does not wrap.
\<close>

theorem pool_counters_exact:
  assumes "reach N s" and "N \<le> THREADS_MAX"
  shows "unat (sleeping_threads (m_counters s)) = card (sleeping_set N s) \<and>
    unat (inactive_threads (m_counters s)) = card (inactive_set N s) \<and>
    sleeping_set N s \<subseteq> inactive_set N s \<and>
    unat (awake_but_idle_threads (m_counters s)) = card (inactive_set N s) - card (sleeping_set N s)"
proof -
  note p = pool_inv_reach [OF assms]
  then have c: "ctl_inv s" by (simp add: pool_inv_def)
  have "card (inactive_set N s) \<le> THREADS_MAX" using counts_le(2) [OF c, of N] assms(2) by simp
  with counters_read [OF pool_small(1) [OF p assms(2)] counts_le(1) [OF c]] sleeping_sub_inactive [OF c]
  show ?thesis by simp
qed

theorem pool_counters_exact_witness:
  "\<exists>s. reach 1 s \<and> m_blocked s 0 \<and> unat (sleeping_threads (m_counters s)) = 1"
proof -
  obtain s d where s: "reach 1 s" "m_blocked s 0" using parked_reachable by blast
  have "1 \<le> THREADS_MAX" by (simp add: THREADS_MAX_def THREADS_BITS_def)
  then have "unat (sleeping_threads (m_counters s)) = card (sleeping_set 1 s)"
    using pool_counters_exact [OF s(1)] by blast
  moreover have "sleeping_set 1 s = {0}" using s(2) by (auto simp: sleeping_set_def)
  ultimately show ?thesis using s by auto
qed

text \<open>
  C12. No lost wake-up for injected jobs. In every reachable state of a pool of at most
  \<open>THREADS_MAX\<close> workers in which all workers are inside their wait loop while the injector holds a
  job, one of them can still leave it: either a worker has been unblocked and notified and its next
  step takes the mutex and leaves the loop, or there is a thread that, by only finishing the post or
  the wake it has begun (its scan, the critical section and the \<^verbatim>\<open>notify_one\<close> after it), brings the
  pool to such a state. No spurious wake-up and no new post is needed for it. In particular a pool
  whose posters and wakers have all finished and whose workers all stand in their wait sets has an
  empty injector.
\<close>

theorem no_lost_wakeup:
  assumes "reach N s" and "0 < N" and "N \<le> THREADS_MAX"
    and "\<forall>i < N. is_parked (m_pc s i)" and "0 < m_queue s"
  shows "\<exists>a s' i d s''. (busy_step N a)\<^sup>*\<^sup>* s s' \<and> i < N \<and> m_pc s' i = Parked d \<and>
    worker_step i s' s'' \<and> m_pc s'' i = Woken d"
proof -
  have "\<exists>a. frees N a s"
  proof (cases "all_blocked N s")
    case True
    then have s: "solo N s" using assms by (simp add: solo_def)
    from queue_reach [OF assms(1, 3, 2)] soloD(4) [OF s] assms(5)
    obtain a where a: "covers N (m_task s a)" by (auto simp: queue_inv_def)
    from frees_covers [OF s a] show ?thesis ..
  next
    case False
    with assms(4) unblocked_freed [OF assms(1, 3)] show ?thesis by (auto simp: all_blocked_def)
  qed
  then obtain a s' i where r: "(busy_step N a)\<^sup>*\<^sup>* s s'" "i < N" "ready s' i" by (auto simp: frees_def)
  from r(3) obtain d where d: "m_pc s' i = Parked d" by (auto simp: ready_def elim!: is_parked_cases)
  have "worker_step i s' (set_pc i (Woken d) s')" using r(3) by (intro worker_step.unpark [OF d]) (simp_all add: ready_def)
  moreover have "m_pc (set_pc i (Woken d) s') i = Woken d" by (simp add: set_defs)
  ultimately show ?thesis using r(1, 2) d by blast
qed

theorem no_lost_wakeup_witness:
  "\<exists>s. reach 1 s \<and> m_queue s = 1 \<and> m_blocked s 0 \<and> m_waiting s 0 \<and>
     (\<exists>a s' i d s''. (busy_step 1 a)\<^sup>*\<^sup>* s s' \<and> i < 1 \<and> m_pc s' i = Parked d \<and>
        worker_step i s' s'' \<and> m_pc s'' i = Woken d)"
proof -
  obtain s d where s: "reach 1 s" "m_pc s 0 = Parked d" "m_blocked s 0" "m_queue s = 0" "\<forall>a. m_task s a = TIdle" "m_waiting s 0"
    using parked_reachable by blast
  let ?t = "set_task 0 (Pushing True 0 (m_queue s = 0)) s"
  let ?u = "set_task 0 (Pushing True (Suc 0) (m_queue s = 0)) (?t\<lparr>m_queue := m_queue ?t + 1\<rparr>)"
  have t: "reach 1 ?t" by (rule reach.task [OF s(1) task_step.begin_inject]) (simp add: s)
  have u: "reach 1 ?u" by (rule reach.task [OF t task_step.push_injected]) (simp add: set_defs)
  have "1 \<le> THREADS_MAX" by (simp add: THREADS_MAX_def THREADS_BITS_def)
  then have "\<exists>a s' i d s''. (busy_step 1 a)\<^sup>*\<^sup>* ?u s' \<and> i < 1 \<and> m_pc s' i = Parked d \<and>
      worker_step i s' s'' \<and> m_pc s'' i = Woken d"
    by (intro no_lost_wakeup [OF u]) (auto simp: set_defs s)
  moreover have "m_queue ?u = 1" "m_blocked ?u 0" "m_waiting ?u 0" by (simp_all add: set_defs s)
  ultimately show ?thesis using u by blast
qed

text \<open>
  C13. No lost wake-up for latches. In every reachable state, a worker that is parked and blocked and
  whose latch is set has a notifier on its way: the thread that set it is about to take the worker's
  mutex to wake exactly that worker.
\<close>

theorem set_latch_notifies_sleeper:
  assumes "reach N s" and "i < N" and "m_blocked s i" and "m_latch s i = SET"
  shows "\<exists>a. m_task s a = WLock None i"
proof -
  have "is_parked (m_pc s i)" using ctl_at [OF ctl_reach [OF assms(1)], of i] assms(3) by (simp add: worker_ctl_def)
  then have "deep (m_pc s i) (m_blocked s i)" using assms(3) by (cases "m_pc s i") auto
  with latch_reach [OF assms(1)] assms(2, 4) show ?thesis by (auto simp: latch_inv_def)
qed

theorem set_latch_notifies_sleeper_witness:
  "\<exists>s a. reach 1 s \<and> m_blocked s 0 \<and> m_latch s 0 = SET \<and> m_task s a = WLock None 0"
proof -
  obtain s d where s: "reach 1 s" "m_blocked s 0" "m_latch s 0 = SLEEPING" "\<forall>a. m_task s a = TIdle"
    using parked_reachable by blast
  let ?u = "set_task 0 (if True then WLock None 0 else TIdle) (set_latch 0 SET s)"
  have u: "reach 1 ?u" by (rule reach.task [OF s(1) task_step.latch_set [where i = 0]]) (simp_all add: s)
  have "\<exists>a. m_task ?u a = WLock None 0"
    by (rule set_latch_notifies_sleeper [OF u]) (simp_all add: set_defs s)
  moreover have "m_blocked ?u 0" "m_latch ?u 0 = SET" by (simp_all add: set_defs s)
  ultimately show ?thesis using u by blast
qed

text \<open>
  C15. A post sends sleepy workers back. Whatever the interleaving, right after a poster's \<open>new_jobs\<close>
  the event counter differs from the value every idle worker has recorded, and from the one in every
  word a worker has loaded but not yet exchanged: none of them can commit to sleep without
  first announcing itself again.
\<close>

theorem post_restarts_sleepy_workers:
  assumes "reach N s" and "N \<le> THREADS_MAX" and "new_jobs n b (m_counters s) = (k, c)"
  shows "(\<forall>i d. idle_of (m_pc s i) = Some d \<longrightarrow> jobs_counter c \<noteq> id_jobs_counter d) \<and>
    (\<forall>i d old. m_pc s i = Loaded d old \<longrightarrow> \<not> fst (try_add_sleeping_thread old c))"
proof -
  note pc = pool_small [OF pool_inv_reach [OF assms(1, 2)] assms(2)]
  have c: "c = increment_jobs_event_counter_if jec_is_sleepy (m_counters s)"
    using assms(3) by (simp add: new_jobs_def Let_def)
  have odd: "\<not> jec_is_sleepy (jobs_counter c)" "jobs_counter c \<noteq> JEC_DUMMY"
    using announce_is_sleepy(2) [OF pc] dummy_not_counter [OF counters_bump(1) [OF pc] pc(2, 3)] c by auto
  have r: "record_ok (m_pc s i)" for i by (rule record_reach [OF assms(1, 2)])
  have 1: "jobs_counter c \<noteq> id_jobs_counter d" if "idle_of (m_pc s i) = Some d" for i d
    using r [of i] odd that by (auto simp: record_ok_def)
  have "\<not> fst (try_add_sleeping_thread old c)" if "m_pc s i = Loaded d old" for i d old
  proof -
    have "jobs_counter old = id_jobs_counter d" using r [of i] that by (simp add: record_ok_def)
    with 1 [of i d] that have "c \<noteq> old" by auto
    then show ?thesis by (simp add: try_add_sleeping_thread_def)
  qed
  with 1 show ?thesis by blast
qed

theorem post_restarts_sleepy_workers_witness:
  "\<exists>s d. reach 1 s \<and> m_pc s 0 = Parked d \<and>
     jobs_counter (snd (new_jobs 1 True (m_counters s))) \<noteq> id_jobs_counter d"
proof -
  obtain s d where s: "reach 1 s" "m_pc s 0 = Parked d" using parked_reachable by blast
  have "1 \<le> THREADS_MAX" by (simp add: THREADS_MAX_def THREADS_BITS_def)
  moreover obtain k c where kc: "new_jobs 1 True (m_counters s) = (k, c)"
    by (cases "new_jobs 1 True (m_counters s)")
  ultimately have "\<forall>i d. idle_of (m_pc s i) = Some d \<longrightarrow> jobs_counter c \<noteq> id_jobs_counter d"
    using post_restarts_sleepy_workers [OF s(1)] by blast
  then show ?thesis using s kc by (metis idle_of.simps(15) snd_conv)
qed

end
