(* ===== verification/Sleep_Scan.thy ===== *)
theory Sleep_Scan
  imports Sleep
begin

text \<open>
  The wake scan run without interference: \<open>wake_any_threads\<close> of \<^verbatim>\<open>pool/sleep.rs\<close> through
  \<open>wake_scan\<close> of \<^verbatim>\<open>pool/sleep_mask.rs\<close> wakes the parked workers in the order of their indices.
\<close>

section \<open>Waking one worker\<close>

definition pool_wf :: "pool_sleep \<Rightarrow> bool" where
  "pool_wf p \<longleftrightarrow> length (ps_blocked p) \<le> THREADS_MAX \<and> mask_wf (ps_mask p) \<and>
     sm_n_words (ps_mask p) = div_ceil (length (ps_blocked p)) BITS_PER_WORD \<and>
     (\<forall>j < 512. mask_member (ps_mask p) j \<longleftrightarrow> j < length (ps_blocked p) \<and> ps_blocked p ! j)"

definition woken :: "pool_sleep \<Rightarrow> nat \<Rightarrow> pool_sleep" where
  "woken p i = snd (wake_callback p i)"

definition wake_list :: "pool_sleep \<Rightarrow> nat list \<Rightarrow> pool_sleep" where
  "wake_list p is = fold (\<lambda>i q. woken q i) is p"

lemma wake_list_simps [simp]:
  "wake_list p [] = p" "wake_list p (i # is) = wake_list (woken p i) is"
  "wake_list p (is @ js) = wake_list (wake_list p is) js"
  by (simp_all add: wake_list_def)

lemma wake_one:
  assumes "pool_wf p" "i < length (ps_blocked p)" "ps_blocked p ! i"
  shows "wake_callback p i = (True, woken p i)" "pool_wf (woken p i)"
    "ps_blocked (woken p i) = (ps_blocked p)[i := False]"
    "ps_counters (woken p i) = sub_sleeping_thread (ps_counters p)"
    "ps_notified (woken p i) = ps_notified p @ [i]"
proof -
  have i: "i \<le> THREADS_MAX" using assms(1, 2) by (simp add: pool_wf_def)
  from assms(1) have "mask_wf (ps_mask p)" by (simp add: pool_wf_def)
  from mask_clear_ok [OF this i] obtain m where m: "mask_clear (ps_mask p) i = Inr m" "mask_wf m"
    "sm_n_words m = sm_n_words (ps_mask p)" "\<forall>j. mask_member m j \<longleftrightarrow> j \<noteq> i \<and> mask_member (ps_mask p) j" by blast
  have w: "wake_callback p i = (True, p\<lparr>ps_blocked := (ps_blocked p)[i := False], ps_mask := m,
      ps_counters := sub_sleeping_thread (ps_counters p), ps_notified := ps_notified p @ [i]\<rparr>)"
    using assms m(1) by (simp add: wake_callback_def wake_specific_thread_def)
  then show "wake_callback p i = (True, woken p i)" "ps_blocked (woken p i) = (ps_blocked p)[i := False]"
    "ps_counters (woken p i) = sub_sleeping_thread (ps_counters p)"
    "ps_notified (woken p i) = ps_notified p @ [i]"
    by (simp_all add: woken_def)
  show "pool_wf (woken p i)"
    using assms m(2-) by (auto simp: pool_wf_def woken_def w nth_list_update)
qed

definition parked :: "pool_sleep \<Rightarrow> nat \<Rightarrow> bool" where
  "parked p i \<longleftrightarrow> i < length (ps_blocked p) \<and> ps_blocked p ! i"

lemma parked_wake_one: "pool_wf p \<Longrightarrow> parked p i \<Longrightarrow> parked (woken p i) j \<longleftrightarrow> parked p j \<and> j \<noteq> i"
  by (auto simp: parked_def wake_one(3) nth_list_update)

lemma wake_list_all:
  assumes "pool_wf p" "distinct is" "\<forall>i \<in> set is. parked p i"
  shows "pool_wf (wake_list p is) \<and> (\<forall>j. parked (wake_list p is) j \<longleftrightarrow> parked p j \<and> j \<notin> set is) \<and>
    length (ps_blocked (wake_list p is)) = length (ps_blocked p) \<and>
    ps_counters (wake_list p is) = ps_counters p - of_nat (length is) \<and>
    ps_notified (wake_list p is) = ps_notified p @ is"
  using assms
proof (induction "is" arbitrary: p)
  case (Cons i "is")
  have i: "i < length (ps_blocked p)" "ps_blocked p ! i" using Cons.prems(3) by (auto simp: parked_def)
  note w = wake_one [OF Cons.prems(1) i]
  have pi: "parked p i" using Cons.prems(3) by simp
  have "\<forall>k \<in> set is. parked (woken p i) k" using Cons.prems by (auto simp: parked_wake_one)
  from Cons.IH [OF w(2) _ this] Cons.prems(2) show ?case
    by (auto simp: w(3, 4, 5) parked_wake_one [OF Cons.prems(1) pi] sub_sleeping_thread_def ONE_SLEEPING_def)
qed simp

lemmas wake_list_ok = wake_list_all [THEN conjunct1] wake_list_all [THEN conjunct2, THEN conjunct1, THEN spec]
  wake_list_all [THEN conjunct2, THEN conjunct2, THEN conjunct1]
  wake_list_all [THEN conjunct2, THEN conjunct2, THEN conjunct2, THEN conjunct1]
  wake_list_all [THEN conjunct2, THEN conjunct2, THEN conjunct2, THEN conjunct2]

section \<open>The scan\<close>

definition index_of :: "nat \<Rightarrow> nat \<Rightarrow> nat" where
  "index_of w b = w * 64 + b"

lemma index_of_inj: "index_of w b = index_of w b' \<longleftrightarrow> b = b'"
  by (simp add: index_of_def)

text \<open>The outcome of a scan that has \<open>woken\<close> so far and meets the parked workers \<open>is\<close>.\<close>

definition scan_outcome :: "nat \<Rightarrow> nat \<Rightarrow> nat list \<Rightarrow> pool_sleep \<Rightarrow> pool_sleep scan_result" where
  "scan_outcome target n is p =
     (if target - n \<le> length is then ScanReached target (wake_list p (take (target - n) is))
      else ScanDone (n + length is) (wake_list p is))"

lemma scan_word_outcome:
  assumes "pool_wf p" "n < target" "set_bits bits = ks" "\<forall>k \<in> set ks. parked p (index_of w k)" "distinct ks"
  shows "scan_word wake_callback target w bits n p = scan_outcome target n (map (index_of w) ks) p"
  using assms
proof (induction ks arbitrary: bits n p)
  case Nil
  then have "bits = 0" using set_bits_empty by blast
  with Nil.prems(2) show ?case by (simp add: scan_word.simps scan_outcome_def)
next
  case (Cons k ks)
  have b: "bits \<noteq> 0" "trailing_zeros bits = k" "set_bits (bits AND NOT (push_bit k 1)) = ks"
    using Cons.prems(3) set_bits_empty [of bits] set_bits_clear [OF Cons.prems(3)] by (auto simp: trailing_zeros_def)
  have pk: "parked p (index_of w k)" using Cons.prems(4) by simp
  then have k: "index_of w k < length (ps_blocked p)" "ps_blocked p ! index_of w k" by (auto simp: parked_def)
  note wo = wake_one [OF Cons.prems(1) k]
  have cb: "wake_callback p (w * BITS_PER_WORD + k) = (True, woken p (index_of w k))"
    using wo(1) by (simp add: index_of_def BITS_PER_WORD_def)
  show ?case
  proof (cases "target \<le> n + 1")
    case True
    with Cons.prems(2) have "target = n + 1" by simp
    then show ?thesis unfolding scan_word.simps [of _ _ _ bits] Let_def b(2) cb
      using b(1) by (simp add: scan_outcome_def)
  next
    case False
    have "\<forall>j \<in> set ks. parked (woken p (index_of w k)) (index_of w j)"
      using Cons.prems(4, 5) parked_wake_one [OF Cons.prems(1) pk] by (auto simp: index_of_inj)
    from Cons.IH [OF wo(2) _ b(3) this] False Cons.prems(5)
    have "scan_word wake_callback target w (bits AND NOT (push_bit k 1)) (n + 1) (woken p (index_of w k)) =
        scan_outcome target (n + 1) (map (index_of w) ks) (woken p (index_of w k))" by simp
    moreover have "target - n = Suc (target - (n + 1))" using False by simp
    ultimately show ?thesis unfolding scan_word.simps [of _ _ _ bits] Let_def b(2) cb
      using b(1) False by (simp add: scan_outcome_def)
  qed
qed

lemma set_bits_word:
  assumes "pool_wf p" "w < sm_n_words (ps_mask p)"
  shows "set_bits (sm_words (ps_mask p) ! w) = filter (\<lambda>b. parked p (index_of w b)) [0..<64]"
  unfolding set_bits_def
proof (rule filter_cong [OF refl])
  fix b assume "b \<in> set [0..<64::nat]"
  then have b: "b < 64" by simp
  have "w < (63 + length (ps_blocked p)) div 64" "length (ps_blocked p) \<le> 511"
    using assms by (simp_all add: pool_wf_def div_ceil_def BITS_PER_WORD_def THREADS_MAX_def THREADS_BITS_def)
  then have "w < 8" by linarith
  with b have "index_of w b < 512" by (simp add: index_of_def)
  then have "parked p (index_of w b) = mask_member (ps_mask p) (index_of w b)"
    using assms(1) by (simp add: pool_wf_def parked_def)
  also have "\<dots> = bit (sm_words (ps_mask p) ! w) b" using b by (simp add: mask_member_def index_of_def)
  finally show "bit (sm_words (ps_mask p) ! w) b = parked p (index_of w b)" by simp
qed

definition word_members :: "pool_sleep \<Rightarrow> nat \<Rightarrow> nat list" where
  "word_members p w = map (index_of w) (filter (\<lambda>b. parked p (index_of w b)) [0..<64])"

lemma word_members_set: "set (word_members p w) = {i. parked p i \<and> i div 64 = w}"
proof -
  have "parked p x \<Longrightarrow> \<exists>b<64. parked p (x div 64 * 64 + b) \<and> x = x div 64 * 64 + b" for x
    by (rule exI [of _ "x mod 64"]) simp
  then show ?thesis by (auto simp: word_members_def index_of_def image_iff)
qed

lemma word_members_distinct: "distinct (word_members p w)"
  by (simp add: word_members_def distinct_map inj_on_def index_of_inj)

lemma scan_words_outcome:
  assumes "pool_wf p" "n < target" "distinct ws" "\<forall>w \<in> set ws. w < sm_n_words (ps_mask p)"
  shows "scan_words wake_callback (\<lambda>p. sm_words (ps_mask p)) target ws n p =
    scan_outcome target n (concat (map (word_members p) ws)) p"
  using assms
proof (induction ws arbitrary: n p)
  case Nil
  then show ?case by (simp add: scan_outcome_def)
next
  case (Cons w ws)
  let ?M = "word_members p w"
  have sb: "set_bits (sm_words (ps_mask p) ! w) = filter (\<lambda>b. parked p (index_of w b)) [0..<64]"
    using Cons.prems by (intro set_bits_word) auto
  have sw: "scan_word wake_callback target w (sm_words (ps_mask p) ! w) n p = scan_outcome target n ?M p"
    unfolding word_members_def by (rule scan_word_outcome [OF Cons.prems(1, 2) sb]) auto
  show ?case
  proof (cases "target - n \<le> length ?M")
    case True
    with sw show ?thesis by (simp add: scan_outcome_def)
  next
    case False
    define q where "q = wake_list p ?M"
    have ok: "\<forall>i \<in> set ?M. parked p i" by (simp add: word_members_set)
    note wl = wake_list_ok [OF Cons.prems(1) word_members_distinct ok, folded q_def]
    have "word_members q v = word_members p v" if "v \<in> set ws" for v
    proof -
      have "parked q (index_of v b) = parked p (index_of v b)" if "b < 64" for b
        using \<open>v \<in> set ws\<close> Cons.prems(3) that by (auto simp: wl(2) word_members_set index_of_def)
      then have "filter (\<lambda>b. parked q (index_of v b)) [0..<64] = filter (\<lambda>b. parked p (index_of v b)) [0..<64]"
        by (intro filter_cong) auto
      then show ?thesis by (simp add: word_members_def)
    qed
    then have eq: "concat (map (word_members q) ws) = concat (map (word_members p) ws)" by (metis map_eq_conv)
    have nw: "sm_n_words (ps_mask q) = sm_n_words (ps_mask p)"
      using wl(1, 3) Cons.prems(1) by (simp add: pool_wf_def)
    have "scan_words wake_callback (\<lambda>p. sm_words (ps_mask p)) target (w # ws) n p =
        scan_words wake_callback (\<lambda>p. sm_words (ps_mask p)) target ws (n + length ?M) q"
      using False by (simp add: sw scan_outcome_def q_def)
    also have "\<dots> = scan_outcome target (n + length ?M) (concat (map (word_members q) ws)) q"
      by (rule Cons.IH) (use wl(1) nw False Cons.prems in auto)
    also have "\<dots> = scan_outcome target n (concat (map (word_members p) (w # ws))) p"
      unfolding eq unfolding q_def using False by (auto simp: scan_outcome_def)
    finally show ?thesis .
  qed
qed

lemma upt_words: "concat (map (\<lambda>w. map (index_of w) [0..<64]) [0..<n]) = [0..<n * 64]"
proof (induction n)
  case (Suc n)
  have "map (index_of n) [0..<64] = [n * 64..<n * 64 + 64]"
    by (rule nth_equalityI) (simp_all add: index_of_def)
  with Suc show ?case using upt_add_eq_append [of 0 "n * 64" 64] by (simp add: add.commute)
qed simp

lemma members_all:
  assumes "pool_wf p"
  shows "concat (map (word_members p) [0..<sm_n_words (ps_mask p)]) = filter (parked p) [0..<length (ps_blocked p)]"
proof -
  let ?n = "sm_n_words (ps_mask p)" and ?N = "length (ps_blocked p)"
  have "word_members p = (\<lambda>w. filter (parked p) (map (index_of w) [0..<64]))"
    by (simp add: word_members_def fun_eq_iff filter_map comp_def)
  then have "concat (map (word_members p) [0..<?n]) = filter (parked p) (concat (map (\<lambda>w. map (index_of w) [0..<64]) [0..<?n]))"
    by (simp add: filter_concat comp_def)
  also have "\<dots> = filter (parked p) [0..<?n * 64]" by (simp only: upt_words)
  also have "?n * 64 = ?N + (?n * 64 - ?N)"
    using assms by (simp add: pool_wf_def div_ceil_def BITS_PER_WORD_def)
  also have "filter (parked p) [0..<?N + (?n * 64 - ?N)] = filter (parked p) [0..<?N]"
    by (simp only: upt_add_eq_append [OF le0]) (simp add: parked_def)
  finally show ?thesis .
qed

text \<open>
  The wake scan. With no interference, \<open>wake_any_threads\<close> returns, and wakes exactly the first
  \<open>min n\<close> parked workers in the order of their indices, all of them if there are no more than \<open>n\<close>:
  those workers and no others lose their blocked flag and their bit and are notified, in that order,
  and the sleeping field drops by one for each.
\<close>

theorem wake_any_threads_exact:
  assumes "pool_wf p"
  shows "\<exists>p'. wake_any_threads p n = Some (min n (length (filter (parked p) [0..<length (ps_blocked p)])), p') \<and>
    pool_wf p' \<and>
    (\<forall>i. parked p' i \<longleftrightarrow> parked p i \<and> i \<notin> set (take n (filter (parked p) [0..<length (ps_blocked p)]))) \<and>
    ps_counters p' = ps_counters p - of_nat (min n (length (filter (parked p) [0..<length (ps_blocked p)]))) \<and>
    ps_notified p' = ps_notified p @ take n (filter (parked p) [0..<length (ps_blocked p)])"
proof -
  let ?B = "filter (parked p) [0..<length (ps_blocked p)]"
  let ?nw = "sm_n_words (ps_mask p)"
  have "?nw = (63 + length (ps_blocked p)) div 64" "length (ps_blocked p) \<le> 511" "length (sm_words (ps_mask p)) = 8"
    using assms by (simp_all add: pool_wf_def mask_wf_def MASK_WORDS_8 div_ceil_def BITS_PER_WORD_def
        THREADS_MAX_def THREADS_BITS_def)
  then have "?nw \<le> length (sm_words (ps_mask p))" by linarith
  then have m: "min ?nw (length (sm_words (ps_mask p))) = ?nw" by simp
  have "wake_any_threads p n = Some (min n (length ?B), wake_list p (take n ?B))"
  proof (cases "n = 0")
    case False
    have "scan_words wake_callback (\<lambda>p. sm_words (ps_mask p)) n [0..<?nw] 0 p = scan_outcome n 0 ?B p"
      using scan_words_outcome [OF assms _ distinct_upt, of 0 n 0 ?nw] False members_all [OF assms] by simp
    with False m show ?thesis
      by (simp add: wake_any_threads_def wake_scan_def wake_scan_loop.simps [of _ _ ?nw] scan_outcome_def min_def)
  qed (simp add: wake_any_threads_def wake_scan_def)
  moreover have "distinct (take n ?B)" "\<forall>i \<in> set (take n ?B). parked p i" by (auto dest: in_set_takeD)
  note wake_list_ok [OF assms this]
  ultimately show ?thesis by (intro exI [of _ "wake_list p (take n ?B)"]) (simp add: min.commute)
qed

theorem wake_any_threads_exact_witness:
  "\<exists>m p'. mask_set (mask_new 2) 1 = Inr m \<and>
     wake_any_threads \<lparr>ps_blocked = [False, True], ps_counters = pack 1 1 0, ps_mask = m, ps_notified = []\<rparr> 3 = Some (1, p') \<and>
     \<not> parked p' 1 \<and> ps_counters p' = pack 1 1 0 - 1"
proof -
  have z: "\<forall>j < 512. \<not> mask_member (mask_new 2) j"
    by (simp add: mask_new_def mask_member_def MASK_WORDS_8 less_mult_imp_div_less)
  have wf: "mask_wf (mask_new 2)" by (simp add: mask_wf_def mask_new_def)
  have "1 \<le> THREADS_MAX" by (simp add: THREADS_MAX_def THREADS_BITS_def)
  from mask_set_ok [OF wf this] obtain m where m: "mask_set (mask_new 2) 1 = Inr m" "mask_wf m"
    "sm_n_words m = sm_n_words (mask_new 2)" "\<forall>j. mask_member m j \<longleftrightarrow> j = 1 \<or> mask_member (mask_new 2) j" by blast
  define p where "p = \<lparr>ps_blocked = [False, True], ps_counters = pack 1 1 0, ps_mask = m, ps_notified = []\<rparr>"
  have "Suc (Suc 0) \<le> THREADS_MAX" by (simp add: THREADS_MAX_def THREADS_BITS_def)
  then have "pool_wf p" using m z by (auto simp: pool_wf_def p_def mask_new_def nth_Cons' numeral_2_eq_2)
  note w = wake_any_threads_exact [OF this, of 3]
  have "filter (parked p) [0..<length (ps_blocked p)] = [1]"
    by (simp add: p_def parked_def upt_conv_Cons)
  with w m(1) show ?thesis unfolding p_def by fastforce
qed

end
