(* ===== verification/Sleep_Idle.thy ===== *)
theory Sleep_Idle
  imports Sleep
begin

text \<open>
  The back-off of an idle worker, \<open>no_work_found\<close> of \<^verbatim>\<open>pool/sleep.rs\<close>: spin, yield, announce, park.
\<close>

text \<open>The action after \<open>n\<close> rounds in which the worker found nothing and nobody changed the counters.\<close>

fun idle_run :: "nat \<Rightarrow> 64 word \<Rightarrow> idle_state \<Rightarrow> idle_action" where
  "idle_run 0 c d = IdleAgain d c"
| "idle_run (Suc n) c d =
     (case idle_run n c d of IdleAgain d' c' \<Rightarrow> no_work_found c' d' | GoToSleep d' \<Rightarrow> GoToSleep d')"

lemma idle_run_quiet:
  assumes "id_rounds d = 0" "n \<le> tn_spin (id_tuning d) + tn_yield_rounds (id_tuning d)"
    and "tn_spin (id_tuning d) + tn_yield_rounds (id_tuning d) + 1 < 2 ^ 32"
  shows "idle_run n c d = IdleAgain (d\<lparr>id_rounds := n\<rparr>) c"
  using assms(2)
proof (induction n)
  case 0
  then show ?case using assms(1) by simp
next
  case (Suc n)
  have "sleepy_round (id_tuning d) = tn_spin (id_tuning d) + tn_yield_rounds (id_tuning d)"
    using assms(3) by (simp add: sleepy_round_def u32_add_def)
  moreover have "u32_add n 1 = Suc n" using Suc.prems assms(3) by (simp add: u32_add_def)
  ultimately show ?case using Suc by (simp add: no_work_found_def Let_def)
qed

text \<open>
  Idle back-off. For round limits whose sum fits a \<^verbatim>\<open>u32\<close>, a worker that starts to look and finds
  nothing leaves the counters alone for exactly the spin and yield rounds, announces itself in the
  next one, recording an event counter that is sleepy, and goes to sleep in the one after: it
  neither parks before it announced nor spins for ever.
\<close>

theorem idle_backoff:
  assumes "tn_spin t + tn_yield_rounds t + 1 < 2 ^ 32" and "start_looking t c i = (d, c')"
    and "announce_sleepy c' = (j, c'')"
  shows "(\<forall>n \<le> tn_spin t + tn_yield_rounds t. idle_run n c' d = IdleAgain (d\<lparr>id_rounds := n\<rparr>) c') \<and>
    idle_run (tn_spin t + tn_yield_rounds t + 1) c' d =
      IdleAgain (d\<lparr>id_jobs_counter := j, id_rounds := tn_spin t + tn_yield_rounds t + 1\<rparr>) c'' \<and>
    j = jobs_counter c'' \<and>
    (\<exists>d'. idle_run (tn_spin t + tn_yield_rounds t + 2) c' d = GoToSleep d' \<and> id_jobs_counter d' = j)"
proof -
  let ?n = "tn_spin t + tn_yield_rounds t"
  have d: "id_rounds d = 0" "id_tuning d = t" using assms(2) by (auto simp: start_looking_def)
  have q: "idle_run n c' d = IdleAgain (d\<lparr>id_rounds := n\<rparr>) c'" if "n \<le> ?n" for n
    using idle_run_quiet [of d n c'] that assms(1) d by simp
  have s: "sleepy_round t = ?n" "u32_add ?n 1 = ?n + 1"
    using assms(1) by (simp_all add: sleepy_round_def u32_add_def)
  have a: "idle_run (?n + 1) c' d = IdleAgain (d\<lparr>id_jobs_counter := j, id_rounds := ?n + 1\<rparr>) c''"
    using q [of ?n] assms(3) s d by (simp add: no_work_found_def Let_def)
  then have "idle_run (Suc (?n + 1)) c' d = GoToSleep (d\<lparr>id_jobs_counter := j, id_rounds := ?n + 1\<rparr>)"
    unfolding idle_run.simps(2) by (simp add: no_work_found_def Let_def s(1) d)
  moreover have "j = jobs_counter c''" using assms(3) by (auto simp: announce_sleepy_def Let_def)
  ultimately show ?thesis using q a by (auto simp: numeral_2_eq_2)
qed

theorem idle_backoff_witness:
  "\<exists>d. idle_run 66 512 (fst (start_looking (idle_tuning_from_env None (Some ''32'')) 0 3)) = GoToSleep d \<and>
     id_jobs_counter d = 0"
proof -
  have t: "idle_tuning_from_env None (Some ''32'') = \<lparr>tn_spin = 32, tn_yield_rounds = 32\<rparr>"
    by (simp add: idle_tuning_from_env_def parse_rounds_def ROUNDS_SPIN_def parse_uint_def digit_value_def)
  have c: "snd (start_looking \<lparr>tn_spin = 32, tn_yield_rounds = 32\<rparr> 0 3) = 512"
    by (simp add: start_looking_def add_inactive_thread_def ONE_INACTIVE_def INACTIVE_SHIFT_def THREADS_BITS_def)
  have a: "announce_sleepy 512 = (0, 512)"
    by (simp add: announce_sleepy_def increment_jobs_event_counter_if_def jobs_counter_def select_jec_def
        JEC_SHIFT_def THREADS_BITS_def jec_is_active_def jec_is_sleepy_def)
  show ?thesis unfolding t
    using idle_backoff [of "\<lparr>tn_spin = 32, tn_yield_rounds = 32\<rparr>" 0 3 _ 512 0 512] a c
    by (auto simp: prod_eq_iff)
qed

end
