(* ===== verification/Graph_Plan.thy ===== *)
theory Graph_Plan
  imports Prelude
begin

text \<open>
  The topology of the typed graph engine, \<^verbatim>\<open>crates/youpipe/src/graph/plan.rs\<close>: the node and edge
  tables, their registration (\<^verbatim>\<open>graph/mod.rs\<close>), the validation with Kahn's algorithm, and the
  choice of the channel of an edge. The type-erased spawn steps and connectors are left out of the
  records: validation does not look at them.
\<close>

section \<open>Plan\<close>

datatype node_kind = Source | SourceAsync | SyncNode | Expand | AsyncNode | Sink

definition kind_is_source :: "node_kind \<Rightarrow> bool" where
  "kind_is_source k \<longleftrightarrow> k = Source \<or> k = SourceAsync"

definition kind_is_async :: "node_kind \<Rightarrow> bool" where
  "kind_is_async k \<longleftrightarrow> k = SourceAsync \<or> k = AsyncNode"

datatype fanout = Move | Broadcast

record node_opts =
  no_workers :: "nat option"
  no_buffer :: "nat option"
  no_io_concurrency :: "nat option"

definition node_opts_default :: node_opts where
  "node_opts_default = \<lparr>no_workers = None, no_buffer = None, no_io_concurrency = None\<rparr>"

record node_plan =
  np_name :: string
  np_kind :: node_kind
  np_fanout :: fanout
  np_opts :: node_opts

text \<open>
  \<open>make_connector\<close> picks the channel by the kinds of the two ends; the bridged flavour runs an
  asynchronous channel into a thread that feeds a synchronous receiver.
\<close>

datatype edge_channel = Channel | SyncAsyncChannel | AsyncChannel | BridgedChannel

definition make_connector :: "bool \<Rightarrow> bool \<Rightarrow> edge_channel" where
  "make_connector up_async down_async =
     (case (up_async, down_async) of
        (False, False) \<Rightarrow> Channel
      | (False, True) \<Rightarrow> SyncAsyncChannel
      | (True, True) \<Rightarrow> AsyncChannel
      | (True, False) \<Rightarrow> BridgedChannel)"

record edge_plan =
  ep_up :: nat
  ep_down :: nat
  ep_connector :: edge_channel

record graph_plan =
  gp_nodes :: "node_plan list"
  gp_edges :: "edge_plan list"
  gp_builder :: nat

text \<open>A plan takes the next builder identity; a handle is a node id stamped with it.\<close>

definition graph_plan_default :: "nat \<Rightarrow> graph_plan \<times> nat" where
  "graph_plan_default seq = (\<lparr>gp_nodes = [], gp_edges = [], gp_builder = seq\<rparr>, seq + 1)"

record node_handle =
  nh_id :: nat
  nh_builder :: nat

definition plan_handle :: "graph_plan \<Rightarrow> nat \<Rightarrow> node_handle" where
  "plan_handle p i = \<lparr>nh_id = i, nh_builder = gp_builder p\<rparr>"

definition push_node :: "graph_plan \<Rightarrow> string \<Rightarrow> node_kind \<Rightarrow> fanout \<Rightarrow> node_opts \<Rightarrow> nat \<times> graph_plan" where
  "push_node p name kind fo opts =
     (length (gp_nodes p),
      p\<lparr>gp_nodes := gp_nodes p @ [\<lparr>np_name = name, np_kind = kind, np_fanout = fo, np_opts = opts\<rparr>]\<rparr>)"

definition check_owned :: "graph_plan \<Rightarrow> node_handle \<Rightarrow> unit res" where
  "check_owned p h = (if nh_builder h = gp_builder p then Inr () else Inl ExplicitPanic)"

definition graph_edge :: "graph_plan \<Rightarrow> node_handle \<Rightarrow> node_handle \<Rightarrow> graph_plan res" where
  "graph_edge p up down =
     bind_res (check_owned p up) (\<lambda>_.
     bind_res (check_owned p down) (\<lambda>_.
     bind_res (index_res (gp_nodes p) (nh_id up)) (\<lambda>u.
     bind_res (index_res (gp_nodes p) (nh_id down)) (\<lambda>d.
     Inr (p\<lparr>gp_edges := gp_edges p @
       [\<lparr>ep_up = nh_id up, ep_down = nh_id down,
         ep_connector = make_connector (kind_is_async (np_kind u)) (kind_is_async (np_kind d))\<rparr>]\<rparr>)))))"

section \<open>Validation\<close>

datatype plan_error =
    DuplicateName string
  | DuplicateEdge string string
  | SourceWithInput string
  | MissingInput string
  | SinkWithOutput string
  | MissingOutput string
  | MoveFanout string nat
  | Cycle "string list"

text \<open>Names seen so far are in the first argument: \<open>HashSet::insert\<close> reports a second insertion.\<close>

fun name_errors :: "string set \<Rightarrow> node_plan list \<Rightarrow> plan_error list" where
  "name_errors seen [] = []"
| "name_errors seen (nd # nds) =
     (if np_name nd \<in> seen then [DuplicateName (np_name nd)] else []) @
     name_errors (insert (np_name nd) seen) nds"

record degrees =
  dg_in :: "nat list"
  dg_out :: "nat list"
  dg_adj :: "nat list list"

text \<open>The pass over the edges: duplicates, degrees and adjacency lists.\<close>

fun edge_pass ::
    "node_plan list \<Rightarrow> (nat \<times> nat) set \<Rightarrow> degrees \<Rightarrow> edge_plan list \<Rightarrow> (degrees \<times> plan_error list) res" where
  "edge_pass nodes seen dg [] = Inr (dg, [])"
| "edge_pass nodes seen dg (e # es) =
     bind_res
       (if (ep_up e, ep_down e) \<in> seen then
          bind_res (index_res nodes (ep_up e)) (\<lambda>u.
          bind_res (index_res nodes (ep_down e)) (\<lambda>d.
          Inr [DuplicateEdge (np_name u) (np_name d)]))
        else Inr []) (\<lambda>errs.
     bind_res (index_res (dg_in dg) (ep_down e)) (\<lambda>i.
     bind_res (index_res (dg_out dg) (ep_up e)) (\<lambda>out_n.
     bind_res (index_res (dg_adj dg) (ep_up e)) (\<lambda>a.
     bind_res (edge_pass nodes (insert (ep_up e, ep_down e) seen)
       \<lparr>dg_in = (dg_in dg)[ep_down e := i + 1], dg_out = (dg_out dg)[ep_up e := out_n + 1],
        dg_adj = (dg_adj dg)[ep_up e := a @ [ep_down e]]\<rparr> es) (\<lambda>(dg', errs').
     Inr (dg', errs @ errs'))))))"

definition node_errors :: "node_plan \<Rightarrow> nat \<Rightarrow> nat \<Rightarrow> plan_error list" where
  "node_errors nd in_n out_n =
     (if kind_is_source (np_kind nd) then (if 0 < in_n then [SourceWithInput (np_name nd)] else [])
      else if in_n = 0 then [MissingInput (np_name nd)] else []) @
     (if np_kind nd = Sink \<and> 0 < out_n then [SinkWithOutput (np_name nd)] else []) @
     (if np_kind nd \<noteq> Sink \<and> out_n = 0 then [MissingOutput (np_name nd)] else []) @
     (if np_fanout nd = Move \<and> 1 < out_n then [MoveFanout (np_name nd) out_n] else [])"

fun degree_errors :: "node_plan list \<Rightarrow> nat list \<Rightarrow> nat list \<Rightarrow> plan_error list" where
  "degree_errors (nd # nds) (i # is) (k # ks) = node_errors nd i k @ degree_errors nds is ks"
| "degree_errors _ _ _ = []"

text \<open>The inner loop of Kahn's algorithm: the degrees after one node, and who became ready.\<close>

fun relax :: "nat list \<Rightarrow> nat list \<Rightarrow> (nat list \<times> nat list) res" where
  "relax deg [] = Inr (deg, [])"
| "relax deg (v # vs) =
     bind_res (index_res deg v) (\<lambda>d.
     bind_res (sub_u64 d 1) (\<lambda>d'.
     bind_res (relax (deg[v := d']) vs) (\<lambda>(deg', ready).
     Inr (deg', (if d' = 0 then v # ready else ready)))))"

lemma relax_measure: "relax deg vs = Inr (deg', ready) \<Longrightarrow> length ready + sum_list deg' \<le> sum_list deg"
proof (induction vs arbitrary: deg deg' ready)
  case (Cons v vs)
  from Cons.prems obtain rest where v: "v < length deg" "1 \<le> deg ! v"
    and r: "relax (deg[v := deg ! v - 1]) vs = Inr (deg', rest)"
    and q: "ready = (if deg ! v - 1 = 0 then v # rest else rest)"
    by (auto simp: bind_res_Inr_iff index_res_Inr_iff sub_u64_Inr_iff)
  have "sum_list (deg[v := deg ! v - 1]) + 1 = sum_list deg"
    using v member_le_sum_list [of "deg ! v" deg] by (simp add: sum_list_update)
  moreover have "length rest + sum_list deg' \<le> sum_list (deg[v := deg ! v - 1])" by (rule Cons.IH [OF r])
  ultimately show ?case using q by simp
qed simp

function kahn :: "nat list list \<Rightarrow> nat list \<Rightarrow> nat list \<Rightarrow> nat list \<Rightarrow> (nat list \<times> nat list) res" where
  "kahn adj deg [] order = Inr (order, deg)"
| "kahn adj deg (u # queue) order =
     bind_res (index_res adj u) (\<lambda>downs.
     bind_res (relax deg downs) (\<lambda>(deg', ready).
     kahn adj deg' (queue @ ready) (order @ [u])))"
  by pat_completeness auto
termination
  by (relation "measure (\<lambda>(adj, deg, queue, order). length queue + sum_list deg)")
     (auto dest: relax_measure)

definition validate_and_order :: "graph_plan \<Rightarrow> (plan_error list + nat list) res" where
  "validate_and_order p =
     (let nodes = gp_nodes p; n = length nodes; errs1 = name_errors {} nodes in
      bind_res (edge_pass nodes {} \<lparr>dg_in = replicate n 0, dg_out = replicate n 0, dg_adj = replicate n []\<rparr>
        (gp_edges p)) (\<lambda>(dg, errs2).
      let errs3 = degree_errors nodes (dg_in dg) (dg_out dg);
          queue = filter (\<lambda>i. dg_in dg ! i = 0) [0..<n]
      in bind_res (kahn (dg_adj dg) (dg_in dg) queue []) (\<lambda>(order, deg).
      let errs4 = (if length order < n
            then [Cycle (map (\<lambda>i. np_name (nodes ! i)) (filter (\<lambda>i. 0 < deg ! i) [0..<n]))] else []);
          errors = errs1 @ errs2 @ errs3 @ errs4
      in Inr (if errors = [] then Inr order else Inl errors))))"

end
