(* ===== verification/Graph_Props.thy ===== *)
theory Graph_Props
  imports Graph_Plan
begin

text \<open>
  Correctness of the graph validation: the degree pass in closed form, the invariant of Kahn's loop,
  and what an accepted plan and its order guarantee.
\<close>

section \<open>The edge pass in closed form\<close>

definition pairs :: "edge_plan list \<Rightarrow> (nat \<times> nat) list" where
  "pairs es = map (\<lambda>e. (ep_up e, ep_down e)) es"

definition preds :: "(nat \<times> nat) list \<Rightarrow> nat \<Rightarrow> nat list" where
  "preds E v = map fst (filter (\<lambda>e. snd e = v) E)"

definition succs :: "(nat \<times> nat) list \<Rightarrow> nat \<Rightarrow> nat list" where
  "succs E u = map snd (filter (\<lambda>e. fst e = u) E)"

definition plan_wf :: "graph_plan \<Rightarrow> bool" where
  "plan_wf p \<longleftrightarrow> (\<forall>e \<in> set (gp_edges p). ep_up e < length (gp_nodes p) \<and> ep_down e < length (gp_nodes p)) \<and>
     length (gp_edges p) < u64_mod"

lemma preds_simps [simp]: "preds [] v = []" "preds (e # E) v = (if snd e = v then fst e # preds E v else preds E v)"
  by (simp_all add: preds_def)

lemma succs_simps [simp]: "succs [] u = []" "succs (e # E) u = (if fst e = u then snd e # succs E u else succs E u)"
  by (simp_all add: succs_def)

lemma pairs_simps [simp]: "pairs [] = []" "pairs (e # es) = (ep_up e, ep_down e) # pairs es"
  by (simp_all add: pairs_def)

lemma preds_set: "u \<in> set (preds E v) \<longleftrightarrow> (u, v) \<in> set E"
  by (force simp: preds_def)

lemma succs_set: "v \<in> set (succs E u) \<longleftrightarrow> (u, v) \<in> set E"
  by (force simp: succs_def)

lemma edge_pass_ok:
  assumes "\<forall>e \<in> set es. ep_up e < n \<and> ep_down e < n" "length nodes = n"
    "length (dg_in dg) = n" "length (dg_out dg) = n" "length (dg_adj dg) = n"
  shows "\<exists>dg' errs. edge_pass nodes seen dg es = Inr (dg', errs) \<and>
    length (dg_in dg') = n \<and> length (dg_out dg') = n \<and> length (dg_adj dg') = n \<and>
    (\<forall>v < n. dg_in dg' ! v = dg_in dg ! v + length (preds (pairs es) v)) \<and>
    (\<forall>v < n. dg_out dg' ! v = dg_out dg ! v + length (succs (pairs es) v)) \<and>
    (\<forall>v < n. dg_adj dg' ! v = dg_adj dg ! v @ succs (pairs es) v) \<and>
    (errs = [] \<longleftrightarrow> distinct (pairs es) \<and> set (pairs es) \<inter> seen = {})"
  using assms
proof (induction es arbitrary: seen dg)
  case Nil
  then show ?case by simp
next
  case (Cons e es)
  let ?u = "ep_up e" and ?d = "ep_down e"
  let ?dg = "\<lparr>dg_in = (dg_in dg)[?d := dg_in dg ! ?d + 1], dg_out = (dg_out dg)[?u := dg_out dg ! ?u + 1],
        dg_adj = (dg_adj dg)[?u := dg_adj dg ! ?u @ [?d]]\<rparr>"
  have e: "?u < n" "?d < n" using Cons.prems(1) by auto
  obtain dg' errs where r: "edge_pass nodes (insert (?u, ?d) seen) ?dg es = Inr (dg', errs)"
    and l: "length (dg_in dg') = n" "length (dg_out dg') = n" "length (dg_adj dg') = n"
    and v: "\<forall>v < n. dg_in dg' ! v = dg_in ?dg ! v + length (preds (pairs es) v)"
      "\<forall>v < n. dg_out dg' ! v = dg_out ?dg ! v + length (succs (pairs es) v)"
      "\<forall>v < n. dg_adj dg' ! v = dg_adj ?dg ! v @ succs (pairs es) v"
    and er: "errs = [] \<longleftrightarrow> distinct (pairs es) \<and> set (pairs es) \<inter> insert (?u, ?d) seen = {}"
    using Cons.IH [of ?dg "insert (?u, ?d) seen"] Cons.prems by auto
  let ?x = "if (?u, ?d) \<in> seen then [DuplicateEdge (np_name (nodes ! ?u)) (np_name (nodes ! ?d))] else []"
  have "edge_pass nodes seen dg (e # es) = Inr (dg', ?x @ errs)"
    using e Cons.prems r by (simp del: One_nat_def)
  moreover have "?x @ errs = [] \<longleftrightarrow> distinct (pairs (e # es)) \<and> set (pairs (e # es)) \<inter> seen = {}"
    using er by auto
  moreover have "\<forall>v < n. dg_in dg' ! v = dg_in dg ! v + length (preds (pairs (e # es)) v)"
    "\<forall>v < n. dg_out dg' ! v = dg_out dg ! v + length (succs (pairs (e # es)) v)"
    "\<forall>v < n. dg_adj dg' ! v = dg_adj dg ! v @ succs (pairs (e # es)) v"
    using v e Cons.prems by (auto simp: nth_list_update)
  ultimately show ?case using l by blast
qed

section \<open>Kahn's loop\<close>

lemma relax_ok:
  assumes "\<forall>v \<in> set vs. v < length deg" "\<forall>v < length deg. count_list vs v \<le> deg ! v"
  shows "\<exists>deg' ready. relax deg vs = Inr (deg', ready) \<and> length deg' = length deg \<and>
    (\<forall>v < length deg. deg' ! v = deg ! v - count_list vs v) \<and> distinct ready \<and>
    set ready = {v. v \<in> set vs \<and> deg' ! v = 0}"
  using assms
proof (induction vs arbitrary: deg)
  case (Cons v vs)
  let ?deg = "deg[v := deg ! v - 1]"
  have v: "v < length deg" "1 \<le> deg ! v" using Cons.prems by (auto dest: spec [of _ v])
  have "\<forall>w < length ?deg. count_list vs w \<le> ?deg ! w"
    using Cons.prems(2) v by (auto simp: nth_list_update split: if_splits)
  moreover have "\<forall>w \<in> set vs. w < length ?deg" using Cons.prems(1) by simp
  ultimately obtain deg' ready where r: "relax ?deg vs = Inr (deg', ready)" "length deg' = length deg"
    "\<forall>w < length deg. deg' ! w = ?deg ! w - count_list vs w" "distinct ready"
    "set ready = {w. w \<in> set vs \<and> deg' ! w = 0}"
    using Cons.IH [of ?deg] by auto
  have d: "\<forall>w < length deg. deg' ! w = deg ! w - count_list (v # vs) w"
    using r(3) v by (auto simp: nth_list_update)
  have z: "deg ! v - 1 = 0 \<Longrightarrow> v \<notin> set vs \<and> deg' ! v = 0"
    using Cons.prems(2) v d by (auto dest!: spec [of _ v] simp: count_list_0_iff)
  have nz: "deg ! v - 1 \<noteq> 0 \<Longrightarrow> deg' ! v = 0 \<Longrightarrow> v \<in> set vs"
    by (rule ccontr) (use d v in \<open>auto simp: count_notin dest!: spec [of _ v]\<close>)
  show ?case
    using r v d z nz by (auto simp: sub_u64_def)
qed simp

definition unmet :: "(nat \<times> nat) list \<Rightarrow> nat list \<Rightarrow> nat \<Rightarrow> nat" where
  "unmet E order v = length (filter (\<lambda>u. u \<notin> set order) (preds E v))"

definition topological :: "(nat \<times> nat) list \<Rightarrow> nat list \<Rightarrow> bool" where
  "topological E order \<longleftrightarrow> (\<forall>xs v ys. order = xs @ v # ys \<longrightarrow> set (preds E v) \<subseteq> set xs)"

definition kahn_inv :: "nat \<Rightarrow> (nat \<times> nat) list \<Rightarrow> nat list \<Rightarrow> nat list \<Rightarrow> nat list \<Rightarrow> bool" where
  "kahn_inv n E deg queue order \<longleftrightarrow>
     length deg = n \<and> (\<forall>v < n. deg ! v = unmet E order v) \<and> distinct (order @ queue) \<and>
     set (order @ queue) = {v. v < n \<and> deg ! v = 0} \<and> topological E order"

lemma unmet_snoc:
  assumes "u \<notin> set order"
  shows "unmet E (order @ [u]) v + count_list (succs E u) v = unmet E order v"
  using assms by (induction E) (auto simp: unmet_def)

lemma topological_snoc:
  assumes "topological E order" "set (preds E u) \<subseteq> set order"
  shows "topological E (order @ [u])"
  unfolding topological_def
proof (intro allI impI)
  fix xs v ys assume "order @ [u] = xs @ v # ys"
  then consider "ys = []" "xs = order" "v = u" | zs where "ys = zs @ [u]" "order = xs @ v # zs"
    by (cases ys rule: rev_cases) auto
  then show "set (preds E v) \<subseteq> set xs" using assms by cases (auto simp: topological_def)
qed

definition adj_ok :: "nat \<Rightarrow> (nat \<times> nat) list \<Rightarrow> nat list list \<Rightarrow> bool" where
  "adj_ok n E adj \<longleftrightarrow> length adj = n \<and> (\<forall>u < n. adj ! u = succs E u) \<and> set E \<subseteq> {..<n} \<times> {..<n}"

text \<open>One round of the loop keeps the invariant.\<close>

lemma kahn_round:
  assumes inv: "kahn_inv n E deg (u # queue) order" and adj: "adj_ok n E adj"
  shows "\<exists>deg' ready. relax deg (adj ! u) = Inr (deg', ready) \<and> u < n \<and>
    kahn_inv n E deg' (queue @ ready) (order @ [u])"
proof -
  note I = inv [unfolded kahn_inv_def]
  have u: "u < n" "deg ! u = 0" "u \<notin> set order" using I by auto
  have a: "adj ! u = succs E u" using adj u(1) by (simp add: adj_ok_def)
  have "count_list (succs E u) v \<le> deg ! v" if "v < n" for v
    using unmet_snoc [OF u(3), of E v] I that by (metis le_add2)
  moreover have "\<forall>v \<in> set (succs E u). v < length deg"
    using adj I by (auto simp: succs_set adj_ok_def)
  ultimately obtain deg' ready where r: "relax deg (succs E u) = Inr (deg', ready)" "length deg' = n"
    "\<forall>v < n. deg' ! v = deg ! v - count_list (succs E u) v" "distinct ready"
    "set ready = {v. v \<in> set (succs E u) \<and> deg' ! v = 0}"
    using relax_ok [of "succs E u" deg] I by auto
  have d: "deg' ! v = unmet E (order @ [u]) v" if "v < n" for v
    using r(3) that I unmet_snoc [OF u(3), of E v] by (metis add_diff_cancel_right')
  have old: "deg ! v = 0 \<Longrightarrow> v < n \<Longrightarrow> v \<notin> set ready \<and> deg' ! v = 0" for v
    using \<open>\<And>v. v < n \<Longrightarrow> count_list (succs E u) v \<le> deg ! v\<close> [of v] r(3, 5)
    by (auto simp: count_list_0_iff)
  have "set ready \<inter> set (order @ u # queue) = {}" using old I by auto
  then have "distinct ((order @ [u]) @ queue @ ready)" using I r(4) by auto
  moreover have "v \<in> set (order @ u # queue) \<or> v \<in> set ready \<longleftrightarrow> v < n \<and> deg' ! v = 0" for v
  proof
    assume l: "v \<in> set (order @ u # queue) \<or> v \<in> set ready"
    then show "v < n \<and> deg' ! v = 0"
    proof
      assume "v \<in> set (order @ u # queue)"
      then have "v < n \<and> deg ! v = 0" using I by blast
      with old show ?thesis by blast
    next
      assume "v \<in> set ready"
      with r(5) adj show ?thesis by (auto simp: succs_set adj_ok_def)
    qed
  next
    assume v: "v < n \<and> deg' ! v = 0"
    show "v \<in> set (order @ u # queue) \<or> v \<in> set ready"
    proof (cases "v \<in> set (succs E u)")
      case False
      with v r(3) have "deg ! v = 0" by (metis count_notin diff_zero)
      with v I show ?thesis by blast
    qed (use v r(5) in auto)
  qed
  then have "set ((order @ [u]) @ queue @ ready) = {v. v < n \<and> deg' ! v = 0}" by auto
  moreover have "set (preds E u) \<subseteq> set order"
    using u I by (auto simp: unmet_def filter_empty_conv)
  then have "topological E (order @ [u])" using I by (intro topological_snoc) auto
  ultimately have "kahn_inv n E deg' (queue @ ready) (order @ [u])"
    using r(2) d by (simp add: kahn_inv_def)
  with r(1) a u(1) show ?thesis by auto
qed

lemma kahn_ok:
  assumes "kahn_inv n E deg queue order" "adj_ok n E adj"
  shows "\<exists>order' deg' rest. kahn adj deg queue order = Inr (order', deg') \<and> kahn_inv n E deg' [] order' \<and>
    order' = order @ queue @ rest"
  using assms(1)
proof (induction "length queue + sum_list deg" arbitrary: deg queue order rule: less_induct)
  case less
  show ?case
  proof (cases queue)
    case Nil
    with less.prems show ?thesis by simp
  next
    case (Cons u q)
    from kahn_round [OF less.prems [unfolded Cons] assms(2)]
    obtain deg' ready where r: "relax deg (adj ! u) = Inr (deg', ready)" "u < n"
      "kahn_inv n E deg' (q @ ready) (order @ [u])" by blast
    have "length (q @ ready) + sum_list deg' < length queue + sum_list deg"
      using relax_measure [OF r(1)] Cons by simp
    from less.hyps [OF this r(3)] obtain order' deg'' rest where
      "kahn adj deg' (q @ ready) (order @ [u]) = Inr (order', deg'')" "kahn_inv n E deg'' [] order'"
      "order' = (order @ [u]) @ (q @ ready) @ rest" by blast
    moreover have "kahn adj deg queue order = kahn adj deg' (q @ ready) (order @ [u])"
      using r(1, 2) assms(2) Cons by (simp add: adj_ok_def)
    ultimately show ?thesis using Cons by auto
  qed
qed

text \<open>
  When the queue runs dry, a node that was not reached has an unreached predecessor: the loop leaves
  nodes over exactly when the edges have a cycle.
\<close>

lemma topological_acyclic:
  assumes "topological E order" "set E \<subseteq> set order \<times> set order" "distinct order"
  shows "acyclic (set E)"
proof -
  let ?pos = "\<lambda>v. length (takeWhile (\<lambda>w. w \<noteq> v) order)"
  have "?pos u < ?pos v" if "(u, v) \<in> set E" for u v
  proof -
    from that assms(2) obtain xs ys where o: "order = xs @ v # ys" by (meson SigmaD2 in_set_conv_decomp subsetD)
    with assms(1) have "set (preds E v) \<subseteq> set xs" unfolding topological_def by blast
    with that have u: "u \<in> set xs" by (auto simp: preds_set)
    have v: "v \<notin> set xs" using assms(3) o by auto
    then have "takeWhile (\<lambda>w. w \<noteq> v) order = xs" using o by (auto simp: takeWhile_tail)
    moreover obtain as bs where "xs = as @ u # bs" "u \<notin> set as" using u split_list_first by metis
    then have "takeWhile (\<lambda>w. w \<noteq> u) order = as" "length as < length xs" using o by (auto simp: takeWhile_tail)
    ultimately show ?thesis by simp
  qed
  then have "set E \<subseteq> measure ?pos" by auto
  then have "wf (set E)" by (rule wf_subset [OF wf_measure])
  then show ?thesis by (rule wf_acyclic)
qed

lemma kahn_complete:
  assumes inv: "kahn_inv n E deg [] order" and "acyclic (set E)" "set E \<subseteq> {..<n} \<times> {..<n}"
  shows "set order = {..<n}"
proof (rule ccontr)
  assume ne: "set order \<noteq> {..<n}"
  note I = inv [unfolded kahn_inv_def]
  let ?S = "{..<n} - set order"
  have "set order \<subseteq> {..<n}" using I by auto
  with ne obtain x where x: "x \<in> ?S" by auto
  have "wf (set E)" using assms(2) by (intro finite_acyclic_wf) auto
  then obtain v where v: "v \<in> ?S" "\<And>u. (u, v) \<in> set E \<Longrightarrow> u \<notin> ?S"
    using wfE_min [OF _ x] by metis
  then have "deg ! v \<noteq> 0" using I by auto
  with v(1) I have "unmet E order v \<noteq> 0" by auto
  then obtain u where "u \<in> set (preds E v)" "u \<notin> set order" by (auto simp: unmet_def filter_empty_conv)
  with v(2) [of u] assms(3) show False by (auto simp: preds_set)
qed

section \<open>Validation\<close>

lemma name_errors_empty: "name_errors seen nds = [] \<longleftrightarrow> distinct (map np_name nds) \<and> set (map np_name nds) \<inter> seen = {}"
  by (induction seen nds rule: name_errors.induct) auto

definition node_ok :: "(nat \<times> nat) list \<Rightarrow> node_plan \<Rightarrow> nat \<Rightarrow> bool" where
  "node_ok E nd i \<longleftrightarrow>
     (kind_is_source (np_kind nd) \<longleftrightarrow> preds E i = []) \<and>
     (np_kind nd = Sink \<longleftrightarrow> succs E i = []) \<and>
     (np_fanout nd = Move \<longrightarrow> length (succs E i) \<le> 1)"

lemma node_errors_empty:
  "node_errors nd (length (preds E i)) (length (succs E i)) = [] \<longleftrightarrow> node_ok E nd i"
  by (auto simp: node_errors_def node_ok_def)

lemma degree_errors_empty:
  "length is = length nds \<Longrightarrow> length ks = length nds \<Longrightarrow>
   degree_errors nds is ks = [] \<longleftrightarrow> (\<forall>j < length nds. node_errors (nds ! j) (is ! j) (ks ! j) = [])"
proof (induction nds "is" ks rule: degree_errors.induct)
  case (1 nd nds i "is" k ks)
  then show ?case by (auto simp: less_Suc_eq_0_disj)
qed auto

definition plan_ok :: "graph_plan \<Rightarrow> bool" where
  "plan_ok p \<longleftrightarrow>
     distinct (map np_name (gp_nodes p)) \<and> distinct (pairs (gp_edges p)) \<and>
     (\<forall>i < length (gp_nodes p). node_ok (pairs (gp_edges p)) (gp_nodes p ! i) i) \<and>
     acyclic (set (pairs (gp_edges p)))"

lemma plan_wf_pairs: "plan_wf p \<Longrightarrow> set (pairs (gp_edges p)) \<subseteq> {..<length (gp_nodes p)} \<times> {..<length (gp_nodes p)}"
  by (auto simp: plan_wf_def pairs_def)

text \<open>The whole validation in one statement, from which the properties are read off.\<close>

lemma validate_core:
  assumes "plan_wf p"
  shows "\<exists>order errs. validate_and_order p = Inr (if errs = [] then Inr order else Inl errs) \<and>
    (errs = [] \<longleftrightarrow> plan_ok p) \<and> distinct order \<and> topological (pairs (gp_edges p)) order \<and>
    (plan_ok p \<longrightarrow> set order = {..<length (gp_nodes p)}) \<and>
    (\<exists>rest. order = filter (\<lambda>i. preds (pairs (gp_edges p)) i = []) [0..<length (gp_nodes p)] @ rest)"
proof -
  let ?n = "length (gp_nodes p)" and ?E = "pairs (gp_edges p)"
  let ?dg = "\<lparr>dg_in = replicate ?n 0, dg_out = replicate ?n 0, dg_adj = replicate ?n []\<rparr>"
  have rng: "\<forall>e \<in> set (gp_edges p). ep_up e < ?n \<and> ep_down e < ?n" using assms by (simp add: plan_wf_def)
  from edge_pass_ok [OF rng refl, of ?dg "{}"] obtain dg errs2 where
    ep: "edge_pass (gp_nodes p) {} ?dg (gp_edges p) = Inr (dg, errs2)"
    and l: "length (dg_in dg) = ?n" "length (dg_out dg) = ?n" "length (dg_adj dg) = ?n"
    and v: "\<forall>v < ?n. dg_in dg ! v = length (preds ?E v)" "\<forall>v < ?n. dg_out dg ! v = length (succs ?E v)"
      "\<forall>v < ?n. dg_adj dg ! v = succs ?E v"
    and e2: "errs2 = [] \<longleftrightarrow> distinct ?E"
    by (auto simp del: pairs_simps)
  have adj: "adj_ok ?n ?E (dg_adj dg)" using l v plan_wf_pairs [OF assms] by (auto simp: adj_ok_def)
  let ?q = "filter (\<lambda>i. dg_in dg ! i = 0) [0..<?n]"
  have q: "?q = filter (\<lambda>i. preds ?E i = []) [0..<?n]" using v(1) by (intro filter_cong) auto
  have "kahn_inv ?n ?E (dg_in dg) ?q []"
    using l(1) v(1) by (auto simp: kahn_inv_def unmet_def topological_def)
  from kahn_ok [OF this adj] obtain order deg rest where
    k: "kahn (dg_adj dg) (dg_in dg) ?q [] = Inr (order, deg)" "kahn_inv ?n ?E deg [] order" "order = ?q @ rest" by auto
  note K = k(2) [unfolded kahn_inv_def]
  have sub: "set order \<subseteq> {..<?n}" using K by auto
  have "distinct order" using K by simp
  then have len: "card (set order) = length order" by (rule distinct_card)
  have full: "length order < ?n \<longleftrightarrow> set order \<noteq> {..<?n}"
  proof
    assume "set order \<noteq> {..<?n}"
    with sub have "card (set order) < card {..<?n}" by (intro psubset_card_mono) auto
    then show "length order < ?n" by (simp add: len)
  next
    assume lt: "length order < ?n"
    show "set order \<noteq> {..<?n}"
    proof
      assume "set order = {..<?n}"
      then have "card (set order) = ?n" by simp
      with len lt show False by simp
    qed
  qed
  have "topological ?E order" using K by simp
  have acyc: "set order = {..<?n} \<longleftrightarrow> acyclic (set ?E)"
  proof
    assume "set order = {..<?n}"
    with plan_wf_pairs [OF assms] have "set ?E \<subseteq> set order \<times> set order" by metis
    with \<open>topological ?E order\<close> show "acyclic (set ?E)" using \<open>distinct order\<close> by (rule topological_acyclic)
  qed (rule kahn_complete [OF k(2) _ plan_wf_pairs [OF assms]])
  let ?e3 = "degree_errors (gp_nodes p) (dg_in dg) (dg_out dg)"
  let ?e4 = "if length order < ?n
            then [Cycle (map (\<lambda>i. np_name (gp_nodes p ! i)) (filter (\<lambda>i. 0 < deg ! i) [0..<?n]))] else []"
  let ?errs = "name_errors {} (gp_nodes p) @ errs2 @ ?e3 @ ?e4"
  have "?e3 = [] \<longleftrightarrow> (\<forall>i < ?n. node_ok ?E (gp_nodes p ! i) i)"
    using l v by (simp add: degree_errors_empty node_errors_empty)
  then have ok: "?errs = [] \<longleftrightarrow> plan_ok p"
    using e2 full acyc by (simp add: plan_ok_def name_errors_empty)
  have "validate_and_order p = Inr (if ?errs = [] then Inr order else Inl ?errs)"
    unfolding validate_and_order_def Let_def ep bind_res_simps prod.case k(1) by simp
  with ok \<open>distinct order\<close> \<open>topological ?E order\<close> show ?thesis
    using acyc k(3) q unfolding plan_ok_def by blast
qed

text \<open>
  C16. Validation decides well-formedness. For every plan whose edges name registered nodes,
  \<open>validate_and_order\<close> does not panic, and it accepts exactly the plans with pairwise distinct names and
  edges, whose sources and no other nodes lack incoming edges, whose sinks and no other nodes lack
  outgoing edges, whose move-only nodes have at most one outgoing edge, and whose edges have no
  cycle. Otherwise it returns a non-empty list of errors.
\<close>

theorem graph_validation_exact:
  assumes "plan_wf p"
  shows "(\<exists>order. validate_and_order p = Inr (Inr order)) = plan_ok p \<and>
    (\<not> plan_ok p \<longrightarrow> (\<exists>errs. validate_and_order p = Inr (Inl errs) \<and> errs \<noteq> []))"
proof -
  obtain order errs where v: "validate_and_order p = Inr (if errs = [] then Inr order else Inl errs)"
    "errs = [] \<longleftrightarrow> plan_ok p"
    using validate_core [OF assms] by blast
  then show ?thesis by (cases "errs = []") auto
qed

theorem graph_validation_exact_witness:
  "\<exists>errs. validate_and_order \<lparr>gp_nodes = [\<lparr>np_name = ''a'', np_kind = Source, np_fanout = Move, np_opts = node_opts_default\<rparr>],
       gp_edges = [], gp_builder = 0\<rparr> = Inr (Inl errs) \<and> errs \<noteq> []"
proof -
  let ?p = "\<lparr>gp_nodes = [\<lparr>np_name = ''a'', np_kind = Source, np_fanout = Move, np_opts = node_opts_default\<rparr>],
       gp_edges = [], gp_builder = 0\<rparr>"
  have "plan_wf ?p" by (simp add: plan_wf_def)
  moreover have "\<not> plan_ok ?p" by (auto simp: plan_ok_def node_ok_def)
  ultimately show ?thesis using graph_validation_exact [of ?p] by blast
qed

text \<open>
  C17. The accepted order. When a plan is accepted, its order lists every node exactly once, every
  node after all nodes with an edge to it, and all sources first, in the order they were registered:
  the run walk connects a node only when all its producers exist.
\<close>

theorem graph_order_topological:
  assumes "plan_wf p" and "validate_and_order p = Inr (Inr order)"
  shows "distinct order \<and> set order = {..<length (gp_nodes p)} \<and>
    (\<forall>e \<in> set (gp_edges p). \<exists>xs ys zs. order = xs @ ep_up e # ys @ ep_down e # zs) \<and>
    (\<exists>rest. order = filter (\<lambda>i. kind_is_source (np_kind (gp_nodes p ! i))) [0..<length (gp_nodes p)] @ rest)"
proof -
  let ?E = "pairs (gp_edges p)" and ?n = "length (gp_nodes p)"
  obtain order' errs where v: "validate_and_order p = Inr (if errs = [] then Inr order' else Inl errs)"
    "errs = [] \<longleftrightarrow> plan_ok p" "distinct order'" "topological ?E order'" "plan_ok p \<longrightarrow> set order' = {..<?n}"
    "\<exists>rest. order' = filter (\<lambda>i. preds ?E i = []) [0..<?n] @ rest"
    using validate_core [OF assms(1)] by blast
  with assms(2) have ok: "plan_ok p" "order' = order" by (auto split: if_splits)
  have "\<exists>xs ys zs. order = xs @ ep_up e # ys @ ep_down e # zs" if "e \<in> set (gp_edges p)" for e
  proof -
    have e: "(ep_up e, ep_down e) \<in> set ?E" using that by (auto simp: pairs_def)
    with plan_wf_pairs [OF assms(1)] v(5) ok have "ep_down e \<in> set order" by auto
    then obtain xs zs where o: "order = xs @ ep_down e # zs" by (meson split_list)
    with v(4) ok(2) have "set (preds ?E (ep_down e)) \<subseteq> set xs" unfolding topological_def by blast
    with e have "ep_up e \<in> set xs" by (auto simp: preds_set)
    then obtain as bs where "xs = as @ ep_up e # bs" by (meson split_list)
    with o show ?thesis by auto
  qed
  moreover have "filter (\<lambda>i. preds ?E i = []) [0..<?n] = filter (\<lambda>i. kind_is_source (np_kind (gp_nodes p ! i))) [0..<?n]"
    using ok(1) by (intro filter_cong) (auto simp: plan_ok_def node_ok_def)
  ultimately show ?thesis using v(3, 5, 6) ok by auto
qed

text \<open>A source that feeds a sink, built through the registration functions.\<close>

definition two_node_plan :: "graph_plan res" where
  "two_node_plan =
     (case push_node (fst (graph_plan_default 0)) ''out'' Sink Move node_opts_default of (k, p) \<Rightarrow>
      case push_node p ''in'' Source Move node_opts_default of (s, p') \<Rightarrow>
      graph_edge p' (plan_handle p' s) (plan_handle p' k))"

theorem graph_order_topological_witness:
  "\<exists>p. two_node_plan = Inr p \<and> validate_and_order p = Inr (Inr [1, 0]) \<and> (\<exists>xs ys zs. [1, 0] = xs @ 1 # ys @ (0 :: nat) # zs)"
proof -
  let ?p = "\<lparr>gp_nodes = [\<lparr>np_name = ''out'', np_kind = Sink, np_fanout = Move, np_opts = node_opts_default\<rparr>,
      \<lparr>np_name = ''in'', np_kind = Source, np_fanout = Move, np_opts = node_opts_default\<rparr>],
    gp_edges = [\<lparr>ep_up = 1, ep_down = 0, ep_connector = Channel\<rparr>], gp_builder = 0\<rparr>"
  have p: "two_node_plan = Inr ?p"
    by (simp add: two_node_plan_def push_node_def graph_plan_default_def graph_edge_def check_owned_def plan_handle_def
        make_connector_def kind_is_async_def)
  have v: "validate_and_order ?p = Inr (Inr [1, 0])" by code_simp
  have "plan_wf ?p" by (simp add: plan_wf_def u64_mod_def)
  from graph_order_topological [OF this v] have "\<exists>xs ys zs. [1, 0] = xs @ 1 # ys @ (0 :: nat) # zs" by simp
  with p v show ?thesis by blast
qed

section \<open>Registration\<close>

fun sender_async :: "edge_channel \<Rightarrow> bool" where
  "sender_async AsyncChannel = True"
| "sender_async BridgedChannel = True"
| "sender_async _ = False"

fun receiver_async :: "edge_channel \<Rightarrow> bool" where
  "receiver_async SyncAsyncChannel = True"
| "receiver_async AsyncChannel = True"
| "receiver_async _ = False"

text \<open>Every edge names registered nodes and its channel fits the kinds of both.\<close>

definition edges_ok :: "graph_plan \<Rightarrow> bool" where
  "edges_ok p \<longleftrightarrow> (\<forall>e \<in> set (gp_edges p).
     ep_up e < length (gp_nodes p) \<and> ep_down e < length (gp_nodes p) \<and>
     sender_async (ep_connector e) = kind_is_async (np_kind (gp_nodes p ! ep_up e)) \<and>
     receiver_async (ep_connector e) = kind_is_async (np_kind (gp_nodes p ! ep_down e)))"

lemma connector_flavour: "sender_async (make_connector u d) = u" "receiver_async (make_connector u d) = d"
  by (cases u; cases d; simp add: make_connector_def)+

text \<open>
  Registration. Appending a node gives it the next index and keeps every edge meaningful; adding
  an edge between handles of this builder whose nodes exist appends one edge whose sender and receiver
  flavours match the kinds of its two ends; a handle that another builder minted makes the call panic
  and leaves no plan behind. A fresh plan has no edges.
\<close>

lemma graph_registration:
  "edges_ok (fst (graph_plan_default seq)) \<and>
   (edges_ok p \<longrightarrow> edges_ok (snd (push_node p name kind fo opts)) \<and>
      gp_nodes (snd (push_node p name kind fo opts)) ! fst (push_node p name kind fo opts) =
        \<lparr>np_name = name, np_kind = kind, np_fanout = fo, np_opts = opts\<rparr>) \<and>
   (edges_ok p \<and> nh_builder up = gp_builder p \<and> nh_builder down = gp_builder p \<and>
      nh_id up < length (gp_nodes p) \<and> nh_id down < length (gp_nodes p) \<longrightarrow>
      (\<exists>p' c. graph_edge p up down = Inr p' \<and> edges_ok p' \<and> gp_nodes p' = gp_nodes p \<and>
        gp_edges p' = gp_edges p @ [\<lparr>ep_up = nh_id up, ep_down = nh_id down, ep_connector = c\<rparr>])) \<and>
   (nh_builder up \<noteq> gp_builder p \<or> nh_builder down \<noteq> gp_builder p \<longrightarrow> graph_edge p up down = Inl ExplicitPanic)"
  by (intro conjI impI)
     (auto simp: edges_ok_def graph_plan_default_def push_node_def nth_append graph_edge_def check_owned_def
       connector_flavour)

end
