(* ===== verification/Join.thy ===== *)
theory Join
  imports Prelude
begin

text \<open>
  Fork and join on a worker, \<^verbatim>\<open>crates/youpipe/src/pool/join.rs\<close>, with the stack-allocated job of
  \<^verbatim>\<open>pool/job.rs\<close>. A closure acts on the memory the two sides share (the type \<open>'s\<close>) and either
  returns or unwinds with a payload; whether the second side is popped back by the same worker or was
  stolen is a parameter of the run. The loop in which that is decided, with the deque, the foreign jobs and
  the thieves, is \<^verbatim>\<open>Join_Wait\<close>, which shows that every run of it ends as one of the two.
\<close>

section \<open>Outcomes\<close>

datatype ('p, 'r) outcome = Returned 'r | Unwound 'p

type_synonym ('s, 'p, 'r) closure = "'s \<Rightarrow> (('p, 'r) outcome \<times> 's) res"

text \<open>\<open>halt_unwinding\<close> turns an unwind into a value.\<close>

fun captured :: "('p, 'r) outcome \<Rightarrow> 'p + 'r" where
  "captured (Returned x) = Inr x"
| "captured (Unwound p) = Inl p"

definition halt_unwinding :: "('s, 'p, 'r) closure \<Rightarrow> 's \<Rightarrow> (('p + 'r) \<times> 's) res" where
  "halt_unwinding f s = bind_res (f s) (\<lambda>(r, s'). Inr (captured r, s'))"

section \<open>Stack jobs\<close>

datatype ('p, 'r) job_result = JobNone | JobOk 'r | JobPanic 'p

definition job_result_call :: "('s, 'p, 'r) closure \<Rightarrow> 's \<Rightarrow> (('p, 'r) job_result \<times> 's) res" where
  "job_result_call f s =
     bind_res (halt_unwinding f s) (\<lambda>(r, s'). Inr (case r of Inr x \<Rightarrow> JobOk x | Inl p \<Rightarrow> JobPanic p, s'))"

definition into_return_value :: "('p, 'r) job_result \<Rightarrow> ('p, 'r) outcome res" where
  "into_return_value r = (case r of JobNone \<Rightarrow> Inl Unreachable | JobOk x \<Rightarrow> Inr (Returned x) | JobPanic p \<Rightarrow> Inr (Unwound p))"

record ('s, 'p, 'r) stack_job =
  sj_latch :: bool
  sj_func :: "('s, 'p, 'r) closure option"
  sj_result :: "('p, 'r) job_result"

definition stack_job_new :: "('s, 'p, 'r) closure \<Rightarrow> ('s, 'p, 'r) stack_job" where
  "stack_job_new f = \<lparr>sj_latch = False, sj_func = Some f, sj_result = JobNone\<rparr>"

text \<open>\<open>take().unwrap()\<close> on the closure slot panics when it was already taken.\<close>

definition take_func :: "('s, 'p, 'r) stack_job \<Rightarrow> (('s, 'p, 'r) closure \<times> ('s, 'p, 'r) stack_job) res" where
  "take_func j = (case sj_func j of None \<Rightarrow> Inl ExplicitPanic | Some f \<Rightarrow> Inr (f, j\<lparr>sj_func := None\<rparr>))"

definition job_execute :: "('s, 'p, 'r) stack_job \<Rightarrow> 's \<Rightarrow> (('s, 'p, 'r) stack_job \<times> 's) res" where
  "job_execute j s =
     bind_res (take_func j) (\<lambda>(f, j').
     bind_res (job_result_call f s) (\<lambda>(r, s').
     Inr (j'\<lparr>sj_result := r, sj_latch := True\<rparr>, s')))"

definition run_inline :: "('s, 'p, 'r) stack_job \<Rightarrow> 's \<Rightarrow> (('p, 'r) outcome \<times> 's) res" where
  "run_inline j s = bind_res (take_func j) (\<lambda>(f, _). f s)"

definition run_captured :: "('s, 'p, 'r) stack_job \<Rightarrow> 's \<Rightarrow> (('p + 'r) \<times> 's) res" where
  "run_captured j s = bind_res (take_func j) (\<lambda>(f, _). halt_unwinding f s)"

definition into_result :: "('s, 'p, 'r) stack_job \<Rightarrow> ('p, 'r) outcome res" where
  "into_result j = into_return_value (sj_result j)"

definition into_result_captured :: "('s, 'p, 'r) stack_job \<Rightarrow> ('p + 'r) res" where
  "into_result_captured j =
     (case sj_result j of JobNone \<Rightarrow> Inl Unreachable | JobOk x \<Rightarrow> Inr (Inr x) | JobPanic p \<Rightarrow> Inr (Inl p))"

section \<open>Join\<close>

text \<open>
  \<open>stolen\<close>: somebody else took the second job and set its latch, so its result is read from the
  job; otherwise the worker finds the job in its own deque again. An inline second job that unwinds
  after a first one that returned leaves the function as a live unwind.
\<close>

definition join_on_captured ::
    "bool \<Rightarrow> ('s, 'p, 'a) closure \<Rightarrow> ('s, 'p, 'b) closure \<Rightarrow> 's \<Rightarrow>
     (('p, ('p + 'a) \<times> ('p + 'b)) outcome \<times> 's) res" where
  "join_on_captured stolen oper_a oper_b s =
     (let job_b = stack_job_new oper_b in
      bind_res (halt_unwinding oper_a s) (\<lambda>(result_a, s1).
      if stolen then
        bind_res (job_execute job_b s1) (\<lambda>(job, s2).
        if sj_latch job then bind_res (into_result_captured job) (\<lambda>result_b. Inr (Returned (result_a, result_b), s2))
        else Inl Unreachable)
      else (case result_a of
        Inr x \<Rightarrow> bind_res (run_inline job_b s1) (\<lambda>(r, s2).
          Inr (case r of Returned y \<Rightarrow> Returned (Inr x, Inr y) | Unwound p \<Rightarrow> Unwound p, s2))
      | Inl p \<Rightarrow> bind_res (run_captured job_b s1) (\<lambda>(result_b, s2). Inr (Returned (Inl p, result_b), s2)))))"

definition join_on ::
    "bool \<Rightarrow> ('s, 'p, 'a) closure \<Rightarrow> ('s, 'p, 'b) closure \<Rightarrow> 's \<Rightarrow> (('p, 'a \<times> 'b) outcome \<times> 's) res" where
  "join_on stolen oper_a oper_b s =
     bind_res (join_on_captured stolen oper_a oper_b s) (\<lambda>(r, s').
     Inr (case r of
        Unwound p \<Rightarrow> Unwound p
      | Returned (Inl p, _) \<Rightarrow> Unwound p
      | Returned (Inr _, Inl p) \<Rightarrow> Unwound p
      | Returned (Inr x, Inr y) \<Rightarrow> Returned (x, y), s'))"

section \<open>What a join returns\<close>

fun both :: "('p, 'a) outcome \<Rightarrow> ('p, 'b) outcome \<Rightarrow> ('p, 'a \<times> 'b) outcome" where
  "both (Unwound p) _ = Unwound p"
| "both (Returned x) (Unwound p) = Unwound p"
| "both (Returned x) (Returned y) = Returned (x, y)"

lemmas join_defs = join_on_def join_on_captured_def halt_unwinding_def stack_job_new_def job_execute_def take_func_def
  job_result_call_def into_result_captured_def run_inline_def run_captured_def Let_def

lemma join_on_both:
  "join_on stolen oper_a oper_b s =
     bind_res (oper_a s) (\<lambda>(ra, s1). bind_res (oper_b s1) (\<lambda>(rb, s2). Inr (both ra rb, s2)))"
proof (cases "oper_a s")
  case (Inr v)
  obtain ra s1 where v: "v = (ra, s1)" by (cases v)
  show ?thesis
  proof (cases "oper_b s1")
    case (Inr w)
    obtain rb s2 where "w = (rb, s2)" by (cases w)
    with \<open>oper_a s = Inr v\<close> v Inr show ?thesis
      by (cases ra; cases rb; cases stolen; simp add: join_defs)
  qed (use \<open>oper_a s = Inr v\<close> v in \<open>cases ra; cases stolen; simp add: join_defs\<close>)
qed (simp add: join_defs)

end
