(* ===== verification/Join_Wait.thy ===== *)
theory Join_Wait
  imports Join
begin

text \<open>
  The wait of \<^verbatim>\<open>join_on_captured\<close> (\<^verbatim>\<open>crates/youpipe/src/pool/join.rs\<close>) in full: the second job lies in
  the worker's own deque among jobs of other frames, while this worker, the frames nested in the first
  closure and in the jobs it helps with, and the thieves take jobs out of that deque in any order.
  A closure runs as one step; the memory the closures share is handed from step to step.
\<close>

section \<open>The frame of a join\<close>

text \<open>
  Where the frame stands: in its first closure, at the head of its loop, inside a foreign job it popped,
  inside \<^verbatim>\<open>wait_until\<close>, or gone, with the pair it returns or as a live unwind.
\<close>

datatype ('p, 'a, 'b) join_pc =
    RunA
  | Looping "'p + 'a"
  | Helping "'p + 'a"
  | Waiting "'p + 'a"
  | Leaves "('p, ('p + 'a) \<times> ('p + 'b)) outcome"
  | Faulted fault

text \<open>What has run on the shared memory so far, in order.\<close>

datatype ('p, 'a, 'b) join_event = RanA "('p, 'a) outcome" | RanB "('p, 'b) outcome" | RanOther nat

record ('s, 'p, 'a, 'b) join_frame =
  jf_pc :: "('p, 'a, 'b) join_pc"
  jf_deque :: "nat list"
  jf_job :: "('s, 'p, 'b) stack_job"
  jf_thief :: bool
  jf_mem :: 's
  jf_log :: "('p, 'a, 'b) join_event list"

text \<open>
  The frame once the job, with the identity \<open>b\<close>, is pushed on the deque \<open>d\<close>, newest first. \<open>jf_thief\<close>:
  a worker took the job from the old end and has not run it yet.
\<close>

definition join_enter :: "nat \<Rightarrow> ('s, 'p, 'b) closure \<Rightarrow> nat list \<Rightarrow> 's \<Rightarrow> ('s, 'p, 'a, 'b) join_frame" where
  "join_enter b oper_b d m =
     \<lparr>jf_pc = RunA, jf_deque = b # d, jf_job = stack_job_new oper_b, jf_thief = False, jf_mem = m, jf_log = []\<rparr>"

section \<open>Operations\<close>

definition set_jpc :: "('p, 'a, 'b) join_pc \<Rightarrow> ('s, 'p, 'a, 'b) join_frame \<Rightarrow> ('s, 'p, 'a, 'b) join_frame" where
  "set_jpc p fr = fr\<lparr>jf_pc := p\<rparr>"

definition logged :: "('p, 'a, 'b) join_event \<Rightarrow> 's \<Rightarrow> ('s, 'p, 'a, 'b) join_frame \<Rightarrow> ('s, 'p, 'a, 'b) join_frame" where
  "logged e m fr = fr\<lparr>jf_mem := m, jf_log := jf_log fr @ [e]\<rparr>"

text \<open>\<open>halt_unwinding(oper_a)\<close>.\<close>

definition finish_a :: "('s, 'p, 'a) closure \<Rightarrow> ('s, 'p, 'a, 'b) join_frame \<Rightarrow> ('s, 'p, 'a, 'b) join_frame" where
  "finish_a oper_a fr =
     (case oper_a (jf_mem fr) of
        Inl e \<Rightarrow> set_jpc (Faulted e) fr
      | Inr (r, m) \<Rightarrow> set_jpc (Looping (captured r)) (logged (RanA r) m fr))"

text \<open>\<open>WorkerThread::execute\<close> on the job, wherever it runs: take the closure, run it, store the result, set the latch.\<close>

definition execute_b :: "('s, 'p, 'a, 'b) join_frame \<Rightarrow> ('s, 'p, 'a, 'b) join_frame" where
  "execute_b fr =
     (case bind_res (job_execute (jf_job fr) (jf_mem fr)) (\<lambda>(j, m). bind_res (into_result j) (\<lambda>r. Inr (j, r, m))) of
        Inl e \<Rightarrow> set_jpc (Faulted e) fr
      | Inr (j, r, m) \<Rightarrow> (logged (RanB r) m fr)\<lparr>jf_job := j\<rparr>)"

text \<open>
  \<open>other\<close> is what the jobs of other frames do to the memory; none of them unwinds, which is the
  invariant of the local deque.
\<close>

definition execute_job :: "nat \<Rightarrow> (nat \<Rightarrow> 's \<Rightarrow> 's) \<Rightarrow> nat \<Rightarrow> ('s, 'p, 'a, 'b) join_frame \<Rightarrow> ('s, 'p, 'a, 'b) join_frame" where
  "execute_job b other j fr = (if j = b then execute_b fr else logged (RanOther j) (other j (jf_mem fr)) fr)"

text \<open>The latch is set: \<open>into_result_captured\<close>.\<close>

definition take_result :: "'p + 'a \<Rightarrow> ('s, 'p, 'a, 'b) join_frame \<Rightarrow> ('s, 'p, 'a, 'b) join_frame" where
  "take_result ra fr =
     (case into_result_captured (jf_job fr) of
        Inl e \<Rightarrow> set_jpc (Faulted e) fr
      | Inr rb \<Rightarrow> set_jpc (Leaves (Returned (ra, rb))) fr)"

text \<open>
  The job is popped back: \<open>run_inline\<close> when the first closure returned, where an unwind leaves the
  frame live, and \<open>run_captured\<close> when it did not.
\<close>

definition release :: "'p + 'b \<Rightarrow> ('p, 'b) outcome" where
  "release r = (case r of Inr y \<Rightarrow> Returned y | Inl p \<Rightarrow> Unwound p)"

definition inline_b :: "'p + 'a \<Rightarrow> ('s, 'p, 'a, 'b) join_frame \<Rightarrow> ('s, 'p, 'a, 'b) join_frame" where
  "inline_b ra fr =
     (case ra of
        Inr x \<Rightarrow>
          (case run_inline (jf_job fr) (jf_mem fr) of
             Inl e \<Rightarrow> set_jpc (Faulted e) fr
           | Inr (r, m) \<Rightarrow>
               set_jpc (Leaves (case r of Returned y \<Rightarrow> Returned (ra, Inr y) | Unwound p \<Rightarrow> Unwound p))
                 ((logged (RanB r) m fr)\<lparr>jf_job := (jf_job fr)\<lparr>sj_func := None\<rparr>\<rparr>))
      | Inl p \<Rightarrow>
          (case run_captured (jf_job fr) (jf_mem fr) of
             Inl e \<Rightarrow> set_jpc (Faulted e) fr
           | Inr (rb, m) \<Rightarrow>
               set_jpc (Leaves (Returned (ra, rb)))
                 ((logged (RanB (release rb)) m fr)\<lparr>jf_job := (jf_job fr)\<lparr>sj_func := None\<rparr>\<rparr>)))"

text \<open>
  One round of the loop: probe the latch, else pop the newest local job and compare its identity; with
  the deque empty, wait.
\<close>

definition join_loop :: "nat \<Rightarrow> (nat \<Rightarrow> 's \<Rightarrow> 's) \<Rightarrow> 'p + 'a \<Rightarrow> ('s, 'p, 'a, 'b) join_frame \<Rightarrow> ('s, 'p, 'a, 'b) join_frame" where
  "join_loop b other ra fr =
     (if sj_latch (jf_job fr) then take_result ra fr
      else (case jf_deque fr of
              j # d \<Rightarrow>
                if b = j then inline_b ra (fr\<lparr>jf_deque := d\<rparr>)
                else set_jpc (Helping ra) (execute_job b other j (fr\<lparr>jf_deque := d\<rparr>))
            | [] \<Rightarrow> set_jpc (Waiting ra) fr))"

text \<open>While the frame is inside a closure, a foreign job or \<^verbatim>\<open>wait_until\<close>, frames nested in it use the deque.\<close>

fun inside :: "('p, 'a, 'b) join_pc \<Rightarrow> bool" where
  "inside RunA = True"
| "inside (Helping _) = True"
| "inside (Waiting _) = True"
| "inside _ = False"

inductive join_step ::
    "nat \<Rightarrow> ('s, 'p, 'a) closure \<Rightarrow> (nat \<Rightarrow> 's \<Rightarrow> 's) \<Rightarrow> ('s, 'p, 'a, 'b) join_frame \<Rightarrow> ('s, 'p, 'a, 'b) join_frame \<Rightarrow> bool"
  for b oper_a other where
  run_a: "jf_pc fr = RunA \<Longrightarrow> join_step b oper_a other fr (finish_a oper_a fr)"
| nested_push: "inside (jf_pc fr) \<Longrightarrow> j \<noteq> b \<Longrightarrow> join_step b oper_a other fr (fr\<lparr>jf_deque := j # jf_deque fr\<rparr>)"
| nested_pop: "inside (jf_pc fr) \<Longrightarrow> jf_deque fr = j # d \<Longrightarrow>
    join_step b oper_a other fr (execute_job b other j (fr\<lparr>jf_deque := d\<rparr>))"
| loop: "jf_pc fr = Looping ra \<Longrightarrow> join_step b oper_a other fr (join_loop b other ra fr)"
| helped: "jf_pc fr = Helping ra \<Longrightarrow> join_step b oper_a other fr (set_jpc (Looping ra) fr)"
| wait_return: "jf_pc fr = Waiting ra \<Longrightarrow> sj_latch (jf_job fr) \<Longrightarrow> join_step b oper_a other fr (take_result ra fr)"
| steal: "jf_deque fr = d @ [j] \<Longrightarrow>
    join_step b oper_a other fr (fr\<lparr>jf_deque := d, jf_thief := (jf_thief fr \<or> j = b)\<rparr>)"
| thief_run: "jf_thief fr \<Longrightarrow> join_step b oper_a other fr (execute_b (fr\<lparr>jf_thief := False\<rparr>))"
| elsewhere: "j \<noteq> b \<Longrightarrow> join_step b oper_a other fr (logged (RanOther j) (other j (jf_mem fr)) fr)"

inductive join_reach ::
    "nat \<Rightarrow> ('s, 'p, 'a) closure \<Rightarrow> (nat \<Rightarrow> 's \<Rightarrow> 's) \<Rightarrow> ('s, 'p, 'a, 'b) join_frame \<Rightarrow> ('s, 'p, 'a, 'b) join_frame \<Rightarrow> bool"
  for b oper_a other fr0 where
  enter: "join_reach b oper_a other fr0 fr0"
| step: "join_reach b oper_a other fr0 fr \<Longrightarrow> join_step b oper_a other fr fr' \<Longrightarrow> join_reach b oper_a other fr0 fr'"

section \<open>What the log says\<close>

fun evs_a :: "('p, 'a, 'b) join_event list \<Rightarrow> ('p, 'a) outcome list" where
  "evs_a [] = []"
| "evs_a (RanA r # l) = r # evs_a l"
| "evs_a (_ # l) = evs_a l"

fun evs_b :: "('p, 'a, 'b) join_event list \<Rightarrow> ('p, 'b) outcome list" where
  "evs_b [] = []"
| "evs_b (RanB r # l) = r # evs_b l"
| "evs_b (_ # l) = evs_b l"

text \<open>The log is the history of the memory: each closure ran on what the events before it left.\<close>

fun replays :: "('s \<Rightarrow> ('p, 'a) outcome \<times> 's) \<Rightarrow> ('s \<Rightarrow> ('p, 'b) outcome \<times> 's) \<Rightarrow> (nat \<Rightarrow> 's \<Rightarrow> 's) \<Rightarrow>
    's \<Rightarrow> ('p, 'a, 'b) join_event list \<Rightarrow> 's \<Rightarrow> bool" where
  "replays f g other m [] m' \<longleftrightarrow> m' = m"
| "replays f g other m (RanA r # l) m' \<longleftrightarrow> r = fst (f m) \<and> replays f g other (snd (f m)) l m'"
| "replays f g other m (RanB r # l) m' \<longleftrightarrow> r = fst (g m) \<and> replays f g other (snd (g m)) l m'"
| "replays f g other m (RanOther j # l) m' \<longleftrightarrow> replays f g other (other j m) l m'"

lemma evs_append [simp]: "evs_a (l @ k) = evs_a l @ evs_a k" "evs_b (l @ k) = evs_b l @ evs_b k"
  by (induction l rule: evs_a.induct; simp) (induction l rule: evs_b.induct; simp)

lemma replays_append: "replays f g other m (l @ k) m' \<longleftrightarrow> (\<exists>m1. replays f g other m l m1 \<and> replays f g other m1 k m')"
  by (induction f g other m l m' rule: replays.induct) auto

section \<open>Invariant\<close>

fun job_of :: "('p, 'r) outcome \<Rightarrow> ('p, 'r) job_result" where
  "job_of (Returned x) = JobOk x"
| "job_of (Unwound p) = JobPanic p"

text \<open>Nobody has run the job: it lies in the deque once or a thief holds it. Or somebody has, and nobody can reach it.\<close>

definition b_waiting :: "nat \<Rightarrow> ('s \<Rightarrow> ('p, 'b) outcome \<times> 's) \<Rightarrow> ('s, 'p, 'a, 'b) join_frame \<Rightarrow> bool" where
  "b_waiting b g fr \<longleftrightarrow> count_list (jf_deque fr) b + (if jf_thief fr then 1 else 0) = 1 \<and>
     jf_job fr = stack_job_new (\<lambda>m. Inr (g m)) \<and> evs_b (jf_log fr) = []"

definition b_gone :: "nat \<Rightarrow> ('s, 'p, 'a, 'b) join_frame \<Rightarrow> bool" where
  "b_gone b fr \<longleftrightarrow> b \<notin> set (jf_deque fr) \<and> \<not> jf_thief fr \<and> sj_func (jf_job fr) = None"

definition b_executed :: "nat \<Rightarrow> ('s, 'p, 'a, 'b) join_frame \<Rightarrow> bool" where
  "b_executed b fr \<longleftrightarrow> b_gone b fr \<and> sj_latch (jf_job fr) \<and>
     (\<exists>r. evs_b (jf_log fr) = [r] \<and> sj_result (jf_job fr) = job_of r)"

definition a_ran :: "('s, 'p, 'a, 'b) join_frame \<Rightarrow> 'p + 'a \<Rightarrow> bool" where
  "a_ran fr ra \<longleftrightarrow> (\<exists>r. evs_a (jf_log fr) = [r] \<and> captured r = ra)"

definition left_with :: "nat \<Rightarrow> ('s, 'p, 'a, 'b) join_frame \<Rightarrow> ('p, ('p + 'a) \<times> ('p + 'b)) outcome \<Rightarrow> bool" where
  "left_with b fr r \<longleftrightarrow> b_gone b fr \<and> (\<exists>oa ob. evs_a (jf_log fr) = [oa] \<and> evs_b (jf_log fr) = [ob] \<and>
     (r = Returned (captured oa, captured ob) \<or> (\<exists>x p. oa = Returned x \<and> ob = Unwound p \<and> r = Unwound p)))"

definition pc_inv :: "nat \<Rightarrow> ('s \<Rightarrow> ('p, 'b) outcome \<times> 's) \<Rightarrow> ('s, 'p, 'a, 'b) join_frame \<Rightarrow> bool" where
  "pc_inv b g fr \<longleftrightarrow>
     (case jf_pc fr of
        RunA \<Rightarrow> evs_a (jf_log fr) = [] \<and> (b_waiting b g fr \<or> b_executed b fr)
      | Looping ra \<Rightarrow> a_ran fr ra \<and> (b_waiting b g fr \<or> b_executed b fr)
      | Helping ra \<Rightarrow> a_ran fr ra \<and> (b_waiting b g fr \<or> b_executed b fr)
      | Waiting ra \<Rightarrow> a_ran fr ra \<and> (b_waiting b g fr \<or> b_executed b fr) \<and> b \<notin> set (jf_deque fr)
      | Leaves r \<Rightarrow> left_with b fr r
      | Faulted e \<Rightarrow> False)"

definition join_inv where
  "join_inv b f g other m0 fr \<longleftrightarrow> replays f g other m0 (jf_log fr) (jf_mem fr) \<and> pc_inv b g fr"

lemmas b_defs = b_waiting_def b_gone_def b_executed_def a_ran_def left_with_def

lemma logged_fields [simp]:
  "jf_pc (logged e m fr) = jf_pc fr" "jf_deque (logged e m fr) = jf_deque fr" "jf_job (logged e m fr) = jf_job fr"
  "jf_thief (logged e m fr) = jf_thief fr" "jf_mem (logged e m fr) = m" "jf_log (logged e m fr) = jf_log fr @ [e]"
  by (simp_all add: logged_def)

lemma set_jpc_fields [simp]:
  "jf_pc (set_jpc p fr) = p" "jf_deque (set_jpc p fr) = jf_deque fr" "jf_job (set_jpc p fr) = jf_job fr"
  "jf_thief (set_jpc p fr) = jf_thief fr" "jf_mem (set_jpc p fr) = jf_mem fr" "jf_log (set_jpc p fr) = jf_log fr"
  by (simp_all add: set_jpc_def)

lemma execute_b_new:
  assumes "jf_job fr = stack_job_new (\<lambda>m. Inr (g m))"
  shows "execute_b fr = (logged (RanB (fst (g (jf_mem fr)))) (snd (g (jf_mem fr))) fr)
     \<lparr>jf_job := \<lparr>sj_latch = True, sj_func = None, sj_result = job_of (fst (g (jf_mem fr)))\<rparr>\<rparr>"
proof -
  obtain r m where g: "g (jf_mem fr) = (r, m)" by (cases "g (jf_mem fr)")
  then show ?thesis using assms
    by (cases r) (simp_all add: execute_b_def job_execute_def take_func_def stack_job_new_def job_result_call_def
        halt_unwinding_def into_result_def into_return_value_def)
qed

lemma execute_b_inv:
  assumes "jf_job fr = stack_job_new (\<lambda>m. Inr (g m))" "evs_b (jf_log fr) = []" "b \<notin> set (jf_deque fr)" "\<not> jf_thief fr"
  shows "b_executed b (execute_b fr)" "jf_pc (execute_b fr) = jf_pc fr" "jf_deque (execute_b fr) = jf_deque fr"
    "evs_a (jf_log (execute_b fr)) = evs_a (jf_log fr)"
    "replays f g other m0 (jf_log fr) (jf_mem fr) \<Longrightarrow> replays f g other m0 (jf_log (execute_b fr)) (jf_mem (execute_b fr))"
  using assms by (auto simp: execute_b_new [OF assms(1)] b_executed_def b_gone_def replays_append)

lemma inline_b_inv:
  assumes "jf_job fr = stack_job_new (\<lambda>m. Inr (g m))" "evs_b (jf_log fr) = []" "b \<notin> set (jf_deque fr)" "\<not> jf_thief fr"
    and "a_ran fr ra"
  shows "\<exists>r. jf_pc (inline_b ra fr) = Leaves r \<and> left_with b (inline_b ra fr) r"
    "replays f g other m0 (jf_log fr) (jf_mem fr) \<Longrightarrow> replays f g other m0 (jf_log (inline_b ra fr)) (jf_mem (inline_b ra fr))"
proof -
  obtain rb m where g: "g (jf_mem fr) = (rb, m)" by (cases "g (jf_mem fr)")
  from assms(5) obtain oa where oa: "evs_a (jf_log fr) = [oa]" "captured oa = ra" by (auto simp: a_ran_def)
  note defs = inline_b_def run_inline_def run_captured_def take_func_def stack_job_new_def halt_unwinding_def release_def
  show "\<exists>r. jf_pc (inline_b ra fr) = Leaves r \<and> left_with b (inline_b ra fr) r"
    using assms(1-4) g oa by (cases oa; cases rb) (auto simp: defs left_with_def b_gone_def)
  show "replays f g other m0 (jf_log (inline_b ra fr)) (jf_mem (inline_b ra fr))"
    if "replays f g other m0 (jf_log fr) (jf_mem fr)"
    using assms(1-4) g that by (cases ra; cases rb) (auto simp: defs replays_append)
qed

definition b_held :: "nat \<Rightarrow> ('s \<Rightarrow> ('p, 'b) outcome \<times> 's) \<Rightarrow> ('s, 'p, 'a, 'b) join_frame \<Rightarrow> bool" where
  "b_held b g fr \<longleftrightarrow> b_waiting b g fr \<or> b_executed b fr"

lemma latch_executed: "b_held b g fr \<Longrightarrow> sj_latch (jf_job fr) \<Longrightarrow> b_executed b fr"
  by (auto simp: b_held_def b_waiting_def stack_job_new_def)

lemma unset_waiting: "b_held b g fr \<Longrightarrow> \<not> sj_latch (jf_job fr) \<Longrightarrow> b_waiting b g fr"
  by (auto simp: b_held_def b_executed_def)

lemma take_result_inv:
  assumes "b_executed b fr" "a_ran fr ra"
  shows "\<exists>r. take_result ra fr = set_jpc (Leaves r) fr \<and> left_with b fr r"
proof -
  from assms obtain oa ob where o: "evs_a (jf_log fr) = [oa]" "captured oa = ra" "evs_b (jf_log fr) = [ob]"
    "sj_result (jf_job fr) = job_of ob" "b_gone b fr" by (auto simp: b_executed_def a_ran_def)
  then have "take_result ra fr = set_jpc (Leaves (Returned (captured oa, captured ob))) fr"
    by (cases ob) (simp_all add: take_result_def into_result_captured_def)
  moreover have "left_with b fr (Returned (captured oa, captured ob))" using o by (auto simp: left_with_def)
  ultimately show ?thesis by blast
qed

lemma execute_job_inv:
  assumes "b_held b g fr" "jf_deque fr = j # d"
  shows "b_held b g (execute_job b other j (fr\<lparr>jf_deque := d\<rparr>))"
    "jf_pc (execute_job b other j (fr\<lparr>jf_deque := d\<rparr>)) = jf_pc fr"
    "jf_deque (execute_job b other j (fr\<lparr>jf_deque := d\<rparr>)) = d"
    "evs_a (jf_log (execute_job b other j (fr\<lparr>jf_deque := d\<rparr>))) = evs_a (jf_log fr)"
    "replays f g other m0 (jf_log fr) (jf_mem fr) \<Longrightarrow>
       replays f g other m0 (jf_log (execute_job b other j (fr\<lparr>jf_deque := d\<rparr>))) (jf_mem (execute_job b other j (fr\<lparr>jf_deque := d\<rparr>)))"
proof -
  let ?fr = "fr\<lparr>jf_deque := d\<rparr>"
  have "b_held b g (execute_job b other j ?fr) \<and> jf_pc (execute_job b other j ?fr) = jf_pc fr \<and>
    jf_deque (execute_job b other j ?fr) = d \<and> evs_a (jf_log (execute_job b other j ?fr)) = evs_a (jf_log fr) \<and>
    (replays f g other m0 (jf_log fr) (jf_mem fr) \<longrightarrow>
       replays f g other m0 (jf_log (execute_job b other j ?fr)) (jf_mem (execute_job b other j ?fr)))"
  proof (cases "j = b")
    case True
    with assms have w: "b_waiting b g fr" by (auto simp: b_held_def b_executed_def b_gone_def)
    with True assms(2) have h: "jf_job ?fr = stack_job_new (\<lambda>m. Inr (g m))" "evs_b (jf_log ?fr) = []"
      "b \<notin> set (jf_deque ?fr)" "\<not> jf_thief ?fr" by (auto simp: b_waiting_def count_list_0_iff split: if_splits)
    from execute_b_inv [OF h] True show ?thesis by (simp add: execute_job_def b_held_def)
  next
    case False
    with assms show ?thesis
      by (auto simp: execute_job_def b_held_def b_waiting_def b_executed_def b_gone_def replays_append)
  qed
  then show "b_held b g (execute_job b other j ?fr)" "jf_pc (execute_job b other j ?fr) = jf_pc fr"
    "jf_deque (execute_job b other j ?fr) = d" "evs_a (jf_log (execute_job b other j ?fr)) = evs_a (jf_log fr)"
    "replays f g other m0 (jf_log fr) (jf_mem fr) \<Longrightarrow>
       replays f g other m0 (jf_log (execute_job b other j ?fr)) (jf_mem (execute_job b other j ?fr))" by blast+
qed

text \<open>A step that leaves the program counter and the first closure alone keeps the invariant if it keeps the job's part.\<close>

lemma pc_inv_keep:
  assumes "pc_inv b g fr" "jf_pc fr' = jf_pc fr" "evs_a (jf_log fr') = evs_a (jf_log fr)"
    and "b_held b g fr \<Longrightarrow> b_held b g fr'" "b \<notin> set (jf_deque fr) \<Longrightarrow> b \<notin> set (jf_deque fr')"
    and "\<And>r. jf_pc fr = Leaves r \<Longrightarrow> left_with b fr r \<Longrightarrow> left_with b fr' r"
  shows "pc_inv b g fr'"
  using assms unfolding pc_inv_def b_held_def by (cases "jf_pc fr") (simp_all add: a_ran_def)

lemma pc_inv_held: "pc_inv b g fr \<Longrightarrow> \<forall>r. jf_pc fr \<noteq> Leaves r \<Longrightarrow> b_held b g fr"
  unfolding pc_inv_def b_held_def by (cases "jf_pc fr") auto

lemma pc_inv_a_ran: "pc_inv b g fr \<Longrightarrow> jf_pc fr \<in> {Looping ra, Helping ra, Waiting ra} \<Longrightarrow> a_ran fr ra"
  unfolding pc_inv_def by auto

lemma pc_inv_intros:
  "jf_pc fr = Leaves r \<Longrightarrow> left_with b fr r \<Longrightarrow> pc_inv b g fr"
  "jf_pc fr = Looping ra \<or> jf_pc fr = Helping ra \<Longrightarrow> a_ran fr ra \<Longrightarrow> b_held b g fr \<Longrightarrow> pc_inv b g fr"
  "jf_pc fr = Waiting ra \<Longrightarrow> a_ran fr ra \<Longrightarrow> b_held b g fr \<Longrightarrow> b \<notin> set (jf_deque fr) \<Longrightarrow> pc_inv b g fr"
  by (auto simp: pc_inv_def b_held_def)

lemma set_jpc_held [simp]:
  "b_held b g (set_jpc p fr) = b_held b g fr" "a_ran (set_jpc p fr) ra = a_ran fr ra"
  "left_with b (set_jpc p fr) r = left_with b fr r"
  by (simp_all add: b_held_def b_defs)

lemma join_loop_inv:
  assumes inv: "join_inv b f g other m0 fr" and pc: "jf_pc fr = Looping ra"
  shows "join_inv b f g other m0 (join_loop b other ra fr)"
proof -
  have rp: "replays f g other m0 (jf_log fr) (jf_mem fr)" and pi: "pc_inv b g fr" using inv by (simp_all add: join_inv_def)
  have h: "b_held b g fr" by (rule pc_inv_held [OF pi]) (simp add: pc)
  have a: "a_ran fr ra" by (rule pc_inv_a_ran [OF pi]) (simp add: pc)
  show ?thesis
  proof (cases "sj_latch (jf_job fr)")
    case True
    from take_result_inv [OF latch_executed [OF h True] a] obtain r where
      "take_result ra fr = set_jpc (Leaves r) fr" "left_with b fr r" by blast
    with True rp show ?thesis by (simp add: join_loop_def join_inv_def pc_inv_intros(1))
  next
    case False
    note w = unset_waiting [OF h False]
    show ?thesis
    proof (cases "jf_deque fr")
      case Nil
      with False rp h a show ?thesis by (simp add: join_loop_def join_inv_def pc_inv_intros(3))
    next
      case (Cons j d)
      show ?thesis
      proof (cases "b = j")
        case True
        let ?fr = "fr\<lparr>jf_deque := d\<rparr>"
        have "jf_job ?fr = stack_job_new (\<lambda>m. Inr (g m))" "evs_b (jf_log ?fr) = []" "b \<notin> set (jf_deque ?fr)"
          "\<not> jf_thief ?fr" "a_ran ?fr ra"
          using w Cons True a by (auto simp: b_waiting_def a_ran_def count_list_0_iff split: if_splits)
        note i = inline_b_inv [OF this]
        from i(1) obtain r where "jf_pc (inline_b ra ?fr) = Leaves r" "left_with b (inline_b ra ?fr) r" by blast
        then have "pc_inv b g (inline_b ra ?fr)" by (rule pc_inv_intros(1))
        with i(2) [of f other m0] rp Cons True False show ?thesis by (simp add: join_loop_def join_inv_def)
      next
        case no: False
        note e = execute_job_inv [OF h Cons]
        have "a_ran (execute_job b other j (fr\<lparr>jf_deque := d\<rparr>)) ra" using a e(4) by (simp add: a_ran_def)
        with e(1) have "pc_inv b g (set_jpc (Helping ra) (execute_job b other j (fr\<lparr>jf_deque := d\<rparr>)))"
          by (intro pc_inv_intros(2) [where ra = ra]) simp_all
        with e(5) [OF rp] no Cons False show ?thesis by (simp add: join_loop_def join_inv_def)
      qed
    qed
  qed
qed

lemma join_inv_step:
  assumes "join_step b (\<lambda>m. Inr (f m)) other fr fr'" "join_inv b f g other m0 fr"
  shows "join_inv b f g other m0 fr'"
proof -
  have rp: "replays f g other m0 (jf_log fr) (jf_mem fr)" and pi: "pc_inv b g fr"
    using assms(2) by (simp_all add: join_inv_def)
  note held = pc_inv_held [OF pi]
  from assms(1) show ?thesis
  proof cases
    case run_a
    have h: "b_held b g fr" by (rule held) (simp add: run_a)
    obtain r m where f: "f (jf_mem fr) = (r, m)" by (cases "f (jf_mem fr)")
    have l: "evs_a (jf_log fr) = []" using pi run_a by (simp add: pc_inv_def)
    have fin: "finish_a (\<lambda>m. Inr (f m)) fr = set_jpc (Looping (captured r)) (logged (RanA r) m fr)"
      using f by (simp add: finish_a_def)
    have "b_held b g (logged (RanA r) m fr)" "a_ran (logged (RanA r) m fr) (captured r)"
      using h l by (auto simp: b_held_def b_defs)
    with rp f show ?thesis unfolding run_a(1) fin
      by (auto simp: join_inv_def pc_inv_intros(2) replays_append intro!: exI [of _ "jf_mem fr"])
  next
    case (nested_push j)
    have "pc_inv b g fr'" unfolding nested_push(1)
      by (rule pc_inv_keep [OF pi]) (use nested_push in \<open>auto simp: b_held_def b_defs\<close>)
    with rp nested_push(1) show ?thesis by (simp add: join_inv_def)
  next
    case (nested_pop j d)
    have h: "b_held b g fr" by (rule held) (use nested_pop(2) in \<open>cases "jf_pc fr"; simp\<close>)
    note e = execute_job_inv [OF h nested_pop(3)]
    have "pc_inv b g fr'" unfolding nested_pop(1)
      by (rule pc_inv_keep [OF pi]) (use e nested_pop in auto)
    with e(5) [OF rp] nested_pop(1) show ?thesis by (simp add: join_inv_def)
  next
    case (loop ra)
    then show ?thesis using join_loop_inv [OF assms(2)] by simp
  next
    case (helped ra)
    have "b_held b g fr" by (rule held) (simp add: helped)
    moreover have "a_ran fr ra" by (rule pc_inv_a_ran [OF pi]) (simp add: helped)
    ultimately show ?thesis using rp helped(1) by (simp add: join_inv_def pc_inv_intros(2))
  next
    case (wait_return ra)
    have h: "b_held b g fr" by (rule held) (simp add: wait_return)
    have "a_ran fr ra" by (rule pc_inv_a_ran [OF pi]) (simp add: wait_return)
    from take_result_inv [OF latch_executed [OF h wait_return(3)] this] wait_return(1) rp show ?thesis
      by (auto simp: join_inv_def pc_inv_intros(1))
  next
    case (steal d j)
    have "pc_inv b g fr'" unfolding steal(1)
      by (rule pc_inv_keep [OF pi]) (use steal(2) in \<open>auto simp: b_held_def b_defs count_list_0_iff split: if_splits\<close>)
    with rp steal(1) show ?thesis by (simp add: join_inv_def)
  next
    case thief_run
    have "b_held b g fr" by (rule held) (use pi thief_run in \<open>auto simp: pc_inv_def left_with_def b_gone_def\<close>)
    with thief_run have w: "b_waiting b g fr" by (auto simp: b_held_def b_executed_def b_gone_def)
    let ?fr = "fr\<lparr>jf_thief := False\<rparr>"
    have "jf_job ?fr = stack_job_new (\<lambda>m. Inr (g m))" "evs_b (jf_log ?fr) = []" "b \<notin> set (jf_deque ?fr)" "\<not> jf_thief ?fr"
      using w thief_run by (auto simp: b_waiting_def count_list_0_iff)
    note e = execute_b_inv [OF this]
    have "pc_inv b g fr'" unfolding thief_run(1)
      by (rule pc_inv_keep [OF pi]) (use e thief_run pi in \<open>auto simp: b_held_def left_with_def b_gone_def\<close>)
    with e(5) [of f other m0] rp thief_run(1) show ?thesis by (simp add: join_inv_def)
  next
    case (elsewhere j)
    have "pc_inv b g fr'" unfolding elsewhere(1)
      by (rule pc_inv_keep [OF pi]) (auto simp: b_held_def b_defs)
    with rp elsewhere(1) show ?thesis by (auto simp: join_inv_def replays_append intro!: exI [of _ "jf_mem fr"])
  qed
qed

lemma join_inv_reach:
  assumes "join_reach b (\<lambda>m. Inr (f m)) other (join_enter b (\<lambda>m. Inr (g m)) d m0) fr" "b \<notin> set d"
  shows "join_inv b f g other m0 fr"
  using assms
proof (induction rule: join_reach.induct)
  case enter
  then show ?case by (simp add: join_inv_def pc_inv_def join_enter_def b_waiting_def)
qed (blast intro: join_inv_step)

section \<open>Properties\<close>

text \<open>What \<open>join_on\<close> makes of the pair: the first payload resumes, then the second.\<close>

definition join_result :: "('p, ('p + 'a) \<times> ('p + 'b)) outcome \<Rightarrow> ('p, 'a \<times> 'b) outcome" where
  "join_result r =
     (case r of
        Unwound p \<Rightarrow> Unwound p
      | Returned (Inl p, _) \<Rightarrow> Unwound p
      | Returned (Inr _, Inl p) \<Rightarrow> Unwound p
      | Returned (Inr x, Inr y) \<Rightarrow> Returned (x, y))"

text \<open>Closures that do not see each other's effects, as Rust's borrow rules make the two sides of a join.\<close>

definition independent :: "('s \<Rightarrow> 'a \<times> 's) \<Rightarrow> ('s \<Rightarrow> 'b \<times> 's) \<Rightarrow> bool" where
  "independent f g \<longleftrightarrow> (\<forall>m. fst (f (snd (g m))) = fst (f m) \<and> fst (g (snd (f m))) = fst (g m) \<and>
     snd (f (snd (g m))) = snd (g (snd (f m))))"

lemma replays_none:
  assumes "replays f g other m l m'" "evs_a l = []" "evs_b l = []" "\<And>j m. other j m = m"
  shows "m' = m"
  using assms by (induction f g other m l m' rule: replays.induct) auto

lemma replays_one:
  assumes "replays f g other m l m'" "\<And>j m. other j m = m"
  shows "evs_a l = [oa] \<Longrightarrow> evs_b l = [] \<Longrightarrow> oa = fst (f m) \<and> m' = snd (f m)"
    "evs_a l = [] \<Longrightarrow> evs_b l = [ob] \<Longrightarrow> ob = fst (g m) \<and> m' = snd (g m)"
  using assms by (induction f g other m l m' rule: replays.induct) (auto dest: replays_none)

lemma replays_both:
  assumes "replays f g other m l m'" "\<And>j m. other j m = m" "evs_a l = [oa]" "evs_b l = [ob]" "independent f g"
  shows "oa = fst (f m) \<and> ob = fst (g (snd (f m))) \<and> m' = snd (g (snd (f m)))"
  using assms
proof (induction f g other m l m' rule: replays.induct)
  case (2 f g other m r l m')
  have "replays f g other (snd (f m)) l m'" "evs_a l = []" "evs_b l = [ob]" "oa = fst (f m)"
    using "2.prems"(1, 3, 4) by auto
  with replays_one(2) [OF this(1) "2.prems"(2)] show ?case by blast
next
  case (3 f g other m r l m')
  have l: "replays f g other (snd (g m)) l m'" "evs_a l = [oa]" "evs_b l = []" "ob = fst (g m)"
    using "3.prems"(1, 3, 4) by auto
  have "oa = fst (f (snd (g m))) \<and> m' = snd (f (snd (g m)))"
    by (rule replays_one(1) [OF l(1) "3.prems"(2) l(2, 3)])
  with l(4) "3.prems"(5) show ?case unfolding independent_def by metis
qed simp_all

text \<open>
  C19. Join. Whatever the deque held before, and however the nested frames, the jobs the worker helps
  with and the thieves use it, a join whose closures return or unwind never runs a taken closure again
  nor reads an empty result slot. While it waits, the second job is done or a thief holds it and will set
  the latch. When the join leaves, both closures have run exactly once, each on the memory the steps
  before it left, the result is that of both (the payload of the first if it unwound, else that of the
  second if it did), and no reference to its stack job is left in the deque or with a thief.
\<close>

theorem join_runs_both:
  assumes "join_reach b (\<lambda>m. Inr (f m)) other (join_enter b (\<lambda>m. Inr (g m)) d m0) fr" and "b \<notin> set d"
  shows "(\<forall>e. jf_pc fr \<noteq> Faulted e) \<and>
    (\<forall>ra. jf_pc fr = Waiting ra \<longrightarrow> sj_latch (jf_job fr) \<or>
       (jf_thief fr \<and> sj_latch (jf_job (execute_b (fr\<lparr>jf_thief := False\<rparr>))))) \<and>
    (\<forall>r. jf_pc fr = Leaves r \<longrightarrow>
       (\<exists>oa ob. evs_a (jf_log fr) = [oa] \<and> evs_b (jf_log fr) = [ob] \<and>
          replays f g other m0 (jf_log fr) (jf_mem fr) \<and> join_result r = both oa ob) \<and>
       b \<notin> set (jf_deque fr) \<and> \<not> jf_thief fr)"
proof (intro conjI allI impI)
  note inv = join_inv_reach [OF assms]
  then have pi: "pc_inv b g fr" by (simp add: join_inv_def)
  show "jf_pc fr \<noteq> Faulted e" for e using pi by (auto simp: pc_inv_def)
  show "sj_latch (jf_job fr) \<or> (jf_thief fr \<and> sj_latch (jf_job (execute_b (fr\<lparr>jf_thief := False\<rparr>))))"
    if "jf_pc fr = Waiting ra" for ra
  proof (rule disjCI)
    assume "\<not> (jf_thief fr \<and> sj_latch (jf_job (execute_b (fr\<lparr>jf_thief := False\<rparr>))))"
    moreover have "b_waiting b g fr \<Longrightarrow> jf_thief fr" using pi that by (auto simp: pc_inv_def b_waiting_def split: if_splits)
    moreover have "b_waiting b g fr \<Longrightarrow> sj_latch (jf_job (execute_b (fr\<lparr>jf_thief := False\<rparr>)))"
      by (subst execute_b_new [of _ g]) (simp_all add: b_waiting_def)
    ultimately show "sj_latch (jf_job fr)" using pi that by (auto simp: pc_inv_def b_executed_def)
  qed
  fix r assume r: "jf_pc fr = Leaves r"
  with pi have lw: "left_with b fr r" by (simp add: pc_inv_def)
  then show "b \<notin> set (jf_deque fr)" "\<not> jf_thief fr" by (simp_all add: left_with_def b_gone_def)
  from lw obtain oa ob where o: "evs_a (jf_log fr) = [oa]" "evs_b (jf_log fr) = [ob]"
    "r = Returned (captured oa, captured ob) \<or> (\<exists>x p. oa = Returned x \<and> ob = Unwound p \<and> r = Unwound p)"
    by (auto simp: left_with_def)
  have "join_result r = both oa ob" using o(3) by (cases oa; cases ob) (auto simp: join_result_def)
  with o inv show "\<exists>oa ob. evs_a (jf_log fr) = [oa] \<and> evs_b (jf_log fr) = [ob] \<and>
      replays f g other m0 (jf_log fr) (jf_mem fr) \<and> join_result r = both oa ob" by (auto simp: join_inv_def)
qed

text \<open>A run in which the first closure leaves a job of its own above the second one.\<close>

lemma helping_run:
  fixes f :: "nat \<Rightarrow> (nat, nat) outcome \<times> nat" and g :: "nat \<Rightarrow> (nat, nat) outcome \<times> nat"
  assumes "f 0 = (Returned 1, 1)" "g 1 = (Unwound 5, 2)"
  shows "\<exists>fr. join_reach 7 (\<lambda>m. Inr (f m)) (\<lambda>_ m. m) (join_enter 7 (\<lambda>m. Inr (g m)) [] 0) fr \<and>
    jf_pc fr = Leaves (Unwound 5) \<and> jf_deque fr = [] \<and> jf_mem fr = 2"
proof -
  let ?R = "join_reach 7 (\<lambda>m. Inr (f m)) (\<lambda>_ m. m) (join_enter 7 (\<lambda>m. Inr (g m)) [] 0)"
  let ?j = "stack_job_new (\<lambda>m. Inr (g m))"
  let ?A = "RanA (Returned 1)"
  let ?s1 = "\<lparr>jf_pc = RunA, jf_deque = [3, 7], jf_job = ?j, jf_thief = False, jf_mem = 0, jf_log = []\<rparr>"
  let ?s2 = "\<lparr>jf_pc = Looping (Inr 1), jf_deque = [3, 7], jf_job = ?j, jf_thief = False, jf_mem = 1, jf_log = [?A]\<rparr>"
  let ?s3 = "\<lparr>jf_pc = Helping (Inr 1), jf_deque = [7], jf_job = ?j, jf_thief = False, jf_mem = 1, jf_log = [?A, RanOther 3]\<rparr>"
  let ?s4 = "?s3\<lparr>jf_pc := Looping (Inr 1)\<rparr>"
  let ?s5 = "?s3\<lparr>jf_pc := Leaves (Unwound 5), jf_deque := [], jf_job := ?j\<lparr>sj_func := None\<rparr>, jf_mem := 2,
    jf_log := [?A, RanOther 3, RanB (Unwound 5)]\<rparr>"
  have "?R ?s1" by (rule join_reach.step [OF join_reach.enter])
    (use join_step.nested_push [of "join_enter 7 (\<lambda>m. Inr (g m)) [] 0" 3 7] in \<open>simp add: join_enter_def\<close>)
  moreover have "join_step 7 (\<lambda>m. Inr (f m)) (\<lambda>_ m. m) ?s1 ?s2"
    using join_step.run_a [of ?s1 7 "\<lambda>m. Inr (f m)"] assms by (simp add: finish_a_def set_jpc_def logged_def)
  ultimately have "?R ?s2" by (rule join_reach.step)
  moreover have "join_step 7 (\<lambda>m. Inr (f m)) (\<lambda>_ m. m) ?s2 ?s3"
    using join_step.loop [of ?s2 "Inr 1" 7 "\<lambda>m. Inr (f m)" "\<lambda>_ m. m"]
    by (simp add: join_loop_def execute_job_def set_jpc_def logged_def stack_job_new_def)
  ultimately have "?R ?s3" by (rule join_reach.step)
  moreover have "join_step 7 (\<lambda>m. Inr (f m)) (\<lambda>_ m. m) ?s3 ?s4"
    using join_step.helped [of ?s3 "Inr 1" 7 "\<lambda>m. Inr (f m)" "\<lambda>_ m. m"] by (simp add: set_jpc_def)
  ultimately have "?R ?s4" by (rule join_reach.step)
  moreover have "join_step 7 (\<lambda>m. Inr (f m)) (\<lambda>_ m. m) ?s4 ?s5"
    using join_step.loop [of ?s4 "Inr 1" 7 "\<lambda>m. Inr (f m)" "\<lambda>_ m. m"] assms
    by (simp add: join_loop_def inline_b_def run_inline_def take_func_def set_jpc_def logged_def stack_job_new_def)
  ultimately have "?R ?s5" by (rule join_reach.step)
  then show ?thesis by (intro exI [of _ ?s5]) simp
qed

theorem join_runs_both_witness:
  "\<exists>fr :: (nat, nat, nat, nat) join_frame. jf_pc fr = Leaves (Unwound 5) \<and> evs_a (jf_log fr) = [Returned 1] \<and>
     evs_b (jf_log fr) = [Unwound 5] \<and> 7 \<notin> set (jf_deque fr) \<and> jf_mem fr = 2"
proof -
  let ?f = "\<lambda>m :: nat. (Returned 1 :: (nat, nat) outcome, m + 1)" and ?g = "\<lambda>m :: nat. (Unwound 5 :: (nat, nat) outcome, m + 1)"
  from helping_run [of ?f ?g] obtain fr where
    fr: "join_reach 7 (\<lambda>m. Inr (?f m)) (\<lambda>_ m. m) (join_enter 7 (\<lambda>m. Inr (?g m)) [] 0) fr"
      "jf_pc fr = Leaves (Unwound 5)" "jf_mem fr = 2" by auto
  from join_runs_both [OF fr(1)] fr(2) obtain oa ob where
    o: "evs_a (jf_log fr) = [oa]" "evs_b (jf_log fr) = [ob]" "7 \<notin> set (jf_deque fr)"
      "join_result (Unwound 5) = both oa ob" "replays ?f ?g (\<lambda>_ m. m) 0 (jf_log fr) (jf_mem fr)" by auto
  have "independent ?f ?g" by (simp add: independent_def)
  from replays_both [OF o(5) refl o(1, 2) this] o fr show ?thesis by (intro exI [of _ fr]) simp
qed

text \<open>
  C18. The wait loop refines the choice the rest of the model uses. When the two closures do not see
  each other's effects and the other jobs leave their memory alone, every run of the join that leaves
  does so with the result and the memory of \<open>join_on_captured\<close>, which runs the first closure and then
  the second one, with the second either popped back or stolen.
\<close>

theorem join_wait_refines:
  assumes "join_reach b (\<lambda>m. Inr (f m)) other (join_enter b (\<lambda>m. Inr (g m)) d m0) fr" and "b \<notin> set d"
    and "jf_pc fr = Leaves r" and "independent f g" and "\<And>j m. other j m = m"
  shows "\<exists>stolen. join_on_captured stolen (\<lambda>m. Inr (f m)) (\<lambda>m. Inr (g m)) m0 = Inr (r, jf_mem fr)"
proof -
  have inv: "join_inv b f g other m0 fr" by (rule join_inv_reach [OF assms(1, 2)])
  with assms(3) obtain oa ob where o: "evs_a (jf_log fr) = [oa]" "evs_b (jf_log fr) = [ob]"
    "r = Returned (captured oa, captured ob) \<or> (\<exists>x p. oa = Returned x \<and> ob = Unwound p \<and> r = Unwound p)"
    by (auto simp: join_inv_def pc_inv_def left_with_def)
  have "replays f g other m0 (jf_log fr) (jf_mem fr)" using inv by (simp add: join_inv_def)
  from replays_both [OF this assms(5) o(1, 2) assms(4)]
  have v: "oa = fst (f m0)" "ob = fst (g (snd (f m0)))" "jf_mem fr = snd (g (snd (f m0)))" by auto
  obtain m1 where f: "f m0 = (oa, m1)" using v(1) by (cases "f m0") simp
  then have g: "g m1 = (ob, jf_mem fr)" using v by (simp add: prod_eq_iff)
  from o(3) show ?thesis
  proof
    assume "r = Returned (captured oa, captured ob)"
    then have "join_on_captured True (\<lambda>m. Inr (f m)) (\<lambda>m. Inr (g m)) m0 = Inr (r, jf_mem fr)"
      using f g by (cases ob) (simp_all add: join_defs)
    then show ?thesis ..
  next
    assume "\<exists>x p. oa = Returned x \<and> ob = Unwound p \<and> r = Unwound p"
    then have "join_on_captured False (\<lambda>m. Inr (f m)) (\<lambda>m. Inr (g m)) m0 = Inr (r, jf_mem fr)"
      using f g by (auto simp: join_defs)
    then show ?thesis ..
  qed
qed

theorem join_wait_refines_witness:
  "\<exists>(fr :: (nat, nat, nat, nat) join_frame) stolen. jf_pc fr = Leaves (Unwound 5) \<and> jf_deque fr = [] \<and>
     join_on_captured stolen (\<lambda>m :: nat. Inr (Returned 1 :: (nat, nat) outcome, m + 1))
       (\<lambda>m. Inr (Unwound 5 :: (nat, nat) outcome, m + 1)) 0 = Inr (Unwound 5, jf_mem fr)"
proof -
  let ?f = "\<lambda>m :: nat. (Returned 1 :: (nat, nat) outcome, m + 1)" and ?g = "\<lambda>m :: nat. (Unwound 5 :: (nat, nat) outcome, m + 1)"
  from helping_run [of ?f ?g] obtain fr where
    fr: "join_reach 7 (\<lambda>m. Inr (?f m)) (\<lambda>_ m. m) (join_enter 7 (\<lambda>m. Inr (?g m)) [] 0) fr"
      "jf_pc fr = Leaves (Unwound 5)" "jf_deque fr = []" by auto
  have "independent ?f ?g" by (simp add: independent_def)
  from join_wait_refines [OF fr(1) _ fr(2) this refl] fr show ?thesis by (intro exI [of _ fr]) simp
qed

end
