(* ===== verification/Fused_Mem.thy ===== *)
theory Fused_Mem
  imports Join
begin

text \<open>
  The memory of the fused engine: the slot buffers of \<^verbatim>\<open>builder/typed/slots.rs\<close>, the cleanup guard
  of the leaves and the shape of a leaf loop (\<^verbatim>\<open>builder/typed/fused.rs\<close>). A slot is \<open>Some\<close> while it
  holds a live value. Reading or dropping a slot that holds none is undefined behaviour in the source
  and a fault here; freeing a buffer drops nothing, so a slot that is still \<open>Some\<close> when its buffer is
  freed is a leak. Every item of a range is tracked by a cell state: not yet read, turned into an
  output, or gone.
\<close>

section \<open>Slots\<close>

record 'a slots =
  sl_buf :: "'a option list"
  sl_len :: nat

definition slots_from_vec :: "'a vec \<Rightarrow> 'a slots" where
  "slots_from_vec v =
     \<lparr>sl_buf = map Some (v_items v) @ replicate (v_cap v - length (v_items v)) None, sl_len = length (v_items v)\<rparr>"

definition slots_uninit :: "nat \<Rightarrow> 'a slots" where
  "slots_uninit n = \<lparr>sl_buf = replicate n None, sl_len = n\<rparr>"

text \<open>\<^verbatim>\<open>ptr::read\<close>, \<^verbatim>\<open>ptr::write\<close> and \<^verbatim>\<open>drop_in_place\<close> on one slot.\<close>

definition slot_read :: "'a slots \<Rightarrow> nat \<Rightarrow> ('a \<times> 'a slots) res" where
  "slot_read sl i =
     bind_res (index_res (sl_buf sl) i) (\<lambda>c. case c of
        None \<Rightarrow> Inl UninitRead
      | Some x \<Rightarrow> Inr (x, sl\<lparr>sl_buf := (sl_buf sl)[i := None]\<rparr>))"

definition slot_write :: "'a slots \<Rightarrow> nat \<Rightarrow> 'a \<Rightarrow> 'a slots res" where
  "slot_write sl i x =
     bind_res (index_res (sl_buf sl) i) (\<lambda>_. Inr (sl\<lparr>sl_buf := (sl_buf sl)[i := Some x]\<rparr>))"

fun drop_each :: "nat list \<Rightarrow> 'a slots \<Rightarrow> 'a slots res" where
  "drop_each [] sl = Inr sl"
| "drop_each (i # is) sl = bind_res (slot_read sl i) (\<lambda>(_, sl'). drop_each is sl')"

text \<open>The range operations carry the debug assertion on their bounds.\<close>

definition range_ok :: "'a slots \<Rightarrow> nat \<Rightarrow> nat \<Rightarrow> bool" where
  "range_ok sl start stop \<longleftrightarrow> start \<le> stop \<and> stop \<le> sl_len sl"

definition drop_range :: "'a slots \<Rightarrow> nat \<Rightarrow> nat \<Rightarrow> 'a slots res" where
  "drop_range sl start stop = (if range_ok sl start stop then drop_each [start..<stop] sl else Inl ExplicitPanic)"

text \<open>\<open>as_slice\<close> and \<open>as_mut_slice\<close>: the offset and the length of the view.\<close>

definition as_slice :: "'a slots \<Rightarrow> nat \<Rightarrow> nat \<Rightarrow> (nat \<times> nat) res" where
  "as_slice sl start stop = (if range_ok sl start stop then Inr (start, stop - start) else Inl ExplicitPanic)"

text \<open>
  \<open>into_vec_with_len\<close> reinterprets the first \<open>len\<close> slots as values: an empty one among them would be
  a vector of uninitialised items.
\<close>

definition into_vec_with_len :: "'a slots \<Rightarrow> nat \<Rightarrow> 'a vec res" where
  "into_vec_with_len sl len =
     (if sl_len sl < len then Inl ExplicitPanic
      else if None \<in> set (take len (sl_buf sl)) then Inl UninitRead
      else Inr \<lparr>v_items = map the (take len (sl_buf sl)), v_cap = length (sl_buf sl)\<rparr>)"

definition into_vec :: "'a slots \<Rightarrow> 'a vec res" where
  "into_vec sl = into_vec_with_len sl (sl_len sl)"

section \<open>Leaf loops\<close>

record ('a, 'b) fused_mem =
  fm_in :: "'a slots"
  fm_out :: "'b slots"

record leaf_cleanup =
  lc_in :: nat
  lc_out :: nat
  lc_n :: nat
  lc_written :: nat

text \<open>\<open>LeafCleanup::cleanup\<close>, with its two compile-time halves as flags.\<close>

definition leaf_clean :: "bool \<Rightarrow> bool \<Rightarrow> leaf_cleanup \<Rightarrow> ('a, 'b) fused_mem \<Rightarrow> ('a, 'b) fused_mem res" where
  "leaf_clean OUT IN g m =
     bind_res (if OUT then drop_each (map ((+) (lc_out g)) [0..<lc_written g]) (fm_out m) else Inr (fm_out m)) (\<lambda>out.
     bind_res (if IN then drop_each (map ((+) (lc_in g)) [lc_written g + 1..<lc_n g]) (fm_in m) else Inr (fm_in m)) (\<lambda>inp.
     Inr (m\<lparr>fm_in := inp, fm_out := out\<rparr>)))"

text \<open>
  The loop every leaf has: item by item from \<open>written\<close> on, the guard's cleanup on an error and on an
  unwind, nothing left to clean at the end. \<open>body i acc\<close> reads item \<open>i\<close> of the view and runs the
  operation on it.
\<close>

fun leaf_loop ::
    "(nat \<Rightarrow> 's \<Rightarrow> 's res) \<Rightarrow> (nat \<Rightarrow> 'acc \<Rightarrow> ('s, 'p, 'e + 'acc) closure) \<Rightarrow> nat \<Rightarrow> nat \<Rightarrow> 'acc \<Rightarrow>
     ('s, 'p, 'e + 'acc) closure" where
  "leaf_loop clean body written 0 acc s = Inr (Returned (Inr acc), s)"
| "leaf_loop clean body written (Suc k) acc s =
     bind_res (body written acc s) (\<lambda>(r, s'). case r of
        Returned (Inr acc') \<Rightarrow> leaf_loop clean body (written + 1) k acc' s'
      | _ \<Rightarrow> bind_res (clean written s') (\<lambda>s''. Inr (r, s'')))"

section \<open>Cell states\<close>

datatype cell = Ready | Finished | Gone

definition mark :: "nat \<Rightarrow> nat \<Rightarrow> cell \<Rightarrow> (nat \<Rightarrow> cell) \<Rightarrow> nat \<Rightarrow> cell" where
  "mark a b c \<sigma> i = (if a \<le> i \<and> i < b then c else \<sigma> i)"

definition in_holds :: "'a list \<Rightarrow> (nat \<Rightarrow> cell) \<Rightarrow> 'a slots \<Rightarrow> bool" where
  "in_holds xs \<sigma> sl \<longleftrightarrow> sl_len sl = length xs \<and> length xs \<le> length (sl_buf sl) \<and>
     (\<forall>i < length (sl_buf sl). sl_buf sl ! i = (if i < length xs \<and> \<sigma> i = Ready then Some (xs ! i) else None))"

definition out_holds :: "nat \<Rightarrow> (nat \<Rightarrow> 'b) \<Rightarrow> (nat \<Rightarrow> cell) \<Rightarrow> 'b slots \<Rightarrow> bool" where
  "out_holds n y \<sigma> sl \<longleftrightarrow> sl_len sl = n \<and> length (sl_buf sl) = n \<and>
     (\<forall>i < n. sl_buf sl ! i = (if \<sigma> i = Finished then Some (y i) else None))"

lemma mark_in [simp]: "a \<le> i \<Longrightarrow> i < b \<Longrightarrow> mark a b c \<sigma> i = c"
  and mark_out [simp]: "i < a \<or> b \<le> i \<Longrightarrow> mark a b c \<sigma> i = \<sigma> i"
  by (auto simp: mark_def)

lemma mark_empty [simp]: "mark a a c \<sigma> = \<sigma>"
  by (auto simp: mark_def fun_eq_iff)

lemma mark_join: "a \<le> m \<Longrightarrow> m \<le> b \<Longrightarrow> mark m b c (mark a m c \<sigma>) = mark a b c \<sigma>"
  by (auto simp: mark_def fun_eq_iff)

lemma mark_again: "mark a b c (mark a b d \<sigma>) = mark a b c \<sigma>"
  by (auto simp: mark_def fun_eq_iff)

lemma mark_swap: "b \<le> a' \<Longrightarrow> mark a b c (mark a' b' d \<sigma>) = mark a' b' d (mark a b c \<sigma>)"
  by (auto simp: mark_def fun_eq_iff)

section \<open>Items one after the other\<close>

fun run_items :: "('i \<Rightarrow> 'acc \<Rightarrow> ('p, 'e + 'acc) outcome) \<Rightarrow> 'i list \<Rightarrow> 'acc \<Rightarrow> ('p, 'e + 'acc) outcome" where
  "run_items f [] acc = Returned (Inr acc)"
| "run_items f (i # is) acc = (case f i acc of Returned (Inr acc') \<Rightarrow> run_items f is acc' | r \<Rightarrow> r)"

fun is_ok :: "('p, 'e + 'r) outcome \<Rightarrow> bool" where
  "is_ok (Returned (Inr x)) = True"
| "is_ok _ = False"

lemma run_items_append:
  "run_items f (xs @ ys) acc = (case run_items f xs acc of Returned (Inr acc') \<Rightarrow> run_items f ys acc' | r \<Rightarrow> r)"
  by (induction xs arbitrary: acc) (auto split: outcome.splits sum.splits)

text \<open>
  A leaf loop whose body turns each ready item into a finished one, or loses it, and whose cleanup
  resolves the rest of the range runs the items of its range in order.
\<close>

definition body_law where
  "body_law I f body a b \<longleftrightarrow>
     (\<forall>i acc \<sigma> s. a \<le> i \<longrightarrow> i < b \<longrightarrow> I \<sigma> s \<longrightarrow> \<sigma> i = Ready \<longrightarrow>
        (\<exists>s'. body (i - a) acc s = Inr (f i acc, s') \<and> I (\<sigma>(i := (if is_ok (f i acc) then Finished else Gone))) s'))"

definition clean_law where
  "clean_law I clean a b \<longleftrightarrow>
     (\<forall>i \<sigma> s. a \<le> i \<longrightarrow> i < b \<longrightarrow> I (\<sigma>(i := Gone)) s \<longrightarrow> (\<forall>j. a \<le> j \<longrightarrow> j < i \<longrightarrow> \<sigma> j = Finished) \<longrightarrow>
        (\<forall>j. i < j \<longrightarrow> j < b \<longrightarrow> \<sigma> j = Ready) \<longrightarrow> (\<exists>s'. clean (i - a) s = Inr s' \<and> I (mark a b Gone \<sigma>) s'))"

lemma leaf_loop_runs:
  assumes body: "body_law I f body a b" and clean: "clean_law I clean a b"
    and i: "a \<le> i" "i \<le> b" and s: "I \<sigma> s"
    and before: "\<And>j. a \<le> j \<Longrightarrow> j < i \<Longrightarrow> \<sigma> j = Finished" and after: "\<And>j. i \<le> j \<Longrightarrow> j < b \<Longrightarrow> \<sigma> j = Ready"
  shows "\<exists>s'. leaf_loop clean body (i - a) (b - i) acc s = Inr (run_items f [i..<b] acc, s') \<and>
     I (mark a b (if is_ok (run_items f [i..<b] acc) then Finished else Gone) \<sigma>) s'"
  using i s before after
proof (induction "b - i" arbitrary: i acc \<sigma> s)
  case 0
  then have "b = i" "mark a b Finished \<sigma> = \<sigma>" by (auto simp: mark_def fun_eq_iff)
  with 0 show ?case by auto
next
  case (Suc k)
  from Suc have ib: "i < b" and k: "b - i = Suc k" "b - Suc i = k" by auto
  from ib have upt: "[i..<b] = i # [Suc i..<b]" by (simp add: upt_conv_Cons)
  from body Suc.prems ib obtain s1 where
    1: "body (i - a) acc s = Inr (f i acc, s1)" "I (\<sigma>(i := (if is_ok (f i acc) then Finished else Gone))) s1"
    unfolding body_law_def by blast
  show ?case
  proof (cases "is_ok (f i acc)")
    case True
    then obtain acc' where f: "f i acc = Returned (Inr acc')" by (cases "f i acc" rule: is_ok.cases) auto
    from 1 f have s1: "I (\<sigma>(i := Finished)) s1" by simp
    have mk: "mark a b c (\<sigma>(i := Finished)) = mark a b c \<sigma>" for c
      using Suc.prems(1) ib by (auto simp: mark_def fun_eq_iff)
    from Suc.hyps(1) [of "Suc i" "\<sigma>(i := Finished)" s1 acc'] Suc.prems ib k s1
    obtain s' where "leaf_loop clean body (Suc i - a) k acc' s1 = Inr (run_items f [Suc i..<b] acc', s')"
      "I (mark a b (if is_ok (run_items f [Suc i..<b] acc') then Finished else Gone) \<sigma>) s'"
      by (force simp: mk less_Suc_eq)
    with 1(1) f k Suc.prems(1) upt show ?thesis by (simp add: Suc_diff_le)
  next
    case False
    with 1 have s1: "I (\<sigma>(i := Gone)) s1" by simp
    from clean s1 Suc.prems ib obtain s' where "clean (i - a) s1 = Inr s'" "I (mark a b Gone \<sigma>) s'"
      unfolding clean_law_def by (metis less_imp_le)
    with 1(1) k False upt show ?thesis by (cases "f i acc" rule: is_ok.cases) auto
  qed
qed

corollary leaf_loop_range:
  assumes "body_law I f body a b" and "clean_law I clean a b" and "a \<le> b" and "I \<sigma> s"
    and "\<And>j. a \<le> j \<Longrightarrow> j < b \<Longrightarrow> \<sigma> j = Ready"
  shows "\<exists>s'. leaf_loop clean body 0 (b - a) acc s = Inr (run_items f [a..<b] acc, s') \<and>
     I (mark a b (if is_ok (run_items f [a..<b] acc) then Finished else Gone) \<sigma>) s'"
  using leaf_loop_runs [of I f body a b clean a \<sigma> s acc] assms by simp

section \<open>Slot operations and cell states\<close>

lemma map_plus_upt: "map ((+) a) [i..<j] = [a + i..<a + j]"
  by (induction j) auto

lemma drop_each_upt:
  assumes "a \<le> b" and "b \<le> length (sl_buf sl)" and "\<And>i. a \<le> i \<Longrightarrow> i < b \<Longrightarrow> sl_buf sl ! i \<noteq> None"
  shows "\<exists>sl'. drop_each [a..<b] sl = Inr sl' \<and> sl_len sl' = sl_len sl \<and> length (sl_buf sl') = length (sl_buf sl) \<and>
     (\<forall>i < length (sl_buf sl). sl_buf sl' ! i = (if a \<le> i \<and> i < b then None else sl_buf sl ! i))"
  using assms
proof (induction "b - a" arbitrary: a sl)
  case (Suc k)
  from Suc have ab: "a < b" by simp
  from Suc.prems(3) [of a] ab obtain x where x: "sl_buf sl ! a = Some x" by auto
  let ?sl = "sl\<lparr>sl_buf := (sl_buf sl)[a := None]\<rparr>"
  from x ab Suc.prems(2) have rd: "slot_read sl a = Inr (x, ?sl)" by (simp add: slot_read_def)
  have "\<exists>sl'. drop_each [Suc a..<b] ?sl = Inr sl' \<and> sl_len sl' = sl_len ?sl \<and> length (sl_buf sl') = length (sl_buf ?sl) \<and>
     (\<forall>i < length (sl_buf ?sl). sl_buf sl' ! i = (if Suc a \<le> i \<and> i < b then None else sl_buf ?sl ! i))"
    using Suc.hyps(2) Suc.prems ab by (intro Suc.hyps(1)) auto
  then obtain sl' where sl': "drop_each [Suc a..<b] ?sl = Inr sl'" "sl_len sl' = sl_len sl"
      "length (sl_buf sl') = length (sl_buf sl)"
      "\<And>i. i < length (sl_buf sl) \<Longrightarrow> sl_buf sl' ! i = (if Suc a \<le> i \<and> i < b then None else (sl_buf sl)[a := None] ! i)"
    by auto
  from ab have "[a..<b] = a # [Suc a..<b]" by (simp add: upt_conv_Cons)
  with rd sl'(1) have "drop_each [a..<b] sl = Inr sl'" by simp
  moreover from sl'(4) ab Suc.prems(2)
  have "sl_buf sl' ! i = (if a \<le> i \<and> i < b then None else sl_buf sl ! i)" if "i < length (sl_buf sl)" for i
    using that by (cases "i = a") (auto simp: nth_list_update)
  ultimately show ?case using sl'(2,3) by blast
qed auto

lemma in_holds_cong: "in_holds xs \<sigma> sl \<Longrightarrow> (\<And>i. i < length xs \<Longrightarrow> \<sigma> i = Ready \<longleftrightarrow> \<tau> i = Ready) \<Longrightarrow> in_holds xs \<tau> sl"
  unfolding in_holds_def by auto

lemma out_holds_cong: "out_holds n y \<sigma> sl \<Longrightarrow> (\<And>i. i < n \<Longrightarrow> \<sigma> i = Finished \<longleftrightarrow> \<tau> i = Finished) \<Longrightarrow> out_holds n y \<tau> sl"
  unfolding out_holds_def by auto

lemma in_read:
  assumes "in_holds xs \<sigma> sl" and "i < length xs" and "\<sigma> i = Ready" and "c \<noteq> Ready"
  shows "\<exists>sl'. slot_read sl i = Inr (xs ! i, sl') \<and> in_holds xs (\<sigma>(i := c)) sl'"
proof -
  from assms have "sl_buf sl ! i = Some (xs ! i)" "i < length (sl_buf sl)" by (auto simp: in_holds_def)
  then have "slot_read sl i = Inr (xs ! i, sl\<lparr>sl_buf := (sl_buf sl)[i := None]\<rparr>)" by (simp add: slot_read_def)
  moreover from assms have "in_holds xs (\<sigma>(i := c)) (sl\<lparr>sl_buf := (sl_buf sl)[i := None]\<rparr>)"
    by (auto simp: in_holds_def nth_list_update)
  ultimately show ?thesis by blast
qed

lemma out_write:
  assumes "out_holds n y \<sigma> sl" and "i < n"
  shows "\<exists>sl'. slot_write sl i (y i) = Inr sl' \<and> out_holds n y (\<sigma>(i := Finished)) sl'"
proof -
  from assms have "slot_write sl i (y i) = Inr (sl\<lparr>sl_buf := (sl_buf sl)[i := Some (y i)]\<rparr>)"
    by (simp add: slot_write_def out_holds_def)
  moreover from assms have "out_holds n y (\<sigma>(i := Finished)) (sl\<lparr>sl_buf := (sl_buf sl)[i := Some (y i)]\<rparr>)"
    by (auto simp: out_holds_def nth_list_update)
  ultimately show ?thesis by blast
qed

lemma in_drop:
  assumes "in_holds xs \<sigma> sl" and "a \<le> b" and "b \<le> length xs" and "\<And>i. a \<le> i \<Longrightarrow> i < b \<Longrightarrow> \<sigma> i = Ready"
  shows "\<exists>sl'. drop_each [a..<b] sl = Inr sl' \<and> in_holds xs (mark a b Gone \<sigma>) sl'"
proof -
  from assms have "sl_buf sl ! i \<noteq> None" if "a \<le> i" "i < b" for i using that by (auto simp: in_holds_def)
  with assms drop_each_upt [of a b sl] obtain sl' where sl': "drop_each [a..<b] sl = Inr sl'" "sl_len sl' = sl_len sl"
      "length (sl_buf sl') = length (sl_buf sl)"
      "\<forall>i < length (sl_buf sl). sl_buf sl' ! i = (if a \<le> i \<and> i < b then None else sl_buf sl ! i)"
    by (auto simp: in_holds_def)
  with assms(1) have "in_holds xs (mark a b Gone \<sigma>) sl'" by (auto simp: in_holds_def mark_def)
  with sl'(1) show ?thesis by blast
qed

lemma out_drop:
  assumes "out_holds n y \<sigma> sl" and "a \<le> b" and "b \<le> n" and "\<And>i. a \<le> i \<Longrightarrow> i < b \<Longrightarrow> \<sigma> i = Finished" and "c \<noteq> Finished"
  shows "\<exists>sl'. drop_each [a..<b] sl = Inr sl' \<and> out_holds n y (mark a b c \<sigma>) sl'"
proof -
  from assms have "sl_buf sl ! i \<noteq> None" if "a \<le> i" "i < b" for i using that by (auto simp: out_holds_def)
  with assms drop_each_upt [of a b sl] obtain sl' where sl': "drop_each [a..<b] sl = Inr sl'" "sl_len sl' = sl_len sl"
      "length (sl_buf sl') = length (sl_buf sl)"
      "\<forall>i < length (sl_buf sl). sl_buf sl' ! i = (if a \<le> i \<and> i < b then None else sl_buf sl ! i)"
    by (auto simp: out_holds_def)
  with assms(1,3,5) have "out_holds n y (mark a b c \<sigma>) sl'" by (auto simp: out_holds_def mark_def)
  with sl'(1) show ?thesis by blast
qed

text \<open>The whole buffers before and after a run.\<close>

lemma in_holds_from_vec: "in_holds (v_items v) (\<lambda>_. Ready) (slots_from_vec v)"
  by (auto simp: in_holds_def slots_from_vec_def nth_append)

lemma out_holds_uninit: "(\<And>i. \<sigma> i \<noteq> Finished) \<Longrightarrow> out_holds n y \<sigma> (slots_uninit n)"
  by (auto simp: out_holds_def slots_uninit_def)

lemma in_holds_empty: "in_holds xs \<sigma> sl \<Longrightarrow> (\<And>i. i < length xs \<Longrightarrow> \<sigma> i \<noteq> Ready) \<Longrightarrow> set (sl_buf sl) \<subseteq> {None}"
  by (auto simp: in_holds_def in_set_conv_nth)

lemma out_holds_empty: "out_holds n y \<sigma> sl \<Longrightarrow> (\<And>i. i < n \<Longrightarrow> \<sigma> i \<noteq> Finished) \<Longrightarrow> set (sl_buf sl) \<subseteq> {None}"
  by (auto simp: out_holds_def in_set_conv_nth)

lemma out_holds_into_vec:
  assumes "out_holds n y \<sigma> sl" and "\<And>i. i < n \<Longrightarrow> \<sigma> i = Finished"
  shows "into_vec sl = Inr \<lparr>v_items = map y [0..<n], v_cap = n\<rparr>"
proof -
  from assms have "sl_buf sl = map (\<lambda>i. Some (y i)) [0..<n]"
    by (intro nth_equalityI) (auto simp: out_holds_def)
  with assms(1) show ?thesis by (auto simp: into_vec_def into_vec_with_len_def out_holds_def comp_def)
qed

end
