(* ===== verification/Fused_Tree.thy ===== *)
theory Fused_Tree
  imports Fused_Mem
begin

text \<open>
  The divide-and-conquer core of the fused engine, \<open>par_tree_rec\<close> of
  \<^verbatim>\<open>builder/typed/fused.rs\<close>, over the join of \<open>Join\<close>. A terminal plugs in a leaf and a hook that
  drops what a completed range left in the shared buffers; the locale states what the two promise.
\<close>

section \<open>The recursion\<close>

text \<open>
  \<open>stolen start stop\<close> says whether the second half of that node is taken by another worker. The unwind
  of a second half that the worker popped back leaves the join live: \<open>SiblingGuard\<close> then drops the left
  range. In every other case the match on the two captured results decides.
\<close>

definition sibling_guard_drop :: "(nat \<Rightarrow> nat \<Rightarrow> 's \<Rightarrow> 's res) \<Rightarrow> nat \<Rightarrow> nat \<Rightarrow> 's \<Rightarrow> 's res" where
  "sibling_guard_drop drop_success start mid s = drop_success start mid s"

definition pick_failure :: "('p \<Rightarrow> 'e) \<Rightarrow> 'p + ('e + unit) \<Rightarrow> 'p + ('e + unit) \<Rightarrow> 'e res" where
  "pick_failure from_panic l r =
     (case (l, r) of
        (Inl p, _) \<Rightarrow> Inr (from_panic p)
      | (_, Inl p) \<Rightarrow> Inr (from_panic p)
      | (Inr (Inl e), _) \<Rightarrow> Inr e
      | (Inr (Inr _), Inr (Inl e)) \<Rightarrow> Inr e
      | (Inr (Inr _), Inr (Inr _)) \<Rightarrow> Inl Unreachable)"

definition resolve_siblings ::
    "('p \<Rightarrow> 'e) \<Rightarrow> (nat \<Rightarrow> nat \<Rightarrow> 's \<Rightarrow> 's res) \<Rightarrow> nat \<Rightarrow> nat \<Rightarrow> nat \<Rightarrow>
     ('p, ('p + ('e + unit)) \<times> ('p + ('e + unit))) outcome \<Rightarrow> ('s, 'p, 'e + unit) closure" where
  "resolve_siblings from_panic drop_success start mid stop joined s1 =
     (case joined of
        Unwound p \<Rightarrow> bind_res (sibling_guard_drop drop_success start mid s1) (\<lambda>s2. Inr (Unwound p, s2))
      | Returned (l, r) \<Rightarrow>
          let l_ok = (l = Inr (Inr ())); r_ok = (r = Inr (Inr ())) in
          if l_ok \<and> r_ok then Inr (Returned (Inr ()), s1)
          else bind_res (if l_ok then drop_success start mid s1 else Inr s1) (\<lambda>s2.
               bind_res (if r_ok then drop_success mid stop s2 else Inr s2) (\<lambda>s3.
               bind_res (pick_failure from_panic l r) (\<lambda>e. Inr (Returned (Inl e), s3)))))"

fun par_tree_rec ::
    "(nat \<Rightarrow> nat \<Rightarrow> bool) \<Rightarrow> ('p \<Rightarrow> 'e) \<Rightarrow> (nat \<Rightarrow> nat \<Rightarrow> ('s, 'p, 'e + unit) closure) \<Rightarrow>
     (nat \<Rightarrow> nat \<Rightarrow> 's \<Rightarrow> 's res) \<Rightarrow> nat \<Rightarrow> nat \<Rightarrow> nat \<Rightarrow> ('s, 'p, 'e + unit) closure" where
  "par_tree_rec stolen from_panic leaf drop_success 0 start stop s = leaf start stop s"
| "par_tree_rec stolen from_panic leaf drop_success (Suc splits) start stop s =
     (if stop - start \<le> 1 then leaf start stop s
      else let mid = start + (stop - start) div 2 in
        bind_res (join_on_captured (stolen start stop)
           (par_tree_rec stolen from_panic leaf drop_success splits start mid)
           (par_tree_rec stolen from_panic leaf drop_success splits mid stop) s)
          (\<lambda>(joined, s1). resolve_siblings from_panic drop_success start mid stop joined s1))"

section \<open>What a terminal promises\<close>

text \<open>A failure as the tree reports it: an unwind is folded into the error type.\<close>

fun flat :: "('p \<Rightarrow> 'e) \<Rightarrow> ('p, 'e + 'r) outcome \<Rightarrow> 'e + 'r" where
  "flat from_panic (Returned x) = x"
| "flat from_panic (Unwound p) = Inl (from_panic p)"

fun panics :: "('p, 'r) outcome \<Rightarrow> bool" where
  "panics (Unwound _) = True"
| "panics (Returned _) = False"

text \<open>No item of the range panics after an item that failed.\<close>

definition no_late_panic :: "(nat \<Rightarrow> ('p, 'e + unit) outcome) \<Rightarrow> nat \<Rightarrow> nat \<Rightarrow> bool" where
  "no_late_panic verdict a b \<longleftrightarrow>
     (\<forall>i j. a \<le> i \<and> i < j \<and> j < b \<and> \<not> is_ok (verdict i) \<longrightarrow> \<not> panics (verdict j))"

abbreviation seq_run :: "(nat \<Rightarrow> ('p, 'e + unit) outcome) \<Rightarrow> nat \<Rightarrow> nat \<Rightarrow> ('p, 'e + unit) outcome" where
  "seq_run verdict a b \<equiv> run_items (\<lambda>i _. verdict i) [a..<b] ()"

abbreviation settled :: "('p, 'e + unit) outcome \<Rightarrow> cell" where
  "settled r \<equiv> (if is_ok r then Finished else Gone)"

lemma seq_run_split:
  assumes "a \<le> m" and "m \<le> b"
  shows "seq_run verdict a b = (if is_ok (seq_run verdict a m) then seq_run verdict m b else seq_run verdict a m)"
proof -
  from assms have "[a..<b] = [a..<m] @ [m..<b]" by (metis le_Suc_ex upt_add_eq_append)
  then show ?thesis by (auto simp: run_items_append split: outcome.splits sum.splits)
qed

lemma run_items_ok_iff: "is_ok (run_items (\<lambda>i _. verdict i) is ()) \<longleftrightarrow> (\<forall>i \<in> set is. is_ok (verdict i))"
  by (induction "is") (auto split: outcome.splits sum.splits)

lemma run_items_panics: "panics (run_items (\<lambda>i _. verdict i) is ()) \<Longrightarrow> \<exists>i \<in> set is. panics (verdict i)"
  by (induction "is") (auto split: outcome.splits sum.splits)

lemma no_late_panic_sub: "no_late_panic verdict a b \<Longrightarrow> a \<le> c \<Longrightarrow> d \<le> b \<Longrightarrow> no_late_panic verdict c d"
  unfolding no_late_panic_def by (meson le_trans order_less_le_trans)

lemma flat_ok_iff: "flat from_panic r = Inr () \<longleftrightarrow> is_ok r"
  by (cases r rule: is_ok.cases) auto

lemma late_panic_excluded:
  assumes "no_late_panic verdict a b" and "m \<le> b" and "\<not> is_ok (seq_run verdict a m)"
  shows "\<not> panics (seq_run verdict m b)"
proof
  assume "panics (seq_run verdict m b)"
  from run_items_panics [OF this] obtain j where "m \<le> j" "j < b" "panics (verdict j)" by auto
  moreover from assms(3) obtain i where "i \<in> set [a..<m]" "\<not> is_ok (verdict i)"
    unfolding run_items_ok_iff by blast
  ultimately show False using assms(1) unfolding no_late_panic_def
    by (metis atLeastLessThan_iff order_less_le_trans set_upt)
qed

text \<open>The join, given what the two sides did: the one unwind that escapes.\<close>

lemma join_captured_result:
  assumes "oper_a s = Inr (l, s1)" and "oper_b s1 = Inr (r, s2)"
  shows "join_on_captured stolen oper_a oper_b s =
     Inr (case r of
            Unwound p \<Rightarrow> if \<not> stolen \<and> \<not> panics l then Unwound p else Returned (captured l, Inl p)
          | Returned y \<Rightarrow> Returned (captured l, Inr y), s2)"
  using assms by (cases l; cases r; cases stolen; simp add: join_defs)

lemma outcome_cases:
  obtains "r = Returned (Inr ())" | e where "r = Returned (Inl e)" | p where "r = Unwound p"
  by (cases r rule: is_ok.cases) auto

locale tree_strategy =
  fixes I :: "(nat \<Rightarrow> cell) \<Rightarrow> 's \<Rightarrow> bool"
    and n :: nat
    and verdict :: "nat \<Rightarrow> ('p, 'e + unit) outcome"
    and leaf :: "nat \<Rightarrow> nat \<Rightarrow> ('s, 'p, 'e + unit) closure"
    and drop_success :: "nat \<Rightarrow> nat \<Rightarrow> 's \<Rightarrow> 's res"
  assumes leaf_law: "a \<le> b \<Longrightarrow> b \<le> n \<Longrightarrow> I \<sigma> s \<Longrightarrow> (\<And>i. a \<le> i \<Longrightarrow> i < b \<Longrightarrow> \<sigma> i = Ready) \<Longrightarrow>
      \<exists>s'. leaf a b s = Inr (seq_run verdict a b, s') \<and> I (mark a b (settled (seq_run verdict a b)) \<sigma>) s'"
    and drop_law: "a \<le> b \<Longrightarrow> b \<le> n \<Longrightarrow> I \<sigma> s \<Longrightarrow> (\<And>i. a \<le> i \<Longrightarrow> i < b \<Longrightarrow> \<sigma> i = Finished) \<Longrightarrow>
      \<exists>s'. drop_success a b s = Inr s' \<and> I (mark a b Gone \<sigma>) s'"
begin

text \<open>One node: both halves have run, the first without hiding a failure from a live unwind of the second.\<close>

lemma node_settles:
  assumes m: "a \<le> m" "m \<le> b" "b \<le> n"
    and s: "I (mark m b (settled r) (mark a m (settled l) \<sigma>)) s" and late: "\<not> is_ok l \<Longrightarrow> \<not> panics r"
  shows "\<exists>q s'. resolve_siblings from_panic drop_success a m b
       (case r of
          Unwound p \<Rightarrow> if \<not> stolen \<and> \<not> panics l then Unwound p else Returned (captured l, Inl p)
        | Returned y \<Rightarrow> Returned (captured l, Inr y)) s = Inr (q, s') \<and>
     flat from_panic q = flat from_panic (if is_ok l then r else l) \<and> (panics q \<longrightarrow> is_ok l \<and> panics r) \<and>
     I (mark a b (settled (if is_ok l then r else l)) \<sigma>) s'"
proof -
  have gone: "mark a m Gone (mark m b Gone (mark a m Finished \<sigma>)) = mark a b Gone \<sigma>"
      "mark m b Gone (mark m b Finished (mark a m Gone \<sigma>)) = mark a b Gone \<sigma>"
    using m by (auto simp: mark_def fun_eq_iff)
  have dropL: "\<exists>s'. drop_success a m s = Inr s' \<and> I (mark a b Gone \<sigma>) s'" if "is_ok l" "\<not> is_ok r"
    using drop_law [of a m "mark m b Gone (mark a m Finished \<sigma>)" s] s m that gone by auto
  have dropR: "\<exists>s'. drop_success m b s = Inr s' \<and> I (mark a b Gone \<sigma>) s'" if "\<not> is_ok l" "is_ok r"
    using drop_law [of m b "mark m b Finished (mark a m Gone \<sigma>)" s] s m that gone by auto
  show ?thesis
    using s m late dropL dropR
    by (cases l rule: outcome_cases; cases r rule: outcome_cases)
      (auto simp: resolve_siblings_def pick_failure_def sibling_guard_drop_def Let_def mark_join)
qed

lemma par_tree_rec_runs:
  assumes "a \<le> b" and "b \<le> n" and "I \<sigma> s" and "\<And>i. a \<le> i \<Longrightarrow> i < b \<Longrightarrow> \<sigma> i = Ready"
    and "no_late_panic verdict a b"
  shows "\<exists>r s'. par_tree_rec stolen from_panic leaf drop_success splits a b s = Inr (r, s') \<and>
     flat from_panic r = flat from_panic (seq_run verdict a b) \<and> (panics r \<longrightarrow> panics (seq_run verdict a b)) \<and>
     I (mark a b (settled (seq_run verdict a b)) \<sigma>) s'"
  using assms
proof (induction splits arbitrary: a b \<sigma> s)
  case 0
  then show ?case using leaf_law [OF 0(1-3)] by auto
next
  case (Suc splits)
  show ?case
  proof (cases "b - a \<le> 1")
    case True
    with Suc.prems leaf_law [OF Suc.prems(1-3)] show ?thesis by auto
  next
    case False
    define m where "m = a + (b - a) div 2"
    with False have m: "a \<le> m" "m \<le> b" by auto
    define A where "A = seq_run verdict a m"
    define B where "B = seq_run verdict m b"
    from Suc.IH [of a m \<sigma> s] m Suc.prems obtain l s1 where
      l: "par_tree_rec stolen from_panic leaf drop_success splits a m s = Inr (l, s1)"
         "flat from_panic l = flat from_panic A" "I (mark a m (settled A) \<sigma>) s1"
      by (auto simp: A_def intro: no_late_panic_sub)
    from Suc.IH [of m b "mark a m (settled A) \<sigma>" s1] m Suc.prems l(3) obtain r s2 where
      r: "par_tree_rec stolen from_panic leaf drop_success splits m b s1 = Inr (r, s2)"
         "flat from_panic r = flat from_panic B" "panics r \<Longrightarrow> panics B"
         "I (mark m b (settled B) (mark a m (settled A) \<sigma>)) s2"
      by (auto simp: B_def intro: no_late_panic_sub)
    have AB: "seq_run verdict a b = (if is_ok A then B else A)"
      unfolding A_def B_def by (rule seq_run_split [OF m])
    have ok: "is_ok l = is_ok A" "is_ok r = is_ok B"
      using l(2) r(2) flat_ok_iff [of from_panic] by metis+
    have late: "\<not> panics r" if "\<not> is_ok l"
      using that ok(1) r(3) late_panic_excluded [OF Suc.prems(5) m(2)] A_def B_def by auto
    from node_settles [OF m Suc.prems(2), of r l \<sigma> s2 from_panic "stolen a b"] r(4) late ok obtain q s' where
      q: "resolve_siblings from_panic drop_success a m b
           (case r of Unwound p \<Rightarrow> if \<not> stolen a b \<and> \<not> panics l then Unwound p else Returned (captured l, Inl p)
            | Returned y \<Rightarrow> Returned (captured l, Inr y)) s2 = Inr (q, s')"
         "flat from_panic q = flat from_panic (if is_ok l then r else l)" "panics q \<longrightarrow> is_ok l \<and> panics r"
         "I (mark a b (settled (if is_ok l then r else l)) \<sigma>) s'" by auto
    from False q(1) have "par_tree_rec stolen from_panic leaf drop_success (Suc splits) a b s = Inr (q, s')"
      by (simp add: m_def [symmetric] Let_def
          join_captured_result [of "par_tree_rec stolen from_panic leaf drop_success splits a m", OF l(1)] r(1))
    moreover have "flat from_panic q = flat from_panic (if is_ok A then B else A)" using q(2) ok l(2) r(2) by auto
    moreover have "panics q \<longrightarrow> panics (if is_ok A then B else A)" using q(3) ok r(3) by auto
    moreover have "I (mark a b (settled (if is_ok A then B else A)) \<sigma>) s'" using q(4) ok by (auto split: if_splits)
    ultimately show ?thesis unfolding AB by blast
  qed
qed

end

end
