(* ===== verification/Config.thy ===== *)
theory Config
  imports Sleep_Mask
begin

text \<open>
  The configuration of a run, \<^verbatim>\<open>crates/youpipe/src/builder/config.rs\<close>. The number of processors
  is what the operating system reports and a parameter; a setter that panics is a fault.
\<close>

section \<open>Settings\<close>

text \<open>The payload of \<open>Custom\<close> is a \<^verbatim>\<open>NonZeroUsize\<close>.\<close>

datatype workload = Balanced | Unbalanced | Custom nat

datatype filter_collect_mode = ModeAuto | ModeMerge | ModeCtp | ModeWtc

record pipeline_config =
  compute_workers :: nat
  compute_workers_pinned :: bool
  async_workers :: nat
  buffer_size :: nat
  io_concurrency :: nat
  cfg_workload :: workload
  cfg_filter_collect :: filter_collect_mode

definition MAX_COMPUTE_WORKERS :: nat where
  "MAX_COMPUTE_WORKERS = THREADS_MAX"

definition config_default :: "nat \<Rightarrow> pipeline_config" where
  "config_default cpus =
     \<lparr>compute_workers = cpus, compute_workers_pinned = False, async_workers = cpus, buffer_size = 256,
      io_concurrency = 128, cfg_workload = Balanced, cfg_filter_collect = ModeAuto\<rparr>"

definition require_nonzero :: "nat \<Rightarrow> nat res" where
  "require_nonzero n = (if n = 0 then Inl ExplicitPanic else Inr n)"

definition set_compute_workers :: "pipeline_config \<Rightarrow> nat \<Rightarrow> pipeline_config res" where
  "set_compute_workers c n =
     bind_res (require_nonzero n) (\<lambda>k.
     Inr (c\<lparr>compute_workers := min k MAX_COMPUTE_WORKERS, compute_workers_pinned := True\<rparr>))"

definition with_compute_workers :: "pipeline_config \<Rightarrow> nat \<Rightarrow> pipeline_config res" where
  "with_compute_workers c n = set_compute_workers c n"

definition with_async_workers :: "pipeline_config \<Rightarrow> nat \<Rightarrow> pipeline_config res" where
  "with_async_workers c n = bind_res (require_nonzero n) (\<lambda>k. Inr (c\<lparr>async_workers := k\<rparr>))"

definition with_buffer_size :: "pipeline_config \<Rightarrow> nat \<Rightarrow> pipeline_config res" where
  "with_buffer_size c n = bind_res (require_nonzero n) (\<lambda>k. Inr (c\<lparr>buffer_size := k\<rparr>))"

definition with_io_concurrency :: "pipeline_config \<Rightarrow> nat \<Rightarrow> pipeline_config res" where
  "with_io_concurrency c n = bind_res (require_nonzero n) (\<lambda>k. Inr (c\<lparr>io_concurrency := k\<rparr>))"

definition with_workload :: "pipeline_config \<Rightarrow> workload \<Rightarrow> pipeline_config" where
  "with_workload c w = c\<lparr>cfg_workload := w\<rparr>"

definition with_filter_collect :: "pipeline_config \<Rightarrow> filter_collect_mode \<Rightarrow> pipeline_config" where
  "with_filter_collect c m = c\<lparr>cfg_filter_collect := m\<rparr>"

lemmas setter_defs = set_compute_workers_def with_compute_workers_def with_async_workers_def with_buffer_size_def
  with_io_concurrency_def with_workload_def with_filter_collect_def require_nonzero_def

section \<open>Pools\<close>

text \<open>
  Which pool a fused terminal runs on: a pool handed in, a pool of its own of some size, or the shared
  one. Only the size of a pool matters here; a new pool caps it as the registry does.
\<close>

datatype exec_pool = RefPool nat | OwnedPool nat | GlobalPool

definition resolve_exec_pool :: "nat \<Rightarrow> nat option \<Rightarrow> nat option \<Rightarrow> nat \<Rightarrow> exec_pool" where
  "resolve_exec_pool ncpus compute_pool oversubscribe workers =
     (case compute_pool of
        Some p \<Rightarrow> RefPool p
      | None \<Rightarrow>
          (case oversubscribe of
             Some factor \<Rightarrow> OwnedPool (saturating_mul_u64 workers factor)
           | None \<Rightarrow> if workers \<noteq> ncpus then OwnedPool workers else GlobalPool))"

record exec_options =
  eo_config :: pipeline_config
  eo_compute_pool :: "nat option"
  eo_oversubscribe :: "nat option"

definition exec_resolve :: "nat \<Rightarrow> exec_options \<Rightarrow> exec_pool" where
  "exec_resolve ncpus e =
     resolve_exec_pool ncpus (eo_compute_pool e) (eo_oversubscribe e) (compute_workers (eo_config e))"

definition exec_with_config :: "exec_options \<Rightarrow> pipeline_config \<Rightarrow> exec_options" where
  "exec_with_config e c = e\<lparr>eo_config := c\<rparr>"

definition exec_with_workload :: "exec_options \<Rightarrow> workload \<Rightarrow> exec_options" where
  "exec_with_workload e w = e\<lparr>eo_config := (eo_config e)\<lparr>cfg_workload := w\<rparr>\<rparr>"

definition exec_with_compute_workers :: "exec_options \<Rightarrow> nat \<Rightarrow> exec_options res" where
  "exec_with_compute_workers e n = bind_res (set_compute_workers (eo_config e) n) (\<lambda>c. Inr (e\<lparr>eo_config := c\<rparr>))"

definition exec_with_compute_pool :: "exec_options \<Rightarrow> nat \<Rightarrow> exec_options" where
  "exec_with_compute_pool e p = e\<lparr>eo_compute_pool := Some p\<rparr>"

definition exec_with_oversubscribe :: "exec_options \<Rightarrow> nat \<Rightarrow> exec_options res" where
  "exec_with_oversubscribe e factor = bind_res (require_nonzero factor) (\<lambda>k. Inr (e\<lparr>eo_oversubscribe := Some k\<rparr>))"

section \<open>Setters\<close>

text \<open>Every count of a configuration is positive and the worker budget fits the scheduler.\<close>

definition config_ok :: "pipeline_config \<Rightarrow> bool" where
  "config_ok c \<longleftrightarrow> 1 \<le> compute_workers c \<and> compute_workers c \<le> MAX_COMPUTE_WORKERS \<and> 1 \<le> async_workers c \<and>
     1 \<le> buffer_size c \<and> 1 \<le> io_concurrency c"

datatype setter = SetCompute nat | SetAsync nat | SetBuffer nat | SetIo nat | SetWorkload workload
  | SetFilter filter_collect_mode

fun apply_setter :: "setter \<Rightarrow> pipeline_config \<Rightarrow> pipeline_config res" where
  "apply_setter (SetCompute n) c = with_compute_workers c n"
| "apply_setter (SetAsync n) c = with_async_workers c n"
| "apply_setter (SetBuffer n) c = with_buffer_size c n"
| "apply_setter (SetIo n) c = with_io_concurrency c n"
| "apply_setter (SetWorkload w) c = Inr (with_workload c w)"
| "apply_setter (SetFilter m) c = Inr (with_filter_collect c m)"

fun apply_setters :: "setter list \<Rightarrow> pipeline_config \<Rightarrow> pipeline_config res" where
  "apply_setters [] c = Inr c"
| "apply_setters (x # xs) c = bind_res (apply_setter x c) (apply_setters xs)"

fun sets_zero :: "setter \<Rightarrow> bool" where
  "sets_zero (SetCompute n) = (n = 0)"
| "sets_zero (SetAsync n) = (n = 0)"
| "sets_zero (SetBuffer n) = (n = 0)"
| "sets_zero (SetIo n) = (n = 0)"
| "sets_zero _ = False"

lemma setter_ok:
  assumes "config_ok c" and "\<not> sets_zero x"
  shows "\<exists>c'. apply_setter x c = Inr c' \<and> config_ok c'"
  using assms by (cases x) (auto simp: setter_defs config_ok_def)

lemma setter_zero: "sets_zero x \<Longrightarrow> apply_setter x c = Inl ExplicitPanic"
  by (cases x) (auto simp: setter_defs)

lemma setters_ok: "config_ok c \<Longrightarrow> (\<And>x. x \<in> set xs \<Longrightarrow> \<not> sets_zero x) \<Longrightarrow> \<exists>c'. apply_setters xs c = Inr c' \<and> config_ok c'"
proof (induction xs arbitrary: c)
  case (Cons x xs)
  from Cons.prems setter_ok [of c x] obtain c1 where "apply_setter x c = Inr c1" "config_ok c1" by auto
  with Cons.IH [of c1] Cons.prems(2) show ?case by auto
qed auto

lemma setters_panic: "config_ok c \<Longrightarrow> \<exists>x \<in> set xs. sets_zero x \<Longrightarrow> apply_setters xs c = Inl ExplicitPanic"
proof (induction xs arbitrary: c)
  case (Cons x xs)
  show ?case
  proof (cases "sets_zero x")
    case False
    with Cons.prems setter_ok [of c x] obtain c1 where "apply_setter x c = Inr c1" "config_ok c1" by auto
    with Cons.IH [of c1] Cons.prems False show ?thesis by auto
  qed (simp add: setter_zero)
qed simp

text \<open>
  Configuration. From the default of a machine with 1 to 511 processors, any sequence of setter
  calls either panics, which happens exactly when one of the counts is zero, or yields a configuration
  whose counts are all positive and whose worker budget is within the scheduler's limit.
\<close>

theorem config_setters_safe:
  assumes "1 \<le> cpus" and "cpus \<le> MAX_COMPUTE_WORKERS"
  shows "if \<exists>x \<in> set xs. sets_zero x then apply_setters xs (config_default cpus) = Inl ExplicitPanic
         else \<exists>c. apply_setters xs (config_default cpus) = Inr c \<and> config_ok c"
proof -
  from assms have ok: "config_ok (config_default cpus)" by (simp add: config_ok_def config_default_def)
  show ?thesis using setters_ok [OF ok, of xs] setters_panic [OF ok, of xs] by auto
qed

theorem config_setters_safe_witness:
  "apply_setters [SetCompute 10000, SetBuffer 0] (config_default 8) = Inl ExplicitPanic \<and>
   (\<exists>c. apply_setters [SetCompute 10000, SetIo 4] (config_default 8) = Inr c \<and> config_ok c)"
  using config_setters_safe [of 8 "[SetCompute 10000, SetBuffer 0]"]
    config_setters_safe [of 8 "[SetCompute 10000, SetIo 4]"]
  by (simp add: MAX_COMPUTE_WORKERS_def THREADS_MAX_def THREADS_BITS_def)

end
