(* ===== verification/Fused_Plan.thy ===== *)
theory Fused_Plan
  imports Config
begin

text \<open>
  How a fused terminal splits its batch, \<^verbatim>\<open>builder/typed/fused.rs\<close>: the serial gate, the depth of
  the fork-join tree, the number of top-level chunks and their boundaries. The environment variables
  that tune it are parameters (unset or a string). Arithmetic that leaves the machine word is a fault.
\<close>

section \<open>Bit counts\<close>

fun trailing_zeros :: "nat \<Rightarrow> nat" where
  "trailing_zeros n = (if n = 0 then 64 else if odd n then 0 else Suc (trailing_zeros (n div 2)))"

declare trailing_zeros.simps [simp del]

text \<open>\<open>usize::BITS - 1 - leading_zeros\<close> of a positive number.\<close>

fun top_bit :: "nat \<Rightarrow> nat" where
  "top_bit n = (if n \<le> 1 then 0 else Suc (top_bit (n div 2)))"

declare top_bit.simps [simp del]

lemma trailing_zeros_pow2 [simp]: "trailing_zeros (2 ^ k) = k"
  by (induction k) (simp_all add: trailing_zeros.simps)

lemma top_bit_pow2 [simp]: "top_bit (2 ^ k) = k"
proof (induction k)
  case (Suc k)
  have "1 < (2::nat) ^ Suc k" by (rule one_less_power) simp_all
  with Suc show ?case by (simp add: top_bit.simps [of "2 * 2 ^ k"])
qed (simp add: top_bit.simps)

section \<open>Split depth\<close>

definition prefers_serial :: "nat \<Rightarrow> nat \<Rightarrow> bool" where
  "prefers_serial n num_threads \<longleftrightarrow> n \<le> 1 \<or> num_threads \<le> 1"

definition split_depth :: "nat \<Rightarrow> nat \<Rightarrow> nat \<Rightarrow> nat res" where
  "split_depth n num_threads oversplit =
     bind_res (mul_u64 num_threads oversplit) (\<lambda>d.
     bind_res (npot_res (max d 1)) (\<lambda>p.
     bind_res (npot_res (max n 1)) (\<lambda>q.
     Inr (max (min (trailing_zeros p) (trailing_zeros q)) 1))))"

definition LOW_OVERSPLIT_ITEMS_PER_THREAD :: nat where
  "LOW_OVERSPLIT_ITEMS_PER_THREAD = 1024"

definition BALANCED_OVERSPLIT :: nat where
  "BALANCED_OVERSPLIT = 4"

definition unbalanced_oversplit :: "string option \<Rightarrow> nat" where
  "unbalanced_oversplit env =
     (case env of None \<Rightarrow> 64 | Some v \<Rightarrow> (case parse_uint 64 v of None \<Rightarrow> 64 | Some k \<Rightarrow> k))"

definition workload_oversplit :: "string option \<Rightarrow> nat \<Rightarrow> nat \<Rightarrow> workload \<Rightarrow> nat" where
  "workload_oversplit env n num_threads w =
     (case w of
        Balanced \<Rightarrow> if n div max num_threads 1 \<le> LOW_OVERSPLIT_ITEMS_PER_THREAD then 1 else BALANCED_OVERSPLIT
      | Unbalanced \<Rightarrow> unbalanced_oversplit env
      | Custom factor \<Rightarrow> factor)"

definition UNBALANCED_CHUNK_SLACK :: nat where
  "UNBALANCED_CHUNK_SLACK = 8"

definition UNBALANCED_CHUNK_SLACK_WIDE :: nat where
  "UNBALANCED_CHUNK_SLACK_WIDE = 16"

definition UNBALANCED_SLACK_WIDE_MIN_PER_CHUNK :: nat where
  "UNBALANCED_SLACK_WIDE_MIN_PER_CHUNK = 48"

definition unbalanced_chunk_slack :: "string option \<Rightarrow> nat \<Rightarrow> nat \<Rightarrow> nat" where
  "unbalanced_chunk_slack env n num_threads =
     (case (case env of None \<Rightarrow> None | Some v \<Rightarrow> parse_uint 64 v) of
        Some v \<Rightarrow> v
      | None \<Rightarrow>
          let wide = saturating_add_u64 num_threads UNBALANCED_CHUNK_SLACK_WIDE in
          if n div max wide 1 \<ge> UNBALANCED_SLACK_WIDE_MIN_PER_CHUNK then UNBALANCED_CHUNK_SLACK_WIDE
          else UNBALANCED_CHUNK_SLACK)"

record split_plan =
  sp_depth :: nat
  sp_chunk_slack :: nat

text \<open>The two variables, \<^verbatim>\<open>YOUPIPE_OVERSPLIT\<close> and \<^verbatim>\<open>YOUPIPE_CHUNK_SLACK\<close>.\<close>

record split_env =
  env_oversplit :: "string option"
  env_chunk_slack :: "string option"

definition split_plan_new :: "split_env \<Rightarrow> nat \<Rightarrow> nat \<Rightarrow> workload \<Rightarrow> split_plan res" where
  "split_plan_new env n num_threads w =
     bind_res (split_depth n num_threads (workload_oversplit (env_oversplit env) n num_threads w)) (\<lambda>depth.
     Inr \<lparr>sp_depth = depth,
          sp_chunk_slack = (case w of Unbalanced \<Rightarrow> unbalanced_chunk_slack (env_chunk_slack env) n num_threads | _ \<Rightarrow> 0)\<rparr>)"

datatype terminal_plan = Serial | Parallel split_plan

definition plan_terminal :: "split_env \<Rightarrow> nat \<Rightarrow> workload \<Rightarrow> nat \<Rightarrow> terminal_plan res" where
  "plan_terminal env n w num_threads =
     (if prefers_serial n num_threads then Inr Serial
      else bind_res (split_plan_new env n num_threads w) (\<lambda>p. Inr (Parallel p)))"

section \<open>Chunks\<close>

definition hybrid_num_chunks :: "nat \<Rightarrow> split_plan \<Rightarrow> nat \<Rightarrow> nat res" where
  "hybrid_num_chunks n plan num_threads =
     bind_res (add_u64 num_threads (sp_chunk_slack plan)) (\<lambda>t. Inr (max (min t n) 1))"

definition chunk_log2 :: "split_plan \<Rightarrow> nat \<Rightarrow> nat res" where
  "chunk_log2 plan num_chunks =
     (if sp_chunk_slack plan = 0 then bind_res (npot_res num_chunks) (\<lambda>p. Inr (trailing_zeros p))
      else Inr (top_bit num_chunks))"

text \<open>The loop that lays the chunks out, from a start and the ordinals of the chunks.\<close>

fun chunk_ranges :: "nat \<Rightarrow> nat \<Rightarrow> nat \<Rightarrow> nat list \<Rightarrow> (nat \<times> nat) list" where
  "chunk_ranges chunk rem start [] = []"
| "chunk_ranges chunk rem start (i # is) =
     (let stop = start + (chunk + (if i < rem then 1 else 0)) in (start, stop) # chunk_ranges chunk rem stop is)"

text \<open>All the chunks of a dispatch, the driver's included.\<close>

definition all_chunks :: "nat \<Rightarrow> nat \<Rightarrow> (nat \<times> nat) list" where
  "all_chunks n num_chunks = chunk_ranges (n div num_chunks) (n mod num_chunks) 0 [0..<num_chunks]"

definition chunk_start :: "nat \<Rightarrow> nat \<Rightarrow> nat \<Rightarrow> nat" where
  "chunk_start chunk rem i = i * chunk + min i rem"

lemma chunk_start_Suc: "chunk_start chunk rem i + (chunk + (if i < rem then 1 else 0)) = chunk_start chunk rem (Suc i)"
  by (simp add: chunk_start_def)

lemma chunk_ranges_upt:
  "i \<le> k \<Longrightarrow> chunk_ranges chunk rem (chunk_start chunk rem i) [i..<k] =
     map (\<lambda>j. (chunk_start chunk rem j, chunk_start chunk rem (Suc j))) [i..<k]"
proof (induction "k - i" arbitrary: i)
  case (Suc d)
  then have "[i..<k] = i # [Suc i..<k]" by (simp add: upt_conv_Cons)
  with Suc show ?case by (simp add: Let_def chunk_start_Suc)
qed simp

lemma chunk_start_last: "0 < k \<Longrightarrow> chunk_start (n div k) (n mod k) k = n"
  using mod_less_divisor [of k n] by (simp add: chunk_start_def min_absorb2)

lemma all_chunks_eq:
  "all_chunks n k = map (\<lambda>j. (chunk_start (n div k) (n mod k) j, chunk_start (n div k) (n mod k) (Suc j))) [0..<k]"
  using chunk_ranges_upt [of 0 k "n div k" "n mod k"] by (simp add: all_chunks_def chunk_start_def)

lemma chunk_start_mono: "i \<le> j \<Longrightarrow> chunk_start chunk rem i \<le> chunk_start chunk rem j"
  by (simp add: chunk_start_def add_mono mult_le_mono)

lemma chunks_concat:
  "concat (map (\<lambda>j. [chunk_start chunk rem j..<chunk_start chunk rem (Suc j)]) [0..<k]) = [0..<chunk_start chunk rem k]"
proof (induction k)
  case (Suc k)
  have "chunk_start chunk rem k \<le> chunk_start chunk rem (Suc k)" by (rule chunk_start_mono) simp
  then have "[0..<chunk_start chunk rem (Suc k)] =
      [0..<chunk_start chunk rem k] @ [chunk_start chunk rem k..<chunk_start chunk rem (Suc k)]"
    by (metis le_add_diff_inverse upt_add_eq_append zero_le)
  with Suc show ?case by simp
qed (simp add: chunk_start_def)

text \<open>The reduce terminals find the chunk that starts at an index.\<close>

definition chunk_of :: "nat \<Rightarrow> nat \<Rightarrow> nat \<Rightarrow> nat" where
  "chunk_of chunk rem start =
     (let front = rem * (chunk + 1) in
      if start < front then start div (chunk + 1) else rem + (start - front) div chunk)"

lemma chunk_of_start:
  assumes "0 < chunk"
  shows "chunk_of chunk rem (chunk_start chunk rem i) = i"
proof (cases "i < rem")
  case True
  then have "i * (chunk + 1) < rem * (chunk + 1)" by (rule mult_strict_right_mono) simp
  moreover from True have "chunk_start chunk rem i = i * (chunk + 1)" by (simp add: chunk_start_def)
  moreover have "i * (chunk + 1) div (chunk + 1) = i" by (rule nonzero_mult_div_cancel_right) simp
  ultimately show ?thesis by (simp only: chunk_of_def Let_def if_True)
next
  case False
  then obtain d where i: "i = rem + d" by (metis le_add_diff_inverse not_less)
  then have "chunk_start chunk rem i = rem * (chunk + 1) + d * chunk"
    by (simp add: chunk_start_def algebra_simps)
  with assms i show ?thesis by (simp add: chunk_of_def Let_def)
qed

lemma hybrid_num_chunks_bounds:
  assumes "hybrid_num_chunks n plan t = Inr k" and "0 < n"
  shows "0 < k" and "k \<le> n"
  using assms by (auto simp: hybrid_num_chunks_def add_u64_def split: if_splits)

lemma split_depth_bounds:
  assumes "split_depth n t ov = Inr d"
  shows "1 \<le> d" and "2 \<le> n \<Longrightarrow> 2 ^ d \<le> next_power_of_two n"
proof -
  from assms obtain p q where d: "d = max (min (trailing_zeros p) (trailing_zeros q)) 1"
    and q: "q = next_power_of_two (max n 1)"
    by (auto simp: split_depth_def npot_res_def bind_res_Inr_iff Let_def split: if_splits)
  then show "1 \<le> d" by simp
  assume n: "2 \<le> n"
  from next_power_of_two_pow2 obtain j where j: "next_power_of_two n = 2 ^ j" by (auto simp: is_pow2_def)
  with n next_power_of_two_ge [of n] have "1 \<le> j" by (cases j) auto
  with d q n j have "d \<le> j" by simp
  with j show "2 ^ d \<le> next_power_of_two n" by simp
qed

text \<open>
  C23. Chunk layout. For a nonempty batch the top-level chunks of a dispatch, laid end to end, are the
  indices of the batch in order, each exactly once; no chunk is empty, the sizes of two chunks differ
  by at most one, and the ordinal that the reduce terminals compute from the start of a chunk is the
  ordinal of that chunk.
\<close>

theorem chunks_partition:
  assumes "hybrid_num_chunks n plan num_threads = Inr k" and "0 < n"
  shows "concat (map (\<lambda>(a, b). [a..<b]) (all_chunks n k)) = [0..<n] \<and> length (all_chunks n k) = k \<and>
     (\<forall>i < k. case all_chunks n k ! i of (a, b) \<Rightarrow>
        a < b \<and> b \<le> n \<and> n div k \<le> b - a \<and> b - a \<le> n div k + 1 \<and> chunk_of (n div k) (n mod k) a = i)"
proof -
  note k = hybrid_num_chunks_bounds [OF assms]
  then have chunk: "0 < n div k" by (simp add: div_greater_zero_iff)
  have "case all_chunks n k ! i of (a, b) \<Rightarrow>
        a < b \<and> b \<le> n \<and> n div k \<le> b - a \<and> b - a \<le> n div k + 1 \<and> chunk_of (n div k) (n mod k) a = i" if "i < k" for i
    using that chunk chunk_start_Suc [of "n div k" "n mod k" i] chunk_start_mono [of "Suc i" k "n div k" "n mod k"]
      chunk_start_last [OF k(1), of n]
    by (auto simp: all_chunks_eq chunk_of_start split: if_splits)
  moreover have "concat (map (\<lambda>(a, b). [a..<b]) (all_chunks n k)) = [0..<n]"
    using chunks_concat [of "n div k" "n mod k" k] chunk_start_last [OF k(1), of n] by (simp add: all_chunks_eq comp_def)
  ultimately show ?thesis by (simp add: all_chunks_eq)
qed

theorem chunks_partition_witness:
  "hybrid_num_chunks 10 \<lparr>sp_depth = 3, sp_chunk_slack = 0\<rparr> 4 = Inr 4 \<and> all_chunks 10 4 = [(0, 3), (3, 6), (6, 8), (8, 10)] \<and>
   concat (map (\<lambda>(a, b). [a..<b]) (all_chunks 10 4)) = [0..<10]"
proof -
  have h: "hybrid_num_chunks 10 \<lparr>sp_depth = 3, sp_chunk_slack = 0\<rparr> 4 = Inr 4"
    by (simp add: hybrid_num_chunks_def add_u64_def u64_mod_def)
  have "all_chunks 10 4 = [(0, 3), (3, 6), (6, 8), (8, 10)]" by code_simp
  with h chunks_partition [OF h] show ?thesis by simp
qed

end
