(* ===== verification/Fused_Dispatch.thy ===== *)
theory Fused_Dispatch
  imports Fused_Tree Fused_Plan
begin

text \<open>
  The hybrid dispatcher of \<^verbatim>\<open>builder/typed/fused.rs\<close>: the batch is cut into top-level chunks, each
  a job for the pool, the calling thread runs one of them itself, and the first failure is kept in a
  shared slot. The order in which the chunks happen to run is a parameter; two chunks touch disjoint
  ranges of the shared buffers, so a chunk is one step here.
\<close>

section \<open>Failures\<close>

datatype ('e, 'p) erased_failure = OpFailure 'e | PanicFailure 'p

fun record_failure ::
    "('e, 'p) erased_failure option \<Rightarrow> ('e, 'p) erased_failure \<Rightarrow> ('e, 'p) erased_failure option" where
  "record_failure None f = Some f"
| "record_failure (Some (OpFailure _)) (PanicFailure p) = Some (PanicFailure p)"
| "record_failure (Some f) _ = Some f"

datatype ('e, 'p) try_failure = TryError 'e | TryPanic 'p

fun into_erased :: "('e, 'p) try_failure \<Rightarrow> ('e, 'p) erased_failure" where
  "into_erased (TryPanic p) = PanicFailure p"
| "into_erased (TryError e) = OpFailure e"

section \<open>Strategies\<close>

text \<open>The methods of \<open>HybridStrategy\<close>, and their type-erased form.\<close>

record ('s, 'p, 'f) hybrid_ops =
  ho_run_chunk :: "nat \<Rightarrow> nat \<Rightarrow> nat \<Rightarrow> ('s, 'p, 'f + unit) closure"
  ho_run_sequential :: "nat \<Rightarrow> nat \<Rightarrow> ('s, 'p, 'f + unit) closure"
  ho_cleanup_success :: "nat \<Rightarrow> nat \<Rightarrow> 's \<Rightarrow> 's res"

definition map_err :: "('f \<Rightarrow> 'g) \<Rightarrow> ('s, 'p, 'f + 'r) closure \<Rightarrow> ('s, 'p, 'g + 'r) closure" where
  "map_err g c s = bind_res (c s) (\<lambda>(r, s'). Inr (case r of
      Returned (Inl f) \<Rightarrow> Returned (Inl (g f)) | Returned (Inr x) \<Rightarrow> Returned (Inr x) | Unwound p \<Rightarrow> Unwound p, s'))"

definition erased_strategy :: "('f \<Rightarrow> 'g) \<Rightarrow> ('s, 'p, 'f) hybrid_ops \<Rightarrow> ('s, 'p, 'g) hybrid_ops" where
  "erased_strategy to_erased S =
     \<lparr>ho_run_chunk = (\<lambda>start stop splits. map_err to_erased (ho_run_chunk S start stop splits)),
      ho_run_sequential = (\<lambda>start stop. map_err to_erased (ho_run_sequential S start stop)),
      ho_cleanup_success = ho_cleanup_success S\<rparr>"

section \<open>Chunk jobs\<close>

record chunk_job =
  cj_start :: nat
  cj_stop :: nat
  cj_splits :: nat
  cj_succeeded :: bool

text \<open>What the jobs share: the buffers, the count latch, the failure slot, and the driver's flag.\<close>

record ('s, 'p, 'e) dispatch =
  dp_mem :: 's
  dp_jobs :: "chunk_job list"
  dp_latch :: nat
  dp_fail :: "('e, 'p) erased_failure option"
  dp_driver_ok :: bool

type_synonym ('s, 'p, 'e) strategy = "('s, 'p, ('e, 'p) erased_failure) hybrid_ops"

fun note_result ::
    "'p + (('e, 'p) erased_failure + unit) \<Rightarrow> ('e, 'p) erased_failure option \<Rightarrow> bool \<times> ('e, 'p) erased_failure option" where
  "note_result (Inr (Inr _)) slot = (True, slot)"
| "note_result (Inr (Inl f)) slot = (False, record_failure slot f)"
| "note_result (Inl p) slot = (False, record_failure slot (PanicFailure p))"

definition chunk_execute :: "('s, 'p, 'e) strategy \<Rightarrow> nat \<Rightarrow> ('s, 'p, 'e) dispatch \<Rightarrow> ('s, 'p, 'e) dispatch res" where
  "chunk_execute S j d =
     bind_res (index_res (dp_jobs d) j) (\<lambda>job.
     bind_res (halt_unwinding (ho_run_chunk S (cj_start job) (cj_stop job) (cj_splits job)) (dp_mem d)) (\<lambda>(r, s').
     case note_result r (dp_fail d) of (ok, slot) \<Rightarrow>
     bind_res (sub_u64 (dp_latch d) 1) (\<lambda>l.
     Inr (d\<lparr>dp_mem := s', dp_jobs := (if ok then (dp_jobs d)[j := job\<lparr>cj_succeeded := True\<rparr>] else dp_jobs d),
            dp_fail := slot, dp_latch := l\<rparr>))))"

definition driver_execute ::
    "('s, 'p, 'e) strategy \<Rightarrow> nat \<Rightarrow> nat \<Rightarrow> ('s, 'p, 'e) dispatch \<Rightarrow> ('s, 'p, 'e) dispatch res" where
  "driver_execute S start stop d =
     bind_res (halt_unwinding (ho_run_sequential S start stop) (dp_mem d)) (\<lambda>(r, s').
     case note_result r (dp_fail d) of (ok, slot) \<Rightarrow>
     Inr (d\<lparr>dp_mem := s', dp_fail := slot, dp_driver_ok := (dp_driver_ok d \<or> ok)\<rparr>))"

datatype task = DriverChunk | PoolJob nat

fun run_tasks ::
    "('s, 'p, 'e) strategy \<Rightarrow> nat \<times> nat \<Rightarrow> task list \<Rightarrow> ('s, 'p, 'e) dispatch \<Rightarrow> ('s, 'p, 'e) dispatch res" where
  "run_tasks S drv [] d = Inr d"
| "run_tasks S drv (DriverChunk # ts) d = bind_res (driver_execute S (fst drv) (snd drv) d) (run_tasks S drv ts)"
| "run_tasks S drv (PoolJob j # ts) d = bind_res (chunk_execute S j d) (run_tasks S drv ts)"

section \<open>The dispatcher\<close>

fun cleanup_jobs :: "('s, 'p, 'e) strategy \<Rightarrow> chunk_job list \<Rightarrow> 's \<Rightarrow> 's res" where
  "cleanup_jobs S [] s = Inr s"
| "cleanup_jobs S (job # jobs) s =
     bind_res (if cj_succeeded job then ho_cleanup_success S (cj_start job) (cj_stop job) s else Inr s)
       (cleanup_jobs S jobs)"

text \<open>Past the latch: the failure slot decides, and a failure cleans up the chunks that succeeded.\<close>

definition dispatch_finish ::
    "('s, 'p, 'e) strategy \<Rightarrow> nat \<times> nat \<Rightarrow> ('s, 'p, 'e) dispatch \<Rightarrow>
     (('p, ('e, 'p) erased_failure + unit) outcome \<times> 's) res" where
  "dispatch_finish S drv d =
     (case dp_fail d of
        None \<Rightarrow> Inr (Returned (Inr ()), dp_mem d)
      | Some f \<Rightarrow>
          bind_res (cleanup_jobs S (dp_jobs d) (dp_mem d)) (\<lambda>s1.
          bind_res (if dp_driver_ok d then ho_cleanup_success S (fst drv) (snd drv) s1 else Inr s1) (\<lambda>s2.
          Inr (Returned (Inl f), s2))))"

definition ASSIST_RESERVE_CHUNKS :: nat where
  "ASSIST_RESERVE_CHUNKS = 1"

datatype onpool_hybrid = HybridOff | HybridInjector | HybridLocalDeque

definition onpool_hybrid_mode :: "string option \<Rightarrow> onpool_hybrid" where
  "onpool_hybrid_mode env =
     (case env of
        None \<Rightarrow> HybridOff
      | Some v \<Rightarrow> if v = ''0'' then HybridOff else if v = ''2'' then HybridLocalDeque else HybridInjector)"

text \<open>
  \<open>order\<close> is the order in which the chunks run, the driver's own among them; the wait on the latch
  returns only once every job has counted down, so a run with jobs left out never gets past it. The
  debug assertion that the ranges end at \<open>n\<close> is left out: \<open>chunk_ranges\<close> is shown to partition the batch.
\<close>

definition hybrid_dispatch ::
    "bool \<Rightarrow> onpool_hybrid \<Rightarrow> task list \<Rightarrow> ('s, 'p, 'e) strategy \<Rightarrow> nat \<Rightarrow> split_plan \<Rightarrow> nat \<Rightarrow>
     ('s, 'p, ('e, 'p) erased_failure + unit) closure" where
  "hybrid_dispatch on_pool mode order S n plan num_threads s =
     bind_res (hybrid_num_chunks n plan num_threads) (\<lambda>num_chunks.
     bind_res (chunk_log2 plan num_chunks) (\<lambda>log2.
     let chunk_splits = sp_depth plan - log2; chunk = n div num_chunks; rem = n mod num_chunks;
         driver_participates = (chunk_splits = 0);
         first_pool_chunk = (if driver_participates then 1 else 0) in
     if on_pool \<and> (driver_participates \<or> mode = HybridOff) then ho_run_chunk S 0 n (sp_depth plan) s
     else
       bind_res (if driver_participates then
                   bind_res (sub_u64 (num_chunks - first_pool_chunk) 1) (\<lambda>m. Inr (min ASSIST_RESERVE_CHUNKS m))
                 else Inr 0) (\<lambda>reserve.
       let pool_chunks = num_chunks - first_pool_chunk;
           drv = (if driver_participates then (0, chunk + (if 0 < rem then 1 else 0)) else (0, 0));
           ranges = chunk_ranges chunk rem (snd drv) [first_pool_chunk..<num_chunks];
           jobs = map (\<lambda>(a, b). \<lparr>cj_start = a, cj_stop = b, cj_splits = chunk_splits, cj_succeeded = False\<rparr>) ranges in
       if pool_chunks < 1 then Inl ExplicitPanic
       else bind_res (run_tasks S drv order
              \<lparr>dp_mem = s, dp_jobs = jobs, dp_latch = pool_chunks, dp_fail = None, dp_driver_ok = False\<rparr>) (\<lambda>d.
            if dp_latch d = 0 then dispatch_finish S drv d else Inl Unreachable))))"

text \<open>Which ranges a dispatch runs, and the orders it can run them in.\<close>

definition single_tree :: "bool \<Rightarrow> onpool_hybrid \<Rightarrow> split_plan \<Rightarrow> nat \<Rightarrow> bool" where
  "single_tree on_pool mode plan log2 \<longleftrightarrow> on_pool \<and> (sp_depth plan - log2 = 0 \<or> mode = HybridOff)"

definition task_set :: "split_plan \<Rightarrow> nat \<Rightarrow> nat \<Rightarrow> task list" where
  "task_set plan log2 num_chunks =
     (if sp_depth plan - log2 = 0 then DriverChunk # map PoolJob [0..<num_chunks - 1] else map PoolJob [0..<num_chunks])"

end
