(* ===== verification/Fused_Strategy.thy ===== *)
theory Fused_Strategy
  imports Fused_Dispatch
begin

text \<open>
  The contract between the dispatcher and its strategies, as a locale, and what the dispatcher
  guarantees for every strategy that keeps it: whatever the order of the chunks, every slot is
  resolved and the outcome is that of the chunks. A tree terminal keeps the contract.
\<close>

section \<open>Chunk ordinals\<close>

lemma chunk_of_bounds:
  assumes "0 < chunk"
  shows "chunk_start chunk rem (chunk_of chunk rem i) \<le> i" and "i < chunk_start chunk rem (Suc (chunk_of chunk rem i))"
proof -
  show "chunk_start chunk rem (chunk_of chunk rem i) \<le> i"
  proof (cases "i < rem * (chunk + 1)")
    case True
    then have "i div (chunk + 1) < rem" by (metis less_mult_imp_div_less)
    with True show ?thesis
      using div_mult_mod_eq [of i "chunk + 1"] by (simp add: chunk_of_def chunk_start_def Let_def algebra_simps)
  next
    case False
    then obtain d where i: "i = rem * (chunk + 1) + d" by (metis le_Suc_ex not_less)
    then show ?thesis
      using div_mult_mod_eq [of d chunk] by (simp add: chunk_of_def chunk_start_def Let_def algebra_simps)
  qed
  show "i < chunk_start chunk rem (Suc (chunk_of chunk rem i))"
  proof (cases "i < rem * (chunk + 1)")
    case True
    then have "i div (chunk + 1) < rem" by (metis less_mult_imp_div_less)
    with True show ?thesis
      using dividend_less_div_times [of "chunk + 1" i]
      by (simp add: chunk_of_def chunk_start_def Let_def algebra_simps)
  next
    case False
    then obtain d where i: "i = rem * (chunk + 1) + d" by (metis le_Suc_ex not_less)
    then show ?thesis
      using dividend_less_div_times [OF assms, of d]
      by (simp add: chunk_of_def chunk_start_def Let_def algebra_simps)
  qed
qed

lemma chunk_of_iff:
  assumes "0 < chunk"
  shows "chunk_of chunk rem i = c \<longleftrightarrow> chunk_start chunk rem c \<le> i \<and> i < chunk_start chunk rem (Suc c)"
proof
  assume "chunk_start chunk rem c \<le> i \<and> i < chunk_start chunk rem (Suc c)"
  with chunk_of_bounds [where rem = rem and i = i, OF assms] have "chunk_start chunk rem c < chunk_start chunk rem (Suc (chunk_of chunk rem i))"
    "chunk_start chunk rem (chunk_of chunk rem i) < chunk_start chunk rem (Suc c)" by auto
  then have "\<not> Suc (chunk_of chunk rem i) \<le> c" "\<not> Suc c \<le> chunk_of chunk rem i"
    using chunk_start_mono [of _ _ chunk rem] by (metis not_less)+
  then show "chunk_of chunk rem i = c" by simp
qed (use chunk_of_bounds [OF assms] in auto)

text \<open>Cell states given per chunk.\<close>

definition tile :: "nat \<Rightarrow> nat \<Rightarrow> nat \<Rightarrow> (nat \<Rightarrow> cell) \<Rightarrow> (nat \<Rightarrow> cell) \<Rightarrow> nat \<Rightarrow> cell" where
  "tile n chunk rem st \<sigma> i = (if i < n then st (chunk_of chunk rem i) else \<sigma> i)"

lemma mark_tile:
  "0 < chunk \<Longrightarrow> chunk_start chunk rem (Suc c) \<le> n \<Longrightarrow>
     mark (chunk_start chunk rem c) (chunk_start chunk rem (Suc c)) x (tile n chunk rem st \<sigma>) = tile n chunk rem (st(c := x)) \<sigma>"
  by (rule ext) (auto simp: mark_def tile_def chunk_of_iff)

lemma tile_in: "0 < chunk \<Longrightarrow> chunk_start chunk rem (Suc c) \<le> n \<Longrightarrow> chunk_start chunk rem c \<le> i \<Longrightarrow>
    i < chunk_start chunk rem (Suc c) \<Longrightarrow> tile n chunk rem st \<sigma> i = st c"
  using chunk_of_iff [of chunk rem i c] by (simp add: tile_def)

section \<open>The failure slot\<close>

fun failure_of :: "('p, ('e, 'p) erased_failure + unit) outcome \<Rightarrow> ('e, 'p) erased_failure option" where
  "failure_of (Returned (Inr _)) = None"
| "failure_of (Returned (Inl f)) = Some f"
| "failure_of (Unwound p) = Some (PanicFailure p)"

fun record_option :: "('e, 'p) erased_failure option \<Rightarrow> ('e, 'p) erased_failure option \<Rightarrow> ('e, 'p) erased_failure option" where
  "record_option slot None = slot"
| "record_option slot (Some f) = record_failure slot f"

lemma note_captured: "note_result (captured r) slot = (failure_of r = None, record_option slot (failure_of r))"
  by (cases r rule: failure_of.cases) auto

text \<open>The slot after some chunks: a failure of one of them, if any failed, and a panic if any panicked.\<close>

definition slot_ok :: "('e, 'p) erased_failure option \<Rightarrow> ('e, 'p) erased_failure option set \<Rightarrow> bool" where
  "slot_ok slot F \<longleftrightarrow> (slot = None \<longleftrightarrow> F \<subseteq> {None}) \<and> (slot \<noteq> None \<longrightarrow> slot \<in> F) \<and>
     ((\<exists>p. Some (PanicFailure p) \<in> F) \<longrightarrow> (\<exists>p. slot = Some (PanicFailure p)))"

lemma slot_ok_record: "slot_ok slot F \<Longrightarrow> slot_ok (record_option slot x) (insert x F)"
proof (cases x)
  case (Some f)
  assume "slot_ok slot F"
  with Some show ?thesis by (cases "(slot, f)" rule: record_failure.cases) (auto simp: slot_ok_def)
qed (auto simp: slot_ok_def)

section \<open>The contract\<close>

abbreviation fated :: "('e, 'p) erased_failure option \<Rightarrow> cell" where
  "fated f \<equiv> (if f = None then Finished else Gone)"

locale hybrid_strategy =
  fixes I :: "(nat \<Rightarrow> cell) \<Rightarrow> 's \<Rightarrow> bool"
    and n :: nat
    and S :: "('s, 'p, 'e) strategy"
    and fate :: "nat \<Rightarrow> nat \<Rightarrow> ('e, 'p) erased_failure option"
    and tame :: "nat \<Rightarrow> nat \<Rightarrow> bool"
  assumes chunk_law: "a \<le> b \<Longrightarrow> b \<le> n \<Longrightarrow> I \<sigma> s \<Longrightarrow> (\<And>i. a \<le> i \<Longrightarrow> i < b \<Longrightarrow> \<sigma> i = Ready) \<Longrightarrow> tame a b \<Longrightarrow>
      \<exists>r s'. ho_run_chunk S a b splits s = Inr (r, s') \<and> failure_of r = fate a b \<and> I (mark a b (fated (fate a b)) \<sigma>) s'"
    and sequential_law: "a \<le> b \<Longrightarrow> b \<le> n \<Longrightarrow> I \<sigma> s \<Longrightarrow> (\<And>i. a \<le> i \<Longrightarrow> i < b \<Longrightarrow> \<sigma> i = Ready) \<Longrightarrow> tame a b \<Longrightarrow>
      \<exists>r s'. ho_run_sequential S a b s = Inr (r, s') \<and> failure_of r = fate a b \<and> I (mark a b (fated (fate a b)) \<sigma>) s'"
    and cleanup_law: "a \<le> b \<Longrightarrow> b \<le> n \<Longrightarrow> I \<sigma> s \<Longrightarrow> (\<And>i. a \<le> i \<Longrightarrow> i < b \<Longrightarrow> \<sigma> i = Finished) \<Longrightarrow> tame a b \<Longrightarrow>
      \<exists>s'. ho_cleanup_success S a b s = Inr s' \<and> I (mark a b Gone \<sigma>) s'"
begin

abbreviation start_of :: "nat \<Rightarrow> nat \<Rightarrow> nat" where
  "start_of k c \<equiv> chunk_start (n div k) (n mod k) c"

abbreviation chunk_fate :: "nat \<Rightarrow> nat \<Rightarrow> ('e, 'p) erased_failure option" where
  "chunk_fate k c \<equiv> fate (start_of k c) (start_of k (Suc c))"

abbreviation cells :: "nat \<Rightarrow> (nat \<Rightarrow> cell) \<Rightarrow> (nat \<Rightarrow> cell) \<Rightarrow> nat \<Rightarrow> cell" where
  "cells k st \<sigma> \<equiv> tile n (n div k) (n mod k) st \<sigma>"

abbreviation progress :: "nat \<Rightarrow> nat set \<Rightarrow> (nat \<Rightarrow> cell) \<Rightarrow> nat \<Rightarrow> cell" where
  "progress k T \<sigma> \<equiv> cells k (\<lambda>c. if c \<in> T then fated (chunk_fate k c) else Ready) \<sigma>"

definition the_job :: "nat \<Rightarrow> nat \<Rightarrow> nat set \<Rightarrow> nat \<Rightarrow> chunk_job" where
  "the_job k splits T c = \<lparr>cj_start = start_of k c, cj_stop = start_of k (Suc c), cj_splits = splits,
     cj_succeeded = (c \<in> T \<and> chunk_fate k c = None)\<rparr>"

text \<open>The shared state once the chunks of \<open>T\<close> have run, \<open>first\<close> being the first chunk of the pool.\<close>

definition after :: "nat \<Rightarrow> nat \<Rightarrow> nat \<Rightarrow> (nat \<Rightarrow> cell) \<Rightarrow> nat set \<Rightarrow> ('s, 'p, 'e) dispatch \<Rightarrow> bool" where
  "after k splits first \<sigma> T d \<longleftrightarrow>
     I (progress k T \<sigma>) (dp_mem d) \<and>
     dp_jobs d = map (the_job k splits T) [first..<k] \<and> dp_latch d = card ({first..<k} - T) \<and>
     dp_driver_ok d = (0 \<in> T \<and> first = 1 \<and> chunk_fate k 0 = None) \<and> slot_ok (dp_fail d) (chunk_fate k ` T)"

lemma layout:
  assumes "0 < k" and "k \<le> n" and "c < k"
  shows "0 < n div k" and "start_of k c \<le> start_of k (Suc c)" and "start_of k (Suc c) \<le> n"
  using assms chunk_start_mono [of c "Suc c" "n div k" "n mod k"] chunk_start_mono [of "Suc c" k "n div k" "n mod k"]
    chunk_start_last [of k n]
  by (auto simp: div_greater_zero_iff)

text \<open>One chunk more.\<close>

lemma cells_step:
  assumes "0 < k" and "k \<le> n" and "c < k" and "c \<notin> T"
  shows "mark (start_of k c) (start_of k (Suc c)) (fated (chunk_fate k c))
       (progress k T \<sigma>) =
     progress k (insert c T) \<sigma>"
proof -
  note lay = layout [OF assms(1-3)]
  have "(\<lambda>c. if c \<in> T then fated (chunk_fate k c) else Ready)(c := fated (chunk_fate k c)) =
      (\<lambda>c'. if c' \<in> insert c T then fated (chunk_fate k c') else Ready)"
    by (auto simp: fun_eq_iff)
  with mark_tile [OF lay(1,3), of "fated (chunk_fate k c)" _ \<sigma>] show ?thesis by metis
qed

lemma pool_step:
  assumes k: "0 < k" "k \<le> n" and c: "first \<le> c" "c < k" "c \<notin> T" and tame: "tame (start_of k c) (start_of k (Suc c))"
    and d: "after k splits first \<sigma> T d"
  shows "\<exists>d'. chunk_execute S (c - first) d = Inr d' \<and> after k splits first \<sigma> (insert c T) d'"
proof -
  note lay = layout [OF k c(2)]
  from d c have job: "index_res (dp_jobs d) (c - first) = Inr (the_job k splits T c)"
    by (simp add: after_def)
  have rdy: "progress k T \<sigma> i = Ready"
    if "start_of k c \<le> i" "i < start_of k (Suc c)" for i
    using tile_in [OF lay(1,3) that] c(3) by simp
  from chunk_law [where \<sigma> = "progress k T \<sigma>" and s = "dp_mem d" and splits = splits, OF lay(2,3) _ rdy tame] d obtain r s' where
    r: "ho_run_chunk S (start_of k c) (start_of k (Suc c)) splits (dp_mem d) = Inr (r, s')" "failure_of r = chunk_fate k c"
       "I (mark (start_of k c) (start_of k (Suc c)) (fated (chunk_fate k c))
          (progress k T \<sigma>)) s'"
    by (auto simp: after_def)
  have "{first..<k} - insert c T = ({first..<k} - T) - {c}" by auto
  with c have crd: "card ({first..<k} - insert c T) = card ({first..<k} - T) - 1" "1 \<le> card ({first..<k} - T)"
    by (auto simp: card_gt_0_iff Suc_le_eq)
  have jobs: "(map (the_job k splits T) [first..<k])[c - first := the_job k splits (insert c T) c] =
      map (the_job k splits (insert c T)) [first..<k]"
    using c by (intro nth_equalityI) (auto simp: nth_list_update the_job_def)
  have jobs': "map (the_job k splits T) [first..<k] = map (the_job k splits (insert c T)) [first..<k]" if "chunk_fate k c \<noteq> None"
    using that by (auto simp: the_job_def)
  have up: "(the_job k splits T c)\<lparr>cj_succeeded := True\<rparr> = the_job k splits (insert c T) c" if "chunk_fate k c = None"
    using that by (simp add: the_job_def)
  let ?d = "d\<lparr>dp_mem := s', dp_jobs := map (the_job k splits (insert c T)) [first..<k],
      dp_fail := record_option (dp_fail d) (chunk_fate k c), dp_latch := card ({first..<k} - T) - 1\<rparr>"
  have "chunk_execute S (c - first) d = Inr ?d"
    using job r(1,2) d crd(2) jobs jobs' up
    by (auto simp: chunk_execute_def the_job_def [of k splits T c] halt_unwinding_def note_captured after_def)
  moreover from d r(3) crd c slot_ok_record [of "dp_fail d" "chunk_fate k ` T" "chunk_fate k c"]
  have "after k splits first \<sigma> (insert c T) ?d"
    by (auto simp: after_def cells_step [OF k c(2,3)])
  ultimately show ?thesis by blast
qed

lemma driver_step:
  assumes k: "0 < k" "k \<le> n" and T: "0 \<notin> T" and tame: "tame (start_of k 0) (start_of k 1)" and d: "after k splits 1 \<sigma> T d"
  shows "\<exists>d'. driver_execute S (start_of k 0) (start_of k 1) d = Inr d' \<and> after k splits 1 \<sigma> (insert 0 T) d'"
proof -
  note lay = layout [OF k k(1)]
  have rdy: "progress k T \<sigma> i = Ready" if "start_of k 0 \<le> i" "i < start_of k (Suc 0)" for i
    using tile_in [OF lay(1,3) that] T by simp
  from sequential_law [where \<sigma> = "progress k T \<sigma>" and s = "dp_mem d", OF lay(2,3) _ rdy] tame d obtain r s' where
    r: "ho_run_sequential S (start_of k 0) (start_of k 1) (dp_mem d) = Inr (r, s')" "failure_of r = chunk_fate k 0"
       "I (mark (start_of k 0) (start_of k (Suc 0)) (fated (chunk_fate k 0)) (progress k T \<sigma>)) s'"
    by (auto simp: after_def)
  let ?d = "d\<lparr>dp_mem := s', dp_fail := record_option (dp_fail d) (chunk_fate k 0), dp_driver_ok := (chunk_fate k 0 = None)\<rparr>"
  have "map (the_job k splits T) [1..<k] = map (the_job k splits (insert 0 T)) [1..<k]" "{1..<k} - insert 0 T = {1..<k} - T"
    by (auto simp: the_job_def)
  with d r(3) slot_ok_record [of "dp_fail d" "chunk_fate k ` T" "chunk_fate k 0"] have "after k splits 1 \<sigma> (insert 0 T) ?d"
    by (auto simp: after_def cells_step [OF k k(1) T])
  moreover from r(1,2) d T have "driver_execute S (start_of k 0) (start_of k 1) d = Inr ?d"
    by (auto simp: driver_execute_def halt_unwinding_def note_captured after_def)
  ultimately show ?thesis by blast
qed

text \<open>All the chunks of a schedule.\<close>

fun ordinal :: "nat \<Rightarrow> task \<Rightarrow> nat" where
  "ordinal first DriverChunk = 0"
| "ordinal first (PoolJob j) = first + j"

lemma tasks_run:
  assumes k: "0 < k" "k \<le> n" and "distinct (map (ordinal first) ts)"
    and "\<And>t. t \<in> set ts \<Longrightarrow> ordinal first t < k \<and> ordinal first t \<notin> T"
    and "DriverChunk \<in> set ts \<Longrightarrow> first = 1 \<and> drv = (start_of k 0, start_of k 1)"
    and tame: "\<And>c. c < k \<Longrightarrow> tame (start_of k c) (start_of k (Suc c))"
    and "after k splits first \<sigma> T d"
  shows "\<exists>d'. run_tasks S drv ts d = Inr d' \<and> after k splits first \<sigma> (T \<union> ordinal first ` set ts) d'"
  using assms(3-5,7)
proof (induction ts arbitrary: T d)
  case (Cons t ts)
  have "\<exists>d1. run_tasks S drv (t # ts) d = run_tasks S drv ts d1 \<and> after k splits first \<sigma> (insert (ordinal first t) T) d1"
  proof (cases t)
    case DriverChunk
    with Cons.prems(3) Cons.prems(2) [of t] have f: "first = 1" "drv = (start_of k 0, start_of k 1)" "0 \<notin> T" by auto
    with DriverChunk driver_step [OF k, of T splits \<sigma> d] tame [OF k(1)] Cons.prems(4) show ?thesis by auto
  next
    case (PoolJob j)
    with Cons.prems(2) [of t] have "first + j < k" "first + j \<notin> T" by auto
    with PoolJob pool_step [OF k, of first "first + j" T splits \<sigma> d] tame Cons.prems(4) show ?thesis by auto
  qed
  then obtain d1 where d1: "run_tasks S drv (t # ts) d = run_tasks S drv ts d1"
    "after k splits first \<sigma> (insert (ordinal first t) T) d1" by blast
  from Cons.prems(1) have "ordinal first t' \<noteq> ordinal first t" if "t' \<in> set ts" for t' using that by (auto simp: image_iff)
  with Cons.IH [OF _ _ _ d1(2)] Cons.prems(1-3) obtain d' where
    "run_tasks S drv ts d1 = Inr d'" "after k splits first \<sigma> (insert (ordinal first t) T \<union> ordinal first ` set ts) d'"
    by auto
  with d1(1) show ?case by auto
qed auto

text \<open>The teardown after a failure.\<close>

lemma cleanup_jobs_run:
  assumes k: "0 < k" "k \<le> n" and "first \<le> k" and "I (cells k st \<sigma>) s"
    and "\<And>c. first \<le> c \<Longrightarrow> c < k \<Longrightarrow> st c = fated (chunk_fate k c)"
    and tame: "\<And>c. c < k \<Longrightarrow> tame (start_of k c) (start_of k (Suc c))"
  shows "\<exists>s'. cleanup_jobs S (map (the_job k splits {..<k}) [first..<k]) s = Inr s' \<and>
     I (cells k (\<lambda>c. if first \<le> c \<and> c < k then Gone else st c) \<sigma>) s'"
  using assms(3-5)
proof (induction "k - first" arbitrary: first st s)
  case 0
  then have "(\<lambda>c. if first \<le> c \<and> c < k then Gone else st c) = st" by (auto simp: fun_eq_iff)
  with 0 show ?case by simp
next
  case (Suc m)
  then have lt: "first < k" by simp
  then have upt: "[first..<k] = first # [Suc first..<k]" by (simp add: upt_conv_Cons)
  note lay = layout [OF k lt]
  let ?job = "the_job k splits {..<k} first"
  have "\<exists>s1. (if cj_succeeded ?job then ho_cleanup_success S (cj_start ?job) (cj_stop ?job) s else Inr s) = Inr s1 \<and>
      I (cells k (st(first := Gone)) \<sigma>) s1"
  proof (cases "chunk_fate k first = None")
    case True
    with Suc.prems(3) [of first] lt have "st first = Finished" by simp
    then have "cells k st \<sigma> i = Finished" if "start_of k first \<le> i" "i < start_of k (Suc first)" for i
      using tile_in [OF lay(1,3) that] by simp
    from cleanup_law [where \<sigma> = "cells k st \<sigma>", OF lay(2,3) Suc.prems(2) this tame [OF lt]] True lt show ?thesis
      by (auto simp: the_job_def mark_tile [OF lay(1,3)])
  next
    case False
    with Suc.prems(3) [of first] lt have "st(first := Gone) = st" by auto
    with False Suc.prems(2) show ?thesis by (auto simp: the_job_def)
  qed
  then obtain s1 where s1: "(if cj_succeeded ?job then ho_cleanup_success S (cj_start ?job) (cj_stop ?job) s else Inr s) = Inr s1"
    "I (cells k (st(first := Gone)) \<sigma>) s1" by blast
  have "(\<lambda>c. if Suc first \<le> c \<and> c < k then Gone else (st(first := Gone)) c) = (\<lambda>c. if first \<le> c \<and> c < k then Gone else st c)"
    using lt by (auto simp: fun_eq_iff)
  with Suc.hyps(1) [of "Suc first" "st(first := Gone)" s1] Suc.hyps(2) Suc.prems(3) s1 lt upt show ?case by auto
qed

lemma cells_cong:
  assumes k: "0 < k" "k \<le> n" and "\<And>c. c < k \<Longrightarrow> st c = st' c"
  shows "cells k st \<sigma> = cells k st' \<sigma>"
proof
  fix i
  show "cells k st \<sigma> i = cells k st' \<sigma> i"
  proof (cases "i < n")
    case True
    have "\<not> k \<le> chunk_of (n div k) (n mod k) i"
      using layout(1) [OF k k(1)] True chunk_of_bounds(1) [of "n div k" "n mod k" i] chunk_start_last [OF k(1), of n]
        chunk_start_mono [of k "chunk_of (n div k) (n mod k) i" "n div k" "n mod k"] by auto
    with assms(3) show ?thesis by (simp add: tile_def)
  qed (simp add: tile_def)
qed

lemma finish_runs:
  assumes k: "0 < k" "k \<le> n" and first: "first \<le> 1" and d: "after k splits first \<sigma> {..<k} d"
    and drv: "first = 1 \<Longrightarrow> drv = (start_of k 0, start_of k 1)"
    and tame: "\<And>c. c < k \<Longrightarrow> tame (start_of k c) (start_of k (Suc c))"
  shows "\<exists>r s'. dispatch_finish S drv d = Inr (r, s') \<and> slot_ok (failure_of r) (chunk_fate k ` {..<k}) \<and>
     I (cells k (\<lambda>_. fated (failure_of r)) \<sigma>) s'"
proof (cases "dp_fail d")
  case None
  from d have slot: "slot_ok (dp_fail d) (chunk_fate k ` {..<k})" by (simp add: after_def)
  with None have "progress k {..<k} \<sigma> = cells k (\<lambda>_. Finished) \<sigma>" by (intro cells_cong [OF k]) (auto simp: slot_ok_def)
  with None d slot show ?thesis by (auto simp: dispatch_finish_def after_def)
next
  case (Some f)
  let ?st = "\<lambda>c. if first \<le> c \<and> c < k then Gone else if c < k then fated (chunk_fate k c) else Ready"
  from d have st: "I (progress k {..<k} \<sigma>) (dp_mem d)" "dp_jobs d = map (the_job k splits {..<k}) [first..<k]"
    "dp_driver_ok d = (first = 1 \<and> chunk_fate k 0 = None)" "slot_ok (dp_fail d) (chunk_fate k ` {..<k})"
    using k by (auto simp: after_def)
  from cleanup_jobs_run [OF k _ st(1), of first splits] first k tame obtain s1 where
    s1: "cleanup_jobs S (dp_jobs d) (dp_mem d) = Inr s1" "I (cells k ?st \<sigma>) s1"
    by (auto simp: st(2) if_distrib cong: if_cong)
  have "\<exists>s2. (if dp_driver_ok d then ho_cleanup_success S (fst drv) (snd drv) s1 else Inr s1) = Inr s2 \<and>
      I (cells k (\<lambda>_. Gone) \<sigma>) s2"
  proof (cases "dp_driver_ok d")
    case True
    with st(3) drv have f: "first = 1" "chunk_fate k 0 = None" "drv = (start_of k 0, start_of k (Suc 0))" by auto
    note lay = layout [OF k k(1)]
    have "cells k ?st \<sigma> i = Finished" if "start_of k 0 \<le> i" "i < start_of k (Suc 0)" for i
      using tile_in [OF lay(1,3) that] f k by simp
    from cleanup_law [where \<sigma> = "cells k ?st \<sigma>", OF lay(2,3) s1(2) this tame [OF k(1)]] obtain s2 where
      "ho_cleanup_success S (start_of k 0) (start_of k (Suc 0)) s1 = Inr s2" "I (cells k (?st(0 := Gone)) \<sigma>) s2"
      by (auto simp: mark_tile [OF lay(1,3)])
    moreover have "cells k (?st(0 := Gone)) \<sigma> = cells k (\<lambda>_. Gone) \<sigma>" using f by (intro cells_cong [OF k]) auto
    ultimately show ?thesis using True f by auto
  next
    case False
    with st(3) first have "?st c = Gone" if "c < k" for c
      using that by (cases "first = 0"; cases "c = 0") (auto simp: le_Suc_eq)
    then have "cells k ?st \<sigma> = cells k (\<lambda>_. Gone) \<sigma>" by (intro cells_cong [OF k])
    with False s1(2) show ?thesis by auto
  qed
  then obtain s2 where s2: "dispatch_finish S drv d = Inr (Returned (Inl f), s2)" "I (cells k (\<lambda>_. Gone) \<sigma>) s2"
    using Some s1(1) by (auto simp: dispatch_finish_def)
  with Some st(4) show ?thesis by (intro exI [of _ "Returned (Inl f)"] exI [of _ s2]) simp
qed

lemma task_ordinals:
  assumes "0 < k"
  shows "map (ordinal (if sp_depth plan - l = 0 then 1 else 0)) (task_set plan l k) = [0..<k]"
proof (cases "sp_depth plan - l = 0")
  case True
  from assms have "[0..<k] = 0 # map Suc [0..<k - 1]" by (metis map_Suc_upt Suc_diff_1 upt_conv_Cons One_nat_def)
  with True show ?thesis by (simp add: task_set_def comp_def)
qed (simp add: task_set_def comp_def)

text \<open>The state the jobs start from is the one the source lays out.\<close>

lemma dispatch_start:
  assumes k: "0 < k" "k \<le> n" and first: "first = (if p then 1 else 0)" "first < k"
    and s: "I \<sigma> s" and rdy: "\<And>i. i < n \<Longrightarrow> \<sigma> i = Ready"
  defines "drv \<equiv> (if p then (0, n div k + (if 0 < n mod k then 1 else 0)) else (0, 0))"
  shows "drv = (if p then (start_of k 0, start_of k 1) else (0, 0))"
    and "after k splits first \<sigma> {}
      \<lparr>dp_mem = s,
       dp_jobs = map (\<lambda>(a, b). \<lparr>cj_start = a, cj_stop = b, cj_splits = splits, cj_succeeded = False\<rparr>)
          (chunk_ranges (n div k) (n mod k) (snd drv) [first..<k]),
       dp_latch = k - first, dp_fail = None, dp_driver_ok = False\<rparr>"
proof -
  show drv: "drv = (if p then (start_of k 0, start_of k 1) else (0, 0))"
    by (auto simp: drv_def chunk_start_def)
  then have "snd drv = start_of k first" using first(1) by (simp add: chunk_start_def)
  then have "map (\<lambda>(a, b). \<lparr>cj_start = a, cj_stop = b, cj_splits = splits, cj_succeeded = False\<rparr>)
       (chunk_ranges (n div k) (n mod k) (snd drv) [first..<k]) = map (the_job k splits {}) [first..<k]"
    using chunk_ranges_upt [of first k "n div k" "n mod k"] first(2) by (simp add: the_job_def)
  moreover have "progress k {} \<sigma> = \<sigma>" using rdy by (auto simp: tile_def fun_eq_iff)
  ultimately show "after k splits first \<sigma> {}
      \<lparr>dp_mem = s,
       dp_jobs = map (\<lambda>(a, b). \<lparr>cj_start = a, cj_stop = b, cj_splits = splits, cj_succeeded = False\<rparr>)
          (chunk_ranges (n div k) (n mod k) (snd drv) [first..<k]),
       dp_latch = k - first, dp_fail = None, dp_driver_ok = False\<rparr>"
    using s by (simp add: after_def slot_ok_def)
qed

text \<open>
  The dispatcher, for every strategy that keeps the contract: with the chunks run in any order it
  returns, reporting a failure exactly if a chunk failed, one of theirs, a panic if there was one;
  every cell is finished after a success and gone after a failure.
\<close>

lemma dispatch_runs:
  assumes nc: "hybrid_num_chunks n plan num_threads = Inr k" and lg: "chunk_log2 plan k = Inr l" and n: "0 < n"
    and two: "2 \<le> k" and order: "mset order = mset (task_set plan l k)"
    and s: "I \<sigma> s" and rdy: "\<And>i. i < n \<Longrightarrow> \<sigma> i = Ready"
    and tame: "\<And>a b. (a, b) \<in> set (if single_tree on_pool mode plan l then [(0, n)] else all_chunks n k) \<Longrightarrow> tame a b"
  shows "\<exists>r s'. hybrid_dispatch on_pool mode order S n plan num_threads s = Inr (r, s') \<and>
     slot_ok (failure_of r) ((\<lambda>(a, b). fate a b) ` set (if single_tree on_pool mode plan l then [(0, n)] else all_chunks n k)) \<and>
     I (mark 0 n (fated (failure_of r)) \<sigma>) s'"
proof (cases "single_tree on_pool mode plan l")
  case True
  from chunk_law [where \<sigma> = \<sigma> and a = 0 and splits = "sp_depth plan", OF _ order_refl s] tame [of 0 n] True rdy obtain r s' where
    "ho_run_chunk S 0 n (sp_depth plan) s = Inr (r, s')" "failure_of r = fate 0 n" "I (mark 0 n (fated (fate 0 n)) \<sigma>) s'" by auto
  with True nc lg show ?thesis
    by (cases "fate 0 n") (auto simp: hybrid_dispatch_def single_tree_def Let_def slot_ok_def)
next
  case False
  note k = hybrid_num_chunks_bounds [OF nc n]
  define first :: nat where "first = (if sp_depth plan - l = 0 then 1 else 0)"
  define drv :: "nat \<times> nat" where "drv = (if sp_depth plan - l = 0 then (0, n div k + (if 0 < n mod k then 1 else 0)) else (0, 0))"
  have first: "first \<le> 1" "first < k" using two by (auto simp: first_def)
  note start = dispatch_start [OF k first_def first(2) s rdy, folded drv_def]
  have "mset (map (ordinal first) order) = mset [0..<k]"
    unfolding first_def task_ordinals [OF k(1), of plan l, symmetric] by (simp only: mset_map order)
  then have ord: "distinct (map (ordinal first) order)" "set (map (ordinal first) order) = {..<k}"
    using mset_eq_imp_distinct_iff mset_eq_setD by fastforce+
  from order have "set order = set (task_set plan l k)" by (rule mset_eq_setD)
  then have "DriverChunk \<in> set order \<Longrightarrow> sp_depth plan - l = 0"
    by (auto simp: task_set_def split: if_splits)
  with start(1) first_def have dr: "DriverChunk \<in> set order \<Longrightarrow> first = 1 \<and> drv = (start_of k 0, start_of k 1)" by simp
  have in_k: "ordinal first t < k \<and> ordinal first t \<notin> {}" if "t \<in> set order" for t
    using ord(2) that by auto
  have tm: "tame (start_of k c) (start_of k (Suc c))" if "c < k" for c
    using tame [of "start_of k c" "start_of k (Suc c)"] False that by (auto simp: all_chunks_eq)
  from tasks_run [OF k ord(1) in_k dr tm start(2), of "sp_depth plan - l"] ord(2) obtain d where
    d: "run_tasks S drv order
          \<lparr>dp_mem = s, dp_jobs = map (\<lambda>(a, b). \<lparr>cj_start = a, cj_stop = b, cj_splits = sp_depth plan - l, cj_succeeded = False\<rparr>)
             (chunk_ranges (n div k) (n mod k) (snd drv) [first..<k]), dp_latch = k - first, dp_fail = None, dp_driver_ok = False\<rparr> = Inr d"
       "after k (sp_depth plan - l) first \<sigma> {..<k} d"
    by auto
  from d(2) have "dp_latch d = 0" by (auto simp: after_def)
  with d(1) nc lg False first two have "hybrid_dispatch on_pool mode order S n plan num_threads s = dispatch_finish S drv d"
    by (cases "sp_depth plan \<le> l") (auto simp: hybrid_dispatch_def single_tree_def Let_def first_def drv_def)
  moreover have p1: "sp_depth plan - l = 0" if "first = 1" using that unfolding first_def by presburger
  have "drv = (start_of k 0, start_of k 1)" if "first = 1" using start(1) unfolding if_P [OF p1 [OF that]] .
  from finish_runs [OF k first(1) d(2) this tm] obtain r s' where
    "dispatch_finish S drv d = Inr (r, s')" "slot_ok (failure_of r) (chunk_fate k ` {..<k})"
    "I (cells k (\<lambda>_. fated (failure_of r)) \<sigma>) s'" by blast
  moreover have "(\<lambda>(a, b). fate a b) ` set (all_chunks n k) = chunk_fate k ` {..<k}"
    by (simp add: all_chunks_eq image_image atLeast0LessThan)
  moreover have "cells k (\<lambda>_. c) \<sigma> = mark 0 n c \<sigma>" for c by (auto simp: tile_def mark_def fun_eq_iff)
  ultimately show ?thesis using False by auto
qed

end

section \<open>Tree terminals keep the contract\<close>

text \<open>The shape of every strategy whose chunks run the tree over a leaf.\<close>

definition tree_ops ::
    "(nat \<Rightarrow> nat \<Rightarrow> bool) \<Rightarrow> ('p \<Rightarrow> 'f) \<Rightarrow> (nat \<Rightarrow> nat \<Rightarrow> ('s, 'p, 'f + unit) closure) \<Rightarrow> (nat \<Rightarrow> nat \<Rightarrow> 's \<Rightarrow> 's res) \<Rightarrow>
     ('s, 'p, 'f) hybrid_ops" where
  "tree_ops stolen from_panic leaf drop_success =
     \<lparr>ho_run_chunk = (\<lambda>start stop splits. par_tree_rec stolen from_panic leaf drop_success splits start stop),
      ho_run_sequential = leaf, ho_cleanup_success = drop_success\<rparr>"

definition range_fate ::
    "('p \<Rightarrow> 'f) \<Rightarrow> ('f \<Rightarrow> ('e, 'p) erased_failure) \<Rightarrow> (nat \<Rightarrow> ('p, 'f + unit) outcome) \<Rightarrow> nat \<Rightarrow> nat \<Rightarrow> ('e, 'p) erased_failure option" where
  "range_fate from_panic to_erased verdict a b =
     (case flat from_panic (seq_run verdict a b) of Inl f \<Rightarrow> Some (to_erased f) | Inr _ \<Rightarrow> None)"

lemma range_fate_None: "range_fate from_panic to_erased verdict a b = None \<longleftrightarrow> is_ok (seq_run verdict a b)"
  using flat_ok_iff [of from_panic "seq_run verdict a b"] by (auto simp: range_fate_def split: sum.splits)

locale erased_tree = tree_strategy I n verdict leaf drop_success
  for I :: "(nat \<Rightarrow> cell) \<Rightarrow> 's \<Rightarrow> bool" and n :: nat and verdict :: "nat \<Rightarrow> ('p, 'f + unit) outcome"
    and leaf :: "nat \<Rightarrow> nat \<Rightarrow> ('s, 'p, 'f + unit) closure" and drop_success :: "nat \<Rightarrow> nat \<Rightarrow> 's \<Rightarrow> 's res" +
  fixes stolen :: "nat \<Rightarrow> nat \<Rightarrow> bool" and from_panic :: "'p \<Rightarrow> 'f" and to_erased :: "'f \<Rightarrow> ('e, 'p) erased_failure"
  assumes erased_panic: "to_erased (from_panic p) = PanicFailure p"
begin

lemma erased_failure_of:
  "flat from_panic r = flat from_panic (seq_run verdict a b) \<Longrightarrow>
     failure_of (case r of Returned (Inl f) \<Rightarrow> Returned (Inl (to_erased f)) | Returned (Inr x) \<Rightarrow> Returned (Inr x) | Unwound p \<Rightarrow> Unwound p) =
     range_fate from_panic to_erased verdict a b"
  by (cases r rule: outcome_cases) (auto simp: range_fate_def erased_panic dest: sym)

end

sublocale erased_tree \<subseteq> hybrid: hybrid_strategy I n "erased_strategy to_erased (tree_ops stolen from_panic leaf drop_success)"
  "range_fate from_panic to_erased verdict" "no_late_panic verdict"
proof
  fix a b \<sigma> s splits
  assume *: "a \<le> b" "b \<le> n" "I \<sigma> s" "\<And>i. a \<le> i \<Longrightarrow> i < b \<Longrightarrow> \<sigma> i = Ready"
    and late: "no_late_panic verdict a b"
  show "\<exists>r s'. ho_run_sequential (erased_strategy to_erased (tree_ops stolen from_panic leaf drop_success)) a b s = Inr (r, s') \<and>
      failure_of r = range_fate from_panic to_erased verdict a b \<and>
      I (mark a b (fated (range_fate from_panic to_erased verdict a b)) \<sigma>) s'"
    using leaf_law [OF *] erased_failure_of [OF refl, of a b]
    by (auto simp: erased_strategy_def tree_ops_def map_err_def range_fate_None split: if_splits)
  from par_tree_rec_runs [OF * late, of stolen from_panic splits] erased_failure_of [of _ a b]
  show "\<exists>r s'. ho_run_chunk (erased_strategy to_erased (tree_ops stolen from_panic leaf drop_success)) a b splits s = Inr (r, s') \<and>
      failure_of r = range_fate from_panic to_erased verdict a b \<and>
      I (mark a b (fated (range_fate from_panic to_erased verdict a b)) \<sigma>) s'"
    by (fastforce simp: erased_strategy_def tree_ops_def map_err_def range_fate_None split: if_splits)
next
  fix a b \<sigma> s
  assume "a \<le> b" "b \<le> n" "I \<sigma> s" "\<And>i. a \<le> i \<Longrightarrow> i < b \<Longrightarrow> \<sigma> i = Finished"
  from drop_law [OF this]
  show "\<exists>s'. ho_cleanup_success (erased_strategy to_erased (tree_ops stolen from_panic leaf drop_success)) a b s = Inr s' \<and>
      I (mark a b Gone \<sigma>) s'"
    by (simp add: erased_strategy_def tree_ops_def)
qed

end
