(* ===== verification/Fused_Stage.thy ===== *)
theory Fused_Stage
  imports Join
begin

text \<open>
  The stage chains of the fused engine, \<^verbatim>\<open>crates/youpipe/src/builder/typed/traits.rs\<close>: the stages
  compose at compile time, so a chain is a record of the methods of its trait. User closures return or
  unwind. A chain without a filter also has a path that builds no \<^verbatim>\<open>Option\<close>; the trait's default
  for it is undefined behaviour on a dropped item, a fault here.
\<close>

section \<open>Outcomes in sequence\<close>

fun bind_out :: "('p, 'a) outcome \<Rightarrow> ('a \<Rightarrow> ('p, 'b) outcome) \<Rightarrow> ('p, 'b) outcome" where
  "bind_out (Returned x) k = k x"
| "bind_out (Unwound p) k = Unwound p"

lemma bind_out_assoc: "bind_out (bind_out m k) l = bind_out m (\<lambda>x. bind_out (k x) l)"
  by (cases m) auto

lemma bind_out_Returned [simp]: "bind_out m Returned = m"
  by (cases m) auto

section \<open>Infallible chains\<close>

record ('i, 'o, 'p) fused_stage =
  fs_may_filter :: bool
  fs_apply :: "'i \<Rightarrow> ('p, 'o option) outcome"
  fs_apply_pure :: "'i \<Rightarrow> ('p, 'o) outcome res"

definition default_apply_pure :: "('i \<Rightarrow> ('p, 'o option) outcome) \<Rightarrow> 'i \<Rightarrow> ('p, 'o) outcome res" where
  "default_apply_pure app item =
     (case app item of
        Returned (Some v) \<Rightarrow> Inr (Returned v)
      | Returned None \<Rightarrow> Inl Unreachable
      | Unwound p \<Rightarrow> Inr (Unwound p))"

definition stage_identity :: "('i, 'i, 'p) fused_stage" where
  "stage_identity =
     \<lparr>fs_may_filter = False, fs_apply = (\<lambda>item. Returned (Some item)), fs_apply_pure = (\<lambda>item. Inr (Returned item))\<rparr>"

definition stage_map :: "('i, 'm, 'p) fused_stage \<Rightarrow> ('m \<Rightarrow> ('p, 'o) outcome) \<Rightarrow> ('i, 'o, 'p) fused_stage" where
  "stage_map prev f =
     \<lparr>fs_may_filter = fs_may_filter prev,
      fs_apply = (\<lambda>item. bind_out (fs_apply prev item) (\<lambda>out.
         case out of None \<Rightarrow> Returned None | Some v \<Rightarrow> bind_out (f v) (\<lambda>w. Returned (Some w)))),
      fs_apply_pure = (\<lambda>item. bind_res (fs_apply_pure prev item) (\<lambda>r. Inr (bind_out r f)))\<rparr>"

definition stage_filter :: "('i, 'o, 'p) fused_stage \<Rightarrow> ('o \<Rightarrow> ('p, bool) outcome) \<Rightarrow> ('i, 'o, 'p) fused_stage" where
  "stage_filter prev f =
     (let app = (\<lambda>item. bind_out (fs_apply prev item) (\<lambda>out.
         case out of None \<Rightarrow> Returned None | Some v \<Rightarrow> bind_out (f v) (\<lambda>keep. Returned (if keep then Some v else None))))
      in \<lparr>fs_may_filter = True, fs_apply = app, fs_apply_pure = default_apply_pure app\<rparr>)"

text \<open>\<open>FusedOp\<close>: the chain as the operation of the index core.\<close>

definition fused_op :: "('i, 'o, 'p) fused_stage \<Rightarrow> 'i \<Rightarrow> ('p, 'o) outcome res" where
  "fused_op S item = fs_apply_pure S item"

text \<open>What the pure path of a chain without a filter owes the checked one.\<close>

definition stage_law :: "('i, 'o, 'p) fused_stage \<Rightarrow> bool" where
  "stage_law S \<longleftrightarrow> (\<not> fs_may_filter S \<longrightarrow>
     (\<forall>x. \<exists>r. fs_apply_pure S x = Inr r \<and> fs_apply S x = bind_out r (\<lambda>y. Returned (Some y))))"

lemma stage_law_identity [intro, simp]: "stage_law stage_identity"
  by (simp add: stage_law_def stage_identity_def)

lemma stage_law_filter [intro, simp]: "stage_law (stage_filter S f)"
  by (simp add: stage_law_def stage_filter_def Let_def)

lemma stage_law_map [intro]:
  assumes "stage_law S"
  shows "stage_law (stage_map S f)"
  unfolding stage_law_def
proof (intro impI allI)
  fix x
  assume "\<not> fs_may_filter (stage_map S f)"
  with assms obtain r where "fs_apply_pure S x = Inr r" "fs_apply S x = bind_out r (\<lambda>y. Returned (Some y))"
    by (force simp: stage_law_def stage_map_def)
  then show "\<exists>r. fs_apply_pure (stage_map S f) x = Inr r \<and> fs_apply (stage_map S f) x = bind_out r (\<lambda>y. Returned (Some y))"
    by (cases r) (auto simp: stage_map_def)
qed

section \<open>Fallible chains\<close>

record ('i, 'o, 'e, 'p) fused_try_stage =
  ts_may_filter :: bool
  ts_try_apply :: "'i \<Rightarrow> ('p, 'e + 'o option) outcome"
  ts_try_apply_pure :: "'i \<Rightarrow> ('p, 'e + 'o) outcome res"

definition default_try_apply_pure :: "('i \<Rightarrow> ('p, 'e + 'o option) outcome) \<Rightarrow> 'i \<Rightarrow> ('p, 'e + 'o) outcome res" where
  "default_try_apply_pure app item =
     (case app item of
        Returned (Inr (Some v)) \<Rightarrow> Inr (Returned (Inr v))
      | Returned (Inr None) \<Rightarrow> Inl Unreachable
      | Returned (Inl e) \<Rightarrow> Inr (Returned (Inl e))
      | Unwound p \<Rightarrow> Inr (Unwound p))"

text \<open>The question mark: an error returns at once.\<close>

definition try_bind :: "('p, 'e + 'a) outcome \<Rightarrow> ('a \<Rightarrow> ('p, 'e + 'b) outcome) \<Rightarrow> ('p, 'e + 'b) outcome" where
  "try_bind m k = bind_out m (\<lambda>r. case r of Inl e \<Rightarrow> Returned (Inl e) | Inr x \<Rightarrow> k x)"

definition try_stage_identity :: "('i, 'i, 'e, 'p) fused_try_stage" where
  "try_stage_identity =
     \<lparr>ts_may_filter = False, ts_try_apply = (\<lambda>item. Returned (Inr (Some item))),
      ts_try_apply_pure = (\<lambda>item. Inr (Returned (Inr item)))\<rparr>"

definition try_stage_map :: "('i, 'm, 'e, 'p) fused_try_stage \<Rightarrow> ('m \<Rightarrow> ('p, 'o) outcome) \<Rightarrow> ('i, 'o, 'e, 'p) fused_try_stage" where
  "try_stage_map prev f =
     \<lparr>ts_may_filter = ts_may_filter prev,
      ts_try_apply = (\<lambda>item. try_bind (ts_try_apply prev item) (\<lambda>out.
         case out of None \<Rightarrow> Returned (Inr None) | Some v \<Rightarrow> bind_out (f v) (\<lambda>w. Returned (Inr (Some w))))),
      ts_try_apply_pure = (\<lambda>item. bind_res (ts_try_apply_pure prev item) (\<lambda>r.
         Inr (try_bind r (\<lambda>v. bind_out (f v) (\<lambda>w. Returned (Inr w))))))\<rparr>"

definition try_stage_filter :: "('i, 'o, 'e, 'p) fused_try_stage \<Rightarrow> ('o \<Rightarrow> ('p, bool) outcome) \<Rightarrow> ('i, 'o, 'e, 'p) fused_try_stage" where
  "try_stage_filter prev f =
     (let app = (\<lambda>item. try_bind (ts_try_apply prev item) (\<lambda>out.
         case out of
           None \<Rightarrow> Returned (Inr None)
         | Some v \<Rightarrow> bind_out (f v) (\<lambda>keep. Returned (Inr (if keep then Some v else None)))))
      in \<lparr>ts_may_filter = True, ts_try_apply = app, ts_try_apply_pure = default_try_apply_pure app\<rparr>)"

definition try_stage_try_map :: "('i, 'm, 'e, 'p) fused_try_stage \<Rightarrow> ('m \<Rightarrow> ('p, 'e + 'o) outcome) \<Rightarrow> ('i, 'o, 'e, 'p) fused_try_stage" where
  "try_stage_try_map prev f =
     \<lparr>ts_may_filter = ts_may_filter prev,
      ts_try_apply = (\<lambda>item. try_bind (ts_try_apply prev item) (\<lambda>out.
         case out of None \<Rightarrow> Returned (Inr None) | Some v \<Rightarrow> try_bind (f v) (\<lambda>w. Returned (Inr (Some w))))),
      ts_try_apply_pure = (\<lambda>item. bind_res (ts_try_apply_pure prev item) (\<lambda>r. Inr (try_bind r f)))\<rparr>"

definition infallible_chain :: "('i, 'o, 'p) fused_stage \<Rightarrow> ('i, 'o, 'e, 'p) fused_try_stage" where
  "infallible_chain S =
     \<lparr>ts_may_filter = fs_may_filter S,
      ts_try_apply = (\<lambda>item. bind_out (fs_apply S item) (\<lambda>out. Returned (Inr out))),
      ts_try_apply_pure = (\<lambda>item. bind_res (fs_apply_pure S item) (\<lambda>r. Inr (bind_out r (\<lambda>v. Returned (Inr v)))))\<rparr>"

definition try_stage_map_err :: "('i, 'o, 'e, 'p) fused_try_stage \<Rightarrow> ('e \<Rightarrow> ('p, 'e2) outcome) \<Rightarrow> ('i, 'o, 'e2, 'p) fused_try_stage" where
  "try_stage_map_err prev f =
     \<lparr>ts_may_filter = ts_may_filter prev,
      ts_try_apply = (\<lambda>item. bind_out (ts_try_apply prev item) (\<lambda>r.
         case r of Inr v \<Rightarrow> Returned (Inr v) | Inl e \<Rightarrow> bind_out (f e) (\<lambda>e'. Returned (Inl e')))),
      ts_try_apply_pure = (\<lambda>item. bind_res (ts_try_apply_pure prev item) (\<lambda>r. Inr (bind_out r (\<lambda>r.
         case r of Inr v \<Rightarrow> Returned (Inr v) | Inl e \<Rightarrow> bind_out (f e) (\<lambda>e'. Returned (Inl e'))))))\<rparr>"

definition fused_try_op :: "('i, 'o, 'e, 'p) fused_try_stage \<Rightarrow> 'i \<Rightarrow> ('p, 'e + 'o) outcome res" where
  "fused_try_op S item = ts_try_apply_pure S item"

definition try_stage_law :: "('i, 'o, 'e, 'p) fused_try_stage \<Rightarrow> bool" where
  "try_stage_law S \<longleftrightarrow> (\<not> ts_may_filter S \<longrightarrow>
     (\<forall>x. \<exists>r. ts_try_apply_pure S x = Inr r \<and> ts_try_apply S x = try_bind r (\<lambda>y. Returned (Inr (Some y)))))"

lemma try_bind_simps [simp]:
  "try_bind (Returned (Inr x)) k = k x" "try_bind (Returned (Inl e)) k = Returned (Inl e)" "try_bind (Unwound p) k = Unwound p"
  by (simp_all add: try_bind_def)

lemma try_cases:
  obtains x where "r = Returned (Inr x)" | e where "r = Returned (Inl e)" | p where "r = Unwound p"
proof (cases r)
  case (Returned v)
  then show ?thesis using that by (cases v) auto
qed (use that in auto)

lemma try_stage_law_identity [intro, simp]: "try_stage_law try_stage_identity"
  by (simp add: try_stage_law_def try_stage_identity_def)

lemma try_stage_law_filter [intro, simp]: "try_stage_law (try_stage_filter S f)"
  by (simp add: try_stage_law_def try_stage_filter_def Let_def)

text \<open>The four stages that pass a pure path on, one argument: the pure path of the rest determines the checked one.\<close>

lemma try_stage_law_lift:
  assumes "try_stage_law S" and "ts_may_filter T = ts_may_filter S"
    and "\<And>x r. ts_try_apply_pure S x = Inr r \<Longrightarrow> ts_try_apply S x = try_bind r (\<lambda>y. Returned (Inr (Some y))) \<Longrightarrow>
       \<exists>r'. ts_try_apply_pure T x = Inr r' \<and> ts_try_apply T x = try_bind r' (\<lambda>y. Returned (Inr (Some y)))"
  shows "try_stage_law T"
  using assms unfolding try_stage_law_def by metis

lemma try_stage_law_map [intro]:
  assumes "try_stage_law S"
  shows "try_stage_law (try_stage_map S f)"
proof (rule try_stage_law_lift [OF assms])
  fix x r
  assume "ts_try_apply_pure S x = Inr r" "ts_try_apply S x = try_bind r (\<lambda>y. Returned (Inr (Some y)))"
  then show "\<exists>r'. ts_try_apply_pure (try_stage_map S f) x = Inr r' \<and>
      ts_try_apply (try_stage_map S f) x = try_bind r' (\<lambda>y. Returned (Inr (Some y)))"
    by (cases r rule: try_cases) (auto simp: try_stage_map_def try_bind_def bind_out_assoc)
qed (simp add: try_stage_map_def)

lemma try_stage_law_try_map [intro]:
  assumes "try_stage_law S"
  shows "try_stage_law (try_stage_try_map S f)"
proof (rule try_stage_law_lift [OF assms])
  fix x r
  assume "ts_try_apply_pure S x = Inr r" "ts_try_apply S x = try_bind r (\<lambda>y. Returned (Inr (Some y)))"
  then show "\<exists>r'. ts_try_apply_pure (try_stage_try_map S f) x = Inr r' \<and>
      ts_try_apply (try_stage_try_map S f) x = try_bind r' (\<lambda>y. Returned (Inr (Some y)))"
    by (cases r rule: try_cases) (auto simp: try_stage_try_map_def)
qed (simp add: try_stage_try_map_def)

lemma try_stage_law_map_err [intro]:
  assumes "try_stage_law S"
  shows "try_stage_law (try_stage_map_err S f)"
proof (rule try_stage_law_lift [OF assms])
  fix x r
  assume r: "ts_try_apply_pure S x = Inr r" "ts_try_apply S x = try_bind r (\<lambda>y. Returned (Inr (Some y)))"
  show "\<exists>r'. ts_try_apply_pure (try_stage_map_err S f) x = Inr r' \<and>
      ts_try_apply (try_stage_map_err S f) x = try_bind r' (\<lambda>y. Returned (Inr (Some y)))"
  proof (cases r rule: try_cases)
    case (2 e)
    with r show ?thesis by (cases "f e") (auto simp: try_stage_map_err_def)
  qed (use r in \<open>auto simp: try_stage_map_err_def\<close>)
qed (simp add: try_stage_map_err_def)

lemma try_stage_law_infallible [intro]:
  assumes "stage_law S"
  shows "try_stage_law (infallible_chain S)"
  unfolding try_stage_law_def
proof (intro impI allI)
  fix x
  assume "\<not> ts_may_filter (infallible_chain S)"
  with assms obtain r where "fs_apply_pure S x = Inr r" "fs_apply S x = bind_out r (\<lambda>y. Returned (Some y))"
    by (force simp: stage_law_def infallible_chain_def)
  then show "\<exists>r. ts_try_apply_pure (infallible_chain S) x = Inr r \<and>
      ts_try_apply (infallible_chain S) x = try_bind r (\<lambda>y. Returned (Inr (Some y)))"
    by (cases r) (auto simp: infallible_chain_def)
qed

end
