(* ===== verification/Fused_Collect.thy ===== *)
theory Fused_Collect
  imports Fused_Strategy Fused_Stage
begin

text \<open>
  The collecting terminals over an owned batch, \<^verbatim>\<open>builder/typed/fused.rs\<close>: the leaves that move
  each input item through the operation into its output slot, the two strategies built on them, and
  the drivers that turn the output buffer into the result vector.
\<close>

section \<open>Streaming stores\<close>

datatype nt_policy = NtOff | NtOn | NtAuto

definition nt_store_policy :: "string option \<Rightarrow> nt_policy res" where
  "nt_store_policy env =
     (case env of
        None \<Rightarrow> Inr NtAuto
      | Some v \<Rightarrow> if v = ''0'' then Inr NtOff else if v = ''1'' then Inr NtOn else Inl ExplicitPanic)"

definition NT_AUTO_MIN_BYTES :: nat where
  "NT_AUTO_MIN_BYTES = 8 * 2 ^ 20"

record layout =
  lay_size :: nat
  lay_align :: nat

definition nt_store_enabled :: "string option \<Rightarrow> layout \<Rightarrow> nat \<Rightarrow> bool res" where
  "nt_store_enabled env lay output_items =
     (if \<not> (lay_size lay = 8 \<and> 8 \<le> lay_align lay) then Inr False
      else bind_res (nt_store_policy env) (\<lambda>policy. Inr (case policy of
             NtOff \<Rightarrow> False
           | NtOn \<Rightarrow> True
           | NtAuto \<Rightarrow> saturating_mul_u64 output_items (lay_size lay) \<ge> NT_AUTO_MIN_BYTES)))"

text \<open>A streaming store moves the value into the slot like a plain write; only the ordering differs.\<close>

definition nt_store :: "'b slots \<Rightarrow> nat \<Rightarrow> 'b \<Rightarrow> 'b slots res" where
  "nt_store sl i x = slot_write sl i x"

section \<open>Leaves\<close>

type_synonym 'b store = "'b slots \<Rightarrow> nat \<Rightarrow> 'b \<Rightarrow> 'b slots res"

definition index_body ::
    "'b store \<Rightarrow> ('a \<Rightarrow> ('p, 'b) outcome res) \<Rightarrow> nat \<Rightarrow> nat \<Rightarrow> nat \<Rightarrow> unit \<Rightarrow> (('a, 'b) fused_mem, 'p, 'f + unit) closure" where
  "index_body store apply in_ptr out_ptr i acc m =
     bind_res (slot_read (fm_in m) (in_ptr + i)) (\<lambda>(item, inp).
     bind_res (apply item) (\<lambda>r. case r of
        Returned out \<Rightarrow>
          bind_res (store (fm_out m) (out_ptr + i) out) (\<lambda>outp. Inr (Returned (Inr ()), m\<lparr>fm_in := inp, fm_out := outp\<rparr>))
      | Unwound p \<Rightarrow> Inr (Unwound p, m\<lparr>fm_in := inp\<rparr>)))"

definition par_index_leaf ::
    "('a \<Rightarrow> ('p, 'b) outcome res) \<Rightarrow> bool \<Rightarrow> nat \<times> nat \<Rightarrow> nat \<times> nat \<Rightarrow> (('a, 'b) fused_mem, 'p, 'f + unit) closure" where
  "par_index_leaf apply nt input output m =
     (if snd input \<noteq> snd output then Inl ExplicitPanic
      else
        let clean = (\<lambda>w. leaf_clean True True
               \<lparr>lc_in = fst input, lc_out = fst output, lc_n = snd input, lc_written = w\<rparr>) in
        if nt then leaf_loop clean (index_body nt_store apply (fst input) (fst output)) 0 (snd input) () m
        else leaf_loop clean (index_body slot_write apply (fst input) (fst output)) 0 (snd input) () m)"

definition index_try_body ::
    "('a \<Rightarrow> ('p, 'e + 'b) outcome res) \<Rightarrow> nat \<Rightarrow> nat \<Rightarrow> nat \<Rightarrow> unit \<Rightarrow> (('a, 'b) fused_mem, 'p, 'e + unit) closure" where
  "index_try_body try_apply in_ptr out_ptr i acc m =
     bind_res (slot_read (fm_in m) (in_ptr + i)) (\<lambda>(item, inp).
     bind_res (try_apply item) (\<lambda>r. case r of
        Returned (Inr out) \<Rightarrow>
          bind_res (slot_write (fm_out m) (out_ptr + i) out) (\<lambda>outp. Inr (Returned (Inr ()), m\<lparr>fm_in := inp, fm_out := outp\<rparr>))
      | Returned (Inl e) \<Rightarrow> Inr (Returned (Inl e), m\<lparr>fm_in := inp\<rparr>)
      | Unwound p \<Rightarrow> Inr (Unwound p, m\<lparr>fm_in := inp\<rparr>)))"

definition par_index_try_leaf ::
    "('a \<Rightarrow> ('p, 'e + 'b) outcome res) \<Rightarrow> nat \<times> nat \<Rightarrow> nat \<times> nat \<Rightarrow> (('a, 'b) fused_mem, 'p, 'e + unit) closure" where
  "par_index_try_leaf try_apply input output m =
     (if snd input \<noteq> snd output then Inl ExplicitPanic
      else leaf_loop (\<lambda>w. leaf_clean True True
             \<lparr>lc_in = fst input, lc_out = fst output, lc_n = snd input, lc_written = w\<rparr>)
           (index_try_body try_apply (fst input) (fst output)) 0 (snd input) () m)"

section \<open>Strategies\<close>

definition collect_leaf :: "('a \<Rightarrow> ('p, 'b) outcome res) \<Rightarrow> bool \<Rightarrow> nat \<Rightarrow> nat \<Rightarrow> (('a, 'b) fused_mem, 'p, 'p + unit) closure" where
  "collect_leaf apply nt start stop m =
     bind_res (as_slice (fm_in m) start stop) (\<lambda>in_slice.
     bind_res (as_slice (fm_out m) start stop) (\<lambda>out_slice.
     par_index_leaf apply nt in_slice out_slice m))"

definition try_leaf :: "('a \<Rightarrow> ('p, 'e + 'b) outcome res) \<Rightarrow> nat \<Rightarrow> nat \<Rightarrow> (('a, 'b) fused_mem, 'p, ('e, 'p) try_failure + unit) closure" where
  "try_leaf try_apply start stop m =
     bind_res (as_slice (fm_in m) start stop) (\<lambda>in_slice.
     bind_res (as_slice (fm_out m) start stop) (\<lambda>out_slice.
     map_err TryError (par_index_try_leaf try_apply in_slice out_slice) m))"

definition drop_output :: "nat \<Rightarrow> nat \<Rightarrow> ('a, 'b) fused_mem \<Rightarrow> ('a, 'b) fused_mem res" where
  "drop_output start stop m = bind_res (drop_range (fm_out m) start stop) (\<lambda>outp. Inr (m\<lparr>fm_out := outp\<rparr>))"

definition collect_strategy ::
    "(nat \<Rightarrow> nat \<Rightarrow> bool) \<Rightarrow> ('a \<Rightarrow> ('p, 'b) outcome res) \<Rightarrow> bool \<Rightarrow> (('a, 'b) fused_mem, 'p, 'p) hybrid_ops" where
  "collect_strategy stolen apply nt = tree_ops stolen (\<lambda>p. p) (collect_leaf apply nt) drop_output"

definition try_strategy ::
    "(nat \<Rightarrow> nat \<Rightarrow> bool) \<Rightarrow> ('a \<Rightarrow> ('p, 'e + 'b) outcome res) \<Rightarrow> (('a, 'b) fused_mem, 'p, ('e, 'p) try_failure) hybrid_ops" where
  "try_strategy stolen try_apply = tree_ops stolen TryPanic (try_leaf try_apply) drop_output"

section \<open>Drivers\<close>

text \<open>
  The environment of a run: where the caller is, which halves are stolen, in which order the chunks
  run, and the environment variables.
\<close>

record run_env =
  re_on_pool :: bool
  re_mode :: onpool_hybrid
  re_order :: "task list"
  re_stolen :: "nat \<Rightarrow> nat \<Rightarrow> bool"
  re_nt :: "string option"
  re_layout :: layout

definition resume_panic :: "('e, 'p) erased_failure \<Rightarrow> ('p, 'r) outcome res" where
  "resume_panic f = (case f of PanicFailure p \<Rightarrow> Inr (Unwound p) | OpFailure _ \<Rightarrow> Inl Unreachable)"

text \<open>A driver also returns the slots of the buffers it frees, which a leak would leave occupied.\<close>

definition par_index_collect ::
    "run_env \<Rightarrow> 'a vec \<Rightarrow> ('a \<Rightarrow> ('p, 'b) outcome res) \<Rightarrow> split_plan \<Rightarrow> nat \<Rightarrow>
     (('p, 'b vec) outcome \<times> 'a option list \<times> 'b option list) res" where
  "par_index_collect env items apply plan num_threads =
     (let n = length (v_items items) in
      if n = 0 then Inl ExplicitPanic
      else
        bind_res (nt_store_enabled (re_nt env) (re_layout env) n) (\<lambda>nt.
        bind_res (hybrid_dispatch (re_on_pool env) (re_mode env) (re_order env)
            (erased_strategy (PanicFailure :: 'p \<Rightarrow> ('p, 'p) erased_failure) (collect_strategy (re_stolen env) apply nt)) n plan num_threads
            \<lparr>fm_in = slots_from_vec items, fm_out = slots_uninit n\<rparr>) (\<lambda>(r, m).
        case r of
          Unwound p \<Rightarrow> Inr (Unwound p, sl_buf (fm_in m), sl_buf (fm_out m))
        | Returned (Inl f) \<Rightarrow> bind_res (resume_panic f) (\<lambda>u. Inr (u, sl_buf (fm_in m), sl_buf (fm_out m)))
        | Returned (Inr _) \<Rightarrow> bind_res (into_vec (fm_out m)) (\<lambda>v. Inr (Returned v, sl_buf (fm_in m), [])))))"

definition par_index_try_collect ::
    "run_env \<Rightarrow> 'a vec \<Rightarrow> ('a \<Rightarrow> ('p, 'e + 'b) outcome res) \<Rightarrow> split_plan \<Rightarrow> nat \<Rightarrow>
     (('p, 'e + 'b vec) outcome \<times> 'a option list \<times> 'b option list) res" where
  "par_index_try_collect env items try_apply plan num_threads =
     (let n = length (v_items items) in
      if n = 0 then Inl ExplicitPanic
      else
        bind_res (hybrid_dispatch (re_on_pool env) (re_mode env) (re_order env)
            (erased_strategy into_erased (try_strategy (re_stolen env) try_apply)) n plan num_threads
            \<lparr>fm_in = slots_from_vec items, fm_out = slots_uninit n\<rparr>) (\<lambda>(r, m).
        case r of
          Unwound p \<Rightarrow> Inr (Unwound p, sl_buf (fm_in m), sl_buf (fm_out m))
        | Returned (Inl (OpFailure e)) \<Rightarrow> Inr (Returned (Inl e), sl_buf (fm_in m), sl_buf (fm_out m))
        | Returned (Inl (PanicFailure p)) \<Rightarrow> Inr (Unwound p, sl_buf (fm_in m), sl_buf (fm_out m))
        | Returned (Inr _) \<Rightarrow> bind_res (into_vec (fm_out m)) (\<lambda>v. Inr (Returned (Inr v), sl_buf (fm_in m), []))))"

section \<open>The leaves keep the tree contract\<close>

definition item_verdict :: "('a \<Rightarrow> ('p, 'f + 'b) outcome res) \<Rightarrow> 'a list \<Rightarrow> nat \<Rightarrow> ('p, 'f + unit) outcome" where
  "item_verdict g xs i =
     (case g (xs ! i) of
        Inr (Returned (Inl e)) \<Rightarrow> Returned (Inl e)
      | Inr (Unwound p) \<Rightarrow> Unwound p
      | _ \<Rightarrow> Returned (Inr ()))"

definition item_output :: "('a \<Rightarrow> ('p, 'f + 'b) outcome res) \<Rightarrow> 'a list \<Rightarrow> nat \<Rightarrow> 'b" where
  "item_output g xs i = (case g (xs ! i) of Inr (Returned (Inr y)) \<Rightarrow> y)"

definition never_faults :: "('a \<Rightarrow> 'b res) \<Rightarrow> 'a list \<Rightarrow> bool" where
  "never_faults g xs \<longleftrightarrow> (\<forall>x \<in> set xs. \<exists>r. g x = Inr r)"

definition owned_inv :: "'a list \<Rightarrow> ('a \<Rightarrow> ('p, 'f + 'b) outcome res) \<Rightarrow> (nat \<Rightarrow> cell) \<Rightarrow> ('a, 'b) fused_mem \<Rightarrow> bool" where
  "owned_inv xs g \<sigma> m \<longleftrightarrow> never_faults g xs \<and> in_holds xs \<sigma> (fm_in m) \<and>
     out_holds (length xs) (item_output g xs) \<sigma> (fm_out m)"

definition lift_op :: "('a \<Rightarrow> ('p, 'b) outcome res) \<Rightarrow> 'a \<Rightarrow> ('p, 'p + 'b) outcome res" where
  "lift_op f x = bind_res (f x) (\<lambda>r. Inr (bind_out r (\<lambda>y. Returned (Inr y))))"

definition relabel :: "('e \<Rightarrow> 'f) \<Rightarrow> ('a \<Rightarrow> ('p, 'e + 'b) outcome res) \<Rightarrow> 'a \<Rightarrow> ('p, 'f + 'b) outcome res" where
  "relabel h f x = bind_res (f x) (\<lambda>r. Inr (bind_out r (\<lambda>v. Returned (case v of Inl e \<Rightarrow> Inl (h e) | Inr y \<Rightarrow> Inr y))))"

abbreviation try_op :: "('a \<Rightarrow> ('p, 'e + 'b) outcome res) \<Rightarrow> 'a \<Rightarrow> ('p, ('e, 'p) try_failure + 'b) outcome res" where
  "try_op f \<equiv> relabel TryError f"

lemma index_body_lift: "index_body slot_write f a b = index_try_body (lift_op f) a b"
  by (intro ext) (simp add: index_body_def index_try_body_def lift_op_def bind_res_def split: sum.splits outcome.splits prod.splits)

lemma map_err_body: "map_err h (index_try_body f a b i acc) = index_try_body (relabel h f) a b i acc"
  by (intro ext)
    (auto simp: map_err_def index_try_body_def relabel_def bind_res_def split: sum.splits outcome.splits prod.splits)

lemma map_err_loop:
  "map_err h (leaf_loop clean body w k acc) s = leaf_loop clean (\<lambda>i acc. map_err h (body i acc)) w k acc s"
proof (induction k arbitrary: w acc s)
  case (Suc k)
  show ?case
  proof (cases "body w acc s")
    case (Inr v)
    obtain r s' where v: "v = (r, s')" by (cases v)
    show ?thesis
      using Suc.IH [of "w + 1" _ s'] Inr v
      by (cases r rule: try_cases; cases "clean w s'") (auto simp: map_err_def)
  qed (simp add: map_err_def)
qed (simp add: map_err_def)

lemma owned_body_law:
  assumes "b \<le> length xs"
  shows "body_law (owned_inv xs g) (\<lambda>i _. item_verdict g xs i) (index_try_body g a a) a b"
  unfolding body_law_def
proof (intro allI impI)
  fix i acc \<sigma> and m :: "('a, 'b) fused_mem"
  assume i: "a \<le> i" "i < b" and m: "owned_inv xs g \<sigma> m" and rdy: "\<sigma> i = Ready"
  with assms have ix: "i < length xs" by simp
  from m ix obtain r where r: "g (xs ! i) = Inr r"
    unfolding owned_inv_def never_faults_def by (meson nth_mem)
  from m ix rdy in_read [of xs \<sigma> "fm_in m" i] obtain inp where
    inp: "slot_read (fm_in m) i = Inr (xs ! i, inp)" "in_holds xs (\<sigma>(i := Gone)) inp"
    by (auto simp: owned_inv_def)
  have fin: "in_holds xs (\<sigma>(i := Finished)) inp" by (rule in_holds_cong [OF inp(2)]) simp
  from m ix out_write [of "length xs" "item_output g xs" \<sigma> "fm_out m" i] obtain outp where
    outp: "slot_write (fm_out m) i (item_output g xs i) = Inr outp" "out_holds (length xs) (item_output g xs) (\<sigma>(i := Finished)) outp"
    by (auto simp: owned_inv_def)
  from m have "out_holds (length xs) (item_output g xs) \<sigma> (fm_out m)" by (simp add: owned_inv_def)
  from out_holds_cong [OF this, of "\<sigma>(i := Gone)"] rdy
  have gone: "out_holds (length xs) (item_output g xs) (\<sigma>(i := Gone)) (fm_out m)" by simp
  show "\<exists>m'. index_try_body g a a (i - a) acc m = Inr (item_verdict g xs i, m') \<and>
      owned_inv xs g (\<sigma>(i := (if is_ok (item_verdict g xs i) then Finished else Gone))) m'"
    using i inp fin outp gone r m
    by (cases r rule: try_cases)
      (auto simp: index_try_body_def item_verdict_def item_output_def owned_inv_def)
qed

lemma owned_clean_law:
  assumes "b \<le> length xs"
  shows "clean_law (owned_inv xs g) (\<lambda>w. leaf_clean True True \<lparr>lc_in = a, lc_out = a, lc_n = b - a, lc_written = w\<rparr>) a b"
  unfolding clean_law_def
proof (intro allI impI)
  fix i \<sigma> and m :: "('a, 'b) fused_mem"
  assume i: "a \<le> i" "i < b" and m: "owned_inv xs g (\<sigma>(i := Gone)) m"
    and before: "\<forall>j. a \<le> j \<longrightarrow> j < i \<longrightarrow> \<sigma> j = Finished" and rest: "\<forall>j. i < j \<longrightarrow> j < b \<longrightarrow> \<sigma> j = Ready"
  from m i assms before out_drop [of "length xs" "item_output g xs" "\<sigma>(i := Gone)" "fm_out m" a i Gone] obtain outp where
    outp: "drop_each [a..<i] (fm_out m) = Inr outp" "out_holds (length xs) (item_output g xs) (mark a i Gone (\<sigma>(i := Gone))) outp"
    by (auto simp: owned_inv_def)
  from m i assms rest in_drop [of xs "\<sigma>(i := Gone)" "fm_in m" "Suc i" b] obtain inp where
    inp: "drop_each [Suc i..<b] (fm_in m) = Inr inp" "in_holds xs (mark (Suc i) b Gone (\<sigma>(i := Gone))) inp"
    by (auto simp: owned_inv_def)
  have "out_holds (length xs) (item_output g xs) (mark a b Gone \<sigma>) outp"
    using i rest by (intro out_holds_cong [OF outp(2)]) (auto simp: mark_def)
  moreover have "in_holds xs (mark a b Gone \<sigma>) inp"
    using i before by (intro in_holds_cong [OF inp(2)]) (auto simp: mark_def)
  moreover have "map ((+) a) [0..<i - a] = [a..<i]" "map ((+) a) [i - a + 1..<b - a] = [Suc i..<b]"
    using i by (simp_all add: map_plus_upt)
  ultimately show "\<exists>m'. leaf_clean True True \<lparr>lc_in = a, lc_out = a, lc_n = b - a, lc_written = i - a\<rparr> m = Inr m' \<and>
      owned_inv xs g (mark a b Gone \<sigma>) m'"
    using outp(1) inp(1) m by (simp add: leaf_clean_def owned_inv_def)
qed

lemma owned_leaf_law:
  assumes "a \<le> b" and "b \<le> length xs" and "owned_inv xs g \<sigma> m" and "\<And>i. a \<le> i \<Longrightarrow> i < b \<Longrightarrow> \<sigma> i = Ready"
  shows "\<exists>m'. leaf_loop (\<lambda>w. leaf_clean True True \<lparr>lc_in = a, lc_out = a, lc_n = b - a, lc_written = w\<rparr>)
       (index_try_body g a a) 0 (b - a) () m = Inr (seq_run (item_verdict g xs) a b, m') \<and>
     owned_inv xs g (mark a b (settled (seq_run (item_verdict g xs) a b)) \<sigma>) m'"
  by (rule leaf_loop_range [OF owned_body_law [OF assms(2)] owned_clean_law [OF assms(2)] assms(1,3,4)])

lemma owned_slices:
  assumes "owned_inv xs g \<sigma> m" and "a \<le> b" and "b \<le> length xs"
  shows "as_slice (fm_in m) a b = Inr (a, b - a)" and "as_slice (fm_out m) a b = Inr (a, b - a)"
  using assms by (auto simp: as_slice_def range_ok_def owned_inv_def in_holds_def out_holds_def)

lemma owned_drop_law:
  assumes "a \<le> b" and "b \<le> length xs" and "owned_inv xs g \<sigma> m" and "\<And>i. a \<le> i \<Longrightarrow> i < b \<Longrightarrow> \<sigma> i = Finished"
  shows "\<exists>m'. drop_output a b m = Inr m' \<and> owned_inv xs g (mark a b Gone \<sigma>) m'"
proof -
  from assms out_drop [of "length xs" "item_output g xs" \<sigma> "fm_out m" a b Gone] obtain outp where
    outp: "drop_each [a..<b] (fm_out m) = Inr outp" "out_holds (length xs) (item_output g xs) (mark a b Gone \<sigma>) outp"
    by (auto simp: owned_inv_def)
  moreover have "\<sigma> i = Ready \<longleftrightarrow> mark a b Gone \<sigma> i = Ready" for i using assms(4) [of i] by (auto simp: mark_def)
  with assms(3) have "in_holds xs (mark a b Gone \<sigma>) (fm_in m)" by (auto simp: owned_inv_def elim: in_holds_cong)
  moreover from assms have "range_ok (fm_out m) a b" by (auto simp: range_ok_def owned_inv_def out_holds_def)
  ultimately show ?thesis using assms(3) by (auto simp: drop_output_def drop_range_def owned_inv_def)
qed

lemma nt_store_write: "nt_store = slot_write"
  by (intro ext) (simp add: nt_store_def)

lemma collect_leaf_law:
  assumes "a \<le> b" and "b \<le> length xs" and "owned_inv xs (lift_op f) \<sigma> m" and "\<And>i. a \<le> i \<Longrightarrow> i < b \<Longrightarrow> \<sigma> i = Ready"
  shows "\<exists>m'. collect_leaf f nt a b m = Inr (seq_run (item_verdict (lift_op f) xs) a b, m') \<and>
     owned_inv xs (lift_op f) (mark a b (settled (seq_run (item_verdict (lift_op f) xs) a b)) \<sigma>) m'"
proof -
  from owned_slices [OF assms(3,1,2)] have eq: "collect_leaf f nt a b m =
      leaf_loop (\<lambda>w. leaf_clean True True \<lparr>lc_in = a, lc_out = a, lc_n = b - a, lc_written = w\<rparr>)
        (index_try_body (lift_op f) a a) 0 (b - a) () m"
    by (simp add: collect_leaf_def par_index_leaf_def index_body_lift nt_store_write Let_def)
  show ?thesis unfolding eq by (rule owned_leaf_law [OF assms(1-3)]) (rule assms(4))
qed

lemma try_leaf_law:
  assumes "a \<le> b" and "b \<le> length xs" and "owned_inv xs (try_op f) \<sigma> m" and "\<And>i. a \<le> i \<Longrightarrow> i < b \<Longrightarrow> \<sigma> i = Ready"
  shows "\<exists>m'. try_leaf f a b m = Inr (seq_run (item_verdict (try_op f) xs) a b, m') \<and>
     owned_inv xs (try_op f) (mark a b (settled (seq_run (item_verdict (try_op f) xs) a b)) \<sigma>) m'"
proof -
  have "par_index_try_leaf f (a, b - a) (a, b - a) = leaf_loop (\<lambda>w. leaf_clean True True \<lparr>lc_in = a, lc_out = a, lc_n = b - a, lc_written = w\<rparr>)
       (index_try_body f a a) 0 (b - a) ()"
    by (intro ext) (simp add: par_index_try_leaf_def)
  with owned_slices [OF assms(3,1,2)] have eq: "try_leaf f a b m =
      leaf_loop (\<lambda>w. leaf_clean True True \<lparr>lc_in = a, lc_out = a, lc_n = b - a, lc_written = w\<rparr>)
        (index_try_body (try_op f) a a) 0 (b - a) () m"
    by (simp add: try_leaf_def map_err_loop map_err_body)
  show ?thesis unfolding eq by (rule owned_leaf_law [OF assms(1-3)]) (rule assms(4))
qed

interpretation collecting: erased_tree "owned_inv xs (lift_op f)" "length xs" "item_verdict (lift_op f) xs"
    "collect_leaf f nt" drop_output stolen "\<lambda>p. p" PanicFailure for xs f nt stolen
  by unfold_locales (simp_all add: collect_leaf_law owned_drop_law)

interpretation trying: erased_tree "owned_inv xs (try_op f)" "length xs" "item_verdict (try_op f) xs"
    "try_leaf f" drop_output stolen TryPanic into_erased for xs f stolen
  by unfold_locales (simp_all add: try_leaf_law owned_drop_law)

lemma owned_start:
  assumes "never_faults g (v_items v)"
  shows "owned_inv (v_items v) g (\<lambda>_. Ready) \<lparr>fm_in = slots_from_vec v, fm_out = slots_uninit (length (v_items v))\<rparr>"
  using assms by (simp add: owned_inv_def in_holds_from_vec out_holds_uninit)

lemma owned_end:
  assumes "owned_inv xs g (mark 0 (length xs) c \<sigma>) m"
  shows "c \<noteq> Ready \<Longrightarrow> set (sl_buf (fm_in m)) \<subseteq> {None}" and "c = Gone \<Longrightarrow> set (sl_buf (fm_out m)) \<subseteq> {None}"
    and "c = Finished \<Longrightarrow> into_vec (fm_out m) = Inr \<lparr>v_items = map (item_output g xs) [0..<length xs], v_cap = length xs\<rparr>"
  using assms by (auto simp: owned_inv_def intro!: out_holds_into_vec in_holds_empty out_holds_empty
      dest: in_holds_empty out_holds_empty elim: subsetD)

end
