(* ===== verification/Fused_Filter.thy ===== *)
theory Fused_Filter
  imports Fused_Tree Fused_Stage
begin

text \<open>
  The terminals whose tree nodes pass values up, \<^verbatim>\<open>builder/typed/fused.rs\<close>: each leaf consumes its
  range of the input into a value of its own and a node merges the values of its halves. The recursion
  is written out per terminal in the source; its common shape is one function here, with the contract
  of a leaf and a merge as a locale. The filtering collects are its first two instances.
\<close>

section \<open>The recursion\<close>

fun par_value_rec ::
    "(nat \<Rightarrow> nat \<Rightarrow> bool) \<Rightarrow> (nat \<Rightarrow> nat \<Rightarrow> ('s, 'p, 'v) closure) \<Rightarrow> ('v \<Rightarrow> 'v \<Rightarrow> ('p, 'v) outcome) \<Rightarrow>
     nat \<Rightarrow> nat \<Rightarrow> nat \<Rightarrow> ('s, 'p, 'v) closure" where
  "par_value_rec stolen leaf merge 0 start stop s = leaf start stop s"
| "par_value_rec stolen leaf merge (Suc splits) start stop s =
     (if stop - start \<le> 1 then leaf start stop s
      else let mid = start + (stop - start) div 2 in
        bind_res (join_on (stolen start stop)
           (par_value_rec stolen leaf merge splits start mid) (par_value_rec stolen leaf merge splits mid stop) s)
          (\<lambda>(r, s'). Inr (bind_out r (\<lambda>(l, r). merge l r), s')))"

text \<open>
  \<open>I\<close> says which items of the input are left, \<open>seq_value\<close> is what a range yields when run in order,
  and \<open>tame\<close> restricts the ranges for which merging two halves gives the value of the whole.
\<close>

locale value_tree =
  fixes I :: "(nat \<Rightarrow> cell) \<Rightarrow> 's \<Rightarrow> bool"
    and n :: nat
    and leaf :: "nat \<Rightarrow> nat \<Rightarrow> ('s, 'p, 'v) closure"
    and merge :: "'v \<Rightarrow> 'v \<Rightarrow> ('p, 'v) outcome"
    and seq_value :: "nat \<Rightarrow> nat \<Rightarrow> ('p, 'v) outcome"
    and tame :: "nat \<Rightarrow> nat \<Rightarrow> bool"
  assumes leaf_law: "a \<le> b \<Longrightarrow> b \<le> n \<Longrightarrow> I \<sigma> s \<Longrightarrow> (\<And>i. a \<le> i \<Longrightarrow> i < b \<Longrightarrow> \<sigma> i = Ready) \<Longrightarrow>
      \<exists>s'. leaf a b s = Inr (seq_value a b, s') \<and> I (mark a b Gone \<sigma>) s'"
    and merge_law: "a \<le> m \<Longrightarrow> m \<le> b \<Longrightarrow> b \<le> n \<Longrightarrow> tame a b \<Longrightarrow>
      bind_out (both (seq_value a m) (seq_value m b)) (\<lambda>(l, r). merge l r) = seq_value a b"
    and tame_sub: "tame a b \<Longrightarrow> a \<le> c \<Longrightarrow> d \<le> b \<Longrightarrow> tame c d"
begin

lemma par_value_rec_runs:
  assumes "a \<le> b" and "b \<le> n" and "I \<sigma> s" and "\<And>i. a \<le> i \<Longrightarrow> i < b \<Longrightarrow> \<sigma> i = Ready" and "tame a b"
  shows "\<exists>s'. par_value_rec stolen leaf merge splits a b s = Inr (seq_value a b, s') \<and> I (mark a b Gone \<sigma>) s'"
  using assms
proof (induction splits arbitrary: a b \<sigma> s)
  case (Suc splits)
  show ?case
  proof (cases "b - a \<le> 1")
    case False
    define m where "m = a + (b - a) div 2"
    with False have m: "a \<le> m" "m \<le> b" by auto
    from Suc.IH [of a m \<sigma> s] m Suc.prems obtain s1 where
      1: "par_value_rec stolen leaf merge splits a m s = Inr (seq_value a m, s1)" "I (mark a m Gone \<sigma>) s1"
      by (auto intro: tame_sub)
    from Suc.IH [of m b "mark a m Gone \<sigma>" s1] 1(2) m Suc.prems obtain s2 where
      2: "par_value_rec stolen leaf merge splits m b s1 = Inr (seq_value m b, s2)" "I (mark m b Gone (mark a m Gone \<sigma>)) s2"
      by (auto intro: tame_sub)
    from 1 2 False merge_law [OF m Suc.prems(2,5)] show ?thesis
      by (simp add: m_def [symmetric] Let_def join_on_both mark_join [OF m])
  qed (use Suc.prems leaf_law [OF Suc.prems(1-4)] in simp)
qed (use leaf_law in simp)

end

section \<open>Filtering leaves\<close>

text \<open>These leaves have no output buffer: the guard runs with its input half only.\<close>

definition filter_body ::
    "('a, 'o, 'p) fused_stage \<Rightarrow> nat \<Rightarrow> nat \<Rightarrow> 'o list \<Rightarrow> (('a, unit) fused_mem, 'p, unit + 'o list) closure" where
  "filter_body stages in_ptr i out m =
     bind_res (slot_read (fm_in m) (in_ptr + i)) (\<lambda>(item, inp).
     Inr (bind_out (fs_apply stages item) (\<lambda>o'. Returned (Inr (case o' of Some y \<Rightarrow> out @ [y] | None \<Rightarrow> out))),
          m\<lparr>fm_in := inp\<rparr>))"

definition input_guard :: "nat \<times> nat \<Rightarrow> nat \<Rightarrow> ('a, unit) fused_mem \<Rightarrow> ('a, unit) fused_mem res" where
  "input_guard input w = leaf_clean False True \<lparr>lc_in = fst input, lc_out = 0, lc_n = snd input, lc_written = w\<rparr>"

text \<open>The infallible leaves have no error to return: their loop ends with a value or unwinds.\<close>

definition no_error :: "('s, 'p, unit + 'r) closure \<Rightarrow> ('s, 'p, 'r) closure" where
  "no_error c s = bind_res (c s) (\<lambda>(r, s'). case r of
      Returned (Inr x) \<Rightarrow> Inr (Returned x, s') | Returned (Inl _) \<Rightarrow> Inl Unreachable | Unwound p \<Rightarrow> Inr (Unwound p, s'))"

definition filter_leaf :: "('a, 'o, 'p) fused_stage \<Rightarrow> nat \<times> nat \<Rightarrow> (('a, unit) fused_mem, 'p, 'o list) closure" where
  "filter_leaf stages input =
     no_error (leaf_loop (input_guard input) (filter_body stages (fst input)) 0 (snd input) [])"

definition filter_try_body ::
    "('a, 'o, 'e, 'p) fused_try_stage \<Rightarrow> nat \<Rightarrow> nat \<Rightarrow> 'o list \<Rightarrow> (('a, unit) fused_mem, 'p, 'e + 'o list) closure" where
  "filter_try_body stages in_ptr i out m =
     bind_res (slot_read (fm_in m) (in_ptr + i)) (\<lambda>(item, inp).
     Inr (try_bind (ts_try_apply stages item) (\<lambda>o'. Returned (Inr (case o' of Some y \<Rightarrow> out @ [y] | None \<Rightarrow> out))),
          m\<lparr>fm_in := inp\<rparr>))"

definition filter_try_leaf :: "('a, 'o, 'e, 'p) fused_try_stage \<Rightarrow> nat \<times> nat \<Rightarrow> (('a, unit) fused_mem, 'p, 'e + 'o list) closure" where
  "filter_try_leaf stages input =
     leaf_loop (input_guard input) (filter_try_body stages (fst input)) 0 (snd input) []"

definition on_slice :: "(nat \<times> nat \<Rightarrow> (('a, unit) fused_mem, 'p, 'v) closure) \<Rightarrow> nat \<Rightarrow> nat \<Rightarrow> (('a, unit) fused_mem, 'p, 'v) closure" where
  "on_slice leaf start stop m = bind_res (as_slice (fm_in m) start stop) (\<lambda>in_slice. leaf in_slice m)"

definition par_filter_rec ::
    "(nat \<Rightarrow> nat \<Rightarrow> bool) \<Rightarrow> ('a, 'o, 'p) fused_stage \<Rightarrow> nat \<Rightarrow> nat \<Rightarrow> nat \<Rightarrow> (('a, unit) fused_mem, 'p, 'o list) closure" where
  "par_filter_rec stolen stages = par_value_rec stolen (on_slice (filter_leaf stages)) (\<lambda>l r. Returned (l @ r))"

fun merge_try :: "('e + 'o list) \<Rightarrow> ('e + 'o list) \<Rightarrow> ('p, 'e + 'o list) outcome" where
  "merge_try (Inr l) (Inr r) = Returned (Inr (l @ r))"
| "merge_try (Inl e) _ = Returned (Inl e)"
| "merge_try (Inr _) (Inl e) = Returned (Inl e)"

definition par_filter_try_rec ::
    "(nat \<Rightarrow> nat \<Rightarrow> bool) \<Rightarrow> ('a, 'o, 'e, 'p) fused_try_stage \<Rightarrow> nat \<Rightarrow> nat \<Rightarrow> nat \<Rightarrow> (('a, unit) fused_mem, 'p, 'e + 'o list) closure" where
  "par_filter_try_rec stolen stages = par_value_rec stolen (on_slice (filter_try_leaf stages)) merge_try"

definition owned_input :: "'a vec \<Rightarrow> ('a, unit) fused_mem" where
  "owned_input items = \<lparr>fm_in = slots_from_vec items, fm_out = slots_uninit 0\<rparr>"

text \<open>The drivers, with the slots of the input buffer they free.\<close>

definition fused_filter_collect ::
    "(nat \<Rightarrow> nat \<Rightarrow> bool) \<Rightarrow> 'a vec \<Rightarrow> ('a, 'o, 'p) fused_stage \<Rightarrow> nat \<Rightarrow> (('p, 'o list) outcome \<times> 'a option list) res" where
  "fused_filter_collect stolen items stages splits =
     (let n = length (v_items items) in
      if n = 0 then Inl ExplicitPanic
      else bind_res (par_filter_rec stolen stages splits 0 n (owned_input items)) (\<lambda>(r, m). Inr (r, sl_buf (fm_in m))))"

definition fused_try_filter_collect ::
    "(nat \<Rightarrow> nat \<Rightarrow> bool) \<Rightarrow> 'a vec \<Rightarrow> ('a, 'o, 'e, 'p) fused_try_stage \<Rightarrow> nat \<Rightarrow> (('p, 'e + 'o list) outcome \<times> 'a option list) res" where
  "fused_try_filter_collect stolen items stages splits =
     (let n = length (v_items items) in
      if n = 0 then Inl ExplicitPanic
      else bind_res (par_filter_try_rec stolen stages splits 0 n (owned_input items)) (\<lambda>(r, m). Inr (r, sl_buf (fm_in m))))"

section \<open>Input-only leaves run their items in order\<close>

definition input_inv :: "'a list \<Rightarrow> (nat \<Rightarrow> cell) \<Rightarrow> ('a, unit) fused_mem \<Rightarrow> bool" where
  "input_inv xs \<sigma> m \<longleftrightarrow> in_holds xs \<sigma> (fm_in m)"

lemma input_inv_cong: "input_inv xs \<sigma> m \<Longrightarrow> (\<And>i. i < length xs \<Longrightarrow> \<sigma> i = Ready \<longleftrightarrow> \<tau> i = Ready) \<Longrightarrow> input_inv xs \<tau> m"
  unfolding input_inv_def by (rule in_holds_cong)

text \<open>A body that moves the item out and then computes from it.\<close>

definition input_body :: "('a \<Rightarrow> 'acc \<Rightarrow> ('p, 'e + 'acc) outcome) \<Rightarrow> nat \<Rightarrow> nat \<Rightarrow> 'acc \<Rightarrow> (('a, unit) fused_mem, 'p, 'e + 'acc) closure" where
  "input_body step in_ptr i acc m =
     bind_res (slot_read (fm_in m) (in_ptr + i)) (\<lambda>(item, inp). Inr (step item acc, m\<lparr>fm_in := inp\<rparr>))"

lemma input_body_law:
  assumes "b \<le> length xs"
  shows "body_law (input_inv xs) (\<lambda>i acc. step (xs ! i) acc) (input_body step a) a b"
  unfolding body_law_def
proof (intro allI impI)
  fix i acc \<sigma> and m :: "('a, unit) fused_mem"
  assume i: "a \<le> i" "i < b" and m: "input_inv xs \<sigma> m" and rdy: "\<sigma> i = Ready"
  define c where "c = (if is_ok (step (xs ! i) acc) then Finished else Gone)"
  then have "c \<noteq> Ready" by simp
  with m i rdy assms in_read [of xs \<sigma> "fm_in m" i c] obtain inp where
    "slot_read (fm_in m) i = Inr (xs ! i, inp)" "in_holds xs (\<sigma>(i := c)) inp" by (auto simp: input_inv_def)
  with i show "\<exists>m'. input_body step a (i - a) acc m = Inr (step (xs ! i) acc, m') \<and>
      input_inv xs (\<sigma>(i := (if is_ok (step (xs ! i) acc) then Finished else Gone))) m'"
    by (simp add: input_body_def input_inv_def c_def [symmetric])
qed

lemma input_clean_law:
  assumes "b \<le> length xs"
  shows "clean_law (input_inv xs) (input_guard (a, b - a)) a b"
  unfolding clean_law_def
proof (intro allI impI)
  fix i \<sigma> and m :: "('a, unit) fused_mem"
  assume i: "a \<le> i" "i < b" and m: "input_inv xs (\<sigma>(i := Gone)) m"
    and before: "\<forall>j. a \<le> j \<longrightarrow> j < i \<longrightarrow> \<sigma> j = Finished" and rest: "\<forall>j. i < j \<longrightarrow> j < b \<longrightarrow> \<sigma> j = Ready"
  from m i assms rest in_drop [of xs "\<sigma>(i := Gone)" "fm_in m" "Suc i" b] obtain inp where
    inp: "drop_each [Suc i..<b] (fm_in m) = Inr inp" "in_holds xs (mark (Suc i) b Gone (\<sigma>(i := Gone))) inp"
    by (auto simp: input_inv_def)
  have "in_holds xs (mark a b Gone \<sigma>) inp"
    using i before by (intro in_holds_cong [OF inp(2)]) (auto simp: mark_def)
  moreover have "map ((+) a) [i - a + 1..<b - a] = [Suc i..<b]" using i by (simp add: map_plus_upt)
  ultimately show "\<exists>m'. input_guard (a, b - a) (i - a) m = Inr m' \<and> input_inv xs (mark a b Gone \<sigma>) m'"
    using inp(1) by (simp add: input_guard_def leaf_clean_def input_inv_def)
qed

lemma input_leaf_law:
  assumes "a \<le> b" and "b \<le> length xs" and "input_inv xs \<sigma> m" and "\<And>i. a \<le> i \<Longrightarrow> i < b \<Longrightarrow> \<sigma> i = Ready"
  shows "\<exists>m'. leaf_loop (input_guard (a, b - a)) (input_body step a) 0 (b - a) acc m =
       Inr (run_items (\<lambda>i. step (xs ! i)) [a..<b] acc, m') \<and> input_inv xs (mark a b Gone \<sigma>) m'"
proof -
  from leaf_loop_range [OF input_body_law [OF assms(2)] input_clean_law [OF assms(2)] assms(1,3), of step acc] assms(4)
  obtain m' where m': "leaf_loop (input_guard (a, b - a)) (input_body step a) 0 (b - a) acc m =
       Inr (run_items (\<lambda>i. step (xs ! i)) [a..<b] acc, m')"
    "input_inv xs (mark a b (if is_ok (run_items (\<lambda>i. step (xs ! i)) [a..<b] acc) then Finished else Gone) \<sigma>) m'" by auto
  from m'(2) have "input_inv xs (mark a b Gone \<sigma>) m'" by (rule input_inv_cong) (auto simp: mark_def)
  with m'(1) show ?thesis by blast
qed

lemma input_slice: "input_inv xs \<sigma> m \<Longrightarrow> a \<le> b \<Longrightarrow> b \<le> length xs \<Longrightarrow> as_slice (fm_in m) a b = Inr (a, b - a)"
  by (simp add: as_slice_def range_ok_def input_inv_def in_holds_def)

lemma input_start: "input_inv (v_items v) (\<lambda>_. Ready) (owned_input v)"
  by (simp add: input_inv_def owned_input_def in_holds_from_vec)

lemma input_end: "input_inv xs (mark 0 (length xs) Gone \<sigma>) m \<Longrightarrow> set (sl_buf (fm_in m)) \<subseteq> {None}"
  by (auto simp: input_inv_def dest!: in_holds_empty elim: subsetD)

section \<open>Filtering in order\<close>

text \<open>What a sequential filtering collect returns: the kept outputs in order, or the first panic.\<close>

fun gather :: "('a \<Rightarrow> ('p, 'o option) outcome) \<Rightarrow> 'a list \<Rightarrow> ('p, 'o list) outcome" where
  "gather f [] = Returned []"
| "gather f (x # xs) = bind_out (f x) (\<lambda>y. bind_out (gather f xs) (\<lambda>ys. Returned (case y of Some v \<Rightarrow> v # ys | None \<Rightarrow> ys)))"

fun try_gather :: "('a \<Rightarrow> ('p, 'e + 'o option) outcome) \<Rightarrow> 'a list \<Rightarrow> ('p, 'e + 'o list) outcome" where
  "try_gather f [] = Returned (Inr [])"
| "try_gather f (x # xs) = try_bind (f x) (\<lambda>y. try_bind (try_gather f xs) (\<lambda>ys. Returned (Inr (case y of Some v \<Rightarrow> v # ys | None \<Rightarrow> ys))))"

definition slice :: "'a list \<Rightarrow> nat \<Rightarrow> nat \<Rightarrow> 'a list" where
  "slice xs a b = map ((!) xs) [a..<b]"

lemma slice_append: "a \<le> m \<Longrightarrow> m \<le> b \<Longrightarrow> slice xs a b = slice xs a m @ slice xs m b"
  unfolding slice_def by (metis le_Suc_ex map_append upt_add_eq_append)

lemma slice_all [simp]: "slice xs 0 (length xs) = xs"
  by (simp add: slice_def map_nth)

lemma gather_append:
  "gather f (xs @ ys) = bind_out (both (gather f xs) (gather f ys)) (\<lambda>(l, r). Returned (l @ r))"
proof (induction xs)
  case (Cons x xs)
  then show ?case
    by (cases "f x"; cases "gather f xs"; cases "gather f ys") (auto split: option.splits)
qed (cases "gather f ys"; simp)

lemma run_items_gather:
  "run_items (\<lambda>i out. bind_out (f (xs ! i)) (\<lambda>y. Returned (Inr (case y of Some v \<Rightarrow> out @ [v] | None \<Rightarrow> out)))) is out =
     bind_out (gather f (map ((!) xs) is)) (\<lambda>ys. Returned (Inr (out @ ys)))"
proof (induction "is" arbitrary: out)
  case (Cons i "is")
  show ?case
  proof (cases "f (xs ! i)")
    case (Returned y)
    with Cons.IH [of "case y of Some v \<Rightarrow> out @ [v] | None \<Rightarrow> out"] show ?thesis
      by (cases "gather f (map ((!) xs) is)") (auto split: option.splits)
  qed simp
qed simp

lemma run_items_try_gather:
  "run_items (\<lambda>i out. try_bind (f (xs ! i)) (\<lambda>y. Returned (Inr (case y of Some v \<Rightarrow> out @ [v] | None \<Rightarrow> out)))) is out =
     try_bind (try_gather f (map ((!) xs) is)) (\<lambda>ys. Returned (Inr (out @ ys)))"
proof (induction "is" arbitrary: out)
  case (Cons i "is")
  show ?case
  proof (cases "f (xs ! i)" rule: try_cases)
    case (1 y)
    with Cons.IH [of "case y of Some v \<Rightarrow> out @ [v] | None \<Rightarrow> out"] show ?thesis
      by (cases "try_gather f (map ((!) xs) is)" rule: try_cases) (auto split: option.splits)
  qed simp_all
qed simp

lemma filter_leaf_law:
  assumes "a \<le> b" and "b \<le> length xs" and "input_inv xs \<sigma> m" and "\<And>i. a \<le> i \<Longrightarrow> i < b \<Longrightarrow> \<sigma> i = Ready"
  shows "\<exists>m'. on_slice (filter_leaf S) a b m = Inr (gather (fs_apply S) (slice xs a b), m') \<and> input_inv xs (mark a b Gone \<sigma>) m'"
proof -
  let ?step = "\<lambda>item out. bind_out (fs_apply S item) (\<lambda>y. Returned (Inr (case y of Some v \<Rightarrow> out @ [v] | None \<Rightarrow> out)))"
  have "filter_body S a = input_body ?step a" by (intro ext) (simp add: filter_body_def input_body_def)
  with input_leaf_law [OF assms, where step = ?step and acc = "[]"] obtain m' where
    "leaf_loop (input_guard (a, b - a)) (filter_body S a) 0 (b - a) [] m =
       Inr (bind_out (gather (fs_apply S) (slice xs a b)) (\<lambda>ys. Returned (Inr ys)), m')" "input_inv xs (mark a b Gone \<sigma>) m'"
    by (auto simp: run_items_gather slice_def)
  then show ?thesis
    by (cases "gather (fs_apply S) (slice xs a b)")
      (auto simp: on_slice_def filter_leaf_def no_error_def input_slice [OF assms(3,1,2)])
qed

lemma filter_merge_law:
  assumes "a \<le> m" and "m \<le> b"
  shows "bind_out (both (gather f (slice xs a m)) (gather f (slice xs m b))) (\<lambda>(l, r). Returned (l @ r)) = gather f (slice xs a b)"
  unfolding slice_append [OF assms] gather_append ..

interpretation filtering: value_tree "input_inv xs" "length xs" "on_slice (filter_leaf S)" "\<lambda>l r. Returned (l @ r)"
    "\<lambda>a b. gather (fs_apply S) (slice xs a b)" "\<lambda>_ _. True" for xs S
  by unfold_locales (simp_all add: filter_leaf_law filter_merge_law)

section \<open>Fallible filtering in order\<close>

definition stage_verdict :: "('a, 'o, 'e, 'p) fused_try_stage \<Rightarrow> 'a list \<Rightarrow> nat \<Rightarrow> ('p, 'e + unit) outcome" where
  "stage_verdict S xs i = try_bind (ts_try_apply S (xs ! i)) (\<lambda>_. Returned (Inr ()))"

lemma try_gather_verdict:
  "try_bind (try_gather (ts_try_apply S) (map ((!) xs) is)) (\<lambda>_. Returned (Inr ())) = run_items (\<lambda>i _. stage_verdict S xs i) is ()"
proof (induction "is")
  case (Cons i "is")
  show ?case
  proof (cases "ts_try_apply S (xs ! i)" rule: try_cases)
    case (1 y)
    with Cons.IH show ?thesis
      by (cases "try_gather (ts_try_apply S) (map ((!) xs) is)" rule: try_cases) (auto simp: stage_verdict_def)
  qed (simp_all add: stage_verdict_def)
qed simp

lemma try_gather_append:
  assumes "is_ok (try_gather f xs) \<or> \<not> panics (try_gather f ys)"
  shows "try_gather f (xs @ ys) = bind_out (both (try_gather f xs) (try_gather f ys)) (\<lambda>(l, r). merge_try l r)"
  using assms
proof (induction xs)
  case Nil
  then show ?case by (cases "try_gather f ys" rule: try_cases) auto
next
  case (Cons x xs)
  show ?case
  proof (cases "f x" rule: try_cases)
    case (1 y)
    with Cons show ?thesis
      by (cases "try_gather f xs" rule: try_cases; cases "try_gather f ys" rule: try_cases) (auto split: option.splits)
  next
    case (2 e)
    with Cons.prems show ?thesis by (cases "try_gather f ys" rule: try_cases) auto
  qed simp
qed

lemma try_filter_leaf_law:
  assumes "a \<le> b" and "b \<le> length xs" and "input_inv xs \<sigma> m" and "\<And>i. a \<le> i \<Longrightarrow> i < b \<Longrightarrow> \<sigma> i = Ready"
  shows "\<exists>m'. on_slice (filter_try_leaf S) a b m = Inr (try_gather (ts_try_apply S) (slice xs a b), m') \<and>
     input_inv xs (mark a b Gone \<sigma>) m'"
proof -
  let ?step = "\<lambda>item out. try_bind (ts_try_apply S item) (\<lambda>y. Returned (Inr (case y of Some v \<Rightarrow> out @ [v] | None \<Rightarrow> out)))"
  have "filter_try_body S a = input_body ?step a" by (intro ext) (simp add: filter_try_body_def input_body_def)
  with input_leaf_law [OF assms, where step = ?step and acc = "[]"] obtain m' where
    "leaf_loop (input_guard (a, b - a)) (filter_try_body S a) 0 (b - a) [] m =
       Inr (try_bind (try_gather (ts_try_apply S) (slice xs a b)) (\<lambda>ys. Returned (Inr ys)), m')" "input_inv xs (mark a b Gone \<sigma>) m'"
    by (auto simp: run_items_try_gather slice_def)
  then show ?thesis
    by (cases "try_gather (ts_try_apply S) (slice xs a b)" rule: try_cases)
      (auto simp: on_slice_def filter_try_leaf_def input_slice [OF assms(3,1,2)])
qed

lemma try_gather_status:
  "is_ok (try_gather (ts_try_apply S) (slice xs a b)) = is_ok (seq_run (stage_verdict S xs) a b)"
  "panics (try_gather (ts_try_apply S) (slice xs a b)) = panics (seq_run (stage_verdict S xs) a b)"
  unfolding slice_def try_gather_verdict [symmetric]
  by (cases "try_gather (ts_try_apply S) (map ((!) xs) [a..<b])" rule: try_cases; simp)+

lemma try_merge_law:
  assumes "a \<le> m" and "m \<le> b" and "no_late_panic (stage_verdict S xs) a b"
  shows "bind_out (both (try_gather (ts_try_apply S) (slice xs a m)) (try_gather (ts_try_apply S) (slice xs m b))) (\<lambda>(l, r). merge_try l r)
     = try_gather (ts_try_apply S) (slice xs a b)"
proof -
  have "is_ok (try_gather (ts_try_apply S) (slice xs a m)) \<or> \<not> panics (try_gather (ts_try_apply S) (slice xs m b))"
    unfolding try_gather_status using late_panic_excluded [OF assms(3,2)] by blast
  from try_gather_append [OF this] show ?thesis by (simp add: slice_append [OF assms(1,2)])
qed

interpretation try_filtering: value_tree "input_inv xs" "length xs" "on_slice (filter_try_leaf S)" merge_try
    "\<lambda>a b. try_gather (ts_try_apply S) (slice xs a b)" "no_late_panic (stage_verdict S xs)" for xs S
  by unfold_locales (simp_all add: try_filter_leaf_law try_merge_law no_late_panic_sub)

section \<open>The filtering collects\<close>

lemma filter_collect_runs:
  assumes "v_items items \<noteq> []"
  shows "\<exists>buf. fused_filter_collect stolen items S splits = Inr (gather (fs_apply S) (v_items items), buf) \<and> set buf \<subseteq> {None}"
proof -
  from filtering.par_value_rec_runs [where S = S and stolen = stolen and splits = splits, OF le0 order_refl input_start]
  obtain m where "par_filter_rec stolen S splits 0 (length (v_items items)) (owned_input items) = Inr (gather (fs_apply S) (v_items items), m)"
    "input_inv (v_items items) (mark 0 (length (v_items items)) Gone (\<lambda>_. Ready)) m"
    by (auto simp: par_filter_rec_def)
  with assms input_end show ?thesis by (fastforce simp: fused_filter_collect_def)
qed

lemma try_filter_collect_runs:
  assumes "v_items items \<noteq> []" and "no_late_panic (stage_verdict S (v_items items)) 0 (length (v_items items))"
  shows "\<exists>buf. fused_try_filter_collect stolen items S splits = Inr (try_gather (ts_try_apply S) (v_items items), buf) \<and> set buf \<subseteq> {None}"
proof -
  from try_filtering.par_value_rec_runs [where S = S and stolen = stolen and splits = splits, OF le0 order_refl input_start _ assms(2)]
  obtain m where "par_filter_try_rec stolen S splits 0 (length (v_items items)) (owned_input items) = Inr (try_gather (ts_try_apply S) (v_items items), m)"
    "input_inv (v_items items) (mark 0 (length (v_items items)) Gone (\<lambda>_. Ready)) m"
    by (auto simp: par_filter_try_rec_def)
  with assms input_end show ?thesis by (fastforce simp: fused_try_filter_collect_def)
qed

end
