(* ===== verification/Fused_Reduce.thy ===== *)
theory Fused_Reduce
  imports Fused_Collect Fused_Filter
begin

text \<open>
  The reducing core of the fused engine: the reducers of \<^verbatim>\<open>builder/typed/traits.rs\<close>, and from
  \<^verbatim>\<open>builder/typed/fused.rs\<close> the mailbox cells of the chunks, the leaves, trees, strategies and drivers,
  over an owned batch and over a borrowed slice, infallible and fallible. A fold, a combine or a clone
  of the seed is user code and may unwind.
\<close>

section \<open>Reducers\<close>

record ('o, 'acc, 'p) reducer =
  rd_identity :: "('p, 'acc) outcome"
  rd_fold :: "'acc \<Rightarrow> 'o \<Rightarrow> ('p, 'acc) outcome"
  rd_combine :: "'acc \<Rightarrow> 'acc \<Rightarrow> ('p, 'acc) outcome"

definition option_reducer :: "('o \<Rightarrow> 'o \<Rightarrow> ('p, 'o) outcome) \<Rightarrow> ('o, 'o option, 'p) reducer" where
  "option_reducer f =
     \<lparr>rd_identity = Returned None,
      rd_fold = (\<lambda>acc item. bind_out (case acc of Some a \<Rightarrow> f a item | None \<Rightarrow> Returned item) (\<lambda>x. Returned (Some x))),
      rd_combine = (\<lambda>lhs rhs. case (lhs, rhs) of
          (Some a, Some b) \<Rightarrow> bind_out (f a b) (\<lambda>x. Returned (Some x))
        | (Some a, None) \<Rightarrow> Returned (Some a)
        | (None, Some a) \<Rightarrow> Returned (Some a)
        | (None, None) \<Rightarrow> Returned None)\<rparr>"

definition fold_reducer ::
    "('acc \<Rightarrow> ('p, 'acc) outcome) \<Rightarrow> 'acc \<Rightarrow> ('acc \<Rightarrow> 'o \<Rightarrow> ('p, 'acc) outcome) \<Rightarrow> ('acc \<Rightarrow> 'acc \<Rightarrow> ('p, 'acc) outcome) \<Rightarrow>
     ('o, 'acc, 'p) reducer" where
  "fold_reducer clone init f combine = \<lparr>rd_identity = clone init, rd_fold = f, rd_combine = combine\<rparr>"

text \<open>\<open>sum_of\<close> is the \<^verbatim>\<open>Sum\<close> implementation of the item type, on the items of an iterator.\<close>

definition sum_reducer :: "('o list \<Rightarrow> ('p, 'o) outcome) \<Rightarrow> ('o, 'o, 'p) reducer" where
  "sum_reducer sum_of =
     \<lparr>rd_identity = sum_of [], rd_fold = (\<lambda>acc item. sum_of [acc, item]), rd_combine = (\<lambda>lhs rhs. sum_of [lhs, rhs])\<rparr>"

text \<open>A count is at most the length of the batch, so the machine addition does not overflow.\<close>

definition count_reducer :: "('o, nat, 'p) reducer" where
  "count_reducer =
     \<lparr>rd_identity = Returned 0, rd_fold = (\<lambda>acc _. Returned (acc + 1)), rd_combine = (\<lambda>lhs rhs. Returned (lhs + rhs))\<rparr>"

record ('i, 'acc, 'p) reduce_op =
  ro_identity :: "('p, 'acc) outcome"
  ro_fold :: "'acc \<Rightarrow> 'i \<Rightarrow> ('p, 'acc) outcome res"
  ro_combine :: "'acc \<Rightarrow> 'acc \<Rightarrow> ('p, 'acc) outcome"

definition fused_reduce :: "('i, 'o, 'p) fused_stage \<Rightarrow> ('o, 'acc, 'p) reducer \<Rightarrow> ('i, 'acc, 'p) reduce_op" where
  "fused_reduce S R =
     \<lparr>ro_identity = rd_identity R,
      ro_fold = (\<lambda>acc item.
        if fs_may_filter S
        then Inr (bind_out (fs_apply S item) (\<lambda>r. case r of Some x \<Rightarrow> rd_fold R acc x | None \<Rightarrow> Returned acc))
        else bind_res (fs_apply_pure S item) (\<lambda>r. Inr (bind_out r (rd_fold R acc)))),
      ro_combine = rd_combine R\<rparr>"

definition range_reduce :: "('i \<Rightarrow> ('p, 'o) outcome res) \<Rightarrow> ('o, 'acc, 'p) reducer \<Rightarrow> ('i, 'acc, 'p) reduce_op" where
  "range_reduce apply R =
     \<lparr>ro_identity = rd_identity R,
      ro_fold = (\<lambda>acc item. bind_res (apply item) (\<lambda>r. Inr (bind_out r (rd_fold R acc)))),
      ro_combine = rd_combine R\<rparr>"

record ('i, 'acc, 'e, 'p) try_reduce_op =
  tro_identity :: "('p, 'acc) outcome"
  tro_try_fold :: "'acc \<Rightarrow> 'i \<Rightarrow> ('p, 'e + 'acc) outcome"
  tro_combine :: "'acc \<Rightarrow> 'acc \<Rightarrow> ('p, 'acc) outcome"

definition fused_try_reduce :: "('i, 'o, 'e, 'p) fused_try_stage \<Rightarrow> ('o, 'acc, 'p) reducer \<Rightarrow> ('i, 'acc, 'e, 'p) try_reduce_op" where
  "fused_try_reduce S R =
     \<lparr>tro_identity = rd_identity R,
      tro_try_fold = (\<lambda>acc item. try_bind (ts_try_apply S item) (\<lambda>r. case r of
          Some x \<Rightarrow> bind_out (rd_fold R acc x) (\<lambda>a. Returned (Inr a))
        | None \<Rightarrow> Returned (Inr acc))),
      tro_combine = rd_combine R\<rparr>"

section \<open>Mailbox cells\<close>

datatype 'acc chunk_cell = Empty | Full 'acc

record 'acc chunk_slots =
  cs_slots :: "'acc chunk_cell list"
  cs_chunk :: nat
  cs_rem :: nat

definition chunk_slots_new :: "nat \<Rightarrow> nat \<Rightarrow> 'acc chunk_slots" where
  "chunk_slots_new n num_chunks =
     \<lparr>cs_slots = replicate num_chunks Empty, cs_chunk = n div num_chunks, cs_rem = n mod num_chunks\<rparr>"

definition publish :: "'acc chunk_slots \<Rightarrow> nat \<Rightarrow> 'acc \<Rightarrow> 'acc chunk_slots res" where
  "publish cs start acc =
     (let i = chunk_of (cs_chunk cs) (cs_rem cs) start in
      bind_res (index_res (cs_slots cs) i) (\<lambda>_. Inr (cs\<lparr>cs_slots := (cs_slots cs)[i := Full acc]\<rparr>)))"

definition drop_published :: "'acc chunk_slots \<Rightarrow> nat \<Rightarrow> 'acc chunk_slots res" where
  "drop_published cs start =
     (let i = chunk_of (cs_chunk cs) (cs_rem cs) start in
      bind_res (index_res (cs_slots cs) i) (\<lambda>c. Inr (case c of
         Full _ \<Rightarrow> cs\<lparr>cs_slots := (cs_slots cs)[i := Empty]\<rparr>
       | Empty \<Rightarrow> cs)))"

fun combine_cells :: "('acc \<Rightarrow> 'acc \<Rightarrow> ('p, 'acc) outcome) \<Rightarrow> 'acc chunk_cell list \<Rightarrow> 'acc option \<Rightarrow> ('p, 'acc option) outcome" where
  "combine_cells f [] acc = Returned acc"
| "combine_cells f (Empty # cells) acc = combine_cells f cells acc"
| "combine_cells f (Full a # cells) acc =
     bind_out (case acc of Some x \<Rightarrow> f x a | None \<Rightarrow> Returned a) (\<lambda>y. combine_cells f cells (Some y))"

definition chunk_combine :: "('acc \<Rightarrow> 'acc \<Rightarrow> ('p, 'acc) outcome) \<Rightarrow> 'acc chunk_slots \<Rightarrow> ('p, 'acc) outcome res" where
  "chunk_combine f cs =
     (case combine_cells f (cs_slots cs) None of
        Unwound p \<Rightarrow> Inr (Unwound p)
      | Returned None \<Rightarrow> Inl ExplicitPanic
      | Returned (Some a) \<Rightarrow> Inr (Returned a))"

section \<open>Leaves and trees\<close>

definition reduce_body ::
    "('a, 'acc, 'p) reduce_op \<Rightarrow> nat \<Rightarrow> nat \<Rightarrow> 'acc \<Rightarrow> (('a, unit) fused_mem, 'p, unit + 'acc) closure" where
  "reduce_body op in_ptr i acc m =
     bind_res (slot_read (fm_in m) (in_ptr + i)) (\<lambda>(item, inp).
     bind_res (ro_fold op acc item) (\<lambda>r. Inr (bind_out r (\<lambda>a. Returned (Inr a)), m\<lparr>fm_in := inp\<rparr>)))"

text \<open>The guard is armed before the seed is made: an unwind of the seed already runs it.\<close>

definition reduce_leaf :: "('a, 'acc, 'p) reduce_op \<Rightarrow> nat \<times> nat \<Rightarrow> (('a, unit) fused_mem, 'p, 'acc) closure" where
  "reduce_leaf op input m =
     (case ro_identity op of
        Unwound p \<Rightarrow> bind_res (input_guard input 0 m) (\<lambda>m'. Inr (Unwound p, m'))
      | Returned acc \<Rightarrow> no_error (leaf_loop (input_guard input) (reduce_body op (fst input)) 0 (snd input) acc) m)"

definition reduce_try_body ::
    "('a, 'acc, 'e, 'p) try_reduce_op \<Rightarrow> nat \<Rightarrow> nat \<Rightarrow> 'acc \<Rightarrow> (('a, unit) fused_mem, 'p, 'e + 'acc) closure" where
  "reduce_try_body op in_ptr i acc m =
     bind_res (slot_read (fm_in m) (in_ptr + i)) (\<lambda>(item, inp). Inr (tro_try_fold op acc item, m\<lparr>fm_in := inp\<rparr>))"

definition reduce_try_leaf :: "('a, 'acc, 'e, 'p) try_reduce_op \<Rightarrow> nat \<times> nat \<Rightarrow> (('a, unit) fused_mem, 'p, 'e + 'acc) closure" where
  "reduce_try_leaf op input m =
     (case tro_identity op of
        Unwound p \<Rightarrow> bind_res (input_guard input 0 m) (\<lambda>m'. Inr (Unwound p, m'))
      | Returned acc \<Rightarrow> leaf_loop (input_guard input) (reduce_try_body op (fst input)) 0 (snd input) acc m)"

text \<open>The leaves over a borrowed slice own nothing and have no guard.\<close>

fun fold_items :: "('a, 'acc, 'p) reduce_op \<Rightarrow> 'a list \<Rightarrow> 'acc \<Rightarrow> ('p, 'acc) outcome res" where
  "fold_items op [] acc = Inr (Returned acc)"
| "fold_items op (x # xs) acc =
     bind_res (ro_fold op acc x) (\<lambda>r. case r of Returned a \<Rightarrow> fold_items op xs a | Unwound p \<Rightarrow> Inr (Unwound p))"

definition reduce_leaf_by_ref :: "('a, 'acc, 'p) reduce_op \<Rightarrow> 'a list \<Rightarrow> ('p, 'acc) outcome res" where
  "reduce_leaf_by_ref op input =
     (case ro_identity op of Unwound p \<Rightarrow> Inr (Unwound p) | Returned acc \<Rightarrow> fold_items op input acc)"

fun try_fold_items :: "('a, 'acc, 'e, 'p) try_reduce_op \<Rightarrow> 'a list \<Rightarrow> 'acc \<Rightarrow> ('p, 'e + 'acc) outcome" where
  "try_fold_items op [] acc = Returned (Inr acc)"
| "try_fold_items op (x # xs) acc = try_bind (tro_try_fold op acc x) (try_fold_items op xs)"

definition reduce_try_leaf_by_ref :: "('a, 'acc, 'e, 'p) try_reduce_op \<Rightarrow> 'a list \<Rightarrow> ('p, 'e + 'acc) outcome" where
  "reduce_try_leaf_by_ref op input = bind_out (tro_identity op) (try_fold_items op input)"

text \<open>The unchecked view of a slice: out of bounds it would be undefined behaviour.\<close>

definition get_unchecked :: "'a list \<Rightarrow> nat \<Rightarrow> nat \<Rightarrow> 'a list res" where
  "get_unchecked xs start stop = (if start \<le> stop \<and> stop \<le> length xs then Inr (take (stop - start) (drop start xs)) else Inl UninitRead)"

definition on_ref :: "('a list \<Rightarrow> ('p, 'v) outcome res) \<Rightarrow> nat \<Rightarrow> nat \<Rightarrow> ('a list, 'p, 'v) closure" where
  "on_ref leaf start stop input =
     bind_res (get_unchecked input start stop) (\<lambda>in_slice. bind_res (leaf in_slice) (\<lambda>r. Inr (r, input)))"

definition par_reduce_rec ::
    "(nat \<Rightarrow> nat \<Rightarrow> bool) \<Rightarrow> ('a, 'acc, 'p) reduce_op \<Rightarrow> nat \<Rightarrow> nat \<Rightarrow> nat \<Rightarrow> (('a, unit) fused_mem, 'p, 'acc) closure" where
  "par_reduce_rec stolen op = par_value_rec stolen (on_slice (reduce_leaf op)) (ro_combine op)"

definition par_reduce_rec_by_ref ::
    "(nat \<Rightarrow> nat \<Rightarrow> bool) \<Rightarrow> ('a, 'acc, 'p) reduce_op \<Rightarrow> nat \<Rightarrow> nat \<Rightarrow> nat \<Rightarrow> ('a list, 'p, 'acc) closure" where
  "par_reduce_rec_by_ref stolen op = par_value_rec stolen (on_ref (reduce_leaf_by_ref op)) (ro_combine op)"

fun merge_partials :: "('acc \<Rightarrow> 'acc \<Rightarrow> ('p, 'acc) outcome) \<Rightarrow> ('e + 'acc) \<Rightarrow> ('e + 'acc) \<Rightarrow> ('p, 'e + 'acc) outcome" where
  "merge_partials f (Inr l) (Inr r) = bind_out (f l r) (\<lambda>a. Returned (Inr a))"
| "merge_partials f (Inl e) _ = Returned (Inl e)"
| "merge_partials f (Inr _) (Inl e) = Returned (Inl e)"

definition par_reduce_try_rec ::
    "(nat \<Rightarrow> nat \<Rightarrow> bool) \<Rightarrow> ('a, 'acc, 'e, 'p) try_reduce_op \<Rightarrow> nat \<Rightarrow> nat \<Rightarrow> nat \<Rightarrow> (('a, unit) fused_mem, 'p, 'e + 'acc) closure" where
  "par_reduce_try_rec stolen op = par_value_rec stolen (on_slice (reduce_try_leaf op)) (merge_partials (tro_combine op))"

definition par_reduce_try_rec_by_ref ::
    "(nat \<Rightarrow> nat \<Rightarrow> bool) \<Rightarrow> ('a, 'acc, 'e, 'p) try_reduce_op \<Rightarrow> nat \<Rightarrow> nat \<Rightarrow> nat \<Rightarrow> ('a list, 'p, 'e + 'acc) closure" where
  "par_reduce_try_rec_by_ref stolen op =
     par_value_rec stolen (on_ref (\<lambda>xs. Inr (reduce_try_leaf_by_ref op xs))) (merge_partials (tro_combine op))"

section \<open>Strategies\<close>

text \<open>What a chunk works on: the input (its slots, or the borrowed slice) and the cells.\<close>

record ('s, 'acc) reduce_mem =
  rm_input :: 's
  rm_slots :: "'acc chunk_slots"

text \<open>Run a tree or a leaf and publish its partial in the cell of the chunk.\<close>

definition publishing :: "('s, 'p, 'f + 'acc) closure \<Rightarrow> nat \<Rightarrow> (('s, 'acc) reduce_mem, 'p, 'f + unit) closure" where
  "publishing c start m =
     bind_res (c (rm_input m)) (\<lambda>(r, inp). case r of
        Returned (Inr acc) \<Rightarrow>
          bind_res (publish (rm_slots m) start acc) (\<lambda>cs. Inr (Returned (Inr ()), m\<lparr>rm_input := inp, rm_slots := cs\<rparr>))
      | Returned (Inl f) \<Rightarrow> Inr (Returned (Inl f), m\<lparr>rm_input := inp\<rparr>)
      | Unwound p \<Rightarrow> Inr (Unwound p, m\<lparr>rm_input := inp\<rparr>))"

definition infallible :: "('s, 'p, 'acc) closure \<Rightarrow> ('s, 'p, 'f + 'acc) closure" where
  "infallible c s = bind_res (c s) (\<lambda>(r, s'). Inr (bind_out r (\<lambda>a. Returned (Inr a)), s'))"

definition cleanup_partial :: "nat \<Rightarrow> nat \<Rightarrow> ('s, 'acc) reduce_mem \<Rightarrow> ('s, 'acc) reduce_mem res" where
  "cleanup_partial start stop m = bind_res (drop_published (rm_slots m) start) (\<lambda>cs. Inr (m\<lparr>rm_slots := cs\<rparr>))"

definition reduce_strategy ::
    "(nat \<Rightarrow> nat \<Rightarrow> bool) \<Rightarrow> ('a, 'acc, 'p) reduce_op \<Rightarrow> ((('a, unit) fused_mem, 'acc) reduce_mem, 'p, 'p) hybrid_ops" where
  "reduce_strategy stolen op =
     \<lparr>ho_run_chunk = (\<lambda>start stop splits. publishing (infallible (par_reduce_rec stolen op splits start stop)) start),
      ho_run_sequential = (\<lambda>start stop. publishing (infallible (on_slice (reduce_leaf op) start stop)) start),
      ho_cleanup_success = cleanup_partial\<rparr>"

definition reduce_by_ref_strategy ::
    "(nat \<Rightarrow> nat \<Rightarrow> bool) \<Rightarrow> ('a, 'acc, 'p) reduce_op \<Rightarrow> (('a list, 'acc) reduce_mem, 'p, 'p) hybrid_ops" where
  "reduce_by_ref_strategy stolen op =
     \<lparr>ho_run_chunk = (\<lambda>start stop splits. publishing (infallible (par_reduce_rec_by_ref stolen op splits start stop)) start),
      ho_run_sequential = (\<lambda>start stop. publishing (infallible (on_ref (reduce_leaf_by_ref op) start stop)) start),
      ho_cleanup_success = cleanup_partial\<rparr>"

definition reduce_try_strategy ::
    "(nat \<Rightarrow> nat \<Rightarrow> bool) \<Rightarrow> ('a, 'acc, 'e, 'p) try_reduce_op \<Rightarrow>
     ((('a, unit) fused_mem, 'acc) reduce_mem, 'p, ('e, 'p) try_failure) hybrid_ops" where
  "reduce_try_strategy stolen op =
     \<lparr>ho_run_chunk = (\<lambda>start stop splits. publishing (map_err TryError (par_reduce_try_rec stolen op splits start stop)) start),
      ho_run_sequential = (\<lambda>start stop. publishing (map_err TryError (on_slice (reduce_try_leaf op) start stop)) start),
      ho_cleanup_success = cleanup_partial\<rparr>"

definition reduce_try_by_ref_strategy ::
    "(nat \<Rightarrow> nat \<Rightarrow> bool) \<Rightarrow> ('a, 'acc, 'e, 'p) try_reduce_op \<Rightarrow>
     (('a list, 'acc) reduce_mem, 'p, ('e, 'p) try_failure) hybrid_ops" where
  "reduce_try_by_ref_strategy stolen op =
     \<lparr>ho_run_chunk = (\<lambda>start stop splits. publishing (map_err TryError (par_reduce_try_rec_by_ref stolen op splits start stop)) start),
      ho_run_sequential = (\<lambda>start stop. publishing (map_err TryError (on_ref (\<lambda>xs. Inr (reduce_try_leaf_by_ref op xs)) start stop)) start),
      ho_cleanup_success = cleanup_partial\<rparr>"

section \<open>Drivers\<close>

text \<open>
  The four drivers differ in the strategy and in how a failure leaves them; each also returns the input
  it frees or gives back.
\<close>

definition reduce_dispatch ::
    "run_env \<Rightarrow> (('s, 'acc) reduce_mem, 'p, 'e) strategy \<Rightarrow> nat \<Rightarrow> 's \<Rightarrow> split_plan \<Rightarrow> nat \<Rightarrow>
     (('p, ('e, 'p) erased_failure + unit) outcome \<times> ('s, 'acc) reduce_mem) res" where
  "reduce_dispatch env strategy n inp plan num_threads =
     (if n = 0 then Inl ExplicitPanic
      else bind_res (hybrid_num_chunks n plan num_threads) (\<lambda>num_chunks.
           hybrid_dispatch (re_on_pool env) (re_mode env) (re_order env) strategy n plan num_threads
             \<lparr>rm_input = inp, rm_slots = chunk_slots_new n num_chunks\<rparr>))"

definition finish_reduce ::
    "('acc \<Rightarrow> 'acc \<Rightarrow> ('p, 'acc) outcome) \<Rightarrow> ('p, ('p, 'p) erased_failure + unit) outcome \<times> ('s, 'acc) reduce_mem \<Rightarrow>
     (('p, 'acc) outcome \<times> 's) res" where
  "finish_reduce combine rm = (case rm of (r, m) \<Rightarrow> (case r of
      Unwound p \<Rightarrow> Inr (Unwound p, rm_input m)
    | Returned (Inl f) \<Rightarrow> bind_res (resume_panic f) (\<lambda>u. Inr (u, rm_input m))
    | Returned (Inr _) \<Rightarrow> bind_res (chunk_combine combine (rm_slots m)) (\<lambda>a. Inr (a, rm_input m))))"

definition finish_try_reduce ::
    "('acc \<Rightarrow> 'acc \<Rightarrow> ('p, 'acc) outcome) \<Rightarrow> ('p, ('e, 'p) erased_failure + unit) outcome \<times> ('s, 'acc) reduce_mem \<Rightarrow>
     (('p, 'e + 'acc) outcome \<times> 's) res" where
  "finish_try_reduce combine rm = (case rm of (r, m) \<Rightarrow> (case r of
      Unwound p \<Rightarrow> Inr (Unwound p, rm_input m)
    | Returned (Inl (OpFailure e)) \<Rightarrow> Inr (Returned (Inl e), rm_input m)
    | Returned (Inl (PanicFailure p)) \<Rightarrow> Inr (Unwound p, rm_input m)
    | Returned (Inr _) \<Rightarrow> bind_res (chunk_combine combine (rm_slots m)) (\<lambda>a. Inr (bind_out a (\<lambda>x. Returned (Inr x)), rm_input m))))"

definition par_reduce ::
    "run_env \<Rightarrow> 'a vec \<Rightarrow> ('a, 'acc, 'p) reduce_op \<Rightarrow> split_plan \<Rightarrow> nat \<Rightarrow> (('p, 'acc) outcome \<times> ('a, unit) fused_mem) res" where
  "par_reduce env items op plan num_threads =
     bind_res (reduce_dispatch env (erased_strategy PanicFailure (reduce_strategy (re_stolen env) op))
       (length (v_items items)) (owned_input items) plan num_threads) (finish_reduce (ro_combine op))"

definition par_reduce_by_ref ::
    "run_env \<Rightarrow> 'a list \<Rightarrow> ('a, 'acc, 'p) reduce_op \<Rightarrow> split_plan \<Rightarrow> nat \<Rightarrow> (('p, 'acc) outcome \<times> 'a list) res" where
  "par_reduce_by_ref env input op plan num_threads =
     bind_res (reduce_dispatch env (erased_strategy PanicFailure (reduce_by_ref_strategy (re_stolen env) op))
       (length input) input plan num_threads) (finish_reduce (ro_combine op))"

definition par_reduce_try ::
    "run_env \<Rightarrow> 'a vec \<Rightarrow> ('a, 'acc, 'e, 'p) try_reduce_op \<Rightarrow> split_plan \<Rightarrow> nat \<Rightarrow>
     (('p, 'e + 'acc) outcome \<times> ('a, unit) fused_mem) res" where
  "par_reduce_try env items op plan num_threads =
     bind_res (reduce_dispatch env (erased_strategy into_erased (reduce_try_strategy (re_stolen env) op))
       (length (v_items items)) (owned_input items) plan num_threads) (finish_try_reduce (tro_combine op))"

definition par_reduce_try_by_ref ::
    "run_env \<Rightarrow> 'a list \<Rightarrow> ('a, 'acc, 'e, 'p) try_reduce_op \<Rightarrow> split_plan \<Rightarrow> nat \<Rightarrow>
     (('p, 'e + 'acc) outcome \<times> 'a list) res" where
  "par_reduce_try_by_ref env input op plan num_threads =
     bind_res (reduce_dispatch env (erased_strategy into_erased (reduce_try_by_ref_strategy (re_stolen env) op))
       (length input) input plan num_threads) (finish_try_reduce (tro_combine op))"

end
