(* ===== verification/Fused_Pipe.thy ===== *)
theory Fused_Pipe
  imports Fused_Collect Fused_Filter
begin

text \<open>
  The collecting entry points of the fused engine, \<open>Pipe::collect\<close> and \<open>TryPipe::try_collect\<close>
  (\<^verbatim>\<open>builder/typed/fused.rs\<close>): the choice between the serial loop, the filtering tree and the
  index core, and what they return.
\<close>

section \<open>Serial fallbacks\<close>

fun pure_collect :: "('a \<Rightarrow> ('p, 'o) outcome res) \<Rightarrow> 'a list \<Rightarrow> ('p, 'o list) outcome res" where
  "pure_collect f [] = Inr (Returned [])"
| "pure_collect f (x # xs) =
     bind_res (f x) (\<lambda>r. case r of
        Unwound p \<Rightarrow> Inr (Unwound p)
      | Returned y \<Rightarrow> bind_res (pure_collect f xs) (\<lambda>r. Inr (bind_out r (\<lambda>ys. Returned (y # ys)))))"

definition serial_stage_collect :: "'a list \<Rightarrow> ('a, 'o, 'p) fused_stage \<Rightarrow> ('p, 'o list) outcome res" where
  "serial_stage_collect xs S =
     (if fs_may_filter S then Inr (gather (fs_apply S) xs) else pure_collect (fs_apply_pure S) xs)"

fun pure_try_collect :: "('a \<Rightarrow> ('p, 'e + 'o) outcome res) \<Rightarrow> 'a list \<Rightarrow> 'o list \<Rightarrow> ('p, 'e + 'o list) outcome res" where
  "pure_try_collect f [] out = Inr (Returned (Inr out))"
| "pure_try_collect f (x # xs) out =
     bind_res (f x) (\<lambda>r. case r of
        Unwound p \<Rightarrow> Inr (Unwound p)
      | Returned (Inl e) \<Rightarrow> Inr (Returned (Inl e))
      | Returned (Inr y) \<Rightarrow> pure_try_collect f xs (out @ [y]))"

fun serial_try_loop :: "('a \<Rightarrow> ('p, 'e + 'o option) outcome) \<Rightarrow> 'a list \<Rightarrow> 'o list \<Rightarrow> ('p, 'e + 'o list) outcome" where
  "serial_try_loop f [] out = Returned (Inr out)"
| "serial_try_loop f (x # xs) out =
     try_bind (f x) (\<lambda>y. serial_try_loop f xs (case y of Some v \<Rightarrow> out @ [v] | None \<Rightarrow> out))"

definition serial_stage_try_collect :: "'a list \<Rightarrow> ('a, 'o, 'e, 'p) fused_try_stage \<Rightarrow> ('p, 'e + 'o list) outcome res" where
  "serial_stage_try_collect xs S =
     (if ts_may_filter S then Inr (serial_try_loop (ts_try_apply S) xs []) else pure_try_collect (ts_try_apply_pure S) xs [])"

section \<open>Entry points\<close>

text \<open>The number of workers of the pool a terminal resolves to; the registry clamps a new pool.\<close>

definition pool_workers :: "nat \<Rightarrow> exec_pool \<Rightarrow> nat" where
  "pool_workers global p =
     (case p of RefPool k \<Rightarrow> k | OwnedPool k \<Rightarrow> min (max k 1) THREADS_MAX | GlobalPool \<Rightarrow> global)"

definition exec_workers :: "nat \<Rightarrow> exec_options \<Rightarrow> nat" where
  "exec_workers ncpus e = pool_workers (min (max ncpus 1) THREADS_MAX) (exec_resolve ncpus e)"

definition map_outcome_vec :: "('p, 'o vec) outcome \<Rightarrow> ('p, 'o list) outcome" where
  "map_outcome_vec r = bind_out r (\<lambda>v. Returned (v_items v))"

definition pipe_collect ::
    "run_env \<Rightarrow> split_env \<Rightarrow> nat \<Rightarrow> exec_options \<Rightarrow> ('a, 'o, 'p) fused_stage \<Rightarrow> 'a vec \<Rightarrow>
     (('p, 'o list) outcome \<times> 'a option list \<times> 'o option list) res" where
  "pipe_collect env senv ncpus e stages items =
     (let n = length (v_items items); workers = exec_workers ncpus e in
      if n = 0 then Inr (Returned [], [], [])
      else bind_res (plan_terminal senv n (cfg_workload (eo_config e)) workers) (\<lambda>tp. case tp of
          Serial \<Rightarrow> bind_res (serial_stage_collect (v_items items) stages) (\<lambda>r. Inr (r, [], []))
        | Parallel plan \<Rightarrow>
            if fs_may_filter stages
            then bind_res (fused_filter_collect (re_stolen env) items stages (sp_depth plan)) (\<lambda>(r, buf). Inr (r, buf, []))
            else bind_res (par_index_collect env items (fused_op stages) plan workers)
                   (\<lambda>(r, inp, outp). Inr (map_outcome_vec r, inp, outp))))"

definition try_pipe_collect ::
    "run_env \<Rightarrow> split_env \<Rightarrow> nat \<Rightarrow> exec_options \<Rightarrow> ('a, 'o, 'e, 'p) fused_try_stage \<Rightarrow> 'a vec \<Rightarrow>
     (('p, 'e + 'o list) outcome \<times> 'a option list \<times> 'o option list) res" where
  "try_pipe_collect env senv ncpus e stages items =
     (let n = length (v_items items); workers = exec_workers ncpus e in
      if n = 0 then Inr (Returned (Inr []), [], [])
      else bind_res (plan_terminal senv n (cfg_workload (eo_config e)) workers) (\<lambda>tp. case tp of
          Serial \<Rightarrow> bind_res (serial_stage_try_collect (v_items items) stages) (\<lambda>r. Inr (r, [], []))
        | Parallel plan \<Rightarrow>
            if ts_may_filter stages
            then bind_res (fused_try_filter_collect (re_stolen env) items stages (sp_depth plan)) (\<lambda>(r, buf). Inr (r, buf, []))
            else bind_res (par_index_try_collect env items (fused_try_op stages) plan workers)
                   (\<lambda>(r, inp, outp). Inr (try_bind r (\<lambda>v. Returned (Inr (v_items v))), inp, outp))))"

section \<open>Schedules\<close>

text \<open>The order of a run is a permutation of the tasks the dispatcher creates for the batch.\<close>

definition schedulable :: "run_env \<Rightarrow> nat \<Rightarrow> split_plan \<Rightarrow> nat \<Rightarrow> bool" where
  "schedulable env n plan num_threads \<longleftrightarrow>
     (case hybrid_num_chunks n plan num_threads of
        Inl _ \<Rightarrow> False
      | Inr k \<Rightarrow> (case chunk_log2 plan k of
                   Inl _ \<Rightarrow> False
                 | Inr l \<Rightarrow> 2 \<le> k \<and> mset (re_order env) = mset (task_set plan l k)))"

definition run_ranges :: "run_env \<Rightarrow> nat \<Rightarrow> split_plan \<Rightarrow> nat \<Rightarrow> (nat \<times> nat) list" where
  "run_ranges env n plan num_threads =
     (case hybrid_num_chunks n plan num_threads of
        Inl _ \<Rightarrow> []
      | Inr k \<Rightarrow> (case chunk_log2 plan k of
                   Inl _ \<Rightarrow> []
                 | Inr l \<Rightarrow> if single_tree (re_on_pool env) (re_mode env) plan l then [(0, n)] else all_chunks n k))"

lemma schedulable_cases:
  assumes "schedulable env n plan t"
  obtains k l where "hybrid_num_chunks n plan t = Inr k" "chunk_log2 plan k = Inr l" "2 \<le> k"
    "mset (re_order env) = mset (task_set plan l k)"
    "run_ranges env n plan t = (if single_tree (re_on_pool env) (re_mode env) plan l then [(0, n)] else all_chunks n k)"
  using assms by (auto simp: schedulable_def run_ranges_def split: sum.splits)

lemma run_ranges_cover:
  assumes "schedulable env n plan t" and "0 < n"
  shows "(a, b) \<in> set (run_ranges env n plan t) \<Longrightarrow> a \<le> b \<and> b \<le> n"
    and "i < n \<Longrightarrow> \<exists>(a, b) \<in> set (run_ranges env n plan t). a \<le> i \<and> i < b"
proof -
  from assms(1) obtain k l where k: "hybrid_num_chunks n plan t = Inr k" "chunk_log2 plan k = Inr l"
    "run_ranges env n plan t = (if single_tree (re_on_pool env) (re_mode env) plan l then [(0, n)] else all_chunks n k)"
    by (rule schedulable_cases)
  note kb = hybrid_num_chunks_bounds [OF k(1) assms(2)]
  have all: "all_chunks n k = map (\<lambda>j. (chunk_start (n div k) (n mod k) j, chunk_start (n div k) (n mod k) (Suc j))) [0..<k]"
    by (rule all_chunks_eq)
  show "a \<le> b \<and> b \<le> n" if "(a, b) \<in> set (run_ranges env n plan t)"
  proof (cases "single_tree (re_on_pool env) (re_mode env) plan l")
    case False
    with that k(3) all obtain j where "j < k" "a = chunk_start (n div k) (n mod k) j" "b = chunk_start (n div k) (n mod k) (Suc j)" by auto
    with chunk_start_mono [of j "Suc j" "n div k" "n mod k"] chunk_start_mono [of "Suc j" k "n div k" "n mod k"]
      chunk_start_last [OF kb(1), of n] show ?thesis by simp
  qed (use that k(3) in simp)
  show "\<exists>(a, b) \<in> set (run_ranges env n plan t). a \<le> i \<and> i < b" if "i < n"
  proof (cases "single_tree (re_on_pool env) (re_mode env) plan l")
    case False
    from chunks_concat [of "n div k" "n mod k" k] chunk_start_last [OF kb(1), of n] that
    have "i \<in> set (concat (map (\<lambda>j. [chunk_start (n div k) (n mod k) j..<chunk_start (n div k) (n mod k) (Suc j)]) [0..<k]))" by simp
    with False k(3) all show ?thesis by auto
  qed (use that k(3) in simp)
qed

section \<open>The index core over its ranges\<close>

lemma range_fate_Some:
  assumes "range_fate from_panic to_erased verdict a b = Some f"
  obtains i g where "a \<le> i" "i < b" "flat from_panic (verdict i) = Inl g" "f = to_erased g"
proof -
  have "\<exists>i \<in> set is. \<not> is_ok (verdict i) \<and> run_items (\<lambda>i _. verdict i) is () = verdict i"
    if "\<not> is_ok (run_items (\<lambda>i _. verdict i) is ())" for "is"
    using that
  proof (induction "is")
    case (Cons i "is")
    then show ?case by (cases "verdict i" rule: outcome_cases) auto
  qed simp
  moreover have "\<not> is_ok (seq_run verdict a b)" using assms range_fate_None [of from_panic to_erased verdict a b] by auto
  ultimately obtain i where i: "i \<in> set [a..<b]" "\<not> is_ok (verdict i)" "seq_run verdict a b = verdict i" by blast
  with assms that show ?thesis by (cases "verdict i" rule: outcome_cases) (auto simp: range_fate_def)
qed

text \<open>What the failure slot says about the items, for ranges that cover the batch.\<close>

lemma slot_items:
  assumes sch: "schedulable env n plan t" "0 < n"
    and slot: "slot_ok slot ((\<lambda>(a, b). range_fate from_panic to_erased verdict a b) ` set (run_ranges env n plan t))"
  shows "slot = None \<longleftrightarrow> (\<forall>i < n. is_ok (verdict i))"
    and "slot = Some f \<Longrightarrow> \<exists>i < n. \<exists>g. flat from_panic (verdict i) = Inl g \<and> f = to_erased g"
proof -
  have "slot = None \<longleftrightarrow> (\<forall>(a, b) \<in> set (run_ranges env n plan t). is_ok (seq_run verdict a b))"
    using slot by (auto simp: slot_ok_def range_fate_None)
  also have "\<dots> \<longleftrightarrow> (\<forall>i < n. is_ok (verdict i))"
    unfolding run_items_ok_iff using run_ranges_cover [OF sch] by fastforce
  finally show "slot = None \<longleftrightarrow> (\<forall>i < n. is_ok (verdict i))" .
  assume "slot = Some f"
  with slot have "Some f \<in> (\<lambda>(a, b). range_fate from_panic to_erased verdict a b) ` set (run_ranges env n plan t)"
    unfolding slot_ok_def by simp
  then obtain a b where ab: "(a, b) \<in> set (run_ranges env n plan t)" "range_fate from_panic to_erased verdict a b = Some f"
    by force
  from range_fate_Some [OF ab(2)] obtain i g where "i < b" "flat from_panic (verdict i) = Inl g" "f = to_erased g" by metis
  with run_ranges_cover(1) [OF sch ab(1)] show "\<exists>i < n. \<exists>g. flat from_panic (verdict i) = Inl g \<and> f = to_erased g"
    by (intro exI [of _ i]) auto
qed

text \<open>A panic that no failure precedes is the one that is reported.\<close>

lemma slot_panic:
  assumes sch: "schedulable env n plan t" and late: "no_late_panic verdict 0 n"
    and slot: "slot_ok slot ((\<lambda>(a, b). range_fate from_panic to_erased verdict a b) ` set (run_ranges env n plan t))"
    and erased: "\<And>p. to_erased (from_panic p) = PanicFailure p" and i: "i < n" "verdict i = Unwound p"
  shows "\<exists>q. slot = Some (PanicFailure q)"
proof -
  from run_ranges_cover(2) [OF sch _ i(1)] i(1) obtain a b where ab: "(a, b) \<in> set (run_ranges env n plan t)" "a \<le> i" "i < b" by auto
  with run_ranges_cover(1) [OF sch _ ab(1)] i(1) have b: "b \<le> n" by auto
  have "is_ok (verdict j)" if "j < i" for j
    using late i that unfolding no_late_panic_def by fastforce
  then have "is_ok (seq_run verdict a i)" unfolding run_items_ok_iff by auto
  with seq_run_split [of a i b verdict] ab(2,3) have "seq_run verdict a b = seq_run verdict i b" by simp
  also have "\<dots> = Unwound p" using ab(3) i(2) by (simp add: upt_conv_Cons)
  finally have "range_fate from_panic to_erased verdict a b = Some (PanicFailure p)" by (simp add: range_fate_def erased)
  with ab(1) slot show ?thesis unfolding slot_ok_def by force
qed

context erased_tree
begin

text \<open>A dispatch over a batch of ready items, in terms of the items.\<close>

lemma run_settles:
  assumes sch: "schedulable env n plan t" and n: "0 < n" and s: "I (\<lambda>_. Ready) s" and late: "no_late_panic verdict 0 n"
  obtains r s' where "hybrid_dispatch (re_on_pool env) (re_mode env) (re_order env)
        (erased_strategy to_erased (tree_ops stolen from_panic leaf drop_success)) n plan t s = Inr (r, s')"
    "failure_of r = None \<longleftrightarrow> (\<forall>i < n. is_ok (verdict i))"
    "\<forall>f. failure_of r = Some f \<longrightarrow> (\<exists>i < n. \<exists>g. flat from_panic (verdict i) = Inl g \<and> f = to_erased g) \<and>
       ((\<exists>i < n. panics (verdict i)) \<longrightarrow> (\<exists>p. f = PanicFailure p))"
    "I (mark 0 n (fated (failure_of r)) (\<lambda>_. Ready)) s'"
proof -
  from sch obtain k l where k: "hybrid_num_chunks n plan t = Inr k" "chunk_log2 plan k = Inr l" "2 \<le> k"
    "mset (re_order env) = mset (task_set plan l k)"
    "run_ranges env n plan t = (if single_tree (re_on_pool env) (re_mode env) plan l then [(0, n)] else all_chunks n k)"
    by (rule schedulable_cases)
  have "no_late_panic verdict a b" if "(a, b) \<in> set (run_ranges env n plan t)" for a b
    using no_late_panic_sub [OF late] run_ranges_cover(1) [OF sch n that] by blast
  with hybrid.dispatch_runs [OF k(1,2) n k(3,4) s, where on_pool = "re_on_pool env" and mode = "re_mode env"]
  obtain r s' where d: "hybrid_dispatch (re_on_pool env) (re_mode env) (re_order env)
        (erased_strategy to_erased (tree_ops stolen from_panic leaf drop_success)) n plan t s = Inr (r, s')"
      "slot_ok (failure_of r) ((\<lambda>(a, b). range_fate from_panic to_erased verdict a b) ` set (run_ranges env n plan t))"
      "I (mark 0 n (fated (failure_of r)) (\<lambda>_. Ready)) s'"
    unfolding k(5) by blast
  have "\<exists>p. f = PanicFailure p" if "failure_of r = Some f" "i < n" "panics (verdict i)" for f i
    using slot_panic [OF sch late d(2) erased_panic that(2)] that by (cases "verdict i") auto
  with slot_items(2) [OF sch n d(2)]
  have "\<forall>f. failure_of r = Some f \<longrightarrow> (\<exists>i < n. \<exists>g. flat from_panic (verdict i) = Inl g \<and> f = to_erased g) \<and>
       ((\<exists>i < n. panics (verdict i)) \<longrightarrow> (\<exists>p. f = PanicFailure p))" by blast
  from that [OF d(1) slot_items(1) [OF sch n d(2)] this d(3)] show thesis .
qed

end

lemma lift_op_verdict:
  assumes "f (xs ! i) = Inr r"
  shows "item_verdict (lift_op f) xs i = bind_out r (\<lambda>_. Returned (Inr ()))"
  using assms by (cases r) (simp_all add: item_verdict_def lift_op_def)

lemma lift_op_output: "f (xs ! i) = Inr (Returned y) \<Longrightarrow> item_output (lift_op f) xs i = y"
  by (simp add: item_output_def lift_op_def)

lemma never_faults_lift: "never_faults f xs \<Longrightarrow> never_faults (lift_op f) xs"
  by (fastforce simp: never_faults_def lift_op_def)

lemma never_faults_relabel: "never_faults f xs \<Longrightarrow> never_faults (relabel h f) xs"
  by (fastforce simp: never_faults_def relabel_def)

lemma index_collect_runs:
  assumes sch: "schedulable env (length (v_items items)) plan t" and ne: "v_items items \<noteq> []"
    and nt: "nt_store_enabled (re_nt env) (re_layout env) (length (v_items items)) = Inr nt"
    and total: "never_faults f (v_items items)"
    and late: "no_late_panic (item_verdict (lift_op f) (v_items items)) 0 (length (v_items items))"
  shows "\<exists>r inp outp. par_index_collect env items f plan t = Inr (r, inp, outp) \<and> set inp \<subseteq> {None} \<and> set outp \<subseteq> {None} \<and>
     (if \<forall>i < length (v_items items). is_ok (item_verdict (lift_op f) (v_items items) i)
      then r = Returned \<lparr>v_items = map (item_output (lift_op f) (v_items items)) [0..<length (v_items items)], v_cap = length (v_items items)\<rparr>
      else \<exists>i < length (v_items items). \<exists>p. item_verdict (lift_op f) (v_items items) i = Unwound p \<and> r = Unwound p)"
proof -
  let ?n = "length (v_items items)" and ?v = "item_verdict (lift_op f) (v_items items)"
  have n: "0 < ?n" using ne by simp
  from collecting.run_settles [OF sch n owned_start [OF never_faults_lift [OF total]] late, where nt = nt and stolen = "re_stolen env"]
  obtain r m where d: "hybrid_dispatch (re_on_pool env) (re_mode env) (re_order env)
        (erased_strategy (PanicFailure :: _ \<Rightarrow> ('b, 'b) erased_failure) (collect_strategy (re_stolen env) f nt)) ?n plan t
        \<lparr>fm_in = slots_from_vec items, fm_out = slots_uninit ?n\<rparr> = Inr (r, m)"
      "failure_of r = None \<longleftrightarrow> (\<forall>i < ?n. is_ok (?v i))"
      "\<forall>g. failure_of r = Some g \<longrightarrow> (\<exists>i < ?n. \<exists>p. flat (\<lambda>p. p) (?v i) = Inl p \<and> g = PanicFailure p) \<and>
         ((\<exists>i < ?n. panics (?v i)) \<longrightarrow> (\<exists>p. g = PanicFailure p))"
      "owned_inv (v_items items) (lift_op f) (mark 0 ?n (fated (failure_of r)) (\<lambda>_. Ready)) m"
    unfolding collect_strategy_def by blast
  show ?thesis
  proof (cases "failure_of r")
    case None
    then obtain u where "r = Returned (Inr u)" by (cases r rule: failure_of.cases) auto
    with None d(1) nt ne d(2) owned_end [OF d(4)] show ?thesis by (simp add: par_index_collect_def Let_def)
  next
    case (Some g)
    with d(3) obtain i p where i: "i < ?n" "flat (\<lambda>p. p) (?v i) = Inl p" "g = PanicFailure p" by blast
    from total i(1) obtain q where "f (v_items items ! i) = Inr q" unfolding never_faults_def by (meson nth_mem)
    with i(2) have vi: "?v i = Unwound p" by (cases q) (auto simp: lift_op_verdict)
    from Some i(3) d(1) nt ne have "par_index_collect env items f plan t = Inr (Unwound p, sl_buf (fm_in m), sl_buf (fm_out m))"
      by (cases r rule: failure_of.cases) (auto simp: par_index_collect_def Let_def resume_panic_def)
    moreover have "\<not> (\<forall>i < ?n. is_ok (?v i))" using d(2) Some by auto
    ultimately show ?thesis using owned_end [OF d(4)] Some i(1) vi by auto
  qed
qed

lemma relabel_verdict:
  assumes "f (xs ! i) = Inr r"
  shows "item_verdict (try_op f) xs i = bind_out r (\<lambda>v. Returned (case v of Inl e \<Rightarrow> Inl (TryError e) | Inr _ \<Rightarrow> Inr ()))"
  using assms by (cases r rule: try_cases) (simp_all add: item_verdict_def relabel_def)

lemma relabel_output: "f (xs ! i) = Inr (Returned (Inr y)) \<Longrightarrow> item_output (try_op f) xs i = y"
  by (simp add: item_output_def relabel_def)

text \<open>How one item shows in the result of a fallible run.\<close>

definition blames :: "('p, ('e, 'p) try_failure + unit) outcome \<Rightarrow> ('p, 'e + 'r) outcome \<Rightarrow> bool" where
  "blames v r \<longleftrightarrow> (\<exists>e. v = Returned (Inl (TryError e)) \<and> r = Returned (Inl e)) \<or> (\<exists>p. v = Unwound p \<and> r = Unwound p)"

lemma index_try_collect_runs:
  assumes sch: "schedulable env (length (v_items items)) plan t" and ne: "v_items items \<noteq> []"
    and total: "never_faults f (v_items items)"
    and late: "no_late_panic (item_verdict (try_op f) (v_items items)) 0 (length (v_items items))"
  shows "\<exists>r inp outp. par_index_try_collect env items f plan t = Inr (r, inp, outp) \<and> set inp \<subseteq> {None} \<and> set outp \<subseteq> {None} \<and>
     (if \<forall>i < length (v_items items). is_ok (item_verdict (try_op f) (v_items items) i)
      then r = Returned (Inr \<lparr>v_items = map (item_output (try_op f) (v_items items)) [0..<length (v_items items)], v_cap = length (v_items items)\<rparr>)
      else (\<exists>i < length (v_items items). blames (item_verdict (try_op f) (v_items items) i) r) \<and>
           ((\<exists>i < length (v_items items). panics (item_verdict (try_op f) (v_items items) i)) \<longrightarrow> panics r))"
proof -
  let ?n = "length (v_items items)" and ?v = "item_verdict (try_op f) (v_items items)"
  have n: "0 < ?n" using ne by simp
  from trying.run_settles [OF sch n owned_start [OF never_faults_relabel [OF total]] late, where stolen = "re_stolen env"]
  obtain r m where d: "hybrid_dispatch (re_on_pool env) (re_mode env) (re_order env)
        (erased_strategy into_erased (try_strategy (re_stolen env) f)) ?n plan t
        \<lparr>fm_in = slots_from_vec items, fm_out = slots_uninit ?n\<rparr> = Inr (r, m)"
      "failure_of r = None \<longleftrightarrow> (\<forall>i < ?n. is_ok (?v i))"
      "\<forall>g. failure_of r = Some g \<longrightarrow> (\<exists>i < ?n. \<exists>h. flat TryPanic (?v i) = Inl h \<and> g = into_erased h) \<and>
         ((\<exists>i < ?n. panics (?v i)) \<longrightarrow> (\<exists>p. g = PanicFailure p))"
      "owned_inv (v_items items) (try_op f) (mark 0 ?n (fated (failure_of r)) (\<lambda>_. Ready)) m"
    unfolding try_strategy_def by blast
  show ?thesis
  proof (cases "failure_of r")
    case None
    then obtain u where "r = Returned (Inr u)" by (cases r rule: failure_of.cases) auto
    with None d(1) ne d(2) owned_end [OF d(4)] show ?thesis by (simp add: par_index_try_collect_def Let_def)
  next
    case (Some g)
    with d(3) obtain i h where i: "i < ?n" "flat TryPanic (?v i) = Inl h" "g = into_erased h" by blast
    from total i(1) obtain q where "f (v_items items ! i) = Inr q" unfolding never_faults_def by (meson nth_mem)
    with i(2) have vi: "?v i = (case h of TryError e \<Rightarrow> Returned (Inl (TryError e)) | TryPanic p \<Rightarrow> Unwound p)"
      by (cases q rule: try_cases) (auto simp: relabel_verdict)
    define r' :: "('b, 'c + 'd vec) outcome" where "r' = (case h of TryError e \<Rightarrow> Returned (Inl e) | TryPanic p \<Rightarrow> Unwound p)"
    from Some i(3) d(1) ne have "par_index_try_collect env items f plan t = Inr (r', sl_buf (fm_in m), sl_buf (fm_out m))"
      by (cases r rule: failure_of.cases; cases h) (auto simp: par_index_try_collect_def Let_def r'_def)
    moreover have "\<not> (\<forall>i < ?n. is_ok (?v i))" using d(2) Some by auto
    moreover have "blames (?v i) r'" using vi by (cases h) (auto simp: blames_def r'_def)
    moreover have "panics r'" if "i' < ?n" "panics (?v i')" for i'
      using d(3) that Some i(3) by (cases h) (auto simp: r'_def)
    ultimately show ?thesis using owned_end [OF d(4)] Some i(1) by auto
  qed
qed

end
