(* ===== verification/Fused_Reduce_Laws.thy ===== *)
theory Fused_Reduce_Laws
  imports Fused_Reduce Fused_Pipe
begin

text \<open>
  The reducing core keeps the contracts of the tree and of the dispatcher: each leaf folds its range in
  order, a node combines two neighbouring ranges, and a chunk leaves its partial in its own cell. A
  reducer is lawful when combining two folds is the fold of both lists.
\<close>

section \<open>Lawful reducers\<close>

text \<open>
  \<open>f\<close> is what the stages make of an item (nothing for a dropped one), \<open>g\<close> folds an output, \<open>e\<close> is the
  seed and \<open>c\<close> combines two partials.
\<close>

definition folds :: "('acc \<Rightarrow> 'o \<Rightarrow> 'acc) \<Rightarrow> 'acc \<Rightarrow> ('acc \<Rightarrow> 'acc \<Rightarrow> 'acc) \<Rightarrow> bool" where
  "folds g e c \<longleftrightarrow> (\<forall>ys zs. c (foldl g e ys) (foldl g e zs) = foldl g e (ys @ zs))"

definition reduce_law ::
    "('i, 'acc, 'p) reduce_op \<Rightarrow> ('i \<Rightarrow> ('p, 'o option) outcome) \<Rightarrow> ('acc \<Rightarrow> 'o \<Rightarrow> 'acc) \<Rightarrow> 'acc \<Rightarrow> ('acc \<Rightarrow> 'acc \<Rightarrow> 'acc) \<Rightarrow> bool" where
  "reduce_law op f g e c \<longleftrightarrow> ro_identity op = Returned e \<and>
     (\<forall>acc x. ro_fold op acc x = Inr (bind_out (f x) (\<lambda>y. Returned (case y of Some v \<Rightarrow> g acc v | None \<Rightarrow> acc)))) \<and>
     (\<forall>a b. ro_combine op a b = Returned (c a b)) \<and> folds g e c"

definition try_reduce_law ::
    "('i, 'acc, 'e, 'p) try_reduce_op \<Rightarrow> ('i \<Rightarrow> ('p, 'e + 'o option) outcome) \<Rightarrow> ('acc \<Rightarrow> 'o \<Rightarrow> 'acc) \<Rightarrow> 'acc \<Rightarrow>
     ('acc \<Rightarrow> 'acc \<Rightarrow> 'acc) \<Rightarrow> bool" where
  "try_reduce_law op f g e c \<longleftrightarrow> tro_identity op = Returned e \<and>
     (\<forall>acc x. tro_try_fold op acc x = try_bind (f x) (\<lambda>y. Returned (Inr (case y of Some v \<Rightarrow> g acc v | None \<Rightarrow> acc)))) \<and>
     (\<forall>a b. tro_combine op a b = Returned (c a b)) \<and> folds g e c"

definition reducer_law :: "('o, 'acc, 'p) reducer \<Rightarrow> ('acc \<Rightarrow> 'o \<Rightarrow> 'acc) \<Rightarrow> 'acc \<Rightarrow> ('acc \<Rightarrow> 'acc \<Rightarrow> 'acc) \<Rightarrow> bool" where
  "reducer_law R g e c \<longleftrightarrow> rd_identity R = Returned e \<and> (\<forall>a v. rd_fold R a v = Returned (g a v)) \<and>
     (\<forall>a b. rd_combine R a b = Returned (c a b)) \<and> folds g e c"

lemma reduce_law_fused:
  assumes "stage_law S" and "reducer_law R g e c"
  shows "reduce_law (fused_reduce S R) (fs_apply S) g e c"
proof -
  have "ro_fold (fused_reduce S R) acc x = Inr (bind_out (fs_apply S x) (\<lambda>y. Returned (case y of Some v \<Rightarrow> g acc v | None \<Rightarrow> acc)))" for acc x
  proof (cases "fs_may_filter S")
    case True
    with assms(2) show ?thesis
      by (cases "fs_apply S x") (auto simp: fused_reduce_def reducer_law_def split: option.splits)
  next
    case False
    with assms(1) obtain r where "fs_apply_pure S x = Inr r" "fs_apply S x = bind_out r (\<lambda>y. Returned (Some y))"
      unfolding stage_law_def by blast
    with False assms(2) show ?thesis by (cases r) (auto simp: fused_reduce_def reducer_law_def)
  qed
  with assms(2) show ?thesis by (simp add: reduce_law_def reducer_law_def fused_reduce_def)
qed

lemma reduce_law_range:
  assumes "reducer_law R g e c" and "\<And>x. apply x = Inr (f x)"
  shows "reduce_law (range_reduce apply R) (\<lambda>x. bind_out (f x) (\<lambda>y. Returned (Some y))) g e c"
proof -
  have "bind_out (f x) (rd_fold R acc) = bind_out (bind_out (f x) (\<lambda>y. Returned (Some y))) (\<lambda>y. Returned (case y of Some v \<Rightarrow> g acc v | None \<Rightarrow> acc))" for x acc
    using assms(1) by (cases "f x") (simp_all add: reducer_law_def)
  with assms show ?thesis by (simp add: reduce_law_def range_reduce_def reducer_law_def)
qed

lemma try_reduce_law_fused:
  assumes "reducer_law R g e c"
  shows "try_reduce_law (fused_try_reduce S R) (ts_try_apply S) g e c"
proof -
  have "tro_try_fold (fused_try_reduce S R) acc x = try_bind (ts_try_apply S x) (\<lambda>y. Returned (Inr (case y of Some v \<Rightarrow> g acc v | None \<Rightarrow> acc)))" for acc x
    using assms by (cases "ts_try_apply S x" rule: try_cases) (auto simp: fused_try_reduce_def reducer_law_def split: option.splits)
  with assms show ?thesis by (simp add: try_reduce_law_def reducer_law_def fused_try_reduce_def)
qed

text \<open>The reducers of the library are lawful for an associative operation.\<close>

lemma foldl_assoc:
  assumes "\<And>x y z. g (g x y) z = g x (g y z)"
  shows "g a (foldl g b ys) = foldl g (g a b) ys"
  by (induction ys arbitrary: b) (simp_all add: assms)

definition option_fold :: "('o \<Rightarrow> 'o \<Rightarrow> 'o) \<Rightarrow> 'o option \<Rightarrow> 'o \<Rightarrow> 'o option" where
  "option_fold g acc v = Some (case acc of Some a \<Rightarrow> g a v | None \<Rightarrow> v)"

definition option_combine :: "('o \<Rightarrow> 'o \<Rightarrow> 'o) \<Rightarrow> 'o option \<Rightarrow> 'o option \<Rightarrow> 'o option" where
  "option_combine g l r = (case (l, r) of (Some a, Some b) \<Rightarrow> Some (g a b) | (Some a, None) \<Rightarrow> Some a | (None, x) \<Rightarrow> x)"

lemma option_fold_list: "foldl (option_fold g) (Some a) ys = Some (foldl g a ys)"
  by (induction ys arbitrary: a) (simp_all add: option_fold_def)

lemma option_fold_none: "foldl (option_fold g) None ys = (case ys of [] \<Rightarrow> None | y # ys \<Rightarrow> Some (foldl g y ys))"
proof (cases ys)
  case (Cons y zs)
  moreover have "option_fold g None y = Some y" by (simp add: option_fold_def)
  ultimately show ?thesis by (simp add: option_fold_list)
qed simp

lemma reducer_law_option:
  assumes "\<And>x y. f x y = Returned (g x y)" and "\<And>x y z. g (g x y) z = g x (g y z)"
  shows "reducer_law (option_reducer f) (option_fold g) None (option_combine g)"
proof -
  have "folds (option_fold g) None (option_combine g)"
    unfolding folds_def option_fold_none
    by (auto simp: option_combine_def foldl_assoc [OF assms(2)] split: list.splits)
  with assms(1) show ?thesis
    by (auto simp: reducer_law_def option_reducer_def option_fold_def option_combine_def split: option.splits)
qed

lemma foldl_count: "foldl (\<lambda>a _. Suc a) b ys = b + length ys"
  by (induction ys arbitrary: b) simp_all

lemma reducer_law_count: "reducer_law count_reducer (\<lambda>a _. Suc a) 0 (+)"
  by (simp add: reducer_law_def count_reducer_def folds_def foldl_count)

section \<open>Leaves and nodes\<close>

definition range_value :: "('a \<Rightarrow> ('p, 'o option) outcome) \<Rightarrow> ('acc \<Rightarrow> 'o \<Rightarrow> 'acc) \<Rightarrow> 'acc \<Rightarrow> 'a list \<Rightarrow> nat \<Rightarrow> nat \<Rightarrow> ('p, 'acc) outcome" where
  "range_value f g e xs a b = bind_out (gather f (slice xs a b)) (\<lambda>ys. Returned (foldl g e ys))"

definition try_range_value ::
    "('a \<Rightarrow> ('p, 'e + 'o option) outcome) \<Rightarrow> ('acc \<Rightarrow> 'o \<Rightarrow> 'acc) \<Rightarrow> 'acc \<Rightarrow> 'a list \<Rightarrow> nat \<Rightarrow> nat \<Rightarrow> ('p, 'e + 'acc) outcome" where
  "try_range_value f g e xs a b = try_bind (try_gather f (slice xs a b)) (\<lambda>ys. Returned (Inr (foldl g e ys)))"

lemma run_items_fold:
  "run_items (\<lambda>i acc. bind_out (f (xs ! i)) (\<lambda>y. Returned (Inr (case y of Some v \<Rightarrow> g acc v | None \<Rightarrow> acc)))) is acc =
     bind_out (gather f (map ((!) xs) is)) (\<lambda>ys. Returned (Inr (foldl g acc ys)))"
proof (induction "is" arbitrary: acc)
  case (Cons i "is")
  show ?case
  proof (cases "f (xs ! i)")
    case (Returned y)
    with Cons.IH [of "case y of Some v \<Rightarrow> g acc v | None \<Rightarrow> acc"] show ?thesis
      by (cases "gather f (map ((!) xs) is)") (auto split: option.splits)
  qed simp
qed simp

lemma run_items_try_fold:
  "run_items (\<lambda>i acc. try_bind (f (xs ! i)) (\<lambda>y. Returned (Inr (case y of Some v \<Rightarrow> g acc v | None \<Rightarrow> acc)))) is acc =
     try_bind (try_gather f (map ((!) xs) is)) (\<lambda>ys. Returned (Inr (foldl g acc ys)))"
proof (induction "is" arbitrary: acc)
  case (Cons i "is")
  show ?case
  proof (cases "f (xs ! i)" rule: try_cases)
    case (1 y)
    with Cons.IH [of "case y of Some v \<Rightarrow> g acc v | None \<Rightarrow> acc"] show ?thesis
      by (cases "try_gather f (map ((!) xs) is)" rule: try_cases) (auto split: option.splits)
  qed simp_all
qed simp

lemma reduce_leaf_law:
  assumes law: "reduce_law op f g e c"
    and r: "a \<le> b" "b \<le> length xs" "input_inv xs \<sigma> m" "\<And>i. a \<le> i \<Longrightarrow> i < b \<Longrightarrow> \<sigma> i = Ready"
  shows "\<exists>m'. on_slice (reduce_leaf op) a b m = Inr (range_value f g e xs a b, m') \<and> input_inv xs (mark a b Gone \<sigma>) m'"
proof -
  let ?step = "\<lambda>item acc. bind_out (f item) (\<lambda>y. Returned (Inr (case y of Some v \<Rightarrow> g acc v | None \<Rightarrow> acc)))"
  from law have "reduce_body op a = input_body ?step a"
    by (intro ext) (simp add: reduce_body_def input_body_def reduce_law_def bind_out_assoc)
  with input_leaf_law [OF r, where step = ?step and acc = e] obtain m' where
    "leaf_loop (input_guard (a, b - a)) (reduce_body op a) 0 (b - a) e m =
       Inr (bind_out (gather f (slice xs a b)) (\<lambda>ys. Returned (Inr (foldl g e ys))), m')" "input_inv xs (mark a b Gone \<sigma>) m'"
    by (auto simp: run_items_fold slice_def)
  with law show ?thesis
    by (cases "gather f (slice xs a b)")
      (auto simp: on_slice_def reduce_leaf_def no_error_def range_value_def reduce_law_def input_slice [OF r(3,1,2)])
qed

lemma reduce_try_leaf_law:
  assumes law: "try_reduce_law op f g e c"
    and r: "a \<le> b" "b \<le> length xs" "input_inv xs \<sigma> m" "\<And>i. a \<le> i \<Longrightarrow> i < b \<Longrightarrow> \<sigma> i = Ready"
  shows "\<exists>m'. on_slice (reduce_try_leaf op) a b m = Inr (try_range_value f g e xs a b, m') \<and> input_inv xs (mark a b Gone \<sigma>) m'"
proof -
  let ?step = "\<lambda>item acc. try_bind (f item) (\<lambda>y. Returned (Inr (case y of Some v \<Rightarrow> g acc v | None \<Rightarrow> acc)))"
  from law have "reduce_try_body op a = input_body ?step a"
    by (intro ext) (simp add: reduce_try_body_def input_body_def try_reduce_law_def)
  with input_leaf_law [OF r, where step = ?step and acc = e] obtain m' where
    "leaf_loop (input_guard (a, b - a)) (reduce_try_body op a) 0 (b - a) e m = Inr (try_range_value f g e xs a b, m')"
    "input_inv xs (mark a b Gone \<sigma>) m'"
    by (auto simp: run_items_try_fold slice_def try_range_value_def)
  with law show ?thesis
    by (auto simp: on_slice_def reduce_try_leaf_def try_reduce_law_def input_slice [OF r(3,1,2)])
qed

lemma fold_items_gather:
  assumes "reduce_law op f g e c"
  shows "fold_items op xs acc = Inr (bind_out (gather f xs) (\<lambda>ys. Returned (foldl g acc ys)))"
proof (induction xs arbitrary: acc)
  case (Cons x xs)
  show ?case
  proof (cases "f x")
    case (Returned y)
    with Cons.IH [of "case y of Some v \<Rightarrow> g acc v | None \<Rightarrow> acc"] assms show ?thesis
      by (cases "gather f xs") (auto simp: reduce_law_def split: option.splits)
  qed (use assms in \<open>simp add: reduce_law_def\<close>)
qed simp

lemma try_fold_items_gather:
  assumes "try_reduce_law op f g e c"
  shows "try_fold_items op xs acc = try_bind (try_gather f xs) (\<lambda>ys. Returned (Inr (foldl g acc ys)))"
proof (induction xs arbitrary: acc)
  case (Cons x xs)
  show ?case
  proof (cases "f x" rule: try_cases)
    case (1 y)
    with Cons.IH [of "case y of Some v \<Rightarrow> g acc v | None \<Rightarrow> acc"] assms show ?thesis
      by (cases "try_gather f xs" rule: try_cases) (auto simp: try_reduce_law_def split: option.splits)
  qed (use assms in \<open>simp_all add: try_reduce_law_def\<close>)
qed simp

lemma slice_take_drop: "a \<le> b \<Longrightarrow> b \<le> length xs \<Longrightarrow> take (b - a) (drop a xs) = slice xs a b"
  by (rule nth_equalityI) (auto simp: slice_def)

lemma reduce_ref_leaf_law:
  assumes "reduce_law op f g e c" and "a \<le> b" and "b \<le> length xs"
  shows "on_ref (reduce_leaf_by_ref op) a b xs = Inr (range_value f g e xs a b, xs)"
  using assms by (simp add: on_ref_def get_unchecked_def slice_take_drop reduce_leaf_by_ref_def range_value_def
      fold_items_gather [OF assms(1)] reduce_law_def)

lemma reduce_try_ref_leaf_law:
  assumes "try_reduce_law op f g e c" and "a \<le> b" and "b \<le> length xs"
  shows "on_ref (\<lambda>xs. Inr (reduce_try_leaf_by_ref op xs)) a b xs = Inr (try_range_value f g e xs a b, xs)"
  using assms by (simp add: on_ref_def get_unchecked_def slice_take_drop reduce_try_leaf_by_ref_def try_range_value_def
      try_fold_items_gather [OF assms(1)] try_reduce_law_def)

lemma reduce_merge_law:
  assumes "reduce_law op f g e c" and "a \<le> m" and "m \<le> b"
  shows "bind_out (both (range_value f g e xs a m) (range_value f g e xs m b)) (\<lambda>(l, r). ro_combine op l r) = range_value f g e xs a b"
  using assms
  by (cases "gather f (slice xs a m)"; cases "gather f (slice xs m b)")
    (auto simp: range_value_def slice_append [OF assms(2,3)] gather_append reduce_law_def folds_def)

lemma reduce_try_merge_law:
  assumes "try_reduce_law op f g e c" and "a \<le> m" and "m \<le> b"
    and quiet: "is_ok (try_gather f (slice xs a m)) \<or> \<not> panics (try_gather f (slice xs m b))"
  shows "bind_out (both (try_range_value f g e xs a m) (try_range_value f g e xs m b)) (\<lambda>(l, r). merge_partials (tro_combine op) l r) =
     try_range_value f g e xs a b"
  using assms try_gather_append [OF quiet]
  by (cases "try_gather f (slice xs a m)" rule: try_cases; cases "try_gather f (slice xs m b)" rule: try_cases)
    (auto simp: try_range_value_def slice_append [OF assms(2,3)] try_reduce_law_def folds_def)

end
