(* ===== verification/Fused_Publish.thy ===== *)
theory Fused_Publish
  imports Fused_Reduce_Laws
begin

text \<open>
  A strategy that publishes one partial per chunk keeps the dispatcher's contract. The invariant says
  what is left of the input and which cells are full; the ranges are the chunks of the dispatch, or the
  whole batch when a caller on the pool runs a single tree.
\<close>

section \<open>Ranges and their cells\<close>

definition chunk_list :: "bool \<Rightarrow> nat \<Rightarrow> nat \<Rightarrow> (nat \<times> nat) list" where
  "chunk_list single n k = (if single then [(0, n)] else all_chunks n k)"

lemma chunk_list_nth:
  assumes "0 < k" and "k \<le> n" and "(a, b) \<in> set (chunk_list single n k)"
  shows "a < b" and "b \<le> n" and "chunk_of (n div k) (n mod k) a < k" and "chunk_of (n div k) (n mod k) a < length (chunk_list single n k)"
    and "chunk_list single n k ! chunk_of (n div k) (n mod k) a = (a, b)"
proof -
  have chunk: "0 < n div k" using assms(1,2) by (simp add: div_greater_zero_iff)
  have zero: "chunk_of (n div k) (n mod k) 0 = 0" by (simp add: chunk_of_def)
  have "a < b \<and> b \<le> n \<and> chunk_of (n div k) (n mod k) a < k \<and> chunk_of (n div k) (n mod k) a < length (chunk_list single n k) \<and>
      chunk_list single n k ! chunk_of (n div k) (n mod k) a = (a, b)"
  proof (cases single)
    case False
    with assms(3) obtain j where j: "j < k" "a = chunk_start (n div k) (n mod k) j" "b = chunk_start (n div k) (n mod k) (Suc j)"
      by (auto simp: chunk_list_def all_chunks_eq)
    with chunk chunk_start_Suc [of "n div k" "n mod k" j] chunk_start_mono [of "Suc j" k "n div k" "n mod k"] chunk_start_last [OF assms(1), of n]
      chunk_of_start [OF chunk, of "n mod k" j] False
    show ?thesis by (auto simp: chunk_list_def all_chunks_eq split: if_splits)
  qed (use assms zero in \<open>auto simp: chunk_list_def\<close>)
  then show "a < b" "b \<le> n" "chunk_of (n div k) (n mod k) a < k" "chunk_of (n div k) (n mod k) a < length (chunk_list single n k)"
    "chunk_list single n k ! chunk_of (n div k) (n mod k) a = (a, b)" by auto
qed

lemma chunk_list_disjoint:
  assumes "0 < k" and "k \<le> n" and "(a, b) \<in> set (chunk_list single n k)" and "(a', b') \<in> set (chunk_list single n k)"
    and "a \<le> a'" and "a' < b"
  shows "a' = a"
proof (cases single)
  case False
  have chunk: "0 < n div k" using assms(1,2) by (simp add: div_greater_zero_iff)
  from False assms(3,4) obtain j j' where j: "a = chunk_start (n div k) (n mod k) j" "b = chunk_start (n div k) (n mod k) (Suc j)"
    "a' = chunk_start (n div k) (n mod k) j'" by (auto simp: chunk_list_def all_chunks_eq)
  with assms(5,6) chunk_of_iff [OF chunk, of "n mod k" a' j] chunk_of_start [OF chunk, of "n mod k" j'] show ?thesis by auto
qed (use assms in \<open>auto simp: chunk_list_def\<close>)

lemma chunk_list_length: "0 < k \<Longrightarrow> length (chunk_list single n k) \<le> k"
  by (auto simp: chunk_list_def all_chunks_eq)

section \<open>Publishing strategies\<close>

text \<open>The cell of the \<open>j\<close>-th range: full once the range is finished.\<close>

definition cell_of :: "(nat \<Rightarrow> nat \<Rightarrow> ('p, 'f + 'acc) outcome) \<Rightarrow> (nat \<times> nat) list \<Rightarrow> (nat \<Rightarrow> cell) \<Rightarrow> nat \<Rightarrow> 'acc chunk_cell" where
  "cell_of val rs \<sigma> j =
     (if j < length rs \<and> \<sigma> (fst (rs ! j)) = Finished
      then (case val (fst (rs ! j)) (snd (rs ! j)) of Returned (Inr acc) \<Rightarrow> Full acc | _ \<Rightarrow> Empty)
      else Empty)"

definition publish_inv ::
    "((nat \<Rightarrow> cell) \<Rightarrow> 's \<Rightarrow> bool) \<Rightarrow> nat \<Rightarrow> (nat \<Rightarrow> nat \<Rightarrow> ('p, 'f + 'acc) outcome) \<Rightarrow> bool \<Rightarrow> nat \<Rightarrow> (nat \<Rightarrow> cell) \<Rightarrow>
     ('s, 'acc) reduce_mem \<Rightarrow> bool" where
  "publish_inv J n val single k \<sigma> m \<longleftrightarrow> 0 < k \<and> k \<le> n \<and> J \<sigma> (rm_input m) \<and>
     rm_slots m = \<lparr>cs_slots = map (cell_of val (chunk_list single n k) \<sigma>) [0..<k], cs_chunk = n div k, cs_rem = n mod k\<rparr>"

definition value_fate :: "('f \<Rightarrow> ('e, 'p) erased_failure) \<Rightarrow> (nat \<Rightarrow> nat \<Rightarrow> ('p, 'f + 'acc) outcome) \<Rightarrow> nat \<Rightarrow> nat \<Rightarrow> ('e, 'p) erased_failure option" where
  "value_fate to_erased val a b =
     (case val a b of Unwound p \<Rightarrow> Some (PanicFailure p) | Returned (Inl f) \<Rightarrow> Some (to_erased f) | Returned (Inr _) \<Rightarrow> None)"

definition publish_ops :: "(nat \<Rightarrow> nat \<Rightarrow> nat \<Rightarrow> ('s, 'p, 'f + 'acc) closure) \<Rightarrow> (nat \<Rightarrow> nat \<Rightarrow> ('s, 'p, 'f + 'acc) closure) \<Rightarrow>
     (('s, 'acc) reduce_mem, 'p, 'f) hybrid_ops" where
  "publish_ops tree leaf =
     \<lparr>ho_run_chunk = (\<lambda>start stop splits. publishing (tree splits start stop) start),
      ho_run_sequential = (\<lambda>start stop. publishing (leaf start stop) start),
      ho_cleanup_success = cleanup_partial\<rparr>"

lemma cell_of_mark:
  assumes "0 < k" and "k \<le> n" and "(a, b) \<in> set (chunk_list single n k)" and "j < k"
  shows "cell_of val (chunk_list single n k) (mark a b c \<sigma>) j =
     (if j = chunk_of (n div k) (n mod k) a
      then (case val a b of Returned (Inr acc) \<Rightarrow> if c = Finished then Full acc else Empty | _ \<Rightarrow> Empty)
      else cell_of val (chunk_list single n k) \<sigma> j)"
proof -
  note ab = chunk_list_nth [OF assms(1-3)]
  let ?rs = "chunk_list single n k"
  show ?thesis
  proof (cases "j = chunk_of (n div k) (n mod k) a")
    case False
    have "mark a b c \<sigma> (fst (?rs ! j)) = \<sigma> (fst (?rs ! j))" if "j < length ?rs"
    proof -
      from that obtain a' b' where ab': "?rs ! j = (a', b')" "(a', b') \<in> set ?rs" by (metis nth_mem prod.exhaust)
      have "\<not> (a \<le> a' \<and> a' < b)"
      proof
        assume "a \<le> a' \<and> a' < b"
        with chunk_list_disjoint [OF assms(1-3) ab'(2)] have "a' = a" by simp
        moreover have "j = chunk_of (n div k) (n mod k) a'"
        proof (cases single)
          case True
          with that ab' show ?thesis by (auto simp: chunk_list_def chunk_of_def)
        next
          case False
          with that ab'(1) chunk_of_start [of "n div k" "n mod k" j] assms(1,2) show ?thesis
            by (auto simp: chunk_list_def all_chunks_eq div_greater_zero_iff)
        qed
        ultimately show False using False by simp
      qed
      with ab'(1) show ?thesis by (auto simp: mark_def)
    qed
    with False show ?thesis by (auto simp: cell_of_def)
  qed (use ab in \<open>auto simp: cell_of_def split: outcome.splits sum.splits\<close>)
qed

lemma cells_mark_update:
  assumes "0 < k" and "k \<le> n" and "(a, b) \<in> set (chunk_list single n k)"
    and "x = (case val a b of Returned (Inr acc) \<Rightarrow> if c = Finished then Full acc else Empty | _ \<Rightarrow> Empty)"
  shows "(map (cell_of val (chunk_list single n k) \<sigma>) [0..<k])[chunk_of (n div k) (n mod k) a := x] =
     map (cell_of val (chunk_list single n k) (mark a b c \<sigma>)) [0..<k]"
  using assms(4) by (intro nth_equalityI) (auto simp: nth_list_update cell_of_mark [OF assms(1-3)])

locale publisher =
  fixes J :: "(nat \<Rightarrow> cell) \<Rightarrow> 's \<Rightarrow> bool"
    and n :: nat
    and tree :: "nat \<Rightarrow> nat \<Rightarrow> nat \<Rightarrow> ('s, 'p, 'f + 'acc) closure"
    and leaf :: "nat \<Rightarrow> nat \<Rightarrow> ('s, 'p, 'f + 'acc) closure"
    and val :: "nat \<Rightarrow> nat \<Rightarrow> ('p, 'f + 'acc) outcome"
    and tame :: "nat \<Rightarrow> nat \<Rightarrow> bool"
    and to_erased :: "'f \<Rightarrow> ('e, 'p) erased_failure"
  assumes tree_law: "a \<le> b \<Longrightarrow> b \<le> n \<Longrightarrow> J \<sigma> s \<Longrightarrow> (\<And>i. a \<le> i \<Longrightarrow> i < b \<Longrightarrow> \<sigma> i = Ready) \<Longrightarrow> tame a b \<Longrightarrow>
      \<exists>s'. tree splits a b s = Inr (val a b, s') \<and> J (mark a b Gone \<sigma>) s'"
    and leaf_law: "a \<le> b \<Longrightarrow> b \<le> n \<Longrightarrow> J \<sigma> s \<Longrightarrow> (\<And>i. a \<le> i \<Longrightarrow> i < b \<Longrightarrow> \<sigma> i = Ready) \<Longrightarrow> tame a b \<Longrightarrow>
      \<exists>s'. leaf a b s = Inr (val a b, s') \<and> J (mark a b Gone \<sigma>) s'"
    and input_cong: "J \<sigma> s \<Longrightarrow> (\<And>i. i < n \<Longrightarrow> \<sigma> i = Ready \<longleftrightarrow> \<tau> i = Ready) \<Longrightarrow> J \<tau> s"
begin

lemma publishing_runs:
  assumes ab: "a \<le> b" "(a, b) \<in> set (chunk_list single n k)"
    and m: "publish_inv J n val single k \<sigma> m" and rdy: "\<And>i. a \<le> i \<Longrightarrow> i < b \<Longrightarrow> \<sigma> i = Ready"
    and c: "c (rm_input m) = Inr (val a b, s')" "J (mark a b Gone \<sigma>) s'"
  shows "\<exists>r m'. map_err to_erased (publishing c a) m = Inr (r, m') \<and> failure_of r = value_fate to_erased val a b \<and>
     publish_inv J n val single k (mark a b (fated (value_fate to_erased val a b)) \<sigma>) m'"
proof -
  from m have k: "0 < k" "k \<le> n" and cs: "rm_slots m = \<lparr>cs_slots = map (cell_of val (chunk_list single n k) \<sigma>) [0..<k],
      cs_chunk = n div k, cs_rem = n mod k\<rparr>" by (auto simp: publish_inv_def)
  note nth = chunk_list_nth [OF k ab(2)]
  let ?i = "chunk_of (n div k) (n mod k) a"
  have J: "J (mark a b x \<sigma>) s'" if "x \<noteq> Ready" for x
    using that by (intro input_cong [OF c(2)]) (auto simp: mark_def)
  have empty: "map (cell_of val (chunk_list single n k) \<sigma>) [0..<k] = map (cell_of val (chunk_list single n k) (mark a b Gone \<sigma>)) [0..<k]"
  proof -
    have "(map (cell_of val (chunk_list single n k) \<sigma>) [0..<k])[?i := Empty] = map (cell_of val (chunk_list single n k) \<sigma>) [0..<k]"
      using nth rdy [of a] by (intro nth_equalityI) (auto simp: nth_list_update cell_of_def)
    moreover have "Empty = (case val a b of Returned (Inr acc) \<Rightarrow> if Gone = Finished then Full acc else Empty | _ \<Rightarrow> Empty)"
      by (simp split: outcome.splits sum.splits)
    ultimately show ?thesis using cells_mark_update [where x = Empty and val = val and c = Gone and \<sigma> = \<sigma>, OF k ab(2)] by simp
  qed
  show ?thesis
  proof (cases "val a b" rule: try_cases)
    case (1 acc)
    with cells_mark_update [where x = "Full acc" and val = val and c = Finished and \<sigma> = \<sigma>, OF k ab(2)] nth(3) J [of Finished] k c(1) cs show ?thesis
      by (simp add: map_err_def publishing_def publish_def Let_def value_fate_def publish_inv_def)
  next
    case (2 f)
    with J [of Gone] k c(1) cs empty show ?thesis
      by (simp add: map_err_def publishing_def value_fate_def publish_inv_def)
  next
    case (3 p)
    with J [of Gone] k c(1) cs empty show ?thesis
      by (simp add: map_err_def publishing_def value_fate_def publish_inv_def)
  qed
qed

lemma cleanup_runs:
  assumes ab: "a \<le> b" "(a, b) \<in> set (chunk_list single n k)"
    and m: "publish_inv J n val single k \<sigma> m" and fin: "\<And>i. a \<le> i \<Longrightarrow> i < b \<Longrightarrow> \<sigma> i = Finished"
  shows "\<exists>m'. cleanup_partial a b m = Inr m' \<and> publish_inv J n val single k (mark a b Gone \<sigma>) m'"
proof -
  from m have k: "0 < k" "k \<le> n" and cs: "rm_slots m = \<lparr>cs_slots = map (cell_of val (chunk_list single n k) \<sigma>) [0..<k],
      cs_chunk = n div k, cs_rem = n mod k\<rparr>" and J: "J \<sigma> (rm_input m)" by (auto simp: publish_inv_def)
  note nth = chunk_list_nth [OF k ab(2)]
  let ?i = "chunk_of (n div k) (n mod k) a" and ?cells = "map (cell_of val (chunk_list single n k) \<sigma>) [0..<k]"
  have "Empty = (case val a b of Returned (Inr acc) \<Rightarrow> if Gone = Finished then Full acc else Empty | _ \<Rightarrow> Empty)"
    by (simp split: outcome.splits sum.splits)
  from cells_mark_update [where val = val and c = Gone and \<sigma> = \<sigma>, OF k ab(2) this]
  have up: "?cells[?i := Empty] = map (cell_of val (chunk_list single n k) (mark a b Gone \<sigma>)) [0..<k]" .
  have idx: "index_res ?cells ?i = Inr (?cells ! ?i)" using nth(3) by simp
  have keep: "?cells[?i := Empty] = ?cells" if "?cells ! ?i = Empty" using that by (metis list_update_id)
  have "drop_published (rm_slots m) a = Inr ((rm_slots m)\<lparr>cs_slots := ?cells[?i := Empty]\<rparr>)"
    using idx keep by (cases "?cells ! ?i") (simp_all add: drop_published_def cs Let_def)
  moreover have "J (mark a b Gone \<sigma>) (rm_input m)"
    using fin by (intro input_cong [OF J]) (auto simp: mark_def)
  ultimately show ?thesis using k cs up by (simp add: cleanup_partial_def publish_inv_def)
qed

end

sublocale publisher \<subseteq> hybrid: hybrid_strategy "publish_inv J n val single k" n "erased_strategy to_erased (publish_ops tree leaf)"
    "value_fate to_erased val" "\<lambda>a b. (a, b) \<in> set (chunk_list single n k) \<and> tame a b" for single k
proof
  fix a b \<sigma> m splits
  assume *: "a \<le> b" "b \<le> n" "publish_inv J n val single k \<sigma> m" "\<And>i. a \<le> i \<Longrightarrow> i < b \<Longrightarrow> \<sigma> i = Ready"
    and t: "(a, b) \<in> set (chunk_list single n k) \<and> tame a b"
  from *(3) have J: "J \<sigma> (rm_input m)" by (simp add: publish_inv_def)
  from tree_law [OF *(1,2) J *(4)] t obtain s' where s': "tree splits a b (rm_input m) = Inr (val a b, s')" "J (mark a b Gone \<sigma>) s'" by blast
  from publishing_runs [where \<sigma> = \<sigma> and c = "tree splits a b", OF *(1) conjunct1 [OF t] *(3) _ s'] *(4)
  show "\<exists>r m'. ho_run_chunk (erased_strategy to_erased (publish_ops tree leaf)) a b splits m = Inr (r, m') \<and>
      failure_of r = value_fate to_erased val a b \<and> publish_inv J n val single k (mark a b (fated (value_fate to_erased val a b)) \<sigma>) m'"
    by (simp add: erased_strategy_def publish_ops_def)
  from leaf_law [OF *(1,2) J *(4)] t obtain s'' where s'': "leaf a b (rm_input m) = Inr (val a b, s'')" "J (mark a b Gone \<sigma>) s''" by blast
  from publishing_runs [where \<sigma> = \<sigma> and c = "leaf a b", OF *(1) conjunct1 [OF t] *(3) _ s''] *(4)
  show "\<exists>r m'. ho_run_sequential (erased_strategy to_erased (publish_ops tree leaf)) a b m = Inr (r, m') \<and>
      failure_of r = value_fate to_erased val a b \<and> publish_inv J n val single k (mark a b (fated (value_fate to_erased val a b)) \<sigma>) m'"
    by (simp add: erased_strategy_def publish_ops_def)
next
  fix a b \<sigma> m
  assume *: "a \<le> b" "b \<le> n" "publish_inv J n val single k \<sigma> m" "\<And>i. a \<le> i \<Longrightarrow> i < b \<Longrightarrow> \<sigma> i = Finished"
    and t: "(a, b) \<in> set (chunk_list single n k) \<and> tame a b"
  from cleanup_runs [where \<sigma> = \<sigma>, OF *(1) conjunct1 [OF t] *(3)] *(4)
  show "\<exists>m'. ho_cleanup_success (erased_strategy to_erased (publish_ops tree leaf)) a b m = Inr m' \<and>
      publish_inv J n val single k (mark a b Gone \<sigma>) m'"
    by (simp add: erased_strategy_def publish_ops_def)
qed

end
