(* ===== verification/Fused_Reduce_Runs.thy ===== *)
theory Fused_Reduce_Runs
  imports Fused_Publish
begin

text \<open>
  What the four reducing drivers return: the fold of all the outputs in input order, or the failure of
  an item that failed.
\<close>

section \<open>Combining the cells\<close>

lemma try_gather_concat:
  "(\<And>zs. zs \<in> set zss \<Longrightarrow> try_gather h zs = Returned (Inr (k zs))) \<Longrightarrow>
     try_gather h (concat zss) = Returned (Inr (concat (map k zss)))"
proof (induction zss)
  case (Cons zs zss)
  then have "try_gather h zs = Returned (Inr (k zs))" "try_gather h (concat zss) = Returned (Inr (concat (map k zss)))" by auto
  with try_gather_append [of h zs "concat zss"] show ?case by simp
qed simp

lemma combine_some:
  assumes "folds g e c" and "\<And>a b. comb a b = Returned (c a b)"
  shows "combine_cells comb (map (\<lambda>ys. Full (foldl g e ys)) yss @ replicate j Empty) (Some (foldl g e ws)) =
     Returned (Some (foldl g e (ws @ concat yss)))"
proof (induction yss arbitrary: ws)
  case Nil
  have "combine_cells comb (replicate j Empty) acc = Returned acc" for acc by (induction j) simp_all
  then show ?case by simp
next
  case (Cons ys yss)
  from assms have "comb (foldl g e ws) (foldl g e ys) = Returned (foldl g e (ws @ ys))" by (simp only: folds_def)
  with Cons.IH [of "ws @ ys"] show ?case by simp
qed

lemma combine_ranges:
  assumes "folds g e c" and "\<And>a b. comb a b = Returned (c a b)" and "rs \<noteq> []"
    and cover: "concat (map (\<lambda>(a, b). slice xs a b) rs) = xs"
    and ok: "\<And>a b. (a, b) \<in> set rs \<Longrightarrow> is_ok (try_gather h (slice xs a b))"
    and cells: "cells = map (\<lambda>(a, b). case try_range_value h g e xs a b of Returned (Inr acc) \<Rightarrow> Full acc | _ \<Rightarrow> Empty) rs @ replicate j Empty"
  shows "\<exists>ys. try_gather h xs = Returned (Inr ys) \<and> combine_cells comb cells None = Returned (Some (foldl g e ys))"
proof -
  define k where "k zs = (case try_gather h zs of Returned (Inr ys) \<Rightarrow> ys)" for zs
  have k: "try_gather h (slice xs a b) = Returned (Inr (k (slice xs a b)))" if "(a, b) \<in> set rs" for a b
    using ok [OF that] by (cases "try_gather h (slice xs a b)" rule: try_cases) (auto simp: k_def)
  let ?zss = "map (\<lambda>(a, b). slice xs a b) rs"
  have "try_gather h (concat ?zss) = Returned (Inr (concat (map k ?zss)))" by (rule try_gather_concat) (auto simp: k)
  then have whole: "try_gather h xs = Returned (Inr (concat (map k ?zss)))" by (simp only: cover)
  from assms(3) obtain zs zss where zss: "?zss = zs # zss" by (cases rs) auto
  have "cells = map (\<lambda>ys. Full (foldl g e ys)) (map k ?zss) @ replicate j Empty"
    using k by (auto simp: cells try_range_value_def)
  with combine_some [OF assms(1,2), where ws = "k zs" and yss = "map k zss" and j = j] zss whole show ?thesis by simp
qed

section \<open>The dispatch of a publishing strategy\<close>

lemma chunk_list_cover:
  assumes "0 < k"
  shows "concat (map (\<lambda>(a, b). slice xs a b) (chunk_list single (length xs) k)) = xs"
proof -
  have "concat (map (\<lambda>(a, b). [a..<b]) (all_chunks (length xs) k)) = [0..<length xs]"
    using chunks_concat [of "length xs div k" "length xs mod k" k] chunk_start_last [OF assms, of "length xs"]
    by (simp add: all_chunks_eq comp_def)
  then have "map ((!) xs) (concat (map (\<lambda>(a, b). [a..<b]) (all_chunks (length xs) k))) = xs" by (simp add: map_nth)
  then show ?thesis by (simp add: chunk_list_def slice_def map_concat comp_def case_prod_unfold map_nth)
qed

lemma value_fate_range:
  assumes "\<And>p. to_erased (from_panic p) = PanicFailure p"
  shows "value_fate to_erased (try_range_value h g e xs) a b =
     range_fate from_panic to_erased (\<lambda>i. try_bind (h (xs ! i)) (\<lambda>_. Returned (Inr ()))) a b"
proof -
  have "run_items (\<lambda>i _. try_bind (h (xs ! i)) (\<lambda>_. Returned (Inr ()))) is () =
      try_bind (try_gather h (map ((!) xs) is)) (\<lambda>_. Returned (Inr ()))" for "is"
  proof (induction "is")
    case (Cons i "is")
    then show ?case
      by (cases "h (xs ! i)" rule: try_cases; cases "try_gather h (map ((!) xs) is)" rule: try_cases) auto
  qed simp
  then show ?thesis
    by (cases "try_gather h (slice xs a b)" rule: try_cases)
      (auto simp: value_fate_def range_fate_def try_range_value_def slice_def assms)
qed

context publisher
begin

lemma reduce_dispatch_runs:
  assumes val: "val = try_range_value h g e xs" and n: "n = length xs" "xs \<noteq> []"
    and sch: "schedulable env n plan t" and start: "J (\<lambda>_. Ready) inp"
    and tame: "\<forall>(a, b) \<in> set (run_ranges env n plan t). tame a b"
    and erased: "\<And>p. to_erased (from_panic p) = PanicFailure p"
    and comb: "folds g e c" "\<And>a b. comb a b = Returned (c a b)"
  shows "\<exists>r m. reduce_dispatch env (erased_strategy to_erased (publish_ops tree leaf)) n inp plan t = Inr (r, m) \<and>
     J (mark 0 n Gone (\<lambda>_. Ready)) (rm_input m) \<and>
     slot_ok (failure_of r) ((\<lambda>(a, b). range_fate from_panic to_erased (\<lambda>i. try_bind (h (xs ! i)) (\<lambda>_. Returned (Inr ()))) a b)
        ` set (run_ranges env n plan t)) \<and>
     (failure_of r = None \<longrightarrow> (\<exists>ys. try_gather h xs = Returned (Inr ys) \<and> chunk_combine comb (rm_slots m) = Inr (Returned (foldl g e ys))))"
proof -
  from sch obtain k l where k: "hybrid_num_chunks n plan t = Inr k" "chunk_log2 plan k = Inr l" "2 \<le> k"
    "mset (re_order env) = mset (task_set plan l k)"
    "run_ranges env n plan t = (if single_tree (re_on_pool env) (re_mode env) plan l then [(0, n)] else all_chunks n k)"
    by (rule schedulable_cases)
  define single where "single = single_tree (re_on_pool env) (re_mode env) plan l"
  have rs: "run_ranges env n plan t = chunk_list single n k" using k(5) by (simp add: chunk_list_def single_def)
  from n have n0: "0 < n" by simp
  note kb = hybrid_num_chunks_bounds [OF k(1) n0]
  have inv: "publish_inv J n val single k (\<lambda>_. Ready) \<lparr>rm_input = inp, rm_slots = chunk_slots_new n k\<rparr>"
    using kb start by (auto simp: publish_inv_def chunk_slots_new_def cell_of_def intro: nth_equalityI)
  have tm: "(a, b) \<in> set (chunk_list single n k) \<and> tame a b"
    if "(a, b) \<in> set (if single_tree (re_on_pool env) (re_mode env) plan l then [(0, n)] else all_chunks n k)" for a b
    using that tame rs k(5) by auto
  obtain r m where d: "hybrid_dispatch (re_on_pool env) (re_mode env) (re_order env) (erased_strategy to_erased (publish_ops tree leaf)) n plan t
        \<lparr>rm_input = inp, rm_slots = chunk_slots_new n k\<rparr> = Inr (r, m)"
      "slot_ok (failure_of r) ((\<lambda>(a, b). value_fate to_erased val a b) ` set (run_ranges env n plan t))"
      "publish_inv J n val single k (mark 0 n (fated (failure_of r)) (\<lambda>_. Ready)) m"
    using hybrid.dispatch_runs [OF k(1,2) n0 k(3,4) inv refl tm] unfolding k(5) by blast
  from d(3) have J: "J (mark 0 n (fated (failure_of r)) (\<lambda>_. Ready)) (rm_input m)"
    and cs: "cs_slots (rm_slots m) = map (cell_of val (chunk_list single n k) (mark 0 n (fated (failure_of r)) (\<lambda>_. Ready))) [0..<k]"
    by (auto simp: publish_inv_def)
  have "J (mark 0 n Gone (\<lambda>_. Ready)) (rm_input m)" using J by (rule input_cong) (auto simp: mark_def)
  moreover have "\<exists>ys. try_gather h xs = Returned (Inr ys) \<and> chunk_combine comb (rm_slots m) = Inr (Returned (foldl g e ys))"
    if none: "failure_of r = None"
  proof -
    let ?rs = "chunk_list single n k"
    from none d(2) rs have "value_fate to_erased val a b = None" if "(a, b) \<in> set ?rs" for a b
      using that by (fastforce simp: slot_ok_def)
    then have ok: "is_ok (try_gather h (slice xs a b))" if "(a, b) \<in> set ?rs" for a b
      using that by (cases "try_gather h (slice xs a b)" rule: try_cases) (force simp: value_fate_def val try_range_value_def)+
    have len: "length ?rs \<le> k" using chunk_list_length [OF kb(1)] .
    have "fst (?rs ! j) < n" if "j < length ?rs" for j
      using chunk_list_nth(1,2) [OF kb, of "fst (?rs ! j)" "snd (?rs ! j)" single] that by (auto simp: less_le_trans)
    with none len have "cs_slots (rm_slots m) =
        map (\<lambda>(a, b). case try_range_value h g e xs a b of Returned (Inr acc) \<Rightarrow> Full acc | _ \<Rightarrow> Empty) ?rs @ replicate (k - length ?rs) Empty"
      unfolding cs val by (intro nth_equalityI) (auto simp: cell_of_def nth_append case_prod_beta)
    moreover have "?rs \<noteq> []" using kb by (simp add: chunk_list_def all_chunks_eq)
    ultimately obtain ys where "try_gather h xs = Returned (Inr ys)" "combine_cells comb (cs_slots (rm_slots m)) None = Returned (Some (foldl g e ys))"
      using combine_ranges [OF comb _ chunk_list_cover [OF kb(1), of xs single, folded n(1)] ok] by blast
    then show ?thesis by (auto simp: chunk_combine_def)
  qed
  moreover have "reduce_dispatch env (erased_strategy to_erased (publish_ops tree leaf)) n inp plan t = Inr (r, m)"
    using n0 k(1) d(1) by (simp add: reduce_dispatch_def)
  moreover note d(2) [unfolded val value_fate_range [where from_panic = from_panic and to_erased = to_erased, OF erased]]
  ultimately show ?thesis by (intro exI [of _ r] exI [of _ m]) simp
qed

end

section \<open>Instances\<close>

text \<open>An infallible stage seen as a fallible one.\<close>

definition lifted :: "('a \<Rightarrow> ('p, 'o option) outcome) \<Rightarrow> 'a \<Rightarrow> ('p, 'p + 'o option) outcome" where
  "lifted f x = bind_out (f x) (\<lambda>y. Returned (Inr y))"

definition labelled :: "('a \<Rightarrow> ('p, 'e + 'o option) outcome) \<Rightarrow> 'a \<Rightarrow> ('p, ('e, 'p) try_failure + 'o option) outcome" where
  "labelled f x = bind_out (f x) (\<lambda>v. Returned (case v of Inl e \<Rightarrow> Inl (TryError e) | Inr y \<Rightarrow> Inr y))"

lemma lifted_gather: "try_gather (lifted f) xs = bind_out (gather f xs) (\<lambda>ys. Returned (Inr ys))"
proof (induction xs)
  case (Cons x xs)
  then show ?case by (cases "f x"; cases "gather f xs") (auto simp: lifted_def)
qed simp

lemma lifted_value: "try_range_value (lifted f) g e xs a b = bind_out (range_value f g e xs a b) (\<lambda>a. Returned (Inr a))"
  by (cases "gather f (slice xs a b)") (auto simp: try_range_value_def range_value_def lifted_gather)

lemma labelled_gather: "try_gather (labelled f) xs = bind_out (try_gather f xs) (\<lambda>v. Returned (case v of Inl e \<Rightarrow> Inl (TryError e) | Inr ys \<Rightarrow> Inr ys))"
proof (induction xs)
  case (Cons x xs)
  then show ?case by (cases "f x" rule: try_cases; cases "try_gather f xs" rule: try_cases) (auto simp: labelled_def)
qed simp

lemma labelled_value:
  "try_range_value (labelled f) g e xs a b =
     (case try_range_value f g e xs a b of Returned (Inl e) \<Rightarrow> Returned (Inl (TryError e)) | Returned (Inr x) \<Rightarrow> Returned (Inr x) | Unwound p \<Rightarrow> Unwound p)"
  by (cases "try_gather f (slice xs a b)" rule: try_cases) (auto simp: try_range_value_def labelled_gather)

interpretation reduce_tree: value_tree "\<lambda>\<sigma> m. reduce_law op f g e c \<and> input_inv xs \<sigma> m" "length xs" "on_slice (reduce_leaf op)"
    "ro_combine op" "range_value f g e xs" "\<lambda>_ _. reduce_law op f g e c" for op f g e c xs
proof (unfold_locales, goal_cases)
  case (1 a b \<sigma> s)
  then show ?case using reduce_leaf_law [where op = op and \<sigma> = \<sigma>, OF _ 1(1,2)] by auto
next
  case (2 a m b)
  then show ?case by (simp add: reduce_merge_law)
qed simp

interpretation reduce_ref_tree: value_tree "\<lambda>\<sigma> s. reduce_law op f g e c \<and> s = xs" "length xs" "on_ref (reduce_leaf_by_ref op)"
    "ro_combine op" "range_value f g e xs" "\<lambda>_ _. reduce_law op f g e c" for op f g e c xs
proof (unfold_locales, goal_cases)
  case (1 a b \<sigma> s)
  then show ?case using reduce_ref_leaf_law [where op = op, OF _ 1(1,2)] by auto
next
  case (2 a m b)
  then show ?case by (simp add: reduce_merge_law)
qed simp

lemma reduce_try_node:
  assumes "try_reduce_law op (ts_try_apply S) g e c" and "no_late_panic (stage_verdict S xs) a b" and "a \<le> m" and "m \<le> b"
  shows "bind_out (both (try_range_value (ts_try_apply S) g e xs a m) (try_range_value (ts_try_apply S) g e xs m b))
       (\<lambda>(l, r). merge_partials (tro_combine op) l r) = try_range_value (ts_try_apply S) g e xs a b"
proof -
  have "is_ok (try_gather (ts_try_apply S) (slice xs a m)) \<or> \<not> panics (try_gather (ts_try_apply S) (slice xs m b))"
    unfolding try_gather_status using late_panic_excluded [OF assms(2,4)] by blast
  from reduce_try_merge_law [OF assms(1,3,4) this] show ?thesis .
qed

interpretation reduce_try_tree: value_tree "\<lambda>\<sigma> m. try_reduce_law op (ts_try_apply S) g e c \<and> input_inv xs \<sigma> m" "length xs"
    "on_slice (reduce_try_leaf op)" "merge_partials (tro_combine op)" "try_range_value (ts_try_apply S) g e xs"
    "\<lambda>a b. try_reduce_law op (ts_try_apply S) g e c \<and> no_late_panic (stage_verdict S xs) a b" for op S g e c xs
proof (unfold_locales, goal_cases)
  case (1 a b \<sigma> s)
  then show ?case using reduce_try_leaf_law [where op = op and \<sigma> = \<sigma>, OF _ 1(1,2)] by auto
next
  case (2 a m b)
  then show ?case using reduce_try_node [of op S g e c xs a b m] by simp
qed (blast intro: no_late_panic_sub)

interpretation reduce_try_ref_tree: value_tree "\<lambda>\<sigma> s. try_reduce_law op (ts_try_apply S) g e c \<and> s = xs" "length xs"
    "on_ref (\<lambda>xs. Inr (reduce_try_leaf_by_ref op xs))" "merge_partials (tro_combine op)" "try_range_value (ts_try_apply S) g e xs"
    "\<lambda>a b. try_reduce_law op (ts_try_apply S) g e c \<and> no_late_panic (stage_verdict S xs) a b" for op S g e c xs
proof (unfold_locales, goal_cases)
  case (1 a b \<sigma> s)
  then show ?case using reduce_try_ref_leaf_law [where op = op, OF _ 1(1,2)] by auto
next
  case (2 a m b)
  then show ?case using reduce_try_node [of op S g e c xs a b m] by simp
qed (blast intro: no_late_panic_sub)

interpretation reducing: publisher "\<lambda>\<sigma> m. reduce_law op f g e c \<and> input_inv xs \<sigma> m" "length xs"
    "\<lambda>splits a b. infallible (par_reduce_rec stolen op splits a b)" "\<lambda>a b. infallible (on_slice (reduce_leaf op) a b)"
    "try_range_value (lifted f) g e xs" "\<lambda>_ _. reduce_law op f g e c" "PanicFailure :: 'p \<Rightarrow> ('p, 'p) erased_failure"
    for op :: "('a, 'acc, 'p) reduce_op" and f g e c xs stolen
proof (unfold_locales, goal_cases)
  case (1 a b \<sigma> s splits)
  from reduce_tree.par_value_rec_runs [OF 1(1-5), where stolen = stolen and splits = splits] show ?case
    by (auto simp: infallible_def par_reduce_rec_def lifted_value)
next
  case (2 a b \<sigma> s)
  from reduce_tree.leaf_law [OF 2(1-4)] show ?case by (auto simp: infallible_def lifted_value)
next
  case (3 \<sigma> s \<tau>)
  then show ?case using input_inv_cong [of xs \<sigma> s \<tau>] by blast
qed

interpretation reducing_ref: publisher "\<lambda>\<sigma> s. reduce_law op f g e c \<and> s = xs" "length xs"
    "\<lambda>splits a b. infallible (par_reduce_rec_by_ref stolen op splits a b)" "\<lambda>a b. infallible (on_ref (reduce_leaf_by_ref op) a b)"
    "try_range_value (lifted f) g e xs" "\<lambda>_ _. reduce_law op f g e c" "PanicFailure :: 'p \<Rightarrow> ('p, 'p) erased_failure"
    for op :: "('a, 'acc, 'p) reduce_op" and f g e c xs stolen
proof (unfold_locales, goal_cases)
  case (1 a b \<sigma> s splits)
  from reduce_ref_tree.par_value_rec_runs [OF 1(1-5), where stolen = stolen and splits = splits] show ?case
    by (auto simp: infallible_def par_reduce_rec_by_ref_def lifted_value)
next
  case (2 a b \<sigma> s)
  from reduce_ref_tree.leaf_law [OF 2(1-4)] show ?case by (auto simp: infallible_def lifted_value)
qed auto

interpretation try_reducing: publisher "\<lambda>\<sigma> m. try_reduce_law op (ts_try_apply S) g e c \<and> input_inv xs \<sigma> m" "length xs"
    "\<lambda>splits a b. map_err TryError (par_reduce_try_rec stolen op splits a b)" "\<lambda>a b. map_err TryError (on_slice (reduce_try_leaf op) a b)"
    "try_range_value (labelled (ts_try_apply S)) g e xs"
    "\<lambda>a b. try_reduce_law op (ts_try_apply S) g e c \<and> no_late_panic (stage_verdict S xs) a b" into_erased for op S g e c xs stolen
proof (unfold_locales, goal_cases)
  case (1 a b \<sigma> s splits)
  from reduce_try_tree.par_value_rec_runs [OF 1(1-5), where stolen = stolen and splits = splits] show ?case
    by (auto simp: map_err_def par_reduce_try_rec_def labelled_value)
next
  case (2 a b \<sigma> s)
  from reduce_try_tree.leaf_law [OF 2(1-4)] show ?case by (auto simp: map_err_def labelled_value)
next
  case (3 \<sigma> s \<tau>)
  then show ?case using input_inv_cong [of xs \<sigma> s \<tau>] by blast
qed

interpretation try_reducing_ref: publisher "\<lambda>\<sigma> s. try_reduce_law op (ts_try_apply S) g e c \<and> s = xs" "length xs"
    "\<lambda>splits a b. map_err TryError (par_reduce_try_rec_by_ref stolen op splits a b)"
    "\<lambda>a b. map_err TryError (on_ref (\<lambda>xs. Inr (reduce_try_leaf_by_ref op xs)) a b)"
    "try_range_value (labelled (ts_try_apply S)) g e xs"
    "\<lambda>a b. try_reduce_law op (ts_try_apply S) g e c \<and> no_late_panic (stage_verdict S xs) a b" into_erased for op S g e c xs stolen
proof (unfold_locales, goal_cases)
  case (1 a b \<sigma> s splits)
  from reduce_try_ref_tree.par_value_rec_runs [OF 1(1-5), where stolen = stolen and splits = splits] show ?case
    by (auto simp: map_err_def par_reduce_try_rec_by_ref_def labelled_value)
next
  case (2 a b \<sigma> s)
  from reduce_try_ref_tree.leaf_law [OF 2(1-4)] show ?case by (auto simp: map_err_def labelled_value)
qed auto

section \<open>The drivers\<close>

lemma publish_reduce:
  "publish_ops (\<lambda>splits a b. infallible (par_reduce_rec stolen op splits a b)) (\<lambda>a b. infallible (on_slice (reduce_leaf op) a b)) =
     reduce_strategy stolen op"
  "publish_ops (\<lambda>splits a b. infallible (par_reduce_rec_by_ref stolen op splits a b)) (\<lambda>a b. infallible (on_ref (reduce_leaf_by_ref op) a b)) =
     reduce_by_ref_strategy stolen op"
  "publish_ops (\<lambda>splits a b. map_err TryError (par_reduce_try_rec stolen op' splits a b)) (\<lambda>a b. map_err TryError (on_slice (reduce_try_leaf op') a b)) =
     reduce_try_strategy stolen op'"
  "publish_ops (\<lambda>splits a b. map_err TryError (par_reduce_try_rec_by_ref stolen op' splits a b))
       (\<lambda>a b. map_err TryError (on_ref (\<lambda>xs. Inr (reduce_try_leaf_by_ref op' xs)) a b)) =
     reduce_try_by_ref_strategy stolen op'"
  by (simp_all add: publish_ops_def reduce_strategy_def reduce_by_ref_strategy_def reduce_try_strategy_def reduce_try_by_ref_strategy_def)

text \<open>The result of a reduction: the fold of the outputs in order, or the panic of an item that panicked.\<close>

definition reduced :: "('a \<Rightarrow> ('p, 'o option) outcome) \<Rightarrow> ('acc \<Rightarrow> 'o \<Rightarrow> 'acc) \<Rightarrow> 'acc \<Rightarrow> 'a list \<Rightarrow> ('p, 'acc) outcome \<Rightarrow> bool" where
  "reduced f g e xs q \<longleftrightarrow>
     (if \<exists>x \<in> set xs. panics (f x) then \<exists>x \<in> set xs. \<exists>p. f x = Unwound p \<and> q = Unwound p
      else \<exists>ys. gather f xs = Returned ys \<and> q = Returned (foldl g e ys))"

lemma lifted_verdict: "try_bind (lifted f x) (\<lambda>_. Returned (Inr ())) = bind_out (f x) (\<lambda>_. Returned (Inr ()))"
  by (cases "f x") (simp_all add: lifted_def)

lemma finish_reduced:
  assumes sch: "schedulable env (length xs) plan t" and ne: "xs \<noteq> []"
    and slot: "slot_ok (failure_of r) ((\<lambda>(a, b). range_fate (\<lambda>p. p) PanicFailure (\<lambda>i. try_bind (lifted f (xs ! i)) (\<lambda>_. Returned (Inr ()))) a b)
        ` set (run_ranges env (length xs) plan t))"
    and comb: "failure_of r = None \<longrightarrow> (\<exists>ys. try_gather (lifted f) xs = Returned (Inr ys) \<and> chunk_combine combine (rm_slots m) = Inr (Returned (foldl g e ys)))"
  shows "\<exists>q. finish_reduce combine (r, m) = Inr (q, rm_input m) \<and> reduced f g e xs q"
proof -
  let ?v = "\<lambda>i. try_bind (lifted f (xs ! i)) (\<lambda>_. Returned (Inr ()))"
  have ok: "is_ok (?v i) \<longleftrightarrow> \<not> panics (f (xs ! i))" for i by (cases "f (xs ! i)") (simp_all add: lifted_verdict)
  have n: "0 < length xs" using ne by simp
  note items = slot_items [OF sch n slot]
  show ?thesis
  proof (cases "failure_of r")
    case None
    with items(1) have "\<not> (\<exists>x \<in> set xs. panics (f x))" by (auto simp: ok in_set_conv_nth)
    moreover from None comb obtain ys where "gather f xs = Returned ys" "chunk_combine combine (rm_slots m) = Inr (Returned (foldl g e ys))"
      by (cases "gather f xs") (auto simp: lifted_gather)
    ultimately show ?thesis using None by (cases r rule: failure_of.cases) (auto simp: finish_reduce_def reduced_def)
  next
    case (Some d)
    with items(2) obtain i p where i: "i < length xs" "flat (\<lambda>p. p) (?v i) = Inl p" "d = PanicFailure p" by blast
    then have fi: "f (xs ! i) = Unwound p" by (cases "f (xs ! i)") (auto simp: lifted_verdict)
    with i(1) have "\<exists>x \<in> set xs. panics (f x)" by (metis nth_mem panics.simps(1))
    moreover from i(1) fi have "\<exists>x \<in> set xs. f x = Unwound p" by (metis nth_mem)
    ultimately have "reduced f g e xs (Unwound p)" by (auto simp: reduced_def)
    with Some i(3) show ?thesis
      by (cases r rule: failure_of.cases) (auto simp: finish_reduce_def resume_panic_def)
  qed
qed

lemma par_reduce_runs:
  fixes op :: "('a, 'acc, 'p) reduce_op"
  assumes law: "reduce_law op f g e c" and ne: "v_items items \<noteq> []" and sch: "schedulable env (length (v_items items)) plan t"
  shows "\<exists>q m. par_reduce env items op plan t = Inr (q, m) \<and> set (sl_buf (fm_in m)) \<subseteq> {None} \<and> reduced f g e (v_items items) q"
proof -
  have comb: "folds g e c" "\<And>a b. ro_combine op a b = Returned (c a b)" using law by (simp_all add: reduce_law_def)
  have tame: "\<forall>(a, b) \<in> set (run_ranges env (length (v_items items)) plan t). reduce_law op f g e c" using law by simp
  have start: "reduce_law op f g e c \<and> input_inv (v_items items) (\<lambda>_. Ready) (owned_input items)" using law input_start by blast
  from reducing.reduce_dispatch_runs [OF refl refl ne sch start tame refl comb, where stolen = "re_stolen env"] obtain r :: "('p, ('p, 'p) erased_failure + unit) outcome" and m where
    d: "reduce_dispatch env (erased_strategy PanicFailure (reduce_strategy (re_stolen env) op)) (length (v_items items)) (owned_input items) plan t = Inr (r, m)"
      "input_inv (v_items items) (mark 0 (length (v_items items)) Gone (\<lambda>_. Ready)) (rm_input m)"
      "slot_ok (failure_of r) ((\<lambda>(a, b). range_fate (\<lambda>p. p) PanicFailure (\<lambda>i. try_bind (lifted f (v_items items ! i)) (\<lambda>_. Returned (Inr ()))) a b)
        ` set (run_ranges env (length (v_items items)) plan t))"
      "failure_of r = None \<longrightarrow> (\<exists>ys. try_gather (lifted f) (v_items items) = Returned (Inr ys) \<and>
        chunk_combine (ro_combine op) (rm_slots m) = Inr (Returned (foldl g e ys)))"
    unfolding publish_reduce by (elim exE conjE) (rule that)
  from finish_reduced [OF sch ne d(3,4)] d(1) input_end [OF d(2)] show ?thesis by (auto simp: par_reduce_def)
qed

lemma par_reduce_by_ref_runs:
  fixes op :: "('a, 'acc, 'p) reduce_op"
  assumes law: "reduce_law op f g e c" and ne: "xs \<noteq> []" and sch: "schedulable env (length xs) plan t"
  shows "\<exists>q. par_reduce_by_ref env xs op plan t = Inr (q, xs) \<and> reduced f g e xs q"
proof -
  have comb: "folds g e c" "\<And>a b. ro_combine op a b = Returned (c a b)" using law by (simp_all add: reduce_law_def)
  have tame: "\<forall>(a, b) \<in> set (run_ranges env (length xs) plan t). reduce_law op f g e c" using law by simp
  from reducing_ref.reduce_dispatch_runs [OF refl refl ne sch conjI [OF law refl] tame refl comb, where stolen = "re_stolen env"] obtain r :: "('p, ('p, 'p) erased_failure + unit) outcome" and m where
    d: "reduce_dispatch env (erased_strategy PanicFailure (reduce_by_ref_strategy (re_stolen env) op)) (length xs) xs plan t = Inr (r, m)"
      "rm_input m = xs"
      "slot_ok (failure_of r) ((\<lambda>(a, b). range_fate (\<lambda>p. p) PanicFailure (\<lambda>i. try_bind (lifted f (xs ! i)) (\<lambda>_. Returned (Inr ()))) a b)
        ` set (run_ranges env (length xs) plan t))"
      "failure_of r = None \<longrightarrow> (\<exists>ys. try_gather (lifted f) xs = Returned (Inr ys) \<and>
        chunk_combine (ro_combine op) (rm_slots m) = Inr (Returned (foldl g e ys)))"
    unfolding publish_reduce by (elim exE conjE) (rule that)
  from finish_reduced [OF sch ne d(3,4)] d(1,2) show ?thesis by (auto simp: par_reduce_by_ref_def)
qed

end
