(* ===== verification/Fused_Reduce_Pipe.thy ===== *)
theory Fused_Reduce_Pipe
  imports Fused_Reduce_Runs
begin

text \<open>
  The reducing entry points of \<^verbatim>\<open>builder/typed/fused.rs\<close>: \<open>reduce\<close>, \<open>fold\<close>, \<open>sum\<close>, \<open>count\<close>, \<open>min\<close> and
  \<open>max\<close> of a pipe, \<open>try_reduce\<close> and \<open>try_fold\<close> of a fallible one, and the two entries the streaming
  engine uses when it hands a whole chain to the fused core.
\<close>

section \<open>Serial arms\<close>

text \<open>The next output of the chain for an item, as the serial iterators produce it.\<close>

definition stage_next :: "('a, 'o, 'p) fused_stage \<Rightarrow> 'a \<Rightarrow> ('p, 'o option) outcome res" where
  "stage_next S item =
     (if fs_may_filter S then Inr (fs_apply S item)
      else bind_res (fs_apply_pure S item) (\<lambda>r. Inr (bind_out r (\<lambda>y. Returned (Some y)))))"

fun iter_fold :: "('a \<Rightarrow> ('p, 'o option) outcome res) \<Rightarrow> ('acc \<Rightarrow> 'o \<Rightarrow> ('p, 'acc) outcome) \<Rightarrow> 'a list \<Rightarrow> 'acc \<Rightarrow> ('p, 'acc) outcome res" where
  "iter_fold nxt f [] acc = Inr (Returned acc)"
| "iter_fold nxt f (x # xs) acc =
     bind_res (nxt x) (\<lambda>r.
       case bind_out r (\<lambda>y. case y of Some v \<Rightarrow> f acc v | None \<Rightarrow> Returned acc) of
         Unwound p \<Rightarrow> Inr (Unwound p)
       | Returned a \<Rightarrow> iter_fold nxt f xs a)"

text \<open>\<^verbatim>\<open>Iterator::reduce\<close>: the first item seeds the fold of the others.\<close>

fun iter_reduce :: "('a \<Rightarrow> ('p, 'o option) outcome res) \<Rightarrow> ('o \<Rightarrow> 'o \<Rightarrow> ('p, 'o) outcome) \<Rightarrow> 'a list \<Rightarrow> ('p, 'o option) outcome res" where
  "iter_reduce nxt f [] = Inr (Returned None)"
| "iter_reduce nxt f (x # xs) =
     bind_res (nxt x) (\<lambda>r. case r of
        Unwound p \<Rightarrow> Inr (Unwound p)
      | Returned None \<Rightarrow> iter_reduce nxt f xs
      | Returned (Some v) \<Rightarrow> bind_res (iter_fold nxt f xs v) (\<lambda>r. Inr (bind_out r (\<lambda>a. Returned (Some a)))))"

text \<open>The outputs of an iterator, for the \<^verbatim>\<open>Sum\<close> implementation that consumes it.\<close>

fun iter_collect :: "('a \<Rightarrow> ('p, 'o option) outcome res) \<Rightarrow> 'a list \<Rightarrow> ('p, 'o list) outcome res" where
  "iter_collect nxt [] = Inr (Returned [])"
| "iter_collect nxt (x # xs) =
     bind_res (nxt x) (\<lambda>r. case r of
        Unwound p \<Rightarrow> Inr (Unwound p)
      | Returned y \<Rightarrow> bind_res (iter_collect nxt xs) (\<lambda>r. Inr (bind_out r (\<lambda>ys. Returned (case y of Some v \<Rightarrow> v # ys | None \<Rightarrow> ys)))))"

fun serial_try_fold ::
    "('a \<Rightarrow> ('p, 'e + 'o option) outcome) \<Rightarrow> ('acc \<Rightarrow> 'o \<Rightarrow> ('p, 'acc) outcome) \<Rightarrow> 'a list \<Rightarrow> 'acc \<Rightarrow> ('p, 'e + 'acc) outcome" where
  "serial_try_fold h f [] acc = Returned (Inr acc)"
| "serial_try_fold h f (x # xs) acc =
     try_bind (h x) (\<lambda>y. bind_out (case y of Some v \<Rightarrow> f acc v | None \<Rightarrow> Returned acc) (serial_try_fold h f xs))"

section \<open>Entry points\<close>

text \<open>
  The shape all entries share: plan the batch, run the serial arm or the reducing core; the slots of
  the input buffer the core frees come back with the result.
\<close>

definition run_terminal ::
    "split_env \<Rightarrow> nat \<Rightarrow> workload \<Rightarrow> nat \<Rightarrow> ('p, 'r) outcome res \<Rightarrow> (split_plan \<Rightarrow> (('p, 'r) outcome \<times> ('a, unit) fused_mem) res) \<Rightarrow>
     (('p, 'r) outcome \<times> 'a option list) res" where
  "run_terminal senv n w workers serial parallel =
     bind_res (plan_terminal senv n w workers) (\<lambda>tp. case tp of
        Serial \<Rightarrow> bind_res serial (\<lambda>r. Inr (r, []))
      | Parallel plan \<Rightarrow> bind_res (parallel plan) (\<lambda>(r, m). Inr (r, sl_buf (fm_in m))))"

definition pipe_reduce ::
    "run_env \<Rightarrow> split_env \<Rightarrow> nat \<Rightarrow> exec_options \<Rightarrow> ('a, 'o, 'p) fused_stage \<Rightarrow> 'a vec \<Rightarrow> ('o \<Rightarrow> 'o \<Rightarrow> ('p, 'o) outcome) \<Rightarrow>
     (('p, 'o option) outcome \<times> 'a option list) res" where
  "pipe_reduce env senv ncpus x S items op =
     (let n = length (v_items items); workers = exec_workers ncpus x in
      if n = 0 then Inr (Returned None, [])
      else run_terminal senv n (cfg_workload (eo_config x)) workers (iter_reduce (stage_next S) op (v_items items))
             (\<lambda>plan. par_reduce env items (fused_reduce S (option_reducer op)) plan workers))"

definition pipe_fold ::
    "run_env \<Rightarrow> split_env \<Rightarrow> nat \<Rightarrow> exec_options \<Rightarrow> ('a, 'o, 'p) fused_stage \<Rightarrow> 'a vec \<Rightarrow> ('acc \<Rightarrow> ('p, 'acc) outcome) \<Rightarrow> 'acc \<Rightarrow>
     ('acc \<Rightarrow> 'o \<Rightarrow> ('p, 'acc) outcome) \<Rightarrow> ('acc \<Rightarrow> 'acc \<Rightarrow> ('p, 'acc) outcome) \<Rightarrow> (('p, 'acc) outcome \<times> 'a option list) res" where
  "pipe_fold env senv ncpus x S items clone init f combine =
     (let n = length (v_items items); workers = exec_workers ncpus x in
      run_terminal senv n (cfg_workload (eo_config x)) workers (iter_fold (stage_next S) f (v_items items) init)
        (\<lambda>plan. par_reduce env items (fused_reduce S (fold_reducer clone init f combine)) plan workers))"

definition pipe_sum ::
    "run_env \<Rightarrow> split_env \<Rightarrow> nat \<Rightarrow> exec_options \<Rightarrow> ('a, 'o, 'p) fused_stage \<Rightarrow> 'a vec \<Rightarrow> ('o list \<Rightarrow> ('p, 'o) outcome) \<Rightarrow>
     (('p, 'o) outcome \<times> 'a option list) res" where
  "pipe_sum env senv ncpus x S items sum_of =
     (let n = length (v_items items); workers = exec_workers ncpus x in
      run_terminal senv n (cfg_workload (eo_config x)) workers
        (bind_res (iter_collect (stage_next S) (v_items items)) (\<lambda>r. Inr (bind_out r sum_of)))
        (\<lambda>plan. par_reduce env items (fused_reduce S (sum_reducer sum_of)) plan workers))"

definition pipe_count ::
    "run_env \<Rightarrow> split_env \<Rightarrow> nat \<Rightarrow> exec_options \<Rightarrow> ('a, 'o, 'p) fused_stage \<Rightarrow> 'a vec \<Rightarrow> (('p, nat) outcome \<times> 'a option list) res" where
  "pipe_count env senv ncpus x S items =
     (let n = length (v_items items); workers = exec_workers ncpus x in
      if n = 0 then Inr (Returned 0, [])
      else run_terminal senv n (cfg_workload (eo_config x)) workers
             (iter_fold (stage_next S) (\<lambda>c _. Returned (c + 1)) (v_items items) 0)
             (\<lambda>plan. par_reduce env items (fused_reduce S count_reducer) plan workers))"

definition pipe_min :: "run_env \<Rightarrow> split_env \<Rightarrow> nat \<Rightarrow> exec_options \<Rightarrow> ('a, 'o :: linorder, 'p) fused_stage \<Rightarrow> 'a vec \<Rightarrow>
    (('p, 'o option) outcome \<times> 'a option list) res" where
  "pipe_min env senv ncpus x S items = pipe_reduce env senv ncpus x S items (\<lambda>a b. Returned (min a b))"

definition pipe_max :: "run_env \<Rightarrow> split_env \<Rightarrow> nat \<Rightarrow> exec_options \<Rightarrow> ('a, 'o :: linorder, 'p) fused_stage \<Rightarrow> 'a vec \<Rightarrow>
    (('p, 'o option) outcome \<times> 'a option list) res" where
  "pipe_max env senv ncpus x S items = pipe_reduce env senv ncpus x S items (\<lambda>a b. Returned (max a b))"

definition try_pipe_reduce ::
    "run_env \<Rightarrow> split_env \<Rightarrow> nat \<Rightarrow> exec_options \<Rightarrow> ('a, 'o, 'e, 'p) fused_try_stage \<Rightarrow> 'a vec \<Rightarrow> ('o \<Rightarrow> 'o \<Rightarrow> ('p, 'o) outcome) \<Rightarrow>
     (('p, 'e + 'o option) outcome \<times> 'a option list) res" where
  "try_pipe_reduce env senv ncpus x S items op =
     (let n = length (v_items items); workers = exec_workers ncpus x in
      if n = 0 then Inr (Returned (Inr None), [])
      else run_terminal senv n (cfg_workload (eo_config x)) workers
             (Inr (serial_try_fold (ts_try_apply S)
                (\<lambda>acc y. bind_out (case acc of Some a \<Rightarrow> op a y | None \<Rightarrow> Returned y) (\<lambda>v. Returned (Some v))) (v_items items) None))
             (\<lambda>plan. par_reduce_try env items (fused_try_reduce S (option_reducer op)) plan workers))"

definition try_pipe_fold ::
    "run_env \<Rightarrow> split_env \<Rightarrow> nat \<Rightarrow> exec_options \<Rightarrow> ('a, 'o, 'e, 'p) fused_try_stage \<Rightarrow> 'a vec \<Rightarrow> ('acc \<Rightarrow> ('p, 'acc) outcome) \<Rightarrow> 'acc \<Rightarrow>
     ('acc \<Rightarrow> 'o \<Rightarrow> ('p, 'acc) outcome) \<Rightarrow> ('acc \<Rightarrow> 'acc \<Rightarrow> ('p, 'acc) outcome) \<Rightarrow> (('p, 'e + 'acc) outcome \<times> 'a option list) res" where
  "try_pipe_fold env senv ncpus x S items clone init f combine =
     (let n = length (v_items items); workers = exec_workers ncpus x in
      run_terminal senv n (cfg_workload (eo_config x)) workers
        (Inr (serial_try_fold (ts_try_apply S) f (v_items items) init))
        (\<lambda>plan. par_reduce_try env items (fused_try_reduce S (fold_reducer clone init f combine)) plan workers))"

text \<open>The entries of the streaming engine: a composed operation on a batch, with the pool at hand.\<close>

definition fused_pass_collect ::
    "run_env \<Rightarrow> split_env \<Rightarrow> 'a vec \<Rightarrow> ('a \<Rightarrow> ('p, 'o) outcome res) \<Rightarrow> workload \<Rightarrow> nat \<Rightarrow>
     (('p, 'o list) outcome \<times> 'a option list \<times> 'o option list) res" where
  "fused_pass_collect env senv items apply w workers =
     bind_res (plan_terminal senv (length (v_items items)) w workers) (\<lambda>tp. case tp of
        Serial \<Rightarrow> bind_res (pure_collect apply (v_items items)) (\<lambda>r. Inr (r, [], []))
      | Parallel plan \<Rightarrow> bind_res (par_index_collect env items apply plan workers) (\<lambda>(r, inp, outp). Inr (map_outcome_vec r, inp, outp)))"

definition fused_pass_reduce ::
    "run_env \<Rightarrow> split_env \<Rightarrow> 'a vec \<Rightarrow> ('a \<Rightarrow> ('p, 'o) outcome res) \<Rightarrow> ('o, 'acc, 'p) reducer \<Rightarrow> workload \<Rightarrow> nat \<Rightarrow>
     (('p, 'acc) outcome \<times> 'a option list) res" where
  "fused_pass_reduce env senv items apply R w workers =
     run_terminal senv (length (v_items items)) w workers
       (case rd_identity R of
          Unwound p \<Rightarrow> Inr (Unwound p)
        | Returned acc \<Rightarrow>
            iter_fold (\<lambda>item. bind_res (apply item) (\<lambda>r. Inr (bind_out r (\<lambda>y. Returned (Some y))))) (rd_fold R) (v_items items) acc)
       (\<lambda>plan. par_reduce env items (range_reduce apply R) plan workers)"

end
