(* ===== verification/Fused_Claims.thy ===== *)
theory Fused_Claims
  imports Fused_Pipe
begin

text \<open>
  What the collecting entry points of the fused engine return, compared with running the stages over
  the items one after the other, and the one situation in which the tree's cleanup goes wrong.
\<close>

section \<open>Infallible collects\<close>

definition lone_panic :: "('a \<Rightarrow> ('p, 'b) outcome) \<Rightarrow> 'a list \<Rightarrow> bool" where
  "lone_panic f xs \<longleftrightarrow> (\<forall>i j. i < j \<and> j < length xs \<and> panics (f (xs ! i)) \<longrightarrow> \<not> panics (f (xs ! j)))"

lemma gather_returned:
  "(\<And>x. x \<in> set xs \<Longrightarrow> f x = Returned (Some (g x))) \<Longrightarrow> gather f xs = Returned (map g xs)"
  by (induction xs) auto

lemma gather_unwound:
  assumes "\<exists>x \<in> set xs. panics (f x)"
  shows "\<exists>i < length xs. \<exists>p. f (xs ! i) = Unwound p \<and> gather f xs = Unwound p"
  using assms
proof (induction xs)
  case (Cons x xs)
  show ?case
  proof (cases "f x")
    case (Returned y)
    with Cons obtain i p where "i < length xs" "f (xs ! i) = Unwound p" "gather f xs = Unwound p" by auto
    with Returned show ?thesis by (intro exI [of _ "Suc i"]) auto
  qed auto
qed simp

lemma pure_collect_gather:
  assumes "stage_law S" and "\<not> fs_may_filter S"
  shows "pure_collect (fs_apply_pure S) xs = Inr (gather (fs_apply S) xs)"
proof (induction xs)
  case (Cons x xs)
  from assms obtain r where "fs_apply_pure S x = Inr r" "fs_apply S x = bind_out r (\<lambda>y. Returned (Some y))"
    unfolding stage_law_def by blast
  with Cons show ?case by (cases r) (auto simp: bind_out_assoc)
qed simp

lemma stage_law_cases:
  assumes "stage_law S" and "\<not> fs_may_filter S"
  obtains y where "fused_op S x = Inr (Returned y)" "fs_apply S x = Returned (Some y)"
  | p where "fused_op S x = Inr (Unwound p)" "fs_apply S x = Unwound p"
proof -
  from assms obtain r where "fused_op S x = Inr r" "fs_apply S x = bind_out r (\<lambda>y. Returned (Some y))"
    unfolding stage_law_def fused_op_def by blast
  with that show ?thesis by (cases r) auto
qed

text \<open>What an infallible index core returns: all the outputs, or the payload of an item that panicked.\<close>

definition collected :: "('a \<Rightarrow> ('p, 'b) outcome res) \<Rightarrow> 'a list \<Rightarrow> ('p, 'b vec) outcome \<Rightarrow> bool" where
  "collected f xs r \<longleftrightarrow>
     (if \<forall>i < length xs. is_ok (item_verdict (lift_op f) xs i)
      then r = Returned \<lparr>v_items = map (item_output (lift_op f) xs) [0..<length xs], v_cap = length xs\<rparr>
      else \<exists>i < length xs. \<exists>p. item_verdict (lift_op f) xs i = Unwound p \<and> r = Unwound p)"

lemma fused_op_verdict:
  assumes "stage_law S" and "\<not> fs_may_filter S"
  shows "item_verdict (lift_op (fused_op S)) xs i = Unwound p \<longleftrightarrow> fs_apply S (xs ! i) = Unwound p"
    and "\<not> is_ok (item_verdict (lift_op (fused_op S)) xs i) \<longleftrightarrow> panics (fs_apply S (xs ! i))"
    and "panics (item_verdict (lift_op (fused_op S)) xs i) \<longleftrightarrow> panics (fs_apply S (xs ! i))"
  by (cases rule: stage_law_cases [OF assms, of "xs ! i"]; simp add: lift_op_verdict)+

lemma fused_op_total:
  assumes "stage_law S" and "\<not> fs_may_filter S"
  shows "never_faults (fused_op S) xs"
    and "lone_panic (fs_apply S) xs \<Longrightarrow> no_late_panic (item_verdict (lift_op (fused_op S)) xs) 0 (length xs)"
proof -
  show "never_faults (fused_op S) xs" unfolding never_faults_def by (metis stage_law_cases [OF assms])
  show "no_late_panic (item_verdict (lift_op (fused_op S)) xs) 0 (length xs)" if "lone_panic (fs_apply S) xs"
    using that by (auto simp: no_late_panic_def lone_panic_def fused_op_verdict [OF assms])
qed

lemma collected_gather:
  assumes law: "stage_law S" "\<not> fs_may_filter S" and lone: "lone_panic (fs_apply S) xs" and r: "collected (fused_op S) xs r"
  shows "map_outcome_vec r = gather (fs_apply S) xs"
proof (cases "\<forall>i < length xs. is_ok (item_verdict (lift_op (fused_op S)) xs i)")
  case True
  define g where "g x = (case fs_apply S x of Returned (Some y) \<Rightarrow> y)" for x
  have g: "fs_apply S (xs ! i) = Returned (Some (g (xs ! i))) \<and> item_output (lift_op (fused_op S)) xs i = g (xs ! i)"
    if "i < length xs" for i
    using True that fused_op_verdict(2) [OF law, of xs i]
    by (cases rule: stage_law_cases [OF law, of "xs ! i"]) (auto simp: g_def lift_op_output)
  then have "gather (fs_apply S) xs = Returned (map g xs)" by (intro gather_returned) (auto simp: in_set_conv_nth)
  moreover from g have "map (item_output (lift_op (fused_op S)) xs) [0..<length xs] = map g xs"
    by (intro nth_equalityI) auto
  ultimately show ?thesis using True r by (simp add: map_outcome_vec_def collected_def)
next
  case False
  with r obtain i p where i: "i < length xs" "fs_apply S (xs ! i) = Unwound p" "r = Unwound p"
    by (auto simp: fused_op_verdict [OF law] collected_def)
  then have "\<exists>x \<in> set xs. panics (fs_apply S x)" by (metis nth_mem panics.simps(1))
  from gather_unwound [OF this] obtain j q where j: "j < length xs" "fs_apply S (xs ! j) = Unwound q" "gather (fs_apply S) xs = Unwound q"
    by auto
  from lone i j have "i = j" unfolding lone_panic_def by (metis linorder_neqE_nat panics.simps(1))
  with i j show ?thesis by (simp add: map_outcome_vec_def)
qed

lemma index_collect_gather:
  assumes law: "stage_law S" "\<not> fs_may_filter S" and lone: "lone_panic (fs_apply S) (v_items items)"
    and sch: "schedulable env (length (v_items items)) plan t" and ne: "v_items items \<noteq> []"
    and nt: "nt_store_enabled (re_nt env) (re_layout env) (length (v_items items)) = Inr nt"
  shows "\<exists>r inp outp. par_index_collect env items (fused_op S) plan t = Inr (r, inp, outp) \<and>
     map_outcome_vec r = gather (fs_apply S) (v_items items) \<and> set inp \<subseteq> {None} \<and> set outp \<subseteq> {None}"
proof -
  from index_collect_runs [OF sch ne nt fused_op_total(1) [OF law] fused_op_total(2) [OF law lone]] obtain r inp outp where
    "par_index_collect env items (fused_op S) plan t = Inr (r, inp, outp)" "set inp \<subseteq> {None}" "set outp \<subseteq> {None}"
    "collected (fused_op S) (v_items items) r"
    unfolding collected_def by blast
  with collected_gather [OF law lone] show ?thesis by blast
qed

text \<open>
  C20. Fused collect. For a chain built from the stages, \<open>Pipe::collect\<close> returns exactly what running
  the chain over the items one after the other gives, the kept outputs in input order or the panic of
  the first item that panics, whichever path is taken (serial loop, filtering tree, index core on or
  off the pool), whichever halves are stolen and in whatever order the chunks run. It performs no read
  or drop of a dead slot, and every slot of the buffers it frees is empty: nothing is dropped twice and
  nothing leaks, also on a panic. This holds for batches with at most one panicking item when the index
  core runs (a parallel plan and a chain that does not filter); the property on two panics shows that
  it fails there with two. The serial loop and the filtering tree need no such assumption.
\<close>

theorem pipe_collect_sequential:
  assumes "stage_law S"
    and "plan_terminal senv (length (v_items items)) (cfg_workload (eo_config e)) (exec_workers ncpus e) = Inr tp"
    and "\<And>plan. tp = Parallel plan \<Longrightarrow> \<not> fs_may_filter S \<Longrightarrow>
           schedulable env (length (v_items items)) plan (exec_workers ncpus e) \<and> lone_panic (fs_apply S) (v_items items)"
    and "nt_store_enabled (re_nt env) (re_layout env) (length (v_items items)) = Inr nt"
  shows "\<exists>inp outp. pipe_collect env senv ncpus e S items = Inr (gather (fs_apply S) (v_items items), inp, outp) \<and>
     set inp \<subseteq> {None} \<and> set outp \<subseteq> {None}"
proof (cases "v_items items = []")
  case False
  show ?thesis
  proof (cases tp)
    case Serial
    with False assms(2) pure_collect_gather [OF assms(1), of "v_items items"] show ?thesis
      by (auto simp: pipe_collect_def serial_stage_collect_def Let_def)
  next
    case (Parallel plan)
    show ?thesis
    proof (cases "fs_may_filter S")
      case True
      from filter_collect_runs [OF False, of "re_stolen env" S "sp_depth plan"] True Parallel False assms(2) show ?thesis
        by (auto simp: pipe_collect_def Let_def)
    next
      case nf: False
      from index_collect_gather [OF assms(1) nf _ _ False assms(4)] assms(3) [OF Parallel nf] nf Parallel False assms(2) show ?thesis
        by (fastforce simp: pipe_collect_def Let_def)
    qed
  qed
qed (simp add: pipe_collect_def)

text \<open>A batch of four on a pool of two workers: the pool's chunk before the driver's own.\<close>

definition demo_env :: run_env where
  "demo_env = \<lparr>re_on_pool = False, re_mode = HybridOff, re_order = [PoolJob 0, DriverChunk], re_stolen = (\<lambda>_ _. True),
     re_nt = None, re_layout = \<lparr>lay_size = 4, lay_align = 4\<rparr>\<rparr>"

definition demo_exec :: exec_options where
  "demo_exec = \<lparr>eo_config = config_default 8, eo_compute_pool = Some 2, eo_oversubscribe = None\<rparr>"

definition demo_senv :: split_env where
  "demo_senv = \<lparr>env_oversplit = None, env_chunk_slack = None\<rparr>"

definition demo_plan :: split_plan where
  "demo_plan = \<lparr>sp_depth = 1, sp_chunk_slack = 0\<rparr>"

lemma npot_small: "npot_res 1 = Inr 1" "npot_res 2 = Inr 2" "npot_res 4 = Inr 4"
  by (simp_all add: npot_res_def next_power_of_two.simps u64_mod_def Let_def)

lemma trailing_small: "trailing_zeros 1 = 0" "trailing_zeros 2 = 1" "trailing_zeros 4 = 2"
  by (simp_all add: trailing_zeros.simps)

lemma demo_workers: "exec_workers 8 demo_exec = 2"
  by (simp add: exec_workers_def demo_exec_def exec_resolve_def resolve_exec_pool_def pool_workers_def)

lemma demo_depth: "split_depth 4 2 1 = Inr 1"
proof -
  have "mul_u64 2 1 = Inr 2" by (simp add: mul_u64_def u64_mod_def)
  with npot_small trailing_small show ?thesis by (simp add: split_depth_def max_def min_def)
qed

lemma demo_planned: "plan_terminal demo_senv 4 (cfg_workload (eo_config demo_exec)) 2 = Inr (Parallel demo_plan)"
proof -
  have "workload_oversplit None 4 2 Balanced = 1"
    unfolding workload_oversplit_def by (simp add: LOW_OVERSPLIT_ITEMS_PER_THREAD_def max_def)
  then show ?thesis
    by (simp add: plan_terminal_def prefers_serial_def split_plan_new_def demo_depth [unfolded One_nat_def]
        demo_exec_def config_default_def demo_plan_def demo_senv_def)
qed

lemma demo_chunks: "hybrid_num_chunks 4 \<lparr>sp_depth = d, sp_chunk_slack = 0\<rparr> 2 = Inr 2"
    "chunk_log2 \<lparr>sp_depth = d, sp_chunk_slack = 0\<rparr> 2 = Inr 1"
  using npot_small trailing_small by (simp_all add: hybrid_num_chunks_def chunk_log2_def add_u64_def u64_mod_def)

lemma demo_scheduled: "schedulable demo_env 4 demo_plan 2"
  by (simp add: schedulable_def demo_chunks demo_plan_def demo_env_def task_set_def)

theorem pipe_collect_sequential_witness:
  "\<exists>inp outp. pipe_collect demo_env demo_senv 8 demo_exec (stage_map stage_identity (\<lambda>x. if x = 3 then Unwound ''boom'' else Returned (x + 10)))
      \<lparr>v_items = [1, 2, 3, 4 :: nat], v_cap = 6\<rparr> = Inr (Unwound ''boom'', inp, outp) \<and> set inp \<subseteq> {None} \<and> set outp \<subseteq> {None}"
proof -
  let ?S = "stage_map stage_identity (\<lambda>x :: nat. if x = 3 then Unwound ''boom'' else Returned (x + 10))"
  let ?items = "\<lparr>v_items = [1, 2, 3, 4 :: nat], v_cap = 6\<rparr>"
  have n: "length (v_items ?items) = 4" by simp
  have g: "gather (fs_apply ?S) (v_items ?items) = Unwound ''boom''" by (simp add: stage_map_def stage_identity_def)
  have lone: "lone_panic (fs_apply ?S) (v_items ?items)"
    by (auto simp: lone_panic_def stage_map_def stage_identity_def nth_Cons split: nat.splits if_splits)
  have nt: "nt_store_enabled (re_nt demo_env) (re_layout demo_env) 4 = Inr False"
    by (simp add: nt_store_enabled_def demo_env_def)
  show ?thesis
    by (rule pipe_collect_sequential [of ?S demo_senv ?items demo_exec 8 "Parallel demo_plan" demo_env False, unfolded g n])
      (use demo_planned demo_scheduled lone nt in \<open>simp_all add: demo_workers stage_law_map\<close>)
qed

section \<open>Fallible collects\<close>

definition same_failure :: "('p, 'e + 'x) outcome \<Rightarrow> ('p, 'e + 'y) outcome \<Rightarrow> bool" where
  "same_failure v r \<longleftrightarrow> (\<exists>e. v = Returned (Inl e) \<and> r = Returned (Inl e)) \<or> (\<exists>p. v = Unwound p \<and> r = Unwound p)"

text \<open>A result that accounts for every item: all outputs in order, or the failure of one of them, a panic if there is one.\<close>

definition try_result :: "('a \<Rightarrow> ('p, 'e + 'o option) outcome) \<Rightarrow> 'a list \<Rightarrow> ('p, 'e + 'o list) outcome \<Rightarrow> bool" where
  "try_result f xs r \<longleftrightarrow>
     (if \<forall>x \<in> set xs. is_ok (f x) then r = try_gather f xs \<and> is_ok r
      else (\<exists>x \<in> set xs. same_failure (f x) r) \<and> ((\<exists>x \<in> set xs. panics (f x)) \<longrightarrow> panics r))"

lemma try_gather_ok: "is_ok (try_gather f xs) \<longleftrightarrow> (\<forall>x \<in> set xs. is_ok (f x))"
proof (induction xs)
  case (Cons x xs)
  then show ?case by (cases "f x" rule: try_cases; cases "try_gather f xs" rule: try_cases) auto
qed simp

lemma try_gather_failure:
  "\<not> is_ok (try_gather f xs) \<Longrightarrow> \<exists>i < length xs. same_failure (f (xs ! i)) (try_gather f xs) \<and> (\<forall>j < i. is_ok (f (xs ! j)))"
proof (induction xs)
  case (Cons x xs)
  show ?case
  proof (cases "f x" rule: try_cases)
    case (1 y)
    with Cons obtain i where i: "i < length xs" "same_failure (f (xs ! i)) (try_gather f xs)" "\<forall>j < i. is_ok (f (xs ! j))"
      by (cases "try_gather f xs" rule: try_cases) auto
    with 1 show ?thesis
      by (intro exI [of _ "Suc i"]) (auto simp: same_failure_def less_Suc_eq_0_disj)
  qed (auto simp: same_failure_def)
qed simp

lemma try_gather_returned:
  "(\<And>x. x \<in> set xs \<Longrightarrow> f x = Returned (Inr (Some (g x)))) \<Longrightarrow> try_gather f xs = Returned (Inr (map g xs))"
  by (induction xs) auto

lemma same_failure_not_ok: "same_failure v r \<Longrightarrow> \<not> is_ok v \<and> \<not> is_ok r" and same_failure_panics: "same_failure v r \<Longrightarrow> panics v = panics r"
  by (auto simp: same_failure_def)

lemma stage_verdict_status:
  "is_ok (stage_verdict S xs i) = is_ok (ts_try_apply S (xs ! i))" "panics (stage_verdict S xs i) = panics (ts_try_apply S (xs ! i))"
  by (cases "ts_try_apply S (xs ! i)" rule: try_cases; simp add: stage_verdict_def)+

lemma try_gather_result:
  assumes "no_late_panic (stage_verdict S xs) 0 (length xs)"
  shows "try_result (ts_try_apply S) xs (try_gather (ts_try_apply S) xs)"
proof (cases "is_ok (try_gather (ts_try_apply S) xs)")
  case False
  from try_gather_failure [OF False] obtain i where
    i: "i < length xs" "same_failure (ts_try_apply S (xs ! i)) (try_gather (ts_try_apply S) xs)" "\<forall>j < i. is_ok (ts_try_apply S (xs ! j))"
    by blast
  have "panics (ts_try_apply S (xs ! i))" if "x \<in> set xs" "panics (ts_try_apply S x)" for x
  proof -
    from that obtain j where j: "j < length xs" "panics (ts_try_apply S (xs ! j))" by (auto simp: in_set_conv_nth)
    moreover from i(3) j(2) have "\<not> j < i" by (metis is_ok.simps(3) panics.elims(2))
    ultimately show ?thesis
      using assms i(1) same_failure_not_ok [OF i(2)] unfolding no_late_panic_def stage_verdict_status by (metis le0 linorder_neqE_nat)
  qed
  with i False same_failure_panics [OF i(2)] nth_mem [OF i(1)] show ?thesis unfolding try_result_def try_gather_ok by auto
qed (simp add: try_result_def try_gather_ok)

lemma serial_try_gather:
  assumes "try_stage_law S"
  shows "serial_stage_try_collect xs S = Inr (try_gather (ts_try_apply S) xs)"
proof -
  have loop: "serial_try_loop f xs out = try_bind (try_gather f xs) (\<lambda>ys. Returned (Inr (out @ ys)))" for f :: "'a \<Rightarrow> ('d, 'c + 'b option) outcome" and out
  proof (induction xs arbitrary: out)
    case (Cons x xs)
    then show ?case
      by (cases "f x" rule: try_cases; cases "try_gather f xs" rule: try_cases) (auto split: option.splits)
  qed simp
  have pure: "pure_try_collect (ts_try_apply_pure S) xs out = Inr (try_bind (try_gather (ts_try_apply S) xs) (\<lambda>ys. Returned (Inr (out @ ys))))"
    if "\<not> ts_may_filter S" for out
  proof (induction xs arbitrary: out)
    case (Cons x xs)
    from assms that obtain r where "ts_try_apply_pure S x = Inr r" "ts_try_apply S x = try_bind r (\<lambda>y. Returned (Inr (Some y)))"
      unfolding try_stage_law_def by blast
    with Cons show ?case
      by (cases r rule: try_cases; cases "try_gather (ts_try_apply S) xs" rule: try_cases) auto
  qed simp
  have id: "try_bind r (\<lambda>ys. Returned (Inr ys)) = r" for r :: "('d, 'c + 'b list) outcome"
    by (cases r rule: try_cases) auto
  show ?thesis using loop [of _ "[]"] pure [of "[]"] by (simp add: serial_stage_try_collect_def id)
qed

text \<open>What a fallible index core returns.\<close>

definition try_collected :: "('a \<Rightarrow> ('p, 'e + 'b) outcome res) \<Rightarrow> 'a list \<Rightarrow> ('p, 'e + 'b vec) outcome \<Rightarrow> bool" where
  "try_collected f xs r \<longleftrightarrow>
     (if \<forall>i < length xs. is_ok (item_verdict (try_op f) xs i)
      then r = Returned (Inr \<lparr>v_items = map (item_output (try_op f) xs) [0..<length xs], v_cap = length xs\<rparr>)
      else (\<exists>i < length xs. blames (item_verdict (try_op f) xs i) r) \<and>
           ((\<exists>i < length xs. panics (item_verdict (try_op f) xs i)) \<longrightarrow> panics r))"

lemma fused_try_op_returns:
  assumes "try_stage_law S" and "\<not> ts_may_filter S"
  obtains h where "\<And>x. fused_try_op S x = Inr (h x)" "\<And>x. ts_try_apply S x = try_bind (h x) (\<lambda>y. Returned (Inr (Some y)))"
proof -
  have "\<exists>r. fused_try_op S x = Inr r \<and> ts_try_apply S x = try_bind r (\<lambda>y. Returned (Inr (Some y)))" for x
    using assms unfolding try_stage_law_def fused_try_op_def by blast
  with that show thesis by metis
qed

lemma fused_try_op_verdict:
  assumes "try_stage_law S" and "\<not> ts_may_filter S"
  shows "is_ok (item_verdict (try_op (fused_try_op S)) xs i) = is_ok (ts_try_apply S (xs ! i))"
    and "panics (item_verdict (try_op (fused_try_op S)) xs i) = panics (ts_try_apply S (xs ! i))"
proof -
  from fused_try_op_returns [OF assms] obtain h where
    h: "\<And>x. fused_try_op S x = Inr (h x)" "\<And>x. ts_try_apply S x = try_bind (h x) (\<lambda>y. Returned (Inr (Some y)))" by metis
  show "is_ok (item_verdict (try_op (fused_try_op S)) xs i) = is_ok (ts_try_apply S (xs ! i))"
      "panics (item_verdict (try_op (fused_try_op S)) xs i) = panics (ts_try_apply S (xs ! i))"
    by (cases "h (xs ! i)" rule: try_cases; simp add: relabel_verdict [OF h(1)] h(2))+
qed

lemma fused_try_op_total:
  assumes "try_stage_law S" and "\<not> ts_may_filter S"
  shows "never_faults (fused_try_op S) xs"
    and "no_late_panic (stage_verdict S xs) 0 (length xs) \<Longrightarrow> no_late_panic (item_verdict (try_op (fused_try_op S)) xs) 0 (length xs)"
proof -
  from fused_try_op_returns [OF assms] show "never_faults (fused_try_op S) xs" unfolding never_faults_def by metis
  show "no_late_panic (item_verdict (try_op (fused_try_op S)) xs) 0 (length xs)" if "no_late_panic (stage_verdict S xs) 0 (length xs)"
    using that unfolding no_late_panic_def fused_try_op_verdict [OF assms] stage_verdict_status .
qed

lemma try_collected_result:
  assumes law: "try_stage_law S" "\<not> ts_may_filter S" and r: "try_collected (fused_try_op S) xs r"
  shows "try_result (ts_try_apply S) xs (try_bind r (\<lambda>v. Returned (Inr (v_items v))))"
proof -
  let ?f = "fused_try_op S" and ?g = "ts_try_apply S"
  let ?v = "item_verdict (try_op ?f) xs"
  from fused_try_op_returns [OF law] obtain h where
    h: "\<And>x. ?f x = Inr (h x)" "\<And>x. ?g x = try_bind (h x) (\<lambda>y. Returned (Inr (Some y)))" by metis
  have v: "?v i = bind_out (h (xs ! i)) (\<lambda>v. Returned (case v of Inl e \<Rightarrow> Inl (TryError e) | Inr _ \<Rightarrow> Inr ()))" for i
    by (rule relabel_verdict) (rule h(1))
  note st = fused_try_op_verdict [OF law, of xs]
  show ?thesis
  proof (cases "\<forall>i < length xs. is_ok (?v i)")
    case True
    define y where "y x = (case h x of Returned (Inr z) \<Rightarrow> z)" for x
    have y: "h (xs ! i) = Returned (Inr (y (xs ! i)))" if "i < length xs" for i
      using True that by (cases "h (xs ! i)" rule: try_cases) (auto simp: st h(2) y_def)
    then have "map (item_output (try_op ?f) xs) [0..<length xs] = map y xs"
      by (intro nth_equalityI) (auto simp: h(1) intro!: relabel_output)
    moreover from y have "try_gather ?g xs = Returned (Inr (map y xs))"
      by (intro try_gather_returned) (auto simp: in_set_conv_nth h(2))
    ultimately show ?thesis using True r by (auto simp: try_result_def try_collected_def st all_set_conv_all_nth)
  next
    case False
    with r obtain i where i: "i < length xs" "blames (?v i) r" and pan: "(\<exists>i < length xs. panics (?v i)) \<longrightarrow> panics r"
      unfolding try_collected_def by auto
    have bl: "same_failure (?g (xs ! i)) (try_bind r (\<lambda>v. Returned (Inr (v_items v))))"
      using i(2) by (cases "h (xs ! i)" rule: try_cases) (auto simp: v h(2) blames_def same_failure_def)
    have "panics (try_bind r (\<lambda>v. Returned (Inr (v_items v))))" if "x \<in> set xs" "panics (?g x)" for x
    proof -
      from that have "\<exists>i < length xs. panics (?v i)" unfolding st by (metis in_set_conv_nth)
      with pan show ?thesis by (cases r) auto
    qed
    moreover have "\<exists>x \<in> set xs. \<not> is_ok (?g x)" using False unfolding st by (metis nth_mem)
    ultimately show ?thesis using bl nth_mem [OF i(1)] unfolding try_result_def by auto
  qed
qed

lemma index_try_result:
  assumes law: "try_stage_law S" "\<not> ts_may_filter S"
    and sch: "schedulable env (length (v_items items)) plan t" and ne: "v_items items \<noteq> []"
    and late: "no_late_panic (stage_verdict S (v_items items)) 0 (length (v_items items))"
  shows "\<exists>r inp outp. par_index_try_collect env items (fused_try_op S) plan t = Inr (r, inp, outp) \<and> set inp \<subseteq> {None} \<and> set outp \<subseteq> {None} \<and>
     try_result (ts_try_apply S) (v_items items) (try_bind r (\<lambda>v. Returned (Inr (v_items v))))"
proof -
  from index_try_collect_runs [OF sch ne fused_try_op_total(1) [OF law] fused_try_op_total(2) [OF law late]] obtain r inp outp where
    "par_index_try_collect env items (fused_try_op S) plan t = Inr (r, inp, outp)" "set inp \<subseteq> {None}" "set outp \<subseteq> {None}"
    "try_collected (fused_try_op S) (v_items items) r"
    unfolding try_collected_def by blast
  with try_collected_result [OF law] show ?thesis by blast
qed

text \<open>
  C21. Fallible collect. For a chain built from the fallible stages, in a batch where no item panics
  after one that failed, \<open>TryPipe::try_collect\<close> returns all the kept outputs in input order when every
  item succeeds; when some item fails it returns the error of an item that failed, and unwinds with the
  payload of an item that panicked if one does (failures after it included), on the serial loop, on the filtering tree and on
  the index core, for every steal and every order of the chunks. No slot is read or dropped when it is
  dead, and the buffers it frees are empty.
\<close>

theorem try_pipe_collect_accounts:
  assumes "try_stage_law S"
    and "plan_terminal senv (length (v_items items)) (cfg_workload (eo_config e)) (exec_workers ncpus e) = Inr tp"
    and "\<And>plan. tp = Parallel plan \<Longrightarrow> \<not> ts_may_filter S \<Longrightarrow> schedulable env (length (v_items items)) plan (exec_workers ncpus e)"
    and "no_late_panic (stage_verdict S (v_items items)) 0 (length (v_items items))"
  shows "\<exists>r inp outp. try_pipe_collect env senv ncpus e S items = Inr (r, inp, outp) \<and>
     try_result (ts_try_apply S) (v_items items) r \<and> set inp \<subseteq> {None} \<and> set outp \<subseteq> {None}"
proof (cases "v_items items = []")
  case False
  note whole = try_gather_result [OF assms(4)]
  show ?thesis
  proof (cases tp)
    case Serial
    with False assms(2) serial_try_gather [OF assms(1)] whole show ?thesis by (auto simp: try_pipe_collect_def Let_def)
  next
    case (Parallel plan)
    show ?thesis
    proof (cases "ts_may_filter S")
      case True
      from try_filter_collect_runs [OF False assms(4), of "re_stolen env" "sp_depth plan"] True Parallel False assms(2) whole show ?thesis
        by (auto simp: try_pipe_collect_def Let_def)
    next
      case nf: False
      from index_try_result [OF assms(1) nf assms(3) [OF Parallel nf] False assms(4)] nf Parallel False assms(2) show ?thesis
        by (fastforce simp: try_pipe_collect_def Let_def)
    qed
  qed
qed (simp add: try_pipe_collect_def try_result_def)

theorem try_pipe_collect_accounts_witness:
  "\<exists>r inp outp. try_pipe_collect demo_env demo_senv 8 demo_exec
      (try_stage_try_map try_stage_identity (\<lambda>x. if x = 3 then Returned (Inl ''odd'') else Returned (Inr (x + 10)) :: (string, _) outcome))
      \<lparr>v_items = [1, 2, 3, 4 :: nat], v_cap = 6\<rparr> = Inr (r, inp, outp) \<and> r = Returned (Inl ''odd'') \<and> set inp \<subseteq> {None} \<and> set outp \<subseteq> {None}"
proof -
  let ?S = "try_stage_try_map try_stage_identity (\<lambda>x :: nat. if x = 3 then Returned (Inl ''odd'') else Returned (Inr (x + 10)) :: (string, _) outcome)"
  let ?items = "\<lparr>v_items = [1, 2, 3, 4 :: nat], v_cap = 6\<rparr>"
  have n: "length (v_items ?items) = 4" by simp
  have app: "ts_try_apply ?S x = (if x = 3 then Returned (Inl ''odd'') else Returned (Inr (Some (x + 10))))" for x
    by (simp add: try_stage_try_map_def try_stage_identity_def)
  have late: "no_late_panic (stage_verdict ?S (v_items ?items)) 0 4"
    unfolding no_late_panic_def stage_verdict_status app by auto
  have res: "r = Returned (Inl ''odd'')" if "try_result (ts_try_apply ?S) (v_items ?items) r" for r
    using that unfolding try_result_def app by (auto simp: same_failure_def split: if_splits)
  have "\<exists>r inp outp. try_pipe_collect demo_env demo_senv 8 demo_exec ?S ?items = Inr (r, inp, outp) \<and>
     try_result (ts_try_apply ?S) (v_items ?items) r \<and> set inp \<subseteq> {None} \<and> set outp \<subseteq> {None}"
    by (rule try_pipe_collect_accounts [of ?S demo_senv ?items demo_exec 8 "Parallel demo_plan" demo_env, unfolded n])
      (use demo_planned demo_scheduled late in \<open>auto simp: demo_workers\<close>)
  with res show ?thesis by blast
qed

section \<open>Two panics in one tree\<close>

text \<open>A caller on the pool runs the whole batch as one tree.\<close>

lemma dispatch_one_tree:
  assumes "hybrid_num_chunks n plan t = Inr k" and "chunk_log2 plan k = Inr l"
  shows "hybrid_dispatch True HybridOff order S n plan t s = ho_run_chunk S 0 n (sp_depth plan) s"
  using assms by (simp add: hybrid_dispatch_def Let_def)

abbreviation four :: "'a option list \<Rightarrow> 'b option list \<Rightarrow> ('a, 'b) fused_mem" where
  "four i out \<equiv> \<lparr>fm_in = \<lparr>sl_buf = i, sl_len = 4\<rparr>, fm_out = \<lparr>sl_buf = out, sl_len = 4\<rparr>\<rparr>"

definition two_bombs :: "nat \<Rightarrow> (nat, nat) outcome res" where
  "two_bombs x = Inr (if x = 0 \<or> x = 3 then Unwound x else Returned x)"

lemmas leaf_defs = collect_leaf_def as_slice_def range_ok_def par_index_leaf_def index_body_def slot_read_def slot_write_def
  leaf_clean_def index_res_def two_bombs_def

lemma bomb_leaves:
  "collect_leaf two_bombs False 0 1 (four [Some 0, x1, x2, x3] out) = Inr (Unwound 0, four [None, x1, x2, x3] out)"
  "collect_leaf two_bombs False 1 2 (four [x0, Some 1, x2, x3] [y0, y1, y2, y3]) = Inr (Returned (Inr ()), four [x0, None, x2, x3] [y0, Some 1, y2, y3])"
  "collect_leaf two_bombs False 2 3 (four [x0, x1, Some 2, x3] [y0, y1, y2, y3]) = Inr (Returned (Inr ()), four [x0, x1, None, x3] [y0, y1, Some 2, y3])"
  "collect_leaf two_bombs False 3 4 (four [x0, x1, x2, Some 3] out) = Inr (Unwound 3, four [x0, x1, x2, None] out)"
  by (simp_all add: leaf_defs)

lemma bomb_drops:
  "drop_output 1 2 (four inp [y0, Some v, y2, y3]) = Inr (four inp [y0, None, y2, y3])"
  "drop_output 2 3 (four inp [y0, y1, Some v, y3]) = Inr (four inp [y0, y1, None, y3])"
  "drop_output 0 2 (four inp [None, y1, y2, y3]) = Inl UninitRead"
  by (simp_all add: drop_output_def drop_range_def range_ok_def slot_read_def index_res_def upt_rec)

text \<open>
  C22. Two panics in one tree. When an item of the first half of a node fails deep enough to come back
  as a returned error and an item of the second half, run by the same worker, then panics, the unwind
  guard takes the first half for completed and drops its range again: with items 0 and 3 of four
  panicking, \<open>collect\<close> drops an output slot that holds no value.
\<close>

theorem two_panics_double_drop:
  "par_index_collect
     \<lparr>re_on_pool = True, re_mode = HybridOff, re_order = [], re_stolen = (\<lambda>_ _. False), re_nt = None,
      re_layout = \<lparr>lay_size = 4, lay_align = 4\<rparr>\<rparr>
     \<lparr>v_items = [0, 1, 2, 3 :: nat], v_cap = 4\<rparr>
     two_bombs \<lparr>sp_depth = 2, sp_chunk_slack = 0\<rparr> 2 = Inl UninitRead"
proof -
  let ?tree = "par_tree_rec (\<lambda>_ _. False) (\<lambda>p. p) (collect_leaf two_bombs False) drop_output"
  have a: "?tree (Suc 0) 0 2 (four (map Some [0, 1, 2, 3]) [None, None, None, None]) =
      Inr (Returned (Inl 0), four [None, None, Some 2, Some 3] [None, None, None, None])"
    by (simp add: resolve_siblings_def pick_failure_def join_defs bomb_leaves [unfolded One_nat_def] bomb_drops [unfolded One_nat_def])
  have b: "?tree (Suc 0) 2 4 (four [None, None, Some 2, Some 3] [None, None, None, None]) =
      Inr (Unwound 3, four [None, None, None, None] [None, None, None, None])"
    by (simp add: resolve_siblings_def sibling_guard_drop_def join_defs bomb_leaves bomb_drops)
  have "?tree (Suc (Suc 0)) 0 4 (four (map Some [0, 1, 2, 3]) [None, None, None, None]) = Inl UninitRead"
    using a b unfolding par_tree_rec.simps(2) [of _ _ _ _ "Suc 0" 0 4]
    by (simp del: par_tree_rec.simps add: resolve_siblings_def sibling_guard_drop_def join_defs bomb_drops
        numeral_2_eq_2 [symmetric])
  then have "?tree 2 0 4 (four (map Some [0, 1, 2, 3]) [None, None, None, None]) = Inl UninitRead"
    by (simp only: numeral_2_eq_2)
  moreover have sizes: "replicate 4 None = [None, None, None, None]" "Suc (Suc (Suc (Suc 0))) = 4" by (simp_all add: numeral_eq_Suc)
  ultimately show ?thesis
    by (simp del: par_tree_rec.simps add: par_index_collect_def nt_store_enabled_def dispatch_one_tree demo_chunks Let_def erased_strategy_def
        collect_strategy_def tree_ops_def map_err_def slots_from_vec_def slots_uninit_def sizes)
qed

end
