(* ===== verification/Fused_Reduce_Claims.thy ===== *)
theory Fused_Reduce_Claims
  imports Fused_Reduce_Pipe Fused_Claims
begin

text \<open>
  What the reducing entry points return, for an associative operation or a lawful fold.
\<close>

section \<open>Infallible reductions\<close>

lemma stage_next_apply:
  assumes "stage_law S"
  shows "stage_next S x = Inr (fs_apply S x)"
proof (cases "fs_may_filter S")
  case False
  with assms obtain r where "fs_apply_pure S x = Inr r" "fs_apply S x = bind_out r (\<lambda>y. Returned (Some y))"
    unfolding stage_law_def by blast
  with False show ?thesis by (simp add: stage_next_def)
qed (simp add: stage_next_def)

lemma iter_fold_gather:
  assumes "\<And>x. nxt x = Inr (h x)" and "\<And>a v. f a v = Returned (g a v)"
  shows "iter_fold nxt f xs acc = Inr (bind_out (gather h xs) (\<lambda>ys. Returned (foldl g acc ys)))"
proof (induction xs arbitrary: acc)
  case (Cons x xs)
  show ?case
  proof (cases "h x")
    case (Returned y)
    with Cons.IH [of "case y of Some v \<Rightarrow> g acc v | None \<Rightarrow> acc"] assms show ?thesis
      by (cases "gather h xs") (auto split: option.splits)
  qed (simp add: assms)
qed simp

lemma iter_reduce_gather:
  assumes "\<And>x. nxt x = Inr (h x)" and "\<And>a v. f a v = Returned (g a v)"
  shows "iter_reduce nxt f xs = Inr (bind_out (gather h xs) (\<lambda>ys. Returned (foldl (option_fold g) None ys)))"
proof (induction xs)
  case (Cons x xs)
  have fold: "iter_fold nxt f xs v = Inr (bind_out (gather h xs) (\<lambda>ys. Returned (foldl g v ys)))" for v
    using assms by (rule iter_fold_gather)
  show ?case
  proof (cases "h x")
    case (Returned y)
    with Cons.IH assms(1) [of x] fold show ?thesis
      by (cases y; cases "gather h xs") (simp_all add: option_fold_none)
  qed (simp add: assms(1) [of x])
qed simp

text \<open>Folding in order is a reduction.\<close>

lemma reduced_gather: "reduced f g e xs (bind_out (gather f xs) (\<lambda>ys. Returned (foldl g e ys)))"
proof (cases "\<exists>x \<in> set xs. panics (f x)")
  case True
  with gather_unwound [OF True] show ?thesis by (auto simp: reduced_def)
next
  case False
  have "\<exists>ys. gather f xs = Returned ys" using False
  proof (induction xs)
    case (Cons x xs)
    then show ?case by (cases "f x") auto
  qed simp
  with False show ?thesis by (auto simp: reduced_def)
qed

lemma run_terminal_reduced:
  assumes ne: "items = [] \<longrightarrow> tp = Serial" and plan: "plan_terminal senv (length items) w t = Inr tp"
    and serial: "serial = Inr (bind_out (gather f items) (\<lambda>ys. Returned (foldl g e ys)))"
    and parallel: "\<And>plan. tp = Parallel plan \<Longrightarrow> items \<noteq> [] \<Longrightarrow> \<exists>q m. parallel plan = Inr (q, m) \<and> set (sl_buf (fm_in m)) \<subseteq> {None} \<and> reduced f g e items q"
  shows "\<exists>q buf. run_terminal senv (length items) w t serial parallel = Inr (q, buf) \<and> set buf \<subseteq> {None} \<and> reduced f g e items q"
proof (cases tp)
  case Serial
  with plan serial reduced_gather [of f g e items] show ?thesis by (auto simp: run_terminal_def)
next
  case (Parallel p)
  with plan ne parallel [of p] show ?thesis by (auto simp: run_terminal_def)
qed

lemma serial_when_empty: "plan_terminal senv 0 w t = Inr tp \<Longrightarrow> tp = Serial"
  by (simp add: plan_terminal_def prefers_serial_def)

lemma pipe_fold_runs:
  assumes "stage_law S" and "reducer_law (fold_reducer clone init f combine) g init c"
    and "plan_terminal senv (length (v_items items)) (cfg_workload (eo_config x)) (exec_workers ncpus x) = Inr tp"
    and "\<And>plan. tp = Parallel plan \<Longrightarrow> schedulable env (length (v_items items)) plan (exec_workers ncpus x)"
  shows "\<exists>q buf. pipe_fold env senv ncpus x S items clone init f combine = Inr (q, buf) \<and> set buf \<subseteq> {None} \<and>
     reduced (fs_apply S) g init (v_items items) q"
proof -
  have f: "\<And>a v. f a v = Returned (g a v)" using assms(2) by (simp add: reducer_law_def fold_reducer_def)
  show ?thesis
    unfolding pipe_fold_def Let_def
    using serial_when_empty [of senv] assms(3) par_reduce_runs [OF reduce_law_fused [OF assms(1,2)]] assms(4)
    by (intro run_terminal_reduced [OF _ assms(3) iter_fold_gather [OF stage_next_apply [OF assms(1)] f]]) auto
qed

lemma pipe_count_runs:
  assumes "stage_law S"
    and "plan_terminal senv (length (v_items items)) (cfg_workload (eo_config x)) (exec_workers ncpus x) = Inr tp"
    and "\<And>plan. tp = Parallel plan \<Longrightarrow> schedulable env (length (v_items items)) plan (exec_workers ncpus x)"
  shows "\<exists>q buf. pipe_count env senv ncpus x S items = Inr (q, buf) \<and> set buf \<subseteq> {None} \<and>
     reduced (fs_apply S) (\<lambda>c _. Suc c) 0 (v_items items) q"
proof (cases "v_items items = []")
  case False
  have serial: "iter_fold (stage_next S) (\<lambda>c _. Returned (Suc c)) (v_items items) 0 =
      Inr (bind_out (gather (fs_apply S) (v_items items)) (\<lambda>ys. Returned (foldl (\<lambda>c _. Suc c) 0 ys)))"
    by (rule iter_fold_gather) (simp_all add: stage_next_apply [OF assms(1)])
  from False show ?thesis
    unfolding pipe_count_def Let_def
    using par_reduce_runs [OF reduce_law_fused [OF assms(1) reducer_law_count]] assms(3)
    by simp (intro run_terminal_reduced [OF _ assms(2) serial]; auto)
qed (simp add: pipe_count_def reduced_def)

text \<open>
  C24. Parallel reduce. For an associative operation that does not panic and any chain of stages,
  \<open>Pipe::reduce\<close> returns the left-to-right reduction of the kept outputs in input order (nothing when
  there is none) whenever no item panics, and otherwise unwinds with the payload of an item that
  panicked, on the serial path and on the parallel one, for every steal, every order of the chunks and
  any number of panics; every slot of the input is consumed or dropped exactly once.
\<close>

theorem pipe_reduce_sequential:
  assumes "stage_law S" and "\<And>a b. op a b = Returned (g a b)" and "\<And>a b c. g (g a b) c = g a (g b c)"
    and "plan_terminal senv (length (v_items items)) (cfg_workload (eo_config x)) (exec_workers ncpus x) = Inr tp"
    and "\<And>plan. tp = Parallel plan \<Longrightarrow> schedulable env (length (v_items items)) plan (exec_workers ncpus x)"
  shows "\<exists>q buf. pipe_reduce env senv ncpus x S items op = Inr (q, buf) \<and> set buf \<subseteq> {None} \<and>
     (if \<exists>i \<in> set (v_items items). panics (fs_apply S i)
      then \<exists>i \<in> set (v_items items). \<exists>p. fs_apply S i = Unwound p \<and> q = Unwound p
      else \<exists>ys. gather (fs_apply S) (v_items items) = Returned ys \<and>
             q = Returned (case ys of [] \<Rightarrow> None | y # ys \<Rightarrow> Some (foldl g y ys)))"
  unfolding option_fold_none [symmetric] reduced_def [symmetric]
proof (cases "v_items items = []")
  case False
  have law: "reducer_law (option_reducer op) (option_fold g) None (option_combine g)"
    using assms(2,3) by (rule reducer_law_option)
  from False show "\<exists>q buf. pipe_reduce env senv ncpus x S items op = Inr (q, buf) \<and> set buf \<subseteq> {None} \<and>
      reduced (fs_apply S) (option_fold g) None (v_items items) q"
    unfolding pipe_reduce_def Let_def
    using par_reduce_runs [OF reduce_law_fused [OF assms(1) law]] assms(5)
    by simp (intro run_terminal_reduced [OF _ assms(4) iter_reduce_gather [OF stage_next_apply [OF assms(1)] assms(2)]]; auto)
qed (simp add: pipe_reduce_def reduced_def)

theorem pipe_reduce_sequential_witness:
  "\<exists>buf. pipe_reduce demo_env demo_senv 8 demo_exec (stage_filter stage_identity (\<lambda>x. Returned (x \<noteq> 2)) :: (nat, nat, string) fused_stage)
      \<lparr>v_items = [1, 2, 3, 4], v_cap = 6\<rparr> (\<lambda>a b. Returned (a + b)) = Inr (Returned (Some 8), buf) \<and> set buf \<subseteq> {None}"
proof -
  let ?S = "stage_filter stage_identity (\<lambda>x. Returned (x \<noteq> 2)) :: (nat, nat, string) fused_stage"
  let ?items = "\<lparr>v_items = [1, 2, 3, 4 :: nat], v_cap = 6\<rparr>"
  have n: "length (v_items ?items) = 4" by simp
  have app: "fs_apply ?S y = Returned (if y = 2 then None else Some y)" for y
    by (simp add: stage_filter_def stage_identity_def Let_def)
  have "\<exists>q buf. pipe_reduce demo_env demo_senv 8 demo_exec ?S ?items (\<lambda>a b. Returned (a + b)) = Inr (q, buf) \<and> set buf \<subseteq> {None} \<and>
     (if \<exists>i \<in> set (v_items ?items). panics (fs_apply ?S i)
      then \<exists>i \<in> set (v_items ?items). \<exists>p. fs_apply ?S i = Unwound p \<and> q = Unwound p
      else \<exists>ys. gather (fs_apply ?S) (v_items ?items) = Returned ys \<and> q = Returned (case ys of [] \<Rightarrow> None | y # ys \<Rightarrow> Some (foldl (+) y ys)))"
    by (rule pipe_reduce_sequential [of ?S _ "(+)" demo_senv ?items demo_exec 8 "Parallel demo_plan", unfolded n])
      (use demo_planned demo_scheduled in \<open>auto simp: demo_workers\<close>)
  then show ?thesis by (simp add: app)
qed

text \<open>
  The guard of a reduce leaf is armed before the seed is made, and takes the item at its counter for
  moved out: when the clone of the seed unwinds, the first item of the range is never dropped.
\<close>

lemma seed_panic_leaks:
  "reduce_leaf (fused_reduce stage_identity (fold_reducer (\<lambda>_. Unwound p) init f combine)) (0, 2)
     \<lparr>fm_in = \<lparr>sl_buf = [Some a, Some b], sl_len = 2\<rparr>, fm_out = slots_uninit 0\<rparr> =
   Inr (Unwound p, \<lparr>fm_in = \<lparr>sl_buf = [Some a, None], sl_len = 2\<rparr>, fm_out = slots_uninit 0\<rparr>)"
  by (simp add: reduce_leaf_def fused_reduce_def fold_reducer_def input_guard_def leaf_clean_def slot_read_def index_res_def upt_rec)

section \<open>Fallible reductions\<close>

definition try_reduced :: "('a \<Rightarrow> ('p, 'e + 'o option) outcome) \<Rightarrow> ('acc \<Rightarrow> 'o \<Rightarrow> 'acc) \<Rightarrow> 'acc \<Rightarrow> 'a list \<Rightarrow> ('p, 'e + 'acc) outcome \<Rightarrow> bool" where
  "try_reduced f g e xs q \<longleftrightarrow>
     (if \<forall>x \<in> set xs. is_ok (f x) then \<exists>ys. try_gather f xs = Returned (Inr ys) \<and> q = Returned (Inr (foldl g e ys))
      else (\<exists>x \<in> set xs. same_failure (f x) q) \<and> ((\<exists>x \<in> set xs. panics (f x)) \<longrightarrow> panics q))"

lemma labelled_verdict:
  "try_bind (labelled f x) (\<lambda>_. Returned (Inr ())) =
     bind_out (f x) (\<lambda>v. Returned (case v of Inl e \<Rightarrow> Inl (TryError e) | Inr _ \<Rightarrow> Inr ()))"
  by (cases "f x" rule: try_cases) (simp_all add: labelled_def)

lemma finish_try_reduced:
  assumes sch: "schedulable env (length xs) plan t" and ne: "xs \<noteq> []"
    and late: "no_late_panic (stage_verdict S xs) 0 (length xs)"
    and slot: "slot_ok (failure_of r) ((\<lambda>(a, b). range_fate TryPanic into_erased (\<lambda>i. try_bind (labelled (ts_try_apply S) (xs ! i)) (\<lambda>_. Returned (Inr ()))) a b)
        ` set (run_ranges env (length xs) plan t))"
    and comb: "failure_of r = None \<longrightarrow> (\<exists>ys. try_gather (labelled (ts_try_apply S)) xs = Returned (Inr ys) \<and>
        chunk_combine combine (rm_slots m) = Inr (Returned (foldl g e ys)))"
  shows "\<exists>q. finish_try_reduce combine (r, m) = Inr (q, rm_input m) \<and> try_reduced (ts_try_apply S) g e xs q"
proof -
  let ?f = "ts_try_apply S"
  let ?v = "\<lambda>i. try_bind (labelled ?f (xs ! i)) (\<lambda>_. Returned (Inr ()))"
  have st: "is_ok (?v i) = is_ok (?f (xs ! i))" "panics (?v i) = panics (?f (xs ! i))" for i
    by (cases "?f (xs ! i)" rule: try_cases; simp add: labelled_verdict)+
  have late': "no_late_panic ?v 0 (length xs)" using late unfolding no_late_panic_def st stage_verdict_status .
  have n: "0 < length xs" using ne by simp
  note items = slot_items [OF sch n slot]
  show ?thesis
  proof (cases "failure_of r")
    case None
    with items(1) have "\<forall>x \<in> set xs. is_ok (?f x)" by (auto simp: st in_set_conv_nth)
    moreover from None comb obtain ys where "try_gather ?f xs = Returned (Inr ys)" "chunk_combine combine (rm_slots m) = Inr (Returned (foldl g e ys))"
      by (cases "try_gather ?f xs" rule: try_cases) (auto simp: labelled_gather)
    ultimately show ?thesis using None by (cases r rule: failure_of.cases) (auto simp: finish_try_reduce_def try_reduced_def)
  next
    case (Some d)
    with items(2) obtain i h where i: "i < length xs" "flat TryPanic (?v i) = Inl h" "d = into_erased h" by blast
    define q :: "('b, 'c + 'e) outcome" where "q = (case h of TryError e \<Rightarrow> Returned (Inl e) | TryPanic p \<Rightarrow> Unwound p)"
    have "same_failure (?f (xs ! i)) q"
      using i(2) by (cases "?f (xs ! i)" rule: try_cases) (auto simp: labelled_verdict q_def same_failure_def)
    moreover have "panics q" if "x \<in> set xs" "panics (?f x)" for x
    proof -
      from that obtain j where j: "j < length xs" "panics (?v j)" by (auto simp: in_set_conv_nth st)
      with slot_panic [OF sch late' slot _ j(1)] Some i(3) show ?thesis by (cases "?v j"; cases h) (auto simp: q_def)
    qed
    moreover have "\<exists>x \<in> set xs. \<not> is_ok (?f x)" using items(1) Some by (auto simp: st)
    ultimately have "try_reduced ?f g e xs q" using nth_mem [OF i(1)] unfolding try_reduced_def by auto
    with Some i(3) show ?thesis
      by (cases r rule: failure_of.cases; cases h) (auto simp: finish_try_reduce_def q_def)
  qed
qed

lemma par_reduce_try_runs:
  assumes law: "try_reduce_law op (ts_try_apply S) g e c" and ne: "v_items items \<noteq> []"
    and sch: "schedulable env (length (v_items items)) plan t"
    and late: "no_late_panic (stage_verdict S (v_items items)) 0 (length (v_items items))"
  shows "\<exists>q m. par_reduce_try env items op plan t = Inr (q, m) \<and> set (sl_buf (fm_in m)) \<subseteq> {None} \<and>
     try_reduced (ts_try_apply S) g e (v_items items) q"
proof -
  let ?n = "length (v_items items)"
  have comb: "folds g e c" "\<And>a b. tro_combine op a b = Returned (c a b)" using law by (simp_all add: try_reduce_law_def)
  have start: "try_reduce_law op (ts_try_apply S) g e c \<and> input_inv (v_items items) (\<lambda>_. Ready) (owned_input items)" using law input_start by blast
  have "no_late_panic (stage_verdict S (v_items items)) a b" if "(a, b) \<in> set (run_ranges env ?n plan t)" for a b
    using no_late_panic_sub [OF late] run_ranges_cover(1) [OF sch _ that] ne by auto
  with law have tame: "\<forall>(a, b) \<in> set (run_ranges env ?n plan t).
      try_reduce_law op (ts_try_apply S) g e c \<and> no_late_panic (stage_verdict S (v_items items)) a b" by blast
  have erased: "into_erased (TryPanic p) = PanicFailure p" for p by simp
  from try_reducing.reduce_dispatch_runs [where stolen = "re_stolen env" and from_panic = TryPanic, OF refl refl ne sch start tame erased comb] obtain r m where
    d: "reduce_dispatch env (erased_strategy into_erased (reduce_try_strategy (re_stolen env) op)) ?n (owned_input items) plan t = Inr (r, m)"
      "input_inv (v_items items) (mark 0 ?n Gone (\<lambda>_. Ready)) (rm_input m)"
      "slot_ok (failure_of r) ((\<lambda>(a, b). range_fate TryPanic into_erased (\<lambda>i. try_bind (labelled (ts_try_apply S) (v_items items ! i)) (\<lambda>_. Returned (Inr ()))) a b)
        ` set (run_ranges env ?n plan t))"
      "failure_of r = None \<longrightarrow> (\<exists>ys. try_gather (labelled (ts_try_apply S)) (v_items items) = Returned (Inr ys) \<and>
        chunk_combine (tro_combine op) (rm_slots m) = Inr (Returned (foldl g e ys)))"
    unfolding publish_reduce by (elim exE conjE) (rule that)
  from finish_try_reduced [OF sch ne late d(3,4)] d(1) input_end [OF d(2)] show ?thesis by (auto simp: par_reduce_try_def)
qed

lemma par_reduce_try_by_ref_runs:
  assumes law: "try_reduce_law op (ts_try_apply S) g e c" and ne: "xs \<noteq> []" and sch: "schedulable env (length xs) plan t"
    and late: "no_late_panic (stage_verdict S xs) 0 (length xs)"
  shows "\<exists>q. par_reduce_try_by_ref env xs op plan t = Inr (q, xs) \<and> try_reduced (ts_try_apply S) g e xs q"
proof -
  have comb: "folds g e c" "\<And>a b. tro_combine op a b = Returned (c a b)" using law by (simp_all add: try_reduce_law_def)
  have "no_late_panic (stage_verdict S xs) a b" if "(a, b) \<in> set (run_ranges env (length xs) plan t)" for a b
    using no_late_panic_sub [OF late] run_ranges_cover(1) [OF sch _ that] ne by auto
  with law have tame: "\<forall>(a, b) \<in> set (run_ranges env (length xs) plan t).
      try_reduce_law op (ts_try_apply S) g e c \<and> no_late_panic (stage_verdict S xs) a b" by blast
  have erased: "into_erased (TryPanic p) = PanicFailure p" for p by simp
  from try_reducing_ref.reduce_dispatch_runs [where stolen = "re_stolen env" and from_panic = TryPanic,
      OF refl refl ne sch conjI [OF law refl] tame erased comb] obtain r m where
    d: "reduce_dispatch env (erased_strategy into_erased (reduce_try_by_ref_strategy (re_stolen env) op)) (length xs) xs plan t = Inr (r, m)"
      "rm_input m = xs"
      "slot_ok (failure_of r) ((\<lambda>(a, b). range_fate TryPanic into_erased (\<lambda>i. try_bind (labelled (ts_try_apply S) (xs ! i)) (\<lambda>_. Returned (Inr ()))) a b)
        ` set (run_ranges env (length xs) plan t))"
      "failure_of r = None \<longrightarrow> (\<exists>ys. try_gather (labelled (ts_try_apply S)) xs = Returned (Inr ys) \<and>
        chunk_combine (tro_combine op) (rm_slots m) = Inr (Returned (foldl g e ys)))"
    unfolding publish_reduce by (elim exE conjE) (rule that)
  from finish_try_reduced [OF sch ne late d(3,4)] d(1,2) show ?thesis by (auto simp: par_reduce_try_by_ref_def)
qed

lemma serial_try_fold_gather:
  assumes "\<And>a v. f a v = Returned (g a v)"
  shows "serial_try_fold h f xs acc = try_bind (try_gather h xs) (\<lambda>ys. Returned (Inr (foldl g acc ys)))"
proof (induction xs arbitrary: acc)
  case (Cons x xs)
  show ?case
  proof (cases "h x" rule: try_cases)
    case (1 y)
    with Cons.IH [of "case y of Some v \<Rightarrow> g acc v | None \<Rightarrow> acc"] assms show ?thesis
      by (cases "try_gather h xs" rule: try_cases) (auto split: option.splits)
  qed simp_all
qed simp

lemma try_reduced_gather:
  assumes "no_late_panic (stage_verdict S xs) 0 (length xs)"
  shows "try_reduced (ts_try_apply S) g e xs (try_bind (try_gather (ts_try_apply S) xs) (\<lambda>ys. Returned (Inr (foldl g e ys))))"
  using try_gather_result [OF assms] unfolding try_result_def try_reduced_def
  by (cases "try_gather (ts_try_apply S) xs" rule: try_cases) (auto simp: same_failure_def split: if_splits)

text \<open>
  C25. Fallible parallel reduce. For an associative operation that does not panic and any fallible chain,
  in a batch where no item panics after one that failed, \<open>TryPipe::try_reduce\<close> returns the left-to-right
  reduction of the kept outputs in input order when every item succeeds; otherwise it returns the error of
  an item that failed, and unwinds with the payload of an item that panicked if one does, errors after it
  included. Every slot of the input is consumed or dropped exactly once.
\<close>

theorem try_pipe_reduce_accounts:
  assumes "\<And>a b. op a b = Returned (g a b)" and "\<And>a b c. g (g a b) c = g a (g b c)"
    and "plan_terminal senv (length (v_items items)) (cfg_workload (eo_config x)) (exec_workers ncpus x) = Inr tp"
    and "\<And>plan. tp = Parallel plan \<Longrightarrow> schedulable env (length (v_items items)) plan (exec_workers ncpus x)"
    and "no_late_panic (stage_verdict S (v_items items)) 0 (length (v_items items))"
  shows "\<exists>q buf. try_pipe_reduce env senv ncpus x S items op = Inr (q, buf) \<and> set buf \<subseteq> {None} \<and>
     (if \<forall>i \<in> set (v_items items). is_ok (ts_try_apply S i)
      then \<exists>ys. try_gather (ts_try_apply S) (v_items items) = Returned (Inr ys) \<and>
             q = Returned (Inr (case ys of [] \<Rightarrow> None | y # ys \<Rightarrow> Some (foldl g y ys)))
      else (\<exists>i \<in> set (v_items items). same_failure (ts_try_apply S i) q) \<and>
           ((\<exists>i \<in> set (v_items items). panics (ts_try_apply S i)) \<longrightarrow> panics q))"
  unfolding option_fold_none [symmetric] try_reduced_def [symmetric]
proof (cases "v_items items = []")
  case False
  have law: "reducer_law (option_reducer op) (option_fold g) None (option_combine g)"
    using assms(1,2) by (rule reducer_law_option)
  have serial: "serial_try_fold (ts_try_apply S) (\<lambda>acc y. bind_out (case acc of Some a \<Rightarrow> op a y | None \<Rightarrow> Returned y) (\<lambda>v. Returned (Some v)))
      (v_items items) None = try_bind (try_gather (ts_try_apply S) (v_items items)) (\<lambda>ys. Returned (Inr (foldl (option_fold g) None ys)))"
    by (rule serial_try_fold_gather) (simp add: assms(1) option_fold_def split: option.splits)
  show "\<exists>q buf. try_pipe_reduce env senv ncpus x S items op = Inr (q, buf) \<and> set buf \<subseteq> {None} \<and>
      try_reduced (ts_try_apply S) (option_fold g) None (v_items items) q"
  proof (cases tp)
    case Serial
    with False assms(3) try_reduced_gather [OF assms(5), of "option_fold g" None] serial show ?thesis
      by (auto simp: try_pipe_reduce_def run_terminal_def Let_def)
  next
    case (Parallel plan)
    from par_reduce_try_runs [OF try_reduce_law_fused [OF law] False assms(4) [OF Parallel] assms(5)] Parallel False assms(3) show ?thesis
      by (auto simp: try_pipe_reduce_def run_terminal_def Let_def)
  qed
qed (simp add: try_pipe_reduce_def try_reduced_def)

theorem try_pipe_reduce_accounts_witness:
  "\<exists>buf. try_pipe_reduce demo_env demo_senv 8 demo_exec
      (try_stage_try_map try_stage_identity
        (\<lambda>x. if x = 9 then Unwound ''boom'' else if x = 7 then Returned (Inl ''bad'') else Returned (Inr (x * 10))) :: (nat, nat, string, string) fused_try_stage)
      \<lparr>v_items = [1, 9, 7, 4], v_cap = 6\<rparr> (\<lambda>a b. Returned (max a b)) = Inr (Unwound ''boom'', buf) \<and> set buf \<subseteq> {None}"
proof -
  let ?S = "try_stage_try_map try_stage_identity
    (\<lambda>x. if x = 9 then Unwound ''boom'' else if x = 7 then Returned (Inl ''bad'') else Returned (Inr (x * 10))) :: (nat, nat, string, string) fused_try_stage"
  let ?items = "\<lparr>v_items = [1, 9, 7, 4 :: nat], v_cap = 6\<rparr>"
  have n: "length (v_items ?items) = 4" by simp
  have app: "ts_try_apply ?S y = (if y = 9 then Unwound ''boom'' else if y = 7 then Returned (Inl ''bad'') else Returned (Inr (Some (y * 10))))" for y
    by (simp add: try_stage_try_map_def try_stage_identity_def)
  have "[1, 9, 7, 4 :: nat] ! i \<noteq> 9 \<and> [1, 9, 7, 4 :: nat] ! i \<noteq> 7" if "i < j" "j < 4" "[1, 9, 7, 4 :: nat] ! j = 9" for i j
    using that by (auto simp: nth_Cons' split: if_splits)
  note key = this
  have late: "no_late_panic (stage_verdict ?S (v_items ?items)) 0 4"
    unfolding no_late_panic_def stage_verdict_status
  proof (intro allI impI notI, elim conjE)
    fix i j assume ij: "i < j" "j < 4" and i: "\<not> is_ok (ts_try_apply ?S (v_items ?items ! i))"
      and j: "panics (ts_try_apply ?S (v_items ?items ! j))"
    from j have "[1, 9, 7, 4] ! j = (9 :: nat)" unfolding app by (simp split: if_splits)
    from key [OF ij this] i show False unfolding app by simp
  qed
  have "\<exists>q buf. try_pipe_reduce demo_env demo_senv 8 demo_exec ?S ?items (\<lambda>a b. Returned (max a b)) = Inr (q, buf) \<and> set buf \<subseteq> {None} \<and>
     (if \<forall>i \<in> set (v_items ?items). is_ok (ts_try_apply ?S i)
      then \<exists>ys. try_gather (ts_try_apply ?S) (v_items ?items) = Returned (Inr ys) \<and>
             q = Returned (Inr (case ys of [] \<Rightarrow> None | y # ys \<Rightarrow> Some (foldl max y ys)))
      else (\<exists>i \<in> set (v_items ?items). same_failure (ts_try_apply ?S i) q) \<and>
           ((\<exists>i \<in> set (v_items ?items). panics (ts_try_apply ?S i)) \<longrightarrow> panics q))"
    by (rule try_pipe_reduce_accounts [of _ max demo_senv ?items demo_exec 8 "Parallel demo_plan" _ ?S, unfolded n])
      (use demo_planned demo_scheduled late in \<open>auto simp: demo_workers max.assoc\<close>)
  then show ?thesis by (auto simp: app same_failure_def)
qed

end
