(* ===== verification/Fused_Ref.thy ===== *)
theory Fused_Ref
  imports Fused_Reduce_Claims
begin

text \<open>
  The cores of the fused engine that own no input, \<^verbatim>\<open>builder/typed/fused.rs\<close>: over a borrowed slice
  (\<open>pipe_ref\<close>) and over a generated index range (\<open>pipe_range\<close>). Their leaves produce the value of each
  index in place and write it into the output slot; the guard has its output half only.
\<close>

section \<open>Leaves\<close>

text \<open>\<open>produce i\<close> makes the output of item \<open>i\<close> of the view.\<close>

definition produce_body ::
    "'b store \<Rightarrow> (nat \<Rightarrow> ('p, 'e + 'b) outcome res) \<Rightarrow> nat \<Rightarrow> nat \<Rightarrow> unit \<Rightarrow> ((unit, 'b) fused_mem, 'p, 'e + unit) closure" where
  "produce_body store produce out_ptr i acc m =
     bind_res (produce i) (\<lambda>r. case r of
        Returned (Inr out) \<Rightarrow>
          bind_res (store (fm_out m) (out_ptr + i) out) (\<lambda>outp. Inr (Returned (Inr ()), m\<lparr>fm_out := outp\<rparr>))
      | Returned (Inl e) \<Rightarrow> Inr (Returned (Inl e), m)
      | Unwound p \<Rightarrow> Inr (Unwound p, m))"

definition output_guard :: "nat \<times> nat \<Rightarrow> nat \<Rightarrow> (unit, 'b) fused_mem \<Rightarrow> (unit, 'b) fused_mem res" where
  "output_guard output w = leaf_clean True False \<lparr>lc_in = 0, lc_out = fst output, lc_n = snd output, lc_written = w\<rparr>"

text \<open>\<^verbatim>\<open>&*in_ptr.add(i)\<close>: a read in place; past the end of the slice it would be undefined.\<close>

definition peek :: "'a list \<Rightarrow> nat \<Rightarrow> 'a res" where
  "peek xs i = (if i < length xs then Inr (xs ! i) else Inl UninitRead)"

definition par_range_gen_leaf ::
    "(nat \<Rightarrow> ('p, 'b) outcome res) \<Rightarrow> bool \<Rightarrow> nat \<Rightarrow> nat \<times> nat \<Rightarrow> ((unit, 'b) fused_mem, 'p, 'p + unit) closure" where
  "par_range_gen_leaf apply nt base output =
     (let produce = (\<lambda>i. lift_op apply (base + i)) in
      if nt then leaf_loop (output_guard output) (produce_body nt_store produce (fst output)) 0 (snd output) ()
      else leaf_loop (output_guard output) (produce_body slot_write produce (fst output)) 0 (snd output) ())"

definition par_index_leaf_by_ref ::
    "('a \<Rightarrow> ('p, 'b) outcome res) \<Rightarrow> bool \<Rightarrow> 'a list \<Rightarrow> nat \<times> nat \<Rightarrow> ((unit, 'b) fused_mem, 'p, 'p + unit) closure" where
  "par_index_leaf_by_ref apply nt input output m =
     (if length input \<noteq> snd output then Inl ExplicitPanic
      else
        let produce = (\<lambda>i. bind_res (peek input i) (lift_op apply)) in
        if nt then leaf_loop (output_guard output) (produce_body nt_store produce (fst output)) 0 (length input) () m
        else leaf_loop (output_guard output) (produce_body slot_write produce (fst output)) 0 (length input) () m)"

definition par_index_try_leaf_by_ref ::
    "('a \<Rightarrow> ('p, 'e + 'b) outcome res) \<Rightarrow> 'a list \<Rightarrow> nat \<times> nat \<Rightarrow> ((unit, 'b) fused_mem, 'p, 'e + unit) closure" where
  "par_index_try_leaf_by_ref try_apply input output m =
     (if length input \<noteq> snd output then Inl ExplicitPanic
      else leaf_loop (output_guard output)
             (produce_body slot_write (\<lambda>i. bind_res (peek input i) try_apply) (fst output)) 0 (length input) () m)"

section \<open>Strategies\<close>

definition range_gen_leaf ::
    "(nat \<Rightarrow> ('p, 'b) outcome res) \<Rightarrow> bool \<Rightarrow> nat \<Rightarrow> nat \<Rightarrow> nat \<Rightarrow> ((unit, 'b) fused_mem, 'p, 'p + unit) closure" where
  "range_gen_leaf apply nt base start stop m =
     bind_res (as_slice (fm_out m) start stop) (\<lambda>out_slice. par_range_gen_leaf apply nt (base + start) out_slice m)"

definition range_gen_strategy ::
    "(nat \<Rightarrow> nat \<Rightarrow> bool) \<Rightarrow> (nat \<Rightarrow> ('p, 'b) outcome res) \<Rightarrow> bool \<Rightarrow> nat \<Rightarrow> ((unit, 'b) fused_mem, 'p, 'p) hybrid_ops" where
  "range_gen_strategy stolen apply nt base = tree_ops stolen (\<lambda>p. p) (range_gen_leaf apply nt base) drop_output"

definition collect_by_ref_leaf ::
    "('a \<Rightarrow> ('p, 'b) outcome res) \<Rightarrow> bool \<Rightarrow> 'a list \<Rightarrow> nat \<Rightarrow> nat \<Rightarrow> ((unit, 'b) fused_mem, 'p, 'p + unit) closure" where
  "collect_by_ref_leaf apply nt input start stop m =
     bind_res (get_unchecked input start stop) (\<lambda>in_slice.
     bind_res (as_slice (fm_out m) start stop) (\<lambda>out_slice.
     par_index_leaf_by_ref apply nt in_slice out_slice m))"

definition collect_by_ref_strategy ::
    "(nat \<Rightarrow> nat \<Rightarrow> bool) \<Rightarrow> ('a \<Rightarrow> ('p, 'b) outcome res) \<Rightarrow> bool \<Rightarrow> 'a list \<Rightarrow> ((unit, 'b) fused_mem, 'p, 'p) hybrid_ops" where
  "collect_by_ref_strategy stolen apply nt input = tree_ops stolen (\<lambda>p. p) (collect_by_ref_leaf apply nt input) drop_output"

definition try_by_ref_leaf ::
    "('a \<Rightarrow> ('p, 'e + 'b) outcome res) \<Rightarrow> 'a list \<Rightarrow> nat \<Rightarrow> nat \<Rightarrow> ((unit, 'b) fused_mem, 'p, ('e, 'p) try_failure + unit) closure" where
  "try_by_ref_leaf try_apply input start stop m =
     bind_res (get_unchecked input start stop) (\<lambda>in_slice.
     bind_res (as_slice (fm_out m) start stop) (\<lambda>out_slice.
     map_err TryError (par_index_try_leaf_by_ref try_apply in_slice out_slice) m))"

definition try_by_ref_strategy ::
    "(nat \<Rightarrow> nat \<Rightarrow> bool) \<Rightarrow> ('a \<Rightarrow> ('p, 'e + 'b) outcome res) \<Rightarrow> 'a list \<Rightarrow> ((unit, 'b) fused_mem, 'p, ('e, 'p) try_failure) hybrid_ops" where
  "try_by_ref_strategy stolen try_apply input = tree_ops stolen TryPanic (try_by_ref_leaf try_apply input) drop_output"

section \<open>Drivers\<close>

abbreviation output_only :: "nat \<Rightarrow> (unit, 'b) fused_mem" where
  "output_only n \<equiv> \<lparr>fm_in = slots_uninit 0, fm_out = slots_uninit n\<rparr>"

text \<open>The end of the infallible drivers, with the slots of the output buffer they free.\<close>

definition finish_collect ::
    "('p, ('p, 'p) erased_failure + unit) outcome \<times> ('a, 'b) fused_mem \<Rightarrow> (('p, 'b vec) outcome \<times> 'b option list) res" where
  "finish_collect rm = (case rm of (r, m) \<Rightarrow> (case r of
      Unwound p \<Rightarrow> Inr (Unwound p, sl_buf (fm_out m))
    | Returned (Inl f) \<Rightarrow> bind_res (resume_panic f) (\<lambda>u. Inr (u, sl_buf (fm_out m)))
    | Returned (Inr _) \<Rightarrow> bind_res (into_vec (fm_out m)) (\<lambda>v. Inr (Returned v, []))))"

text \<open>A range is a pair of its bounds; its length is zero when they cross.\<close>

definition par_range_gen_collect ::
    "run_env \<Rightarrow> nat \<times> nat \<Rightarrow> (nat \<Rightarrow> ('p, 'b) outcome res) \<Rightarrow> split_plan \<Rightarrow> nat \<Rightarrow> (('p, 'b vec) outcome \<times> 'b option list) res" where
  "par_range_gen_collect env rng apply plan num_threads =
     (let n = snd rng - fst rng in
      if n = 0 then Inl ExplicitPanic
      else
        bind_res (nt_store_enabled (re_nt env) (re_layout env) n) (\<lambda>nt.
        bind_res (hybrid_dispatch (re_on_pool env) (re_mode env) (re_order env)
            (erased_strategy PanicFailure (range_gen_strategy (re_stolen env) apply nt (fst rng))) n plan num_threads (output_only n))
          finish_collect))"

definition par_index_collect_by_ref ::
    "run_env \<Rightarrow> 'a list \<Rightarrow> ('a \<Rightarrow> ('p, 'b) outcome res) \<Rightarrow> split_plan \<Rightarrow> nat \<Rightarrow> (('p, 'b vec) outcome \<times> 'b option list) res" where
  "par_index_collect_by_ref env input apply plan num_threads =
     (let n = length input in
      if n = 0 then Inl ExplicitPanic
      else
        bind_res (nt_store_enabled (re_nt env) (re_layout env) n) (\<lambda>nt.
        bind_res (hybrid_dispatch (re_on_pool env) (re_mode env) (re_order env)
            (erased_strategy PanicFailure (collect_by_ref_strategy (re_stolen env) apply nt input)) n plan num_threads (output_only n))
          finish_collect))"

definition par_index_try_collect_by_ref ::
    "run_env \<Rightarrow> 'a list \<Rightarrow> ('a \<Rightarrow> ('p, 'e + 'b) outcome res) \<Rightarrow> split_plan \<Rightarrow> nat \<Rightarrow> (('p, 'e + 'b vec) outcome \<times> 'b option list) res" where
  "par_index_try_collect_by_ref env input try_apply plan num_threads =
     (let n = length input in
      if n = 0 then Inl ExplicitPanic
      else
        bind_res (hybrid_dispatch (re_on_pool env) (re_mode env) (re_order env)
            (erased_strategy into_erased (try_by_ref_strategy (re_stolen env) try_apply input)) n plan num_threads (output_only n)) (\<lambda>(r, m).
        case r of
          Unwound p \<Rightarrow> Inr (Unwound p, sl_buf (fm_out m))
        | Returned (Inl (OpFailure e)) \<Rightarrow> Inr (Returned (Inl e), sl_buf (fm_out m))
        | Returned (Inl (PanicFailure p)) \<Rightarrow> Inr (Unwound p, sl_buf (fm_out m))
        | Returned (Inr _) \<Rightarrow> bind_res (into_vec (fm_out m)) (\<lambda>v. Inr (Returned (Inr v), []))))"

section \<open>The leaves keep the tree contract\<close>

definition output_inv :: "'a list \<Rightarrow> ('a \<Rightarrow> ('p, 'f + 'b) outcome res) \<Rightarrow> (nat \<Rightarrow> cell) \<Rightarrow> (unit, 'b) fused_mem \<Rightarrow> bool" where
  "output_inv xs g \<sigma> m \<longleftrightarrow> never_faults g xs \<and> out_holds (length xs) (item_output g xs) \<sigma> (fm_out m)"

lemma produce_body_law:
  assumes "b \<le> length xs" and "\<And>i. a \<le> i \<Longrightarrow> i < b \<Longrightarrow> produce (i - a) = g (xs ! i)"
  shows "body_law (output_inv xs g) (\<lambda>i _. item_verdict g xs i) (produce_body slot_write produce a) a b"
  unfolding body_law_def
proof (intro allI impI)
  fix i acc \<sigma> and m :: "(unit, 'd) fused_mem"
  assume i: "a \<le> i" "i < b" and m: "output_inv xs g \<sigma> m" and rdy: "\<sigma> i = Ready"
  with assms have ix: "i < length xs" by simp
  from m ix obtain r where r: "g (xs ! i) = Inr r"
    unfolding output_inv_def never_faults_def by (meson nth_mem)
  from m ix out_write [of "length xs" "item_output g xs" \<sigma> "fm_out m" i] obtain outp where
    outp: "slot_write (fm_out m) i (item_output g xs i) = Inr outp" "out_holds (length xs) (item_output g xs) (\<sigma>(i := Finished)) outp"
    by (auto simp: output_inv_def)
  from m have "out_holds (length xs) (item_output g xs) \<sigma> (fm_out m)" by (simp add: output_inv_def)
  from out_holds_cong [OF this, of "\<sigma>(i := Gone)"] rdy
  have gone: "out_holds (length xs) (item_output g xs) (\<sigma>(i := Gone)) (fm_out m)" by simp
  show "\<exists>m'. produce_body slot_write produce a (i - a) acc m = Inr (item_verdict g xs i, m') \<and>
      output_inv xs g (\<sigma>(i := (if is_ok (item_verdict g xs i) then Finished else Gone))) m'"
    using i outp gone r m assms(2) [OF i]
    by (cases r rule: try_cases)
      (auto simp: produce_body_def item_verdict_def item_output_def output_inv_def)
qed

lemma output_clean_law:
  assumes "b \<le> length xs"
  shows "clean_law (output_inv xs g) (output_guard (a, b - a)) a b"
  unfolding clean_law_def
proof (intro allI impI)
  fix i \<sigma> and m :: "(unit, 'b) fused_mem"
  assume i: "a \<le> i" "i < b" and m: "output_inv xs g (\<sigma>(i := Gone)) m"
    and before: "\<forall>j. a \<le> j \<longrightarrow> j < i \<longrightarrow> \<sigma> j = Finished" and rest: "\<forall>j. i < j \<longrightarrow> j < b \<longrightarrow> \<sigma> j = Ready"
  from m i assms before out_drop [of "length xs" "item_output g xs" "\<sigma>(i := Gone)" "fm_out m" a i Gone] obtain outp where
    outp: "drop_each [a..<i] (fm_out m) = Inr outp" "out_holds (length xs) (item_output g xs) (mark a i Gone (\<sigma>(i := Gone))) outp"
    by (auto simp: output_inv_def)
  have "out_holds (length xs) (item_output g xs) (mark a b Gone \<sigma>) outp"
    using i rest by (intro out_holds_cong [OF outp(2)]) (auto simp: mark_def)
  moreover have "map ((+) a) [0..<i - a] = [a..<i]" using i by (simp add: map_plus_upt)
  ultimately show "\<exists>m'. output_guard (a, b - a) (i - a) m = Inr m' \<and> output_inv xs g (mark a b Gone \<sigma>) m'"
    using outp(1) m by (simp add: output_guard_def leaf_clean_def output_inv_def)
qed

lemma produce_leaf_law:
  assumes "a \<le> b" and "b \<le> length xs" and "output_inv xs g \<sigma> m" and "\<And>i. a \<le> i \<Longrightarrow> i < b \<Longrightarrow> \<sigma> i = Ready"
    and "\<And>i. a \<le> i \<Longrightarrow> i < b \<Longrightarrow> produce (i - a) = g (xs ! i)"
  shows "\<exists>m'. leaf_loop (output_guard (a, b - a)) (produce_body slot_write produce a) 0 (b - a) () m =
       Inr (seq_run (item_verdict g xs) a b, m') \<and>
     output_inv xs g (mark a b (settled (seq_run (item_verdict g xs) a b)) \<sigma>) m'"
proof (rule leaf_loop_range)
  show "body_law (output_inv xs g) (\<lambda>i _. item_verdict g xs i) (produce_body slot_write produce a) a b"
    using assms(2,5) by (rule produce_body_law)
qed (use assms output_clean_law in blast)+

lemma output_slice: "output_inv xs g \<sigma> m \<Longrightarrow> a \<le> b \<Longrightarrow> b \<le> length xs \<Longrightarrow> as_slice (fm_out m) a b = Inr (a, b - a)"
  by (simp add: as_slice_def range_ok_def output_inv_def out_holds_def)

lemma output_drop_law:
  assumes "a \<le> b" and "b \<le> length xs" and "output_inv xs g \<sigma> m" and "\<And>i. a \<le> i \<Longrightarrow> i < b \<Longrightarrow> \<sigma> i = Finished"
  shows "\<exists>m'. drop_output a b m = Inr m' \<and> output_inv xs g (mark a b Gone \<sigma>) m'"
proof -
  from assms out_drop [of "length xs" "item_output g xs" \<sigma> "fm_out m" a b Gone] obtain outp where
    "drop_each [a..<b] (fm_out m) = Inr outp" "out_holds (length xs) (item_output g xs) (mark a b Gone \<sigma>) outp"
    by (auto simp: output_inv_def)
  moreover from assms have "range_ok (fm_out m) a b" by (auto simp: range_ok_def output_inv_def out_holds_def)
  ultimately show ?thesis using assms(3) by (auto simp: drop_output_def drop_range_def output_inv_def)
qed

lemma view_peek:
  assumes "a \<le> b" and "b \<le> length xs"
  shows "get_unchecked xs a b = Inr (take (b - a) (drop a xs))" and "length (take (b - a) (drop a xs)) = b - a"
    and "a \<le> i \<Longrightarrow> i < b \<Longrightarrow> peek (take (b - a) (drop a xs)) (i - a) = Inr (xs ! i)"
  using assms by (auto simp: get_unchecked_def peek_def)

lemma collect_by_ref_leaf_law:
  assumes "a \<le> b" and "b \<le> length xs" and "output_inv xs (lift_op f) \<sigma> m" and "\<And>i. a \<le> i \<Longrightarrow> i < b \<Longrightarrow> \<sigma> i = Ready"
  shows "\<exists>m'. collect_by_ref_leaf f nt xs a b m = Inr (seq_run (item_verdict (lift_op f) xs) a b, m') \<and>
     output_inv xs (lift_op f) (mark a b (settled (seq_run (item_verdict (lift_op f) xs) a b)) \<sigma>) m'"
proof -
  have eq: "collect_by_ref_leaf f nt xs a b m = leaf_loop (output_guard (a, b - a))
      (produce_body slot_write (\<lambda>i. bind_res (peek (take (b - a) (drop a xs)) i) (lift_op f)) a) 0 (b - a) () m"
    using output_slice [OF assms(3,1,2)] view_peek(1,2) [OF assms(1,2)] assms(1,2)
    by (simp add: collect_by_ref_leaf_def par_index_leaf_by_ref_def nt_store_write Let_def)
  show ?thesis unfolding eq by (rule produce_leaf_law [OF assms]) (use view_peek(3) [OF assms(1,2)] in simp_all)
qed

lemma range_gen_leaf_law:
  assumes "a \<le> b" and "b \<le> length [lo..<hi]" and "output_inv [lo..<hi] (lift_op f) \<sigma> m" and "\<And>i. a \<le> i \<Longrightarrow> i < b \<Longrightarrow> \<sigma> i = Ready"
  shows "\<exists>m'. range_gen_leaf f nt lo a b m = Inr (seq_run (item_verdict (lift_op f) [lo..<hi]) a b, m') \<and>
     output_inv [lo..<hi] (lift_op f) (mark a b (settled (seq_run (item_verdict (lift_op f) [lo..<hi]) a b)) \<sigma>) m'"
proof -
  have eq: "range_gen_leaf f nt lo a b m = leaf_loop (output_guard (a, b - a))
      (produce_body slot_write (\<lambda>i. lift_op f (lo + a + i)) a) 0 (b - a) () m"
    using output_slice [OF assms(3,1,2)] by (simp add: range_gen_leaf_def par_range_gen_leaf_def nt_store_write Let_def)
  show ?thesis unfolding eq by (rule produce_leaf_law [OF assms]) (use assms(2) in simp_all)
qed

lemma map_err_produce: "map_err h (produce_body store produce a i acc) = produce_body store (\<lambda>i. relabel h (\<lambda>_. produce i) ()) a i acc"
  by (intro ext)
    (auto simp: map_err_def produce_body_def relabel_def bind_res_def split: sum.splits outcome.splits prod.splits)

lemma try_by_ref_leaf_law:
  assumes "a \<le> b" and "b \<le> length xs" and "output_inv xs (try_op f) \<sigma> m" and "\<And>i. a \<le> i \<Longrightarrow> i < b \<Longrightarrow> \<sigma> i = Ready"
  shows "\<exists>m'. try_by_ref_leaf f xs a b m = Inr (seq_run (item_verdict (try_op f) xs) a b, m') \<and>
     output_inv xs (try_op f) (mark a b (settled (seq_run (item_verdict (try_op f) xs) a b)) \<sigma>) m'"
proof -
  let ?view = "take (b - a) (drop a xs)"
  have "par_index_try_leaf_by_ref f ?view (a, b - a) = leaf_loop (output_guard (a, b - a))
      (produce_body slot_write (\<lambda>i. bind_res (peek ?view i) f) a) 0 (b - a) ()"
    using assms(1,2) by (intro ext) (simp add: par_index_try_leaf_by_ref_def)
  then have eq: "try_by_ref_leaf f xs a b m = leaf_loop (output_guard (a, b - a))
      (produce_body slot_write (\<lambda>i. relabel TryError (\<lambda>_. bind_res (peek ?view i) f) ()) a) 0 (b - a) () m"
    using output_slice [OF assms(3,1,2)] view_peek(1) [OF assms(1,2)]
    by (simp add: try_by_ref_leaf_def map_err_loop map_err_produce)
  show ?thesis unfolding eq by (rule produce_leaf_law [OF assms]) (use view_peek(3) [OF assms(1,2)] in \<open>simp_all add: relabel_def\<close>)
qed

interpretation ref_collecting: erased_tree "output_inv xs (lift_op f)" "length xs" "item_verdict (lift_op f) xs"
    "collect_by_ref_leaf f nt xs" drop_output stolen "\<lambda>p. p" PanicFailure for xs f nt stolen
  by unfold_locales (simp_all add: collect_by_ref_leaf_law output_drop_law)

interpretation range_collecting: erased_tree "output_inv [lo..<hi] (lift_op f)" "length [lo..<hi]" "item_verdict (lift_op f) [lo..<hi]"
    "range_gen_leaf f nt lo" drop_output stolen "\<lambda>p. p" PanicFailure for lo hi f nt stolen
proof (unfold_locales, goal_cases)
  case (1 a b \<sigma> m) then show ?case by (rule range_gen_leaf_law)
next
  case (2 a b \<sigma> m) then show ?case by (rule output_drop_law)
qed simp

interpretation ref_trying: erased_tree "output_inv xs (try_op f)" "length xs" "item_verdict (try_op f) xs"
    "try_by_ref_leaf f xs" drop_output stolen TryPanic into_erased for xs f stolen
  by unfold_locales (simp_all add: try_by_ref_leaf_law output_drop_law)

lemma output_start: "never_faults g xs \<Longrightarrow> output_inv xs g (\<lambda>_. Ready) (output_only (length xs))"
  by (simp add: output_inv_def out_holds_uninit)

lemma output_end:
  assumes "output_inv xs g (mark 0 (length xs) c \<sigma>) m"
  shows "c = Gone \<Longrightarrow> set (sl_buf (fm_out m)) \<subseteq> {None}"
    and "c = Finished \<Longrightarrow> into_vec (fm_out m) = Inr \<lparr>v_items = map (item_output g xs) [0..<length xs], v_cap = length xs\<rparr>"
  using assms by (auto simp: output_inv_def intro!: out_holds_into_vec dest: out_holds_empty elim: subsetD)

section \<open>What the drivers return\<close>

lemma finish_collected:
  assumes total: "never_faults f xs" and inv: "output_inv xs (lift_op f) (mark 0 (length xs) (fated (failure_of r)) \<sigma>) m"
    and ok: "failure_of r = None \<longleftrightarrow> (\<forall>i < length xs. is_ok (item_verdict (lift_op f) xs i))"
    and bad: "\<forall>g. failure_of r = Some g \<longrightarrow> (\<exists>i < length xs. \<exists>p. flat (\<lambda>p. p) (item_verdict (lift_op f) xs i) = Inl p \<and> g = PanicFailure p) \<and>
       ((\<exists>i < length xs. panics (item_verdict (lift_op f) xs i)) \<longrightarrow> (\<exists>p. g = PanicFailure p))"
  shows "\<exists>q outp. finish_collect (r, m) = Inr (q, outp) \<and> set outp \<subseteq> {None} \<and> collected f xs q"
proof (cases "failure_of r")
  case None
  then obtain u where "r = Returned (Inr u)" by (cases r rule: failure_of.cases) auto
  with None ok output_end(2) [OF inv] show ?thesis by (simp add: finish_collect_def collected_def)
next
  case (Some g)
  with bad obtain i p where i: "i < length xs" "flat (\<lambda>p. p) (item_verdict (lift_op f) xs i) = Inl p" "g = PanicFailure p" by blast
  from total i(1) obtain v where "f (xs ! i) = Inr v" unfolding never_faults_def by (meson nth_mem)
  with i(2) have vi: "item_verdict (lift_op f) xs i = Unwound p" by (cases v) (auto simp: lift_op_verdict)
  from Some i(3) have "finish_collect (r, m) = Inr (Unwound p, sl_buf (fm_out m))"
    by (cases r rule: failure_of.cases) (auto simp: finish_collect_def resume_panic_def)
  moreover have "collected f xs (Unwound p)" unfolding collected_def using Some ok i(1) vi by auto
  ultimately show ?thesis using output_end(1) [OF inv] Some by auto
qed

lemma ref_collect_runs:
  fixes f :: "'a \<Rightarrow> ('p, 'b) outcome res"
  assumes sch: "schedulable env (length xs) plan t" and ne: "xs \<noteq> []"
    and nt: "nt_store_enabled (re_nt env) (re_layout env) (length xs) = Inr nt"
    and total: "never_faults f xs" and late: "no_late_panic (item_verdict (lift_op f) xs) 0 (length xs)"
  shows "\<exists>q outp. par_index_collect_by_ref env xs f plan t = Inr (q, outp) \<and> set outp \<subseteq> {None} \<and> collected f xs q"
proof -
  from ne have n: "0 < length xs" by simp
  show ?thesis
  proof (rule ref_collecting.run_settles [OF sch n output_start [OF never_faults_lift [OF total]] late, where nt = nt and stolen = "re_stolen env",
        folded collect_by_ref_strategy_def])
    fix r :: "('p, ('p, 'p) erased_failure + unit) outcome" and m
    assume d: "hybrid_dispatch (re_on_pool env) (re_mode env) (re_order env)
        (erased_strategy PanicFailure (collect_by_ref_strategy (re_stolen env) f nt xs)) (length xs) plan t (output_only (length xs)) = Inr (r, m)"
    assume "failure_of r = None \<longleftrightarrow> (\<forall>i < length xs. is_ok (item_verdict (lift_op f) xs i))"
      and "\<forall>g. failure_of r = Some g \<longrightarrow> (\<exists>i < length xs. \<exists>p. flat (\<lambda>p. p) (item_verdict (lift_op f) xs i) = Inl p \<and> g = PanicFailure p) \<and>
         ((\<exists>i < length xs. panics (item_verdict (lift_op f) xs i)) \<longrightarrow> (\<exists>p. g = PanicFailure p))"
      and "output_inv xs (lift_op f) (mark 0 (length xs) (fated (failure_of r)) (\<lambda>_. Ready)) m"
    from finish_collected [OF total this(3,1,2)] d ne nt show ?thesis by (simp add: par_index_collect_by_ref_def Let_def)
  qed
qed

lemma range_collect_runs:
  fixes f :: "nat \<Rightarrow> ('p, 'b) outcome res"
  assumes sch: "schedulable env (hi - lo) plan t" and ne: "lo < hi"
    and nt: "nt_store_enabled (re_nt env) (re_layout env) (hi - lo) = Inr nt"
    and total: "never_faults f [lo..<hi]" and late: "no_late_panic (item_verdict (lift_op f) [lo..<hi]) 0 (hi - lo)"
  shows "\<exists>q outp. par_range_gen_collect env (lo, hi) f plan t = Inr (q, outp) \<and> set outp \<subseteq> {None} \<and> collected f [lo..<hi] q"
proof -
  let ?xs = "[lo..<hi]"
  have len: "length ?xs = hi - lo" by simp
  from ne have n: "0 < length ?xs" by simp
  show ?thesis
  proof (rule range_collecting.run_settles [OF sch [folded len] n output_start [OF never_faults_lift [OF total]] late [folded len],
        where nt = nt and stolen = "re_stolen env", folded range_gen_strategy_def])
    fix r :: "('p, ('p, 'p) erased_failure + unit) outcome" and m
    assume d: "hybrid_dispatch (re_on_pool env) (re_mode env) (re_order env)
        (erased_strategy PanicFailure (range_gen_strategy (re_stolen env) f nt lo)) (length ?xs) plan t (output_only (length ?xs)) = Inr (r, m)"
    assume "failure_of r = None \<longleftrightarrow> (\<forall>i < length ?xs. is_ok (item_verdict (lift_op f) ?xs i))"
      and "\<forall>g. failure_of r = Some g \<longrightarrow> (\<exists>i < length ?xs. \<exists>p. flat (\<lambda>p. p) (item_verdict (lift_op f) ?xs i) = Inl p \<and> g = PanicFailure p) \<and>
         ((\<exists>i < length ?xs. panics (item_verdict (lift_op f) ?xs i)) \<longrightarrow> (\<exists>p. g = PanicFailure p))"
      and "output_inv ?xs (lift_op f) (mark 0 (length ?xs) (fated (failure_of r)) (\<lambda>_. Ready)) m"
    from finish_collected [OF total this(3,1,2)] d ne nt show ?thesis by (simp add: par_range_gen_collect_def Let_def)
  qed
qed

lemma ref_try_collect_runs:
  assumes sch: "schedulable env (length xs) plan t" and ne: "xs \<noteq> []" and total: "never_faults f xs"
    and late: "no_late_panic (item_verdict (try_op f) xs) 0 (length xs)"
  shows "\<exists>q outp. par_index_try_collect_by_ref env xs f plan t = Inr (q, outp) \<and> set outp \<subseteq> {None} \<and> try_collected f xs q"
proof -
  let ?v = "item_verdict (try_op f) xs"
  from ne have n: "0 < length xs" by simp
  from ref_trying.run_settles [OF sch n output_start [OF never_faults_relabel [OF total]] late, where stolen = "re_stolen env"]
  obtain r m where d: "hybrid_dispatch (re_on_pool env) (re_mode env) (re_order env)
        (erased_strategy into_erased (try_by_ref_strategy (re_stolen env) f xs)) (length xs) plan t (output_only (length xs)) = Inr (r, m)"
      "failure_of r = None \<longleftrightarrow> (\<forall>i < length xs. is_ok (?v i))"
      "\<forall>g. failure_of r = Some g \<longrightarrow> (\<exists>i < length xs. \<exists>h. flat TryPanic (?v i) = Inl h \<and> g = into_erased h) \<and>
         ((\<exists>i < length xs. panics (?v i)) \<longrightarrow> (\<exists>p. g = PanicFailure p))"
      "output_inv xs (try_op f) (mark 0 (length xs) (fated (failure_of r)) (\<lambda>_. Ready)) m"
    unfolding try_by_ref_strategy_def by blast
  show ?thesis
  proof (cases "failure_of r")
    case None
    then obtain u where "r = Returned (Inr u)" by (cases r rule: failure_of.cases) auto
    with None d(1,2) ne output_end(2) [OF d(4)] show ?thesis by (simp add: par_index_try_collect_by_ref_def Let_def try_collected_def)
  next
    case (Some g)
    with d(3) obtain i h where i: "i < length xs" "flat TryPanic (?v i) = Inl h" "g = into_erased h" by blast
    from total i(1) obtain q where "f (xs ! i) = Inr q" unfolding never_faults_def by (meson nth_mem)
    with i(2) have vi: "?v i = (case h of TryError e \<Rightarrow> Returned (Inl (TryError e)) | TryPanic p \<Rightarrow> Unwound p)"
      by (cases q rule: try_cases) (auto simp: relabel_verdict)
    define r' :: "('b, 'c + 'd vec) outcome" where "r' = (case h of TryError e \<Rightarrow> Returned (Inl e) | TryPanic p \<Rightarrow> Unwound p)"
    from Some i(3) d(1) ne have run: "par_index_try_collect_by_ref env xs f plan t = Inr (r', sl_buf (fm_out m))"
      by (cases r rule: failure_of.cases; cases h) (auto simp: par_index_try_collect_by_ref_def Let_def r'_def)
    have "blames (?v i) r'" using vi by (cases h) (auto simp: blames_def r'_def)
    moreover have "panics r'" if "\<exists>i < length xs. panics (?v i)"
      using d(3) Some i(3) that by (cases h) (auto simp: r'_def)
    moreover have "\<not> (\<forall>i < length xs. is_ok (?v i))" using d(2) Some by auto
    ultimately have "try_collected f xs r'" unfolding try_collected_def using i(1) by auto
    with run output_end(1) [OF d(4)] Some show ?thesis by auto
  qed
qed

end
