(* ===== verification/Fused_Sink.thy ===== *)
theory Fused_Sink
  imports Fused_Claims
begin

text \<open>
  The side-effect terminal \<open>for_each\<close> of \<^verbatim>\<open>builder/typed/fused.rs\<close>: no output buffer, each output is
  handed to the user's closure. The calls of the closure are recorded in a log, in the order they happen.
\<close>

section \<open>The sink\<close>

record ('a, 'o) sink_mem =
  sk_mem :: "('a, unit) fused_mem"
  sk_log :: "'o list"

type_synonym ('a, 'o, 'p) sink_op = "'a \<Rightarrow> 'o list \<Rightarrow> (('p, unit) outcome \<times> 'o list) res"

definition call_sink :: "('o \<Rightarrow> ('p, unit) outcome) \<Rightarrow> 'o \<Rightarrow> 'o list \<Rightarrow> ('p, unit) outcome \<times> 'o list" where
  "call_sink f x log = (f x, log @ [x])"

definition fused_sink :: "('a, 'o, 'p) fused_stage \<Rightarrow> ('o \<Rightarrow> ('p, unit) outcome) \<Rightarrow> ('a, 'o, 'p) sink_op" where
  "fused_sink S f item log =
     (if fs_may_filter S then
        Inr (case fs_apply S item of
               Unwound p \<Rightarrow> (Unwound p, log)
             | Returned None \<Rightarrow> (Returned (), log)
             | Returned (Some x) \<Rightarrow> call_sink f x log)
      else bind_res (fs_apply_pure S item) (\<lambda>r. Inr (case r of
               Unwound p \<Rightarrow> (Unwound p, log)
             | Returned x \<Rightarrow> call_sink f x log)))"

definition sink_body :: "('a, 'o, 'p) sink_op \<Rightarrow> nat \<Rightarrow> nat \<Rightarrow> unit \<Rightarrow> (('a, 'o) sink_mem, 'p, 'f + unit) closure" where
  "sink_body consume in_ptr i acc m =
     bind_res (slot_read (fm_in (sk_mem m)) (in_ptr + i)) (\<lambda>(item, inp).
     bind_res (consume item (sk_log m)) (\<lambda>(r, log).
     Inr (bind_out r (\<lambda>_. Returned (Inr ())), m\<lparr>sk_mem := (sk_mem m)\<lparr>fm_in := inp\<rparr>, sk_log := log\<rparr>)))"

definition sink_guard :: "nat \<times> nat \<Rightarrow> nat \<Rightarrow> ('a, 'o) sink_mem \<Rightarrow> ('a, 'o) sink_mem res" where
  "sink_guard input w m = bind_res (input_guard input w (sk_mem m)) (\<lambda>mem. Inr (m\<lparr>sk_mem := mem\<rparr>))"

definition par_for_each_leaf :: "('a, 'o, 'p) sink_op \<Rightarrow> nat \<times> nat \<Rightarrow> (('a, 'o) sink_mem, 'p, 'f + unit) closure" where
  "par_for_each_leaf consume input = leaf_loop (sink_guard input) (sink_body consume (fst input)) 0 (snd input) ()"

definition sink_leaf :: "('a, 'o, 'p) sink_op \<Rightarrow> nat \<Rightarrow> nat \<Rightarrow> (('a, 'o) sink_mem, 'p, 'p + unit) closure" where
  "sink_leaf consume start stop m =
     bind_res (as_slice (fm_in (sk_mem m)) start stop) (\<lambda>in_slice. par_for_each_leaf consume in_slice m)"

text \<open>Nothing is left to clean in a completed range.\<close>

definition sink_strategy :: "(nat \<Rightarrow> nat \<Rightarrow> bool) \<Rightarrow> ('a, 'o, 'p) sink_op \<Rightarrow> (('a, 'o) sink_mem, 'p, 'p) hybrid_ops" where
  "sink_strategy stolen consume = tree_ops stolen (\<lambda>p. p) (sink_leaf consume) (\<lambda>_ _ m. Inr m)"

definition finish_sink :: "('p, ('p, 'p) erased_failure + unit) outcome \<Rightarrow> ('p, unit) outcome res" where
  "finish_sink r = (case r of
      Unwound p \<Rightarrow> Inr (Unwound p)
    | Returned (Inl f) \<Rightarrow> resume_panic f
    | Returned (Inr _) \<Rightarrow> Inr (Returned ()))"

definition par_for_each ::
    "run_env \<Rightarrow> 'a vec \<Rightarrow> ('a, 'o, 'p) sink_op \<Rightarrow> split_plan \<Rightarrow> nat \<Rightarrow> (('p, unit) outcome \<times> 'o list \<times> 'a option list) res" where
  "par_for_each env items consume plan num_threads =
     (let n = length (v_items items) in
      if n = 0 then Inl ExplicitPanic
      else bind_res (hybrid_dispatch (re_on_pool env) (re_mode env) (re_order env)
             (erased_strategy PanicFailure (sink_strategy (re_stolen env) consume)) n plan num_threads
             \<lparr>sk_mem = owned_input items, sk_log = []\<rparr>) (\<lambda>(r, m).
           bind_res (finish_sink r) (\<lambda>u. Inr (u, sk_log m, sl_buf (fm_in (sk_mem m))))))"

section \<open>Entry point\<close>

fun serial_sink :: "('a, 'o, 'p) sink_op \<Rightarrow> 'a list \<Rightarrow> 'o list \<Rightarrow> (('p, unit) outcome \<times> 'o list) res" where
  "serial_sink consume [] log = Inr (Returned (), log)"
| "serial_sink consume (x # xs) log =
     bind_res (consume x log) (\<lambda>(r, log'). case r of Returned _ \<Rightarrow> serial_sink consume xs log' | Unwound p \<Rightarrow> Inr (Unwound p, log'))"

text \<open>The serial arm has the two loops of the sink's two branches, the flag tested once.\<close>

definition serial_stage_for_each :: "'a list \<Rightarrow> ('a, 'o, 'p) fused_stage \<Rightarrow> ('o \<Rightarrow> ('p, unit) outcome) \<Rightarrow> (('p, unit) outcome \<times> 'o list) res" where
  "serial_stage_for_each items S f =
     (if fs_may_filter S
      then serial_sink (\<lambda>item log. Inr (case fs_apply S item of
               Unwound p \<Rightarrow> (Unwound p, log) | Returned None \<Rightarrow> (Returned (), log) | Returned (Some x) \<Rightarrow> call_sink f x log)) items []
      else serial_sink (\<lambda>item log. bind_res (fs_apply_pure S item) (\<lambda>r. Inr (case r of
               Unwound p \<Rightarrow> (Unwound p, log) | Returned x \<Rightarrow> call_sink f x log))) items [])"

definition pipe_for_each ::
    "run_env \<Rightarrow> split_env \<Rightarrow> nat \<Rightarrow> exec_options \<Rightarrow> ('a, 'o, 'p) fused_stage \<Rightarrow> 'a vec \<Rightarrow> ('o \<Rightarrow> ('p, unit) outcome) \<Rightarrow>
     (('p, unit) outcome \<times> 'o list \<times> 'a option list) res" where
  "pipe_for_each env senv ncpus e S items f =
     (let n = length (v_items items); workers = exec_workers ncpus e in
      if n = 0 then Inr (Returned (), [], [])
      else bind_res (plan_terminal senv n (cfg_workload (eo_config e)) workers) (\<lambda>tp. case tp of
          Serial \<Rightarrow> bind_res (serial_stage_for_each (v_items items) S f) (\<lambda>(r, log). Inr (r, log, []))
        | Parallel plan \<Rightarrow> par_for_each env items (fused_sink S f) plan workers))"

section \<open>Which outputs the closure has seen\<close>

text \<open>What an item hands to the closure, and how the item ends.\<close>

definition emits :: "('a, 'o, 'p) fused_stage \<Rightarrow> 'a \<Rightarrow> 'o multiset" where
  "emits S x = (case fs_apply S x of Returned (Some y) \<Rightarrow> {#y#} | _ \<Rightarrow> {#})"

definition sink_verdict :: "('a, 'o, 'p) fused_stage \<Rightarrow> ('o \<Rightarrow> ('p, unit) outcome) \<Rightarrow> 'a \<Rightarrow> ('p, 'p + unit) outcome" where
  "sink_verdict S f x =
     bind_out (fs_apply S x) (\<lambda>y. case y of None \<Rightarrow> Returned (Inr ()) | Some v \<Rightarrow> bind_out (f v) (\<lambda>_. Returned (Inr ())))"

lemma fused_sink_runs:
  assumes "stage_law S"
  shows "\<exists>r log'. fused_sink S f x log = Inr (r, log') \<and> bind_out r (\<lambda>_. Returned (Inr ())) = sink_verdict S f x \<and>
     mset log' = mset log + emits S x"
proof -
  have "fused_sink S f x log = Inr (case fs_apply S x of
      Unwound p \<Rightarrow> (Unwound p, log) | Returned None \<Rightarrow> (Returned (), log) | Returned (Some x) \<Rightarrow> call_sink f x log)"
  proof (cases "fs_may_filter S")
    case False
    with assms obtain r where "fs_apply_pure S x = Inr r" "fs_apply S x = bind_out r (\<lambda>y. Returned (Some y))"
      unfolding stage_law_def by blast
    with False show ?thesis by (cases r) (simp_all add: fused_sink_def)
  qed (simp add: fused_sink_def)
  then show ?thesis
    by (cases "fs_apply S x") (auto simp: sink_verdict_def emits_def call_sink_def split: option.splits)
qed

text \<open>The log holds what the processed items emitted: all the finished ones, none of the untouched.\<close>

definition log_inv :: "('a, 'o, 'p) fused_stage \<Rightarrow> 'a list \<Rightarrow> (nat \<Rightarrow> cell) \<Rightarrow> 'o list \<Rightarrow> bool" where
  "log_inv S xs \<sigma> log \<longleftrightarrow> stage_law S \<and>
     (\<exists>D. {i. i < length xs \<and> \<sigma> i = Finished} \<subseteq> D \<and> D \<subseteq> {i. i < length xs \<and> \<sigma> i \<noteq> Ready} \<and>
        mset log = (\<Sum>i\<in>D. emits S (xs ! i)))"

definition sink_inv :: "('a, 'o, 'p) fused_stage \<Rightarrow> 'a list \<Rightarrow> (nat \<Rightarrow> cell) \<Rightarrow> ('a, 'o) sink_mem \<Rightarrow> bool" where
  "sink_inv S xs \<sigma> m \<longleftrightarrow> input_inv xs \<sigma> (sk_mem m) \<and> log_inv S xs \<sigma> (sk_log m)"

lemma log_inv_mono:
  assumes "log_inv S xs \<sigma> log" and "\<And>i. i < length xs \<Longrightarrow> \<tau> i = Ready \<Longrightarrow> \<sigma> i = Ready"
    and "\<And>i. i < length xs \<Longrightarrow> \<tau> i = Finished \<Longrightarrow> \<sigma> i = Finished"
  shows "log_inv S xs \<tau> log"
proof -
  from assms(1) obtain D where D: "{i. i < length xs \<and> \<sigma> i = Finished} \<subseteq> D" "D \<subseteq> {i. i < length xs \<and> \<sigma> i \<noteq> Ready}"
    "mset log = (\<Sum>i\<in>D. emits S (xs ! i))" by (auto simp: log_inv_def)
  moreover from D(1,2) assms(2,3) have "{i. i < length xs \<and> \<tau> i = Finished} \<subseteq> D" "D \<subseteq> {i. i < length xs \<and> \<tau> i \<noteq> Ready}" by auto
  ultimately show ?thesis using assms(1) unfolding log_inv_def by blast
qed

lemma log_inv_emit:
  assumes "log_inv S xs \<sigma> log" and "i < length xs" and "\<sigma> i = Ready" and "c \<noteq> Ready"
    and "mset log' = mset log + emits S (xs ! i)"
  shows "log_inv S xs (\<sigma>(i := c)) log'"
proof -
  from assms(1) obtain D where D: "{i. i < length xs \<and> \<sigma> i = Finished} \<subseteq> D" "D \<subseteq> {i. i < length xs \<and> \<sigma> i \<noteq> Ready}"
    "mset log = (\<Sum>i\<in>D. emits S (xs ! i))" by (auto simp: log_inv_def)
  from D(2) assms(3) have fin: "finite D" "i \<notin> D" by (auto intro: finite_subset [of D "{..<length xs}"])
  have "mset log' = (\<Sum>i\<in>insert i D. emits S (xs ! i))" using fin assms(5) D(3) by simp
  moreover have "{j. j < length xs \<and> (\<sigma>(i := c)) j = Finished} \<subseteq> insert i D" using D(1) by auto
  moreover have "insert i D \<subseteq> {j. j < length xs \<and> (\<sigma>(i := c)) j \<noteq> Ready}" using D(2) assms(2,4) by auto
  ultimately show ?thesis using assms(1) unfolding log_inv_def by blast
qed

lemma sink_body_law:
  assumes "b \<le> length xs"
  shows "body_law (sink_inv S xs) (\<lambda>i _. sink_verdict S f (xs ! i)) (sink_body (fused_sink S f) a) a b"
  unfolding body_law_def
proof (intro allI impI)
  fix i acc \<sigma> and m :: "('a, 'b) sink_mem"
  assume i: "a \<le> i" "i < b" and m: "sink_inv S xs \<sigma> m" and rdy: "\<sigma> i = Ready"
  define c where "c = (if is_ok (sink_verdict S f (xs ! i)) then Finished else Gone)"
  then have c: "c \<noteq> Ready" by simp
  with m i rdy assms in_read [of xs \<sigma> "fm_in (sk_mem m)" i c] obtain inp where
    inp: "slot_read (fm_in (sk_mem m)) i = Inr (xs ! i, inp)" "in_holds xs (\<sigma>(i := c)) inp" by (auto simp: sink_inv_def input_inv_def)
  from m have log: "log_inv S xs \<sigma> (sk_log m)" by (simp add: sink_inv_def)
  then have "stage_law S" by (simp add: log_inv_def)
  from fused_sink_runs [OF this, of f "xs ! i" "sk_log m"] obtain r log' where
    r: "fused_sink S f (xs ! i) (sk_log m) = Inr (r, log')" "bind_out r (\<lambda>_. Returned (Inr ())) = sink_verdict S f (xs ! i)"
      "mset log' = mset (sk_log m) + emits S (xs ! i)" by blast
  have "sink_inv S xs (\<sigma>(i := c)) (m\<lparr>sk_mem := (sk_mem m)\<lparr>fm_in := inp\<rparr>, sk_log := log'\<rparr>)"
    using log_inv_emit [OF log _ rdy c r(3)] i assms inp(2) by (simp add: sink_inv_def input_inv_def)
  with i inp(1) r(1,2) show "\<exists>m'. sink_body (fused_sink S f) a (i - a) acc m = Inr (sink_verdict S f (xs ! i), m') \<and>
      sink_inv S xs (\<sigma>(i := (if is_ok (sink_verdict S f (xs ! i)) then Finished else Gone))) m'"
    by (simp add: sink_body_def c_def [symmetric])
qed

lemma sink_clean_law:
  assumes "b \<le> length xs"
  shows "clean_law (sink_inv S xs) (sink_guard (a, b - a)) a b"
  unfolding clean_law_def
proof (intro allI impI)
  fix i \<sigma> and m :: "('a, 'b) sink_mem"
  assume i: "a \<le> i" "i < b" and m: "sink_inv S xs (\<sigma>(i := Gone)) m"
    and before: "\<forall>j. a \<le> j \<longrightarrow> j < i \<longrightarrow> \<sigma> j = Finished" and rest: "\<forall>j. i < j \<longrightarrow> j < b \<longrightarrow> \<sigma> j = Ready"
  from input_clean_law [OF assms, of a] i m before rest obtain mem where
    mem: "input_guard (a, b - a) (i - a) (sk_mem m) = Inr mem" "input_inv xs (mark a b Gone \<sigma>) mem"
    unfolding clean_law_def sink_inv_def by blast
  have "log_inv S xs (mark a b Gone \<sigma>) (sk_log m)"
  proof (rule log_inv_mono)
    show "log_inv S xs (\<sigma>(i := Gone)) (sk_log m)" using m by (simp add: sink_inv_def)
  qed (use i in \<open>auto simp: mark_def split: if_splits\<close>)
  with mem show "\<exists>m'. sink_guard (a, b - a) (i - a) m = Inr m' \<and> sink_inv S xs (mark a b Gone \<sigma>) m'"
    by (simp add: sink_guard_def sink_inv_def)
qed

lemma log_drop_law:
  assumes "log_inv S xs \<sigma> log" and "\<And>i. a \<le> i \<Longrightarrow> i < b \<Longrightarrow> \<sigma> i = Finished"
  shows "log_inv S xs (mark a b Gone \<sigma>) log"
  using assms by (intro log_inv_mono [OF assms(1)]) (auto simp: mark_def split: if_splits)

interpretation sinking: erased_tree "sink_inv S xs" "length xs" "\<lambda>i. sink_verdict S f (xs ! i)" "sink_leaf (fused_sink S f)" "\<lambda>_ _ m. Inr m"
    stolen "\<lambda>p. p" "PanicFailure :: 'p \<Rightarrow> ('p, 'p) erased_failure"
  for S :: "('a, 'o, 'p) fused_stage" and xs f stolen
proof (unfold_locales, goal_cases)
  case (1 a b \<sigma> m)
  then have "as_slice (fm_in (sk_mem m)) a b = Inr (a, b - a)" by (intro input_slice) (auto simp: sink_inv_def)
  with leaf_loop_range [OF sink_body_law [OF 1(2)] sink_clean_law [OF 1(2)] 1(1,3), of f "()"] 1(4) show ?case
    by (auto simp: sink_leaf_def par_for_each_leaf_def)
next
  case (2 a b \<sigma> m)
  have "input_inv xs (mark a b Gone \<sigma>) (sk_mem m)"
  proof (rule input_inv_cong)
    show "input_inv xs \<sigma> (sk_mem m)" using 2(3) by (simp add: sink_inv_def)
  qed (use 2(4) in \<open>simp add: mark_def\<close>)
  with 2(3,4) show ?case by (simp add: sink_inv_def log_drop_law)
qed simp

section \<open>The terminal\<close>

lemma sum_nth_emits: "(\<Sum>i<length xs. emits S (xs ! i)) = sum_list (map (emits S) xs)"
  by (simp add: sum_list_sum_nth atLeast0LessThan)

lemma gather_emits: "gather (fs_apply S) xs = Returned ys \<Longrightarrow> sum_list (map (emits S) xs) = mset ys"
proof (induction xs arbitrary: ys)
  case (Cons x xs)
  then show ?case
    by (cases "fs_apply S x"; cases "gather (fs_apply S) xs") (auto simp: emits_def split: option.splits)
qed simp

lemma log_start: "stage_law S \<Longrightarrow> log_inv S xs (\<lambda>_. Ready) []"
  by (auto simp: log_inv_def intro!: exI [of _ "{}"])

lemma sink_start: "stage_law S \<Longrightarrow> sink_inv S (v_items items) (\<lambda>_. Ready) \<lparr>sk_mem = owned_input items, sk_log = []\<rparr>"
  by (simp add: sink_inv_def input_start log_start)

lemma log_end:
  assumes "log_inv S xs (mark 0 (length xs) c \<sigma>) log"
  shows "mset log \<subseteq># sum_list (map (emits S) xs)"
    and "c = Finished \<Longrightarrow> mset log = sum_list (map (emits S) xs)"
proof -
  from assms(1) obtain D where D: "{i. i < length xs \<and> mark 0 (length xs) c \<sigma> i = Finished} \<subseteq> D" "D \<subseteq> {..<length xs}"
    "mset log = (\<Sum>i\<in>D. emits S (xs ! i))" by (auto simp: log_inv_def)
  show "mset log \<subseteq># sum_list (map (emits S) xs)"
    unfolding sum_nth_emits [symmetric] D(3) sum.subset_diff [OF D(2) finite_lessThan] by simp
  show "mset log = sum_list (map (emits S) xs)" if "c = Finished"
  proof -
    from D(1) that have "{..<length xs} \<subseteq> D" by (auto simp: mark_def)
    with D(2) have "D = {..<length xs}" by blast
    with D(3) show ?thesis by (simp add: sum_nth_emits)
  qed
qed

lemma sink_end:
  assumes "sink_inv S xs (mark 0 (length xs) c \<sigma>) m" and "c \<noteq> Ready"
  shows "set (sl_buf (fm_in (sk_mem m))) \<subseteq> {None}"
proof -
  have "input_inv xs (mark 0 (length xs) Gone (\<lambda>_. Ready)) (sk_mem m)"
  proof (rule input_inv_cong)
    show "input_inv xs (mark 0 (length xs) c \<sigma>) (sk_mem m)" using assms(1) by (simp add: sink_inv_def)
  qed (simp add: mark_def assms(2))
  then show ?thesis by (rule input_end)
qed

lemma sink_verdict_cases:
  obtains "sink_verdict S f x = Returned (Inr ())" | p where "sink_verdict S f x = Unwound p"
proof (cases "fs_apply S x")
  case (Returned y)
  then show thesis using that by (cases y; cases "f (the y)") (auto simp: sink_verdict_def)
qed (use that in \<open>simp add: sink_verdict_def\<close>)

definition for_each_result ::
    "('a, 'o, 'p) fused_stage \<Rightarrow> ('o \<Rightarrow> ('p, unit) outcome) \<Rightarrow> 'a list \<Rightarrow> ('p, unit) outcome \<Rightarrow> 'o list \<Rightarrow> bool" where
  "for_each_result S f xs q log \<longleftrightarrow>
     (if \<forall>x \<in> set xs. is_ok (sink_verdict S f x)
      then q = Returned () \<and> mset log = sum_list (map (emits S) xs)
      else (\<exists>x \<in> set xs. \<exists>p. sink_verdict S f x = Unwound p \<and> q = Unwound p) \<and> mset log \<subseteq># sum_list (map (emits S) xs))"

text \<open>The failure slot and the log settle what the terminal does.\<close>

lemma for_each_settled:
  assumes ok: "failure_of r = None \<longleftrightarrow> (\<forall>i < length xs. is_ok (sink_verdict S f (xs ! i)))"
    and bad: "\<forall>g. failure_of r = Some g \<longrightarrow> (\<exists>i < length xs. \<exists>p. flat (\<lambda>p. p) (sink_verdict S f (xs ! i)) = Inl p \<and> g = PanicFailure p) \<and>
       ((\<exists>i < length xs. panics (sink_verdict S f (xs ! i))) \<longrightarrow> (\<exists>p. g = PanicFailure p))"
    and log: "log_inv S xs (mark 0 (length xs) (fated (failure_of r)) \<sigma>) log"
  shows "\<exists>q. finish_sink r = Inr q \<and> for_each_result S f xs q log"
proof (cases "failure_of r")
  case None
  then obtain u where "r = Returned (Inr u)" by (cases r rule: failure_of.cases) auto
  with None ok log_end(2) [OF log] show ?thesis by (simp add: finish_sink_def for_each_result_def all_set_conv_all_nth)
next
  case (Some g)
  with bad obtain i p where i: "i < length xs" "flat (\<lambda>p. p) (sink_verdict S f (xs ! i)) = Inl p" "g = PanicFailure p" by blast
  then have vi: "sink_verdict S f (xs ! i) = Unwound p" by (cases rule: sink_verdict_cases [of S f "xs ! i"]) auto
  from Some i(3) have "finish_sink r = Inr (Unwound p)"
    by (cases r rule: failure_of.cases) (auto simp: finish_sink_def resume_panic_def)
  moreover have "\<not> (\<forall>x \<in> set xs. is_ok (sink_verdict S f x))" using ok Some by (auto simp: all_set_conv_all_nth)
  ultimately show ?thesis using log_end(1) [OF log] vi nth_mem [OF i(1)] unfolding for_each_result_def by auto
qed

lemma par_for_each_runs:
  assumes law: "stage_law S" and sch: "schedulable env (length (v_items items)) plan t" and ne: "v_items items \<noteq> []"
    and late: "no_late_panic (\<lambda>i. sink_verdict S f (v_items items ! i)) 0 (length (v_items items))"
  shows "\<exists>q log buf. par_for_each env items (fused_sink S f) plan t = Inr (q, log, buf) \<and> set buf \<subseteq> {None} \<and>
     for_each_result S f (v_items items) q log"
proof -
  let ?xs = "v_items items" and ?v = "\<lambda>i. sink_verdict S f (v_items items ! i)"
  let ?n = "length ?xs"
  have n: "0 < ?n" using ne by simp
  from sinking.run_settles [OF sch n sink_start [OF law] late, where stolen = "re_stolen env"]
  obtain r m where d: "hybrid_dispatch (re_on_pool env) (re_mode env) (re_order env)
        (erased_strategy (PanicFailure :: _ \<Rightarrow> ('c, 'c) erased_failure) (sink_strategy (re_stolen env) (fused_sink S f))) ?n plan t
        \<lparr>sk_mem = owned_input items, sk_log = []\<rparr> = Inr (r, m)"
      "failure_of r = None \<longleftrightarrow> (\<forall>i < ?n. is_ok (?v i))"
      "\<forall>g. failure_of r = Some g \<longrightarrow> (\<exists>i < ?n. \<exists>p. flat (\<lambda>p. p) (?v i) = Inl p \<and> g = PanicFailure p) \<and>
         ((\<exists>i < ?n. panics (?v i)) \<longrightarrow> (\<exists>p. g = PanicFailure p))"
      "sink_inv S ?xs (mark 0 ?n (fated (failure_of r)) (\<lambda>_. Ready)) m"
    unfolding sink_strategy_def by blast
  from d(4) have "log_inv S ?xs (mark 0 ?n (fated (failure_of r)) (\<lambda>_. Ready)) (sk_log m)" by (simp add: sink_inv_def)
  from for_each_settled [OF d(2,3) this] obtain q where
    q: "finish_sink r = Inr q" "for_each_result S f ?xs q (sk_log m)" by blast
  have "set (sl_buf (fm_in (sk_mem m))) \<subseteq> {None}" by (rule sink_end [OF d(4)]) simp
  with q d(1) ne show ?thesis by (simp add: par_for_each_def Let_def)
qed

lemma serial_sink_runs:
  assumes "stage_law S"
  shows "\<exists>q log'. serial_sink (fused_sink S f) xs log = Inr (q, log') \<and>
     (if \<forall>x \<in> set xs. is_ok (sink_verdict S f x)
      then q = Returned () \<and> mset log' = mset log + sum_list (map (emits S) xs)
      else (\<exists>x \<in> set xs. \<exists>p. sink_verdict S f x = Unwound p \<and> q = Unwound p) \<and> mset log' \<subseteq># mset log + sum_list (map (emits S) xs))"
proof (induction xs arbitrary: log)
  case (Cons x xs)
  from fused_sink_runs [OF assms, of f x log] obtain r log1 where
    r: "fused_sink S f x log = Inr (r, log1)" "bind_out r (\<lambda>_. Returned (Inr ())) = sink_verdict S f x" "mset log1 = mset log + emits S x"
    by blast
  show ?case
  proof (cases r)
    case (Returned u)
    with r(2) have ok: "is_ok (sink_verdict S f x)" by (metis bind_out.simps(1) is_ok.simps(1))
    from Cons.IH [of log1] obtain q log' where
      q: "serial_sink (fused_sink S f) xs log1 = Inr (q, log')"
        "if \<forall>x \<in> set xs. is_ok (sink_verdict S f x)
         then q = Returned () \<and> mset log' = mset log1 + sum_list (map (emits S) xs)
         else (\<exists>x \<in> set xs. \<exists>p. sink_verdict S f x = Unwound p \<and> q = Unwound p) \<and> mset log' \<subseteq># mset log1 + sum_list (map (emits S) xs)"
      by blast
    from r(1) Returned q(1) have "serial_sink (fused_sink S f) (x # xs) log = Inr (q, log')" by simp
    with q(2) r(3) ok show ?thesis by (auto simp: ac_simps split: if_splits)
  next
    case (Unwound p)
    with r(2) have "sink_verdict S f x = Unwound p" by simp
    with r Unwound show ?thesis by auto
  qed
qed simp

lemma serial_for_each_runs:
  assumes "stage_law S"
  shows "\<exists>q log. serial_stage_for_each xs S f = Inr (q, log) \<and> for_each_result S f xs q log"
proof -
  have "serial_stage_for_each xs S f = serial_sink (fused_sink S f) xs []"
    by (simp add: serial_stage_for_each_def fused_sink_def [abs_def])
  with serial_sink_runs [OF assms, of f xs "[]", simplified mset.simps add_0] show ?thesis
    unfolding for_each_result_def by metis
qed

lemma ok_gathers:
  assumes "\<forall>x \<in> set xs. is_ok (sink_verdict S f x)"
  shows "\<exists>ys. gather (fs_apply S) xs = Returned ys"
  using assms
proof (induction xs)
  case (Cons x xs)
  then obtain ys where "gather (fs_apply S) xs = Returned ys" by auto
  with Cons.prems show ?case by (cases "fs_apply S x") (auto simp: sink_verdict_def split: option.splits)
qed simp

text \<open>
  C26. Side effects. For a chain built from the stages and a batch with at most one panicking item,
  \<open>Pipe::for_each\<close> calls the closure exactly once on each kept output, on nothing else, and returns, when
  no stage and no call panics; otherwise it unwinds with the payload of the item that panicked and no
  output has been handed over twice. Every item is consumed or dropped exactly once, on the serial path
  and on the parallel one, for every steal and every order of the chunks.
\<close>

theorem pipe_for_each_exactly_once:
  assumes "stage_law S"
    and "plan_terminal senv (length (v_items items)) (cfg_workload (eo_config e)) (exec_workers ncpus e) = Inr tp"
    and "\<And>plan. tp = Parallel plan \<Longrightarrow> schedulable env (length (v_items items)) plan (exec_workers ncpus e) \<and>
           no_late_panic (\<lambda>i. sink_verdict S f (v_items items ! i)) 0 (length (v_items items))"
  shows "\<exists>q log buf. pipe_for_each env senv ncpus e S items f = Inr (q, log, buf) \<and> set buf \<subseteq> {None} \<and>
     (if \<forall>x \<in> set (v_items items). is_ok (sink_verdict S f x)
      then q = Returned () \<and> (\<exists>ys. gather (fs_apply S) (v_items items) = Returned ys \<and> mset log = mset ys)
      else (\<exists>x \<in> set (v_items items). \<exists>p. sink_verdict S f x = Unwound p \<and> q = Unwound p) \<and>
           mset log \<subseteq># sum_list (map (emits S) (v_items items)))"
proof -
  have "\<exists>q log buf. pipe_for_each env senv ncpus e S items f = Inr (q, log, buf) \<and> set buf \<subseteq> {None} \<and>
     for_each_result S f (v_items items) q log"
  proof (cases "v_items items = []")
    case False
    show ?thesis
    proof (cases tp)
      case Serial
      with False assms(2) serial_for_each_runs [OF assms(1), of "v_items items" f] show ?thesis
        by (auto simp: pipe_for_each_def Let_def)
    next
      case (Parallel plan)
      with False assms(2) assms(3) [OF Parallel] par_for_each_runs [OF assms(1) _ False, of env plan "exec_workers ncpus e" f] show ?thesis
        by (auto simp: pipe_for_each_def Let_def)
    qed
  qed (simp add: pipe_for_each_def for_each_result_def)
  then obtain q log buf where r: "pipe_for_each env senv ncpus e S items f = Inr (q, log, buf)" "set buf \<subseteq> {None}"
    "for_each_result S f (v_items items) q log" by blast
  show ?thesis
  proof (cases "\<forall>x \<in> set (v_items items). is_ok (sink_verdict S f x)")
    case True
    from ok_gathers [OF True] obtain ys where "gather (fs_apply S) (v_items items) = Returned ys" by blast
    with True r gather_emits [OF this] show ?thesis by (simp add: for_each_result_def)
  next
    case False
    with r show ?thesis unfolding for_each_result_def by auto
  qed
qed

theorem pipe_for_each_exactly_once_witness:
  "\<exists>log buf. pipe_for_each demo_env demo_senv 8 demo_exec (stage_filter stage_identity (\<lambda>x. Returned (x \<noteq> 2)) :: (nat, nat, string) fused_stage)
      \<lparr>v_items = [1, 2, 3, 4], v_cap = 6\<rparr> (\<lambda>_. Returned ()) = Inr (Returned (), log, buf) \<and> set buf \<subseteq> {None} \<and> mset log = {#1, 3, 4#}"
proof -
  let ?S = "stage_filter stage_identity (\<lambda>x. Returned (x \<noteq> 2)) :: (nat, nat, string) fused_stage"
  let ?items = "\<lparr>v_items = [1, 2, 3, 4 :: nat], v_cap = 6\<rparr>"
  have n: "length (v_items ?items) = 4" by simp
  have app: "fs_apply ?S y = Returned (if y = 2 then None else Some y)" for y
    by (simp add: stage_filter_def stage_identity_def Let_def)
  have ok: "sink_verdict ?S (\<lambda>_. Returned ()) x = Returned (Inr ())" for x by (simp add: sink_verdict_def app)
  have "\<exists>q log buf. pipe_for_each demo_env demo_senv 8 demo_exec ?S ?items (\<lambda>_. Returned ()) = Inr (q, log, buf) \<and> set buf \<subseteq> {None} \<and>
     (if \<forall>x \<in> set (v_items ?items). is_ok (sink_verdict ?S (\<lambda>_. Returned ()) x)
      then q = Returned () \<and> (\<exists>ys. gather (fs_apply ?S) (v_items ?items) = Returned ys \<and> mset log = mset ys)
      else (\<exists>x \<in> set (v_items ?items). \<exists>p. sink_verdict ?S (\<lambda>_. Returned ()) x = Unwound p \<and> q = Unwound p) \<and>
           mset log \<subseteq># sum_list (map (emits ?S) (v_items ?items)))"
    by (rule pipe_for_each_exactly_once [of ?S demo_senv ?items demo_exec 8 "Parallel demo_plan", unfolded n])
      (use demo_planned demo_scheduled in \<open>auto simp: demo_workers no_late_panic_def ok\<close>)
  then show ?thesis by (simp add: app ok)
qed

end
