(* ===== verification/Fused_Ref_Sink.thy ===== *)
theory Fused_Ref_Sink
  imports Fused_Ref Fused_Sink
begin

text \<open>
  The side-effect terminal over a borrowed slice and over a generated range
  (\<^verbatim>\<open>builder/typed/fused.rs\<close>): neither an input nor an output buffer, so nothing to clean on any path.
  The state of a run is the log of the calls.
\<close>

section \<open>Leaves, strategies and drivers\<close>

definition par_for_each_leaf_by_ref :: "('a, 'o, 'p) sink_op \<Rightarrow> 'a list \<Rightarrow> ('o list, 'p, 'f + unit) closure" where
  "par_for_each_leaf_by_ref consume input log =
     bind_res (serial_sink consume input log) (\<lambda>(r, log'). Inr (bind_out r (\<lambda>_. Returned (Inr ())), log'))"

definition sink_by_ref_leaf :: "('a, 'o, 'p) sink_op \<Rightarrow> 'a list \<Rightarrow> nat \<Rightarrow> nat \<Rightarrow> ('o list, 'p, 'p + unit) closure" where
  "sink_by_ref_leaf consume input start stop log =
     bind_res (get_unchecked input start stop) (\<lambda>in_slice. par_for_each_leaf_by_ref consume in_slice log)"

definition sink_by_ref_strategy :: "(nat \<Rightarrow> nat \<Rightarrow> bool) \<Rightarrow> ('a, 'o, 'p) sink_op \<Rightarrow> 'a list \<Rightarrow> ('o list, 'p, 'p) hybrid_ops" where
  "sink_by_ref_strategy stolen consume input = tree_ops stolen (\<lambda>p. p) (sink_by_ref_leaf consume input) (\<lambda>_ _ log. Inr log)"

definition range_sink_leaf :: "(nat, 'o, 'p) sink_op \<Rightarrow> nat \<Rightarrow> nat \<Rightarrow> nat \<Rightarrow> ('o list, 'p, 'p + unit) closure" where
  "range_sink_leaf consume base start stop log =
     bind_res (serial_sink consume [base + start..<base + stop] log) (\<lambda>(r, log'). Inr (bind_out r (\<lambda>_. Returned (Inr ())), log'))"

definition range_gen_sink_strategy :: "(nat \<Rightarrow> nat \<Rightarrow> bool) \<Rightarrow> (nat, 'o, 'p) sink_op \<Rightarrow> nat \<Rightarrow> ('o list, 'p, 'p) hybrid_ops" where
  "range_gen_sink_strategy stolen consume base = tree_ops stolen (\<lambda>p. p) (range_sink_leaf consume base) (\<lambda>_ _ log. Inr log)"

definition par_for_each_by_ref ::
    "run_env \<Rightarrow> 'a list \<Rightarrow> ('a, 'o, 'p) sink_op \<Rightarrow> split_plan \<Rightarrow> nat \<Rightarrow> (('p, unit) outcome \<times> 'o list) res" where
  "par_for_each_by_ref env input consume plan num_threads =
     (let n = length input in
      if n = 0 then Inl ExplicitPanic
      else bind_res (hybrid_dispatch (re_on_pool env) (re_mode env) (re_order env)
             (erased_strategy PanicFailure (sink_by_ref_strategy (re_stolen env) consume input)) n plan num_threads []) (\<lambda>(r, log).
           bind_res (finish_sink r) (\<lambda>u. Inr (u, log))))"

definition par_range_gen_for_each ::
    "run_env \<Rightarrow> nat \<times> nat \<Rightarrow> (nat, 'o, 'p) sink_op \<Rightarrow> split_plan \<Rightarrow> nat \<Rightarrow> (('p, unit) outcome \<times> 'o list) res" where
  "par_range_gen_for_each env rng consume plan num_threads =
     (let n = snd rng - fst rng in
      if n = 0 then Inl ExplicitPanic
      else bind_res (hybrid_dispatch (re_on_pool env) (re_mode env) (re_order env)
             (erased_strategy PanicFailure (range_gen_sink_strategy (re_stolen env) consume (fst rng))) n plan num_threads []) (\<lambda>(r, log).
           bind_res (finish_sink r) (\<lambda>u. Inr (u, log))))"

section \<open>What the drivers do\<close>

text \<open>A plain loop is a leaf loop with nothing to clean.\<close>

lemma serial_sink_loop:
  assumes "w + length xs = length zs" and "xs = drop w zs"
  shows "bind_res (serial_sink consume xs log) (\<lambda>(r, log'). Inr (bind_out r (\<lambda>_. Returned (Inr ())), log')) =
     leaf_loop (\<lambda>_. Inr) (\<lambda>i _ log. bind_res (consume (zs ! i) log) (\<lambda>(r, log'). Inr (bind_out r (\<lambda>_. Returned (Inr ())), log')))
       w (length xs) () log"
  using assms
proof (induction xs arbitrary: w log)
  case (Cons x xs)
  from Cons.prems have x: "zs ! w = x" "xs = drop (Suc w) zs"
    by (metis nth_via_drop, metis drop_Suc list.sel(3) tl_drop)
  show ?case
  proof (cases "consume x log")
    case (Inr v)
    obtain r log' where v: "v = (r, log')" by (cases v)
    show ?thesis using Cons.IH [of "Suc w" log'] Cons.prems(1) x Inr v by (cases r) auto
  qed (simp add: x)
qed simp

lemma log_leaf_law:
  fixes S :: "('a, 'o, 'p) fused_stage"
  assumes ab: "a \<le> b" "b \<le> length xs" and log: "log_inv S xs \<sigma> log" and rdy: "\<And>i. a \<le> i \<Longrightarrow> i < b \<Longrightarrow> \<sigma> i = Ready"
  shows "\<exists>log'. par_for_each_leaf_by_ref (fused_sink S f) (slice xs a b) log =
       Inr (seq_run (\<lambda>i. sink_verdict S f (xs ! i)) a b, log') \<and>
     log_inv S xs (mark a b (settled (seq_run (\<lambda>i. sink_verdict S f (xs ! i)) a b)) \<sigma>) log'"
proof -
  let ?body = "\<lambda>i (_ :: unit) log. bind_res (fused_sink S f (slice xs a b ! i) log) (\<lambda>(r, log'). Inr (bind_out r (\<lambda>_. Returned (Inr () :: 'p + unit)), log'))"
  have "body_law (log_inv S xs) (\<lambda>i _. sink_verdict S f (xs ! i)) ?body a b"
    unfolding body_law_def
  proof (intro allI impI)
    fix i acc \<sigma> log
    assume i: "a \<le> i" "i < b" and log: "log_inv S xs \<sigma> log" and rdy: "\<sigma> i = Ready"
    define c where "c = (if is_ok (sink_verdict S f (xs ! i)) then Finished else Gone)"
    then have c: "c \<noteq> Ready" by simp
    from log have "stage_law S" by (simp add: log_inv_def)
    from fused_sink_runs [OF this, of f "xs ! i" log] obtain r log' where
      r: "fused_sink S f (xs ! i) log = Inr (r, log')" "bind_out r (\<lambda>_. Returned (Inr ())) = sink_verdict S f (xs ! i)"
        "mset log' = mset log + emits S (xs ! i)" by blast
    from i have "slice xs a b ! (i - a) = xs ! i" by (simp add: slice_def)
    with r(1,2) log_inv_emit [OF log _ rdy c r(3)] i ab
    show "\<exists>log'. ?body (i - a) acc log = Inr (sink_verdict S f (xs ! i), log') \<and>
        log_inv S xs (\<sigma>(i := (if is_ok (sink_verdict S f (xs ! i)) then Finished else Gone))) log'"
      by (simp add: c_def [symmetric])
  qed
  moreover have "clean_law (log_inv S xs) (\<lambda>_. Inr) a b"
    unfolding clean_law_def
  proof (intro allI impI)
    fix i \<sigma> log
    assume "a \<le> i" "i < b" and log: "log_inv S xs (\<sigma>(i := Gone)) log"
    then have "log_inv S xs (mark a b Gone \<sigma>) log" by (intro log_inv_mono [OF log]) (auto simp: mark_def split: if_splits)
    then show "\<exists>log'. Inr log = Inr log' \<and> log_inv S xs (mark a b Gone \<sigma>) log'" by simp
  qed
  ultimately have "\<exists>log'. leaf_loop (\<lambda>_. Inr) ?body 0 (b - a) () log = Inr (seq_run (\<lambda>i. sink_verdict S f (xs ! i)) a b, log') \<and>
     log_inv S xs (mark a b (settled (seq_run (\<lambda>i. sink_verdict S f (xs ! i)) a b)) \<sigma>) log'"
    using ab(1) log rdy by (rule leaf_loop_range)
  moreover have "length (slice xs a b) = b - a" by (simp add: slice_def)
  then have "par_for_each_leaf_by_ref (fused_sink S f) (slice xs a b) log = leaf_loop (\<lambda>_. Inr) ?body 0 (b - a) () log"
    using serial_sink_loop [of 0 "slice xs a b" "slice xs a b" "fused_sink S f" log] by (simp add: par_for_each_leaf_by_ref_def)
  ultimately show ?thesis by (simp only:)
qed

lemma get_unchecked_slice: "a \<le> b \<Longrightarrow> b \<le> length xs \<Longrightarrow> get_unchecked xs a b = Inr (slice xs a b)"
  by (auto simp: get_unchecked_def slice_def intro!: nth_equalityI)

interpretation ref_sinking: erased_tree "log_inv S xs" "length xs" "\<lambda>i. sink_verdict S f (xs ! i)" "sink_by_ref_leaf (fused_sink S f) xs"
    "\<lambda>_ _ log. Inr log" stolen "\<lambda>p. p" "PanicFailure :: 'p \<Rightarrow> ('p, 'p) erased_failure"
  for S :: "('a, 'o, 'p) fused_stage" and xs f stolen
proof (unfold_locales, goal_cases)
  case (1 a b \<sigma> log)
  then show ?case unfolding sink_by_ref_leaf_def get_unchecked_slice [OF 1(1,2)] bind_res_simps by (rule log_leaf_law)
next
  case (2 a b \<sigma> log)
  then show ?case by (simp add: log_drop_law)
qed simp

interpretation range_sinking: erased_tree "log_inv S [lo..<hi]" "length [lo..<hi]" "\<lambda>i. sink_verdict S f ([lo..<hi] ! i)"
    "range_sink_leaf (fused_sink S f) lo" "\<lambda>_ _ log. Inr log" stolen "\<lambda>p. p" "PanicFailure :: 'p \<Rightarrow> ('p, 'p) erased_failure"
  for S :: "(nat, 'o, 'p) fused_stage" and lo hi f stolen
proof (unfold_locales, goal_cases)
  case (1 a b \<sigma> log)
  then have "[lo + a..<lo + b] = slice [lo..<hi] a b" by (auto simp: slice_def intro!: nth_equalityI)
  then have leaf: "range_sink_leaf (fused_sink S f) lo a b log = par_for_each_leaf_by_ref (fused_sink S f) (slice [lo..<hi] a b) log"
    by (simp add: range_sink_leaf_def par_for_each_leaf_by_ref_def)
  show ?case unfolding leaf using 1 by (rule log_leaf_law)
next
  case (2 a b \<sigma> log)
  then show ?case by (simp add: log_drop_law)
qed simp

lemma ref_for_each_runs:
  fixes S :: "('a, 'o, 'p) fused_stage"
  assumes law: "stage_law S" and sch: "schedulable env (length xs) plan t" and ne: "xs \<noteq> []"
    and late: "no_late_panic (\<lambda>i. sink_verdict S f (xs ! i)) 0 (length xs)"
  shows "\<exists>q log. par_for_each_by_ref env xs (fused_sink S f) plan t = Inr (q, log) \<and> for_each_result S f xs q log"
proof -
  from ne have n: "0 < length xs" by simp
  from ref_sinking.run_settles [OF sch n log_start [OF law] late, where stolen = "re_stolen env"]
  obtain r log where d: "hybrid_dispatch (re_on_pool env) (re_mode env) (re_order env)
        (erased_strategy (PanicFailure :: 'p \<Rightarrow> ('p, 'p) erased_failure) (sink_by_ref_strategy (re_stolen env) (fused_sink S f) xs)) (length xs) plan t [] = Inr (r, log)"
      "failure_of r = None \<longleftrightarrow> (\<forall>i < length xs. is_ok (sink_verdict S f (xs ! i)))"
      "\<forall>g. failure_of r = Some g \<longrightarrow> (\<exists>i < length xs. \<exists>p. flat (\<lambda>p. p) (sink_verdict S f (xs ! i)) = Inl p \<and> g = PanicFailure p) \<and>
         ((\<exists>i < length xs. panics (sink_verdict S f (xs ! i))) \<longrightarrow> (\<exists>p. g = PanicFailure p))"
      "log_inv S xs (mark 0 (length xs) (fated (failure_of r)) (\<lambda>_. Ready)) log"
    unfolding sink_by_ref_strategy_def by blast
  from for_each_settled [OF d(2-4)] d(1) ne show ?thesis by (auto simp: par_for_each_by_ref_def Let_def)
qed

lemma range_for_each_runs:
  fixes S :: "(nat, 'o, 'p) fused_stage"
  assumes law: "stage_law S" and sch: "schedulable env (hi - lo) plan t" and ne: "lo < hi"
    and late: "no_late_panic (\<lambda>i. sink_verdict S f ([lo..<hi] ! i)) 0 (hi - lo)"
  shows "\<exists>q log. par_range_gen_for_each env (lo, hi) (fused_sink S f) plan t = Inr (q, log) \<and> for_each_result S f [lo..<hi] q log"
proof -
  let ?xs = "[lo..<hi]"
  have len: "length ?xs = hi - lo" by simp
  from ne have n: "0 < length ?xs" by simp
  from range_sinking.run_settles [OF sch [folded len] n log_start [OF law] late [folded len], where stolen = "re_stolen env"]
  obtain r log where d: "hybrid_dispatch (re_on_pool env) (re_mode env) (re_order env)
        (erased_strategy (PanicFailure :: 'p \<Rightarrow> ('p, 'p) erased_failure) (range_gen_sink_strategy (re_stolen env) (fused_sink S f) lo)) (length ?xs) plan t [] = Inr (r, log)"
      "failure_of r = None \<longleftrightarrow> (\<forall>i < length ?xs. is_ok (sink_verdict S f (?xs ! i)))"
      "\<forall>g. failure_of r = Some g \<longrightarrow> (\<exists>i < length ?xs. \<exists>p. flat (\<lambda>p. p) (sink_verdict S f (?xs ! i)) = Inl p \<and> g = PanicFailure p) \<and>
         ((\<exists>i < length ?xs. panics (sink_verdict S f (?xs ! i))) \<longrightarrow> (\<exists>p. g = PanicFailure p))"
      "log_inv S ?xs (mark 0 (length ?xs) (fated (failure_of r)) (\<lambda>_. Ready)) log"
    unfolding range_gen_sink_strategy_def by blast
  from for_each_settled [OF d(2-4)] d(1) ne show ?thesis by (auto simp: par_range_gen_for_each_def Let_def)
qed

end
