(* ===== verification/Fused_Place.thy ===== *)
theory Fused_Place
  imports Fused_Ref
begin

text \<open>
  The filtering collects over a borrowed slice, \<^verbatim>\<open>builder/typed/fused.rs\<close>: the merge tree and the
  two-pass count-then-place collect, which counts the survivors of every leaf, turns the counts into
  offsets and writes the survivors into one buffer of the exact size.
\<close>

section \<open>Merge tree\<close>

text \<open>\<^verbatim>\<open>&input[start..end]\<close>, bounds-checked.\<close>

definition subslice :: "'a list \<Rightarrow> nat \<Rightarrow> nat \<Rightarrow> 'a list res" where
  "subslice xs start stop = (if start \<le> stop \<and> stop \<le> length xs then Inr (take (stop - start) (drop start xs)) else Inl IndexOutOfBounds)"

fun push_survivors :: "('a \<Rightarrow> ('p, 'o option) outcome) \<Rightarrow> 'a list \<Rightarrow> 'o list \<Rightarrow> ('p, 'o list) outcome" where
  "push_survivors f [] out = Returned out"
| "push_survivors f (x # xs) out =
     bind_out (f x) (\<lambda>y. push_survivors f xs (case y of Some v \<Rightarrow> out @ [v] | None \<Rightarrow> out))"

definition join_fused_collect_by_ref ::
    "(nat \<Rightarrow> nat \<Rightarrow> bool) \<Rightarrow> 'a list \<Rightarrow> ('a, 'o, 'p) fused_stage \<Rightarrow> nat \<Rightarrow> nat \<Rightarrow> nat \<Rightarrow> (unit, 'p, 'o list) closure" where
  "join_fused_collect_by_ref stolen input stages splits start stop =
     par_value_rec stolen
       (\<lambda>start stop s. bind_res (subslice input start stop) (\<lambda>xs. Inr (push_survivors (fs_apply stages) xs [], s)))
       (\<lambda>l r. Returned (l @ r)) splits start stop"

definition join_fused_try_collect_by_ref ::
    "(nat \<Rightarrow> nat \<Rightarrow> bool) \<Rightarrow> 'a list \<Rightarrow> ('a, 'o, 'e, 'p) fused_try_stage \<Rightarrow> nat \<Rightarrow> nat \<Rightarrow> nat \<Rightarrow> (unit, 'p, 'e + 'o list) closure" where
  "join_fused_try_collect_by_ref stolen input stages splits start stop =
     par_value_rec stolen
       (\<lambda>start stop s. bind_res (subslice input start stop) (\<lambda>xs. Inr (serial_try_loop (ts_try_apply stages) xs [], s)))
       merge_try splits start stop"

section \<open>Count-then-place\<close>

fun split_leaf_count :: "nat \<Rightarrow> nat \<Rightarrow> nat" where
  "split_leaf_count len 0 = 1"
| "split_leaf_count len (Suc splits) =
     (if len \<le> 1 then 1 else split_leaf_count (len - len div 2) splits + split_leaf_count (len div 2) splits)"

fun count_survivors :: "('a \<Rightarrow> ('p, 'o option) outcome) \<Rightarrow> 'a list \<Rightarrow> nat \<Rightarrow> ('p, nat) outcome" where
  "count_survivors f [] c = Returned c"
| "count_survivors f (x # xs) c =
     bind_out (f x) (\<lambda>y. count_survivors f xs (case y of Some _ \<Rightarrow> c + 1 | None \<Rightarrow> c))"

definition count_leaf ::
    "'a list \<Rightarrow> ('a, 'o, 'p) fused_stage \<Rightarrow> nat \<Rightarrow> nat \<Rightarrow> nat \<Rightarrow> (nat list, 'p, nat) closure" where
  "count_leaf input stages leaf_base start stop counts =
     bind_res (subslice input start stop) (\<lambda>xs.
     case count_survivors (fs_apply stages) xs 0 of
       Unwound p \<Rightarrow> Inr (Unwound p, counts)
     | Returned c \<Rightarrow> bind_res (index_res counts leaf_base) (\<lambda>_. Inr (Returned c, counts[leaf_base := c])))"

fun count_filter_rec ::
    "(nat \<Rightarrow> nat \<Rightarrow> bool) \<Rightarrow> 'a list \<Rightarrow> ('a, 'o, 'p) fused_stage \<Rightarrow> nat \<Rightarrow> nat \<Rightarrow> nat \<Rightarrow> nat \<Rightarrow> (nat list, 'p, nat) closure" where
  "count_filter_rec stolen input stages 0 start stop leaf_base counts = count_leaf input stages leaf_base start stop counts"
| "count_filter_rec stolen input stages (Suc splits) start stop leaf_base counts =
     (if stop - start \<le> 1 then count_leaf input stages leaf_base start stop counts
      else let mid = start + (stop - start) div 2; left_leaves = split_leaf_count (mid - start) splits in
        bind_res (join_on (stolen start stop)
           (count_filter_rec stolen input stages splits start mid leaf_base)
           (count_filter_rec stolen input stages splits mid stop (leaf_base + left_leaves)) counts)
          (\<lambda>(r, counts'). Inr (bind_out r (\<lambda>(l, r). Returned (l + r)), counts')))"

record ('a, 'o, 'p) filter_place_ctx =
  fp_input :: "'a list"
  fp_stages :: "('a, 'o, 'p) fused_stage"
  fp_bounds :: "nat list"
  fp_counts :: "nat list"

text \<open>One leaf: the guard runs on an unwind of the chain; the two assertions check the count.\<close>

fun place_loop ::
    "(nat \<Rightarrow> 's \<Rightarrow> 's res) \<Rightarrow> (nat \<Rightarrow> 'o \<Rightarrow> 's \<Rightarrow> 's res) \<Rightarrow> ('a \<Rightarrow> ('p, 'o option) outcome) \<Rightarrow> nat \<Rightarrow> 'a list \<Rightarrow> nat \<Rightarrow> ('s, 'p, unit) closure" where
  "place_loop clean store f cnt [] written s = (if written = cnt then Inr (Returned (), s) else Inl ExplicitPanic)"
| "place_loop clean store f cnt (x # xs) written s =
     (case f x of
        Unwound p \<Rightarrow> bind_res (clean written s) (\<lambda>s'. Inr (Unwound p, s'))
      | Returned None \<Rightarrow> place_loop clean store f cnt xs written s
      | Returned (Some y) \<Rightarrow>
          if written < cnt then bind_res (store written y s) (place_loop clean store f cnt xs (written + 1))
          else Inl ExplicitPanic)"

definition store_output :: "nat \<Rightarrow> nat \<Rightarrow> 'o \<Rightarrow> ('a, 'o) fused_mem \<Rightarrow> ('a, 'o) fused_mem res" where
  "store_output out_ptr i y m = bind_res (slot_write (fm_out m) (out_ptr + i) y) (\<lambda>outp. Inr (m\<lparr>fm_out := outp\<rparr>))"

definition place_leaf :: "('a, 'o, 'p) filter_place_ctx \<Rightarrow> nat \<Rightarrow> nat \<Rightarrow> nat \<Rightarrow> ((unit, 'o) fused_mem, 'p, unit) closure" where
  "place_leaf ctx leaf_base start stop m =
     bind_res (index_res (fp_bounds ctx) leaf_base) (\<lambda>off.
     bind_res (index_res (fp_counts ctx) leaf_base) (\<lambda>cnt.
     bind_res (as_slice (fm_out m) off (off + cnt)) (\<lambda>out_slice.
     bind_res (subslice (fp_input ctx) start stop) (\<lambda>xs.
     place_loop (\<lambda>w. leaf_clean True False \<lparr>lc_in = 0, lc_out = fst out_slice, lc_n = stop - start, lc_written = w\<rparr>)
       (store_output (fst out_slice)) (fs_apply (fp_stages ctx)) cnt xs 0 m))))"

definition drop_leaf_range :: "('a, 'o, 'p) filter_place_ctx \<Rightarrow> nat \<Rightarrow> nat \<Rightarrow> (unit, 'o) fused_mem \<Rightarrow> (unit, 'o) fused_mem res" where
  "drop_leaf_range ctx lo hi m =
     bind_res (index_res (fp_bounds ctx) lo) (\<lambda>a. bind_res (index_res (fp_bounds ctx) hi) (\<lambda>b. drop_output a b m))"

text \<open>After the join: a completed half is dropped before the panic of the other rides on.\<close>

definition resolve_place ::
    "('a, 'o, 'p) filter_place_ctx \<Rightarrow> nat \<Rightarrow> nat \<Rightarrow> nat \<Rightarrow> ('p, ('p + unit) \<times> ('p + unit)) outcome \<Rightarrow> ((unit, 'o) fused_mem, 'p, unit) closure" where
  "resolve_place ctx lo mid hi joined m1 =
     (case joined of
        Unwound p \<Rightarrow> bind_res (sibling_guard_drop (drop_leaf_range ctx) lo mid m1) (\<lambda>m2. Inr (Unwound p, m2))
      | Returned (Inr _, Inr _) \<Rightarrow> Inr (Returned (), m1)
      | Returned (Inl p, Inl _) \<Rightarrow> Inr (Unwound p, m1)
      | Returned (Inl p, Inr _) \<Rightarrow> bind_res (drop_leaf_range ctx mid hi m1) (\<lambda>m2. Inr (Unwound p, m2))
      | Returned (Inr _, Inl p) \<Rightarrow> bind_res (drop_leaf_range ctx lo mid m1) (\<lambda>m2. Inr (Unwound p, m2)))"

fun place_filter_rec ::
    "(nat \<Rightarrow> nat \<Rightarrow> bool) \<Rightarrow> ('a, 'o, 'p) filter_place_ctx \<Rightarrow> nat \<Rightarrow> nat \<Rightarrow> nat \<Rightarrow> nat \<Rightarrow> ((unit, 'o) fused_mem, 'p, unit) closure" where
  "place_filter_rec stolen ctx 0 start stop leaf_base m = place_leaf ctx leaf_base start stop m"
| "place_filter_rec stolen ctx (Suc splits) start stop leaf_base m =
     (if stop - start \<le> 1 then place_leaf ctx leaf_base start stop m
      else
        let mid = start + (stop - start) div 2;
            left_leaves = split_leaf_count (mid - start) splits;
            leaves = left_leaves + split_leaf_count (stop - mid) splits in
        bind_res (join_on_captured (stolen start stop)
           (place_filter_rec stolen ctx splits start mid leaf_base)
           (place_filter_rec stolen ctx splits mid stop (leaf_base + left_leaves)) m)
          (\<lambda>(joined, m1). resolve_place ctx leaf_base (leaf_base + left_leaves) (leaf_base + leaves) joined m1))"

text \<open>The running offsets, with the total as the sentinel that closes the last leaf.\<close>

fun scan_bounds :: "nat list \<Rightarrow> nat \<Rightarrow> nat list" where
  "scan_bounds [] acc = [acc]"
| "scan_bounds (c # cs) acc = acc # scan_bounds cs (acc + c)"

definition fused_filter_collect_by_ref_ctp ::
    "(nat \<Rightarrow> nat \<Rightarrow> bool) \<Rightarrow> 'a list \<Rightarrow> ('a, 'o, 'p) fused_stage \<Rightarrow> nat \<Rightarrow> (('p, 'o list) outcome \<times> 'o option list) res" where
  "fused_filter_collect_by_ref_ctp stolen input stages depth =
     (let n = length input; leaves = split_leaf_count n depth in
      bind_res (count_filter_rec stolen input stages depth 0 n 0 (replicate leaves 0)) (\<lambda>(r, counts).
      case r of
        Unwound p \<Rightarrow> Inr (Unwound p, [])
      | Returned _ \<Rightarrow>
          let ctx = \<lparr>fp_input = input, fp_stages = stages, fp_bounds = scan_bounds counts 0, fp_counts = counts\<rparr> in
          bind_res (place_filter_rec stolen ctx depth 0 n 0 (output_only (sum_list counts))) (\<lambda>(r, m).
          case r of
            Unwound p \<Rightarrow> Inr (Unwound p, sl_buf (fm_out m))
          | Returned _ \<Rightarrow> bind_res (into_vec (fm_out m)) (\<lambda>v. Inr (Returned (v_items v), [])))))"

section \<open>The merge tree is the sequential filter\<close>

lemma subslice_slice: "a \<le> b \<Longrightarrow> b \<le> length xs \<Longrightarrow> subslice xs a b = Inr (slice xs a b)"
  by (auto simp: subslice_def slice_def intro!: nth_equalityI)

lemma push_survivors_gather: "push_survivors f xs out = bind_out (gather f xs) (\<lambda>ys. Returned (out @ ys))"
proof (induction xs arbitrary: out)
  case (Cons x xs)
  then show ?case by (cases "f x"; cases "gather f xs") (auto split: option.splits)
qed simp

lemma serial_try_loop_gather:
  "serial_try_loop f xs out = try_bind (try_gather f xs) (\<lambda>ys. Returned (Inr (out @ ys)))"
proof (induction xs arbitrary: out)
  case (Cons x xs)
  then show ?case by (cases "f x" rule: try_cases; cases "try_gather f xs" rule: try_cases) (auto split: option.splits)
qed simp

lemma bind_out_returned: "bind_out r Returned = r"
  by (cases r) auto

lemma try_bind_returned: "try_bind r (\<lambda>ys. Returned (Inr ys)) = r"
  by (cases r rule: try_cases) auto

interpretation ref_merging: value_tree "\<lambda>_ _. True" "length xs"
    "\<lambda>start stop s. bind_res (subslice xs start stop) (\<lambda>xs. Inr (push_survivors (fs_apply S) xs [], s))" "\<lambda>l r. Returned (l @ r)"
    "\<lambda>a b. gather (fs_apply S) (slice xs a b)" "\<lambda>_ _. True" for xs S
  by unfold_locales (simp_all add: subslice_slice push_survivors_gather bind_out_returned filter_merge_law)

interpretation ref_try_merging: value_tree "\<lambda>_ _. True" "length xs"
    "\<lambda>start stop s. bind_res (subslice xs start stop) (\<lambda>xs. Inr (serial_try_loop (ts_try_apply S) xs [], s))" merge_try
    "\<lambda>a b. try_gather (ts_try_apply S) (slice xs a b)" "no_late_panic (stage_verdict S xs)" for xs S
  by unfold_locales (simp_all add: subslice_slice serial_try_loop_gather try_bind_returned try_merge_law no_late_panic_sub)

lemma join_fused_collect_gather:
  "join_fused_collect_by_ref stolen xs S splits 0 (length xs) () = Inr (gather (fs_apply S) xs, ())"
  using ref_merging.par_value_rec_runs [where xs = xs and S = S and a = 0 and b = "length xs" and \<sigma> = "\<lambda>_. Ready" and s = "()"
      and stolen = stolen and splits = splits]
  by (simp add: join_fused_collect_by_ref_def)

lemma join_fused_try_collect_gather:
  assumes "no_late_panic (stage_verdict S xs) 0 (length xs)"
  shows "join_fused_try_collect_by_ref stolen xs S splits 0 (length xs) () = Inr (try_gather (ts_try_apply S) xs, ())"
  using ref_try_merging.par_value_rec_runs [where xs = xs and S = S and a = 0 and b = "length xs" and \<sigma> = "\<lambda>_. Ready" and s = "()"
      and stolen = stolen and splits = splits] assms
  by (simp add: join_fused_try_collect_by_ref_def)

section \<open>Blocks of a buffer\<close>

definition overwrite :: "'a list \<Rightarrow> nat \<Rightarrow> 'a list \<Rightarrow> 'a list" where
  "overwrite xs off vs = take off xs @ vs @ drop (off + length vs) xs"

definition fill :: "'a slots \<Rightarrow> nat \<Rightarrow> 'a option list \<Rightarrow> 'a slots" where
  "fill sl off vs = sl\<lparr>sl_buf := overwrite (sl_buf sl) off vs\<rparr>"

definition blank :: "'a slots \<Rightarrow> nat \<Rightarrow> nat \<Rightarrow> bool" where
  "blank sl a b \<longleftrightarrow> a \<le> b \<and> b \<le> sl_len sl \<and> sl_len sl = length (sl_buf sl) \<and> (\<forall>i. a \<le> i \<and> i < b \<longrightarrow> sl_buf sl ! i = None)"

lemma length_overwrite [simp]: "off + length vs \<le> length xs \<Longrightarrow> length (overwrite xs off vs) = length xs"
  by (simp add: overwrite_def)

lemma nth_overwrite:
  "off + length vs \<le> length xs \<Longrightarrow> overwrite xs off vs ! i = (if off \<le> i \<and> i < off + length vs then vs ! (i - off) else xs ! i)"
  by (auto simp: overwrite_def nth_append)

lemma overwrite_Nil [simp]: "overwrite xs off [] = xs"
  by (simp add: overwrite_def)

lemma overwrite_append:
  assumes "off + length vs + length ws \<le> length xs"
  shows "overwrite (overwrite xs off vs) (off + length vs) ws = overwrite xs off (vs @ ws)"
  using assms by (intro nth_equalityI) (auto simp: nth_overwrite nth_append)

lemma overwrite_snoc:
  assumes "off + length vs < length xs"
  shows "(overwrite xs off vs)[off + length vs := v] = overwrite xs off (vs @ [v])"
  using assms by (intro nth_equalityI) (auto simp: nth_overwrite nth_append nth_list_update)

lemma sl_len_fill [simp]: "sl_len (fill sl off vs) = sl_len sl"
  by (simp add: fill_def)

lemma fill_Nil [simp]: "fill sl off [] = sl"
  by (simp add: fill_def)

lemma fill_append:
  "off + length vs + length ws \<le> length (sl_buf sl) \<Longrightarrow> fill (fill sl off vs) (off + length vs) ws = fill sl off (vs @ ws)"
  by (simp add: fill_def overwrite_append)

lemma fill_write:
  "off + length vs < length (sl_buf sl) \<Longrightarrow> slot_write (fill sl off vs) (off + length vs) y = Inr (fill sl off (vs @ [Some y]))"
  by (simp add: fill_def slot_write_def overwrite_snoc)

lemma blank_sub: "blank sl a b \<Longrightarrow> a \<le> c \<Longrightarrow> c \<le> d \<Longrightarrow> d \<le> b \<Longrightarrow> blank sl c d"
  by (auto simp: blank_def)

lemma blank_fill:
  "blank sl a b \<Longrightarrow> off + length vs \<le> a \<or> b \<le> off \<and> off + length vs \<le> length (sl_buf sl) \<Longrightarrow> blank (fill sl off vs) a b"
  by (auto simp: blank_def fill_def nth_overwrite)

lemma fill_blank:
  assumes "blank sl off (off + k)"
  shows "fill sl off (replicate k None) = sl"
proof -
  have "overwrite (sl_buf sl) off (replicate k None) = sl_buf sl"
    using assms by (intro nth_equalityI) (auto simp: nth_overwrite blank_def)
  then show ?thesis by (simp add: fill_def)
qed

text \<open>Dropping a block of values that was written over empty slots restores the buffer.\<close>

lemma drop_fill:
  assumes "blank sl off (off + length ys)"
  shows "drop_each [off..<off + length ys] (fill sl off (map Some ys)) = Inr sl"
proof -
  let ?f = "fill sl off (map Some ys)"
  have b: "off + length ys \<le> length (sl_buf sl)" using assms by (auto simp: blank_def)
  then have "length (sl_buf ?f) = length (sl_buf sl)" by (simp add: fill_def)
  moreover have "sl_buf ?f ! i \<noteq> None" if "off \<le> i" "i < off + length ys" for i
    using b that by (simp add: fill_def nth_overwrite)
  ultimately obtain sl' where sl': "drop_each [off..<off + length ys] ?f = Inr sl'" "sl_len sl' = sl_len sl"
      "length (sl_buf sl') = length (sl_buf sl)"
      "\<forall>i < length (sl_buf sl). sl_buf sl' ! i = (if off \<le> i \<and> i < off + length ys then None else sl_buf ?f ! i)"
    using drop_each_upt [of off "off + length ys" ?f] b by auto
  have "sl_buf sl' = sl_buf sl"
    using sl'(3,4) assms b by (intro nth_equalityI) (auto simp: fill_def nth_overwrite blank_def)
  with sl'(1,2) show ?thesis by (metis (full_types) old.unit.exhaust slots.equality)
qed

section \<open>Leaves of a range\<close>

fun leaf_ranges :: "nat \<Rightarrow> nat \<Rightarrow> nat \<Rightarrow> (nat \<times> nat) list" where
  "leaf_ranges 0 a b = [(a, b)]"
| "leaf_ranges (Suc splits) a b =
     (if b - a \<le> 1 then [(a, b)]
      else leaf_ranges splits a (a + (b - a) div 2) @ leaf_ranges splits (a + (b - a) div 2) b)"

lemma length_leaf_ranges: "a \<le> b \<Longrightarrow> length (leaf_ranges splits a b) = split_leaf_count (b - a) splits"
proof (induction splits arbitrary: a b)
  case (Suc splits)
  show ?case
  proof (cases "b - a \<le> 1")
    case False
    define m where "m = a + (b - a) div 2"
    have m: "a \<le> m" "m \<le> b" "m - a = (b - a) div 2" "b - m = b - a - (b - a) div 2" using Suc.prems by (auto simp: m_def)
    from m Suc.IH [of a m] Suc.IH [of m b] have
      "length (leaf_ranges splits a m) = split_leaf_count ((b - a) div 2) splits"
      "length (leaf_ranges splits m b) = split_leaf_count (b - a - (b - a) div 2) splits" by simp_all
    then show ?thesis using False unfolding leaf_ranges.simps split_leaf_count.simps m_def by simp
  qed simp
qed simp

lemma leaf_ranges_ne [simp]: "leaf_ranges splits a b \<noteq> []"
  by (induction splits arbitrary: a b) auto

text \<open>The number of survivors before the first panic of the chain.\<close>

fun kept :: "('a \<Rightarrow> ('p, 'o option) outcome) \<Rightarrow> 'a list \<Rightarrow> nat" where
  "kept f [] = 0"
| "kept f (x # xs) = (case f x of Unwound _ \<Rightarrow> 0 | Returned None \<Rightarrow> kept f xs | Returned (Some _) \<Rightarrow> Suc (kept f xs))"

lemma kept_gather: "gather f xs = Returned ys \<Longrightarrow> kept f xs = length ys"
proof (induction xs arbitrary: ys)
  case (Cons x xs)
  then show ?case by (cases "f x"; cases "gather f xs") (auto split: option.splits)
qed simp

abbreviation leaf_kept :: "('a \<Rightarrow> ('p, 'o option) outcome) \<Rightarrow> 'a list \<Rightarrow> nat \<times> nat \<Rightarrow> nat" where
  "leaf_kept f xs \<equiv> \<lambda>(a, b). kept f (slice xs a b)"

section \<open>The count pass\<close>

lemma count_survivors_gather: "count_survivors f xs c = bind_out (gather f xs) (\<lambda>ys. Returned (c + length ys))"
proof (induction xs arbitrary: c)
  case (Cons x xs)
  then show ?case by (cases "f x"; cases "gather f xs") (auto split: option.splits)
qed simp

lemma count_leaf_runs:
  assumes "a \<le> b" and "b \<le> length xs" and "base < length counts"
  shows "count_leaf xs S base a b counts = Inr (case gather (fs_apply S) (slice xs a b) of
       Returned ys \<Rightarrow> (Returned (length ys), overwrite counts base [kept (fs_apply S) (slice xs a b)])
     | Unwound p \<Rightarrow> (Unwound p, counts))"
  using assms by (cases "gather (fs_apply S) (slice xs a b)")
    (auto simp: count_leaf_def subslice_slice count_survivors_gather overwrite_def upd_conv_take_nth_drop kept_gather)

lemma count_filter_rec_runs:
  assumes "a \<le> b" and "b \<le> length xs" and "base + length (leaf_ranges splits a b) \<le> length counts"
  shows "\<exists>counts'. count_filter_rec stolen xs S splits a b base counts =
       Inr (bind_out (gather (fs_apply S) (slice xs a b)) (\<lambda>ys. Returned (length ys)), counts') \<and>
     length counts' = length counts \<and>
     (\<not> panics (gather (fs_apply S) (slice xs a b)) \<longrightarrow>
        counts' = overwrite counts base (map (leaf_kept (fs_apply S) xs) (leaf_ranges splits a b)))"
  using assms
proof (induction splits arbitrary: a b base counts)
  case 0
  then show ?case using count_leaf_runs [of a b xs base counts S] by (cases "gather (fs_apply S) (slice xs a b)") auto
next
  case (Suc splits)
  let ?f = "fs_apply S"
  show ?case
  proof (cases "b - a \<le> 1")
    case True
    with Suc.prems count_leaf_runs [of a b xs base counts S] show ?thesis
      by (cases "gather ?f (slice xs a b)") auto
  next
    case False
    define m where "m = a + (b - a) div 2"
    with False have m: "a \<le> m" "m \<le> b" by auto
    let ?L = "leaf_ranges splits a m" and ?R = "leaf_ranges splits m b"
    have leaves: "leaf_ranges (Suc splits) a b = ?L @ ?R" using False by (simp add: m_def)
    have left: "split_leaf_count (m - a) splits = length ?L" using length_leaf_ranges [OF m(1)] by simp
    have g: "gather ?f (slice xs a b) = bind_out (both (gather ?f (slice xs a m)) (gather ?f (slice xs m b))) (\<lambda>(l, r). Returned (l @ r))"
      unfolding slice_append [OF m] gather_append ..
    from Suc.IH [of a m base counts] m Suc.prems leaves obtain c1 where
      c1: "count_filter_rec stolen xs S splits a m base counts = Inr (bind_out (gather ?f (slice xs a m)) (\<lambda>ys. Returned (length ys)), c1)"
        "length c1 = length counts"
        "\<not> panics (gather ?f (slice xs a m)) \<longrightarrow> c1 = overwrite counts base (map (leaf_kept ?f xs) ?L)" by auto
    from Suc.IH [of m b "base + length ?L" c1] m Suc.prems leaves c1(2) obtain c2 where
      c2: "count_filter_rec stolen xs S splits m b (base + length ?L) c1 =
          Inr (bind_out (gather ?f (slice xs m b)) (\<lambda>ys. Returned (length ys)), c2)" "length c2 = length c1"
        "\<not> panics (gather ?f (slice xs m b)) \<longrightarrow> c2 = overwrite c1 (base + length ?L) (map (leaf_kept ?f xs) ?R)" by auto
    have "overwrite (overwrite counts base (map (leaf_kept ?f xs) ?L)) (base + length ?L) (map (leaf_kept ?f xs) ?R) =
        overwrite counts base (map (leaf_kept ?f xs) (?L @ ?R))"
      using Suc.prems(3) leaves overwrite_append [of base "map (leaf_kept ?f xs) ?L" "map (leaf_kept ?f xs) ?R" counts] by simp
    with False c1 c2 left show ?thesis unfolding leaves g
      by (cases "gather ?f (slice xs a m)"; cases "gather ?f (slice xs m b)")
        (auto simp: m_def [symmetric] Let_def join_on_both)
  qed
qed

section \<open>The place pass\<close>

abbreviation with_out :: "(unit, 'o) fused_mem \<Rightarrow> 'o slots \<Rightarrow> (unit, 'o) fused_mem" where
  "with_out m sl \<equiv> m\<lparr>fm_out := sl\<rparr>"

lemma place_loop_runs:
  assumes "blank sl off (off + cnt)" and "length zs + kept f xs \<le> cnt"
    and "\<And>ys. gather f xs = Returned ys \<Longrightarrow> length zs + length ys = cnt"
  shows "place_loop (\<lambda>w. leaf_clean True False \<lparr>lc_in = 0, lc_out = off, lc_n = k, lc_written = w\<rparr>) (store_output off) f cnt xs (length zs)
       (with_out m (fill sl off (map Some zs))) =
     Inr (case gather f xs of
        Returned ys \<Rightarrow> (Returned (), with_out m (fill sl off (map Some (zs @ ys))))
      | Unwound p \<Rightarrow> (Unwound p, with_out m sl))"
  using assms
proof (induction xs arbitrary: zs)
  case Nil
  then show ?case by simp
next
  case (Cons x xs)
  show ?case
  proof (cases "f x")
    case (Unwound p)
    have "blank sl off (off + length zs)" using Cons.prems(1,2) by (auto intro: blank_sub)
    from drop_fill [OF this] Unwound show ?thesis by (simp add: leaf_clean_def map_plus_upt)
  next
    case (Returned y)
    show ?thesis
    proof (cases y)
      case None
      with Cons Returned show ?thesis by (cases "gather f xs") auto
    next
      case (Some v)
      have len: "length zs < cnt" "off + length zs < length (sl_buf sl)"
        using Cons.prems(1,2) Returned Some by (auto simp: blank_def)
      have gs: "length (zs @ [v]) + length ys = cnt" if "gather f xs = Returned ys" for ys
        using Cons.prems(3) [of "v # ys"] that Returned Some by simp
      have kp: "length (zs @ [v]) + kept f xs \<le> cnt" using Cons.prems(2) Returned Some by simp
      from len fill_write [of off "map Some zs" sl v]
      have "store_output off (length zs) v (with_out m (fill sl off (map Some zs))) = Inr (with_out m (fill sl off (map Some (zs @ [v]))))"
        by (simp add: store_output_def)
      with Cons.IH [OF Cons.prems(1) kp gs] len(1) Returned Some show ?thesis by (cases "gather f xs") auto
    qed
  qed
qed

text \<open>What the two arrays promise: offsets are running sums, and a leaf does not exceed its count.\<close>

definition place_ok :: "('a, 'o, 'p) filter_place_ctx \<Rightarrow> bool" where
  "place_ok ctx \<longleftrightarrow> length (fp_bounds ctx) = Suc (length (fp_counts ctx)) \<and>
     (\<forall>i < length (fp_counts ctx). fp_bounds ctx ! Suc i = fp_bounds ctx ! i + fp_counts ctx ! i)"

definition leaf_fits :: "('a, 'o, 'p) filter_place_ctx \<Rightarrow> nat \<Rightarrow> nat \<times> nat \<Rightarrow> bool" where
  "leaf_fits ctx j = (\<lambda>(a, b). j < length (fp_counts ctx) \<and>
     leaf_kept (fs_apply (fp_stages ctx)) (fp_input ctx) (a, b) \<le> fp_counts ctx ! j \<and>
     (\<not> panics (gather (fs_apply (fp_stages ctx)) (slice (fp_input ctx) a b)) \<longrightarrow>
        leaf_kept (fs_apply (fp_stages ctx)) (fp_input ctx) (a, b) = fp_counts ctx ! j))"

fun leaves_fit :: "('a, 'o, 'p) filter_place_ctx \<Rightarrow> nat \<Rightarrow> (nat \<times> nat) list \<Rightarrow> bool" where
  "leaves_fit ctx j [] = True"
| "leaves_fit ctx j (l # ls) = (leaf_fits ctx j l \<and> leaves_fit ctx (Suc j) ls)"

lemma leaves_fit_append: "leaves_fit ctx j (ls @ rs) \<longleftrightarrow> leaves_fit ctx j ls \<and> leaves_fit ctx (j + length ls) rs"
  by (induction ls arbitrary: j) auto

lemma leaves_fit_within: "leaves_fit ctx j ls \<Longrightarrow> ls \<noteq> [] \<Longrightarrow> j + length ls \<le> length (fp_counts ctx)"
  by (induction ls arbitrary: j) (fastforce simp: leaf_fits_def)+

lemma bounds_mono:
  assumes "place_ok ctx" and "i \<le> j" and "j \<le> length (fp_counts ctx)"
  shows "fp_bounds ctx ! i \<le> fp_bounds ctx ! j"
  using assms(2,3)
proof (induction j)
  case (Suc j)
  with assms(1) show ?case by (cases "i = Suc j") (auto simp: place_ok_def intro: le_trans)
qed simp

abbreviation placed :: "('a, 'o, 'p) filter_place_ctx \<Rightarrow> nat \<Rightarrow> nat \<Rightarrow> nat \<Rightarrow> (unit, 'o) fused_mem \<Rightarrow> ('p, unit) outcome \<times> (unit, 'o) fused_mem" where
  "placed ctx base a b m \<equiv> (case gather (fs_apply (fp_stages ctx)) (slice (fp_input ctx) a b) of
       Returned ys \<Rightarrow> (Returned (), with_out m (fill (fm_out m) (fp_bounds ctx ! base) (map Some ys)))
     | Unwound p \<Rightarrow> (Unwound p, m))"

lemma place_leaf_runs:
  assumes ok: "place_ok ctx" and ab: "a \<le> b" "b \<le> length (fp_input ctx)" and fit: "leaf_fits ctx base (a, b)"
    and bl: "blank (fm_out m) (fp_bounds ctx ! base) (fp_bounds ctx ! Suc base)"
  shows "place_leaf ctx base a b m = Inr (placed ctx base a b m)"
proof -
  let ?f = "fs_apply (fp_stages ctx)" and ?xs = "slice (fp_input ctx) a b" and ?off = "fp_bounds ctx ! base" and ?cnt = "fp_counts ctx ! base"
  from fit have j: "base < length (fp_counts ctx)" "kept ?f ?xs \<le> ?cnt" "\<not> panics (gather ?f ?xs) \<longrightarrow> kept ?f ?xs = ?cnt"
    by (simp_all add: leaf_fits_def)
  from ok j(1) have off: "fp_bounds ctx ! Suc base = ?off + ?cnt" "base < length (fp_bounds ctx)" by (simp_all add: place_ok_def)
  with bl have "as_slice (fm_out m) ?off (?off + ?cnt) = Inr (?off, ?cnt)" by (simp add: as_slice_def range_ok_def blank_def)
  moreover have "place_loop (\<lambda>w. leaf_clean True False \<lparr>lc_in = 0, lc_out = ?off, lc_n = b - a, lc_written = w\<rparr>) (store_output ?off) ?f ?cnt ?xs 0 m =
      Inr (placed ctx base a b m)"
    using place_loop_runs [of "fm_out m" ?off ?cnt "[]" ?f ?xs "b - a" m] bl off(1) j kept_gather [of ?f ?xs]
    by (cases "gather ?f ?xs") auto
  ultimately show ?thesis using off j(1) ab by (simp add: place_leaf_def subslice_slice)
qed

lemma drop_leaf_range_fill:
  assumes ok: "place_ok ctx" and j: "lo \<le> hi" "hi \<le> length (fp_counts ctx)"
    and bl: "blank sl (fp_bounds ctx ! lo) (fp_bounds ctx ! hi)" and len: "fp_bounds ctx ! hi = fp_bounds ctx ! lo + length ys"
  shows "drop_leaf_range ctx lo hi (with_out m (fill sl (fp_bounds ctx ! lo) (map Some ys))) = Inr (with_out m sl)"
  using assms drop_fill [of sl "fp_bounds ctx ! lo" ys]
  by (auto simp: drop_leaf_range_def drop_output_def drop_range_def range_ok_def place_ok_def blank_def)

text \<open>A node: both halves ran, a completed one is dropped when the other panicked.\<close>

lemma place_filter_rec_runs:
  assumes ok: "place_ok ctx" and "a \<le> b" and "b \<le> length (fp_input ctx)"
    and "leaves_fit ctx base (leaf_ranges splits a b)"
    and "blank (fm_out m) (fp_bounds ctx ! base) (fp_bounds ctx ! (base + length (leaf_ranges splits a b)))"
  shows "place_filter_rec stolen ctx splits a b base m = Inr (placed ctx base a b m) \<and>
     (\<forall>ys. gather (fs_apply (fp_stages ctx)) (slice (fp_input ctx) a b) = Returned ys \<longrightarrow>
        fp_bounds ctx ! (base + length (leaf_ranges splits a b)) = fp_bounds ctx ! base + length ys)"
  using assms(2-)
proof (induction splits arbitrary: a b base m)
  case 0
  then have fit: "leaf_fits ctx base (a, b)" by simp
  then have "fp_bounds ctx ! Suc base = fp_bounds ctx ! base + fp_counts ctx ! base" using ok by (auto simp: leaf_fits_def place_ok_def)
  with 0 fit place_leaf_runs [OF ok 0(1,2) fit] show ?case by (auto simp: leaf_fits_def kept_gather)
next
  case (Suc splits)
  let ?f = "fs_apply (fp_stages ctx)" and ?xs = "fp_input ctx" and ?B = "\<lambda>i. fp_bounds ctx ! i"
  show ?case
  proof (cases "b - a \<le> 1")
    case True
    with Suc.prems have fit: "leaf_fits ctx base (a, b)" by simp
    then have "?B (Suc base) = ?B base + fp_counts ctx ! base" using ok by (auto simp: leaf_fits_def place_ok_def)
    with True Suc.prems fit place_leaf_runs [OF ok Suc.prems(1,2) fit] show ?thesis by (auto simp: leaf_fits_def kept_gather)
  next
    case False
    define mid where "mid = a + (b - a) div 2"
    with False have mid: "a \<le> mid" "mid \<le> b" by auto
    let ?L = "leaf_ranges splits a mid" and ?R = "leaf_ranges splits mid b"
    define j where "j = base + length ?L"
    define h where "h = j + length ?R"
    have leaves: "leaf_ranges (Suc splits) a b = ?L @ ?R" using False by (simp add: mid_def)
    have left: "base + split_leaf_count (mid - a) splits = j" "base + (split_leaf_count (mid - a) splits + split_leaf_count (b - mid) splits) = h"
      using length_leaf_ranges [OF mid(1)] length_leaf_ranges [OF mid(2)] by (simp_all add: j_def h_def)
    from Suc.prems(3) leaves have fit: "leaves_fit ctx base ?L" "leaves_fit ctx j ?R" by (auto simp: leaves_fit_append j_def)
    from leaves_fit_within [OF Suc.prems(3)] have hb: "h \<le> length (fp_counts ctx)" "base \<le> j" "j \<le> h"
      unfolding leaves by (simp_all add: h_def j_def)
    from Suc.prems(4) leaves have bl: "blank (fm_out m) (?B base) (?B h)" by (simp add: h_def j_def add.assoc)
    note mono = bounds_mono [OF ok hb(2) le_trans [OF hb(3,1)]] bounds_mono [OF ok hb(3,1)]
    have blL: "blank (fm_out m) (?B base) (?B j)" and blR: "blank (fm_out m) (?B j) (?B h)" using bl mono by (auto intro: blank_sub)
    have g: "gather ?f (slice ?xs a b) = bind_out (both (gather ?f (slice ?xs a mid)) (gather ?f (slice ?xs mid b))) (\<lambda>(l, r). Returned (l @ r))"
      unfolding slice_append [OF mid] gather_append ..
    obtain l m1 where l: "placed ctx base a mid m = (l, m1)" by (cases "placed ctx base a mid m")
    note A = Suc.IH [of a mid base m, folded j_def] 
    from A mid Suc.prems fit blL have A1: "place_filter_rec stolen ctx splits a mid base m = Inr (l, m1)"
      and A2: "\<And>ys. gather ?f (slice ?xs a mid) = Returned ys \<Longrightarrow> ?B j = ?B base + length ys" by (auto simp: l)
    have blR1: "blank (fm_out m1) (?B j) (?B h)"
      using l blR A2 by (cases "gather ?f (slice ?xs a mid)") (auto intro!: blank_fill)
    obtain r m2 where r: "placed ctx j mid b m1 = (r, m2)" by (cases "placed ctx j mid b m1")
    from Suc.IH [of mid b j m1, folded h_def] mid Suc.prems fit blR1
    have B1: "place_filter_rec stolen ctx splits mid b j m1 = Inr (r, m2)"
      and B2: "\<And>ys. gather ?f (slice ?xs mid b) = Returned ys \<Longrightarrow> ?B h = ?B j + length ys" by (auto simp: r)
    have join: "join_on_captured (stolen a b) (place_filter_rec stolen ctx splits a mid base) (place_filter_rec stolen ctx splits mid b j) m =
        Inr (case r of Unwound p \<Rightarrow> if \<not> stolen a b \<and> \<not> panics l then Unwound p else Returned (captured l, Inl p)
             | Returned y \<Rightarrow> Returned (captured l, Inr y), m2)"
      using A1 B1 by (rule join_captured_result)
    have dropL: "drop_leaf_range ctx base j m2 = Inr m" if "gather ?f (slice ?xs a mid) = Returned ys" "gather ?f (slice ?xs mid b) = Unwound p" for ys p
      using drop_leaf_range_fill [OF ok hb(2) le_trans [OF hb(3,1)] blL A2 [OF that(1)], of m] l r that by auto
    have dropR: "drop_leaf_range ctx j h m2 = Inr m" if "gather ?f (slice ?xs a mid) = Unwound p" "gather ?f (slice ?xs mid b) = Returned ys" for ys p
      using drop_leaf_range_fill [OF ok hb(3,1) blR B2 [OF that(2)], of m] l r that by auto
    have both: "m2 = with_out m (fill (fm_out m) (?B base) (map Some (ys @ zs)))"
      if "gather ?f (slice ?xs a mid) = Returned ys" "gather ?f (slice ?xs mid b) = Returned zs" for ys zs
      using fill_append [of "?B base" "map Some ys" "map Some zs" "fm_out m"] l r that A2 [OF that(1)] B2 [OF that(2)] bl
      by (auto simp: blank_def)
    have rec: "place_filter_rec stolen ctx (Suc splits) a b base m = resolve_place ctx base j h
        (case r of Unwound p \<Rightarrow> if \<not> stolen a b \<and> \<not> panics l then Unwound p else Returned (captured l, Inl p)
         | Returned y \<Rightarrow> Returned (captured l, Inr y)) m2"
      using False join unfolding left [symmetric] by (simp add: mid_def [symmetric] Let_def)
    have stop: "base + length (?L @ ?R) = h" by (simp add: h_def j_def)
    show ?thesis unfolding rec leaves stop
    proof (cases "gather ?f (slice ?xs a mid)")
      case L: (Returned ys)
      show "resolve_place ctx base j h (case r of Unwound p \<Rightarrow> if \<not> stolen a b \<and> \<not> panics l then Unwound p else Returned (captured l, Inl p)
         | Returned y \<Rightarrow> Returned (captured l, Inr y)) m2 = Inr (placed ctx base a b m) \<and>
        (\<forall>ys. gather ?f (slice ?xs a b) = Returned ys \<longrightarrow> ?B h = ?B base + length ys)"
      proof (cases "gather ?f (slice ?xs mid b)")
        case R: (Returned zs)
        have "l = Returned ()" "r = Returned ()" using l r L R by auto
        with L R both [OF L R] A2 [OF L] B2 [OF R] show ?thesis by (simp add: g resolve_place_def)
      next
        case R: (Unwound p)
        have "l = Returned ()" "r = Unwound p" using l r L R by auto
        with L R dropL [OF L R] show ?thesis by (simp add: g resolve_place_def sibling_guard_drop_def)
      qed
    next
      case L: (Unwound p)
      show "resolve_place ctx base j h (case r of Unwound p \<Rightarrow> if \<not> stolen a b \<and> \<not> panics l then Unwound p else Returned (captured l, Inl p)
         | Returned y \<Rightarrow> Returned (captured l, Inr y)) m2 = Inr (placed ctx base a b m) \<and>
        (\<forall>ys. gather ?f (slice ?xs a b) = Returned ys \<longrightarrow> ?B h = ?B base + length ys)"
      proof (cases "gather ?f (slice ?xs mid b)")
        case R: (Returned zs)
        have "l = Unwound p" "r = Returned ()" using l r L R by auto
        with L R dropR [OF L R] show ?thesis by (simp add: g resolve_place_def)
      next
        case R: (Unwound q)
        have "l = Unwound p" "r = Unwound q" "m2 = m" using l r L R by auto
        with L R show ?thesis by (simp add: g resolve_place_def)
      qed
    qed
  qed
qed

section \<open>The two passes together\<close>

lemma scan_bounds_nth:
  "length (scan_bounds cs t) = Suc (length cs)" "i \<le> length cs \<Longrightarrow> scan_bounds cs t ! i = t + sum_list (take i cs)"
proof -
  show "length (scan_bounds cs t) = Suc (length cs)" by (induction cs arbitrary: t) auto
  show "scan_bounds cs t ! i = t + sum_list (take i cs)" if "i \<le> length cs"
    using that
  proof (induction cs arbitrary: t i)
    case (Cons c cs)
    then show ?case by (cases i) auto
  qed simp
qed

lemma place_ok_scan: "fp_bounds ctx = scan_bounds (fp_counts ctx) 0 \<Longrightarrow> place_ok ctx"
  by (simp add: place_ok_def scan_bounds_nth take_Suc_conv_app_nth)

lemma leaves_fit_counted:
  assumes "fp_counts ctx = cs @ map (leaf_kept (fs_apply (fp_stages ctx)) (fp_input ctx)) ls"
  shows "leaves_fit ctx (length cs) ls"
  using assms
proof (induction ls arbitrary: cs)
  case (Cons l ls)
  from Cons.prems Cons.IH [of "cs @ [leaf_kept (fs_apply (fp_stages ctx)) (fp_input ctx) l]"]
  show ?case by (auto simp: leaf_fits_def nth_append split: prod.splits)
qed simp

lemma into_vec_filled: "into_vec (fill (slots_uninit (length ys)) 0 (map Some ys)) = Inr \<lparr>v_items = ys, v_cap = length ys\<rparr>"
  by (auto simp: into_vec_def into_vec_with_len_def fill_def overwrite_def slots_uninit_def comp_def)

lemma ctp_gather:
  "fused_filter_collect_by_ref_ctp stolen xs S depth = Inr (gather (fs_apply S) xs, [])"
proof -
  let ?f = "fs_apply S" and ?n = "length xs"
  let ?ls = "leaf_ranges depth 0 ?n"
  have len: "length ?ls = split_leaf_count ?n depth" using length_leaf_ranges [of 0 ?n depth] by simp
  from count_filter_rec_runs [of 0 ?n xs 0 depth "replicate (split_leaf_count ?n depth) 0" stolen S] len obtain counts where
    c: "count_filter_rec stolen xs S depth 0 ?n 0 (replicate (split_leaf_count ?n depth) 0) =
         Inr (bind_out (gather ?f xs) (\<lambda>ys. Returned (length ys)), counts)"
       "\<not> panics (gather ?f xs) \<longrightarrow> counts = map (leaf_kept ?f xs) ?ls"
    by (auto simp: overwrite_def)
  show ?thesis
  proof (cases "gather ?f xs")
    case (Returned ys)
    define ctx where "ctx = \<lparr>fp_input = xs, fp_stages = S, fp_bounds = scan_bounds counts 0, fp_counts = counts\<rparr>"
    have counts: "counts = map (leaf_kept ?f xs) ?ls" using c(2) Returned by simp
    have bounds: "fp_bounds ctx ! 0 = 0" "fp_bounds ctx ! (0 + length ?ls) = sum_list counts"
      by (simp_all add: ctx_def scan_bounds_nth counts)
    have "place_ok ctx" by (rule place_ok_scan) (simp add: ctx_def)
    moreover have "leaves_fit ctx 0 ?ls" using leaves_fit_counted [of ctx "[]" ?ls] by (simp add: ctx_def counts)
    moreover have "blank (fm_out (output_only (sum_list counts))) (fp_bounds ctx ! 0) (fp_bounds ctx ! (0 + length ?ls))"
      unfolding bounds by (simp add: blank_def slots_uninit_def)
    ultimately have "place_filter_rec stolen ctx depth 0 ?n 0 (output_only (sum_list counts)) = Inr (placed ctx 0 0 ?n (output_only (sum_list counts)))"
        "sum_list counts = length ys"
      using place_filter_rec_runs [of ctx 0 ?n 0 depth "output_only (sum_list counts)" stolen] bounds Returned
      by (auto simp: ctx_def)
    with c(1) Returned bounds(1) into_vec_filled [of ys] show ?thesis
      by (simp add: fused_filter_collect_by_ref_ctp_def Let_def ctx_def)
  qed (simp add: fused_filter_collect_by_ref_ctp_def c(1) Let_def)
qed

end
