(* ===== verification/Fused_Compact.thy ===== *)
theory Fused_Compact
  imports Fused_Place
begin

text \<open>
  The single-pass write-then-compact filtering collect over a borrowed slice,
  \<^verbatim>\<open>builder/typed/fused.rs\<close>: every leaf writes its survivors at the low end of its own slice of one
  buffer and records how many; a second phase moves the segments together, in place or into a buffer of
  the exact size.
\<close>

section \<open>Writing\<close>

record wtc_leaf_meta =
  wm_start :: nat
  wm_kept :: nat

record 'o wtc_mem =
  wt_out :: "'o slots"
  wt_meta :: "wtc_leaf_meta list"

definition wtc_guard_drop :: "nat \<Rightarrow> nat \<Rightarrow> 'o slots \<Rightarrow> 'o slots res" where
  "wtc_guard_drop out_ptr written sl = drop_each (map ((+) out_ptr) [0..<written]) sl"

fun wtc_loop :: "nat \<Rightarrow> ('a \<Rightarrow> ('p, 'o option) outcome) \<Rightarrow> 'a list \<Rightarrow> nat \<Rightarrow> ('o slots, 'p, nat) closure" where
  "wtc_loop out_ptr f [] written sl = Inr (Returned written, sl)"
| "wtc_loop out_ptr f (x # xs) written sl =
     (case f x of
        Unwound p \<Rightarrow> bind_res (wtc_guard_drop out_ptr written sl) (\<lambda>sl'. Inr (Unwound p, sl'))
      | Returned None \<Rightarrow> wtc_loop out_ptr f xs written sl
      | Returned (Some y) \<Rightarrow> bind_res (slot_write sl (out_ptr + written) y) (wtc_loop out_ptr f xs (written + 1)))"

text \<open>The view of the records a subtree owns is an offset and a length; its leaf writes the first one.\<close>

definition write_leaf ::
    "'a list \<Rightarrow> ('a, 'o, 'p) fused_stage \<Rightarrow> nat \<times> nat \<Rightarrow> nat \<Rightarrow> nat \<Rightarrow> ('o wtc_mem, 'p, unit) closure" where
  "write_leaf input stages meta start stop s =
     bind_res (subslice input start stop) (\<lambda>xs.
     bind_res (as_slice (wt_out s) start stop) (\<lambda>out_slice.
     bind_res (wtc_loop (fst out_slice) (fs_apply stages) xs 0 (wt_out s)) (\<lambda>(r, outp).
     case r of
       Unwound p \<Rightarrow> Inr (Unwound p, s\<lparr>wt_out := outp\<rparr>)
     | Returned written \<Rightarrow>
         if snd meta = 0 then Inl IndexOutOfBounds
         else bind_res (index_res (wt_meta s) (fst meta)) (\<lambda>_.
              Inr (Returned (), s\<lparr>wt_out := outp, wt_meta := (wt_meta s)[fst meta := \<lparr>wm_start = start, wm_kept = written\<rparr>]\<rparr>)))))"

fun write_filter_rec ::
    "(nat \<Rightarrow> nat \<Rightarrow> bool) \<Rightarrow> 'a list \<Rightarrow> ('a, 'o, 'p) fused_stage \<Rightarrow> nat \<Rightarrow> nat \<Rightarrow> nat \<Rightarrow> nat \<times> nat \<Rightarrow> ('o wtc_mem, 'p, unit) closure" where
  "write_filter_rec stolen input stages 0 start stop meta s = write_leaf input stages meta start stop s"
| "write_filter_rec stolen input stages (Suc splits) start stop meta s =
     (if stop - start \<le> 1 then write_leaf input stages meta start stop s
      else let mid = start + (stop - start) div 2; left_leaves = split_leaf_count (mid - start) splits in
        if snd meta < left_leaves then Inl ExplicitPanic
        else bind_res (join_on (stolen start stop)
           (write_filter_rec stolen input stages splits start mid (fst meta, left_leaves))
           (write_filter_rec stolen input stages splits mid stop (fst meta + left_leaves, snd meta - left_leaves)) s)
          (\<lambda>(r, s'). Inr (bind_out r (\<lambda>_. Returned ()), s')))"

section \<open>Compacting\<close>

definition WTC_PARALLEL_COMPACT_MIN_BYTES :: nat where
  "WTC_PARALLEL_COMPACT_MIN_BYTES = 256 * 2 ^ 10"

record wtc_seg =
  ws_src :: nat
  ws_dst :: nat
  ws_len :: nat

fun wtc_segs :: "wtc_leaf_meta list \<Rightarrow> nat \<Rightarrow> wtc_seg list" where
  "wtc_segs [] acc = []"
| "wtc_segs (m # ms) acc = \<lparr>ws_src = wm_start m, ws_dst = acc, ws_len = wm_kept m\<rparr> # wtc_segs ms (acc + wm_kept m)"

text \<open>
  A block copy moves the values: what it leaves behind are stale bits, not values. It reads the whole
  block before it writes, as \<^verbatim>\<open>ptr::copy\<close> does for overlapping ranges.
\<close>

fun read_block :: "'o slots \<Rightarrow> nat \<Rightarrow> nat \<Rightarrow> ('o list \<times> 'o slots) res" where
  "read_block sl src 0 = Inr ([], sl)"
| "read_block sl src (Suc k) =
     bind_res (slot_read sl src) (\<lambda>(y, sl'). bind_res (read_block sl' (src + 1) k) (\<lambda>(ys, sl''). Inr (y # ys, sl'')))"

fun write_block :: "'o slots \<Rightarrow> nat \<Rightarrow> 'o list \<Rightarrow> 'o slots res" where
  "write_block sl dst [] = Inr sl"
| "write_block sl dst (y # ys) = bind_res (slot_write sl dst y) (\<lambda>sl'. write_block sl' (dst + 1) ys)"

fun copy_segs :: "wtc_seg list \<Rightarrow> 'o slots \<times> 'o slots \<Rightarrow> ('o slots \<times> 'o slots) res" where
  "copy_segs [] st = Inr st"
| "copy_segs (s # ss) st =
     (if 0 < ws_len s
      then bind_res (read_block (fst st) (ws_src s) (ws_len s)) (\<lambda>(ys, src).
           bind_res (write_block (snd st) (ws_dst s) ys) (\<lambda>dst. copy_segs ss (src, dst)))
      else copy_segs ss st)"

definition compact_leaf :: "wtc_seg list \<Rightarrow> nat \<Rightarrow> nat \<Rightarrow> ('o slots \<times> 'o slots, 'p, unit) closure" where
  "compact_leaf segs start stop st =
     bind_res (subslice segs start stop) (\<lambda>ss. bind_res (copy_segs ss st) (\<lambda>st'. Inr (Returned (), st')))"

fun compact_filter_rec ::
    "(nat \<Rightarrow> nat \<Rightarrow> bool) \<Rightarrow> wtc_seg list \<Rightarrow> nat \<Rightarrow> nat \<Rightarrow> nat \<Rightarrow> ('o slots \<times> 'o slots, 'p, unit) closure" where
  "compact_filter_rec stolen segs 0 start stop st = compact_leaf segs start stop st"
| "compact_filter_rec stolen segs (Suc splits) start stop st =
     (if stop - start \<le> 1 then compact_leaf segs start stop st
      else let mid = start + (stop - start) div 2 in
        bind_res (join_on (stolen start stop)
           (compact_filter_rec stolen segs splits start mid) (compact_filter_rec stolen segs splits mid stop) st)
          (\<lambda>(r, st'). Inr (bind_out r (\<lambda>_. Returned ()), st')))"

fun sweep_segs :: "wtc_seg list \<Rightarrow> 'o slots \<Rightarrow> 'o slots res" where
  "sweep_segs [] sl = Inr sl"
| "sweep_segs (s # ss) sl =
     (if 0 < ws_len s \<and> ws_dst s \<noteq> ws_src s
      then bind_res (read_block sl (ws_src s) (ws_len s)) (\<lambda>(ys, sl1).
           bind_res (write_block sl1 (ws_dst s) ys) (sweep_segs ss))
      else sweep_segs ss sl)"

fun drop_metas :: "wtc_leaf_meta list \<Rightarrow> 'o slots \<Rightarrow> 'o slots res" where
  "drop_metas [] sl = Inr sl"
| "drop_metas (m # ms) sl = bind_res (drop_range sl (wm_start m) (wm_start m + wm_kept m)) (drop_metas ms)"

text \<open>The driver; it also returns the slots of the buffer it frees.\<close>

definition fused_filter_collect_by_ref_wtc ::
    "(nat \<Rightarrow> nat \<Rightarrow> bool) \<Rightarrow> layout \<Rightarrow> 'a list \<Rightarrow> ('a, 'o, 'p) fused_stage \<Rightarrow> nat \<Rightarrow> (('p, 'o list) outcome \<times> 'o option list) res" where
  "fused_filter_collect_by_ref_wtc stolen lay input stages depth =
     (let n = length input; leaves = split_leaf_count n depth in
      bind_res (write_filter_rec stolen input stages depth 0 n (0, leaves)
          \<lparr>wt_out = slots_uninit n, wt_meta = replicate leaves \<lparr>wm_start = 0, wm_kept = 0\<rparr>\<rparr>) (\<lambda>(r, s).
      case r of
        Unwound p \<Rightarrow> bind_res (drop_metas (wt_meta s) (wt_out s)) (\<lambda>outp. Inr (Unwound p, sl_buf outp))
      | Returned _ \<Rightarrow>
          let segs = wtc_segs (wt_meta s) 0; count = sum_list (map wm_kept (wt_meta s)) in
          if WTC_PARALLEL_COMPACT_MIN_BYTES \<le> saturating_mul_u64 count (lay_size lay)
          then bind_res (compact_filter_rec stolen segs depth 0 (length segs) (wt_out s, slots_uninit count)) (\<lambda>(u, src, dest).
               case u of
                 Unwound p \<Rightarrow> Inr (Unwound p, sl_buf src @ sl_buf dest)
               | Returned _ \<Rightarrow> bind_res (into_vec dest) (\<lambda>v. Inr (Returned (v_items v), sl_buf src)))
          else bind_res (sweep_segs segs (wt_out s)) (\<lambda>outp.
               bind_res (into_vec_with_len outp count) (\<lambda>v. Inr (Returned (v_items v), drop count (sl_buf outp))))))"

section \<open>The writing phase\<close>

definition leaf_block :: "('a \<Rightarrow> ('p, 'o option) outcome) \<Rightarrow> 'a list \<Rightarrow> nat \<times> nat \<Rightarrow> 'o option list" where
  "leaf_block f xs = (\<lambda>(a, b). case gather f (slice xs a b) of
      Returned ys \<Rightarrow> map Some ys @ replicate (b - a - length ys) None
    | Unwound _ \<Rightarrow> replicate (b - a) None)"

definition leaf_meta :: "('a \<Rightarrow> ('p, 'o option) outcome) \<Rightarrow> 'a list \<Rightarrow> nat \<times> nat \<Rightarrow> wtc_leaf_meta" where
  "leaf_meta f xs = (\<lambda>(a, b). case gather f (slice xs a b) of
      Returned ys \<Rightarrow> \<lparr>wm_start = a, wm_kept = length ys\<rparr>
    | Unwound _ \<Rightarrow> \<lparr>wm_start = 0, wm_kept = 0\<rparr>)"

lemma gather_length: "gather f xs = Returned ys \<Longrightarrow> length ys \<le> length xs"
proof (induction xs arbitrary: ys)
  case (Cons x xs)
  then show ?case by (cases "f x"; cases "gather f xs") (fastforce split: option.splits)+
qed simp

lemma length_slice [simp]: "length (slice xs a b) = b - a"
  by (simp add: slice_def)

lemma length_leaf_block [simp]: "length (leaf_block f xs (a, b)) = b - a"
  using gather_length [of f "slice xs a b"] by (auto simp: leaf_block_def split: outcome.splits)

lemma length_leaf_blocks: "a \<le> b \<Longrightarrow> length (concat (map (leaf_block f xs) (leaf_ranges splits a b))) = b - a"
proof (induction splits arbitrary: a b)
  case (Suc splits)
  show ?case
  proof (cases "b - a \<le> 1")
    case False
    define m where "m = a + (b - a) div 2"
    with False have m: "a \<le> m" "m \<le> b" by auto
    have "leaf_ranges (Suc splits) a b = leaf_ranges splits a m @ leaf_ranges splits m b" using False by (simp add: m_def)
    with Suc.IH [OF m(1)] Suc.IH [OF m(2)] m show ?thesis by simp
  qed simp
qed simp

lemma wtc_loop_runs:
  assumes "blank sl off (off + k)" and "length zs + length xs \<le> k"
  shows "wtc_loop off f xs (length zs) (fill sl off (map Some zs)) =
     Inr (case gather f xs of
        Returned ys \<Rightarrow> (Returned (length zs + length ys), fill sl off (map Some (zs @ ys)))
      | Unwound p \<Rightarrow> (Unwound p, sl))"
  using assms
proof (induction xs arbitrary: zs)
  case (Cons x xs)
  show ?case
  proof (cases "f x")
    case (Unwound p)
    have "blank sl off (off + length zs)" using Cons.prems by (auto intro: blank_sub)
    from drop_fill [OF this] Unwound show ?thesis by (simp add: wtc_guard_drop_def map_plus_upt)
  next
    case (Returned y)
    show ?thesis
    proof (cases y)
      case None
      with Cons Returned show ?thesis by (cases "gather f xs") auto
    next
      case (Some v)
      have "off + length zs < length (sl_buf sl)" using Cons.prems by (auto simp: blank_def)
      from fill_write [of off "map Some zs" sl v] this
      have "slot_write (fill sl off (map Some zs)) (off + length zs) v = Inr (fill sl off (map Some (zs @ [v])))" by simp
      with Cons.IH [of "zs @ [v]"] Cons.prems Returned Some show ?thesis by (cases "gather f xs") auto
    qed
  qed
qed simp

lemma fill_pad:
  assumes "blank sl off (off + length vs + k)"
  shows "fill sl off (vs @ replicate k None) = fill sl off vs"
proof -
  have "off + length vs + k \<le> length (sl_buf sl)" using assms by (simp add: blank_def)
  moreover have "blank (fill sl off vs) (off + length vs) (off + length vs + k)"
    using assms by (intro blank_fill) (auto intro: blank_sub)
  ultimately show ?thesis using fill_blank [of "fill sl off vs" "off + length vs" k] fill_append [of off vs "replicate k None" sl] by simp
qed

lemma write_leaf_runs:
  assumes ab: "a \<le> b" "b \<le> length xs" and bl: "blank (wt_out s) a b"
    and meta: "0 < mlen" "moff < length (wt_meta s)" "wt_meta s ! moff = \<lparr>wm_start = 0, wm_kept = 0\<rparr>"
  shows "write_leaf xs S (moff, mlen) a b s =
     Inr (bind_out (gather (fs_apply S) (slice xs a b)) (\<lambda>_. Returned ()),
          \<lparr>wt_out = fill (wt_out s) a (leaf_block (fs_apply S) xs (a, b)), wt_meta = overwrite (wt_meta s) moff [leaf_meta (fs_apply S) xs (a, b)]\<rparr>)"
proof -
  let ?f = "fs_apply S" and ?xs = "slice xs a b"
  have bl': "blank (wt_out s) a (a + (b - a))" using bl ab by simp
  have sl: "as_slice (wt_out s) a b = Inr (a, b - a)" using bl by (simp add: as_slice_def range_ok_def blank_def)
  have loop: "wtc_loop a ?f ?xs 0 (wt_out s) = Inr (case gather ?f ?xs of
        Returned ys \<Rightarrow> (Returned (length ys), fill (wt_out s) a (map Some ys)) | Unwound p \<Rightarrow> (Unwound p, wt_out s))"
    using wtc_loop_runs [OF bl', of "[]" ?xs ?f] by (cases "gather ?f ?xs") (auto simp: fill_blank [of _ _ 0, simplified])
  show ?thesis
  proof (cases "gather ?f ?xs")
    case (Returned ys)
    then have "length ys \<le> b - a" using gather_length [of ?f ?xs ys] by simp
    then have "a + length (map Some ys) + (b - a - length ys) = b" using ab by simp
    then have "fill (wt_out s) a (leaf_block ?f xs (a, b)) = fill (wt_out s) a (map Some ys)"
      using Returned bl fill_pad [of "wt_out s" a "map Some ys" "b - a - length ys"] by (simp add: leaf_block_def del: diff_diff_left)
    with Returned loop sl meta ab show ?thesis
      by (simp add: write_leaf_def subslice_slice leaf_meta_def overwrite_def upd_conv_take_nth_drop)
  next
    case (Unwound p)
    have "overwrite (wt_meta s) moff [\<lparr>wm_start = 0, wm_kept = 0\<rparr>] = wt_meta s"
      using meta(2,3) by (metis overwrite_def append_Cons append_Nil list.size(3,4) One_nat_def add_0 plus_1_eq_Suc add.commute id_take_nth_drop)
    moreover have "fill (wt_out s) a (leaf_block ?f xs (a, b)) = wt_out s" using Unwound bl' by (simp add: leaf_block_def fill_blank)
    ultimately show ?thesis using Unwound loop sl ab by (simp add: write_leaf_def subslice_slice leaf_meta_def)
  qed
qed

lemma write_filter_rec_runs:
  assumes "a \<le> b" and "b \<le> length xs" and "blank (wt_out s) a b" and "mlen = length (leaf_ranges splits a b)"
    and "moff + mlen \<le> length (wt_meta s)" and "\<And>i. moff \<le> i \<Longrightarrow> i < moff + mlen \<Longrightarrow> wt_meta s ! i = \<lparr>wm_start = 0, wm_kept = 0\<rparr>"
  shows "write_filter_rec stolen xs S splits a b (moff, mlen) s =
     Inr (bind_out (gather (fs_apply S) (slice xs a b)) (\<lambda>_. Returned ()),
          \<lparr>wt_out = fill (wt_out s) a (concat (map (leaf_block (fs_apply S) xs) (leaf_ranges splits a b))),
           wt_meta = overwrite (wt_meta s) moff (map (leaf_meta (fs_apply S) xs) (leaf_ranges splits a b))\<rparr>)"
  using assms
proof (induction splits arbitrary: a b moff mlen s)
  case 0
  then show ?case using write_leaf_runs [of a b xs s mlen moff S] by simp
next
  case (Suc splits)
  let ?f = "fs_apply S"
  show ?case
  proof (cases "b - a \<le> 1")
    case True
    with Suc.prems write_leaf_runs [of a b xs s mlen moff S] show ?thesis by simp
  next
    case False
    define m where "m = a + (b - a) div 2"
    with False have m: "a \<le> m" "m \<le> b" by auto
    let ?L = "leaf_ranges splits a m" and ?R = "leaf_ranges splits m b"
    let ?l = "length ?L"
    have leaves: "leaf_ranges (Suc splits) a b = ?L @ ?R" using False by (simp add: m_def)
    have left: "split_leaf_count (m - a) splits = ?l" using length_leaf_ranges [OF m(1)] by simp
    have len: "length (concat (map (leaf_block ?f xs) ?L)) = m - a" "length (concat (map (leaf_block ?f xs) ?R)) = b - m"
      using length_leaf_blocks [OF m(1), of ?f xs splits] length_leaf_blocks [OF m(2), of ?f xs splits] by simp_all
    have g: "gather ?f (slice xs a b) = bind_out (both (gather ?f (slice xs a m)) (gather ?f (slice xs m b))) (\<lambda>(l, r). Returned (l @ r))"
      unfolding slice_append [OF m] gather_append ..
    let ?s1 = "\<lparr>wt_out = fill (wt_out s) a (concat (map (leaf_block ?f xs) ?L)), wt_meta = overwrite (wt_meta s) moff (map (leaf_meta ?f xs) ?L)\<rparr>"
    have mlen: "mlen = ?l + length ?R" using Suc.prems(4) leaves by simp
    have A: "write_filter_rec stolen xs S splits a m (moff, ?l) s = Inr (bind_out (gather ?f (slice xs a m)) (\<lambda>_. Returned ()), ?s1)"
      using Suc.prems m mlen by (intro Suc.IH) (auto intro: blank_sub)
    have "blank (wt_out ?s1) m b" using Suc.prems(3) m len by (auto intro!: blank_fill intro: blank_sub)
    then have B: "write_filter_rec stolen xs S splits m b (moff + ?l, length ?R) ?s1 = Inr (bind_out (gather ?f (slice xs m b)) (\<lambda>_. Returned ()),
        \<lparr>wt_out = fill (wt_out ?s1) m (concat (map (leaf_block ?f xs) ?R)), wt_meta = overwrite (wt_meta ?s1) (moff + ?l) (map (leaf_meta ?f xs) ?R)\<rparr>)"
      using Suc.prems m mlen by (intro Suc.IH) (auto simp: nth_overwrite)
    have am: "a + length (concat (map (leaf_block ?f xs) ?L)) = m" using len(1) m(1) by simp
    have "b \<le> length (sl_buf (wt_out s))" using Suc.prems(3) by (simp add: blank_def)
    then have outs: "fill (wt_out ?s1) m (concat (map (leaf_block ?f xs) ?R)) = fill (wt_out s) a (concat (map (leaf_block ?f xs) (?L @ ?R)))"
      using fill_append [of a "concat (map (leaf_block ?f xs) ?L)" "concat (map (leaf_block ?f xs) ?R)" "wt_out s"] len m unfolding am by simp
    have metas: "overwrite (wt_meta ?s1) (moff + ?l) (map (leaf_meta ?f xs) ?R) = overwrite (wt_meta s) moff (map (leaf_meta ?f xs) (?L @ ?R))"
      using overwrite_append [of moff "map (leaf_meta ?f xs) ?L" "map (leaf_meta ?f xs) ?R" "wt_meta s"] Suc.prems(5) mlen by simp
    have "write_filter_rec stolen xs S (Suc splits) a b (moff, mlen) s =
        bind_res (join_on (stolen a b) (write_filter_rec stolen xs S splits a m (moff, ?l)) (write_filter_rec stolen xs S splits m b (moff + ?l, length ?R)) s)
          (\<lambda>(r, s'). Inr (bind_out r (\<lambda>_. Returned ()), s'))"
      using False by (simp add: m_def [symmetric] Let_def left mlen)
    also have "\<dots> = Inr (bind_out (gather ?f (slice xs a b)) (\<lambda>_. Returned ()),
        \<lparr>wt_out = fill (wt_out s) a (concat (map (leaf_block ?f xs) (?L @ ?R))), wt_meta = overwrite (wt_meta s) moff (map (leaf_meta ?f xs) (?L @ ?R))\<rparr>)"
      unfolding join_on_both A bind_res_simps split_conv B outs metas g
      by (cases "gather ?f (slice xs a m)"; cases "gather ?f (slice xs m b)"; simp)
    finally show ?thesis unfolding leaves .
  qed
qed

section \<open>The moving phase\<close>

text \<open>The buffer after the writing phase is a row of chunks, each a block of values and the empty rest of its leaf.\<close>

abbreviation chunk :: "'o list \<times> nat \<Rightarrow> 'o option list" where
  "chunk c \<equiv> map Some (fst c) @ replicate (snd c) None"

abbreviation row :: "('o list \<times> nat) list \<Rightarrow> 'o option list" where
  "row cs \<equiv> concat (map chunk cs)"

abbreviation held :: "('o list \<times> nat) list \<Rightarrow> 'o list" where
  "held cs \<equiv> concat (map fst cs)"

abbreviation full :: "'o option list \<Rightarrow> 'o slots" where
  "full buf \<equiv> \<lparr>sl_buf = buf, sl_len = length buf\<rparr>"

fun laid :: "nat \<Rightarrow> wtc_leaf_meta list \<Rightarrow> ('o list \<times> nat) list \<Rightarrow> bool" where
  "laid pos [] [] = True"
| "laid pos (m # ms) (c # cs) =
     (wm_kept m = length (fst c) \<and> wm_start m \<le> pos \<and> (fst c \<noteq> [] \<longrightarrow> wm_start m = pos) \<and> laid (pos + length (fst c) + snd c) ms cs)"
| "laid pos _ _ = False"

lemma laid_kept: "laid pos ms cs \<Longrightarrow> sum_list (map wm_kept ms) = length (held cs)"
  by (induction pos ms cs rule: laid.induct) auto

lemma read_block_run:
  "read_block \<lparr>sl_buf = pre @ map Some ys @ suf, sl_len = L\<rparr> (length pre) (length ys) =
     Inr (ys, \<lparr>sl_buf = pre @ replicate (length ys) None @ suf, sl_len = L\<rparr>)"
proof (induction ys arbitrary: pre)
  case (Cons y ys)
  from Cons.IH [of "pre @ [None]"] show ?case by (simp add: slot_read_def)
qed simp

lemma write_block_run:
  "length mid = length ys \<Longrightarrow> write_block \<lparr>sl_buf = pre @ mid @ suf, sl_len = L\<rparr> (length pre) ys =
     Inr \<lparr>sl_buf = pre @ map Some ys @ suf, sl_len = L\<rparr>"
proof (induction ys arbitrary: pre mid)
  case (Cons y ys)
  then obtain v mid' where mid: "mid = v # mid'" "length mid' = length ys" by (cases mid) auto
  from Cons.IH [OF mid(2), of "pre @ [Some y]"] mid(1) show ?case by (simp add: slot_write_def)
qed simp

lemma drop_block_run:
  "drop_each [length pre..<length pre + length ys] \<lparr>sl_buf = pre @ map Some ys @ suf, sl_len = L\<rparr> =
     Inr \<lparr>sl_buf = pre @ replicate (length ys) None @ suf, sl_len = L\<rparr>"
proof (induction ys arbitrary: pre)
  case (Cons y ys)
  have "[length pre..<length pre + length (y # ys)] = length pre # [length (pre @ [None])..<length (pre @ [None]) + length ys]"
    by (simp add: upt_conv_Cons del: upt_Suc)
  then show ?case using Cons.IH [of "pre @ [None]"] by (simp add: slot_read_def del: upt_Suc)
qed simp

lemma drop_metas_run:
  "laid (length pre) ms cs \<Longrightarrow> drop_metas ms (full (pre @ row cs)) = Inr (full (pre @ replicate (length (row cs)) None))"
proof (induction ms arbitrary: pre cs)
  case Nil
  then show ?case by (cases cs) auto
next
  case (Cons m ms)
  then obtain ys k cs' where cs: "cs = (ys, k) # cs'" by (cases cs) auto
  let ?pre = "pre @ replicate (length ys + k) None"
  have len: "length (pre @ map Some ys @ replicate k None @ row cs') = length (?pre @ row cs')" by simp
  have "drop_range (full (pre @ map Some ys @ replicate k None @ row cs')) (wm_start m) (wm_start m + wm_kept m) = Inr (full (?pre @ row cs'))"
    using Cons.prems cs drop_block_run [of pre ys "replicate k None @ row cs'"]
    by (cases "ys = []") (auto simp: drop_range_def range_ok_def replicate_add)
  moreover have "drop_metas ms (full (?pre @ row cs')) = Inr (full (?pre @ replicate (length (row cs')) None))"
    using Cons.prems cs by (intro Cons.IH) (simp add: add.assoc)
  ultimately show ?case unfolding cs by (simp add: replicate_add add.assoc)
qed

lemma sweep_segs_run:
  "laid (length pre + g) ms cs \<Longrightarrow> sweep_segs (wtc_segs ms (length pre)) (full (pre @ replicate g None @ row cs)) =
     Inr (full (pre @ map Some (held cs) @ replicate (g + length (row cs) - length (held cs)) None))"
proof (induction ms arbitrary: pre g cs)
  case Nil
  then show ?case by (cases cs) auto
next
  case (Cons m ms)
  then obtain ys k cs' where cs: "cs = (ys, k) # cs'" by (cases cs) auto
  let ?pre = "pre @ map Some ys" and ?buf = "pre @ replicate g None @ map Some ys @ replicate k None @ row cs'"
  have IH: "sweep_segs (wtc_segs ms (length ?pre)) (full (?pre @ replicate (g + k) None @ row cs')) =
      Inr (full (?pre @ map Some (held cs') @ replicate (g + k + length (row cs') - length (held cs')) None))"
    using Cons.prems cs by (intro Cons.IH) (simp add: ac_simps)
  have m: "wm_kept m = length ys" "ys \<noteq> [] \<longrightarrow> wm_start m = length pre + g" using Cons.prems cs by auto
  have "sweep_segs (wtc_segs (m # ms) (length pre)) (full ?buf) =
      sweep_segs (wtc_segs ms (length ?pre)) (full (?pre @ replicate (g + k) None @ row cs'))"
  proof (cases "0 < length ys \<and> g \<noteq> 0")
    case True
    have r: "read_block (full ?buf) (length pre + g) (length ys) =
        Inr (ys, \<lparr>sl_buf = pre @ replicate g None @ replicate (length ys) None @ replicate k None @ row cs', sl_len = length ?buf\<rparr>)"
      using read_block_run [of "pre @ replicate g None" ys "replicate k None @ row cs'"] by simp
    have c: "replicate g (None :: 'a option) @ replicate (length ys) None = replicate (length ys) None @ replicate g None"
      by (simp only: replicate_add [symmetric] add.commute)
    have w: "write_block \<lparr>sl_buf = pre @ replicate g None @ replicate (length ys) None @ replicate k None @ row cs', sl_len = length ?buf\<rparr> (length pre) ys =
        Inr \<lparr>sl_buf = ?pre @ replicate (g + k) None @ row cs', sl_len = length ?buf\<rparr>"
      using write_block_run [of "replicate (length ys) None" ys pre "replicate g None @ replicate k None @ row cs'"]
      by (simp add: c [unfolded append_assoc [symmetric]] replicate_add flip: append_assoc)
    from True m r w show ?thesis by (simp add: ac_simps)
  next
    case False
    with m show ?thesis by (auto simp: replicate_add)
  qed
  with IH show ?case unfolding cs by (simp add: ac_simps)
qed

lemma copy_segs_append: "copy_segs (ss @ ts) st = bind_res (copy_segs ss st) (copy_segs ts)"
  by (induction ss arbitrary: st) (auto simp: bind_res_def split: sum.splits prod.splits)

lemma copy_segs_run:
  "laid (length pre) ms cs \<Longrightarrow> copy_segs (wtc_segs ms (length dst)) (full (pre @ row cs), full (dst @ replicate (length (held cs)) None)) =
     Inr (full (pre @ replicate (length (row cs)) None), full (dst @ map Some (held cs)))"
proof (induction ms arbitrary: pre dst cs)
  case Nil
  then show ?case by (cases cs) auto
next
  case (Cons m ms)
  then obtain ys k cs' where cs: "cs = (ys, k) # cs'" by (cases cs) auto
  let ?pre = "pre @ replicate (length ys + k) None" and ?dst = "dst @ map Some ys"
  have IH: "copy_segs (wtc_segs ms (length ?dst)) (full (?pre @ row cs'), full (?dst @ replicate (length (held cs')) None)) =
      Inr (full (?pre @ replicate (length (row cs')) None), full (?dst @ map Some (held cs')))"
    using Cons.prems cs by (intro Cons.IH) (simp add: add.assoc)
  have m: "wm_kept m = length ys" "ys \<noteq> [] \<longrightarrow> wm_start m = length pre" using Cons.prems cs by auto
  have r: "read_block (full (pre @ row cs)) (length pre) (length ys) = Inr (ys, full (?pre @ row cs'))"
    using read_block_run [of pre ys "replicate k None @ row cs'"] by (simp add: cs replicate_add)
  have w: "write_block (full (dst @ replicate (length (held cs)) None)) (length dst) ys = Inr (full (?dst @ replicate (length (held cs')) None))"
    using write_block_run [of "replicate (length ys) None" ys dst "replicate (length (held cs')) None"] by (simp add: cs replicate_add)
  have "copy_segs (wtc_segs (m # ms) (length dst)) (full (pre @ row cs), full (dst @ replicate (length (held cs)) None)) =
      copy_segs (wtc_segs ms (length ?dst)) (full (?pre @ row cs'), full (?dst @ replicate (length (held cs')) None))"
    using m r w by (cases "ys = []") (auto simp: cs)
  with IH show ?case unfolding cs by (simp add: replicate_add ac_simps)
qed

text \<open>The parallel wave copies the same segments in the same buffers as one loop over all of them.\<close>

lemma compact_leaf_runs: "a \<le> b \<Longrightarrow> b \<le> length segs \<Longrightarrow>
    compact_leaf segs a b st = bind_res (copy_segs (slice segs a b) st) (\<lambda>st'. Inr (Returned (), st'))"
  by (simp add: compact_leaf_def subslice_slice)

lemma compact_filter_rec_runs:
  fixes st :: "'o slots \<times> 'o slots"
  shows "a \<le> b \<Longrightarrow> b \<le> length segs \<Longrightarrow> compact_filter_rec stolen segs splits a b st =
     bind_res (copy_segs (slice segs a b) st) (\<lambda>st'. Inr (Returned () :: ('p, unit) outcome, st'))"
proof (induction splits arbitrary: a b st)
  case 0
  then show ?case by (simp add: compact_leaf_runs)
next
  case (Suc splits)
  show ?case
  proof (cases "b - a \<le> 1")
    case False
    define m where "m = a + (b - a) div 2"
    with False have m: "a \<le> m" "m \<le> b" by auto
    have l: "compact_filter_rec stolen segs splits a m st = bind_res (copy_segs (slice segs a m) st) (\<lambda>st'. Inr (Returned () :: ('p, unit) outcome, st'))"
      using Suc.IH m Suc.prems by simp
    have r: "compact_filter_rec stolen segs splits m b st' = bind_res (copy_segs (slice segs m b) st') (\<lambda>st'. Inr (Returned () :: ('p, unit) outcome, st'))" for st' :: "'o slots \<times> 'o slots"
      using Suc.IH m Suc.prems by simp
    have step: "compact_filter_rec stolen segs (Suc splits) a b st = bind_res (join_on (stolen a b)
        (compact_filter_rec stolen segs splits a m) (compact_filter_rec stolen segs splits m b) st)
          (\<lambda>(r, st'). Inr (bind_out r (\<lambda>_. Returned ()), st'))"
      using False by (simp add: m_def Let_def)
    show ?thesis unfolding step slice_append [OF m] copy_segs_append join_on_both l
      by (cases "copy_segs (slice segs a m) st") (auto simp: r bind_res_def split: sum.splits)
  qed (use Suc.prems in \<open>simp add: compact_leaf_runs\<close>)
qed

section \<open>The layout the writing phase leaves\<close>

definition leaf_chunk :: "('a \<Rightarrow> ('p, 'o option) outcome) \<Rightarrow> 'a list \<Rightarrow> nat \<times> nat \<Rightarrow> 'o list \<times> nat" where
  "leaf_chunk f xs = (\<lambda>(a, b). case gather f (slice xs a b) of Returned ys \<Rightarrow> (ys, b - a - length ys) | Unwound _ \<Rightarrow> ([], b - a))"

lemma leaf_block_chunk: "leaf_block f xs = (\<lambda>l. chunk (leaf_chunk f xs l))"
  by (auto simp: fun_eq_iff leaf_block_def leaf_chunk_def split: outcome.splits)

lemma laid_append:
  "length ms = length cs \<Longrightarrow> laid pos (ms @ ms') (cs @ cs') \<longleftrightarrow> laid pos ms cs \<and> laid (pos + length (row cs)) ms' cs'"
  by (induction ms cs arbitrary: pos rule: list_induct2) (auto simp: ac_simps)

lemma laid_leaf: "laid a [leaf_meta f xs (a, b)] [leaf_chunk f xs (a, b)]"
  by (auto simp: leaf_meta_def leaf_chunk_def split: outcome.splits)

lemma laid_leaves: "a \<le> b \<Longrightarrow> laid a (map (leaf_meta f xs) (leaf_ranges splits a b)) (map (leaf_chunk f xs) (leaf_ranges splits a b))"
proof (induction splits arbitrary: a b)
  case 0
  show ?case using laid_leaf [of a f xs b] by simp
next
  case (Suc splits)
  show ?case
  proof (cases "b - a \<le> 1")
    case False
    define m where "m = a + (b - a) div 2"
    with False have m: "a \<le> m" "m \<le> b" by auto
    have leaves: "leaf_ranges (Suc splits) a b = leaf_ranges splits a m @ leaf_ranges splits m b" using False by (simp add: m_def)
    have "length (row (map (leaf_chunk f xs) (leaf_ranges splits a m))) = m - a"
      using length_leaf_blocks [OF m(1), of f xs splits] by (simp add: leaf_block_chunk comp_def)
    then have "a + length (row (map (leaf_chunk f xs) (leaf_ranges splits a m))) = m" using m by simp
    with Suc.IH [OF m(1)] Suc.IH [OF m(2)] show ?thesis unfolding leaves map_append by (subst laid_append) simp_all
  qed (use laid_leaf [of a f xs b] in simp)
qed

lemma held_leaves:
  "a \<le> b \<Longrightarrow> gather f (slice xs a b) = Returned ys \<Longrightarrow> held (map (leaf_chunk f xs) (leaf_ranges splits a b)) = ys"
proof (induction splits arbitrary: a b ys)
  case 0
  then show ?case by (simp add: leaf_chunk_def)
next
  case (Suc splits)
  show ?case
  proof (cases "b - a \<le> 1")
    case False
    define m where "m = a + (b - a) div 2"
    with False have m: "a \<le> m" "m \<le> b" by auto
    have leaves: "leaf_ranges (Suc splits) a b = leaf_ranges splits a m @ leaf_ranges splits m b" using False by (simp add: m_def)
    obtain ls rs where "gather f (slice xs a m) = Returned ls" "gather f (slice xs m b) = Returned rs" "ys = ls @ rs"
      using Suc.prems(2) unfolding slice_append [OF m] gather_append
      by (cases "gather f (slice xs a m)"; cases "gather f (slice xs m b)") auto
    with Suc.IH [OF m(1), of ls] Suc.IH [OF m(2), of rs] show ?thesis unfolding leaves by simp
  qed (use Suc.prems in \<open>simp add: leaf_chunk_def\<close>)
qed

section \<open>The collect\<close>

lemma fill_all: "length vs = n \<Longrightarrow> fill (slots_uninit n) 0 vs = full vs"
  by (simp add: fill_def overwrite_def slots_uninit_def)

lemma length_wtc_segs [simp]: "length (wtc_segs ms t) = length ms"
  by (induction ms arbitrary: t) auto

lemma wtc_gather:
  fixes S :: "('a, 'o, 'p) fused_stage"
  shows "\<exists>buf. fused_filter_collect_by_ref_wtc stolen lay xs S depth = Inr (gather (fs_apply S) xs, buf) \<and> set buf \<subseteq> {None}"
proof -
  let ?f = "fs_apply S" and ?n = "length xs"
  define ls where "ls = leaf_ranges depth 0 ?n"
  define ms cs where "ms = map (leaf_meta ?f xs) ls" and "cs = map (leaf_chunk ?f xs) ls"
  have len: "length ls = split_leaf_count ?n depth" using length_leaf_ranges [of 0 ?n depth] by (simp add: ls_def)
  have row: "concat (map (leaf_block ?f xs) ls) = row cs" by (simp add: leaf_block_chunk comp_def cs_def)
  have n: "length (row cs) = ?n" using length_leaf_blocks [of 0 ?n ?f xs depth] row by (simp add: ls_def)
  have laid: "laid 0 ms cs" unfolding ms_def cs_def ls_def by (rule laid_leaves) simp
  have wr: "write_filter_rec stolen xs S depth 0 ?n (0, split_leaf_count ?n depth)
      \<lparr>wt_out = slots_uninit ?n, wt_meta = replicate (split_leaf_count ?n depth) \<lparr>wm_start = 0, wm_kept = 0\<rparr>\<rparr> =
      Inr (bind_out (gather ?f xs) (\<lambda>_. Returned ()), \<lparr>wt_out = full (row cs), wt_meta = ms\<rparr>)"
    using len n fill_all [OF n]
    by (subst write_filter_rec_runs) (auto simp: row [unfolded ls_def] blank_def slots_uninit_def overwrite_def ms_def ls_def)
  show ?thesis
  proof (cases "gather ?f xs")
    case (Unwound p)
    with wr drop_metas_run [of "[]" ms cs] laid show ?thesis
      by (simp add: fused_filter_collect_by_ref_wtc_def Let_def set_replicate_conv_if)
  next
    case (Returned ys)
    have ys: "held cs = ys" using held_leaves [of 0 ?n ?f xs ys depth] Returned by (simp add: cs_def ls_def)
    have count: "sum_list (map wm_kept ms) = length ys" using laid_kept [OF laid] ys by simp
    let ?segs = "wtc_segs ms 0"
    have copy: "compact_filter_rec stolen ?segs depth 0 (length ms) (full (row cs), slots_uninit (length ys)) =
        Inr (Returned () :: ('p, unit) outcome, full (replicate ?n None), full (map Some ys))"
      using copy_segs_run [of "[]" ms cs "[]"] laid n unfolding ys by (subst compact_filter_rec_runs) (simp_all add: slots_uninit_def slice_all [of ?segs, simplified])
    have sweep: "sweep_segs ?segs (full (row cs)) = Inr (full (map Some ys @ replicate (?n - length ys) None))"
      using sweep_segs_run [of "[]" 0 ms cs] laid n unfolding ys by simp
    have "fused_filter_collect_by_ref_wtc stolen lay xs S depth =
        Inr (Returned ys, if WTC_PARALLEL_COMPACT_MIN_BYTES \<le> saturating_mul_u64 (length ys) (lay_size lay)
              then replicate ?n None else replicate (?n - length ys) None)"
      using copy sweep wr Returned count
      by (auto simp: fused_filter_collect_by_ref_wtc_def Let_def into_vec_def into_vec_with_len_def comp_def)
    then show ?thesis by (auto simp: Returned set_replicate_conv_if)
  qed
qed

end
