(* ===== verification/Fused_Ref_Pipe.thy ===== *)
theory Fused_Ref_Pipe
  imports Fused_Ref_Sink Fused_Reduce_Claims Fused_Compact
begin

text \<open>
  The entry points of \<^verbatim>\<open>builder/typed/fused.rs\<close> that take a pool and a workload instead of the
  tuning of a pipe: over a borrowed slice (the terminals of \<^verbatim>\<open>builder/typed/borrowed.rs\<close>), from a scope,
  and the terminals of a pipe over a generated range.
\<close>

section \<open>Which filtering collect\<close>

datatype filter_collect_variant = VariantMerge | VariantCtp | VariantWtc

text \<open>The process-wide knob is an argument, as it was read; a value it does not know is refused loudly.\<close>

definition env_filter_collect_override :: "string option \<Rightarrow> filter_collect_variant option res" where
  "env_filter_collect_override knob =
     (case knob of
        None \<Rightarrow> Inr None
      | Some v \<Rightarrow>
          if v = ''merge'' then Inr (Some VariantMerge)
          else if v = ''ctp'' then Inr (Some VariantCtp)
          else if v = ''wtc'' then Inr (Some VariantWtc)
          else Inl ExplicitPanic)"

definition FILTER_COLLECT_AUTO_WTC_MIN_N :: nat where
  "FILTER_COLLECT_AUTO_WTC_MIN_N = 100000"

definition auto_filter_collect_variant :: "nat \<Rightarrow> filter_collect_variant" where
  "auto_filter_collect_variant n = (if FILTER_COLLECT_AUTO_WTC_MIN_N \<le> n then VariantWtc else VariantMerge)"

definition resolve_filter_collect_variant :: "string option \<Rightarrow> filter_collect_mode \<Rightarrow> nat \<Rightarrow> filter_collect_variant res" where
  "resolve_filter_collect_variant knob mode n =
     (case mode of
        ModeMerge \<Rightarrow> Inr VariantMerge
      | ModeCtp \<Rightarrow> Inr VariantCtp
      | ModeWtc \<Rightarrow> Inr VariantWtc
      | ModeAuto \<Rightarrow> bind_res (env_filter_collect_override knob) (\<lambda>v. Inr (case v of Some w \<Rightarrow> w | None \<Rightarrow> auto_filter_collect_variant n)))"

section \<open>Borrowed input\<close>

text \<open>Every entry also returns the slots of the buffers it frees.\<close>

definition fused_collect_by_ref ::
    "run_env \<Rightarrow> split_env \<Rightarrow> string option \<Rightarrow> 'a list \<Rightarrow> ('a, 'o, 'p) fused_stage \<Rightarrow> workload \<Rightarrow> filter_collect_mode \<Rightarrow> nat \<Rightarrow>
     (('p, 'o list) outcome \<times> 'o option list) res" where
  "fused_collect_by_ref env senv knob input stages w mode workers =
     (let n = length input in
      if n = 0 then Inr (Returned [], [])
      else bind_res (plan_terminal senv n w workers) (\<lambda>tp. case tp of
          Serial \<Rightarrow> bind_res (serial_stage_collect input stages) (\<lambda>r. Inr (r, []))
        | Parallel plan \<Rightarrow>
            if fs_may_filter stages
            then bind_res (resolve_filter_collect_variant knob mode n) (\<lambda>v. case v of
                VariantMerge \<Rightarrow> bind_res (join_fused_collect_by_ref (re_stolen env) input stages (sp_depth plan) 0 n ()) (\<lambda>(r, _). Inr (r, []))
              | VariantCtp \<Rightarrow> fused_filter_collect_by_ref_ctp (re_stolen env) input stages (sp_depth plan)
              | VariantWtc \<Rightarrow> fused_filter_collect_by_ref_wtc (re_stolen env) (re_layout env) input stages (sp_depth plan))
            else bind_res (par_index_collect_by_ref env input (fused_op stages) plan workers) (\<lambda>(r, outp). Inr (map_outcome_vec r, outp))))"

definition fused_for_each_by_ref ::
    "run_env \<Rightarrow> split_env \<Rightarrow> 'a list \<Rightarrow> ('a, 'o, 'p) fused_stage \<Rightarrow> ('o \<Rightarrow> ('p, unit) outcome) \<Rightarrow> workload \<Rightarrow> nat \<Rightarrow>
     (('p, unit) outcome \<times> 'o list) res" where
  "fused_for_each_by_ref env senv input stages f w workers =
     (let n = length input in
      if n = 0 then Inr (Returned (), [])
      else bind_res (plan_terminal senv n w workers) (\<lambda>tp. case tp of
          Serial \<Rightarrow> serial_stage_for_each input stages f
        | Parallel plan \<Rightarrow> par_for_each_by_ref env input (fused_sink stages f) plan workers))"

definition fused_try_collect_by_ref ::
    "run_env \<Rightarrow> split_env \<Rightarrow> 'a list \<Rightarrow> ('a, 'o, 'e, 'p) fused_try_stage \<Rightarrow> workload \<Rightarrow> nat \<Rightarrow>
     (('p, 'e + 'o list) outcome \<times> 'o option list) res" where
  "fused_try_collect_by_ref env senv input stages w workers =
     (let n = length input in
      if n = 0 then Inr (Returned (Inr []), [])
      else bind_res (plan_terminal senv n w workers) (\<lambda>tp. case tp of
          Serial \<Rightarrow> bind_res (serial_stage_try_collect input stages) (\<lambda>r. Inr (r, []))
        | Parallel plan \<Rightarrow>
            if ts_may_filter stages
            then bind_res (join_fused_try_collect_by_ref (re_stolen env) input stages (sp_depth plan) 0 n ()) (\<lambda>(r, _). Inr (r, []))
            else bind_res (par_index_try_collect_by_ref env input (fused_try_op stages) plan workers)
                   (\<lambda>(r, outp). Inr (try_bind r (\<lambda>v. Returned (Inr (v_items v))), outp))))"

text \<open>The serial arm of a reduction over any reducer.\<close>

definition serial_reduce :: "'a list \<Rightarrow> ('a, 'o, 'p) fused_stage \<Rightarrow> ('o, 'acc, 'p) reducer \<Rightarrow> ('p, 'acc) outcome res" where
  "serial_reduce xs S R =
     (case rd_identity R of
        Unwound p \<Rightarrow> Inr (Unwound p)
      | Returned acc \<Rightarrow> iter_fold (stage_next S) (rd_fold R) xs acc)"

definition fused_reduce_by_ref ::
    "run_env \<Rightarrow> split_env \<Rightarrow> 'a list \<Rightarrow> ('a, 'o, 'p) fused_stage \<Rightarrow> ('o, 'acc, 'p) reducer \<Rightarrow> workload \<Rightarrow> nat \<Rightarrow> ('p, 'acc) outcome res" where
  "fused_reduce_by_ref env senv input stages R w workers =
     (let n = length input in
      if n = 0 then Inr (rd_identity R)
      else bind_res (plan_terminal senv n w workers) (\<lambda>tp. case tp of
          Serial \<Rightarrow> serial_reduce input stages R
        | Parallel plan \<Rightarrow> bind_res (par_reduce_by_ref env input (fused_reduce stages R) plan workers) (\<lambda>(r, _). Inr r)))"

definition fused_try_reduce_by_ref ::
    "run_env \<Rightarrow> split_env \<Rightarrow> 'a list \<Rightarrow> ('a, 'o, 'e, 'p) fused_try_stage \<Rightarrow> ('o, 'acc, 'p) reducer \<Rightarrow> workload \<Rightarrow> nat \<Rightarrow>
     ('p, 'e + 'acc) outcome res" where
  "fused_try_reduce_by_ref env senv input stages R w workers =
     (let n = length input in
      if n = 0 then Inr (bind_out (rd_identity R) (\<lambda>acc. Returned (Inr acc)))
      else bind_res (plan_terminal senv n w workers) (\<lambda>tp. case tp of
          Serial \<Rightarrow> Inr (bind_out (rd_identity R) (serial_try_fold (ts_try_apply stages) (rd_fold R) input))
        | Parallel plan \<Rightarrow> bind_res (par_reduce_try_by_ref env input (fused_try_reduce stages R) plan workers) (\<lambda>(r, _). Inr r)))"

text \<open>The terminals of a pipe over a borrowed slice: the entries, at the tuning of the pipe.\<close>

definition pipe_ref_collect where
  "pipe_ref_collect env senv knob ncpus x S items =
     fused_collect_by_ref env senv knob items S (cfg_workload (eo_config x)) (cfg_filter_collect (eo_config x)) (exec_workers ncpus x)"

definition pipe_ref_for_each where
  "pipe_ref_for_each env senv ncpus x S items f = fused_for_each_by_ref env senv items S f (cfg_workload (eo_config x)) (exec_workers ncpus x)"

definition pipe_ref_reduce where
  "pipe_ref_reduce env senv ncpus x S items op =
     fused_reduce_by_ref env senv items S (option_reducer op) (cfg_workload (eo_config x)) (exec_workers ncpus x)"

definition pipe_ref_fold where
  "pipe_ref_fold env senv ncpus x S items clone init f combine =
     fused_reduce_by_ref env senv items S (fold_reducer clone init f combine) (cfg_workload (eo_config x)) (exec_workers ncpus x)"

definition pipe_ref_sum where
  "pipe_ref_sum env senv ncpus x S items sum_of =
     fused_reduce_by_ref env senv items S (sum_reducer sum_of) (cfg_workload (eo_config x)) (exec_workers ncpus x)"

definition pipe_ref_count where
  "pipe_ref_count env senv ncpus x S items =
     fused_reduce_by_ref env senv items S count_reducer (cfg_workload (eo_config x)) (exec_workers ncpus x)"

definition pipe_ref_min where
  "pipe_ref_min env senv ncpus x S items = pipe_ref_reduce env senv ncpus x S items (\<lambda>a b. Returned (min a b))"

definition pipe_ref_max where
  "pipe_ref_max env senv ncpus x S items = pipe_ref_reduce env senv ncpus x S items (\<lambda>a b. Returned (max a b))"

definition try_pipe_ref_collect where
  "try_pipe_ref_collect env senv ncpus x S items = fused_try_collect_by_ref env senv items S (cfg_workload (eo_config x)) (exec_workers ncpus x)"

definition try_pipe_ref_reduce where
  "try_pipe_ref_reduce env senv ncpus x S items op =
     fused_try_reduce_by_ref env senv items S (option_reducer op) (cfg_workload (eo_config x)) (exec_workers ncpus x)"

definition try_pipe_ref_fold where
  "try_pipe_ref_fold env senv ncpus x S items clone init f combine =
     fused_try_reduce_by_ref env senv items S (fold_reducer clone init f combine) (cfg_workload (eo_config x)) (exec_workers ncpus x)"

section \<open>Scoped pipelines\<close>

definition fused_collect_scoped ::
    "run_env \<Rightarrow> split_env \<Rightarrow> 'a vec \<Rightarrow> ('a, 'o, 'p) fused_stage \<Rightarrow> workload \<Rightarrow> nat \<Rightarrow>
     (('p, 'o list) outcome \<times> 'a option list \<times> 'o option list) res" where
  "fused_collect_scoped env senv items stages w workers =
     (let n = length (v_items items) in
      if n = 0 then Inr (Returned [], [], [])
      else bind_res (plan_terminal senv n w workers) (\<lambda>tp. case tp of
          Serial \<Rightarrow> bind_res (serial_stage_collect (v_items items) stages) (\<lambda>r. Inr (r, [], []))
        | Parallel plan \<Rightarrow>
            if fs_may_filter stages
            then bind_res (fused_filter_collect (re_stolen env) items stages (sp_depth plan)) (\<lambda>(r, buf). Inr (r, buf, []))
            else bind_res (par_index_collect env items (fused_op stages) plan workers)
                   (\<lambda>(r, inp, outp). Inr (map_outcome_vec r, inp, outp))))"

definition fused_for_each_scoped ::
    "run_env \<Rightarrow> split_env \<Rightarrow> 'a vec \<Rightarrow> ('a, 'o, 'p) fused_stage \<Rightarrow> ('o \<Rightarrow> ('p, unit) outcome) \<Rightarrow> workload \<Rightarrow> nat \<Rightarrow>
     (('p, unit) outcome \<times> 'o list \<times> 'a option list) res" where
  "fused_for_each_scoped env senv items stages f w workers =
     (let n = length (v_items items) in
      if n = 0 then Inr (Returned (), [], [])
      else bind_res (plan_terminal senv n w workers) (\<lambda>tp. case tp of
          Serial \<Rightarrow> bind_res (serial_stage_for_each (v_items items) stages f) (\<lambda>(r, log). Inr (r, log, []))
        | Parallel plan \<Rightarrow> par_for_each env items (fused_sink stages f) plan workers))"

definition fused_try_collect_scoped ::
    "run_env \<Rightarrow> split_env \<Rightarrow> 'a vec \<Rightarrow> ('a, 'o, 'e, 'p) fused_try_stage \<Rightarrow> workload \<Rightarrow> nat \<Rightarrow>
     (('p, 'e + 'o list) outcome \<times> 'a option list \<times> 'o option list) res" where
  "fused_try_collect_scoped env senv items stages w workers =
     (let n = length (v_items items) in
      if n = 0 then Inr (Returned (Inr []), [], [])
      else bind_res (plan_terminal senv n w workers) (\<lambda>tp. case tp of
          Serial \<Rightarrow> bind_res (serial_stage_try_collect (v_items items) stages) (\<lambda>r. Inr (r, [], []))
        | Parallel plan \<Rightarrow>
            if ts_may_filter stages
            then bind_res (fused_try_filter_collect (re_stolen env) items stages (sp_depth plan)) (\<lambda>(r, buf). Inr (r, buf, []))
            else bind_res (par_index_try_collect env items (fused_try_op stages) plan workers)
                   (\<lambda>(r, inp, outp). Inr (try_bind r (\<lambda>v. Returned (Inr (v_items v))), inp, outp))))"

definition fused_reduce_scoped ::
    "run_env \<Rightarrow> split_env \<Rightarrow> 'a vec \<Rightarrow> ('a, 'o, 'p) fused_stage \<Rightarrow> ('o, 'acc, 'p) reducer \<Rightarrow> workload \<Rightarrow> nat \<Rightarrow>
     (('p, 'acc) outcome \<times> 'a option list) res" where
  "fused_reduce_scoped env senv items stages R w workers =
     (let n = length (v_items items) in
      if n = 0 then Inr (rd_identity R, [])
      else run_terminal senv n w workers (serial_reduce (v_items items) stages R)
             (\<lambda>plan. par_reduce env items (fused_reduce stages R) plan workers))"

definition fused_fold_scoped ::
    "run_env \<Rightarrow> split_env \<Rightarrow> 'a vec \<Rightarrow> ('a, 'o, 'p) fused_stage \<Rightarrow> ('acc \<Rightarrow> ('p, 'acc) outcome) \<Rightarrow> 'acc \<Rightarrow>
     ('acc \<Rightarrow> 'o \<Rightarrow> ('p, 'acc) outcome) \<Rightarrow> ('acc \<Rightarrow> 'acc \<Rightarrow> ('p, 'acc) outcome) \<Rightarrow> workload \<Rightarrow> nat \<Rightarrow> (('p, 'acc) outcome \<times> 'a option list) res" where
  "fused_fold_scoped env senv items stages clone init f combine w workers =
     run_terminal senv (length (v_items items)) w workers (iter_fold (\<lambda>item. Inr (fs_apply stages item)) f (v_items items) init)
       (\<lambda>plan. par_reduce env items (fused_reduce stages (fold_reducer clone init f combine)) plan workers)"

definition fused_try_reduce_scoped ::
    "run_env \<Rightarrow> split_env \<Rightarrow> 'a vec \<Rightarrow> ('a, 'o, 'e, 'p) fused_try_stage \<Rightarrow> ('o \<Rightarrow> 'o \<Rightarrow> ('p, 'o) outcome) \<Rightarrow> workload \<Rightarrow> nat \<Rightarrow>
     (('p, 'e + 'o option) outcome \<times> 'a option list) res" where
  "fused_try_reduce_scoped env senv items stages op w workers =
     (let n = length (v_items items) in
      if n = 0 then Inr (Returned (Inr None), [])
      else run_terminal senv n w workers
             (Inr (serial_try_fold (ts_try_apply stages)
                (\<lambda>acc y. bind_out (case acc of Some a \<Rightarrow> op a y | None \<Rightarrow> Returned y) (\<lambda>v. Returned (Some v))) (v_items items) None))
             (\<lambda>plan. par_reduce_try env items (fused_try_reduce stages (option_reducer op)) plan workers))"

definition fused_try_fold_scoped ::
    "run_env \<Rightarrow> split_env \<Rightarrow> 'a vec \<Rightarrow> ('a, 'o, 'e, 'p) fused_try_stage \<Rightarrow> ('acc \<Rightarrow> ('p, 'acc) outcome) \<Rightarrow> 'acc \<Rightarrow>
     ('acc \<Rightarrow> 'o \<Rightarrow> ('p, 'acc) outcome) \<Rightarrow> ('acc \<Rightarrow> 'acc \<Rightarrow> ('p, 'acc) outcome) \<Rightarrow> workload \<Rightarrow> nat \<Rightarrow> (('p, 'e + 'acc) outcome \<times> 'a option list) res" where
  "fused_try_fold_scoped env senv items stages clone init f combine w workers =
     run_terminal senv (length (v_items items)) w workers
       (Inr (serial_try_fold (ts_try_apply stages) f (v_items items) init))
       (\<lambda>plan. par_reduce_try env items (fused_try_reduce stages (fold_reducer clone init f combine)) plan workers)"

text \<open>The terminals of a scoped pipe: the entries, at the tuning of the pipe.\<close>

definition scoped_pipe_collect where
  "scoped_pipe_collect env senv ncpus x S items = fused_collect_scoped env senv items S (cfg_workload (eo_config x)) (exec_workers ncpus x)"

definition scoped_pipe_for_each where
  "scoped_pipe_for_each env senv ncpus x S items f = fused_for_each_scoped env senv items S f (cfg_workload (eo_config x)) (exec_workers ncpus x)"

definition scoped_pipe_reduce where
  "scoped_pipe_reduce env senv ncpus x S items op =
     fused_reduce_scoped env senv items S (option_reducer op) (cfg_workload (eo_config x)) (exec_workers ncpus x)"

definition scoped_pipe_fold where
  "scoped_pipe_fold env senv ncpus x S items clone init f combine =
     fused_fold_scoped env senv items S clone init f combine (cfg_workload (eo_config x)) (exec_workers ncpus x)"

definition scoped_pipe_sum where
  "scoped_pipe_sum env senv ncpus x S items sum_of =
     fused_reduce_scoped env senv items S (sum_reducer sum_of) (cfg_workload (eo_config x)) (exec_workers ncpus x)"

definition scoped_pipe_count where
  "scoped_pipe_count env senv ncpus x S items =
     fused_reduce_scoped env senv items S count_reducer (cfg_workload (eo_config x)) (exec_workers ncpus x)"

definition scoped_pipe_min where
  "scoped_pipe_min env senv ncpus x S items = scoped_pipe_reduce env senv ncpus x S items (\<lambda>a b. Returned (min a b))"

definition scoped_pipe_max where
  "scoped_pipe_max env senv ncpus x S items = scoped_pipe_reduce env senv ncpus x S items (\<lambda>a b. Returned (max a b))"

definition scoped_try_pipe_collect where
  "scoped_try_pipe_collect env senv ncpus x S items = fused_try_collect_scoped env senv items S (cfg_workload (eo_config x)) (exec_workers ncpus x)"

definition scoped_try_pipe_reduce where
  "scoped_try_pipe_reduce env senv ncpus x S items op =
     fused_try_reduce_scoped env senv items S op (cfg_workload (eo_config x)) (exec_workers ncpus x)"

definition scoped_try_pipe_fold where
  "scoped_try_pipe_fold env senv ncpus x S items clone init f combine =
     fused_try_fold_scoped env senv items S clone init f combine (cfg_workload (eo_config x)) (exec_workers ncpus x)"

section \<open>Generated ranges\<close>

text \<open>The materialised range is a vector of exactly its length.\<close>

definition range_vec :: "nat \<times> nat \<Rightarrow> nat vec" where
  "range_vec rng = \<lparr>v_items = [fst rng..<snd rng], v_cap = snd rng - fst rng\<rparr>"

definition range_pipe_collect ::
    "run_env \<Rightarrow> split_env \<Rightarrow> nat \<Rightarrow> exec_options \<Rightarrow> (nat, 'o, 'p) fused_stage \<Rightarrow> nat \<times> nat \<Rightarrow>
     (('p, 'o list) outcome \<times> nat option list \<times> 'o option list) res" where
  "range_pipe_collect env senv ncpus x stages rng =
     (let n = snd rng - fst rng; workers = exec_workers ncpus x in
      if n = 0 then Inr (Returned [], [], [])
      else bind_res (plan_terminal senv n (cfg_workload (eo_config x)) workers) (\<lambda>tp. case tp of
          Serial \<Rightarrow> bind_res (serial_stage_collect [fst rng..<snd rng] stages) (\<lambda>r. Inr (r, [], []))
        | Parallel plan \<Rightarrow>
            if fs_may_filter stages
            then bind_res (fused_filter_collect (re_stolen env) (range_vec rng) stages (sp_depth plan)) (\<lambda>(r, buf). Inr (r, buf, []))
            else bind_res (par_range_gen_collect env rng (fused_op stages) plan workers) (\<lambda>(r, outp). Inr (map_outcome_vec r, [], outp))))"

definition range_pipe_for_each ::
    "run_env \<Rightarrow> split_env \<Rightarrow> nat \<Rightarrow> exec_options \<Rightarrow> (nat, 'o, 'p) fused_stage \<Rightarrow> nat \<times> nat \<Rightarrow> ('o \<Rightarrow> ('p, unit) outcome) \<Rightarrow>
     (('p, unit) outcome \<times> 'o list \<times> nat option list) res" where
  "range_pipe_for_each env senv ncpus x stages rng f =
     (let n = snd rng - fst rng; workers = exec_workers ncpus x in
      if n = 0 then Inr (Returned (), [], [])
      else bind_res (plan_terminal senv n (cfg_workload (eo_config x)) workers) (\<lambda>tp. case tp of
          Serial \<Rightarrow> bind_res (serial_stage_for_each [fst rng..<snd rng] stages f) (\<lambda>(r, log). Inr (r, log, []))
        | Parallel plan \<Rightarrow>
            if fs_may_filter stages
            then par_for_each env (range_vec rng) (fused_sink stages f) plan workers
            else bind_res (par_range_gen_for_each env rng (fused_sink stages f) plan workers) (\<lambda>(r, log). Inr (r, log, []))))"

end
