(* ===== verification/Fused_Ref_Claims.thy ===== *)
theory Fused_Ref_Claims
  imports Fused_Ref_Pipe
begin

text \<open>
  What the borrowed, scoped and range pipelines return.
\<close>

section \<open>Collects over a borrowed slice\<close>

lemma ref_collect_gather:
  assumes law: "stage_law S" "\<not> fs_may_filter S" and lone: "lone_panic (fs_apply S) xs"
    and sch: "schedulable env (length xs) plan t" and ne: "xs \<noteq> []"
    and nt: "nt_store_enabled (re_nt env) (re_layout env) (length xs) = Inr nt"
  shows "\<exists>r outp. par_index_collect_by_ref env xs (fused_op S) plan t = Inr (r, outp) \<and>
     map_outcome_vec r = gather (fs_apply S) xs \<and> set outp \<subseteq> {None}"
  using ref_collect_runs [OF sch ne nt fused_op_total(1) [OF law] fused_op_total(2) [OF law lone]] collected_gather [OF law lone] by blast

text \<open>Every variant of the filtering collect gathers.\<close>

lemma filter_variant_gather:
  assumes "resolve_filter_collect_variant knob mode n = Inr v"
  shows "\<exists>outp. (case v of
        VariantMerge \<Rightarrow> bind_res (join_fused_collect_by_ref stolen xs S depth 0 (length xs) ()) (\<lambda>(r, _). Inr (r, []))
      | VariantCtp \<Rightarrow> fused_filter_collect_by_ref_ctp stolen xs S depth
      | VariantWtc \<Rightarrow> fused_filter_collect_by_ref_wtc stolen lay xs S depth) = Inr (gather (fs_apply S) xs, outp) \<and> set outp \<subseteq> {None}"
  using wtc_gather [of stolen lay xs S depth] by (cases v) (simp_all add: join_fused_collect_gather ctp_gather)

lemma resolve_total:
  "mode = ModeAuto \<longrightarrow> knob \<in> {None, Some ''merge'', Some ''ctp'', Some ''wtc''} \<Longrightarrow> \<exists>v. resolve_filter_collect_variant knob mode n = Inr v"
  by (cases mode) (auto simp: resolve_filter_collect_variant_def env_filter_collect_override_def)

lemma pipe_ref_collect_gathers:
  assumes "stage_law S"
    and "plan_terminal senv (length xs) (cfg_workload (eo_config x)) (exec_workers ncpus x) = Inr tp"
    and "cfg_filter_collect (eo_config x) = ModeAuto \<longrightarrow> knob \<in> {None, Some ''merge'', Some ''ctp'', Some ''wtc''}"
    and "\<And>plan. tp = Parallel plan \<Longrightarrow> \<not> fs_may_filter S \<Longrightarrow> schedulable env (length xs) plan (exec_workers ncpus x) \<and> lone_panic (fs_apply S) xs"
    and "nt_store_enabled (re_nt env) (re_layout env) (length xs) = Inr nt"
  shows "\<exists>outp. pipe_ref_collect env senv knob ncpus x S xs = Inr (gather (fs_apply S) xs, outp) \<and> set outp \<subseteq> {None}"
proof (cases "xs = []")
  case False
  show ?thesis
  proof (cases tp)
    case Serial
    with False assms(2) pure_collect_gather [OF assms(1), of xs] show ?thesis
      by (auto simp: pipe_ref_collect_def fused_collect_by_ref_def serial_stage_collect_def Let_def)
  next
    case (Parallel plan)
    show ?thesis
    proof (cases "fs_may_filter S")
      case True
      from resolve_total [OF assms(3)] obtain v where
        v: "resolve_filter_collect_variant knob (cfg_filter_collect (eo_config x)) (length xs) = Inr v" by blast
      from filter_variant_gather [OF v] True False Parallel assms(2) v show ?thesis
        by (simp add: pipe_ref_collect_def fused_collect_by_ref_def Let_def)
    next
      case nf: False
      from ref_collect_gather [OF assms(1) nf _ _ False assms(5)] assms(4) [OF Parallel nf] nf Parallel False assms(2) show ?thesis
        by (fastforce simp: pipe_ref_collect_def fused_collect_by_ref_def Let_def)
    qed
  qed
qed (simp add: pipe_ref_collect_def fused_collect_by_ref_def)



section \<open>The other terminals over a borrowed slice\<close>

lemma ref_for_each_result:
  assumes "stage_law S" and "plan_terminal senv (length xs) w workers = Inr tp"
    and "\<And>plan. tp = Parallel plan \<Longrightarrow> schedulable env (length xs) plan workers \<and> no_late_panic (\<lambda>i. sink_verdict S f (xs ! i)) 0 (length xs)"
  shows "\<exists>q log. fused_for_each_by_ref env senv xs S f w workers = Inr (q, log) \<and> for_each_result S f xs q log"
proof (cases "xs = []")
  case False
  show ?thesis
  proof (cases tp)
    case Serial
    with False assms(2) serial_for_each_runs [OF assms(1), of xs f] show ?thesis by (simp add: fused_for_each_by_ref_def Let_def)
  next
    case (Parallel plan)
    with False assms(2) assms(3) [OF Parallel] ref_for_each_runs [OF assms(1) _ False, of env plan workers f] show ?thesis
      by (simp add: fused_for_each_by_ref_def Let_def)
  qed
qed (simp add: fused_for_each_by_ref_def for_each_result_def)

lemma ref_try_collect_result:
  assumes law: "try_stage_law S" and pl: "plan_terminal senv (length xs) w workers = Inr tp"
    and sch: "\<And>plan. tp = Parallel plan \<Longrightarrow> \<not> ts_may_filter S \<Longrightarrow> schedulable env (length xs) plan workers"
    and late: "no_late_panic (stage_verdict S xs) 0 (length xs)"
  shows "\<exists>r outp. fused_try_collect_by_ref env senv xs S w workers = Inr (r, outp) \<and> try_result (ts_try_apply S) xs r \<and> set outp \<subseteq> {None}"
proof (cases "xs = []")
  case False
  note whole = try_gather_result [OF late]
  show ?thesis
  proof (cases tp)
    case Serial
    with False pl serial_try_gather [OF law] whole show ?thesis by (auto simp: fused_try_collect_by_ref_def Let_def)
  next
    case (Parallel plan)
    show ?thesis
    proof (cases "ts_may_filter S")
      case True
      with Parallel False pl join_fused_try_collect_gather [OF late] whole show ?thesis
        by (auto simp: fused_try_collect_by_ref_def Let_def)
    next
      case nf: False
      from ref_try_collect_runs [OF sch [OF Parallel nf] False fused_try_op_total(1) [OF law nf] fused_try_op_total(2) [OF law nf late]]
        try_collected_result [OF law nf] nf Parallel False pl show ?thesis
        by (fastforce simp: fused_try_collect_by_ref_def Let_def)
    qed
  qed
qed (simp add: fused_try_collect_by_ref_def try_result_def)

lemma serial_reduce_gather:
  assumes "stage_law S" and "reducer_law R g e c"
  shows "serial_reduce xs S R = Inr (bind_out (gather (fs_apply S) xs) (\<lambda>ys. Returned (foldl g e ys)))"
  using assms(2) iter_fold_gather [of "stage_next S" "fs_apply S" "rd_fold R" g xs e] stage_next_apply [OF assms(1)]
  by (simp add: serial_reduce_def reducer_law_def)

lemma ref_reduce_reduced:
  assumes law: "stage_law S" "reducer_law R g e c" and pl: "plan_terminal senv (length xs) w workers = Inr tp"
    and sch: "\<And>plan. tp = Parallel plan \<Longrightarrow> schedulable env (length xs) plan workers"
  shows "\<exists>q. fused_reduce_by_ref env senv xs S R w workers = Inr q \<and> reduced (fs_apply S) g e xs q"
proof (cases "xs = []")
  case True
  with law(2) show ?thesis by (simp add: fused_reduce_by_ref_def reducer_law_def reduced_def)
next
  case False
  show ?thesis
  proof (cases tp)
    case Serial
    with False pl serial_reduce_gather [OF law] reduced_gather [of "fs_apply S" g e xs] show ?thesis by (simp add: fused_reduce_by_ref_def Let_def)
  next
    case (Parallel plan)
    from par_reduce_by_ref_runs [OF reduce_law_fused [OF law] False sch [OF Parallel]] Parallel False pl show ?thesis
      by (auto simp: fused_reduce_by_ref_def Let_def)
  qed
qed

lemma ref_try_reduce_reduced:
  assumes law: "reducer_law R g e c" and pl: "plan_terminal senv (length xs) w workers = Inr tp"
    and sch: "\<And>plan. tp = Parallel plan \<Longrightarrow> schedulable env (length xs) plan workers"
    and late: "no_late_panic (stage_verdict S xs) 0 (length xs)"
  shows "\<exists>q. fused_try_reduce_by_ref env senv xs S R w workers = Inr q \<and> try_reduced (ts_try_apply S) g e xs q"
proof (cases "xs = []")
  case True
  with law show ?thesis by (simp add: fused_try_reduce_by_ref_def reducer_law_def try_reduced_def)
next
  case False
  show ?thesis
  proof (cases tp)
    case Serial
    have "serial_try_fold (ts_try_apply S) (rd_fold R) xs e = try_bind (try_gather (ts_try_apply S) xs) (\<lambda>ys. Returned (Inr (foldl g e ys)))"
      using law by (intro serial_try_fold_gather) (simp add: reducer_law_def)
    with Serial False pl law try_reduced_gather [OF late, of g e] show ?thesis by (simp add: fused_try_reduce_by_ref_def Let_def reducer_law_def)
  next
    case (Parallel plan)
    from par_reduce_try_by_ref_runs [OF try_reduce_law_fused [OF law] False sch [OF Parallel] late] Parallel False pl show ?thesis
      by (auto simp: fused_try_reduce_by_ref_def Let_def)
  qed
qed

lemma gather_calm: "gather f xs = Returned ys \<Longrightarrow> \<not> (\<exists>x \<in> set xs. panics (f x))"
proof (induction xs arbitrary: ys)
  case (Cons x xs)
  then show ?case by (cases "f x"; cases "gather f xs") auto
qed simp

lemma ref_reduce_calm:
  assumes "stage_law S" and "reducer_law R g e c" and "gather (fs_apply S) xs = Returned ys"
    and "plan_terminal senv (length xs) w workers = Inr tp" and "\<And>plan. tp = Parallel plan \<Longrightarrow> schedulable env (length xs) plan workers"
  shows "fused_reduce_by_ref env senv xs S R w workers = Inr (Returned (foldl g e ys))"
  using ref_reduce_reduced [OF assms(1,2,4,5)] gather_calm [OF assms(3)] assms(3) by (auto simp: reduced_def)

lemma foldl_min: "foldl min (y :: 'a :: linorder) ys = Min (insert y (set ys))"
  using Min.set_eq_fold [of y ys] by (simp add: foldl_conv_fold min.commute)

lemma foldl_max: "foldl max (y :: 'a :: linorder) ys = Max (insert y (set ys))"
  using Max.set_eq_fold [of y ys] by (simp add: foldl_conv_fold max.commute)

lemma foldl_add: "foldl (+) (y :: 'a :: monoid_add) ys = y + sum_list ys"
  by (induction ys arbitrary: y) (simp_all add: add.assoc)

lemma reducer_law_sum: "reducer_law (sum_reducer (\<lambda>ys. Returned (sum_list ys))) (+) (0 :: 'a :: monoid_add) (+)"
  by (simp add: reducer_law_def sum_reducer_def folds_def foldl_add)

lemma foldl_Suc: "foldl (\<lambda>a _. Suc a) n ys = n + length ys"
  by (induction ys arbitrary: n) simp_all

text \<open>
  Borrowed aggregates. Over a borrowed slice, \<open>PipeRef::min\<close>, \<open>max\<close>, \<open>sum\<close> and \<open>count\<close> give the least, the
  greatest, the sum and the number of the kept outputs, whenever no item panics, on the serial and on the
  parallel path, for every steal and every order of the chunks.
\<close>

theorem pipe_ref_aggregates:
  fixes S :: "('a, 'o :: {linorder, monoid_add}, 'p) fused_stage"
  assumes "stage_law S" and "gather (fs_apply S) xs = Returned ys"
    and "plan_terminal senv (length xs) (cfg_workload (eo_config x)) (exec_workers ncpus x) = Inr tp"
    and "\<And>plan. tp = Parallel plan \<Longrightarrow> schedulable env (length xs) plan (exec_workers ncpus x)"
  shows "pipe_ref_min env senv ncpus x S xs = Inr (Returned (if ys = [] then None else Some (Min (set ys)))) \<and>
     pipe_ref_max env senv ncpus x S xs = Inr (Returned (if ys = [] then None else Some (Max (set ys)))) \<and>
     pipe_ref_sum env senv ncpus x S xs (\<lambda>ys. Returned (sum_list ys)) = Inr (Returned (sum_list ys)) \<and>
     pipe_ref_count env senv ncpus x S xs = Inr (Returned (length ys))"
proof -
  note reduce = ref_reduce_calm [OF assms(1) _ assms(2-4)]
  have "reducer_law (option_reducer (\<lambda>a b. Returned (min a b))) (option_fold min) None (option_combine (min :: 'o \<Rightarrow> _))"
    by (rule reducer_law_option) (simp_all add: min.assoc)
  from reduce [OF this] have mn: "pipe_ref_min env senv ncpus x S xs = Inr (Returned (if ys = [] then None else Some (Min (set ys))))"
    by (cases ys) (simp_all add: pipe_ref_min_def pipe_ref_reduce_def option_fold_none [of min] foldl_min del: foldl_Cons)
  have "reducer_law (option_reducer (\<lambda>a b. Returned (max a b))) (option_fold max) None (option_combine (max :: 'o \<Rightarrow> _))"
    by (rule reducer_law_option) (simp_all add: max.assoc)
  from reduce [OF this] have mx: "pipe_ref_max env senv ncpus x S xs = Inr (Returned (if ys = [] then None else Some (Max (set ys))))"
    by (cases ys) (simp_all add: pipe_ref_max_def pipe_ref_reduce_def option_fold_none [of max] foldl_max del: foldl_Cons)
  from mn mx reduce [OF reducer_law_sum] reduce [OF reducer_law_count] show ?thesis
    by (simp add: pipe_ref_sum_def pipe_ref_count_def foldl_add foldl_Suc)
qed

theorem pipe_ref_aggregates_witness:
  "pipe_ref_max demo_env demo_senv 8 demo_exec (stage_filter stage_identity (\<lambda>x. Returned (x \<noteq> 4)) :: (nat, nat, string) fused_stage) [1, 2, 3, 4] =
     Inr (Returned (Some 3))"
proof -
  let ?S = "stage_filter stage_identity (\<lambda>x. Returned (x \<noteq> 4)) :: (nat, nat, string) fused_stage" and ?xs = "[1, 2, 3, 4 :: nat]"
  have n: "length ?xs = 4" by simp
  have g: "gather (fs_apply ?S) ?xs = Returned [1, 2, 3]" by (simp add: stage_filter_def stage_identity_def Let_def)
  have "plan_terminal demo_senv (length ?xs) (cfg_workload (eo_config demo_exec)) (exec_workers 8 demo_exec) = Inr (Parallel demo_plan)"
    "\<And>plan. Parallel demo_plan = Parallel plan \<Longrightarrow> schedulable demo_env (length ?xs) plan (exec_workers 8 demo_exec)"
    unfolding n demo_workers using demo_planned demo_scheduled by simp_all
  from pipe_ref_aggregates [OF _ g this] show ?thesis by auto
qed

section \<open>Scoped pipelines\<close>

text \<open>Seeding with the first output is folding options from nothing.\<close>

lemma iter_fold_some:
  "iter_fold nxt (\<lambda>acc y. bind_out (case acc of Some a \<Rightarrow> op a y | None \<Rightarrow> Returned y) (\<lambda>v. Returned (Some v))) xs (Some a) =
     bind_res (iter_fold nxt op xs a) (\<lambda>r. Inr (bind_out r (\<lambda>v. Returned (Some v))))"
proof (induction xs arbitrary: a)
  case (Cons x xs)
  show ?case
  proof (cases "nxt x")
    case (Inr r)
    show ?thesis
    proof (cases "bind_out r (\<lambda>y. case y of None \<Rightarrow> Returned a | Some v \<Rightarrow> op a v)")
      case (Returned b)
      with Inr Cons.IH show ?thesis by (cases r) (auto split: option.splits)
    next
      case (Unwound p)
      with Inr show ?thesis by (cases r) (auto split: option.splits)
    qed
  qed simp
qed simp

lemma iter_reduce_fold:
  "iter_fold nxt (\<lambda>acc y. bind_out (case acc of Some a \<Rightarrow> op a y | None \<Rightarrow> Returned y) (\<lambda>v. Returned (Some v))) xs None = iter_reduce nxt op xs"
proof (induction xs)
  case (Cons x xs)
  show ?case
  proof (cases "nxt x")
    case (Inr r)
    with Cons show ?thesis by (cases r) (auto simp: iter_fold_some split: option.splits)
  qed simp
qed simp

text \<open>
  Scoped terminals. For every chain of stages, the collecting, side-effect and reducing terminals of a
  scoped pipe compute exactly what the terminals of an owned pipe with the same tuning compute on the
  same run, panics included, although their serial arms are written differently; so what is shown of a
  pipe's terminals holds of a scope's.
\<close>

theorem scoped_terminals_agree:
  assumes "stage_law S"
  shows "scoped_pipe_collect env senv ncpus x S items = pipe_collect env senv ncpus x S items \<and>
     scoped_pipe_for_each env senv ncpus x S items f = pipe_for_each env senv ncpus x S items f \<and>
     scoped_pipe_reduce env senv ncpus x S items op = pipe_reduce env senv ncpus x S items op \<and>
     scoped_pipe_fold env senv ncpus x S items clone init h combine = pipe_fold env senv ncpus x S items clone init h combine \<and>
     scoped_pipe_count env senv ncpus x S items = pipe_count env senv ncpus x S items"
proof -
  have "serial_reduce xs S (option_reducer op) = iter_reduce (stage_next S) op xs" for xs
    by (simp add: serial_reduce_def option_reducer_def iter_reduce_fold)
  moreover have "(\<lambda>item. Inr (fs_apply S item)) = stage_next S"
    using stage_next_apply [OF assms] by (simp add: fun_eq_iff)
  ultimately show ?thesis
    by (simp add: scoped_pipe_collect_def fused_collect_scoped_def pipe_collect_def
      scoped_pipe_for_each_def fused_for_each_scoped_def pipe_for_each_def
      scoped_pipe_reduce_def fused_reduce_scoped_def pipe_reduce_def scoped_pipe_fold_def fused_fold_scoped_def pipe_fold_def
      scoped_pipe_count_def pipe_count_def serial_reduce_def count_reducer_def option_reducer_def Let_def)
qed

theorem scoped_terminals_agree_witness:
  "scoped_pipe_reduce demo_env demo_senv 8 demo_exec (stage_map stage_identity (\<lambda>x. Returned (x + 1)) :: (nat, nat, string) fused_stage)
      \<lparr>v_items = [1, 2], v_cap = 2\<rparr> (\<lambda>a b. if b = 3 then Unwound ''boom'' else Returned a) =
   pipe_reduce demo_env demo_senv 8 demo_exec (stage_map stage_identity (\<lambda>x. Returned (x + 1)))
      \<lparr>v_items = [1, 2], v_cap = 2\<rparr> (\<lambda>a b. if b = 3 then Unwound ''boom'' else Returned a)"
proof -
  have "stage_law (stage_map stage_identity (\<lambda>x. Returned (x + 1)) :: (nat, nat, string) fused_stage)" by auto
  from scoped_terminals_agree [OF this, THEN conjunct2, THEN conjunct2, THEN conjunct1] show ?thesis .
qed

section \<open>Generated ranges\<close>

text \<open>
  C28. Range pipes. For every chain of stages, \<open>RangePipe::collect\<close> over \<open>lo..hi\<close>, which generates the indices
  inside the leaves, returns what running the chain over the indices in order gives, as a pipe over the
  materialised range does, for every schedule, with nothing left in the buffers it frees; when the index
  core runs (a parallel plan and a chain that does not filter), at most one index is assumed to panic.
\<close>

theorem range_pipe_collect_sequential:
  assumes "stage_law S"
    and "plan_terminal senv (hi - lo) (cfg_workload (eo_config x)) (exec_workers ncpus x) = Inr tp"
    and "\<And>plan. tp = Parallel plan \<Longrightarrow> \<not> fs_may_filter S \<Longrightarrow> schedulable env (hi - lo) plan (exec_workers ncpus x) \<and> lone_panic (fs_apply S) [lo..<hi]"
    and "nt_store_enabled (re_nt env) (re_layout env) (hi - lo) = Inr nt"
  shows "\<exists>inp outp. range_pipe_collect env senv ncpus x S (lo, hi) = Inr (gather (fs_apply S) [lo..<hi], inp, outp) \<and>
     set inp \<subseteq> {None} \<and> set outp \<subseteq> {None}"
proof (cases "lo < hi")
  case True
  then have ne: "v_items (range_vec (lo, hi)) \<noteq> []" "\<not> hi \<le> lo" by (simp_all add: range_vec_def)
  show ?thesis
  proof (cases tp)
    case Serial
    with True assms(2) pure_collect_gather [OF assms(1), of "[lo..<hi]"] show ?thesis
      by (auto simp: range_pipe_collect_def serial_stage_collect_def Let_def)
  next
    case (Parallel plan)
    show ?thesis
    proof (cases "fs_may_filter S")
      case f: True
      from filter_collect_runs [OF ne(1), of "re_stolen env" S "sp_depth plan"] f Parallel ne(2) assms(2) show ?thesis
        by (auto simp: range_pipe_collect_def Let_def range_vec_def)
    next
      case nf: False
      note runs = assms(3) [OF Parallel nf]
      from range_collect_runs [OF conjunct1 [OF runs] True assms(4) fused_op_total(1) [OF assms(1) nf]]
        fused_op_total(2) [OF assms(1) nf conjunct2 [OF runs]] collected_gather [OF assms(1) nf conjunct2 [OF runs]]
        nf Parallel ne(2) assms(2) show ?thesis
        by (fastforce simp: range_pipe_collect_def Let_def)
    qed
  qed
qed (simp add: range_pipe_collect_def)

theorem range_pipe_collect_sequential_witness:
  "\<exists>inp outp. range_pipe_collect demo_env demo_senv 8 demo_exec (stage_map stage_identity (\<lambda>x. Returned (x * x)) :: (nat, nat, string) fused_stage) (3, 7) =
     Inr (Returned [9, 16, 25, 36], inp, outp) \<and> set inp \<subseteq> {None} \<and> set outp \<subseteq> {None}"
proof -
  let ?S = "stage_map stage_identity (\<lambda>x. Returned (x * x)) :: (nat, nat, string) fused_stage"
  have g: "gather (fs_apply ?S) [3..<7] = Returned [9, 16, 25, 36]" by (simp add: stage_map_def stage_identity_def)
  have calm: "\<not> panics (fs_apply ?S y)" for y by (simp add: stage_map_def stage_identity_def)
  then have lone: "lone_panic (fs_apply ?S) [3..<7]" unfolding lone_panic_def by blast
  have nt: "nt_store_enabled (re_nt demo_env) (re_layout demo_env) 4 = Inr False"
    by (simp add: nt_store_enabled_def demo_env_def)
  have n: "7 - 3 = (4 :: nat)" by simp
  have law: "stage_law ?S" by auto
  have runs: "schedulable demo_env 4 plan 2 \<and> lone_panic (fs_apply ?S) [3..<7]" if "Parallel demo_plan = Parallel plan" for plan
    using that demo_scheduled lone by simp
  show ?thesis
    by (rule range_pipe_collect_sequential [OF law, of demo_senv 7 3 demo_exec 8 "Parallel demo_plan" demo_env False, unfolded g n demo_workers])
      (use demo_planned runs nt in blast)+
qed

lemma range_for_each_result:
  assumes law: "stage_law S" and pl: "plan_terminal senv (hi - lo) (cfg_workload (eo_config x)) (exec_workers ncpus x) = Inr tp"
    and sch: "\<And>plan. tp = Parallel plan \<Longrightarrow> schedulable env (hi - lo) plan (exec_workers ncpus x) \<and>
           no_late_panic (\<lambda>i. sink_verdict S f ([lo..<hi] ! i)) 0 (hi - lo)"
  shows "\<exists>q log buf. range_pipe_for_each env senv ncpus x S (lo, hi) f = Inr (q, log, buf) \<and> set buf \<subseteq> {None} \<and> for_each_result S f [lo..<hi] q log"
proof (cases "lo < hi")
  case True
  then have ne: "v_items (range_vec (lo, hi)) \<noteq> []" "\<not> hi \<le> lo" by (simp_all add: range_vec_def)
  show ?thesis
  proof (cases tp)
    case Serial
    with True pl serial_for_each_runs [OF law, of "[lo..<hi]" f] show ?thesis by (auto simp: range_pipe_for_each_def Let_def)
  next
    case (Parallel plan)
    with ne pl sch [OF Parallel] par_for_each_runs [OF law _ ne(1), of env plan "exec_workers ncpus x" f]
      range_for_each_runs [OF law _ True, of env plan "exec_workers ncpus x" f] show ?thesis
      by (auto simp: range_pipe_for_each_def Let_def range_vec_def)
  qed
qed (simp add: range_pipe_for_each_def for_each_result_def)

end
