(* ===== verification/Builders.thy ===== *)
theory Builders
  imports Fused_Ref_Claims
begin

text \<open>
  The builders of the fused pipelines: owned (\<open>Pipe\<close>, \<open>TryPipe\<close>), borrowed (\<open>PipeRef\<close>, \<open>TryPipeRef\<close>), scoped
  (\<open>ScopedPipe\<close>, \<open>ScopedTryPipe\<close>) and over a range (\<open>RangePipe\<close>). Each is a struct of the input, the chain
  built so far and the tuning; appending a stage keeps the input and the tuning and wraps the chain.
\<close>

section \<open>The struct\<close>

record ('x, 's) pipe =
  pp_items :: 'x
  pp_stages :: 's
  pp_exec :: exec_options

definition exec_default :: "nat \<Rightarrow> exec_options" where
  "exec_default ncpus = \<lparr>eo_config = config_default ncpus, eo_compute_pool = None, eo_oversubscribe = None\<rparr>"

text \<open>A collected iterator is a vector of its items.\<close>

definition vec_of :: "'a list \<Rightarrow> 'a vec" where
  "vec_of xs = \<lparr>v_items = xs, v_cap = length xs\<rparr>"

type_synonym ('a, 'o, 'p) owned_pipe = "('a vec, ('a, 'o, 'p) fused_stage) pipe"
type_synonym ('a, 'o, 'e, 'p) owned_try_pipe = "('a vec, ('a, 'o, 'e, 'p) fused_try_stage) pipe"
type_synonym ('a, 'o, 'p) borrowed_pipe = "('a list, ('a, 'o, 'p) fused_stage) pipe"
type_synonym ('a, 'o, 'e, 'p) borrowed_try_pipe = "('a list, ('a, 'o, 'e, 'p) fused_try_stage) pipe"
type_synonym ('o, 'p) index_pipe = "(nat \<times> nat, (nat, 'o, 'p) fused_stage) pipe"

section \<open>Owned pipes\<close>

definition pipe_new :: "nat \<Rightarrow> 'a list \<Rightarrow> ('a, 'a, 'p) owned_pipe" where
  "pipe_new ncpus items = \<lparr>pp_items = vec_of items, pp_stages = stage_identity, pp_exec = exec_default ncpus\<rparr>"

definition pipe_map :: "('a, 'm, 'p) owned_pipe \<Rightarrow> ('m \<Rightarrow> ('p, 'o) outcome) \<Rightarrow> ('a, 'o, 'p) owned_pipe" where
  "pipe_map p f = \<lparr>pp_items = pp_items p, pp_stages = stage_map (pp_stages p) f, pp_exec = pp_exec p\<rparr>"

definition pipe_filter :: "('a, 'o, 'p) owned_pipe \<Rightarrow> ('o \<Rightarrow> ('p, bool) outcome) \<Rightarrow> ('a, 'o, 'p) owned_pipe" where
  "pipe_filter p f = \<lparr>pp_items = pp_items p, pp_stages = stage_filter (pp_stages p) f, pp_exec = pp_exec p\<rparr>"

definition pipe_try_map :: "('a, 'm, 'p) owned_pipe \<Rightarrow> ('m \<Rightarrow> ('p, 'e + 'o) outcome) \<Rightarrow> ('a, 'o, 'e, 'p) owned_try_pipe" where
  "pipe_try_map p f = \<lparr>pp_items = pp_items p, pp_stages = try_stage_try_map (infallible_chain (pp_stages p)) f, pp_exec = pp_exec p\<rparr>"

definition try_pipe_map :: "('a, 'm, 'e, 'p) owned_try_pipe \<Rightarrow> ('m \<Rightarrow> ('p, 'o) outcome) \<Rightarrow> ('a, 'o, 'e, 'p) owned_try_pipe" where
  "try_pipe_map p f = \<lparr>pp_items = pp_items p, pp_stages = try_stage_map (pp_stages p) f, pp_exec = pp_exec p\<rparr>"

definition try_pipe_filter :: "('a, 'o, 'e, 'p) owned_try_pipe \<Rightarrow> ('o \<Rightarrow> ('p, bool) outcome) \<Rightarrow> ('a, 'o, 'e, 'p) owned_try_pipe" where
  "try_pipe_filter p f = \<lparr>pp_items = pp_items p, pp_stages = try_stage_filter (pp_stages p) f, pp_exec = pp_exec p\<rparr>"

definition try_pipe_try_map :: "('a, 'm, 'e, 'p) owned_try_pipe \<Rightarrow> ('m \<Rightarrow> ('p, 'e + 'o) outcome) \<Rightarrow> ('a, 'o, 'e, 'p) owned_try_pipe" where
  "try_pipe_try_map p f = \<lparr>pp_items = pp_items p, pp_stages = try_stage_try_map (pp_stages p) f, pp_exec = pp_exec p\<rparr>"

definition try_pipe_map_err :: "('a, 'o, 'e, 'p) owned_try_pipe \<Rightarrow> ('e \<Rightarrow> ('p, 'f) outcome) \<Rightarrow> ('a, 'o, 'f, 'p) owned_try_pipe" where
  "try_pipe_map_err p f = \<lparr>pp_items = pp_items p, pp_stages = try_stage_map_err (pp_stages p) f, pp_exec = pp_exec p\<rparr>"

section \<open>Borrowed pipes\<close>

definition pipe_ref_new :: "nat \<Rightarrow> 'a list \<Rightarrow> ('a, 'a, 'p) borrowed_pipe" where
  "pipe_ref_new ncpus items = \<lparr>pp_items = items, pp_stages = stage_identity, pp_exec = exec_default ncpus\<rparr>"

definition pipe_ref_with_filter_collect :: "('x, 's) pipe \<Rightarrow> filter_collect_mode \<Rightarrow> ('x, 's) pipe" where
  "pipe_ref_with_filter_collect p mode = p\<lparr>pp_exec := (pp_exec p)\<lparr>eo_config := with_filter_collect (eo_config (pp_exec p)) mode\<rparr>\<rparr>"

definition pipe_ref_map :: "('a, 'm, 'p) borrowed_pipe \<Rightarrow> ('m \<Rightarrow> ('p, 'o) outcome) \<Rightarrow> ('a, 'o, 'p) borrowed_pipe" where
  "pipe_ref_map p f = \<lparr>pp_items = pp_items p, pp_stages = stage_map (pp_stages p) f, pp_exec = pp_exec p\<rparr>"

definition pipe_ref_filter :: "('a, 'o, 'p) borrowed_pipe \<Rightarrow> ('o \<Rightarrow> ('p, bool) outcome) \<Rightarrow> ('a, 'o, 'p) borrowed_pipe" where
  "pipe_ref_filter p f = \<lparr>pp_items = pp_items p, pp_stages = stage_filter (pp_stages p) f, pp_exec = pp_exec p\<rparr>"

definition pipe_ref_try_map :: "('a, 'm, 'p) borrowed_pipe \<Rightarrow> ('m \<Rightarrow> ('p, 'e + 'o) outcome) \<Rightarrow> ('a, 'o, 'e, 'p) borrowed_try_pipe" where
  "pipe_ref_try_map p f = \<lparr>pp_items = pp_items p, pp_stages = try_stage_try_map (infallible_chain (pp_stages p)) f, pp_exec = pp_exec p\<rparr>"

definition try_pipe_ref_map :: "('a, 'm, 'e, 'p) borrowed_try_pipe \<Rightarrow> ('m \<Rightarrow> ('p, 'o) outcome) \<Rightarrow> ('a, 'o, 'e, 'p) borrowed_try_pipe" where
  "try_pipe_ref_map p f = \<lparr>pp_items = pp_items p, pp_stages = try_stage_map (pp_stages p) f, pp_exec = pp_exec p\<rparr>"

definition try_pipe_ref_filter :: "('a, 'o, 'e, 'p) borrowed_try_pipe \<Rightarrow> ('o \<Rightarrow> ('p, bool) outcome) \<Rightarrow> ('a, 'o, 'e, 'p) borrowed_try_pipe" where
  "try_pipe_ref_filter p f = \<lparr>pp_items = pp_items p, pp_stages = try_stage_filter (pp_stages p) f, pp_exec = pp_exec p\<rparr>"

definition try_pipe_ref_try_map :: "('a, 'm, 'e, 'p) borrowed_try_pipe \<Rightarrow> ('m \<Rightarrow> ('p, 'e + 'o) outcome) \<Rightarrow> ('a, 'o, 'e, 'p) borrowed_try_pipe" where
  "try_pipe_ref_try_map p f = \<lparr>pp_items = pp_items p, pp_stages = try_stage_try_map (pp_stages p) f, pp_exec = pp_exec p\<rparr>"

definition try_pipe_ref_map_err :: "('a, 'o, 'e, 'p) borrowed_try_pipe \<Rightarrow> ('e \<Rightarrow> ('p, 'f) outcome) \<Rightarrow> ('a, 'o, 'f, 'p) borrowed_try_pipe" where
  "try_pipe_ref_map_err p f = \<lparr>pp_items = pp_items p, pp_stages = try_stage_map_err (pp_stages p) f, pp_exec = pp_exec p\<rparr>"

section \<open>Scoped pipes\<close>

definition scoped_pipe_new :: "nat \<Rightarrow> 'a list \<Rightarrow> ('a, 'a, 'p) owned_pipe" where
  "scoped_pipe_new ncpus items = \<lparr>pp_items = vec_of items, pp_stages = stage_identity, pp_exec = exec_default ncpus\<rparr>"

definition scoped_pipe_map :: "('a, 'm, 'p) owned_pipe \<Rightarrow> ('m \<Rightarrow> ('p, 'o) outcome) \<Rightarrow> ('a, 'o, 'p) owned_pipe" where
  "scoped_pipe_map p f = \<lparr>pp_items = pp_items p, pp_stages = stage_map (pp_stages p) f, pp_exec = pp_exec p\<rparr>"

definition scoped_pipe_filter :: "('a, 'o, 'p) owned_pipe \<Rightarrow> ('o \<Rightarrow> ('p, bool) outcome) \<Rightarrow> ('a, 'o, 'p) owned_pipe" where
  "scoped_pipe_filter p f = \<lparr>pp_items = pp_items p, pp_stages = stage_filter (pp_stages p) f, pp_exec = pp_exec p\<rparr>"

definition scoped_pipe_try_map :: "('a, 'm, 'p) owned_pipe \<Rightarrow> ('m \<Rightarrow> ('p, 'e + 'o) outcome) \<Rightarrow> ('a, 'o, 'e, 'p) owned_try_pipe" where
  "scoped_pipe_try_map p f = \<lparr>pp_items = pp_items p, pp_stages = try_stage_try_map (infallible_chain (pp_stages p)) f, pp_exec = pp_exec p\<rparr>"

definition scoped_try_pipe_map :: "('a, 'm, 'e, 'p) owned_try_pipe \<Rightarrow> ('m \<Rightarrow> ('p, 'o) outcome) \<Rightarrow> ('a, 'o, 'e, 'p) owned_try_pipe" where
  "scoped_try_pipe_map p f = \<lparr>pp_items = pp_items p, pp_stages = try_stage_map (pp_stages p) f, pp_exec = pp_exec p\<rparr>"

definition scoped_try_pipe_filter :: "('a, 'o, 'e, 'p) owned_try_pipe \<Rightarrow> ('o \<Rightarrow> ('p, bool) outcome) \<Rightarrow> ('a, 'o, 'e, 'p) owned_try_pipe" where
  "scoped_try_pipe_filter p f = \<lparr>pp_items = pp_items p, pp_stages = try_stage_filter (pp_stages p) f, pp_exec = pp_exec p\<rparr>"

definition scoped_try_pipe_try_map :: "('a, 'm, 'e, 'p) owned_try_pipe \<Rightarrow> ('m \<Rightarrow> ('p, 'e + 'o) outcome) \<Rightarrow> ('a, 'o, 'e, 'p) owned_try_pipe" where
  "scoped_try_pipe_try_map p f = \<lparr>pp_items = pp_items p, pp_stages = try_stage_try_map (pp_stages p) f, pp_exec = pp_exec p\<rparr>"

definition scoped_try_pipe_map_err :: "('a, 'o, 'e, 'p) owned_try_pipe \<Rightarrow> ('e \<Rightarrow> ('p, 'f) outcome) \<Rightarrow> ('a, 'o, 'f, 'p) owned_try_pipe" where
  "scoped_try_pipe_map_err p f = \<lparr>pp_items = pp_items p, pp_stages = try_stage_map_err (pp_stages p) f, pp_exec = pp_exec p\<rparr>"

section \<open>Range pipes\<close>

definition pipe_range :: "nat \<Rightarrow> nat \<times> nat \<Rightarrow> (nat, 'p) index_pipe" where
  "pipe_range ncpus rng = \<lparr>pp_items = rng, pp_stages = stage_identity, pp_exec = exec_default ncpus\<rparr>"

definition range_pipe_map :: "('m, 'p) index_pipe \<Rightarrow> ('m \<Rightarrow> ('p, 'o) outcome) \<Rightarrow> ('o, 'p) index_pipe" where
  "range_pipe_map p f = \<lparr>pp_items = pp_items p, pp_stages = stage_map (pp_stages p) f, pp_exec = pp_exec p\<rparr>"

definition range_pipe_filter :: "('o, 'p) index_pipe \<Rightarrow> ('o \<Rightarrow> ('p, bool) outcome) \<Rightarrow> ('o, 'p) index_pipe" where
  "range_pipe_filter p f = \<lparr>pp_items = pp_items p, pp_stages = stage_filter (pp_stages p) f, pp_exec = pp_exec p\<rparr>"

definition range_pipe_try_map :: "('m, 'p) index_pipe \<Rightarrow> ('m \<Rightarrow> ('p, 'e + 'o) outcome) \<Rightarrow> (nat, 'o, 'e, 'p) owned_try_pipe" where
  "range_pipe_try_map p f = \<lparr>pp_items = vec_of [fst (pp_items p)..<snd (pp_items p)], pp_stages = try_stage_try_map (infallible_chain (pp_stages p)) f, pp_exec = pp_exec p\<rparr>"

section \<open>What a chain computes\<close>

named_theorems chain_defs

lemmas [chain_defs] = pipe_new_def pipe_map_def pipe_filter_def pipe_ref_new_def pipe_ref_map_def pipe_ref_filter_def
  pipe_ref_with_filter_collect_def scoped_pipe_new_def scoped_pipe_map_def scoped_pipe_filter_def
  pipe_range_def range_pipe_map_def range_pipe_filter_def

text \<open>A chain of closures that return computes a partial function of the item.\<close>

definition computes :: "('a, 'o, 'p) fused_stage \<Rightarrow> ('a \<Rightarrow> 'o option) \<Rightarrow> bool" where
  "computes S h \<longleftrightarrow> stage_law S \<and> (\<forall>x. fs_apply S x = Returned (h x))"

lemma computes_identity: "computes stage_identity Some"
  by (simp add: computes_def stage_identity_def stage_law_identity [unfolded stage_identity_def])

lemma computes_map: "computes S h \<Longrightarrow> computes (stage_map S (\<lambda>x. Returned (f x))) (\<lambda>x. map_option f (h x))"
  unfolding computes_def by (intro conjI stage_law_map) (auto simp: stage_map_def split: option.splits)

lemma computes_filter:
  "computes S h \<Longrightarrow> computes (stage_filter S (\<lambda>x. Returned (q x))) (\<lambda>x. Option.bind (h x) (\<lambda>y. if q y then Some y else None))"
  unfolding computes_def by (intro conjI stage_law_filter) (auto simp: stage_filter_def Let_def split: option.splits)

lemma computes_gather: "computes S h \<Longrightarrow> gather (fs_apply S) xs = Returned (List.map_filter h xs)"
  by (induction xs) (auto simp: computes_def map_filter_simps split: option.splits)

lemma map_filter_chain:
  "List.map_filter (\<lambda>x. map_option g (Option.bind (Some (f x)) (\<lambda>y. if q y then Some y else None))) xs = map g (filter q (map f xs))"
  by (induction xs) (auto simp: map_filter_simps)

text \<open>
  A pipeline from end to end. On a machine with default tuning and no environment knobs,
  \<open>pipe_ref(xs).map(f).filter(q).map(g).collect()\<close> with closures that do not panic returns exactly
  the list comprehension it stands for, on every batch, whichever of the three filtering collects the
  mode names, whichever halves are stolen.
\<close>

theorem pipe_ref_chain_collects:
  fixes f :: "'a \<Rightarrow> 'b" and g :: "'b \<Rightarrow> 'c"
  assumes "p = pipe_ref_with_filter_collect (pipe_ref_map (pipe_ref_filter (pipe_ref_map (pipe_ref_new ncpus xs)
        (\<lambda>x. Returned (f x) :: ('p, _) outcome)) (\<lambda>y. Returned (q y))) (\<lambda>y. Returned (g y))) mode"
    and "plan_terminal senv (length xs) Balanced (exec_workers ncpus (exec_default ncpus)) = Inr tp"
    and "nt_store_enabled (re_nt env) (re_layout env) (length xs) = Inr nt"
  shows "\<exists>outp. pipe_ref_collect env senv None ncpus (pp_exec p) (pp_stages p) (pp_items p) = Inr (Returned (map g (filter q (map f xs))), outp) \<and>
     set outp \<subseteq> {None}"
proof -
  let ?x = "pp_exec p" and ?S = "pp_stages p"
  have S: "?S = stage_map (stage_filter (stage_map stage_identity (\<lambda>x. Returned (f x))) (\<lambda>y. Returned (q y))) (\<lambda>y. Returned (g y))"
    and items: "pp_items p = xs" unfolding assms(1) by (simp_all add: chain_defs)
  have h: "computes ?S (\<lambda>x. map_option g (Option.bind (map_option f (Some x)) (\<lambda>y. if q y then Some y else None)))"
    unfolding S by (intro computes_map computes_filter computes_identity)
  from h have c: "stage_law ?S" "gather (fs_apply ?S) xs = Returned (map g (filter q (map f xs)))"
    using computes_gather [OF h, of xs] map_filter_chain [of g f q xs] by (simp_all add: computes_def)
  have filters: "fs_may_filter ?S" unfolding S by (simp add: stage_map_def stage_filter_def Let_def)
  have exec: "cfg_workload (eo_config ?x) = Balanced" "exec_workers ncpus ?x = exec_workers ncpus (exec_default ncpus)"
    unfolding assms(1) by (simp_all add: chain_defs with_filter_collect_def exec_default_def config_default_def exec_workers_def exec_resolve_def)
  show ?thesis
    unfolding items c(2) [symmetric]
    by (rule pipe_ref_collect_gathers [OF c(1) _ _ _ assms(3)]) (use assms(2) filters in \<open>simp_all add: exec\<close>)
qed

theorem pipe_ref_chain_collects_witness:
  "\<exists>outp. pipe_ref_collect demo_env demo_senv None 2 (pp_exec (pipe_ref_with_filter_collect (pipe_ref_map (pipe_ref_filter (pipe_ref_map (pipe_ref_new 2 [1, 2, 3, 4 :: nat])
        (\<lambda>x. Returned (x + 1) :: (string, _) outcome)) (\<lambda>y. Returned (y \<noteq> 3))) (\<lambda>y. Returned (y * 10))) ModeCtp))
      (stage_map (stage_filter (stage_map stage_identity (\<lambda>x. Returned (x + 1) :: (string, _) outcome)) (\<lambda>y. Returned (y \<noteq> 3))) (\<lambda>y. Returned (y * 10)))
      [1, 2, 3, 4 :: nat] = Inr (Returned [20, 40, 50], outp) \<and> set outp \<subseteq> {None}"
proof -
  have "exec_workers 2 (exec_default 2) = 2"
    by (simp add: exec_workers_def exec_resolve_def exec_default_def config_default_def resolve_exec_pool_def pool_workers_def THREADS_MAX_def THREADS_BITS_def)
  then have "plan_terminal demo_senv (length [1, 2, 3, 4 :: nat]) Balanced (exec_workers 2 (exec_default 2)) = Inr (Parallel demo_plan)"
    using demo_planned by (simp add: demo_exec_def config_default_def eval_nat_numeral)
  moreover have "nt_store_enabled (re_nt demo_env) (re_layout demo_env) (length [1, 2, 3, 4 :: nat]) = Inr False"
    by (simp add: nt_store_enabled_def demo_env_def)
  ultimately show ?thesis
    using pipe_ref_chain_collects [OF refl, of demo_senv "[1, 2, 3, 4 :: nat]" 2 "Parallel demo_plan" demo_env False
      "\<lambda>x. x + 1" "\<lambda>y. y \<noteq> 3" "\<lambda>y. y * 10" ModeCtp, where 'p = string]
    by (simp add: chain_defs)
qed

end
