(* ===== verification/St3_Ring.thy ===== *)
theory St3_Ring
  imports Prelude "HOL-Library.Word"
begin

text \<open>
  The ring buffers of the work-stealing deque, \<^verbatim>\<open>crates/youpipe-st3\<close>: positions are 32-bit counters
  that wrap, a slot is found by masking a position, two counters are packed in one 64-bit word, and
  stolen items are moved between rings in contiguous chunks (\<^verbatim>\<open>lib.rs\<close>, \<^verbatim>\<open>transfer.rs\<close>). A slot holds a
  value or is uninitialised.
\<close>

unbundle bit_operations_syntax

section \<open>Positions\<close>

type_synonym pos = "32 word"

datatype steal_error = StealEmpty | StealBusy

definition pack :: "pos \<Rightarrow> pos \<Rightarrow> 64 word" where
  "pack value1 value2 = (push_bit 32 (ucast value1)) OR ucast value2"

definition unpack :: "64 word \<Rightarrow> pos \<times> pos" where
  "unpack v = (ucast (drop_bit 32 v), ucast v)"

lemma unpack_pack [simp]: "unpack (pack a b) = (a, b)"
  by (auto simp: unpack_def pack_def bit_eq_iff bit_simps dest: bit_imp_le_length)

lemma pack_unpack: "pack (fst (unpack v)) (snd (unpack v)) = v"
  by (auto simp: unpack_def pack_def bit_eq_iff bit_simps dest: bit_imp_le_length)

definition allocate_buffer :: "nat \<Rightarrow> 'a option list" where
  "allocate_buffer len = replicate len None"

section \<open>Slots\<close>

definition ring_index :: "pos \<Rightarrow> pos \<Rightarrow> nat" where
  "ring_index msk position = unat (position AND msk)"

text \<open>Reading moves the value out; the bound is the one the debug assertion states.\<close>

definition cell_read :: "'a option list \<Rightarrow> nat \<Rightarrow> ('a \<times> 'a option list) res" where
  "cell_read buf i =
     bind_res (index_res buf i) (\<lambda>c. case c of None \<Rightarrow> Inl UninitRead | Some v \<Rightarrow> Inr (v, buf[i := None]))"

definition cell_write :: "'a option list \<Rightarrow> nat \<Rightarrow> 'a \<Rightarrow> 'a option list res" where
  "cell_write buf i v = bind_res (index_res buf i) (\<lambda>_. Inr (buf[i := Some v]))"

definition read_at :: "'a option list \<Rightarrow> pos \<Rightarrow> pos \<Rightarrow> ('a \<times> 'a option list) res" where
  "read_at buf msk position = cell_read buf (ring_index msk position)"

definition write_at :: "'a option list \<Rightarrow> pos \<Rightarrow> pos \<Rightarrow> 'a \<Rightarrow> 'a option list res" where
  "write_at buf msk position item = cell_write buf (ring_index msk position) item"

section \<open>Bulk transfer\<close>

definition SMALL_CHUNK :: nat where
  "SMALL_CHUNK = 8"

fun move_run :: "nat \<Rightarrow> nat \<Rightarrow> nat \<Rightarrow> 'a option list \<times> 'a option list \<Rightarrow> ('a option list \<times> 'a option list) res" where
  "move_run s d 0 bufs = Inr bufs"
| "move_run s d (Suc k) (src, dst) =
     bind_res (cell_read src s) (\<lambda>(v, src').
     bind_res (cell_write dst d v) (\<lambda>dst'.
     move_run (s + 1) (d + 1) k (src', dst')))"

text \<open>A block copy reads all it moves before it writes.\<close>

fun read_run :: "nat \<Rightarrow> nat \<Rightarrow> 'a option list \<Rightarrow> ('a list \<times> 'a option list) res" where
  "read_run s 0 src = Inr ([], src)"
| "read_run s (Suc k) src =
     bind_res (cell_read src s) (\<lambda>(v, src'). bind_res (read_run (s + 1) k src') (\<lambda>(vs, src''). Inr (v # vs, src'')))"

fun write_run :: "nat \<Rightarrow> 'a list \<Rightarrow> 'a option list \<Rightarrow> 'a option list res" where
  "write_run d [] dst = Inr dst"
| "write_run d (v # vs) dst = bind_res (cell_write dst d v) (write_run (d + 1) vs)"

definition copy_nonoverlapping :: "nat \<Rightarrow> nat \<Rightarrow> nat \<Rightarrow> 'a option list \<times> 'a option list \<Rightarrow> ('a option list \<times> 'a option list) res" where
  "copy_nonoverlapping s d k bufs =
     bind_res (read_run s k (fst bufs)) (\<lambda>(vs, src). bind_res (write_run d vs (snd bufs)) (\<lambda>dst. Inr (src, dst)))"

fun move_chunks ::
    "nat \<Rightarrow> nat \<Rightarrow> nat \<Rightarrow> nat \<Rightarrow> (nat \<times> nat) list \<Rightarrow> 'a option list \<times> 'a option list \<Rightarrow> ('a option list \<times> 'a option list) res" where
  "move_chunks cap dcap si di [] bufs = Inr bufs"
| "move_chunks cap dcap si di ((start, stop) # cs) bufs =
     (let len = stop - start in
      if len = 0 then move_chunks cap dcap si di cs bufs
      else let s = (si + start) AND (cap - 1); d = (di + start) AND (dcap - 1) in
        bind_res (if len \<le> SMALL_CHUNK then move_run s d len bufs else copy_nonoverlapping s d len bufs)
          (move_chunks cap dcap si di cs))"

text \<open>
  The two rings are distinct here: a queue is not asked to steal from itself. The debug assertions
  that the capacities are powers of two are left out: the masks of well-formed queues are of that form.
\<close>

definition transfer_items ::
    "'a option list \<Rightarrow> pos \<Rightarrow> pos \<Rightarrow> 'a option list \<Rightarrow> pos \<Rightarrow> pos \<Rightarrow> pos \<Rightarrow> ('a option list \<times> 'a option list) res" where
  "transfer_items src_buffer src_mask src_pos dst_buffer dst_mask dst_pos cnt =
     (let cap = unat src_mask + 1; dcap = unat dst_mask + 1;
          src_idx = ring_index src_mask src_pos; dst_idx = ring_index dst_mask dst_pos; n = unat cnt in
      if cap \<noteq> length src_buffer \<or> dcap \<noteq> length dst_buffer then Inl ExplicitPanic
      else if n \<le> 1 then (if n = 1 then move_run src_idx dst_idx 1 (src_buffer, dst_buffer) else Inr (src_buffer, dst_buffer))
      else let s = min (cap - src_idx) n; d = min (dcap - dst_idx) n;
               (lo, hi) = (if s \<le> d then (s, d) else (d, s)) in
        move_chunks cap dcap src_idx dst_idx [(0, lo), (lo, hi), (hi, n)] (src_buffer, dst_buffer))"

section \<open>The ring seen from a position\<close>

definition ring_ok :: "'a option list \<Rightarrow> pos \<Rightarrow> bool" where
  "ring_ok buf msk \<longleftrightarrow> (\<exists>k \<le> 31. length buf = 2 ^ k \<and> msk = mask k)"

definition view :: "'a option list \<Rightarrow> pos \<Rightarrow> 'a option list" where
  "view buf p = rotate (unat p) buf"

lemma length_view [simp]: "length (view buf p) = length buf"
  by (simp add: view_def)

lemma ring_ok_facts:
  assumes "ring_ok buf msk"
  shows "ring_index msk p = unat p mod length buf" and "0 < length buf" and "length buf \<le> 2 ^ 31"
    and "unat msk + 1 = length buf" and "length buf dvd 2 ^ 32" and "\<exists>k. length buf = 2 ^ k"
proof -
  from assms obtain k where k: "k \<le> 31" "length buf = 2 ^ k" "msk = mask k" by (auto simp: ring_ok_def)
  have "ring_index msk p = unat (take_bit k p)" by (simp add: ring_index_def k(3) take_bit_eq_mask)
  also have "\<dots> = take_bit k (unat p)" by (rule unsigned_take_bit_eq)
  finally show "ring_index msk p = unat p mod length buf" by (simp add: k(2) take_bit_eq_mod)
  show "0 < length buf" "\<exists>k. length buf = 2 ^ k" using k(2) by auto
  show "length buf \<le> 2 ^ 31" using k(1) unfolding k(2) by (rule power_increasing) simp
  show "length buf dvd 2 ^ 32" using k(1) unfolding k(2) by (intro le_imp_power_dvd) simp
  have "(2 :: nat) ^ k \<le> 2 ^ 31" using k(1) by (rule power_increasing) simp
  moreover have "msk = of_nat (mask k)" unfolding k(3) by (rule of_nat_mask_eq [symmetric])
  then have "unat msk = mask k mod 2 ^ 32" by (simp only: unat_of_nat) simp
  ultimately have "unat msk = 2 ^ k - 1" by (simp add: mask_eq_exp_minus_1)
  then show "unat msk + 1 = length buf" using k(2) by simp
qed

lemma unat_plus_mod:
  assumes "c dvd 2 ^ 32"
  shows "unat (p + of_nat i :: pos) mod c = (unat p + i) mod c"
proof -
  have "unat (p + of_nat i) = (unat p + i mod 2 ^ 32) mod 2 ^ 32" by (simp add: unat_word_ariths unat_of_nat)
  then have "unat (p + of_nat i) = (unat p + i) mod 2 ^ 32" by (simp add: mod_add_right_eq)
  with mod_mod_cancel [OF assms, of "unat p + i"] show ?thesis by simp
qed

lemma view_nth: "i < length buf \<Longrightarrow> view buf p ! i = buf ! ((unat p + i) mod length buf)"
  by (simp add: view_def nth_rotate)

lemma mod_shift:
  assumes "j < l"
  shows "(m + j) mod l = (if m mod l + j < l then m mod l + j else m mod l + j - (l :: nat))"
proof -
  have "(m + j) mod l = (m mod l + j) mod l" by (simp add: mod_add_left_eq)
  moreover have m: "m mod l < l" using assms by simp
  moreover have "m mod l + j - l < l" using assms m by linarith
  ultimately show ?thesis by (simp add: le_mod_geq)
qed

lemma rotate_update:
  assumes "i < length xs"
  shows "rotate m (xs[(m + i) mod length xs := v]) = (rotate m xs)[i := v]"
proof (rule nth_equalityI)
  fix j assume "j < length (rotate m (xs[(m + i) mod length xs := v]))"
  then have j: "j < length xs" by simp
  have "(m + j) mod length xs = (m + i) mod length xs \<longleftrightarrow> j = i"
    unfolding mod_shift [OF j] mod_shift [OF assms] using assms j by (auto split: if_splits)
  then show "rotate m (xs[(m + i) mod length xs := v]) ! j = (rotate m xs)[i := v] ! j"
    using assms j mod_less_divisor [of "length xs" "m + i", OF le_less_trans [OF le0 assms]] by (auto simp: nth_rotate nth_list_update)
qed simp

lemma view_update: "i < length buf \<Longrightarrow> view (buf[(unat p + i) mod length buf := v]) p = (view buf p)[i := v]"
  by (simp add: view_def rotate_update)

lemma view_shift:
  assumes "length buf dvd 2 ^ 32"
  shows "view buf (p + of_nat c) = rotate c (view buf p)"
  unfolding view_def rotate_rotate
  by (metis add.commute assms rotate_conv_mod unat_plus_mod)

text \<open>Moving the reference position past empty slots moves them to the other end.\<close>

lemma view_skip:
  assumes "length buf dvd 2 ^ 32" and "view buf p = xs @ ys"
  shows "view buf (p + of_nat (length xs)) = ys @ xs"
  using assms by (simp add: view_shift rotate_append)

lemma view_cell:
  assumes "view buf p = pre @ c # suf"
  shows "(unat p + length pre) mod length buf < length buf" and "buf ! ((unat p + length pre) mod length buf) = c"
    and "view (buf[(unat p + length pre) mod length buf := v]) p = pre @ v # suf"
proof -
  have len: "length buf = length pre + Suc (length suf)" using arg_cong [OF assms, of length] by simp
  then have i: "length pre < length buf" by simp
  show "(unat p + length pre) mod length buf < length buf" using i by (intro mod_less_divisor) linarith
  show "buf ! ((unat p + length pre) mod length buf) = c" using view_nth [OF i, of p] assms by simp
  show "view (buf[(unat p + length pre) mod length buf := v]) p = pre @ v # suf" using view_update [OF i, of p v] assms by simp
qed

lemma ring_index_plus:
  assumes "ring_ok buf msk"
  shows "ring_index msk (p + of_nat i) = (unat p + i) mod length buf"
  using ring_ok_facts(1) [OF assms, of "p + of_nat i"] unat_plus_mod [OF ring_ok_facts(5) [OF assms], of p i] by simp

lemma read_at_view:
  assumes "ring_ok buf msk" and "view buf p = pre @ Some v # suf"
  obtains buf' where "read_at buf msk (p + of_nat (length pre)) = Inr (v, buf')" "view buf' p = pre @ None # suf" "length buf' = length buf"
  using view_cell [OF assms(2)] ring_index_plus [OF assms(1), of p "length pre"]
  by (intro that [of "buf[(unat p + length pre) mod length buf := None]"]) (simp_all add: read_at_def cell_read_def)

lemma write_at_view:
  assumes "ring_ok buf msk" and "view buf p = pre @ c # suf"
  obtains buf' where "write_at buf msk (p + of_nat (length pre)) v = Inr buf'" "view buf' p = pre @ Some v # suf" "length buf' = length buf"
  using view_cell [OF assms(2)] ring_index_plus [OF assms(1), of p "length pre"]
  by (intro that [of "buf[(unat p + length pre) mod length buf := Some v]"]) (simp_all add: write_at_def cell_write_def)

lemma ring_ok_length: "ring_ok buf msk \<Longrightarrow> length buf' = length buf \<Longrightarrow> ring_ok buf' msk"
  by (simp add: ring_ok_def)

section \<open>The transfer moves the items\<close>

lemma copy_is_move:
  assumes "s + k \<le> length src" and "d + k \<le> length dst"
  shows "copy_nonoverlapping s d k (src, dst) = move_run s d k (src, dst)"
  using assms
proof (induction k arbitrary: s d src dst)
  case (Suc k)
  show ?case
  proof (cases "src ! s")
    case None
    with Suc.prems show ?thesis by (simp add: copy_nonoverlapping_def cell_read_def)
  next
    case (Some v)
    with Suc.IH [of "Suc s" "src[s := None]" "Suc d" "dst[d := Some v]"] Suc.prems show ?thesis
      by (auto simp: copy_nonoverlapping_def cell_read_def cell_write_def bind_res_def split: sum.splits)
  qed
qed (simp add: copy_nonoverlapping_def)

text \<open>A run inside both rings moves a block of the two views.\<close>

lemma move_run_views:
  assumes "view src p = xs @ map Some vs @ xs'" and "view dst q = ys @ map (\<lambda>_. None) vs @ ys'"
    and "(unat p + length xs) mod length src + length vs \<le> length src"
    and "(unat q + length ys) mod length dst + length vs \<le> length dst"
  shows "\<exists>src' dst'. move_run ((unat p + length xs) mod length src) ((unat q + length ys) mod length dst) (length vs) (src, dst) = Inr (src', dst') \<and>
     view src' p = xs @ map (\<lambda>_. None) vs @ xs' \<and> view dst' q = ys @ map Some vs @ ys' \<and> length src' = length src \<and> length dst' = length dst"
  using assms
proof (induction vs arbitrary: xs ys src dst)
  case (Cons v vs)
  let ?s = "(unat p + length xs) mod length src" and ?d = "(unat q + length ys) mod length dst"
  let ?src = "src[?s := None]" and ?dst = "dst[?d := Some v]"
  have src: "view src p = xs @ Some v # map Some vs @ xs'" and dst: "view dst q = ys @ None # map (\<lambda>_. None) vs @ ys'" using Cons.prems by simp_all
  note s = view_cell [OF src] and d = view_cell [OF dst]
  have step: "move_run ?s ?d (length (v # vs)) (src, dst) = move_run (Suc ?s) (Suc ?d) (length vs) (?src, ?dst)"
    using s(1,2) d(1) by (simp add: cell_read_def cell_write_def)
  show ?case
  proof (cases vs)
    case Nil
    with step s(3) [of None] d(3) [of "Some v"] show ?thesis by simp
  next
    case (Cons w ws)
    have ss: "Suc ?s = (unat p + length (xs @ [None])) mod length ?src" and dd: "Suc ?d = (unat q + length (ys @ [Some v])) mod length ?dst"
      using Cons.prems(3,4) Cons by (simp_all add: mod_Suc)
    have "\<exists>src' dst'. move_run (Suc ?s) (Suc ?d) (length vs) (?src, ?dst) = Inr (src', dst') \<and>
       view src' p = (xs @ [None]) @ map (\<lambda>_. None) vs @ xs' \<and> view dst' q = (ys @ [Some v]) @ map Some vs @ ys' \<and>
       length src' = length ?src \<and> length dst' = length ?dst"
      unfolding ss dd
      by (rule Cons.IH) (use s(3) [of None] d(3) [of "Some v"] Cons.prems(3,4) ss dd in simp_all)
    then show ?thesis unfolding step by simp
  qed
qed simp

text \<open>A chunk that does not straddle the wrap point of a ring is contiguous in it.\<close>

lemma chunk_contiguous:
  assumes "si < cap" and "x < y" and "y \<le> n" and "n \<le> cap" and "y \<le> min (cap - si) n \<or> min (cap - si) n \<le> x"
  shows "(si + x) mod cap + (y - x) \<le> (cap :: nat)"
proof (cases "si + x < cap")
  case True
  with assms show ?thesis by auto
next
  case False
  then have "(si + x) mod cap = si + x - cap" using assms by (simp add: le_mod_geq)
  with assms False show ?thesis by linarith
qed

fun chained :: "nat \<Rightarrow> nat \<Rightarrow> (nat \<times> nat) list \<Rightarrow> bool" where
  "chained a n [] = (a = n)"
| "chained a n ((x, y) # cs) = (x = a \<and> a \<le> y \<and> y \<le> n \<and> chained y n cs)"

lemma and_mod: "(x :: nat) AND (2 ^ k - 1) = x mod 2 ^ k"
  by (simp flip: take_bit_eq_mod add: take_bit_eq_mask mask_eq_exp_minus_1)

lemma view_length: "view buf p = xs \<Longrightarrow> length buf = length xs"
  by (metis length_view)

lemma move_chunks_views:
  assumes "ring_ok src smsk" and "ring_ok dst dmsk" and "chained a (length vs) cs"
    and "view src p = map (\<lambda>_. None) (take a vs) @ map Some (drop a vs) @ xs'"
    and "view dst q = map Some (take a vs) @ map (\<lambda>_. None) (drop a vs) @ ys'"
    and "\<forall>(x, y) \<in> set cs. (y \<le> min (length src - unat p mod length src) (length vs) \<or> min (length src - unat p mod length src) (length vs) \<le> x) \<and>
          (y \<le> min (length dst - unat q mod length dst) (length vs) \<or> min (length dst - unat q mod length dst) (length vs) \<le> x)"
  shows "\<exists>src' dst'. move_chunks (length src) (length dst) (unat p mod length src) (unat q mod length dst) cs (src, dst) = Inr (src', dst') \<and>
     view src' p = map (\<lambda>_. None) vs @ xs' \<and> view dst' q = map Some vs @ ys' \<and> length src' = length src \<and> length dst' = length dst"
  using assms
proof (induction cs arbitrary: a src dst)
  case (Cons c cs)
  obtain y where c: "c = (a, y)" and y: "a \<le> y" "y \<le> length vs" "chained y (length vs) cs" using Cons.prems(3) by (cases c) auto
  let ?s = "unat p mod length src" and ?d = "unat q mod length dst"
  show ?case
  proof (cases "a = y")
    case True
    with Cons.IH [of src dst y] Cons.prems c y show ?thesis by simp
  next
    case False
    define ws where "ws = take (y - a) (drop a vs)"
    have ws: "length ws = y - a" "drop a vs = ws @ drop y vs" "take y vs = take a vs @ ws"
      using y append_take_drop_id [of "y - a" "drop a vs"] take_add [of a "y - a" vs] by (simp_all add: ws_def)
    from Cons.prems(4,5) have views: "view src p = map (\<lambda>_. None) (take a vs) @ map Some ws @ (map Some (drop y vs) @ xs')"
        "view dst q = map Some (take a vs) @ map (\<lambda>_. None) ws @ (map (\<lambda>_. None) (drop y vs) @ ys')" unfolding ws(2) by simp_all
    have len: "length src = length vs + length xs'" "length dst = length vs + length ys'"
      using view_length [OF Cons.prems(4)] view_length [OF Cons.prems(5)] y by simp_all
    have at: "length (map (\<lambda>_. None) (take a vs)) = a" "length (map Some (take a vs)) = a" using y by simp_all
    have pos: "0 < length src" "0 < length dst" using ring_ok_facts(2) Cons.prems(1,2) by blast+
    have "(?s + a) mod length src + (y - a) \<le> length src" "(?d + a) mod length dst + (y - a) \<le> length dst"
      by (rule chunk_contiguous [where n = "length vs"]; use Cons.prems(6) c False y len pos in simp)+
    then have fits: "(unat p + a) mod length src + length ws \<le> length src" "(unat q + a) mod length dst + length ws \<le> length dst"
      unfolding ws(1) by (simp_all add: mod_add_left_eq)
    obtain k l where kl: "length src = 2 ^ k" "length dst = 2 ^ l" using ring_ok_facts(6) Cons.prems(1,2) by blast
    have idx: "(?s + a) AND (length src - 1) = (unat p + a) mod length src" "(?d + a) AND (length dst - 1) = (unat q + a) mod length dst"
      unfolding kl and_mod by (simp_all add: mod_add_left_eq)
    from move_run_views [OF views, unfolded at, OF fits] obtain src' dst' where
      run: "move_run ((unat p + a) mod length src) ((unat q + a) mod length dst) (y - a) (src, dst) = Inr (src', dst')"
        "view src' p = map (\<lambda>_. None) (take a vs) @ map (\<lambda>_. None) ws @ map Some (drop y vs) @ xs'"
        "view dst' q = map Some (take a vs) @ map Some ws @ map (\<lambda>_. None) (drop y vs) @ ys'"
        "length src' = length src" "length dst' = length dst"
      unfolding ws(1) by blast
    have chunk: "(if y - a \<le> SMALL_CHUNK then move_run ((unat p + a) mod length src) ((unat q + a) mod length dst) (y - a) (src, dst)
        else copy_nonoverlapping ((unat p + a) mod length src) ((unat q + a) mod length dst) (y - a) (src, dst)) = Inr (src', dst')"
      using run(1) copy_is_move [OF fits [unfolded ws(1)]] by simp
    have "\<exists>src'' dst''. move_chunks (length src') (length dst') (unat p mod length src') (unat q mod length dst') cs (src', dst') = Inr (src'', dst'') \<and>
        view src'' p = map (\<lambda>_. None) vs @ xs' \<and> view dst'' q = map Some vs @ ys' \<and> length src'' = length src' \<and> length dst'' = length dst'"
      by (rule Cons.IH [OF ring_ok_length [OF Cons.prems(1)] ring_ok_length [OF Cons.prems(2)] y(3)])
        (use run Cons.prems(6) ws(3) in simp_all)
    with chunk idx False y run(4,5) show ?thesis unfolding c by (simp add: Let_def)
  qed
qed simp

lemma transfer_items_views:
  assumes ok: "ring_ok src smsk" "ring_ok dst dmsk"
    and views: "view src p = map Some vs @ xs'" "view dst q = map (\<lambda>_. None) vs @ ys'" and n: "unat cnt = length vs"
  shows "\<exists>src' dst'. transfer_items src smsk p dst dmsk q cnt = Inr (src', dst') \<and>
     view src' p = map (\<lambda>_. None) vs @ xs' \<and> view dst' q = map Some vs @ ys' \<and> length src' = length src \<and> length dst' = length dst"
proof -
  note src = ring_ok_facts [OF ok(1)] and dst = ring_ok_facts [OF ok(2)]
  show ?thesis
  proof (cases "length vs \<le> 1")
    case True
    then consider "vs = []" | v where "vs = [v]" by (cases vs) auto
    then show ?thesis
    proof cases
      case 1
      with n views src(1,4) dst(1,4) show ?thesis by (simp add: transfer_items_def Let_def)
    next
      case 2
      have "unat p mod length src + length vs \<le> length src" "unat q mod length dst + length vs \<le> length dst"
        using src(2) dst(2) 2 by (simp_all add: Suc_leI)
      with move_run_views [of src p "[]" vs xs' dst q "[]" ys'] views n 2 src(1,4) dst(1,4) show ?thesis
        by (simp add: transfer_items_def Let_def)
    qed
  next
    case False
    define s d where "s = min (length src - unat p mod length src) (length vs)" and "d = min (length dst - unat q mod length dst) (length vs)"
    then have sd: "s \<le> length vs" "d \<le> length vs" by simp_all
    define lo hi where "lo = min s d" and "hi = max s d"
    have eq: "transfer_items src smsk p dst dmsk q cnt =
        move_chunks (length src) (length dst) (unat p mod length src) (unat q mod length dst) [(0, lo), (lo, hi), (hi, length vs)] (src, dst)"
      using False n src(1,4) dst(1,4) by (auto simp: transfer_items_def Let_def s_def d_def lo_def hi_def min_def max_def)
    have ch: "chained 0 (length vs) [(0, lo), (lo, hi), (hi, length vs)]"
      using sd by (simp add: lo_def hi_def min_def max_def)
    have cut: "\<forall>(x, y) \<in> set [(0, lo), (lo, hi), (hi, length vs)]. (y \<le> s \<or> s \<le> x) \<and> (y \<le> d \<or> d \<le> x)"
      by (auto simp: lo_def hi_def)
    show ?thesis unfolding eq
      by (rule move_chunks_views [OF ok ch _ _ cut [unfolded s_def d_def]]) (simp_all add: views)
  qed
qed

end
