(* ===== verification/St3_Lifo.thy ===== *)
theory St3_Lifo
  imports St3_Ring
begin

text \<open>
  The bounded work-stealing deque of the scheduler, \<^verbatim>\<open>crates/youpipe-st3/src/lifo.rs\<close>, operation by
  operation: the owner pushes and pops at the tail, thieves book a block at the head, move it out and
  then release its slots. How often a weak compare-and-swap fails for no reason is an argument.
\<close>

section \<open>State\<close>

record 'a lifo_queue =
  lq_push_count :: pos
  lq_pop_count_and_head :: "64 word"
  lq_head :: pos
  lq_buffer :: "'a option list"
  lq_mask :: pos

abbreviation lq_pop_count :: "'a lifo_queue \<Rightarrow> pos" where
  "lq_pop_count q \<equiv> fst (unpack (lq_pop_count_and_head q))"

abbreviation lq_booked :: "'a lifo_queue \<Rightarrow> pos" where
  "lq_booked q \<equiv> snd (unpack (lq_pop_count_and_head q))"

abbreviation lq_tail :: "'a lifo_queue \<Rightarrow> pos" where
  "lq_tail q \<equiv> lq_push_count q - lq_pop_count q"

definition MAX_CAPACITY :: nat where
  "MAX_CAPACITY = 2 ^ (32 - 1)"

definition lifo_new :: "nat \<Rightarrow> 'a lifo_queue res" where
  "lifo_new min_capacity =
     (if min_capacity \<le> MAX_CAPACITY then
        bind_res (npot_res min_capacity) (\<lambda>capacity.
        Inr \<lparr>lq_push_count = 0, lq_pop_count_and_head = 0, lq_head = 0,
             lq_buffer = allocate_buffer capacity, lq_mask = of_nat capacity - 1\<rparr>)
      else Inl ExplicitPanic)"

definition lifo_capacity :: "'a lifo_queue \<Rightarrow> pos" where
  "lifo_capacity q = lq_mask q + 1"

definition is_likely_empty :: "'a lifo_queue \<Rightarrow> bool" where
  "is_likely_empty q \<longleftrightarrow> lq_push_count q - lq_pop_count q = lq_booked q"

definition lifo_is_empty :: "'a lifo_queue \<Rightarrow> bool" where
  "lifo_is_empty q \<longleftrightarrow> lq_tail q = lq_booked q"

section \<open>The owner\<close>

text \<open>A full queue hands the item back.\<close>

definition lifo_push :: "'a lifo_queue \<Rightarrow> 'a \<Rightarrow> (('a + unit) \<times> 'a lifo_queue) res" where
  "lifo_push q item =
     (let tail = lq_tail q; head = lq_head q in
      if lq_mask q < tail - head then Inr (Inl item, q)
      else bind_res (write_at (lq_buffer q) (lq_mask q) tail item) (\<lambda>buf.
           Inr (Inr (), q\<lparr>lq_buffer := buf, lq_push_count := lq_push_count q + 1\<rparr>)))"

fun extend_loop :: "pos \<Rightarrow> 'a list \<Rightarrow> pos \<Rightarrow> 'a lifo_queue \<Rightarrow> (pos \<times> 'a list \<times> 'a lifo_queue) res" where
  "extend_loop max_tail [] tail q = Inr (tail, [], q)"
| "extend_loop max_tail (item # items) tail q =
     (if tail = max_tail then Inr (tail, item # items, q)
      else bind_res (write_at (lq_buffer q) (lq_mask q) tail item) (\<lambda>buf.
           extend_loop max_tail items (tail + 1) (q\<lparr>lq_buffer := buf\<rparr>)))"

text \<open>What does not fit is not stored; it comes back with the queue.\<close>

definition lifo_extend :: "'a lifo_queue \<Rightarrow> 'a list \<Rightarrow> ('a list \<times> 'a lifo_queue) res" where
  "lifo_extend q items =
     bind_res (extend_loop (lq_head q + lifo_capacity q) items (lq_tail q) q) (\<lambda>(tail, rest, q').
     Inr (rest, q'\<lparr>lq_push_count := tail + lq_pop_count q\<rparr>))"

fun pop_loop :: "nat \<Rightarrow> pos \<Rightarrow> pos \<Rightarrow> 'a lifo_queue \<Rightarrow> ('a option \<times> 'a lifo_queue) res" where
  "pop_loop spurious tail new_pop_count q =
     (let head = lq_booked q in
      if tail = head then Inr (None, q)
      else case spurious of
        Suc k \<Rightarrow> pop_loop k tail new_pop_count q
      | 0 \<Rightarrow>
          bind_res (read_at (lq_buffer q) (lq_mask q) (tail - 1)) (\<lambda>(item, buf).
          Inr (Some item, q\<lparr>lq_pop_count_and_head := pack new_pop_count head, lq_buffer := buf\<rparr>)))"

definition lifo_pop :: "nat \<Rightarrow> 'a lifo_queue \<Rightarrow> ('a option \<times> 'a lifo_queue) res" where
  "lifo_pop spurious q = pop_loop spurious (lq_tail q) (lq_pop_count q + 1) q"

section \<open>Booking\<close>

text \<open>
  The closure that chooses how many items to take may answer differently each time it is called; it
  gets the number of the attempt.
\<close>

type_synonym count_fn = "nat \<Rightarrow> nat \<Rightarrow> nat"

fun book_loop :: "count_fn \<Rightarrow> pos \<Rightarrow> nat \<Rightarrow> nat \<Rightarrow> 'a lifo_queue \<Rightarrow> (steal_error + pos \<times> pos \<times> pos) \<times> 'a lifo_queue" where
  "book_loop count_fn max_count attempt spurious q =
     (let pop_count = lq_pop_count q; head = lq_booked q in
      if lq_head q \<noteq> head then (Inl StealBusy, q)
      else let tail = lq_push_count q - pop_count; item_count = tail - head in
        if item_count = 0 then (Inl StealEmpty, q)
        else let cnt = min (of_nat (min (count_fn attempt (unat item_count)) (unat max_count))) item_count in
          if cnt = 0 then (Inl StealEmpty, q)
          else case spurious of
            Suc k \<Rightarrow> book_loop count_fn max_count (attempt + 1) k q
          | 0 \<Rightarrow> (Inr (head, head + cnt, cnt), q\<lparr>lq_pop_count_and_head := pack pop_count (head + cnt)\<rparr>))"

definition book_items :: "count_fn \<Rightarrow> pos \<Rightarrow> nat \<Rightarrow> 'a lifo_queue \<Rightarrow> (steal_error + pos \<times> pos \<times> pos) \<times> 'a lifo_queue" where
  "book_items count_fn max_count spurious q = book_loop count_fn max_count 0 spurious q"

declare pop_loop.simps [simp del] book_loop.simps [simp del]

section \<open>Draining\<close>

record lifo_drain =
  dr_current :: pos
  dr_end :: pos

definition lifo_drain_start :: "count_fn \<Rightarrow> nat \<Rightarrow> 'a lifo_queue \<Rightarrow> (steal_error + lifo_drain) \<times> 'a lifo_queue" where
  "lifo_drain_start count_fn spurious q =
     (case book_items count_fn (- 1) spurious q of
        (Inl e, q') \<Rightarrow> (Inl e, q')
      | (Inr (old_head, new_head, _), q') \<Rightarrow> (Inr \<lparr>dr_current = old_head, dr_end = new_head\<rparr>, q'))"

definition drain_next :: "lifo_drain \<Rightarrow> 'a lifo_queue \<Rightarrow> ('a option \<times> lifo_drain \<times> 'a lifo_queue) res" where
  "drain_next d q =
     (if dr_current d = dr_end d then Inr (None, d, q)
      else bind_res (read_at (lq_buffer q) (lq_mask q) (dr_current d)) (\<lambda>(item, buf).
        let current = dr_current d + 1; q' = q\<lparr>lq_buffer := buf\<rparr> in
        Inr (Some item, d\<lparr>dr_current := current\<rparr>,
             if current = dr_end d then q'\<lparr>lq_head := dr_end d\<rparr> else q')))"

definition drain_size_hint :: "lifo_drain \<Rightarrow> nat" where
  "drain_size_hint d = unat (dr_end d - dr_current d)"

text \<open>Dropping the iterator runs it to its end; there are as many rounds as items left.\<close>

fun drain_rest :: "nat \<Rightarrow> lifo_drain \<Rightarrow> 'a lifo_queue \<Rightarrow> ('a list \<times> 'a lifo_queue) res" where
  "drain_rest 0 d q = Inr ([], q)"
| "drain_rest (Suc k) d q =
     bind_res (drain_next d q) (\<lambda>(item, d', q'). case item of
        None \<Rightarrow> Inr ([], q')
      | Some v \<Rightarrow> bind_res (drain_rest k d' q') (\<lambda>(vs, q''). Inr (v # vs, q'')))"

definition drain_drop :: "lifo_drain \<Rightarrow> 'a lifo_queue \<Rightarrow> ('a list \<times> 'a lifo_queue) res" where
  "drain_drop d q = drain_rest (drain_size_hint d) d q"

section \<open>Thieves\<close>

definition dest_free_capacity :: "'a lifo_queue \<Rightarrow> pos res" where
  "dest_free_capacity dest =
     (let len = lq_tail dest - lq_head dest in
      if lifo_capacity dest < len then Inl ArithOverflow else Inr (lifo_capacity dest - len))"

definition lifo_spare_capacity :: "'a lifo_queue \<Rightarrow> nat res" where
  "lifo_spare_capacity q = bind_res (dest_free_capacity q) (\<lambda>free. Inr (unat free))"

definition lifo_steal :: "count_fn \<Rightarrow> nat \<Rightarrow> 'a lifo_queue \<Rightarrow> 'a lifo_queue \<Rightarrow> ((steal_error + nat) \<times> 'a lifo_queue \<times> 'a lifo_queue) res" where
  "lifo_steal count_fn spurious q dest =
     (if is_likely_empty q then Inr (Inl StealEmpty, q, dest)
      else bind_res (dest_free_capacity dest) (\<lambda>free.
        case book_items count_fn free spurious q of
          (Inl e, q') \<Rightarrow> Inr (Inl e, q', dest)
        | (Inr (old_head, new_head, transfer_count), q') \<Rightarrow>
            if free < transfer_count then Inl ExplicitPanic
            else bind_res (transfer_items (lq_buffer q') (lq_mask q') old_head (lq_buffer dest) (lq_mask dest) (lq_tail dest) transfer_count) (\<lambda>(src, dst).
              Inr (Inr (unat transfer_count), q'\<lparr>lq_buffer := src, lq_head := new_head\<rparr>,
                   dest\<lparr>lq_buffer := dst, lq_push_count := lq_push_count dest + transfer_count\<rparr>))))"

definition lifo_steal_and_pop ::
    "count_fn \<Rightarrow> nat \<Rightarrow> 'a lifo_queue \<Rightarrow> 'a lifo_queue \<Rightarrow> ((steal_error + 'a \<times> nat) \<times> 'a lifo_queue \<times> 'a lifo_queue) res" where
  "lifo_steal_and_pop count_fn spurious q dest =
     (if is_likely_empty q then Inr (Inl StealEmpty, q, dest)
      else bind_res (dest_free_capacity dest) (\<lambda>free.
        case book_items count_fn (free + 1) spurious q of
          (Inl e, q') \<Rightarrow> Inr (Inl e, q', dest)
        | (Inr (old_head, new_head, cnt), q') \<Rightarrow>
            let transfer_count = cnt - 1 in
            if free < transfer_count then Inl ExplicitPanic
            else bind_res (transfer_items (lq_buffer q') (lq_mask q') old_head (lq_buffer dest) (lq_mask dest) (lq_tail dest) transfer_count) (\<lambda>(src, dst).
              bind_res (read_at src (lq_mask q') (old_head + transfer_count)) (\<lambda>(last_item, src').
              Inr (Inr (last_item, unat transfer_count), q'\<lparr>lq_buffer := src', lq_head := new_head\<rparr>,
                   dest\<lparr>lq_buffer := dst, lq_push_count := lq_push_count dest + transfer_count\<rparr>)))))"

text \<open>A drain that is dropped at once yields everything it booked.\<close>

definition lifo_drain_all :: "count_fn \<Rightarrow> nat \<Rightarrow> 'a lifo_queue \<Rightarrow> ((steal_error + 'a list) \<times> 'a lifo_queue) res" where
  "lifo_drain_all count_fn spurious q =
     (case lifo_drain_start count_fn spurious q of
        (Inl e, q') \<Rightarrow> Inr (Inl e, q')
      | (Inr d, q') \<Rightarrow> bind_res (drain_drop d q') (\<lambda>(vs, q''). Inr (Inr vs, q'')))"

text \<open>Freeing a queue drops what is between its head and its tail.\<close>

fun drop_loop :: "pos \<Rightarrow> pos \<Rightarrow> nat \<Rightarrow> 'a option list \<Rightarrow> 'a option list res" where
  "drop_loop msk p 0 buf = Inr buf"
| "drop_loop msk p (Suc k) buf = bind_res (read_at buf msk p) (\<lambda>(_, buf'). drop_loop msk (p + 1) k buf')"

definition lifo_drop :: "'a lifo_queue \<Rightarrow> 'a option list res" where
  "lifo_drop q = drop_loop (lq_mask q) (lq_head q) (unat (lq_tail q - lq_head q)) (lq_buffer q)"

section \<open>The invariant\<close>

text \<open>
  Seen from the head: the booked slots a thief has already emptied, the booked items it has not moved
  yet, the items anyone may take, and the free slots. The counters are these lengths, modulo their width.
\<close>

definition lifo_inv :: "'a lifo_queue \<Rightarrow> nat \<Rightarrow> 'a list \<Rightarrow> 'a list \<Rightarrow> bool" where
  "lifo_inv q m bs xs \<longleftrightarrow> ring_ok (lq_buffer q) (lq_mask q) \<and>
     (\<exists>free. view (lq_buffer q) (lq_head q) = replicate m None @ map Some bs @ map Some xs @ replicate free None) \<and>
     lq_booked q = lq_head q + of_nat (m + length bs) \<and> lq_tail q = lq_booked q + of_nat (length xs)"

abbreviation room :: "'a lifo_queue \<Rightarrow> nat" where
  "room q \<equiv> length (lq_buffer q)"

lemma lifo_inv_facts:
  assumes "lifo_inv q m bs xs"
  shows "ring_ok (lq_buffer q) (lq_mask q)" and "lq_booked q = lq_head q + of_nat (m + length bs)"
    and "lq_tail q = lq_booked q + of_nat (length xs)" and "lq_tail q = lq_head q + of_nat (m + length bs + length xs)"
    and "view (lq_buffer q) (lq_head q) = replicate m None @ map Some bs @ map Some xs @ replicate (room q - (m + length bs + length xs)) None"
    and "m + length bs + length xs \<le> room q" and "room q \<le> 2 ^ 31"
proof -
  from assms obtain free where v: "view (lq_buffer q) (lq_head q) = replicate m None @ map Some bs @ map Some xs @ replicate free None"
    and c: "ring_ok (lq_buffer q) (lq_mask q)" "lq_booked q = lq_head q + of_nat (m + length bs)" "lq_tail q = lq_booked q + of_nat (length xs)"
    unfolding lifo_inv_def by blast
  show "ring_ok (lq_buffer q) (lq_mask q)" "lq_booked q = lq_head q + of_nat (m + length bs)" "lq_tail q = lq_booked q + of_nat (length xs)" by fact+
  show "lq_tail q = lq_head q + of_nat (m + length bs + length xs)" unfolding c(3) c(2) by simp
  from view_length [OF v] have len: "room q = m + length bs + length xs + free" by simp
  with v show "view (lq_buffer q) (lq_head q) = replicate m None @ map Some bs @ map Some xs @ replicate (room q - (m + length bs + length xs)) None" by simp
  show "m + length bs + length xs \<le> room q" using len by simp
  show "room q \<le> 2 ^ 31" using ring_ok_facts(3) [OF c(1)] .
qed

lemma unat_small: "n \<le> 2 ^ 31 \<Longrightarrow> unat (of_nat n :: pos) = n"
  by (simp add: unat_of_nat)

lemma lifo_inv_counts:
  assumes "lifo_inv q m bs xs"
  shows "unat (lq_tail q - lq_head q) = m + length bs + length xs" and "unat (lq_tail q - lq_booked q) = length xs"
    and "unat (lq_booked q - lq_head q) = m + length bs" and "lq_tail q = lq_booked q \<longleftrightarrow> xs = []" and "lq_head q = lq_booked q \<longleftrightarrow> m = 0 \<and> bs = []"
    and "unat (lq_mask q) = room q - 1" and "unat (lifo_capacity q) = room q"
proof -
  note f = lifo_inv_facts [OF assms]
  have small: "m + length bs + length xs \<le> 2 ^ 31" using f(6,7) by linarith
  have d: "lq_tail q - lq_head q = of_nat (m + length bs + length xs)" "lq_tail q - lq_booked q = of_nat (length xs)" "lq_booked q - lq_head q = of_nat (m + length bs)"
    using f(2-4) by simp_all
  show u: "unat (lq_tail q - lq_head q) = m + length bs + length xs" "unat (lq_tail q - lq_booked q) = length xs" "unat (lq_booked q - lq_head q) = m + length bs"
    unfolding d using small by (intro unat_small; linarith)+
  show "lq_tail q = lq_booked q \<longleftrightarrow> xs = []" using u(2) by (metis length_0_conv right_minus_eq unsigned_eq_0_iff)
  show "lq_head q = lq_booked q \<longleftrightarrow> m = 0 \<and> bs = []" using u(3) by (metis add_is_0 length_0_conv right_minus_eq unsigned_eq_0_iff)
  have mask: "unat (lq_mask q) + 1 = room q" by (rule ring_ok_facts(4) [OF f(1)])
  then show "unat (lq_mask q) = room q - 1" by simp
  have "lifo_capacity q = of_nat (unat (lq_mask q) + 1)" by (simp add: lifo_capacity_def)
  with mask f(7) show "unat (lifo_capacity q) = room q" by (simp add: unat_small)
qed

end
