(* ===== verification/St3_Lifo_Ops.thy ===== *)
theory St3_Lifo_Ops
  imports St3_Lifo
begin

text \<open>
  What each operation of the deque does to the four parts of the ring: emptied, booked, available, free.
\<close>

section \<open>Owner operations\<close>

lemma lifo_invI:
  assumes "ring_ok (lq_buffer q) (lq_mask q)"
    and "view (lq_buffer q) (lq_head q) = replicate m None @ map Some bs @ map Some xs @ replicate free None"
    and "lq_booked q = lq_head q + of_nat (m + length bs)" and "lq_tail q = lq_booked q + of_nat (length xs)"
  shows "lifo_inv q m bs xs"
  using assms unfolding lifo_inv_def by blast

lemma lifo_new_inv:
  assumes "n \<le> 2 ^ 31"
  obtains q :: "'a lifo_queue" where "lifo_new n = Inr q" "lifo_inv q 0 [] []" "n \<le> room q" "0 < room q"
proof -
  let ?c = "next_power_of_two n"
  from next_power_of_two_least [OF assms] have c: "?c \<le> 2 ^ 31" "n \<le> ?c" using next_power_of_two_ge by auto
  from next_power_of_two_pow2 [of n] obtain k where k: "?c = 2 ^ k" by (auto simp: is_pow2_def)
  have "k \<le> 31" using c(1) unfolding k by (rule power_le_imp_le_exp [rotated]) simp
  moreover have "of_nat ?c - 1 = (mask k :: pos)" unfolding k by (simp add: mask_eq_exp_minus_1)
  ultimately have ok: "ring_ok (allocate_buffer ?c) (of_nat ?c - 1)" by (auto simp: ring_ok_def allocate_buffer_def k)
  define q :: "'a lifo_queue" where "q = \<lparr>lq_push_count = 0, lq_pop_count_and_head = 0, lq_head = 0, lq_buffer = allocate_buffer ?c, lq_mask = of_nat ?c - 1\<rparr>"
  have "lifo_inv q 0 [] []"
  proof (rule lifo_invI [where free = ?c])
    show "ring_ok (lq_buffer q) (lq_mask q)" using ok by (simp add: q_def)
    show "view (lq_buffer q) (lq_head q) = replicate 0 None @ map Some [] @ map Some [] @ replicate ?c None"
      by (simp add: q_def view_def allocate_buffer_def)
  qed (simp_all add: q_def unpack_def)
  moreover have "?c < u64_mod" using c(1) by (simp add: u64_mod_def)
  then have "lifo_new n = Inr q" using assms c by (simp add: lifo_new_def MAX_CAPACITY_def npot_res_def q_def Let_def)
  moreover have "n \<le> room q" "0 < room q" using c(2) k by (simp_all add: q_def allocate_buffer_def)
  ultimately show thesis using that by blast
qed

lemma lifo_push_full:
  assumes "lifo_inv q m bs xs" and "m + length bs + length xs = room q"
  shows "lifo_push q x = Inr (Inl x, q)"
proof -
  have "unat (lq_mask q) < unat (lq_tail q - lq_head q)"
    using lifo_inv_counts(1,6) [OF assms(1)] assms(2) ring_ok_facts(2) [OF lifo_inv_facts(1) [OF assms(1)]] by linarith
  then show ?thesis by (simp add: lifo_push_def Let_def word_less_nat_alt)
qed

lemma lifo_push_stores:
  assumes inv: "lifo_inv q m bs xs" and free: "m + length bs + length xs < room q"
  obtains q' where "lifo_push q x = Inr (Inr (), q')" "lifo_inv q' m bs (xs @ [x])" "room q' = room q"
proof -
  note f = lifo_inv_facts [OF inv]
  let ?n = "m + length bs + length xs" and ?pre = "replicate m None @ map Some bs @ map Some xs"
  have "\<not> lq_mask q < lq_tail q - lq_head q" using lifo_inv_counts(1,6) [OF inv] free by (simp add: word_less_nat_alt)
  moreover have "view (lq_buffer q) (lq_head q) = ?pre @ None # replicate (room q - Suc ?n) None"
    using f(5) free by (simp flip: replicate_Suc add: Suc_diff_Suc)
  from write_at_view [OF f(1) this, of x] obtain buf where
    buf: "write_at (lq_buffer q) (lq_mask q) (lq_tail q) x = Inr buf" "view buf (lq_head q) = ?pre @ Some x # replicate (room q - Suc ?n) None"
      "length buf = room q"
    unfolding f(4) by (auto simp: add.assoc)
  ultimately have "lifo_push q x = Inr (Inr (), q\<lparr>lq_buffer := buf, lq_push_count := lq_push_count q + 1\<rparr>)" by (simp add: lifo_push_def Let_def)
  moreover have "lifo_inv (q\<lparr>lq_buffer := buf, lq_push_count := lq_push_count q + 1\<rparr>) m bs (xs @ [x])"
  proof (rule lifo_invI)
    have "lq_push_count q + 1 - lq_pop_count q = lq_tail q + 1" by simp
    then show "lq_tail (q\<lparr>lq_buffer := buf, lq_push_count := lq_push_count q + 1\<rparr>) =
        lq_booked (q\<lparr>lq_buffer := buf, lq_push_count := lq_push_count q + 1\<rparr>) + of_nat (length (xs @ [x]))"
      unfolding f(3) by simp
  qed (use buf f(1,2) in \<open>auto intro: ring_ok_length\<close>)
  ultimately show thesis using that buf(3) by simp
qed

lemma lifo_pop_none:
  assumes "lifo_inv q m bs []"
  shows "lifo_pop spurious q = Inr (None, q)"
  using lifo_inv_counts(4) [OF assms] by (simp add: lifo_pop_def pop_loop.simps)

lemma pop_loop_retry: "tail \<noteq> lq_booked q \<Longrightarrow> pop_loop spurious tail c q = pop_loop 0 tail c q"
proof (induction spurious)
  case (Suc k)
  then show ?case by (subst pop_loop.simps) (simp add: Let_def)
qed simp

lemma lifo_pop_takes:
  assumes inv: "lifo_inv q m bs (xs @ [x])"
  obtains q' where "lifo_pop spurious q = Inr (Some x, q')" "lifo_inv q' m bs xs" "room q' = room q"
proof -
  note f = lifo_inv_facts [OF inv]
  let ?pre = "replicate m None @ map Some bs @ map Some xs" and ?free = "room q - (m + length bs + length (xs @ [x]))"
  have ne: "lq_tail q \<noteq> lq_booked q" using lifo_inv_counts(4) [OF inv] by simp
  have tl: "lq_tail q - 1 = lq_head q + of_nat (length ?pre)" unfolding f(4) by simp
  have "view (lq_buffer q) (lq_head q) = ?pre @ Some x # replicate ?free None" using f(5) by simp
  from read_at_view [OF f(1) this] obtain buf where
    buf: "read_at (lq_buffer q) (lq_mask q) (lq_tail q - 1) = Inr (x, buf)" "view buf (lq_head q) = ?pre @ None # replicate ?free None" "length buf = room q"
    unfolding tl by blast
  define q' where "q' = q\<lparr>lq_pop_count_and_head := pack (lq_pop_count q + 1) (lq_booked q), lq_buffer := buf\<rparr>"
  have "lifo_pop spurious q = Inr (Some x, q')"
    using ne buf(1) by (simp add: lifo_pop_def pop_loop_retry [OF ne, of spurious] pop_loop.simps [of 0] q'_def Let_def)
  moreover have "lifo_inv q' m bs xs"
  proof (rule lifo_invI [where free = "Suc ?free"])
    have "lq_push_count q - (lq_pop_count q + 1) = lq_tail q - 1" by simp
    then show "lq_tail q' = lq_booked q' + of_nat (length xs)" using f(3) by (simp add: q'_def)
  qed (use buf f(1,2) in \<open>auto simp: q'_def intro: ring_ok_length\<close>)
  ultimately show thesis using that buf(3) by (simp add: q'_def)
qed

text \<open>Positions within half the range of the counters are told apart.\<close>

lemma pos_eq_iff:
  assumes "a \<le> 2 ^ 31" and "b \<le> 2 ^ 31"
  shows "(p + of_nat a :: pos) = p + of_nat b \<longleftrightarrow> a = b"
  using unat_small [OF assms(1)] unat_small [OF assms(2)] by (metis add_left_cancel)

section \<open>Booking\<close>

text \<open>How many of \<open>n\<close> items an attempt takes.\<close>

definition takes :: "count_fn \<Rightarrow> pos \<Rightarrow> nat \<Rightarrow> nat \<Rightarrow> nat" where
  "takes count_fn max_count n attempt = min (min (count_fn attempt n) (unat max_count)) n"

lemma takes_word:
  fixes item_count :: pos
  assumes "unat item_count = n"
  shows "unat (min (of_nat (min (count_fn k n) (unat max_count))) item_count) = takes count_fn max_count n k"
proof -
  have "min (count_fn k n) (unat max_count) < 2 ^ 32" using unsigned_less [of max_count, where 'a = nat] by (simp add: min_less_iff_disj)
  then have "unat (of_nat (min (count_fn k n) (unat max_count)) :: pos) = min (count_fn k n) (unat max_count)" by (simp add: unat_of_nat)
  moreover have "unat (min v w) = min (unat v) (unat w)" for v w :: pos by (simp add: min_def word_le_nat_alt)
  ultimately show ?thesis using assms by (simp add: takes_def)
qed

lemma book_busy:
  assumes "lifo_inv q m bs xs" and "0 < m + length bs"
  shows "book_items count_fn max_count spurious q = (Inl StealBusy, q)"
  using lifo_inv_counts(5) [OF assms(1)] assms(2) by (simp add: book_items_def book_loop.simps [of _ _ _ spurious] Let_def)

lemma book_loop_runs:
  assumes inv: "lifo_inv q 0 [] xs"
  shows "book_loop count_fn max_count k spurious q =
     (if \<exists>j \<le> spurious. takes count_fn max_count (length xs) (k + j) = 0 then (Inl StealEmpty, q)
      else let c = of_nat (takes count_fn max_count (length xs) (k + spurious)) in
        (Inr (lq_head q, lq_head q + c, c), q\<lparr>lq_pop_count_and_head := pack (lq_pop_count q) (lq_head q + c)\<rparr>))"
proof (induction spurious arbitrary: k)
  note c = lifo_inv_counts [OF inv]
  have same: "lq_head q = lq_booked q" using c(5) by simp
  let ?cnt = "\<lambda>k. min (of_nat (min (count_fn k (length xs)) (unat max_count))) (lq_tail q - lq_booked q)"
  have cnt: "unat (?cnt k) = takes count_fn max_count (length xs) k" for k by (rule takes_word) (rule c(2))
  have word: "?cnt k = of_nat (takes count_fn max_count (length xs) k)" for k using arg_cong [OF cnt [of k], of "of_nat :: nat \<Rightarrow> pos"] by simp
  have zero: "?cnt k = 0 \<longleftrightarrow> takes count_fn max_count (length xs) k = 0" for k using cnt [of k] by (metis unsigned_eq_0_iff)
  have none: "takes count_fn max_count (length xs) k = 0" if "lq_tail q - lq_booked q = 0" for k using that c(2) by (simp add: takes_def)
  have step: "book_loop count_fn max_count k spurious q =
     (if takes count_fn max_count (length xs) k = 0 then (Inl StealEmpty, q)
      else case spurious of
          Suc j \<Rightarrow> book_loop count_fn max_count (k + 1) j q
        | 0 \<Rightarrow> let c = of_nat (takes count_fn max_count (length xs) k) in
               (Inr (lq_head q, lq_head q + c, c), q\<lparr>lq_pop_count_and_head := pack (lq_pop_count q) (lq_head q + c)\<rparr>))" for k spurious
    using none [of k] zero [of k] unfolding book_loop.simps [of _ _ k spurious] Let_def same c(2) word by simp
  {
    case 0
    show ?case unfolding step [of _ 0] by simp
  next
    case (Suc spurious)
    have "(\<exists>j \<le> Suc spurious. takes count_fn max_count (length xs) (k + j) = 0) \<longleftrightarrow>
        takes count_fn max_count (length xs) k = 0 \<or> (\<exists>j \<le> spurious. takes count_fn max_count (length xs) (k + 1 + j) = 0)"
      unfolding less_Suc_eq_le [symmetric] less_Suc_eq_0_disj [of _ "Suc spurious"] by auto
    with Suc show ?case unfolding step [of _ "Suc spurious"] by (auto simp: Let_def)
  }
qed

lemma book_takes:
  assumes inv: "lifo_inv q 0 [] xs" and c: "c = takes count_fn max_count (length xs) spurious"
    and all: "\<forall>j \<le> spurious. takes count_fn max_count (length xs) j \<noteq> 0"
  obtains q' where "book_items count_fn max_count spurious q = (Inr (lq_head q, lq_head q + of_nat c, of_nat c), q')"
    "lifo_inv q' 0 (take c xs) (drop c xs)" "q' = q\<lparr>lq_pop_count_and_head := pack (lq_pop_count q) (lq_head q + of_nat c)\<rparr>"
proof -
  note f = lifo_inv_facts [OF inv]
  define q' where "q' = q\<lparr>lq_pop_count_and_head := pack (lq_pop_count q) (lq_head q + of_nat c)\<rparr>"
  have le: "c \<le> length xs" using c by (simp add: takes_def)
  have "book_items count_fn max_count spurious q = (Inr (lq_head q, lq_head q + of_nat c, of_nat c), q')"
    using book_loop_runs [OF inv, of count_fn max_count 0 spurious] all by (auto simp: book_items_def q'_def c Let_def)
  moreover have "lifo_inv q' 0 (take c xs) (drop c xs)"
  proof (rule lifo_invI)
    show "view (lq_buffer q') (lq_head q') = replicate 0 None @ map Some (take c xs) @ map Some (drop c xs) @ replicate (room q - length xs) None"
      using f(5) by (simp add: q'_def flip: map_append append_assoc)
    have "lq_tail q' = lq_head q + of_nat (length xs)" using f(4) by (simp add: q'_def)
    also have "\<dots> = lq_booked q' + of_nat (length (drop c xs))" using le by (simp add: q'_def of_nat_diff)
    finally show "lq_tail q' = lq_booked q' + of_nat (length (drop c xs))" .
  qed (use f(1) le in \<open>simp_all add: q'_def\<close>)
  ultimately show thesis using that by (simp add: q'_def)
qed

lemma book_empty:
  assumes "lifo_inv q 0 [] xs" and "\<exists>j \<le> spurious. takes count_fn max_count (length xs) j = 0"
  shows "book_items count_fn max_count spurious q = (Inl StealEmpty, q)"
  using book_loop_runs [OF assms(1), of count_fn max_count 0 spurious] assms(2) by (simp add: book_items_def)

section \<open>Releasing booked slots\<close>

text \<open>When every booked item has been moved, the head passes the emptied slots.\<close>

lemma lifo_release:
  assumes inv: "lifo_inv q m [] xs"
  shows "lifo_inv (q\<lparr>lq_head := lq_booked q\<rparr>) 0 [] xs"
proof (rule lifo_invI)
  note f = lifo_inv_facts [OF inv]
  let ?free = "replicate (room q - (m + length xs)) None"
  have "view (lq_buffer q) (lq_head q) = replicate m None @ (map Some xs @ ?free)" using f(5) by simp
  from view_skip [OF ring_ok_facts(5) [OF f(1)] this] f(2)
  have "view (lq_buffer q) (lq_booked q) = map Some xs @ replicate (room q - (m + length xs) + m) None" by (simp add: replicate_add)
  then show "view (lq_buffer (q\<lparr>lq_head := lq_booked q\<rparr>)) (lq_head (q\<lparr>lq_head := lq_booked q\<rparr>)) =
      replicate 0 None @ map Some [] @ map Some xs @ replicate (room q - (m + length xs) + m) None" by simp
qed (use lifo_inv_facts [OF inv] in simp_all)

lemma lifo_move_out:
  assumes inv: "lifo_inv q m (b # bs) xs"
  obtains buf where "read_at (lq_buffer q) (lq_mask q) (lq_head q + of_nat m) = Inr (b, buf)" "lifo_inv (q\<lparr>lq_buffer := buf\<rparr>) (Suc m) bs xs" "length buf = room q"
proof -
  note f = lifo_inv_facts [OF inv]
  let ?suf = "map Some bs @ map Some xs @ replicate (room q - (m + length (b # bs) + length xs)) None"
  have "view (lq_buffer q) (lq_head q) = replicate m None @ Some b # ?suf" using f(5) by simp
  from read_at_view [OF f(1) this] obtain buf where buf: "read_at (lq_buffer q) (lq_mask q) (lq_head q + of_nat m) = Inr (b, buf)"
      "view buf (lq_head q) = replicate m None @ None # ?suf" "length buf = room q" by auto
  have "lifo_inv (q\<lparr>lq_buffer := buf\<rparr>) (Suc m) bs xs"
  proof (rule lifo_invI)
    show "view (lq_buffer (q\<lparr>lq_buffer := buf\<rparr>)) (lq_head (q\<lparr>lq_buffer := buf\<rparr>)) =
        replicate (Suc m) None @ map Some bs @ map Some xs @ replicate (room q - (m + length (b # bs) + length xs)) None"
      using buf(2) by (simp add: replicate_app_Cons_same)
  qed (use f buf(3) in \<open>auto intro: ring_ok_length\<close>)
  with buf(1,3) that show thesis by blast
qed

text \<open>A drain in progress: its position is at the first booked item not yet moved.\<close>

definition draining :: "lifo_drain \<Rightarrow> 'a lifo_queue \<Rightarrow> nat \<Rightarrow> bool" where
  "draining d q m \<longleftrightarrow> dr_current d = lq_head q + of_nat m \<and> dr_end d = lq_booked q"

lemma drain_next_runs:
  assumes inv: "lifo_inv q m (b # bs) xs" and d: "draining d q m"
  obtains d' q' where "drain_next d q = Inr (Some b, d', q')" "bs \<noteq> [] \<Longrightarrow> lifo_inv q' (Suc m) bs xs \<and> draining d' q' (Suc m)"
    "bs = [] \<Longrightarrow> lifo_inv q' 0 [] xs \<and> dr_current d' = dr_end d'" "dr_end d' = dr_end d" "room q' = room q" "dr_current d' = dr_current d + 1"
proof -
  note f = lifo_inv_facts [OF inv]
  from lifo_move_out [OF inv] obtain buf where
    buf: "read_at (lq_buffer q) (lq_mask q) (dr_current d) = Inr (b, buf)" "lifo_inv (q\<lparr>lq_buffer := buf\<rparr>) (Suc m) bs xs" "length buf = room q"
    using d by (auto simp: draining_def)
  let ?q = "q\<lparr>lq_buffer := buf\<rparr>"
  have small: "Suc (m + length bs) \<le> 2 ^ 31" using f(6,7) by simp
  have at: "dr_current d = lq_head q + of_nat m" "dr_current d + 1 = lq_head q + of_nat (Suc m)" "dr_end d = lq_head q + of_nat (Suc (m + length bs))"
    using d f(2) by (simp_all add: draining_def)
  have ne: "dr_current d \<noteq> dr_end d" and last: "dr_current d + 1 = dr_end d \<longleftrightarrow> bs = []"
    using small pos_eq_iff [of m "Suc (m + length bs)" "lq_head q"] pos_eq_iff [of "Suc m" "Suc (m + length bs)" "lq_head q"] unfolding at by auto
  define q' where "q' = (if dr_current d + 1 = dr_end d then ?q\<lparr>lq_head := dr_end d\<rparr> else ?q)"
  have nxt: "drain_next d q = Inr (Some b, d\<lparr>dr_current := dr_current d + 1\<rparr>, q')"
    using ne buf(1) by (simp add: drain_next_def Let_def q'_def)
  have more: "lifo_inv q' (Suc m) bs xs \<and> draining (d\<lparr>dr_current := dr_current d + 1\<rparr>) q' (Suc m)" if "bs \<noteq> []"
    using that last buf(2) d by (simp add: q'_def draining_def)
  have fin: "lifo_inv q' 0 [] xs" if "bs = []"
    using that last lifo_release [of ?q "Suc m" xs] buf(2) d by (simp add: q'_def draining_def)
  show thesis by (rule that [OF nxt]) (use more fin last buf(3) in \<open>auto simp: q'_def\<close>)
qed

lemma drain_hint:
  assumes "lifo_inv q m bs xs" and "draining d q m"
  shows "drain_size_hint d = length bs"
proof -
  note f = lifo_inv_facts [OF assms(1)]
  have "dr_end d - dr_current d = of_nat (length bs)" using assms(2) f(2) by (simp add: draining_def)
  moreover have "length bs \<le> 2 ^ 31" using f(6,7) by linarith
  ultimately show ?thesis by (simp only: drain_size_hint_def unat_small)
qed

lemma drain_rest_runs:
  assumes "lifo_inv q m bs xs" and "draining d q m" and "bs \<noteq> []"
  shows "\<exists>q'. drain_rest (length bs) d q = Inr (bs, q') \<and> lifo_inv q' 0 [] xs \<and> room q' = room q"
  using assms
proof (induction bs arbitrary: q m d)
  case (Cons b bs)
  from drain_next_runs [OF Cons.prems(1,2)] obtain d' q' where n: "drain_next d q = Inr (Some b, d', q')"
      "bs \<noteq> [] \<Longrightarrow> lifo_inv q' (Suc m) bs xs \<and> draining d' q' (Suc m)" "bs = [] \<Longrightarrow> lifo_inv q' 0 [] xs \<and> dr_current d' = dr_end d'" "room q' = room q"
    by metis
  show ?case
  proof (cases "bs = []")
    case True
    with n show ?thesis by simp
  next
    case False
    with Cons.IH [of q' "Suc m" d'] n show ?thesis by auto
  qed
qed simp

section \<open>Stealing\<close>

lemma view_unskip:
  assumes "length buf dvd 2 ^ 32" and "view buf (p + of_nat (length xs)) = ys @ xs"
  shows "view buf p = xs @ ys"
proof -
  have "inj (rotate (length xs) :: 'a option list \<Rightarrow> _)" unfolding rotate_def by (rule inj_fn [OF inj_rotate1])
  moreover have "rotate (length xs) (view buf p) = rotate (length xs) (xs @ ys)" using assms by (simp add: view_shift rotate_append)
  ultimately show ?thesis by (rule injD)
qed

lemma free_capacity:
  assumes "lifo_inv q m bs xs"
  shows "\<exists>free. dest_free_capacity q = Inr free \<and> unat free = room q - (m + length bs + length xs)"
proof -
  note c = lifo_inv_counts [OF assms] and f = lifo_inv_facts [OF assms]
  have le: "\<not> lifo_capacity q < lq_tail q - lq_head q" using c(1,7) f(6) by (simp add: word_less_nat_alt)
  then have "unat (lifo_capacity q - (lq_tail q - lq_head q)) = room q - (m + length bs + length xs)"
    using c(1,7) by (simp add: unat_sub word_le_nat_alt not_less)
  with le show ?thesis by (simp add: dest_free_capacity_def Let_def)
qed

text \<open>The free slots of a queue, seen from its tail, and what storing a block there makes of it.\<close>

lemma lifo_tail_view:
  assumes "lifo_inv q m bs xs"
  shows "view (lq_buffer q) (lq_tail q) = replicate (room q - (m + length bs + length xs)) None @ replicate m None @ map Some bs @ map Some xs"
proof -
  note f = lifo_inv_facts [OF assms]
  have "view (lq_buffer q) (lq_head q) = (replicate m None @ map Some bs @ map Some xs) @ replicate (room q - (m + length bs + length xs)) None"
    using f(5) by simp
  from view_skip [OF ring_ok_facts(5) [OF f(1)] this] show ?thesis unfolding f(4) by (simp add: add.assoc)
qed

lemma lifo_append_block:
  assumes inv: "lifo_inv q m bs xs" and len: "length buf = room q"
    and v: "view buf (lq_tail q) = map Some vs @ replicate free None @ replicate m None @ map Some bs @ map Some xs"
  shows "lifo_inv (q\<lparr>lq_buffer := buf, lq_push_count := lq_push_count q + of_nat (length vs)\<rparr>) m bs (xs @ vs)"
proof (rule lifo_invI)
  note f = lifo_inv_facts [OF inv]
  let ?old = "replicate m None @ map Some bs @ map Some xs"
  have dv: "length buf dvd 2 ^ 32" using ring_ok_facts(5) [OF f(1)] len by simp
  have "view buf (lq_head q + of_nat (length ?old)) = (map Some vs @ replicate free None) @ ?old"
    using v unfolding f(4) by (simp add: add.assoc)
  from view_unskip [OF dv this]
  show "view (lq_buffer (q\<lparr>lq_buffer := buf, lq_push_count := lq_push_count q + of_nat (length vs)\<rparr>)) (lq_head (q\<lparr>lq_buffer := buf, lq_push_count := lq_push_count q + of_nat (length vs)\<rparr>)) =
      replicate m None @ map Some bs @ map Some (xs @ vs) @ replicate free None" by simp
  have "lq_push_count q + of_nat (length vs) - lq_pop_count q = lq_tail q + of_nat (length vs)" by simp
  then show "lq_tail (q\<lparr>lq_buffer := buf, lq_push_count := lq_push_count q + of_nat (length vs)\<rparr>) =
      lq_booked (q\<lparr>lq_buffer := buf, lq_push_count := lq_push_count q + of_nat (length vs)\<rparr>) + of_nat (length (xs @ vs))"
    unfolding f(3) by simp
qed (use lifo_inv_facts [OF inv] len in \<open>auto intro: ring_ok_length\<close>)

text \<open>The move of a booked block into another queue, before the thief's last item is looked at.\<close>

lemma lifo_transfer:
  assumes src: "lifo_inv q 0 (vs @ bs) xs" and dst: "lifo_inv dest m ds ys" and fits: "m + length ds + length ys + length vs \<le> room dest"
    and c: "unat c = length vs"
  obtains sbuf dbuf where
    "transfer_items (lq_buffer q) (lq_mask q) (lq_head q) (lq_buffer dest) (lq_mask dest) (lq_tail dest) c = Inr (sbuf, dbuf)"
    "lifo_inv (q\<lparr>lq_buffer := sbuf\<rparr>) (length vs) bs xs"
    "lifo_inv (dest\<lparr>lq_buffer := dbuf, lq_push_count := lq_push_count dest + c\<rparr>) m ds (ys @ vs)" "length sbuf = room q" "length dbuf = room dest"
proof -
  note f = lifo_inv_facts [OF src] and g = lifo_inv_facts [OF dst]
  let ?free = "room dest - (m + length ds + length ys)" and ?rest = "map Some bs @ map Some xs @ replicate (room q - (length (vs @ bs) + length xs)) None"
  have "view (lq_buffer q) (lq_head q) = map Some vs @ ?rest" using f(5) by simp
  moreover have "replicate ?free None = map (\<lambda>_. None) vs @ replicate (?free - length vs) None"
    using fits by (simp add: map_replicate_const flip: replicate_add)
  then have "view (lq_buffer dest) (lq_tail dest) = map (\<lambda>_. None) vs @ replicate (?free - length vs) None @ replicate m None @ map Some ds @ map Some ys"
    using lifo_tail_view [OF dst] by simp
  ultimately obtain sbuf dbuf where t:
    "transfer_items (lq_buffer q) (lq_mask q) (lq_head q) (lq_buffer dest) (lq_mask dest) (lq_tail dest) c = Inr (sbuf, dbuf)"
    "view sbuf (lq_head q) = map (\<lambda>_. None) vs @ ?rest" "length sbuf = room q"
    "view dbuf (lq_tail dest) = map Some vs @ replicate (?free - length vs) None @ replicate m None @ map Some ds @ map Some ys" "length dbuf = room dest"
    using transfer_items_views [OF f(1) g(1) _ _ c] by blast
  have c': "c = of_nat (length vs)" using arg_cong [OF c, of "of_nat :: nat \<Rightarrow> pos"] by simp
  have "lifo_inv (q\<lparr>lq_buffer := sbuf\<rparr>) (length vs) bs xs"
    by (rule lifo_invI [where free = "room q - (length (vs @ bs) + length xs)"])
      (use t(2,3) f(1-3) in \<open>auto simp: map_replicate_const intro: ring_ok_length\<close>)
  with t lifo_append_block [OF dst t(5,4)] show thesis using that unfolding c' by blast
qed

lemma lifo_likely_empty:
  assumes "lifo_inv q m bs xs"
  shows "is_likely_empty q \<longleftrightarrow> xs = []" and "lifo_is_empty q \<longleftrightarrow> xs = []"
  using lifo_inv_counts(4) [OF assms] by (simp_all add: is_likely_empty_def lifo_is_empty_def)

text \<open>A thief gets a block of the oldest items, and they are appended to its own queue in their order.\<close>

lemma lifo_steal_takes:
  assumes src: "lifo_inv q 0 [] xs" and dst: "lifo_inv dest m ds ys"
    and free: "free = room dest - (m + length ds + length ys)"
    and all: "\<forall>j \<le> spurious. min (min (count_fn j (length xs)) free) (length xs) \<noteq> 0"
    and c: "c = min (min (count_fn spurious (length xs)) free) (length xs)"
  obtains q' dest' where "lifo_steal count_fn spurious q dest = Inr (Inr c, q', dest')" "lifo_inv q' 0 [] (drop c xs)"
    "lifo_inv dest' m ds (ys @ take c xs)" "room q' = room q" "room dest' = room dest"
proof -
  obtain fw where fw: "dest_free_capacity dest = Inr fw" "unat fw = free" using free_capacity [OF dst] free by blast
  have takes: "takes count_fn fw (length xs) j = min (min (count_fn j (length xs)) free) (length xs)" for j by (simp add: takes_def fw(2))
  have ne: "\<not> is_likely_empty q" using all lifo_likely_empty [OF src] by auto
  have le: "c \<le> length xs" "c \<le> free" using c by auto
  from book_takes [OF src c [folded takes] all [folded takes]] obtain q1 where
    b: "book_items count_fn fw spurious q = (Inr (lq_head q, lq_head q + of_nat c, of_nat c), q1)" "lifo_inv q1 0 (take c xs) (drop c xs)"
      "q1 = q\<lparr>lq_pop_count_and_head := pack (lq_pop_count q) (lq_head q + of_nat c)\<rparr>" by blast
  have "length xs \<le> 2 ^ 31" using lifo_inv_facts(6,7) [OF src] by simp
  then have uc: "unat (of_nat c :: pos) = c" using le(1) by (intro unat_small) linarith
  have fits: "m + length ds + length ys + length (take c xs) \<le> room dest" using le free lifo_inv_facts(6) [OF dst] by simp
  from b(2) have b2: "lifo_inv q1 0 (take c xs @ []) (drop c xs)" by simp
  have uc': "unat (of_nat c :: pos) = length (take c xs)" using uc le by simp
  from lifo_transfer [OF b2 dst fits uc'] obtain sbuf dbuf where t:
    "transfer_items (lq_buffer q1) (lq_mask q1) (lq_head q1) (lq_buffer dest) (lq_mask dest) (lq_tail dest) (of_nat c) = Inr (sbuf, dbuf)"
    "lifo_inv (q1\<lparr>lq_buffer := sbuf\<rparr>) (length (take c xs)) [] (drop c xs)"
    "lifo_inv (dest\<lparr>lq_buffer := dbuf, lq_push_count := lq_push_count dest + of_nat c\<rparr>) m ds (ys @ take c xs)" "length sbuf = room q1" "length dbuf = room dest"
    by blast
  have room: "\<not> fw < of_nat c" using le(2) fw(2) uc by (simp add: word_less_nat_alt)
  have hd: "lq_head q1 = lq_head q" "lq_head q + of_nat c = lq_booked (q1\<lparr>lq_buffer := sbuf\<rparr>)" using b(3) by simp_all
  have "lifo_steal count_fn spurious q dest = Inr (Inr c, (q1\<lparr>lq_buffer := sbuf\<rparr>)\<lparr>lq_head := lq_booked (q1\<lparr>lq_buffer := sbuf\<rparr>)\<rparr>,
      dest\<lparr>lq_buffer := dbuf, lq_push_count := lq_push_count dest + of_nat c\<rparr>)"
    using ne fw(1) b(1) room t(1) uc by (simp add: lifo_steal_def hd)
  then show thesis by (rule that [OF _ lifo_release [OF t(2)] t(3)]) (use t(4,5) b(3) in simp_all)
qed

lemma lifo_steal_fails:
  assumes src: "lifo_inv q m bs xs" and dst: "lifo_inv dest n ds ys"
  shows "xs = [] \<Longrightarrow> lifo_steal count_fn spurious q dest = Inr (Inl StealEmpty, q, dest)"
    and "xs \<noteq> [] \<Longrightarrow> 0 < m + length bs \<Longrightarrow> lifo_steal count_fn spurious q dest = Inr (Inl StealBusy, q, dest)"
    and "m + length bs = 0 \<Longrightarrow> \<exists>j \<le> spurious. min (min (count_fn j (length xs)) (room dest - (n + length ds + length ys))) (length xs) = 0 \<Longrightarrow>
      lifo_steal count_fn spurious q dest = Inr (Inl StealEmpty, q, dest)"
proof -
  obtain fw where fw: "dest_free_capacity dest = Inr fw" "unat fw = room dest - (n + length ds + length ys)" using free_capacity [OF dst] by blast
  show "lifo_steal count_fn spurious q dest = Inr (Inl StealEmpty, q, dest)" if "xs = []"
    using that lifo_likely_empty [OF src] by (simp add: lifo_steal_def)
  show "lifo_steal count_fn spurious q dest = Inr (Inl StealBusy, q, dest)" if "xs \<noteq> []" "0 < m + length bs"
    using that lifo_likely_empty [OF src] fw(1) book_busy [OF src] by (simp add: lifo_steal_def)
  show "lifo_steal count_fn spurious q dest = Inr (Inl StealEmpty, q, dest)"
    if "m + length bs = 0" "\<exists>j \<le> spurious. min (min (count_fn j (length xs)) (room dest - (n + length ds + length ys))) (length xs) = 0"
  proof -
    have "book_items count_fn fw spurious q = (Inl StealEmpty, q)"
      using that src book_empty [of q xs spurious count_fn fw] by (simp add: takes_def fw(2))
    with fw(1) show ?thesis by (simp add: lifo_steal_def)
  qed
qed

lemma lifo_steal_and_pop_takes:
  assumes src: "lifo_inv q 0 [] xs" and dst: "lifo_inv dest m ds ys"
    and free: "free = room dest - (m + length ds + length ys)"
    and all: "\<forall>j \<le> spurious. min (min (count_fn j (length xs)) (Suc free)) (length xs) \<noteq> 0"
    and c: "Suc c = min (min (count_fn spurious (length xs)) (Suc free)) (length xs)"
  obtains q' dest' where "lifo_steal_and_pop count_fn spurious q dest = Inr (Inr (xs ! c, c), q', dest')" "lifo_inv q' 0 [] (drop (Suc c) xs)"
    "lifo_inv dest' m ds (ys @ take c xs)" "room q' = room q" "room dest' = room dest"
proof -
  obtain fw where fw: "dest_free_capacity dest = Inr fw" "unat fw = free" using free_capacity [OF dst] free by blast
  have small: "free \<le> 2 ^ 31" "length xs \<le> 2 ^ 31" using free lifo_inv_facts(6,7) [OF dst] lifo_inv_facts(6,7) [OF src] by simp_all
  have fw1: "unat (fw + 1) = Suc free" using fw(2) small(1) by (simp add: unat_word_ariths)
  have takes: "takes count_fn (fw + 1) (length xs) j = min (min (count_fn j (length xs)) (Suc free)) (length xs)" for j by (simp add: takes_def fw1)
  have ne: "\<not> is_likely_empty q" using all lifo_likely_empty [OF src] by auto
  have le: "Suc c \<le> length xs" "c \<le> free" using c by auto
  from book_takes [OF src c [folded takes] all [folded takes]] obtain q1 where
    b: "book_items count_fn (fw + 1) spurious q = (Inr (lq_head q, lq_head q + of_nat (Suc c), of_nat (Suc c)), q1)" "lifo_inv q1 0 (take (Suc c) xs) (drop (Suc c) xs)"
      "q1 = q\<lparr>lq_pop_count_and_head := pack (lq_pop_count q) (lq_head q + of_nat (Suc c))\<rparr>" by blast
  have uc: "unat (of_nat c :: pos) = c" using le(1) small(2) by (intro unat_small) linarith
  have fits: "m + length ds + length ys + length (take c xs) \<le> room dest" using le free lifo_inv_facts(6) [OF dst] by simp
  from b(2) le have b2: "lifo_inv q1 0 (take c xs @ [xs ! c]) (drop (Suc c) xs)" by (simp add: take_Suc_conv_app_nth)
  have uc': "unat (of_nat c :: pos) = length (take c xs)" using uc le by simp
  from lifo_transfer [OF b2 dst fits uc'] obtain sbuf dbuf where t:
    "transfer_items (lq_buffer q1) (lq_mask q1) (lq_head q1) (lq_buffer dest) (lq_mask dest) (lq_tail dest) (of_nat c) = Inr (sbuf, dbuf)"
    "lifo_inv (q1\<lparr>lq_buffer := sbuf\<rparr>) (length (take c xs)) [xs ! c] (drop (Suc c) xs)"
    "lifo_inv (dest\<lparr>lq_buffer := dbuf, lq_push_count := lq_push_count dest + of_nat c\<rparr>) m ds (ys @ take c xs)" "length sbuf = room q1" "length dbuf = room dest"
    by blast
  from lifo_move_out [OF t(2)] le obtain sbuf' where m:
    "read_at sbuf (lq_mask q1) (lq_head q1 + of_nat c) = Inr (xs ! c, sbuf')" "lifo_inv (q1\<lparr>lq_buffer := sbuf'\<rparr>) (Suc c) [] (drop (Suc c) xs)" "length sbuf' = length sbuf"
    by (auto simp: min_def)
  have room: "\<not> fw < of_nat c" using le(2) fw(2) uc by (simp add: word_less_nat_alt)
  have hd: "lq_head q1 = lq_head q" "lq_head q + of_nat (Suc c) = lq_booked (q1\<lparr>lq_buffer := sbuf'\<rparr>)" "of_nat (Suc c) - 1 = (of_nat c :: pos)" using b(3) by simp_all
  have "lifo_steal_and_pop count_fn spurious q dest = Inr (Inr (xs ! c, c), (q1\<lparr>lq_buffer := sbuf'\<rparr>)\<lparr>lq_head := lq_booked (q1\<lparr>lq_buffer := sbuf'\<rparr>)\<rparr>,
      dest\<lparr>lq_buffer := dbuf, lq_push_count := lq_push_count dest + of_nat c\<rparr>)"
    using ne fw(1) b(1) room t(1) m(1) uc unfolding lifo_steal_and_pop_def hd by (simp add: hd Let_def del: of_nat_Suc)
  then show thesis by (rule that [OF _ lifo_release [OF m(2)] t(3)]) (use t(4,5) m(3) b(3) in simp_all)
qed

section \<open>Extending and freeing\<close>

lemma extend_loop_runs:
  assumes "lifo_inv (q\<lparr>lq_push_count := tail + lq_pop_count q\<rparr>) m bs zs" and "max_tail = lq_head q + lifo_capacity q"
    and "free = room q - (m + length bs + length zs)"
  shows "\<exists>tail' q'. extend_loop max_tail items tail q = Inr (tail', drop free items, q') \<and>
     lifo_inv (q'\<lparr>lq_push_count := tail' + lq_pop_count q\<rparr>) m bs (zs @ take free items) \<and> room q' = room q"
  using assms
proof (induction items arbitrary: q tail zs free)
  case (Cons x items)
  let ?q = "q\<lparr>lq_push_count := tail + lq_pop_count q\<rparr>"
  note f = lifo_inv_facts [OF Cons.prems(1)]
  have tail: "lq_tail ?q = tail" by simp
  have "lifo_capacity q = of_nat (room q)" using arg_cong [OF lifo_inv_counts(7) [OF Cons.prems(1)], of "of_nat :: nat \<Rightarrow> pos"] by (simp add: lifo_capacity_def)
  then have full: "tail = max_tail \<longleftrightarrow> m + length bs + length zs = room q"
    using f(4,6,7) pos_eq_iff [of "m + length bs + length zs" "room q" "lq_head q"] Cons.prems(2) by simp
  show ?case
  proof (cases "free = 0")
    case True
    with full Cons.prems f(6) show ?thesis by auto
  next
    case False
    then have nf: "m + length bs + length zs < room ?q" using Cons.prems(3) by simp
    from lifo_push_stores [OF Cons.prems(1) nf, of x] obtain q1 where
      p: "lifo_push ?q x = Inr (Inr (), q1)" "lifo_inv q1 m bs (zs @ [x])" "room q1 = room ?q" by blast
    then obtain buf where buf: "write_at (lq_buffer q) (lq_mask q) tail x = Inr buf" "q1 = q\<lparr>lq_buffer := buf, lq_push_count := tail + lq_pop_count q + 1\<rparr>"
      by (cases "write_at (lq_buffer q) (lq_mask q) tail x") (auto simp: lifo_push_def Let_def split: if_splits)
    have q1: "q1 = (q\<lparr>lq_buffer := buf\<rparr>)\<lparr>lq_push_count := (tail + 1) + lq_pop_count (q\<lparr>lq_buffer := buf\<rparr>)\<rparr>" using buf(2) by simp
    obtain k where k: "free = Suc k" using False by (cases free) auto
    have kr: "k = room q - Suc (m + length bs + length zs)" using k Cons.prems(3) by linarith
    have "\<exists>tail' q'. extend_loop max_tail items (tail + 1) (q\<lparr>lq_buffer := buf\<rparr>) = Inr (tail', drop k items, q') \<and>
       lifo_inv (q'\<lparr>lq_push_count := tail' + lq_pop_count q\<rparr>) m bs ((zs @ [x]) @ take k items) \<and> room q' = room q"
      using Cons.IH [of "tail + 1" "q\<lparr>lq_buffer := buf\<rparr>" "zs @ [x]" k] p(2,3) Cons.prems(2) kr unfolding q1 by (simp add: lifo_capacity_def)
    moreover have "tail \<noteq> max_tail" using full nf by simp
    ultimately show ?thesis using buf(1) k by simp
  qed
qed simp

lemma drop_loop_runs:
  fixes xs :: "'a list"
  shows "ring_ok buf msk \<Longrightarrow> view buf p = map Some xs @ ys \<Longrightarrow>
   \<exists>buf'. drop_loop msk p (length xs) buf = Inr buf' \<and> view buf' p = map (\<lambda>_. None) xs @ ys \<and> length buf' = length buf"
proof (induction xs arbitrary: buf p ys)
  case (Cons x xs)
  have "view buf p = [] @ Some x # map Some xs @ ys" using Cons.prems(2) by simp
  from read_at_view [OF Cons.prems(1) this] obtain buf1 where
    b: "read_at buf msk p = Inr (x, buf1)" "view buf1 p = [None] @ map Some xs @ ys" "length buf1 = length buf" by auto
  have ok: "ring_ok buf1 msk" using ring_ok_length [OF Cons.prems(1) b(3)] .
  from view_skip [OF ring_ok_facts(5) [OF ok] b(2)] have "view buf1 (p + 1) = map Some xs @ (ys @ [None])" by simp
  from Cons.IH [OF ok this] obtain buf' where
    i: "drop_loop msk (p + 1) (length xs) buf1 = Inr buf'" "view buf' (p + of_nat (length [None :: 'a option])) = (map (\<lambda>_. None) xs @ ys) @ [None]" "length buf' = length buf1" by auto
  have "length buf' dvd 2 ^ 32" using ring_ok_facts(5) [OF ok] i(3) by simp
  from view_unskip [OF this i(2)] b(1,3) i(1,3) show ?case by simp
qed simp

lemma lifo_extend_stores:
  assumes inv: "lifo_inv q m bs xs" and free: "free = room q - (m + length bs + length xs)"
  obtains q' where "lifo_extend q items = Inr (drop free items, q')" "lifo_inv q' m bs (xs @ take free items)" "room q' = room q"
proof -
  have "q\<lparr>lq_push_count := lq_tail q + lq_pop_count q\<rparr> = q" by simp
  with extend_loop_runs [of "lq_tail q" q m bs xs "lq_head q + lifo_capacity q" free items] assms obtain tail' q' where
    e: "extend_loop (lq_head q + lifo_capacity q) items (lq_tail q) q = Inr (tail', drop free items, q')"
      "lifo_inv (q'\<lparr>lq_push_count := tail' + lq_pop_count q\<rparr>) m bs (xs @ take free items)" "room q' = room q" by auto
  show thesis by (rule that [OF _ e(2)]) (use e(1,3) in \<open>simp_all add: lifo_extend_def\<close>)
qed

lemma lifo_drop_empties:
  assumes inv: "lifo_inv q 0 [] xs"
  shows "\<exists>buf. lifo_drop q = Inr buf \<and> buf = replicate (room q) None"
proof -
  note f = lifo_inv_facts [OF inv] and c = lifo_inv_counts [OF inv]
  have v: "view (lq_buffer q) (lq_head q) = map Some xs @ replicate (room q - length xs) None" using f(5) by simp
  from drop_loop_runs [OF f(1) v] obtain buf where
    b: "drop_loop (lq_mask q) (lq_head q) (length xs) (lq_buffer q) = Inr buf" "view buf (lq_head q) = map (\<lambda>_. None) xs @ replicate (room q - length xs) None" "length buf = room q"
    by blast
  from b(2) have "set (view buf (lq_head q)) \<subseteq> {None}" by auto
  then have "set buf \<subseteq> {None}" by (simp add: view_def)
  then have "buf = replicate (room q) None" using b(3) by (metis replicate_length_same singletonD subset_code(1))
  with b(1) c(1) show ?thesis by (simp add: lifo_drop_def)
qed

lemma lifo_drain_takes:
  assumes inv: "lifo_inv q 0 [] xs" and c: "c = min (count_fn spurious (length xs)) (length xs)"
    and all: "\<forall>j \<le> spurious. min (count_fn j (length xs)) (length xs) \<noteq> 0"
  obtains q' where "lifo_drain_all count_fn spurious q = Inr (Inr (take c xs), q')" "lifo_inv q' 0 [] (drop c xs)" "room q' = room q"
proof -
  have small: "length xs \<le> 2 ^ 31" using lifo_inv_facts(6,7) [OF inv] by simp
  have "unat (- 1 :: pos) = 2 ^ 32 - 1" by (simp add: unsigned_minus_1_eq_mask mask_eq_exp_minus_1)
  then have takes: "takes count_fn (- 1) (length xs) j = min (count_fn j (length xs)) (length xs)" for j using small by (simp add: takes_def)
  from book_takes [OF inv c [folded takes] all [folded takes]] obtain q1 where
    b: "book_items count_fn (- 1) spurious q = (Inr (lq_head q, lq_head q + of_nat c, of_nat c), q1)" "lifo_inv q1 0 (take c xs) (drop c xs)"
      "q1 = q\<lparr>lq_pop_count_and_head := pack (lq_pop_count q) (lq_head q + of_nat c)\<rparr>" by blast
  let ?d = "\<lparr>dr_current = lq_head q, dr_end = lq_head q + of_nat c\<rparr>"
  have d: "draining ?d q1 0" using b(3) by (simp add: draining_def)
  have ne: "take c xs \<noteq> []" using c all by auto
  from drain_rest_runs [OF b(2) d ne] obtain q' where "drain_rest (length (take c xs)) ?d q1 = Inr (take c xs, q')" "lifo_inv q' 0 [] (drop c xs)" "room q' = room q1" by blast
  with that b(1,3) drain_hint [OF b(2) d] show thesis by (simp add: lifo_drain_all_def lifo_drain_start_def drain_drop_def)
qed

lemma lifo_drain_fails:
  assumes inv: "lifo_inv q m bs xs"
  shows "0 < m + length bs \<Longrightarrow> lifo_drain_all count_fn spurious q = Inr (Inl StealBusy, q)"
    and "m + length bs = 0 \<Longrightarrow> \<exists>j \<le> spurious. min (count_fn j (length xs)) (length xs) = 0 \<Longrightarrow> lifo_drain_all count_fn spurious q = Inr (Inl StealEmpty, q)"
proof -
  have small: "length xs \<le> 2 ^ 31" using lifo_inv_facts(6,7) [OF inv] by simp
  have "unat (- 1 :: pos) = 2 ^ 32 - 1" by (simp add: unsigned_minus_1_eq_mask mask_eq_exp_minus_1)
  then have takes: "takes count_fn (- 1) (length xs) j = min (count_fn j (length xs)) (length xs)" for j using small by (simp add: takes_def)
  show "lifo_drain_all count_fn spurious q = Inr (Inl StealBusy, q)" if "0 < m + length bs"
    using book_busy [OF inv that] by (simp add: lifo_drain_all_def lifo_drain_start_def)
  show "lifo_drain_all count_fn spurious q = Inr (Inl StealEmpty, q)" if "m + length bs = 0" "\<exists>j \<le> spurious. min (count_fn j (length xs)) (length xs) = 0"
    using that inv book_empty [of q xs spurious count_fn "- 1"] by (simp add: takes lifo_drain_all_def lifo_drain_start_def)
qed

lemma lifo_steal_and_pop_fails:
  assumes src: "lifo_inv q m bs xs" and dst: "lifo_inv dest n ds ys"
  shows "xs = [] \<Longrightarrow> lifo_steal_and_pop count_fn spurious q dest = Inr (Inl StealEmpty, q, dest)"
    and "xs \<noteq> [] \<Longrightarrow> 0 < m + length bs \<Longrightarrow> lifo_steal_and_pop count_fn spurious q dest = Inr (Inl StealBusy, q, dest)"
    and "m + length bs = 0 \<Longrightarrow> \<exists>j \<le> spurious. min (min (count_fn j (length xs)) (Suc (room dest - (n + length ds + length ys)))) (length xs) = 0 \<Longrightarrow>
      lifo_steal_and_pop count_fn spurious q dest = Inr (Inl StealEmpty, q, dest)"
proof -
  obtain fw where fw: "dest_free_capacity dest = Inr fw" "unat fw = room dest - (n + length ds + length ys)" using free_capacity [OF dst] by blast
  show "lifo_steal_and_pop count_fn spurious q dest = Inr (Inl StealEmpty, q, dest)" if "xs = []"
    using that lifo_likely_empty [OF src] by (simp add: lifo_steal_and_pop_def)
  show "lifo_steal_and_pop count_fn spurious q dest = Inr (Inl StealBusy, q, dest)" if "xs \<noteq> []" "0 < m + length bs"
    using that lifo_likely_empty [OF src] fw(1) book_busy [OF src] by (simp add: lifo_steal_and_pop_def)
  have fw1: "unat (fw + 1) = Suc (room dest - (n + length ds + length ys))"
    using fw(2) lifo_inv_facts(7) [OF dst] by (simp add: unat_word_ariths)
  show "lifo_steal_and_pop count_fn spurious q dest = Inr (Inl StealEmpty, q, dest)"
    if "m + length bs = 0" "\<exists>j \<le> spurious. min (min (count_fn j (length xs)) (Suc (room dest - (n + length ds + length ys)))) (length xs) = 0"
  proof -
    have "book_items count_fn (fw + 1) spurious q = (Inl StealEmpty, q)"
      using that src book_empty [of q xs spurious count_fn "fw + 1"] by (simp add: takes_def fw1)
    with fw(1) show ?thesis by (simp add: lifo_steal_and_pop_def)
  qed
qed

end
