(* ===== verification/St3_Deque.thy ===== *)
theory St3_Deque
  imports St3_Lifo_Ops "HOL-Library.Multiset"
begin

text \<open>
  What the work-stealing deque promises its clients, as an interface over the list of its items, and
  that the deque of \<^verbatim>\<open>lifo.rs\<close> keeps it. A booked block that a thief has not released yet still takes
  up its slots and makes other thieves back off.
\<close>

section \<open>The interface\<close>

record ('q, 'a) deque_ops =
  dq_push :: "'q \<Rightarrow> 'a \<Rightarrow> (('a + unit) \<times> 'q) res"
  dq_extend :: "'q \<Rightarrow> 'a list \<Rightarrow> ('a list \<times> 'q) res"
  dq_pop :: "nat \<Rightarrow> 'q \<Rightarrow> ('a option \<times> 'q) res"
  dq_steal :: "count_fn \<Rightarrow> nat \<Rightarrow> 'q \<Rightarrow> 'q \<Rightarrow> ((steal_error + nat) \<times> 'q \<times> 'q) res"
  dq_steal_and_pop :: "count_fn \<Rightarrow> nat \<Rightarrow> 'q \<Rightarrow> 'q \<Rightarrow> ((steal_error + 'a \<times> nat) \<times> 'q \<times> 'q) res"
  dq_drain :: "count_fn \<Rightarrow> nat \<Rightarrow> 'q \<Rightarrow> ((steal_error + 'a list) \<times> 'q) res"

text \<open>
  How many of \<open>n\<close> items a thief with room for \<open>limit\<close> gets when its first \<open>spurious\<close> attempts fail: the
  closure is asked again at each attempt, and an answer of zero ends the operation.
\<close>

definition block_size :: "count_fn \<Rightarrow> nat \<Rightarrow> nat \<Rightarrow> nat \<Rightarrow> nat" where
  "block_size count_fn spurious limit n =
     (if \<exists>j \<le> spurious. min (min (count_fn j n) limit) n = 0 then 0 else min (min (count_fn spurious n) limit) n)"

definition spec_steal :: "nat \<Rightarrow> nat \<Rightarrow> 'a list \<Rightarrow> steal_error + nat" where
  "spec_steal booked c xs =
     (if xs = [] then Inl StealEmpty else if 0 < booked then Inl StealBusy else if c = 0 then Inl StealEmpty else Inr c)"

definition spec_pop :: "'a list \<Rightarrow> 'a option \<times> 'a list" where
  "spec_pop xs = (if xs = [] then (None, []) else (Some (last xs), butlast xs))"

lemma block_size_le: "block_size count_fn spurious limit n \<le> limit" "block_size count_fn spurious limit n \<le> n"
  by (auto simp: block_size_def)

text \<open>\<open>holds q cap booked xs\<close>: the queue has \<open>cap\<close> slots, \<open>booked\<close> of them booked, and the items \<open>xs\<close>.\<close>

locale stealing_deque =
  fixes ops :: "('q, 'a) deque_ops" and holds :: "'q \<Rightarrow> nat \<Rightarrow> nat \<Rightarrow> 'a list \<Rightarrow> bool"
  assumes holds_fits: "holds q cap booked xs \<Longrightarrow> booked + length xs \<le> cap"
    and push_law: "holds q cap booked xs \<Longrightarrow> if booked + length xs < cap
       then \<exists>q'. dq_push ops q x = Inr (Inr (), q') \<and> holds q' cap booked (xs @ [x])
       else dq_push ops q x = Inr (Inl x, q)"
    and extend_law: "holds q cap booked xs \<Longrightarrow> free = cap - (booked + length xs) \<Longrightarrow>
       \<exists>q'. dq_extend ops q items = Inr (drop free items, q') \<and> holds q' cap booked (xs @ take free items)"
    and pop_law: "holds q cap booked xs \<Longrightarrow> \<exists>q'. dq_pop ops spurious q = Inr (fst (spec_pop xs), q') \<and> holds q' cap booked (snd (spec_pop xs))"
    and steal_law: "holds q cap booked xs \<Longrightarrow> holds d cap' booked' ys \<Longrightarrow>
       r = spec_steal booked (block_size count_fn spurious (cap' - (booked' + length ys)) (length xs)) xs \<Longrightarrow> n = case_sum (\<lambda>_. 0) id r \<Longrightarrow>
       \<exists>q' d'. dq_steal ops count_fn spurious q d = Inr (r, q', d') \<and> holds q' cap booked (drop n xs) \<and> holds d' cap' booked' (ys @ take n xs)"
    and steal_and_pop_law: "holds q cap booked xs \<Longrightarrow> holds d cap' booked' ys \<Longrightarrow>
       r = spec_steal booked (block_size count_fn spurious (Suc (cap' - (booked' + length ys))) (length xs)) xs \<Longrightarrow> n = case_sum (\<lambda>_. 0) id r \<Longrightarrow>
       \<exists>q' d'. dq_steal_and_pop ops count_fn spurious q d = Inr (map_sum id (\<lambda>n. (xs ! (n - 1), n - 1)) r, q', d') \<and>
         holds q' cap booked (drop n xs) \<and> holds d' cap' booked' (ys @ take (n - 1) xs)"
    and drain_law: "holds q cap booked xs \<Longrightarrow>
       r = (if 0 < booked then Inl StealBusy else spec_steal 0 (block_size count_fn spurious (length xs) (length xs)) xs) \<Longrightarrow> n = case_sum (\<lambda>_. 0) id r \<Longrightarrow>
       \<exists>q'. dq_drain ops count_fn spurious q = Inr (map_sum id (\<lambda>n. take n xs) r, q') \<and> holds q' cap booked (drop n xs)"

section \<open>Two workers that use each other's queues\<close>

datatype 'a deque_cmd =
    DPush 'a
  | DExtend "'a list"
  | DPop nat
  | DSteal count_fn nat
  | DStealAndPop count_fn nat
  | DDrain count_fn nat

datatype 'a deque_obs =
    OPush "'a + unit"
  | OExtend "'a list"
  | OPop "'a option"
  | OSteal "steal_error + nat"
  | OStealAndPop "steal_error + 'a \<times> nat"
  | ODrain "steal_error + 'a list"

text \<open>The worker \<open>me\<close> acts; it steals from \<open>other\<close>.\<close>

fun deque_step :: "('q, 'a) deque_ops \<Rightarrow> 'a deque_cmd \<Rightarrow> 'q \<Rightarrow> 'q \<Rightarrow> ('a deque_obs \<times> 'q \<times> 'q) res" where
  "deque_step ops (DPush x) me other = bind_res (dq_push ops me x) (\<lambda>(r, me'). Inr (OPush r, me', other))"
| "deque_step ops (DExtend xs) me other = bind_res (dq_extend ops me xs) (\<lambda>(r, me'). Inr (OExtend r, me', other))"
| "deque_step ops (DPop k) me other = bind_res (dq_pop ops k me) (\<lambda>(r, me'). Inr (OPop r, me', other))"
| "deque_step ops (DSteal f k) me other = bind_res (dq_steal ops f k other me) (\<lambda>(r, other', me'). Inr (OSteal r, me', other'))"
| "deque_step ops (DStealAndPop f k) me other = bind_res (dq_steal_and_pop ops f k other me) (\<lambda>(r, other', me'). Inr (OStealAndPop r, me', other'))"
| "deque_step ops (DDrain f k) me other = bind_res (dq_drain ops f k me) (\<lambda>(r, me'). Inr (ODrain r, me', other))"

text \<open>The same commands on lists, with the capacities of the two queues.\<close>

fun spec_step :: "nat \<Rightarrow> nat \<Rightarrow> 'a deque_cmd \<Rightarrow> 'a list \<Rightarrow> 'a list \<Rightarrow> 'a deque_obs \<times> 'a list \<times> 'a list" where
  "spec_step cap cap' (DPush x) xs ys = (if length xs < cap then (OPush (Inr ()), xs @ [x], ys) else (OPush (Inl x), xs, ys))"
| "spec_step cap cap' (DExtend zs) xs ys = (OExtend (drop (cap - length xs) zs), xs @ take (cap - length xs) zs, ys)"
| "spec_step cap cap' (DPop k) xs ys = (OPop (fst (spec_pop xs)), snd (spec_pop xs), ys)"
| "spec_step cap cap' (DSteal f k) xs ys =
     (let r = spec_steal 0 (block_size f k (cap - length xs) (length ys)) ys; n = case_sum (\<lambda>_. 0) id r in
      (OSteal r, xs @ take n ys, drop n ys))"
| "spec_step cap cap' (DStealAndPop f k) xs ys =
     (let r = spec_steal 0 (block_size f k (Suc (cap - length xs)) (length ys)) ys; n = case_sum (\<lambda>_. 0) id r in
      (OStealAndPop (map_sum id (\<lambda>n. (ys ! (n - 1), n - 1)) r), xs @ take (n - 1) ys, drop n ys))"
| "spec_step cap cap' (DDrain f k) xs ys =
     (let r = spec_steal 0 (block_size f k (length xs) (length xs)) xs; n = case_sum (\<lambda>_. 0) id r in
      (ODrain (map_sum id (\<lambda>n. take n xs) r), drop n xs, ys))"

fun deque_run :: "('q, 'a) deque_ops \<Rightarrow> (bool \<times> 'a deque_cmd) list \<Rightarrow> 'q \<Rightarrow> 'q \<Rightarrow> ('a deque_obs list \<times> 'q \<times> 'q) res" where
  "deque_run ops [] q d = Inr ([], q, d)"
| "deque_run ops ((first, c) # cs) q d =
     bind_res (if first then deque_step ops c q d else bind_res (deque_step ops c d q) (\<lambda>(ob, d', q'). Inr (ob, q', d'))) (\<lambda>(ob, q', d').
     bind_res (deque_run ops cs q' d') (\<lambda>(obs, q'', d''). Inr (ob # obs, q'', d'')))"

fun spec_run :: "nat \<Rightarrow> nat \<Rightarrow> (bool \<times> 'a deque_cmd) list \<Rightarrow> 'a list \<Rightarrow> 'a list \<Rightarrow> 'a deque_obs list \<times> 'a list \<times> 'a list" where
  "spec_run cap cap' [] xs ys = ([], xs, ys)"
| "spec_run cap cap' ((first, c) # cs) xs ys =
     (let (ob, xs', ys') = (if first then spec_step cap cap' c xs ys else let (ob, ys', xs') = spec_step cap' cap c ys xs in (ob, xs', ys'));
          (obs, xs'', ys'') = spec_run cap cap' cs xs' ys' in (ob # obs, xs'', ys''))"

text \<open>What a command brings in, and what its outcome hands out.\<close>

fun cmd_items :: "'a deque_cmd \<Rightarrow> 'a list" where
  "cmd_items (DPush x) = [x]"
| "cmd_items (DExtend xs) = xs"
| "cmd_items _ = []"

fun obs_items :: "'a deque_obs \<Rightarrow> 'a list" where
  "obs_items (OPush (Inl x)) = [x]"
| "obs_items (OExtend xs) = xs"
| "obs_items (OPop (Some x)) = [x]"
| "obs_items (OStealAndPop (Inr (x, _))) = [x]"
| "obs_items (ODrain (Inr xs)) = xs"
| "obs_items _ = []"

lemma spec_pop_items: "mset (case fst (spec_pop xs) of None \<Rightarrow> [] | Some x \<Rightarrow> [x]) + mset (snd (spec_pop xs)) = mset xs"
proof (cases xs rule: rev_cases)
  case (snoc ys y)
  then show ?thesis by (simp add: spec_pop_def)
qed (simp add: spec_pop_def)

lemma obs_pop_items: "obs_items (OPop r) = (case r of None \<Rightarrow> [] | Some x \<Rightarrow> [x])"
  by (cases r) simp_all

lemma spec_steal_cases:
  obtains (err) e where "spec_steal b c xs = Inl e" | (got) "spec_steal b c xs = Inr c" "0 < c"
  by (cases "xs = []"; cases "0 < b"; cases "c = 0") (auto simp: spec_steal_def)

lemma mset_take_drop: "mset (take n xs) + mset (drop n xs) = mset xs"
  by (metis append_take_drop_id mset_append)

lemma take_one_more: "0 < n \<Longrightarrow> n \<le> length ys \<Longrightarrow> mset (take (n - 1) ys) + {#ys ! (n - 1)#} + mset (drop n ys) = mset ys"
proof -
  assume n: "0 < n" "n \<le> length ys"
  then have "take n ys = take (n - 1) ys @ [ys ! (n - 1)]" by (cases n) (simp_all add: take_Suc_conv_app_nth)
  then have "mset (take (n - 1) ys) + {#ys ! (n - 1)#} = mset (take n ys)" by simp
  then show ?thesis by (simp add: mset_take_drop)
qed

lemma spec_step_conserves:
  "spec_step cap cap' c xs ys = (ob, xs', ys') \<Longrightarrow> mset (obs_items ob) + mset xs' + mset ys' = mset (cmd_items c) + mset xs + mset ys"
proof (cases c)
  case (DStealAndPop f k)
  assume step: "spec_step cap cap' c xs ys = (ob, xs', ys')"
  show ?thesis
  proof (cases rule: spec_steal_cases [of 0 "block_size f k (Suc (cap - length xs)) (length ys)" ys])
    case err
    with step DStealAndPop show ?thesis by (auto simp: Let_def)
  next
    case got
    with step DStealAndPop take_one_more [OF got(2) block_size_le(2)] show ?thesis by (auto simp: Let_def ac_simps)
  qed
next
  case (DSteal f k)
  assume "spec_step cap cap' c xs ys = (ob, xs', ys')"
  with DSteal show ?thesis by (auto simp: Let_def mset_append [symmetric] simp del: mset_append)
next
  case (DDrain f k)
  assume step: "spec_step cap cap' c xs ys = (ob, xs', ys')"
  show ?thesis
  proof (cases rule: spec_steal_cases [of 0 "block_size f k (length xs) (length xs)" xs])
    case got
    with step DDrain show ?thesis by (auto simp: Let_def mset_take_drop)
  qed (use step DDrain in \<open>auto simp: Let_def\<close>)
next
  case (DExtend zs)
  assume "spec_step cap cap' c xs ys = (ob, xs', ys')"
  with DExtend show ?thesis
    by (auto simp: ac_simps) (metis append_take_drop_id mset_append union_commute)
next
  case (DPop k)
  assume "spec_step cap cap' c xs ys = (ob, xs', ys')"
  with DPop spec_pop_items [of xs] show ?thesis by (auto simp: obs_pop_items)
qed (auto split: if_splits)

lemma conserve_trans:
  fixes a :: "'a multiset"
  assumes "a + x + y = b + x1 + y1" and "p + x1 + y1 = r + x0 + y0"
  shows "p + a + x + y = r + b + x0 + y0"
proof -
  have "p + a + x + y = p + (a + x + y)" by (simp add: ac_simps)
  also have "\<dots> = (p + x1 + y1) + b" unfolding assms(1) by (simp add: ac_simps)
  finally show ?thesis unfolding assms(2) by (simp add: ac_simps)
qed

lemma spec_run_conserves:
  "spec_run cap cap' cs xs ys = (obs, xs', ys') \<Longrightarrow>
   mset (concat (map obs_items obs)) + mset xs' + mset ys' = mset (concat (map (cmd_items \<circ> snd) cs)) + mset xs + mset ys"
proof (induction cs arbitrary: xs ys obs)
  case (Cons fc cs)
  obtain first c where fc: "fc = (first, c)" by (cases fc)
  define s where "s = (if first then spec_step cap cap' c xs ys else let (ob, ys1, xs1) = spec_step cap' cap c ys xs in (ob, xs1, ys1))"
  obtain ob xs1 ys1 where s: "s = (ob, xs1, ys1)" by (cases s)
  have one: "mset (obs_items ob) + mset xs1 + mset ys1 = mset (cmd_items c) + mset xs + mset ys"
    using s spec_step_conserves [of cap cap' c xs ys ob xs1 ys1] spec_step_conserves [of cap' cap c ys xs ob ys1 xs1]
    by (auto simp: s_def ac_simps split: if_splits prod.splits)
  from Cons.prems obtain obs1 where r: "spec_run cap cap' cs xs1 ys1 = (obs1, xs', ys')" "obs = ob # obs1"
    using s by (auto simp: fc s_def [symmetric] split: prod.splits)
  from conserve_trans [OF Cons.IH [OF r(1)] one] r(2) show ?case by (simp add: fc)
qed simp

section \<open>Any implementation behaves like the lists\<close>

context stealing_deque
begin

lemma deque_step_refines:
  assumes me: "holds q cap 0 xs" and other: "holds d cap' 0 ys" and spec: "spec_step cap cap' c xs ys = (ob, xs', ys')"
  shows "\<exists>q' d'. deque_step ops c q d = Inr (ob, q', d') \<and> holds q' cap 0 xs' \<and> holds d' cap' 0 ys'"
proof (cases c)
  case (DPush x)
  with push_law [OF me, of x] me other spec show ?thesis by (auto split: if_splits)
next
  case (DExtend zs)
  with extend_law [OF me refl, of zs] other spec show ?thesis by auto
next
  case (DPop k)
  with pop_law [OF me, of k] other spec show ?thesis by auto
next
  case (DSteal f k)
  with steal_law [OF other me refl refl, of f k] spec show ?thesis by (auto simp: Let_def)
next
  case (DStealAndPop f k)
  with steal_and_pop_law [OF other me refl refl, of f k] spec show ?thesis by (auto simp: Let_def)
next
  case (DDrain f k)
  with drain_law [OF me refl refl, of f k] other spec show ?thesis by (auto simp: Let_def)
qed

lemma deque_run_refines:
  "holds q cap 0 xs \<Longrightarrow> holds d cap' 0 ys \<Longrightarrow> spec_run cap cap' cs xs ys = (obs, xs', ys') \<Longrightarrow>
   \<exists>q' d'. deque_run ops cs q d = Inr (obs, q', d') \<and> holds q' cap 0 xs' \<and> holds d' cap' 0 ys'"
proof (induction cs arbitrary: q d xs ys obs)
  case (Cons fc cs)
  obtain first c where fc: "fc = (first, c)" by (cases fc)
  define s where "s = (if first then spec_step cap cap' c xs ys else let (ob, ys1, xs1) = spec_step cap' cap c ys xs in (ob, xs1, ys1))"
  obtain ob xs1 ys1 where s: "s = (ob, xs1, ys1)" by (cases s)
  from Cons.prems obtain obs1 where r: "spec_run cap cap' cs xs1 ys1 = (obs1, xs', ys')" "obs = ob # obs1"
    using s by (auto simp: fc s_def [symmetric] split: prod.splits)
  have "\<exists>q1 d1. (if first then deque_step ops c q d else bind_res (deque_step ops c d q) (\<lambda>(ob, d', q'). Inr (ob, q', d'))) = Inr (ob, q1, d1)
      \<and> holds q1 cap 0 xs1 \<and> holds d1 cap' 0 ys1"
    using s deque_step_refines [OF Cons.prems(1,2), of c ob xs1 ys1] deque_step_refines [OF Cons.prems(2,1), of c ob ys1 xs1]
    by (fastforce simp: s_def split: if_splits prod.splits)
  then obtain q1 d1 where one: "(if first then deque_step ops c q d else bind_res (deque_step ops c d q) (\<lambda>(ob, d', q'). Inr (ob, q', d'))) = Inr (ob, q1, d1)"
      "holds q1 cap 0 xs1" "holds d1 cap' 0 ys1" by blast
  from Cons.IH [OF one(2,3) r(1)] one(1) r(2) show ?case by (auto simp: fc)
qed auto

text \<open>Pushing a batch that fits and popping it back gives it in reverse, and leaves what was there.\<close>

lemma push_then_pop:
  assumes q: "holds q cap booked xs" and fits: "booked + length xs < cap"
  shows "\<exists>q1 q2. dq_push ops q x = Inr (Inr (), q1) \<and> dq_pop ops k q1 = Inr (Some x, q2) \<and> holds q2 cap booked xs"
proof -
  from push_law [OF q, of x] fits obtain q1 where q1: "dq_push ops q x = Inr (Inr (), q1)" "holds q1 cap booked (xs @ [x])" by auto
  with pop_law [OF q1(2), of k] show ?thesis by (auto simp: spec_pop_def)
qed

end

section \<open>The deque of the scheduler\<close>

definition lifo_ops :: "('a lifo_queue, 'a) deque_ops" where
  "lifo_ops = \<lparr>dq_push = lifo_push, dq_extend = lifo_extend, dq_pop = lifo_pop, dq_steal = lifo_steal,
     dq_steal_and_pop = lifo_steal_and_pop, dq_drain = lifo_drain_all\<rparr>"

definition lifo_holds :: "'a lifo_queue \<Rightarrow> nat \<Rightarrow> nat \<Rightarrow> 'a list \<Rightarrow> bool" where
  "lifo_holds q cap booked xs \<longleftrightarrow> (\<exists>m bs. lifo_inv q m bs xs \<and> booked = m + length bs \<and> cap = room q)"

lemma lifo_holds_quiet: "lifo_inv q m bs xs \<Longrightarrow> m + length bs = 0 \<Longrightarrow> lifo_inv q 0 [] xs"
  by auto

lemma block_size_0: "block_size f k l n = 0 \<longleftrightarrow> (\<exists>j \<le> k. min (min (f j n) l) n = 0)"
  by (auto simp: block_size_def)

lemma block_size_pos:
  assumes "0 < block_size f k l n"
  shows "\<forall>j \<le> k. min (min (f j n) l) n \<noteq> 0" and "block_size f k l n = min (min (f k n) l) n"
proof -
  show all: "\<forall>j \<le> k. min (min (f j n) l) n \<noteq> 0" using assms block_size_0 [of f k l n] by (metis not_less_zero)
  then show "block_size f k l n = min (min (f k n) l) n" unfolding block_size_def by meson
qed

lemma lifo_steal_law:
  assumes "lifo_holds q cap booked xs" and "lifo_holds d cap' booked' ys"
    and r: "r = spec_steal booked (block_size f k (cap' - (booked' + length ys)) (length xs)) xs" and n: "n = case_sum (\<lambda>_. 0) id r"
  shows "\<exists>q' d'. lifo_steal f k q d = Inr (r, q', d') \<and> lifo_holds q' cap booked (drop n xs) \<and> lifo_holds d' cap' booked' (ys @ take n xs)"
proof -
  from assms(1,2) obtain m bs m' ds where q: "lifo_inv q m bs xs" "booked = m + length bs" "cap = room q"
    and d: "lifo_inv d m' ds ys" "booked' = m' + length ds" "cap' = room d" by (auto simp: lifo_holds_def)
  let ?c = "block_size f k (cap' - (booked' + length ys)) (length xs)"
  note keep = assms(1,2) lifo_steal_fails [OF q(1) d(1), where count_fn = f and spurious = k]
  consider (empty) "xs = []" | (busy) "xs \<noteq> []" "0 < booked" | (none) "xs \<noteq> []" "booked = 0" "?c = 0" | (some) "xs \<noteq> []" "booked = 0" "0 < ?c" by blast
  then show ?thesis
  proof cases
    case some
    note c = block_size_pos [OF some(3)]
    from q some have inv: "lifo_inv q 0 [] xs" using lifo_holds_quiet by metis
    have fr: "cap' - (booked' + length ys) = room d - (m' + length ds + length ys)" by (simp add: d)
    from lifo_steal_takes [where count_fn = f and spurious = k, OF inv d(1) fr c] obtain q' d' where
      "lifo_steal f k q d = Inr (Inr ?c, q', d')" "lifo_inv q' 0 [] (drop ?c xs)" "lifo_inv d' m' ds (ys @ take ?c xs)" "room q' = room q" "room d' = room d" by blast
    moreover have "r = Inr ?c" "n = ?c" using some r n by (simp_all add: spec_steal_def)
    ultimately show ?thesis using q(3) d(2,3) some(2) unfolding lifo_holds_def by (metis add_0 list.size(3))
  next
    case empty
    with r n keep show ?thesis by (simp add: spec_steal_def)
  next
    case busy
    with r n keep q show ?thesis by (simp add: spec_steal_def)
  next
    case none
    then have "\<exists>j \<le> k. min (min (f j (length xs)) (room d - (m' + length ds + length ys))) (length xs) = 0" using d by (simp add: block_size_0)
    with none r n keep q show ?thesis by (simp add: spec_steal_def)
  qed
qed

lemma lifo_steal_and_pop_law:
  assumes "lifo_holds q cap booked xs" and "lifo_holds d cap' booked' ys"
    and r: "r = spec_steal booked (block_size f k (Suc (cap' - (booked' + length ys))) (length xs)) xs" and n: "n = case_sum (\<lambda>_. 0) id r"
  shows "\<exists>q' d'. lifo_steal_and_pop f k q d = Inr (map_sum id (\<lambda>n. (xs ! (n - 1), n - 1)) r, q', d') \<and>
     lifo_holds q' cap booked (drop n xs) \<and> lifo_holds d' cap' booked' (ys @ take (n - 1) xs)"
proof -
  from assms(1,2) obtain m bs m' ds where q: "lifo_inv q m bs xs" "booked = m + length bs" "cap = room q"
    and d: "lifo_inv d m' ds ys" "booked' = m' + length ds" "cap' = room d" by (auto simp: lifo_holds_def)
  let ?c = "block_size f k (Suc (cap' - (booked' + length ys))) (length xs)"
  note keep = assms(1,2) lifo_steal_and_pop_fails [OF q(1) d(1), where count_fn = f and spurious = k]
  consider (empty) "xs = []" | (busy) "xs \<noteq> []" "0 < booked" | (none) "xs \<noteq> []" "booked = 0" "?c = 0" | (some) "xs \<noteq> []" "booked = 0" "0 < ?c" by blast
  then show ?thesis
  proof cases
    case some
    note c = block_size_pos [OF some(3)]
    obtain c1 where c1: "?c = Suc c1" using some(3) by (cases ?c) auto
    from q some have inv: "lifo_inv q 0 [] xs" using lifo_holds_quiet by metis
    have fr: "cap' - (booked' + length ys) = room d - (m' + length ds + length ys)" by (simp add: d)
    from lifo_steal_and_pop_takes [where count_fn = f and spurious = k and c = c1, OF inv d(1) fr c(1)] c(2) c1 obtain q' d' where
      "lifo_steal_and_pop f k q d = Inr (Inr (xs ! c1, c1), q', d')" "lifo_inv q' 0 [] (drop (Suc c1) xs)" "lifo_inv d' m' ds (ys @ take c1 xs)" "room q' = room q" "room d' = room d"
      by metis
    moreover have "r = Inr (Suc c1)" "n = Suc c1" using some r n c1 by (simp_all add: spec_steal_def)
    ultimately show ?thesis using q(3) d(2,3) some(2) by (auto simp: lifo_holds_def)
  next
    case empty
    with r n keep show ?thesis by (simp add: spec_steal_def)
  next
    case busy
    with r n keep q show ?thesis by (simp add: spec_steal_def)
  next
    case none
    then have "\<exists>j \<le> k. min (min (f j (length xs)) (Suc (room d - (m' + length ds + length ys)))) (length xs) = 0" using d by (simp add: block_size_0)
    with none r n keep q show ?thesis by (simp add: spec_steal_def)
  qed
qed

lemma lifo_drain_law:
  assumes "lifo_holds q cap booked xs"
    and r: "r = (if 0 < booked then Inl StealBusy else spec_steal 0 (block_size f k (length xs) (length xs)) xs)" and n: "n = case_sum (\<lambda>_. 0) id r"
  shows "\<exists>q'. lifo_drain_all f k q = Inr (map_sum id (\<lambda>n. take n xs) r, q') \<and> lifo_holds q' cap booked (drop n xs)"
proof -
  from assms(1) obtain m bs where q: "lifo_inv q m bs xs" "booked = m + length bs" "cap = room q" by (auto simp: lifo_holds_def)
  let ?c = "block_size f k (length xs) (length xs)"
  have lim: "min (min a (length xs)) (length xs) = min a (length xs)" for a by simp
  consider (busy) "0 < booked" | (none) "booked = 0" "?c = 0" | (some) "booked = 0" "0 < ?c" by blast
  then show ?thesis
  proof cases
    case some
    note c = block_size_pos [OF some(2), unfolded lim]
    from q some have inv: "lifo_inv q 0 [] xs" using lifo_holds_quiet by metis
    from lifo_drain_takes [where count_fn = f and spurious = k, OF inv c(2,1)] obtain q' where
      "lifo_drain_all f k q = Inr (Inr (take ?c xs), q')" "lifo_inv q' 0 [] (drop ?c xs)" "room q' = room q" by metis
    moreover have "xs \<noteq> []" using some(2) block_size_le(2) [of f k "length xs" "length xs"] by auto
    then have "r = Inr ?c" "n = ?c" using some r n by (simp_all add: spec_steal_def)
    ultimately show ?thesis using q(3) some(1) by (auto simp: lifo_holds_def)
  next
    case busy
    with r n q lifo_drain_fails(1) [OF q(1)] assms(1) show ?thesis by simp
  next
    case none
    then have "\<exists>j \<le> k. min (f j (length xs)) (length xs) = 0" by (simp add: block_size_0)
    with lifo_drain_fails(2) [OF q(1)] q(2) none r n assms(1) show ?thesis by (auto simp: spec_steal_def)
  qed
qed

lemma lifo_ops_thieves: "dq_steal lifo_ops = lifo_steal" "dq_steal_and_pop lifo_ops = lifo_steal_and_pop"
  by (simp_all add: lifo_ops_def)

interpretation lifo: stealing_deque "lifo_ops :: ('a lifo_queue, 'a) deque_ops" lifo_holds
proof
  fix q d :: "'a lifo_queue" and cap cap' booked booked' free n k xs ys items x f r
  assume h: "lifo_holds q cap booked xs"
  then obtain m bs where q: "lifo_inv q m bs xs" "booked = m + length bs" "cap = room q" by (auto simp: lifo_holds_def)
  note fits = lifo_inv_facts(6) [OF q(1)]
  show "booked + length xs \<le> cap" using fits q by simp
  show "if booked + length xs < cap then \<exists>q'. dq_push lifo_ops q x = Inr (Inr (), q') \<and> lifo_holds q' cap booked (xs @ [x]) else dq_push lifo_ops q x = Inr (Inl x, q)"
    using lifo_push_stores [OF q(1), of x] lifo_push_full [OF q(1), of x] fits q by (auto simp: lifo_ops_def lifo_holds_def) (metis add.assoc)
  show "\<exists>q'. dq_extend lifo_ops q items = Inr (drop free items, q') \<and> lifo_holds q' cap booked (xs @ take free items)" if "free = cap - (booked + length xs)"
    using lifo_extend_stores [OF q(1), of free items] that q by (auto simp: lifo_ops_def lifo_holds_def) (metis add.assoc)
  show "\<exists>q'. dq_pop lifo_ops k q = Inr (fst (spec_pop xs), q') \<and> lifo_holds q' cap booked (snd (spec_pop xs))"
  proof (cases xs rule: rev_cases)
    case Nil
    with q lifo_pop_none [of q m bs k] h show ?thesis by (simp add: lifo_ops_def spec_pop_def)
  next
    case (snoc zs z)
    with q have "lifo_inv q m bs (zs @ [z])" by simp
    from lifo_pop_takes [OF this, of k] obtain q' where "lifo_pop k q = Inr (Some z, q')" "lifo_inv q' m bs zs" "room q' = room q" by blast
    with snoc q show ?thesis by (auto simp: lifo_ops_def spec_pop_def lifo_holds_def)
  qed
  show "\<exists>q'. dq_drain lifo_ops f k q = Inr (map_sum id (\<lambda>n. take n xs) r, q') \<and> lifo_holds q' cap booked (drop n xs)"
    if "r = (if 0 < booked then Inl StealBusy else spec_steal 0 (block_size f k (length xs) (length xs)) xs)" "n = case_sum (\<lambda>_. 0) id r"
    using lifo_drain_law [OF h that] by (simp add: lifo_ops_def)
qed (unfold lifo_ops_thieves, (rule lifo_steal_law lifo_steal_and_pop_law, assumption+)+)

end
