(* ===== verification/St3_Claims.thy ===== *)
theory St3_Claims
  imports St3_Deque
begin

text \<open>What clients of the work-stealing deque rely on, from its constructor on.\<close>

lemma lifo_new_holds:
  assumes "n \<le> 2 ^ 31"
  obtains q :: "'a lifo_queue" where "lifo_new n = Inr q" "lifo_holds q (next_power_of_two n) 0 []"
proof -
  obtain q :: "'a lifo_queue" where q: "lifo_new n = Inr q" "lifo_inv q 0 [] []" using lifo_new_inv [OF assms] by blast
  then have "room q = next_power_of_two n"
    by (auto simp: lifo_new_def npot_res_def Let_def allocate_buffer_def split: if_splits)
  with q that show thesis by (metis add_0 lifo_holds_def list.size(3))
qed

text \<open>The items in the initialised slots of a ring.\<close>

definition slot_items :: "'a lifo_queue \<Rightarrow> 'a multiset" where
  "slot_items q = mset (map the (filter (\<lambda>s. s \<noteq> None) (lq_buffer q)))"

lemma mset_rotate: "mset (rotate n xs) = mset xs"
proof (induction n)
  case (Suc n)
  then show ?case by (cases "rotate n xs") (simp_all add: rotate_def)
qed simp

lemma slot_items_quiet:
  assumes "lifo_holds q cap 0 xs"
  shows "slot_items q = mset xs"
proof -
  from assms have inv: "lifo_inv q 0 [] xs" by (auto simp: lifo_holds_def)
  have "mset (lq_buffer q) = mset (view (lq_buffer q) (lq_head q))" by (simp add: view_def mset_rotate)
  also have "\<dots> = mset (map Some xs) + mset (replicate (room q - length xs) None)" using lifo_inv_facts(5) [OF inv] by simp
  finally have buf: "mset (lq_buffer q) = image_mset Some (mset xs) + replicate_mset (room q - length xs) None" by simp
  have "slot_items q = image_mset the (filter_mset (\<lambda>s. s \<noteq> None) (mset (lq_buffer q)))" by (simp add: slot_items_def)
  also have "\<dots> = mset xs" unfolding buf by (simp add: filter_mset_image_mset image_mset.compositionality comp_def)
  finally show ?thesis .
qed

text \<open>
  C30. The scheduler's deque is a list: from two fresh deques of any allowed capacities, every sequence
  of pushes, batch pushes, pops, steals, steals with a pop and drains by their two owners returns
  exactly what the same commands on two lists return, errors included. Pops are at the end of the
  owner's list, a thief moves a block from the front of the other list, in order, limited by its own
  free room, and no command faults: no slot is read uninitialised and no debug assertion fires. A capacity above the limit is refused.
\<close>

theorem lifo_deque_refines_lists:
  "(if n \<le> 2 ^ 31 \<and> n' \<le> 2 ^ 31 then
      \<exists>(q :: 'a lifo_queue) (d :: 'a lifo_queue). lifo_new n = Inr q \<and> lifo_new n' = Inr d \<and>
        (\<forall>cs. \<exists>q' d'. deque_run lifo_ops cs q d = Inr (fst (spec_run (next_power_of_two n) (next_power_of_two n') cs [] []), q', d'))
    else lifo_new (max n n') = (Inl ExplicitPanic :: 'a lifo_queue res))"
proof (cases "n \<le> 2 ^ 31 \<and> n' \<le> 2 ^ 31")
  case True
  then obtain q d :: "'a lifo_queue" where
    q: "lifo_new n = Inr q" "lifo_holds q (next_power_of_two n) 0 []" and d: "lifo_new n' = Inr d" "lifo_holds d (next_power_of_two n') 0 []"
    using lifo_new_holds by metis
  have "\<exists>q' d'. deque_run lifo_ops cs q d = Inr (fst (spec_run (next_power_of_two n) (next_power_of_two n') cs [] []), q', d')" for cs
    using lifo.deque_run_refines [OF q(2) d(2), of cs] by (cases "spec_run (next_power_of_two n) (next_power_of_two n') cs ([] :: 'a list) []") fastforce
  with q(1) d(1) True show ?thesis by auto
qed (auto simp: lifo_new_def MAX_CAPACITY_def max_def)

text \<open>
  The deque neither loses nor duplicates an item: after any sequence of commands of two owners on
  fresh deques, what was handed out, together with the initialised slots of the two rings, is exactly
  what was put in; and freeing the deques reads every initialised slot and no other.
\<close>

theorem lifo_deque_conserves:
  fixes cs :: "(bool \<times> 'a deque_cmd) list"
  assumes "lifo_new n = Inr q" and "lifo_new n' = Inr d"
  shows "\<exists>obs q' d'. deque_run lifo_ops cs q d = Inr (obs, q', d') \<and>
     mset (concat (map obs_items obs)) + slot_items q' + slot_items d' = mset (concat (map (cmd_items \<circ> snd) cs)) \<and>
     lifo_drop q' = Inr (replicate (length (lq_buffer q)) None) \<and> lifo_drop d' = Inr (replicate (length (lq_buffer d)) None)"
proof -
  have small: "n \<le> 2 ^ 31" "n' \<le> 2 ^ 31" using assms by (auto simp: lifo_new_def MAX_CAPACITY_def split: if_splits)
  let ?c = "next_power_of_two n" and ?c' = "next_power_of_two n'"
  have h: "lifo_holds q ?c 0 []" "lifo_holds d ?c' 0 []" using lifo_new_holds [OF small(1)] lifo_new_holds [OF small(2)] assms by (metis Inr_inject)+
  obtain obs xs ys where s: "spec_run ?c ?c' cs [] [] = (obs, xs, ys)" by (cases "spec_run ?c ?c' cs ([] :: 'a list) []")
  from lifo.deque_run_refines [OF h s] obtain q' d' where
    r: "deque_run lifo_ops cs q d = Inr (obs, q', d')" "lifo_holds q' ?c 0 xs" "lifo_holds d' ?c' 0 ys" by blast
  have "lifo_drop p' = Inr (replicate (length (lq_buffer p)) None)" if "lifo_holds p' c 0 zs" "lifo_holds p c 0 ws" for p p' :: "'a lifo_queue" and c zs ws
    using that lifo_drop_empties [of p' zs] by (auto simp: lifo_holds_def)
  from this [OF r(2) h(1)] this [OF r(3) h(2)] r(1) spec_run_conserves [OF s] slot_items_quiet [OF r(2)] slot_items_quiet [OF r(3)]
  show ?thesis by auto
qed

theorem lifo_deque_conserves_witness:
  "\<exists>obs q' d'. deque_run lifo_ops [(True, DPush (3 :: nat)), (False, DSteal (\<lambda>_ n. n) 2)] (case lifo_new 4 of Inr q \<Rightarrow> q) (case lifo_new 2 of Inr q \<Rightarrow> q) = Inr (obs, q', d') \<and>
     mset (concat (map obs_items obs)) + slot_items q' + slot_items d' = {#3#}"
proof -
  obtain q d :: "nat lifo_queue" where q: "lifo_new 4 = Inr q" and d: "lifo_new 2 = Inr d"
    using lifo_new_holds [of 4 thesis] lifo_new_holds [of 2 thesis] by auto
  from lifo_deque_conserves [OF q d, of "[(True, DPush 3), (False, DSteal (\<lambda>_ n. n) 2)]"] q d show ?thesis by auto
qed

fun pop_each :: "nat list \<Rightarrow> 'a lifo_queue \<Rightarrow> ('a option list \<times> 'a lifo_queue) res" where
  "pop_each [] q = Inr ([], q)"
| "pop_each (k # ks) q = bind_res (lifo_pop k q) (\<lambda>(r, q'). bind_res (pop_each ks q') (\<lambda>(rs, q''). Inr (r # rs, q'')))"

lemma pop_each_takes:
  "lifo_inv q m bs (xs @ vs) \<Longrightarrow> length ks = length vs \<Longrightarrow>
   \<exists>q'. pop_each ks q = Inr (map Some (rev vs), q') \<and> lifo_inv q' m bs xs \<and> room q' = room q"
proof (induction vs arbitrary: ks q rule: rev_induct)
  case (snoc v vs)
  then obtain k ks' where ks: "ks = k # ks'" by (cases ks) auto
  from snoc.prems(1) have "lifo_inv q m bs ((xs @ vs) @ [v])" by simp
  from lifo_pop_takes [OF this, of k] obtain q1 where "lifo_pop k q = Inr (Some v, q1)" "lifo_inv q1 m bs (xs @ vs)" "room q1 = room q" by blast
  with snoc.IH [of q1 ks'] snoc.prems(2) ks show ?case by auto
qed simp

text \<open>
  C31. Pushing and popping are inverse: on a deque in any state, thieves in the middle of a transfer
  included, a batch that fits is stored whole, popping as many items gives it back in reverse whatever
  compare-and-swaps fail on the way, and the deque is left with the items, the booked block and the
  room it had.
\<close>

theorem lifo_push_pop_roundtrip:
  assumes inv: "lifo_inv q m bs xs" and fits: "m + length bs + length xs + length vs \<le> length (lq_buffer q)" and ks: "length ks = length vs"
  shows "\<exists>q1 q2. lifo_extend q vs = Inr ([], q1) \<and> pop_each ks q1 = Inr (map Some (rev vs), q2) \<and>
     lifo_inv q2 m bs xs \<and> length (lq_buffer q2) = length (lq_buffer q) \<and> lifo_spare_capacity q2 = lifo_spare_capacity q"
proof -
  from lifo_extend_stores [OF inv refl, of vs] fits obtain q1 where q1: "lifo_extend q vs = Inr ([], q1)" "lifo_inv q1 m bs (xs @ vs)" "room q1 = room q"
    by auto
  from pop_each_takes [OF q1(2) ks] q1(3) obtain q2 where q2: "pop_each ks q1 = Inr (map Some (rev vs), q2)" "lifo_inv q2 m bs xs" "room q2 = room q" by auto
  from free_capacity [OF inv] free_capacity [OF q2(2)] q2(3) have "lifo_spare_capacity q2 = lifo_spare_capacity q" by (auto simp: lifo_spare_capacity_def)
  with q1 q2 show ?thesis by auto
qed

theorem lifo_push_pop_roundtrip_witness:
  "\<exists>q0 q1 q2. lifo_new 4 = Inr q0 \<and> lifo_extend q0 [7 :: nat, 8] = Inr ([], q1) \<and> pop_each [1, 0] q1 = Inr ([Some 8, Some 7], q2) \<and> lifo_inv q2 0 [] []"
proof -
  obtain q :: "nat lifo_queue" where q: "lifo_new 4 = Inr q" "lifo_inv q 0 [] []" "4 \<le> room q" using lifo_new_inv [of 4] by auto
  from lifo_push_pop_roundtrip [OF q(2), of "[7, 8]" "[1, 0]"] q show ?thesis by auto
qed

end
