(* ===== verification/St3_Race.thy ===== *)
theory St3_Race
  imports St3_Claims
begin

text \<open>
  The work-stealing deque under interleaving: one owner pushes and pops while any number of thieves
  load, compare, swap, move items out and release slots, one memory access at a time in any order
  (accesses are sequentially consistent here; the orderings of the source are not modelled). The
  program counters hold what each thread has loaded, which may be stale by the time it is used.

  Counters wrap. A thief's compare-and-swap is only meaningful if the packed word it loaded has not
  come round to the same value: the machine lets a swap succeed when fewer than \<open>2 ^ 32\<close> items were
  popped and booked since the thief's loads. The owner needs no such bound.
\<close>

section \<open>The machine\<close>

datatype 'a owner_pc =
    OIdle
  | OWrite pos pos 'a
  | OStore pos
  | OPop "64 word" pos pos
  | OTake pos

datatype thief_pc =
    TIdle
  | TPch "64 word" nat nat
  | THead "64 word" nat nat pos nat
  | TReady "64 word" nat nat pos nat pos
  | TMove pos pos

text \<open>
  Beside the deque and the program counters, the history: how many items were popped, booked and
  released, and which items went in and came out.
\<close>

record 'a race =
  rc_queue :: "'a lifo_queue"
  rc_owner :: "'a owner_pc"
  rc_thief :: "nat \<Rightarrow> thief_pc"
  rc_pops :: nat
  rc_books :: nat
  rc_frees :: nat
  rc_pushed :: "'a list"
  rc_popped :: "'a list"
  rc_stolen :: "'a list"
  rc_faulted :: bool

definition race_init :: "'a lifo_queue \<Rightarrow> 'a race" where
  "race_init q = \<lparr>rc_queue = q, rc_owner = OIdle, rc_thief = (\<lambda>_. TIdle), rc_pops = 0, rc_books = 0, rc_frees = 0,
     rc_pushed = [], rc_popped = [], rc_stolen = [], rc_faulted = False\<rparr>"

text \<open>The three steps that touch a slot; an uninitialised read or a bad index is a fault.\<close>

definition owner_write :: "pos \<Rightarrow> pos \<Rightarrow> 'a \<Rightarrow> 'a race \<Rightarrow> 'a race" where
  "owner_write tail push_count item s =
     (case write_at (lq_buffer (rc_queue s)) (lq_mask (rc_queue s)) tail item of
        Inl _ \<Rightarrow> s\<lparr>rc_faulted := True\<rparr>
      | Inr buf \<Rightarrow> s\<lparr>rc_queue := (rc_queue s)\<lparr>lq_buffer := buf\<rparr>, rc_owner := OStore push_count, rc_pushed := rc_pushed s @ [item]\<rparr>)"

definition owner_take :: "pos \<Rightarrow> 'a race \<Rightarrow> 'a race" where
  "owner_take p s =
     (case read_at (lq_buffer (rc_queue s)) (lq_mask (rc_queue s)) p of
        Inl _ \<Rightarrow> s\<lparr>rc_faulted := True\<rparr>
      | Inr (item, buf) \<Rightarrow> s\<lparr>rc_queue := (rc_queue s)\<lparr>lq_buffer := buf\<rparr>, rc_owner := OIdle, rc_popped := rc_popped s @ [item]\<rparr>)"

definition thief_move :: "nat \<Rightarrow> pos \<Rightarrow> pos \<Rightarrow> 'a race \<Rightarrow> 'a race" where
  "thief_move t current end s =
     (case read_at (lq_buffer (rc_queue s)) (lq_mask (rc_queue s)) current of
        Inl _ \<Rightarrow> s\<lparr>rc_faulted := True\<rparr>
      | Inr (item, buf) \<Rightarrow> s\<lparr>rc_queue := (rc_queue s)\<lparr>lq_buffer := buf\<rparr>, rc_thief := (rc_thief s)(t := TMove (current + 1) end),
          rc_stolen := rc_stolen s @ [item]\<rparr>)"

definition thief_count :: "64 word \<Rightarrow> pos \<Rightarrow> nat \<Rightarrow> pos \<Rightarrow> pos" where
  "thief_count w push_count want max_count =
     (let item_count = push_count - fst (unpack w) - snd (unpack w) in
      min (of_nat (min want (unat max_count))) item_count)"

abbreviation set_thief :: "nat \<Rightarrow> thief_pc \<Rightarrow> 'a race \<Rightarrow> 'a race" where
  "set_thief t pc s \<equiv> s\<lparr>rc_thief := (rc_thief s)(t := pc)\<rparr>"

abbreviation recent :: "nat \<Rightarrow> nat \<Rightarrow> nat \<Rightarrow> 'a race \<Rightarrow> bool" where
  "recent p b h s \<equiv> rc_pops s < p + 2 ^ 32 \<and> rc_books s < b + 2 ^ 32 \<and> rc_books s < h + 2 ^ 32"

inductive race_step :: "'a race \<Rightarrow> 'a race \<Rightarrow> bool" where
  push_full: "rc_owner s = OIdle \<Longrightarrow> lq_mask (rc_queue s) < lq_tail (rc_queue s) - lq_head (rc_queue s) \<Longrightarrow> race_step s s"
| push_begin: "rc_owner s = OIdle \<Longrightarrow> \<not> lq_mask (rc_queue s) < lq_tail (rc_queue s) - lq_head (rc_queue s) \<Longrightarrow>
    race_step s (s\<lparr>rc_owner := OWrite (lq_tail (rc_queue s)) (lq_push_count (rc_queue s)) x\<rparr>)"
| push_write: "rc_owner s = OWrite tail n x \<Longrightarrow> race_step s (owner_write tail n x s)"
| push_store: "rc_owner s = OStore n \<Longrightarrow> race_step s (s\<lparr>rc_queue := (rc_queue s)\<lparr>lq_push_count := n + 1\<rparr>, rc_owner := OIdle\<rparr>)"
| pop_begin: "rc_owner s = OIdle \<Longrightarrow>
    race_step s (s\<lparr>rc_owner := OPop (lq_pop_count_and_head (rc_queue s)) (lq_tail (rc_queue s)) (lq_pop_count (rc_queue s) + 1)\<rparr>)"
| pop_none: "rc_owner s = OPop w tail n \<Longrightarrow> tail = snd (unpack w) \<Longrightarrow> race_step s (s\<lparr>rc_owner := OIdle\<rparr>)"
| pop_swap: "rc_owner s = OPop w tail n \<Longrightarrow> tail \<noteq> snd (unpack w) \<Longrightarrow> lq_pop_count_and_head (rc_queue s) = w \<Longrightarrow>
    race_step s (s\<lparr>rc_queue := (rc_queue s)\<lparr>lq_pop_count_and_head := pack n (snd (unpack w))\<rparr>, rc_owner := OTake (tail - 1), rc_pops := rc_pops s + 1\<rparr>)"
| pop_retry: "rc_owner s = OPop w tail n \<Longrightarrow> tail \<noteq> snd (unpack w) \<Longrightarrow>
    race_step s (s\<lparr>rc_owner := OPop (lq_pop_count_and_head (rc_queue s)) tail n\<rparr>)"
| pop_take: "rc_owner s = OTake p \<Longrightarrow> race_step s (owner_take p s)"
| load_pch: "rc_thief s t = TIdle \<Longrightarrow>
    race_step s (set_thief t (TPch (lq_pop_count_and_head (rc_queue s)) (rc_pops s) (rc_books s)) s)"
| load_head: "rc_thief s t = TPch w p b \<Longrightarrow> race_step s (set_thief t (THead w p b (lq_head (rc_queue s)) (rc_frees s)) s)"
| busy: "rc_thief s t = THead w p b old h \<Longrightarrow> old \<noteq> snd (unpack w) \<Longrightarrow> race_step s (set_thief t TIdle s)"
| nothing: "rc_thief s t = THead w p b old h \<Longrightarrow> old = snd (unpack w) \<Longrightarrow>
    thief_count w (lq_push_count (rc_queue s)) want max_count = 0 \<Longrightarrow> race_step s (set_thief t TIdle s)"
| counted: "rc_thief s t = THead w p b old h \<Longrightarrow> old = snd (unpack w) \<Longrightarrow>
    cnt = thief_count w (lq_push_count (rc_queue s)) want max_count \<Longrightarrow> cnt \<noteq> 0 \<Longrightarrow> race_step s (set_thief t (TReady w p b old h cnt) s)"
| book_swap: "rc_thief s t = TReady w p b old h cnt \<Longrightarrow> lq_pop_count_and_head (rc_queue s) = w \<Longrightarrow> recent p b h s \<Longrightarrow>
    race_step s (set_thief t (TMove (snd (unpack w)) (snd (unpack w) + cnt))
      (s\<lparr>rc_queue := (rc_queue s)\<lparr>lq_pop_count_and_head := pack (fst (unpack w)) (snd (unpack w) + cnt)\<rparr>, rc_books := rc_books s + unat cnt\<rparr>))"
| book_retry: "rc_thief s t = TReady w p b old h cnt \<Longrightarrow>
    race_step s (set_thief t (THead (lq_pop_count_and_head (rc_queue s)) (rc_pops s) (rc_books s) old h) s)"
| move_out: "rc_thief s t = TMove current end \<Longrightarrow> current \<noteq> end \<Longrightarrow> race_step s (thief_move t current end s)"
| release: "rc_thief s t = TMove current end \<Longrightarrow> current = end \<Longrightarrow>
    race_step s (set_thief t TIdle (s\<lparr>rc_queue := (rc_queue s)\<lparr>lq_head := end\<rparr>, rc_frees := rc_books s\<rparr>))"

abbreviation race_reaches :: "'a race \<Rightarrow> 'a race \<Rightarrow> bool" where
  "race_reaches \<equiv> race_step\<^sup>*\<^sup>*"

section \<open>The invariant\<close>

text \<open>
  While the owner is between writing an item and publishing it, or between taking an item off the
  count and reading it, one more slot at the tail is in use: the deque is as if that item were in it.
\<close>

definition closed_queue :: "'a lifo_queue \<Rightarrow> 'a list \<Rightarrow> 'a lifo_queue" where
  "closed_queue q ex = q\<lparr>lq_push_count := lq_push_count q + of_nat (length ex)\<rparr>"

fun owner_ok :: "'a lifo_queue \<Rightarrow> nat \<Rightarrow> 'a list \<Rightarrow> 'a owner_pc \<Rightarrow> bool" where
  "owner_ok q used ex OIdle \<longleftrightarrow> ex = []"
| "owner_ok q used ex (OWrite tail n x) \<longleftrightarrow> ex = [] \<and> tail = lq_tail q \<and> n = lq_push_count q \<and> used < room q"
| "owner_ok q used ex (OStore n) \<longleftrightarrow> length ex = 1 \<and> n = lq_push_count q"
| "owner_ok q used ex (OPop w tail n) \<longleftrightarrow> ex = [] \<and> tail = lq_tail q \<and> n = lq_pop_count q + 1 \<and> fst (unpack w) = lq_pop_count q"
| "owner_ok q used ex (OTake p) \<longleftrightarrow> length ex = 1 \<and> p = lq_tail q"

definition loaded_pch :: "64 word \<Rightarrow> nat \<Rightarrow> nat \<Rightarrow> 'a race \<Rightarrow> bool" where
  "loaded_pch w p b s \<longleftrightarrow> w = pack (of_nat p) (of_nat b) \<and> p \<le> rc_pops s \<and> b \<le> rc_books s"

definition loaded_head :: "pos \<Rightarrow> nat \<Rightarrow> 'a race \<Rightarrow> bool" where
  "loaded_head old h s \<longleftrightarrow> old = of_nat h \<and> h \<le> rc_frees s"

fun thief_ok :: "'a race \<Rightarrow> nat \<Rightarrow> nat \<Rightarrow> thief_pc \<Rightarrow> bool" where
  "thief_ok s m n TIdle \<longleftrightarrow> True"
| "thief_ok s m n (TPch w p b) \<longleftrightarrow> loaded_pch w p b s"
| "thief_ok s m n (THead w p b old h) \<longleftrightarrow> loaded_pch w p b s \<and> loaded_head old h s"
| "thief_ok s m n (TReady w p b old h cnt) \<longleftrightarrow> loaded_pch w p b s \<and> loaded_head old h s \<and> old = snd (unpack w) \<and> cnt \<noteq> 0 \<and>
     (rc_pops s = p \<and> rc_books s = b \<longrightarrow> unat cnt \<le> n)"
| "thief_ok s m n (TMove current end) \<longleftrightarrow> current = lq_head (rc_queue s) + of_nat m \<and> end = lq_booked (rc_queue s)"

fun moving :: "thief_pc \<Rightarrow> bool" where
  "moving (TMove _ _) = True"
| "moving _ = False"

text \<open>
  \<open>m\<close> slots of the booked block are moved out, \<open>bs\<close> are not yet; \<open>xs\<close> is what may be popped or booked;
  \<open>ex\<close> is the item in the owner's hands.
\<close>

definition race_inv :: "nat \<Rightarrow> nat \<Rightarrow> 'a list \<Rightarrow> 'a list \<Rightarrow> 'a list \<Rightarrow> 'a race \<Rightarrow> bool" where
  "race_inv cap m bs xs ex s \<longleftrightarrow>
     \<not> rc_faulted s \<and> room (rc_queue s) = cap \<and>
     lifo_inv (closed_queue (rc_queue s) ex) m bs (xs @ ex) \<and>
     lq_pop_count_and_head (rc_queue s) = pack (of_nat (rc_pops s)) (of_nat (rc_books s)) \<and>
     lq_head (rc_queue s) = of_nat (rc_frees s) \<and> rc_books s = rc_frees s + m + length bs \<and>
     owner_ok (rc_queue s) (m + length bs + length xs) ex (rc_owner s) \<and>
     (\<forall>t. thief_ok s m (length xs) (rc_thief s t)) \<and>
     (\<forall>t u. moving (rc_thief s t) \<longrightarrow> moving (rc_thief s u) \<longrightarrow> t = u) \<and>
     (m + length bs = 0 \<longleftrightarrow> (\<forall>t. \<not> moving (rc_thief s t))) \<and>
     mset (rc_pushed s) = mset (rc_popped s) + mset (rc_stolen s) + mset (bs @ xs @ ex)"

section \<open>What the invariant says of the counters\<close>

lemma closed_queue_simps [simp]:
  "lq_head (closed_queue q ex) = lq_head q" "lq_pop_count_and_head (closed_queue q ex) = lq_pop_count_and_head q"
  "lq_buffer (closed_queue q ex) = lq_buffer q" "lq_mask (closed_queue q ex) = lq_mask q" "closed_queue q [] = q"
  "lq_push_count (closed_queue q ex) = lq_push_count q + of_nat (length ex)"
  by (simp_all add: closed_queue_def)

lemma closed_queue_updates:
  "closed_queue (q\<lparr>lq_buffer := buf\<rparr>) ex = (closed_queue q ex)\<lparr>lq_buffer := buf\<rparr>"
  "closed_queue (q\<lparr>lq_head := h\<rparr>) ex = (closed_queue q ex)\<lparr>lq_head := h\<rparr>"
  "closed_queue (q\<lparr>lq_pop_count_and_head := w\<rparr>) ex = (closed_queue q ex)\<lparr>lq_pop_count_and_head := w\<rparr>"
  by (simp_all add: closed_queue_def)

lemma race_counts:
  assumes "lifo_inv (closed_queue q ex) m bs (xs @ ex)"
  shows "lq_tail q = lq_booked q + of_nat (length xs)" and "unat (lq_tail q - lq_booked q) = length xs"
    and "unat (lq_tail q - lq_head q) = m + length bs + length xs" and "lq_tail q = lq_booked q \<longleftrightarrow> xs = []"
    and "unat (lq_mask q) = room q - 1" and "m + length bs + length xs + length ex \<le> room q" and "lq_booked q = lq_head q + of_nat (m + length bs)"
proof -
  note f = lifo_inv_facts [OF assms] and c = lifo_inv_counts [OF assms]
  show t: "lq_tail q = lq_booked q + of_nat (length xs)" using f(3) by (simp add: algebra_simps)
  show b: "lq_booked q = lq_head q + of_nat (m + length bs)" using f(2) by simp
  have small: "length xs \<le> 2 ^ 31" "m + length bs + length xs \<le> 2 ^ 31" using f(6,7) by simp_all
  show u: "unat (lq_tail q - lq_booked q) = length xs" unfolding t using unat_small [OF small(1)] by simp
  have "lq_tail q - lq_head q = of_nat (m + length bs + length xs)" unfolding t b by simp
  then show "unat (lq_tail q - lq_head q) = m + length bs + length xs" using unat_small [OF small(2)] by metis
  show "lq_tail q = lq_booked q \<longleftrightarrow> xs = []" using u by (metis length_0_conv right_minus_eq unsigned_eq_0_iff)
  show "unat (lq_mask q) = room q - 1" using c(6) by simp
  show "m + length bs + length xs + length ex \<le> room q" using f(6) by simp
qed

lemma race_invE:
  assumes "race_inv cap m bs xs ex s"
  shows "\<not> rc_faulted s" and "room (rc_queue s) = cap" and "lifo_inv (closed_queue (rc_queue s) ex) m bs (xs @ ex)"
    and "lq_pop_count_and_head (rc_queue s) = pack (of_nat (rc_pops s)) (of_nat (rc_books s))" and "lq_head (rc_queue s) = of_nat (rc_frees s)"
    and "rc_books s = rc_frees s + m + length bs" and "owner_ok (rc_queue s) (m + length bs + length xs) ex (rc_owner s)"
    and "\<And>t. thief_ok s m (length xs) (rc_thief s t)" and "\<And>t u. moving (rc_thief s t) \<Longrightarrow> moving (rc_thief s u) \<Longrightarrow> t = u"
    and "m + length bs = 0 \<longleftrightarrow> (\<forall>t. \<not> moving (rc_thief s t))"
    and "mset (rc_pushed s) = mset (rc_popped s) + mset (rc_stolen s) + mset (bs @ xs @ ex)"
  using assms unfolding race_inv_def by blast+

text \<open>A thief that is not moving items only relies on counters that grow and on items that are still there.\<close>

lemma thief_ok_mono:
  assumes "thief_ok s m n pc" and "\<not> moving pc" and "rc_pops s \<le> rc_pops s'" and "rc_books s \<le> rc_books s'" and "rc_frees s \<le> rc_frees s'"
    and "rc_pops s' = rc_pops s \<Longrightarrow> rc_books s' = rc_books s \<Longrightarrow> n \<le> n'"
  shows "thief_ok s' m' n' pc"
  using assms by (cases pc) (auto simp: loaded_pch_def loaded_head_def)

lemma thief_ok_same:
  assumes "thief_ok s m n pc" and "rc_pops s' = rc_pops s" and "rc_books s' = rc_books s" and "rc_frees s' = rc_frees s"
    and "lq_head (rc_queue s') = lq_head (rc_queue s)" and "lq_booked (rc_queue s') = lq_booked (rc_queue s)" and "n \<le> n'"
  shows "thief_ok s' m n' pc"
  using assms by (cases pc) (auto simp: loaded_pch_def loaded_head_def)

section \<open>Every step keeps it\<close>

lemma set_owner_inv:
  assumes inv: "race_inv cap m bs xs ex s" and pc: "owner_ok (rc_queue s) (m + length bs + length xs) ex pc"
  shows "race_inv cap m bs xs ex (s\<lparr>rc_owner := pc\<rparr>)"
proof -
  note i = race_invE [OF inv]
  have "thief_ok (s\<lparr>rc_owner := pc\<rparr>) m (length xs) (rc_thief s t)" for t by (rule thief_ok_same [OF i(8)]) simp_all
  with i pc show ?thesis unfolding race_inv_def by simp
qed

lemma set_thief_inv:
  assumes inv: "race_inv cap m bs xs ex s" and pc: "thief_ok s m (length xs) pc" "\<not> moving pc" and old: "\<not> moving (rc_thief s t)"
  shows "race_inv cap m bs xs ex (set_thief t pc s)"
proof -
  note i = race_invE [OF inv]
  have "thief_ok (set_thief t pc s) m (length xs) (rc_thief (set_thief t pc s) u)" for u
    by (rule thief_ok_same [of s]) (use i(8) pc in auto)
  moreover have "moving (rc_thief (set_thief t pc s) u) \<longleftrightarrow> moving (rc_thief s u)" for u using pc old by simp
  ultimately show ?thesis using i unfolding race_inv_def by simp
qed

text \<open>Owner steps that change the queue leave head and booked alone; thieves in motion do not notice.\<close>

lemma owner_changes_inv:
  assumes inv: "race_inv cap m bs xs ex s" and same: "\<not> rc_faulted s'" "rc_thief s' = rc_thief s" "rc_books s' = rc_books s" "rc_frees s' = rc_frees s"
      "lq_head (rc_queue s') = lq_head (rc_queue s)" "room (rc_queue s') = cap"
    and q: "lifo_inv (closed_queue (rc_queue s') ex') m bs (xs' @ ex')"
    and pch: "lq_pop_count_and_head (rc_queue s') = pack (of_nat (rc_pops s')) (of_nat (rc_books s))"
    and ow: "owner_ok (rc_queue s') (m + length bs + length xs') ex' (rc_owner s')"
    and p: "rc_pops s' = rc_pops s \<and> length xs \<le> length xs' \<or> rc_pops s' = Suc (rc_pops s)"
    and items: "mset (rc_pushed s') = mset (rc_popped s') + mset (rc_stolen s') + mset (bs @ xs' @ ex')"
  shows "race_inv cap m bs xs' ex' s'"
proof -
  note i = race_invE [OF inv]
  have bk: "lq_booked (rc_queue s') = lq_booked (rc_queue s)" using pch i(4) by simp
  have "thief_ok s' m (length xs') (rc_thief s' t)" for t
  proof (cases "moving (rc_thief s t)")
    case True
    with i(8) [of t] same bk show ?thesis by (cases "rc_thief s t") auto
  next
    case False
    show ?thesis unfolding same(2) by (rule thief_ok_mono [OF i(8) False]) (use p same in auto)
  qed
  with i same q pch ow items show ?thesis unfolding race_inv_def by simp
qed

lemma push_write_inv:
  assumes inv: "race_inv cap m bs xs ex s" and pc: "rc_owner s = OWrite tail n x"
  shows "race_inv cap m bs xs [x] (owner_write tail n x s)"
proof -
  note i = race_invE [OF inv]
  let ?q = "rc_queue s"
  have o: "ex = []" "tail = lq_tail ?q" "n = lq_push_count ?q" "m + length bs + length xs < room ?q" using i(7) pc by auto
  then have q: "lifo_inv ?q m bs xs" using i(3) by simp
  from lifo_push_stores [OF q o(4), of x] obtain q1 where p: "lifo_push ?q x = Inr (Inr (), q1)" "lifo_inv q1 m bs (xs @ [x])" "room q1 = room ?q" by blast
  then obtain buf where buf: "write_at (lq_buffer ?q) (lq_mask ?q) tail x = Inr buf" "q1 = closed_queue (?q\<lparr>lq_buffer := buf\<rparr>) [x]"
    by (cases "write_at (lq_buffer ?q) (lq_mask ?q) tail x") (auto simp: lifo_push_def Let_def o(2) closed_queue_def split: if_splits)
  show ?thesis by (rule owner_changes_inv [OF inv]) (use i o p buf in \<open>auto simp: owner_write_def\<close>)
qed

lemma push_store_inv:
  assumes inv: "race_inv cap m bs xs ex s" and pc: "rc_owner s = OStore n"
  shows "race_inv cap m bs (xs @ ex) [] (s\<lparr>rc_queue := (rc_queue s)\<lparr>lq_push_count := n + 1\<rparr>, rc_owner := OIdle\<rparr>)"
proof -
  note i = race_invE [OF inv]
  have o: "length ex = 1" "n = lq_push_count (rc_queue s)" using i(7) pc by auto
  then have "closed_queue (rc_queue s) ex = (rc_queue s)\<lparr>lq_push_count := n + 1\<rparr>" by (simp add: closed_queue_def)
  then show ?thesis by (intro owner_changes_inv [OF inv]) (use i in \<open>auto simp: ac_simps\<close>)
qed

lemma pop_swap_inv:
  assumes inv: "race_inv cap m bs xs ex s" and pc: "rc_owner s = OPop w tail n" and ne: "tail \<noteq> snd (unpack w)" and w: "lq_pop_count_and_head (rc_queue s) = w"
  shows "race_inv cap m bs (butlast xs) [last xs]
     (s\<lparr>rc_queue := (rc_queue s)\<lparr>lq_pop_count_and_head := pack n (snd (unpack w))\<rparr>, rc_owner := OTake (tail - 1), rc_pops := rc_pops s + 1\<rparr>)"
proof -
  note i = race_invE [OF inv]
  let ?q = "rc_queue s" and ?q' = "(rc_queue s)\<lparr>lq_pop_count_and_head := pack n (snd (unpack w))\<rparr>"
  have o: "ex = []" "tail = lq_tail ?q" "n = lq_pop_count ?q + 1" using i(7) pc by auto
  then have q: "lifo_inv ?q m bs xs" using i(3) by simp
  have "xs \<noteq> []" using race_counts(4) [OF i(3)] ne w o(2) by auto
  then obtain ys y where xs: "xs = ys @ [y]" by (cases xs rule: rev_cases) auto
  have "lifo_inv (closed_queue ?q' [y]) m bs (ys @ [y])"
    using q unfolding xs by (simp add: lifo_inv_def o(3) w)
  then show ?thesis
    by (intro owner_changes_inv [OF inv]) (use i(1,2,4,5,11) o w in \<open>auto simp: xs add.commute [of 1]\<close>)
qed

lemma pop_take_inv:
  assumes inv: "race_inv cap m bs xs ex s" and pc: "rc_owner s = OTake p"
  shows "race_inv cap m bs xs [] (owner_take p s)"
proof -
  note i = race_invE [OF inv]
  let ?q = "rc_queue s" and ?pre = "replicate m None @ map Some bs @ map Some xs"
  have o: "length ex = 1" "p = lq_tail ?q" using i(7) pc by auto
  then obtain y where y: "ex = [y]" by (cases ex) auto
  note f = lifo_inv_facts [OF i(3)]
  have v: "view (lq_buffer ?q) (lq_head ?q) = ?pre @ Some y # replicate (room ?q - (m + length bs + length (xs @ ex))) None" using f(5) by (simp add: y)
  have ok: "ring_ok (lq_buffer ?q) (lq_mask ?q)" using f(1) by simp
  from read_at_view [OF ok v] obtain buf where buf: "read_at (lq_buffer ?q) (lq_mask ?q) (lq_head ?q + of_nat (length ?pre)) = Inr (y, buf)"
    "view buf (lq_head ?q) = ?pre @ None # replicate (room ?q - (m + length bs + length (xs @ ex))) None" "length buf = room ?q" by blast
  have at: "p = lq_head ?q + of_nat (length ?pre)" using race_counts(1,7) [OF i(3)] o(2) by simp
  have "lifo_inv (?q\<lparr>lq_buffer := buf\<rparr>) m bs xs"
  proof (rule lifo_invI)
    show "view (lq_buffer (?q\<lparr>lq_buffer := buf\<rparr>)) (lq_head (?q\<lparr>lq_buffer := buf\<rparr>)) =
        replicate m None @ map Some bs @ map Some xs @ replicate (Suc (room ?q - (m + length bs + length (xs @ ex)))) None" using buf(2) by simp
  qed (use ring_ok_length [OF ok buf(3)] race_counts(1,7) [OF i(3)] in simp_all)
  moreover have "owner_take p s = s\<lparr>rc_queue := ?q\<lparr>lq_buffer := buf\<rparr>, rc_owner := OIdle, rc_popped := rc_popped s @ [y]\<rparr>"
    using buf(1) by (simp add: owner_take_def at)
  ultimately show ?thesis
    by (intro owner_changes_inv [OF inv]) (use i buf(3) in \<open>auto simp: y\<close>)
qed



lemma lifo_book_block:
  assumes "lifo_inv q 0 [] (vs @ xs)"
  shows "lifo_inv (q\<lparr>lq_pop_count_and_head := pack (lq_pop_count q) (lq_booked q + of_nat (length vs))\<rparr>) 0 vs xs"
  using assms by (auto simp: lifo_inv_def)

lemma same_packed:
  assumes "pack (of_nat p') (of_nat b') = pack (of_nat p) (of_nat b)" and "p \<le> p'" "p' < p + 2 ^ 32" and "b \<le> b'" "b' < b + 2 ^ 32"
  shows "p' = p \<and> b' = b"
proof -
  have eq: "(of_nat p' :: pos) = of_nat p" "(of_nat b' :: pos) = of_nat b" using assms(1) by (metis fst_conv unpack_pack, metis snd_conv unpack_pack)
  have "x' = x" if "(of_nat x' :: pos) = of_nat x" "x \<le> x'" "x' < x + 2 ^ 32" for x x' :: nat
  proof -
    have "of_nat (x' - x) = (0 :: pos)" using that by (simp add: of_nat_diff)
    then have "unat (of_nat (x' - x) :: pos) = 0" by (metis unsigned_0)
    then have "(x' - x) mod 2 ^ 32 = 0" unfolding unat_of_nat by simp
    with that show ?thesis by simp
  qed
  with eq assms show ?thesis by blast
qed


text \<open>
  A swap that succeeds finds the deque unbooked, with at least the counted items: the word is the one
  the thief loaded, so nothing was popped or booked since, and then the head it compared is still the head.
\<close>

lemma book_swap_inv:
  assumes inv: "race_inv cap m bs xs ex s" and pc: "rc_thief s t = TReady w p b old h cnt" and w: "lq_pop_count_and_head (rc_queue s) = w" and rec: "recent p b h s"
  shows "race_inv cap 0 (take (unat cnt) xs) (drop (unat cnt) xs) ex (set_thief t (TMove (snd (unpack w)) (snd (unpack w) + cnt))
      (s\<lparr>rc_queue := (rc_queue s)\<lparr>lq_pop_count_and_head := pack (fst (unpack w)) (snd (unpack w) + cnt)\<rparr>, rc_books := rc_books s + unat cnt\<rparr>))" (is "race_inv _ _ _ _ _ ?s")
proof -
  define s' where "s' = ?s"
  note i = race_invE [OF inv]
  let ?q = "rc_queue s" and ?c = "unat cnt"
  from i(8) [of t] pc have t: "w = pack (of_nat p) (of_nat b)" "p \<le> rc_pops s" "b \<le> rc_books s" "old = of_nat h" "h \<le> rc_frees s" "old = snd (unpack w)" "cnt \<noteq> 0"
    "rc_pops s = p \<and> rc_books s = b \<Longrightarrow> ?c \<le> length xs" by (auto simp: loaded_pch_def loaded_head_def)
  have same: "rc_pops s = p \<and> rc_books s = b" by (rule same_packed) (use i(4) w t rec in auto)
  have "(of_nat b :: pos) = of_nat h" using t(1,4,6) by simp
  then have "rc_books s = h" using same_packed [of 0 b 0 h] same rec t(5) i(6) by auto
  then have quiet: "m = 0" "bs = []" using i(6) t(5) by auto
  have c: "?c \<le> length xs" "0 < ?c" using t(8) same t(7) unsigned_eq_0_iff [of cnt] by (auto simp: gr0_conv_Suc)
  have "lifo_inv (closed_queue ?q ex) 0 [] (take ?c xs @ (drop ?c xs @ ex))" using i(3) quiet by (simp flip: append_assoc)
  from lifo_book_block [OF this] have q: "lifo_inv (closed_queue (rc_queue s') ex) 0 (take ?c xs) (drop ?c xs @ ex)"
    using w c by (simp add: closed_queue_updates s'_def)
  have still: "\<not> moving (rc_thief s u)" for u using i(10) quiet by simp
  have "thief_ok s' 0 (length (drop ?c xs)) (rc_thief s' u)" for u
  proof (cases "u = t")
    case True
    then show ?thesis using race_counts(7) [OF i(3)] quiet w by (simp add: s'_def)
  next
    case False
    have "thief_ok s' 0 (length (drop ?c xs)) (rc_thief s u)" by (rule thief_ok_mono [OF i(8) still]) (use c in \<open>auto simp: s'_def\<close>)
    with False show ?thesis by (simp add: s'_def)
  qed
  moreover have "owner_ok (rc_queue s') (0 + length (take ?c xs) + length (drop ?c xs)) ex (rc_owner s')"
    using i(7) quiet w c by (cases "rc_owner s") (auto simp: s'_def)
  moreover have "mset (rc_pushed s') = mset (rc_popped s') + mset (rc_stolen s') + mset (take ?c xs @ drop ?c xs @ ex)" using i(11) quiet by (simp add: mset_take_drop s'_def)
  moreover have "lq_pop_count_and_head (rc_queue s') = pack (of_nat (rc_pops s')) (of_nat (rc_books s'))" using t(1) same by (simp add: s'_def)
  moreover have "rc_books s' = rc_frees s' + 0 + length (take ?c xs)" using i(6) quiet c by (simp add: s'_def)
  moreover have "moving (rc_thief s' u) \<longleftrightarrow> u = t" for u using still by (simp add: s'_def)
  moreover have "take ?c xs \<noteq> []" using c by auto
  moreover have "\<not> rc_faulted s'" "room (rc_queue s') = cap" "lq_head (rc_queue s') = of_nat (rc_frees s')" using i(1,2,5) by (simp_all add: s'_def)
  ultimately show ?thesis unfolding race_inv_def s'_def [symmetric] using q by simp
qed

lemma move_out_inv:
  assumes inv: "race_inv cap m bs xs ex s" and pc: "rc_thief s t = TMove current fin" and ne: "current \<noteq> fin"
  shows "race_inv cap (Suc m) (tl bs) xs ex (thief_move t current fin s)"
proof -
  note i = race_invE [OF inv]
  let ?q = "rc_queue s"
  from i(8) [of t] pc have t: "current = lq_head ?q + of_nat m" "fin = lq_booked ?q" by auto
  have "bs \<noteq> []" using ne t race_counts(7) [OF i(3)] by auto
  then obtain b bs' where bs: "bs = b # bs'" by (cases bs) auto
  from lifo_move_out [OF i(3) [unfolded bs]] obtain buf where
    buf: "read_at (lq_buffer ?q) (lq_mask ?q) current = Inr (b, buf)" "lifo_inv ((closed_queue ?q ex)\<lparr>lq_buffer := buf\<rparr>) (Suc m) bs' (xs @ ex)" "length buf = room ?q"
    by (auto simp: t(1))
  define s' where "s' = thief_move t current fin s"
  have s': "s' = s\<lparr>rc_queue := ?q\<lparr>lq_buffer := buf\<rparr>, rc_thief := (rc_thief s)(t := TMove (current + 1) fin), rc_stolen := rc_stolen s @ [b]\<rparr>"
    using buf(1) by (simp add: s'_def thief_move_def)
  have only: "moving (rc_thief s u) \<longleftrightarrow> u = t" for u using i(9) [of u t] pc by auto
  have "thief_ok s' (Suc m) (length xs) (rc_thief s' u)" for u
  proof (cases "u = t")
    case True
    then show ?thesis using t by (simp add: s')
  next
    case False
    have "thief_ok s' (Suc m) (length xs) (rc_thief s u)" by (rule thief_ok_mono [OF i(8)]) (use only False in \<open>simp_all add: s'\<close>)
    with False show ?thesis by (simp add: s')
  qed
  moreover have "moving (rc_thief s' u) \<longleftrightarrow> u = t" for u using only by (simp add: s')
  moreover have "lifo_inv (closed_queue (rc_queue s') ex) (Suc m) bs' (xs @ ex)" using buf(2) by (simp add: s' closed_queue_updates)
  moreover have "owner_ok (rc_queue s') (Suc m + length bs' + length xs) ex (rc_owner s')" using i(7) bs buf(3) by (cases "rc_owner s") (auto simp: s')
  moreover have "mset (rc_pushed s') = mset (rc_popped s') + mset (rc_stolen s') + mset (bs' @ xs @ ex)" using i(11) bs by (simp add: s')
  ultimately show ?thesis unfolding race_inv_def s'_def [symmetric] using i(1,2,4,5,6) bs buf(3) by (simp add: s')
qed

lemma release_inv:
  assumes inv: "race_inv cap m bs xs ex s" and pc: "rc_thief s t = TMove current fin" and eq: "current = fin"
  shows "race_inv cap 0 [] xs ex (set_thief t TIdle (s\<lparr>rc_queue := (rc_queue s)\<lparr>lq_head := fin\<rparr>, rc_frees := rc_books s\<rparr>))" (is "race_inv _ _ _ _ _ ?s")
proof -
  note i = race_invE [OF inv] and f = lifo_inv_facts [OF race_invE(3) [OF inv]]
  let ?q = "rc_queue s"
  from i(8) [of t] pc have t: "current = lq_head ?q + of_nat m" "fin = lq_booked ?q" by auto
  have "lq_head ?q + of_nat m = lq_head ?q + of_nat (m + length bs)" using t eq race_counts(7) [OF i(3)] by simp
  then have "m = m + length bs" using pos_eq_iff [of m "m + length bs" "lq_head ?q"] f(6,7) by auto
  then have bs: "bs = []" by simp
  from lifo_release [OF i(3) [unfolded bs]] have q: "lifo_inv (closed_queue (rc_queue ?s) ex) 0 [] (xs @ ex)" by (simp add: t(2) closed_queue_updates)
  have only: "moving (rc_thief s u) \<longleftrightarrow> u = t" for u using i(9) [of u t] pc by auto
  have "thief_ok ?s 0 (length xs) (rc_thief ?s u)" for u
  proof (cases "u = t")
    case False
    have "thief_ok ?s 0 (length xs) (rc_thief s u)" by (rule thief_ok_mono [OF i(8)]) (use only False i(6) in simp_all)
    with False show ?thesis by simp
  qed simp
  moreover have "owner_ok (rc_queue ?s) (0 + length ([] :: 'a list) + length xs) ex (rc_owner ?s)" using i(7) bs by (cases "rc_owner s") auto
  moreover have "\<not> moving (rc_thief ?s u)" for u using only by simp
  moreover have "lq_head (rc_queue ?s) = of_nat (rc_frees ?s)" using t(2) i(4) by simp
  ultimately show ?thesis unfolding race_inv_def using q i(1,2,4,11) bs by simp
qed


lemma race_step_inv:
  assumes "race_step s s'" and inv: "race_inv cap m bs xs ex s"
  shows "\<exists>m' bs' xs' ex'. race_inv cap m' bs' xs' ex' s'"
  using assms
proof (cases rule: race_step.cases)
  case push_full
  with inv show ?thesis by blast
next
  case (push_begin x)
  note c = race_counts [OF race_invE(3) [OF inv]] and o = race_invE(7) [OF inv]
  have "0 < room (rc_queue s)" using lifo_inv_facts(1) [OF race_invE(3) [OF inv]] ring_ok_facts(2) by fastforce
  moreover have "\<not> room (rc_queue s) - 1 < m + length bs + length xs" using push_begin c(3,5) by (simp add: word_less_nat_alt)
  ultimately have "m + length bs + length xs < room (rc_queue s)" by linarith
  with push_begin o have "owner_ok (rc_queue s) (m + length bs + length xs) ex (OWrite (lq_tail (rc_queue s)) (lq_push_count (rc_queue s)) x)" by simp
  from set_owner_inv [OF inv this] show ?thesis using push_begin by blast
next
  case (push_write tail n x)
  with push_write_inv [OF inv] show ?thesis by blast
next
  case (push_store n)
  with push_store_inv [OF inv] show ?thesis by blast
next
  case pop_begin
  with set_owner_inv [OF inv, of "OPop (lq_pop_count_and_head (rc_queue s)) (lq_tail (rc_queue s)) (lq_pop_count (rc_queue s) + 1)"] race_invE(7) [OF inv]
  show ?thesis by auto
next
  case (pop_none w tail n)
  with set_owner_inv [OF inv, of OIdle] race_invE(7) [OF inv] show ?thesis by auto
next
  case (pop_swap w tail n)
  with pop_swap_inv [OF inv] show ?thesis by blast
next
  case (pop_retry w tail n)
  with set_owner_inv [OF inv, of "OPop (lq_pop_count_and_head (rc_queue s)) tail n"] race_invE(7) [OF inv] show ?thesis by auto
next
  case (pop_take p)
  with pop_take_inv [OF inv] show ?thesis by blast
next
  case (load_pch t)
  with set_thief_inv [OF inv, of "TPch (lq_pop_count_and_head (rc_queue s)) (rc_pops s) (rc_books s)" t] race_invE(4) [OF inv]
  show ?thesis by (auto simp: loaded_pch_def)
next
  case (load_head t w p b)
  with set_thief_inv [OF inv, of "THead w p b (lq_head (rc_queue s)) (rc_frees s)" t] race_invE(5,8) [OF inv]
  show ?thesis by (auto simp: loaded_head_def) (metis thief_ok.simps(2))
next
  case (busy t w p b old h)
  with set_thief_inv [OF inv, of TIdle t] show ?thesis by auto
next
  case (nothing t w p b old h)
  with set_thief_inv [OF inv, of TIdle t] show ?thesis by auto
next
  case (counted t w p b old h cnt)
  note i = race_invE [OF inv]
  have "unat cnt \<le> length xs" if "rc_pops s = p" "rc_books s = b"
  proof -
    have "w = lq_pop_count_and_head (rc_queue s)" using i(4) i(8) [of t] that counted by (auto simp: loaded_pch_def)
    then have "cnt \<le> lq_tail (rc_queue s) - lq_booked (rc_queue s)" using counted by (simp add: thief_count_def Let_def)
    then show ?thesis using race_counts(2) [OF i(3)] by (simp add: word_le_nat_alt)
  qed
  moreover have "thief_ok s m (length xs) (THead w p b old h)" using i(8) [of t] counted by metis
  ultimately have "thief_ok s m (length xs) (TReady w p b old h cnt)" using counted by auto
  from set_thief_inv [OF inv this, of t] counted show ?thesis by auto
next
  case (book_swap t w p b old h cnt)
  with book_swap_inv [OF inv] show ?thesis by blast
next
  case (book_retry t w p b old h cnt)
  have "thief_ok s m (length xs) (THead (lq_pop_count_and_head (rc_queue s)) (rc_pops s) (rc_books s) old h)"
    using race_invE(4,8) [OF inv] book_retry by (auto simp: loaded_pch_def) (metis thief_ok.simps(4))
  from set_thief_inv [OF inv this, of t] book_retry show ?thesis by auto
next
  case (move_out t current fin)
  with move_out_inv [OF inv] show ?thesis by blast
next
  case (release t current fin)
  with release_inv [OF inv] show ?thesis by blast
qed


lemma race_reaches_inv:
  assumes "race_reaches s s'" and "race_inv cap m bs xs ex s"
  shows "\<exists>m' bs' xs' ex'. race_inv cap m' bs' xs' ex' s'"
  using assms by (induction rule: rtranclp_induct) (blast, metis race_step_inv)

lemma race_init_inv:
  assumes "lifo_new n = Inr q"
  shows "race_inv (room q) 0 [] [] [] (race_init q)"
proof -
  have "n \<le> 2 ^ 31" using assms by (auto simp: lifo_new_def MAX_CAPACITY_def split: if_splits)
  from lifo_new_inv [OF this] assms have "lifo_inv q 0 [] []" by (metis Inr_inject)
  moreover have "lq_pop_count_and_head q = 0" "lq_head q = 0"
    using assms by (auto simp: lifo_new_def npot_res_def Let_def split: if_splits)
  moreover have "pack 0 0 = 0" by (simp add: pack_def)
  ultimately show ?thesis by (simp add: race_inv_def race_init_def)
qed

lemma race_slot_items:
  assumes "race_inv cap m bs xs ex s"
  shows "slot_items (rc_queue s) = mset (bs @ xs @ ex)"
proof -
  let ?q = "rc_queue s"
  note f = lifo_inv_facts [OF race_invE(3) [OF assms]]
  have "mset (lq_buffer ?q) = mset (view (lq_buffer ?q) (lq_head ?q))" by (simp add: view_def mset_rotate)
  also have "\<dots> = image_mset Some (mset (bs @ xs @ ex)) + (replicate_mset m None + replicate_mset (room ?q - (m + length bs + length (xs @ ex))) None)"
    using f(5) by (simp add: ac_simps)
  finally have buf: "mset (lq_buffer ?q) = image_mset Some (mset (bs @ xs @ ex)) + (replicate_mset m None + replicate_mset (room ?q - (m + length bs + length (xs @ ex))) None)" .
  have "slot_items ?q = image_mset the (filter_mset (\<lambda>s. s \<noteq> None) (mset (lq_buffer ?q)))" by (simp add: slot_items_def)
  also have "\<dots> = mset (bs @ xs @ ex)" unfolding buf by (simp add: filter_mset_image_mset image_mset.compositionality comp_def)
  finally show ?thesis .
qed

text \<open>
  C29. The deque is safe under any interleaving of its owner and any number of thieves: no thread ever
  reads a slot that is not initialised, and at every moment the items pushed are exactly the items
  popped, the items moved out by thieves and the items in the initialised slots of the ring, each once.
  At most one thief moves items at a time.
\<close>

theorem deque_race_safe:
  assumes "lifo_new n = Inr q" and "race_reaches (race_init q) s"
  shows "\<not> rc_faulted s \<and> mset (rc_pushed s) = mset (rc_popped s) + mset (rc_stolen s) + slot_items (rc_queue s) \<and>
     (\<forall>t u. moving (rc_thief s t) \<and> moving (rc_thief s u) \<longrightarrow> t = u)"
proof -
  from race_reaches_inv [OF assms(2) race_init_inv [OF assms(1)]] obtain m bs xs ex where inv: "race_inv (room q) m bs xs ex s" by blast
  note i = race_invE [OF inv]
  from i(1,11) i(9) race_slot_items [OF inv] show ?thesis by simp
qed

theorem deque_race_safe_witness:
  "\<exists>q s. lifo_new 2 = Inr q \<and> race_reaches (race_init q) s \<and> rc_pushed s = [7 :: nat] \<and>
     {#7#} = mset (rc_popped s) + mset (rc_stolen s) + slot_items (rc_queue s)"
proof -
  obtain q :: "nat lifo_queue" where q: "lifo_new 2 = Inr q" using lifo_new_holds [of 2 thesis] by auto
  from race_init_inv [OF q] have o: "0 < room q" "lq_tail q = lq_head q"
    using ring_ok_facts(2) race_counts(1,7) by (fastforce simp: race_inv_def lifo_inv_def race_init_def)+
  let ?s1 = "(race_init q)\<lparr>rc_owner := OWrite (lq_tail q) (lq_push_count q) 7\<rparr>" and ?s2 = "owner_write (lq_tail q) (lq_push_count q) 7 ((race_init q)\<lparr>rc_owner := OWrite (lq_tail q) (lq_push_count q) 7\<rparr>)"
  have "race_step (race_init q) ?s1" using push_begin [of "race_init q" 7] o(2) by (simp add: race_init_def)
  moreover have "race_step ?s1 ?s2" using push_write [of ?s1] by simp
  ultimately have r: "race_reaches (race_init q) ?s2" by (meson r_into_rtranclp rtranclp.rtrancl_into_rtrancl)
  from deque_race_safe [OF q r] have "\<not> rc_faulted ?s2" "mset (rc_pushed ?s2) = mset (rc_popped ?s2) + mset (rc_stolen ?s2) + slot_items (rc_queue ?s2)" by blast+
  moreover from this(1) have "rc_pushed ?s2 = [7]" by (auto simp: owner_write_def race_init_def split: sum.splits)
  ultimately show ?thesis using q r by (metis mset.simps)
qed

end
