(* ===== verification/Queue_Unbounded.thy ===== *)
theory Queue_Unbounded
  imports Prelude "HOL-Library.Word"
begin

text \<open>
  The unbounded queue behind the pool's injector, \<^verbatim>\<open>crates/youpipe-concurrent-queue/src/unbounded.rs\<close>: a
  linked list of blocks of 31 slots, an index per end whose low bit is a flag, blocks allocated ahead of
  need and freed by the reader of their last slot. Blocks live in an explicit heap, so a null or dangling
  pointer, a read of a slot without a value and a block that is never freed can be seen. Operations run
  one at a time; how often a weak compare-and-swap fails for no reason is an argument. A place where the
  source waits for another thread is \<open>Unreachable\<close> here: no other thread is under way.
\<close>

section \<open>State\<close>

definition WRITE :: nat where "WRITE = 1"

definition READ :: nat where "READ = 2"

definition DESTROY :: nat where "DESTROY = 4"

definition LAP :: nat where "LAP = 32"

definition BLOCK_CAP :: nat where "BLOCK_CAP = LAP - 1"

definition SHIFT :: nat where "SHIFT = 1"

definition MARK_BIT :: nat where "MARK_BIT = 1"

lemmas queue_consts = WRITE_def READ_def DESTROY_def LAP_def BLOCK_CAP_def SHIFT_def MARK_BIT_def

datatype pop_error = PopEmpty | PopClosed

datatype 'a push_error = PushFull 'a | PushClosed 'a

record 'a uslot =
  us_value :: "'a option"
  us_state :: nat

record 'a ublock =
  ub_next :: "nat option"
  ub_slots :: "'a uslot list"

record 'a unbounded =
  uq_head_index :: nat
  uq_head_block :: "nat option"
  uq_tail_index :: nat
  uq_tail_block :: "nat option"
  uq_heap :: "nat \<Rightarrow> 'a ublock option"
  uq_fresh :: nat

definition ublock_new :: "'a ublock" where
  "ublock_new = \<lparr>ub_next = None, ub_slots = replicate BLOCK_CAP \<lparr>us_value = None, us_state = 0\<rparr>\<rparr>"

definition unbounded_new :: "'a unbounded" where
  "unbounded_new = \<lparr>uq_head_index = 0, uq_head_block = None, uq_tail_index = 0, uq_tail_block = None, uq_heap = (\<lambda>_. None), uq_fresh = 0\<rparr>"

section \<open>The heap\<close>

definition alloc_block :: "'a unbounded \<Rightarrow> nat \<times> 'a unbounded" where
  "alloc_block q = (uq_fresh q, q\<lparr>uq_heap := (uq_heap q)(uq_fresh q := Some ublock_new), uq_fresh := uq_fresh q + 1\<rparr>)"

definition free_block :: "nat \<Rightarrow> 'a unbounded \<Rightarrow> 'a unbounded" where
  "free_block a q = q\<lparr>uq_heap := (uq_heap q)(a := None)\<rparr>"

definition deref_block :: "nat option \<Rightarrow> 'a unbounded \<Rightarrow> (nat \<times> 'a ublock) res" where
  "deref_block p q = (case p of None \<Rightarrow> Inl UninitRead | Some a \<Rightarrow>
     (case uq_heap q a of None \<Rightarrow> Inl UninitRead | Some b \<Rightarrow> Inr (a, b)))"

definition set_next :: "nat option \<Rightarrow> nat \<Rightarrow> 'a unbounded \<Rightarrow> 'a unbounded res" where
  "set_next p n q = bind_res (deref_block p q) (\<lambda>(a, b). Inr (q\<lparr>uq_heap := (uq_heap q)(a := Some (b\<lparr>ub_next := Some n\<rparr>))\<rparr>))"

definition get_slot :: "nat option \<Rightarrow> nat \<Rightarrow> 'a unbounded \<Rightarrow> 'a uslot res" where
  "get_slot p i q = bind_res (deref_block p q) (\<lambda>(a, b). index_res (ub_slots b) i)"

definition put_slot :: "nat option \<Rightarrow> nat \<Rightarrow> 'a uslot \<Rightarrow> 'a unbounded \<Rightarrow> 'a unbounded res" where
  "put_slot p i s q = bind_res (deref_block p q) (\<lambda>(a, b). bind_res (index_res (ub_slots b) i) (\<lambda>_.
     Inr (q\<lparr>uq_heap := (uq_heap q)(a := Some (b\<lparr>ub_slots := (ub_slots b)[i := s]\<rparr>))\<rparr>)))"

text \<open>A block is freed once no slot from \<open>start\<close> on is still to be read; otherwise its reader is asked to.\<close>

function destroy_block :: "nat option \<Rightarrow> nat \<Rightarrow> 'a unbounded \<Rightarrow> 'a unbounded res" where
  "destroy_block p i q =
     (if i < BLOCK_CAP - 1 then
        bind_res (get_slot p i q) (\<lambda>s.
        if us_state s AND READ = 0 then put_slot p i (s\<lparr>us_state := us_state s OR DESTROY\<rparr>) q
        else destroy_block p (i + 1) q)
      else bind_res (deref_block p q) (\<lambda>(a, _). Inr (free_block a q)))"
  by pat_completeness auto
termination by (relation "measure (\<lambda>(p, i, q). BLOCK_CAP - i)") auto

declare destroy_block.simps [simp del]

section \<open>Pushing\<close>

text \<open>The first push installs the first block in both ends.\<close>

definition install_first :: "nat option \<Rightarrow> 'a unbounded \<Rightarrow> nat option \<times> 'a unbounded" where
  "install_first block q =
     (case block of
        Some _ \<Rightarrow> (block, q)
      | None \<Rightarrow> let (new, q') = alloc_block q in (Some new, q'\<lparr>uq_tail_block := Some new, uq_head_block := Some new\<rparr>))"

definition prepare_next :: "bool \<Rightarrow> nat option \<Rightarrow> 'a unbounded \<Rightarrow> nat option \<times> 'a unbounded" where
  "prepare_next fills next_block q =
     (if fills \<and> next_block = None then let (new, q') = alloc_block q in (Some new, q') else (next_block, q))"

text \<open>The thread that fills a block links the next one and moves the tail past the end of the lap.\<close>

definition install_next :: "nat option \<Rightarrow> nat option \<Rightarrow> 'a unbounded \<Rightarrow> 'a unbounded res" where
  "install_next block next_block q =
     (case next_block of
        None \<Rightarrow> Inl ExplicitPanic
      | Some n \<Rightarrow> set_next block n (q\<lparr>uq_tail_block := Some n, uq_tail_index := wrapping_add_u64 (uq_tail_index q) (push_bit SHIFT 1)\<rparr>))"

definition fill_slot :: "nat option \<Rightarrow> nat \<Rightarrow> 'a \<Rightarrow> 'a unbounded \<Rightarrow> 'a unbounded res" where
  "fill_slot block offset v q =
     bind_res (get_slot block offset q) (\<lambda>s. put_slot block offset \<lparr>us_value = Some v, us_state = us_state s OR WRITE\<rparr> q)"

definition drop_spare :: "nat option \<Rightarrow> 'a unbounded \<Rightarrow> 'a unbounded" where
  "drop_spare next_block q = (case next_block of None \<Rightarrow> q | Some n \<Rightarrow> free_block n q)"

fun upush_loop :: "nat \<Rightarrow> nat option \<Rightarrow> nat \<Rightarrow> nat option \<Rightarrow> 'a \<Rightarrow> 'a unbounded \<Rightarrow> (('a push_error + unit) \<times> 'a unbounded) res" where
  "upush_loop spurious next_block tail block v q =
     (if tail AND MARK_BIT \<noteq> 0 then Inr (Inl (PushClosed v), drop_spare next_block q)
      else let offset = drop_bit SHIFT tail mod LAP in
        if offset = BLOCK_CAP then Inl Unreachable
        else let (next_block, q) = prepare_next (offset + 1 = BLOCK_CAP) next_block q;
                 (block, q) = install_first block q in
          bind_res (add_u64 tail (push_bit SHIFT 1)) (\<lambda>new_tail.
          case spurious of
            Suc k \<Rightarrow> upush_loop k next_block (uq_tail_index q) (uq_tail_block q) v q
          | 0 \<Rightarrow>
              bind_res (if offset + 1 = BLOCK_CAP then install_next block next_block (q\<lparr>uq_tail_index := new_tail\<rparr>)
                        else Inr (q\<lparr>uq_tail_index := new_tail\<rparr>)) (\<lambda>q.
              bind_res (fill_slot block offset v q) (\<lambda>q. Inr (Inr (), q)))))"

definition upush :: "nat \<Rightarrow> 'a \<Rightarrow> 'a unbounded \<Rightarrow> (('a push_error + unit) \<times> 'a unbounded) res" where
  "upush spurious v q = upush_loop spurious None (uq_tail_index q) (uq_tail_block q) v q"

declare upush_loop.simps [simp del]

section \<open>Pushing a batch\<close>

definition MAX_STAGED_ITEM_SIZE :: nat where "MAX_STAGED_ITEM_SIZE = 256"

fun fill_slots :: "nat option \<Rightarrow> nat \<Rightarrow> 'a list \<Rightarrow> 'a unbounded \<Rightarrow> 'a unbounded res" where
  "fill_slots block offset [] q = Inr q"
| "fill_slots block offset (v # vs) q = bind_res (fill_slot block offset v q) (fill_slots block (offset + 1) vs)"

text \<open>
  Values pulled from the iterator wait in the stage until their slots are reserved; the reserved length is
  that of the stage, never the announced one. \<open>casfails\<close> says, attempt by attempt, whether the weak swap
  fails. The result is the number of items written and the values dropped.
\<close>

definition refill :: "nat \<Rightarrow> nat \<Rightarrow> nat \<Rightarrow> 'a list \<Rightarrow> 'a list \<Rightarrow> 'a list \<times> 'a list" where
  "refill offset len written stage iter =
     (if stage = [] then let cap = min (BLOCK_CAP - offset) (len - written) in (take cap iter, drop cap iter) else (stage, iter))"

lemma refill_length: "refill offset len written stage iter = (stage', iter') \<Longrightarrow> length stage' + length iter' = length stage + length iter"
  by (auto simp: refill_def Let_def split: if_splits)

function upush_n_loop ::
    "bool list \<Rightarrow> nat \<Rightarrow> 'a list \<Rightarrow> 'a list \<Rightarrow> nat \<Rightarrow> nat option \<Rightarrow> nat \<Rightarrow> nat option \<Rightarrow> 'a unbounded \<Rightarrow> (nat \<times> 'a list \<times> 'a unbounded) res" where
  "upush_n_loop casfails len iter stage written next_block tail block q =
     (if tail AND MARK_BIT \<noteq> 0 then Inr (written, stage @ iter, drop_spare next_block q)
      else let offset = drop_bit SHIFT tail mod LAP in
        if BLOCK_CAP \<le> offset then Inl Unreachable
        else case refill offset len written stage iter of (stage', iter') \<Rightarrow>
          if stage' = [] then Inr (written, iter', drop_spare next_block q)
          else let n = min (length stage') (BLOCK_CAP - offset);
                   (next_block, q) = prepare_next (offset + n = BLOCK_CAP) next_block q;
                   (block, q) = install_first block q in
            bind_res (add_u64 tail (push_bit SHIFT n)) (\<lambda>new_tail.
            case casfails of
              True # fs \<Rightarrow> upush_n_loop fs len iter' stage' written next_block (uq_tail_index q) (uq_tail_block q) q
            | _ \<Rightarrow>
                bind_res (fill_slots block offset (take n stage') (q\<lparr>uq_tail_index := new_tail\<rparr>)) (\<lambda>q.
                if offset + n = BLOCK_CAP then
                  bind_res (install_next block next_block q) (\<lambda>q.
                  bind_res (add_u64 new_tail (push_bit SHIFT 1)) (\<lambda>tail'.
                  if drop n stage' = [] \<and> written + n = len then Inr (written + n, iter', q)
                  else upush_n_loop (tl casfails) len iter' (drop n stage') (written + n) None tail' next_block q))
                else if drop n stage' = [] \<and> written + n = len then Inr (written + n, iter', drop_spare next_block q)
                else upush_n_loop (tl casfails) len iter' (drop n stage') (written + n) next_block new_tail block q)))"
  by pat_completeness auto
termination
proof (relation "measure (\<lambda>(casfails, len, iter, stage, rest). length casfails + (length stage + length iter))", goal_cases)
  case 1
  then show ?case by simp
qed (auto dest!: refill_length [OF sym] simp: min_def neq_Nil_conv)

declare upush_n_loop.simps [simp del]

text \<open>Wide items are pushed one by one.\<close>

fun upush_each :: "nat \<Rightarrow> 'a list \<Rightarrow> nat \<Rightarrow> 'a unbounded \<Rightarrow> (nat \<times> 'a list \<times> 'a unbounded) res" where
  "upush_each 0 iter written q = Inr (written, iter, q)"
| "upush_each (Suc k) [] written q = Inr (written, [], q)"
| "upush_each (Suc k) (v # iter) written q =
     bind_res (upush 0 v q) (\<lambda>(r, q). case r of
        Inl _ \<Rightarrow> Inr (written, v # iter, q)
      | Inr _ \<Rightarrow> upush_each k iter (written + 1) q)"

definition upush_n :: "nat \<Rightarrow> bool list \<Rightarrow> nat \<Rightarrow> 'a list \<Rightarrow> 'a unbounded \<Rightarrow> (nat \<times> 'a list \<times> 'a unbounded) res" where
  "upush_n item_size casfails len iter q =
     (if len = 0 then Inr (0, iter, q)
      else if MAX_STAGED_ITEM_SIZE < item_size then upush_each len iter 0 q
      else upush_n_loop casfails len iter [] 0 None (uq_tail_index q) (uq_tail_block q) q)"

section \<open>Popping\<close>

text \<open>The reader of the last slot of a block moves the head to the next block.\<close>

definition advance_head :: "nat option \<Rightarrow> nat \<Rightarrow> 'a unbounded \<Rightarrow> 'a unbounded res" where
  "advance_head block new_head q =
     bind_res (deref_block block q) (\<lambda>(_, b).
     case ub_next b of
       None \<Rightarrow> Inl Unreachable
     | Some next \<Rightarrow>
         bind_res (deref_block (Some next) q) (\<lambda>(_, nb).
         let next_index = wrapping_add_u64 (push_bit SHIFT (drop_bit SHIFT new_head)) (push_bit SHIFT 1);
             next_index = (if ub_next nb \<noteq> None then next_index OR MARK_BIT else next_index) in
         Inr (q\<lparr>uq_head_block := Some next, uq_head_index := next_index\<rparr>)))"

definition read_slot :: "nat option \<Rightarrow> nat \<Rightarrow> 'a unbounded \<Rightarrow> ('a \<times> 'a unbounded) res" where
  "read_slot block offset q =
     bind_res (get_slot block offset q) (\<lambda>s.
     if us_state s AND WRITE = 0 then Inl Unreachable
     else case us_value s of
       None \<Rightarrow> Inl UninitRead
     | Some v \<Rightarrow>
         if offset + 1 = BLOCK_CAP then
           bind_res (put_slot block offset (s\<lparr>us_value := None\<rparr>) q) (\<lambda>q.
           bind_res (destroy_block block 0 q) (\<lambda>q. Inr (v, q)))
         else
           bind_res (put_slot block offset \<lparr>us_value = None, us_state = us_state s OR READ\<rparr> q) (\<lambda>q.
           if us_state s AND DESTROY \<noteq> 0 then bind_res (destroy_block block (offset + 1) q) (\<lambda>q. Inr (v, q))
           else Inr (v, q)))"

fun upop_loop :: "nat \<Rightarrow> nat \<Rightarrow> nat option \<Rightarrow> 'a unbounded \<Rightarrow> ((pop_error + 'a) \<times> 'a unbounded) res" where
  "upop_loop spurious head block q =
     (let offset = drop_bit SHIFT head mod LAP in
      if offset = BLOCK_CAP then Inl Unreachable
      else bind_res (add_u64 head (push_bit SHIFT 1)) (\<lambda>new_head.
        let tail = uq_tail_index q in
        if new_head AND MARK_BIT = 0 \<and> drop_bit SHIFT head = drop_bit SHIFT tail then
          Inr (Inl (if tail AND MARK_BIT \<noteq> 0 then PopClosed else PopEmpty), q)
        else let new_head = (if new_head AND MARK_BIT = 0 \<and> drop_bit SHIFT head div LAP \<noteq> drop_bit SHIFT tail div LAP
                             then new_head OR MARK_BIT else new_head) in
          if block = None then Inl Unreachable
          else case spurious of
            Suc k \<Rightarrow> upop_loop k (uq_head_index q) (uq_head_block q) q
          | 0 \<Rightarrow>
              bind_res (if offset + 1 = BLOCK_CAP then advance_head block new_head (q\<lparr>uq_head_index := new_head\<rparr>)
                        else Inr (q\<lparr>uq_head_index := new_head\<rparr>)) (\<lambda>q.
              bind_res (read_slot block offset q) (\<lambda>(v, q). Inr (Inr v, q)))))"

definition upop :: "nat \<Rightarrow> 'a unbounded \<Rightarrow> ((pop_error + 'a) \<times> 'a unbounded) res" where
  "upop spurious q = upop_loop spurious (uq_head_index q) (uq_head_block q) q"

declare upop_loop.simps [simp del]

section \<open>Observers and closing\<close>

definition ulen :: "'a unbounded \<Rightarrow> nat res" where
  "ulen q =
     (let erase = (\<lambda>i. push_bit SHIFT (drop_bit SHIFT i));
          fix_end = (\<lambda>i. if drop_bit SHIFT i AND (LAP - 1) = LAP - 1 then wrapping_add_u64 i (push_bit SHIFT 1) else i);
          tail = fix_end (erase (uq_tail_index q)); head = fix_end (erase (uq_head_index q));
          lap = drop_bit SHIFT head div LAP;
          tail = drop_bit SHIFT (wrapping_sub_u64 tail (push_bit SHIFT (lap * LAP)));
          head = drop_bit SHIFT (wrapping_sub_u64 head (push_bit SHIFT (lap * LAP))) in
      if tail < head + tail div LAP then Inl ArithOverflow else Inr (tail - head - tail div LAP))"

definition uis_empty :: "'a unbounded \<Rightarrow> bool" where
  "uis_empty q \<longleftrightarrow> drop_bit SHIFT (uq_head_index q) = drop_bit SHIFT (uq_tail_index q)"

definition uclose :: "'a unbounded \<Rightarrow> bool \<times> 'a unbounded" where
  "uclose q = (uq_tail_index q AND MARK_BIT = 0, q\<lparr>uq_tail_index := uq_tail_index q OR MARK_BIT\<rparr>)"

definition uis_closed :: "'a unbounded \<Rightarrow> bool" where
  "uis_closed q \<longleftrightarrow> uq_tail_index q AND MARK_BIT \<noteq> 0"

text \<open>
  Dropping the queue drops the values from head to tail and frees the blocks. The loop runs once per
  index; the first argument bounds it.
\<close>

fun udrop_loop :: "nat \<Rightarrow> nat \<Rightarrow> nat \<Rightarrow> nat option \<Rightarrow> 'a unbounded \<Rightarrow> ('a list \<times> 'a unbounded) res" where
  "udrop_loop fuel head tail block q =
     (if head = tail then Inr ([], case block of None \<Rightarrow> q | Some a \<Rightarrow> free_block a q)
      else case fuel of
        0 \<Rightarrow> Inl Unreachable
      | Suc k \<Rightarrow>
          let offset = drop_bit SHIFT head mod LAP; next = wrapping_add_u64 head (push_bit SHIFT 1) in
          if offset < BLOCK_CAP then
            bind_res (get_slot block offset q) (\<lambda>s.
            case us_value s of
              None \<Rightarrow> Inl UninitRead
            | Some v \<Rightarrow>
                bind_res (put_slot block offset (s\<lparr>us_value := None\<rparr>) q) (\<lambda>q.
                bind_res (udrop_loop k next tail block q) (\<lambda>(vs, q). Inr (v # vs, q))))
          else
            bind_res (deref_block block q) (\<lambda>(a, b).
            udrop_loop k next tail (ub_next b) (free_block a q)))"

definition udrop :: "'a unbounded \<Rightarrow> ('a list \<times> 'a unbounded) res" where
  "udrop q =
     (let head = push_bit SHIFT (drop_bit SHIFT (uq_head_index q)); tail = push_bit SHIFT (drop_bit SHIFT (uq_tail_index q)) in
      udrop_loop (wrapping_sub_u64 tail head) head tail (uq_head_block q) q)"

declare udrop_loop.simps [simp del]

end
