(* ===== verification/Queue_Chain.thy ===== *)
theory Queue_Chain
  imports Queue_Unbounded
begin

text \<open>
  The block list of the unbounded queue seen as one list of slots: the chain from head block to tail
  block, possibly with one spare block allocated ahead, and what the heap operations do to that list.
\<close>

section \<open>Uniform concatenations\<close>

lemma concat_uniform_nth:
  "\<forall>xs \<in> set xss. length xs = n \<Longrightarrow> j < length xss \<Longrightarrow> i < n \<Longrightarrow> concat xss ! (n * j + i) = xss ! j ! i"
proof (induction xss arbitrary: j)
  case (Cons xs xss)
  then show ?case by (cases j) (auto simp: nth_append)
qed simp

lemma concat_uniform_update:
  "\<forall>xs \<in> set xss. length xs = n \<Longrightarrow> j < length xss \<Longrightarrow> i < n \<Longrightarrow> concat (xss[j := (xss ! j)[i := v]]) = (concat xss)[n * j + i := v]"
proof (induction xss arbitrary: j)
  case (Cons xs xss)
  then show ?case by (cases j) (auto simp: list_update_append)
qed simp

lemma concat_uniform_length: "\<forall>xs \<in> set xss. length xs = n \<Longrightarrow> length (concat xss) = n * length xss"
  by (induction xss) simp_all

section \<open>Chains of blocks\<close>

fun linked :: "(nat \<Rightarrow> 'a ublock option) \<Rightarrow> nat list \<Rightarrow> bool" where
  "linked h [] \<longleftrightarrow> True"
| "linked h (a # as) \<longleftrightarrow>
     (\<exists>b. h a = Some b \<and> ub_next b = (case as of [] \<Rightarrow> None | c # _ \<Rightarrow> Some c) \<and> length (ub_slots b) = BLOCK_CAP) \<and> linked h as"

definition block_slots :: "(nat \<Rightarrow> 'a ublock option) \<Rightarrow> nat \<Rightarrow> 'a uslot list" where
  "block_slots h a = (case h a of None \<Rightarrow> [] | Some b \<Rightarrow> ub_slots b)"

definition flat :: "(nat \<Rightarrow> 'a ublock option) \<Rightarrow> nat list \<Rightarrow> 'a uslot list" where
  "flat h bls = concat (map (block_slots h) bls)"

definition chain :: "'a unbounded \<Rightarrow> nat option \<Rightarrow> nat list \<Rightarrow> bool" where
  "chain q spare bls \<longleftrightarrow>
     linked (uq_heap q) bls \<and> distinct bls \<and> (\<forall>a. uq_heap q a \<noteq> None \<longleftrightarrow> a \<in> set bls \<union> set_option spare) \<and>
     (\<forall>a \<in> set bls \<union> set_option spare. a < uq_fresh q) \<and> (\<forall>a. spare = Some a \<longrightarrow> a \<notin> set bls \<and> uq_heap q a = Some ublock_new)"

definition ends :: "'a unbounded \<Rightarrow> nat list \<Rightarrow> bool" where
  "ends q bls \<longleftrightarrow> uq_head_block q = (case bls of [] \<Rightarrow> None | a # _ \<Rightarrow> Some a) \<and>
     uq_tail_block q = (if bls = [] then None else Some (last bls))"

lemma linked_cong: "(\<And>a. a \<in> set bls \<Longrightarrow> h' a = h a) \<Longrightarrow> linked h' bls = linked h bls"
  by (induction bls) auto

lemma linked_block_ex:
  "linked h bls \<Longrightarrow> j < length bls \<Longrightarrow> \<exists>b. h (bls ! j) = Some b \<and> length (ub_slots b) = BLOCK_CAP \<and>
     ub_next b = (if Suc j < length bls then Some (bls ! Suc j) else None)"
proof (induction bls arbitrary: j)
  case (Cons a as)
  show ?case
  proof (cases j)
    case 0
    with Cons.prems show ?thesis by (cases as) auto
  next
    case (Suc i)
    with Cons.prems have "linked h as" "i < length as" by auto
    from Cons.IH [OF this] Suc show ?thesis by (auto split: if_splits)
  qed
qed simp

lemma linked_block:
  assumes "linked h bls" and "j < length bls"
  obtains b where "h (bls ! j) = Some b" "length (ub_slots b) = BLOCK_CAP" "ub_next b = (if Suc j < length bls then Some (bls ! Suc j) else None)"
  using linked_block_ex [OF assms] by blast

lemma linked_uniform: "linked h bls \<Longrightarrow> \<forall>xs \<in> set (map (block_slots h) bls). length xs = BLOCK_CAP"
  by (induction bls) (auto simp: block_slots_def)

lemma flat_length: "linked h bls \<Longrightarrow> length (flat h bls) = BLOCK_CAP * length bls"
  using concat_uniform_length [OF linked_uniform] by (simp add: flat_def)

lemma flat_simps [simp]: "flat h [] = []" "flat h (a # as) = block_slots h a @ flat h as" "flat h (as @ bs) = flat h as @ flat h bs"
  by (simp_all add: flat_def)

lemma flat_cong: "(\<And>a. a \<in> set bls \<Longrightarrow> h' a = h a) \<Longrightarrow> flat h' bls = flat h bls"
  by (induction bls) (auto simp: block_slots_def)

lemma flat_nth:
  assumes "linked h bls" and "j < length bls" and "i < BLOCK_CAP" and "h (bls ! j) = Some b"
  shows "ub_slots b ! i = flat h bls ! (BLOCK_CAP * j + i)"
  using concat_uniform_nth [OF linked_uniform [OF assms(1)], of j i] assms by (simp add: flat_def block_slots_def)

lemma get_slot_flat:
  assumes "linked (uq_heap q) bls" and "j < length bls" and "i < BLOCK_CAP"
  shows "get_slot (Some (bls ! j)) i q = Inr (flat (uq_heap q) bls ! (BLOCK_CAP * j + i))"
proof -
  obtain b where b: "uq_heap q (bls ! j) = Some b" "length (ub_slots b) = BLOCK_CAP" using linked_block [OF assms(1,2)] .
  with flat_nth [OF assms b(1)] assms(3) show ?thesis by (simp add: get_slot_def deref_block_def)
qed

lemma linked_put:
  assumes "linked h bls" and "h a = Some b" and "length ss = BLOCK_CAP" and "a \<in> set bls \<or> a \<notin> set bls"
  shows "linked (h(a := Some (b\<lparr>ub_slots := ss\<rparr>))) bls"
  using assms by (induction bls) auto

lemma put_slot_flat:
  assumes ch: "chain q spare bls" and j: "j < length bls" and i: "i < BLOCK_CAP"
  obtains h where "put_slot (Some (bls ! j)) i s q = Inr (q\<lparr>uq_heap := h\<rparr>)" "chain (q\<lparr>uq_heap := h\<rparr>) spare bls"
    "flat h bls = (flat (uq_heap q) bls)[BLOCK_CAP * j + i := s]"
proof -
  have li: "linked (uq_heap q) bls" and di: "distinct bls" using ch by (auto simp: chain_def)
  let ?a = "bls ! j"
  obtain b where b: "uq_heap q ?a = Some b" "length (ub_slots b) = BLOCK_CAP" using linked_block [OF li j] .
  define h where "h = (uq_heap q)(?a := Some (b\<lparr>ub_slots := (ub_slots b)[i := s]\<rparr>))"
  have in_bls: "?a \<in> set bls" using j by simp
  have "map (block_slots h) bls = (map (block_slots (uq_heap q)) bls)[j := (map (block_slots (uq_heap q)) bls ! j)[i := s]]"
  proof (rule nth_equalityI)
    fix k assume "k < length (map (block_slots h) bls)"
    with di j b(1) show "map (block_slots h) bls ! k = (map (block_slots (uq_heap q)) bls)[j := (map (block_slots (uq_heap q)) bls ! j)[i := s]] ! k"
      by (auto simp: h_def block_slots_def nth_list_update nth_eq_iff_index_eq)
  qed simp
  then have fl: "flat h bls = (flat (uq_heap q) bls)[BLOCK_CAP * j + i := s]"
    using concat_uniform_update [OF linked_uniform [OF li], of j i s] j i by (simp add: flat_def)
  have put: "put_slot (Some ?a) i s q = Inr (q\<lparr>uq_heap := h\<rparr>)" using b i by (simp add: put_slot_def deref_block_def h_def)
  have "linked h bls" unfolding h_def using linked_put [OF li b(1)] b(2) by simp
  moreover have "h a \<noteq> None \<longleftrightarrow> uq_heap q a \<noteq> None" for a using b(1) by (simp add: h_def)
  moreover have "h a = uq_heap q a" if "spare = Some a" for a using ch that in_bls by (auto simp: chain_def h_def)
  ultimately have "chain (q\<lparr>uq_heap := h\<rparr>) spare bls" using ch by (simp add: chain_def)
  from that [OF put this fl] show thesis .
qed

section \<open>Growing and shrinking a chain\<close>

lemma alloc_chain:
  assumes "chain q None bls" and "alloc_block q = (n, q')"
  shows "chain q' (Some n) bls" and "flat (uq_heap q') bls = flat (uq_heap q) bls" and "uq_heap q' n = Some ublock_new"
    and "q' = q\<lparr>uq_heap := uq_heap q', uq_fresh := uq_fresh q'\<rparr>"
proof -
  have q': "n = uq_fresh q" "q' = q\<lparr>uq_heap := (uq_heap q)(n := Some ublock_new), uq_fresh := Suc n\<rparr>" using assms(2) by (auto simp: alloc_block_def)
  have new: "n \<notin> set bls" using assms(1) q'(1) by (auto simp: chain_def)
  have same: "uq_heap q' a = uq_heap q a" if "a \<in> set bls" for a using that new by (auto simp: q'(2))
  show "flat (uq_heap q') bls = flat (uq_heap q) bls" by (rule flat_cong [OF same])
  show "uq_heap q' n = Some ublock_new" by (simp add: q'(2))
  show "chain q' (Some n) bls" using assms(1) new linked_cong [of bls "uq_heap q'" "uq_heap q", OF same] by (auto simp: chain_def q' less_Suc_eq)
  show "q' = q\<lparr>uq_heap := uq_heap q', uq_fresh := uq_fresh q'\<rparr>" by (simp add: q'(2))
qed

lemma linked_snoc:
  "linked h bls \<Longrightarrow> distinct bls \<Longrightarrow> bls \<noteq> [] \<Longrightarrow> h (last bls) = Some b \<Longrightarrow> h n = Some ublock_new \<Longrightarrow> n \<notin> set bls \<Longrightarrow>
   linked (h(last bls := Some (b\<lparr>ub_next := Some n\<rparr>))) (bls @ [n])"
proof (induction bls)
  case (Cons a as)
  note prems = Cons.prems and IH = Cons.IH
  show ?case
  proof (cases "as = []")
    case True
    with prems show ?thesis by (simp add: ublock_new_def)
  next
    case False
    have "linked (h(last as := Some (b\<lparr>ub_next := Some n\<rparr>))) (as @ [n])" by (rule IH) (use prems False in simp_all)
    moreover have ne: "a \<noteq> last as" using prems(2) False by auto
    moreover have "(case as of [] \<Rightarrow> None | c # _ \<Rightarrow> Some c) = (case as @ [n] of [] \<Rightarrow> None | c # _ \<Rightarrow> Some c)" using False by (cases as) simp_all
    ultimately show ?thesis using prems(1) False by (simp add: fun_upd_def)
  qed
qed simp

lemma install_next_chain:
  assumes ch: "chain q (Some n) bls" and en: "ends q bls" and ne: "bls \<noteq> []"
  obtains h where "install_next (Some (last bls)) (Some n) q = Inr (q\<lparr>uq_tail_block := Some n, uq_tail_index := wrapping_add_u64 (uq_tail_index q) 2, uq_heap := h\<rparr>)"
    "chain (q\<lparr>uq_tail_block := Some n, uq_tail_index := wrapping_add_u64 (uq_tail_index q) 2, uq_heap := h\<rparr>) None (bls @ [n])"
    "ends (q\<lparr>uq_tail_block := Some n, uq_tail_index := wrapping_add_u64 (uq_tail_index q) 2, uq_heap := h\<rparr>) (bls @ [n])"
    "flat h (bls @ [n]) = flat (uq_heap q) bls @ replicate BLOCK_CAP \<lparr>us_value = None, us_state = 0\<rparr>"
proof -
  have li: "linked (uq_heap q) bls" "distinct bls" "n \<notin> set bls" "uq_heap q n = Some ublock_new" using ch by (auto simp: chain_def)
  obtain b where b: "uq_heap q (last bls) = Some b" "length (ub_slots b) = BLOCK_CAP"
    using linked_block [OF li(1), of "length bls - 1"] ne by (metis diff_less last_conv_nth length_greater_0_conv zero_less_one)
  define h where "h = (uq_heap q)(last bls := Some (b\<lparr>ub_next := Some n\<rparr>))"
  let ?q = "q\<lparr>uq_tail_block := Some n, uq_tail_index := wrapping_add_u64 (uq_tail_index q) 2, uq_heap := h\<rparr>"
  have ins: "install_next (Some (last bls)) (Some n) q = Inr ?q"
    using b(1) by (simp add: install_next_def set_next_def deref_block_def h_def SHIFT_def push_bit_eq_mult)
  have "linked h (bls @ [n])" unfolding h_def by (rule linked_snoc [OF li(1,2) ne b(1) li(4,3)])
  moreover have "h a \<noteq> None \<longleftrightarrow> uq_heap q a \<noteq> None" for a using b(1) by (simp add: h_def)
  ultimately have c: "chain ?q None (bls @ [n])" using ch li(2,3) by (auto simp: chain_def)
  have e: "ends ?q (bls @ [n])" using en ne by (auto simp: ends_def split: list.splits)
  have "block_slots h a = block_slots (uq_heap q) a" for a using b(1) by (simp add: h_def block_slots_def)
  then have "flat h as = flat (uq_heap q) as" for as by (induction as) simp_all
  moreover have "block_slots h n = replicate BLOCK_CAP \<lparr>us_value = None, us_state = 0\<rparr>"
    using li(3,4) ne by (auto simp: h_def block_slots_def ublock_new_def)
  ultimately have "flat h (bls @ [n]) = flat (uq_heap q) bls @ replicate BLOCK_CAP \<lparr>us_value = None, us_state = 0\<rparr>" by simp
  from that [OF ins c e this] show thesis .
qed

lemma free_first_chain:
  assumes "chain q None (a # as)"
  shows "chain (free_block a q) None as" and "flat (uq_heap (free_block a q)) as = flat (uq_heap q) as"
proof -
  have same: "uq_heap (free_block a q) c = uq_heap q c" if "c \<in> set as" for c using assms that by (auto simp: chain_def free_block_def)
  show "flat (uq_heap (free_block a q)) as = flat (uq_heap q) as" by (rule flat_cong [OF same])
  show "chain (free_block a q) None as"
    using assms linked_cong [of as "uq_heap (free_block a q)" "uq_heap q", OF same] by (auto simp: chain_def free_block_def)
qed

end
