(* ===== verification/Queue_Ops.thy ===== *)
theory Queue_Ops
  imports Queue_Chain
begin

text \<open>
  The unbounded queue holds a list of items: pushing appends, popping takes the first, blocks come and go
  with the items.
\<close>

section \<open>The invariant\<close>

abbreviation live :: "'a \<Rightarrow> 'a uslot" where "live v \<equiv> \<lparr>us_value = Some v, us_state = 1\<rparr>"

abbreviation gone :: "'a uslot" where "gone \<equiv> \<lparr>us_value = None, us_state = 3\<rparr>"

abbreviation blank :: "'a uslot" where "blank \<equiv> \<lparr>us_value = None, us_state = 0\<rparr>"

text \<open>
  The slots of the chain are, in order, \<open>off\<close> slots already read, the items, and blank slots; the indices
  point at the first item and behind the last, counting 32 per block; a marked head has a next block.
\<close>

definition uq_inv :: "'a unbounded \<Rightarrow> nat option \<Rightarrow> nat list \<Rightarrow> nat \<Rightarrow> nat \<Rightarrow> nat \<Rightarrow> 'a list \<Rightarrow> bool" where
  "uq_inv q spare bls off toff lap xs \<longleftrightarrow>
     chain q spare bls \<and> ends q bls \<and> off < 31 \<and> toff < 31 \<and> off + length xs = 31 * (length bls - 1) + toff \<and>
     flat (uq_heap q) bls = replicate off gone @ map live xs @ replicate (31 * length bls - (off + length xs)) blank \<and>
     uq_head_index q div 2 = 32 * lap + off \<and> uq_tail_index q div 2 = 32 * (lap + (length bls - 1)) + toff \<and>
     (odd (uq_head_index q) \<longrightarrow> 1 < length bls)"

lemma queue_bits [simp]:
  "BLOCK_CAP = 31" "LAP = 32" "n AND MARK_BIT = n mod 2" "drop_bit SHIFT n = n div 2" "push_bit SHIFT n = 2 * n"
  "n OR MARK_BIT = (if even n then Suc n else n)" "2 ^ SHIFT = (2 :: nat)"
  by (auto simp: queue_consts and_one_eq or_Suc_0_eq drop_bit_eq_div push_bit_eq_mult)

lemma uq_invE:
  assumes "uq_inv q spare bls off toff lap xs"
  shows "chain q spare bls" and "ends q bls" and "off < 31" and "toff < 31" and "off + length xs = 31 * (length bls - 1) + toff"
    and "flat (uq_heap q) bls = replicate off gone @ map live xs @ replicate (31 * length bls - (off + length xs)) blank"
    and "uq_head_index q div 2 = 32 * lap + off" and "uq_tail_index q div 2 = 32 * (lap + (length bls - 1)) + toff"
    and "odd (uq_head_index q) \<Longrightarrow> 1 < length bls" and "linked (uq_heap q) bls" and "bls = [] \<Longrightarrow> off = 0 \<and> toff = 0 \<and> xs = []"
proof -
  show li: "linked (uq_heap q) bls" using assms by (simp add: uq_inv_def chain_def)
  show "off = 0 \<and> toff = 0 \<and> xs = []" if "bls = []" using assms flat_length [OF li] that by (auto simp: uq_inv_def)
qed (use assms in \<open>auto simp: uq_inv_def\<close>)

lemma lap_split: "t < 32 \<Longrightarrow> (32 * k + t) mod 32 = (t :: nat)" "t < 32 \<Longrightarrow> (32 * k + t) div 32 = (k :: nat)"
  by simp_all

lemma uq_offsets:
  assumes "uq_inv q spare bls off toff lap xs"
  shows "uq_head_index q div 2 mod 32 = off" and "uq_tail_index q div 2 mod 32 = toff"
    and "uq_head_index q div 2 = uq_tail_index q div 2 \<longleftrightarrow> xs = []"
    and "uq_head_index q div 2 div 32 \<noteq> uq_tail_index q div 2 div 32 \<longleftrightarrow> 1 < length bls"
    and "uq_head_index q \<le> Suc (uq_tail_index q)" and "uq_head_index q div 2 \<le> uq_tail_index q div 2"
proof -
  note i = uq_invE [OF assms]
  show "uq_head_index q div 2 mod 32 = off" "uq_tail_index q div 2 mod 32 = toff" unfolding i(7,8) using i(3,4) by (intro lap_split; simp)+
  show "uq_head_index q div 2 = uq_tail_index q div 2 \<longleftrightarrow> xs = []" unfolding i(7,8) using i(3,4,5)
    by (cases "length bls - 1") (auto simp flip: length_0_conv)
  have "uq_head_index q div 2 div 32 = lap" "uq_tail_index q div 2 div 32 = lap + (length bls - 1)" unfolding i(7,8) using i(3,4) by (intro lap_split; simp)+
  then show "uq_head_index q div 2 div 32 \<noteq> uq_tail_index q div 2 div 32 \<longleftrightarrow> 1 < length bls" by auto
  show "uq_head_index q div 2 \<le> uq_tail_index q div 2" unfolding i(7,8) using i(5) by (cases "length bls - 1") simp_all
  then show "uq_head_index q \<le> Suc (uq_tail_index q)" by presburger
qed

section \<open>Slots\<close>

lemma content_blank: "off + length xs < n \<Longrightarrow>
   (replicate off gone @ map live xs @ replicate (n - (off + length xs)) blank) ! (off + length xs) = blank"
  by (simp add: nth_append)

lemma content_fill:
  "off + length xs < n \<Longrightarrow>
   (replicate off gone @ map live xs @ replicate (n - (off + length xs)) blank)[off + length xs := live v] =
   replicate off gone @ map live (xs @ [v]) @ replicate (n - (off + length (xs @ [v]))) blank"
  by (cases "n - (off + length xs)") (auto simp: list_update_append)

lemma content_front: "(replicate off gone @ map live (x # xs) @ ys) ! off = live x"
  by (simp add: nth_append)

lemma content_take:
  "(replicate off gone @ map live (x # xs) @ ys)[off := gone] = replicate (Suc off) gone @ map live xs @ ys"
  by (simp add: list_update_append replicate_app_Cons_same)

lemma fill_slot_flat:
  assumes ch: "chain q spare bls" and j: "j < length bls" and i: "i < 31" and blank: "flat (uq_heap q) bls ! (31 * j + i) = blank"
  obtains h where "fill_slot (Some (bls ! j)) i v q = Inr (q\<lparr>uq_heap := h\<rparr>)" "chain (q\<lparr>uq_heap := h\<rparr>) spare bls"
    "flat h bls = (flat (uq_heap q) bls)[31 * j + i := live v]"
proof -
  have "linked (uq_heap q) bls" using ch by (simp add: chain_def)
  from get_slot_flat [OF this j] i blank have "get_slot (Some (bls ! j)) i q = Inr blank" by simp
  with put_slot_flat [OF ch j, of i "live v"] i that show thesis by (auto simp: fill_slot_def WRITE_def)
qed

section \<open>Pushing\<close>

lemma chain_fields [simp]:
  "chain (q\<lparr>uq_tail_index := t\<rparr>) spare bls = chain q spare bls" "chain (q\<lparr>uq_head_index := t\<rparr>) spare bls = chain q spare bls"
  "chain (q\<lparr>uq_tail_block := b\<rparr>) spare bls = chain q spare bls" "chain (q\<lparr>uq_head_block := b\<rparr>) spare bls = chain q spare bls"
  by (simp_all add: chain_def)

lemma upush_commit:
  assumes inv: "uq_inv q spare bls off toff lap xs" and ne: "bls \<noteq> []" and open_q: "even (uq_tail_index q)"
    and sp: "spare \<noteq> None \<longleftrightarrow> toff = 30" and bound: "uq_tail_index q + 4 < u64_mod"
  shows "\<exists>q' bls' toff'. upush_loop k spare (uq_tail_index q) (uq_tail_block q) v q = Inr (Inr (), q') \<and> uq_inv q' None bls' off toff' lap (xs @ [v]) \<and>
     even (uq_tail_index q') \<and> uq_tail_index q' \<le> uq_tail_index q + 4"
proof (induction k)
  case 0
  note i = uq_invE [OF inv] and o = uq_offsets [OF inv]
  let ?t = "uq_tail_index q"
  obtain j where j: "length bls = Suc j" using ne by (cases bls) auto
  have blk: "uq_tail_block q = Some (last bls)" "last bls = bls ! j" using i(2) ne j by (auto simp: ends_def last_conv_nth)
  have at: "off + length xs < 31 * length bls" "31 * j + toff = off + length xs" using i(4,5) j by simp_all
  have new: "add_u64 ?t 2 = Inr (?t + 2)" using bound by (simp add: add_u64_def)
  have step: "upush_loop 0 spare ?t (uq_tail_block q) v q =
      bind_res (if toff = 30 then install_next (Some (last bls)) spare (q\<lparr>uq_tail_index := ?t + 2\<rparr>) else Inr (q\<lparr>uq_tail_index := ?t + 2\<rparr>)) (\<lambda>q.
      bind_res (fill_slot (Some (last bls)) toff v q) (\<lambda>q. Inr (Inr (), q)))"
    using open_q i(4) sp by (subst upush_loop.simps) (auto simp: o(2) blk(1) prepare_next_def install_first_def new)
  show ?case
  proof (cases "toff = 30")
    case False
    let ?q = "q\<lparr>uq_tail_index := ?t + 2\<rparr>"
    have ch: "chain ?q spare bls" "flat (uq_heap ?q) bls ! (31 * j + toff) = blank"
      using i(1) content_blank [OF at(1)] unfolding at(2) by (simp_all add: i(6))
    have jb: "j < length bls" using j by simp
    from fill_slot_flat [OF ch(1) jb i(4) ch(2), of v] obtain h where
      h: "fill_slot (Some (bls ! j)) toff v ?q = Inr (?q\<lparr>uq_heap := h\<rparr>)" "chain (?q\<lparr>uq_heap := h\<rparr>) spare bls"
        "flat h bls = (flat (uq_heap q) bls)[31 * j + toff := live v]" by auto
    have "uq_inv (?q\<lparr>uq_heap := h\<rparr>) None bls off (toff + 1) lap (xs @ [v])"
      unfolding uq_inv_def using h(2,3) i(2,3,5,7,8,9) False i(4) sp content_fill [OF at(1), of v] by (auto simp: ends_def i(6) at(2))
    with step h(1) blk(2) open_q False show ?thesis by auto
  next
    case True
    with sp obtain n where n: "spare = Some n" by auto
    let ?q = "q\<lparr>uq_tail_index := ?t + 2\<rparr>"
    have ch: "chain ?q (Some n) bls" "ends ?q bls" using i(1,2) by (simp_all add: n ends_def)
    from install_next_chain [OF ch ne] obtain h1 where h1:
      "install_next (Some (last bls)) (Some n) ?q = Inr (?q\<lparr>uq_tail_block := Some n, uq_tail_index := wrapping_add_u64 (?t + 2) 2, uq_heap := h1\<rparr>)"
      "chain (?q\<lparr>uq_tail_block := Some n, uq_tail_index := wrapping_add_u64 (?t + 2) 2, uq_heap := h1\<rparr>) None (bls @ [n])"
      "ends (?q\<lparr>uq_tail_block := Some n, uq_tail_index := wrapping_add_u64 (?t + 2) 2, uq_heap := h1\<rparr>) (bls @ [n])"
      "flat h1 (bls @ [n]) = flat (uq_heap q) bls @ replicate 31 blank" by auto
    have wrap: "wrapping_add_u64 (?t + 2) 2 = ?t + 4" using bound by (simp add: wrapping_add_u64_def)
    let ?q1 = "?q\<lparr>uq_tail_block := Some n, uq_tail_index := ?t + 4, uq_heap := h1\<rparr>"
    have at': "off + length xs < 31 * length (bls @ [n])" using at(1) by simp
    have fl: "flat h1 (bls @ [n]) = replicate off gone @ map live xs @ replicate (31 * length (bls @ [n]) - (off + length xs)) blank"
      using h1(4) i(6) at(1) by (simp flip: replicate_add)
    have jn: "j < length (bls @ [n])" "last bls = (bls @ [n]) ! j" using j blk(2) by (simp_all add: nth_append)
    have bl: "flat (uq_heap ?q1) (bls @ [n]) ! (31 * j + toff) = blank" using content_blank [OF at'] by (simp add: fl at(2) del: append_assoc flat_simps)
    from fill_slot_flat [OF h1(2) [unfolded wrap] jn(1) i(4) bl, of v] obtain h where
      h: "fill_slot (Some (last bls)) toff v ?q1 = Inr (?q1\<lparr>uq_heap := h\<rparr>)" "chain (?q1\<lparr>uq_heap := h\<rparr>) None (bls @ [n])"
        "flat h (bls @ [n]) = (flat (uq_heap ?q1) (bls @ [n]))[31 * j + toff := live v]" unfolding jn(2) by blast
    have flh: "flat h (bls @ [n]) = replicate off gone @ map live (xs @ [v]) @ replicate (31 * length (bls @ [n]) - (off + length (xs @ [v]))) blank"
      using h(3) content_fill [OF at', of v] unfolding at(2) by (simp add: fl del: flat_simps)
    have "ends (?q1\<lparr>uq_heap := h\<rparr>) (bls @ [n])" using h1(3) wrap by (simp add: ends_def)
    moreover have "off + length (xs @ [v]) = 31 * (length (bls @ [n]) - 1) + 0" using at(2) True j by simp
    moreover have "uq_tail_index (?q1\<lparr>uq_heap := h\<rparr>) div 2 = 32 * (lap + (length (bls @ [n]) - 1)) + 0" using i(8) True j by simp
    ultimately have "uq_inv (?q1\<lparr>uq_heap := h\<rparr>) None (bls @ [n]) off 0 lap (xs @ [v])"
      unfolding uq_inv_def using h(2) flh i(3,7,9) by (auto simp del: flat_simps)
    with step h(1) h1(1) True n wrap open_q show ?thesis by auto
  qed
next
  case (Suc k)
  note i = uq_invE [OF inv] and o = uq_offsets [OF inv]
  have blk: "uq_tail_block q = Some (last bls)" using i(2) ne by (auto simp: ends_def)
  have "add_u64 (uq_tail_index q) 2 = Inr (uq_tail_index q + 2)" using bound by (simp add: add_u64_def)
  then have "upush_loop (Suc k) spare (uq_tail_index q) (uq_tail_block q) v q = upush_loop k spare (uq_tail_index q) (uq_tail_block q) v q"
    using open_q i(4) sp by (subst upush_loop.simps) (auto simp: o(2) blk prepare_next_def install_first_def)
  with Suc show ?case by simp
qed

lemma prepare_next_inv:
  assumes inv: "uq_inv q spare bls off toff lap xs"
  obtains spare' q' where "prepare_next fills spare q = (spare', q')" "uq_inv q' spare' bls off toff lap xs"
    "spare' \<noteq> None \<longleftrightarrow> fills \<or> spare \<noteq> None" "uq_tail_index q' = uq_tail_index q" "uq_tail_block q' = uq_tail_block q"
proof (cases "fills \<and> spare = None")
  case True
  obtain n q' where a: "alloc_block q = (n, q')" by (cases "alloc_block q")
  note i = uq_invE [OF inv]
  have ch: "chain q None bls" using i(1) True by simp
  note c = alloc_chain [OF ch a]
  have fields: "uq_tail_index q' = uq_tail_index q" "uq_head_index q' = uq_head_index q" "uq_tail_block q' = uq_tail_block q" "uq_head_block q' = uq_head_block q"
    using arg_cong [OF c(4), of uq_tail_index] arg_cong [OF c(4), of uq_head_index] arg_cong [OF c(4), of uq_tail_block] arg_cong [OF c(4), of uq_head_block] by simp_all
  have "uq_inv q' (Some n) bls off toff lap xs" using inv c(1,2) fields by (simp add: uq_inv_def ends_def)
  with that [of "Some n" q'] a True fields show thesis by (simp add: prepare_next_def)
next
  case False
  with that [of spare q] inv show thesis by (auto simp: prepare_next_def)
qed

lemma install_first_inv:
  assumes inv: "uq_inv q spare bls off toff lap xs"
  obtains bls' q' where "install_first (uq_tail_block q) q = (uq_tail_block q', q')" "uq_inv q' spare bls' off toff lap xs" "bls' \<noteq> []"
    "uq_tail_index q' = uq_tail_index q"
proof (cases "bls = []")
  case False
  then have "install_first (uq_tail_block q) q = (uq_tail_block q, q)" using uq_invE(2) [OF inv] by (simp add: ends_def install_first_def)
  with that inv False show thesis by blast
next
  case True
  note i = uq_invE [OF inv]
  let ?n = "uq_fresh q"
  let ?q = "q\<lparr>uq_heap := (uq_heap q)(?n := Some ublock_new), uq_fresh := Suc ?n, uq_tail_block := Some ?n, uq_head_block := Some ?n\<rparr>"
  have ins: "install_first (uq_tail_block q) q = (uq_tail_block ?q, ?q)"
    using i(2) True by (simp add: ends_def install_first_def alloc_block_def Let_def)
  have "chain ?q spare [?n]" using i(1) True by (auto simp: chain_def ublock_new_def)
  moreover have "flat (uq_heap ?q) [?n] = replicate 31 blank" by (simp add: block_slots_def ublock_new_def)
  ultimately have "uq_inv ?q spare [?n] off toff lap xs"
    unfolding uq_inv_def using i(3,4,5,7,8,9,11) True by (auto simp: ends_def)
  from that [OF ins this] show thesis by simp
qed

text \<open>An open queue takes the item, whatever fails on the way.\<close>

lemma upush_stores:
  assumes inv: "uq_inv q None bls off toff lap xs" and open_q: "even (uq_tail_index q)" and bound: "uq_tail_index q + 4 < u64_mod"
  shows "\<exists>q' bls' toff'. upush k v q = Inr (Inr (), q') \<and> uq_inv q' None bls' off toff' lap (xs @ [v]) \<and>
     even (uq_tail_index q') \<and> uq_tail_index q' \<le> uq_tail_index q + 4"
proof -
  note i = uq_invE [OF inv] and o = uq_offsets [OF inv]
  from prepare_next_inv [OF inv, of "toff = 30"] obtain spare q1 where p: "prepare_next (toff = 30) None q = (spare, q1)" "uq_inv q1 spare bls off toff lap xs"
    "spare \<noteq> None \<longleftrightarrow> toff = 30" "uq_tail_index q1 = uq_tail_index q" "uq_tail_block q1 = uq_tail_block q" by auto
  from install_first_inv [OF p(2)] obtain bls' q2 where f: "install_first (uq_tail_block q1) q1 = (uq_tail_block q2, q2)" "uq_inv q2 spare bls' off toff lap xs"
    "bls' \<noteq> []" "uq_tail_index q2 = uq_tail_index q1" by blast
  have blk: "uq_tail_block q2 = Some (last bls')" using uq_invE(2) [OF f(2)] f(3) by (simp add: ends_def)
  have "add_u64 (uq_tail_index q) 2 = Inr (uq_tail_index q + 2)" using bound by (simp add: add_u64_def)
  then have "upush k v q = upush_loop k spare (uq_tail_index q2) (uq_tail_block q2) v q2"
    using open_q i(4) p f blk unfolding upush_def
    by (subst (1 2) upush_loop.simps) (auto simp: o(2) prepare_next_def install_first_def uq_offsets(2) [OF f(2)] split: nat.splits)
  with upush_commit [OF f(2,3) _ p(3), of k v] open_q bound f(4) p(4) show ?thesis by simp
qed

lemma upush_closed:
  assumes "odd (uq_tail_index q)"
  shows "upush k v q = Inr (Inl (PushClosed v), q)"
  using assms by (simp add: upush_def upush_loop.simps [of k] drop_spare_def mod_2_eq_odd)

section \<open>Popping\<close>

text \<open>A block whose slots have all been read is freed.\<close>

lemma destroy_block_frees:
  assumes "linked (uq_heap q) (a # as)" and "\<And>j. i \<le> j \<Longrightarrow> j < 30 \<Longrightarrow> flat (uq_heap q) (a # as) ! j = gone" and "i \<le> 30"
  shows "destroy_block (Some a) i q = Inr (free_block a q)"
  using assms(2,3)
proof (induction "30 - i" arbitrary: i)
  case 0
  from assms(1) show ?case using 0 by (subst destroy_block.simps) (auto simp: deref_block_def)
next
  case (Suc d)
  then have i: "i < 30" by simp
  with get_slot_flat [OF assms(1), of 0 i] Suc.prems(1) [of i] have "get_slot (Some a) i q = Inr gone" by simp
  moreover have "destroy_block (Some a) (i + 1) q = Inr (free_block a q)" by (rule Suc.hyps(1)) (use Suc i in auto)
  ultimately show ?case using i by (subst destroy_block.simps) (simp add: READ_def)
qed

lemma read_slot_takes:
  assumes inv: "chain q spare (a # as)" and off: "off < 30"
    and fl: "flat (uq_heap q) (a # as) = replicate off gone @ map live (x # xs) @ ys"
  obtains h where "read_slot (Some a) off q = Inr (x, q\<lparr>uq_heap := h\<rparr>)" "chain (q\<lparr>uq_heap := h\<rparr>) spare (a # as)"
    "flat h (a # as) = replicate (Suc off) gone @ map live xs @ ys"
proof -
  have li: "linked (uq_heap q) (a # as)" using inv by (simp add: chain_def)
  have get: "get_slot (Some a) off q = Inr (live x)" using get_slot_flat [OF li, of 0 off] off by (simp add: fl nth_append del: flat_simps)
  from put_slot_flat [OF inv, of 0 off gone] off obtain h where h: "put_slot (Some a) off gone q = Inr (q\<lparr>uq_heap := h\<rparr>)"
    "chain (q\<lparr>uq_heap := h\<rparr>) spare (a # as)" "flat h (a # as) = (flat (uq_heap q) (a # as))[off := gone]" by auto
  have "read_slot (Some a) off q = Inr (x, q\<lparr>uq_heap := h\<rparr>)" using get h(1) off by (simp add: read_slot_def WRITE_def READ_def DESTROY_def)
  from that [OF this h(2)] h(3) content_take [of off x xs ys] show thesis by (simp add: fl del: flat_simps)
qed

text \<open>The reader of the last slot frees the block behind it.\<close>

lemma read_slot_last:
  assumes inv: "chain q None (a # as)" and fl: "flat (uq_heap q) (a # as) = replicate 30 gone @ map live (x # xs) @ ys"
  obtains h where "read_slot (Some a) 30 q = Inr (x, q\<lparr>uq_heap := h\<rparr>)" "chain (q\<lparr>uq_heap := h\<rparr>) None as" "flat h as = map live xs @ ys"
proof -
  have li: "linked (uq_heap q) (a # as)" using inv by (simp add: chain_def)
  have get: "get_slot (Some a) 30 q = Inr (live x)" using get_slot_flat [OF li, of 0 30] by (simp add: fl nth_append del: flat_simps)
  let ?s = "\<lparr>us_value = None, us_state = 1\<rparr> :: 'a uslot"
  from put_slot_flat [OF inv, of 0 30 ?s] obtain h where h: "put_slot (Some a) 30 ?s q = Inr (q\<lparr>uq_heap := h\<rparr>)"
    "chain (q\<lparr>uq_heap := h\<rparr>) None (a # as)" "flat h (a # as) = (flat (uq_heap q) (a # as))[30 := ?s]" by auto
  have li': "linked h (a # as)" using h(2) by (simp add: chain_def)
  have flh: "flat h (a # as) = replicate 30 gone @ ?s # map live xs @ ys" using h(3) by (simp add: fl list_update_append del: flat_simps)
  have "destroy_block (Some a) 0 (q\<lparr>uq_heap := h\<rparr>) = Inr (free_block a (q\<lparr>uq_heap := h\<rparr>))"
    by (rule destroy_block_frees [of _ a as]) (use li' in \<open>simp_all add: flh nth_append del: flat_simps linked.simps\<close>)
  then have r: "read_slot (Some a) 30 q = Inr (x, q\<lparr>uq_heap := h(a := None)\<rparr>)"
    using get h(1) by (simp add: read_slot_def WRITE_def free_block_def)
  note f = free_first_chain [OF h(2)]
  have "length (block_slots h a) = 31" using li' by (auto simp: block_slots_def)
  then have "flat h as = map live xs @ ys" using arg_cong [OF flh, of "drop 31"] by simp
  with that [OF r] f show thesis by (simp add: free_block_def)
qed

lemma upop_empty:
  assumes inv: "uq_inv q spare bls off toff lap []" and bound: "uq_tail_index q + 4 < u64_mod"
  shows "upop k q = Inr (Inl (if odd (uq_tail_index q) then PopClosed else PopEmpty), q)"
proof -
  note i = uq_invE [OF inv] and o = uq_offsets [OF inv]
  have "length bls - 1 = 0" using i(3,5) by simp
  then have ev: "even (uq_head_index q)" using i(9) by auto
  have "add_u64 (uq_head_index q) 2 = Inr (uq_head_index q + 2)" using bound o(5) by (simp add: add_u64_def)
  with ev i(3) o(1,3) show ?thesis unfolding upop_def by (subst upop_loop.simps) (simp add: Let_def mod_2_eq_odd)
qed

lemma upop_takes:
  assumes inv: "uq_inv q None bls off toff lap (x # xs)" and bound: "uq_tail_index q + 4 < u64_mod"
  shows "\<exists>q' bls' off' lap'. upop k q = Inr (Inr x, q') \<and> uq_inv q' None bls' off' toff lap' xs \<and> uq_tail_index q' = uq_tail_index q"
proof -
  note i = uq_invE [OF inv] and o = uq_offsets [OF inv]
  let ?h = "uq_head_index q"
  define nh where "nh = (if even ?h \<and> 1 < length bls then Suc (Suc (Suc ?h)) else Suc (Suc ?h))"
  have ne: "bls \<noteq> []" using i(11) by auto
  then obtain a as where bls: "bls = a # as" by (cases bls) auto
  have blk: "uq_head_block q = Some a" using i(2) by (simp add: ends_def bls)
  have add: "add_u64 ?h 2 = Inr (?h + 2)" using bound o(5) by (simp add: add_u64_def)
  have step: "upop_loop 0 ?h (Some a) q = bind_res (if off = 30 then advance_head (Some a) nh (q\<lparr>uq_head_index := nh\<rparr>) else Inr (q\<lparr>uq_head_index := nh\<rparr>)) (\<lambda>q.
      bind_res (read_slot (Some a) off q) (\<lambda>(v, q). Inr (Inr v, q)))"
    using i(3) o(1,3,4) by (subst upop_loop.simps) (auto simp: add nh_def Let_def mod_2_eq_odd)
  have retry: "upop_loop k ?h (Some a) q = upop_loop 0 ?h (Some a) q"
  proof (induction k)
    case (Suc k)
    have "upop_loop (Suc k) ?h (Some a) q = upop_loop k ?h (Some a) q"
      using i(3) o(1,3) by (subst upop_loop.simps) (auto simp: add Let_def mod_2_eq_odd blk)
    with Suc show ?case by simp
  qed simp
  have nh: "nh div 2 = ?h div 2 + 1" "odd nh \<longrightarrow> 1 < length bls" "nh \<le> ?h + 3" using i(9) by (auto simp: nh_def)
  show ?thesis
  proof (cases "off = 30")
    case False
    let ?q = "q\<lparr>uq_head_index := nh\<rparr>"
    have off: "off < 30" using i(3) False by simp
    have "chain ?q None (a # as)" using i(1) bls by simp
    from read_slot_takes [OF this off] i(6) bls obtain h where h: "read_slot (Some a) off ?q = Inr (x, ?q\<lparr>uq_heap := h\<rparr>)" "chain (?q\<lparr>uq_heap := h\<rparr>) None (a # as)"
      "flat h (a # as) = replicate (Suc off) gone @ map live xs @ replicate (31 * length bls - (off + length (x # xs))) blank" by (auto simp del: flat_simps)
    have "uq_inv (?q\<lparr>uq_heap := h\<rparr>) None bls (Suc off) toff lap xs"
      unfolding uq_inv_def using h(2,3) i(2,4,5,7,8) off nh(1,2) by (auto simp: bls ends_def simp del: flat_simps)
    with step retry h(1) False blk show ?thesis unfolding upop_def by auto
  next
    case True
    have "as \<noteq> []" using i(4,5) True bls by auto
    then obtain c cs where as: "as = c # cs" by (cases as) auto
    have big: "1 < length bls" by (simp add: bls as)
    have li: "linked (uq_heap q) bls" by fact
    obtain ba where ba: "uq_heap q a = Some ba" "ub_next ba = Some c" using li by (auto simp: bls as)
    obtain bc where bc: "uq_heap q c = Some bc" "ub_next bc \<noteq> None \<longleftrightarrow> cs \<noteq> []"
      using linked_block_ex [OF li, of 1] by (auto simp: bls as split: if_splits)
    define ni where "ni = (if cs \<noteq> [] then Suc (2 * (nh div 2) + 2) else 2 * (nh div 2) + 2)"
    have "?h div 2 < uq_tail_index q div 2" using o(3,6) by simp
    then have small: "2 * (nh div 2) + 2 < u64_mod" using nh(1) bound by linarith
    let ?q = "q\<lparr>uq_head_index := ni, uq_head_block := Some c\<rparr>"
    have adv: "advance_head (Some a) nh (q\<lparr>uq_head_index := nh\<rparr>) = Inr ?q"
      using ba bc small by (auto simp: advance_head_def deref_block_def Let_def wrapping_add_u64_def ni_def)
    have "chain ?q None (a # as)" using i(1) bls by simp
    from read_slot_last [OF this] i(6) bls True obtain h where h: "read_slot (Some a) 30 ?q = Inr (x, ?q\<lparr>uq_heap := h\<rparr>)" "chain (?q\<lparr>uq_heap := h\<rparr>) None as"
      "flat h as = map live xs @ replicate (31 * length bls - (30 + length (x # xs))) blank" by (auto simp del: flat_simps)
    have "ni div 2 = 32 * (lap + 1) + 0" "odd ni \<longrightarrow> 1 < length as" using nh(1) i(7) True by (auto simp: ni_def as)
    then have "uq_inv (?q\<lparr>uq_heap := h\<rparr>) None as 0 toff (lap + 1) xs"
      unfolding uq_inv_def using h(2,3) i(2,4,5,8) True by (auto simp: bls as ends_def simp del: flat_simps)
    with step retry h(1) adv True blk show ?thesis unfolding upop_def by auto
  qed
qed

end
