(* ===== verification/Queue_Batch.thy ===== *)
theory Queue_Batch
  imports Queue_Ops
begin

text \<open>Pushing a batch segment by segment, closing, counting and dropping the unbounded queue.\<close>

section \<open>Batches\<close>

lemma fill_slots_flat:
  "chain q spare bls \<Longrightarrow> j < length bls \<Longrightarrow> i + length vs \<le> 31 \<Longrightarrow> off + length xs = 31 * j + i \<Longrightarrow>
   flat (uq_heap q) bls = replicate off gone @ map live xs @ replicate (31 * length bls - (off + length xs)) blank \<Longrightarrow>
   \<exists>h. fill_slots (Some (bls ! j)) i vs q = Inr (q\<lparr>uq_heap := h\<rparr>) \<and> chain (q\<lparr>uq_heap := h\<rparr>) spare bls \<and>
     flat h bls = replicate off gone @ map live (xs @ vs) @ replicate (31 * length bls - (off + length (xs @ vs))) blank"
proof (induction vs arbitrary: q i xs)
  case Nil
  then show ?case by (intro exI [of _ "uq_heap q"]) simp
next
  case (Cons v vs)
  have i: "i < 31" using Cons.prems(3) by simp
  have "31 * (j + 1) \<le> 31 * length bls" using Cons.prems(2) by (intro mult_le_mono) auto
  then have at: "off + length xs < 31 * length bls" using Cons.prems(4) i by simp
  have bl: "flat (uq_heap q) bls ! (31 * j + i) = blank" using content_blank [OF at] Cons.prems(4,5) by simp
  from fill_slot_flat [OF Cons.prems(1,2) i bl, of v] obtain h where h: "fill_slot (Some (bls ! j)) i v q = Inr (q\<lparr>uq_heap := h\<rparr>)"
    "chain (q\<lparr>uq_heap := h\<rparr>) spare bls" "flat h bls = (flat (uq_heap q) bls)[31 * j + i := live v]" by blast
  have "flat (uq_heap (q\<lparr>uq_heap := h\<rparr>)) bls = replicate off gone @ map live (xs @ [v]) @ replicate (31 * length bls - (off + length (xs @ [v]))) blank"
    using h(3) content_fill [OF at, of v] Cons.prems(4,5) by simp
  from Cons.IH [OF h(2) Cons.prems(2) _ _ this, of "i + 1"] Cons.prems(3,4) h(1) show ?case by auto
qed

lemma drop_spare_inv:
  assumes "uq_inv q spare bls off toff lap xs"
  shows "uq_inv (drop_spare spare q) None bls off toff lap xs" and "uq_tail_index (drop_spare spare q) = uq_tail_index q"
proof -
  show "uq_tail_index (drop_spare spare q) = uq_tail_index q" by (cases spare) (simp_all add: drop_spare_def free_block_def)
  show "uq_inv (drop_spare spare q) None bls off toff lap xs"
  proof (cases spare)
    case (Some n)
    let ?h = "(uq_heap q)(n := None)"
    note i = uq_invE [OF assms]
    have same: "?h a = uq_heap q a" if "a \<in> set bls" for a using i(1) that Some by (auto simp: chain_def)
    have "flat ?h bls = flat (uq_heap q) bls" by (rule flat_cong [OF same])
    moreover have "chain (q\<lparr>uq_heap := ?h\<rparr>) None bls" using i(1) linked_cong [of bls ?h "uq_heap q", OF same] Some by (auto simp: chain_def)
    ultimately show ?thesis using assms Some by (simp add: drop_spare_def free_block_def uq_inv_def ends_def)
  qed (use assms in \<open>simp add: drop_spare_def\<close>)
qed

text \<open>One reserved segment, written and, when it fills the block, followed by the next block.\<close>

lemma segment_inv:
  assumes inv: "uq_inv q spare bls off toff lap xs" and ne: "bls \<noteq> []" and n: "0 < length vs" "toff + length vs \<le> 31"
    and sp: "toff + length vs = 31 \<Longrightarrow> spare \<noteq> None" and bound: "uq_tail_index q + 2 * length vs + 4 < u64_mod"
    and nt: "nt = uq_tail_index q + 2 * length vs"
  shows "\<exists>q1. fill_slots (uq_tail_block q) toff vs (q\<lparr>uq_tail_index := nt\<rparr>) = Inr q1 \<and>
     (toff + length vs < 31 \<longrightarrow> uq_inv q1 spare bls off (toff + length vs) lap (xs @ vs) \<and> uq_tail_index q1 = nt \<and> uq_tail_block q1 = uq_tail_block q) \<and>
     (toff + length vs = 31 \<longrightarrow> (\<exists>q2 bls'. install_next (uq_tail_block q) spare q1 = Inr q2 \<and> uq_inv q2 None bls' off 0 lap (xs @ vs) \<and>
        bls' \<noteq> [] \<and> uq_tail_index q2 = nt + 2 \<and> uq_tail_block q2 = spare))"
proof -
  note i = uq_invE [OF inv]
  obtain j where j: "length bls = Suc j" using ne by (cases bls) auto
  have blk: "uq_tail_block q = Some (bls ! j)" "bls ! j = last bls" using i(2) ne j by (auto simp: ends_def last_conv_nth)
  let ?q = "q\<lparr>uq_tail_index := nt\<rparr>"
  have ch: "chain ?q spare bls" "j < length bls" "off + length xs = 31 * j + toff"
    "flat (uq_heap ?q) bls = replicate off gone @ map live xs @ replicate (31 * length bls - (off + length xs)) blank" using i(1,5,6) j by simp_all
  from fill_slots_flat [OF ch(1,2) n(2) ch(3,4)] obtain h where h: "fill_slots (Some (bls ! j)) toff vs ?q = Inr (?q\<lparr>uq_heap := h\<rparr>)" "chain (?q\<lparr>uq_heap := h\<rparr>) spare bls"
    "flat h bls = replicate off gone @ map live (xs @ vs) @ replicate (31 * length bls - (off + length (xs @ vs))) blank" by blast
  let ?q1 = "?q\<lparr>uq_heap := h\<rparr>"
  have en: "ends ?q1 bls" using i(2) by (simp add: ends_def)
  have tl: "nt div 2 = uq_tail_index q div 2 + length vs" using nt by simp
  have small: "uq_inv ?q1 spare bls off (toff + length vs) lap (xs @ vs)" if "toff + length vs < 31"
    unfolding uq_inv_def using h(2,3) en i(3,5,7,8,9) that tl by auto
  have big: "\<exists>q2 bls'. install_next (uq_tail_block q) spare ?q1 = Inr q2 \<and> uq_inv q2 None bls' off 0 lap (xs @ vs) \<and> bls' \<noteq> [] \<and> uq_tail_index q2 = nt + 2 \<and> uq_tail_block q2 = spare"
    if full: "toff + length vs = 31"
  proof -
    obtain m where m: "spare = Some m" using sp full by auto
    from install_next_chain [OF h(2) [unfolded m] en ne] obtain h2 where h2:
      "install_next (Some (last bls)) (Some m) ?q1 = Inr (?q1\<lparr>uq_tail_block := Some m, uq_tail_index := wrapping_add_u64 nt 2, uq_heap := h2\<rparr>)"
      "chain (?q1\<lparr>uq_tail_block := Some m, uq_tail_index := wrapping_add_u64 nt 2, uq_heap := h2\<rparr>) None (bls @ [m])"
      "ends (?q1\<lparr>uq_tail_block := Some m, uq_tail_index := wrapping_add_u64 nt 2, uq_heap := h2\<rparr>) (bls @ [m])"
      "flat h2 (bls @ [m]) = flat h bls @ replicate 31 blank" by auto
    have wrap: "wrapping_add_u64 nt 2 = nt + 2" using bound nt by (simp add: wrapping_add_u64_def)
    have len: "off + length (xs @ vs) = 31 * length bls" using ch(3) j full by simp
    have fl: "flat h2 (bls @ [m]) = replicate off gone @ map live (xs @ vs) @ replicate (31 * length (bls @ [m]) - (off + length (xs @ vs))) blank"
      using h2(4) h(3) len by (simp del: flat_simps)
    have "(nt + 2) div 2 = 32 * (lap + (length (bls @ [m]) - 1)) + 0" using tl i(8) j full by simp
    then have "uq_inv (?q1\<lparr>uq_tail_block := Some m, uq_tail_index := nt + 2, uq_heap := h2\<rparr>) None (bls @ [m]) off 0 lap (xs @ vs)"
      unfolding uq_inv_def using h2(2,3) fl i(3,7,9) len wrap by (auto simp del: flat_simps)
    with h2(1) wrap m blk show ?thesis by auto
  qed
  from h(1) small big blk show ?thesis by auto
qed

lemma refill_facts:
  assumes "refill offset len written stage iter = (stage', iter')" and "length stage \<le> len - written" and "offset < 31"
  shows "stage' @ iter' = stage @ iter" and "length stage' \<le> len - written" and "stage' = [] \<Longrightarrow> stage = [] \<and> (len - written = 0 \<or> iter = [])"
  using assms by (auto simp: refill_def Let_def split: if_splits)

lemma upush_n_runs:
  assumes "uq_inv q spare bls off toff lap xs" and "even (uq_tail_index q)" and "uq_tail_index q + 4 * (length stage + length iter) + 4 < u64_mod"
    and "length stage \<le> len - written" and "w = min (len - written) (length (stage @ iter))"
  shows "\<exists>q' bls' toff'. upush_n_loop casfails len iter stage written spare (uq_tail_index q) (uq_tail_block q) q = Inr (written + w, drop w (stage @ iter), q') \<and>
     uq_inv q' None bls' off toff' lap (xs @ take w (stage @ iter)) \<and> even (uq_tail_index q') \<and> uq_tail_index q' \<le> uq_tail_index q + 4 * w"
  using assms
proof (induction "length casfails + (length stage + length iter)" arbitrary: casfails q spare bls toff xs stage iter written w rule: less_induct)
  case less
  note inv = less.prems(1) and i = uq_invE [OF less.prems(1)] and o = uq_offsets [OF less.prems(1)]
  obtain stage' iter' where r: "refill toff len written stage iter = (stage', iter')" by (cases "refill toff len written stage iter")
  note rf = refill_facts [OF r less.prems(4) i(4)]
  have all: "stage @ iter = stage' @ iter'" using rf(1) by simp
  have lens: "length stage + length iter = length stage' + length iter'" using arg_cong [OF all, of length] by simp
  show ?case
  proof (cases "stage' = []")
    case True
    then have "w = 0" "iter' = stage @ iter" using rf(1,3) less.prems(5) by auto
    with True drop_spare_inv [OF inv] less.prems(2) r i(4) show ?thesis by (subst upush_n_loop.simps) (auto simp: o(2))
  next
    case False
    define n where "n = min (length stage') (31 - toff)"
    have n: "0 < n" "n \<le> length stage'" "toff + n \<le> 31" using False i(4) by (auto simp: n_def)
    from prepare_next_inv [OF inv, of "toff + n = 31"] obtain sp1 q1 where p: "prepare_next (toff + n = 31) spare q = (sp1, q1)" "uq_inv q1 sp1 bls off toff lap xs"
      "sp1 \<noteq> None \<longleftrightarrow> toff + n = 31 \<or> spare \<noteq> None" "uq_tail_index q1 = uq_tail_index q" "uq_tail_block q1 = uq_tail_block q" by blast
    from install_first_inv [OF p(2)] obtain bls2 q2 where f: "install_first (uq_tail_block q1) q1 = (uq_tail_block q2, q2)" "uq_inv q2 sp1 bls2 off toff lap xs"
      "bls2 \<noteq> []" "uq_tail_index q2 = uq_tail_index q1" by blast
    let ?t = "uq_tail_index q" and ?vs = "take n stage'"
    have bound: "?t + 2 * n + 4 < u64_mod" using less.prems(3) n lens by simp
    have add: "add_u64 ?t (2 * n) = Inr (?t + 2 * n)" using bound by (simp add: add_u64_def)
    have lv: "length ?vs = n" using n by simp
    have w: "n \<le> w" "w = n + min (len - (written + n)) (length (drop n stage' @ iter'))" using n rf(2) less.prems(5) lens by auto
    define d where "d = min (len - (written + n)) (length (drop n stage' @ iter'))"
    have wd: "w = n + d" using w(2) by (simp add: d_def)
    have split: "take w (stage @ iter) = ?vs @ take d (drop n stage' @ iter')" "drop w (stage @ iter) = drop d (drop n stage' @ iter')"
      using take_add [of n d "stage' @ iter'"] drop_drop [of d n "stage' @ iter'"] n(2) by (simp_all add: all wd add.commute)
    let ?cf = "casfails \<noteq> [] \<and> hd casfails"
    have sp: "sp1 \<noteq> None" if "toff + length ?vs = 31" using that p(3) lv by simp
    have seg: "0 < length ?vs" "toff + length ?vs \<le> 31" "uq_tail_index q2 + 2 * length ?vs + 4 < u64_mod" "?t + 2 * n = uq_tail_index q2 + 2 * length ?vs"
      using n lv bound f(4) p(4) by simp_all
    from segment_inv [OF f(2,3) seg(1,2) sp seg(3,4), unfolded lv] obtain q3 where
      s: "fill_slots (uq_tail_block q2) toff ?vs (q2\<lparr>uq_tail_index := ?t + 2 * n\<rparr>) = Inr q3"
      "toff + n < 31 \<longrightarrow> uq_inv q3 sp1 bls2 off (toff + n) lap (xs @ ?vs) \<and> uq_tail_index q3 = ?t + 2 * n \<and> uq_tail_block q3 = uq_tail_block q2"
      "toff + n = 31 \<longrightarrow> (\<exists>q4 bls'. install_next (uq_tail_block q2) sp1 q3 = Inr q4 \<and> uq_inv q4 None bls' off 0 lap (xs @ ?vs) \<and>
        bls' \<noteq> [] \<and> uq_tail_index q4 = ?t + 2 * n + 2 \<and> uq_tail_block q4 = sp1)" by blast
    define step where "step q' spare' t' b' = (if drop n stage' = [] \<and> written + n = len then Inr (written + n, iter', drop_spare spare' q')
       else upush_n_loop (tl casfails) len iter' (drop n stage') (written + n) spare' t' b' q')" for q' spare' t' b'
    have unfold: "upush_n_loop casfails len iter stage written spare ?t (uq_tail_block q) q =
      (if ?cf then upush_n_loop (tl casfails) len iter' stage' written sp1 (uq_tail_index q2) (uq_tail_block q2) q2
       else if toff + n = 31 then bind_res (install_next (uq_tail_block q2) sp1 q3) (\<lambda>q4. bind_res (add_u64 (?t + 2 * n) 2) (\<lambda>t'. step q4 None t' sp1))
       else step q3 sp1 (?t + 2 * n) (uq_tail_block q2))"
      using less.prems(2) i(4) False r p f add s(1) unfolding step_def
      by (subst upush_n_loop.simps) (auto simp: o(2) n_def [symmetric] Let_def drop_spare_def split: list.splits bool.splits)
    have rest: "\<exists>qf bls' toff'. step q' spare' (uq_tail_index q') (uq_tail_block q') = Inr (written + w, drop w (stage @ iter), qf) \<and>
        uq_inv qf None bls' off toff' lap (xs @ take w (stage @ iter)) \<and> even (uq_tail_index qf) \<and> uq_tail_index qf \<le> ?t + 4 * w"
      if iq: "uq_inv q' spare' bls' off toff' lap (xs @ ?vs)" and t: "even (uq_tail_index q')" "uq_tail_index q' \<le> ?t + 4 * n" for q' spare' bls' toff'
    proof (cases "drop n stage' = [] \<and> written + n = len")
      case True
      then have "d = 0" by (simp add: d_def)
      with True split wd drop_spare_inv [OF iq] t show ?thesis by (auto simp: step_def)
    next
      case go: False
      have "\<exists>qf bls' toff'. upush_n_loop (tl casfails) len iter' (drop n stage') (written + n) spare' (uq_tail_index q') (uq_tail_block q') q' =
          Inr (written + n + d, drop d (drop n stage' @ iter'), qf) \<and> uq_inv qf None bls' off toff' lap ((xs @ ?vs) @ take d (drop n stage' @ iter')) \<and>
          even (uq_tail_index qf) \<and> uq_tail_index qf \<le> uq_tail_index q' + 4 * d"
        by (rule less.hyps [OF _ iq]) (use n lens t less.prems(3) rf(2) in \<open>auto simp: d_def\<close>)
      with go split wd t(2) show ?thesis by (fastforce simp: step_def)
    qed
    show ?thesis
    proof (cases ?cf)
      case True
      have "\<exists>q' bls' toff'. upush_n_loop (tl casfails) len iter' stage' written sp1 (uq_tail_index q2) (uq_tail_block q2) q2 = Inr (written + w, drop w (stage' @ iter'), q') \<and>
         uq_inv q' None bls' off toff' lap (xs @ take w (stage' @ iter')) \<and> even (uq_tail_index q') \<and> uq_tail_index q' \<le> uq_tail_index q2 + 4 * w"
        by (rule less.hyps [OF _ f(2)]) (use True lens f(4) p(4) less.prems rf(2) in \<open>auto simp: neq_Nil_conv\<close>)
      with unfold True all f(4) p(4) show ?thesis by simp
    next
      case no: False
      show ?thesis
      proof (cases "toff + n = 31")
        case full: True
        with s(3) obtain q4 bls' where q4: "install_next (uq_tail_block q2) sp1 q3 = Inr q4" "uq_inv q4 None bls' off 0 lap (xs @ ?vs)"
          "uq_tail_index q4 = ?t + 2 * n + 2" "uq_tail_block q4 = sp1" by blast
        have "add_u64 (?t + 2 * n) 2 = Inr (uq_tail_index q4)" using bound q4(3) by (simp add: add_u64_def)
        with unfold no full q4(1,4) rest [OF q4(2)] q4(3) n less.prems(2) show ?thesis by simp
      next
        case False
        then have lt: "toff + n < 31" using n by simp
        with s(2) have q3: "uq_inv q3 sp1 bls2 off (toff + n) lap (xs @ ?vs)" "uq_tail_index q3 = ?t + 2 * n" "uq_tail_block q3 = uq_tail_block q2" by auto
        with unfold no False rest [OF q3(1)] less.prems(2) show ?thesis by simp
      qed
    qed
  qed
qed

end
