(* ===== verification/Queue_Claims.thy ===== *)
theory Queue_Claims
  imports Queue_Batch
begin

text \<open>The unbounded queue as its clients see it: a list of items and a flag.\<close>

section \<open>What the queue holds\<close>

text \<open>
  The indices are 64-bit and only grow; \<open>budget\<close> is how many more items may be pushed before the tail
  could overflow. It starts at \<open>2 ^ 62 - 2\<close>.
\<close>

definition uq_holds :: "'a unbounded \<Rightarrow> bool \<Rightarrow> nat \<Rightarrow> 'a list \<Rightarrow> bool" where
  "uq_holds q closed budget xs \<longleftrightarrow> (\<exists>bls off toff lap. uq_inv q None bls off toff lap xs) \<and>
     (closed \<longleftrightarrow> odd (uq_tail_index q)) \<and> uq_tail_index q + 4 * budget + 4 < u64_mod"

lemma unbounded_new_holds: "uq_holds unbounded_new False (2 ^ 62 - 2) []"
proof -
  have "uq_inv (unbounded_new :: 'a unbounded) None [] 0 0 0 []" by (simp add: uq_inv_def unbounded_new_def chain_def ends_def)
  then show ?thesis unfolding uq_holds_def by (force simp: unbounded_new_def u64_mod_def)
qed

lemma uq_push_law:
  assumes "uq_holds q closed (Suc n) xs"
  shows "\<exists>q'. upush k v q = Inr (if closed then Inl (PushClosed v) else Inr (), q') \<and> uq_holds q' closed n (if closed then xs else xs @ [v])"
proof -
  from assms obtain bls off toff lap where inv: "uq_inv q None bls off toff lap xs" and c: "closed \<longleftrightarrow> odd (uq_tail_index q)"
    and b: "uq_tail_index q + 4 * Suc n + 4 < u64_mod" by (auto simp: uq_holds_def)
  show ?thesis
  proof (cases closed)
    case True
    with upush_closed [of q k v] c inv b show ?thesis unfolding uq_holds_def by auto
  next
    case False
    with c have "even (uq_tail_index q)" by simp
    from upush_stores [OF inv this, of k v] b False show ?thesis unfolding uq_holds_def by fastforce
  qed
qed

lemma uq_pop_law:
  assumes "uq_holds q closed n xs"
  shows "\<exists>q'. upop k q = Inr (case xs of [] \<Rightarrow> Inl (if closed then PopClosed else PopEmpty) | x # _ \<Rightarrow> Inr x, q') \<and> uq_holds q' closed n (tl xs)"
proof -
  from assms obtain bls off toff lap where inv: "uq_inv q None bls off toff lap xs" and c: "closed \<longleftrightarrow> odd (uq_tail_index q)"
    and b: "uq_tail_index q + 4 * n + 4 < u64_mod" by (auto simp: uq_holds_def)
  then have b4: "uq_tail_index q + 4 < u64_mod" by simp
  show ?thesis
  proof (cases xs)
    case Nil
    with upop_empty [OF inv [unfolded Nil] b4, of k] assms c show ?thesis by auto
  next
    case (Cons x ys)
    from upop_takes [OF inv [unfolded Cons] b4, of k] c b Cons show ?thesis unfolding uq_holds_def by fastforce
  qed
qed

lemma upush_each_runs:
  assumes "uq_holds q False budget xs" and "length iter \<le> budget" and "w = min len (length iter)"
  shows "\<exists>q'. upush_each len iter written q = Inr (written + w, drop w iter, q') \<and> uq_holds q' False (budget - w) (xs @ take w iter)"
  using assms
proof (induction len iter written q arbitrary: xs budget w rule: upush_each.induct)
  case (3 k v iter written q)
  then obtain b where b: "budget = Suc b" by (cases budget) auto
  from uq_push_law [OF 3(2) [unfolded b], of 0 v] obtain q' where q': "upush 0 v q = Inr (Inr (), q')" "uq_holds q' False b (xs @ [v])" by auto
  from 3(1) [OF q'(1) refl refl q'(2), of "min k (length iter)"] 3(3,4) b q'(1) show ?case by auto
qed auto

lemma uq_push_n_law:
  assumes h: "uq_holds q closed budget xs" and b: "length iter \<le> budget" and w: "w = (if closed then 0 else min len (length iter))"
  shows "\<exists>q'. upush_n sz casfails len iter q = Inr (w, drop w iter, q') \<and> uq_holds q' closed (budget - w) (xs @ take w iter)"
proof -
  from h obtain bls off toff lap where inv: "uq_inv q None bls off toff lap xs" and c: "closed \<longleftrightarrow> odd (uq_tail_index q)"
    and bd: "uq_tail_index q + 4 * budget + 4 < u64_mod" by (auto simp: uq_holds_def)
  consider (none) "len = 0" | (shut) "0 < len" closed | (each) "0 < len" "\<not> closed" "MAX_STAGED_ITEM_SIZE < sz" | (batch) "0 < len" "\<not> closed" "\<not> MAX_STAGED_ITEM_SIZE < sz" by blast
  then show ?thesis
  proof cases
    case none
    with h w show ?thesis by (cases closed) (simp_all add: upush_n_def)
  next
    case shut
    have "upush_each len iter 0 q = Inr (0, iter, q)" using shut c upush_closed [of q 0] by (cases len; cases iter) auto
    moreover have "upush_n_loop casfails len iter [] 0 None (uq_tail_index q) (uq_tail_block q) q = Inr (0, iter, q)"
      using shut c by (subst upush_n_loop.simps) (simp add: mod_2_eq_odd drop_spare_def)
    ultimately show ?thesis using h w shut by (simp add: upush_n_def)
  next
    case each
    with upush_each_runs [of q budget xs iter w len 0] h b w show ?thesis by (simp add: upush_n_def)
  next
    case batch
    from upush_n_runs [OF inv, of "[]" iter len 0 w casfails] batch c b bd w obtain q' bls' toff' where
      q': "upush_n_loop casfails len iter [] 0 None (uq_tail_index q) (uq_tail_block q) q = Inr (w, drop w iter, q')"
      "uq_inv q' None bls' off toff' lap (xs @ take w iter)" "even (uq_tail_index q')" "uq_tail_index q' \<le> uq_tail_index q + 4 * w" by auto
    moreover have "w \<le> budget" using w b batch by simp
    ultimately have "uq_holds q' closed (budget - w) (xs @ take w iter)" using c bd batch unfolding uq_holds_def by (auto simp: diff_mult_distrib2)
    with q'(1) batch show ?thesis by (simp add: upush_n_def)
  qed
qed

lemma uq_empty_law: "uq_holds q closed n xs \<Longrightarrow> uis_empty q \<longleftrightarrow> xs = []"
  by (auto simp: uq_holds_def uis_empty_def dest: uq_offsets(3))

lemma uq_close_law:
  assumes "uq_holds q closed (Suc n) xs"
  shows "\<exists>q'. uclose q = (\<not> closed, q') \<and> uq_holds q' True n xs \<and> uis_closed q'" and "uis_closed q \<longleftrightarrow> closed"
proof -
  from assms obtain bls off toff lap where inv: "uq_inv q None bls off toff lap xs" and c: "closed \<longleftrightarrow> odd (uq_tail_index q)"
    and b: "uq_tail_index q + 4 * Suc n + 4 < u64_mod" by (auto simp: uq_holds_def)
  show "uis_closed q \<longleftrightarrow> closed" using c by (simp add: uis_closed_def mod_2_eq_odd)
  let ?t = "uq_tail_index q OR MARK_BIT"
  have t: "odd ?t" "?t div 2 = uq_tail_index q div 2" "?t \<le> Suc (uq_tail_index q)" by auto
  have "uq_inv (q\<lparr>uq_tail_index := ?t\<rparr>) None bls off toff lap xs" using inv t(2) by (simp add: uq_inv_def ends_def del: queue_bits(6))
  then have "uq_holds (q\<lparr>uq_tail_index := ?t\<rparr>) True n xs" unfolding uq_holds_def using t(1,3) b by (auto simp del: queue_bits(6))
  moreover have "uis_closed (q\<lparr>uq_tail_index := ?t\<rparr>)" using t(1) by (simp add: uis_closed_def mod_2_eq_odd del: queue_bits(6))
  ultimately show "\<exists>q'. uclose q = (\<not> closed, q') \<and> uq_holds q' True n xs \<and> uis_closed q'"
    using c by (auto simp: uclose_def mod_2_eq_odd simp del: queue_bits(6))
qed

lemma uq_len_law:
  assumes "uq_holds q closed n xs"
  shows "ulen q = Inr (length xs)"
proof -
  from assms obtain bls off toff lap where inv: "uq_inv q None bls off toff lap xs" and b: "uq_tail_index q + 4 * n + 4 < u64_mod" by (auto simp: uq_holds_def)
  note i = uq_invE [OF inv] and o = uq_offsets [OF inv]
  let ?h = "uq_head_index q" and ?t = "uq_tail_index q" and ?k = "length bls - 1"
  have and31: "m AND 31 = m mod 32" for m :: nat
    using take_bit_eq_mask [of 5 m] take_bit_eq_mod [of 5 m] by (simp add: mask_eq_exp_minus_1)
  have sub: "wrapping_sub_u64 (2 * a) (2 * c) = 2 * (a - c)" if "c \<le> a" "2 * a < u64_mod" for a c
  proof -
    have "2 * a + (u64_mod - 2 * c mod u64_mod) = 2 * (a - c) + u64_mod" using that by simp
    then show ?thesis using that by (simp add: wrapping_sub_u64_def)
  qed
  have small: "2 * (?t div 2) < u64_mod" "2 * (?h div 2) < u64_mod" "32 * lap \<le> ?t div 2" "32 * lap \<le> ?h div 2" using b o(6) i(7,8) by linarith+
  have ends: "2 * (?t div 2) div 2 = ?t div 2" "2 * (?h div 2) div 2 = ?h div 2" by simp_all
  have lap: "?h div 2 div 32 = lap" unfolding i(7) by (rule lap_split(2)) (use i(3) in simp)
  have dt: "?t div 2 - 32 * lap = 32 * ?k + toff" "?h div 2 - 32 * lap = off" unfolding i(7,8) by (simp_all add: algebra_simps)
  have k: "(32 * ?k + toff) div 32 = ?k" by (rule lap_split(2)) (use i(4) in simp)
  have "\<not> 32 * ?k + toff < off + ?k" "32 * ?k + toff - off - ?k = length xs" using i(5) by linarith+
  then show ?thesis
    unfolding ulen_def Let_def queue_bits ends using o(1,2) i(3,4) sub [OF small(3,1)] sub [OF small(4,2)]
    by (simp add: and31 ends lap dt k mult.commute [of _ 32] mult.assoc)
qed

section \<open>Dropping\<close>

lemma udrop_loop_runs:
  assumes "chain q None bls" and "flat (uq_heap q) bls = pre @ map live xs @ replicate free blank" and "length pre = off" and "bls \<noteq> []"
    and "off \<le> 31" "toff < 31" "off + length xs = 31 * (length bls - 1) + toff"
    and "head = 2 * (32 * lap + off)" "tail = 2 * (32 * (lap + (length bls - 1)) + toff)" and "tail < u64_mod" and "length xs + length bls \<le> fuel + 1"
  shows "\<exists>q'. udrop_loop fuel head tail (Some (hd bls)) q = Inr (xs, q') \<and> uq_heap q' = (\<lambda>_. None)"
  using assms
proof (induction fuel arbitrary: q bls pre xs off head lap)
  case 0
  then have one: "length bls = 1" "xs = []" by (cases bls; simp)+
  with 0 have "head = tail" by simp
  moreover from one obtain a where a: "bls = [a]" by (cases bls) auto
  then have "uq_heap (free_block a q) = (\<lambda>_. None)" using free_first_chain [of q a "[]"] 0(1) by (auto simp: chain_def)
  ultimately show ?case using one a by (subst udrop_loop.simps) simp
next
  case (Suc fuel)
  obtain a as where bls: "bls = a # as" using Suc.prems(4) by (cases bls) auto
  have li: "linked (uq_heap q) (a # as)" using Suc.prems(1) by (simp add: chain_def bls)
  consider (stop) "xs = []" "off < 31" | (turn) "off = 31" | (item) x ys where "xs = x # ys" "off < 31" using Suc.prems(5) by (cases xs) (force simp: le_less)+
  then show ?case
  proof cases
    case stop
    then have as: "as = []" "off = toff" using Suc.prems(6,7) by (cases as; simp add: bls)+
    then have "head = tail" using Suc.prems by (simp add: bls)
    moreover have "uq_heap (free_block a q) = (\<lambda>_. None)" using free_first_chain [of q a as] Suc.prems(1) as by (auto simp: chain_def bls)
    ultimately show ?thesis using stop by (subst udrop_loop.simps) (simp add: bls)
  next
    case turn
    then obtain c cs where as: "as = c # cs" using Suc.prems(6,7) by (cases as) (auto simp: bls)
    obtain b where b: "uq_heap q a = Some b" "ub_next b = Some c" "length (ub_slots b) = 31" using li by (auto simp: as)
    note f = free_first_chain [OF Suc.prems(1) [unfolded bls]]
    have "flat (uq_heap q) as = map live xs @ replicate free blank"
      using Suc.prems(2,3) turn b by (simp add: bls block_slots_def append_eq_append_conv)
    then have "\<exists>q'. udrop_loop fuel (head + 2) tail (Some (hd as)) (free_block a q) = Inr (xs, q') \<and> uq_heap q' = (\<lambda>_. None)"
      by (intro Suc.IH [OF f(1), of "[]" xs 0 _ "lap + 1"]) (use Suc.prems f(2) turn in \<open>simp_all add: bls as\<close>)
    moreover have "head \<noteq> tail" "head + 2 < u64_mod" using Suc.prems turn by (simp_all add: bls as)
    moreover have "head div 2 mod 32 = 31" using Suc.prems(8) turn lap_split(1) [of 31 lap] by simp
    ultimately show ?thesis using b by (subst udrop_loop.simps) (simp add: bls as Let_def deref_block_def wrapping_add_u64_def)
  next
    case item
    let ?s = "\<lparr>us_value = None, us_state = 1\<rparr> :: 'a uslot"
    have get: "get_slot (Some a) off q = Inr (live x)" using get_slot_flat [OF li, of 0 off] item Suc.prems(2,3) by (simp add: bls nth_append del: flat_simps)
    from put_slot_flat [OF Suc.prems(1) [unfolded bls], of 0 off ?s] item(2) obtain h where h: "put_slot (Some a) off ?s q = Inr (q\<lparr>uq_heap := h\<rparr>)"
      "chain (q\<lparr>uq_heap := h\<rparr>) None (a # as)" "flat h (a # as) = (flat (uq_heap q) (a # as))[off := ?s]" by auto
    have "flat h (a # as) = (pre @ [?s]) @ map live ys @ replicate free blank" using h(3) Suc.prems(2,3) item(1) by (simp add: bls list_update_append del: flat_simps)
    then have "\<exists>q'. udrop_loop fuel (head + 2) tail (Some (hd (a # as))) (q\<lparr>uq_heap := h\<rparr>) = Inr (ys, q') \<and> uq_heap q' = (\<lambda>_. None)"
      by (intro Suc.IH [OF h(2), of "pre @ [?s]" ys "off + 1" _ lap]) (use Suc.prems item in \<open>simp_all add: bls del: flat_simps\<close>)
    moreover have "head \<noteq> tail" "head + 2 < u64_mod" using Suc.prems item by (cases "length bls - 1"; auto)+
    moreover have "head div 2 mod 32 = off" using Suc.prems(8) item lap_split(1) [of off lap] by simp
    ultimately show ?thesis using get h(1) item by (subst udrop_loop.simps) (auto simp: bls Let_def wrapping_add_u64_def)
  qed
qed

lemma uq_drop_law:
  assumes "uq_holds q closed n xs"
  shows "\<exists>q'. udrop q = Inr (xs, q') \<and> uq_heap q' = (\<lambda>_. None)"
proof -
  from assms obtain bls off toff lap where inv: "uq_inv q None bls off toff lap xs" and b: "uq_tail_index q + 4 * n + 4 < u64_mod" by (auto simp: uq_holds_def)
  note i = uq_invE [OF inv] and o = uq_offsets [OF inv]
  let ?h = "2 * (uq_head_index q div 2)" and ?t = "2 * (uq_tail_index q div 2)"
  have sub: "wrapping_sub_u64 ?t ?h = ?t - ?h"
  proof -
    have "?t + (u64_mod - ?h mod u64_mod) = (?t - ?h) + u64_mod" "?t - ?h < u64_mod" using b o(6) by simp_all
    then show ?thesis by (simp add: wrapping_sub_u64_def)
  qed
  show ?thesis
  proof (cases "bls = []")
    case True
    then have "?h = ?t" "uq_head_block q = None" "uq_heap q = (\<lambda>_. None)" "xs = []" using i(1,2,7,8,11) by (auto simp: ends_def chain_def)
    then show ?thesis by (simp add: udrop_def Let_def udrop_loop.simps [of "wrapping_sub_u64 _ _"])
  next
    case False
    have "length xs + length bls \<le> (?t - ?h) + 1" unfolding i(7,8) using i(3,4,5) False by (cases "length bls") (auto simp: algebra_simps)
    then have "\<exists>q'. udrop_loop (?t - ?h) ?h ?t (Some (hd bls)) q = Inr (xs, q') \<and> uq_heap q' = (\<lambda>_. None)"
      by (intro udrop_loop_runs [OF i(1,6) length_replicate False]) (use i b in simp_all)
    moreover have "uq_head_block q = Some (hd bls)" using i(2) False by (cases bls) (simp_all add: ends_def)
    ultimately show ?thesis by (simp add: udrop_def sub Let_def)
  qed
qed

end
