(* ===== verification/Queue_Spec.thy ===== *)
theory Queue_Spec
  imports Queue_Claims
begin

text \<open>
  The contract of \<^verbatim>\<open>ConcurrentQueue\<close> as an interface: a list of items, a flag that says whether the queue is
  closed, and for the bounded kinds a capacity. The unbounded queue, which the injector uses, keeps it.
\<close>

section \<open>The interface\<close>

record ('q, 'a) fifo_ops =
  fq_push :: "nat \<Rightarrow> 'a \<Rightarrow> 'q \<Rightarrow> (('a push_error + unit) \<times> 'q) res"
  fq_push_n :: "bool list \<Rightarrow> nat \<Rightarrow> 'a list \<Rightarrow> 'q \<Rightarrow> (nat \<times> 'a list \<times> 'q) res"
  fq_pop :: "nat \<Rightarrow> 'q \<Rightarrow> ((pop_error + 'a) \<times> 'q) res"
  fq_len :: "'q \<Rightarrow> nat res"
  fq_is_empty :: "'q \<Rightarrow> bool"
  fq_is_full :: "'q \<Rightarrow> bool"
  fq_close :: "'q \<Rightarrow> bool \<times> 'q"
  fq_is_closed :: "'q \<Rightarrow> bool"

definition has_room :: "nat option \<Rightarrow> 'a list \<Rightarrow> bool" where
  "has_room cap xs \<longleftrightarrow> (case cap of None \<Rightarrow> True | Some c \<Rightarrow> length xs < c)"

definition spec_push :: "nat option \<Rightarrow> bool \<Rightarrow> 'a \<Rightarrow> 'a list \<Rightarrow> ('a push_error + unit) \<times> 'a list" where
  "spec_push cap closed v xs =
     (if closed then (Inl (PushClosed v), xs) else if has_room cap xs then (Inr (), xs @ [v]) else (Inl (PushFull v), xs))"

definition batch_size :: "nat option \<Rightarrow> bool \<Rightarrow> nat \<Rightarrow> 'a list \<Rightarrow> 'a list \<Rightarrow> nat" where
  "batch_size cap closed len iter xs =
     (if closed then 0 else case cap of None \<Rightarrow> min len (length iter) | Some c \<Rightarrow> min (min len (length iter)) (c - length xs))"

definition spec_pop_front :: "bool \<Rightarrow> 'a list \<Rightarrow> (pop_error + 'a) \<times> 'a list" where
  "spec_pop_front closed xs = (case xs of [] \<Rightarrow> (Inl (if closed then PopClosed else PopEmpty), []) | x # ys \<Rightarrow> (Inr x, ys))"

text \<open>\<open>holds q closed budget xs\<close>; \<open>budget\<close> bounds what may still be pushed.\<close>

locale fifo_queue =
  fixes ops :: "('q, 'a) fifo_ops" and cap :: "nat option" and holds :: "'q \<Rightarrow> bool \<Rightarrow> nat \<Rightarrow> 'a list \<Rightarrow> bool"
  assumes budget_law: "holds q closed budget xs \<Longrightarrow> n \<le> budget \<Longrightarrow> holds q closed n xs"
    and cap_law: "holds q closed budget xs \<Longrightarrow> cap = Some c \<Longrightarrow> length xs \<le> c"
    and push_law: "holds q closed (Suc n) xs \<Longrightarrow> spec_push cap closed v xs = (r, ys) \<Longrightarrow> \<exists>q'. fq_push ops k v q = Inr (r, q') \<and> holds q' closed n ys"
    and push_n_law: "holds q closed budget xs \<Longrightarrow> length iter \<le> budget \<Longrightarrow> w = batch_size cap closed len iter xs \<Longrightarrow>
       \<exists>q'. fq_push_n ops casfails len iter q = Inr (w, drop w iter, q') \<and> holds q' closed (budget - length iter) (xs @ take w iter)"
    and pop_law: "holds q closed n xs \<Longrightarrow> spec_pop_front closed xs = (pr, ys) \<Longrightarrow> \<exists>q'. fq_pop ops k q = Inr (pr, q') \<and> holds q' closed n ys"
    and len_law: "holds q closed n xs \<Longrightarrow> fq_len ops q = Inr (length xs)"
    and empty_law: "holds q closed n xs \<Longrightarrow> fq_is_empty ops q \<longleftrightarrow> xs = []"
    and full_law: "holds q closed n xs \<Longrightarrow> fq_is_full ops q \<longleftrightarrow> \<not> has_room cap xs"
    and close_law: "holds q closed (Suc n) xs \<Longrightarrow> \<exists>q'. fq_close ops q = (\<not> closed, q') \<and> holds q' True n xs"
    and closed_law: "holds q closed n xs \<Longrightarrow> fq_is_closed ops q \<longleftrightarrow> closed"

section \<open>Sequences of operations\<close>

datatype 'a fifo_cmd =
    FPush nat 'a
  | FPushN "bool list" nat "'a list"
  | FPop nat
  | FLen
  | FIsEmpty
  | FIsFull
  | FClose
  | FIsClosed

datatype 'a fifo_obs =
    FPushed "'a push_error + unit"
  | FPushedN nat "'a list"
  | FPopped "pop_error + 'a"
  | FCount nat
  | FFlag bool

fun fifo_step :: "('q, 'a) fifo_ops \<Rightarrow> 'a fifo_cmd \<Rightarrow> 'q \<Rightarrow> ('a fifo_obs \<times> 'q) res" where
  "fifo_step ops (FPush k v) q = bind_res (fq_push ops k v q) (\<lambda>(r, q'). Inr (FPushed r, q'))"
| "fifo_step ops (FPushN fs len iter) q = bind_res (fq_push_n ops fs len iter q) (\<lambda>(w, rest, q'). Inr (FPushedN w rest, q'))"
| "fifo_step ops (FPop k) q = bind_res (fq_pop ops k q) (\<lambda>(r, q'). Inr (FPopped r, q'))"
| "fifo_step ops FLen q = bind_res (fq_len ops q) (\<lambda>n. Inr (FCount n, q))"
| "fifo_step ops FIsEmpty q = Inr (FFlag (fq_is_empty ops q), q)"
| "fifo_step ops FIsFull q = Inr (FFlag (fq_is_full ops q), q)"
| "fifo_step ops FClose q = (let (b, q') = fq_close ops q in Inr (FFlag b, q'))"
| "fifo_step ops FIsClosed q = Inr (FFlag (fq_is_closed ops q), q)"

fun fifo_run :: "('q, 'a) fifo_ops \<Rightarrow> 'a fifo_cmd list \<Rightarrow> 'q \<Rightarrow> ('a fifo_obs list \<times> 'q) res" where
  "fifo_run ops [] q = Inr ([], q)"
| "fifo_run ops (c # cs) q = bind_res (fifo_step ops c q) (\<lambda>(ob, q'). bind_res (fifo_run ops cs q') (\<lambda>(obs, q''). Inr (ob # obs, q'')))"

fun spec_fifo :: "nat option \<Rightarrow> 'a fifo_cmd \<Rightarrow> bool \<times> 'a list \<Rightarrow> 'a fifo_obs \<times> bool \<times> 'a list" where
  "spec_fifo cap (FPush k v) (cl, xs) = (let (r, ys) = spec_push cap cl v xs in (FPushed r, cl, ys))"
| "spec_fifo cap (FPushN fs len iter) (cl, xs) = (let w = batch_size cap cl len iter xs in (FPushedN w (drop w iter), cl, xs @ take w iter))"
| "spec_fifo cap (FPop k) (cl, xs) = (let (r, ys) = spec_pop_front cl xs in (FPopped r, cl, ys))"
| "spec_fifo cap FLen (cl, xs) = (FCount (length xs), cl, xs)"
| "spec_fifo cap FIsEmpty (cl, xs) = (FFlag (xs = []), cl, xs)"
| "spec_fifo cap FIsFull (cl, xs) = (FFlag (\<not> has_room cap xs), cl, xs)"
| "spec_fifo cap FClose (cl, xs) = (FFlag (\<not> cl), True, xs)"
| "spec_fifo cap FIsClosed (cl, xs) = (FFlag cl, cl, xs)"

fun spec_fifo_run :: "nat option \<Rightarrow> 'a fifo_cmd list \<Rightarrow> bool \<times> 'a list \<Rightarrow> 'a fifo_obs list \<times> bool \<times> 'a list" where
  "spec_fifo_run cap [] s = ([], s)"
| "spec_fifo_run cap (c # cs) s = (let (ob, s') = spec_fifo cap c s; (obs, s'') = spec_fifo_run cap cs s' in (ob # obs, s''))"

fun cmd_cost :: "'a fifo_cmd \<Rightarrow> nat" where
  "cmd_cost (FPush _ _) = 1"
| "cmd_cost (FPushN _ _ iter) = length iter"
| "cmd_cost FClose = 1"
| "cmd_cost _ = 0"

context fifo_queue
begin

lemma fifo_step_refines:
  assumes q: "holds q cl budget xs" and cost: "cmd_cost c \<le> budget" and spec: "spec_fifo cap c (cl, xs) = (ob, cl', ys)"
  shows "\<exists>q'. fifo_step ops c q = Inr (ob, q') \<and> holds q' cl' (budget - cmd_cost c) ys"
proof (cases c)
  case (FPush k v)
  obtain n where n: "budget = Suc n" using cost FPush by (cases budget) auto
  obtain r zs where r: "spec_push cap cl v xs = (r, zs)" by (cases "spec_push cap cl v xs")
  from push_law [OF q [unfolded n] r, of k] spec r FPush n show ?thesis by auto
next
  case (FPushN fs len iter)
  with push_n_law [OF q _ refl, where iter = iter and len = len and casfails = fs] cost spec show ?thesis by (auto simp: Let_def)
next
  case (FPop k)
  obtain r zs where r: "spec_pop_front cl xs = (r, zs)" by (cases "spec_pop_front cl xs")
  from pop_law [OF q r, of k] spec r FPop show ?thesis by auto
next
  case FClose
  obtain n where n: "budget = Suc n" using cost FClose by (cases budget) auto
  from close_law [OF q [unfolded n]] spec FClose n show ?thesis by auto
qed (use q spec len_law [OF q] empty_law [OF q] full_law [OF q] closed_law [OF q] in auto)

lemma fifo_run_refines:
  "holds q cl budget xs \<Longrightarrow> sum_list (map cmd_cost cs) \<le> budget \<Longrightarrow> spec_fifo_run cap cs (cl, xs) = (obs, cl', ys) \<Longrightarrow>
   \<exists>q'. fifo_run ops cs q = Inr (obs, q') \<and> holds q' cl' (budget - sum_list (map cmd_cost cs)) ys"
proof (induction cs arbitrary: q cl budget xs obs)
  case (Cons c cs)
  obtain ob cl1 xs1 where s: "spec_fifo cap c (cl, xs) = (ob, cl1, xs1)" by (cases "spec_fifo cap c (cl, xs)")
  from Cons.prems s obtain obs1 where r: "spec_fifo_run cap cs (cl1, xs1) = (obs1, cl', ys)" "obs = ob # obs1" by (auto split: prod.splits)
  have cost: "cmd_cost c \<le> budget" using Cons.prems(2) by simp
  from fifo_step_refines [OF Cons.prems(1) cost s] obtain q1 where q1: "fifo_step ops c q = Inr (ob, q1)" "holds q1 cl1 (budget - cmd_cost c) xs1" by blast
  have "sum_list (map cmd_cost cs) \<le> budget - cmd_cost c" using Cons.prems(2) by simp
  from Cons.IH [OF q1(2) this r(1)] q1(1) r(2) show ?case by auto
qed simp

text \<open>A pop behind an emptiness test, as the injector does it.\<close>

lemma gated_pop:
  assumes "holds q cl n xs"
  shows "\<exists>q'. (if fq_is_empty ops q then Inr (None, q) else bind_res (fq_pop ops k q) (\<lambda>(r, q'). Inr (case r of Inl _ \<Rightarrow> None | Inr v \<Rightarrow> Some v, q'))) =
       Inr (case xs of [] \<Rightarrow> None | x # _ \<Rightarrow> Some x, q') \<and> holds q' cl n (tl xs)"
proof (cases xs)
  case Nil
  with assms empty_law [OF assms] show ?thesis by simp
next
  case (Cons x ys)
  then have "spec_pop_front cl xs = (Inr x, ys)" by (simp add: spec_pop_front_def)
  from pop_law [OF assms this, of k] empty_law [OF assms] Cons show ?thesis by auto
qed

end

section \<open>The unbounded queue\<close>

definition unbounded_ops :: "nat \<Rightarrow> ('a unbounded, 'a) fifo_ops" where
  "unbounded_ops sz = \<lparr>fq_push = upush, fq_push_n = upush_n sz, fq_pop = upop, fq_len = ulen, fq_is_empty = uis_empty,
     fq_is_full = (\<lambda>_. False), fq_close = uclose, fq_is_closed = uis_closed\<rparr>"

lemma uq_holds_less: "uq_holds q closed budget xs \<Longrightarrow> n \<le> budget \<Longrightarrow> uq_holds q closed n xs"
  unfolding uq_holds_def by auto

interpretation unbounded: fifo_queue "unbounded_ops sz" None uq_holds for sz
proof
  fix q :: "'a unbounded" and closed budget xs n v r ys k iter w len casfails
  assume h: "uq_holds q closed budget xs"
  show "uq_holds q closed n xs" if "n \<le> budget" by (rule uq_holds_less [OF h that])
  show "\<exists>q'. fq_push_n (unbounded_ops sz) casfails len iter q = Inr (w, drop w iter, q') \<and> uq_holds q' closed (budget - length iter) (xs @ take w iter)"
    if b: "length iter \<le> budget" and w: "w = batch_size None closed len iter xs"
  proof -
    have w': "w = (if closed then 0 else min len (length iter))" using w by (simp add: batch_size_def)
    from uq_push_n_law [OF h b w', of sz casfails] obtain q' where "upush_n sz casfails len iter q = Inr (w, drop w iter, q')" "uq_holds q' closed (budget - w) (xs @ take w iter)" by blast
    moreover have "budget - length iter \<le> budget - w" using w' by auto
    ultimately show ?thesis using uq_holds_less by (fastforce simp: unbounded_ops_def)
  qed
  show "\<exists>q'. fq_pop (unbounded_ops sz) k q = Inr (r, q') \<and> uq_holds q' closed budget ys" if "spec_pop_front closed xs = (r, ys)"
    using uq_pop_law [OF h, of k] that by (cases xs) (auto simp: unbounded_ops_def spec_pop_front_def)
next
  fix q :: "'a unbounded" and closed n xs v r ys k
  assume h: "uq_holds q closed (Suc n) xs"
  show "\<exists>q'. fq_push (unbounded_ops sz) k v q = Inr (r, q') \<and> uq_holds q' closed n ys" if "spec_push None closed v xs = (r, ys)"
    using uq_push_law [OF h, of k v] that by (auto simp: unbounded_ops_def spec_push_def has_room_def split: if_splits)
  show "\<exists>q'. fq_close (unbounded_ops sz) q = (\<not> closed, q') \<and> uq_holds q' True n xs"
    using uq_close_law(1) [OF h] by (auto simp: unbounded_ops_def)
next
  fix q :: "'a unbounded" and closed n xs
  assume h: "uq_holds q closed n xs"
  show "fq_len (unbounded_ops sz) q = Inr (length xs)" "fq_is_empty (unbounded_ops sz) q \<longleftrightarrow> xs = []"
    using uq_len_law [OF h] uq_empty_law [OF h] by (simp_all add: unbounded_ops_def)
  show "fq_is_full (unbounded_ops sz) q \<longleftrightarrow> \<not> has_room None xs" by (simp add: unbounded_ops_def has_room_def)
  show "fq_is_closed (unbounded_ops sz) q \<longleftrightarrow> closed" using h by (auto simp: unbounded_ops_def uis_closed_def uq_holds_def mod_2_eq_odd)
qed simp

text \<open>
  C32. The unbounded queue behind the injector is a list: any sequence of pushes, batch pushes, pops,
  counts, tests and closings on a fresh queue returns exactly what the list gives, first in first out and
  across block boundaries, whatever weak swaps fail and whatever length a batch announces; no null,
  freed or uninitialised memory is touched and no wait for another thread is reached. Dropping the queue
  then drops exactly the items still in it, in order, and frees every block. This is for up to
  \<open>2 ^ 62 - 2\<close> pushes, where the 64-bit indices cannot overflow.
\<close>

theorem unbounded_queue_refines_list:
  assumes "sum_list (map cmd_cost cs) \<le> 2 ^ 62 - 2" and "spec_fifo_run None cs (False, []) = (obs, closed, rest)"
  shows "\<exists>q q'. fifo_run (unbounded_ops sz) cs unbounded_new = Inr (obs, q) \<and> udrop q = Inr (rest, q') \<and> uq_heap q' = (\<lambda>_. None)"
proof -
  from unbounded.fifo_run_refines [OF unbounded_new_holds assms, of sz] obtain q where
    q: "fifo_run (unbounded_ops sz) cs unbounded_new = Inr (obs, q)" "uq_holds q closed (2 ^ 62 - 2 - sum_list (map cmd_cost cs)) rest" by blast
  with uq_drop_law [OF q(2)] show ?thesis by blast
qed

theorem unbounded_queue_refines_list_witness:
  "\<exists>q q'. fifo_run (unbounded_ops 8) [FPushN [True] 40 (replicate 40 (7 :: nat)), FPop 1, FClose, FPush 0 9, FLen] unbounded_new =
      Inr ([FPushedN 40 [], FPopped (Inr 7), FFlag True, FPushed (Inl (PushClosed 9)), FCount 39], q) \<and>
    udrop q = Inr (replicate 39 7, q') \<and> uq_heap q' = (\<lambda>_. None)"
proof -
  have r: "replicate 40 (7 :: nat) = 7 # replicate 39 7" by (simp add: numeral_eq_Suc)
  show ?thesis
    by (rule unbounded_queue_refines_list [where closed = True])
      (simp_all add: batch_size_def r spec_pop_front_def spec_push_def Let_def)
qed

end
