(* ===== verification/Registry.thy ===== *)
theory Registry
  imports Sleep Latch St3_Claims Queue_Spec
begin

text \<open>
  The registry of the pool, \<^verbatim>\<open>pool/registry.rs\<close>: the local deque of each worker, the injector, the search
  for work, the drain of a stopping worker, the parking leases and the termination count. It is built on
  the models of the two queues. What it tells the sleep module is recorded in order; jobs are abstract.
  How often weak swaps fail for no reason is one argument for all queue operations of a call.
\<close>

section \<open>State\<close>

definition LOCAL_DEQUE_CAPACITY :: nat where "LOCAL_DEQUE_CAPACITY = 256"

datatype sleep_note = NewInternalJobs nat bool | NewInjectedJobs nat bool | WorkerLatchIsSet nat

record 'j registry =
  rg_deques :: "'j lifo_queue list"
  rg_spawned :: nat
  rg_injected :: "'j unbounded"
  rg_terminate_count :: nat
  rg_parking_slots :: nat
  rg_terminate :: "latch_state list"
  rg_notes :: "sleep_note list"

fun new_deques :: "nat \<Rightarrow> 'j lifo_queue list res" where
  "new_deques 0 = Inr []"
| "new_deques (Suc n) = bind_res (lifo_new LOCAL_DEQUE_CAPACITY) (\<lambda>q. bind_res (new_deques n) (\<lambda>qs. Inr (q # qs)))"

definition num_threads :: "'j registry \<Rightarrow> nat" where
  "num_threads rg = length (rg_deques rg)"

abbreviation noted :: "sleep_note \<Rightarrow> 'j registry \<Rightarrow> 'j registry" where
  "noted e rg \<equiv> rg\<lparr>rg_notes := rg_notes rg @ [e]\<rparr>"

text \<open>The terminate latch of one worker: set, and the worker woken if it sleeps on it.\<close>

definition set_and_tickle_one :: "nat \<Rightarrow> 'j registry \<Rightarrow> 'j registry res" where
  "set_and_tickle_one i rg =
     bind_res (index_res (rg_terminate rg) i) (\<lambda>l.
     let (was_sleeping, l') = core_set l; rg' = rg\<lparr>rg_terminate := (rg_terminate rg)[i := l']\<rparr> in
     Inr (if was_sleeping then noted (WorkerLatchIsSet i) rg' else rg'))"

fun tickle_all :: "nat list \<Rightarrow> 'j registry \<Rightarrow> 'j registry res" where
  "tickle_all [] rg = Inr rg"
| "tickle_all (i # is) rg = bind_res (set_and_tickle_one i rg) (tickle_all is)"

text \<open>When the last reference goes, the terminate latch of every spawned worker is set.\<close>

definition registry_terminate :: "'j registry \<Rightarrow> 'j registry res" where
  "registry_terminate rg =
     (let rg' = rg\<lparr>rg_terminate_count := wrapping_sub_u64 (rg_terminate_count rg) 1\<rparr> in
      if rg_terminate_count rg = 1
      then if num_threads rg' < rg_spawned rg' then Inl IndexOutOfBounds else tickle_all [0..<rg_spawned rg'] rg'
      else Inr rg')"

definition increment_terminate_count :: "'j registry \<Rightarrow> 'j registry res" where
  "increment_terminate_count rg =
     (if rg_terminate_count rg = 0 \<or> rg_terminate_count rg = u64_mod - 1 then Inl ExplicitPanic
      else Inr (rg\<lparr>rg_terminate_count := rg_terminate_count rg + 1\<rparr>))"

text \<open>
  Construction. \<open>spawns i\<close> says whether the operating system starts worker \<open>i\<close>, and \<open>dozes i\<close> is the state
  the worker has brought its terminate latch to by the time construction ends. The first worker that does
  not start ends construction with a panic (its index), the workers started so far told to stop.
\<close>

fun spawn_workers :: "(nat \<Rightarrow> bool) \<Rightarrow> (nat \<Rightarrow> latch_state) \<Rightarrow> nat list \<Rightarrow> 'j registry \<Rightarrow> (nat option \<times> 'j registry) res" where
  "spawn_workers spawns dozes [] rg = Inr (None, rg)"
| "spawn_workers spawns dozes (i # is) rg =
     (if spawns i then spawn_workers spawns dozes is (rg\<lparr>rg_spawned := i + 1, rg_terminate := (rg_terminate rg)[i := dozes i]\<rparr>)
      else bind_res (registry_terminate rg) (\<lambda>rg'. Inr (Some i, rg')))"

definition registry_new :: "(nat \<Rightarrow> bool) \<Rightarrow> (nat \<Rightarrow> latch_state) \<Rightarrow> nat \<Rightarrow> (nat option \<times> 'j registry) res" where
  "registry_new spawns dozes n =
     (let n = min (max n 1) THREADS_MAX in
      bind_res (new_deques n) (\<lambda>qs.
      bind_res (sleep_new n) (\<lambda>_.
      spawn_workers spawns dozes [0..<n]
        \<lparr>rg_deques = qs, rg_spawned = 0, rg_injected = unbounded_new, rg_terminate_count = 1, rg_parking_slots = 0,
         rg_terminate = replicate n core_latch_new, rg_notes = []\<rparr>)))"

text \<open>Dropping the registry terminates it if nobody has, and waits for the workers listed.\<close>

definition registry_drop :: "'j registry \<Rightarrow> (nat list \<times> 'j registry) res" where
  "registry_drop rg =
     bind_res (if 0 < rg_terminate_count rg then registry_terminate rg else Inr rg) (\<lambda>rg'.
     if num_threads rg' < rg_spawned rg' then Inl IndexOutOfBounds else Inr ([0..<rg_spawned rg'], rg'))"

section \<open>Injecting and pushing\<close>

definition registry_inject :: "nat \<Rightarrow> 'j \<Rightarrow> 'j registry \<Rightarrow> 'j registry res" where
  "registry_inject k job rg =
     (let queue_was_empty = uis_empty (rg_injected rg) in
      bind_res (upush k job (rg_injected rg)) (\<lambda>(_, q).
      Inr (noted (NewInjectedJobs 1 queue_was_empty) (rg\<lparr>rg_injected := q\<rparr>))))"

definition inject_batch :: "nat \<Rightarrow> bool list \<Rightarrow> 'j list \<Rightarrow> 'j registry \<Rightarrow> 'j registry res" where
  "inject_batch sz casfails jobs rg =
     (let queue_was_empty = uis_empty (rg_injected rg) in
      bind_res (upush_n sz casfails (length jobs) jobs (rg_injected rg)) (\<lambda>(cnt, _, q).
      let rg' = rg\<lparr>rg_injected := q\<rparr> in
      Inr (if 0 < cnt then noted (NewInjectedJobs (cnt mod 2 ^ 32) queue_was_empty) rg' else rg')))"

definition has_injected_job :: "'j registry \<Rightarrow> bool" where
  "has_injected_job rg \<longleftrightarrow> \<not> uis_empty (rg_injected rg)"

definition pop_injected_job :: "nat \<Rightarrow> 'j registry \<Rightarrow> ('j option \<times> 'j registry) res" where
  "pop_injected_job k rg =
     (if uis_empty (rg_injected rg) then Inr (None, rg)
      else bind_res (upop k (rg_injected rg)) (\<lambda>(r, q). Inr (case r of Inl _ \<Rightarrow> None | Inr job \<Rightarrow> Some job, rg\<lparr>rg_injected := q\<rparr>)))"

definition worker_push :: "nat \<Rightarrow> nat \<Rightarrow> 'j \<Rightarrow> 'j registry \<Rightarrow> 'j registry res" where
  "worker_push k i job rg =
     bind_res (index_res (rg_deques rg) i) (\<lambda>d.
     let queue_was_empty = lifo_is_empty d in
     bind_res (lifo_push d job) (\<lambda>(r, d').
     case r of
       Inr _ \<Rightarrow> Inr (noted (NewInternalJobs 1 queue_was_empty) (rg\<lparr>rg_deques := (rg_deques rg)[i := d']\<rparr>))
     | Inl overflow \<Rightarrow> registry_inject k overflow (rg\<lparr>rg_deques := (rg_deques rg)[i := d']\<rparr>)))"

fun push_jobs :: "nat \<Rightarrow> nat \<Rightarrow> 'j list \<Rightarrow> nat \<Rightarrow> 'j registry \<Rightarrow> (nat \<times> 'j registry) res" where
  "push_jobs k i [] pushed rg = Inr (pushed, rg)"
| "push_jobs k i (job # jobs) pushed rg =
     bind_res (index_res (rg_deques rg) i) (\<lambda>d.
     bind_res (lifo_push d job) (\<lambda>(r, d').
     let rg' = rg\<lparr>rg_deques := (rg_deques rg)[i := d']\<rparr> in
     case r of
       Inr _ \<Rightarrow> push_jobs k i jobs (pushed + 1) rg'
     | Inl overflow \<Rightarrow> bind_res (registry_inject k overflow rg') (push_jobs k i jobs pushed)))"

definition push_batch :: "nat \<Rightarrow> nat \<Rightarrow> 'j list \<Rightarrow> 'j registry \<Rightarrow> 'j registry res" where
  "push_batch k i jobs rg =
     bind_res (index_res (rg_deques rg) i) (\<lambda>d.
     let queue_was_empty = lifo_is_empty d in
     bind_res (push_jobs k i jobs 0 rg) (\<lambda>(pushed, rg').
     Inr (if 0 < pushed then noted (NewInternalJobs (pushed mod 2 ^ 32) queue_was_empty) rg' else rg')))"

text \<open>The caller is a worker of this registry, by its index, or not.\<close>

definition inject_or_push :: "nat \<Rightarrow> nat option \<Rightarrow> 'j \<Rightarrow> 'j registry \<Rightarrow> 'j registry res" where
  "inject_or_push k current job rg = (case current of Some i \<Rightarrow> worker_push k i job rg | None \<Rightarrow> registry_inject k job rg)"

definition push_local_batch :: "nat \<Rightarrow> nat \<Rightarrow> bool list \<Rightarrow> nat option \<Rightarrow> 'j list \<Rightarrow> 'j registry \<Rightarrow> 'j registry res" where
  "push_local_batch k sz casfails current jobs rg =
     (case current of Some i \<Rightarrow> push_batch k i jobs rg | None \<Rightarrow> inject_batch sz casfails jobs rg)"

section \<open>Looking for work\<close>

definition try_pop_local :: "nat \<Rightarrow> nat \<Rightarrow> 'j registry \<Rightarrow> ('j option \<times> 'j registry) res" where
  "try_pop_local k i rg =
     bind_res (index_res (rg_deques rg) i) (\<lambda>d.
     bind_res (lifo_pop k d) (\<lambda>(r, d'). Inr (r, rg\<lparr>rg_deques := (rg_deques rg)[i := d']\<rparr>)))"

text \<open>The random start of a scan. The debug assertion of the source that the state is not zero
  is left out of the function: it holds of the seed and \<open>xorshift_nonzero\<close> shows that every step keeps it. The
  bound is at least two.\<close>

definition xorshift :: "64 word \<Rightarrow> 64 word" where
  "xorshift x = (let x = x XOR drop_bit 12 x; x = x XOR push_bit 25 x in x XOR drop_bit 27 x)"

definition rng_next_usize :: "64 word \<Rightarrow> nat \<Rightarrow> nat \<times> 64 word" where
  "rng_next_usize x n = (let x' = xorshift x in (unat ((x' * 0x2545f4914f6cdd1d) mod of_nat n), x'))"

text \<open>One scan of the victims: the flag says that some victim was busy.\<close>

fun scan_victims :: "nat \<Rightarrow> nat \<Rightarrow> nat list \<Rightarrow> bool \<Rightarrow> 'j lifo_queue list \<Rightarrow> (bool \<times> 'j option \<times> 'j lifo_queue list) res" where
  "scan_victims k me [] retry ds = Inr (retry, None, ds)"
| "scan_victims k me (v # vs) retry ds =
     bind_res (index_res ds v) (\<lambda>victim.
     bind_res (index_res ds me) (\<lambda>mine.
     bind_res (lifo_steal_and_pop (\<lambda>_ _. 1) k victim mine) (\<lambda>(r, victim', mine').
     let ds' = ds[v := victim', me := mine'] in
     case r of
       Inr (job, _) \<Rightarrow> Inr (retry, Some job, ds')
     | Inl StealEmpty \<Rightarrow> scan_victims k me vs retry ds'
     | Inl StealBusy \<Rightarrow> scan_victims k me vs True ds')))"

definition victim_order :: "nat \<Rightarrow> nat \<Rightarrow> nat \<Rightarrow> nat list" where
  "victim_order start n me = filter (\<lambda>i. i \<noteq> me) ([start..<n] @ [0..<start])"

text \<open>
  The scan is repeated while it finds nothing but busy victims. The list holds what the other threads do
  to the deques before each further scan; \<open>None\<close> is a worker still spinning at its end.
\<close>

fun steal_loop :: "nat \<Rightarrow> nat \<Rightarrow> ('j lifo_queue list \<Rightarrow> 'j lifo_queue list) list \<Rightarrow> 64 word \<Rightarrow> 'j lifo_queue list \<Rightarrow>
    ('j option option \<times> 64 word \<times> 'j lifo_queue list) res" where
  "steal_loop k me others rng ds =
     (let (start, rng') = rng_next_usize rng (length ds) in
      bind_res (scan_victims k me (victim_order start (length ds) me) False ds) (\<lambda>(retry, job, ds').
      if job \<noteq> None \<or> \<not> retry then Inr (Some job, rng', ds')
      else case others of
        [] \<Rightarrow> Inr (None, rng', ds')
      | f # fs \<Rightarrow> steal_loop k me fs rng' (f ds')))"

definition worker_steal :: "nat \<Rightarrow> nat \<Rightarrow> ('j lifo_queue list \<Rightarrow> 'j lifo_queue list) list \<Rightarrow> 64 word \<Rightarrow> 'j registry \<Rightarrow>
    ('j option option \<times> 64 word \<times> 'j registry) res" where
  "worker_steal k me others rng rg =
     (if num_threads rg \<le> 1 then Inr (Some None, rng, rg)
      else bind_res (steal_loop k me others rng (rg_deques rg)) (\<lambda>(r, rng', ds). Inr (r, rng', rg\<lparr>rg_deques := ds\<rparr>)))"

definition find_work :: "nat \<Rightarrow> nat \<Rightarrow> ('j lifo_queue list \<Rightarrow> 'j lifo_queue list) list \<Rightarrow> 64 word \<Rightarrow> 'j registry \<Rightarrow>
    ('j option option \<times> 64 word \<times> 'j registry) res" where
  "find_work k me others rng rg =
     bind_res (try_pop_local k me rg) (\<lambda>(r, rg1).
     case r of
       Some job \<Rightarrow> Inr (Some (Some job), rng, rg1)
     | None \<Rightarrow>
         bind_res (pop_injected_job k rg1) (\<lambda>(r, rg2).
         case r of
           Some job \<Rightarrow> Inr (Some (Some job), rng, rg2)
         | None \<Rightarrow> worker_steal k me others rng rg2))"

section \<open>Stopping\<close>

text \<open>
  A stopping worker runs what is left in its deque and in the injector until a whole pass finds nothing.
  A job is known by the jobs it submits while it runs; \<open>trace\<close> lists the jobs run, in order. The first
  argument bounds the loops.
\<close>

fun submit_all :: "nat \<Rightarrow> nat \<Rightarrow> 'j list \<Rightarrow> 'j registry \<Rightarrow> 'j registry res" where
  "submit_all k i [] rg = Inr rg"
| "submit_all k i (job # jobs) rg = bind_res (inject_or_push k (Some i) job rg) (submit_all k i jobs)"

fun drain_local :: "nat \<Rightarrow> nat \<Rightarrow> ('j \<Rightarrow> 'j list) \<Rightarrow> nat \<Rightarrow> 'j list \<Rightarrow> 'j registry \<Rightarrow> ('j list \<times> 'j registry) option res" where
  "drain_local fuel k submits i trace rg =
     bind_res (try_pop_local k i rg) (\<lambda>(r, rg').
     case r of
       None \<Rightarrow> Inr (Some (trace, rg'))
     | Some job \<Rightarrow>
         (case fuel of
            0 \<Rightarrow> Inr None
          | Suc f \<Rightarrow> bind_res (submit_all k i (submits job) rg') (drain_local f k submits i (trace @ [job]))))"

fun drain_injected :: "nat \<Rightarrow> nat \<Rightarrow> ('j \<Rightarrow> 'j list) \<Rightarrow> nat \<Rightarrow> 'j list \<Rightarrow> 'j registry \<Rightarrow> ('j list \<times> 'j registry) option res" where
  "drain_injected fuel k submits i trace rg =
     bind_res (pop_injected_job k rg) (\<lambda>(r, rg').
     case r of
       None \<Rightarrow> Inr (Some (trace, rg'))
     | Some job \<Rightarrow>
         (case fuel of
            0 \<Rightarrow> Inr None
          | Suc f \<Rightarrow> bind_res (submit_all k i (submits job) rg') (drain_injected f k submits i (trace @ [job]))))"

fun drain_on_stop :: "nat \<Rightarrow> nat \<Rightarrow> ('j \<Rightarrow> 'j list) \<Rightarrow> nat \<Rightarrow> 'j list \<Rightarrow> 'j registry \<Rightarrow> ('j list \<times> 'j registry) option res" where
  "drain_on_stop fuel k submits i trace rg =
     bind_res (drain_local fuel k submits i trace rg) (\<lambda>r1.
     case r1 of
       None \<Rightarrow> Inr None
     | Some (ran1, rg1) \<Rightarrow>
         bind_res (drain_injected fuel k submits i ran1 rg1) (\<lambda>r2.
         case r2 of
           None \<Rightarrow> Inr None
         | Some (ran2, rg2) \<Rightarrow>
             if length ran2 = length trace then Inr (Some (ran2, rg2))
             else case fuel of 0 \<Rightarrow> Inr None | Suc f \<Rightarrow> drain_on_stop f k submits i ran2 rg2))"

section \<open>Parking leases\<close>

text \<open>The counter as successive attempts find it, the last being the one whose swap succeeds or that gives up.\<close>

fun try_reserve_parking :: "nat list \<Rightarrow> nat \<Rightarrow> 'j registry \<Rightarrow> (bool \<times> 'j registry) res" where
  "try_reserve_parking seen n rg =
     bind_res (add_u64 (rg_parking_slots rg) n) (\<lambda>wanted.
     if num_threads rg < wanted then Inr (False, rg)
     else case seen of
       [] \<Rightarrow> Inr (True, rg\<lparr>rg_parking_slots := wanted\<rparr>)
     | s # ss \<Rightarrow> try_reserve_parking ss n (rg\<lparr>rg_parking_slots := s\<rparr>))"

definition release_parking :: "nat \<Rightarrow> 'j registry \<Rightarrow> 'j registry" where
  "release_parking n rg = (if 0 < n then rg\<lparr>rg_parking_slots := wrapping_sub_u64 (rg_parking_slots rg) n\<rparr> else rg)"

declare steal_loop.simps [simp del] drain_local.simps [simp del] drain_injected.simps [simp del] drain_on_stop.simps [simp del] try_reserve_parking.simps [simp del]

end
