(* ===== verification/Registry_Props.thy ===== *)
theory Registry_Props
  imports Registry
begin

text \<open>
  The registry keeps every job: what is pushed is in a deque or in the injector, what the search returns
  was there, and a stopping worker leaves nothing behind.
\<close>

section \<open>The jobs of a registry\<close>

definition deques_hold :: "'j lifo_queue list \<Rightarrow> nat list \<Rightarrow> 'j list list \<Rightarrow> bool" where
  "deques_hold ds bks xss \<longleftrightarrow> length bks = length ds \<and> length xss = length ds \<and> (\<forall>i < length ds. lifo_holds (ds ! i) 256 (bks ! i) (xss ! i))"

text \<open>No thief is at work; \<open>budget\<close> bounds the further injections.\<close>

definition registry_ok :: "'j registry \<Rightarrow> 'j list list \<Rightarrow> 'j list \<Rightarrow> nat \<Rightarrow> bool" where
  "registry_ok rg xss ys budget \<longleftrightarrow> deques_hold (rg_deques rg) (replicate (length xss) 0) xss \<and> uq_holds (rg_injected rg) False budget ys"

lemma deques_hold_length: "deques_hold ds bks xss \<Longrightarrow> length ds = length xss \<and> length bks = length xss"
  by (simp add: deques_hold_def)

lemma deques_hold_nth: "deques_hold ds bks xss \<Longrightarrow> i < length xss \<Longrightarrow> lifo_holds (ds ! i) 256 (bks ! i) (xss ! i)"
  by (simp add: deques_hold_def)

lemma deques_hold_update:
  "deques_hold ds bks xss \<Longrightarrow> i < length xss \<Longrightarrow> lifo_holds d 256 (bks ! i) xs \<Longrightarrow> deques_hold (ds[i := d]) bks (xss[i := xs])"
  by (auto simp: deques_hold_def nth_list_update)

lemma registry_ok_facts:
  assumes "registry_ok rg xss ys b"
  shows "length (rg_deques rg) = length xss" and "i < length xss \<Longrightarrow> lifo_holds (rg_deques rg ! i) 256 0 (xss ! i)"
    and "uq_holds (rg_injected rg) False b ys"
  using assms deques_hold_nth by (fastforce simp: registry_ok_def dest: deques_hold_length)+

lemma registry_ok_deque:
  assumes "registry_ok rg xss ys b" and "i < length xss" and "lifo_holds d 256 0 xs" and "rg_deques rg' = (rg_deques rg)[i := d]" and "rg_injected rg' = rg_injected rg"
  shows "registry_ok rg' (xss[i := xs]) ys b"
  using assms deques_hold_update [of "rg_deques rg" "replicate (length xss) 0" xss i d xs] by (simp add: registry_ok_def)

lemma registry_ok_injected:
  assumes "registry_ok rg xss ys b" and "uq_holds q False b' zs" and "rg_deques rg' = rg_deques rg" and "rg_injected rg' = q"
  shows "registry_ok rg' xss zs b'"
  using assms by (simp add: registry_ok_def)

lemma registry_ok_less: "registry_ok rg xss ys b \<Longrightarrow> n \<le> b \<Longrightarrow> registry_ok rg xss ys n"
  using uq_holds_less by (fastforce simp: registry_ok_def)

lemma registry_ok_noted [simp]: "registry_ok (rg\<lparr>rg_notes := ns\<rparr>) xss ys b = registry_ok rg xss ys b"
  by (simp add: registry_ok_def)

lemma mset_concat_update:
  "i < length xss \<Longrightarrow> mset (concat (xss[i := zs])) + mset (xss ! i) = mset (concat xss) + mset zs"
proof (induction xss arbitrary: i)
  case (Cons xs xss)
  then show ?case by (cases i) (simp_all add: ac_simps)
qed simp

section \<open>Construction\<close>

lemma new_deques_hold:
  "\<exists>ds. new_deques n = (Inr ds :: 'j lifo_queue list res) \<and> deques_hold ds (replicate n 0) (replicate n [])"
proof (induction n)
  case (Suc n)
  have "next_power_of_two LOCAL_DEQUE_CAPACITY = 256" using next_power_of_two_ge [of 256] next_power_of_two_least [of 256 8] by (simp add: LOCAL_DEQUE_CAPACITY_def)
  then obtain q :: "'j lifo_queue" where q: "lifo_new LOCAL_DEQUE_CAPACITY = Inr q" "lifo_holds q 256 0 []"
    using lifo_new_holds [of LOCAL_DEQUE_CAPACITY thesis] by (auto simp: LOCAL_DEQUE_CAPACITY_def)
  from Suc obtain ds :: "'j lifo_queue list" where "new_deques n = Inr ds" "deques_hold ds (replicate n 0) (replicate n [])" by blast
  with q show ?case by (auto simp: deques_hold_def nth_Cons split: nat.splits)
qed (simp add: deques_hold_def)

text \<open>Registries with given jobs in their queues.\<close>

lemma deque_with: "length xs \<le> 256 \<Longrightarrow> \<exists>d :: 'j lifo_queue. lifo_holds d 256 0 xs"
proof (induction xs rule: rev_induct)
  case Nil
  from new_deques_hold [of 1] show ?case using deques_hold_nth [of _ "[0]" "[[]]" 0] by fastforce
next
  case (snoc x xs)
  then obtain d :: "'j lifo_queue" where "lifo_holds d 256 0 xs" by fastforce
  from lifo.push_law [OF this, of x] snoc.prems show ?case by auto
qed

lemma injector_with: "b + length xs \<le> 2 ^ 62 - 2 \<Longrightarrow> \<exists>q :: 'j unbounded. uq_holds q False b xs"
proof (induction xs arbitrary: b rule: rev_induct)
  case Nil
  then show ?case using uq_holds_less [OF unbounded_new_holds] by fastforce
next
  case (snoc x xs)
  then obtain q :: "'j unbounded" where "uq_holds q False (Suc b) xs" by fastforce
  from uq_push_law [OF this, of _ x] show ?case by auto
qed

lemma registry_with_jobs:
  assumes "\<forall>xs \<in> set xss. length xs \<le> 256" and "b + length ys \<le> 2 ^ 62 - 2"
  shows "\<exists>rg :: 'j registry. registry_ok rg xss ys b"
proof -
  from deque_with assms(1) obtain f :: "'j list \<Rightarrow> 'j lifo_queue" where f: "\<forall>xs \<in> set xss. lifo_holds (f xs) 256 0 xs" by metis
  from injector_with [OF assms(2)] obtain q :: "'j unbounded" where "uq_holds q False b ys" by blast
  with f have "registry_ok \<lparr>rg_deques = map f xss, rg_spawned = 0, rg_injected = q, rg_terminate_count = 1, rg_parking_slots = 0, rg_terminate = [], rg_notes = []\<rparr> xss ys b"
    by (simp add: registry_ok_def deques_hold_def)
  then show ?thesis by blast
qed

section \<open>Pushing\<close>

lemma registry_inject_stores:
  assumes "registry_ok rg xss ys (Suc b)"
  shows "\<exists>rg'. registry_inject k job rg = Inr rg' \<and> registry_ok rg' xss (ys @ [job]) b \<and> rg_notes rg' = rg_notes rg @ [NewInjectedJobs 1 (ys = [])] \<and>
     rg_deques rg' = rg_deques rg"
proof -
  note r = registry_ok_facts [OF assms]
  from uq_push_law [OF r(3), of k job] obtain q where q: "upush k job (rg_injected rg) = Inr (Inr (), q)" "uq_holds q False b (ys @ [job])" by auto
  with uq_empty_law [OF r(3)] registry_ok_injected [OF assms q(2)] show ?thesis by (simp add: registry_inject_def Let_def)
qed

definition deque_room :: "'j list list \<Rightarrow> nat \<Rightarrow> nat" where
  "deque_room xss i = 256 - length (xss ! i)"

lemma local_push:
  assumes ok: "registry_ok rg xss ys b" and i: "i < length xss"
  obtains d where "lifo_push (rg_deques rg ! i) job = Inr (if 0 < deque_room xss i then Inr () else Inl job, d)"
    "lifo_holds d 256 0 (if 0 < deque_room xss i then xss ! i @ [job] else xss ! i)" "lifo_is_empty (rg_deques rg ! i) \<longleftrightarrow> xss ! i = []"
proof -
  note h = registry_ok_facts(2) [OF ok i]
  then obtain m bs where "lifo_inv (rg_deques rg ! i) m bs (xss ! i)" by (auto simp: lifo_holds_def)
  then have "lifo_is_empty (rg_deques rg ! i) \<longleftrightarrow> xss ! i = []" by (rule lifo_likely_empty(2))
  with lifo.push_law [OF h, of job] h that show thesis by (cases "0 < deque_room xss i") (auto simp: lifo_ops_def deque_room_def)
qed

lemma worker_push_stores:
  assumes ok: "registry_ok rg xss ys (Suc b)" and i: "i < length xss"
  shows "\<exists>rg'. worker_push k i job rg = Inr rg' \<and>
     (if 0 < deque_room xss i
      then registry_ok rg' (xss[i := xss ! i @ [job]]) ys b \<and> rg_notes rg' = rg_notes rg @ [NewInternalJobs 1 (xss ! i = [])]
      else registry_ok rg' xss (ys @ [job]) b \<and> rg_notes rg' = rg_notes rg @ [NewInjectedJobs 1 (ys = [])])"
proof -
  have len: "i < length (rg_deques rg)" using registry_ok_facts(1) [OF ok] i by simp
  have okb: "registry_ok rg xss ys b" using registry_ok_less [OF ok] by simp
  from local_push [OF ok i, of job] obtain d where d: "lifo_push (rg_deques rg ! i) job = Inr (if 0 < deque_room xss i then Inr () else Inl job, d)"
    "lifo_holds d 256 0 (if 0 < deque_room xss i then xss ! i @ [job] else xss ! i)" "lifo_is_empty (rg_deques rg ! i) \<longleftrightarrow> xss ! i = []" .
  let ?rg = "rg\<lparr>rg_deques := (rg_deques rg)[i := d]\<rparr>"
  show ?thesis
  proof (cases "0 < deque_room xss i")
    case True
    with d len registry_ok_deque [OF okb i, of d "xss ! i @ [job]"] show ?thesis by (simp add: worker_push_def Let_def)
  next
    case False
    have "registry_ok ?rg (xss[i := xss ! i]) ys (Suc b)" by (rule registry_ok_deque [OF ok i]) (use d False in simp_all)
    then have "registry_ok ?rg xss ys (Suc b)" by simp
    from registry_inject_stores [OF this, of k job] d len False show ?thesis by (auto simp: worker_push_def Let_def)
  qed
qed

text \<open>A batch fills the local deque and spills the rest, one notification per spilt job and one for the batch.\<close>

lemma push_jobs_stores:
  assumes "registry_ok rg xss ys b" and "i < length xss" and "length jobs \<le> b" and "f = deque_room xss i"
  shows "\<exists>rg'. push_jobs k i jobs pushed rg = Inr (pushed + min f (length jobs), rg') \<and>
     registry_ok rg' (xss[i := xss ! i @ take f jobs]) (ys @ drop f jobs) (b - length jobs) \<and>
     rg_notes rg' = rg_notes rg @ map (\<lambda>n. NewInjectedJobs 1 (ys = [] \<and> n = 0)) [0..<length jobs - f]"
  using assms
proof (induction jobs arbitrary: rg xss ys b f pushed)
  case Nil
  then show ?case by simp
next
  case (Cons job jobs)
  obtain b' where b: "b = Suc b'" using Cons.prems(3) by (cases b) auto
  have len: "i < length (rg_deques rg)" using registry_ok_facts(1) [OF Cons.prems(1)] Cons.prems(2) by simp
  from local_push [OF Cons.prems(1,2), of job] obtain d where d: "lifo_push (rg_deques rg ! i) job = Inr (if 0 < f then Inr () else Inl job, d)"
    "lifo_holds d 256 0 (if 0 < f then xss ! i @ [job] else xss ! i)" unfolding Cons.prems(4) by blast
  let ?rg = "rg\<lparr>rg_deques := (rg_deques rg)[i := d]\<rparr>"
  show ?case
  proof (cases f)
    case (Suc f')
    let ?xss = "xss[i := xss ! i @ [job]]"
    have "registry_ok ?rg ?xss ys b" by (rule registry_ok_deque [OF Cons.prems(1,2)]) (use d Suc in simp_all)
    then have ok: "registry_ok ?rg ?xss ys b'" by (rule registry_ok_less) (simp add: b)
    have f': "f' = deque_room ?xss i" using Cons.prems(2,4) Suc by (simp add: deque_room_def)
    from Cons.IH [OF ok _ _ f', of "pushed + 1"] Cons.prems(2,3) b d Suc len show ?thesis by (auto simp: Let_def)
  next
    case 0
    have "registry_ok ?rg (xss[i := xss ! i]) ys (Suc b')" by (rule registry_ok_deque [OF Cons.prems(1) [unfolded b] Cons.prems(2)]) (use d 0 in simp_all)
    then have "registry_ok ?rg xss ys (Suc b')" by simp
    from registry_inject_stores [OF this, of k job] obtain rg1 where g: "registry_inject k job ?rg = Inr rg1" "registry_ok rg1 xss (ys @ [job]) b'"
      "rg_notes rg1 = rg_notes rg @ [NewInjectedJobs 1 (ys = [])]" by auto
    have log: "map (\<lambda>n. NewInjectedJobs 1 (ys = [] \<and> n = 0)) [0..<Suc (length jobs)] =
        NewInjectedJobs 1 (ys = []) # map (\<lambda>n. NewInjectedJobs 1 (ys @ [job] = [] \<and> n = 0)) [0..<length jobs]"
      by (simp add: upt_conv_Cons map_Suc_upt [symmetric] del: upt_Suc)
    from Cons.IH [OF g(2) Cons.prems(2) _ Cons.prems(4), of pushed] Cons.prems(3) b d 0 len g(1,3) log show ?thesis by (auto simp: Let_def simp del: upt_Suc)
  qed
qed

lemma push_batch_stores:
  assumes ok: "registry_ok rg xss ys b" and i: "i < length xss" and b: "length jobs \<le> b" and f: "f = deque_room xss i"
  shows "\<exists>rg'. push_batch k i jobs rg = Inr rg' \<and> registry_ok rg' (xss[i := xss ! i @ take f jobs]) (ys @ drop f jobs) (b - length jobs) \<and>
     rg_notes rg' = rg_notes rg @ map (\<lambda>n. NewInjectedJobs 1 (ys = [] \<and> n = 0)) [0..<length jobs - f] @
       (if 0 < min f (length jobs) then [NewInternalJobs (min f (length jobs)) (xss ! i = [])] else [])"
proof -
  have len: "i < length (rg_deques rg)" using registry_ok_facts(1) [OF ok] i by simp
  have e: "lifo_is_empty (rg_deques rg ! i) \<longleftrightarrow> xss ! i = []" using local_push [OF ok i] by metis
  have "f \<le> 256" by (simp add: f deque_room_def)
  then have m: "min f (length jobs) mod 2 ^ 32 = min f (length jobs)" by simp
  from push_jobs_stores [OF assms, of k 0] obtain rg1 where p: "push_jobs k i jobs 0 rg = Inr (min f (length jobs), rg1)"
    "registry_ok rg1 (xss[i := xss ! i @ take f jobs]) (ys @ drop f jobs) (b - length jobs)"
    "rg_notes rg1 = rg_notes rg @ map (\<lambda>n. NewInjectedJobs 1 (ys = [] \<and> n = 0)) [0..<length jobs - f]" by auto
  have "push_batch k i jobs rg = Inr (if 0 < min f (length jobs) then noted (NewInternalJobs (min f (length jobs)) (xss ! i = [])) rg1 else rg1)"
    unfolding push_batch_def e Let_def using p(1) len m e by simp
  with p(2,3) show ?thesis by (cases "0 < min f (length jobs)") simp_all
qed

section \<open>Searching\<close>

context stealing_deque
begin

text \<open>A thief that asks for one item gets the oldest of an unbooked victim, and puts nothing in its own deque.\<close>

lemma steal_one:
  assumes "holds q cap booked xs" and "holds d cap' booked' ys"
  shows "\<exists>q' d'. dq_steal_and_pop ops (\<lambda>_ _. 1) k q d =
       Inr (if xs = [] then Inl StealEmpty else if 0 < booked then Inl StealBusy else Inr (hd xs, 0), q', d') \<and>
     holds q' cap booked (if 0 < booked then xs else tl xs) \<and> holds d' cap' booked' ys"
proof -
  let ?c = "block_size (\<lambda>_ _. 1) k (Suc (cap' - (booked' + length ys))) (length xs)"
  have c: "?c = (if xs = [] then 0 else 1)" by (cases xs) (auto simp: block_size_def)
  from steal_and_pop_law [OF assms refl refl, of "\<lambda>_ _. 1" k] show ?thesis unfolding c
    by (cases xs) (auto simp: spec_steal_def split: if_splits)
qed

end

fun spec_scan :: "nat list \<Rightarrow> 'j list list \<Rightarrow> nat list \<Rightarrow> bool \<Rightarrow> bool \<times> 'j option \<times> 'j list list" where
  "spec_scan bks xss [] retry = (retry, None, xss)"
| "spec_scan bks xss (v # vs) retry =
     (if xss ! v = [] then spec_scan bks xss vs retry
      else if 0 < bks ! v then spec_scan bks xss vs True
      else (retry, Some (hd (xss ! v)), xss[v := tl (xss ! v)]))"

lemma scan_victims_runs:
  assumes "deques_hold ds bks xss" and "me < length xss" and "\<forall>v \<in> set vs. v < length xss \<and> v \<noteq> me"
  shows "\<exists>ds'. scan_victims k me vs retry ds = Inr (fst (spec_scan bks xss vs retry), fst (snd (spec_scan bks xss vs retry)), ds') \<and>
     deques_hold ds' bks (snd (snd (spec_scan bks xss vs retry)))"
  using assms
proof (induction vs arbitrary: ds retry)
  case (Cons v vs)
  have v: "v < length xss" "v \<noteq> me" "v < length ds" "me < length ds" using Cons.prems deques_hold_length [OF Cons.prems(1)] by auto
  from lifo.steal_one [OF deques_hold_nth [OF Cons.prems(1) v(1)] deques_hold_nth [OF Cons.prems(1,2)], of k] obtain q d where
    s: "lifo_steal_and_pop (\<lambda>_ _. 1) k (ds ! v) (ds ! me) =
        Inr (if xss ! v = [] then Inl StealEmpty else if 0 < bks ! v then Inl StealBusy else Inr (hd (xss ! v), 0), q, d)"
      "lifo_holds q 256 (bks ! v) (if 0 < bks ! v then xss ! v else tl (xss ! v))" "lifo_holds d 256 (bks ! me) (xss ! me)" by (auto simp: lifo_ops_def)
  let ?xs = "if 0 < bks ! v then xss ! v else tl (xss ! v)"
  have "deques_hold (ds[v := q, me := d]) bks ((xss[v := ?xs])[me := xss ! me])"
    by (rule deques_hold_update [OF deques_hold_update [OF Cons.prems(1) v(1) s(2)]]) (use v s(3) Cons.prems(2) in simp_all)
  moreover have "(xss[v := ?xs])[me := xss ! me] = xss[v := ?xs]" using v(2) by (metis list_update_id list_update_swap)
  ultimately have ok: "deques_hold (ds[v := q, me := d]) bks (xss[v := ?xs])" by simp
  show ?case
  proof (cases "xss ! v = [] \<or> 0 < bks ! v")
    case True
    then have "xss[v := ?xs] = xss" by (auto simp: list_update_same_conv v(1))
    with ok have "deques_hold (ds[v := q, me := d]) bks xss" by simp
    from Cons.IH [OF this Cons.prems(2), of "retry \<or> xss ! v \<noteq> []"] Cons.prems(3) s(1) v True show ?thesis by (auto simp: Let_def)
  qed (use ok s(1) v in \<open>simp add: Let_def\<close>)
qed auto

end
