(* ===== verification/Registry_Search.thy ===== *)
theory Registry_Search
  imports Registry_Props
begin

text \<open>The search for work, the drain of a stopping worker, and the counters of the registry.\<close>

section \<open>The random start\<close>

lemma xor_drop_nonzero:
  fixes x :: "64 word"
  assumes "x \<noteq> 0" and "0 < n"
  shows "x XOR drop_bit n x \<noteq> 0"
proof
  assume eq: "x XOR drop_bit n x = 0"
  have b: "\<not> bit x m" for m
  proof (induction "64 - m" arbitrary: m rule: less_induct)
    case less
    have "bit x m \<longleftrightarrow> bit x (m + n)" using arg_cong [OF eq, of "\<lambda>w. bit w m"] by (simp add: bit_xor_iff bit_drop_bit_eq add.commute)
    moreover have "\<not> bit x (m + n)" if "m < 64" by (rule less) (use that assms(2) in auto)
    ultimately show ?case using bit_imp_le_length [of x m] by auto
  qed
  then have "x = 0" by (simp add: bit_eq_iff)
  with assms(1) show False by simp
qed

lemma xor_push_nonzero:
  fixes x :: "64 word"
  assumes "x \<noteq> 0" and "0 < n"
  shows "x XOR push_bit n x \<noteq> 0"
proof
  assume eq: "x XOR push_bit n x = 0"
  have b: "\<not> bit x m" for m
  proof (induction m rule: less_induct)
    case (less m)
    have "bit x m \<longrightarrow> n \<le> m \<and> bit x (m - n)" using arg_cong [OF eq, of "\<lambda>w. bit w m"] by (auto simp: bit_xor_iff bit_push_bit_iff)
    with less [of "m - n"] assms(2) show ?case by auto
  qed
  then have "x = 0" by (simp add: bit_eq_iff)
  with assms(1) show False by simp
qed

lemma xorshift_nonzero: "x \<noteq> 0 \<Longrightarrow> xorshift x \<noteq> 0"
  unfolding xorshift_def Let_def by (intro xor_drop_nonzero xor_push_nonzero) simp_all

lemma rng_next_usize_bound:
  assumes "0 < n" and "n < 2 ^ 64"
  shows "fst (rng_next_usize x n) < n"
proof -
  have "unat (of_nat n :: 64 word) = n" using assms(2) by (simp add: unat_of_nat)
  then show ?thesis using assms(1) by (simp add: rng_next_usize_def Let_def unat_mod)
qed

section \<open>Finding work\<close>

lemma victim_order_set: "start \<le> n \<Longrightarrow> set (victim_order start n me) = {0..<n} - {me}"
  by (auto simp: victim_order_def)

lemma spec_scan_quiet:
  "(\<forall>v \<in> set vs. bks ! v = 0) \<Longrightarrow> spec_scan bks xss vs retry =
     (case filter (\<lambda>v. xss ! v \<noteq> []) vs of [] \<Rightarrow> (retry, None, xss) | v # _ \<Rightarrow> (retry, Some (hd (xss ! v)), xss[v := tl (xss ! v)]))"
  by (induction vs) auto

lemma steal_loop_quiet:
  assumes ok: "deques_hold ds (replicate (length xss) 0) xss" and me: "me < length xss" and n: "length xss < 2 ^ 64"
  shows "\<exists>job rng' ds' xss'. steal_loop k me others rng ds = Inr (Some job, rng', ds') \<and> deques_hold ds' (replicate (length xss') 0) xss' \<and> length xss' = length xss \<and>
     mset (concat xss') + mset (case job of None \<Rightarrow> [] | Some j \<Rightarrow> [j]) = mset (concat xss) \<and>
     (job = None \<longleftrightarrow> (\<forall>v < length xss. v \<noteq> me \<longrightarrow> xss ! v = [])) \<and> (\<forall>j. job = Some j \<longrightarrow> (\<exists>v < length xss. v \<noteq> me \<and> xss ! v \<noteq> [] \<and> j = hd (xss ! v)))"
proof -
  obtain start rng' where r: "rng_next_usize rng (length xss) = (start, rng')" by (cases "rng_next_usize rng (length xss)")
  have pos: "0 < length xss" using me by linarith
  have start: "start < length xss" using rng_next_usize_bound [OF pos n, of rng] unfolding r by simp
  let ?vs = "victim_order start (length xss) me"
  have set: "set ?vs = {0..<length xss} - {me}" using start by (simp add: victim_order_set)
  then have vs: "\<forall>v \<in> set ?vs. v < length xss \<and> v \<noteq> me" by auto
  from scan_victims_runs [OF ok me vs, of k False] obtain ds' where
    sc: "scan_victims k me ?vs False ds = Inr (fst (spec_scan (replicate (length xss) 0) xss ?vs False), fst (snd (spec_scan (replicate (length xss) 0) xss ?vs False)), ds')"
      "deques_hold ds' (replicate (length xss) 0) (snd (snd (spec_scan (replicate (length xss) 0) xss ?vs False)))" by blast
  have quiet: "\<forall>v \<in> set ?vs. replicate (length xss) 0 ! v = (0 :: nat)" using vs by simp
  note sp = spec_scan_quiet [OF quiet, of xss False]
  have len: "length ds = length xss" using deques_hold_length [OF ok] by simp
  show ?thesis
  proof (cases "filter (\<lambda>v. xss ! v \<noteq> []) ?vs")
    case Nil
    then have "\<forall>v < length xss. v \<noteq> me \<longrightarrow> xss ! v = []" using set by (auto simp: filter_empty_conv)
    moreover have "steal_loop k me others rng ds = Inr (Some None, rng', ds')" using sc(1) r sp Nil by (subst steal_loop.simps) (simp add: len)
    ultimately show ?thesis using sc(2) sp Nil by (intro exI [of _ None] exI [of _ rng'] exI [of _ ds'] exI [of _ xss]) simp
  next
    case (Cons v ws)
    then have "v \<in> set (filter (\<lambda>v. xss ! v \<noteq> []) ?vs)" by simp
    then have v: "v \<in> set ?vs" "xss ! v \<noteq> []" by simp_all
    then have v': "v < length xss" "v \<noteq> me" using vs by auto
    let ?xss = "xss[v := tl (xss ! v)]"
    have "mset (concat ?xss) + mset (xss ! v) = mset (concat xss) + mset (tl (xss ! v))" by (rule mset_concat_update [OF v'(1)])
    moreover have "mset (xss ! v) = {#hd (xss ! v)#} + mset (tl (xss ! v))" using v(2) by (cases "xss ! v") simp_all
    ultimately have "mset (concat ?xss) + {#hd (xss ! v)#} = mset (concat xss)" by (simp add: ac_simps)
    moreover have "steal_loop k me others rng ds = Inr (Some (Some (hd (xss ! v))), rng', ds')" using sc(1) r sp Cons by (subst steal_loop.simps) (simp add: len)
    moreover have "deques_hold ds' (replicate (length ?xss) 0) ?xss" using sc(2) sp Cons by simp
    ultimately show ?thesis using v v' by (intro exI [of _ "Some (hd (xss ! v))"] exI [of _ rng'] exI [of _ ds'] exI [of _ ?xss]) auto
  qed
qed

lemma try_pop_local_takes:
  assumes ok: "registry_ok rg xss ys b" and i: "i < length xss"
  shows "\<exists>rg'. try_pop_local k i rg = Inr (fst (spec_pop (xss ! i)), rg') \<and> registry_ok rg' (xss[i := snd (spec_pop (xss ! i))]) ys b \<and> rg_notes rg' = rg_notes rg"
proof -
  have len: "i < length (rg_deques rg)" using registry_ok_facts(1) [OF ok] i by simp
  from lifo.pop_law [OF registry_ok_facts(2) [OF ok i], of k] obtain d where
    d: "lifo_pop k (rg_deques rg ! i) = Inr (fst (spec_pop (xss ! i)), d)" "lifo_holds d 256 0 (snd (spec_pop (xss ! i)))" by (auto simp: lifo_ops_def)
  with registry_ok_deque [OF ok i d(2)] len show ?thesis by (simp add: try_pop_local_def)
qed

lemma pop_injected_job_takes:
  assumes ok: "registry_ok rg xss ys b"
  shows "\<exists>rg'. pop_injected_job k rg = Inr (case ys of [] \<Rightarrow> None | y # _ \<Rightarrow> Some y, rg') \<and> registry_ok rg' xss (tl ys) b \<and> rg_notes rg' = rg_notes rg"
proof (cases ys)
  case Nil
  with ok uq_empty_law [OF registry_ok_facts(3) [OF ok]] show ?thesis by (simp add: pop_injected_job_def)
next
  case (Cons y zs)
  from uq_pop_law [OF registry_ok_facts(3) [OF ok], of k] Cons obtain q where q: "upop k (rg_injected rg) = Inr (Inr y, q)" "uq_holds q False b zs" by auto
  with registry_ok_injected [OF ok q(2)] uq_empty_law [OF registry_ok_facts(3) [OF ok]] Cons show ?thesis by (simp add: pop_injected_job_def)
qed

lemma spec_pop_mset: "mset (snd (spec_pop xs)) + mset (case fst (spec_pop xs) of None \<Rightarrow> [] | Some j \<Rightarrow> [j]) = mset xs"
  using spec_pop_items [of xs] by (simp add: ac_simps)

text \<open>
  C33. A worker that looks for work finds it if there is any: with no theft under way, \<^verbatim>\<open>find_work\<close> returns
  the newest job of its own deque, else the oldest injected job, else the oldest job of some other worker,
  and it returns nothing only when every deque and the injector are empty. The job returned is taken out
  once and no other job is touched. The scan makes one round, so it returns whatever the others do.
\<close>

theorem find_work_finds:
  assumes ok: "registry_ok rg xss ys b" and me: "me < length xss" and n: "length xss < 2 ^ 64"
  shows "\<exists>job rng' rg' xss' ys'. find_work k me others rng rg = Inr (Some job, rng', rg') \<and> registry_ok rg' xss' ys' b \<and> length xss' = length xss \<and>
     mset (concat xss' @ ys') + mset (case job of None \<Rightarrow> [] | Some j \<Rightarrow> [j]) = mset (concat xss @ ys) \<and>
     (job = None \<longleftrightarrow> concat xss = [] \<and> ys = []) \<and>
     (xss ! me \<noteq> [] \<longrightarrow> job = Some (last (xss ! me))) \<and> (xss ! me = [] \<and> ys \<noteq> [] \<longrightarrow> job = Some (hd ys)) \<and>
     (xss ! me = [] \<and> ys = [] \<and> job \<noteq> None \<longrightarrow> (\<exists>v < length xss. v \<noteq> me \<and> xss ! v \<noteq> [] \<and> job = Some (hd (xss ! v))))"
proof -
  from try_pop_local_takes [OF ok me, of k] obtain rg1 where l: "try_pop_local k me rg = Inr (fst (spec_pop (xss ! me)), rg1)"
    "registry_ok rg1 (xss[me := snd (spec_pop (xss ! me))]) ys b" by blast
  show ?thesis
  proof (cases "xss ! me = []")
    case False
    let ?x = "last (xss ! me)" and ?xss = "xss[me := butlast (xss ! me)]"
    have sp: "spec_pop (xss ! me) = (Some ?x, butlast (xss ! me))" using False by (simp add: spec_pop_def)
    have "mset (concat ?xss) + mset (xss ! me) = mset (concat xss) + mset (butlast (xss ! me))" by (rule mset_concat_update [OF me])
    moreover have "mset (xss ! me) = mset (butlast (xss ! me)) + {#?x#}" using False by (metis append_butlast_last_id mset.simps mset_append add_mset_add_single add.commute empty_neutral(1))
    ultimately have "mset (concat ?xss) + {#?x#} = mset (concat xss)" by (simp add: ac_simps)
    moreover have "concat xss \<noteq> []" using False me by (auto simp: concat_eq_Nil_conv)
    moreover have "find_work k me others rng rg = Inr (Some (Some ?x), rng, rg1)" using l(1) sp by (simp add: find_work_def)
    ultimately show ?thesis using l(2) sp False by (intro exI [of _ "Some ?x"] exI [of _ rng] exI [of _ rg1] exI [of _ ?xss] exI [of _ ys]) auto
  next
    case True
    then have sp: "spec_pop (xss ! me) = (None, [])" "xss[me := []] = xss" by (auto simp: spec_pop_def list_update_same_conv me)
    with l have l': "try_pop_local k me rg = Inr (None, rg1)" "registry_ok rg1 xss ys b" by simp_all
    from pop_injected_job_takes [OF l'(2), of k] obtain rg2 where p: "pop_injected_job k rg1 = Inr (case ys of [] \<Rightarrow> None | y # _ \<Rightarrow> Some y, rg2)"
      "registry_ok rg2 xss (tl ys) b" by blast
    show ?thesis
    proof (cases ys)
      case (Cons y zs)
      then have "find_work k me others rng rg = Inr (Some (Some y), rng, rg2)" using l' p by (simp add: find_work_def)
      with p(2) Cons True show ?thesis by (intro exI [of _ "Some y"] exI [of _ rng] exI [of _ rg2] exI [of _ xss] exI [of _ zs]) auto
    next
      case Nil
      have fw: "find_work k me others rng rg = worker_steal k me others rng rg2" using l'(1) p(1) Nil by (simp add: find_work_def)
      have ds: "deques_hold (rg_deques rg2) (replicate (length xss) 0) xss" using p(2) by (simp add: registry_ok_def)
      have none: "concat xss = [] \<longleftrightarrow> (\<forall>v < length xss. v \<noteq> me \<longrightarrow> xss ! v = [])" 
        using True by (auto simp: concat_eq_Nil_conv all_set_conv_all_nth)
      show ?thesis
      proof (cases "num_threads rg2 \<le> 1")
        case one: True
        then have "length xss \<le> 1" using deques_hold_length [OF ds] by (simp add: num_threads_def)
        then have "v = me" if "v < length xss" for v using that me by linarith
        then have "concat xss = []" using none by blast
        with fw one p(2) Nil True show ?thesis by (intro exI [of _ None] exI [of _ rng] exI [of _ rg2] exI [of _ xss] exI [of _ "[]"]) (simp add: worker_steal_def)
      next
        case False
        from steal_loop_quiet [OF ds me n, of k others rng] obtain job rng' ds' xss' where s:
          "steal_loop k me others rng (rg_deques rg2) = Inr (Some job, rng', ds')" "deques_hold ds' (replicate (length xss') 0) xss'" "length xss' = length xss"
          "mset (concat xss') + mset (case job of None \<Rightarrow> [] | Some j \<Rightarrow> [j]) = mset (concat xss)" "job = None \<longleftrightarrow> (\<forall>v < length xss. v \<noteq> me \<longrightarrow> xss ! v = [])"
          "\<forall>j. job = Some j \<longrightarrow> (\<exists>v < length xss. v \<noteq> me \<and> xss ! v \<noteq> [] \<and> j = hd (xss ! v))" by blast
        have "registry_ok (rg2\<lparr>rg_deques := ds'\<rparr>) xss' [] b" using s(2) p(2) Nil by (simp add: registry_ok_def)
        moreover have "find_work k me others rng rg = Inr (Some job, rng', rg2\<lparr>rg_deques := ds'\<rparr>)" using fw False s(1) by (simp add: worker_steal_def)
        ultimately show ?thesis using s(3-6) Nil True none
          by (intro exI [of _ job] exI [of _ rng'] exI [of _ "rg2\<lparr>rg_deques := ds'\<rparr>"] exI [of _ xss'] exI [of _ "[]"]) auto
      qed
    qed
  qed
qed

theorem find_work_finds_witness:
  "\<exists>(rg :: nat registry) rng' rg'. registry_ok rg [[], [4, 5]] [] 9 \<and> find_work 0 0 [] 1 rg = Inr (Some (Some 4), rng', rg')"
proof -
  obtain rg :: "nat registry" where rg: "registry_ok rg [[], [4, 5]] [] 9" using registry_with_jobs [of "[[], [4, 5]]" 9 "[]"] by auto
  have one: "v < length [[], [4, 5 :: nat]] \<and> v \<noteq> 0 \<longleftrightarrow> v = 1" for v :: nat by auto
  from find_work_finds [OF rg, of 0 0 "[]" 1] rg show ?thesis by (auto simp: one [simplified] less_Suc_eq)
qed

end
