(* ===== verification/Registry_Drain.thy ===== *)
theory Registry_Drain
  imports Registry_Search
begin

text \<open>
  A stopping worker: it runs what is left in its own deque and in the injector, and what those jobs
  submit, until both are empty. Jobs have a weight that bounds the jobs they lead to.
\<close>

abbreviation weigh :: "('j \<Rightarrow> nat) \<Rightarrow> 'j list \<Rightarrow> nat" where
  "weigh w xs \<equiv> sum_list (map w xs)"

lemma weigh_mset: "mset xs = mset ys \<Longrightarrow> weigh w xs = weigh w ys"
  by (metis mset_map sum_mset_sum_list)

lemma length_le_weigh: "\<forall>j. 0 < w j \<Longrightarrow> length xs \<le> weigh w xs"
proof (induction xs)
  case (Cons x xs)
  then have "0 < w x" "length xs \<le> weigh w xs" by blast+
  then show ?case by simp
qed simp

section \<open>Running one job\<close>

lemma submit_all_stores:
  assumes "registry_ok rg xss ys b" and "i < length xss" and "length jobs \<le> b"
  shows "\<exists>rg' xs' ys'. submit_all k i jobs rg = Inr rg' \<and> registry_ok rg' (xss[i := xs']) ys' (b - length jobs) \<and>
     mset (xs' @ ys') = mset (xss ! i @ ys) + mset jobs"
  using assms
proof (induction jobs arbitrary: rg xss ys b)
  case Nil
  then show ?case by (intro exI [of _ rg] exI [of _ "xss ! i"] exI [of _ ys]) simp
next
  case (Cons job jobs)
  obtain b' where b: "b = Suc b'" using Cons.prems(3) by (cases b) auto
  from worker_push_stores [OF Cons.prems(1) [unfolded b] Cons.prems(2), of k job] obtain rg1 xs1 ys1 where
    p: "worker_push k i job rg = Inr rg1" "registry_ok rg1 (xss[i := xs1]) ys1 b'" "mset (xs1 @ ys1) = mset (xss ! i @ ys) + {#job#}"
    by (cases "0 < deque_room xss i") (fastforce simp: ac_simps, metis list_update_id mset_append add.assoc mset_single_iff_right)
  have "i < length (xss[i := xs1])" "length jobs \<le> b'" using Cons.prems(2,3) b by simp_all
  from Cons.IH [OF p(2) this] obtain rg' xs' ys' where r: "submit_all k i jobs rg1 = Inr rg'" "registry_ok rg' (xss[i := xs']) ys' (b' - length jobs)"
    "mset (xs' @ ys') = mset (xs1 @ ys1) + mset jobs" using Cons.prems(2) by auto
  have "submit_all k i (job # jobs) rg = Inr rg'" using p(1) r(1) by (simp add: inject_or_push_def)
  moreover have "mset (xs' @ ys') = mset (xss ! i @ ys) + mset (job # jobs)" using r(3) p(3) by (simp add: ac_simps)
  ultimately show ?case using r(2) b by (intro exI [of _ rg'] exI [of _ xs'] exI [of _ ys']) simp
qed

text \<open>\<open>xs\<close> and \<open>ys\<close> are the own deque and the injector: what the jobs there can still submit fits the budget.\<close>

definition drainable :: "('j \<Rightarrow> nat) \<Rightarrow> 'j registry \<Rightarrow> 'j list list \<Rightarrow> nat \<Rightarrow> 'j list \<Rightarrow> 'j list \<Rightarrow> nat \<Rightarrow> bool" where
  "drainable w rg xss i xs ys b \<longleftrightarrow> registry_ok rg (xss[i := xs]) ys b \<and> weigh w (xs @ ys) \<le> b + length (xs @ ys)"

lemma run_one:
  assumes ok: "registry_ok rg (xss[i := xs]) ys b" and i: "i < length xss" and dec: "\<forall>j. weigh w (submits j) < w j"
    and b: "weigh w (xs @ ys) + w job \<le> b + length (xs @ ys) + 1"
  obtains rg' xs' ys' where "submit_all k i (submits job) rg = Inr rg'" "drainable w rg' xss i xs' ys' (b - length (submits job))"
    "mset (xs' @ ys') = mset (xs @ ys) + mset (submits job)" "weigh w (xs' @ ys') < weigh w (xs @ ys) + w job"
proof -
  have pos: "\<forall>j. 0 < w j" using dec by (metis gr_zeroI not_less_zero)
  have d: "weigh w (submits job) < w job" and l: "length (submits job) \<le> weigh w (submits job)" and n: "length (xs @ ys) \<le> weigh w (xs @ ys)"
    using dec by (simp_all add: length_le_weigh [OF pos] del: map_append length_append)
  have "length (submits job) \<le> b" using d l n b by linarith
  moreover have "i < length (xss[i := xs])" using i by simp
  ultimately obtain rg' xs' ys' where r: "submit_all k i (submits job) rg = Inr rg'"
    "registry_ok rg' (xss[i := xs']) ys' (b - length (submits job))" "mset (xs' @ ys') = mset (xs @ ys) + mset (submits job)"
    using submit_all_stores [OF ok, of i "submits job" k] i by auto
  then have e: "mset (xs' @ ys') = mset ((xs @ ys) @ submits job)" by simp
  have w: "weigh w (xs' @ ys') = weigh w (xs @ ys) + weigh w (submits job)" using weigh_mset [OF e, of w] by simp
  have len: "length (xs' @ ys') = length (xs @ ys) + length (submits job)" using mset_eq_length [OF e] by simp
  have "drainable w rg' xss i xs' ys' (b - length (submits job))" using r(2) w len b d \<open>length (submits job) \<le> b\<close> by (simp add: drainable_def)
  moreover have "weigh w (xs' @ ys') < weigh w (xs @ ys) + w job" using w d by linarith
  ultimately show thesis using r by (intro that)
qed

section \<open>The two loops\<close>

text \<open>What a loop that has run the jobs of \<open>run\<close> leaves of the deque \<open>xs\<close> and the injector \<open>ys\<close>.\<close>

definition drained :: "('j \<Rightarrow> nat) \<Rightarrow> ('j \<Rightarrow> 'j list) \<Rightarrow> 'j list \<Rightarrow> 'j list \<Rightarrow> 'j list \<Rightarrow> 'j list \<Rightarrow> 'j list \<Rightarrow> bool" where
  "drained w submits run xs ys xs' ys' \<longleftrightarrow> mset (xs' @ ys') + mset run = mset (xs @ ys) + mset (concat (map submits run)) \<and>
     weigh w (xs' @ ys') + length run \<le> weigh w (xs @ ys) \<and> (run = [] \<longrightarrow> xs' = xs \<and> ys' = ys)"

lemma drained_refl: "drained w submits [] xs ys xs ys"
  by (simp add: drained_def)

lemma drained_trans: "drained w submits r1 xs ys xs1 ys1 \<Longrightarrow> drained w submits r2 xs1 ys1 xs2 ys2 \<Longrightarrow> drained w submits (r1 @ r2) xs ys xs2 ys2"
  by (auto simp: drained_def) (simp add: multiset_eq_iff, metis add.assoc add.commute add.left_commute)

lemma drained_one:
  assumes "mset (xs1 @ ys1) = mset (xs0 @ ys0) + mset (submits job)" and "mset (xs0 @ ys0) + {#job#} = mset (xs @ ys)"
    and "weigh w (xs1 @ ys1) < weigh w (xs0 @ ys0) + w job"
  shows "drained w submits [job] xs ys xs1 ys1"
proof -
  have "weigh w (xs @ ys) = weigh w (job # xs0 @ ys0)" by (rule weigh_mset) (use assms(2) in simp)
  with assms show ?thesis by (simp add: drained_def ac_simps)
qed

lemma drained_fuel:
  assumes "drained w submits run xs ys xs' ys'" and "run \<noteq> []" and "weigh w (xs @ ys) \<le> fuel"
  obtains f where "fuel = Suc f" "weigh w (xs' @ ys') \<le> f"
proof -
  have "0 < length run" "weigh w (xs' @ ys') + length run \<le> weigh w (xs @ ys)" using assms by (simp_all add: drained_def)
  then have "fuel = Suc (fuel - 1)" "weigh w (xs' @ ys') \<le> fuel - 1" using assms(3) by linarith+
  with that show thesis by blast
qed

lemma drain_local_runs:
  assumes "drainable w rg xss i xs ys b" and "i < length xss" and "\<forall>j. weigh w (submits j) < w j" and "weigh w (xs @ ys) \<le> fuel"
  shows "\<exists>run rg' ys' b'. drain_local fuel k submits i trace rg = Inr (Some (trace @ run, rg')) \<and> drainable w rg' xss i [] ys' b' \<and>
     drained w submits run xs ys [] ys'"
  using assms
proof (induction fuel arbitrary: rg xs ys b trace rule: less_induct)
  case (less fuel)
  have i': "i < length (xss[i := xs])" using less.prems(2) by simp
  note ok = less.prems(1) [unfolded drainable_def]
  from try_pop_local_takes [OF conjunct1 [OF ok] i', of k] less.prems(2) obtain rg1 where
    p: "try_pop_local k i rg = Inr (fst (spec_pop xs), rg1)" "registry_ok rg1 (xss[i := snd (spec_pop xs)]) ys b" by auto
  show ?case
  proof (cases xs rule: rev_cases)
    case Nil
    with p less.prems(1) have "drain_local fuel k submits i trace rg = Inr (Some (trace @ [], rg1))" "drainable w rg1 xss i [] ys b"
      by (simp_all add: drain_local.simps spec_pop_def drainable_def)
    with Nil drained_refl show ?thesis by blast
  next
    case (snoc zs job)
    then have sp: "spec_pop xs = (Some job, zs)" by (simp add: spec_pop_def)
    have bb: "weigh w (zs @ ys) + w job \<le> b + length (zs @ ys) + 1" using ok snoc by simp
    from p(2) sp have p2: "registry_ok rg1 (xss[i := zs]) ys b" by simp
    from run_one [OF p2 less.prems(2,3) bb, of k] obtain rg2 xs2 ys2 where
      r: "submit_all k i (submits job) rg1 = Inr rg2" "drainable w rg2 xss i xs2 ys2 (b - length (submits job))"
        "mset (xs2 @ ys2) = mset (zs @ ys) + mset (submits job)" "weigh w (xs2 @ ys2) < weigh w (zs @ ys) + w job" by blast
    have one: "drained w submits [job] xs ys xs2 ys2" using drained_one [of xs2 ys2 zs ys submits job xs ys w] r(3,4) snoc by simp
    from drained_fuel [OF one _ less.prems(4)] obtain f where f: "fuel = Suc f" "weigh w (xs2 @ ys2) \<le> f" by blast
    from less.IH [OF _ r(2) less.prems(2,3) f(2), of "trace @ [job]"] f obtain run rg' ys' b' where
      d: "drain_local f k submits i (trace @ [job]) rg2 = Inr (Some ((trace @ [job]) @ run, rg'))" "drainable w rg' xss i [] ys' b'" "drained w submits run xs2 ys2 [] ys'" by auto
    have "drain_local fuel k submits i trace rg = Inr (Some (trace @ [job] @ run, rg'))" using p(1) sp r(1) d(1) f by (simp add: drain_local.simps [of "Suc f"])
    with d(2) drained_trans [OF one d(3)] show ?thesis by blast
  qed
qed

lemma drain_injected_runs:
  assumes "drainable w rg xss i xs ys b" and "i < length xss" and "\<forall>j. weigh w (submits j) < w j" and "weigh w (xs @ ys) \<le> fuel"
  shows "\<exists>run rg' xs' b'. drain_injected fuel k submits i trace rg = Inr (Some (trace @ run, rg')) \<and> drainable w rg' xss i xs' [] b' \<and>
     drained w submits run xs ys xs' []"
  using assms
proof (induction fuel arbitrary: rg xs ys b trace rule: less_induct)
  case (less fuel)
  note ok = less.prems(1) [unfolded drainable_def]
  from pop_injected_job_takes [OF conjunct1 [OF ok], of k] obtain rg1 where
    p: "pop_injected_job k rg = Inr (case ys of [] \<Rightarrow> None | y # _ \<Rightarrow> Some y, rg1)" "registry_ok rg1 (xss[i := xs]) (tl ys) b" by blast
  show ?case
  proof (cases ys)
    case Nil
    with p less.prems(1) have "drain_injected fuel k submits i trace rg = Inr (Some (trace @ [], rg1))" "drainable w rg1 xss i xs [] b"
      by (simp_all add: drain_injected.simps drainable_def)
    with Nil drained_refl show ?thesis by blast
  next
    case (Cons job zs)
    have bb: "weigh w (xs @ zs) + w job \<le> b + length (xs @ zs) + 1" using ok Cons by simp
    from p(2) Cons have p2: "registry_ok rg1 (xss[i := xs]) zs b" by simp
    from run_one [OF p2 less.prems(2,3) bb, of k] obtain rg2 xs2 ys2 where
      r: "submit_all k i (submits job) rg1 = Inr rg2" "drainable w rg2 xss i xs2 ys2 (b - length (submits job))"
        "mset (xs2 @ ys2) = mset (xs @ zs) + mset (submits job)" "weigh w (xs2 @ ys2) < weigh w (xs @ zs) + w job" by blast
    have one: "drained w submits [job] xs ys xs2 ys2" using drained_one [of xs2 ys2 xs zs submits job xs ys w] r(3,4) Cons by simp
    from drained_fuel [OF one _ less.prems(4)] obtain f where f: "fuel = Suc f" "weigh w (xs2 @ ys2) \<le> f" by blast
    from less.IH [OF _ r(2) less.prems(2,3) f(2), of "trace @ [job]"] f obtain run rg' xs' b' where
      d: "drain_injected f k submits i (trace @ [job]) rg2 = Inr (Some ((trace @ [job]) @ run, rg'))" "drainable w rg' xss i xs' [] b'" "drained w submits run xs2 ys2 xs' []" by auto
    have "drain_injected fuel k submits i trace rg = Inr (Some (trace @ [job] @ run, rg'))" using p(1) Cons r(1) d(1) f by (simp add: drain_injected.simps [of "Suc f"])
    with d(2) drained_trans [OF one d(3)] show ?thesis by blast
  qed
qed

section \<open>The passes\<close>

lemma drain_on_stop_runs:
  assumes "drainable w rg xss i xs ys b" and "i < length xss" and "\<forall>j. weigh w (submits j) < w j" and "weigh w (xs @ ys) \<le> fuel"
  shows "\<exists>run rg' b'. drain_on_stop fuel k submits i trace rg = Inr (Some (trace @ run, rg')) \<and> drainable w rg' xss i [] [] b' \<and> drained w submits run xs ys [] []"
  using assms
proof (induction fuel arbitrary: rg xs ys b trace rule: less_induct)
  case (less fuel)
  from drain_local_runs [OF less.prems, of k trace] obtain r1 rg1 ys1 b1 where
    l: "drain_local fuel k submits i trace rg = Inr (Some (trace @ r1, rg1))" "drainable w rg1 xss i [] ys1 b1" "drained w submits r1 xs ys [] ys1" by blast
  have f1: "weigh w ([] @ ys1) \<le> fuel" using l(3) less.prems(4) by (simp add: drained_def)
  from drain_injected_runs [OF l(2) less.prems(2,3) f1, of k "trace @ r1"] obtain r2 rg2 xs2 b2 where
    q: "drain_injected fuel k submits i (trace @ r1) rg1 = Inr (Some (trace @ r1 @ r2, rg2))" "drainable w rg2 xss i xs2 [] b2" "drained w submits r2 [] ys1 xs2 []" by auto
  note both = drained_trans [OF l(3) q(3)]
  show ?case
  proof (cases "r1 @ r2 = []")
    case True
    then have "xs2 = []" using q(3) l(3) by (auto simp: drained_def)
    moreover have "drain_on_stop fuel k submits i trace rg = Inr (Some (trace @ [], rg2))" using l(1) q(1) True by (simp add: drain_on_stop.simps)
    ultimately show ?thesis using q(2) both True by fastforce
  next
    case False
    from drained_fuel [OF both False less.prems(4)] obtain f where f: "fuel = Suc f" and fw: "weigh w (xs2 @ []) \<le> f" by blast
    from less.IH [OF _ q(2) less.prems(2,3) fw, of "trace @ r1 @ r2"] f obtain run rg' b' where
      d: "drain_on_stop f k submits i (trace @ r1 @ r2) rg2 = Inr (Some ((trace @ r1 @ r2) @ run, rg'))" "drainable w rg' xss i [] [] b'" "drained w submits run xs2 [] [] []" by auto
    have "drain_on_stop fuel k submits i trace rg = Inr (Some (trace @ (r1 @ r2) @ run, rg'))" using l(1) q(1) d(1) False f by (auto simp: drain_on_stop.simps [of "Suc f"])
    with d(2) drained_trans [OF both d(3)] show ?thesis by blast
  qed
qed

text \<open>
  C35. A stopping worker ends, and leaves nothing behind. When every job leads to finitely many others (a job
  outweighs those it submits together), the drain of \<^verbatim>\<open>wait_until_out_of_work\<close> returns with the worker's own
  deque and the injector empty and the other deques as they were; it has run every job found there and
  every job those submitted while it ran, each exactly once.
\<close>

theorem stopping_worker_drains:
  assumes ok: "registry_ok rg xss ys b" and i: "i < length xss" and dec: "\<forall>job. weigh w (submits job) < w job"
    and fuel: "weigh w (xss ! i @ ys) \<le> fuel" and b: "weigh w (xss ! i @ ys) \<le> b"
  shows "\<exists>trace rg' b'. drain_on_stop fuel k submits i [] rg = Inr (Some (trace, rg')) \<and> registry_ok rg' (xss[i := []]) [] b' \<and>
     mset trace = mset (xss ! i @ ys) + mset (concat (map submits trace))"
proof -
  have "drainable w rg xss i (xss ! i) ys b" using ok b by (simp add: drainable_def)
  from drain_on_stop_runs [OF this i dec fuel, of k "[]"] show ?thesis by (auto simp: drainable_def drained_def)
qed

theorem stopping_worker_drains_witness:
  "\<exists>rg trace rg' b' :: nat. registry_ok rg [[2, 1], [4]] [3] 100 \<and>
     drain_on_stop 20 0 (\<lambda>n. if n = 0 then [] else [n - 1]) 0 [] rg = Inr (Some (trace, rg')) \<and> registry_ok rg' [[], [4]] [] b' \<and>
     mset trace = mset [2, 1, 3 :: nat] + mset (concat (map (\<lambda>n. if n = 0 then [] else [n - 1]) trace))"
proof -
  obtain rg :: "nat registry" where rg: "registry_ok rg [[2, 1], [4]] [3] 100" using registry_with_jobs [of "[[2, 1], [4]]" 100 "[3 :: nat]"] by auto
  from stopping_worker_drains [OF rg, of 0 "\<lambda>n. n + 1" "\<lambda>n. if n = 0 then [] else [n - 1]" 20 0] rg show ?thesis by auto
qed

end
