(* ===== verification/Registry_Life.thy ===== *)
theory Registry_Life
  imports Registry_Drain
begin

text \<open>The life of a registry: construction, also when a thread does not start, termination, drop, and the parking leases.\<close>

section \<open>Termination\<close>

lemma tickle_all_sets:
  assumes "\<forall>i \<in> set is. i < length (rg_terminate rg)" and "distinct is"
  shows "\<exists>rg'. tickle_all is rg = Inr rg' \<and> rg_terminate rg' = map (\<lambda>i. if i \<in> set is then SET else rg_terminate rg ! i) [0..<length (rg_terminate rg)] \<and>
     rg_notes rg' = rg_notes rg @ map WorkerLatchIsSet (filter (\<lambda>i. rg_terminate rg ! i = SLEEPING) is) \<and>
     rg_deques rg' = rg_deques rg \<and> rg_injected rg' = rg_injected rg \<and> rg_spawned rg' = rg_spawned rg \<and>
     rg_terminate_count rg' = rg_terminate_count rg \<and> rg_parking_slots rg' = rg_parking_slots rg"
  using assms
proof (induction "is" arbitrary: rg)
  case Nil
  then show ?case by (simp add: map_nth)
next
  case (Cons i "is")
  let ?l = "rg_terminate rg ! i"
  define rg1 where "rg1 = (let r = rg\<lparr>rg_terminate := (rg_terminate rg)[i := SET]\<rparr> in if ?l = SLEEPING then noted (WorkerLatchIsSet i) r else r)"
  have t: "set_and_tickle_one i rg = Inr rg1" using Cons.prems(1) by (simp add: set_and_tickle_one_def core_set_def index_res_def rg1_def Let_def)
  have f: "rg_terminate rg1 = (rg_terminate rg)[i := SET]" "rg_notes rg1 = rg_notes rg @ (if ?l = SLEEPING then [WorkerLatchIsSet i] else [])"
    "rg_deques rg1 = rg_deques rg" "rg_injected rg1 = rg_injected rg" "rg_spawned rg1 = rg_spawned rg" "rg_terminate_count rg1 = rg_terminate_count rg"
    "rg_parking_slots rg1 = rg_parking_slots rg" by (simp_all add: rg1_def Let_def)
  have eq: "filter (\<lambda>j. (rg_terminate rg)[i := SET] ! j = SLEEPING) is = filter (\<lambda>j. rg_terminate rg ! j = SLEEPING) is"
    by (rule filter_cong) (use Cons.prems in \<open>auto simp: nth_list_update\<close>)
  have "\<forall>j \<in> set is. j < length (rg_terminate rg1)" "distinct is" using Cons.prems f(1) by simp_all
  from Cons.IH [OF this] t f eq Cons.prems show ?case by (auto simp: nth_list_update)
qed

lemma terminate_last:
  assumes c: "rg_terminate_count rg = 1" and sp: "rg_spawned rg \<le> num_threads rg" and l: "length (rg_terminate rg) = num_threads rg"
  shows "\<exists>rg'. registry_terminate rg = Inr rg' \<and> rg_terminate rg' = replicate (rg_spawned rg) SET @ drop (rg_spawned rg) (rg_terminate rg) \<and>
     rg_notes rg' = rg_notes rg @ map WorkerLatchIsSet (filter (\<lambda>i. rg_terminate rg ! i = SLEEPING) [0..<rg_spawned rg]) \<and>
     rg_terminate_count rg' = 0 \<and> rg_spawned rg' = rg_spawned rg \<and> rg_deques rg' = rg_deques rg \<and> rg_injected rg' = rg_injected rg"
proof -
  let ?rg = "rg\<lparr>rg_terminate_count := 0\<rparr>"
  have w: "wrapping_sub_u64 1 1 = 0" by (simp add: wrapping_sub_u64_def u64_mod_def)
  from tickle_all_sets [of "[0..<rg_spawned rg]" ?rg] sp l obtain rg' where t: "tickle_all [0..<rg_spawned rg] ?rg = Inr rg'"
    "rg_terminate rg' = map (\<lambda>i. if i < rg_spawned rg then SET else rg_terminate rg ! i) [0..<num_threads rg]"
    "rg_notes rg' = rg_notes rg @ map WorkerLatchIsSet (filter (\<lambda>i. rg_terminate rg ! i = SLEEPING) [0..<rg_spawned rg])"
    "rg_terminate_count rg' = 0" "rg_spawned rg' = rg_spawned rg" "rg_deques rg' = rg_deques rg" "rg_injected rg' = rg_injected rg" by auto
  have "rg_terminate rg' = replicate (rg_spawned rg) SET @ drop (rg_spawned rg) (rg_terminate rg)"
    unfolding t(2) by (rule nth_equalityI) (use sp l in \<open>auto simp: nth_append\<close>)
  moreover have "registry_terminate rg = Inr rg'" using t(1) sp c w by (simp add: registry_terminate_def Let_def num_threads_def)
  ultimately show ?thesis using t by blast
qed

section \<open>Construction\<close>

lemma spawn_workers_runs:
  assumes "rg_spawned rg = j" and "length (rg_terminate rg) = n" and "k \<le> n" and "j \<le> k" and "\<forall>i. j \<le> i \<and> i < k \<longrightarrow> spawns i" and "k < n \<longrightarrow> \<not> spawns k"
  shows "spawn_workers spawns dozes [j..<n] rg =
     (let rg' = rg\<lparr>rg_spawned := k, rg_terminate := take j (rg_terminate rg) @ map dozes [j..<k] @ drop k (rg_terminate rg)\<rparr> in
      if k = n then Inr (None, rg') else bind_res (registry_terminate rg') (\<lambda>rg''. Inr (Some k, rg'')))"
  using assms
proof (induction "k - j" arbitrary: j rg)
  case 0
  then have j: "j = k" by simp
  then have same: "rg\<lparr>rg_spawned := k, rg_terminate := take j (rg_terminate rg) @ map dozes [j..<k] @ drop k (rg_terminate rg)\<rparr> = rg" using 0 by simp
  show ?case unfolding same Let_def using 0 j by (cases "k = n") (simp_all add: upt_conv_Cons)
next
  case (Suc d)
  let ?rg = "rg\<lparr>rg_spawned := j + 1, rg_terminate := (rg_terminate rg)[j := dozes j]\<rparr>"
  have j: "j < k" "j < n" using Suc by simp_all
  have "take (Suc j) ((rg_terminate rg)[j := dozes j]) = take j (rg_terminate rg) @ [dozes j]" using j Suc.prems(2) by (simp add: take_Suc_conv_app_nth)
  moreover have "drop k ((rg_terminate rg)[j := dozes j]) = drop k (rg_terminate rg)" using j by simp
  moreover have "map dozes [j..<k] = dozes j # map dozes [Suc j..<k]" using j by (simp add: upt_conv_Cons)
  moreover have "spawn_workers spawns dozes [j..<n] rg = spawn_workers spawns dozes [Suc j..<n] ?rg" using j Suc.prems(5) by (simp add: upt_conv_Cons)
  ultimately show ?case using Suc.hyps(1) [of "Suc j" ?rg] Suc.hyps(2) Suc.prems j by simp
qed

text \<open>
  C36. Construction and failed construction. With every thread started, \<^verbatim>\<open>Registry::new\<close> gives a registry
  with the requested number of workers (at least one, at most the bound of the sleep word), every deque
  and the injector empty, and one reference. When worker \<open>k\<close> does not start, exactly the \<open>k\<close> workers that
  did are told to stop, those asleep on their latch are woken, the latches of the others stay unset, and
  the drop that follows waits for exactly those \<open>k\<close> workers: it cannot hang on one that never existed.
\<close>

theorem registry_construction:
  assumes "n = min (max requested 1) THREADS_MAX" and "k \<le> n" and "\<forall>i < k. spawns i" and "k < n \<longrightarrow> \<not> spawns k"
  shows "\<exists>rg :: 'j registry. registry_new spawns dozes requested = Inr (if k = n then None else Some k, rg) \<and>
     registry_ok rg (replicate n []) [] (2 ^ 62 - 2) \<and> num_threads rg = n \<and> rg_spawned rg = k \<and> 1 \<le> n \<and> n \<le> THREADS_MAX \<and>
     (if k = n then rg_terminate_count rg = 1 \<and> rg_terminate rg = map dozes [0..<n] \<and> rg_notes rg = []
      else rg_terminate rg = replicate k SET @ replicate (n - k) UNSET \<and> rg_notes rg = map WorkerLatchIsSet (filter (\<lambda>i. dozes i = SLEEPING) [0..<k]) \<and>
        registry_drop rg = Inr ([0..<k], rg))"
proof -
  have n: "1 \<le> n" "n \<le> THREADS_MAX" using assms(1) by (auto simp: THREADS_MAX_def THREADS_BITS_def)
  from new_deques_hold [of n] obtain ds :: "'j lifo_queue list" where ds: "new_deques n = Inr ds" "deques_hold ds (replicate n 0) (replicate n [])" by blast
  define rg0 :: "'j registry" where "rg0 = \<lparr>rg_deques = ds, rg_spawned = 0, rg_injected = unbounded_new, rg_terminate_count = 1, rg_parking_slots = 0,
    rg_terminate = replicate n core_latch_new, rg_notes = []\<rparr>"
  define rg1 where "rg1 = rg0\<lparr>rg_spawned := k, rg_terminate := map dozes [0..<k] @ replicate (n - k) UNSET\<rparr>"
  have new: "registry_new spawns dozes requested = (if k = n then Inr (None, rg1) else bind_res (registry_terminate rg1) (\<lambda>rg'. Inr (Some k, rg')))"
    using spawn_workers_runs [of rg0 0 n k spawns dozes] assms ds(1) n
    by (simp add: registry_new_def sleep_new_def rg1_def rg0_def Let_def core_latch_new_def)
  have len: "length ds = n" using deques_hold_length [OF ds(2)] by simp
  have f: "rg_deques rg1 = ds" "rg_injected rg1 = unbounded_new" "rg_spawned rg1 = k" "rg_terminate_count rg1 = 1" "rg_notes rg1 = []"
    "rg_terminate rg1 = map dozes [0..<k] @ replicate (n - k) UNSET" by (simp_all add: rg1_def rg0_def)
  have ok: "registry_ok rg (replicate n []) [] (2 ^ 62 - 2)" if "rg_deques rg = ds" "rg_injected rg = unbounded_new" for rg :: "'j registry"
    using that ds(2) unbounded_new_holds by (simp add: registry_ok_def)
  show ?thesis
  proof (cases "k = n")
    case True
    with new n f ok [OF f(1,2)] len show ?thesis by (intro exI [of _ rg1]) (simp add: num_threads_def)
  next
    case False
    have sp: "rg_spawned rg1 \<le> num_threads rg1" "length (rg_terminate rg1) = num_threads rg1" using f assms(2) len by (simp_all add: num_threads_def)
    from terminate_last [OF f(4) sp] f obtain rg' where t: "registry_terminate rg1 = Inr rg'" "rg_terminate rg' = replicate k SET @ replicate (n - k) UNSET"
      "rg_notes rg' = map WorkerLatchIsSet (filter (\<lambda>i. (map dozes [0..<k] @ replicate (n - k) UNSET) ! i = SLEEPING) [0..<k])"
      "rg_terminate_count rg' = 0" "rg_spawned rg' = k" "rg_deques rg' = ds" "rg_injected rg' = unbounded_new" by auto
    have "filter (\<lambda>i. (map dozes [0..<k] @ replicate (n - k) UNSET) ! i = SLEEPING) [0..<k] = filter (\<lambda>i. dozes i = SLEEPING) [0..<k]"
      by (rule filter_cong) (simp_all add: nth_append)
    moreover have "registry_drop rg' = Inr ([0..<k], rg')" using t(4-6) assms(2) len by (simp add: registry_drop_def num_threads_def)
    ultimately show ?thesis using new n t False ok [OF t(6,7)] len by (intro exI [of _ rg']) (simp add: num_threads_def)
  qed
qed

theorem registry_construction_witness:
  "\<exists>rg :: nat registry. registry_new (\<lambda>i. i \<noteq> 2) (\<lambda>i. if i = 0 then SLEEPING else UNSET) 4 = Inr (Some 2, rg) \<and>
     rg_terminate rg = [SET, SET, UNSET, UNSET] \<and> rg_notes rg = [WorkerLatchIsSet 0] \<and> registry_drop rg = Inr ([0, 1], rg)"
proof -
  have "(4 :: nat) = min (max 4 1) THREADS_MAX" by (simp add: THREADS_MAX_def THREADS_BITS_def)
  from registry_construction [OF this, of 2 "\<lambda>i. i \<noteq> 2" "\<lambda>i. if i = 0 then SLEEPING else UNSET"] obtain rg :: "nat registry" where
    rg: "registry_new (\<lambda>i. i \<noteq> 2) (\<lambda>i. if i = 0 then SLEEPING else UNSET) 4 = Inr (Some 2, rg)" "rg_terminate rg = replicate 2 SET @ replicate 2 UNSET"
      "rg_notes rg = map WorkerLatchIsSet (filter (\<lambda>i. (if i = 0 then SLEEPING else UNSET) = SLEEPING) [0..<2])" "registry_drop rg = Inr ([0..<2], rg)" by auto
  moreover have "[0..<2] = [0, 1 :: nat]" "replicate 2 SET = [SET, SET]" "replicate 2 UNSET = [UNSET, UNSET]" by (simp_all add: numeral_2_eq_2)
  ultimately show ?thesis by (intro exI [of _ rg]) simp
qed

section \<open>References\<close>

text \<open>References taken (\<open>True\<close>) and released; each holder releases its own.\<close>

fun hold_run :: "bool list \<Rightarrow> 'j registry \<Rightarrow> 'j registry res" where
  "hold_run [] rg = Inr rg"
| "hold_run (c # cs) rg = bind_res (if c then increment_terminate_count rg else registry_terminate rg) (hold_run cs)"

fun holders :: "bool list \<Rightarrow> nat \<Rightarrow> nat option" where
  "holders [] n = Some n"
| "holders (c # cs) n = (if n = 0 then None else holders cs (if c then n + 1 else n - 1))"

lemma hold_run_counts:
  assumes "holders cs n = Some m" and "rg_terminate_count rg = n" and "n + length cs < u64_mod" and "rg_spawned rg \<le> num_threads rg" and "length (rg_terminate rg) = num_threads rg"
  shows "\<exists>rg'. hold_run cs rg = Inr rg' \<and> rg_terminate_count rg' = m \<and> rg_spawned rg' = rg_spawned rg \<and> num_threads rg' = num_threads rg \<and>
     rg_terminate rg' = (if m = 0 \<and> 0 < n then replicate (rg_spawned rg) SET @ drop (rg_spawned rg) (rg_terminate rg) else rg_terminate rg)"
  using assms
proof (induction cs arbitrary: n rg)
  case (Cons c cs)
  have n: "0 < n" and m: "holders cs (if c then n + 1 else n - 1) = Some m" using Cons.prems(1) by (auto split: if_splits)
  show ?case
  proof (cases "c \<or> n \<noteq> 1")
    case True
    define n' where "n' = (if c then n + 1 else n - 1)"
    have pos: "0 < n'" using True n by (auto simp: n'_def)
    have lt: "n < u64_mod" using Cons.prems(3) by simp
    have w: "wrapping_sub_u64 n 1 = n - 1" using lt n by simp
    have s: "(if c then increment_terminate_count rg else registry_terminate rg) = Inr (rg\<lparr>rg_terminate_count := n'\<rparr>)"
      using True n w Cons.prems(2,3) by (auto simp: increment_terminate_count_def registry_terminate_def n'_def Let_def)
    have "n' + length cs < u64_mod" using Cons.prems(3) by (auto simp: n'_def)
    with Cons.IH [of n' "rg\<lparr>rg_terminate_count := n'\<rparr>"] m s Cons.prems(4,5) n pos show ?thesis by (auto simp: n'_def num_threads_def)
  next
    case False
    with m have last: "cs = []" "m = 0" by (cases cs; simp)+
    from terminate_last [OF _ Cons.prems(4,5)] Cons.prems(2) False last show ?thesis by (auto simp: num_threads_def)
  qed
qed auto

text \<open>
  The pool stops with its last reference and not before. For any sequence of references taken and
  released, in which nobody uses the registry after the count has reached zero, the count is the number
  of holders and never wraps; the terminate latches are untouched while somebody holds a reference, and
  once nobody does the latch of every spawned worker is set.
\<close>

theorem registry_terminates_with_last_reference:
  assumes "holders cs 1 = Some m" and "length cs + 1 < u64_mod" and "rg_terminate_count rg = 1"
    and "rg_spawned rg \<le> num_threads rg" and "length (rg_terminate rg) = num_threads rg"
  shows "\<exists>rg'. hold_run cs rg = Inr rg' \<and> rg_terminate_count rg' = m \<and>
     rg_terminate rg' = (if 0 < m then rg_terminate rg else replicate (rg_spawned rg) SET @ drop (rg_spawned rg) (rg_terminate rg))"
  using hold_run_counts [OF assms(1,3) _ assms(4,5)] assms(2) by fastforce

theorem registry_terminates_with_last_reference_witness:
  "\<exists>d (rg' :: nat registry). lifo_holds d 256 0 [] \<and> hold_run [True, False, False]
     \<lparr>rg_deques = [d, d], rg_spawned = 2, rg_injected = unbounded_new, rg_terminate_count = 1, rg_parking_slots = 0, rg_terminate = [SLEEPING, UNSET], rg_notes = []\<rparr>
       = Inr rg' \<and> rg_terminate_count rg' = 0 \<and> rg_terminate rg' = [SET, SET]"
proof -
  obtain d :: "nat lifo_queue" where d: "lifo_holds d 256 0 []" using deque_with [of "[]"] by auto
  let ?rg = "\<lparr>rg_deques = [d, d], rg_spawned = 2, rg_injected = unbounded_new, rg_terminate_count = 1, rg_parking_slots = 0, rg_terminate = [SLEEPING, UNSET], rg_notes = []\<rparr>"
  have n: "num_threads ?rg = 2" by (simp add: num_threads_def)
  have "\<exists>rg'. hold_run [True, False, False] ?rg = Inr rg' \<and> rg_terminate_count rg' = 0 \<and>
      rg_terminate rg' = (if 0 < (0 :: nat) then rg_terminate ?rg else replicate (rg_spawned ?rg) SET @ drop (rg_spawned ?rg) (rg_terminate ?rg))"
    by (rule registry_terminates_with_last_reference) (unfold n, simp_all add: u64_mod_def)
  with d show ?thesis by (auto simp: numeral_2_eq_2 simp del: hold_run.simps)
qed

section \<open>Parking leases\<close>

lemma try_reserve_parking_once:
  assumes "rg_parking_slots rg + n < u64_mod"
  shows "try_reserve_parking [] n rg = Inr (rg_parking_slots rg + n \<le> num_threads rg,
     if rg_parking_slots rg + n \<le> num_threads rg then rg\<lparr>rg_parking_slots := rg_parking_slots rg + n\<rparr> else rg)"
  using assms by (auto simp: try_reserve_parking.simps add_u64_def)

text \<open>An attempt that another thread forestalls changes nothing: the call is its last attempt.\<close>

lemma try_reserve_parking_retries:
  assumes "\<forall>s \<in> set (rg_parking_slots rg # seen). s + n < u64_mod"
  shows "\<exists>s \<in> set (rg_parking_slots rg # seen). try_reserve_parking seen n rg = try_reserve_parking [] n (rg\<lparr>rg_parking_slots := s\<rparr>)"
  using assms
proof (induction seen arbitrary: rg)
  case (Cons s seen)
  show ?case
  proof (cases "rg_parking_slots rg + n \<le> num_threads rg")
    case True
    then have "try_reserve_parking (s # seen) n rg = try_reserve_parking seen n (rg\<lparr>rg_parking_slots := s\<rparr>)"
      using Cons.prems by (simp add: try_reserve_parking.simps [of "s # seen"] add_u64_def)
    with Cons.IH [of "rg\<lparr>rg_parking_slots := s\<rparr>"] Cons.prems show ?thesis by auto
  next
    case False
    then show ?thesis using Cons.prems by (intro bexI [of _ "rg_parking_slots rg"]) (simp_all add: try_reserve_parking.simps add_u64_def)
  qed
qed simp

datatype lease_cmd = Reserve nat | Release nat nat

text \<open>The leases of the runs so far, one entry each; a run returns only what it holds.\<close>

fun lease_run :: "lease_cmd list \<Rightarrow> nat list \<Rightarrow> 'j registry \<Rightarrow> (nat list \<times> 'j registry) res" where
  "lease_run [] leases rg = Inr (leases, rg)"
| "lease_run (Reserve n # cs) leases rg =
     bind_res (try_reserve_parking [] n rg) (\<lambda>(ok, rg'). lease_run cs (if ok then leases @ [n] else leases) rg')"
| "lease_run (Release j m # cs) leases rg =
     (if j < length leases \<and> m \<le> leases ! j then lease_run cs (leases[j := leases ! j - m]) (release_parking m rg) else lease_run cs leases rg)"

lemma lease_run_exact:
  assumes "rg_parking_slots rg = sum_list leases" and "sum_list leases \<le> num_threads rg" and "\<forall>n. Reserve n \<in> set cs \<longrightarrow> num_threads rg + n < u64_mod"
    and "num_threads rg < u64_mod"
  shows "\<exists>ls. lease_run cs leases rg = Inr (ls, rg\<lparr>rg_parking_slots := sum_list ls\<rparr>) \<and> sum_list ls \<le> num_threads rg"
  using assms
proof (induction cs arbitrary: leases rg)
  case Nil
  then show ?case by (intro exI [of _ leases]) auto
next
  case (Cons c cs)
  show ?case
  proof (cases c)
    case (Reserve n)
    then have "rg_parking_slots rg + n < u64_mod" using Cons.prems by force
    from try_reserve_parking_once [OF this] Reserve Cons.IH [of rg leases]
      Cons.IH [of "rg\<lparr>rg_parking_slots := rg_parking_slots rg + n\<rparr>" "leases @ [n]"] Cons.prems show ?thesis by (auto simp: num_threads_def)
  next
    case (Release j m)
    show ?thesis
    proof (cases "j < length leases \<and> m \<le> leases ! j")
      case True
      then have le: "leases ! j \<le> sum_list leases" by (simp add: elem_le_sum_list)
      then have s: "sum_list (leases[j := leases ! j - m]) = sum_list leases - m" using True by (simp add: sum_list_update)
      have "release_parking m rg = rg\<lparr>rg_parking_slots := sum_list leases - m\<rparr>" using True le Cons.prems by (auto simp: release_parking_def)
      with Cons.IH [of "rg\<lparr>rg_parking_slots := sum_list leases - m\<rparr>" "leases[j := leases ! j - m]"] s True Release Cons.prems show ?thesis by (auto simp: num_threads_def)
    qed (use Release Cons in auto)
  qed
qed

text \<open>
  C37. Parking slots are never oversubscribed. Over any sequence of leases and returns of the streaming
  runs, each run returning at most what it holds, the counter is the sum of what is held and stays
  within the number of workers; a lease is granted in full exactly when it fits and otherwise changes
  nothing, also when other threads forestall any number of attempts.
\<close>

theorem parking_leases_exact:
  assumes "rg_parking_slots rg = 0" and "\<forall>n. Reserve n \<in> set cs \<longrightarrow> num_threads rg + n < u64_mod" and "num_threads rg + n < u64_mod"
    and "\<forall>s \<in> set seen. s \<le> num_threads rg"
  shows "\<exists>ls rg' s. lease_run cs [] rg = Inr (ls, rg') \<and> rg_parking_slots rg' = sum_list ls \<and> sum_list ls \<le> num_threads rg \<and> rg_deques rg' = rg_deques rg \<and>
     s \<in> set (sum_list ls # seen) \<and> try_reserve_parking seen n rg' = Inr (s + n \<le> num_threads rg, rg'\<lparr>rg_parking_slots := if s + n \<le> num_threads rg then s + n else s\<rparr>)"
proof -
  from lease_run_exact [of rg "[]" cs] assms obtain ls where l: "lease_run cs [] rg = Inr (ls, rg\<lparr>rg_parking_slots := sum_list ls\<rparr>)" "sum_list ls \<le> num_threads rg" by auto
  let ?rg = "rg\<lparr>rg_parking_slots := sum_list ls\<rparr>"
  have b: "\<forall>s \<in> set (rg_parking_slots ?rg # seen). s + n < u64_mod" using l(2) assms(3,4) by auto
  from try_reserve_parking_retries [OF b] obtain s where s: "s \<in> set (sum_list ls # seen)"
    "try_reserve_parking seen n ?rg = try_reserve_parking [] n (rg\<lparr>rg_parking_slots := s\<rparr>)" by auto
  have "rg_parking_slots (rg\<lparr>rg_parking_slots := s\<rparr>) + n < u64_mod" using b s(1) by auto
  from try_reserve_parking_once [OF this] s l show ?thesis by (intro exI [of _ ls] exI [of _ ?rg] exI [of _ s]) (auto simp: num_threads_def)
qed

theorem parking_leases_exact_witness:
  "\<exists>d ls rg' s. lifo_holds d 256 0 [] \<and> lease_run [Reserve 2, Reserve 2, Release 0 1] []
     \<lparr>rg_deques = [d, d, d], rg_spawned = 3, rg_injected = unbounded_new, rg_terminate_count = 1, rg_parking_slots = 0, rg_terminate = [], rg_notes = []\<rparr>
       = Inr (ls, rg' :: nat registry) \<and> rg_parking_slots rg' = sum_list ls \<and> sum_list ls \<le> 3 \<and> s \<in> set (sum_list ls # [2, 0]) \<and>
     try_reserve_parking [2, 0] 1 rg' = Inr (s + 1 \<le> 3, rg'\<lparr>rg_parking_slots := if s + 1 \<le> 3 then s + 1 else s\<rparr>)"
proof -
  obtain d :: "nat lifo_queue" where d: "lifo_holds d 256 0 []" using deque_with [of "[]"] by auto
  let ?rg = "\<lparr>rg_deques = [d, d, d], rg_spawned = 3, rg_injected = unbounded_new, rg_terminate_count = 1, rg_parking_slots = 0, rg_terminate = [], rg_notes = []\<rparr>"
  have n: "num_threads ?rg = 3" by (simp add: num_threads_def)
  from parking_leases_exact [of ?rg "[Reserve 2, Reserve 2, Release 0 1]" 1 "[2, 0]", unfolded n] d show ?thesis by (force simp: u64_mod_def simp del: lease_run.simps)
qed

section \<open>Submitting a batch\<close>

lemma inject_batch_stores:
  assumes ok: "registry_ok rg xss ys b" and b: "length jobs \<le> b"
  shows "\<exists>rg'. inject_batch sz casfails jobs rg = Inr rg' \<and> registry_ok rg' xss (ys @ jobs) (b - length jobs) \<and>
     rg_notes rg' = rg_notes rg @ (if jobs = [] then [] else [NewInjectedJobs (length jobs mod 2 ^ 32) (ys = [])])"
proof -
  note r = registry_ok_facts(3) [OF ok]
  from uq_push_n_law [OF r b refl, where len = "length jobs" and sz = sz and casfails = casfails] obtain q where q: "upush_n sz casfails (length jobs) jobs (rg_injected rg) = Inr (length jobs, [], q)"
    "uq_holds q False (b - length jobs) (ys @ jobs)" by auto
  with uq_empty_law [OF r] registry_ok_injected [OF ok q(2)] show ?thesis by (cases jobs) (simp_all add: inject_batch_def Let_def)
qed

text \<open>
  C34. A submitted batch is stored whole. From a worker the batch goes to its own deque as far as there
  is room and the rest to the injector, in order, with one notification for what went to the deque, whose
  count is not truncated, and one per spilt job (the comments of the source speak of one notification for
  the whole batch); from outside all of it goes to the injector with at most
  one notification. No job is lost, the other deques are untouched, and nothing faults.
\<close>

theorem batch_submission_stores:
  assumes ok: "registry_ok rg xss ys b" and b: "length jobs \<le> b" and cur: "\<forall>i. current = Some i \<longrightarrow> i < length xss"
  shows "\<exists>rg'. push_local_batch k sz casfails current jobs rg = Inr rg' \<and>
     (case current of
        None \<Rightarrow> registry_ok rg' xss (ys @ jobs) (b - length jobs) \<and>
          rg_notes rg' = rg_notes rg @ (if jobs = [] then [] else [NewInjectedJobs (length jobs mod 2 ^ 32) (ys = [])])
      | Some i \<Rightarrow> let f = 256 - length (xss ! i) in
          registry_ok rg' (xss[i := xss ! i @ take f jobs]) (ys @ drop f jobs) (b - length jobs) \<and>
          rg_notes rg' = rg_notes rg @ map (\<lambda>n. NewInjectedJobs 1 (ys = [] \<and> n = 0)) [0..<length jobs - f] @
            (if 0 < min f (length jobs) then [NewInternalJobs (min f (length jobs)) (xss ! i = [])] else []))"
proof (cases current)
  case None
  with inject_batch_stores [OF ok b, of sz casfails] show ?thesis by (simp add: push_local_batch_def)
next
  case (Some i)
  then have i: "i < length xss" using cur by simp
  from push_batch_stores [OF ok i b refl, of k] show ?thesis unfolding Some push_local_batch_def option.case Let_def deque_room_def .
qed

theorem batch_submission_stores_witness:
  "\<exists>rg rg' :: nat registry. registry_ok rg [[], replicate 255 5] [] 9 \<and> push_local_batch 0 8 [] (Some 1) [1, 2, 3] rg = Inr rg' \<and>
     registry_ok rg' [[], replicate 255 5 @ [1]] [2, 3] 6 \<and>
     rg_notes rg' = rg_notes rg @ [NewInjectedJobs 1 True, NewInjectedJobs 1 False, NewInternalJobs 1 False]"
proof -
  obtain rg :: "nat registry" where rg: "registry_ok rg [[], replicate 255 5] [] 9" using registry_with_jobs [of "[[], replicate 255 5]" 9 "[]"] by auto
  have e: "(replicate 255 (5 :: nat) = []) \<longleftrightarrow> False" "[0..<2 :: nat] = [0, 1]" by (simp_all add: numeral_2_eq_2)
  from batch_submission_stores [OF rg, of "[1, 2, 3]" "Some 1" 0 8 "[]"] rg e show ?thesis by (auto simp: Let_def)
qed

end
