(* ===== verification/Latch_Count.thy ===== *)
theory Latch_Count
  imports Latch
begin

text \<open>
  The latches built on the core latch or on a mutex and a condition variable: \<^verbatim>\<open>SpinLatch\<close>, \<^verbatim>\<open>LockLatch\<close> and
  \<^verbatim>\<open>CountLatch\<close>, and the race of a waiter with the setters of a blocking count latch, one memory access
  at a time. The waiter frees the latch as soon as its wait returns.
\<close>

section \<open>One operation at a time\<close>

text \<open>\<open>Some i\<close>: worker \<open>i\<close> is told that its latch is set.\<close>

definition spin_latch_set :: "nat \<Rightarrow> latch_state \<Rightarrow> nat option \<times> latch_state" where
  "spin_latch_set target l = (let (was_sleeping, l') = core_set l in (if was_sleeping then Some target else None, l'))"

definition lock_latch_new :: bool where
  "lock_latch_new = False"

definition lock_latch_set :: "bool \<Rightarrow> bool" where
  "lock_latch_set m = True"

text \<open>What a wait leaves, once the flag is set; a wait on an unset flag parks.\<close>

definition wait_and_reset :: "bool \<Rightarrow> bool option" where
  "wait_and_reset m = (if m then Some False else None)"

datatype count_latch_kind = Stealing latch_state nat | Blocking bool

record count_latch =
  cl_counter :: nat
  cl_kind :: count_latch_kind

definition with_count :: "nat \<Rightarrow> nat option \<Rightarrow> count_latch" where
  "with_count n owner = \<lparr>cl_counter = n,
     cl_kind = (case owner of Some worker_index \<Rightarrow> Stealing core_latch_new worker_index | None \<Rightarrow> Blocking lock_latch_new)\<rparr>"

definition count_latch_set :: "count_latch \<Rightarrow> nat option \<times> count_latch" where
  "count_latch_set cl =
     (let cl' = cl\<lparr>cl_counter := wrapping_sub_u64 (cl_counter cl) 1\<rparr> in
      if cl_counter cl = 1 then
        case cl_kind cl of
          Stealing latch worker_index \<Rightarrow> let (note', l') = spin_latch_set worker_index latch in (note', cl'\<lparr>cl_kind := Stealing l' worker_index\<rparr>)
        | Blocking m \<Rightarrow> (None, cl'\<lparr>cl_kind := Blocking (lock_latch_set m)\<rparr>)
      else (None, cl'))"

definition OFF_POOL_SPIN_ITERS :: nat where
  "OFF_POOL_SPIN_ITERS = 4096"

section \<open>The race on a blocking latch\<close>

text \<open>
  A setter decrements the counter; the one that brings it to zero locks the mutex, raises the flag,
  notifies and unlocks. Set 0 is the one the waiter runs itself for a reserve chunk (\<^verbatim>\<open>wait_spin_assist\<close>).
\<close>

datatype set_pc = AtCounter | AtLock | AtFlag | AtNotify | AtUnlock | SetDone

datatype wait_pc = Spinning nat nat | Assisting nat | WaitLock | WaitCheck | Asleep | WaitUnlock | Returned | Gone

datatype lock_holder = BySetter nat | ByWaiter

record latch_world =
  lw_counter :: nat
  lw_flag :: bool
  lw_owner :: "lock_holder option"
  lw_sets :: "set_pc list"
  lw_waiter :: wait_pc
  lw_fault :: bool

text \<open>An access to the latch after the waiter has freed it is a fault.\<close>

definition touch :: "latch_world \<Rightarrow> latch_world" where
  "touch w = (if lw_waiter w = Gone then w\<lparr>lw_fault := True\<rparr> else w)"

definition set_step :: "nat \<Rightarrow> latch_world \<Rightarrow> latch_world option" where
  "set_step i w =
     (let w' = touch w; goto = (\<lambda>pc w. w\<lparr>lw_sets := (lw_sets w)[i := pc]\<rparr>) in
      case lw_sets w ! i of
        AtCounter \<Rightarrow> Some (goto (if lw_counter w = 1 then AtLock else SetDone) (w'\<lparr>lw_counter := wrapping_sub_u64 (lw_counter w) 1\<rparr>))
      | AtLock \<Rightarrow> if lw_owner w = None then Some (goto AtFlag (w'\<lparr>lw_owner := Some (BySetter i)\<rparr>)) else None
      | AtFlag \<Rightarrow> Some (goto AtNotify (w'\<lparr>lw_flag := lock_latch_set (lw_flag w)\<rparr>))
      | AtNotify \<Rightarrow> Some (goto AtUnlock (w'\<lparr>lw_waiter := if lw_waiter w = Asleep then WaitLock else lw_waiter w\<rparr>))
      | AtUnlock \<Rightarrow> Some (goto SetDone (w'\<lparr>lw_owner := None\<rparr>))
      | SetDone \<Rightarrow> None)"

definition wait_step :: "latch_world \<Rightarrow> latch_world option" where
  "wait_step w =
     (case lw_waiter w of
        Spinning (Suc r) s \<Rightarrow> Some (w\<lparr>lw_sets := (lw_sets w)[0 := AtCounter], lw_waiter := Assisting r\<rparr>)
      | Spinning 0 s \<Rightarrow> Some (w\<lparr>lw_waiter := if lw_counter w = 0 \<or> s = 0 then WaitLock else Spinning 0 (s - 1)\<rparr>)
      | Assisting r \<Rightarrow>
          if lw_sets w ! 0 = SetDone then Some (w\<lparr>lw_waiter := if lw_counter w = 0 then WaitLock else Spinning r OFF_POOL_SPIN_ITERS\<rparr>) else None
      | WaitLock \<Rightarrow> if lw_owner w = None then Some (w\<lparr>lw_owner := Some ByWaiter, lw_waiter := WaitCheck\<rparr>) else None
      | WaitCheck \<Rightarrow> if lw_flag w then Some (w\<lparr>lw_waiter := WaitUnlock\<rparr>) else Some (w\<lparr>lw_owner := None, lw_waiter := Asleep\<rparr>)
      | Asleep \<Rightarrow> None
      | WaitUnlock \<Rightarrow> Some (w\<lparr>lw_owner := None, lw_waiter := Returned\<rparr>)
      | Returned \<Rightarrow> Some (w\<lparr>lw_waiter := Gone\<rparr>)
      | Gone \<Rightarrow> None)"

inductive latch_step :: "latch_world \<Rightarrow> latch_world \<Rightarrow> bool" where
  latch_step_set: "i < length (lw_sets w) \<Longrightarrow> set_step i w = Some w' \<Longrightarrow> latch_step w w'"
| latch_step_wait: "wait_step w = Some w' \<Longrightarrow> latch_step w w'"

text \<open>The condition variable may also wake its waiter for no reason.\<close>

inductive latch_world_step :: "latch_world \<Rightarrow> latch_world \<Rightarrow> bool" where
  world_step: "latch_step w w' \<Longrightarrow> latch_world_step w w'"
| world_spurious: "lw_waiter w = Asleep \<Longrightarrow> latch_world_step w (w\<lparr>lw_waiter := WaitLock\<rparr>)"

inductive_cases latch_stepE: "latch_step w w'"

inductive_cases latch_world_stepE: "latch_world_step w w'"

text \<open>\<open>n\<close> setters, and a waiter with \<open>r\<close> reserve chunks of its own.\<close>

definition latch_start :: "nat \<Rightarrow> nat \<Rightarrow> nat \<Rightarrow> latch_world" where
  "latch_start n r spins = \<lparr>lw_counter = cl_counter (with_count (n + r) None), lw_flag = lock_latch_new, lw_owner = None,
     lw_sets = SetDone # replicate n AtCounter, lw_waiter = Spinning r spins, lw_fault = False\<rparr>"

text \<open>A set that nobody interferes with does what \<open>count_latch_set\<close> does in one go.\<close>

lemma set_alone:
  assumes i: "i < length (lw_sets w)" and at: "lw_sets w ! i = AtCounter" and own: "lw_owner w = None" and live: "lw_waiter w \<notin> {Asleep, Gone}"
  shows "\<exists>w'. latch_step\<^sup>*\<^sup>* w w' \<and> lw_sets w' = (lw_sets w)[i := SetDone] \<and> lw_owner w' = None \<and> lw_waiter w' = lw_waiter w \<and>
     count_latch_set \<lparr>cl_counter = lw_counter w, cl_kind = Blocking (lw_flag w)\<rparr> = (None, \<lparr>cl_counter = lw_counter w', cl_kind = Blocking (lw_flag w')\<rparr>)"
proof (cases "lw_counter w = 1")
  case False
  let ?w = "w\<lparr>lw_counter := wrapping_sub_u64 (lw_counter w) 1, lw_sets := (lw_sets w)[i := SetDone]\<rparr>"
  have "latch_step w ?w" by (rule latch_step_set [OF i]) (use at False live in \<open>simp add: set_step_def touch_def\<close>)
  with False own show ?thesis by (intro exI [of _ ?w]) (simp add: count_latch_set_def r_into_rtranclp)
next
  case True
  define at_pc where "at_pc pc c ow f = w\<lparr>lw_counter := c, lw_owner := ow, lw_flag := f, lw_sets := (lw_sets w)[i := pc]\<rparr>" for pc c ow f
  let ?c = "wrapping_sub_u64 1 1"
  have "latch_step w (at_pc AtLock ?c None (lw_flag w))"
    by (rule latch_step_set [OF i]) (use at True live own in \<open>simp add: set_step_def touch_def at_pc_def\<close>)
  moreover have "latch_step (at_pc AtLock ?c None (lw_flag w)) (at_pc AtFlag ?c (Some (BySetter i)) (lw_flag w))"
    "latch_step (at_pc AtFlag ?c (Some (BySetter i)) (lw_flag w)) (at_pc AtNotify ?c (Some (BySetter i)) True)"
    "latch_step (at_pc AtNotify ?c (Some (BySetter i)) True) (at_pc AtUnlock ?c (Some (BySetter i)) True)"
    "latch_step (at_pc AtUnlock ?c (Some (BySetter i)) True) (at_pc SetDone ?c None True)"
    by (rule latch_step_set [of i], use i live in \<open>simp_all add: set_step_def touch_def at_pc_def lock_latch_set_def\<close>)+
  ultimately have "latch_step\<^sup>*\<^sup>* w (at_pc SetDone ?c None True)" by (blast intro: converse_rtranclp_into_rtranclp)
  then show ?thesis using True by (intro exI [of _ "at_pc SetDone ?c None True"]) (simp add: at_pc_def count_latch_set_def lock_latch_set_def)
qed

section \<open>The invariant\<close>

fun reserve :: "wait_pc \<Rightarrow> nat" where
  "reserve (Spinning r _) = r"
| "reserve (Assisting r) = r"
| "reserve _ = 0"

definition pending :: "set_pc list \<Rightarrow> nat" where
  "pending pcs = length (filter (\<lambda>pc. pc = AtCounter) pcs)"

text \<open>\<open>l\<close> is the setter that brought the counter to zero, if that has happened.\<close>

definition last_ok :: "nat option \<Rightarrow> latch_world \<Rightarrow> bool" where
  "last_ok l w \<longleftrightarrow>
     (case l of
        None \<Rightarrow> 0 < lw_counter w \<and> \<not> lw_flag w \<and> (\<forall>j < length (lw_sets w). lw_sets w ! j \<in> {AtCounter, SetDone})
      | Some i \<Rightarrow> lw_counter w = 0 \<and> i < length (lw_sets w) \<and> (\<forall>j < length (lw_sets w). j \<noteq> i \<longrightarrow> lw_sets w ! j = SetDone) \<and>
          lw_sets w ! i \<noteq> AtCounter \<and> (lw_flag w \<longleftrightarrow> lw_sets w ! i \<in> {AtNotify, AtUnlock, SetDone}))"

definition latch_inv :: "latch_world \<Rightarrow> bool" where
  "latch_inv w \<longleftrightarrow> lw_counter w = pending (lw_sets w) + reserve (lw_waiter w) \<and> lw_counter w < u64_mod \<and> 0 < length (lw_sets w) \<and> \<not> lw_fault w \<and>
     (\<exists>l. last_ok l w) \<and>
     (\<forall>j. lw_owner w = Some (BySetter j) \<longleftrightarrow> j < length (lw_sets w) \<and> lw_sets w ! j \<in> {AtFlag, AtNotify, AtUnlock}) \<and>
     (lw_owner w = Some ByWaiter \<longleftrightarrow> lw_waiter w \<in> {WaitCheck, WaitUnlock}) \<and>
     (lw_sets w ! 0 \<noteq> SetDone \<longrightarrow> (\<exists>r. lw_waiter w = Assisting r)) \<and>
     (lw_waiter w \<in> {WaitUnlock, Returned, Gone} \<longrightarrow> lw_flag w \<and> (\<forall>j < length (lw_sets w). lw_sets w ! j = SetDone)) \<and>
     (lw_waiter w = Asleep \<and> lw_flag w \<longrightarrow> (\<exists>j < length (lw_sets w). lw_sets w ! j = AtNotify))"

lemma latch_invD:
  assumes "latch_inv w"
  shows "lw_counter w = pending (lw_sets w) + reserve (lw_waiter w)" and "lw_counter w < u64_mod" and "0 < length (lw_sets w)" and "\<not> lw_fault w"
    and "lw_owner w = Some (BySetter j) \<longleftrightarrow> j < length (lw_sets w) \<and> lw_sets w ! j \<in> {AtFlag, AtNotify, AtUnlock}"
    and "lw_owner w = Some ByWaiter \<longleftrightarrow> lw_waiter w \<in> {WaitCheck, WaitUnlock}"
    and "lw_sets w ! 0 \<noteq> SetDone \<Longrightarrow> \<exists>r. lw_waiter w = Assisting r"
    and "lw_waiter w \<in> {WaitUnlock, Returned, Gone} \<Longrightarrow> lw_flag w" and "lw_waiter w \<in> {WaitUnlock, Returned, Gone} \<Longrightarrow> j < length (lw_sets w) \<Longrightarrow> lw_sets w ! j = SetDone"
    and "lw_waiter w = Asleep \<Longrightarrow> lw_flag w \<Longrightarrow> \<exists>j < length (lw_sets w). lw_sets w ! j = AtNotify"
  using assms unfolding latch_inv_def by blast+

lemma latch_invI:
  assumes "lw_counter w = pending (lw_sets w) + reserve (lw_waiter w)" and "lw_counter w < u64_mod" and "0 < length (lw_sets w)" and "\<not> lw_fault w" and "last_ok l w"
    and "\<And>j. lw_owner w = Some (BySetter j) \<longleftrightarrow> j < length (lw_sets w) \<and> lw_sets w ! j \<in> {AtFlag, AtNotify, AtUnlock}"
    and "lw_owner w = Some ByWaiter \<longleftrightarrow> lw_waiter w \<in> {WaitCheck, WaitUnlock}"
    and "lw_sets w ! 0 \<noteq> SetDone \<Longrightarrow> \<exists>r. lw_waiter w = Assisting r"
    and "lw_waiter w \<in> {WaitUnlock, Returned, Gone} \<Longrightarrow> lw_flag w" and "\<And>j. lw_waiter w \<in> {WaitUnlock, Returned, Gone} \<Longrightarrow> j < length (lw_sets w) \<Longrightarrow> lw_sets w ! j = SetDone"
    and "lw_waiter w = Asleep \<Longrightarrow> lw_flag w \<Longrightarrow> \<exists>j < length (lw_sets w). lw_sets w ! j = AtNotify"
  shows "latch_inv w"
  using assms unfolding latch_inv_def by blast

lemma pending_update:
  assumes "i < length pcs"
  shows "pending (pcs[i := pc]) + (if pcs ! i = AtCounter then 1 else 0) = pending pcs + (if pc = AtCounter then 1 else 0)"
  using assms
proof (induction pcs arbitrary: i)
  case (Cons a pcs)
  show ?case
  proof (cases i)
    case (Suc j)
    with Cons.IH [of j] Cons.prems show ?thesis by (cases "pc = AtCounter"; cases "pcs ! j = AtCounter") (simp_all add: pending_def)
  qed (simp add: pending_def)
qed simp

lemma pending_pos: "i < length pcs \<Longrightarrow> pcs ! i = AtCounter \<Longrightarrow> 0 < pending pcs"
  using nth_mem [of i pcs] by (auto simp: pending_def filter_empty_conv)

lemma pending_zero: "pending pcs = 0 \<longleftrightarrow> (\<forall>j < length pcs. pcs ! j \<noteq> AtCounter)"
  by (auto simp: pending_def filter_empty_conv all_set_conv_all_nth)

lemma pending_none: "\<forall>j < length pcs. pcs ! j \<in> {AtCounter, SetDone} \<Longrightarrow> pending pcs = 0 \<Longrightarrow> j < length pcs \<Longrightarrow> pcs ! j = SetDone"
  by (auto simp: pending_zero)

lemma latch_start_inv: "0 < n + r \<Longrightarrow> n + r < u64_mod \<Longrightarrow> latch_inv (latch_start n r spins)"
  by (auto simp: latch_inv_def latch_start_def with_count_def lock_latch_new_def pending_def last_ok_def nth_Cons split: nat.splits intro!: exI [of _ None])

text \<open>While a set is under way the waiter has not freed the latch.\<close>

lemma latch_inv_live: "latch_inv w \<Longrightarrow> i < length (lw_sets w) \<Longrightarrow> lw_sets w ! i \<noteq> SetDone \<Longrightarrow> touch w = w"
  by (auto simp: latch_inv_def touch_def)

lemma last_is: "last_ok l w \<Longrightarrow> i < length (lw_sets w) \<Longrightarrow> lw_sets w ! i \<notin> {AtCounter, SetDone} \<Longrightarrow> l = Some i"
  by (cases l) (auto simp: last_ok_def)

lemma set_step_inv:
  assumes inv: "latch_inv w" and i: "i < length (lw_sets w)" and step: "set_step i w = Some w'"
  shows "latch_inv w'"
proof -
  obtain l where l: "last_ok l w" using inv by (auto simp: latch_inv_def)
  have ne: "lw_sets w ! i \<noteq> SetDone" using step by (auto simp: set_step_def Let_def)
  then have live: "touch w = w" by (rule latch_inv_live [OF inv i])
  note defs = set_step_def live Let_def and D = latch_invD [OF inv] and P = pending_update [OF i]
  have nw: "lw_waiter w \<notin> {WaitUnlock, Returned, Gone}" using D(9) [OF _ i] ne by blast
  have own: "lw_owner w = Some ByWaiter \<longleftrightarrow> lw_waiter w = WaitCheck" using D(6) nw by auto
  have zero: "(lw_sets w)[i := pc] ! 0 \<noteq> SetDone \<Longrightarrow> \<exists>r. lw_waiter w = Assisting r" for pc using D(7) ne by (cases "i = 0") auto
  show ?thesis
  proof (cases "lw_sets w ! i")
    case AtCounter
    have pos: "0 < lw_counter w" using D(1) pending_pos [OF i AtCounter] by simp
    then have none: "l = None" using l by (cases l) (auto simp: last_ok_def)
    have sub: "wrapping_sub_u64 (lw_counter w) 1 = lw_counter w - 1" using D(2) pos by simp
    have nf: "\<not> lw_flag w" and all: "\<And>j. j < length (lw_sets w) \<Longrightarrow> lw_sets w ! j \<in> {AtCounter, SetDone}" using l none by (simp_all add: last_ok_def)
    define pc where "pc = (if lw_counter w = 1 then AtLock else SetDone)"
    define pcs where "pcs = (lw_sets w)[i := pc]"
    have pcn: "pc \<noteq> AtCounter" by (simp add: pc_def)
    have nth: "pcs ! j = (if j = i then pc else lw_sets w ! j)" for j using i by (simp add: pcs_def nth_list_update)
    have w': "w' = w\<lparr>lw_counter := lw_counter w - 1, lw_sets := pcs\<rparr>" using step AtCounter sub by (simp add: defs pc_def pcs_def)
    have p: "lw_counter w - 1 = pending pcs + reserve (lw_waiter w)" using P [of pc] D(1) AtCounter pcn by (simp add: pcs_def)
    have len: "length pcs = length (lw_sets w)" by (simp add: pcs_def)
    have "lw_sets w ! j = SetDone" if "lw_counter w = 1" "j < length (lw_sets w)" "j \<noteq> i" for j
    proof -
      have "pcs ! j \<noteq> AtCounter" using p that len by (auto simp: pending_zero)
      with all [OF that(2)] nth that(3) show ?thesis by auto
    qed
    then have lk: "last_ok (if lw_counter w = 1 then Some i else None) w'"
      using w' nf all pos i nth len by (auto simp: last_ok_def pc_def)
    have free: "pcs ! j \<notin> {AtFlag, AtNotify, AtUnlock}" if "j < length (lw_sets w)" for j using all [OF that] nth by (auto simp: pc_def)
    have ow: "lw_owner w \<noteq> Some (BySetter j)" for j using D(5) [of j] all [of j] by auto
    show ?thesis
      by (rule latch_invI [OF _ _ _ _ lk]) (use w' p D(2,3,4) nw nf own ow free zero [of pc, folded pcs_def] len in \<open>simp_all split: if_splits\<close>)
  next
    case AtLock
    with last_is [OF l i] have li: "l = Some i" by simp
    from step AtLock have w': "w' = w\<lparr>lw_owner := Some (BySetter i), lw_sets := (lw_sets w)[i := AtFlag]\<rparr>" and no: "lw_owner w = None" by (auto simp: defs split: if_splits)
    have lk: "last_ok (Some i) w'" using l li w' AtLock by (auto simp: last_ok_def nth_list_update)
    have ow: "\<not> (j < length (lw_sets w) \<and> lw_sets w ! j \<in> {AtFlag, AtNotify, AtUnlock})" for j using D(5) [of j] no by simp
    have ex: "lw_flag w \<Longrightarrow> False" using l li AtLock by (simp add: last_ok_def)
    show ?thesis
      by (rule latch_invI [OF _ _ _ _ lk]) (use w' P [of AtFlag] AtLock D(1-4) nw no own ow zero [of AtFlag] i ex in \<open>auto simp: nth_list_update\<close>)
  next
    case AtFlag
    with last_is [OF l i] have li: "l = Some i" by simp
    from step AtFlag have w': "w' = w\<lparr>lw_flag := True, lw_sets := (lw_sets w)[i := AtNotify]\<rparr>" by (auto simp: defs lock_latch_set_def)
    have lk: "last_ok (Some i) w'" using l li w' AtFlag by (auto simp: last_ok_def nth_list_update)
    show ?thesis
      by (rule latch_invI [OF _ _ _ _ lk]) (use w' P [of AtNotify] AtFlag D(1-5) nw own zero [of AtNotify] i in \<open>auto simp: nth_list_update\<close>)
  next
    case AtNotify
    with last_is [OF l i] have li: "l = Some i" by simp
    define wp where "wp = (if lw_waiter w = Asleep then WaitLock else lw_waiter w)"
    from step AtNotify have w': "w' = w\<lparr>lw_waiter := wp, lw_sets := (lw_sets w)[i := AtUnlock]\<rparr>" by (auto simp: defs wp_def)
    have lk: "last_ok (Some i) w'" using l li w' AtNotify by (auto simp: last_ok_def nth_list_update)
    have wp: "reserve wp = reserve (lw_waiter w)" "wp \<notin> {Asleep, WaitUnlock, Returned, Gone}" "wp = WaitCheck \<longleftrightarrow> lw_waiter w = WaitCheck"
      "\<And>r. wp = Assisting r \<longleftrightarrow> lw_waiter w = Assisting r" using nw by (auto simp: wp_def)
    show ?thesis
      by (rule latch_invI [OF _ _ _ _ lk]) (use w' P [of AtUnlock] AtNotify D(1-5) wp own zero [of AtUnlock] i in \<open>auto simp: nth_list_update\<close>)
  next
    case AtUnlock
    with last_is [OF l i] have li: "l = Some i" by simp
    from step AtUnlock have w': "w' = w\<lparr>lw_owner := None, lw_sets := (lw_sets w)[i := SetDone]\<rparr>" by (auto simp: defs)
    have lk: "last_ok (Some i) w'" using l li w' AtUnlock by (auto simp: last_ok_def nth_list_update)
    have others: "lw_sets w ! j = SetDone" if "j < length (lw_sets w)" "j \<noteq> i" for j using l li that by (simp add: last_ok_def)
    have "lw_owner w = Some (BySetter i)" using D(5) i AtUnlock by simp
    then have chk: "lw_waiter w \<noteq> WaitCheck" using own by simp
    have fl: "lw_flag w" using l li AtUnlock by (simp add: last_ok_def)
    have "lw_sets w ! j \<noteq> AtNotify" if "j < length (lw_sets w)" for j using others [OF that] AtUnlock by (cases "j = i") simp_all
    then have asl: "lw_waiter w \<noteq> Asleep" using D(10) fl by blast
    show ?thesis
      by (rule latch_invI [OF _ _ _ _ lk]) (use w' P [of SetDone] AtUnlock D(1-4) nw chk asl others zero [of SetDone] i in \<open>auto simp: nth_list_update\<close>)
  qed (use ne in simp)
qed

lemma wait_step_inv:
  assumes inv: "latch_inv w" and step: "wait_step w = Some w'"
  shows "latch_inv w'"
proof -
  obtain l where l: "last_ok l w" using inv by (auto simp: latch_inv_def)
  note D = latch_invD [OF inv]
  have keep: "last_ok l w'" if "w' = w\<lparr>lw_owner := ow, lw_waiter := wp\<rparr>" for ow wp using l that by (simp add: last_ok_def split: option.splits)
  show ?thesis
  proof (cases "lw_waiter w")
    case (Spinning r s)
    have z: "lw_sets w ! 0 = SetDone" using D(7) Spinning by auto
    show ?thesis
    proof (cases r)
      case 0
      define wp where "wp = (if lw_counter w = 0 \<or> s = 0 then WaitLock else Spinning 0 (s - 1))"
      have w': "w' = w\<lparr>lw_owner := lw_owner w, lw_waiter := wp\<rparr>" using step Spinning 0 by (simp add: wait_step_def wp_def)
      have wp: "reserve wp = 0" "wp \<notin> {WaitCheck, WaitUnlock, Returned, Gone, Asleep}" by (simp_all add: wp_def)
      show ?thesis by (rule latch_invI [OF _ _ _ _ keep [OF w']]) (use w' wp D(1-6) z Spinning 0 in simp_all)
    next
      case (Suc r')
      define pcs where "pcs = (lw_sets w)[0 := AtCounter]"
      have w': "w' = w\<lparr>lw_sets := pcs, lw_waiter := Assisting r'\<rparr>" using step Spinning Suc by (simp add: wait_step_def pcs_def)
      have none: "l = None" using l D(1) Spinning Suc by (cases l) (auto simp: last_ok_def)
      have p: "pending pcs = Suc (pending (lw_sets w))" "length pcs = length (lw_sets w)" using pending_update [OF D(3), of AtCounter] z by (simp_all add: pcs_def)
      have all: "pcs ! j \<in> {AtCounter, SetDone}" "lw_sets w ! j \<in> {AtCounter, SetDone}" if "j < length (lw_sets w)" for j
        using l none that by (cases "j = 0"; auto simp: last_ok_def pcs_def)+
      have lk: "last_ok None w'" using l none w' all p by (simp add: last_ok_def)
      have "lw_owner w \<noteq> Some (BySetter j)" for j using D(5) [of j] all(2) [of j] by auto
      moreover have "\<not> (j < length pcs \<and> pcs ! j \<in> {AtFlag, AtNotify, AtUnlock})" for j using all(1) [of j] p(2) by auto
      ultimately show ?thesis by (intro latch_invI [OF _ _ _ _ lk]) (use w' p D(1-4,6) Spinning Suc in simp_all)
    qed
  next
    case (Assisting r)
    define wp where "wp = (if lw_counter w = 0 then WaitLock else Spinning r OFF_POOL_SPIN_ITERS)"
    have w': "w' = w\<lparr>lw_owner := lw_owner w, lw_waiter := wp\<rparr>" and z: "lw_sets w ! 0 = SetDone" using step Assisting by (auto simp: wait_step_def wp_def split: if_splits)
    have wp: "reserve wp = r" "wp \<notin> {WaitCheck, WaitUnlock, Returned, Gone, Asleep}" using D(1) Assisting by (simp_all add: wp_def)
    show ?thesis by (rule latch_invI [OF _ _ _ _ keep [OF w']]) (use w' wp D(1-6) z Assisting in simp_all)
  next
    case WaitLock
    then have w': "w' = w\<lparr>lw_owner := Some ByWaiter, lw_waiter := WaitCheck\<rparr>" and no: "lw_owner w = None" using step by (auto simp: wait_step_def split: if_splits)
    have "\<not> (j < length (lw_sets w) \<and> lw_sets w ! j \<in> {AtFlag, AtNotify, AtUnlock})" for j using D(5) [of j] no by simp
    then show ?thesis by (intro latch_invI [OF _ _ _ _ keep [OF w']]) (use w' D(1-4,7) WaitLock in simp_all)
  next
    case WaitCheck
    then have "lw_owner w = Some ByWaiter" using D(6) by simp
    then have free: "\<not> (j < length (lw_sets w) \<and> lw_sets w ! j \<in> {AtFlag, AtNotify, AtUnlock})" for j using D(5) [of j] by simp
    show ?thesis
    proof (cases "lw_flag w")
      case True
      then have w': "w' = w\<lparr>lw_owner := lw_owner w, lw_waiter := WaitUnlock\<rparr>" using step WaitCheck by (simp add: wait_step_def)
      from l True obtain i where i: "i < length (lw_sets w)" "lw_sets w ! i \<in> {AtNotify, AtUnlock, SetDone}"
        "\<And>j. j < length (lw_sets w) \<Longrightarrow> j \<noteq> i \<Longrightarrow> lw_sets w ! j = SetDone" by (cases l) (auto simp: last_ok_def)
      then have "lw_sets w ! j = SetDone" if "j < length (lw_sets w)" for j using free [of i] that by (cases "j = i") auto
      then show ?thesis by (intro latch_invI [OF _ _ _ _ keep [OF w']]) (use w' D(1-7) WaitCheck True in simp_all)
    next
      case False
      then have w': "w' = w\<lparr>lw_owner := None, lw_waiter := Asleep\<rparr>" using step WaitCheck by (simp add: wait_step_def)
      show ?thesis by (rule latch_invI [OF _ _ _ _ keep [OF w']]) (use w' D(1-4,7) free WaitCheck False in simp_all)
    qed
  next
    case WaitUnlock
    then have w': "w' = w\<lparr>lw_owner := None, lw_waiter := Returned\<rparr>" using step by (simp add: wait_step_def)
    have "lw_flag w" "\<And>j. j < length (lw_sets w) \<Longrightarrow> lw_sets w ! j = SetDone" using D(8,9) WaitUnlock by auto
    then show ?thesis by (intro latch_invI [OF _ _ _ _ keep [OF w']]) (use w' D(1-4,7) WaitUnlock in auto)
  next
    case Returned
    then have w': "w' = w\<lparr>lw_owner := lw_owner w, lw_waiter := Gone\<rparr>" using step by (simp add: wait_step_def)
    have "lw_flag w" "\<And>j. j < length (lw_sets w) \<Longrightarrow> lw_sets w ! j = SetDone" using D(8,9) Returned by auto
    then show ?thesis by (intro latch_invI [OF _ _ _ _ keep [OF w']]) (use w' D(1-7) Returned in simp_all)
  qed (use step in \<open>simp_all add: wait_step_def\<close>)
qed

lemma latch_world_inv:
  assumes "latch_world_step\<^sup>*\<^sup>* (latch_start n r spins) w" and "0 < n + r" and "n + r < u64_mod"
  shows "latch_inv w"
  using assms
proof (induction rule: rtranclp_induct)
  case base
  then show ?case by (simp add: latch_start_inv)
next
  case (step w w')
  then have inv: "latch_inv w" by simp
  from step(2) show ?case
  proof (cases rule: latch_world_step.cases)
    case world_step
    then show ?thesis by (auto elim!: latch_stepE intro: set_step_inv [OF inv] wait_step_inv [OF inv])
  next
    case world_spurious
    note D = latch_invD [OF inv]
    from inv obtain l where "last_ok l w" by (auto simp: latch_inv_def)
    then have lk: "last_ok l w'" using world_spurious(1) by (simp add: last_ok_def split: option.splits)
    show ?thesis by (rule latch_invI [OF _ _ _ _ lk]) (use world_spurious D(1-7) in simp_all)
  qed
qed

section \<open>Progress\<close>

fun set_weight :: "set_pc \<Rightarrow> nat" where
  "set_weight AtCounter = 9"
| "set_weight AtLock = 8"
| "set_weight AtFlag = 7"
| "set_weight AtNotify = 6"
| "set_weight AtUnlock = 1"
| "set_weight SetDone = 0"

fun wait_weight :: "wait_pc \<Rightarrow> nat" where
  "wait_weight (Spinning r s) = 6 + s + r * (OFF_POOL_SPIN_ITERS + 20)"
| "wait_weight (Assisting r) = 7 + OFF_POOL_SPIN_ITERS + r * (OFF_POOL_SPIN_ITERS + 20)"
| "wait_weight WaitLock = 5"
| "wait_weight WaitCheck = 4"
| "wait_weight WaitUnlock = 3"
| "wait_weight Returned = 2"
| "wait_weight Asleep = 1"
| "wait_weight Gone = 0"

definition latch_weight :: "latch_world \<Rightarrow> nat" where
  "latch_weight w = sum_list (map set_weight (lw_sets w)) + wait_weight (lw_waiter w)"

lemma sum_weight_update: "i < length pcs \<Longrightarrow> sum_list (map set_weight (pcs[i := pc])) + set_weight (pcs ! i) = sum_list (map set_weight pcs) + set_weight pc"
proof (induction pcs arbitrary: i)
  case (Cons a pcs)
  show ?case
  proof (cases i)
    case (Suc j)
    with Cons.IH [of j] Cons.prems show ?thesis by simp
  qed simp
qed simp

lemma latch_step_decreases:
  assumes inv: "latch_inv w" and step: "latch_step w w'"
  shows "latch_weight w' < latch_weight w"
  using step
proof (cases rule: latch_step.cases)
  case (latch_step_set i)
  have live: "touch w = w" using latch_inv_live [OF inv latch_step_set(1)] latch_step_set(2) by (auto simp: set_step_def Let_def split: set_pc.splits)
  from latch_step_set(2) sum_weight_update [OF latch_step_set(1)] show ?thesis
    by (cases "lw_sets w ! i") (auto simp: set_step_def live latch_weight_def Let_def split: if_splits dest: meta_spec [of _ AtLock] meta_spec [of _ AtFlag]
      meta_spec [of _ AtNotify] meta_spec [of _ AtUnlock] meta_spec [of _ SetDone])
next
  case latch_step_wait
  have len: "0 < length (lw_sets w)" using inv by (simp add: latch_inv_def)
  have z: "lw_sets w ! 0 = SetDone" if "lw_waiter w = Spinning r s" for r s using inv that by (auto simp: latch_inv_def)
  from latch_step_wait sum_weight_update [OF len, of AtCounter] z show ?thesis
    by (cases "lw_waiter w") (auto simp: wait_step_def latch_weight_def split: if_splits nat.splits)
qed

lemma latch_progress:
  assumes inv: "latch_inv w" and live: "lw_waiter w \<noteq> Gone"
  shows "\<exists>w'. latch_step w w'"
proof (cases "\<exists>i < length (lw_sets w). lw_sets w ! i \<noteq> SetDone \<and> (lw_sets w ! i = AtLock \<longrightarrow> lw_owner w = None)")
  case True
  then obtain i where "i < length (lw_sets w)" "lw_sets w ! i \<noteq> SetDone" "lw_sets w ! i = AtLock \<longrightarrow> lw_owner w = None" by blast
  then have "\<exists>w'. set_step i w = Some w'" by (cases "lw_sets w ! i") (simp_all add: set_step_def Let_def)
  with \<open>i < length (lw_sets w)\<close> show ?thesis by (blast intro: latch_step_set)
next
  case False
  obtain l where l: "last_ok l w" using inv by (auto simp: latch_inv_def)
  have pcs: "lw_sets w ! j = SetDone \<or> lw_sets w ! j = AtLock \<and> lw_owner w \<noteq> None" if "j < length (lw_sets w)" for j using False that by (cases "lw_sets w ! j") auto
  have ow: "lw_owner w = Some (BySetter j) \<longleftrightarrow> j < length (lw_sets w) \<and> lw_sets w ! j \<in> {AtFlag, AtNotify, AtUnlock}" for j using inv by (simp add: latch_inv_def)
  have "lw_owner w \<noteq> Some (BySetter j)" for j using ow [of j] pcs [of j] by auto
  then have own: "lw_owner w = None \<or> lw_owner w = Some ByWaiter" by (metis lock_holder.exhaust option.exhaust)
  have "\<exists>w'. wait_step w = Some w'"
  proof (cases "lw_waiter w")
    case (Spinning r s)
    then show ?thesis by (cases r) (simp_all add: wait_step_def)
  next
    case (Assisting r)
    then have "lw_owner w = None" using inv own by (auto simp: latch_inv_def)
    then have "lw_sets w ! 0 = SetDone" using pcs [of 0] inv by (simp add: latch_inv_def)
    with Assisting show ?thesis by (simp add: wait_step_def)
  next
    case WaitLock
    then have "lw_owner w = None" using inv own by (auto simp: latch_inv_def)
    with WaitLock show ?thesis by (simp add: wait_step_def)
  next
    case Asleep
    then have "lw_owner w = None" using inv own by (auto simp: latch_inv_def)
    then have all: "lw_sets w ! j = SetDone" if "j < length (lw_sets w)" for j using pcs that by blast
    then have "pending (lw_sets w) = 0" by (simp add: pending_zero)
    then have "lw_counter w = 0" using inv Asleep by (simp add: latch_inv_def)
    with l all have "lw_flag w" by (cases l) (auto simp: last_ok_def)
    with inv Asleep all show ?thesis by (auto simp: latch_inv_def)
  qed (use live in \<open>simp_all add: wait_step_def\<close>)
  then show ?thesis by (blast intro: latch_step_wait)
qed

text \<open>
  C38. A counting latch is not touched after its waiter has freed it. For any number of setters and reserve
  chunks the waiter runs itself, in every interleaving of their memory accesses, spurious wakeups
  included: no access to the latch follows the waiter's return, and when the waiter has returned the
  counter is zero and every set has finished.
\<close>

theorem count_latch_race_safe:
  assumes "latch_world_step\<^sup>*\<^sup>* (latch_start n r spins) w" and "0 < n + r" and "n + r < u64_mod"
  shows "\<not> lw_fault w \<and> (lw_waiter w \<in> {Returned, Gone} \<longrightarrow> lw_counter w = 0 \<and> lw_sets w = replicate (length (lw_sets w)) SetDone)"
proof -
  have inv: "latch_inv w" by (rule latch_world_inv [OF assms])
  have "lw_counter w = 0 \<and> lw_sets w = replicate (length (lw_sets w)) SetDone" if g: "lw_waiter w \<in> {Returned, Gone}"
  proof -
    have all: "\<forall>j < length (lw_sets w). lw_sets w ! j = SetDone" using latch_invD(9) [OF inv] g by blast
    then have "pending (lw_sets w) = 0" by (simp add: pending_zero)
    with latch_invD(1) [OF inv] g have "lw_counter w = 0" by auto
    with all show ?thesis by (simp add: list_eq_iff_nth_eq)
  qed
  with latch_invD(4) [OF inv] show ?thesis by blast
qed

theorem count_latch_race_safe_witness:
  "\<exists>w. latch_world_step\<^sup>*\<^sup>* (latch_start 1 0 0) w \<and> lw_waiter w = Asleep \<and> lw_counter w = 0 \<and> \<not> lw_fault w"
proof -
  let ?s0 = "latch_start 1 0 0"
  let ?s1 = "?s0\<lparr>lw_waiter := WaitLock\<rparr>"
  let ?s2 = "?s1\<lparr>lw_owner := Some ByWaiter, lw_waiter := WaitCheck\<rparr>"
  let ?s3 = "?s2\<lparr>lw_owner := None, lw_waiter := Asleep\<rparr>"
  let ?s4 = "?s3\<lparr>lw_counter := 0, lw_sets := [SetDone, AtLock]\<rparr>"
  have "latch_world_step ?s0 ?s1" "latch_world_step ?s1 ?s2" "latch_world_step ?s2 ?s3"
    by (rule world_step, rule latch_step_wait, simp add: wait_step_def latch_start_def with_count_def lock_latch_new_def)+
  moreover have "latch_world_step ?s3 ?s4"
    by (rule world_step, rule latch_step_set [of 1]) (simp_all add: set_step_def latch_start_def with_count_def touch_def wrapping_sub_u64_def u64_mod_def)
  ultimately have r: "latch_world_step\<^sup>*\<^sup>* ?s0 ?s4" by (blast intro: converse_rtranclp_into_rtranclp)
  from count_latch_race_safe [OF r] r show ?thesis by (intro exI [of _ ?s4]) (simp add: u64_mod_def)
qed

text \<open>
  C39. A wait on a counting latch returns. In every reachable state of the race, while the waiter has not
  returned some thread can go on, and every step other than a spurious wakeup brings the end nearer by a
  measure: no wakeup is lost, no two threads block each other and nobody runs forever, so every
  execution with finitely many spurious wakeups ends with the waiter's return.
\<close>

theorem count_latch_wait_returns:
  assumes "latch_world_step\<^sup>*\<^sup>* (latch_start n r spins) w" and "0 < n + r" and "n + r < u64_mod"
  shows "(lw_waiter w \<noteq> Gone \<longrightarrow> (\<exists>w'. latch_step w w')) \<and> (\<forall>w'. latch_step w w' \<longrightarrow> latch_weight w' < latch_weight w)"
  using latch_world_inv [OF assms] latch_progress latch_step_decreases by blast

theorem count_latch_wait_returns_witness:
  "\<exists>w'. latch_step (latch_start 2 1 OFF_POOL_SPIN_ITERS) w' \<and> latch_weight w' < latch_weight (latch_start 2 1 OFF_POOL_SPIN_ITERS)"
proof -
  have "lw_waiter (latch_start 2 1 OFF_POOL_SPIN_ITERS) \<noteq> Gone" by (simp add: latch_start_def)
  with count_latch_wait_returns [of 2 1 OFF_POOL_SPIN_ITERS "latch_start 2 1 OFF_POOL_SPIN_ITERS"] show ?thesis by (auto simp: u64_mod_def)
qed

end
