(* ===== verification/Admission.thy ===== *)
theory Admission
  imports Config Fence Sharded Registry_Life
begin

text \<open>
  The admission of a streaming run to the pool, from \<^verbatim>\<open>builder/typed/stream.rs\<close>: the worker budget of a
  chain, the lease of parking slots, the sizing of channels, and the walk that spawns the feeder, the
  stage workers and the fence forwarders. A job of a run parks its worker on a channel, so a run must
  never have more of them on the pool than it has leased.
\<close>

section \<open>Stages and their options\<close>

record sync_stage_options =
  so_workers :: "nat option"
  so_buffer :: "nat option"

record async_stage_options =
  ao_io_concurrency :: "nat option"
  ao_buffer :: "nat option"

record fence_options =
  fo_buffer :: "nat option"

definition sync_options_new :: sync_stage_options where
  "sync_options_new = \<lparr>so_workers = None, so_buffer = None\<rparr>"

definition sync_options_workers :: "nat \<Rightarrow> sync_stage_options \<Rightarrow> sync_stage_options res" where
  "sync_options_workers n o' = bind_res (require_nonzero n) (\<lambda>k. Inr (o'\<lparr>so_workers := Some k\<rparr>))"

definition sync_options_buffer :: "nat \<Rightarrow> sync_stage_options \<Rightarrow> sync_stage_options res" where
  "sync_options_buffer n o' = bind_res (require_nonzero n) (\<lambda>k. Inr (o'\<lparr>so_buffer := Some k\<rparr>))"

definition async_options_new :: async_stage_options where
  "async_options_new = \<lparr>ao_io_concurrency = None, ao_buffer = None\<rparr>"

definition async_options_io_concurrency :: "nat \<Rightarrow> async_stage_options \<Rightarrow> async_stage_options res" where
  "async_options_io_concurrency n o' = bind_res (require_nonzero n) (\<lambda>k. Inr (o'\<lparr>ao_io_concurrency := Some k\<rparr>))"

definition async_options_buffer :: "nat \<Rightarrow> async_stage_options \<Rightarrow> async_stage_options res" where
  "async_options_buffer n o' = bind_res (require_nonzero n) (\<lambda>k. Inr (o'\<lparr>ao_buffer := Some k\<rparr>))"

definition fence_options_new :: fence_options where
  "fence_options_new = \<lparr>fo_buffer = None\<rparr>"

definition fence_options_buffer :: "nat \<Rightarrow> fence_options \<Rightarrow> fence_options res" where
  "fence_options_buffer n o' = bind_res (require_nonzero n) (\<lambda>k. Inr (o'\<lparr>fo_buffer := Some k\<rparr>))"

text \<open>A chain is its links, upstream first; the nested types of the source give the same order.\<close>

datatype stream_link =
    SyncStage sync_stage_options
  | ExpandStage sync_stage_options
  | OrderedExpandStage sync_stage_options
  | GroupedStage sync_stage_options
  | GroupedExpandStage sync_stage_options
  | AsyncStage async_stage_options
  | GroupedAsyncStage async_stage_options
  | FenceLink fence_mode fence_options

fun pool_options :: "stream_link \<Rightarrow> sync_stage_options option" where
  "pool_options (SyncStage o') = Some o'"
| "pool_options (ExpandStage o') = Some o'"
| "pool_options (OrderedExpandStage o') = Some o'"
| "pool_options (GroupedStage o') = Some o'"
| "pool_options (GroupedExpandStage o') = Some o'"
| "pool_options _ = None"

fun is_fence :: "stream_link \<Rightarrow> bool" where
  "is_fence (FenceLink _ _) \<longleftrightarrow> True"
| "is_fence _ \<longleftrightarrow> False"

fun is_async :: "stream_link \<Rightarrow> bool" where
  "is_async (AsyncStage _) \<longleftrightarrow> True"
| "is_async (GroupedAsyncStage _) \<longleftrightarrow> True"
| "is_async _ \<longleftrightarrow> False"

record stage_budget =
  sb_stages :: nat
  sb_fences :: nat
  sb_explicit_stages :: nat
  sb_explicit_workers :: nat

definition link_budget :: "stream_link \<Rightarrow> stage_budget \<Rightarrow> stage_budget res" where
  "link_budget l b =
     (case pool_options l of
        Some o' \<Rightarrow>
          let b' = b\<lparr>sb_stages := sb_stages b + 1\<rparr> in
          (case so_workers o' of
             None \<Rightarrow> Inr b'
           | Some w \<Rightarrow> bind_res (add_u64 (sb_explicit_workers b) w) (\<lambda>e.
               Inr (b'\<lparr>sb_explicit_stages := sb_explicit_stages b + 1, sb_explicit_workers := e\<rparr>)))
      | None \<Rightarrow> Inr (if is_fence l then b\<lparr>sb_fences := sb_fences b + 1\<rparr> else b))"

fun budget_from :: "stream_link list \<Rightarrow> stage_budget \<Rightarrow> stage_budget res" where
  "budget_from [] b = Inr b"
| "budget_from (l # ls) b = bind_res (link_budget l b) (budget_from ls)"

definition chain_budget :: "stream_link list \<Rightarrow> stage_budget res" where
  "chain_budget ls = budget_from ls \<lparr>sb_stages = 0, sb_fences = 0, sb_explicit_stages = 0, sb_explicit_workers = 0\<rparr>"

fun first_consumer_is_async :: "stream_link list \<Rightarrow> bool option" where
  "first_consumer_is_async [] = None"
| "first_consumer_is_async (l # ls) = (if is_fence l then first_consumer_is_async ls else Some (is_async l))"

definition has_async_stage :: "stream_link list \<Rightarrow> bool" where
  "has_async_stage ls \<longleftrightarrow> list_ex is_async ls"

definition default_workers :: "stage_budget \<Rightarrow> nat \<Rightarrow> nat" where
  "default_workers b pool_workers =
     (let unspecified = sb_stages b - sb_explicit_stages b in
      if unspecified = 0 then 1
      else let remaining = pool_workers - sb_explicit_workers b in max (remaining div unspecified) 1)"

section \<open>The lease and the admission\<close>

record parking_lease =
  pl_reserved :: nat
  pl_spawned :: nat

definition wrap_jobs :: "nat \<Rightarrow> parking_lease \<Rightarrow> parking_lease" where
  "wrap_jobs k l = l\<lparr>pl_spawned := pl_spawned l + k\<rparr>"

text \<open>A wrapped job that ends returns its slot; the lease that is dropped returns those never used.\<close>

fun end_jobs :: "nat \<Rightarrow> 'j registry \<Rightarrow> 'j registry" where
  "end_jobs 0 rg = rg"
| "end_jobs (Suc k) rg = end_jobs k (release_parking 1 rg)"

definition lease_drop :: "parking_lease \<Rightarrow> 'j registry \<Rightarrow> 'j registry res" where
  "lease_drop l rg = bind_res (sub_u64 (pl_reserved l) (pl_spawned l)) (\<lambda>rest. Inr (release_parking rest rg))"

definition floored_channel_capacity :: "nat \<Rightarrow> nat \<Rightarrow> nat res" where
  "floored_channel_capacity buffer parallelism = bind_res (mul_u64 parallelism 4) (\<lambda>m. Inr (max buffer m))"

record admission =
  ad_lease :: "parking_lease option"
  ad_dedicated_threads :: bool
  ad_per_stage_parallelism :: nat
  ad_worker_slots_left :: nat
  ad_stages_left :: nat

definition dedicated_admission :: "stage_budget \<Rightarrow> nat \<Rightarrow> admission" where
  "dedicated_admission b workers_budget =
     \<lparr>ad_lease = None, ad_dedicated_threads = True, ad_per_stage_parallelism = default_workers b workers_budget, ad_worker_slots_left = 0, ad_stages_left = 0\<rparr>"

text \<open>
  \<open>on_pool\<close>: the caller is a worker of the pool. \<open>used\<close> is the snapshot of the slots in use; the
  reservation that follows reads the counter again (\<open>seen\<close> as for \<open>try_reserve_parking\<close>).
\<close>

definition resolve_admission ::
    "bool \<Rightarrow> nat \<Rightarrow> nat list \<Rightarrow> stage_budget \<Rightarrow> pipeline_config \<Rightarrow> nat \<Rightarrow> 'j registry \<Rightarrow> (admission \<times> 'j registry) res" where
  "resolve_admission on_pool used seen b c n rg =
     (let pool_threads = num_threads rg;
          workers_budget = (if compute_workers_pinned c then compute_workers c else max (compute_workers c) pool_threads) in
      bind_res (floored_channel_capacity (buffer_size c) 1) (\<lambda>floor.
      let feeder_slot = (if floor < n then 1 else 0) in
      if on_pool then Inr (dedicated_admission b workers_budget, rg)
      else
        bind_res (add_u64 used feeder_slot) (\<lambda>taken. bind_res (add_u64 taken (sb_fences b)) (\<lambda>taken.
        let live_slots = pool_threads - taken;
            per_stage = default_workers b (min workers_budget live_slots);
            unpinned = sb_stages b - sb_explicit_stages b in
        bind_res (add_u64 feeder_slot (sb_fences b)) (\<lambda>need.
        bind_res (add_u64 need (sb_explicit_workers b)) (\<lambda>need.
        bind_res (mul_u64 unpinned (min per_stage n)) (\<lambda>floating.
        bind_res (add_u64 need floating) (\<lambda>need.
        if pool_threads < need then Inr (dedicated_admission b workers_budget, rg)
        else bind_res (try_reserve_parking seen need rg) (\<lambda>(ok, rg').
          Inr (if ok
               then \<lparr>ad_lease = Some \<lparr>pl_reserved = need, pl_spawned = 0\<rparr>, ad_dedicated_threads = False, ad_per_stage_parallelism = per_stage,
                     ad_worker_slots_left = need - feeder_slot - sb_fences b, ad_stages_left = sb_stages b\<rparr>
               else dedicated_admission b workers_budget, rg'))))))))))"

section \<open>The spawn walk\<close>

record term_policy =
  tp_sharded :: bool
  tp_sharded_async :: bool
  tp_chain_floor :: "nat option"

text \<open>The last three fields count what the run has dispatched: pool jobs, dedicated threads, and bridges.\<close>

record stream_ctx =
  cx_config :: pipeline_config
  cx_n :: nat
  cx_per_stage_parallelism :: nat
  cx_dedicated_threads :: bool
  cx_has_async_stage :: bool
  cx_policy :: term_policy
  cx_lease :: "parking_lease option"
  cx_worker_slots_left :: nat
  cx_stages_left :: nat
  cx_in_flight :: nat
  cx_pool_jobs :: nat
  cx_threads :: nat
  cx_bridges :: nat

text \<open>
  The last three fields count what the walk has spawned, for the statements only: jobs on the pool,
  threads, and bridges, a bridge that only passes on an already asynchronous receiver included.
\<close>

definition ctx_buffer_size :: "nat \<Rightarrow> stream_ctx \<Rightarrow> nat res" where
  "ctx_buffer_size parallelism cx = floored_channel_capacity (buffer_size (cx_config cx)) parallelism"

definition note_in_flight :: "nat \<Rightarrow> stream_ctx \<Rightarrow> stream_ctx res" where
  "note_in_flight items cx = bind_res (add_u64 (cx_in_flight cx) items) (\<lambda>k. Inr (cx\<lparr>cx_in_flight := k\<rparr>))"

definition sharded_terminal :: "nat \<Rightarrow> stream_ctx \<Rightarrow> bool" where
  "sharded_terminal parallelism cx \<longleftrightarrow> tp_sharded (cx_policy cx) \<and> 1 < parallelism"

definition sharded_async_terminal :: "nat \<Rightarrow> stream_ctx \<Rightarrow> nat" where
  "sharded_async_terminal concurrency cx =
     (if \<not> tp_sharded_async (cx_policy cx) \<or> concurrency \<le> 1 then 0 else min concurrency (max (async_workers (cx_config cx)) 1))"

definition requested_workers :: "sync_stage_options \<Rightarrow> stream_ctx \<Rightarrow> nat" where
  "requested_workers o' cx =
     max (min (case so_workers o' of Some w \<Rightarrow> w | None \<Rightarrow> cx_per_stage_parallelism cx) (max (cx_n cx) 1)) 1"

definition stage_workers :: "nat \<Rightarrow> sync_stage_options \<Rightarrow> stream_ctx \<Rightarrow> (nat \<times> stream_ctx) res" where
  "stage_workers batch_recv_cap o' cx =
     (let requested = requested_workers o' cx in
      if cx_dedicated_threads cx then Inr (requested, cx)
      else let slots = cx_worker_slots_left cx in
        bind_res (sub_u64 (cx_stages_left cx) 1) (\<lambda>after.
        let granted = max (min requested (slots - after)) 1 in
        if slots < granted then Inl ExplicitPanic
        else bind_res (mul_u64 granted (max batch_recv_cap 1)) (\<lambda>held.
          bind_res (note_in_flight held (cx\<lparr>cx_stages_left := after, cx_worker_slots_left := slots - granted\<rparr>)) (\<lambda>cx'. Inr (granted, cx')))))"

definition spawn_stage_jobs :: "nat \<Rightarrow> stream_ctx \<Rightarrow> stream_ctx" where
  "spawn_stage_jobs k cx =
     (if cx_dedicated_threads cx then cx\<lparr>cx_threads := cx_threads cx + k\<rparr>
      else cx\<lparr>cx_lease := map_option (wrap_jobs k) (cx_lease cx), cx_pool_jobs := cx_pool_jobs cx + k\<rparr>)"

definition ASYNC_CHAIN_FLOOR_BYTES :: nat where
  "ASYNC_CHAIN_FLOOR_BYTES = push_bit 20 8"

text \<open>\<open>sz\<close>: the size of a slot of the channel, in bytes.\<close>

definition async_chain_floor :: "nat \<Rightarrow> nat \<Rightarrow> stream_ctx \<Rightarrow> nat" where
  "async_chain_floor sz buffer cx =
     (case tp_chain_floor (cx_policy cx) of
        None \<Rightarrow> buffer
      | Some floor \<Rightarrow>
          if \<not> cx_has_async_stage cx then buffer
          else let budget_slots = ASYNC_CHAIN_FLOOR_BYTES div max sz 1 in max buffer (min (min (cx_n cx) floor) (max budget_slots 1)))"

definition stage_buffer :: "nat \<Rightarrow> nat option \<Rightarrow> nat \<Rightarrow> stream_ctx \<Rightarrow> (nat \<times> stream_ctx) res" where
  "stage_buffer sz buffer parallelism cx =
     bind_res (case buffer of Some b \<Rightarrow> Inr b | None \<Rightarrow> bind_res (ctx_buffer_size parallelism cx) (\<lambda>b. Inr (async_chain_floor sz b cx))) (\<lambda>resolved.
     bind_res (note_in_flight resolved cx) (\<lambda>cx'. Inr (resolved, cx')))"

definition stage_io_concurrency :: "async_stage_options \<Rightarrow> stream_ctx \<Rightarrow> nat" where
  "stage_io_concurrency o' cx =
     min (max (case ao_io_concurrency o' of Some k \<Rightarrow> k | None \<Rightarrow> io_concurrency (cx_config cx)) 1) (max (cx_n cx) 1)"

text \<open>What the previous link hands over; a sync link behind an async one starts a bridge thread.\<close>

datatype prev_out = AtStart | PrevSync | PrevAsync

definition finalize_prev_rx :: "prev_out \<Rightarrow> stream_ctx \<Rightarrow> stream_ctx res" where
  "finalize_prev_rx pv cx =
     (if pv = PrevAsync then
        bind_res (ctx_buffer_size (cx_per_stage_parallelism cx) cx) (\<lambda>b.
        bind_res (add_u64 b 1) (\<lambda>held. note_in_flight held (cx\<lparr>cx_bridges := cx_bridges cx + 1\<rparr>)))
      else Inr cx)"

definition spawn_stage_into :: "nat \<Rightarrow> bool \<Rightarrow> nat \<Rightarrow> sync_stage_options \<Rightarrow> stream_ctx \<Rightarrow> stream_ctx res" where
  "spawn_stage_into batch_recv_cap terminal sz o' cx =
     bind_res (stage_workers batch_recv_cap o' cx) (\<lambda>(parallelism, cx).
     bind_res (stage_buffer sz (so_buffer o') parallelism cx) (\<lambda>(_, cx).
     bind_res (if terminal \<and> sharded_terminal parallelism cx then bind_res (mul_u64 (parallelism - 1) MIN_SHARD_BUFFER) (\<lambda>extra. note_in_flight extra cx) else Inr cx) (\<lambda>cx.
     Inr (spawn_stage_jobs parallelism cx))))"

definition spawn_fence_into :: "nat \<Rightarrow> nat \<Rightarrow> fence_mode \<Rightarrow> fence_options \<Rightarrow> stream_ctx \<Rightarrow> stream_ctx res" where
  "spawn_fence_into batch_recv_cap sz mode o' cx =
     bind_res (stage_buffer sz (fo_buffer o') (cx_per_stage_parallelism cx) cx) (\<lambda>(_, cx).
     bind_res (note_in_flight (fence_hold batch_recv_cap mode (cx_n cx)) cx) (\<lambda>cx.
     Inr (spawn_stage_jobs 1 cx)))"

definition spawn_async_consumers :: "bool \<Rightarrow> nat \<Rightarrow> async_stage_options \<Rightarrow> stream_ctx \<Rightarrow> stream_ctx res" where
  "spawn_async_consumers terminal sz o' cx =
     (let concurrency = stage_io_concurrency o' cx in
      bind_res (stage_buffer sz (ao_buffer o') concurrency cx) (\<lambda>(_, cx).
      bind_res (note_in_flight concurrency cx) (\<lambda>cx.
      let shards = sharded_async_terminal concurrency cx in
      if terminal \<and> 0 < shards then bind_res (mul_u64 (shards - 1) MIN_SHARD_BUFFER) (\<lambda>extra. note_in_flight extra cx) else Inr cx)))"

definition spawn_async_stage :: "bool \<Rightarrow> bool \<Rightarrow> prev_out \<Rightarrow> nat \<Rightarrow> nat \<Rightarrow> async_stage_options \<Rightarrow> stream_ctx \<Rightarrow> stream_ctx res" where
  "spawn_async_stage async_feeder terminal pv prev_sz sz o' cx =
     bind_res (if async_feeder then bind_res (stage_buffer prev_sz (ao_buffer o') (stage_io_concurrency o' cx) cx) (\<lambda>(_, cx). Inr (cx\<lparr>cx_bridges := cx_bridges cx + 1\<rparr>))
               else Inr (if pv = AtStart then cx\<lparr>cx_bridges := cx_bridges cx + 1\<rparr> else cx)) (\<lambda>cx.
     spawn_async_consumers terminal sz o' cx)"

definition spawn_link :: "nat \<Rightarrow> bool \<Rightarrow> bool \<Rightarrow> prev_out \<Rightarrow> nat \<Rightarrow> stream_link \<Rightarrow> nat \<Rightarrow> stream_ctx \<Rightarrow> stream_ctx res" where
  "spawn_link batch_recv_cap async_feeder terminal pv prev_sz l sz cx =
     (case l of
        AsyncStage o' \<Rightarrow> spawn_async_stage async_feeder terminal pv prev_sz sz o' cx
      | GroupedAsyncStage o' \<Rightarrow> spawn_async_stage async_feeder terminal pv prev_sz sz o' cx
      | FenceLink mode o' \<Rightarrow> bind_res (finalize_prev_rx pv cx) (spawn_fence_into batch_recv_cap sz mode o')
      | SyncStage o' \<Rightarrow> bind_res (finalize_prev_rx pv cx) (spawn_stage_into batch_recv_cap terminal sz o')
      | ExpandStage o' \<Rightarrow> bind_res (finalize_prev_rx pv cx) (spawn_stage_into batch_recv_cap terminal sz o')
      | OrderedExpandStage o' \<Rightarrow> bind_res (finalize_prev_rx pv cx) (spawn_stage_into batch_recv_cap terminal sz o')
      | GroupedStage o' \<Rightarrow> bind_res (finalize_prev_rx pv cx) (spawn_stage_into batch_recv_cap terminal sz o')
      | GroupedExpandStage o' \<Rightarrow> bind_res (finalize_prev_rx pv cx) (spawn_stage_into batch_recv_cap terminal sz o'))"

fun spawn_walk :: "nat \<Rightarrow> bool \<Rightarrow> prev_out \<Rightarrow> nat \<Rightarrow> (stream_link \<times> nat) list \<Rightarrow> stream_ctx \<Rightarrow> stream_ctx res" where
  "spawn_walk batch_recv_cap async_feeder pv prev_sz [] cx = Inr cx"
| "spawn_walk batch_recv_cap async_feeder pv prev_sz ((l, sz) # ls) cx =
     bind_res (spawn_link batch_recv_cap async_feeder (ls = []) pv prev_sz l sz cx)
       (spawn_walk batch_recv_cap async_feeder (if is_async l then PrevAsync else PrevSync) sz ls)"

datatype feeder = PoolFeeder | ThreadFeeder | InlineFeeder

definition feed_items :: "nat \<Rightarrow> stream_ctx \<Rightarrow> feeder \<times> stream_ctx" where
  "feed_items buffer cx =
     (if cx_n cx \<le> buffer then (InlineFeeder, cx)
      else (if cx_dedicated_threads cx then ThreadFeeder else PoolFeeder, spawn_stage_jobs 1 cx))"

definition route_feeder :: "nat \<Rightarrow> nat \<Rightarrow> (stream_link \<times> nat) list \<Rightarrow> stream_ctx \<Rightarrow> (feeder \<times> stream_ctx) res" where
  "route_feeder batch_recv_cap in_sz ls cx =
     bind_res (ctx_buffer_size (cx_per_stage_parallelism cx) cx) (\<lambda>b.
     let buffer = async_chain_floor in_sz b cx in
     bind_res (add_u64 buffer (1 + batch_recv_cap)) (\<lambda>held.
     bind_res (note_in_flight held cx) (\<lambda>cx.
     let async_feeder = (first_consumer_is_async (map fst ls) = Some True); (feeder, cx) = feed_items buffer cx in
     bind_res (if ls = [] then Inr (cx\<lparr>cx_bridges := cx_bridges cx + 1\<rparr>)
               else spawn_walk batch_recv_cap async_feeder (if async_feeder then PrevAsync else AtStart) in_sz ls cx) (\<lambda>cx. Inr (feeder, cx)))))"

definition admitted_ctx :: "pipeline_config \<Rightarrow> nat \<Rightarrow> term_policy \<Rightarrow> (stream_link \<times> nat) list \<Rightarrow> admission \<Rightarrow> stream_ctx" where
  "admitted_ctx c n policy ls ad =
     \<lparr>cx_config = c, cx_n = n, cx_per_stage_parallelism = ad_per_stage_parallelism ad, cx_dedicated_threads = ad_dedicated_threads ad,
      cx_has_async_stage = has_async_stage (map fst ls), cx_policy = policy, cx_lease = ad_lease ad, cx_worker_slots_left = ad_worker_slots_left ad,
      cx_stages_left = ad_stages_left ad, cx_in_flight = 0, cx_pool_jobs = 0, cx_threads = 0, cx_bridges = 0\<rparr>"

end
