(* ===== verification/Admission_Claims.thy ===== *)
theory Admission_Claims
  imports Admission
begin

text \<open>
  An admitted run never puts more parking jobs on the pool than it has leased, every stage gets the
  workers it asks for, and all slots come back.
\<close>

section \<open>The budget of a chain\<close>

definition pool_stages :: "stream_link list \<Rightarrow> sync_stage_options list" where
  "pool_stages ls = List.map_filter pool_options ls"

definition fences :: "stream_link list \<Rightarrow> nat" where
  "fences ls = length (filter is_fence ls)"

definition pins :: "sync_stage_options list \<Rightarrow> nat list" where
  "pins os = List.map_filter so_workers os"

lemma pool_stages_Cons: "pool_stages (l # ls) = (case pool_options l of None \<Rightarrow> pool_stages ls | Some o' \<Rightarrow> o' # pool_stages ls)"
  by (cases "pool_options l") (simp_all add: pool_stages_def List.map_filter_simps)

lemma pins_Cons: "pins (o' # os) = (case so_workers o' of None \<Rightarrow> pins os | Some w \<Rightarrow> w # pins os)"
  by (cases "so_workers o'") (simp_all add: pins_def List.map_filter_simps)

lemma pool_stages_Nil [simp]: "pool_stages [] = []" "pins [] = []" "fences [] = 0"
  by (simp_all add: pool_stages_def pins_def fences_def List.map_filter_simps)

lemma fence_not_pool: "is_fence l \<Longrightarrow> pool_options l = None" "is_async l \<Longrightarrow> pool_options l = None"
  by (cases l; simp)+

lemma budget_from_counts:
  "sb_explicit_workers b + sum_list (pins (pool_stages ls)) < u64_mod \<Longrightarrow>
   budget_from ls b = Inr \<lparr>sb_stages = sb_stages b + length (pool_stages ls), sb_fences = sb_fences b + fences ls,
     sb_explicit_stages = sb_explicit_stages b + length (pins (pool_stages ls)), sb_explicit_workers = sb_explicit_workers b + sum_list (pins (pool_stages ls))\<rparr>"
proof (induction ls arbitrary: b)
  case (Cons l ls)
  show ?case
  proof (cases "pool_options l")
    case None
    with Cons show ?thesis by (simp add: pool_stages_Cons link_budget_def fences_def)
  next
    case (Some o')
    then have "\<not> is_fence l" using fence_not_pool by auto
    with Some Cons show ?thesis by (cases "so_workers o'") (simp_all add: pool_stages_Cons pins_Cons link_budget_def fences_def add_u64_def Let_def)
  qed
qed simp

lemma chain_budget_counts:
  "sum_list (pins (pool_stages ls)) < u64_mod \<Longrightarrow>
   chain_budget ls = Inr \<lparr>sb_stages = length (pool_stages ls), sb_fences = fences ls,
     sb_explicit_stages = length (pins (pool_stages ls)), sb_explicit_workers = sum_list (pins (pool_stages ls))\<rparr>"
  unfolding chain_budget_def by (subst budget_from_counts) simp_all

lemma pins_length: "length (pins os) \<le> length os"
  by (induction os) (auto simp: pins_Cons split: option.splits)

definition request :: "nat \<Rightarrow> nat \<Rightarrow> sync_stage_options \<Rightarrow> nat" where
  "request per n o' = max (min (case so_workers o' of Some w \<Rightarrow> w | None \<Rightarrow> per) (max n 1)) 1"

lemma requested_workers_request: "requested_workers o' cx = request (cx_per_stage_parallelism cx) (cx_n cx) o'"
  by (simp add: requested_workers_def request_def)

text \<open>The workers the stages of a chain ask for fit the pins and the equal division.\<close>

lemma requests_fit:
  assumes "1 \<le> n" and "1 \<le> per" and "\<forall>w \<in> set (pins os). 1 \<le> w"
  shows "sum_list (map (request per n) os) \<le> sum_list (pins os) + (length os - length (pins os)) * min per n"
  using assms(3)
proof (induction os)
  case (Cons o' os)
  have le: "length (pins os) \<le> length os" by (rule pins_length)
  show ?case
  proof (cases "so_workers o'")
    case None
    have "request per n o' = min per n" using assms None by (simp add: request_def)
    moreover have "(Suc (length os) - length (pins os)) * min per n = min per n + (length os - length (pins os)) * min per n" using le by (simp add: Suc_diff_le)
    ultimately show ?thesis using Cons None by (simp add: pins_Cons)
  next
    case (Some w)
    then have "request per n o' \<le> w" using Cons.prems by (simp add: pins_Cons request_def)
    with Cons Some show ?thesis by (simp add: pins_Cons)
  qed
qed simp

lemma default_workers_bounds: "1 \<le> default_workers b k" "default_workers b k \<le> max k 1"
proof -
  have "(k - sb_explicit_workers b) div (sb_stages b - sb_explicit_stages b) \<le> k" by (meson diff_le_self div_le_dividend le_trans)
  then show "1 \<le> default_workers b k" "default_workers b k \<le> max k 1" by (auto simp: default_workers_def Let_def max_def)
qed

section \<open>One link\<close>

text \<open>Sizes up to \<open>2 ^ 32\<close>, so that the in-flight estimate of a chain of \<open>2 ^ 16\<close> links cannot overflow.\<close>

definition size_ok :: "nat option \<Rightarrow> bool" where
  "size_ok v \<longleftrightarrow> (case v of None \<Rightarrow> True | Some k \<Rightarrow> k \<le> 2 ^ 32)"

fun link_small :: "stream_link \<Rightarrow> bool" where
  "link_small (AsyncStage o') \<longleftrightarrow> size_ok (ao_buffer o')"
| "link_small (GroupedAsyncStage o') \<longleftrightarrow> size_ok (ao_buffer o')"
| "link_small (FenceLink mode o') \<longleftrightarrow> size_ok (fo_buffer o') \<and> size_ok (chunk_size mode)"
| "link_small l \<longleftrightarrow> (case pool_options l of Some o' \<Rightarrow> size_ok (so_buffer o') | None \<Rightarrow> True)"

definition ctx_small :: "stream_ctx \<Rightarrow> bool" where
  "ctx_small cx \<longleftrightarrow> cx_n cx \<le> 2 ^ 32 \<and> buffer_size (cx_config cx) \<le> 2 ^ 32 \<and> cx_per_stage_parallelism cx \<le> 2 ^ 32"

lemma ctx_small_upd [simp]:
  "ctx_small (cx\<lparr>cx_in_flight := k\<rparr>) = ctx_small cx" "ctx_small (cx\<lparr>cx_bridges := k\<rparr>) = ctx_small cx" "ctx_small (cx\<lparr>cx_stages_left := k\<rparr>) = ctx_small cx"
  "ctx_small (cx\<lparr>cx_worker_slots_left := k\<rparr>) = ctx_small cx" "ctx_small (spawn_stage_jobs k cx) = ctx_small cx"
  by (simp_all add: ctx_small_def spawn_stage_jobs_def)

lemma note_in_flight_ok: "cx_in_flight cx + k < u64_mod \<Longrightarrow> note_in_flight k cx = Inr (cx\<lparr>cx_in_flight := cx_in_flight cx + k\<rparr>)"
  by (simp add: note_in_flight_def add_u64_def)

lemma floored_ok: "p \<le> 2 ^ 32 \<Longrightarrow> floored_channel_capacity b p = Inr (max b (p * 4))"
  by (simp add: floored_channel_capacity_def mul_u64_def u64_mod_def)

lemma chain_floor_bounds: "b \<le> async_chain_floor sz b cx" "async_chain_floor sz b cx \<le> max b (cx_n cx)"
  by (auto simp: async_chain_floor_def Let_def split: option.splits)

lemma stage_buffer_ok:
  assumes "ctx_small cx" and "p \<le> 2 ^ 32" and "size_ok b" and "cx_in_flight cx + 2 ^ 35 < u64_mod"
  obtains r where "stage_buffer sz b p cx = Inr (r, cx\<lparr>cx_in_flight := cx_in_flight cx + r\<rparr>)" "r \<le> 2 ^ 34"
proof (cases b)
  case None
  let ?r = "async_chain_floor sz (max (buffer_size (cx_config cx)) (p * 4)) cx"
  have "max (max (buffer_size (cx_config cx)) (p * 4)) (cx_n cx) \<le> 2 ^ 34" using assms(1,2) by (simp add: ctx_small_def)
  then have r: "?r \<le> 2 ^ 34" by (rule order_trans [OF chain_floor_bounds(2)])
  with None assms show thesis by (intro that [of ?r]) (simp_all add: stage_buffer_def ctx_buffer_size_def floored_ok note_in_flight_ok)
next
  case (Some k)
  with assms show thesis by (intro that [of k]) (simp_all add: stage_buffer_def size_ok_def note_in_flight_ok)
qed

lemma finalize_ok:
  assumes "ctx_small cx" and "cx_in_flight cx + 2 ^ 35 < u64_mod"
  obtains k m where "finalize_prev_rx pv cx = Inr (cx\<lparr>cx_in_flight := cx_in_flight cx + k, cx_bridges := m\<rparr>)" "k \<le> 2 ^ 35"
proof (cases "pv = PrevAsync")
  case True
  let ?k = "max (buffer_size (cx_config cx)) (cx_per_stage_parallelism cx * 4) + 1"
  have k: "?k \<le> 2 ^ 35" using assms(1) by (simp add: ctx_small_def)
  then have lt: "cx_in_flight cx + ?k < u64_mod" using assms(2) by linarith
  have a: "add_u64 (max (buffer_size (cx_config cx)) (cx_per_stage_parallelism cx * 4)) 1 = Inr ?k" using lt by (simp add: add_u64_def)
  have "note_in_flight ?k (cx\<lparr>cx_bridges := cx_bridges cx + 1\<rparr>) = Inr (cx\<lparr>cx_in_flight := cx_in_flight cx + ?k, cx_bridges := cx_bridges cx + 1\<rparr>)"
    by (subst note_in_flight_ok) (use lt in simp_all)
  with a True assms(1) have "finalize_prev_rx pv cx = Inr (cx\<lparr>cx_in_flight := cx_in_flight cx + ?k, cx_bridges := cx_bridges cx + 1\<rparr>)"
    by (simp add: finalize_prev_rx_def ctx_buffer_size_def floored_ok ctx_small_def)
  with k show thesis by (intro that)
next
  case False
  then show thesis by (intro that [where k = 0 and m = "cx_bridges cx"]) (simp_all add: finalize_prev_rx_def)
qed

text \<open>What a link dispatches: its workers as jobs of the pool, or as threads.\<close>

definition dispatched :: "stream_link \<Rightarrow> stream_ctx \<Rightarrow> stream_ctx" where
  "dispatched l cx =
     (case pool_options l of
        Some o' \<Rightarrow> spawn_stage_jobs (requested_workers o' cx)
          (if cx_dedicated_threads cx then cx
           else cx\<lparr>cx_stages_left := cx_stages_left cx - 1, cx_worker_slots_left := cx_worker_slots_left cx - requested_workers o' cx\<rparr>)
      | None \<Rightarrow> if is_fence l then spawn_stage_jobs 1 cx else cx)"

lemma requested_bounds: "1 \<le> requested_workers o' cx" "ctx_small cx \<Longrightarrow> requested_workers o' cx \<le> 2 ^ 32"
  by (auto simp: requested_workers_def ctx_small_def max_def)

lemma requested_same [simp]:
  "requested_workers o' (cx\<lparr>cx_in_flight := k\<rparr>) = requested_workers o' cx" "requested_workers o' (cx\<lparr>cx_bridges := k\<rparr>) = requested_workers o' cx"
  "requested_workers o' (spawn_stage_jobs j cx) = requested_workers o' cx" "requested_workers o' (cx\<lparr>cx_stages_left := k\<rparr>) = requested_workers o' cx"
  "requested_workers o' (cx\<lparr>cx_worker_slots_left := k\<rparr>) = requested_workers o' cx"
  by (simp_all add: requested_workers_request spawn_stage_jobs_def)

lemma spawn_stage_into_ok:
  assumes small: "ctx_small cx" and so: "size_ok (so_buffer o')" and fl: "cx_in_flight cx + 2 ^ 45 < u64_mod" and cap: "cap \<le> 2 ^ 12"
    and slots: "cx_dedicated_threads cx \<or> 1 \<le> cx_stages_left cx \<and> requested_workers o' cx + (cx_stages_left cx - 1) \<le> cx_worker_slots_left cx"
  obtains k where "spawn_stage_into cap terminal sz o' cx = Inr (spawn_stage_jobs (requested_workers o' cx)
      ((if cx_dedicated_threads cx then cx
        else cx\<lparr>cx_stages_left := cx_stages_left cx - 1, cx_worker_slots_left := cx_worker_slots_left cx - requested_workers o' cx\<rparr>)\<lparr>cx_in_flight := k\<rparr>))"
    "k \<le> cx_in_flight cx + 2 ^ 45"
proof -
  let ?r = "requested_workers o' cx"
  have r: "1 \<le> ?r" "?r \<le> 2 ^ 32" using requested_bounds small by auto
  have held: "?r * max cap 1 \<le> 2 ^ 44" using mult_mono [OF r(2), of "max cap 1" "2 ^ 12"] cap by simp
  define cx1 where "cx1 = (if cx_dedicated_threads cx then cx else cx\<lparr>cx_stages_left := cx_stages_left cx - 1, cx_worker_slots_left := cx_worker_slots_left cx - ?r,
    cx_in_flight := cx_in_flight cx + ?r * max cap 1\<rparr>)"
  have w: "stage_workers cap o' cx = Inr (?r, cx1)"
  proof (cases "cx_dedicated_threads cx")
    case False
    then have g: "max (min ?r (cx_worker_slots_left cx - (cx_stages_left cx - 1))) 1 = ?r" "?r \<le> cx_worker_slots_left cx" "1 \<le> cx_stages_left cx" using slots r by auto
    have "?r * max cap 1 < u64_mod" "cx_in_flight cx + ?r * max cap 1 < u64_mod" using held fl by (simp_all add: u64_mod_def)
    with False g show ?thesis unfolding stage_workers_def Let_def sub_u64_def mul_u64_def by (simp add: note_in_flight_ok cx1_def)
  qed (simp add: stage_workers_def cx1_def)
  have s1: "ctx_small cx1" "cx_in_flight cx1 \<le> cx_in_flight cx + 2 ^ 44" using small held by (auto simp: cx1_def)
  from stage_buffer_ok [OF s1(1) r(2) so] s1(2) fl obtain b where b: "stage_buffer sz (so_buffer o') ?r cx1 = Inr (b, cx1\<lparr>cx_in_flight := cx_in_flight cx1 + b\<rparr>)" "b \<le> 2 ^ 34" by auto
  define e where "e = (if terminal \<and> sharded_terminal ?r cx1 then (?r - 1) * MIN_SHARD_BUFFER else 0)"
  have "(?r - 1) * MIN_SHARD_BUFFER \<le> 2 ^ 34" using r by (simp add: MIN_SHARD_BUFFER_def)
  then have e: "e \<le> 2 ^ 34" by (simp add: e_def)
  have "sharded_terminal ?r (cx1\<lparr>cx_in_flight := cx_in_flight cx1 + b\<rparr>) = sharded_terminal ?r cx1" by (simp add: sharded_terminal_def)
  then have "spawn_stage_into cap terminal sz o' cx = Inr (spawn_stage_jobs ?r (cx1\<lparr>cx_in_flight := cx_in_flight cx1 + b + e\<rparr>))"
    using w b e s1(2) fl by (auto simp: spawn_stage_into_def e_def note_in_flight_ok mul_u64_def u64_mod_def)
  moreover have "cx_in_flight cx1 + b + e \<le> cx_in_flight cx + 2 ^ 45" using s1(2) b(2) e by simp
  ultimately show thesis by (intro that [of "cx_in_flight cx1 + b + e"]) (auto simp: cx1_def)
qed

lemma fence_hold_bound: "size_ok (chunk_size mode) \<Longrightarrow> n \<le> 2 ^ 32 \<Longrightarrow> cap \<le> 2 ^ 12 \<Longrightarrow> fence_hold cap mode n \<le> 2 ^ 33"
  by (cases mode) (auto simp: fence_hold_def chunk_size_def size_ok_def Let_def)

lemma spawn_fence_into_ok:
  assumes small: "ctx_small cx" and so: "size_ok (fo_buffer o')" "size_ok (chunk_size mode)" and fl: "cx_in_flight cx + 2 ^ 45 < u64_mod" and cap: "cap \<le> 2 ^ 12"
  obtains k where "spawn_fence_into cap sz mode o' cx = Inr (spawn_stage_jobs 1 (cx\<lparr>cx_in_flight := k\<rparr>))" "k \<le> cx_in_flight cx + 2 ^ 45"
proof -
  have p: "cx_per_stage_parallelism cx \<le> 2 ^ 32" "cx_n cx \<le> 2 ^ 32" using small by (simp_all add: ctx_small_def)
  from stage_buffer_ok [OF small p(1) so(1)] fl obtain b where b: "stage_buffer sz (fo_buffer o') (cx_per_stage_parallelism cx) cx = Inr (b, cx\<lparr>cx_in_flight := cx_in_flight cx + b\<rparr>)"
    "b \<le> 2 ^ 34" by auto
  let ?h = "fence_hold cap mode (cx_n cx)"
  have h: "?h \<le> 2 ^ 33" by (rule fence_hold_bound [OF so(2) p(2) cap])
  have "cx_in_flight cx + b + ?h < u64_mod" using fl b(2) h by simp
  then have "spawn_fence_into cap sz mode o' cx = Inr (spawn_stage_jobs 1 (cx\<lparr>cx_in_flight := cx_in_flight cx + b + ?h\<rparr>))"
    using b(1) by (simp add: spawn_fence_into_def note_in_flight_ok)
  moreover have "cx_in_flight cx + b + ?h \<le> cx_in_flight cx + 2 ^ 45" using b(2) h by simp
  ultimately show thesis by (rule that)
qed

lemma io_concurrency_bound: "ctx_small cx \<Longrightarrow> stage_io_concurrency o' cx \<le> 2 ^ 32"
  by (auto simp: stage_io_concurrency_def ctx_small_def min_def max_def)

lemma spawn_async_consumers_ok:
  assumes small: "ctx_small cx" and so: "size_ok (ao_buffer o')" and fl: "cx_in_flight cx + 2 ^ 44 < u64_mod"
  obtains k where "spawn_async_consumers terminal sz o' cx = Inr (cx\<lparr>cx_in_flight := k\<rparr>)" "k \<le> cx_in_flight cx + 2 ^ 44"
proof -
  let ?c = "stage_io_concurrency o' cx"
  have c: "?c \<le> 2 ^ 32" by (rule io_concurrency_bound [OF small])
  from stage_buffer_ok [OF small c so] fl obtain b where b: "stage_buffer sz (ao_buffer o') ?c cx = Inr (b, cx\<lparr>cx_in_flight := cx_in_flight cx + b\<rparr>)" "b \<le> 2 ^ 34" by auto
  let ?s = "sharded_async_terminal ?c cx"
  have "?s \<le> ?c" by (auto simp: sharded_async_terminal_def)
  define e where "e = (if terminal \<and> 0 < ?s then (?s - 1) * MIN_SHARD_BUFFER else 0)"
  have "(?s - 1) * MIN_SHARD_BUFFER \<le> 2 ^ 34" using c \<open>?s \<le> ?c\<close> by (simp add: MIN_SHARD_BUFFER_def)
  then have e: "e \<le> 2 ^ 34" by (simp add: e_def)
  have s': "sharded_async_terminal ?c (cx\<lparr>cx_in_flight := k\<rparr>) = ?s" for k by (simp add: sharded_async_terminal_def)
  have lt: "cx_in_flight cx + b + ?c + e < u64_mod" using fl b(2) c e by simp
  then have n: "note_in_flight ?c (cx\<lparr>cx_in_flight := cx_in_flight cx + b\<rparr>) = Inr (cx\<lparr>cx_in_flight := cx_in_flight cx + b + ?c\<rparr>)" by (subst note_in_flight_ok) simp_all
  have "spawn_async_consumers terminal sz o' cx = Inr (cx\<lparr>cx_in_flight := cx_in_flight cx + b + ?c + e\<rparr>)"
  proof (cases "terminal \<and> 0 < ?s")
    case True
    with lt e have "mul_u64 (?s - 1) MIN_SHARD_BUFFER = Inr e" "note_in_flight e (cx\<lparr>cx_in_flight := cx_in_flight cx + b + ?c\<rparr>) = Inr (cx\<lparr>cx_in_flight := cx_in_flight cx + b + ?c + e\<rparr>)"
      by (simp_all add: mul_u64_def e_def note_in_flight_ok)
    with b(1) n s' True show ?thesis by (simp add: spawn_async_consumers_def Let_def)
  qed (use b(1) n s' in \<open>auto simp: spawn_async_consumers_def Let_def e_def\<close>)
  moreover have "cx_in_flight cx + b + ?c + e \<le> cx_in_flight cx + 2 ^ 44" using b(2) c e by simp
  ultimately show thesis by (rule that)
qed

lemma spawn_async_stage_ok:
  assumes small: "ctx_small cx" and so: "size_ok (ao_buffer o')" and fl: "cx_in_flight cx + 2 ^ 45 < u64_mod"
  obtains k m where "spawn_async_stage af terminal pv psz sz o' cx = Inr (cx\<lparr>cx_in_flight := k, cx_bridges := m\<rparr>)" "k \<le> cx_in_flight cx + 2 ^ 45"
proof -
  have c: "stage_io_concurrency o' cx \<le> 2 ^ 32" by (rule io_concurrency_bound [OF small])
  obtain b m where first: "(if af then bind_res (stage_buffer psz (ao_buffer o') (stage_io_concurrency o' cx) cx) (\<lambda>(_, cx). Inr (cx\<lparr>cx_bridges := cx_bridges cx + 1\<rparr>))
      else Inr (if pv = AtStart then cx\<lparr>cx_bridges := cx_bridges cx + 1\<rparr> else cx)) = Inr (cx\<lparr>cx_in_flight := cx_in_flight cx + b, cx_bridges := m\<rparr>)" "b \<le> 2 ^ 34"
  proof (cases af)
    case True
    from stage_buffer_ok [OF small c so, of psz] fl obtain b where "stage_buffer psz (ao_buffer o') (stage_io_concurrency o' cx) cx = Inr (b, cx\<lparr>cx_in_flight := cx_in_flight cx + b\<rparr>)" "b \<le> 2 ^ 34" by auto
    with True show thesis by (intro that [where b = b and m = "cx_bridges cx + 1"]) simp_all
  next
    case False
    then show thesis by (intro that [where b = 0 and m = "if pv = AtStart then cx_bridges cx + 1 else cx_bridges cx"]) simp_all
  qed
  let ?cx = "cx\<lparr>cx_in_flight := cx_in_flight cx + b, cx_bridges := m\<rparr>"
  have "ctx_small ?cx" "cx_in_flight ?cx + 2 ^ 44 < u64_mod" using small fl first(2) by simp_all
  from spawn_async_consumers_ok [OF this(1) so this(2), of terminal sz] obtain k where
    "spawn_async_consumers terminal sz o' ?cx = Inr (?cx\<lparr>cx_in_flight := k\<rparr>)" "k \<le> cx_in_flight cx + b + 2 ^ 44" by auto
  with first show thesis by (intro that [where k = k and m = m]) (simp_all add: spawn_async_stage_def)
qed

lemma ctx_swap:
  "cx\<lparr>cx_bridges := m, cx_in_flight := k\<rparr> = cx\<lparr>cx_in_flight := k, cx_bridges := m\<rparr>"
  "cx\<lparr>cx_bridges := m, cx_stages_left := s, cx_worker_slots_left := t, cx_in_flight := k\<rparr> = cx\<lparr>cx_in_flight := k, cx_bridges := m, cx_stages_left := s, cx_worker_slots_left := t\<rparr>"
  by simp_all

lemma spawn_link_ok:
  assumes small: "ctx_small cx" "link_small l" and fl: "cx_in_flight cx + 2 ^ 46 < u64_mod" and cap: "cap \<le> 2 ^ 12"
    and slots: "\<And>o'. pool_options l = Some o' \<Longrightarrow> cx_dedicated_threads cx \<or> 1 \<le> cx_stages_left cx \<and> requested_workers o' cx + (cx_stages_left cx - 1) \<le> cx_worker_slots_left cx"
  obtains k m where "spawn_link cap af terminal pv psz l sz cx = Inr (dispatched l (cx\<lparr>cx_in_flight := k, cx_bridges := m\<rparr>))" "k \<le> cx_in_flight cx + 2 ^ 46"
proof -
  have fl35: "cx_in_flight cx + 2 ^ 35 < u64_mod" and fl45: "cx_in_flight cx + 2 ^ 45 < u64_mod" using fl by simp_all
  from finalize_ok [OF small(1) fl35, of pv] obtain f m where f: "finalize_prev_rx pv cx = Inr (cx\<lparr>cx_in_flight := cx_in_flight cx + f, cx_bridges := m\<rparr>)" "f \<le> 2 ^ 35" .
  let ?cx = "cx\<lparr>cx_in_flight := cx_in_flight cx + f, cx_bridges := m\<rparr>"
  have s': "ctx_small ?cx" "cx_in_flight ?cx + 2 ^ 45 < u64_mod" using small(1) fl f(2) by simp_all
  show thesis
  proof (cases "pool_options l")
    case (Some o')
    have so: "size_ok (so_buffer o')" using small(2) Some by (cases l) auto
    have sl: "cx_dedicated_threads ?cx \<or> 1 \<le> cx_stages_left ?cx \<and> requested_workers o' ?cx + (cx_stages_left ?cx - 1) \<le> cx_worker_slots_left ?cx"
      using slots [OF Some] by simp
    from spawn_stage_into_ok [OF s'(1) so s'(2) cap sl, of terminal sz] obtain k where k: "spawn_stage_into cap terminal sz o' ?cx = Inr (spawn_stage_jobs (requested_workers o' ?cx)
      ((if cx_dedicated_threads ?cx then ?cx else ?cx\<lparr>cx_stages_left := cx_stages_left ?cx - 1, cx_worker_slots_left := cx_worker_slots_left ?cx - requested_workers o' ?cx\<rparr>)\<lparr>cx_in_flight := k\<rparr>))"
      "k \<le> cx_in_flight ?cx + 2 ^ 45" .
    have "spawn_link cap af terminal pv psz l sz cx = bind_res (finalize_prev_rx pv cx) (spawn_stage_into cap terminal sz o')" using Some by (cases l) (simp_all add: spawn_link_def)
    moreover have "bind_res (finalize_prev_rx pv cx) (spawn_stage_into cap terminal sz o') = Inr (dispatched l (cx\<lparr>cx_in_flight := k, cx_bridges := m\<rparr>))" using f(1) k(1) Some by (simp add: dispatched_def ctx_swap)
    moreover have "k \<le> cx_in_flight cx + 2 ^ 46" using k(2) f(2) by simp
    ultimately show thesis using that [where k = k and m = m] by simp
  next
    case None
    show thesis
    proof (cases "is_fence l")
      case True
      then obtain mode o' where l: "l = FenceLink mode o'" by (cases l) auto
      with small(2) have so: "size_ok (fo_buffer o')" "size_ok (chunk_size mode)" by simp_all
      from spawn_fence_into_ok [OF s'(1) so s'(2) cap, of sz] obtain k where "spawn_fence_into cap sz mode o' ?cx = Inr (spawn_stage_jobs 1 (?cx\<lparr>cx_in_flight := k\<rparr>))"
        "k \<le> cx_in_flight ?cx + 2 ^ 45" .
      with f l show thesis by (intro that [where k = k and m = m]) (simp_all add: spawn_link_def dispatched_def ctx_swap)
    next
      case False
      with None obtain o' where o': "size_ok (ao_buffer o')" "spawn_link cap af terminal pv psz l sz cx = spawn_async_stage af terminal pv psz sz o' cx"
        using small(2) by (cases l) (auto simp: spawn_link_def)
      from spawn_async_stage_ok [OF small(1) o'(1) fl45, of af terminal pv psz sz] obtain k m where
        "spawn_async_stage af terminal pv psz sz o' cx = Inr (cx\<lparr>cx_in_flight := k, cx_bridges := m\<rparr>)" "k \<le> cx_in_flight cx + 2 ^ 45" .
      with o'(2) None False show thesis by (intro that [where k = k and m = m]) (simp_all add: dispatched_def)
    qed
  qed
qed

section \<open>The walk\<close>

definition workers_of :: "stream_ctx \<Rightarrow> stream_link list \<Rightarrow> nat" where
  "workers_of cx ls = sum_list (map (\<lambda>o'. requested_workers o' cx) (pool_stages ls))"

lemma workers_of_length: "length (pool_stages ls) \<le> workers_of cx ls"
  unfolding workers_of_def by (rule length_le_weigh) (use requested_bounds(1) in \<open>simp add: Suc_le_eq\<close>)

definition lease_after :: "nat \<Rightarrow> stream_ctx \<Rightarrow> stream_ctx \<Rightarrow> bool" where
  "lease_after jobs cx cx' \<longleftrightarrow> (if cx_dedicated_threads cx then cx_pool_jobs cx' = cx_pool_jobs cx \<and> cx_lease cx' = cx_lease cx \<and> cx_threads cx' = cx_threads cx + jobs
     else cx_pool_jobs cx' = cx_pool_jobs cx + jobs \<and> cx_lease cx' = map_option (wrap_jobs jobs) (cx_lease cx) \<and> cx_threads cx' = cx_threads cx)"

lemma wrap_jobs_add [simp]: "wrap_jobs a (wrap_jobs b l) = wrap_jobs (b + a) l" "wrap_jobs 0 l = l"
  by (simp_all add: wrap_jobs_def)

lemma wrap_no_jobs [simp]: "map_option (wrap_jobs 0) l = l"
  by (cases l) simp_all

lemma dispatched_facts:
  "cx_config (dispatched l cx) = cx_config cx" "cx_n (dispatched l cx) = cx_n cx" "cx_per_stage_parallelism (dispatched l cx) = cx_per_stage_parallelism cx"
  "cx_dedicated_threads (dispatched l cx) = cx_dedicated_threads cx" "cx_in_flight (dispatched l cx) = cx_in_flight cx"
  by (simp_all add: dispatched_def spawn_stage_jobs_def split: option.splits)

lemma spawn_walk_ok:
  assumes "ctx_small cx" and "\<forall>l \<in> set (map fst ls). link_small l" and "cx_in_flight cx + length ls * 2 ^ 46 < u64_mod" and cap: "cap \<le> 2 ^ 12"
    and "cx_dedicated_threads cx \<or> cx_stages_left cx = length (pool_stages (map fst ls)) \<and> workers_of cx (map fst ls) \<le> cx_worker_slots_left cx"
  shows "\<exists>cx'. spawn_walk cap af pv psz ls cx = Inr cx' \<and> lease_after (workers_of cx (map fst ls) + fences (map fst ls)) cx cx'"
  using assms(1-3,5)
proof (induction ls arbitrary: pv psz cx)
  case Nil
  then show ?case by (auto simp: workers_of_def lease_after_def option.map_ident)
next
  case (Cons x ls)
  obtain l sz where x: "x = (l, sz)" by (cases x)
  let ?ls = "map fst ls"
  have small: "ctx_small cx" "link_small l" "cx_in_flight cx + 2 ^ 46 < u64_mod" using Cons.prems x by simp_all
  have slots: "cx_dedicated_threads cx \<or> 1 \<le> cx_stages_left cx \<and> requested_workers o' cx + (cx_stages_left cx - 1) \<le> cx_worker_slots_left cx" if "pool_options l = Some o'" for o'
    using Cons.prems(4) that x workers_of_length [of ?ls cx] by (auto simp: pool_stages_Cons workers_of_def)
  from spawn_link_ok [OF small cap slots, of af "ls = []" pv psz sz] obtain k m where
    k: "spawn_link cap af (ls = []) pv psz l sz cx = Inr (dispatched l (cx\<lparr>cx_in_flight := k, cx_bridges := m\<rparr>))" "k \<le> cx_in_flight cx + 2 ^ 46" by blast
  define cx1 where "cx1 = dispatched l (cx\<lparr>cx_in_flight := k, cx_bridges := m\<rparr>)"
  have w: "workers_of cx1 ?ls = workers_of cx ?ls" by (simp add: workers_of_def requested_workers_request cx1_def dispatched_facts)
  let ?j = "(case pool_options l of Some o' \<Rightarrow> requested_workers o' cx | None \<Rightarrow> if is_fence l then 1 else 0)"
  have j: "lease_after ?j cx cx1" by (auto simp: cx1_def dispatched_def lease_after_def spawn_stage_jobs_def option.map_ident split: option.splits)
  have total: "workers_of cx (l # ?ls) + fences (l # ?ls) = ?j + (workers_of cx ?ls + fences ?ls)"
    using fence_not_pool(1) [of l] by (auto simp: workers_of_def pool_stages_Cons fences_def split: option.splits)
  have s1: "ctx_small cx1" "cx_dedicated_threads cx1 = cx_dedicated_threads cx" using small(1) by (simp_all add: cx1_def ctx_small_def dispatched_facts)
  have f1: "cx_in_flight cx1 + length ls * 2 ^ 46 < u64_mod" using k(2) Cons.prems(3) by (simp add: cx1_def dispatched_facts)
  have sl: "cx_dedicated_threads cx1 \<or> cx_stages_left cx1 = length (pool_stages ?ls) \<and> workers_of cx1 ?ls \<le> cx_worker_slots_left cx1"
    using Cons.prems(4) x unfolding w s1(2) by (auto simp: cx1_def dispatched_def spawn_stage_jobs_def pool_stages_Cons workers_of_def split: option.splits)
  have "\<forall>l \<in> set ?ls. link_small l" using Cons.prems(2) by simp
  from Cons.IH [OF s1(1) this f1 sl] obtain cx' where r: "spawn_walk cap af (if is_async l then PrevAsync else PrevSync) sz ls cx1 = Inr cx'"
    "lease_after (workers_of cx ?ls + fences ?ls) cx1 cx'" unfolding w by blast
  have "spawn_walk cap af pv psz (x # ls) cx = Inr cx'" using x k(1) r(1) by (simp add: cx1_def)
  moreover have "lease_after (?j + (workers_of cx ?ls + fences ?ls)) cx cx'" using j r(2) s1(2) by (auto simp: lease_after_def option.map_comp comp_def)
  ultimately show ?case using total x by auto
qed

section \<open>Admission\<close>

lemma end_jobs_slots:
  "k \<le> rg_parking_slots rg \<Longrightarrow> rg_parking_slots rg < u64_mod \<Longrightarrow> end_jobs k rg = rg\<lparr>rg_parking_slots := rg_parking_slots rg - k\<rparr>"
proof (induction k arbitrary: rg)
  case (Suc k)
  then have "release_parking 1 rg = rg\<lparr>rg_parking_slots := rg_parking_slots rg - 1\<rparr>" by (simp add: release_parking_def)
  with Suc.IH [of "release_parking 1 rg"] Suc.prems show ?case by simp
qed simp

text \<open>The two outcomes of admission: a lease of all the run may need, or threads of its own.\<close>

definition admits :: "stage_budget \<Rightarrow> nat \<Rightarrow> nat \<Rightarrow> nat \<Rightarrow> admission \<Rightarrow> bool" where
  "admits b n feeder_slot pool_threads ad \<longleftrightarrow> (\<exists>need per. 1 \<le> per \<and> per \<le> max pool_threads 1 \<and>
     need = feeder_slot + sb_fences b + sb_explicit_workers b + (sb_stages b - sb_explicit_stages b) * min per n \<and>
     ad = \<lparr>ad_lease = Some \<lparr>pl_reserved = need, pl_spawned = 0\<rparr>, ad_dedicated_threads = False, ad_per_stage_parallelism = per,
       ad_worker_slots_left = sb_explicit_workers b + (sb_stages b - sb_explicit_stages b) * min per n, ad_stages_left = sb_stages b\<rparr>)"

lemma resolve_admission_cases:
  assumes c: "compute_workers c \<le> 2 ^ 32" "buffer_size c \<le> 2 ^ 32" and pool: "num_threads rg \<le> 2 ^ 16" "rg_parking_slots rg \<le> num_threads rg"
    and seen: "used \<le> num_threads rg" "\<forall>s \<in> set seen. s \<le> num_threads rg"
    and b: "sb_fences b \<le> 2 ^ 16" "sb_stages b \<le> 2 ^ 16" "sb_explicit_workers b \<le> 2 ^ 60" and n: "1 \<le> n"
  shows "\<exists>ad rg'. resolve_admission on_pool used seen b c n rg = Inr (ad, rg') \<and>
     (if ad_dedicated_threads ad then ad_lease ad = None \<and> 1 \<le> ad_per_stage_parallelism ad \<and> ad_per_stage_parallelism ad \<le> 2 ^ 32 \<and>
        (\<exists>s \<in> set (rg_parking_slots rg # seen). rg' = rg\<lparr>rg_parking_slots := s\<rparr>)
      else admits b n (if max (buffer_size c) 4 < n then 1 else 0) (num_threads rg) ad \<and>
        (\<exists>s \<in> set (rg_parking_slots rg # seen). s + pl_reserved (the (ad_lease ad)) \<le> num_threads rg \<and> rg' = rg\<lparr>rg_parking_slots := s + pl_reserved (the (ad_lease ad))\<rparr>))"
proof -
  define fs where "fs = (if max (buffer_size c) 4 < n then 1 else 0 :: nat)"
  define wb where "wb = (if compute_workers_pinned c then compute_workers c else max (compute_workers c) (num_threads rg))"
  define per where "per = default_workers b (min wb (num_threads rg - (used + fs + sb_fences b)))"
  define fw where "fw = (sb_stages b - sb_explicit_stages b) * min per n"
  define need where "need = fs + sb_fences b + sb_explicit_workers b + fw"
  have fs: "fs \<le> 1" by (simp add: fs_def)
  have wb: "wb \<le> 2 ^ 32" using c(1) pool(1) by (auto simp: wb_def)
  have ded: "1 \<le> default_workers b wb" "default_workers b wb \<le> 2 ^ 32" using default_workers_bounds [of b wb] wb by auto
  have "min wb (num_threads rg - (used + fs + sb_fences b)) \<le> num_threads rg" by (rule min.coboundedI2) simp
  then have "max (min wb (num_threads rg - (used + fs + sb_fences b))) 1 \<le> max (num_threads rg) 1" by linarith
  then have per: "1 \<le> per" "per \<le> max (num_threads rg) 1"
    using default_workers_bounds [of b "min wb (num_threads rg - (used + fs + sb_fences b))"] unfolding per_def by (blast, linarith)
  have "min per n \<le> 2 ^ 16" using per(2) pool(1) by (auto simp: min_def)
  then have fw: "fw \<le> 2 ^ 32" using mult_mono [of "sb_stages b - sb_explicit_stages b" "2 ^ 16" "min per n" "2 ^ 16"] b(2) by (simp add: fw_def)
  have cap: "floored_channel_capacity (buffer_size c) 1 = Inr (max (buffer_size c) 4)" by (simp add: floored_ok)
  have adds: "add_u64 used fs = Inr (used + fs)" "add_u64 (used + fs) (sb_fences b) = Inr (used + fs + sb_fences b)" "add_u64 fs (sb_fences b) = Inr (fs + sb_fences b)"
    "add_u64 (fs + sb_fences b) (sb_explicit_workers b) = Inr (fs + sb_fences b + sb_explicit_workers b)" "mul_u64 (sb_stages b - sb_explicit_stages b) (min per n) = Inr fw"
    "add_u64 (fs + sb_fences b + sb_explicit_workers b) fw = Inr need"
    using fs b seen(1) pool(1) fw by (simp_all add: add_u64_def mul_u64_def u64_mod_def fw_def [symmetric] need_def)
  have red: "resolve_admission on_pool used seen b c n rg =
     (if on_pool \<or> num_threads rg < need then Inr (dedicated_admission b wb, rg)
      else bind_res (try_reserve_parking seen need rg) (\<lambda>(ok, rg').
        Inr (if ok then \<lparr>ad_lease = Some \<lparr>pl_reserved = need, pl_spawned = 0\<rparr>, ad_dedicated_threads = False, ad_per_stage_parallelism = per,
                   ad_worker_slots_left = need - fs - sb_fences b, ad_stages_left = sb_stages b\<rparr>
             else dedicated_admission b wb, rg')))"
    unfolding resolve_admission_def Let_def cap bind_res_simps wb_def [symmetric] fs_def [symmetric]
    adds(1-4) bind_res_simps per_def [symmetric] adds(5,6) by simp
  show ?thesis
  proof (cases "on_pool \<or> num_threads rg < need")
    case True
    with red ded show ?thesis by (auto simp: dedicated_admission_def intro!: bexI [of _ "rg_parking_slots rg"])
  next
    case False
    have bd: "\<forall>s \<in> set (rg_parking_slots rg # seen). s + need < u64_mod" using False pool seen by (auto simp: u64_mod_def)
    from try_reserve_parking_retries [OF bd] obtain s where s: "s \<in> set (rg_parking_slots rg # seen)"
      "try_reserve_parking seen need rg = try_reserve_parking [] need (rg\<lparr>rg_parking_slots := s\<rparr>)" by blast
    have "s + need < u64_mod" using bd s(1) by blast
    then have t: "try_reserve_parking seen need rg = Inr (s + need \<le> num_threads rg, rg\<lparr>rg_parking_slots := if s + need \<le> num_threads rg then s + need else s\<rparr>)"
      unfolding s(2) by (subst try_reserve_parking_once) (auto simp: num_threads_def)
    have adm: "admits b n fs (num_threads rg) \<lparr>ad_lease = Some \<lparr>pl_reserved = need, pl_spawned = 0\<rparr>, ad_dedicated_threads = False, ad_per_stage_parallelism = per,
        ad_worker_slots_left = need - fs - sb_fences b, ad_stages_left = sb_stages b\<rparr>"
      unfolding admits_def by (intro exI [of _ need] exI [of _ per]) (use per in \<open>simp add: need_def fw_def\<close>)
    show ?thesis
    proof (cases "s + need \<le> num_threads rg")
      case True
      with red False t adm s(1) show ?thesis unfolding fs_def [symmetric] by auto
    next
      case no: False
      with red False t ded s(1) show ?thesis by (auto simp: dedicated_admission_def)
    qed
  qed
qed

lemma feeder_ok:
  assumes small: "ctx_small cx" and cap: "cap \<le> 2 ^ 12" and fl: "cx_in_flight cx = 0" and links: "\<forall>l \<in> set (map fst ls). link_small l" "length ls \<le> 2 ^ 16"
    and slots: "cx_dedicated_threads cx \<or> cx_stages_left cx = length (pool_stages (map fst ls)) \<and> workers_of cx (map fst ls) \<le> cx_worker_slots_left cx"
    and per: "1 \<le> cx_per_stage_parallelism cx"
  shows "\<exists>fd cx'. route_feeder cap in_sz ls cx = Inr (fd, cx') \<and> lease_after ((if fd = InlineFeeder then 0 else 1) + workers_of cx (map fst ls) + fences (map fst ls)) cx cx' \<and>
     (fd \<noteq> InlineFeeder \<longrightarrow> max (buffer_size (cx_config cx)) 4 < cx_n cx) \<and> (fd = PoolFeeder \<longrightarrow> \<not> cx_dedicated_threads cx)"
proof -
  let ?p = "cx_per_stage_parallelism cx"
  let ?b = "max (buffer_size (cx_config cx)) (?p * 4)"
  let ?buf = "async_chain_floor in_sz ?b cx"
  have b: "ctx_buffer_size ?p cx = Inr ?b" using small by (simp add: ctx_buffer_size_def floored_ok ctx_small_def)
  have "max ?b (cx_n cx) \<le> 2 ^ 34" using small by (simp add: ctx_small_def)
  then have buf: "?buf \<le> 2 ^ 34" "?b \<le> ?buf" using chain_floor_bounds(1) [of ?b in_sz cx] chain_floor_bounds(2) [of in_sz ?b cx] by linarith+
  let ?h = "?buf + (1 + cap)"
  have h: "?h \<le> 2 ^ 35" using buf(1) cap by simp
  then have a: "add_u64 ?buf (1 + cap) = Inr ?h" "note_in_flight ?h cx = Inr (cx\<lparr>cx_in_flight := ?h\<rparr>)" using fl by (simp_all add: add_u64_def note_in_flight_ok u64_mod_def)
  define cx1 where "cx1 = cx\<lparr>cx_in_flight := ?h\<rparr>"
  obtain fd cx2 where f: "feed_items ?buf cx1 = (fd, cx2)" by (cases "feed_items ?buf cx1")
  have fd: "lease_after (if fd = InlineFeeder then 0 else 1) cx cx2" "fd \<noteq> InlineFeeder \<longrightarrow> ?buf < cx_n cx" "fd = PoolFeeder \<longrightarrow> \<not> cx_dedicated_threads cx"
    using f by (auto simp: feed_items_def cx1_def lease_after_def spawn_stage_jobs_def split: if_splits)
  have same: "ctx_small cx2" "cx_dedicated_threads cx2 = cx_dedicated_threads cx" "workers_of cx2 ls' = workers_of cx ls'" "cx_in_flight cx2 = ?h"
      "cx_stages_left cx2 = cx_stages_left cx" "cx_worker_slots_left cx2 = cx_worker_slots_left cx" for ls'
    using f small by (auto simp: feed_items_def cx1_def workers_of_def requested_workers_request spawn_stage_jobs_def ctx_small_def split: if_splits)
  have lt: "max (buffer_size (cx_config cx)) 4 < cx_n cx" if "fd \<noteq> InlineFeeder" using fd(2) that buf(2) per by auto
  let ?af = "first_consumer_is_async (map fst ls) = Some True"
  have fl2: "cx_in_flight cx2 + length ls * 2 ^ 46 < u64_mod" using h links(2) by (simp add: same(4) u64_mod_def)
  have sl2: "cx_dedicated_threads cx2 \<or> cx_stages_left cx2 = length (pool_stages (map fst ls)) \<and> workers_of cx2 (map fst ls) \<le> cx_worker_slots_left cx2"
    using slots by (simp add: same(2,3,5,6))
  from spawn_walk_ok [OF same(1) links(1) fl2 cap sl2, of ?af "if ?af then PrevAsync else AtStart" in_sz] obtain cx3 where
    w: "spawn_walk cap ?af (if ?af then PrevAsync else AtStart) in_sz ls cx2 = Inr cx3" "lease_after (workers_of cx (map fst ls) + fences (map fst ls)) cx2 cx3"
    unfolding same(3) by blast
  define cx' where "cx' = (if ls = [] then cx2\<lparr>cx_bridges := cx_bridges cx2 + 1\<rparr> else cx3)"
  have "lease_after (workers_of cx (map fst ls) + fences (map fst ls)) cx2 cx'" using w(2) by (cases ls) (auto simp: cx'_def lease_after_def workers_of_def)
  then have "lease_after ((if fd = InlineFeeder then 0 else 1) + workers_of cx (map fst ls) + fences (map fst ls)) cx cx'"
    using fd(1) same(2) by (auto simp: lease_after_def option.map_comp comp_def ac_simps)
  moreover have "route_feeder cap in_sz ls cx = Inr (fd, cx')"
    unfolding route_feeder_def Let_def b bind_res_simps a cx1_def [symmetric] f prod.case w(1) cx'_def by simp
  ultimately show ?thesis using lt fd(3) by blast
qed

text \<open>
  C40. A streaming run never parks more jobs on the pool than it has leased. For every chain of stages,
  fences and async stages with nonzero pins, every configuration, feeder size and snapshot of the pool's
  load, admission and the spawn walk run without a fault: in particular the worker budget never
  underflows. A run admitted to the pool dispatches there one job for the feeder (if the items exceed the
  feeder channel), one per fence and, for every stage, all the workers it asked for: a pin is clamped to
  the number of items and never to what is left of the budget. These jobs fit its lease, the lease fits what the pool had left, and when the jobs have ended
  and the lease is dropped all its slots are back. A run that is not admitted leaves the pool alone.
  The sizes are bounded so that no sum of the admission overflows: pins that sum to at most \<open>2 ^ 60\<close>, at most
  \<open>2 ^ 16\<close> links and pool workers, \<open>2 ^ 32\<close> items, configured workers and buffer slots.
\<close>

theorem admitted_runs_fit:
  assumes pos: "\<forall>w \<in> set (pins (pool_stages (map fst ls))). 1 \<le> w" and total: "sum_list (pins (pool_stages (map fst ls))) \<le> 2 ^ 60"
    and links: "\<forall>l \<in> set (map fst ls). link_small l" "length ls \<le> 2 ^ 16" and n: "1 \<le> n" "n \<le> 2 ^ 32" and cap: "cap \<le> 2 ^ 12"
    and c: "compute_workers c \<le> 2 ^ 32" "buffer_size c \<le> 2 ^ 32" and pool: "num_threads rg \<le> 2 ^ 16" "rg_parking_slots rg \<le> num_threads rg"
    and seen: "used \<le> num_threads rg" "\<forall>s \<in> set seen. s \<le> num_threads rg"
  shows "\<exists>b ad rg1 fd cx s. chain_budget (map fst ls) = Inr b \<and> resolve_admission on_pool used seen b c n rg = Inr (ad, rg1) \<and>
     route_feeder cap in_sz ls (admitted_ctx c n policy ls ad) = Inr (fd, cx) \<and> s \<in> set (rg_parking_slots rg # seen) \<and>
     (case ad_lease ad of
        None \<Rightarrow> cx_pool_jobs cx = 0 \<and> rg_parking_slots rg1 = s
      | Some lease \<Rightarrow> \<exists>lease'. cx_lease cx = Some lease' \<and>
          cx_pool_jobs cx = (if fd = InlineFeeder then 0 else 1) + fences (map fst ls) + sum_list (map (request (ad_per_stage_parallelism ad) n) (pool_stages (map fst ls))) \<and>
          cx_pool_jobs cx \<le> pl_reserved lease \<and> s + pl_reserved lease \<le> num_threads rg \<and> rg_parking_slots rg1 = s + pl_reserved lease \<and>
          lease_drop lease' (end_jobs (cx_pool_jobs cx) rg1) = Inr (rg1\<lparr>rg_parking_slots := s\<rparr>))"
proof -
  let ?ls = "map fst ls" let ?os = "pool_stages ?ls"
  define b where "b = \<lparr>sb_stages = length ?os, sb_fences = fences ?ls, sb_explicit_stages = length (pins ?os), sb_explicit_workers = sum_list (pins ?os)\<rparr>"
  have cb: "chain_budget ?ls = Inr b" using chain_budget_counts [of ?ls] total by (simp add: b_def u64_mod_def)
  have small: "length ?os \<le> length ls" "fences ?ls \<le> length ls" unfolding fences_def
    using length_filter_le [of is_fence ?ls] by (auto simp: pool_stages_def map_filter_def)
  have bb: "sb_fences b \<le> 2 ^ 16" "sb_stages b \<le> 2 ^ 16" "sb_explicit_workers b \<le> 2 ^ 60" using small links(2) total by (simp_all add: b_def)
  from resolve_admission_cases [OF c pool seen bb n(1), of on_pool] obtain ad rg1 where r: "resolve_admission on_pool used seen b c n rg = Inr (ad, rg1)"
    and alt: "if ad_dedicated_threads ad then ad_lease ad = None \<and> 1 \<le> ad_per_stage_parallelism ad \<and> ad_per_stage_parallelism ad \<le> 2 ^ 32 \<and>
        (\<exists>s \<in> set (rg_parking_slots rg # seen). rg1 = rg\<lparr>rg_parking_slots := s\<rparr>)
      else admits b n (if max (buffer_size c) 4 < n then 1 else 0) (num_threads rg) ad \<and>
        (\<exists>s \<in> set (rg_parking_slots rg # seen). s + pl_reserved (the (ad_lease ad)) \<le> num_threads rg \<and> rg1 = rg\<lparr>rg_parking_slots := s + pl_reserved (the (ad_lease ad))\<rparr>)" by blast
  let ?cx = "admitted_ctx c n policy ls ad"
  have work: "workers_of ?cx ?ls = sum_list (map (request (ad_per_stage_parallelism ad) n) ?os)" by (simp add: workers_of_def requested_workers_request admitted_ctx_def)
  show ?thesis
  proof (cases "ad_dedicated_threads ad")
    case True
    from alt obtain s where a: "ad_lease ad = None" "1 \<le> ad_per_stage_parallelism ad" "ad_per_stage_parallelism ad \<le> 2 ^ 32" "s \<in> set (rg_parking_slots rg # seen)" "rg1 = rg\<lparr>rg_parking_slots := s\<rparr>" unfolding if_P [OF True] by blast
    have "ctx_small ?cx" using a c n by (simp add: ctx_small_def admitted_ctx_def)
    from feeder_ok [OF this cap _ links, of in_sz] True a(2) obtain fd cx where "route_feeder cap in_sz ls ?cx = Inr (fd, cx)"
      "lease_after ((if fd = InlineFeeder then 0 else 1) + workers_of ?cx ?ls + fences ?ls) ?cx cx" by (auto simp: admitted_ctx_def)
    with cb r a True show ?thesis by (intro exI [of _ b] exI [of _ ad] exI [of _ rg1] exI [of _ fd] exI [of _ cx] exI [of _ s]) (simp add: lease_after_def admitted_ctx_def)
  next
    case False
    define fs where "fs = (if max (buffer_size c) 4 < n then 1 else 0 :: nat)"
    from alt obtain s where s: "s \<in> set (rg_parking_slots rg # seen)" "s + pl_reserved (the (ad_lease ad)) \<le> num_threads rg" "rg1 = rg\<lparr>rg_parking_slots := s + pl_reserved (the (ad_lease ad))\<rparr>"
      and adm: "admits b n fs (num_threads rg) ad" unfolding fs_def if_not_P [OF False] by blast
    from adm obtain need per where a: "1 \<le> per" "per \<le> max (num_threads rg) 1" "need = fs + sb_fences b + sb_explicit_workers b + (sb_stages b - sb_explicit_stages b) * min per n"
      "ad = \<lparr>ad_lease = Some \<lparr>pl_reserved = need, pl_spawned = 0\<rparr>, ad_dedicated_threads = False, ad_per_stage_parallelism = per,
         ad_worker_slots_left = sb_explicit_workers b + (sb_stages b - sb_explicit_stages b) * min per n, ad_stages_left = sb_stages b\<rparr>" unfolding admits_def by blast
    have "per \<le> 2 ^ 32" using a(2) pool(1) by (simp add: max_def split: if_splits)
    then have "ctx_small ?cx" using a(4) c n by (simp add: ctx_small_def admitted_ctx_def)
    moreover have fit: "sum_list (map (request per n) ?os) \<le> sb_explicit_workers b + (sb_stages b - sb_explicit_stages b) * min per n"
      using requests_fit [OF n(1) a(1) pos] by (simp add: b_def)
    moreover have "cx_stages_left ?cx = length ?os \<and> workers_of ?cx ?ls \<le> cx_worker_slots_left ?cx" unfolding work using a(4) fit by (simp add: admitted_ctx_def b_def)
    ultimately obtain fd cx where f: "route_feeder cap in_sz ls ?cx = Inr (fd, cx)" "lease_after ((if fd = InlineFeeder then 0 else 1) + workers_of ?cx ?ls + fences ?ls) ?cx cx"
      "fd \<noteq> InlineFeeder \<longrightarrow> max (buffer_size c) 4 < n" using feeder_ok [of ?cx cap ls in_sz] cap links a(1,4) by (fastforce simp: admitted_ctx_def)
    define k where "k = (if fd = InlineFeeder then 0 else 1) + fences ?ls + sum_list (map (request per n) ?os)"
    have "(if fd = InlineFeeder then 0 else 1) \<le> fs" using f(3) by (auto simp: fs_def)
    then have kn: "k \<le> need" using fit a(3) by (simp add: k_def b_def)
    have jobs: "cx_pool_jobs cx = k" "cx_lease cx = Some \<lparr>pl_reserved = need, pl_spawned = k\<rparr>"
      using f(2) a(4) unfolding work by (simp_all add: lease_after_def admitted_ctx_def k_def wrap_jobs_def ac_simps)
    have lt: "s + need < u64_mod" using s(2) pool(1) a(4) by (simp add: u64_mod_def)
    have "end_jobs k rg1 = rg1\<lparr>rg_parking_slots := s + need - k\<rparr>" using end_jobs_slots [of k rg1] s(3) kn lt a(4) by simp
    moreover have "release_parking (need - k) (rg1\<lparr>rg_parking_slots := s + need - k\<rparr>) = rg1\<lparr>rg_parking_slots := s\<rparr>" using kn lt by (auto simp: release_parking_def)
    ultimately have drop: "lease_drop \<lparr>pl_reserved = need, pl_spawned = k\<rparr> (end_jobs k rg1) = Inr (rg1\<lparr>rg_parking_slots := s\<rparr>)" using kn by (simp add: lease_drop_def sub_u64_def)
    show ?thesis using cb r f(1) s jobs kn drop a(4)
      by (intro exI [of _ b] exI [of _ ad] exI [of _ rg1] exI [of _ fd] exI [of _ cx] exI [of _ s]) (simp add: k_def)
  qed
qed

theorem admitted_runs_fit_witness:
  "\<exists>d ad rg1 cx. lifo_holds d 256 0 [] \<and>
     resolve_admission False 0 [] \<lparr>sb_stages = 2, sb_fences = 1, sb_explicit_stages = 1, sb_explicit_workers = 2\<rparr> (config_default 4) 1000
       \<lparr>rg_deques = replicate 8 d, rg_spawned = 8, rg_injected = unbounded_new, rg_terminate_count = 1, rg_parking_slots = 0, rg_terminate = [], rg_notes = []\<rparr>
       = Inr (ad, rg1 :: nat registry) \<and>
     route_feeder 64 16
       [(SyncStage \<lparr>so_workers = Some 2, so_buffer = None\<rparr>, 16), (FenceLink Barrier \<lparr>fo_buffer = None\<rparr>, 16), (SyncStage sync_options_new, 8)]
       (admitted_ctx (config_default 4) 1000 \<lparr>tp_sharded = True, tp_sharded_async = False, tp_chain_floor = None\<rparr>
         [(SyncStage \<lparr>so_workers = Some 2, so_buffer = None\<rparr>, 16), (FenceLink Barrier \<lparr>fo_buffer = None\<rparr>, 16), (SyncStage sync_options_new, 8)] ad)
       = Inr (PoolFeeder, cx) \<and>
     cx_pool_jobs cx = 8 \<and> rg_parking_slots rg1 = 8 \<and> lease_drop (the (cx_lease cx)) (end_jobs 8 rg1) = Inr (rg1\<lparr>rg_parking_slots := 0\<rparr>)"
proof -
  obtain d :: "nat lifo_queue" where d: "lifo_holds d 256 0 []" using deque_with [of "[]"] by auto
  let ?rg = "\<lparr>rg_deques = replicate 8 d, rg_spawned = 8, rg_injected = unbounded_new, rg_terminate_count = 1, rg_parking_slots = 0, rg_terminate = [], rg_notes = []\<rparr>"
  let ?b = "\<lparr>sb_stages = 2, sb_fences = 1, sb_explicit_stages = 1, sb_explicit_workers = 2\<rparr>"
  let ?ls = "[(SyncStage \<lparr>so_workers = Some 2, so_buffer = None\<rparr>, 16), (FenceLink Barrier \<lparr>fo_buffer = None\<rparr>, 16), (SyncStage sync_options_new, 8 :: nat)]"
  let ?p = "\<lparr>tp_sharded = True, tp_sharded_async = False, tp_chain_floor = None\<rparr>"
  let ?ad = "\<lparr>ad_lease = Some \<lparr>pl_reserved = 8, pl_spawned = 0\<rparr>, ad_dedicated_threads = False, ad_per_stage_parallelism = 4, ad_worker_slots_left = 6, ad_stages_left = 2\<rparr>"
  have n: "num_threads ?rg = 8" by (simp add: num_threads_def)
  have st: "pool_stages (map fst ?ls) = [\<lparr>so_workers = Some 2, so_buffer = None\<rparr>, sync_options_new]" "fences (map fst ?ls) = 1"
    by (simp_all add: pool_stages_Cons pool_stages_def List.map_filter_simps fences_def)
  have pn: "pins [\<lparr>so_workers = Some 2, so_buffer = None\<rparr>, sync_options_new] = [2]" by (simp add: pins_Cons pins_def List.map_filter_simps sync_options_new_def)
  have cb: "chain_budget (map fst ?ls) = Inr ?b" by (simp add: chain_budget_def link_budget_def add_u64_def u64_mod_def sync_options_new_def)
  have ra: "resolve_admission False 0 [] ?b (config_default 4) 1000 ?rg = Inr (?ad, ?rg\<lparr>rg_parking_slots := 8\<rparr>)"
    unfolding resolve_admission_def n
    by (simp add: floored_channel_capacity_def config_default_def add_u64_def mul_u64_def u64_mod_def default_workers_def try_reserve_parking.simps num_threads_def)
  have rq: "sum_list (map (request 4 1000) [\<lparr>so_workers = Some 2, so_buffer = None\<rparr>, sync_options_new]) = 6" by (simp add: request_def sync_options_new_def)
  have small: "\<forall>l \<in> set (map fst ?ls). link_small l" by (simp add: sync_options_new_def size_ok_def chunk_size_def)
  obtain fd cx s where r: "route_feeder 64 16 ?ls (admitted_ctx (config_default 4) 1000 ?p ?ls ?ad) = Inr (fd, cx)" "s = 0"
      "cx_pool_jobs cx = (if fd = InlineFeeder then 0 else 1) + 1 + 6" "lease_drop (the (cx_lease cx)) (end_jobs (cx_pool_jobs cx) (?rg\<lparr>rg_parking_slots := 8\<rparr>)) = Inr (?rg\<lparr>rg_parking_slots := s\<rparr>)"
    using admitted_runs_fit [of ?ls 1000 64 "config_default 4" ?rg 0 "[]" False 16 ?p] small
    unfolding st pn n cb using ra rq by (auto simp: config_default_def)
  have "fd = PoolFeeder" using r(1)
    by (auto simp: route_feeder_def ctx_buffer_size_def floored_channel_capacity_def mul_u64_def add_u64_def u64_mod_def note_in_flight_def admitted_ctx_def config_default_def
      async_chain_floor_def feed_items_def spawn_stage_jobs_def bind_res_Inr_iff split: if_splits)
  with r d ra show ?thesis by (intro exI [of _ d] exI [of _ ?ad] exI [of _ "?rg\<lparr>rg_parking_slots := 8\<rparr>"] exI [of _ cx]) simp
qed

section \<open>Pins the pool cannot hold\<close>

text \<open>A pin above the size of the pool is not clamped: the run leaves the pool, though one worker would fit.\<close>

lemma oversized_pin_leaves_pool:
  assumes "num_threads rg < w" and "w \<le> 2 ^ 60" and "used \<le> num_threads rg"
  shows "\<exists>ad. resolve_admission on_pool used seen \<lparr>sb_stages = 1, sb_fences = 0, sb_explicit_stages = 1, sb_explicit_workers = w\<rparr> c n rg = Inr (ad, rg) \<and>
     ad_dedicated_threads ad"
  using assms by (auto simp: resolve_admission_def Let_def floored_ok add_u64_def mul_u64_def u64_mod_def dedicated_admission_def)

text \<open>The pins are summed before they are clamped to the number of items, and the sum can overflow.\<close>

lemma huge_pins_overflow:
  "chain_budget [SyncStage \<lparr>so_workers = Some (u64_mod - 1), so_buffer = None\<rparr>, SyncStage \<lparr>so_workers = Some 1, so_buffer = None\<rparr>] = Inl ArithOverflow"
  by (simp add: chain_budget_def link_budget_def add_u64_def u64_mod_def)

end
