(* ===== verification/Spec2Isabelle.thy ===== *)
theory Spec2Isabelle
  imports Sharded_Props Fence Sleep_Claims Sleep_Scan Sleep_Idle Graph_Props Join_Wait Builders St3_Race Registry_Life Latch_Count Admission_Claims
begin

text \<open>
  \<^bold>\<open>A verification of youpipe.\<close> youpipe (\<^verbatim>\<open>src/crates/youpipe/src\<close>) runs pipelines of user closures on a
  work-stealing pool. It has three engines. The \<^emph>\<open>fused\<close> engine (\<^verbatim>\<open>builder/typed/fused.rs\<close>) composes the
  stages of a chain at compile time and runs a whole batch through it by divide and conquer. The
  \<^emph>\<open>streaming\<close> engine (\<^verbatim>\<open>builder/typed/stream.rs\<close>, \<^verbatim>\<open>state/\<close>, \<^verbatim>\<open>handoff/\<close>) runs each stage as worker loops
  joined by channels and puts the results back in order at the end. The \<^emph>\<open>graph\<close> engine (\<^verbatim>\<open>graph/\<close>)
  validates a user-built dag and runs it on the same channels. Below them is the pool (\<^verbatim>\<open>pool/\<close>): jobs,
  fork-join, latches, the registry of workers with its work-stealing deques
  (\<^verbatim>\<open>crates/youpipe-st3\<close>) and its injector (\<^verbatim>\<open>crates/youpipe-concurrent-queue\<close>), and the protocol by which
  idle workers sleep and are woken.

  \<^bold>\<open>Conventions.\<close> Theory \<open>Prelude\<close> has the outcome of code that may go wrong: \<open>'a res\<close> is a fault (an
  explicit panic, an index out of bounds, arithmetic that leaves the machine word, a read of an
  uninitialised slot, a state the source calls unreachable) or a value. A theorem of the form
  \<open>f x = Inr y\<close> therefore says that the code returns and meets none of these. A panic of a \<^emph>\<open>user\<close>
  closure is not a fault but an \<open>outcome\<close> (\<open>Returned\<close> or \<open>Unwound\<close>), since the engines must survive it.
  Sequence numbers and packed counters keep their 64 bits (\<open>mod 2 ^ 64\<close> or \<open>64 word\<close>); sizes are naturals
  with the overflow check written out. Arithmetic is checked, as in the debug build, and the debug
  assertions on which an outcome can depend are faults (a duplicate sequence number, the account of an ordered drain,
  the ranges of slot buffers, the inactive workers against the sleeping ones). Assertions that restate what the
  only callers establish are left out: non-empty batches and equal buffer lengths, an empty claim buffer,
  chunk ranges that end at the batch's length, a random state that is not zero
  (\<open>xorshift_nonzero\<close>), ring capacities that are powers of two (\<open>next_power_of_two_pow2\<close>).
  Loops that end with the channel rather than with their data
  are \<open>partial_function (option)\<close>, with \<open>None\<close> for a run that does not return; each of them is proved to return.

  \<^bold>\<open>What the environment does\<close> is an argument, never an assumption on one schedule: the arrivals a receiver
  sees between its own operations, the room a sender finds, the countdown after which a cancellation becomes
  visible, which halves of a join are stolen, the order in which chunks run, the environment variables,
  how often a weak compare-and-swap fails. The vendored channel is not modelled; what its users rely on is
  stated where the endpoints are defined (first-in first-out, and closed only when drained).

  \<^bold>\<open>The theories\<close>, in the order of the layers:

  \<^item> \<open>Reorder\<close>, \<open>Reorder_Inv\<close>, \<open>Reorder_Ops\<close>, \<open>Reorder_Entries\<close>, \<open>Reorder_Props\<close>: \<^verbatim>\<open>state/reorder.rs\<close>, the re-sequencing buffer,
    operation by operation, with the niche-encoded tags, growth, the drop policy and the debug
    build's panic on a duplicate sequence number. Its invariant, its
    abstraction to a map of pending items, the refinement of \<open>insert_into\<close> against it, losslessness below the
    ceiling, the account of every item above it (delivered, pending or counted as dropped), and the condition under
    which the index computed before a growth misplaces an item. Locale \<open>resequencer\<close>.
  \<^item> \<open>Channel\<close>: \<^verbatim>\<open>handoff/channel.rs\<close>, the endpoint traits as records of operations, batch staging and sending,
    the claim primitive. Locales \<open>receiver\<close> and \<open>sender\<close>, interpreted by the channel endpoints.
  \<^item> \<open>Cancel\<close>: \<^verbatim>\<open>sync/cancel.rs\<close> with an explicit store of flags.
  \<^item> \<open>Drains\<close>, \<open>Drain_Props\<close>, \<open>Sharded\<close>, \<open>Sharded_Props\<close>: \<^verbatim>\<open>state/stream.rs\<close> and \<^verbatim>\<open>handoff/sharded.rs\<close>, the
    terminal drains. They return with every item delivered, in sequence order for the ordered ones, for every
    schedule. Locales \<open>inserter\<close> and \<open>drain\<close>, whose contract is indexed by the multiset of
    sequence numbers still to come.
  \<^item> \<open>Stage_Loops\<close>, \<open>Stage_Props\<close>, \<open>Stage_Claims\<close>, \<open>Fence\<close>: the worker loops, the feeder and the fence of
    \<^verbatim>\<open>builder/typed/stream.rs\<close> and \<^verbatim>\<open>state/fence.rs\<close>: a worker maps exactly what it claimed, in order. Locales
    \<open>stage_io\<close> and \<open>fence_io\<close>.
  \<^item> \<open>Admission\<close>, \<open>Admission_Claims\<close>: how \<^verbatim>\<open>builder/typed/stream.rs\<close> admits a streaming run to the pool: stage
    options, the worker budget of a chain, the parking lease, channel sizes and the walk that spawns feeder,
    workers and fences. A run never parks more jobs on the pool than it leased, and the worker budget never
    underflows, also with a stale reading of the pool's load.
  \<^item> \<open>Sleep_Mask\<close>, \<open>Sleep\<close>, \<open>Latch\<close>, \<open>Sleep_Machine\<close>, \<open>Sleep_Inv\<close>, \<open>Sleep_Safe\<close>, \<open>Sleep_Wake\<close>, \<open>Sleep_Scan\<close>,
    \<open>Sleep_Idle\<close>, \<open>Sleep_Claims\<close>: \<^verbatim>\<open>pool/sleep.rs\<close>, \<^verbatim>\<open>pool/sleep_mask.rs\<close> and the core latch of \<^verbatim>\<open>pool/latch.rs\<close>. The
    machine interleaves the atomic steps of any number of workers, posters and setters, with the condition
    variable as its set of waiting workers: a notification is a step of its own, a wake-up may be spurious, and a
    worker leaves its park only once it is out of the wait set and finds its flag down; invariants by rule
    induction give exact counters and that no wake-up is lost.
  \<^item> \<open>Latch_Count\<close>: the other latches of \<^verbatim>\<open>pool/latch.rs\<close>, and the race of the waiter of a blocking count latch with
    its setters, access by access: the latch is not touched once freed, and the wait returns.
  \<^item> \<open>Join\<close>, \<open>Join_Wait\<close>: \<^verbatim>\<open>pool/join.rs\<close> and the stack jobs of \<^verbatim>\<open>pool/job.rs\<close>. \<open>Join_Wait\<close> runs the wait loop
    itself (latch probe, local pops, the comparison of job ids, foreign jobs) on a frame whose deque is
    shared with nested frames and thieves; it refines the choice of \<open>Join\<close> between popped back and stolen, which is what
    the fork-join recursions of the fused engine take as their schedule.
  \<^item> \<open>St3_Ring\<close>, \<open>St3_Lifo\<close>, \<open>St3_Lifo_Ops\<close>, \<open>St3_Deque\<close>, \<open>St3_Claims\<close>, \<open>St3_Race\<close>: the work-stealing deque
    (\<^verbatim>\<open>lifo.rs\<close>, \<^verbatim>\<open>transfer.rs\<close>): rings with wrapping 32-bit positions, the operations of owner and thieves, their
    refinement of a list, and their interleaving: every item leaves once. Locale \<open>stealing_deque\<close>.
  \<^item> \<open>Queue_Unbounded\<close>, \<open>Queue_Chain\<close>, \<open>Queue_Ops\<close>, \<open>Queue_Batch\<close>, \<open>Queue_Claims\<close>, \<open>Queue_Spec\<close>: the unbounded
    queue (\<^verbatim>\<open>unbounded.rs\<close>) with its blocks in an explicit heap: it refines a list and frees every block. Locale
    \<open>fifo_queue\<close>.
  \<^item> \<open>Registry\<close>, \<open>Registry_Props\<close>, \<open>Registry_Search\<close>, \<open>Registry_Drain\<close>, \<open>Registry_Life\<close>: \<^verbatim>\<open>pool/registry.rs\<close> over the
    two queues: submission, the search for work, the drain of a stopping worker, construction, termination
    and the parking leases.
  \<^item> \<open>Graph_Plan\<close>, \<open>Graph_Props\<close>: \<^verbatim>\<open>graph/plan.rs\<close>, registration and validation; the accepted plans are exactly
    the well-formed acyclic ones and their order is topological.
  \<^item> \<open>Config\<close>, \<open>Fused_Plan\<close>: \<^verbatim>\<open>builder/config.rs\<close> and the splitting rules of \<^verbatim>\<open>fused.rs\<close>: the chunks partition the batch.
  \<^item> \<open>Fused_Mem\<close>, \<open>Fused_Tree\<close>, \<open>Fused_Dispatch\<close>, \<open>Fused_Strategy\<close>: \<^verbatim>\<open>slots.rs\<close>, the cleanup guards, the fork-join
    recursion and the chunk dispatcher of \<^verbatim>\<open>fused.rs\<close>. Locales \<open>tree_strategy\<close>, \<open>erased_tree\<close> and \<open>hybrid_strategy\<close>
    state what a terminal's leaf and cleanup owe the recursion and the dispatcher.
  \<^item> \<open>Fused_Stage\<close>, \<open>Fused_Collect\<close>, \<open>Fused_Filter\<close>, \<open>Fused_Pipe\<close>, \<open>Fused_Claims\<close>: the stage chains of \<^verbatim>\<open>traits.rs\<close>
    and the terminals \<open>collect\<close> and \<open>try_collect\<close>, which agree with running the chain item by item. Locale
    \<open>value_tree\<close> for the recursions whose nodes pass values up.
  \<^item> \<open>Fused_Reduce\<close>, \<open>Fused_Reduce_Laws\<close>, \<open>Fused_Publish\<close>, \<open>Fused_Reduce_Runs\<close>, \<open>Fused_Reduce_Pipe\<close>,
    \<open>Fused_Reduce_Claims\<close>: the reductions, which publish one partial per chunk and combine them left to right;
    for an associative operation they agree with the sequential reduction. Locale \<open>publisher\<close>, which is a
    \<open>hybrid_strategy\<close>.
  \<^item> \<open>Fused_Sink\<close>: \<open>for_each\<close>, with the calls of the closure in a log.
  \<^item> \<open>Fused_Ref\<close>, \<open>Fused_Ref_Sink\<close>, \<open>Fused_Place\<close>, \<open>Fused_Compact\<close>, \<open>Fused_Ref_Pipe\<close>, \<open>Fused_Ref_Claims\<close>: the same
    terminals over a borrowed slice and a generated range, with the three filtering collects (merge,
    count-then-place, write-then-compact), and the entry points of \<^verbatim>\<open>borrowed.rs\<close> and
    \<^verbatim>\<open>scope/pipeline_scope.rs\<close>.
  \<^item> \<open>Builders\<close>: the structs of the pipes and the operations that append a stage.

  \<^bold>\<open>Interfaces.\<close> The locales are interpreted on the model's own definitions: \<open>receiver\<close> and \<open>sender\<close> by the
  channel endpoints, \<open>drain\<close> twice (with the unordered sink and with the reorder buffer), \<open>stage_io\<close> and
  \<open>fence_io\<close> by the two endpoints together, \<open>erased_tree\<close> by each of the eight collecting and sinking terminals,
  \<open>value_tree\<close> by the filtering and reducing ones, \<open>publisher\<close> by the four reductions, \<open>stealing_deque\<close> by the
  LIFO deque, \<open>fifo_queue\<close> by the unbounded queue, \<open>resequencer\<close> by the reorder buffer.

  \<^bold>\<open>Bounds and fuel.\<close> A thief's compare-and-swap may succeed only if fewer than \<open>2 ^ 32\<close> items passed since its
  loads, since the packed positions wrap there (\<open>St3_Race\<close>). The index of the unbounded queue has room for
  \<open>2 ^ 62 - 2\<close> pushes, and an invariant carries what is left of it. The drain of a stopping worker is
  run with fuel; any fuel above the weight of the jobs, which counts what each may submit, gives its result. The
  admission theorem takes sizes below \<open>2 ^ 32\<close> and chains below \<open>2 ^ 16\<close> links, so that the sums of capacities stay in
  a word; beyond them the code itself overflows.

  \<^bold>\<open>Abstractions.\<close> Two chunks of a dispatch, or the two halves of a join, run on disjoint ranges of the slot
  buffers, so they are steps in sequence and the schedule is their order; the sleep protocol, the
  deque and the count latch, where threads do share words, are interleaved access by access. The unbounded queue and the
  registry over it run one operation at a time. Memory orderings weaker than sequential consistency are not
  represented. A streaming store moves a value as a plain write does.

  \<^bold>\<open>Not modelled.\<close> The vendored channel (\<^verbatim>\<open>crates/youpipe-crossfire\<close>: lock-free rings with waker registries) and
  profiler (\<^verbatim>\<open>crates/youpipe-hotpath\<close>); the FIFO deque and the bounded and single-slot queues, which the pool does
  not use; thread spawning, thread-local pointers and job erasure; the asynchronous runtimes and the tasks
  of async stages; the graph's spawned workers. The manifest lists each with its reason.
\<close>

end
